(* ===== verification/Jade_Prelude.thy ===== *)
theory Jade_Prelude
  imports Main "HOL-Library.Word" "HOL-Library.Monad_Syntax"
begin

text \<open>
  Shared vocabulary of the development: the machine types of the C sources, the way an
  assertion failure or an access outside a buffer appears in the model, byte-string
  literals, the generic lemmas on lists, words and options that the components use, and
  the interfaces (locales) that several components have in common.

  Conventions.
  \<^item> \<open>uint8_t\<close> and \<open>char\<close> are \<open>byte\<close>, \<open>uint16_t\<close>, \<open>uint32_t\<close> and \<open>uint64_t\<close> are
    words of their width. \<open>size_t\<close> is \<open>nat\<close> where every value the code computes is
    bounded by the length of a buffer it holds.
  \<^item> A pointer and a length are a list. A pointer that the code compares with NULL is an
    \<open>option\<close>.
  \<^item> A function that can reach \<open>JADE_ASSERT\<close> or \<open>JADE_ABORT\<close>, or that could touch memory
    outside a buffer, has type \<open>'a option\<close>: \<open>None\<close> is the abort or the bad access, so a
    theorem that the result is \<open>Some\<close> says that neither happens.
\<close>

unbundle bit_operations_syntax

named_theorems c_defs \<open>definitions of the C primitives: assertions and buffer accesses\<close>

type_synonym byte = "8 word"
type_synonym u16 = "16 word"
type_synonym u32 = "32 word"
type_synonym u64 = "64 word"
type_synonym bytes = "byte list"

section \<open>C primitives\<close>

definition jade_assert :: "bool \<Rightarrow> unit option" where
  [c_defs]: "jade_assert b = (if b then Some () else None)"

definition buf_get :: "'a list \<Rightarrow> nat \<Rightarrow> 'a option" where
  [c_defs]: "buf_get xs i = (if i < length xs then Some (xs ! i) else None)"

definition buf_set :: "'a list \<Rightarrow> nat \<Rightarrow> 'a \<Rightarrow> 'a list option" where
  [c_defs]: "buf_set xs i v = (if i < length xs then Some (xs[i := v]) else None)"

text \<open>\<open>memcpy (buf + off, src, n)\<close> where \<open>n\<close> is the length of the source list.\<close>

definition buf_write :: "'a list \<Rightarrow> nat \<Rightarrow> 'a list \<Rightarrow> 'a list option" where
  [c_defs]: "buf_write xs off ys =
     (if off + length ys \<le> length xs
      then Some (take off xs @ ys @ drop (off + length ys) xs) else None)"

text \<open>The \<open>n\<close> bytes read at \<open>buf + off\<close>.\<close>

definition buf_read :: "'a list \<Rightarrow> nat \<Rightarrow> nat \<Rightarrow> 'a list option" where
  [c_defs]: "buf_read xs off n =
     (if off + n \<le> length xs then Some (take n (drop off xs)) else None)"

definition chr :: "char \<Rightarrow> byte" where
  "chr c = of_char c"

definition str :: "string \<Rightarrow> bytes" where
  "str s = map chr s"

lemma jade_assert_True [simp]: "jade_assert True = Some ()"
  by (simp add: jade_assert_def)

lemma jade_assert_bind_Some [simp]:
  "(Option.bind (jade_assert b) f = Some y) = (b \<and> f () = Some y)"
  by (simp add: jade_assert_def)

lemma str_Nil [simp]: "str [] = []"
  by (simp add: str_def)

lemma str_Cons [simp]: "str (c # s) = chr c # str s"
  by (simp add: str_def)

lemma length_str [simp]: "length (str s) = length s"
  by (simp add: str_def)

lemma length_buf_write: "buf_write xs off ys = Some zs \<Longrightarrow> length zs = length xs"
  by (auto simp: buf_write_def split: if_splits)

lemma length_buf_set: "buf_set xs i v = Some ys \<Longrightarrow> length ys = length xs"
  by (auto simp: buf_set_def split: if_splits)

lemma length_buf_read: "buf_read xs off n = Some ys \<Longrightarrow> length ys = n"
  by (auto simp: buf_read_def split: if_splits)

text \<open>What a read returns after a write: the written bytes, or the old ones elsewhere.\<close>

lemma buf_read_write_same:
  "buf_write xs off ys = Some zs \<Longrightarrow> buf_read zs off (length ys) = Some ys"
  by (auto simp: buf_write_def buf_read_def split: if_splits)

lemma buf_write_nth:
  assumes "buf_write xs off ys = Some zs" and "i < length xs"
  shows "zs ! i = (if off \<le> i \<and> i < off + length ys then ys ! (i - off) else xs ! i)"
  using assms by (auto simp: buf_write_def nth_append min_def split: if_splits)

section \<open>Lists\<close>

lemma take_drop_block:
  assumes "length xs = n * k" and "i < n"
  shows "length (take k (drop (i * k) xs)) = k"
proof -
  have "i * k + k \<le> n * k"
    using assms(2) by (metis Suc_leI add.commute mult_Suc mult_le_mono1)
  then show ?thesis using assms(1) by simp
qed

lemma concat_blocks:
  assumes "\<And>i. i < n \<Longrightarrow> length (f i) = k"
  shows "length (concat (map f [0..<n])) = n * k"
  using assms by (induction n) auto

section \<open>Words\<close>

lemma word_xor_swap: "(a XOR b) XOR (c XOR d) = (a XOR c) XOR (b XOR (d :: 'a::len word))"
  by (simp add: ac_simps)

lemma word_xor_cancel [simp]: "(a XOR b) XOR b = (a :: 'a::len word)"
  by (simp add: xor.assoc)

lemma word_xor_eq_0_iff: "(a XOR b = 0) = (a = (b :: 'a::len word))"
  by (metis word_xor_cancel xor.left_neutral xor_self_eq)

lemma unat_byte_lt [simp]: "unat (b :: byte) < 256"
  using unsigned_less [of b] by simp

lemma not_bit_of_small:
  assumes "unat w < 2 ^ k" and "k \<le> i"
  shows "\<not> bit (w :: 'a::len word) i"
proof -
  have "unat w < 2 ^ i"
    using assms by (meson less_le_trans one_le_numeral power_increasing)
  then have "\<not> bit (unat w) i" by (simp add: bit_iff_odd)
  then show ?thesis by (auto simp: bit_unsigned_iff bit_imp_le_length)
qed

lemma unat_ucast_widen:
  fixes w :: "'a::len word"
  assumes "LENGTH('a) \<le> LENGTH('b)"
  shows "unat (ucast w :: 'b::len word) = unat w"
proof -
  have "unat w < 2 ^ LENGTH('b)"
    using unsigned_less [of w] assms by (meson less_le_trans one_le_numeral power_increasing)
  then show ?thesis by (simp add: unsigned_ucast_eq take_bit_nat_eq_self)
qed

lemma unat_less_iff_bits:
  "m \<le> LENGTH('a) \<Longrightarrow> unat (w :: 'a::len word) < 2 ^ m \<longleftrightarrow> (\<forall>i. m \<le> i \<longrightarrow> \<not> bit w i)"
proof
  assume "\<forall>i. m \<le> i \<longrightarrow> \<not> bit w i"
  then have "take_bit m w = w" by (intro bit_word_eqI) (use not_less in \<open>auto simp: bit_take_bit_iff\<close>)
  then have "take_bit m (unat w) = unat w" by (metis unsigned_take_bit_eq)
  then show "unat w < 2 ^ m" by (simp add: take_bit_nat_eq_self_iff)
qed (use not_bit_of_small in blast)

lemma inj_ucast_widen:
  assumes "LENGTH('a) \<le> LENGTH('b)"
  shows "inj (ucast :: 'a::len word \<Rightarrow> 'b::len word)"
proof (rule injI)
  fix a b :: "'a word"
  assume "(ucast a :: 'b word) = ucast b"
  then have "unat (ucast a :: 'b word) = unat (ucast b :: 'b word)" by simp
  then show "a = b" using assms by (simp add: unat_ucast_widen word_unat_eq_iff)
qed

lemma ucast_byte_small:
  fixes w :: "'a::len word"
  assumes "unat w < 2 ^ 8"
  shows "ucast (ucast w :: byte) = w"
proof (rule bit_word_eqI)
  fix n assume "n < LENGTH('a)"
  then show "bit (ucast (ucast w :: byte) :: 'a word) n = bit w n"
    using not_bit_of_small [OF assms, of n] by (cases "n < 8") (simp_all add: bit_ucast_iff)
qed

text \<open>Every word is a XOR of powers of two: what holds of those and is kept by XOR holds of all.\<close>

lemma take_bit_Suc_xor:
  "take_bit (Suc n) w = take_bit n w XOR (if bit w n then 2 ^ n else (0 :: 'a::len word))"
  by (rule bit_word_eqI)
    (auto simp: bit_take_bit_iff bit_xor_iff bit_exp_iff less_Suc_eq exp_eq_zero_iff)

lemma word_xor_induct [case_names zero xor pow]:
  fixes w :: "'a::len word"
  assumes "P 0" and "\<And>a b. P a \<Longrightarrow> P b \<Longrightarrow> P (a XOR b)" and "\<And>k. k < LENGTH('a) \<Longrightarrow> P (2 ^ k)"
  shows "P w"
proof -
  have "n \<le> LENGTH('a) \<Longrightarrow> P (take_bit n w)" for n
  proof (induction n)
    case 0
    then show ?case using assms(1) by simp
  next
    case (Suc n)
    then have "P (take_bit n w)" and "P (if bit w n then 2 ^ n else 0)" using assms(1,3) by simp_all
    then show ?case using assms(2) by (simp only: take_bit_Suc_xor)
  qed
  from this [of "LENGTH('a)"] show ?thesis by (simp add: take_bit_word_eq_self)
qed

section \<open>Interfaces shared by several components\<close>

text \<open>A map on words that is linear over XOR: the shape of every checksum step and of every
  multiplication by a constant in a field of characteristic two.\<close>

locale xor_linear =
  fixes f :: "'a::len word \<Rightarrow> 'b::len word"
  assumes f_xor: "f (a XOR b) = f a XOR f b"
begin

lemma f_zero: "f 0 = 0"
  by (metis f_xor xor_self_eq)

text \<open>Two linear maps that agree on the powers of two are equal.\<close>

lemma linear_eqI:
  assumes "\<And>a b. g (a XOR b) = g a XOR g b" and "\<And>k. k < LENGTH('a) \<Longrightarrow> f (2 ^ k) = g (2 ^ k)"
  shows "f w = g w"
proof (induction w rule: word_xor_induct)
  case zero
  show ?case using f_zero assms(1) by (metis xor_self_eq)
qed (simp_all add: f_xor assms)

lemma f_inj_iff: "inj f \<longleftrightarrow> (\<forall>x. f x = 0 \<longrightarrow> x = 0)"
proof
  assume "inj f"
  then show "\<forall>x. f x = 0 \<longrightarrow> x = 0" using f_zero by (metis injD)
next
  assume z: "\<forall>x. f x = 0 \<longrightarrow> x = 0"
  show "inj f"
  proof (rule injI)
    fix x y assume "f x = f y"
    then have "f (x XOR y) = 0" by (simp add: f_xor)
    with z have "x XOR y = 0" by blast
    then show "x = y" by (simp add: word_xor_eq_0_iff)
  qed
qed

end

text \<open>An encoding whose decoder consumes exactly what the encoder wrote and hands back the
  rest: records written one after the other are read back in order.\<close>

locale prefix_codec =
  fixes enc :: "'a \<Rightarrow> bytes"
    and dec :: "bytes \<Rightarrow> ('a \<times> bytes) option"
    and ok :: "'a \<Rightarrow> bool"
  assumes dec_enc: "ok x \<Longrightarrow> dec (enc x @ rest) = Some (x, rest)"
begin

lemma enc_inj: "ok x \<Longrightarrow> ok y \<Longrightarrow> enc x = enc y \<Longrightarrow> x = y"
  by (metis dec_enc append_Nil2 option.inject prod.inject)

lemma enc_prefix_free: "ok x \<Longrightarrow> ok y \<Longrightarrow> enc x @ r = enc y @ s \<Longrightarrow> x = y \<and> r = s"
  by (metis dec_enc option.inject prod.inject)

lemma enc_list_inj:
  assumes "list_all ok xs" and "list_all ok ys" and "\<And>x. enc x \<noteq> []"
    and "concat (map enc xs) = concat (map enc ys)"
  shows "xs = ys"
  using assms(1,2,4)
proof (induction xs arbitrary: ys)
  case Nil
  then show ?case using assms(3) by (cases ys) simp_all
next
  case (Cons x xs)
  then obtain y zs where ys: "ys = y # zs"
    using assms(3) [of x] by (cases ys) simp_all
  with Cons.prems have "enc x @ concat (map enc xs) = enc y @ concat (map enc zs)"
    by simp
  moreover have "ok x" and "ok y" using Cons.prems ys by simp_all
  ultimately have "x = y" and "concat (map enc xs) = concat (map enc zs)"
    using enc_prefix_free by blast+
  with Cons ys show ?case by simp
qed

end

end
