(* ===== verification/Bitstream.thy ===== *)
theory Bitstream
  imports Jade_Prelude
begin

text \<open>
  Big-endian bit streams. The codecs of the sources (base32, the SLIP-39 word values, the
  SeedQR word indices) shift bits through an accumulator word and cut groups of another
  width out of it. This theory gives the stream the accumulator stands for, so that each
  codec is proved once against lists of bits: \<open>be_bits n w\<close> is the low \<open>n\<close> bits of \<open>w\<close>, most
  significant first, and \<open>whole k xs\<close> the longest prefix of \<open>xs\<close> that is made of groups of \<open>k\<close>.
\<close>

definition be_bits :: "nat \<Rightarrow> 'a::len word \<Rightarrow> bool list" where
  "be_bits n w = map (bit w) (rev [0..<n])"

definition whole :: "nat \<Rightarrow> 'a list \<Rightarrow> 'a list" where
  "whole k xs = take (k * (length xs div k)) xs"

definition stream :: "nat \<Rightarrow> 'a::len word list \<Rightarrow> bool list" where
  "stream n ws = concat (map (be_bits n) ws)"

lemma length_be_bits [simp]: "length (be_bits n w) = n"
  by (simp add: be_bits_def)

lemma be_bits_0 [simp]: "be_bits 0 w = []"
  by (simp add: be_bits_def)

lemma nth_be_bits: "i < n \<Longrightarrow> be_bits n w ! i = bit w (n - Suc i)"
  by (simp add: be_bits_def rev_nth)

lemma be_bits_zero [simp]: "be_bits n 0 = replicate n False"
  by (rule nth_equalityI) (simp_all add: nth_be_bits)

lemma stream_Nil [simp]: "stream n [] = []"
  by (simp add: stream_def)

lemma stream_Cons [simp]: "stream n (w # ws) = be_bits n w @ stream n ws"
  by (simp add: stream_def)

lemma stream_append [simp]: "stream n (ws @ vs) = stream n ws @ stream n vs"
  by (simp add: stream_def)

lemma length_stream [simp]: "length (stream n ws) = n * length ws"
  by (induction ws) simp_all

lemma be_bits_inject:
  fixes a b :: "'a::len word"
  assumes "be_bits LENGTH('a) a = be_bits LENGTH('a) b"
  shows "a = b"
proof (rule bit_word_eqI)
  fix n assume n: "n < LENGTH('a)"
  have "be_bits LENGTH('a) a ! (LENGTH('a) - Suc n) = be_bits LENGTH('a) b ! (LENGTH('a) - Suc n)"
    using assms by simp
  moreover have "LENGTH('a) - Suc n < LENGTH('a)" and "LENGTH('a) - Suc (LENGTH('a) - Suc n) = n"
    using n by simp_all
  ultimately show "bit a n = bit b n" by (simp add: nth_be_bits)
qed

lemma byte_be_bits_inject: "be_bits 8 a = be_bits 8 (b :: byte) \<Longrightarrow> a = b"
  using be_bits_inject [of a b] by simp

lemma stream_8_inject:
  "stream 8 as = stream 8 (bs :: bytes) \<Longrightarrow> as = bs"
proof (induction as arbitrary: bs)
  case Nil
  then show ?case by (cases bs) (auto dest: arg_cong [of _ _ length])
next
  case (Cons a as)
  then obtain b cs where bs: "bs = b # cs"
    by (cases bs) (auto dest: arg_cong [of _ _ length])
  with Cons.prems have "be_bits 8 a = be_bits 8 b" and "stream 8 as = stream 8 cs"
    by (simp_all add: append_eq_append_conv)
  then show ?case using Cons.IH bs by (simp add: byte_be_bits_inject)
qed

section \<open>Shifting bits in and cutting groups out\<close>

text \<open>\<open>acc << k | v\<close> appends the \<open>k\<close> bits of \<open>v\<close> to the pending bits of \<open>acc\<close>.\<close>

lemma be_bits_shift_in:
  fixes acc :: "'a::len word" and v :: "'b::len word"
  assumes "n + k \<le> LENGTH('a)" and "unat v < 2 ^ k"
  shows "be_bits (n + k) (push_bit k acc OR ucast v) = be_bits n acc @ be_bits k v"
proof (rule nth_equalityI)
  note high = not_bit_of_small [OF assms(2)]
  show "length (be_bits (n + k) (push_bit k acc OR ucast v)) = length (be_bits n acc @ be_bits k v)"
    by simp
  fix i assume "i < length (be_bits (n + k) (push_bit k acc OR ucast v))"
  then have i: "i < n + k" by simp
  show "be_bits (n + k) (push_bit k acc OR ucast v) ! i = (be_bits n acc @ be_bits k v) ! i"
  proof (cases "i < n")
    case True
    then have "\<not> bit v (n + k - Suc i)" and "k \<le> n + k - Suc i" and "n + k - Suc i < LENGTH('a)"
      using assms True high by auto
    then show ?thesis using True i assms
      by (simp add: nth_append nth_be_bits bit_or_iff bit_push_bit_iff bit_ucast_iff)
  next
    case False
    then have "n + k - Suc i < k" and "k - Suc (i - n) = n + k - Suc i" using i by simp_all
    then show ?thesis using False i assms
      by (simp add: nth_append nth_be_bits bit_or_iff bit_push_bit_iff bit_ucast_iff add.commute)
  qed
qed

text \<open>\<open>acc >> m\<close> drops the last \<open>m\<close> pending bits, so its low \<open>k\<close> bits are the first \<open>k\<close>
  of the \<open>m + k\<close> pending ones.\<close>

lemma be_bits_shift_out:
  "be_bits k (drop_bit m acc) = take k (be_bits (k + m) acc)"
  by (rule nth_equalityI) (simp_all add: nth_be_bits bit_drop_bit_eq add.commute)

lemma be_bits_drop: "be_bits m acc = drop k (be_bits (k + m) acc)"
  by (rule nth_equalityI) (simp_all add: nth_be_bits)

lemma be_bits_split: "be_bits (k + m) acc = be_bits k (drop_bit m acc) @ be_bits m acc"
  by (metis be_bits_shift_out be_bits_drop append_take_drop_id)

lemma be_bits_ucast:
  fixes w :: "'a::len word"
  assumes "k \<le> LENGTH('b)" and "k \<le> LENGTH('a)"
  shows "be_bits k (ucast w :: 'b::len word) = be_bits k w"
  by (rule nth_equalityI) (use assms in \<open>auto simp: nth_be_bits bit_ucast_iff\<close>)

lemma be_bits_mask:
  assumes "k \<le> m"
  shows "be_bits k (w AND mask m) = be_bits k w"
  by (rule nth_equalityI) (use assms in \<open>simp_all add: nth_be_bits bit_and_iff bit_mask_iff
      exp_eq_zero_iff, auto simp: bit_imp_le_length\<close>)

section \<open>Whole groups\<close>

lemma whole_short: "length xs < k \<Longrightarrow> whole k xs = []"
  by (simp add: whole_def)

lemma whole_append:
  assumes "length xs = k" and "0 < k"
  shows "whole k (xs @ ys) = xs @ whole k ys"
proof -
  have "(length xs + length ys) div k = Suc (length ys div k)"
    using assms by (simp add: div_add_self1)
  then show ?thesis using assms by (simp add: whole_def)
qed

lemma length_whole: "0 < k \<Longrightarrow> length (whole k xs) = k * (length xs div k)"
  by (simp add: whole_def)

lemma whole_exact: "k dvd length xs \<Longrightarrow> whole k xs = xs"
  by (simp add: whole_def)

lemma whole_append_short:
  assumes "k dvd length xs" and "length ys < k"
  shows "whole k (xs @ ys) = xs"
proof -
  have "(length xs + length ys) div k = length xs div k"
    using assms by (elim dvdE) simp
  then show ?thesis using assms by (simp add: whole_def)
qed

end
