(* ===== verification/Jade_Util.thy ===== *)
theory Jade_Util
  imports Bitstream
begin

text \<open>
  The helpers of \<open>main/utils/util.h\<close> and \<open>main/utils/util.c\<close>: BIP32 path elements and the
  Green path shapes, case-insensitive search, word splitting, base32 in both directions and
  decimal parsing with overflow checks. The theorems: base32 round trips for every byte
  string (with and without padding) and never writes past its buffer, \<open>parse_uint64\<close>
  accepts exactly the decimal numerals below \<open>2 ^ 64\<close>, and \<open>split_text\<close> never trips its
  assertions.
\<close>

section \<open>BIP32 path elements\<close>

definition ishardened :: "u32 \<Rightarrow> bool" where
  "ishardened n = (n AND 0x80000000 \<noteq> 0)"

definition harden :: "u32 \<Rightarrow> u32" where
  "harden n = n OR 0x80000000"

definition unharden :: "u32 \<Rightarrow> u32" where
  "unharden n = n AND NOT 0x80000000"

text \<open>The loop carries the index and the start found so far.\<close>

fun path_tail_loop :: "u32 list \<Rightarrow> nat \<Rightarrow> nat \<Rightarrow> nat" where
  "path_tail_loop [] i tail_start = tail_start"
| "path_tail_loop (p # ps) i tail_start =
     path_tail_loop ps (Suc i) (if ishardened p then Suc i else tail_start)"

definition path_get_unhardened_tail_index :: "u32 list \<Rightarrow> nat" where
  "path_get_unhardened_tail_index path = path_tail_loop path 0 0"

definition GA_USER_PATH_MAX_LEN :: nat where "GA_USER_PATH_MAX_LEN = 4"
definition GA_RECOVERY_PATH_LEN :: nat where "GA_RECOVERY_PATH_LEN = 2"
definition MAX_GASERVICE_PATH_LEN :: nat where "MAX_GASERVICE_PATH_LEN = 35"

definition is_potential_green_recovery_path :: "u32 list \<Rightarrow> bool" where
  "is_potential_green_recovery_path path =
     (if length path \<noteq> GA_RECOVERY_PATH_LEN then False
      else path ! 0 = 1 \<and> \<not> ishardened (path ! 1))"

text \<open>The out parameter \<open>subaccount_out\<close> is the value returned on success.\<close>

definition is_potential_green_user_path :: "u32 list \<Rightarrow> u32 option" where
  "is_potential_green_user_path path =
     (if length path \<noteq> GA_USER_PATH_MAX_LEN
      then (if is_potential_green_recovery_path path then Some 0 else None)
      else if path ! 0 = harden 3 \<and> ishardened (path ! 1) \<and> path ! 2 = 1
              \<and> path ! 3 \<noteq> 0 \<and> \<not> ishardened (path ! 3)
           then Some (unharden (path ! 1))
      else None)"

definition green_server_element_ok :: "u32 list \<Rightarrow> nat \<Rightarrow> nat \<Rightarrow> bool" where
  "green_server_element_ok path tail_len i =
     (if i < length path - tail_len \<and> path ! i > 0xffff then False
      else if ishardened (path ! i) then False else True)"

definition is_potential_green_server_path :: "u32 list \<Rightarrow> u32 option" where
  "is_potential_green_server_path path =
     (if (if length path = MAX_GASERVICE_PATH_LEN - 1 then path ! 0 = 1
          else if length path = MAX_GASERVICE_PATH_LEN then path ! 0 = 3
          else False)
      then
        (let tail_len = (if length path = MAX_GASERVICE_PATH_LEN then 2 else 1)
         in if list_all (green_server_element_ok path tail_len) [1..<length path]
            then Some (if length path = MAX_GASERVICE_PATH_LEN
                       then path ! (length path - 2) else 0)
            else None)
      else None)"

section \<open>Text\<close>

definition tolower_b :: "byte \<Rightarrow> byte" where
  "tolower_b c = (if chr CHR ''A'' \<le> c \<and> c \<le> chr CHR ''Z'' then c + 32 else c)"

text \<open>\<open>strncasecmp (a, b, n) == 0\<close> on strings that end where the list ends.\<close>

fun strncasecmp_eq :: "bytes \<Rightarrow> bytes \<Rightarrow> nat \<Rightarrow> bool" where
  "strncasecmp_eq as bs 0 = True"
| "strncasecmp_eq [] [] (Suc n) = True"
| "strncasecmp_eq (a # as) (b # bs) (Suc n) =
     (if tolower_b a \<noteq> tolower_b b then False
      else if a = 0 then True else strncasecmp_eq as bs n)"
| "strncasecmp_eq (a # as) [] (Suc n) = (a = 0)"
| "strncasecmp_eq [] (b # bs) (Suc n) = (b = 0)"

text \<open>\<open>strncasestr\<close>: the offset of the match, \<open>None\<close> for NULL. The end of the list is the
  terminating NUL.\<close>

fun strncasestr_loop :: "bytes \<Rightarrow> bytes \<Rightarrow> nat \<Rightarrow> nat \<Rightarrow> nat option" where
  "strncasestr_loop [] word len off = None"
| "strncasestr_loop (c # cs) word len off =
     (if c = 0 \<or> len < length word then None
      else if strncasecmp_eq (c # cs) word (length word) then Some off
      else strncasestr_loop cs word (len - 1) (Suc off))"

definition strncasestr :: "bytes \<Rightarrow> bytes \<Rightarrow> nat \<Rightarrow> nat option" where
  "strncasestr s word len = (if len = 0 then None else strncasestr_loop s word len 0)"

definition SPLIT_TEXT_LEN :: "nat \<Rightarrow> nat \<Rightarrow> nat" where
  "SPLIT_TEXT_LEN len wordlen = len + len div wordlen + 1"

text \<open>\<open>strncpy\<close> of exactly \<open>n\<close> bytes: it stops at a NUL and pads with NULs.\<close>

definition strncpy_bytes :: "bytes \<Rightarrow> nat \<Rightarrow> bytes" where
  "strncpy_bytes src n =
     (let c = takeWhile (\<lambda>b. b \<noteq> 0) (take n src) in c @ replicate (n - length c) 0)"

text \<open>The loop state: what is left of the source, the bytes written so far and the number of
  words. The result is the written prefix of \<open>output\<close> and \<open>num_words\<close>.\<close>

function split_text_loop :: "bytes \<Rightarrow> nat \<Rightarrow> nat \<Rightarrow> bytes \<Rightarrow> nat \<Rightarrow> (bytes \<times> nat) option" where
  "split_text_loop src wordlen output_len out num_words =
     (if src = [] \<or> wordlen = 0 then
        do { jade_assert (length out \<le> output_len); Some (out, num_words) }
      else
        let remaining = length src;
            nchars = (if remaining > wordlen then wordlen else remaining)
        in do {
          jade_assert (length out + nchars + 1 \<le> output_len);
          split_text_loop (drop nchars src) wordlen output_len
            (out @ strncpy_bytes src nchars @ [0]) (num_words + 1) })"
  by pat_completeness auto
termination
  by (relation "measure (\<lambda>(src, w, l, out, n). length src)") auto

declare split_text_loop.simps [simp del]

definition split_text :: "bytes \<Rightarrow> nat \<Rightarrow> nat \<Rightarrow> (bytes \<times> nat) option" where
  "split_text src wordlen output_len = do {
     jade_assert (wordlen \<noteq> 0);
     jade_assert (SPLIT_TEXT_LEN (length src) wordlen \<le> output_len);
     split_text_loop src wordlen output_len [] 0 }"

section \<open>Base32\<close>

text \<open>The five-bit value of a character, \<open>None\<close> for a bad one.\<close>

definition base32_digit :: "byte \<Rightarrow> byte option" where
  "base32_digit ch =
     (if chr CHR ''a'' \<le> ch \<and> ch \<le> chr CHR ''z'' \<or> chr CHR ''A'' \<le> ch \<and> ch \<le> chr CHR ''Z''
      then Some ((ch AND 0x1F) - 1)
      else if chr CHR ''2'' \<le> ch \<and> ch \<le> chr CHR ''7'' then Some (ch - 24)
      else None)"

text \<open>The decoding loop: \<open>tmp\<close> is the 32-bit accumulator, \<open>num_bits\<close> its pending bits and
  \<open>out\<close> the bytes written. The empty list is the return value 0.\<close>

fun base32_to_bin_loop :: "nat \<Rightarrow> bytes \<Rightarrow> u32 \<Rightarrow> nat \<Rightarrow> bytes \<Rightarrow> bytes" where
  "base32_to_bin_loop bin_len [] tmp num_bits out = out"
| "base32_to_bin_loop bin_len (c # cs) tmp num_bits out =
     (if c = 0 then out
      else case base32_digit c of
        None \<Rightarrow> if c = chr CHR ''='' then out else []
      | Some d \<Rightarrow>
          let tmp' = push_bit 5 tmp OR ucast d; nb = num_bits + 5 in
          if 8 \<le> nb then
            (if bin_len \<le> length out then []
             else base32_to_bin_loop bin_len cs tmp' (nb - 8) (out @ [ucast (drop_bit (nb - 8) tmp')]))
          else base32_to_bin_loop bin_len cs tmp' nb out)"

definition base32_to_bin :: "bytes \<Rightarrow> nat \<Rightarrow> bytes option" where
  "base32_to_bin b32_str bin_len = do {
     jade_assert (b32_str \<noteq> []);
     jade_assert (bin_len \<noteq> 0);
     Some (base32_to_bin_loop bin_len b32_str 0 0 []) }"

definition b32_alphabet :: bytes where
  "b32_alphabet = str ''ABCDEFGHIJKLMNOPQRSTUVWXYZ234567''"

function bin_to_base32_emit :: "u32 \<Rightarrow> nat \<Rightarrow> bytes \<times> nat" where
  "bin_to_base32_emit tmp num_bits =
     (if 5 \<le> num_bits then
        (let c = b32_alphabet ! unat (drop_bit (num_bits - 5) tmp AND 0x1F);
             (cs, nb) = bin_to_base32_emit tmp (num_bits - 5)
         in (c # cs, nb))
      else ([], num_bits))"
  by pat_completeness auto
termination
  by (relation "measure snd") auto

declare bin_to_base32_emit.simps [simp del]

fun bin_to_base32_loop :: "bytes \<Rightarrow> u32 \<Rightarrow> nat \<Rightarrow> bytes" where
  "bin_to_base32_loop [] tmp num_bits =
     (if 0 < num_bits then [b32_alphabet ! unat (push_bit (5 - num_bits) tmp AND 0x1F)] else [])"
| "bin_to_base32_loop (b # bs) tmp num_bits =
     (let tmp' = push_bit 8 tmp OR ucast b;
          (cs, nb) = bin_to_base32_emit tmp' (num_bits + 8)
      in cs @ bin_to_base32_loop bs tmp' nb)"

text \<open>\<open>Some None\<close> is the return value false; the string is given without its NUL.\<close>

definition bin_to_base32 :: "bytes \<Rightarrow> nat \<Rightarrow> bool \<Rightarrow> bytes option option" where
  "bin_to_base32 bin b32_str_len use_padding = do {
     jade_assert (bin \<noteq> []);
     jade_assert (b32_str_len \<noteq> 0);
     let required_chars = (length bin * 8 + 4) div 5;
         required_padding = (if use_padding \<and> required_chars mod 8 \<noteq> 0
                             then 8 - required_chars mod 8 else 0)
     in if b32_str_len < required_chars + required_padding + 1 then Some None
        else Some (Some (bin_to_base32_loop bin 0 0 @ replicate required_padding (chr CHR ''=''))) }"

section \<open>Decimal numbers\<close>

fun parse_uint64_loop :: "bytes \<Rightarrow> u64 \<Rightarrow> u64 option" where
  "parse_uint64_loop [] value = Some value"
| "parse_uint64_loop (ch # cs) value =
     (if ch < chr CHR ''0'' \<or> chr CHR ''9'' < ch then None
      else let d = ucast (ch - chr CHR ''0'') :: u64;
               max_mul = 0xffffffffffffffff div 10;
               max_mod = 0xffffffffffffffff mod 10
           in if value > max_mul \<or> (value = max_mul \<and> d > max_mod) then None
              else parse_uint64_loop cs (value * 10 + d))"

definition parse_uint64 :: "bytes \<Rightarrow> u64 option" where
  "parse_uint64 s = (if s = [] \<or> 20 < length s then None else parse_uint64_loop s 0)"

definition parse_uint32 :: "bytes \<Rightarrow> u32 option" where
  "parse_uint32 s =
     (case parse_uint64 s of
        None \<Rightarrow> None
      | Some value \<Rightarrow> if value > 0xffffffff then None else Some (ucast (value AND 0xffffffff)))"

section \<open>Big-endian integers\<close>

definition uint32_to_be :: "u32 \<Rightarrow> bytes" where
  "uint32_to_be val = [ucast (drop_bit 24 val AND 0xFF), ucast (drop_bit 16 val AND 0xFF), ucast (drop_bit 8 val AND 0xFF), ucast (val AND 0xFF)]"

lemma length_uint32_to_be [simp]: "length (uint32_to_be v) = 4"
  by (simp add: uint32_to_be_def)

section \<open>Facts about base32\<close>

abbreviation b32_char :: "u32 \<Rightarrow> byte" where
  "b32_char d \<equiv> b32_alphabet ! unat d"

lemma length_b32_alphabet [simp]: "length b32_alphabet = 32"
  by (simp add: b32_alphabet_def)

lemma b32_alphabet_digits:
  "map base32_digit b32_alphabet = map (\<lambda>i. Some (of_nat i)) [0..<32]"
  by code_simp

lemma b32_alphabet_no_stop: "list_all (\<lambda>c. c \<noteq> 0) b32_alphabet"
  by code_simp

lemma base32_digit_b32_char:
  assumes "d < 32"
  shows "base32_digit (b32_char d) = Some (ucast d)" and "b32_char d \<noteq> 0"
proof -
  have d: "unat d < 32" using assms by (simp add: word_less_nat_alt)
  have "base32_digit (b32_char d) = map base32_digit b32_alphabet ! unat d"
    using d by simp
  also have "\<dots> = Some (of_nat (unat d))"
    unfolding b32_alphabet_digits using d by simp
  finally show "base32_digit (b32_char d) = Some (ucast d)" by simp
  show "b32_char d \<noteq> 0"
    using b32_alphabet_no_stop d by (simp add: list_all_length)
qed

lemma low5_bits: "unat d < 32 \<Longrightarrow> 5 \<le> i \<Longrightarrow> \<not> bit d i"
  using not_bit_of_small [of d 5 i] by simp

lemma bin_to_base32_emit_stream:
  "\<exists>ds. bin_to_base32_emit tmp nb = (map b32_char ds, nb mod 5) \<and> (\<forall>d\<in>set ds. d < 32)
      \<and> stream 5 ds @ be_bits (nb mod 5) tmp = be_bits nb tmp"
proof (induction tmp nb rule: bin_to_base32_emit.induct)
  case (1 tmp nb)
  show ?case
  proof (cases "5 \<le> nb")
    case False
    then show ?thesis by (intro exI [of _ "[]"]) (simp add: bin_to_base32_emit.simps)
  next
    case True
    define d where "d = drop_bit (nb - 5) tmp AND 0x1F"
    obtain ds where ds: "bin_to_base32_emit tmp (nb - 5) = (map b32_char ds, (nb - 5) mod 5)"
        "\<forall>d\<in>set ds. d < 32" "stream 5 ds @ be_bits ((nb - 5) mod 5) tmp = be_bits (nb - 5) tmp"
      using 1 [OF True] by blast
    have mod: "(nb - 5) mod 5 = nb mod 5" using True by (metis le_mod_geq)
    have "d \<le> 0x1F" unfolding d_def by (rule word_and_le1)
    then have "d < 32" by (rule le_less_trans) simp
    moreover have "be_bits 5 d = be_bits 5 (drop_bit (nb - 5) tmp)"
      using be_bits_mask [of 5 5 "drop_bit (nb - 5) tmp"] by (simp add: d_def mask_eq_exp_minus_1)
    ultimately show ?thesis
      using True ds mod be_bits_split [of 5 "nb - 5" tmp]
      by (intro exI [of _ "d # ds"]) (simp add: bin_to_base32_emit.simps [of tmp nb] d_def)
  qed
qed

lemma bin_to_base32_loop_stream:
  assumes "nb < 5"
  shows "\<exists>ds. bin_to_base32_loop bs tmp nb = map b32_char ds \<and> (\<forall>d\<in>set ds. d < 32)
      \<and> stream 5 ds = be_bits nb tmp @ stream 8 bs
           @ replicate ((5 - (nb + 8 * length bs) mod 5) mod 5) False"
  using assms
proof (induction bs arbitrary: tmp nb)
  case Nil
  show ?case
  proof (cases "nb = 0")
    case True
    then show ?thesis by (intro exI [of _ "[]"]) simp
  next
    case False
    define d where "d = push_bit (5 - nb) tmp AND 0x1F"
    have "d \<le> 0x1F" unfolding d_def by (rule word_and_le1)
    then have "d < 32" by (rule le_less_trans) simp
    have "be_bits 5 d = be_bits 5 (push_bit (5 - nb) tmp OR ucast (0 :: u32))"
      using be_bits_mask [of 5 5 "push_bit (5 - nb) tmp"] by (simp add: d_def mask_eq_exp_minus_1)
    also have "\<dots> = be_bits nb tmp @ be_bits (5 - nb) (0 :: u32)"
      using be_bits_shift_in [of nb "5 - nb" "0 :: u32" tmp] Nil False by simp
    finally show ?thesis
      using \<open>d < 32\<close> Nil False by (intro exI [of _ "[d]"]) (simp add: d_def)
  qed
next
  case (Cons b bs)
  define t where "t = push_bit 8 tmp OR ucast b"
  obtain ds where ds: "bin_to_base32_emit t (nb + 8) = (map b32_char ds, (nb + 8) mod 5)"
      "\<forall>d\<in>set ds. d < 32" "stream 5 ds @ be_bits ((nb + 8) mod 5) t = be_bits (nb + 8) t"
    using bin_to_base32_emit_stream by blast
  obtain es where es: "bin_to_base32_loop bs t ((nb + 8) mod 5) = map b32_char es"
      "\<forall>d\<in>set es. d < 32"
      "stream 5 es = be_bits ((nb + 8) mod 5) t @ stream 8 bs
         @ replicate ((5 - ((nb + 8) mod 5 + 8 * length bs) mod 5) mod 5) False"
    using Cons.IH [of "(nb + 8) mod 5" t] by auto
  have "be_bits (nb + 8) t = be_bits nb tmp @ be_bits 8 b"
    unfolding t_def using Cons.prems
    by (intro be_bits_shift_in) simp_all
  moreover have "((nb + 8) mod 5 + 8 * length bs) mod 5 = (nb + 8 * length (b # bs)) mod 5"
    by (simp add: mod_add_left_eq) (simp add: algebra_simps)
  ultimately show ?case
    using ds es by (intro exI [of _ "ds @ es"]) (auto simp: t_def [symmetric] Let_def)
qed

lemma base32_to_bin_loop_stream:
  assumes "\<forall>d\<in>set ds. d < 32" and "nb < 8" and "length out + (nb + 5 * length ds) div 8 \<le> bin_len"
    and "tail = [] \<or> hd tail = chr CHR ''=''"
  shows "stream 8 (base32_to_bin_loop bin_len (map b32_char ds @ tail) tmp nb out)
           = stream 8 out @ whole 8 (be_bits nb tmp @ stream 5 ds)"
  using assms(1-3)
proof (induction ds arbitrary: tmp nb out)
  case Nil
  then show ?case using assms(4)
    by (cases tail) (auto simp: whole_short base32_digit_def chr_def)
next
  case (Cons d ds)
  define t where "t = push_bit 5 tmp OR ucast (ucast d :: byte)"
  have dlt: "unat d < 2 ^ 5" using Cons.prems by (simp add: word_less_nat_alt)
  then have tu: "t = push_bit 5 tmp OR ucast d"
    using ucast_byte_small [of d] by (simp add: t_def)
  have pend: "be_bits (nb + 5) t = be_bits nb tmp @ be_bits 5 d"
    unfolding tu using Cons.prems dlt by (intro be_bits_shift_in) simp_all
  note dig = base32_digit_b32_char [of d]
  show ?case
  proof (cases "8 \<le> nb + 5")
    case True
    define m where "m = nb - 3"
    have m: "nb + 5 = 8 + m" "nb + 5 - 8 = m" "m < 8" using True Cons.prems by (auto simp: m_def)
    have len: "length out < bin_len"
      "length (out @ [ucast (drop_bit m t)]) + (m + 5 * length ds) div 8 \<le> bin_len"
    proof -
      have "nb + 5 * length (d # ds) = (m + 5 * length ds) + 8" using m by simp
      then have "(nb + 5 * length (d # ds)) div 8 = Suc ((m + 5 * length ds) div 8)"
        by simp
      then show "length out < bin_len"
        "length (out @ [ucast (drop_bit m t)]) + (m + 5 * length ds) div 8 \<le> bin_len"
        using Cons.prems(3) by simp_all
    qed
    have cut: "be_bits 8 (ucast (drop_bit m t) :: byte) @ be_bits m t = be_bits nb tmp @ be_bits 5 d"
      using be_bits_split [of 8 m t] pend m by (simp add: be_bits_ucast)
    have "stream 8 (base32_to_bin_loop bin_len (map b32_char (d # ds) @ tail) tmp nb out)
        = stream 8 (base32_to_bin_loop bin_len (map b32_char ds @ tail) t m (out @ [ucast (drop_bit m t)]))"
      using True dig Cons.prems len m by (simp add: t_def Let_def)
    also have "\<dots> = stream 8 (out @ [ucast (drop_bit m t)]) @ whole 8 (be_bits m t @ stream 5 ds)"
      using Cons.prems m len by (intro Cons.IH) auto
    also have "\<dots> = stream 8 out @ whole 8 ((be_bits 8 (ucast (drop_bit m t) :: byte) @ be_bits m t) @ stream 5 ds)"
      by (simp add: whole_append)
    finally show ?thesis by (simp add: cut)
  next
    case False
    have "stream 8 (base32_to_bin_loop bin_len (map b32_char (d # ds) @ tail) tmp nb out)
        = stream 8 (base32_to_bin_loop bin_len (map b32_char ds @ tail) t (nb + 5) out)"
      using False dig Cons.prems by (simp add: t_def Let_def)
    also have "\<dots> = stream 8 out @ whole 8 (be_bits (nb + 5) t @ stream 5 ds)"
      using Cons.prems False by (intro Cons.IH) auto
    finally show ?thesis by (simp add: pend)
  qed
qed

lemma ceil_div_5:
  assumes "5 * L = n + (5 - n mod 5) mod (5 :: nat)"
  shows "L = (n + 4) div 5"
proof (cases "n mod 5 = 0")
  case True
  then show ?thesis using assms by auto
next
  case False
  then have "(5 - n mod 5) mod 5 = 5 - n mod 5" by simp
  then have "n + 4 = 5 * L + (n mod 5 - 1)" and "n mod 5 - 1 < 5"
    using assms False by simp_all
  then show ?thesis by (metis div_mult_self4 div_less add.commute add_0 zero_neq_numeral)
qed

lemma bin_to_base32_loop_length:
  "length (bin_to_base32_loop bin 0 0) = (length bin * 8 + 4) div 5"
proof -
  obtain ds where "bin_to_base32_loop bin 0 0 = map b32_char ds"
    and "stream 5 ds = stream 8 bin @ replicate ((5 - (8 * length bin) mod 5) mod 5) False"
    using bin_to_base32_loop_stream [of 0 bin 0] by auto
  then have "length (bin_to_base32_loop bin 0 0) = length ds" and
    "length (stream 5 ds) = length (stream 8 bin @ replicate ((5 - (8 * length bin) mod 5) mod 5) False)"
    by simp_all
  then have "length (bin_to_base32_loop bin 0 0) = length ds"
    and "5 * length ds = 8 * length bin + (5 - (8 * length bin) mod 5) mod 5"
    by simp_all
  then show ?thesis using ceil_div_5 [of "length ds" "8 * length bin"] by (simp add: mult.commute)
qed

lemma base32_to_bin_loop_length:
  "length out \<le> bin_len \<Longrightarrow> length (base32_to_bin_loop bin_len s tmp nb out) \<le> bin_len"
  by (induction s arbitrary: tmp nb out) (auto simp: Let_def split: option.split)

section \<open>Decimal parsing against the value of the numeral\<close>

definition is_digit :: "byte \<Rightarrow> bool" where
  "is_digit c = (chr CHR ''0'' \<le> c \<and> c \<le> chr CHR ''9'')"

fun dec_value :: "nat \<Rightarrow> bytes \<Rightarrow> nat" where
  "dec_value v [] = v"
| "dec_value v (c # cs) = dec_value (v * 10 + (unat c - 48)) cs"

lemma dec_value_ge: "v \<le> dec_value v cs"
proof (induction cs arbitrary: v)
  case (Cons c cs)
  have "v \<le> v * 10 + (unat c - 48)" by simp
  also have "\<dots> \<le> dec_value (v * 10 + (unat c - 48)) cs" by (rule Cons)
  finally show ?case by simp
qed simp

lemma is_digit_unat: "is_digit c \<longleftrightarrow> 48 \<le> unat c \<and> unat c \<le> 57"
  by (simp add: is_digit_def chr_def word_le_nat_alt)

lemma digit_step:
  fixes v :: u64
  assumes "is_digit c"
  defines "d \<equiv> ucast (c - chr CHR ''0'') :: u64"
  shows "(v > 0xffffffffffffffff div 10 \<or> (v = 0xffffffffffffffff div 10 \<and> d > 0xffffffffffffffff mod 10))
           \<longleftrightarrow> 2 ^ 64 \<le> unat v * 10 + (unat c - 48)"
    and "unat v * 10 + (unat c - 48) < 2 ^ 64 \<Longrightarrow>
           unat (v * 10 + d) = unat v * 10 + (unat c - 48)"
proof -
  have c: "48 \<le> unat c" "unat c \<le> 57" using assms by (simp_all add: is_digit_unat)
  have "unat (c - 48) = unat c - 48"
    using c by (simp add: unat_sub word_le_nat_alt)
  then have d: "unat d = unat c - 48" by (simp add: d_def chr_def unat_ucast_widen)
  show "(v > 0xffffffffffffffff div 10 \<or> (v = 0xffffffffffffffff div 10 \<and> d > 0xffffffffffffffff mod 10))
           \<longleftrightarrow> 2 ^ 64 \<le> unat v * 10 + (unat c - 48)"
    using c d by (auto simp: word_less_nat_alt word_unat_eq_iff)
  show "unat v * 10 + (unat c - 48) < 2 ^ 64 \<Longrightarrow>
           unat (v * 10 + d) = unat v * 10 + (unat c - 48)"
    using d by (simp add: unat_word_ariths)
qed

lemma parse_uint64_loop_step:
  assumes "is_digit c"
  shows "parse_uint64_loop (c # cs) v =
    (if 2 ^ 64 \<le> unat v * 10 + (unat c - 48) then None
     else parse_uint64_loop cs (v * 10 + ucast (c - chr CHR ''0'')))"
proof -
  have "\<not> (c < chr CHR ''0'' \<or> chr CHR ''9'' < c)" using assms by (auto simp: is_digit_def)
  then show ?thesis
    by (simp only: parse_uint64_loop.simps Let_def digit_step(1) [OF assms] if_False)
qed

lemma parse_uint64_loop_value:
  "parse_uint64_loop s v =
     (if list_all is_digit s \<and> dec_value (unat v) s < 2 ^ 64
      then Some (of_nat (dec_value (unat v) s)) else None)"
proof (induction s arbitrary: v)
  case Nil
  then show ?case using unsigned_less [of v] by simp
next
  case (Cons c cs)
  let ?d = "ucast (c - chr CHR ''0'') :: u64" and ?w = "unat v * 10 + (unat c - 48)"
  show ?case
  proof (cases "is_digit c")
    case False
    then show ?thesis by (auto simp: is_digit_def not_le)
  next
    case True
    show ?thesis
    proof (cases "?w < 2 ^ 64")
      case True
      then show ?thesis
        using Cons.IH [of "v * 10 + ?d"] digit_step(2) [OF \<open>is_digit c\<close>, of v] \<open>is_digit c\<close>
        by (simp add: parse_uint64_loop_step del: parse_uint64_loop.simps)
    next
      case False
      then have "\<not> dec_value ?w cs < 2 ^ 64" using dec_value_ge [of ?w cs] by linarith
      then show ?thesis
        using False \<open>is_digit c\<close> by (simp add: parse_uint64_loop_step del: parse_uint64_loop.simps)
    qed
  qed
qed

section \<open>Word splitting\<close>

definition num_chunks :: "nat \<Rightarrow> nat \<Rightarrow> nat" where
  "num_chunks len w = (len + w - 1) div w"

lemma num_chunks_step:
  assumes "0 < w" and "w < len"
  shows "num_chunks len w = Suc (num_chunks (len - w) w)"
proof -
  have "len + w - 1 = (len - 1) + w" and "len - w + w - 1 = len - 1" using assms by simp_all
  then show ?thesis using assms div_add_self2 [of w "len - 1"] by (simp only: num_chunks_def)
qed

lemma num_chunks_last:
  assumes "0 < len" and "len \<le> w"
  shows "num_chunks len w = 1"
proof -
  have "len + w - 1 = (len - 1) + w" and "(len - 1) div w = 0" using assms by simp_all
  then show ?thesis using assms div_add_self2 [of w "len - 1"] by (simp only: num_chunks_def)
qed

lemma num_chunks_le:
  assumes "0 < w"
  shows "num_chunks len w \<le> len div w + 1"
proof -
  have "(len + w - 1) div w \<le> (len + w) div w" by (simp add: div_le_mono)
  also have "\<dots> = len div w + 1" using assms div_add_self2 [of w len] by simp
  finally show ?thesis by (simp add: num_chunks_def)
qed

lemma strncpy_no_nul:
  assumes "0 \<notin> set src" and "n \<le> length src"
  shows "strncpy_bytes src n = take n src"
proof -
  have "takeWhile (\<lambda>b. b \<noteq> 0) (take n src) = take n src"
    using assms(1) by (subst takeWhile_eq_all_conv) (auto dest: in_set_takeD)
  moreover have "n - length (take n src) = 0" using assms(2) by simp
  ultimately show ?thesis unfolding strncpy_bytes_def Let_def by (simp only:) simp
qed

lemma length_strncpy [simp]: "length (strncpy_bytes src n) = n"
proof -
  have "length (takeWhile (\<lambda>b. b \<noteq> 0) (take n src)) \<le> n"
    using length_takeWhile_le [of "\<lambda>b. b \<noteq> 0" "take n src"] by simp
  then show ?thesis by (simp add: strncpy_bytes_def Let_def)
qed

lemma split_text_loop_result:
  assumes "0 < w" and "length out + length src + num_chunks (length src) w \<le> n"
  shows "\<exists>res. split_text_loop src w n out k = Some (out @ res, k + num_chunks (length src) w)
    \<and> length res = length src + num_chunks (length src) w
    \<and> (0 \<notin> set src \<longrightarrow> filter (\<lambda>b. b \<noteq> 0) res = src)"
  using assms
proof (induction src w n out k rule: split_text_loop.induct)
  case (1 src w n out k)
  show ?case
  proof (cases "src = []")
    case True
    then show ?thesis using "1.prems"
      by (simp add: split_text_loop.simps num_chunks_def)
  next
    case False
    define m where "m = (if length src > w then w else length src)"
    have m: "m \<le> length src" "0 < m" using False "1.prems" by (auto simp: m_def)
    have chunks: "num_chunks (length src) w = Suc (num_chunks (length src - m) w)"
    proof (cases "length src > w")
      case True
      then show ?thesis using "1.prems" num_chunks_step [of w "length src"] by (simp add: m_def)
    next
      case False
      then show ?thesis
        using \<open>src \<noteq> []\<close> num_chunks_last [of "length src" w] "1.prems" by (simp add: m_def num_chunks_def)
    qed
    have room: "length out + m + 1 \<le> n" using "1.prems" m chunks by simp
    obtain res where res: "split_text_loop (drop m src) w n (out @ strncpy_bytes src m @ [0]) (k + 1)
        = Some ((out @ strncpy_bytes src m @ [0]) @ res, k + 1 + num_chunks (length (drop m src)) w)"
      "length res = length (drop m src) + num_chunks (length (drop m src)) w"
      "0 \<notin> set (drop m src) \<longrightarrow> filter (\<lambda>b. b \<noteq> 0) res = drop m src"
      using "1.IH" [of "length src" m] False "1.prems" m chunks room
      by (auto simp: m_def jade_assert_def)
    have "split_text_loop src w n out k =
        split_text_loop (drop m src) w n (out @ strncpy_bytes src m @ [0]) (k + 1)"
      using False "1.prems" room
      by (subst split_text_loop.simps) (simp add: m_def Let_def jade_assert_def)
    moreover have "0 \<notin> set src \<longrightarrow>
        filter (\<lambda>b. b \<noteq> 0) (strncpy_bytes src m @ [0] @ res) = src"
    proof
      assume nul: "0 \<notin> set src"
      then have "\<forall>b\<in>set (take m src). b \<noteq> 0" and "0 \<notin> set (drop m src)"
        by (metis in_set_takeD, metis in_set_dropD)
      then show "filter (\<lambda>b. b \<noteq> 0) (strncpy_bytes src m @ [0] @ res) = src"
        using res(3) strncpy_no_nul [OF nul m(1)] by simp
    qed
    ultimately show ?thesis
      using res m chunks by (intro exI [of _ "strncpy_bytes src m @ [0] @ res"]) simp
  qed
qed

text \<open>Encoding and decoding, with any amount of padding after the digits.\<close>

lemma base32_decode_encode:
  assumes bin: "bin \<noteq> []" and fits: "length bin \<le> bin_len"
  shows "base32_to_bin (bin_to_base32_loop bin 0 0 @ replicate k (chr CHR ''='')) bin_len = Some bin"
proof -
  obtain ds where ds: "bin_to_base32_loop bin 0 0 = map b32_char ds" "\<forall>d\<in>set ds. d < 32"
    "stream 5 ds = stream 8 bin @ replicate ((5 - (8 * length bin) mod 5) mod 5) False"
    using bin_to_base32_loop_stream [of 0 bin 0] by auto
  have "length (stream 5 ds) = 8 * length bin + (5 - (8 * length bin) mod 5) mod 5"
    unfolding ds(3) by simp
  then have len: "5 * length ds div 8 = length bin" and nz: "ds \<noteq> []"
    using bin by auto
  have tail: "replicate k (chr CHR ''='') = [] \<or> hd (replicate k (chr CHR ''='')) = chr CHR ''=''"
    by (cases k) simp_all
  have "stream 8 (base32_to_bin_loop bin_len (map b32_char ds @ replicate k (chr CHR ''='')) 0 0 []) = whole 8 (stream 5 ds)"
    using base32_to_bin_loop_stream [OF ds(2), of 0 "[]" bin_len _ 0, OF _ _ tail] len fits by simp
  also have "\<dots> = stream 8 bin"
    unfolding ds(3) by (rule whole_append_short) simp_all
  finally have "base32_to_bin_loop bin_len (map b32_char ds @ replicate k (chr CHR ''='')) 0 0 [] = bin"
    by (rule stream_8_inject)
  moreover have "bin_len \<noteq> 0" using bin fits by (cases bin) simp_all
  ultimately show ?thesis using nz by (simp add: base32_to_bin_def ds(1) jade_assert_def)
qed

lemma b32_alphabet_chars:
  "list_all (\<lambda>c. chr CHR ''A'' \<le> c \<and> c \<le> chr CHR ''Z'' \<or> chr CHR ''2'' \<le> c \<and> c \<le> chr CHR ''7'') b32_alphabet"
  by code_simp

lemma bin_to_base32_loop_chars:
  "list_all (\<lambda>c. chr CHR ''A'' \<le> c \<and> c \<le> chr CHR ''Z'' \<or> chr CHR ''2'' \<le> c \<and> c \<le> chr CHR ''7'')
     (bin_to_base32_loop bin 0 0)"
proof -
  obtain ds where ds: "bin_to_base32_loop bin 0 0 = map b32_char ds" "\<forall>d\<in>set ds. d < 32"
    using bin_to_base32_loop_stream [of 0 bin 0] by auto
  have "b32_char d \<in> set b32_alphabet" if "d < 32" for d
    using that by (simp add: word_less_nat_alt)
  then have "set (bin_to_base32_loop bin 0 0) \<subseteq> set b32_alphabet" using ds by auto
  then show ?thesis using b32_alphabet_chars unfolding list_all_iff by blast
qed

section \<open>Properties\<close>

text \<open>Base32 round trip: whatever \<open>bin_to_base32\<close> writes for a non-empty byte string, with or
  without padding, \<open>base32_to_bin\<close> reads back as exactly those bytes when its buffer holds them.\<close>

lemma base32_roundtrip:
  assumes "bin_to_base32 bin b32_len use_padding = Some (Some s)" and "length bin \<le> bin_len"
  shows "base32_to_bin s bin_len = Some bin"
proof -
  obtain k where "bin \<noteq> []" and "s = bin_to_base32_loop bin 0 0 @ replicate k (chr CHR ''='')"
    using assms(1) by (auto simp: bin_to_base32_def Let_def split: if_splits)
  then show ?thesis using base32_decode_encode assms(2) by simp
qed

text \<open>Base32 stays inside its buffers: a string that \<open>bin_to_base32\<close> accepts to write fits
  in the destination with its terminating NUL, and \<open>base32_to_bin\<close> never produces more than
  \<open>bin_len\<close> bytes, whatever text it is given.\<close>

lemma base32_bounds:
  "(bin_to_base32 bin b32_len use_padding = Some (Some s) \<longrightarrow> length s + 1 \<le> b32_len)
   \<and> (base32_to_bin t bin_len = Some out \<longrightarrow> length out \<le> bin_len)"
  by (auto simp: bin_to_base32_def base32_to_bin_def Let_def bin_to_base32_loop_length
      intro: base32_to_bin_loop_length split: if_splits)

text \<open>\<open>parse_uint64\<close> accepts exactly the strings of one to twenty decimal digits whose value
  is below \<open>2 ^ 64\<close>, and returns that value: no accepted number ever wraps.\<close>

lemma parse_uint64_exact:
  "parse_uint64 s =
     (if s \<noteq> [] \<and> length s \<le> 20 \<and> list_all is_digit s \<and> dec_value 0 s < 2 ^ 64
      then Some (of_nat (dec_value 0 s)) else None)"
  by (simp add: parse_uint64_def parse_uint64_loop_value not_less)

text \<open>\<open>split_text\<close> with the buffer its caller must provide never trips an assertion: it writes
  every character once and one NUL per word, counts the words, and the NUL-free text is what
  is left when the terminators are dropped.\<close>

lemma split_text_correct:
  assumes "wordlen \<noteq> 0" and "SPLIT_TEXT_LEN (length src) wordlen \<le> output_len"
  shows "\<exists>out. split_text src wordlen output_len = Some (out, num_chunks (length src) wordlen)
    \<and> length out = length src + num_chunks (length src) wordlen \<and> length out \<le> output_len
    \<and> (0 \<notin> set src \<longrightarrow> filter (\<lambda>b. b \<noteq> 0) out = src)"
proof -
  have "length src + num_chunks (length src) wordlen \<le> output_len"
    using assms num_chunks_le [of wordlen "length src"] by (simp add: SPLIT_TEXT_LEN_def)
  then show ?thesis
    using split_text_loop_result [of wordlen "[]" src output_len 0] assms
    by (auto simp: split_text_def)
qed

end
