(* ===== verification/Slip39_Words.thy ===== *)
theory Slip39_Words
  imports Jade_Prelude "HOL-Library.Char_ord" "HOL-Library.List_Lexorder"
begin

text \<open>
  The SLIP-39 wordlist (\<open>main/slip39_english.c\<close>) and its lookup (\<open>wordlist_cmp\<close> and
  \<open>slip39_word_index\<close> of \<open>main/slip39.c\<close>). A wordlist entry is a C string: the model reads it
  through \<open>cstr_get\<close>, which has the terminator after the last byte and nothing beyond. The
  lemmas: the comparison never reads past the terminator and is the lexicographic order on the
  lower-cased word, the list is strictly sorted, so the binary search finds exactly the words
  of the list, in any mixture of cases.
\<close>

section \<open>The wordlist\<close>

definition slip39_words_0 :: "string list" where
  "slip39_words_0 = [
    ''academic'', ''acid'', ''acne'', ''acquire'', ''acrobat'', ''activity'', ''actress'',
    ''adapt'', ''adequate'', ''adjust'', ''admit'', ''adorn'', ''adult'', ''advance'',
    ''advocate'', ''afraid'', ''again'', ''agency'', ''agree'', ''aide'', ''aircraft'',
    ''airline'', ''airport'', ''ajar'', ''alarm'', ''album'', ''alcohol'', ''alien'', ''alive'',
    ''alpha'', ''already'', ''alto'', ''aluminum'', ''always'', ''amazing'', ''ambition'',
    ''amount'', ''amuse'', ''analysis'', ''anatomy'', ''ancestor'', ''ancient'', ''angel'',
    ''angry'', ''animal'', ''answer'', ''antenna'', ''anxiety'', ''apart'', ''aquatic'',
    ''arcade'', ''arena'', ''argue'', ''armed'', ''artist'', ''artwork'', ''aspect'', ''auction'',
    ''august'', ''aunt'', ''average'', ''aviation'', ''avoid'', ''award'', ''away'', ''axis'',
    ''axle'', ''beam'', ''beard'', ''beaver'', ''become'', ''bedroom'', ''behavior'', ''being'',
    ''believe'', ''belong'', ''benefit'', ''best'', ''beyond'', ''bike'', ''biology'',
    ''birthday'', ''bishop'', ''black'', ''blanket'', ''blessing'', ''blimp'', ''blind'', ''blue'',
    ''body'', ''bolt'', ''boring'', ''born'', ''both'', ''boundary'', ''bracelet'', ''branch'',
    ''brave'', ''breathe'', ''briefing'', ''broken'', ''brother'', ''browser'', ''bucket'',
    ''budget'', ''building'', ''bulb'', ''bulge'', ''bumpy'', ''bundle'', ''burden'', ''burning'',
    ''busy'', ''buyer'', ''cage'', ''calcium'', ''camera'', ''campus'', ''canyon'', ''capacity'',
    ''capital'', ''capture'', ''carbon'', ''cards'', ''careful'', ''cargo'', ''carpet'', ''carve'',
    ''category'', ''cause'', ''ceiling'', ''center'', ''ceramic'', ''champion'', ''change'',
    ''charity'', ''check'', ''chemical'', ''chest'', ''chew'', ''chubby'', ''cinema'', ''civil'',
    ''class'', ''clay'', ''cleanup'', ''client'', ''climate'', ''clinic'', ''clock'', ''clogs'',
    ''closet'', ''clothes'', ''club'', ''cluster'', ''coal'', ''coastal'', ''coding'', ''column'',
    ''company'', ''corner'', ''costume'', ''counter'', ''course'', ''cover'', ''cowboy'',
    ''cradle'', ''craft'', ''crazy'', ''credit'', ''cricket'', ''criminal'', ''crisis'',
    ''critical'', ''crowd'', ''crucial'', ''crunch'', ''crush'', ''crystal'', ''cubic'',
    ''cultural'', ''curious'', ''curly'', ''custody'', ''cylinder'', ''daisy'', ''damage'',
    ''dance'', ''darkness'', ''database'', ''daughter'', ''deadline'', ''deal'', ''debris'',
    ''debut'', ''decent'', ''decision'', ''declare'', ''decorate'', ''decrease'', ''deliver'',
    ''demand'', ''density'', ''deny'', ''depart'', ''depend'', ''depict'', ''deploy'',
    ''describe'', ''desert'', ''desire'', ''desktop'', ''destroy'', ''detailed'', ''detect'',
    ''device'', ''devote'', ''diagnose'', ''dictate'', ''diet'', ''dilemma'', ''diminish'',
    ''dining'', ''diploma'', ''disaster'', ''discuss'', ''disease'', ''dish'', ''dismiss'',
    ''display'', ''distance'', ''dive'', ''divorce'', ''document'', ''domain'', ''domestic'',
    ''dominant'', ''dough'', ''downtown'', ''dragon'', ''dramatic'', ''dream'', ''dress'',
    ''drift'', ''drink'', ''drove'', ''drug'', ''dryer'', ''duckling'', ''duke'', ''duration'',
    ''dwarf'', ''dynamic'', ''early'', ''earth'', ''easel'']"

definition slip39_words_1 :: "string list" where
  "slip39_words_1 = [
    ''easy'', ''echo'', ''eclipse'', ''ecology'', ''edge'', ''editor'', ''educate'', ''either'',
    ''elbow'', ''elder'', ''election'', ''elegant'', ''element'', ''elephant'', ''elevator'',
    ''elite'', ''else'', ''email'', ''emerald'', ''emission'', ''emperor'', ''emphasis'',
    ''employer'', ''empty'', ''ending'', ''endless'', ''endorse'', ''enemy'', ''energy'',
    ''enforce'', ''engage'', ''enjoy'', ''enlarge'', ''entrance'', ''envelope'', ''envy'',
    ''epidemic'', ''episode'', ''equation'', ''equip'', ''eraser'', ''erode'', ''escape'',
    ''estate'', ''estimate'', ''evaluate'', ''evening'', ''evidence'', ''evil'', ''evoke'',
    ''exact'', ''example'', ''exceed'', ''exchange'', ''exclude'', ''excuse'', ''execute'',
    ''exercise'', ''exhaust'', ''exotic'', ''expand'', ''expect'', ''explain'', ''express'',
    ''extend'', ''extra'', ''eyebrow'', ''facility'', ''fact'', ''failure'', ''faint'', ''fake'',
    ''false'', ''family'', ''famous'', ''fancy'', ''fangs'', ''fantasy'', ''fatal'', ''fatigue'',
    ''favorite'', ''fawn'', ''fiber'', ''fiction'', ''filter'', ''finance'', ''findings'',
    ''finger'', ''firefly'', ''firm'', ''fiscal'', ''fishing'', ''fitness'', ''flame'', ''flash'',
    ''flavor'', ''flea'', ''flexible'', ''flip'', ''float'', ''floral'', ''fluff'', ''focus'',
    ''forbid'', ''force'', ''forecast'', ''forget'', ''formal'', ''fortune'', ''forward'',
    ''founder'', ''fraction'', ''fragment'', ''frequent'', ''freshman'', ''friar'', ''fridge'',
    ''friendly'', ''frost'', ''froth'', ''frozen'', ''fumes'', ''funding'', ''furl'', ''fused'',
    ''galaxy'', ''game'', ''garbage'', ''garden'', ''garlic'', ''gasoline'', ''gather'',
    ''general'', ''genius'', ''genre'', ''genuine'', ''geology'', ''gesture'', ''glad'',
    ''glance'', ''glasses'', ''glen'', ''glimpse'', ''goat'', ''golden'', ''graduate'', ''grant'',
    ''grasp'', ''gravity'', ''gray'', ''greatest'', ''grief'', ''grill'', ''grin'', ''grocery'',
    ''gross'', ''group'', ''grownup'', ''grumpy'', ''guard'', ''guest'', ''guilt'', ''guitar'',
    ''gums'', ''hairy'', ''hamster'', ''hand'', ''hanger'', ''harvest'', ''have'', ''havoc'',
    ''hawk'', ''hazard'', ''headset'', ''health'', ''hearing'', ''heat'', ''helpful'', ''herald'',
    ''herd'', ''hesitate'', ''hobo'', ''holiday'', ''holy'', ''home'', ''hormone'', ''hospital'',
    ''hour'', ''huge'', ''human'', ''humidity'', ''hunting'', ''husband'', ''hush'', ''husky'',
    ''hybrid'', ''idea'', ''identify'', ''idle'', ''image'', ''impact'', ''imply'', ''improve'',
    ''impulse'', ''include'', ''income'', ''increase'', ''index'', ''indicate'', ''industry'',
    ''infant'', ''inform'', ''inherit'', ''injury'', ''inmate'', ''insect'', ''inside'',
    ''install'', ''intend'', ''intimate'', ''invasion'', ''involve'', ''iris'', ''island'',
    ''isolate'', ''item'', ''ivory'', ''jacket'', ''jerky'', ''jewelry'', ''join'', ''judicial'',
    ''juice'', ''jump'', ''junction'', ''junior'', ''junk'', ''jury'', ''justice'', ''kernel'',
    ''keyboard'', ''kidney'', ''kind'', ''kitchen'', ''knife'', ''knit'', ''laden'', ''ladle'',
    ''ladybug'', ''lair'', ''lamp'', ''language'', ''large'', ''laser'', ''laundry'', ''lawsuit'']"

definition slip39_words_2 :: "string list" where
  "slip39_words_2 = [
    ''leader'', ''leaf'', ''learn'', ''leaves'', ''lecture'', ''legal'', ''legend'', ''legs'',
    ''lend'', ''length'', ''level'', ''liberty'', ''library'', ''license'', ''lift'', ''likely'',
    ''lilac'', ''lily'', ''lips'', ''liquid'', ''listen'', ''literary'', ''living'', ''lizard'',
    ''loan'', ''lobe'', ''location'', ''losing'', ''loud'', ''loyalty'', ''luck'', ''lunar'',
    ''lunch'', ''lungs'', ''luxury'', ''lying'', ''lyrics'', ''machine'', ''magazine'', ''maiden'',
    ''mailman'', ''main'', ''makeup'', ''making'', ''mama'', ''manager'', ''mandate'', ''mansion'',
    ''manual'', ''marathon'', ''march'', ''market'', ''marvel'', ''mason'', ''material'', ''math'',
    ''maximum'', ''mayor'', ''meaning'', ''medal'', ''medical'', ''member'', ''memory'',
    ''mental'', ''merchant'', ''merit'', ''method'', ''metric'', ''midst'', ''mild'', ''military'',
    ''mineral'', ''minister'', ''miracle'', ''mixed'', ''mixture'', ''mobile'', ''modern'',
    ''modify'', ''moisture'', ''moment'', ''morning'', ''mortgage'', ''mother'', ''mountain'',
    ''mouse'', ''move'', ''much'', ''mule'', ''multiple'', ''muscle'', ''museum'', ''music'',
    ''mustang'', ''nail'', ''national'', ''necklace'', ''negative'', ''nervous'', ''network'',
    ''news'', ''nuclear'', ''numb'', ''numerous'', ''nylon'', ''oasis'', ''obesity'', ''object'',
    ''observe'', ''obtain'', ''ocean'', ''often'', ''olympic'', ''omit'', ''oral'', ''orange'',
    ''orbit'', ''order'', ''ordinary'', ''organize'', ''ounce'', ''oven'', ''overall'', ''owner'',
    ''paces'', ''pacific'', ''package'', ''paid'', ''painting'', ''pajamas'', ''pancake'',
    ''pants'', ''papa'', ''paper'', ''parcel'', ''parking'', ''party'', ''patent'', ''patrol'',
    ''payment'', ''payroll'', ''peaceful'', ''peanut'', ''peasant'', ''pecan'', ''penalty'',
    ''pencil'', ''percent'', ''perfect'', ''permit'', ''petition'', ''phantom'', ''pharmacy'',
    ''photo'', ''phrase'', ''physics'', ''pickup'', ''picture'', ''piece'', ''pile'', ''pink'',
    ''pipeline'', ''pistol'', ''pitch'', ''plains'', ''plan'', ''plastic'', ''platform'',
    ''playoff'', ''pleasure'', ''plot'', ''plunge'', ''practice'', ''prayer'', ''preach'',
    ''predator'', ''pregnant'', ''premium'', ''prepare'', ''presence'', ''prevent'', ''priest'',
    ''primary'', ''priority'', ''prisoner'', ''privacy'', ''prize'', ''problem'', ''process'',
    ''profile'', ''program'', ''promise'', ''prospect'', ''provide'', ''prune'', ''public'',
    ''pulse'', ''pumps'', ''punish'', ''puny'', ''pupal'', ''purchase'', ''purple'', ''python'',
    ''quantity'', ''quarter'', ''quick'', ''quiet'', ''race'', ''racism'', ''radar'', ''railroad'',
    ''rainbow'', ''raisin'', ''random'', ''ranked'', ''rapids'', ''raspy'', ''reaction'',
    ''realize'', ''rebound'', ''rebuild'', ''recall'', ''receiver'', ''recover'', ''regret'',
    ''regular'', ''reject'', ''relate'', ''remember'', ''remind'', ''remove'', ''render'',
    ''repair'', ''repeat'', ''replace'', ''require'', ''rescue'', ''research'', ''resident'',
    ''response'', ''result'', ''retailer'', ''retreat'', ''reunion'', ''revenue'', ''review'',
    ''reward'', ''rhyme'', ''rhythm'', ''rich'', ''rival'', ''river'', ''robin'', ''rocky'',
    ''romantic'']"

definition slip39_words_3 :: "string list" where
  "slip39_words_3 = [
    ''romp'', ''roster'', ''round'', ''royal'', ''ruin'', ''ruler'', ''rumor'', ''sack'',
    ''safari'', ''salary'', ''salon'', ''salt'', ''satisfy'', ''satoshi'', ''saver'', ''says'',
    ''scandal'', ''scared'', ''scatter'', ''scene'', ''scholar'', ''science'', ''scout'',
    ''scramble'', ''screw'', ''script'', ''scroll'', ''seafood'', ''season'', ''secret'',
    ''security'', ''segment'', ''senior'', ''shadow'', ''shaft'', ''shame'', ''shaped'', ''sharp'',
    ''shelter'', ''sheriff'', ''short'', ''should'', ''shrimp'', ''sidewalk'', ''silent'',
    ''silver'', ''similar'', ''simple'', ''single'', ''sister'', ''skin'', ''skunk'', ''slap'',
    ''slavery'', ''sled'', ''slice'', ''slim'', ''slow'', ''slush'', ''smart'', ''smear'',
    ''smell'', ''smirk'', ''smith'', ''smoking'', ''smug'', ''snake'', ''snapshot'', ''sniff'',
    ''society'', ''software'', ''soldier'', ''solution'', ''soul'', ''source'', ''space'',
    ''spark'', ''speak'', ''species'', ''spelling'', ''spend'', ''spew'', ''spider'', ''spill'',
    ''spine'', ''spirit'', ''spit'', ''spray'', ''sprinkle'', ''square'', ''squeeze'', ''stadium'',
    ''staff'', ''standard'', ''starting'', ''station'', ''stay'', ''steady'', ''step'', ''stick'',
    ''stilt'', ''story'', ''strategy'', ''strike'', ''style'', ''subject'', ''submit'', ''sugar'',
    ''suitable'', ''sunlight'', ''superior'', ''surface'', ''surprise'', ''survive'', ''sweater'',
    ''swimming'', ''swing'', ''switch'', ''symbolic'', ''sympathy'', ''syndrome'', ''system'',
    ''tackle'', ''tactics'', ''tadpole'', ''talent'', ''task'', ''taste'', ''taught'', ''taxi'',
    ''teacher'', ''teammate'', ''teaspoon'', ''temple'', ''tenant'', ''tendency'', ''tension'',
    ''terminal'', ''testify'', ''texture'', ''thank'', ''that'', ''theater'', ''theory'',
    ''therapy'', ''thorn'', ''threaten'', ''thumb'', ''thunder'', ''ticket'', ''tidy'', ''timber'',
    ''timely'', ''ting'', ''tofu'', ''together'', ''tolerate'', ''total'', ''toxic'', ''tracks'',
    ''traffic'', ''training'', ''transfer'', ''trash'', ''traveler'', ''treat'', ''trend'',
    ''trial'', ''tricycle'', ''trip'', ''triumph'', ''trouble'', ''true'', ''trust'', ''twice'',
    ''twin'', ''type'', ''typical'', ''ugly'', ''ultimate'', ''umbrella'', ''uncover'',
    ''undergo'', ''unfair'', ''unfold'', ''unhappy'', ''union'', ''universe'', ''unkind'',
    ''unknown'', ''unusual'', ''unwrap'', ''upgrade'', ''upstairs'', ''username'', ''usher'',
    ''usual'', ''valid'', ''valuable'', ''vampire'', ''vanish'', ''various'', ''vegan'',
    ''velvet'', ''venture'', ''verdict'', ''verify'', ''very'', ''veteran'', ''vexed'', ''victim'',
    ''video'', ''view'', ''vintage'', ''violence'', ''viral'', ''visitor'', ''visual'',
    ''vitamins'', ''vocal'', ''voice'', ''volume'', ''voter'', ''voting'', ''walnut'', ''warmth'',
    ''warn'', ''watch'', ''wavy'', ''wealthy'', ''weapon'', ''webcam'', ''welcome'', ''welfare'',
    ''western'', ''width'', ''wildlife'', ''window'', ''wine'', ''wireless'', ''wisdom'',
    ''withdraw'', ''wits'', ''wolf'', ''woman'', ''work'', ''worthy'', ''wrap'', ''wrist'',
    ''writing'', ''wrote'', ''year'', ''yelp'', ''yield'', ''yoga'', ''zero'']"

definition SLIP39_WORDLIST :: "bytes list" where
  "SLIP39_WORDLIST = map str (slip39_words_0 @ slip39_words_1 @ slip39_words_2 @ slip39_words_3)"

definition SLIP39_WORD_COUNT :: nat where
  "SLIP39_WORD_COUNT = 1024"

section \<open>Lookup\<close>

text \<open>\<open>entry[i]\<close> of a NUL-terminated string: \<open>None\<close> is a read past the terminator.\<close>

definition cstr_get :: "bytes \<Rightarrow> nat \<Rightarrow> byte option" where
  [c_defs]: "cstr_get entry i = (if i < length entry then Some (entry ! i)
     else if i = length entry then Some 0 else None)"

definition ascii_lower :: "byte \<Rightarrow> byte" where
  "ascii_lower c = (if chr (CHR ''A'') \<le> c \<and> c \<le> chr (CHR ''Z'')
     then c + (chr (CHR ''a'') - chr (CHR ''A'')) else c)"

fun wordlist_cmp_loop :: "bytes \<Rightarrow> nat \<Rightarrow> bytes \<Rightarrow> int option" where
  "wordlist_cmp_loop entry i [] = do { e \<leftarrow> cstr_get entry i; Some (if e \<noteq> 0 then 1 else 0) }"
| "wordlist_cmp_loop entry i (w # ws) = do {
     e \<leftarrow> cstr_get entry i;
     let c = ascii_lower w;
     if e \<noteq> c then Some (if e < c then -1 else 1)
     else if e = 0 then Some (-1)
     else wordlist_cmp_loop entry (Suc i) ws }"

definition wordlist_cmp :: "bytes \<Rightarrow> bytes \<Rightarrow> int option" where
  "wordlist_cmp entry word = wordlist_cmp_loop entry 0 word"

text \<open>The outer \<open>None\<close> is a bad access, the inner one the result \<open>false\<close>.\<close>

function word_index_loop :: "bytes list \<Rightarrow> bytes \<Rightarrow> nat \<Rightarrow> nat \<Rightarrow> u16 option option" where
  "word_index_loop wl word lo hi =
     (if lo < hi then do {
        let mid = lo + (hi - lo) div 2;
        entry \<leftarrow> buf_get wl mid;
        cmp \<leftarrow> wordlist_cmp entry word;
        if cmp = 0 then Some (Some (of_nat mid))
        else if cmp < 0 then word_index_loop wl word (mid + 1) hi
        else word_index_loop wl word lo mid }
      else Some None)"
  by auto
termination
  by (relation "measure (\<lambda>(wl, word, lo, hi). hi - lo)") auto

declare word_index_loop.simps [simp del]

definition slip39_word_index :: "bytes \<Rightarrow> u16 option option" where
  "slip39_word_index word =
     (if word = [] then Some None else word_index_loop SLIP39_WORDLIST word 0 SLIP39_WORD_COUNT)"

section \<open>The comparison is the lexicographic order\<close>

lemma wordlist_cmp_loop_lex:
  assumes "0 \<notin> set entry" and "i \<le> length entry"
  shows "wordlist_cmp_loop entry i ws =
     Some (if drop i entry < map ascii_lower ws then -1
           else if drop i entry = map ascii_lower ws then 0 else 1)"
  using assms(2)
proof (induction ws arbitrary: i)
  case Nil
  then show ?case
    using assms(1) nth_mem [of i entry] by (cases "i < length entry") (auto simp: cstr_get_def simp del: nth_mem)
next
  case (Cons w ws)
  show ?case
  proof (cases "i < length entry")
    case True
    then have "entry ! i \<noteq> 0" using assms(1) nth_mem by metis
    then show ?thesis
      using True Cons.IH [of "Suc i"]
      by (auto simp: cstr_get_def Cons_nth_drop_Suc [symmetric] Let_def)
  next
    case False
    then have "i = length entry" using Cons.prems by simp
    then show ?thesis by (auto simp: cstr_get_def word_neq_0_conv Let_def)
  qed
qed

lemma wordlist_cmp_lex:
  "0 \<notin> set entry \<Longrightarrow>
   wordlist_cmp entry word =
     Some (if entry < map ascii_lower word then -1 else if entry = map ascii_lower word then 0 else 1)"
  using wordlist_cmp_loop_lex [of entry 0 word] by (simp add: wordlist_cmp_def)

section \<open>Binary search\<close>

lemma word_index_loop_search:
  assumes "sorted_wrt (<) wl" and "\<forall>e\<in>set wl. 0 \<notin> set e"
    and "hi \<le> length wl" and "\<forall>i<lo. wl ! i \<noteq> map ascii_lower word"
    and "\<forall>i<length wl. hi \<le> i \<longrightarrow> wl ! i \<noteq> map ascii_lower word"
  shows "\<exists>r. word_index_loop wl word lo hi = Some r \<and>
     (case r of None \<Rightarrow> map ascii_lower word \<notin> set wl
      | Some k \<Rightarrow> \<exists>i<length wl. k = of_nat i \<and> wl ! i = map ascii_lower word)"
  using assms(3-5)
proof (induction "hi - lo" arbitrary: lo hi rule: less_induct)
  case less
  let ?w = "map ascii_lower word"
  have sorted: "wl ! i < wl ! j" if "i < j" "j < length wl" for i j
    using assms(1) that by (simp add: sorted_wrt_nth_less)
  show ?case
  proof (cases "lo < hi")
    case True
    define mid where "mid = lo + (hi - lo) div 2"
    have mid: "lo \<le> mid" "mid < hi" "mid < length wl"
      using True less.prems(1) by (auto simp: mid_def)
    have step: "word_index_loop wl word lo hi =
        (if wl ! mid < ?w then word_index_loop wl word (mid + 1) hi
         else if wl ! mid = ?w then Some (Some (of_nat mid))
         else word_index_loop wl word lo mid)"
      using True mid assms(2)
      by (subst word_index_loop.simps) (simp add: mid_def [symmetric] buf_get_def wordlist_cmp_lex)
    consider "wl ! mid < ?w" | "wl ! mid = ?w" | "?w < wl ! mid" by (meson neqE)
    then show ?thesis
    proof cases
      case 1
      have "wl ! i \<noteq> ?w" if "i < mid + 1" for i
        using 1 sorted [of i mid] mid(3) that by (cases "i = mid") auto
      with 1 step less.hyps [of hi "mid + 1"] less.prems mid show ?thesis by simp
    next
      case 2
      with step mid show ?thesis by auto
    next
      case 3
      have "wl ! i \<noteq> ?w" if "mid \<le> i" "i < length wl" for i
        using 3 sorted [of mid i] that by (cases "i = mid") auto
      with 3 step less.hyps [of mid lo] less.prems mid show ?thesis by auto
    qed
  next
    case False
    with less.prems show ?thesis
      by (auto simp: word_index_loop.simps [of wl word lo hi] in_set_conv_nth not_less)
  qed
qed

section \<open>The wordlist is sorted\<close>

lemma unat_chr: "unat (chr c) = of_char c"
proof -
  have "(of_char c :: byte) = of_nat (of_char c)" by (simp add: of_nat_of_char)
  then show ?thesis by (simp add: chr_def unat_of_nat)
qed

lemma chr_less_iff [simp]: "chr c < chr d \<longleftrightarrow> c < d"
  by (simp add: word_less_nat_alt unat_chr less_char_def)

lemma chr_eq_iff [simp]: "chr c = chr d \<longleftrightarrow> c = d"
  by (metis unat_chr of_char_eq_iff)

lemma str_less_iff [simp]: "str s < str t \<longleftrightarrow> s < t"
proof (induction s arbitrary: t)
  case Nil
  then show ?case by (cases t) simp_all
next
  case (Cons c s)
  then show ?case by (cases t) simp_all
qed

definition word_ok :: "string \<Rightarrow> bool" where
  "word_ok w = (w \<noteq> [] \<and> list_all (\<lambda>c. c \<noteq> CHR 0x00) w)"

definition chunk_ok :: "string list \<Rightarrow> bool" where
  "chunk_ok ws = (successively (<) ws \<and> list_all word_ok ws \<and> length ws = 256)"

lemma chunks_ok:
  "chunk_ok slip39_words_0" "chunk_ok slip39_words_1" "chunk_ok slip39_words_2" "chunk_ok slip39_words_3"
  unfolding slip39_words_0_def slip39_words_1_def slip39_words_2_def slip39_words_3_def by code_simp+

lemma chunks_ordered:
  "last slip39_words_0 < hd slip39_words_1" "last slip39_words_1 < hd slip39_words_2"
  "last slip39_words_2 < hd slip39_words_3"
  unfolding slip39_words_0_def slip39_words_1_def slip39_words_2_def slip39_words_3_def by code_simp+

abbreviation slip39_strings :: "string list" where
  "slip39_strings \<equiv> slip39_words_0 @ slip39_words_1 @ slip39_words_2 @ slip39_words_3"

lemma slip39_strings_sorted: "sorted_wrt (<) slip39_strings"
proof -
  have "successively (<) slip39_strings"
    using chunks_ok chunks_ordered
    by (auto simp: chunk_ok_def successively_append_iff hd_append last_append)
  then show ?thesis by (subst (asm) successively_conv_sorted_wrt) (auto intro: transpI)
qed

lemma length_slip39_strings: "length slip39_strings = 1024"
  using chunks_ok by (simp add: chunk_ok_def)

lemma slip39_strings_ok: "w \<in> set slip39_strings \<Longrightarrow> word_ok w"
  using chunks_ok by (auto simp: chunk_ok_def list_all_iff)

lemma word_ok_str:
  assumes "word_ok w"
  shows "0 \<notin> set (str w)" and "str w \<noteq> []"
proof -
  have zero: "chr (CHR 0x00) = 0" by (simp add: chr_def)
  have "chr c \<noteq> 0" if "c \<in> set w" for c
  proof -
    have "c \<noteq> CHR 0x00" using assms that unfolding word_ok_def list_all_iff by blast
    then show ?thesis using chr_eq_iff [of c "CHR 0x00"] unfolding zero by blast
  qed
  then show "0 \<notin> set (str w)" unfolding str_def set_map by force
  show "str w \<noteq> []" using assms by (simp add: word_ok_def str_def)
qed

lemma SLIP39_WORDLIST_ok:
  assumes "e \<in> set SLIP39_WORDLIST"
  shows "0 \<notin> set e" and "e \<noteq> []"
proof -
  obtain w where "w \<in> set slip39_strings" and e: "e = str w"
    using assms unfolding SLIP39_WORDLIST_def set_map by (rule imageE)
  then have "word_ok w" by (intro slip39_strings_ok)
  then show "0 \<notin> set e" and "e \<noteq> []" unfolding e by (rule word_ok_str)+
qed

lemma SLIP39_WORDLIST_facts:
  "sorted_wrt (<) SLIP39_WORDLIST" "length SLIP39_WORDLIST = 1024"
  "\<forall>e\<in>set SLIP39_WORDLIST. 0 \<notin> set e" "[] \<notin> set SLIP39_WORDLIST"
proof -
  show "sorted_wrt (<) SLIP39_WORDLIST"
    unfolding SLIP39_WORDLIST_def sorted_wrt_map str_less_iff by (rule slip39_strings_sorted)
  show "length SLIP39_WORDLIST = 1024"
    unfolding SLIP39_WORDLIST_def length_map by (rule length_slip39_strings)
qed (use SLIP39_WORDLIST_ok in blast)+

lemma word_index_total:
  "\<exists>r. slip39_word_index word = Some r \<and>
     (\<forall>k. r = Some k \<longleftrightarrow> unat k < 1024 \<and> SLIP39_WORDLIST ! unat k = map ascii_lower word)"
proof (cases "word = []")
  case True
  then show ?thesis
    using SLIP39_WORDLIST_facts(2,4) nth_mem [of _ SLIP39_WORDLIST] unfolding slip39_word_index_def
    by (metis list.map(1) option.distinct(1))
next
  case False
  note wl = SLIP39_WORDLIST_facts
  obtain r where r: "word_index_loop SLIP39_WORDLIST word 0 1024 = Some r"
    and spec: "case r of None \<Rightarrow> map ascii_lower word \<notin> set SLIP39_WORDLIST
      | Some k \<Rightarrow> \<exists>i<1024. k = of_nat i \<and> SLIP39_WORDLIST ! i = map ascii_lower word"
    using word_index_loop_search [OF wl(1,3), of 1024 0 word, unfolded wl(2)] by auto
  have uniq: "i = j" if "i < 1024" "j < 1024" "SLIP39_WORDLIST ! i = SLIP39_WORDLIST ! j" for i j
    using that sorted_wrt_nth_less [OF wl(1)] wl(2) by (metis neqE order_less_irrefl)
  have "r = Some k \<longleftrightarrow> unat k < 1024 \<and> SLIP39_WORDLIST ! unat k = map ascii_lower word" for k
  proof (cases r)
    case None
    then show ?thesis
      using spec wl(2) nth_mem [of "unat k" SLIP39_WORDLIST] by (auto simp del: nth_mem)
  next
    case (Some k')
    then obtain i where i: "i < 1024" "k' = of_nat i" "SLIP39_WORDLIST ! i = map ascii_lower word"
      using spec by auto
    then have "unat k' = i" by (simp add: unat_of_nat)
    then show ?thesis using Some i uniq [of i "unat k"] by (auto simp: word_unat_eq_iff)
  qed
  then show ?thesis using r False by (auto simp: slip39_word_index_def SLIP39_WORD_COUNT_def)
qed

text \<open>The lookup never reads outside the list or past a word's terminator, and it finds a
  word exactly when the word, lower-cased, is in the list, returning its position.\<close>

lemma slip39_word_index_correct:
  "\<exists>r. slip39_word_index word = Some r \<and>
     (\<forall>k. r = Some k \<longleftrightarrow> unat k < 1024 \<and> SLIP39_WORDLIST ! unat k = map ascii_lower word)"
  by (rule word_index_total)

end
