(* ===== verification/Checksum.thy ===== *)
theory Checksum
  imports Jade_Prelude
begin

text \<open>
  Checksums computed by a shift register that is linear over XOR: the RS1024 code of SLIP-39
  shares and the BCH code of output descriptors have this shape, with different word widths
  and generators. The locale states what the code's step function promises (it is linear, it
  never leaves \<open>n\<close> bits, it loses no information and it only shifts while the register is
  short) and derives that two inputs that differ only inside a burst as long as the checksum
  never have the same checksum.
\<close>

locale linear_checksum =
  fixes step :: "'a::len word \<Rightarrow> 'a word"
    and n k :: nat
  assumes step_xor: "step (a XOR b) = step a XOR step b"
    and step_bound: "unat c < 2 ^ n \<Longrightarrow> unat (step c) < 2 ^ n"
    and step_faithful: "unat c < 2 ^ n \<Longrightarrow> step c = 0 \<Longrightarrow> c = 0"
    and step_shift: "unat c < 2 ^ (n - k) \<Longrightarrow> step c = push_bit k c"
    and widths: "k \<le> n" "n \<le> LENGTH('a)"
begin

definition feed :: "'a word \<Rightarrow> 'a word list \<Rightarrow> 'a word" where
  "feed = foldl (\<lambda>chk v. step chk XOR v)"

lemma feed_simps [simp]: "feed c [] = c" "feed c (v # vs) = feed (step c XOR v) vs"
  by (simp_all add: feed_def)

lemma feed_append: "feed c (us @ vs) = feed (feed c us) vs"
  by (simp add: feed_def)

lemma small_xor: "unat a < 2 ^ m \<Longrightarrow> unat b < 2 ^ m \<Longrightarrow> unat (a XOR b :: 'a word) < 2 ^ m"
proof -
  assume "unat a < 2 ^ m" "unat b < 2 ^ m"
  then have "unat a XOR unat b < 2 ^ m" by (metis take_bit_nat_eq_self_iff take_bit_xor)
  then show ?thesis by (simp add: unsigned_xor_eq)
qed

lemma feed_bound:
  "unat c < 2 ^ n \<Longrightarrow> \<forall>v\<in>set vs. unat v < 2 ^ n \<Longrightarrow> unat (feed c vs) < 2 ^ n"
  by (induction vs arbitrary: c) (simp_all add: small_xor step_bound)

text \<open>The difference of two runs is a run on the difference.\<close>

lemma feed_diff:
  "length us = length vs \<Longrightarrow>
   feed a us XOR feed b vs = feed (a XOR b) (map2 (XOR) us vs)"
proof (induction us vs arbitrary: a b rule: list_induct2)
  case (Cons u us v vs)
  have "(step a XOR u) XOR (step b XOR v) = step (a XOR b) XOR (u XOR v)"
    by (simp add: step_xor ac_simps)
  then show ?case using Cons.IH [of "step a XOR u" "step b XOR v"] by simp
qed simp

lemma map2_xor_self: "map2 (XOR) vs vs = replicate (length vs) (0 :: 'a word)"
  by (induction vs) simp_all

lemma feed_zeros:
  "unat c < 2 ^ n \<Longrightarrow> feed c (replicate m 0) = 0 \<Longrightarrow> c = 0"
  by (induction m arbitrary: c) (use step_bound step_faithful in \<open>simp, fastforce\<close>)

lemma shift_in_zero_iff:
  assumes "unat d < 2 ^ (n - k)" and "unat (e :: 'a word) < 2 ^ k"
  shows "step d XOR e = 0 \<longleftrightarrow> d = 0 \<and> e = 0"
proof
  assume eq: "step d XOR e = 0"
  have "bit e i = False" for i
  proof (cases "i < k")
    case True
    have "bit (step d XOR e) i = bit e i"
      using True assms(1) by (simp add: step_shift bit_xor_iff bit_push_bit_iff)
    then show ?thesis using eq by simp
  next
    case False
    then show ?thesis using not_bit_of_small [OF assms(2)] by simp
  qed
  then have e: "e = 0" by (auto intro: bit_word_eqI)
  have "unat d < 2 ^ n"
    using assms(1) by (meson diff_le_self less_le_trans one_le_numeral power_increasing)
  moreover have "step d = 0" using eq e by simp
  ultimately show "d = 0 \<and> e = 0" using e step_faithful by simp
qed (use step_xor [of 0 0] in simp)

lemma step_small:
  assumes "unat d < 2 ^ m" and "m + k \<le> n"
  shows "unat (step d) < 2 ^ (m + k)"
proof -
  have "unat d < 2 ^ (n - k)"
    using assms by (meson le_diff_conv2 less_le_trans one_le_numeral power_increasing add_leD2)
  moreover have "unat d * 2 ^ k < 2 ^ (m + k)"
    using assms(1) by (simp add: power_add)
  moreover have "unat (push_bit k d) \<le> unat d * 2 ^ k"
    unfolding unsigned_push_bit_eq by (simp add: take_bit_eq_mod push_bit_eq_mult [of _ "unat d"])
  ultimately show ?thesis by (simp add: step_shift)
qed

text \<open>A burst of symbols of \<open>k\<close> bits that is no longer than the register is seen in it.\<close>

lemma feed_burst:
  assumes "length es * k \<le> n" and "\<forall>e\<in>set es. unat e < 2 ^ k"
  shows "unat (feed 0 es) < 2 ^ (length es * k) \<and> (feed 0 es = 0 \<longrightarrow> (\<forall>e\<in>set es. e = 0))"
  using assms
proof (induction es rule: rev_induct)
  case (snoc e es)
  let ?d = "feed 0 es"
  have m: "length es * k + k \<le> n" using snoc.prems(1) by simp
  with snoc have IH: "unat ?d < 2 ^ (length es * k)" "?d = 0 \<longrightarrow> (\<forall>e\<in>set es. e = 0)" by simp_all
  have e: "unat e < 2 ^ k" using snoc.prems by simp
  have d: "unat ?d < 2 ^ (n - k)"
    using IH(1) m by (meson le_diff_conv2 less_le_trans one_le_numeral power_increasing add_leD2)
  have "unat e < 2 ^ (length es * k + k)"
    using e by (meson le_add2 less_le_trans one_le_numeral power_increasing)
  then have "unat (step ?d XOR e) < 2 ^ (length es * k + k)"
    using small_xor step_small [OF IH(1) m] by blast
  then show ?case
    using IH(2) shift_in_zero_iff [OF d e] by (auto simp: feed_append add.commute)
qed simp

theorem burst_detected:
  assumes "length us = length vs" and "us \<noteq> vs" and "length us * k \<le> n"
    and "\<forall>v\<in>set us \<union> set vs. unat v < 2 ^ k"
  shows "feed c (ps @ us @ ss) \<noteq> feed c (ps @ vs @ ss)"
proof
  let ?es = "map2 (XOR) us vs"
  assume eq: "feed c (ps @ us @ ss) = feed c (ps @ vs @ ss)"
  have es: "length ?es * k \<le> n" "\<forall>e\<in>set ?es. unat e < 2 ^ k"
    using assms by (auto simp: set_zip intro!: small_xor)
  have "feed (feed c ps) (us @ ss) XOR feed (feed c ps) (vs @ ss)
      = feed (feed 0 ?es) (replicate (length ss) 0)"
    using assms(1) by (simp add: feed_diff feed_append map2_xor_self)
  then have "feed (feed 0 ?es) (replicate (length ss) 0) = 0"
    using eq by (simp add: feed_append)
  moreover have "unat (feed 0 ?es) < 2 ^ n"
    using feed_burst [OF es] es(1)
    by (meson less_le_trans one_le_numeral power_increasing)
  ultimately have "feed 0 ?es = 0" by (rule feed_zeros [rotated])
  then have zero: "\<forall>e\<in>set ?es. e = 0" using feed_burst [OF es] by blast
  have "us ! i = vs ! i" if "i < length us" for i
  proof -
    have "us ! i XOR vs ! i \<in> set ?es"
      using that assms(1) nth_mem [of i ?es] by simp
    then show ?thesis using zero word_xor_eq_0_iff by blast
  qed
  then show False using assms(1,2) by (auto simp: list_eq_iff_nth_eq)
qed

end

end
