(* ===== verification/Gf256.thy ===== *)
theory Gf256
  imports Jade_Prelude
begin

text \<open>
  The field with 256 elements that SLIP-0039 shares live in: bytes as polynomials over GF(2)
  modulo \<open>x^8 + x^4 + x^3 + x + 1\<close>, the field of \<open>main/shamir.c\<close>. Addition is XOR, \<open>gmul\<close> the product, \<open>ginv x = x^254\<close>
  the inverse. The type \<open>gf256\<close> of these bytes is made an instance of the library's class of fields, so that
  sums, products and polynomial interpolation are those of HOL.
\<close>

definition xtime :: "byte \<Rightarrow> byte" where
  "xtime a = push_bit 1 a XOR (if bit a 7 then 0x1B else 0)"

definition gmul :: "byte \<Rightarrow> byte \<Rightarrow> byte" where
  "gmul a b =
     (let a1 = xtime a; a2 = xtime a1; a3 = xtime a2; a4 = xtime a3;
          a5 = xtime a4; a6 = xtime a5; a7 = xtime a6
      in (if bit b 0 then a else 0) XOR (if bit b 1 then a1 else 0)
         XOR (if bit b 2 then a2 else 0) XOR (if bit b 3 then a3 else 0)
         XOR (if bit b 4 then a4 else 0) XOR (if bit b 5 then a5 else 0)
         XOR (if bit b 6 then a6 else 0) XOR (if bit b 7 then a7 else 0))"

definition ginv :: "byte \<Rightarrow> byte" where
  "ginv x =
     (let y2 = gmul x x; y4 = gmul y2 y2; y8 = gmul y4 y4; y9 = gmul y8 x;
          y16 = gmul y8 y8; y25 = gmul y16 y9; y50 = gmul y25 y25;
          y100 = gmul y50 y50; y200 = gmul y100 y100; y250 = gmul y50 y200
      in gmul y250 y4)"

section \<open>Multiplication by \<open>x\<close>\<close>

lemma xtime_xor: "xtime (a XOR b) = xtime a XOR xtime b"
  by (auto simp: xtime_def bit_xor_iff push_bit_xor ac_simps)

interpretation xt: xor_linear xtime
  by unfold_locales (rule xtime_xor)

lemma xtime_funpow_xor: "(xtime ^^ k) (a XOR b) = (xtime ^^ k) a XOR (xtime ^^ k) b"
  by (induction k) (simp_all add: xtime_xor)

lemma xtime_funpow_zero [simp]: "(xtime ^^ k) 0 = 0"
  by (induction k) (simp_all add: xt.f_zero)

lemma less_8_cases: "(k :: nat) < 8 \<longleftrightarrow> k = 0 \<or> k = 1 \<or> k = 2 \<or> k = 3 \<or> k = 4 \<or> k = 5 \<or> k = 6 \<or> k = 7"
  by arith

lemma xtime_pow2: "k < 7 \<Longrightarrow> xtime (2 ^ k) = 2 ^ Suc k"
  by (auto simp: xtime_def bit_exp_iff push_bit_eq_mult mult.commute)

lemma xtime_128: "xtime (2 ^ 7) = 0x1B"
  by (simp add: xtime_def)

lemma xtime_funpow_one: "k < 8 \<Longrightarrow> (xtime ^^ k) 1 = 2 ^ k"
  by (induction k) (simp_all add: xtime_pow2)

section \<open>The product is bilinear, commutative and associative\<close>

lemma gmul_funpow:
  "gmul a b = (if bit b 0 then a else 0) XOR (if bit b 1 then (xtime ^^ 1) a else 0)
     XOR (if bit b 2 then (xtime ^^ 2) a else 0) XOR (if bit b 3 then (xtime ^^ 3) a else 0)
     XOR (if bit b 4 then (xtime ^^ 4) a else 0) XOR (if bit b 5 then (xtime ^^ 5) a else 0)
     XOR (if bit b 6 then (xtime ^^ 6) a else 0) XOR (if bit b 7 then (xtime ^^ 7) a else 0)"
  by (simp add: gmul_def Let_def eval_nat_numeral)

lemma if_xor_if: "(if p then x XOR y else 0) = (if p then x else 0) XOR (if p then y else (0 :: byte))"
  by simp

lemma if_neq: "(if p \<noteq> q then x else 0) = (if p then x else 0) XOR (if q then x else (0 :: byte))"
  by simp

lemma gmul_xor_left: "gmul (a XOR b) c = gmul a c XOR gmul b c"
  unfolding gmul_funpow xtime_funpow_xor if_xor_if by (simp only: ac_simps)

lemma gmul_xor_right: "gmul a (b XOR c) = gmul a b XOR gmul a c"
  unfolding gmul_funpow bit_xor_iff if_neq by (simp only: ac_simps)

interpretation gl: xor_linear "\<lambda>a. gmul a b" for b
  by unfold_locales (rule gmul_xor_left)

interpretation gr: xor_linear "\<lambda>b. gmul a b" for a
  by unfold_locales (rule gmul_xor_right)

lemma gmul_pow2: "k < 8 \<Longrightarrow> gmul a (2 ^ k) = (xtime ^^ k) a"
  unfolding gmul_funpow less_8_cases by (auto simp: bit_exp_iff)

lemma gmul_one_right [simp]: "gmul a 1 = a"
  using gmul_pow2 [of 0 a] by simp

lemma gmul_xtime_left: "gmul (xtime a) b = xtime (gmul a b)"
proof (rule gr.linear_eqI [where g = "\<lambda>b. xtime (gmul a b)"])
  fix k assume "k < LENGTH(8)"
  then show "gmul (xtime a) (2 ^ k) = xtime (gmul a (2 ^ k))"
    by (simp add: gmul_pow2 funpow_swap1)
qed (simp add: gmul_xor_right xtime_xor)

lemma gmul_funpow_left: "gmul ((xtime ^^ k) a) b = (xtime ^^ k) (gmul a b)"
  by (induction k) (simp_all add: gmul_xtime_left)

lemma gmul_one_left [simp]: "gmul 1 a = a"
proof (rule gr.linear_eqI [where g = "\<lambda>a. a"])
  fix k assume "k < LENGTH(8)"
  then show "gmul 1 (2 ^ k) = 2 ^ k" by (simp add: gmul_pow2 xtime_funpow_one)
qed simp

lemma gmul_commute: "gmul a b = gmul b a"
proof (rule gr.linear_eqI [where g = "\<lambda>b. gmul b a"])
  fix k assume "k < LENGTH(8)"
  then have k: "k < 8" by simp
  then have "gmul (2 ^ k) a = gmul ((xtime ^^ k) 1) a" by (simp add: xtime_funpow_one)
  then show "gmul a (2 ^ k) = gmul (2 ^ k) a" using k by (simp add: gmul_funpow_left gmul_pow2)
qed (rule gmul_xor_left)

lemma gmul_assoc: "gmul (gmul a b) c = gmul a (gmul b c)"
proof (rule gr.linear_eqI [where g = "\<lambda>c. gmul a (gmul b c)"])
  fix k assume "k < LENGTH(8)"
  then have k: "k < 8" by simp
  have "gmul a ((xtime ^^ k) b) = (xtime ^^ k) (gmul a b)"
    by (metis gmul_commute gmul_funpow_left)
  then show "gmul (gmul a b) (2 ^ k) = gmul a (gmul b (2 ^ k))" using k by (simp add: gmul_pow2)
qed (simp add: gmul_xor_right)

lemma gmul_zero [simp]: "gmul 0 b = 0" "gmul a 0 = 0"
  using gl.f_zero gr.f_zero by blast+

lemma gmul_left_commute: "gmul a (gmul b c) = gmul b (gmul a c)"
  by (metis gmul_assoc gmul_commute)

lemmas gmul_ac = gmul_assoc gmul_commute gmul_left_commute

section \<open>Squaring, and the inverse\<close>

text \<open>Squaring is linear. Its bits are those that the in-place code of \<open>gf256_square\<close> computes;
  eight squarings are the identity, and only 0 and 1 are their own squares. Hence \<open>x^255\<close> is 1
  for every other byte, which makes \<open>x^254\<close> the inverse.\<close>

definition gsq :: "byte \<Rightarrow> byte" where
  "gsq x = gmul x x"

definition sq_bits :: "byte \<Rightarrow> byte" where
  "sq_bits x = horner_sum of_bool 2
     [bit x 0 \<noteq> (bit x 4 \<noteq> bit x 6), bit x 4 \<noteq> (bit x 6 \<noteq> bit x 7), bit x 1 \<noteq> bit x 5,
      bit x 4 \<noteq> (bit x 5 \<noteq> (bit x 6 \<noteq> bit x 7)), bit x 2 \<noteq> (bit x 4 \<noteq> bit x 7),
      bit x 5 \<noteq> bit x 6, bit x 3 \<noteq> bit x 5, bit x 6 \<noteq> bit x 7]"

lemma bit_horner_8:
  "bit (horner_sum of_bool 2 ps :: byte) n \<longleftrightarrow> n < min 8 (length ps) \<and> ps ! n"
  by (auto simp: bit_horner_sum_bit_word_iff)

lemma byte_eq_iff:
  "a = (b :: byte) \<longleftrightarrow> (bit a 0 \<longleftrightarrow> bit b 0) \<and> (bit a 1 \<longleftrightarrow> bit b 1) \<and> (bit a 2 \<longleftrightarrow> bit b 2)
     \<and> (bit a 3 \<longleftrightarrow> bit b 3) \<and> (bit a 4 \<longleftrightarrow> bit b 4) \<and> (bit a 5 \<longleftrightarrow> bit b 5)
     \<and> (bit a 6 \<longleftrightarrow> bit b 6) \<and> (bit a 7 \<longleftrightarrow> bit b 7)"
proof -
  have "a = b" if "\<And>n. n < 8 \<Longrightarrow> bit a n = bit b n"
    using that by (intro bit_word_eqI) simp
  then show ?thesis unfolding less_8_cases by blast
qed

lemma gsq_xor: "gsq (a XOR b) = gsq a XOR gsq b"
proof -
  have "gsq (a XOR b) = (gsq a XOR gsq b) XOR (gmul a b XOR gmul b a)"
    by (simp add: gsq_def gmul_xor_left gmul_xor_right ac_simps)
  then show ?thesis by (simp add: gmul_commute [of b a])
qed

interpretation sq: xor_linear gsq
  by unfold_locales (rule gsq_xor)

lemma gsq_basis: "k < 8 \<Longrightarrow> gsq (2 ^ k) = sq_bits (2 ^ k)"
  unfolding less_8_cases
  by (elim disjE) (simp_all add: gsq_def gmul_def xtime_def Let_def sq_bits_def)

lemma gsq_eq_sq_bits: "gsq x = sq_bits x"
proof (rule sq.linear_eqI)
  fix a b
  show "sq_bits (a XOR b) = sq_bits a XOR sq_bits b"
    unfolding byte_eq_iff sq_bits_def bit_xor_iff bit_horner_8 by simp argo
next
  fix k assume "k < LENGTH(8)"
  then show "gsq (2 ^ k) = sq_bits (2 ^ k)" by (simp add: gsq_basis)
qed

lemma bit_gsq:
    "bit (gsq x) 0 \<longleftrightarrow> bit x 0 \<noteq> (bit x 4 \<noteq> (bit x 6))"
    "bit (gsq x) 1 \<longleftrightarrow> bit x 4 \<noteq> (bit x 6 \<noteq> (bit x 7))"
    "bit (gsq x) 2 \<longleftrightarrow> bit x 1 \<noteq> (bit x 5)"
    "bit (gsq x) 3 \<longleftrightarrow> bit x 4 \<noteq> (bit x 5 \<noteq> (bit x 6 \<noteq> (bit x 7)))"
    "bit (gsq x) 4 \<longleftrightarrow> bit x 2 \<noteq> (bit x 4 \<noteq> (bit x 7))"
    "bit (gsq x) 5 \<longleftrightarrow> bit x 5 \<noteq> (bit x 6)"
    "bit (gsq x) 6 \<longleftrightarrow> bit x 3 \<noteq> (bit x 5)"
    "bit (gsq x) 7 \<longleftrightarrow> bit x 6 \<noteq> (bit x 7)"
  by (simp_all add: gsq_eq_sq_bits sq_bits_def bit_horner_8 del: horner_sum_simps)

lemma bit_gsq2:
    "bit (gsq (gsq x)) 0 \<longleftrightarrow> bit x 0 \<noteq> (bit x 2 \<noteq> (bit x 3 \<noteq> (bit x 5 \<noteq> (bit x 6 \<noteq> (bit x 7)))))"
    "bit (gsq (gsq x)) 1 \<longleftrightarrow> bit x 2 \<noteq> (bit x 3 \<noteq> (bit x 4 \<noteq> (bit x 5 \<noteq> (bit x 6))))"
    "bit (gsq (gsq x)) 2 \<longleftrightarrow> bit x 4 \<noteq> (bit x 5 \<noteq> (bit x 7))"
    "bit (gsq (gsq x)) 3 \<longleftrightarrow> bit x 2 \<noteq> (bit x 3 \<noteq> (bit x 4))"
    "bit (gsq (gsq x)) 4 \<longleftrightarrow> bit x 1 \<noteq> (bit x 2 \<noteq> (bit x 4 \<noteq> (bit x 5 \<noteq> (bit x 6))))"
    "bit (gsq (gsq x)) 5 \<longleftrightarrow> bit x 3 \<noteq> (bit x 6)"
    "bit (gsq (gsq x)) 6 \<longleftrightarrow> bit x 4 \<noteq> (bit x 7)"
    "bit (gsq (gsq x)) 7 \<longleftrightarrow> bit x 3 \<noteq> (bit x 5 \<noteq> (bit x 6 \<noteq> (bit x 7)))"
  unfolding bit_gsq by argo+

lemma bit_gsq4:
    "bit (gsq (gsq (gsq (gsq x)))) 0 \<longleftrightarrow> bit x 0 \<noteq> (bit x 4 \<noteq> (bit x 5 \<noteq> (bit x 6)))"
    "bit (gsq (gsq (gsq (gsq x)))) 1 \<longleftrightarrow> bit x 1"
    "bit (gsq (gsq (gsq (gsq x)))) 2 \<longleftrightarrow> bit x 1 \<noteq> (bit x 2 \<noteq> (bit x 4 \<noteq> (bit x 6 \<noteq> (bit x 7))))"
    "bit (gsq (gsq (gsq (gsq x)))) 3 \<longleftrightarrow> bit x 1 \<noteq> (bit x 3 \<noteq> (bit x 4 \<noteq> (bit x 6 \<noteq> (bit x 7))))"
    "bit (gsq (gsq (gsq (gsq x)))) 4 \<longleftrightarrow> bit x 1 \<noteq> (bit x 5 \<noteq> (bit x 6))"
    "bit (gsq (gsq (gsq (gsq x)))) 5 \<longleftrightarrow> bit x 2 \<noteq> (bit x 3 \<noteq> (bit x 7))"
    "bit (gsq (gsq (gsq (gsq x)))) 6 \<longleftrightarrow> bit x 1 \<noteq> (bit x 2 \<noteq> (bit x 3 \<noteq> (bit x 4 \<noteq> (bit x 7))))"
    "bit (gsq (gsq (gsq (gsq x)))) 7 \<longleftrightarrow> bit x 2 \<noteq> (bit x 3 \<noteq> (bit x 5))"
  unfolding bit_gsq2 by argo+

lemma gsq8: "gsq (gsq (gsq (gsq (gsq (gsq (gsq (gsq x))))))) = x"
  unfolding byte_eq_iff bit_gsq4 by argo

lemma gsq_idem:
  assumes "gsq x = x"
  shows "x = 0 \<or> x = 1"
proof -
  have "(bit x 1 \<longleftrightarrow> False) \<and> (bit x 2 \<longleftrightarrow> False) \<and> (bit x 3 \<longleftrightarrow> False) \<and> (bit x 4 \<longleftrightarrow> False)
      \<and> (bit x 5 \<longleftrightarrow> False) \<and> (bit x 6 \<longleftrightarrow> False) \<and> (bit x 7 \<longleftrightarrow> False)"
    using assms unfolding byte_eq_iff [of "gsq x"] bit_gsq by argo
  then show ?thesis by (cases "bit x 0") (simp_all add: byte_eq_iff bit_1_iff)
qed

lemma ginv_mul:
  assumes "x \<noteq> 0"
  shows "gmul (ginv x) x = 1"
proof -
  have gi: "ginv x = gmul (gmul (gsq (gmul (gsq (gsq (gsq (gsq x)))) (gmul (gsq (gsq (gsq x))) x)))
      (gsq (gsq (gsq (gmul (gsq (gsq (gsq (gsq x)))) (gmul (gsq (gsq (gsq x))) x)))))) (gsq (gsq x))"
    by (simp add: ginv_def gsq_def Let_def)
  have sqm: "gsq (gmul a b) = gmul (gsq a) (gsq b)" for a b
    by (simp add: gsq_def gmul_ac)
  have split: "gmul (gmul a b) (gmul c d) = gmul (gmul a c) (gmul b d)" for a b c d
    by (simp add: gmul_ac)
  define e where "e = gmul (ginv x) x"
  have xe: "gmul x e = x"
  proof -
    have "gmul x e = gsq (gsq (gsq (gsq (gsq (gsq (gsq (gsq x)))))))"
      unfolding e_def gi sqm by (simp add: gsq_def gmul_ac)
    then show ?thesis by (simp add: gsq8)
  qed
  have "gsq e = gmul (ginv x) (gmul x e)"
    by (simp add: e_def gsq_def gmul_ac)
  also have "\<dots> = e" by (simp only: xe) (simp only: e_def)
  finally have "e = 0 \<or> e = 1" by (rule gsq_idem)
  then show ?thesis using xe assms by (auto simp: e_def)
qed

section \<open>The field\<close>

typedef gf256 = "UNIV :: byte set"
  morphisms gbyte Gf ..

setup_lifting type_definition_gf256

instantiation gf256 :: field
begin

lift_definition zero_gf256 :: gf256 is "0 :: byte" .
lift_definition one_gf256 :: gf256 is "1 :: byte" .
lift_definition plus_gf256 :: "gf256 \<Rightarrow> gf256 \<Rightarrow> gf256" is "\<lambda>a b. a XOR b" .
lift_definition minus_gf256 :: "gf256 \<Rightarrow> gf256 \<Rightarrow> gf256" is "\<lambda>a b. a XOR b" .
lift_definition uminus_gf256 :: "gf256 \<Rightarrow> gf256" is "\<lambda>a. a" .
lift_definition times_gf256 :: "gf256 \<Rightarrow> gf256 \<Rightarrow> gf256" is gmul .
lift_definition inverse_gf256 :: "gf256 \<Rightarrow> gf256" is ginv .
lift_definition divide_gf256 :: "gf256 \<Rightarrow> gf256 \<Rightarrow> gf256" is "\<lambda>a b. gmul a (ginv b)" .

instance
proof
  fix a b c :: gf256
  show "a * b * c = a * (b * c)" by transfer (rule gmul_assoc)
  show "a * b = b * a" by transfer (rule gmul_commute)
  show "1 * a = a" by transfer simp
  show "a + b + c = a + (b + c)" by transfer (simp add: ac_simps)
  show "a + b = b + a" by transfer (simp add: ac_simps)
  show "0 + a = a" by transfer simp
  show "- a + a = 0" by transfer simp
  show "a - b = a + - b" by transfer simp
  show "(a + b) * c = a * c + b * c" by transfer (rule gmul_xor_left)
  show "(0::gf256) \<noteq> 1" by transfer simp
  show "a \<noteq> 0 \<Longrightarrow> inverse a * a = 1" by transfer (rule ginv_mul)
  show "a div b = a * inverse b" by transfer simp
  show "inverse (0::gf256) = 0" by transfer (simp add: ginv_def Let_def)
qed

end

lemma Gf_zero_iff: "Gf a = 0 \<longleftrightarrow> a = 0"
  by (metis Gf_inverse UNIV_I gbyte_inverse zero_gf256.rep_eq)

lemma Gf_simps:
  "Gf (a XOR b) = Gf a + Gf b" "Gf (gmul a b) = Gf a * Gf b" "Gf (ginv a) = inverse (Gf a)"
  "Gf 0 = 0" "Gf 1 = 1"
  by (simp_all add: gbyte_inject [symmetric] Gf_inverse plus_gf256.rep_eq times_gf256.rep_eq
      inverse_gf256.rep_eq zero_gf256.rep_eq one_gf256.rep_eq)

lemma Gf_inject_iff: "Gf a = Gf b \<longleftrightarrow> a = b"
  by (simp add: Gf_inject)

lemma gf256_minus: "a - b = a + (b :: gf256)"
  by transfer simp

end
