(* ===== verification/Interpolation.thy ===== *)
theory Interpolation
  imports Main
begin

text \<open>
  Polynomial evaluation and Lagrange interpolation over any field, from the coefficients up:
  a polynomial with at least as many roots as coefficients is zero, hence a polynomial with
  at most \<open>n\<close> coefficients is the interpolation of its values at any \<open>n\<close> distinct points.
\<close>

primrec peval :: "'a::comm_ring_1 list \<Rightarrow> 'a \<Rightarrow> 'a" where
  "peval [] x = 0"
| "peval (c # cs) x = c + x * peval cs x"

definition lagrange :: "'a::field list \<Rightarrow> 'a list \<Rightarrow> 'a \<Rightarrow> 'a" where
  "lagrange xs ys x =
     (\<Sum>i<length xs. ys ! i * (\<Prod>j\<in>{..<length xs} - {i}. (x - xs ! j) / (xs ! i - xs ! j)))"

definition is_poly :: "nat \<Rightarrow> ('a::comm_ring_1 \<Rightarrow> 'a) \<Rightarrow> bool" where
  "is_poly n f \<longleftrightarrow> (\<exists>cs. length cs \<le> n \<and> f = peval cs)"

section \<open>Roots\<close>

lemma peval_factor:
  "cs \<noteq> [] \<Longrightarrow> \<exists>ds. length ds < length cs \<and> (\<forall>x. peval cs x - peval cs a = (x - a) * peval ds x)"
proof (induction cs)
  case (Cons c cs)
  show ?case
  proof (cases "cs = []")
    case True
    then show ?thesis by (intro exI [of _ "[]"]) simp
  next
    case False
    then obtain ds where ds: "length ds < length cs" "\<And>x. peval cs x - peval cs a = (x - a) * peval ds x"
      using Cons.IH by blast
    have "peval (c # cs) x - peval (c # cs) a = (x - a) * peval (peval cs a # ds) x" for x
    proof -
      have "peval (c # cs) x - peval (c # cs) a
          = x * (peval cs x - peval cs a) + (x - a) * peval cs a"
        by (simp add: algebra_simps)
      also have "\<dots> = (x - a) * peval (peval cs a # ds) x"
        unfolding ds(2) by (simp add: algebra_simps)
      finally show ?thesis .
    qed
    with ds(1) show ?thesis by (intro exI [of _ "peval cs a # ds"]) simp
  qed
qed simp

lemma peval_many_roots:
  fixes cs :: "'a::field list"
  assumes "finite A" and "length cs \<le> card A" and "\<And>a. a \<in> A \<Longrightarrow> peval cs a = 0"
  shows "peval cs x = 0"
  using assms
proof (induction "length cs" arbitrary: cs A x rule: less_induct)
  case less
  show ?case
  proof (cases "cs = []")
    case False
    then have "0 < card A" using less.prems(2) by (cases cs) auto
    then obtain a where a: "a \<in> A" by (metis card_gt_0_iff ex_in_conv)
    obtain ds where ds: "length ds < length cs" "\<And>y. peval cs y - peval cs a = (y - a) * peval ds y"
      using peval_factor [OF False] by blast
    have "peval ds x = 0" for x
    proof (rule less.hyps [of ds "A - {a}"])
      show "length ds \<le> card (A - {a})" using ds(1) less.prems(1,2) a by simp
      fix b assume b: "b \<in> A - {a}"
      then have "(b - a) * peval ds b = 0"
        using ds(2) [of b] less.prems(3) a by simp
      then show "peval ds b = 0" using b by simp
    qed (use ds less.prems in auto)
    then show ?thesis using ds(2) [of x] less.prems(3) [OF a] by simp
  qed simp
qed

section \<open>Functions that are polynomials\<close>

lemma is_poly_add:
  assumes "is_poly n f" and "is_poly n g"
  shows "is_poly n (\<lambda>x. f x + g x)"
proof -
  have add: "\<exists>es. length es = max (length cs) (length ds) \<and> (\<forall>x. peval es x = peval cs x + peval ds x)"
    for cs ds :: "'a list"
  proof (induction cs arbitrary: ds)
    case Nil
    then show ?case by (intro exI [of _ ds]) simp
  next
    case (Cons c cs)
    show ?case
    proof (cases ds)
      case Nil
      then show ?thesis by (intro exI [of _ "c # cs"]) simp
    next
      case (Cons d ds')
      obtain es where "length es = max (length cs) (length ds')"
        and "\<And>x. peval es x = peval cs x + peval ds' x" using Cons.IH [of ds'] by blast
      then show ?thesis using Cons by (intro exI [of _ "(c + d) # es"]) (simp add: algebra_simps)
    qed
  qed
  obtain cs ds where "length cs \<le> n" "f = peval cs" "length ds \<le> n" "g = peval ds"
    using assms by (auto simp: is_poly_def)
  moreover obtain es where "length es = max (length cs) (length ds)"
    and "\<And>x. peval es x = peval cs x + peval ds x" using add [of cs ds] by blast
  ultimately show ?thesis unfolding is_poly_def by (intro exI [of _ es]) (simp add: fun_eq_iff)
qed

lemma is_poly_scale:
  assumes "is_poly n f"
  shows "is_poly n (\<lambda>x. k * f x)"
proof -
  have "peval (map ((*) k) cs) x = k * peval cs x" for cs x
    by (induction cs) (simp_all add: algebra_simps)
  moreover obtain cs where "length cs \<le> n" "f = peval cs" using assms by (auto simp: is_poly_def)
  ultimately show ?thesis
    unfolding is_poly_def by (intro exI [of _ "map ((*) k) cs"]) (simp add: fun_eq_iff)
qed

lemma is_poly_shift:
  assumes "is_poly n f"
  shows "is_poly (Suc n) (\<lambda>x. x * f x)"
proof -
  obtain cs where "length cs \<le> n" "f = peval cs" using assms by (auto simp: is_poly_def)
  then show ?thesis unfolding is_poly_def by (intro exI [of _ "0 # cs"]) (simp add: fun_eq_iff)
qed

lemma is_poly_mono: "is_poly n f \<Longrightarrow> n \<le> m \<Longrightarrow> is_poly m f"
  by (auto simp: is_poly_def intro: order_trans)

lemma is_poly_linear_factor:
  fixes a d :: "'a::field"
  assumes "is_poly n f"
  shows "is_poly (Suc n) (\<lambda>x. ((x - a) / d) * f x)"
proof -
  have "is_poly (Suc n) (\<lambda>x. x * (1 / d * f x) + (- a / d) * f x)"
    using assms by (intro is_poly_add is_poly_shift is_poly_scale is_poly_mono [of n _ "Suc n"]) auto
  then show ?thesis by (simp add: field_simps diff_divide_distrib)
qed

lemma is_poly_prod:
  fixes a d :: "nat \<Rightarrow> 'a::field"
  assumes "finite S"
  shows "is_poly (Suc (card S)) (\<lambda>x. \<Prod>j\<in>S. (x - a j) / d j)"
  using assms
proof (induction S)
  case empty
  show ?case unfolding is_poly_def by (intro exI [of _ "[1]"]) (simp add: fun_eq_iff)
next
  case (insert j S)
  then show ?case using is_poly_linear_factor [of "Suc (card S)" _ "a j" "d j"] by simp
qed

lemma is_poly_sum:
  assumes "finite S" and "\<And>i. i \<in> S \<Longrightarrow> is_poly n (f i)"
  shows "is_poly n (\<lambda>x. \<Sum>i\<in>S. f i x)"
  using assms
proof (induction S)
  case empty
  show ?case unfolding is_poly_def by (intro exI [of _ "[]"]) (simp add: fun_eq_iff)
qed (auto intro: is_poly_add)

section \<open>Interpolation\<close>

lemma is_poly_lagrange: "is_poly (length xs) (lagrange xs ys)"
proof -
  have "is_poly (length xs) (\<lambda>x. ys ! i * (\<Prod>j\<in>{..<length xs} - {i}. (x - xs ! j) / (xs ! i - xs ! j)))"
    if "i \<in> {..<length xs}" for i
  proof (rule is_poly_scale)
    have "Suc (card ({..<length xs} - {i})) = length xs" using that by auto
    then show "is_poly (length xs) (\<lambda>x. \<Prod>j\<in>{..<length xs} - {i}. (x - xs ! j) / (xs ! i - xs ! j))"
      using is_poly_prod [of "{..<length xs} - {i}" "\<lambda>j. xs ! j" "\<lambda>j. xs ! i - xs ! j"] by simp
  qed
  then show ?thesis unfolding lagrange_def by (intro is_poly_sum) auto
qed

lemma lagrange_at_node:
  assumes "distinct xs" and "k < length xs"
  shows "lagrange xs ys (xs ! k) = ys ! k"
proof -
  have "(\<Prod>j\<in>{..<length xs} - {i}. (xs ! k - xs ! j) / (xs ! i - xs ! j)) = (if i = k then 1 else 0)"
    if "i < length xs" for i
  proof (cases "i = k")
    case True
    have "(xs ! k - xs ! j) / (xs ! i - xs ! j) = 1" if "j \<in> {..<length xs} - {i}" for j
      using that True assms by (auto simp: nth_eq_iff_index_eq)
    then show ?thesis using True by simp
  next
    case False
    then have "k \<in> {..<length xs} - {i}" using assms(2) by auto
    then show ?thesis using False
      by (intro trans [OF prod_zero]) auto
  qed
  then have "lagrange xs ys (xs ! k) = (\<Sum>i<length xs. ys ! i * (if i = k then 1 else 0))"
    unfolding lagrange_def by (intro sum.cong) auto
  then show ?thesis using assms(2) by (simp add: if_distrib [of "\<lambda>z. ys ! _ * z"] sum.delta cong: if_cong)
qed

lemma lagrange_peval:
  fixes xs :: "'a::field list"
  assumes "distinct xs" and "length cs \<le> length xs"
  shows "lagrange xs (map (peval cs) xs) x = peval cs x"
proof -
  have "is_poly (length xs) (\<lambda>x. lagrange xs (map (peval cs) xs) x + (- 1) * peval cs x)"
    using assms(2) by (intro is_poly_add is_poly_scale is_poly_lagrange) (auto simp: is_poly_def)
  then obtain ds where ds: "length ds \<le> length xs"
    "\<And>x. lagrange xs (map (peval cs) xs) x + (- 1) * peval cs x = peval ds x"
    unfolding is_poly_def by (metis (no_types))
  have "peval ds x = 0"
  proof (rule peval_many_roots [of "set xs"])
    show "length ds \<le> card (set xs)" using assms(1) ds(1) by (simp add: distinct_card)
    fix a assume "a \<in> set xs"
    then obtain k where k: "k < length xs" "a = xs ! k" by (metis in_set_conv_nth)
    then show "peval ds a = 0"
      using ds(2) [of a] lagrange_at_node [OF assms(1) k(1), of "map (peval cs) xs"] by simp
  qed simp
  then show ?thesis using ds(2) [of x] by simp
qed

end
