(* ===== verification/Shamir.thy ===== *)
theory Shamir
  imports Gf256 Interpolation
begin

text \<open>
  \<open>main/shamir.c\<close>: Shamir interpolation over GF(256) on bitsliced operands. A \<open>uint32_t[8]\<close>
  holds 32 field elements, one per bit position (lane): word \<open>j\<close> carries bit \<open>j\<close> of each. The
  definitions translate the C functions statement by statement; \<open>lane i\<close> is the element that
  lane \<open>i\<close> of a slice stands for. The theorems: every bitsliced operation is the field
  operation of \<open>Gf256\<close> in each lane, and \<open>shamir_interpolate\<close> evaluates, for every byte
  position, the unique polynomial through the shares, and refuses repeated share indices.
\<close>

section \<open>Bitsliced operands\<close>

text \<open>A \<open>uint32_t[8]\<close>.\<close>

datatype slice = SL u32 u32 u32 u32 u32 u32 u32 u32

fun sl_nth :: "slice \<Rightarrow> nat \<Rightarrow> u32" where
  "sl_nth (SL r0 r1 r2 r3 r4 r5 r6 r7) k = [r0, r1, r2, r3, r4, r5, r6, r7] ! k"

text \<open>A loop \<open>for (idx = 0; idx < 8; idx++) r[idx] = e (idx)\<close>.\<close>

definition sl_fun :: "(nat \<Rightarrow> u32) \<Rightarrow> slice" where
  "sl_fun e = SL (e 0) (e 1) (e 2) (e 3) (e 4) (e 5) (e 6) (e 7)"

definition sl_zero :: slice where
  "sl_zero = SL 0 0 0 0 0 0 0 0"

fun bitslice_loop :: "bytes \<Rightarrow> nat \<Rightarrow> slice \<Rightarrow> slice" where
  "bitslice_loop [] arr_idx r = r"
| "bitslice_loop (x # xs) arr_idx r =
     (let cur = ucast x :: u32 in
      bitslice_loop xs (Suc arr_idx)
        (sl_fun (\<lambda>bit_idx. sl_nth r bit_idx OR push_bit arr_idx (drop_bit bit_idx cur AND 1))))"

definition bitslice :: "bytes \<Rightarrow> nat \<Rightarrow> slice" where
  "bitslice x len = bitslice_loop (take len x) 0 sl_zero"

definition unbitslice :: "slice \<Rightarrow> nat \<Rightarrow> bytes" where
  "unbitslice x len =
     fold (\<lambda>bit_idx r. let cur = sl_nth x bit_idx in
             map (\<lambda>arr_idx. r ! arr_idx OR ucast (push_bit bit_idx (drop_bit arr_idx cur AND 1))) [0..<len])
       [0..<8] (replicate len 0)"

definition bitslice_setall :: "byte \<Rightarrow> slice" where
  "bitslice_setall x = sl_fun (\<lambda>idx. - (ucast (drop_bit idx x AND 1)))"

definition gf256_add :: "slice \<Rightarrow> slice \<Rightarrow> slice" where
  "gf256_add r x = sl_fun (\<lambda>idx. sl_nth r idx XOR sl_nth x idx)"

definition gf256_mul :: "slice \<Rightarrow> slice \<Rightarrow> slice" where
  "gf256_mul a b =
     (case a of SL a0 a1 a2 a3 a4 a5 a6 a7 \<Rightarrow> case b of SL b0 b1 b2 b3 b4 b5 b6 b7 \<Rightarrow>
      let
         r0 = a0 AND b0; r1 = a1 AND b0; r2 = a2 AND b0; r3 = a3 AND b0; r4 = a4 AND b0;
         r5 = a5 AND b0; r6 = a6 AND b0; r7 = a7 AND b0; a0 = a0 XOR a7; a2 = a2 XOR a7;
         a3 = a3 XOR a7; r0 = r0 XOR (a7 AND b1); r1 = r1 XOR (a0 AND b1); r2 = r2 XOR (a1 AND b1);
         r3 = r3 XOR (a2 AND b1); r4 = r4 XOR (a3 AND b1); r5 = r5 XOR (a4 AND b1);
         r6 = r6 XOR (a5 AND b1); r7 = r7 XOR (a6 AND b1); a7 = a7 XOR a6; a1 = a1 XOR a6;
         a2 = a2 XOR a6; r0 = r0 XOR (a6 AND b2); r1 = r1 XOR (a7 AND b2); r2 = r2 XOR (a0 AND b2);
         r3 = r3 XOR (a1 AND b2); r4 = r4 XOR (a2 AND b2); r5 = r5 XOR (a3 AND b2);
         r6 = r6 XOR (a4 AND b2); r7 = r7 XOR (a5 AND b2); a6 = a6 XOR a5; a0 = a0 XOR a5;
         a1 = a1 XOR a5; r0 = r0 XOR (a5 AND b3); r1 = r1 XOR (a6 AND b3); r2 = r2 XOR (a7 AND b3);
         r3 = r3 XOR (a0 AND b3); r4 = r4 XOR (a1 AND b3); r5 = r5 XOR (a2 AND b3);
         r6 = r6 XOR (a3 AND b3); r7 = r7 XOR (a4 AND b3); a5 = a5 XOR a4; a7 = a7 XOR a4;
         a0 = a0 XOR a4; r0 = r0 XOR (a4 AND b4); r1 = r1 XOR (a5 AND b4); r2 = r2 XOR (a6 AND b4);
         r3 = r3 XOR (a7 AND b4); r4 = r4 XOR (a0 AND b4); r5 = r5 XOR (a1 AND b4);
         r6 = r6 XOR (a2 AND b4); r7 = r7 XOR (a3 AND b4); a4 = a4 XOR a3; a6 = a6 XOR a3;
         a7 = a7 XOR a3; r0 = r0 XOR (a3 AND b5); r1 = r1 XOR (a4 AND b5); r2 = r2 XOR (a5 AND b5);
         r3 = r3 XOR (a6 AND b5); r4 = r4 XOR (a7 AND b5); r5 = r5 XOR (a0 AND b5);
         r6 = r6 XOR (a1 AND b5); r7 = r7 XOR (a2 AND b5); a3 = a3 XOR a2; a5 = a5 XOR a2;
         a6 = a6 XOR a2; r0 = r0 XOR (a2 AND b6); r1 = r1 XOR (a3 AND b6); r2 = r2 XOR (a4 AND b6);
         r3 = r3 XOR (a5 AND b6); r4 = r4 XOR (a6 AND b6); r5 = r5 XOR (a7 AND b6);
         r6 = r6 XOR (a0 AND b6); r7 = r7 XOR (a1 AND b6); a2 = a2 XOR a1; a4 = a4 XOR a1;
         a5 = a5 XOR a1; r0 = r0 XOR (a1 AND b7); r1 = r1 XOR (a2 AND b7); r2 = r2 XOR (a3 AND b7);
         r3 = r3 XOR (a4 AND b7); r4 = r4 XOR (a5 AND b7); r5 = r5 XOR (a6 AND b7);
         r6 = r6 XOR (a7 AND b7); r7 = r7 XOR (a0 AND b7)
      in SL r0 r1 r2 r3 r4 r5 r6 r7)"

text \<open>The squaring with separate operands, and the one the code runs when \<open>r\<close> and \<open>x\<close> are the
  same array: there every read after a write sees the new value.\<close>

definition gf256_square :: "slice \<Rightarrow> slice" where
  "gf256_square x =
     (case x of SL x0 x1 x2 x3 x4 x5 x6 x7 \<Rightarrow>
      let r14 = x7; r12 = x6; r10 = x5; r8 = x4;
          r6 = x3; r4 = x2; r2 = x1; r0 = x0;
          r7 = r14; r6 = r6 XOR r14; r10 = r10 XOR r14;
          r4 = r4 XOR r12; r5 = r12; r7 = r7 XOR r12; r8 = r8 XOR r12;
          r2 = r2 XOR r10; r3 = r10; r5 = r5 XOR r10; r6 = r6 XOR r10;
          r1 = r14; r2 = r2 XOR r14; r4 = r4 XOR r14; r5 = r5 XOR r14;
          r0 = r0 XOR r8; r1 = r1 XOR r8; r3 = r3 XOR r8; r4 = r4 XOR r8
      in SL r0 r1 r2 r3 r4 r5 r6 r7)"

definition gf256_square_inplace :: "u32 list \<Rightarrow> u32 list" where
  "gf256_square_inplace r =
     (let r14 = r ! 7; r12 = r ! 6; r10 = r ! 5; r8 = r ! 4;
          r = r[6 := r ! 3]; r = r[4 := r ! 2]; r = r[2 := r ! 1]; r = r[0 := r ! 0];
          r = r[7 := r14]; r = r[6 := r ! 6 XOR r14]; r10 = r10 XOR r14;
          r = r[4 := r ! 4 XOR r12]; r = r[5 := r12]; r = r[7 := r ! 7 XOR r12]; r8 = r8 XOR r12;
          r = r[2 := r ! 2 XOR r10]; r = r[3 := r10]; r = r[5 := r ! 5 XOR r10]; r = r[6 := r ! 6 XOR r10];
          r = r[1 := r14]; r = r[2 := r ! 2 XOR r14]; r = r[4 := r ! 4 XOR r14]; r = r[5 := r ! 5 XOR r14];
          r = r[0 := r ! 0 XOR r8]; r = r[1 := r ! 1 XOR r8]; r = r[3 := r ! 3 XOR r8];
          r = r[4 := r ! 4 XOR r8]
      in r)"

definition gf256_inv :: "slice \<Rightarrow> slice" where
  "gf256_inv x =
     (let y = gf256_square x;
          y = gf256_square y;
          r = gf256_square y;
          z = gf256_mul r x;
          r = gf256_square r;
          r = gf256_mul r z;
          r = gf256_square r;
          z = gf256_square r;
          z = gf256_square z;
          r = gf256_mul r z;
          r = gf256_mul r y
      in r)"

section \<open>Interpolation\<close>

definition SHAMIR_MAX_LEN :: nat where "SHAMIR_MAX_LEN = 32"
definition SHAMIR_MAX_SHARE_COUNT :: nat where "SHAMIR_MAX_SHARE_COUNT = 16"

definition sl_is_zero :: "slice \<Rightarrow> bool" where
  "sl_is_zero d =
     ((sl_nth d 0 OR sl_nth d 1 OR sl_nth d 2 OR sl_nth d 3 OR sl_nth d 4 OR sl_nth d 5 OR
       sl_nth d 6 OR sl_nth d 7) = 0)"

definition interpolate_numerator :: "slice \<Rightarrow> slice list \<Rightarrow> slice" where
  "interpolate_numerator x xs = fold (\<lambda>xi num. gf256_mul num (gf256_add x xi)) xs (SL (-1) 0 0 0 0 0 0 0)"

definition interpolate_denominator :: "slice list \<Rightarrow> nat \<Rightarrow> slice \<Rightarrow> slice" where
  "interpolate_denominator xs i denom =
     fold (\<lambda>j denom. if i = j then denom else gf256_mul denom (gf256_add (xs ! i) (xs ! j)))
       [0..<length xs] denom"

text \<open>The loop over the shares: \<open>None\<close> is the \<open>break\<close> with \<open>ret = false\<close>.\<close>

fun interpolate_loop ::
  "byte \<Rightarrow> bytes \<Rightarrow> slice \<Rightarrow> slice list \<Rightarrow> slice list \<Rightarrow> slice \<Rightarrow> nat list \<Rightarrow> slice \<Rightarrow> slice option" where
  "interpolate_loop result_index share_indices x xs ys num [] secret = Some secret"
| "interpolate_loop result_index share_indices x xs ys num (i # is) secret =
     (let (denom, secret) =
            (if share_indices ! i \<noteq> result_index then (gf256_add x (xs ! i), secret)
             else (bitslice_setall 1, gf256_add secret (ys ! i)));
          denom = interpolate_denominator xs i denom
      in if sl_is_zero denom then None
         else let tmp = gf256_inv denom;
                  tmp = gf256_mul tmp num;
                  tmp = gf256_mul tmp (ys ! i)
              in interpolate_loop result_index share_indices x xs ys num is (gf256_add secret tmp))"

text \<open>\<open>Some result\<close> when the function returns true. \<open>share_indices\<close> and \<open>share_values\<close> hold the
  \<open>share_count\<close> entries that the arrays point to.\<close>

definition shamir_interpolate :: "byte \<Rightarrow> bytes \<Rightarrow> bytes list \<Rightarrow> nat \<Rightarrow> bytes option" where
  "shamir_interpolate result_index share_indices share_values len =
     (if len > SHAMIR_MAX_LEN \<or> length share_indices > SHAMIR_MAX_SHARE_COUNT then None
      else
        let xs = map bitslice_setall share_indices;
            ys = map (\<lambda>v. bitslice v len) share_values;
            x = bitslice_setall result_index;
            num = interpolate_numerator x xs
        in case interpolate_loop result_index share_indices x xs ys num [0..<length share_indices] sl_zero of
             None \<Rightarrow> None
           | Some secret \<Rightarrow> Some (unbitslice secret len))"

section \<open>Lanes\<close>

definition lane :: "nat \<Rightarrow> slice \<Rightarrow> byte" where
  "lane i s = horner_sum of_bool 2 (map (\<lambda>j. bit (sl_nth s j) i) [0..<8])"

lemma bit_lane: "j < 8 \<Longrightarrow> bit (lane i s) j = bit (sl_nth s j) i"
  by (simp add: lane_def bit_horner_8 del: upt_rec_numeral)

lemma lane_eqI: "(\<And>j. j < 8 \<Longrightarrow> bit (sl_nth s j) i = bit b j) \<Longrightarrow> lane i s = b"
  by (rule bit_word_eqI) (simp add: bit_lane)

lemma sl_nth_sl_fun [simp]: "j < 8 \<Longrightarrow> sl_nth (sl_fun e) j = e j"
  by (auto simp: sl_fun_def less_8_cases)

lemma lane_zero [simp]: "lane i sl_zero = 0"
  by (rule lane_eqI) (auto simp: sl_zero_def less_8_cases)

lemma lane_add: "lane i (gf256_add r x) = lane i r XOR lane i x"
  by (rule lane_eqI) (simp add: gf256_add_def bit_xor_iff bit_lane)

lemma lane_setall: "i < 32 \<Longrightarrow> lane i (bitslice_setall x) = x"
proof (rule lane_eqI)
  fix j assume i: "i < 32" and j: "j < (8::nat)"
  have "drop_bit j x AND 1 = of_bool (bit x j)"
    by (simp add: and_one_eq odd_iff_mod_2_eq_one bit_iff_odd_drop_bit)
  then show "bit (sl_nth (bitslice_setall x) j) i = bit x j"
    using i j by (simp add: bitslice_setall_def)
qed

text \<open>Multiplication of every lane by \<open>x\<close>, and selection of lanes by a mask.\<close>

fun sl_xtime :: "slice \<Rightarrow> slice" where
  "sl_xtime (SL a0 a1 a2 a3 a4 a5 a6 a7) =
     SL a7 (a0 XOR a7) a1 (a2 XOR a7) (a3 XOR a7) a4 a5 a6"

definition sl_mask :: "slice \<Rightarrow> u32 \<Rightarrow> slice" where
  "sl_mask s w = sl_fun (\<lambda>j. sl_nth s j AND w)"

lemma lane_mask: "lane i (sl_mask s w) = (if bit w i then lane i s else 0)"
  by (rule lane_eqI) (simp add: sl_mask_def bit_and_iff bit_lane)

lemma lane_xtime: "lane i (sl_xtime s) = xtime (lane i s)"
proof (cases s)
  case (SL a0 a1 a2 a3 a4 a5 a6 a7)
  have "bit (xtime b) 0 = bit b 7" "bit (xtime b) 1 = (bit b 0 \<noteq> bit b 7)" "bit (xtime b) 2 = bit b 1"
    "bit (xtime b) 3 = (bit b 2 \<noteq> bit b 7)" "bit (xtime b) 4 = (bit b 3 \<noteq> bit b 7)"
    "bit (xtime b) 5 = bit b 4" "bit (xtime b) 6 = bit b 5" "bit (xtime b) 7 = bit b 6" for b
    unfolding xtime_def bit_xor_iff bit_push_bit_iff by (simp_all split: if_splits)
  then show ?thesis
    by (simp add: byte_eq_iff bit_lane SL bit_xor_iff)
qed

text \<open>The unrolled code is the sum over the bits of \<open>b\<close> of the masked multiples of \<open>a\<close>: the
  rotation of the registers \<open>a2\<close> is the rotation in \<open>sl_xtime\<close>.\<close>

lemma gf256_add_SL:
  "gf256_add (SL r0 r1 r2 r3 r4 r5 r6 r7) (SL x0 x1 x2 x3 x4 x5 x6 x7) =
     SL (r0 XOR x0) (r1 XOR x1) (r2 XOR x2) (r3 XOR x3) (r4 XOR x4) (r5 XOR x5) (r6 XOR x6) (r7 XOR x7)"
  by (simp add: gf256_add_def sl_fun_def)

lemma sl_mask_SL:
  "sl_mask (SL r0 r1 r2 r3 r4 r5 r6 r7) w =
     SL (r0 AND w) (r1 AND w) (r2 AND w) (r3 AND w) (r4 AND w) (r5 AND w) (r6 AND w) (r7 AND w)"
  by (simp add: sl_mask_def sl_fun_def)

lemma gf256_mul_unrolled:
  "gf256_mul a (SL b0 b1 b2 b3 b4 b5 b6 b7) =
     (let x1 = sl_xtime a; x2 = sl_xtime x1; x3 = sl_xtime x2; x4 = sl_xtime x3;
          x5 = sl_xtime x4; x6 = sl_xtime x5; x7 = sl_xtime x6
      in gf256_add (gf256_add (gf256_add (gf256_add (gf256_add (gf256_add (gf256_add
           (sl_mask a b0) (sl_mask x1 b1)) (sl_mask x2 b2)) (sl_mask x3 b3)) (sl_mask x4 b4))
           (sl_mask x5 b5)) (sl_mask x6 b6)) (sl_mask x7 b7))"
proof (cases a)
  case (SL a0 a1 a2 a3 a4 a5 a6 a7)
  show ?thesis
    unfolding SL gf256_mul_def slice.case Let_def sl_xtime.simps sl_mask_SL gf256_add_SL
    by (rule refl)
qed

lemma bit_lane_SL:
  "bit (lane i (SL b0 b1 b2 b3 b4 b5 b6 b7)) 0 = bit b0 i"
  "bit (lane i (SL b0 b1 b2 b3 b4 b5 b6 b7)) 1 = bit b1 i"
  "bit (lane i (SL b0 b1 b2 b3 b4 b5 b6 b7)) 2 = bit b2 i"
  "bit (lane i (SL b0 b1 b2 b3 b4 b5 b6 b7)) 3 = bit b3 i"
  "bit (lane i (SL b0 b1 b2 b3 b4 b5 b6 b7)) 4 = bit b4 i"
  "bit (lane i (SL b0 b1 b2 b3 b4 b5 b6 b7)) 5 = bit b5 i"
  "bit (lane i (SL b0 b1 b2 b3 b4 b5 b6 b7)) 6 = bit b6 i"
  "bit (lane i (SL b0 b1 b2 b3 b4 b5 b6 b7)) 7 = bit b7 i"
  by (simp_all add: bit_lane)

lemma lane_mul: "lane i (gf256_mul a b) = gmul (lane i a) (lane i b)"
proof (cases b)
  case (SL b0 b1 b2 b3 b4 b5 b6 b7)
  show ?thesis
    unfolding SL gf256_mul_unrolled Let_def lane_add lane_mask lane_xtime gmul_def bit_lane_SL
    by (simp only: xor.assoc)
qed

lemma lane_square: "lane i (gf256_square x) = gmul (lane i x) (lane i x)"
proof (cases x)
  case (SL x0 x1 x2 x3 x4 x5 x6 x7)
  have sq: "gf256_square x =
    SL (x0 XOR (x4 XOR x6)) (x7 XOR (x4 XOR x6)) ((x1 XOR (x5 XOR x7)) XOR x7)
       ((x5 XOR x7) XOR (x4 XOR x6)) (((x2 XOR x6) XOR x7) XOR (x4 XOR x6))
       ((x6 XOR (x5 XOR x7)) XOR x7) ((x3 XOR x7) XOR (x5 XOR x7)) (x7 XOR x6)"
    unfolding gf256_square_def SL slice.case Let_def by (rule refl)
  have "lane i (gf256_square x) = gsq (lane i x)"
    unfolding sq byte_eq_iff [of _ "gsq _"] bit_gsq
    unfolding SL bit_lane_SL bit_xor_iff by argo
  then show ?thesis by (simp add: gsq_def)
qed

lemma lane_inv: "lane i (gf256_inv x) = ginv (lane i x)"
  by (simp add: gf256_inv_def ginv_def Let_def lane_mul lane_square)

lemma bit_shifted_bit:
  "bit (push_bit k (drop_bit b w AND 1) :: 'a::len word) i \<longleftrightarrow> i = k \<and> i < LENGTH('a) \<and> bit w b"
  unfolding bit_push_bit_iff bit_and_iff bit_1_iff bit_drop_bit_eq
  by (auto simp: bit_simps)

lemma lane_bitslice_loop:
  assumes "i < 32"
  shows "lane i (bitslice_loop xs k r) =
     lane i r OR (if k \<le> i \<and> i < k + length xs then xs ! (i - k) else 0)"
proof (induction xs arbitrary: k r)
  case (Cons x xs)
  let ?r = "sl_fun (\<lambda>b. sl_nth r b OR push_bit k (drop_bit b (ucast x :: u32) AND 1))"
  have step: "lane i ?r = lane i r OR (if i = k then x else 0)"
  proof (rule lane_eqI)
    fix j assume j: "j < (8::nat)"
    show "bit (sl_nth ?r j) i = bit (lane i r OR (if i = k then x else 0)) j"
      unfolding sl_nth_sl_fun [OF j] bit_or_iff bit_shifted_bit bit_lane [OF j]
      using assms j by (auto simp: bit_ucast_iff)
  qed
  show ?case
    unfolding bitslice_loop.simps Let_def Cons.IH step by (auto simp: nth_Cons' not_le Suc_le_eq)
qed auto

lemma lane_bitslice:
  "i < 32 \<Longrightarrow> len \<le> length x \<Longrightarrow> lane i (bitslice x len) = (if i < len then x ! i else 0)"
  by (simp add: bitslice_def lane_bitslice_loop)

lemma take_bit_Suc_or: "take_bit n w OR (if bit w n then 2 ^ n else 0) = (take_bit (Suc n) w :: byte)"
  by (rule bit_word_eqI) (auto simp: bit_take_bit_iff bit_or_iff bit_exp_iff less_Suc_eq)

lemma unbitslice_lanes:
  assumes "len \<le> 32"
  shows "unbitslice x len = map (\<lambda>i. lane i x) [0..<len]"
proof -
  have "n \<le> 8 \<Longrightarrow> fold (\<lambda>bit_idx r. let cur = sl_nth x bit_idx in
        map (\<lambda>i. r ! i OR ucast (push_bit bit_idx (drop_bit i cur AND 1))) [0..<len]) [0..<n] (replicate len 0)
      = map (\<lambda>i. take_bit n (lane i x)) [0..<len]" for n
  proof (induction n)
    case 0
    then show ?case by (simp add: map_replicate_const)
  next
    case (Suc n)
    have "ucast (push_bit n (drop_bit i (sl_nth x n) AND 1)) = (if bit (lane i x) n then 2 ^ n else (0 :: byte))"
      for i
    proof (rule bit_word_eqI)
      fix m assume "m < LENGTH(8)"
      then show "bit (ucast (push_bit n (drop_bit i (sl_nth x n) AND 1)) :: byte) m =
          bit (if bit (lane i x) n then 2 ^ n else 0 :: byte) m"
        unfolding bit_ucast_iff bit_shifted_bit using Suc.prems by (auto simp: bit_lane bit_exp_iff)
    qed
    then show ?case using Suc by (simp add: Let_def take_bit_Suc_or)
  qed
  from this [of 8] show ?thesis
    by (simp add: unbitslice_def take_bit_word_eq_self del: upt_rec_numeral)
qed

lemma sl_upt_8: "[0..<8] = [0, 1, 2, 3, 4, 5, 6, 7 :: nat]"
  by (simp add: upt_rec)

lemma list8_update:
  "[x0, x1, x2, x3, x4, x5, x6, x7][0 := v] = [v, x1, x2, x3, x4, x5, x6, x7]"
  "[x0, x1, x2, x3, x4, x5, x6, x7][1 := v] = [x0, v, x2, x3, x4, x5, x6, x7]"
  "[x0, x1, x2, x3, x4, x5, x6, x7][2 := v] = [x0, x1, v, x3, x4, x5, x6, x7]"
  "[x0, x1, x2, x3, x4, x5, x6, x7][3 := v] = [x0, x1, x2, v, x4, x5, x6, x7]"
  "[x0, x1, x2, x3, x4, x5, x6, x7][4 := v] = [x0, x1, x2, x3, v, x5, x6, x7]"
  "[x0, x1, x2, x3, x4, x5, x6, x7][5 := v] = [x0, x1, x2, x3, x4, v, x6, x7]"
  "[x0, x1, x2, x3, x4, x5, x6, x7][6 := v] = [x0, x1, x2, x3, x4, x5, v, x7]"
  "[x0, x1, x2, x3, x4, x5, x6, x7][7 := v] = [x0, x1, x2, x3, x4, x5, x6, v]"
  by (simp_all add: numeral_eq_Suc)

lemma list8_nth:
  "[x0, x1, x2, x3, x4, x5, x6, x7] ! 0 = x0" "[x0, x1, x2, x3, x4, x5, x6, x7] ! 1 = x1"
  "[x0, x1, x2, x3, x4, x5, x6, x7] ! 2 = x2" "[x0, x1, x2, x3, x4, x5, x6, x7] ! 3 = x3"
  "[x0, x1, x2, x3, x4, x5, x6, x7] ! 4 = x4" "[x0, x1, x2, x3, x4, x5, x6, x7] ! 5 = x5"
  "[x0, x1, x2, x3, x4, x5, x6, x7] ! 6 = x6" "[x0, x1, x2, x3, x4, x5, x6, x7] ! 7 = x7"
  by simp_all

lemma gf256_square_inplace_eq:
  "gf256_square_inplace [x0, x1, x2, x3, x4, x5, x6, x7] =
     map (sl_nth (gf256_square (SL x0 x1 x2 x3 x4 x5 x6 x7))) [0..<8]"
  unfolding gf256_square_inplace_def gf256_square_def slice.case Let_def sl_upt_8 list8_update
    list8_nth list.map sl_nth.simps
  by (rule refl)

lemma word_eq_0_iff_bits: "(w :: 'a::len word) = 0 \<longleftrightarrow> (\<forall>i<LENGTH('a). \<not> bit w i)"
proof
  assume "\<forall>i<LENGTH('a). \<not> bit w i"
  then show "w = 0" by (intro bit_word_eqI) simp
qed simp

lemma sl_is_zero_iff: "sl_is_zero d \<longleftrightarrow> (\<forall>i<32. lane i d = 0)"
proof -
  have zero_iff: "sl_nth d j = 0 \<longleftrightarrow> (\<forall>i<32. \<not> bit (sl_nth d j) i)" for j
    using word_eq_0_iff_bits [of "sl_nth d j"] by simp
  have lane_iff: "lane i d = 0 \<longleftrightarrow> (\<forall>j<8. \<not> bit (sl_nth d j) i)" for i
    using word_eq_0_iff_bits [of "lane i d"] bit_lane [of _ i d] by simp
  have "sl_is_zero d \<longleftrightarrow> (\<forall>j<8. sl_nth d j = 0)"
    unfolding sl_is_zero_def or_eq_0_iff less_8_cases by blast
  then show ?thesis unfolding zero_iff lane_iff by blast
qed

section \<open>Each lane is an interpolation\<close>

definition glane :: "nat \<Rightarrow> slice \<Rightarrow> gf256" where
  "glane i s = Gf (lane i s)"

lemma glane_simps:
  "glane i (gf256_add a b) = glane i a + glane i b"
  "glane i (gf256_mul a b) = glane i a * glane i b"
  "glane i (gf256_inv a) = inverse (glane i a)"
  "glane i sl_zero = 0"
  by (simp_all add: glane_def lane_add lane_mul lane_inv Gf_simps)

lemma glane_setall: "i < 32 \<Longrightarrow> glane i (bitslice_setall b) = Gf b"
  by (simp add: glane_def lane_setall)

lemma glane_one: "i < 32 \<Longrightarrow> glane i (SL (-1) 0 0 0 0 0 0 0) = 1"
proof -
  assume "i < 32"
  then have "lane i (SL (-1) 0 0 0 0 0 0 0) = 1"
    by (intro lane_eqI) (auto simp: less_8_cases bit_1_iff)
  then show ?thesis by (simp add: glane_def Gf_simps)
qed

lemma numerator_lane:
  assumes "i < 32"
  shows "glane i (interpolate_numerator (bitslice_setall x) (map bitslice_setall idx)) =
     (\<Prod>j<length idx. Gf x - Gf (idx ! j))"
proof -
  have "glane i (fold (\<lambda>xi num. gf256_mul num (gf256_add (bitslice_setall x) xi))
          (map bitslice_setall idx) num) = glane i num * (\<Prod>j<length idx. Gf x - Gf (idx ! j))" for num
  proof (induction idx arbitrary: num)
    case (Cons a idx)
    then show ?case
      using assms by (simp add: glane_simps glane_setall gf256_minus prod.lessThan_Suc_shift ac_simps
          del: prod.lessThan_Suc)
  qed simp
  then show ?thesis using assms by (simp add: interpolate_numerator_def glane_one)
qed

lemma denominator_lane:
  assumes "l < 32" and "i < length idx"
  shows "glane l (interpolate_denominator (map bitslice_setall idx) i d) =
     glane l d * (\<Prod>j\<in>{..<length idx} - {i}. Gf (idx ! i) - Gf (idx ! j))"
proof -
  define step where "step = (\<lambda>j denom. if i = j then denom
      else gf256_mul denom (gf256_add (map bitslice_setall idx ! i) (map bitslice_setall idx ! j)))"
  have step: "glane l (step j e) = glane l e * (if i = j then 1 else Gf (idx ! i) - Gf (idx ! j))"
    if "j < length idx" for j e
    using that assms by (simp add: step_def glane_simps glane_setall gf256_minus)
  have "n \<le> length idx \<Longrightarrow>
      glane l (fold step [0..<n] d) = glane l d * (\<Prod>j\<in>{..<n} - {i}. Gf (idx ! i) - Gf (idx ! j))" for n
  proof (induction n)
    case (Suc n)
    have "{..<Suc n} - {i} = (if i = n then {..<n} - {i} else insert n ({..<n} - {i}))" by auto
    then have "(\<Prod>j\<in>{..<Suc n} - {i}. Gf (idx ! i) - Gf (idx ! j)) =
        (if i = n then 1 else Gf (idx ! i) - Gf (idx ! n)) * (\<Prod>j\<in>{..<n} - {i}. Gf (idx ! i) - Gf (idx ! j))"
      by simp
    then show ?case using Suc by (simp add: step)
  qed simp
  from this [of "length idx"] show ?thesis by (simp add: interpolate_denominator_def step_def)
qed

text \<open>The term that share \<open>i\<close> contributes, in the two cases of the loop body.\<close>

definition basis_term :: "bytes \<Rightarrow> byte \<Rightarrow> nat \<Rightarrow> gf256" where
  "basis_term idx x i =
     (\<Prod>j\<in>{..<length idx} - {i}. (Gf x - Gf (idx ! j)) / (Gf (idx ! i) - Gf (idx ! j)))"

lemma index_diff_prod:
  assumes "distinct idx" and "i < length idx"
  shows "(\<Prod>j\<in>{..<length idx} - {i}. Gf (idx ! i) - Gf (idx ! j)) \<noteq> 0"
  using assms by (auto simp: Gf_inject_iff nth_eq_iff_index_eq)

lemma basis_term_generic:
  assumes "i < length idx" and "idx ! i \<noteq> x"
  shows "inverse ((Gf x - Gf (idx ! i)) * (\<Prod>j\<in>{..<length idx} - {i}. Gf (idx ! i) - Gf (idx ! j)))
     * (\<Prod>j<length idx. Gf x - Gf (idx ! j)) = basis_term idx x i"
proof -
  have "(\<Prod>j<length idx. Gf x - Gf (idx ! j)) =
      (Gf x - Gf (idx ! i)) * (\<Prod>j\<in>{..<length idx} - {i}. Gf x - Gf (idx ! j))"
    using assms(1) by (intro prod.remove) auto
  moreover have "Gf x - Gf (idx ! i) \<noteq> 0" using assms(2) by (simp add: Gf_inject_iff)
  moreover have "inverse (a * b) * (a * c) = c / b" if "a \<noteq> 0" for a b c :: gf256
    using that by (simp add: divide_inverse)
  ultimately show ?thesis by (simp add: basis_term_def prod_dividef)
qed

lemma basis_term_same:
  assumes "distinct idx" and "i < length idx"
  shows "basis_term idx (idx ! i) i = 1"
  unfolding basis_term_def using assms
  by (intro prod.neutral) (auto simp: Gf_inject_iff nth_eq_iff_index_eq)

lemma numerator_zero: "i < length idx \<Longrightarrow> (\<Prod>j<length idx. Gf (idx ! i) - Gf (idx ! j)) = 0"
  by (intro prod_zero) auto

text \<open>The loop body's denominator before the inner loop.\<close>

abbreviation denom0 :: "bytes \<Rightarrow> byte \<Rightarrow> nat \<Rightarrow> slice" where
  "denom0 idx x i \<equiv> (if idx ! i \<noteq> x then gf256_add (bitslice_setall x) (bitslice_setall (idx ! i))
     else bitslice_setall 1)"

lemma denom0_lane:
  "l < 32 \<Longrightarrow> glane l (denom0 idx x i) = (if idx ! i \<noteq> x then Gf x - Gf (idx ! i) else 1)"
  by (simp add: glane_simps glane_setall gf256_minus Gf_simps)

lemma interpolate_loop_Cons:
  assumes "i < length idx"
  shows "interpolate_loop x idx (bitslice_setall x) (map bitslice_setall idx) ys num (i # is) secret =
    (let d = interpolate_denominator (map bitslice_setall idx) i (denom0 idx x i) in
     if sl_is_zero d then None
     else interpolate_loop x idx (bitslice_setall x) (map bitslice_setall idx) ys num is
        (gf256_add (if idx ! i \<noteq> x then secret else gf256_add secret (ys ! i))
          (gf256_mul (gf256_mul (gf256_inv d) num) (ys ! i))))"
  using assms by (simp add: Let_def)

lemma sl_is_zero_denominator:
  assumes "i < length idx"
  shows "sl_is_zero (interpolate_denominator (map bitslice_setall idx) i (denom0 idx x i)) \<longleftrightarrow>
     (\<Prod>j\<in>{..<length idx} - {i}. Gf (idx ! i) - Gf (idx ! j)) = 0"
proof -
  let ?d = "interpolate_denominator (map bitslice_setall idx) i (denom0 idx x i)"
  have "lane l ?d = 0 \<longleftrightarrow> (\<Prod>j\<in>{..<length idx} - {i}. Gf (idx ! i) - Gf (idx ! j)) = 0"
    if "l < 32" for l
    unfolding Gf_zero_iff [symmetric] glane_def [symmetric]
    using denominator_lane [OF that assms] denom0_lane [OF that]
    by (simp only:) (simp add: Gf_inject_iff split: if_splits)
  then show ?thesis unfolding sl_is_zero_iff by (metis zero_less_numeral)
qed

lemma interpolate_loop_lane:
  assumes "distinct idx" and "set is \<subseteq> {..<length idx}" and "l < 32"
    and "num = interpolate_numerator (bitslice_setall x) (map bitslice_setall idx)"
  shows "\<exists>r. interpolate_loop x idx (bitslice_setall x) (map bitslice_setall idx) ys num is secret = Some r
     \<and> glane l r = glane l secret + (\<Sum>i\<leftarrow>is. glane l (ys ! i) * basis_term idx x i)"
  using assms(2)
proof (induction "is" arbitrary: secret)
  case (Cons i "is")
  then have i: "i < length idx" and "set is \<subseteq> {..<length idx}" by simp_all
  define d where "d = interpolate_denominator (map bitslice_setall idx) i (denom0 idx x i)"
  define s where "s = gf256_add (if idx ! i \<noteq> x then secret else gf256_add secret (ys ! i))
          (gf256_mul (gf256_mul (gf256_inv d) num) (ys ! i))"
  have "\<not> sl_is_zero d"
    unfolding d_def sl_is_zero_denominator [OF i] using index_diff_prod [OF assms(1) i] .
  then have "interpolate_loop x idx (bitslice_setall x) (map bitslice_setall idx) ys num (i # is) secret =
      interpolate_loop x idx (bitslice_setall x) (map bitslice_setall idx) ys num is s"
    unfolding interpolate_loop_Cons [OF i] d_def s_def Let_def by simp
  moreover have "glane l s = glane l secret + glane l (ys ! i) * basis_term idx x i"
  proof (cases "idx ! i = x")
    case True
    then show ?thesis
      using numerator_zero [OF i] basis_term_same [OF assms(1) i] assms(3)
      by (simp add: s_def glane_simps assms(4) numerator_lane)
  next
    case False
    then show ?thesis
      using basis_term_generic [OF i False] denom0_lane [OF assms(3), of idx i x]
      by (simp add: s_def d_def glane_simps assms(4) numerator_lane [OF assms(3)]
          denominator_lane [OF assms(3) i] ac_simps)
  qed
  ultimately show ?case
    using Cons.IH [OF \<open>set is \<subseteq> _\<close>, of s] by (auto simp: algebra_simps)
qed simp

lemma interpolate_loop_repeated:
  assumes "i \<in> set is" and "set is \<subseteq> {..<length idx}"
    and "(\<Prod>j\<in>{..<length idx} - {i}. Gf (idx ! i) - Gf (idx ! j)) = 0"
  shows "interpolate_loop x idx (bitslice_setall x) (map bitslice_setall idx) ys num is secret = None"
  using assms(1,2)
proof (induction "is" arbitrary: secret)
  case (Cons k "is")
  then have k: "k < length idx" by simp
  show ?case
    unfolding interpolate_loop_Cons [OF k] Let_def sl_is_zero_denominator [OF k]
    using Cons assms(3) by auto
qed simp

section \<open>The contract\<close>

text \<open>A polynomial over the bytes, by Horner's rule with the field operations of \<open>Gf256\<close>.\<close>

fun gf_poly :: "bytes \<Rightarrow> byte \<Rightarrow> byte" where
  "gf_poly [] x = 0"
| "gf_poly (c # cs) x = c XOR gmul x (gf_poly cs x)"

lemma Gf_gf_poly: "Gf (gf_poly cs x) = peval (map Gf cs) (Gf x)"
  by (induction cs) (simp_all add: Gf_simps)

lemma lagrange_basis_term:
  assumes "length ys = length idx"
  shows "lagrange (map Gf idx) ys (Gf x) = (\<Sum>i\<leftarrow>[0..<length idx]. ys ! i * basis_term idx x i)"
  unfolding lagrange_def basis_term_def using assms
  by (simp add: interv_sum_list_conv_sum_set_nat atLeast0LessThan sum_list_upt)

lemma shamir_interpolate_lagrange:
  assumes "length idx \<le> 16" and "len \<le> 32" and "distinct idx" and "length vals = length idx"
    and "\<forall>v\<in>set vals. len \<le> length v"
  shows "\<exists>r. shamir_interpolate x idx vals len = Some r \<and> length r = len
     \<and> (\<forall>b<len. Gf (r ! b) = lagrange (map Gf idx) (map (\<lambda>v. Gf (v ! b)) vals) (Gf x))"
proof -
  let ?ys = "map (\<lambda>v. bitslice v len) vals"
  let ?num = "interpolate_numerator (bitslice_setall x) (map bitslice_setall idx)"
  let ?loop = "interpolate_loop x idx (bitslice_setall x) (map bitslice_setall idx) ?ys ?num
      [0..<length idx] sl_zero"
  have loop: "\<exists>r. ?loop = Some r
      \<and> glane l r = (\<Sum>i\<leftarrow>[0..<length idx]. glane l (?ys ! i) * basis_term idx x i)" if "l < 32" for l
    using interpolate_loop_lane [OF assms(3) _ that refl, of "[0..<length idx]" x ?ys sl_zero]
    by (simp add: glane_simps atLeast0LessThan)
  then obtain s where s: "?loop = Some s" by (metis zero_less_numeral)
  have "Gf (unbitslice s len ! b) = lagrange (map Gf idx) (map (\<lambda>v. Gf (v ! b)) vals) (Gf x)"
    if "b < len" for b
  proof -
    have "b < 32" using that assms(2) by simp
    have "glane b (?ys ! i) = map (\<lambda>v. Gf (v ! b)) vals ! i" if "i < length idx" for i
      using that \<open>b < 32\<close> \<open>b < len\<close> assms(4,5) by (simp add: glane_def lane_bitslice)
    then have "glane b s = (\<Sum>i\<leftarrow>[0..<length idx]. map (\<lambda>v. Gf (v ! b)) vals ! i * basis_term idx x i)"
      using loop [OF \<open>b < 32\<close>] s by (auto intro!: arg_cong [of _ _ sum_list])
    then show ?thesis
      using that assms(2,4) by (simp add: lagrange_basis_term unbitslice_lanes glane_def)
  qed
  with s show ?thesis
    using assms(1,2) by (simp add: shamir_interpolate_def SHAMIR_MAX_LEN_def SHAMIR_MAX_SHARE_COUNT_def
        Let_def unbitslice_lanes)
qed

text \<open>What a component that recovers a secret relies on: shares that lie on polynomials of at
  most as many coefficients as there are shares give the value of those polynomials anywhere.\<close>

locale interpolator =
  fixes interpolate :: "byte \<Rightarrow> bytes \<Rightarrow> bytes list \<Rightarrow> nat \<Rightarrow> bytes option"
  assumes interpolate_poly:
    "\<lbrakk>length idx \<le> 16; length polys \<le> 32; distinct idx; \<forall>p\<in>set polys. length p \<le> length idx\<rbrakk> \<Longrightarrow>
     interpolate x idx (map (\<lambda>a. map (\<lambda>p. gf_poly p a) polys) idx) (length polys)
       = Some (map (\<lambda>p. gf_poly p x) polys)"
begin

text \<open>Two sets of shares of the same polynomials agree everywhere.\<close>

lemma interpolate_agree:
  assumes "length idx \<le> 16" "length idx' \<le> 16" "distinct idx" "distinct idx'" "length polys \<le> 32"
    and "\<forall>p\<in>set polys. length p \<le> length idx" "\<forall>p\<in>set polys. length p \<le> length idx'"
  shows "interpolate x idx (map (\<lambda>a. map (\<lambda>p. gf_poly p a) polys) idx) (length polys) =
    interpolate x idx' (map (\<lambda>a. map (\<lambda>p. gf_poly p a) polys) idx') (length polys)"
  using assms by (simp add: interpolate_poly)

end

lemma shamir_interpolate_poly:
  assumes "length idx \<le> 16" and "length polys \<le> 32" and "distinct idx"
    and "\<forall>p\<in>set polys. length p \<le> length idx"
  shows "shamir_interpolate x idx (map (\<lambda>a. map (\<lambda>p. gf_poly p a) polys) idx) (length polys)
     = Some (map (\<lambda>p. gf_poly p x) polys)"
proof -
  let ?vals = "map (\<lambda>a. map (\<lambda>p. gf_poly p a) polys) idx"
  obtain r where r: "shamir_interpolate x idx ?vals (length polys) = Some r" "length r = length polys"
    and at: "\<And>b. b < length polys \<Longrightarrow>
      Gf (r ! b) = lagrange (map Gf idx) (map (\<lambda>v. Gf (v ! b)) ?vals) (Gf x)"
    using shamir_interpolate_lagrange [OF assms(1,2,3), of ?vals x] by auto
  have "r ! b = gf_poly (polys ! b) x" if b: "b < length polys" for b
  proof -
    have vals: "map (\<lambda>v. Gf (v ! b)) ?vals = map (peval (map Gf (polys ! b))) (map Gf idx)"
      using b by (simp add: Gf_gf_poly)
    have "distinct (map Gf idx)" using assms(3) by (simp add: distinct_map inj_on_def Gf_inject_iff)
    then have "Gf (r ! b) = peval (map Gf (polys ! b)) (Gf x)"
      unfolding at [OF b] vals using assms(4) b by (intro lagrange_peval) simp_all
    then show ?thesis by (simp add: Gf_gf_poly [symmetric] Gf_inject_iff)
  qed
  then show ?thesis using r by (simp add: list_eq_iff_nth_eq)
qed

interpretation shamir: interpolator shamir_interpolate
  by unfold_locales (rule shamir_interpolate_poly)

text \<open>C40. The bitsliced arithmetic is the arithmetic of GF(256) in every one of the 32 lanes:
  addition, multiplication, squaring (also in place, when the result overwrites its operand)
  and inversion.\<close>

theorem gf256_bitsliced_refines:
  "lane i (gf256_add a b) = lane i a XOR lane i b \<and>
   lane i (gf256_mul a b) = gmul (lane i a) (lane i b) \<and>
   lane i (gf256_square a) = gmul (lane i a) (lane i a) \<and>
   gf256_square_inplace (map (sl_nth a) [0..<8]) = map (sl_nth (gf256_square a)) [0..<8] \<and>
   gmul (lane i (gf256_inv a)) (lane i a) = (if lane i a = 0 then 0 else 1)"
proof -
  have "gf256_square_inplace (map (sl_nth a) [0..<8]) = map (sl_nth (gf256_square a)) [0..<8]"
    by (cases a) (simp add: gf256_square_inplace_eq [unfolded sl_upt_8] sl_upt_8 del: upt_rec_numeral)
  then show ?thesis by (simp add: lane_add lane_mul lane_square lane_inv ginv_mul)
qed

text \<open>C11. Interpolation recovers the secret: for distinct share indices, shares that lie, byte
  position by byte position, on polynomials with at most as many coefficients as there are
  shares are mapped to the values of these polynomials at \<open>result_index\<close>, also when that index
  is one of the shares'.\<close>

theorem shamir_interpolate_correct:
  assumes "length idx \<le> SHAMIR_MAX_SHARE_COUNT" and "length polys \<le> SHAMIR_MAX_LEN" and "distinct idx"
    and "\<forall>p\<in>set polys. length p \<le> length idx"
  shows "shamir_interpolate x idx (map (\<lambda>a. map (\<lambda>p. gf_poly p a) polys) idx) (length polys)
     = Some (map (\<lambda>p. gf_poly p x) polys)"
  using assms unfolding SHAMIR_MAX_LEN_def SHAMIR_MAX_SHARE_COUNT_def by (rule shamir.interpolate_poly)

theorem shamir_interpolate_correct_witness:
  "shamir_interpolate 255 [1, 2] [[0x53 XOR 7, 9], [0x53 XOR 14, 9]] 2
     = Some [gf_poly [0x53, 7] 255, gf_poly [9, 0] 255]"
  using shamir_interpolate_correct [of "[1, 2]" "[[0x53, 7], [9, 0]]" 255]
  by (simp add: SHAMIR_MAX_LEN_def SHAMIR_MAX_SHARE_COUNT_def gmul_def xtime_def Let_def
      numeral_2_eq_2 [symmetric])

text \<open>Repeated share indices, too many shares and too long shares are refused: the function
  returns false and writes no result.\<close>

lemma shamir_interpolate_refuses:
  assumes "\<not> distinct idx \<or> length idx > SHAMIR_MAX_SHARE_COUNT \<or> len > SHAMIR_MAX_LEN"
  shows "shamir_interpolate x idx vals len = None"
proof (cases "length idx > SHAMIR_MAX_SHARE_COUNT \<or> len > SHAMIR_MAX_LEN")
  case False
  then obtain i j where ij: "i < length idx" "j < length idx" "i \<noteq> j" "idx ! i = idx ! j"
    using assms by (auto simp: distinct_conv_nth)
  then have "(\<Prod>j\<in>{..<length idx} - {i}. Gf (idx ! i) - Gf (idx ! j)) = 0"
    by (intro prod_zero) (auto intro!: bexI [of _ j])
  then show ?thesis
    using ij(1) interpolate_loop_repeated [of i "[0..<length idx]" idx]
    by (simp add: shamir_interpolate_def Let_def atLeast0LessThan)
qed (auto simp: shamir_interpolate_def)

end
