(* ===== verification/Slip39.thy ===== *)
theory Slip39
  imports Slip39_Words Bitstream Checksum Shamir
begin

text \<open>
  \<open>main/slip39.c\<close>, parsing of one SLIP-39 share: word lookup, RS1024 checksum, metadata and
  value bits. The theorems: the checksum sees every error confined to three adjacent words; a
  share is accepted exactly when its words satisfy the format, and then its fields are the bits
  of the words.
\<close>

section \<open>Data\<close>

datatype slip39_err = SLIP39_OK | SLIP39_ERR_WORD | SLIP39_ERR_LENGTH | SLIP39_ERR_CHECKSUM
  | SLIP39_ERR_FORMAT | SLIP39_ERR_SET | SLIP39_ERR_DUPLICATE | SLIP39_ERR_GROUP_FULL
  | SLIP39_ERR_GROUPS_FULL | SLIP39_ERR_INCOMPLETE | SLIP39_ERR_DIGEST

definition SLIP39_MAX_GROUPS :: nat where "SLIP39_MAX_GROUPS = 16"
definition SLIP39_MAX_MEMBERS :: nat where "SLIP39_MAX_MEMBERS = 16"
definition SLIP39_SHORT_SHARE_WORDS :: nat where "SLIP39_SHORT_SHARE_WORDS = 20"
definition SLIP39_LONG_SHARE_WORDS :: nat where "SLIP39_LONG_SHARE_WORDS = 33"
definition SLIP39_SHARE_VALUE_MAX :: nat where "SLIP39_SHARE_VALUE_MAX = 32"
definition SLIP39_MASTER_SECRET_MAX :: nat where "SLIP39_MASTER_SECRET_MAX = 32"
definition PASSPHRASE_MAX_LEN :: nat where "PASSPHRASE_MAX_LEN = 100"

lemmas slip39_consts = SLIP39_MAX_GROUPS_def SLIP39_MAX_MEMBERS_def SLIP39_SHORT_SHARE_WORDS_def
  SLIP39_LONG_SHARE_WORDS_def SLIP39_SHARE_VALUE_MAX_def SLIP39_MASTER_SECRET_MAX_def PASSPHRASE_MAX_LEN_def

record slip39_share =
  sh_identifier :: u16
  sh_iteration_exponent :: byte
  sh_group_index :: byte
  sh_group_threshold :: byte
  sh_group_count :: byte
  sh_member_index :: byte
  sh_member_threshold :: byte
  sh_extendable :: bool
  sh_value_len :: byte
  sh_value :: bytes

text \<open>A zeroed share.\<close>

definition share_zero :: slip39_share where
  "share_zero = \<lparr> sh_identifier = 0, sh_iteration_exponent = 0, sh_group_index = 0, sh_group_threshold = 0,
     sh_group_count = 0, sh_member_index = 0, sh_member_threshold = 0, sh_extendable = False,
     sh_value_len = 0, sh_value = replicate 32 0 \<rparr>"

section \<open>The RS1024 checksum\<close>

definition CUSTOMIZATION_ORIG :: bytes where "CUSTOMIZATION_ORIG = str ''shamir''"
definition CUSTOMIZATION_EXTENDABLE :: bytes where "CUSTOMIZATION_EXTENDABLE = str ''shamir_extendable''"

definition rs1024_gen :: "u32 list" where
  "rs1024_gen = [0x00E0E040, 0x01C1C080, 0x03838100, 0x07070200, 0x0E0E0009, 0x1C0C2412,
     0x38086C24, 0x3090FC48, 0x21B1F890, 0x03F3F120]"

definition rs1024_step :: "u32 \<Rightarrow> u32 \<Rightarrow> u32" where
  "rs1024_step chk v =
     (let b = drop_bit 20 chk;
          chk = push_bit 10 (chk AND 0x000FFFFF) XOR v
      in fold (\<lambda>j chk. if drop_bit j b AND 1 \<noteq> 0 then chk XOR rs1024_gen ! j else chk) [0..<10] chk)"

definition rs1024_polymod :: "bytes \<Rightarrow> u16 list \<Rightarrow> u32" where
  "rs1024_polymod customization values = foldl rs1024_step 1 (map ucast customization @ map ucast values)"

section \<open>Parsing one share\<close>

text \<open>Any control character or space separates words.\<close>

definition blank :: "byte \<Rightarrow> bool" where
  "blank c = (c \<le> chr (CHR '' ''))"

function parse_words :: "bytes \<Rightarrow> u16 list \<Rightarrow> (slip39_err + u16 list) option" where
  "parse_words [] indices = Some (Inr indices)"
| "parse_words (c # cs) indices =
     (if blank c then parse_words cs indices
      else if length indices = SLIP39_LONG_SHARE_WORDS then Some (Inl SLIP39_ERR_LENGTH)
      else do {
        found \<leftarrow> slip39_word_index (takeWhile (\<lambda>c. \<not> blank c) (c # cs));
        case found of
          None \<Rightarrow> Some (Inl SLIP39_ERR_WORD)
        | Some i \<Rightarrow> parse_words (dropWhile (\<lambda>c. \<not> blank c) (c # cs)) (indices @ [i]) })"
  by pat_completeness auto
termination
  by (relation "measure (\<lambda>(cs, indices). length cs)") (auto simp: less_Suc_eq_le length_dropWhile_le)

declare parse_words.simps [simp del]

text \<open>The \<open>while (bits >= 8)\<close> loop, and the loop over the value words around it.\<close>

function value_emit :: "u64 \<Rightarrow> nat \<Rightarrow> nat \<Rightarrow> bytes \<Rightarrow> (nat \<times> nat \<times> bytes) option" where
  "value_emit acc bits out buf =
     (if bits \<ge> 8 then do {
        let bits = bits - 8;
        buf \<leftarrow> buf_set buf out (ucast (drop_bit bits acc AND 0xFF));
        value_emit acc bits (Suc out) buf }
      else Some (bits, out, buf))"
  by auto
termination
  by (relation "measure (\<lambda>(acc, bits, out, buf). bits)") auto

declare value_emit.simps [simp del]

fun value_loop :: "nat \<Rightarrow> u16 list \<Rightarrow> u64 \<Rightarrow> nat \<Rightarrow> nat \<Rightarrow> bytes \<Rightarrow> (nat \<times> nat \<times> bytes) option" where
  "value_loop nbits [] acc bits out buf = Some (bits, out, buf)"
| "value_loop nbits (w # ws) acc bits out buf = do {
     let acc = push_bit nbits acc OR ucast w;
     (bits, out, buf) \<leftarrow> value_emit acc (bits + nbits) out buf;
     value_loop 10 ws acc bits out buf }"

definition parse_indices :: "u16 list \<Rightarrow> (slip39_err + slip39_share) option" where
  "parse_indices indices =
     (let num_words = length indices in
      if num_words \<noteq> SLIP39_SHORT_SHARE_WORDS \<and> num_words \<noteq> SLIP39_LONG_SHARE_WORDS
      then Some (Inl SLIP39_ERR_LENGTH)
      else
        let id_exp = push_bit 10 (ucast (indices ! 0)) OR ucast (indices ! 1) :: u32;
            identifier = ucast (drop_bit 5 id_exp) :: u16;
            extendable = (drop_bit 4 id_exp AND 1 \<noteq> 0);
            iteration_exponent = ucast (id_exp AND 0xF) :: byte;
            customization = (if extendable then CUSTOMIZATION_EXTENDABLE else CUSTOMIZATION_ORIG)
        in if rs1024_polymod customization indices \<noteq> 1 then Some (Inl SLIP39_ERR_CHECKSUM)
        else
          let meta = push_bit 10 (ucast (indices ! 2)) OR ucast (indices ! 3) :: u32;
              group_threshold = ucast (drop_bit 12 meta AND 0x0F) :: byte;
              group_count = ucast (drop_bit 8 meta AND 0x0F) :: byte
          in if group_count < group_threshold then Some (Inl SLIP39_ERR_FORMAT)
          else
            let value_words = num_words - 7;
                padding_len = (10 * value_words) mod 16
            in if unat (indices ! 4) \<ge> 2 ^ (10 - padding_len) then Some (Inl SLIP39_ERR_FORMAT)
            else do {
              (bits, out, value) \<leftarrow>
                value_loop (10 - padding_len) (take value_words (drop 4 indices)) 0 0 0 (replicate 32 0);
              jade_assert (bits = 0);
              jade_assert (out \<noteq> 0 \<and> out \<le> SLIP39_SHARE_VALUE_MAX);
              Some (Inr \<lparr> sh_identifier = identifier, sh_iteration_exponent = iteration_exponent,
                sh_group_index = ucast (drop_bit 16 meta AND 0x0F),
                sh_group_threshold = group_threshold + 1, sh_group_count = group_count + 1,
                sh_member_index = ucast (drop_bit 4 meta AND 0x0F),
                sh_member_threshold = ucast (meta AND 0x0F) + 1, sh_extendable = extendable,
                sh_value_len = of_nat out, sh_value = value \<rparr>) })"

definition slip39_parse_share :: "bytes \<Rightarrow> (slip39_err \<times> slip39_share) option" where
  "slip39_parse_share mnemonic = do {
     jade_assert (mnemonic \<noteq> []);
     words \<leftarrow> parse_words mnemonic [];
     r \<leftarrow> (case words of Inl rc \<Rightarrow> Some (Inl rc) | Inr indices \<Rightarrow> parse_indices indices);
     Some (case r of Inl rc \<Rightarrow> (rc, share_zero) | Inr share \<Rightarrow> (SLIP39_OK, share)) }"

section \<open>RS1024 sees every burst of three words\<close>

definition rs_part :: "u32 \<Rightarrow> nat \<Rightarrow> u32" where
  "rs_part chk j = (if bit chk (20 + j) then rs1024_gen ! j else 0)"

lemma rs1024_step_parts:
  "rs1024_step chk v = push_bit 10 (chk AND 0x000FFFFF) XOR v XOR rs_part chk 0 XOR rs_part chk 1
     XOR rs_part chk 2 XOR rs_part chk 3 XOR rs_part chk 4 XOR rs_part chk 5 XOR rs_part chk 6
     XOR rs_part chk 7 XOR rs_part chk 8 XOR rs_part chk 9"
proof -
  have upt: "[0..<10] = [0, 1, 2, 3, 4, 5, 6, 7, 8, 9 :: nat]" by (simp add: upt_rec)
  have test: "drop_bit j (drop_bit 20 chk) AND 1 \<noteq> 0 \<longleftrightarrow> bit chk (20 + j)" for j
    by (simp add: and_one_eq bit_iff_odd_drop_bit odd_iff_mod_2_eq_one add.commute)
  have "(if drop_bit j (drop_bit 20 chk) AND 1 \<noteq> 0 then c XOR rs1024_gen ! j else c) = c XOR rs_part chk j" for j c
    unfolding test by (simp add: rs_part_def)
  then show ?thesis unfolding rs1024_step_def Let_def upt by (simp add: xor.assoc)
qed

lemma rs_part_xor: "rs_part (a XOR b) j = rs_part a j XOR rs_part b j"
  by (simp add: rs_part_def bit_xor_iff)

lemma rs1024_step_input: "rs1024_step chk v = rs1024_step chk 0 XOR v"
  unfolding rs1024_step_parts by (simp add: ac_simps)

lemma rs1024_step_xor: "rs1024_step (a XOR b) 0 = rs1024_step a 0 XOR rs1024_step b 0"
proof -
  have "push_bit 10 ((a XOR b) AND 0x000FFFFF) =
      push_bit 10 (a AND 0x000FFFFF) XOR push_bit 10 (b AND 0x000FFFFF :: u32)"
    by (rule bit_word_eqI) (auto simp: bit_push_bit_iff bit_and_iff bit_xor_iff)
  then show ?thesis unfolding rs1024_step_parts rs_part_xor by (simp add: ac_simps)
qed

lemma mask_20: "(0x000FFFFF :: u32) = mask 20"
  by (simp add: mask_eq_exp_minus_1)

lemma less_10_cases: "(k :: nat) < 10 \<longleftrightarrow> k = 0 \<or> k = 1 \<or> k = 2 \<or> k = 3 \<or> k = 4 \<or> k = 5
    \<or> k = 6 \<or> k = 7 \<or> k = 8 \<or> k = 9"
  by arith

lemma rs_gen_small: "j < 10 \<Longrightarrow> unat (rs1024_gen ! j) < 2 ^ 30"
proof -
  have "\<forall>g\<in>set rs1024_gen. unat g < 2 ^ 30" by (simp add: rs1024_gen_def)
  moreover assume "j < 10"
  moreover have "length rs1024_gen = 10" by (simp add: rs1024_gen_def)
  ultimately show ?thesis by (metis nth_mem)
qed

lemma bit_rs_part:
  "bit (rs_part c 0) i = (bit c 20 \<and> bit (0x00E0E040 :: u32) i)"
  "bit (rs_part c 1) i = (bit c 21 \<and> bit (0x01C1C080 :: u32) i)"
  "bit (rs_part c 2) i = (bit c 22 \<and> bit (0x03838100 :: u32) i)"
  "bit (rs_part c 3) i = (bit c 23 \<and> bit (0x07070200 :: u32) i)"
  "bit (rs_part c 4) i = (bit c 24 \<and> bit (0x0E0E0009 :: u32) i)"
  "bit (rs_part c 5) i = (bit c 25 \<and> bit (0x1C0C2412 :: u32) i)"
  "bit (rs_part c 6) i = (bit c 26 \<and> bit (0x38086C24 :: u32) i)"
  "bit (rs_part c 7) i = (bit c 27 \<and> bit (0x3090FC48 :: u32) i)"
  "bit (rs_part c 8) i = (bit c 28 \<and> bit (0x21B1F890 :: u32) i)"
  "bit (rs_part c 9) i = (bit c 29 \<and> bit (0x03F3F120 :: u32) i)"
  by (simp_all add: rs_part_def rs1024_gen_def)

lemma bit_rs_step_low:
  "bit (rs1024_step c 0) 0 = bit c 24"
  "bit (rs1024_step c 0) 1 = bit c 25"
  "bit (rs1024_step c 0) 2 = bit c 26"
  "bit (rs1024_step c 0) 3 = (bit c 24 \<noteq> bit c 27)"
  "bit (rs1024_step c 0) 4 = (bit c 25 \<noteq> bit c 28)"
  "bit (rs1024_step c 0) 5 = (bit c 26 \<noteq> bit c 29)"
  "bit (rs1024_step c 0) 6 = (bit c 20 \<noteq> bit c 27)"
  "bit (rs1024_step c 0) 7 = (bit c 21 \<noteq> bit c 28)"
  "bit (rs1024_step c 0) 8 = (bit c 22 \<noteq> bit c 29)"
  "bit (rs1024_step c 0) 9 = bit c 23"
  unfolding rs1024_step_parts bit_xor_iff bit_rs_part bit_push_bit_iff by simp_all

lemma rs1024_step_no_high:
  assumes "\<And>j. j < 10 \<Longrightarrow> \<not> bit c (20 + j)"
  shows "rs1024_step c 0 = push_bit 10 (c AND mask 20)"
proof -
  have "rs_part c j = 0" if "j < 10" for j using assms [OF that] by (simp add: rs_part_def)
  then show ?thesis unfolding rs1024_step_parts mask_20 by simp
qed

lemma rs1024_step_faithful:
  assumes "unat c < 2 ^ 30" and "rs1024_step c 0 = 0"
  shows "c = 0"
proof -
  have "\<not> bit c 20 \<and> \<not> bit c 21 \<and> \<not> bit c 22 \<and> \<not> bit c 23 \<and> \<not> bit c 24 \<and> \<not> bit c 25
      \<and> \<not> bit c 26 \<and> \<not> bit c 27 \<and> \<not> bit c 28 \<and> \<not> bit c 29"
    using bit_rs_step_low [of c] unfolding assms(2) by simp
  then have high: "\<not> bit c (20 + j)" if "j < 10" for j
    using that unfolding less_10_cases by auto
  have zero: "push_bit 10 (c AND mask 20) = 0"
    using rs1024_step_no_high [OF high] assms(2) by simp
  have "\<not> bit c i" for i
  proof -
    consider "i < 20" | "20 \<le> i" "i < 30" | "30 \<le> i" by linarith
    then show ?thesis
    proof cases
      case 1
      then have "bit (push_bit 10 (c AND mask 20)) (i + 10) = bit c i"
        by (simp add: bit_push_bit_iff bit_and_iff bit_mask_iff)
      then show ?thesis using zero by simp
    next
      case 2
      then show ?thesis using high [of "i - 20"] by simp
    next
      case 3
      then show ?thesis using not_bit_of_small [OF assms(1)] by blast
    qed
  qed
  then show ?thesis by (auto intro: bit_word_eqI)
qed

lemma rs1024_step_bound: "unat (rs1024_step c 0) < 2 ^ 30"
proof -
  have part: "\<not> bit (rs_part c j) i" if "j < 10" "30 \<le> i" for i j
    using not_bit_of_small [OF rs_gen_small [OF that(1)] that(2)] by (simp add: rs_part_def)
  have "\<not> bit (push_bit 10 (c AND mask 20)) i" if "30 \<le> i" for i
    using that by (auto simp: bit_push_bit_iff bit_and_iff bit_mask_iff)
  then have "\<forall>i. 30 \<le> i \<longrightarrow> \<not> bit (rs1024_step c 0) i"
    unfolding rs1024_step_parts mask_20 bit_xor_iff by (simp add: part)
  then show ?thesis by (subst unat_less_iff_bits) simp_all
qed

interpretation rs: linear_checksum "\<lambda>chk. rs1024_step chk 0" 30 10
proof
  fix c :: u32 assume "unat c < 2 ^ (30 - 10)"
  then have "\<forall>i. 20 \<le> i \<longrightarrow> \<not> bit c i" using not_bit_of_small [of c 20] by simp
  moreover from this have "c AND mask 20 = c"
    by (intro bit_word_eqI) (use not_less in \<open>auto simp: bit_and_iff bit_mask_iff\<close>)
  ultimately show "rs1024_step c 0 = push_bit 10 c" using rs1024_step_no_high [of c] by simp
qed (use rs1024_step_xor rs1024_step_faithful rs1024_step_bound in simp_all)

lemma rs1024_polymod_feed:
  "rs1024_polymod cust values = rs.feed 1 (map ucast cust @ map ucast values)"
  unfolding rs1024_polymod_def rs.feed_def
  by (rule foldl_cong) (auto intro: rs1024_step_input)

text \<open>The RS1024 checksum detects every error that is confined to three adjacent words: two
  word sequences that differ only there never have the same checksum, whatever words precede
  and follow and whatever the errors are.\<close>

lemma rs1024_detects_bursts:
  assumes "length us = length vs" and "length us \<le> 3" and "us \<noteq> vs"
    and "\<forall>w\<in>set us \<union> set vs. unat w < 1024"
  shows "rs1024_polymod cust (ps @ us @ ss) \<noteq> rs1024_polymod cust (ps @ vs @ ss)"
proof -
  have inj: "inj (ucast :: u16 \<Rightarrow> u32)"
    by (rule inj_ucast_widen) simp
  have "rs.feed 1 ((map ucast cust @ map ucast ps) @ map ucast us @ map ucast ss) \<noteq>
      rs.feed 1 ((map ucast cust @ map ucast ps) @ map ucast vs @ map ucast ss)"
  proof (rule rs.burst_detected)
    show "map ucast us \<noteq> (map ucast vs :: u32 list)" using assms(3) inj by (simp add: inj_map_eq_map)
    show "\<forall>v\<in>set (map ucast us) \<union> set (map ucast vs). unat (v :: u32) < 2 ^ 10"
      using assms(4) by (auto simp: unat_ucast_widen)
  qed (use assms in simp_all)
  then show ?thesis by (simp add: rs1024_polymod_feed)
qed

section \<open>What the words of a share say\<close>

text \<open>The words of a text: maximal runs of bytes above the blank.\<close>

fun text_words :: "bytes \<Rightarrow> bytes \<Rightarrow> bytes list" where
  "text_words cur [] = (if cur = [] then [] else [cur])"
| "text_words cur (c # cs) =
     (if blank c then (if cur = [] then text_words [] cs else cur # text_words [] cs)
      else text_words (cur @ [c]) cs)"

lemma text_words_run:
  "cur \<noteq> [] \<Longrightarrow> text_words cur cs =
     (cur @ takeWhile (\<lambda>c. \<not> blank c) cs) # text_words [] (dropWhile (\<lambda>c. \<not> blank c) cs)"
proof (induction cs arbitrary: cur)
  case (Cons c cs)
  then show ?case by (cases "blank c") simp_all
qed simp

text \<open>The word loop is the lookup of the words, in order, up to the first that fails.\<close>

definition lookup_word :: "bytes \<Rightarrow> u16 option" where
  "lookup_word w = the (slip39_word_index w)"

lemma slip39_word_index_lookup: "slip39_word_index w = Some (lookup_word w)"
  using word_index_total [of w] by (metis lookup_word_def option.sel)

lemma lookup_word_iff:
  "lookup_word w = Some k \<longleftrightarrow> unat k < 1024 \<and> SLIP39_WORDLIST ! unat k = map ascii_lower w"
  using word_index_total [of w] unfolding lookup_word_def by (metis option.sel)

fun lookup_words :: "bytes list \<Rightarrow> u16 list \<Rightarrow> slip39_err + u16 list" where
  "lookup_words [] indices = Inr indices"
| "lookup_words (w # ws) indices =
     (if length indices = SLIP39_LONG_SHARE_WORDS then Inl SLIP39_ERR_LENGTH
      else case lookup_word w of None \<Rightarrow> Inl SLIP39_ERR_WORD | Some i \<Rightarrow> lookup_words ws (indices @ [i]))"

lemma parse_words_lookup: "parse_words cs indices = Some (lookup_words (text_words [] cs) indices)"
proof (induction cs indices rule: parse_words.induct)
  case (2 c cs indices)
  show ?case
  proof (cases "blank c")
    case False
    then have "text_words [] (c # cs) = takeWhile (\<lambda>c. \<not> blank c) (c # cs)
        # text_words [] (dropWhile (\<lambda>c. \<not> blank c) (c # cs))"
      using text_words_run [of "[c]" cs] by simp
    with False show ?thesis
      using "2.IH"(2) [OF False] by (subst parse_words.simps)
        (simp add: slip39_word_index_lookup split: option.split)
  qed (use 2 in \<open>simp add: parse_words.simps\<close>)
qed (simp add: parse_words.simps)

lemma lookup_words_Inr:
  assumes "length indices + length ws \<le> 33"
  shows "lookup_words ws indices = Inr r \<longleftrightarrow>
     (\<exists>is. r = indices @ is \<and> list_all2 (\<lambda>w i. lookup_word w = Some i) ws is)"
  using assms
proof (induction ws arbitrary: indices)
  case (Cons w ws)
  show ?case
  proof (cases "lookup_word w")
    case None
    with Cons.prems show ?thesis by (auto simp: slip39_consts list_all2_Cons1)
  next
    case (Some i)
    with Cons.prems Cons.IH [of "indices @ [i]"] show ?thesis
      by (auto simp: slip39_consts list_all2_Cons1)
  qed
qed auto

lemma lookup_words_long: "length indices + length ws > 33 \<Longrightarrow> length indices \<le> 33 \<Longrightarrow> \<exists>e. lookup_words ws indices = Inl e"
proof (induction ws arbitrary: indices)
  case (Cons w ws)
  then show ?case by (cases "length indices = 33") (auto simp: slip39_consts split: option.split)
qed simp

section \<open>Value bits\<close>

lemma value_emit_bits:
  assumes "out + bits div 8 \<le> length buf" and "bits \<le> 64"
  shows "\<exists>buf'. value_emit acc bits out buf = Some (bits mod 8, out + bits div 8, buf')
     \<and> length buf' = length buf \<and> drop (out + bits div 8) buf' = drop (out + bits div 8) buf
     \<and> stream 8 (take (out + bits div 8) buf') @ be_bits (bits mod 8) acc
         = stream 8 (take out buf) @ be_bits bits acc"
  using assms
proof (induction bits arbitrary: out buf rule: less_induct)
  case (less bits)
  show ?case
  proof (cases "8 \<le> bits")
    case True
    define m where "m = bits - 8"
    have m: "bits = 8 + m" "m < bits" "bits div 8 = Suc (m div 8)" "bits mod 8 = m mod 8"
      using True by (auto simp: m_def le_div_geq le_mod_geq)
    define v :: byte where "v = ucast (drop_bit m acc AND 0xFF)"
    have out: "out < length buf" using less.prems m by simp
    have v: "be_bits 8 v = be_bits 8 (drop_bit m acc)"
    proof -
      have m8: "(0xFF :: u64) = mask 8" by (simp add: mask_eq_exp_minus_1)
      have "be_bits 8 v = be_bits 8 (drop_bit m acc AND 0xFF)"
        unfolding v_def by (rule be_bits_ucast) simp_all
      then show ?thesis unfolding m8 by (simp only: be_bits_mask order_refl)
    qed
    have step: "value_emit acc bits out buf = value_emit acc m (Suc out) (buf[out := v])"
      using True out by (subst value_emit.simps) (simp add: buf_set_def v_def m_def Let_def)
    have "take (Suc out) (buf[out := v]) = take out buf @ [v]"
      using out by (simp add: take_Suc_conv_app_nth)
    moreover have "be_bits bits acc = be_bits 8 v @ be_bits m acc"
      unfolding v m(1) by (rule be_bits_split)
    ultimately show ?thesis
      using less.IH [OF m(2), of "Suc out" "buf[out := v]"] less.prems step m
      by (auto simp: drop_update_cancel)
  qed (simp add: value_emit.simps)
qed

lemma carry_div: "b div 8 + (b mod 8 + x) div 8 = (b + x) div (8 :: nat)"
proof -
  have "b + x = (b mod 8 + x) + (b div 8) * 8" by simp
  then show ?thesis by (metis div_mult_self1 add.commute zero_neq_numeral)
qed

lemma value_loop_bits:
  assumes "bits < 8" and "nbits \<le> 10" and "\<forall>w\<in>set ws. unat w < 2 ^ 10"
    and "ws \<noteq> [] \<longrightarrow> unat (hd ws) < 2 ^ nbits"
    and "T = (if ws = [] then bits else bits + nbits + 10 * (length ws - 1))"
    and "out + T div 8 \<le> length buf"
  shows "\<exists>buf' acc'. value_loop nbits ws acc bits out buf = Some (T mod 8, out + T div 8, buf')
     \<and> length buf' = length buf \<and> drop (out + T div 8) buf' = drop (out + T div 8) buf
     \<and> stream 8 (take (out + T div 8) buf') @ be_bits (T mod 8) (acc' :: u64)
         = stream 8 (take out buf) @ be_bits bits acc @
           (if ws = [] then [] else be_bits nbits (hd ws) @ stream 10 (tl ws))"
  using assms
proof (induction ws arbitrary: nbits acc bits out buf T)
  case Nil
  then show ?case by auto
next
  case (Cons w ws)
  define acc1 :: u64 where "acc1 = push_bit nbits acc OR ucast w"
  define b where "b = bits + nbits"
  have T: "T = b + 10 * length ws" using Cons.prems(5) by (simp add: b_def)
  have shift: "be_bits b acc1 = be_bits bits acc @ be_bits nbits w"
    unfolding b_def acc1_def by (rule be_bits_shift_in) (use Cons.prems in simp_all)
  have "out + b div 8 \<le> length buf"
    using Cons.prems(6) div_le_mono [of b T 8] T by simp
  then obtain buf1 where e: "value_emit acc1 b out buf = Some (b mod 8, out + b div 8, buf1)"
    "length buf1 = length buf" "drop (out + b div 8) buf1 = drop (out + b div 8) buf"
    "stream 8 (take (out + b div 8) buf1) @ be_bits (b mod 8) acc1 = stream 8 (take out buf) @ be_bits b acc1"
    using value_emit_bits [of out b buf acc1] Cons.prems(1,2) by (auto simp: b_def)
  define T1 where "T1 = (if ws = [] then b mod 8 else b mod 8 + 10 + 10 * (length ws - 1))"
  have T1: "T1 = b mod 8 + 10 * length ws" by (cases ws) (simp_all add: T1_def)
  have eq: "out + b div 8 + T1 div 8 = out + T div 8" "T1 mod 8 = T mod 8"
    unfolding T T1 by (simp_all add: carry_div mod_add_left_eq)
  have "\<exists>buf' acc'. value_loop 10 ws acc1 (b mod 8) (out + b div 8) buf1
        = Some (T1 mod 8, out + b div 8 + T1 div 8, buf')
     \<and> length buf' = length buf1
     \<and> drop (out + b div 8 + T1 div 8) buf' = drop (out + b div 8 + T1 div 8) buf1
     \<and> stream 8 (take (out + b div 8 + T1 div 8) buf') @ be_bits (T1 mod 8) (acc' :: u64)
         = stream 8 (take (out + b div 8) buf1) @ be_bits (b mod 8) acc1 @
           (if ws = [] then [] else be_bits 10 (hd ws) @ stream 10 (tl ws))"
  proof (rule Cons.IH [OF _ _ _ _ T1_def])
    show "\<forall>w\<in>set ws. unat w < 2 ^ 10" using Cons.prems(3) by simp
    then show "ws \<noteq> [] \<longrightarrow> unat (hd ws) < 2 ^ 10" by simp
    show "out + b div 8 + T1 div 8 \<le> length buf1" unfolding eq e(2) by (rule Cons.prems(6))
  qed simp_all
  then obtain buf' acc' where r: "value_loop 10 ws acc1 (b mod 8) (out + b div 8) buf1
        = Some (T mod 8, out + T div 8, buf')"
    "length buf' = length buf" "drop (out + T div 8) buf' = drop (out + T div 8) buf1"
    "stream 8 (take (out + T div 8) buf') @ be_bits (T mod 8) (acc' :: u64)
      = stream 8 (take (out + b div 8) buf1) @ be_bits (b mod 8) acc1 @
           (if ws = [] then [] else be_bits 10 (hd ws) @ stream 10 (tl ws))"
    unfolding eq e(2) by blast
  have tail: "drop (out + T div 8) buf1 = drop (out + T div 8) buf"
  proof -
    have "out + T div 8 = (T1 div 8) + (out + b div 8)" using eq(1) by simp
    then show ?thesis by (metis drop_drop e(3))
  qed
  have ws: "(if ws = [] then [] else be_bits 10 (hd ws) @ stream 10 (tl ws)) = stream 10 ws"
    by (cases ws) simp_all
  have "stream 8 (take (out + T div 8) buf') @ be_bits (T mod 8) acc'
      = stream 8 (take out buf) @ be_bits bits acc @ be_bits nbits w @ stream 10 ws"
    using r(4) e(4) shift unfolding ws by (metis append.assoc)
  moreover have "value_loop nbits (w # ws) acc bits out buf = Some (T mod 8, out + T div 8, buf')"
    using e(1) r(1) by (simp add: acc1_def [symmetric] b_def [symmetric] Let_def)
  ultimately show ?case using r(2,3) tail by auto
qed

section \<open>Fields\<close>

lemma be_bits_inject_small:
  fixes a b :: "'a::len word"
  assumes "be_bits n a = be_bits n b" and "unat a < 2 ^ n" and "unat b < 2 ^ n"
  shows "a = b"
proof (rule bit_word_eqI)
  fix i
  show "bit a i = bit b i"
  proof (cases "i < n")
    case True
    have "be_bits n a ! (n - Suc i) = be_bits n b ! (n - Suc i)" using assms(1) by simp
    then show ?thesis using True by (simp add: nth_be_bits)
  next
    case False
    then show ?thesis using not_bit_of_small assms(2,3) by (metis not_less)
  qed
qed

lemma two_words_bits:
  fixes a b :: u16
  assumes "unat a < 2 ^ 10" and "unat b < 2 ^ 10"
  defines "x \<equiv> push_bit 10 (ucast a) OR ucast b :: u32"
  shows "be_bits 20 x = be_bits 10 a @ be_bits 10 b" and "unat x < 2 ^ 20"
proof -
  have "be_bits (10 + 10) x = be_bits 10 (ucast a :: u32) @ be_bits 10 b"
    unfolding x_def by (rule be_bits_shift_in) (use assms in simp_all)
  then show "be_bits 20 x = be_bits 10 a @ be_bits 10 b" by (simp add: be_bits_ucast)
  have "\<not> bit x i" if "20 \<le> i" for i
    using that not_bit_of_small [OF assms(1), of "i - 10"] not_bit_of_small [OF assms(2), of i]
    by (auto simp: x_def bit_or_iff bit_push_bit_iff bit_ucast_iff)
  then show "unat x < 2 ^ 20" by (subst unat_less_iff_bits) simp_all
qed

lemma nibble_bits:
  fixes x :: u32
  shows "be_bits 4 (ucast (x AND 0x0F) :: byte) = be_bits 4 x" and "unat (ucast (x AND 0x0F) :: byte) < 2 ^ 4"
proof -
  have m4: "(0x0F :: u32) = mask 4" by (simp add: mask_eq_exp_minus_1)
  have "be_bits 4 (ucast (x AND 0x0F) :: byte) = be_bits 4 (x AND 0x0F)"
    by (rule be_bits_ucast) simp_all
  then show "be_bits 4 (ucast (x AND 0x0F) :: byte) = be_bits 4 x"
    unfolding m4 by (simp only: be_bits_mask order_refl)
  have "\<not> bit (ucast (x AND mask 4) :: byte) i" if "4 \<le> i" for i
    using that by (auto simp: bit_ucast_iff bit_and_iff bit_mask_iff)
  then show "unat (ucast (x AND 0x0F) :: byte) < 2 ^ 4"
    unfolding m4 by (subst unat_less_iff_bits) simp_all
qed

lemma id_exp_fields:
  fixes x :: u32
  assumes "unat x < 2 ^ 20"
  shows "be_bits 20 x = be_bits 15 (ucast (drop_bit 5 x) :: u16) @ [drop_bit 4 x AND 1 \<noteq> 0] @
      be_bits 4 (ucast (x AND 0x0F) :: byte)"
    and "unat (ucast (drop_bit 5 x) :: u16) < 2 ^ 15"
proof -
  have "be_bits 20 x = be_bits 15 (drop_bit 5 x) @ be_bits 1 (drop_bit 4 x) @ be_bits 4 x"
    using be_bits_split [of 15 5 x] be_bits_split [of 1 4 x] by simp
  moreover have "be_bits 1 (drop_bit 4 x) = [drop_bit 4 x AND 1 \<noteq> 0]"
    by (simp add: be_bits_def and_one_eq odd_iff_mod_2_eq_one bit_iff_odd_drop_bit)
  moreover have "be_bits 15 (ucast (drop_bit 5 x) :: u16) = be_bits 15 (drop_bit 5 x)"
    by (rule be_bits_ucast) simp_all
  ultimately show "be_bits 20 x = be_bits 15 (ucast (drop_bit 5 x) :: u16) @ [drop_bit 4 x AND 1 \<noteq> 0] @
      be_bits 4 (ucast (x AND 0x0F) :: byte)" by (simp add: nibble_bits)
  have "\<not> bit (ucast (drop_bit 5 x) :: u16) i" if "15 \<le> i" for i
    using that not_bit_of_small [OF assms, of "i + 5"] by (auto simp: bit_ucast_iff bit_drop_bit_eq add.commute)
  then show "unat (ucast (drop_bit 5 x) :: u16) < 2 ^ 15" by (subst unat_less_iff_bits) simp_all
qed

lemma meta_fields:
  fixes x :: u32
  shows "be_bits 20 x = be_bits 4 (ucast (drop_bit 16 x AND 0x0F) :: byte) @
      be_bits 4 (ucast (drop_bit 12 x AND 0x0F) :: byte) @ be_bits 4 (ucast (drop_bit 8 x AND 0x0F) :: byte) @
      be_bits 4 (ucast (drop_bit 4 x AND 0x0F) :: byte) @ be_bits 4 (ucast (x AND 0x0F) :: byte)"
  unfolding nibble_bits
  using be_bits_split [of 4 16 x] be_bits_split [of 4 12 x] be_bits_split [of 4 8 x] be_bits_split [of 4 4 x]
  by simp

section \<open>The format of a share\<close>

definition share_customization :: "slip39_share \<Rightarrow> bytes" where
  "share_customization share =
     (if sh_extendable share then CUSTOMIZATION_EXTENDABLE else CUSTOMIZATION_ORIG)"

text \<open>The share that a sequence of word numbers stands for, bit by bit: 15 bits of identifier,
  the extendable flag and 4 bits of iteration exponent; five 4-bit fields, thresholds and counts
  stored minus one; zero padding and the value; a checksum that makes the remainder one.\<close>

definition share_encodes :: "u16 list \<Rightarrow> slip39_share \<Rightarrow> bool" where
  "share_encodes indices share \<longleftrightarrow>
     (length indices = 20 \<and> sh_value_len share = 16 \<or> length indices = 33 \<and> sh_value_len share = 32) \<and>
     rs1024_polymod (share_customization share) indices = 1 \<and>
     be_bits 15 (sh_identifier share) @ [sh_extendable share] @ be_bits 4 (sh_iteration_exponent share)
       = stream 10 (take 2 indices) \<and>
     unat (sh_identifier share) < 2 ^ 15 \<and> unat (sh_iteration_exponent share) < 2 ^ 4 \<and>
     be_bits 4 (sh_group_index share) @ be_bits 4 (sh_group_threshold share - 1) @
       be_bits 4 (sh_group_count share - 1) @ be_bits 4 (sh_member_index share) @
       be_bits 4 (sh_member_threshold share - 1) = stream 10 (take 2 (drop 2 indices)) \<and>
     unat (sh_group_index share) < 2 ^ 4 \<and> unat (sh_group_threshold share - 1) < 2 ^ 4 \<and>
     unat (sh_group_count share - 1) < 2 ^ 4 \<and> unat (sh_member_index share) < 2 ^ 4 \<and>
     unat (sh_member_threshold share - 1) < 2 ^ 4 \<and>
     sh_group_threshold share - 1 \<le> sh_group_count share - 1 \<and>
     length (sh_value share) = 32 \<and>
     replicate (if length indices = 20 then 2 else 4) False @
       stream 8 (take (unat (sh_value_len share)) (sh_value share))
       = stream 10 (take (length indices - 7) (drop 4 indices)) \<and>
     drop (unat (sh_value_len share)) (sh_value share) = replicate (32 - unat (sh_value_len share)) 0"

lemma share_encodesD:
  assumes "share_encodes indices s"
  shows "length indices = 20 \<and> sh_value_len s = 16 \<or> length indices = 33 \<and> sh_value_len s = 32"
    and "rs1024_polymod (share_customization s) indices = 1"
    and "be_bits 15 (sh_identifier s) @ [sh_extendable s] @ be_bits 4 (sh_iteration_exponent s)
       = stream 10 (take 2 indices)"
    and "unat (sh_identifier s) < 2 ^ 15" "unat (sh_iteration_exponent s) < 2 ^ 4"
    and "be_bits 4 (sh_group_index s) @ be_bits 4 (sh_group_threshold s - 1) @
       be_bits 4 (sh_group_count s - 1) @ be_bits 4 (sh_member_index s) @
       be_bits 4 (sh_member_threshold s - 1) = stream 10 (take 2 (drop 2 indices))"
    and "unat (sh_group_index s) < 2 ^ 4" "unat (sh_group_threshold s - 1) < 2 ^ 4"
      "unat (sh_group_count s - 1) < 2 ^ 4" "unat (sh_member_index s) < 2 ^ 4"
      "unat (sh_member_threshold s - 1) < 2 ^ 4"
    and "sh_group_threshold s - 1 \<le> sh_group_count s - 1"
    and "length (sh_value s) = 32"
    and "replicate (if length indices = 20 then 2 else 4) False @
       stream 8 (take (unat (sh_value_len s)) (sh_value s))
       = stream 10 (take (length indices - 7) (drop 4 indices))"
    and "drop (unat (sh_value_len s)) (sh_value s) = replicate (32 - unat (sh_value_len s)) 0"
  using assms unfolding share_encodes_def by blast+

lemma share_encodes_unique:
  assumes "share_encodes indices s" and "share_encodes indices t"
  shows "s = t"
proof -
  note ds = share_encodesD [OF assms(1)] and dt = share_encodesD [OF assms(2)]
  have len: "sh_value_len s = sh_value_len t" using ds(1) dt(1) by auto
  have "be_bits 15 (sh_identifier s) @ [sh_extendable s] @ be_bits 4 (sh_iteration_exponent s) =
      be_bits 15 (sh_identifier t) @ [sh_extendable t] @ be_bits 4 (sh_iteration_exponent t)"
    using ds(3) dt(3) by simp
  then have "be_bits 15 (sh_identifier s) = be_bits 15 (sh_identifier t)"
    and ext: "sh_extendable s = sh_extendable t"
    and "be_bits 4 (sh_iteration_exponent s) = be_bits 4 (sh_iteration_exponent t)"
    by (simp_all add: append_eq_append_conv)
  then have id: "sh_identifier s = sh_identifier t" "sh_iteration_exponent s = sh_iteration_exponent t"
    using ds(4,5) dt(4,5) by (blast intro: be_bits_inject_small)+
  have "be_bits 4 (sh_group_index s) @ be_bits 4 (sh_group_threshold s - 1) @
       be_bits 4 (sh_group_count s - 1) @ be_bits 4 (sh_member_index s) @
       be_bits 4 (sh_member_threshold s - 1) =
      be_bits 4 (sh_group_index t) @ be_bits 4 (sh_group_threshold t - 1) @
       be_bits 4 (sh_group_count t - 1) @ be_bits 4 (sh_member_index t) @
       be_bits 4 (sh_member_threshold t - 1)"
    using ds(6) dt(6) by simp
  then have nib: "be_bits 4 (sh_group_index s) = be_bits 4 (sh_group_index t)"
    "be_bits 4 (sh_group_threshold s - 1) = be_bits 4 (sh_group_threshold t - 1)"
    "be_bits 4 (sh_group_count s - 1) = be_bits 4 (sh_group_count t - 1)"
    "be_bits 4 (sh_member_index s) = be_bits 4 (sh_member_index t)"
    "be_bits 4 (sh_member_threshold s - 1) = be_bits 4 (sh_member_threshold t - 1)"
    by (simp_all add: append_eq_append_conv)
  have meta: "sh_group_index s = sh_group_index t" "sh_member_index s = sh_member_index t"
    and "sh_group_threshold s - 1 = sh_group_threshold t - 1" "sh_group_count s - 1 = sh_group_count t - 1"
      "sh_member_threshold s - 1 = sh_member_threshold t - 1"
    by (rule be_bits_inject_small [OF nib(1) ds(7) dt(7)] be_bits_inject_small [OF nib(4) ds(10) dt(10)]
        be_bits_inject_small [OF nib(2) ds(8) dt(8)] be_bits_inject_small [OF nib(3) ds(9) dt(9)]
        be_bits_inject_small [OF nib(5) ds(11) dt(11)])+
  then have thr: "sh_group_threshold s = sh_group_threshold t" "sh_group_count s = sh_group_count t"
    "sh_member_threshold s = sh_member_threshold t" by (metis diff_add_cancel)+
  have "stream 8 (take (unat (sh_value_len s)) (sh_value s)) =
      stream 8 (take (unat (sh_value_len t)) (sh_value t))"
    using ds(14) dt(14) by (metis same_append_eq)
  then have "take (unat (sh_value_len s)) (sh_value s) = take (unat (sh_value_len t)) (sh_value t)"
    by (rule stream_8_inject)
  moreover have "drop (unat (sh_value_len s)) (sh_value s) = drop (unat (sh_value_len t)) (sh_value t)"
    using ds(15) dt(15) len by simp
  ultimately have "sh_value s = sh_value t" by (metis append_take_drop_id)
  then show ?thesis using ext id meta thr len by simp
qed

text \<open>The value loop on the words of a share.\<close>

lemma share_value_bits:
  assumes "\<forall>w\<in>set indices. unat w < 2 ^ 10" and "length indices = 20 \<or> length indices = 33"
    and "pad = (10 * (length indices - 7)) mod 16" and "unat (indices ! 4) < 2 ^ (10 - pad)"
  defines "vlen \<equiv> if length indices = 20 then 16 else 32"
  shows "\<exists>buf. value_loop (10 - pad) (take (length indices - 7) (drop 4 indices)) 0 0 0 (replicate 32 0)
      = Some (0, vlen, buf) \<and> length buf = 32 \<and> drop vlen buf = replicate (32 - vlen) 0 \<and>
     replicate pad False @ stream 8 (take vlen buf) = stream 10 (take (length indices - 7) (drop 4 indices))"
proof -
  define ws where "ws = take (length indices - 7) (drop 4 indices)"
  have pad: "pad = (if length indices = 20 then 2 else 4)" using assms(2,3) by auto
  have ws: "ws = indices ! 4 # tl ws" "length ws = length indices - 7"
    using assms(2) by (auto simp: ws_def Cons_nth_drop_Suc [symmetric] take_Cons' nth_drop hd_drop_conv_nth
        intro!: hd_Cons_tl [symmetric])
  define T where "T = (if ws = [] then 0 else 0 + (10 - pad) + 10 * (length ws - 1))"
  have T: "T = 8 * vlen" using assms(2) ws pad by (auto simp: T_def vlen_def)
  have hd: "hd ws = indices ! 4" by (metis ws(1) list.sel(1))
  have bound: "0 + T div 8 \<le> length (replicate 32 (0 :: byte))" using T by (simp add: vlen_def)
  have all: "\<forall>w\<in>set ws. unat w < 2 ^ 10" using assms(1) by (auto simp: ws_def dest!: in_set_takeD in_set_dropD)
  obtain buf acc where loop: "value_loop (10 - pad) ws 0 0 0 (replicate 32 0) = Some (T mod 8, 0 + T div 8, buf)"
    "length buf = length (replicate 32 (0 :: byte))"
    "drop (0 + T div 8) buf = drop (0 + T div 8) (replicate 32 0)"
    "stream 8 (take (0 + T div 8) buf) @ be_bits (T mod 8) (acc :: u64) = stream 8 (take 0 (replicate 32 (0 :: byte))) @
       be_bits 0 (0 :: u64) @ (if ws = [] then [] else be_bits (10 - pad) (hd ws) @ stream 10 (tl ws))"
    using value_loop_bits [OF _ _ all _ T_def bound] assms(4) hd by fastforce
  have "be_bits 10 (indices ! 4) = be_bits pad (drop_bit (10 - pad) (indices ! 4)) @ be_bits (10 - pad) (indices ! 4)"
    using be_bits_split [of pad "10 - pad" "indices ! 4"] pad by simp
  moreover have "drop_bit (10 - pad) (indices ! 4) = 0"
    using not_bit_of_small [OF assms(4)] by (intro bit_word_eqI) (simp add: bit_drop_bit_eq)
  ultimately have "stream 10 ws = replicate pad False @ be_bits (10 - pad) (indices ! 4) @ stream 10 (tl ws)"
    by (subst ws(1)) simp
  then show ?thesis using loop T ws(1) unfolding ws_def [symmetric] by (cases ws) (auto simp: vlen_def)
qed

lemma stream_two:
  assumes "n + 1 < length xs"
  shows "stream 10 (take 2 (drop n xs)) = be_bits 10 (xs ! n) @ be_bits 10 (xs ! (n + 1))"
proof -
  have "drop n xs = xs ! n # xs ! (n + 1) # drop (n + 2) xs"
    using assms by (simp add: Cons_nth_drop_Suc)
  then show ?thesis by simp
qed

lemma padded_small:
  fixes w :: "'a::len word"
  assumes "be_bits (p + m) w = replicate p False @ ys" and "unat w < 2 ^ (p + m)" and "m \<le> LENGTH('a)"
  shows "unat w < 2 ^ m"
proof -
  have "\<not> bit w i" if "m \<le> i" for i
  proof (cases "i < p + m")
    case True
    then have "be_bits (p + m) w ! (p + m - Suc i) = False"
      unfolding assms(1) using that by (subst nth_append) auto
    then show ?thesis using True by (simp add: nth_be_bits)
  next
    case False
    then show ?thesis using not_bit_of_small [OF assms(2)] by simp
  qed
  then show ?thesis using assms(3) by (subst unat_less_iff_bits) simp_all
qed

text \<open>The two packed words of the header, as the code reads them.\<close>

abbreviation id_exp_of :: "u16 list \<Rightarrow> u32" where
  "id_exp_of indices \<equiv> push_bit 10 (ucast (indices ! 0)) OR ucast (indices ! 1)"

abbreviation meta_of :: "u16 list \<Rightarrow> u32" where
  "meta_of indices \<equiv> push_bit 10 (ucast (indices ! 2)) OR ucast (indices ! 3)"

lemma header_bits:
  assumes "\<forall>w\<in>set indices. unat w < 2 ^ 10" and "length indices = 20 \<or> length indices = 33"
  shows "be_bits 20 (id_exp_of indices) = stream 10 (take 2 indices)" "unat (id_exp_of indices) < 2 ^ 20"
    "be_bits 20 (meta_of indices) = stream 10 (take 2 (drop 2 indices))"
proof -
  have small: "unat (indices ! n) < 2 ^ 10" if "n < 4" for n
    using assms that by (auto intro!: nth_mem)
  show "be_bits 20 (id_exp_of indices) = stream 10 (take 2 indices)"
    using two_words_bits(1) [OF small [of 0] small [of 1]] stream_two [of 0 indices] assms(2) by auto
  show "unat (id_exp_of indices) < 2 ^ 20"
    by (rule two_words_bits(2) [OF small [of 0] small [of 1]]) simp_all
  show "be_bits 20 (meta_of indices) = stream 10 (take 2 (drop 2 indices))"
    using two_words_bits(1) [OF small [of 2] small [of 3]] stream_two [of 2 indices] assms(2) by auto
qed

definition id_exp_customization :: "u32 \<Rightarrow> bytes" where
  "id_exp_customization x = (if drop_bit 4 x AND 1 \<noteq> 0 then CUSTOMIZATION_EXTENDABLE else CUSTOMIZATION_ORIG)"

text \<open>The share that the code builds from the packed words and the value bytes.\<close>

definition share_of_fields :: "u32 \<Rightarrow> u32 \<Rightarrow> nat \<Rightarrow> bytes \<Rightarrow> slip39_share" where
  "share_of_fields x m vlen buf = \<lparr> sh_identifier = ucast (drop_bit 5 x),
     sh_iteration_exponent = ucast (x AND 0xF), sh_group_index = ucast (drop_bit 16 m AND 0x0F),
     sh_group_threshold = ucast (drop_bit 12 m AND 0x0F) + 1, sh_group_count = ucast (drop_bit 8 m AND 0x0F) + 1,
     sh_member_index = ucast (drop_bit 4 m AND 0x0F), sh_member_threshold = ucast (m AND 0x0F) + 1,
     sh_extendable = (drop_bit 4 x AND 1 \<noteq> 0), sh_value_len = of_nat vlen, sh_value = buf \<rparr>"

lemma share_of_fields_encodes:
  fixes m :: u32
  assumes words: "\<forall>w\<in>set indices. unat w < 2 ^ 10" and len: "length indices = 20 \<or> length indices = 33"
    and sum: "rs1024_polymod (id_exp_customization (id_exp_of indices)) indices = 1"
    and m: "m = meta_of indices"
    and thr: "\<not> (ucast (drop_bit 8 m AND 0x0F) :: byte) < ucast (drop_bit 12 m AND 0x0F)"
    and vlen: "vlen = (if length indices = 20 then 16 else 32)"
    and buf: "length buf = 32" "drop vlen buf = replicate (32 - vlen) 0"
      "replicate (if length indices = 20 then 2 else 4) False @ stream 8 (take vlen buf)
        = stream 10 (take (length indices - 7) (drop 4 indices))"
  shows "share_encodes indices (share_of_fields (id_exp_of indices) m vlen buf)"
  unfolding share_encodes_def
proof (intro conjI)
  let ?s = "share_of_fields (id_exp_of indices) m vlen buf"
  note h = header_bits [OF words len, folded m]
  show "be_bits 15 (sh_identifier ?s) @ [sh_extendable ?s] @ be_bits 4 (sh_iteration_exponent ?s)
      = stream 10 (take 2 indices)"
    using id_exp_fields(1) [OF h(2)] h(1) by (simp add: share_of_fields_def)
  show "be_bits 4 (sh_group_index ?s) @ be_bits 4 (sh_group_threshold ?s - 1) @
      be_bits 4 (sh_group_count ?s - 1) @ be_bits 4 (sh_member_index ?s) @
      be_bits 4 (sh_member_threshold ?s - 1) = stream 10 (take 2 (drop 2 indices))"
    using meta_fields [of m] h(3) by (simp add: share_of_fields_def)
  show "unat (sh_identifier ?s) < 2 ^ 15"
    using id_exp_fields(2) [OF h(2)] by (simp add: share_of_fields_def)
  show "replicate (if length indices = 20 then 2 else 4) False @
      stream 8 (take (unat (sh_value_len ?s)) (sh_value ?s))
      = stream 10 (take (length indices - 7) (drop 4 indices))"
    using buf(3) vlen by (simp add: share_of_fields_def split: if_splits)
  show "rs1024_polymod (share_customization ?s) indices = 1"
    using sum by (simp add: share_customization_def share_of_fields_def id_exp_customization_def)
  show "drop (unat (sh_value_len ?s)) (sh_value ?s) = replicate (32 - unat (sh_value_len ?s)) 0"
    using buf(1,2) vlen by (simp add: share_of_fields_def split: if_splits)
  show "length (sh_value ?s) = 32" using buf(1) by (simp add: share_of_fields_def)
  show "length indices = 20 \<and> sh_value_len ?s = 16 \<or> length indices = 33 \<and> sh_value_len ?s = 32"
    using len vlen by (auto simp: share_of_fields_def)
  show "sh_group_threshold ?s - 1 \<le> sh_group_count ?s - 1"
    using thr by (simp add: share_of_fields_def not_less)
qed (use nibble_bits(2) [of "id_exp_of indices"] nibble_bits(2) [of m] nibble_bits(2) [of "drop_bit 16 m"]
    nibble_bits(2) [of "drop_bit 12 m"] nibble_bits(2) [of "drop_bit 8 m"] nibble_bits(2) [of "drop_bit 4 m"]
    in \<open>simp_all add: share_of_fields_def\<close>)

lemma parse_indices_cases [consumes 1, case_names length checksum threshold padding ok]:
  assumes words: "\<forall>w\<in>set indices. unat w < 2 ^ 10"
  obtains (length) "length indices \<noteq> 20" "length indices \<noteq> 33"
      "parse_indices indices = Some (Inl SLIP39_ERR_LENGTH)"
  | (checksum) "length indices = 20 \<or> length indices = 33"
      "rs1024_polymod (id_exp_customization (id_exp_of indices)) indices \<noteq> 1"
      "parse_indices indices = Some (Inl SLIP39_ERR_CHECKSUM)"
  | (threshold) "length indices = 20 \<or> length indices = 33"
      "(ucast (drop_bit 8 (meta_of indices) AND 0x0F) :: byte) < ucast (drop_bit 12 (meta_of indices) AND 0x0F)"
      "parse_indices indices = Some (Inl SLIP39_ERR_FORMAT)"
  | (padding) "length indices = 20 \<or> length indices = 33"
      "unat (indices ! 4) \<ge> 2 ^ (10 - (10 * (length indices - 7)) mod 16)"
      "parse_indices indices = Some (Inl SLIP39_ERR_FORMAT)"
  | (ok) share where "share_encodes indices share" "parse_indices indices = Some (Inr share)"
proof (cases "length indices = 20 \<or> length indices = 33")
  case False
  then show ?thesis using length by (simp add: parse_indices_def slip39_consts)
next
  case len: True
  define m where "m = meta_of indices"
  define pad where "pad = (10 * (length indices - 7)) mod 16"
  define vlen :: nat where "vlen = (if length indices = 20 then 16 else 32)"
  have lens: "\<not> (length indices \<noteq> 20 \<and> length indices \<noteq> 33)" using len by blast
  note unf = parse_indices_def slip39_consts Let_def id_exp_customization_def [symmetric]
    m_def [symmetric] pad_def [symmetric]
  consider "rs1024_polymod (id_exp_customization (id_exp_of indices)) indices \<noteq> 1"
    | "rs1024_polymod (id_exp_customization (id_exp_of indices)) indices = 1"
      "(ucast (drop_bit 8 m AND 0x0F) :: byte) < ucast (drop_bit 12 m AND 0x0F)"
    | "rs1024_polymod (id_exp_customization (id_exp_of indices)) indices = 1"
      "\<not> (ucast (drop_bit 8 m AND 0x0F) :: byte) < ucast (drop_bit 12 m AND 0x0F)"
      "unat (indices ! 4) \<ge> 2 ^ (10 - pad)"
    | "rs1024_polymod (id_exp_customization (id_exp_of indices)) indices = 1"
      "\<not> (ucast (drop_bit 8 m AND 0x0F) :: byte) < ucast (drop_bit 12 m AND 0x0F)"
      "\<not> unat (indices ! 4) \<ge> 2 ^ (10 - pad)" by blast
  then show ?thesis
  proof cases
    case 1
    then show ?thesis using checksum len unfolding unf if_not_P [OF lens] if_P [OF 1] by blast
  next
    case 2
    have "parse_indices indices = Some (Inl SLIP39_ERR_FORMAT)"
      unfolding unf if_not_P [OF lens] using 2 by simp
    then show ?thesis using threshold len 2 by (simp add: m_def)
  next
    case 3
    have "parse_indices indices = Some (Inl SLIP39_ERR_FORMAT)"
      unfolding unf if_not_P [OF lens] using 3 by simp
    then show ?thesis using padding len 3 by (simp add: pad_def)
  next
    case 4
    obtain buf where buf: "value_loop (10 - pad) (take (length indices - 7) (drop 4 indices)) 0 0 0 (replicate 32 0)
        = Some (0, vlen, buf)" "length buf = 32" "drop vlen buf = replicate (32 - vlen) 0"
      "replicate pad False @ stream 8 (take vlen buf) = stream 10 (take (length indices - 7) (drop 4 indices))"
      using share_value_bits [OF words len pad_def] 4(3) unfolding vlen_def by auto
    have "parse_indices indices = Some (Inr (share_of_fields (id_exp_of indices) m vlen buf))"
      unfolding unf if_not_P [OF lens] share_of_fields_def using 4 buf(1) by (simp add: vlen_def)
    moreover have "share_encodes indices (share_of_fields (id_exp_of indices) m vlen buf)"
    proof (rule share_of_fields_encodes [OF words len 4(1) m_def 4(2) vlen_def buf(2,3)])
      show "replicate (if length indices = 20 then 2 else 4) False @ stream 8 (take vlen buf)
        = stream 10 (take (length indices - 7) (drop 4 indices))"
        using buf(4) len by (auto simp: pad_def)
    qed
    ultimately show ?thesis using ok by blast
  qed
qed

lemma parse_indices_iff:
  assumes words: "\<forall>w\<in>set indices. unat w < 2 ^ 10"
  shows "parse_indices indices = Some (Inr share) \<longleftrightarrow> share_encodes indices share"
    and "\<exists>r. parse_indices indices = Some r"
proof -
  have accepts: "parse_indices indices = Some (Inr share)" if enc: "share_encodes indices share"
  proof -
    note d = share_encodesD [OF enc]
    have len: "length indices = 20 \<or> length indices = 33" using d(1) by blast
    note h = header_bits [OF words len]
    have "be_bits 15 (sh_identifier share) @ [sh_extendable share] @ be_bits 4 (sh_iteration_exponent share) =
        be_bits 15 (ucast (drop_bit 5 (id_exp_of indices)) :: u16) @ [drop_bit 4 (id_exp_of indices) AND 1 \<noteq> 0]
          @ be_bits 4 (ucast (id_exp_of indices AND 0x0F) :: byte)"
      using d(3) h(1) id_exp_fields(1) [OF h(2)] by metis
    then have cust: "id_exp_customization (id_exp_of indices) = share_customization share"
      by (simp add: id_exp_customization_def share_customization_def append_eq_append_conv)
    have "be_bits 4 (sh_group_threshold share - 1) = be_bits 4 (ucast (drop_bit 12 (meta_of indices) AND 0x0F) :: byte)
        \<and> be_bits 4 (sh_group_count share - 1) = be_bits 4 (ucast (drop_bit 8 (meta_of indices) AND 0x0F) :: byte)"
      using trans [OF d(6) trans [OF h(3) [symmetric] meta_fields]] by (simp add: append_eq_append_conv)
    then have thr: "sh_group_threshold share - 1 = ucast (drop_bit 12 (meta_of indices) AND 0x0F)"
      "sh_group_count share - 1 = ucast (drop_bit 8 (meta_of indices) AND 0x0F)"
      using be_bits_inject_small nibble_bits(2) d(8,9) by blast+
    have pad: "unat (indices ! 4) < 2 ^ (10 - (10 * (length indices - 7)) mod 16)"
    proof -
      define p :: nat where "p = (if length indices = 20 then 2 else 4)"
      have p: "(10 * (length indices - 7)) mod 16 = p" "p + (10 - p) = 10" using len by (auto simp: p_def)
      have "drop 4 indices = indices ! 4 # drop 5 indices" using len Cons_nth_drop_Suc [of 4 indices] by auto
      then have "stream 10 (take (length indices - 7) (drop 4 indices)) =
          be_bits 10 (indices ! 4) @ stream 10 (take (length indices - 8) (drop 5 indices))"
        using len by (auto simp: take_Cons')
      then have "be_bits (p + (10 - p)) (indices ! 4) = replicate p False @
          take (10 - p) (stream 8 (take (unat (sh_value_len share)) (sh_value share)))"
        using arg_cong [OF d(14), of "take 10"] unfolding p_def [symmetric] p(2) by (simp add: p_def)
      then have "unat (indices ! 4) < 2 ^ (10 - p)"
        by (rule padded_small) (use words len p in \<open>auto intro!: nth_mem simp: p_def\<close>)
      then show ?thesis by (simp add: p(1))
    qed
    from words show ?thesis
    proof (cases rule: parse_indices_cases)
      case (ok s)
      then show ?thesis using share_encodes_unique [OF enc] by simp
    qed (use len cust d(2,12) thr pad in auto)
  qed
  show "parse_indices indices = Some (Inr share) \<longleftrightarrow> share_encodes indices share"
    using words accepts by (cases rule: parse_indices_cases) (auto dest: share_encodes_unique)
  show "\<exists>r. parse_indices indices = Some r" using words by (cases rule: parse_indices_cases) auto
qed

lemma SLIP39_WORDLIST_nth: "k < 1024 \<Longrightarrow> SLIP39_WORDLIST ! k = str (slip39_strings ! k)"
  unfolding SLIP39_WORDLIST_def by (rule nth_map) (simp only: length_slip39_strings)

lemma lookup_words_not_OK: "lookup_words ws is = Inl rc \<Longrightarrow> rc \<noteq> SLIP39_OK"
  by (induction ws "is" rule: lookup_words.induct) (auto split: if_splits option.splits)

lemma lookup_unique:
  "list_all2 (\<lambda>w i. lookup_word w = Some i) ws is \<Longrightarrow> list_all2 (\<lambda>w i. lookup_word w = Some i) ws js \<Longrightarrow> is = js"
  by (simp add: list_all2_conv_all_nth list_eq_iff_nth_eq)

lemma parse_accepts:
  assumes "mnemonic \<noteq> []"
  shows "(\<exists>rc share. slip39_parse_share mnemonic = Some (rc, share) \<and> (rc \<noteq> SLIP39_OK \<longrightarrow> share = share_zero)) \<and>
     (\<forall>share. slip39_parse_share mnemonic = Some (SLIP39_OK, share) \<longleftrightarrow>
        (\<exists>indices. list_all2 (\<lambda>w i. unat i < 1024 \<and> SLIP39_WORDLIST ! unat i = map ascii_lower w)
           (text_words [] mnemonic) indices \<and> share_encodes indices share))"
proof -
  define ws where "ws = text_words [] mnemonic"
  let ?looked = "list_all2 (\<lambda>w i. lookup_word w = Some i) ws"
  have parse: "slip39_parse_share mnemonic = do {
      r \<leftarrow> (case lookup_words ws [] of Inl rc \<Rightarrow> Some (Inl rc) | Inr indices \<Rightarrow> parse_indices indices);
      Some (case r of Inl rc \<Rightarrow> (rc, share_zero) | Inr share \<Rightarrow> (SLIP39_OK, share)) }"
    using assms by (simp add: slip39_parse_share_def parse_words_lookup ws_def)
  show ?thesis
  proof (cases "lookup_words ws []")
    case (Inl rc)
    have "\<not> (?looked indices \<and> share_encodes indices share)" for indices share
    proof
      assume a: "?looked indices \<and> share_encodes indices share"
      then have "length ws = length indices" by (blast dest: list_all2_lengthD)
      then have "length ws \<le> 33" using a share_encodesD(1) [of indices share] by auto
      then show False using a Inl lookup_words_Inr [of "[]" ws indices] by simp
    qed
    then show ?thesis
      using Inl lookup_words_not_OK [OF Inl] by (simp add: parse ws_def lookup_word_iff)
  next
    case (Inr indices)
    then have looked: "?looked is \<longleftrightarrow> is = indices" for "is"
      using lookup_words_Inr [of "[]" ws indices] lookup_words_long [of "[]" ws] lookup_unique [of ws indices "is"]
      by (cases "length ws \<le> 33") auto
    have "?looked indices" using looked by blast
    then have words: "\<forall>w\<in>set indices. unat w < 2 ^ 10"
      by (auto simp: list_all2_conv_all_nth in_set_conv_nth lookup_word_iff)
    obtain r where r: "parse_indices indices = Some r" using parse_indices_iff(2) [OF words] by blast
    have "r \<noteq> Inl SLIP39_OK"
      using words r by (cases rule: parse_indices_cases) auto
    then show ?thesis
      using Inr r parse_indices_iff(1) [OF words] looked
      by (auto simp: parse ws_def [symmetric] lookup_word_iff split: sum.splits intro: share_encodes_unique)
  qed
qed

text \<open>C33. Parsing a share is total (no assertion fails and no buffer is overrun), leaves a zeroed
  share on every error, and succeeds exactly when the words of the text, in any case and with any
  blanks between them, are wordlist words that encode the share bit by bit with a valid checksum.\<close>

theorem slip39_parse_share_correct:
  assumes "mnemonic \<noteq> []"
  shows "(\<exists>rc share. slip39_parse_share mnemonic = Some (rc, share) \<and> (rc \<noteq> SLIP39_OK \<longrightarrow> share = share_zero)) \<and>
     (\<forall>share. slip39_parse_share mnemonic = Some (SLIP39_OK, share) \<longleftrightarrow>
        (\<exists>indices. list_all2 (\<lambda>w i. unat i < 1024 \<and> SLIP39_WORDLIST ! unat i = map ascii_lower w)
           (text_words [] mnemonic) indices \<and> share_encodes indices share))"
  using assms by (rule parse_accepts)

text \<open>The first share of the SLIP-39 test vectors.\<close>

definition sample_text :: bytes where
  "sample_text = str (''duckling enlarge academic academic agency result length '' @
     ''solution fridge kidney coal piece deal husband erode duke ajar critical decision keyboard'')"

definition sample_indices :: "u16 list" where
  "sample_indices = [248, 288, 0, 0, 17, 753, 521, 840, 372, 497, 155, 670, 192, 448, 297, 249, 23, 173, 196, 496]"

definition sample_share :: slip39_share where
  "sample_share = \<lparr> sh_identifier = 7945, sh_iteration_exponent = 0, sh_group_index = 0, sh_group_threshold = 1,
     sh_group_count = 1, sh_member_index = 0, sh_member_threshold = 1, sh_extendable = False,
     sh_value_len = 16, sh_value = [17, 188, 96, 157, 33, 116, 124, 73, 186, 120, 192, 112, 18, 147, 228, 23]
       @ replicate 16 0 \<rparr>"

lemma sample_words: "list_all2 (\<lambda>w i. unat i < 1024 \<and> str (slip39_strings ! unat i) = map ascii_lower w)
        (text_words [] sample_text) sample_indices"
  by code_simp

lemma sample_encodes: "share_encodes sample_indices sample_share"
  by code_simp

theorem slip39_parse_share_correct_witness:
  "slip39_parse_share sample_text = Some (SLIP39_OK, sample_share)"
proof -
  have "list_all2 (\<lambda>w i. unat i < 1024 \<and> SLIP39_WORDLIST ! unat i = map ascii_lower w)
        (text_words [] sample_text) sample_indices"
    by (rule list_all2_mono [OF sample_words]) (simp add: SLIP39_WORDLIST_nth)
  moreover have "sample_text \<noteq> []" by (simp add: sample_text_def)
  ultimately show ?thesis using slip39_parse_share_correct [of sample_text] sample_encodes by blast
qed

end
