(* ===== verification/Slip39_Recovery.thy ===== *)
theory Slip39_Recovery
  imports Slip39
begin

text \<open>
  \<open>main/slip39.c\<close>, recovery of the master secret: the context that collects the shares of a
  backup, and the two-level recovery with its digest check and the Feistel decryption.
  HMAC-SHA256 and PBKDF2 are code of other libraries and are parameters of the definitions
  that use them. The theorems: the context's counters always describe the shares it holds, and
  no assertion can fail; decryption inverts the SLIP-39 encryption; and the shares of a backup
  are combined into the master secret that was split.
\<close>

section \<open>The context\<close>

record slip39_group =
  gr_threshold :: byte
  gr_count :: byte
  gr_index :: bytes
  gr_value :: "bytes list"

record slip39_ctx =
  cx_started :: bool
  cx_identifier :: u16
  cx_extendable :: bool
  cx_iteration_exponent :: byte
  cx_group_threshold :: byte
  cx_group_count :: byte
  cx_value_len :: byte
  cx_groups_started :: byte
  cx_groups_complete :: byte
  cx_groups :: "slip39_group list"

text \<open>The zeroed group and context of \<open>slip39_init\<close>.\<close>

definition group_zero :: slip39_group where
  "group_zero = \<lparr> gr_threshold = 0, gr_count = 0, gr_index = replicate 16 0,
     gr_value = replicate 16 (replicate 32 0) \<rparr>"

definition slip39_init :: slip39_ctx where
  "slip39_init = \<lparr> cx_started = False, cx_identifier = 0, cx_extendable = False,
     cx_iteration_exponent = 0, cx_group_threshold = 0, cx_group_count = 0, cx_value_len = 0,
     cx_groups_started = 0, cx_groups_complete = 0, cx_groups = replicate 16 group_zero \<rparr>"

definition slip39_clear :: "slip39_ctx \<Rightarrow> slip39_ctx" where
  "slip39_clear ctx = slip39_init"

section \<open>Collecting shares\<close>

text \<open>The member loop: \<open>Some rc\<close> when the index is already there.\<close>

fun find_member :: "byte \<Rightarrow> bytes \<Rightarrow> nat \<Rightarrow> bytes \<Rightarrow> bytes list \<Rightarrow> slip39_err option" where
  "find_member member_index value len [] vs = None"
| "find_member member_index value len (i # is) vs =
     (if i = member_index
      then Some (if take len (hd vs) \<noteq> take len value then SLIP39_ERR_SET else SLIP39_ERR_DUPLICATE)
      else find_member member_index value len is (tl vs))"

definition slip39_add_share :: "slip39_ctx \<Rightarrow> slip39_share \<Rightarrow> (slip39_err \<times> slip39_ctx) option" where
  "slip39_add_share ctx share = do {
     jade_assert (sh_value_len share \<noteq> 0 \<and> unat (sh_value_len share) \<le> SLIP39_SHARE_VALUE_MAX);
     jade_assert (unat (sh_group_index share) < SLIP39_MAX_GROUPS);
     jade_assert (unat (sh_member_index share) < SLIP39_MAX_MEMBERS);
     jade_assert (sh_member_threshold share \<noteq> 0 \<and> unat (sh_member_threshold share) \<le> SLIP39_MAX_MEMBERS);
     if cx_started ctx \<and>
        (cx_identifier ctx \<noteq> sh_identifier share \<or> cx_extendable ctx \<noteq> sh_extendable share \<or>
         cx_iteration_exponent ctx \<noteq> sh_iteration_exponent share \<or>
         cx_group_threshold ctx \<noteq> sh_group_threshold share \<or>
         cx_group_count ctx \<noteq> sh_group_count share \<or> cx_value_len ctx \<noteq> sh_value_len share)
     then Some (SLIP39_ERR_SET, ctx)
     else do {
       let ctx = (if cx_started ctx then ctx else
         ctx \<lparr> cx_identifier := sh_identifier share, cx_extendable := sh_extendable share,
           cx_iteration_exponent := sh_iteration_exponent share,
           cx_group_threshold := sh_group_threshold share, cx_group_count := sh_group_count share,
           cx_value_len := sh_value_len share, cx_started := True \<rparr>);
       let g = unat (sh_group_index share);
       group \<leftarrow> buf_get (cx_groups ctx) g;
       if gr_count group \<noteq> 0 \<and> gr_threshold group \<noteq> sh_member_threshold share
       then Some (SLIP39_ERR_SET, ctx)
       else case find_member (sh_member_index share) (sh_value share) (unat (sh_value_len share))
                 (take (unat (gr_count group)) (gr_index group)) (gr_value group) of
         Some rc \<Rightarrow> Some (rc, ctx)
       | None \<Rightarrow>
         if gr_count group \<noteq> 0 \<and> gr_count group = gr_threshold group
         then Some (SLIP39_ERR_GROUP_FULL, ctx)
         else if gr_count group = 0 \<and> cx_groups_started ctx = cx_group_threshold ctx
         then Some (SLIP39_ERR_GROUPS_FULL, ctx)
         else do {
           let (group, ctx) = (if gr_count group = 0
             then (group \<lparr> gr_threshold := sh_member_threshold share \<rparr>,
                   ctx \<lparr> cx_groups_started := cx_groups_started ctx + 1 \<rparr>)
             else (group, ctx));
           let n = unat (gr_count group);
           index \<leftarrow> buf_set (gr_index group) n (sh_member_index share);
           slot \<leftarrow> buf_get (gr_value group) n;
           src \<leftarrow> buf_read (sh_value share) 0 (unat (sh_value_len share));
           slot \<leftarrow> buf_write slot 0 src;
           let group = group \<lparr> gr_index := index, gr_value := (gr_value group)[n := slot],
             gr_count := gr_count group + 1 \<rparr>;
           let ctx = (if gr_count group = gr_threshold group
             then ctx \<lparr> cx_groups_complete := cx_groups_complete ctx + 1 \<rparr> else ctx);
           Some (SLIP39_OK, ctx \<lparr> cx_groups := (cx_groups ctx)[g := group] \<rparr>) } } }"

definition slip39_is_complete :: "slip39_ctx \<Rightarrow> bool" where
  "slip39_is_complete ctx = (cx_started ctx \<and> cx_groups_complete ctx = cx_group_threshold ctx)"

section \<open>Recovery\<close>

definition SECRET_INDEX :: byte where "SECRET_INDEX = 255"
definition DIGEST_INDEX :: byte where "DIGEST_INDEX = 254"

text \<open>\<open>hmac key message\<close> is \<open>wally_hmac_sha256\<close>.\<close>

definition recover_secret ::
  "(bytes \<Rightarrow> bytes \<Rightarrow> bytes) \<Rightarrow> byte \<Rightarrow> bytes \<Rightarrow> bytes list \<Rightarrow> nat \<Rightarrow> (slip39_err + bytes) option" where
  "recover_secret hmac threshold indices values len = do {
     jade_assert (threshold \<noteq> 0);
     if threshold = 1 then do {
       v \<leftarrow> buf_get values 0;
       secret \<leftarrow> buf_read v 0 len;
       Some (Inr secret) }
     else
       let n = unat threshold in
       case shamir_interpolate SECRET_INDEX (take n indices) (take n values) len of
         None \<Rightarrow> Some (Inl SLIP39_ERR_DIGEST)
       | Some secret \<Rightarrow>
         (case shamir_interpolate DIGEST_INDEX (take n indices) (take n values) len of
            None \<Rightarrow> Some (Inl SLIP39_ERR_DIGEST)
          | Some digest_share \<Rightarrow>
            let digest = hmac (drop 4 digest_share) secret in
            Some (if take 4 digest = take 4 digest_share then Inr secret else Inl SLIP39_ERR_DIGEST)) }"

text \<open>\<open>pbkdf2 pass salt cost\<close> is the 32 byte block of \<open>wally_pbkdf2_hmac_sha256\<close>.\<close>

fun feistel_rounds ::
  "(bytes \<Rightarrow> bytes \<Rightarrow> u32 \<Rightarrow> bytes) \<Rightarrow> bytes \<Rightarrow> bytes \<Rightarrow> u32 \<Rightarrow> nat \<Rightarrow> nat \<Rightarrow> bytes \<times> bytes \<Rightarrow> bytes \<times> bytes" where
  "feistel_rounds pbkdf2 passphrase salt_prefix cost half 0 (half_l, half_r) = (half_l, half_r)"
| "feistel_rounds pbkdf2 passphrase salt_prefix cost half (Suc round) (half_l, half_r) =
     (let f = pbkdf2 (of_nat round # passphrase) (salt_prefix @ half_r) cost;
          f = map2 (XOR) (take half f) half_l
      in feistel_rounds pbkdf2 passphrase salt_prefix cost half round (half_r, f))"

definition salt_prefix :: "u16 \<Rightarrow> bool \<Rightarrow> bytes" where
  "salt_prefix identifier extendable = (if extendable then []
     else CUSTOMIZATION_ORIG @ [ucast (drop_bit 8 identifier), ucast (identifier AND 0xFF)])"

definition round_cost :: "byte \<Rightarrow> u32" where
  "round_cost exponent = push_bit (unat exponent) 10000 div 4"

definition decrypt_ems ::
  "(bytes \<Rightarrow> bytes \<Rightarrow> u32 \<Rightarrow> bytes) \<Rightarrow> bytes \<Rightarrow> bytes option \<Rightarrow> byte \<Rightarrow> u16 \<Rightarrow> bool \<Rightarrow> bytes option" where
  "decrypt_ems pbkdf2 ems passphrase exponent identifier extendable = do {
     let len = length ems;
     jade_assert (len \<noteq> 0 \<and> len mod 2 = 0 \<and> len \<le> SLIP39_MASTER_SECRET_MAX);
     let half = len div 2;
     let pass = (case passphrase of None \<Rightarrow> [] | Some p \<Rightarrow> p);
     jade_assert (length pass \<le> PASSPHRASE_MAX_LEN);
     let (half_l, half_r) = feistel_rounds pbkdf2 pass (salt_prefix identifier extendable)
           (round_cost exponent) half 4 (take half ems, drop half ems);
     Some (half_r @ half_l) }"

text \<open>The loop over the groups: the indices and secrets of the groups recovered so far.\<close>

fun combine_groups ::
  "(bytes \<Rightarrow> bytes \<Rightarrow> bytes) \<Rightarrow> nat \<Rightarrow> slip39_group list \<Rightarrow> byte \<Rightarrow> (byte \<times> bytes) list \<Rightarrow>
   (slip39_err + (byte \<times> bytes) list) option" where
  "combine_groups hmac len [] g acc = Some (Inr acc)"
| "combine_groups hmac len (grp # groups) g acc =
     (if gr_count grp = 0 then combine_groups hmac len groups (g + 1) acc
      else do {
        jade_assert (gr_count grp = gr_threshold grp);
        r \<leftarrow> recover_secret hmac (gr_threshold grp) (gr_index grp)
               (take (unat (gr_count grp)) (gr_value grp)) len;
        case r of
          Inl rc \<Rightarrow> Some (Inl rc)
        | Inr secret \<Rightarrow> combine_groups hmac len groups (g + 1) (acc @ [(g, secret)]) })"

definition slip39_combine ::
  "(bytes \<Rightarrow> bytes \<Rightarrow> bytes) \<Rightarrow> (bytes \<Rightarrow> bytes \<Rightarrow> u32 \<Rightarrow> bytes) \<Rightarrow> slip39_ctx \<Rightarrow> bytes option \<Rightarrow> nat \<Rightarrow>
   (slip39_err + bytes) option" where
  "slip39_combine hmac pbkdf2 ctx passphrase master_secret_len =
     (if \<not> slip39_is_complete ctx then Some (Inl SLIP39_ERR_INCOMPLETE)
      else do {
        jade_assert (master_secret_len = unat (cx_value_len ctx));
        r \<leftarrow> combine_groups hmac (unat (cx_value_len ctx)) (cx_groups ctx) 0 [];
        case r of
          Inl rc \<Rightarrow> Some (Inl rc)
        | Inr groups \<Rightarrow> do {
            jade_assert (length groups = unat (cx_group_threshold ctx));
            r \<leftarrow> recover_secret hmac (cx_group_threshold ctx) (map fst groups) (map snd groups)
                   (unat (cx_value_len ctx));
            case r of
              Inl rc \<Rightarrow> Some (Inl rc)
            | Inr ems \<Rightarrow> do {
                secret \<leftarrow> decrypt_ems pbkdf2 ems passphrase (cx_iteration_exponent ctx)
                  (cx_identifier ctx) (cx_extendable ctx);
                Some (Inr secret) } } })"

fun slip39_error_message :: "slip39_err \<Rightarrow> string" where
  "slip39_error_message SLIP39_OK = ''OK''"
| "slip39_error_message SLIP39_ERR_WORD = ''Not a SLIP39 word''"
| "slip39_error_message SLIP39_ERR_LENGTH = ''Must be 20 or 33 words''"
| "slip39_error_message SLIP39_ERR_CHECKSUM = ''Checksum failed - check the words''"
| "slip39_error_message SLIP39_ERR_FORMAT = ''Invalid SLIP39 share''"
| "slip39_error_message SLIP39_ERR_SET = ''Not from this backup''"
| "slip39_error_message SLIP39_ERR_DUPLICATE = ''Share already entered''"
| "slip39_error_message SLIP39_ERR_GROUP_FULL = ''That group is full''"
| "slip39_error_message SLIP39_ERR_GROUPS_FULL = ''Enough groups already entered''"
| "slip39_error_message SLIP39_ERR_INCOMPLETE = ''More shares needed''"
| "slip39_error_message SLIP39_ERR_DIGEST = ''Shares do not match''"

section \<open>The context describes the shares it holds\<close>

definition group_ok :: "slip39_group \<Rightarrow> bool" where
  "group_ok g \<longleftrightarrow> length (gr_index g) = 16 \<and> length (gr_value g) = 16 \<and> (\<forall>v\<in>set (gr_value g). length v = 32) \<and>
     unat (gr_count g) \<le> unat (gr_threshold g) \<and> unat (gr_threshold g) \<le> 16 \<and>
     distinct (take (unat (gr_count g)) (gr_index g)) \<and> (\<forall>i\<in>set (take (unat (gr_count g)) (gr_index g)). unat i < 16)"

definition gr_started :: "slip39_group \<Rightarrow> bool" where
  "gr_started g \<longleftrightarrow> gr_count g \<noteq> 0"

definition gr_complete :: "slip39_group \<Rightarrow> bool" where
  "gr_complete g \<longleftrightarrow> gr_count g \<noteq> 0 \<and> gr_count g = gr_threshold g"

definition ctx_ok :: "slip39_ctx \<Rightarrow> bool" where
  "ctx_ok ctx \<longleftrightarrow> length (cx_groups ctx) = 16 \<and> (\<forall>g\<in>set (cx_groups ctx). group_ok g) \<and>
     unat (cx_groups_started ctx) = length (filter gr_started (cx_groups ctx)) \<and>
     unat (cx_groups_complete ctx) = length (filter gr_complete (cx_groups ctx)) \<and>
     unat (cx_groups_started ctx) \<le> unat (cx_group_threshold ctx) \<and>
     (if cx_started ctx
      then cx_group_threshold ctx \<noteq> 0 \<and> (cx_value_len ctx = 16 \<or> cx_value_len ctx = 32)
      else (\<forall>g\<in>set (cx_groups ctx). \<not> gr_started g))"

text \<open>What every parsed share satisfies.\<close>

definition share_ok :: "slip39_share \<Rightarrow> bool" where
  "share_ok s \<longleftrightarrow> (sh_value_len s = 16 \<or> sh_value_len s = 32) \<and> length (sh_value s) = 32 \<and>
     unat (sh_group_index s) < 16 \<and> unat (sh_member_index s) < 16 \<and>
     0 < unat (sh_member_threshold s) \<and> unat (sh_member_threshold s) \<le> 16 \<and> sh_group_threshold s \<noteq> 0"

lemma unat_Suc_of_pred: "unat (b - 1 :: byte) < 16 \<Longrightarrow> unat b = Suc (unat (b - 1))"
proof -
  assume "unat (b - 1) < 16"
  then have "unat (b - 1) + unat (1 :: byte) < 2 ^ LENGTH(8)" by simp
  then have "unat (b - 1 + 1) = unat (b - 1) + unat (1 :: byte)" by (rule unat_add_lem [THEN iffD1])
  then show ?thesis by simp
qed

lemma share_encodes_ok: "share_encodes indices s \<Longrightarrow> share_ok s"
proof -
  assume "share_encodes indices s"
  note d = share_encodesD [OF this]
  have "unat (sh_group_threshold s) = Suc (unat (sh_group_threshold s - 1))"
    "unat (sh_member_threshold s) = Suc (unat (sh_member_threshold s - 1))"
    using d(8,11) by (intro unat_Suc_of_pred; simp)+
  then show ?thesis using d by (auto simp: share_ok_def)
qed

lemma length_filter_update:
  "i < length xs \<Longrightarrow> length (filter P (xs[i := y])) + (if P (xs ! i) then 1 else 0) =
     length (filter P xs) + (if P y then 1 else 0)"
proof (induction xs arbitrary: i)
  case (Cons x xs)
  then show ?case by (cases i) auto
qed simp

lemma find_member_None: "find_member mi v len is vs = None \<longleftrightarrow> mi \<notin> set is"
  by (induction "is" arbitrary: vs) auto

lemma find_member_Some:
  "find_member mi v len is vs = Some rc \<Longrightarrow> length is \<le> length vs \<Longrightarrow>
     (rc = SLIP39_ERR_DUPLICATE \<or> rc = SLIP39_ERR_SET) \<and>
     (\<exists>m<length is. is ! m = mi \<and> (rc = SLIP39_ERR_DUPLICATE \<longleftrightarrow> take len (vs ! m) = take len v))"
proof (induction "is" arbitrary: vs)
  case (Cons i "is")
  then obtain w ws where vs: "vs = w # ws" by (cases vs) auto
  show ?case
  proof (cases "i = mi")
    case True
    with Cons.prems vs show ?thesis by (auto split: if_splits intro!: exI [of _ 0])
  next
    case False
    with Cons.prems vs have "find_member mi v len is ws = Some rc" "length is \<le> length ws" by auto
    from Cons.IH [OF this] show ?thesis
      using vs by (metis length_Cons nth_Cons_Suc not_less_eq)
  qed
qed simp

text \<open>The shares of a group, as pairs of member index and value.\<close>

definition group_shares :: "nat \<Rightarrow> slip39_group \<Rightarrow> (byte \<times> bytes) list" where
  "group_shares len g = zip (take (unat (gr_count g)) (gr_index g)) (map (take len) (take (unat (gr_count g)) (gr_value g)))"

text \<open>The context with the fields of the backup, as the code sets them from the first share.\<close>

definition ctx_adopt :: "slip39_ctx \<Rightarrow> slip39_share \<Rightarrow> slip39_ctx" where
  "ctx_adopt ctx share = (if cx_started ctx then ctx else
     ctx \<lparr> cx_identifier := sh_identifier share, cx_extendable := sh_extendable share,
       cx_iteration_exponent := sh_iteration_exponent share,
       cx_group_threshold := sh_group_threshold share, cx_group_count := sh_group_count share,
       cx_value_len := sh_value_len share, cx_started := True \<rparr>)"

definition same_backup :: "slip39_ctx \<Rightarrow> slip39_share \<Rightarrow> bool" where
  "same_backup ctx share \<longleftrightarrow> cx_identifier ctx = sh_identifier share \<and> cx_extendable ctx = sh_extendable share \<and>
     cx_iteration_exponent ctx = sh_iteration_exponent share \<and>
     cx_group_threshold ctx = sh_group_threshold share \<and>
     cx_group_count ctx = sh_group_count share \<and> cx_value_len ctx = sh_value_len share"

lemma ctx_adopt_simps [simp]:
  "cx_groups (ctx_adopt ctx s) = cx_groups ctx"
  "cx_groups_started (ctx_adopt ctx s) = cx_groups_started ctx"
  "cx_groups_complete (ctx_adopt ctx s) = cx_groups_complete ctx"
  "cx_started (ctx_adopt ctx s)"
  by (simp_all add: ctx_adopt_def)

lemma ctx_ok_adopt:
  assumes "ctx_ok ctx" and "share_ok s"
  shows "ctx_ok (ctx_adopt ctx s)"
proof (cases "cx_started ctx")
  case False
  then have "\<forall>g\<in>set (cx_groups ctx). \<not> gr_started g" "unat (cx_groups_started ctx) = length (filter gr_started (cx_groups ctx))"
    using assms by (auto simp: ctx_ok_def)
  then have "unat (cx_groups_started ctx) = 0" by (simp add: filter_False)
  then show ?thesis using False assms by (auto simp: ctx_adopt_def ctx_ok_def share_ok_def)
qed (use assms in \<open>simp add: ctx_adopt_def\<close>)

text \<open>The new state of a group that takes the share.\<close>

definition group_take :: "slip39_group \<Rightarrow> slip39_share \<Rightarrow> slip39_group" where
  "group_take g s =
     (let g = (if gr_count g = 0 then g \<lparr> gr_threshold := sh_member_threshold s \<rparr> else g) in
      g \<lparr> gr_index := (gr_index g)[unat (gr_count g) := sh_member_index s],
        gr_value := (gr_value g)[unat (gr_count g) := take (unat (sh_value_len s)) (sh_value s) @
          drop (unat (sh_value_len s)) (gr_value g ! unat (gr_count g))],
        gr_count := gr_count g + 1 \<rparr>)"

lemma group_take_simps [simp]:
  "gr_threshold (group_take g s) = (if gr_count g = 0 then sh_member_threshold s else gr_threshold g)"
  "gr_count (group_take g s) = gr_count g + 1"
  "gr_index (group_take g s) = (gr_index g)[unat (gr_count g) := sh_member_index s]"
  "gr_value (group_take g s) = (gr_value g)[unat (gr_count g) := take (unat (sh_value_len s)) (sh_value s) @
       drop (unat (sh_value_len s)) (gr_value g ! unat (gr_count g))]"
  by (simp_all add: group_take_def Let_def)

definition ctx_take :: "slip39_ctx \<Rightarrow> slip39_share \<Rightarrow> slip39_ctx" where
  "ctx_take ctx s =
     (let gi = unat (sh_group_index s); g = cx_groups ctx ! gi; g' = group_take g s;
          ctx = (if gr_count g = 0 then ctx \<lparr> cx_groups_started := cx_groups_started ctx + 1 \<rparr> else ctx);
          ctx = (if gr_count g' = gr_threshold g' then ctx \<lparr> cx_groups_complete := cx_groups_complete ctx + 1 \<rparr>
                 else ctx)
      in ctx \<lparr> cx_groups := (cx_groups ctx)[gi := g'] \<rparr>)"

lemma ctx_take_simps [simp]:
  "cx_groups (ctx_take ctx s) = (cx_groups ctx)[unat (sh_group_index s) :=
     group_take (cx_groups ctx ! unat (sh_group_index s)) s]"
  "cx_started (ctx_take ctx s) = cx_started ctx"
  "cx_group_threshold (ctx_take ctx s) = cx_group_threshold ctx"
  "cx_value_len (ctx_take ctx s) = cx_value_len ctx"
  "same_backup (ctx_take ctx s) s = same_backup ctx s"
  by (simp_all add: ctx_take_def Let_def same_backup_def)

lemma ctx_take_counts:
  assumes "g = cx_groups ctx ! unat (sh_group_index s)"
  shows "cx_groups_started (ctx_take ctx s) = cx_groups_started ctx + (if gr_count g = 0 then 1 else 0)"
    and "cx_groups_complete (ctx_take ctx s) =
      cx_groups_complete ctx + (if gr_count (group_take g s) = gr_threshold (group_take g s) then 1 else 0)"
  by (simp_all add: ctx_take_def Let_def assms)

lemma slip39_add_share_eq:
  assumes "ctx_ok ctx" and "share_ok s"
  defines "ctx1 \<equiv> ctx_adopt ctx s" and "g \<equiv> cx_groups ctx ! unat (sh_group_index s)"
  shows "slip39_add_share ctx s = Some (
     if cx_started ctx \<and> \<not> same_backup ctx s then (SLIP39_ERR_SET, ctx)
     else if gr_count g \<noteq> 0 \<and> gr_threshold g \<noteq> sh_member_threshold s then (SLIP39_ERR_SET, ctx1)
     else case find_member (sh_member_index s) (sh_value s) (unat (sh_value_len s))
            (take (unat (gr_count g)) (gr_index g)) (gr_value g) of
       Some rc \<Rightarrow> (rc, ctx1)
     | None \<Rightarrow>
       if gr_count g \<noteq> 0 \<and> gr_count g = gr_threshold g then (SLIP39_ERR_GROUP_FULL, ctx1)
       else if gr_count g = 0 \<and> cx_groups_started ctx = cx_group_threshold ctx1 then (SLIP39_ERR_GROUPS_FULL, ctx1)
       else (SLIP39_OK, ctx_take ctx1 s))"
proof -
  have gi: "unat (sh_group_index s) < length (cx_groups ctx)" and gok: "group_ok g"
    using assms by (auto simp: ctx_ok_def share_ok_def)
  have fits: "unat (gr_count g) < 16" if "\<not> (gr_count g \<noteq> 0 \<and> gr_count g = gr_threshold g)"
    using that gok by (auto simp: group_ok_def word_unat_eq_iff)
  have vlen: "unat (sh_value_len s) \<le> 32" "length (sh_value s) = 32" "sh_value_len s \<noteq> 0"
    using assms(2) by (auto simp: share_ok_def)
  have slot: "length (gr_value g ! n) = 32" if "n < 16" for n
    using gok that by (auto simp: group_ok_def)
  have shares: "length (gr_index g) = 16" "length (gr_value g) = 16" using gok by (auto simp: group_ok_def)
  have asserts: "sh_value_len s \<noteq> 0 \<and> unat (sh_value_len s) \<le> 32" "unat (sh_group_index s) < 16"
    "unat (sh_member_index s) < 16" "sh_member_threshold s \<noteq> 0 \<and> unat (sh_member_threshold s) \<le> 16"
    using assms(2) by (auto simp: share_ok_def)
  have same: "(cx_started ctx \<and>
        (cx_identifier ctx \<noteq> sh_identifier s \<or> cx_extendable ctx \<noteq> sh_extendable s \<or>
         cx_iteration_exponent ctx \<noteq> sh_iteration_exponent s \<or>
         cx_group_threshold ctx \<noteq> sh_group_threshold s \<or>
         cx_group_count ctx \<noteq> sh_group_count s \<or> cx_value_len ctx \<noteq> sh_value_len s)) =
      (cx_started ctx \<and> \<not> same_backup ctx s)"
    by (simp add: same_backup_def)
  have get: "buf_get (cx_groups ctx1) (unat (sh_group_index s)) = Some g"
    using gi by (simp add: buf_get_def g_def ctx1_def)
  note eval = slip39_consts jade_assert_def asserts vlen(3) get
    ctx_adopt_def [of ctx s, symmetric] ctx1_def [symmetric] Let_def
  let ?found = "find_member (sh_member_index s) (sh_value s) (unat (sh_value_len s))
            (take (unat (gr_count g)) (gr_index g)) (gr_value g)"
  consider "cx_started ctx \<and> \<not> same_backup ctx s"
    | "\<not> (cx_started ctx \<and> \<not> same_backup ctx s)" "gr_count g \<noteq> 0 \<and> gr_threshold g \<noteq> sh_member_threshold s"
    | rc where "\<not> (cx_started ctx \<and> \<not> same_backup ctx s)"
        "\<not> (gr_count g \<noteq> 0 \<and> gr_threshold g \<noteq> sh_member_threshold s)" "?found = Some rc"
    | "\<not> (cx_started ctx \<and> \<not> same_backup ctx s)"
        "\<not> (gr_count g \<noteq> 0 \<and> gr_threshold g \<noteq> sh_member_threshold s)" "?found = None"
        "gr_count g \<noteq> 0 \<and> gr_count g = gr_threshold g"
    | "\<not> (cx_started ctx \<and> \<not> same_backup ctx s)"
        "\<not> (gr_count g \<noteq> 0 \<and> gr_threshold g \<noteq> sh_member_threshold s)" "?found = None"
        "\<not> (gr_count g \<noteq> 0 \<and> gr_count g = gr_threshold g)"
    by (cases ?found) blast+
  then show ?thesis
  proof cases
    case 1
    then show ?thesis
      by (auto simp: same_backup_def slip39_add_share_def slip39_consts jade_assert_def asserts vlen(3))
  next
    case 2
    then show ?thesis
      unfolding slip39_add_share_def same by (simp only: eval simp_thms if_True if_False bind.simps; simp)
  next
    case 3
    then show ?thesis
      unfolding slip39_add_share_def same by (simp only: eval simp_thms if_True if_False bind.simps; simp)
  next
    case 4
    then show ?thesis
      unfolding slip39_add_share_def same by (simp only: eval simp_thms if_True if_False bind.simps; simp)
  next
    case 5
    have n: "unat (gr_count g) < 16" by (rule fits [OF 5(4)])
    note bufs = buf_set_def buf_get_def buf_read_def buf_write_def
    from 5 n show ?thesis
      unfolding slip39_add_share_def same
      by (simp only: eval simp_thms if_True if_False bind.simps option.case)
        (cases "gr_count g = 0"; simp add: bufs vlen slot shares ctx_take_def group_take_def g_def [symmetric] ctx1_def Let_def)
  qed
qed

lemma unat_plus_one: "unat (b :: byte) < 255 \<Longrightarrow> unat (b + 1) = Suc (unat b)"
proof -
  assume "unat b < 255"
  then have "unat b + unat (1 :: byte) < 2 ^ LENGTH(8)" by simp
  then show ?thesis by (subst unat_add_lem [THEN iffD1]) simp_all
qed

lemma group_take_ok:
  assumes "group_ok g" and "share_ok s" and "sh_member_index s \<notin> set (take (unat (gr_count g)) (gr_index g))"
    and "\<not> (gr_count g \<noteq> 0 \<and> gr_count g = gr_threshold g)"
  shows "group_ok (group_take g s)" and "unat (gr_count (group_take g s)) = Suc (unat (gr_count g))"
proof -
  define n where "n = unat (gr_count g)"
  have n: "n < 16" and room: "gr_count g \<noteq> 0 \<longrightarrow> n < unat (gr_threshold g)"
    using assms(1,4) by (auto simp: group_ok_def n_def word_unat_eq_iff)
  have c: "unat (gr_count g + 1) = Suc n" using n unat_plus_one [of "gr_count g"] by (simp add: n_def)
  then show "unat (gr_count (group_take g s)) = Suc (unat (gr_count g))" by (simp add: n_def)
  have idx: "take (Suc n) ((gr_index g)[n := sh_member_index s]) = take n (gr_index g) @ [sh_member_index s]"
    using n assms(1) by (simp add: group_ok_def take_Suc_conv_app_nth)
  have len: "length (take (unat (sh_value_len s)) (sh_value s) @ drop (unat (sh_value_len s)) (gr_value g ! n)) = 32"
    using assms(1,2) n by (auto simp: group_ok_def share_ok_def)
  show "group_ok (group_take g s)"
    unfolding group_ok_def group_take_simps c n_def [symmetric] idx
  proof (intro conjI)
    show "\<forall>v\<in>set ((gr_value g)[n := take (unat (sh_value_len s)) (sh_value s) @
        drop (unat (sh_value_len s)) (gr_value g ! n)]). length v = 32"
      using assms(1) len by (auto simp: group_ok_def dest!: subsetD [OF set_update_subset_insert])
    show "Suc n \<le> unat (if gr_count g = 0 then sh_member_threshold s else gr_threshold g)"
      using room assms(2) by (auto simp: share_ok_def n_def)
    show "distinct (take n (gr_index g) @ [sh_member_index s])"
      using assms(1,3) by (simp add: group_ok_def n_def)
    show "\<forall>i\<in>set (take n (gr_index g) @ [sh_member_index s]). unat i < 16"
      using assms(1,2) by (auto simp: group_ok_def share_ok_def n_def)
  qed (use assms(1,2) in \<open>auto simp: group_ok_def share_ok_def\<close>)
qed

lemma group_take_shares:
  assumes "group_ok g" and "share_ok s" and "unat (gr_count g) < 16"
  shows "group_shares (unat (sh_value_len s)) (group_take g s) =
     group_shares (unat (sh_value_len s)) g @ [(sh_member_index s, take (unat (sh_value_len s)) (sh_value s))]"
proof -
  define n where "n = unat (gr_count g)"
  have c: "unat (gr_count g + 1) = Suc n" using assms(3) unat_plus_one [of "gr_count g"] by (simp add: n_def)
  have "length (gr_index g) = 16" "length (gr_value g) = 16" "n < 16"
    "unat (sh_value_len s) \<le> length (sh_value s)"
    using assms by (auto simp: group_ok_def share_ok_def n_def)
  then show ?thesis
    by (simp add: group_shares_def c n_def [symmetric] take_Suc_conv_app_nth)
qed

lemma ctx_take_ok:
  assumes "ctx_ok ctx" and "share_ok s" and "cx_started ctx"
    and "g = cx_groups ctx ! unat (sh_group_index s)"
    and "sh_member_index s \<notin> set (take (unat (gr_count g)) (gr_index g))"
    and "\<not> (gr_count g \<noteq> 0 \<and> gr_count g = gr_threshold g)"
    and "\<not> (gr_count g = 0 \<and> cx_groups_started ctx = cx_group_threshold ctx)"
  shows "ctx_ok (ctx_take ctx s)"
proof -
  define gi where "gi = unat (sh_group_index s)"
  define g' where "g' = group_take g s"
  define gs where "gs = (cx_groups ctx)[gi := g']"
  have gi: "gi < length (cx_groups ctx)" "length (cx_groups ctx) = 16"
    using assms(1,2) by (auto simp: ctx_ok_def share_ok_def gi_def)
  have gok: "group_ok g" using assms(1,4) gi by (auto simp: ctx_ok_def gi_def)
  note take_ok = group_take_ok [OF gok assms(2,5,6), folded g'_def]
  have st: "gr_started g'" "\<not> gr_complete g"
    using take_ok(2) assms(6) by (auto simp: gr_started_def gr_complete_def)
  have nth: "cx_groups ctx ! gi = g" using assms(4) by (simp add: gi_def)
  have started: "length (filter gr_started gs) = length (filter gr_started (cx_groups ctx)) + (if gr_count g = 0 then 1 else 0)"
    using length_filter_update [OF gi(1), of gr_started g'] st(1) nth by (auto simp: gs_def gr_started_def)
  have complete: "length (filter gr_complete gs) =
      length (filter gr_complete (cx_groups ctx)) + (if gr_count g' = gr_threshold g' then 1 else 0)"
    using length_filter_update [OF gi(1), of gr_complete g'] st nth by (auto simp: gs_def gr_started_def gr_complete_def)
  have bounds: "unat (cx_groups_started ctx) \<le> 16" "unat (cx_groups_complete ctx) \<le> 16"
    using assms(1) gi(2) length_filter_le [of _ "cx_groups ctx"] unfolding ctx_ok_def by metis+
  have s1: "unat (cx_groups_started ctx + (if gr_count g = 0 then 1 else 0)) =
      unat (cx_groups_started ctx) + (if gr_count g = 0 then 1 else 0)"
    using bounds(1) unat_plus_one [of "cx_groups_started ctx"] by simp
  have s2: "unat (cx_groups_complete ctx + (if gr_count g' = gr_threshold g' then 1 else 0)) =
      unat (cx_groups_complete ctx) + (if gr_count g' = gr_threshold g' then 1 else 0)"
    using bounds(2) unat_plus_one [of "cx_groups_complete ctx"] by simp
  have le: "unat (cx_groups_started ctx) + (if gr_count g = 0 then 1 else 0) \<le> unat (cx_group_threshold ctx)"
    using assms(1,7) by (auto simp: ctx_ok_def word_unat_eq_iff)
  have "\<forall>g\<in>set gs. group_ok g"
    using assms(1) take_ok(1) by (auto simp: gs_def ctx_ok_def dest!: subsetD [OF set_update_subset_insert])
  moreover have "cx_groups (ctx_take ctx s) = gs" by (simp add: gs_def g'_def gi_def assms(4))
  ultimately show ?thesis
    using assms(1,3) gi(2) started complete s1 s2 le
    unfolding ctx_ok_def ctx_take_counts [OF assms(4)] g'_def [symmetric]
    by (simp add: gs_def del: ctx_take_simps(1))
qed

lemma slip39_init_ok: "ctx_ok slip39_init"
  by (simp add: ctx_ok_def slip39_init_def group_ok_def group_zero_def gr_started_def gr_complete_def filter_replicate)

lemma first_share_accepted:
  assumes "ctx_ok ctx" and "share_ok s" and "\<not> cx_started ctx"
  shows "slip39_add_share ctx s = Some (SLIP39_OK, ctx_take (ctx_adopt ctx s) s)"
proof -
  define g where "g = cx_groups ctx ! unat (sh_group_index s)"
  have "g \<in> set (cx_groups ctx)" using assms(1,2) by (simp add: ctx_ok_def share_ok_def g_def)
  then have g: "gr_count g = 0" using assms(1,3) by (auto simp: ctx_ok_def gr_started_def)
  have "\<forall>g\<in>set (cx_groups ctx). \<not> gr_started g" using assms(1,3) by (simp add: ctx_ok_def)
  then have "unat (cx_groups_started ctx) = 0" using assms(1) by (simp add: ctx_ok_def filter_False)
  then have "cx_groups_started ctx = 0" by (simp add: unat_eq_zero)
  moreover have "cx_group_threshold (ctx_adopt ctx s) \<noteq> 0"
    using assms(2,3) by (simp add: ctx_adopt_def share_ok_def)
  ultimately show ?thesis
    using slip39_add_share_eq [OF assms(1,2)] g assms(3) by (simp add: g_def [symmetric])
qed

lemma ctx_take_effect:
  assumes "ctx_ok ctx" and "share_ok s" and "g = cx_groups ctx ! unat (sh_group_index s)"
    and "\<not> (gr_count g \<noteq> 0 \<and> gr_threshold g \<noteq> sh_member_threshold s)"
    and "\<not> (gr_count g \<noteq> 0 \<and> gr_count g = gr_threshold g)"
  shows "gr_threshold (cx_groups (ctx_take ctx s) ! unat (sh_group_index s)) = sh_member_threshold s"
    and "group_shares (unat (sh_value_len s)) (cx_groups (ctx_take ctx s) ! unat (sh_group_index s)) =
       group_shares (unat (sh_value_len s)) g @ [(sh_member_index s, take (unat (sh_value_len s)) (sh_value s))]"
    and "j \<noteq> unat (sh_group_index s) \<Longrightarrow> cx_groups (ctx_take ctx s) ! j = cx_groups ctx ! j"
    and "same_backup (ctx_take ctx s) s \<longleftrightarrow> same_backup ctx s"
proof -
  have gi: "unat (sh_group_index s) < length (cx_groups ctx)" using assms(1,2) by (auto simp: ctx_ok_def share_ok_def)
  then have gok: "group_ok g" using assms(1,3) by (auto simp: ctx_ok_def)
  have n: "unat (gr_count g) < 16" using gok assms(5) by (auto simp: group_ok_def word_unat_eq_iff)
  have g': "cx_groups (ctx_take ctx s) ! unat (sh_group_index s) = group_take g s"
    using gi by (simp add: assms(3))
  show "gr_threshold (cx_groups (ctx_take ctx s) ! unat (sh_group_index s)) = sh_member_threshold s"
    unfolding g' using assms(4) by auto
  show "group_shares (unat (sh_value_len s)) (cx_groups (ctx_take ctx s) ! unat (sh_group_index s)) =
       group_shares (unat (sh_value_len s)) g @ [(sh_member_index s, take (unat (sh_value_len s)) (sh_value s))]"
    unfolding g' by (rule group_take_shares [OF gok assms(2) n])
qed simp_all

lemma group_shares_fst:
  "group_ok g \<Longrightarrow> map fst (group_shares len g) = take (unat (gr_count g)) (gr_index g)"
  by (simp add: group_shares_def group_ok_def)

lemma duplicate_held:
  assumes "group_ok g" and "find_member mi v len (take (unat (gr_count g)) (gr_index g)) (gr_value g)
      = Some SLIP39_ERR_DUPLICATE"
  shows "(mi, take len v) \<in> set (group_shares len g)"
proof -
  let ?n = "unat (gr_count g)"
  have len: "length (gr_index g) = 16" "length (gr_value g) = 16" "?n \<le> 16"
    using assms(1) by (auto simp: group_ok_def)
  obtain m where m: "m < ?n" "gr_index g ! m = mi" "take len (gr_value g ! m) = take len v"
    using find_member_Some [OF assms(2)] len by auto
  then have "group_shares len g ! m = (mi, take len v)" "m < length (group_shares len g)"
    using len by (simp_all add: group_shares_def)
  then show ?thesis by (metis nth_mem)
qed

lemma add_share_started:
  assumes "ctx_ok ctx" and "share_ok s" and "cx_started ctx" and "slip39_add_share ctx s = Some (rc, ctx')"
    and "g = cx_groups ctx ! unat (sh_group_index s)"
  shows "rc \<noteq> SLIP39_OK \<and> ctx' = ctx \<and>
        (rc = SLIP39_ERR_DUPLICATE \<longrightarrow> (sh_member_index s, take (unat (sh_value_len s)) (sh_value s))
           \<in> set (group_shares (unat (sh_value_len s)) g))
     \<or> rc = SLIP39_OK \<and> ctx' = ctx_take ctx s \<and> same_backup ctx s \<and>
        \<not> (gr_count g \<noteq> 0 \<and> gr_threshold g \<noteq> sh_member_threshold s) \<and>
        sh_member_index s \<notin> set (take (unat (gr_count g)) (gr_index g)) \<and>
        \<not> (gr_count g \<noteq> 0 \<and> gr_count g = gr_threshold g) \<and>
        \<not> (gr_count g = 0 \<and> cx_groups_started ctx = cx_group_threshold ctx)"
proof -
  have adopt: "ctx_adopt ctx s = ctx" using assms(3) by (simp add: ctx_adopt_def)
  have gok: "group_ok g" using assms(1,2,5) by (auto simp: ctx_ok_def share_ok_def)
  let ?found = "find_member (sh_member_index s) (sh_value s) (unat (sh_value_len s))
            (take (unat (gr_count g)) (gr_index g)) (gr_value g)"
  note eq = slip39_add_share_eq [OF assms(1,2), unfolded adopt assms(5) [symmetric] assms(4) option.inject]
  have err: "rc' = SLIP39_ERR_DUPLICATE \<or> rc' = SLIP39_ERR_SET" if "?found = Some rc'" for rc'
    using find_member_Some [OF that] gok by (auto simp: group_ok_def)
  have held: "?found = Some SLIP39_ERR_DUPLICATE \<Longrightarrow> (sh_member_index s, take (unat (sh_value_len s)) (sh_value s))
           \<in> set (group_shares (unat (sh_value_len s)) g)" by (rule duplicate_held [OF gok])
  have none: "?found = None \<longleftrightarrow> sh_member_index s \<notin> set (take (unat (gr_count g)) (gr_index g))"
    by (rule find_member_None)
  show ?thesis
  proof (cases ?found)
    case None
    then show ?thesis using eq none assms(3) by (auto split: if_splits)
  next
    case (Some rc')
    then show ?thesis using eq err [OF Some] held assms(3) by (auto split: if_splits)
  qed
qed

lemma add_share_effect:
  assumes "ctx_ok ctx" and "share_ok s"
    and "gi = unat (sh_group_index s)" and "len = unat (sh_value_len s)"
  shows "\<exists>rc ctx'. slip39_add_share ctx s = Some (rc, ctx') \<and> ctx_ok ctx' \<and>
     (rc \<noteq> SLIP39_OK \<longrightarrow> ctx' = ctx) \<and>
     (rc = SLIP39_ERR_DUPLICATE \<longrightarrow>
        (sh_member_index s, take len (sh_value s)) \<in> set (group_shares len (cx_groups ctx ! gi))) \<and>
     (rc = SLIP39_OK \<longrightarrow> same_backup ctx' s \<and>
        sh_member_index s \<notin> set (map fst (group_shares len (cx_groups ctx ! gi))) \<and>
        gr_threshold (cx_groups ctx' ! gi) = sh_member_threshold s \<and>
        group_shares len (cx_groups ctx' ! gi) =
          group_shares len (cx_groups ctx ! gi) @ [(sh_member_index s, take len (sh_value s))] \<and>
        (\<forall>j. j \<noteq> gi \<longrightarrow> cx_groups ctx' ! j = cx_groups ctx ! j))"
proof -
  define g where "g = cx_groups ctx ! unat (sh_group_index s)"
  have gok: "group_ok g" and gmem: "g \<in> set (cx_groups ctx)"
    using assms(1,2) by (auto simp: ctx_ok_def share_ok_def g_def)
  note fst = group_shares_fst [OF gok]
  obtain rc ctx' where add: "slip39_add_share ctx s = Some (rc, ctx')"
    using slip39_add_share_eq [OF assms(1,2)] by (metis surj_pair)
  show ?thesis
  proof (cases "cx_started ctx")
    case True
    note cases = add_share_started [OF assms(1,2) True add g_def]
    then show ?thesis
    proof
      assume ok: "rc = SLIP39_OK \<and> ctx' = ctx_take ctx s \<and> same_backup ctx s \<and>
        \<not> (gr_count g \<noteq> 0 \<and> gr_threshold g \<noteq> sh_member_threshold s) \<and>
        sh_member_index s \<notin> set (take (unat (gr_count g)) (gr_index g)) \<and>
        \<not> (gr_count g \<noteq> 0 \<and> gr_count g = gr_threshold g) \<and>
        \<not> (gr_count g = 0 \<and> cx_groups_started ctx = cx_group_threshold ctx)"
      then have "ctx_ok ctx'" using ctx_take_ok [OF assms(1,2) True g_def] by blast
      then show ?thesis
        using ok add ctx_take_effect [OF assms(1,2) g_def] fst assms(3,4) by (simp add: g_def [symmetric])
    qed (use add assms in \<open>auto simp: g_def\<close>)
  next
    case False
    have g0: "gr_count g = 0" using assms(1) False gmem by (auto simp: ctx_ok_def gr_started_def)
    define c where "c = ctx_adopt ctx s"
    have c: "ctx_ok c" "cx_started c" "g = cx_groups c ! unat (sh_group_index s)" "cx_groups c = cx_groups ctx"
      using ctx_ok_adopt [OF assms(1,2)] by (simp_all add: c_def g_def)
    have same: "same_backup c s" using False by (simp add: c_def ctx_adopt_def same_backup_def)
    have "\<forall>g\<in>set (cx_groups ctx). \<not> gr_started g" using assms(1) False by (simp add: ctx_ok_def)
    then have "unat (cx_groups_started ctx) = 0" using assms(1) by (simp add: ctx_ok_def filter_False)
    then have "cx_groups_started c = 0" by (simp add: unat_eq_zero c_def)
    moreover have "cx_group_threshold c \<noteq> 0" using assms(2) False by (simp add: c_def ctx_adopt_def share_ok_def)
    ultimately have ok: "ctx_ok (ctx_take c s)" using g0 ctx_take_ok [OF c(1) assms(2) c(2,3)] by auto
    have "rc = SLIP39_OK" "ctx' = ctx_take c s"
      using add first_share_accepted [OF assms(1,2) False] by (simp_all add: c_def)
    then show ?thesis
      using add ok same ctx_take_effect [OF c(1) assms(2) c(3)] g0 fst c(4) assms(3,4)
      by (simp add: g_def [symmetric])
  qed
qed

lemma add_share_keeps:
  assumes "ctx_ok ctx" and "share_ok s"
  shows "\<exists>rc ctx'. slip39_add_share ctx s = Some (rc, ctx') \<and> ctx_ok ctx'"
  using add_share_effect [OF assms refl refl] by blast

text \<open>C35. Adding a share never trips an assertion or leaves a buffer. It keeps the invariant that
  the counters describe the shares held; a share that is refused changes nothing; a share that is
  accepted is appended to its group, agrees with the backup and with its group's threshold, has a
  new member index, and leaves the other groups alone; \<open>DUPLICATE\<close> means it is already there.\<close>

theorem slip39_add_share_correct:
  assumes "ctx_ok ctx" and "share_ok s"
    and "gi = unat (sh_group_index s)" and "len = unat (sh_value_len s)"
  shows "\<exists>rc ctx'. slip39_add_share ctx s = Some (rc, ctx') \<and> ctx_ok ctx' \<and>
     (rc \<noteq> SLIP39_OK \<longrightarrow> ctx' = ctx) \<and>
     (rc = SLIP39_ERR_DUPLICATE \<longrightarrow>
        (sh_member_index s, take len (sh_value s)) \<in> set (group_shares len (cx_groups ctx ! gi))) \<and>
     (rc = SLIP39_OK \<longrightarrow> same_backup ctx' s \<and>
        sh_member_index s \<notin> set (map fst (group_shares len (cx_groups ctx ! gi))) \<and>
        gr_threshold (cx_groups ctx' ! gi) = sh_member_threshold s \<and>
        group_shares len (cx_groups ctx' ! gi) =
          group_shares len (cx_groups ctx ! gi) @ [(sh_member_index s, take len (sh_value s))] \<and>
        (\<forall>j. j \<noteq> gi \<longrightarrow> cx_groups ctx' ! j = cx_groups ctx ! j))"
  using assms by (rule add_share_effect)

lemma sample_share_ok: "share_ok sample_share"
  by (rule share_encodes_ok [OF sample_encodes])

theorem slip39_add_share_correct_witness:
  "\<exists>rc ctx'. slip39_add_share slip39_init sample_share = Some (rc, ctx') \<and> ctx_ok ctx'"
  using slip39_add_share_correct [OF slip39_init_ok sample_share_ok refl refl] by blast

text \<open>The contexts the collection screen can reach.\<close>

inductive collected :: "slip39_ctx \<Rightarrow> bool" where
  collected_init: "collected slip39_init"
| collected_add: "collected ctx \<Longrightarrow> slip39_parse_share mnemonic = Some (SLIP39_OK, share) \<Longrightarrow>
     slip39_add_share ctx share = Some (rc, ctx') \<Longrightarrow> collected ctx'"

lemma parsed_share_ok: "slip39_parse_share mnemonic = Some (SLIP39_OK, share) \<Longrightarrow> share_ok share"
proof -
  assume p: "slip39_parse_share mnemonic = Some (SLIP39_OK, share)"
  then have "mnemonic \<noteq> []" by (auto simp: slip39_parse_share_def jade_assert_def)
  from parse_accepts [OF this] p show ?thesis using share_encodes_ok by blast
qed

lemma collected_ok: "collected ctx \<Longrightarrow> ctx_ok ctx"
proof (induction rule: collected.induct)
  case collected_init
  show ?case by (rule slip39_init_ok)
next
  case (collected_add ctx mnemonic share rc ctx')
  then show ?case
    using add_share_keeps [OF collected_add.IH parsed_share_ok [OF collected_add.hyps(2)]] by auto
qed

section \<open>Recovering one secret\<close>

lemma shamir_interpolate_take:
  "shamir_interpolate x idx vals len = shamir_interpolate x idx (map (take len) vals) len"
  by (simp add: shamir_interpolate_def bitslice_def comp_def)

lemma length_shamir_interpolate: "shamir_interpolate x idx vals len = Some r \<Longrightarrow> length r = len"
  by (auto simp: shamir_interpolate_def Let_def SHAMIR_MAX_LEN_def unbitslice_lanes split: if_splits option.splits)

text \<open>Polynomials, one per byte, that share \<open>secret\<close> with the given threshold: the secret at 255
  and, above a threshold of one, the digest share at 254, whose first four bytes are the start
  of the HMAC of the secret under the rest.\<close>

definition splits :: "(bytes \<Rightarrow> bytes \<Rightarrow> bytes) \<Rightarrow> byte \<Rightarrow> bytes list \<Rightarrow> bytes \<Rightarrow> bool" where
  "splits hmac threshold polys secret \<longleftrightarrow>
     0 < unat threshold \<and> unat threshold \<le> 16 \<and> length polys \<le> 32 \<and> (\<forall>p\<in>set polys. length p \<le> unat threshold) \<and>
     map (\<lambda>p. gf_poly p 255) polys = secret \<and>
     (threshold \<noteq> 1 \<longrightarrow>
        (let d = map (\<lambda>p. gf_poly p 254) polys in take 4 (hmac (drop 4 d) secret) = take 4 d))"

lemma gf_poly_constant: "length p \<le> 1 \<Longrightarrow> gf_poly p a = gf_poly p b"
  by (cases p) auto

lemma recover_secret_splits:
  assumes "splits hmac threshold polys secret" and "distinct (take (unat threshold) indices)"
    and "unat threshold \<le> length indices" and "length vals = unat threshold"
    and vals: "\<forall>m<unat threshold. take (length polys) (vals ! m) = map (\<lambda>p. gf_poly p (indices ! m)) polys"
  shows "recover_secret hmac threshold indices vals (length polys) = Some (Inr secret)"
proof -
  note sp = assms(1) [unfolded splits_def Let_def]
  show ?thesis
  proof (cases "threshold = 1")
    case True
    have "take (length polys) (vals ! 0) = map (\<lambda>p. gf_poly p (indices ! 0)) polys" using vals True by simp
    moreover from this have "length polys \<le> length (vals ! 0)"
      by (metis length_map length_take min.cobounded2 nle_le min_def)
    moreover have "map (\<lambda>p. gf_poly p (indices ! 0)) polys = secret"
      using sp True gf_poly_constant by auto
    ultimately show ?thesis
      using True assms(4) by (simp add: recover_secret_def jade_assert_def buf_get_def buf_read_def)
  next
    case False
    define idx where "idx = take (unat threshold) indices"
    have idx: "length idx \<le> 16" "distinct idx" "length idx = unat threshold"
      using sp assms(2,3) by (simp_all add: idx_def)
    have "map (take (length polys)) (take (unat threshold) vals) = map (\<lambda>a. map (\<lambda>p. gf_poly p a) polys) idx"
      using assms(3,4) vals by (intro nth_equalityI) (simp_all add: idx_def)
    then have "shamir_interpolate x idx (take (unat threshold) vals) (length polys) =
        Some (map (\<lambda>p. gf_poly p x) polys)" for x
      using shamir.interpolate_poly [OF idx(1) _ idx(2), of polys x] sp idx(3)
      by (subst shamir_interpolate_take) simp
    then show ?thesis
      using False sp by (auto simp: recover_secret_def jade_assert_def idx_def [symmetric] Let_def
          SECRET_INDEX_def DIGEST_INDEX_def)
  qed
qed

lemma recover_secret_total:
  assumes "threshold \<noteq> 0" and "vals \<noteq> []" and "\<forall>v\<in>set vals. len \<le> length v"
  shows "\<exists>r. recover_secret hmac threshold indices vals len = Some r \<and>
     (\<forall>secret. r = Inr secret \<longrightarrow> length secret = len) \<and> (\<forall>rc. r = Inl rc \<longrightarrow> rc = SLIP39_ERR_DIGEST)"
  using assms by (cases vals)
    (auto simp: recover_secret_def jade_assert_def buf_get_def buf_read_def Let_def
      split: option.split dest: length_shamir_interpolate)

section \<open>Decryption inverts encryption\<close>

text \<open>SLIP-39 encryption: the Feistel rounds in ascending order.\<close>

fun encrypt_rounds ::
  "(bytes \<Rightarrow> bytes \<Rightarrow> u32 \<Rightarrow> bytes) \<Rightarrow> bytes \<Rightarrow> bytes \<Rightarrow> u32 \<Rightarrow> nat \<Rightarrow> nat \<Rightarrow> bytes \<times> bytes \<Rightarrow> bytes \<times> bytes" where
  "encrypt_rounds pbkdf2 pass prefix cost half 0 (l, r) = (l, r)"
| "encrypt_rounds pbkdf2 pass prefix cost half (Suc i) (l, r) =
     (case encrypt_rounds pbkdf2 pass prefix cost half i (l, r) of
        (l, r) \<Rightarrow> (r, map2 (XOR) l (take half (pbkdf2 (of_nat i # pass) (prefix @ r) cost))))"

definition encrypt_ms :: "(bytes \<Rightarrow> bytes \<Rightarrow> u32 \<Rightarrow> bytes) \<Rightarrow> bytes \<Rightarrow> bytes option \<Rightarrow> byte \<Rightarrow> u16 \<Rightarrow> bool \<Rightarrow> bytes" where
  "encrypt_ms pbkdf2 ms passphrase exponent identifier extendable =
     (let half = length ms div 2;
          pass = (case passphrase of None \<Rightarrow> [] | Some p \<Rightarrow> p);
          (l, r) = encrypt_rounds pbkdf2 pass (salt_prefix identifier extendable) (round_cost exponent) half 4
            (take half ms, drop half ms)
      in r @ l)"

lemma map2_xor_cancel:
  "length fs = length ls \<Longrightarrow> map2 (XOR) fs (map2 (XOR) ls fs) = (ls :: 'a::len word list)"
proof (induction fs ls rule: list_induct2)
  case (Cons f fs l ls)
  then show ?case by (simp add: ac_simps)
qed simp

lemma encrypt_rounds_length:
  assumes "\<And>p s c. length (pbkdf2 p s c) = 32" and "half \<le> 32"
    and "length l = half" "length r = half"
  shows "length (fst (encrypt_rounds pbkdf2 pass prefix cost half n (l, r))) = half \<and>
    length (snd (encrypt_rounds pbkdf2 pass prefix cost half n (l, r))) = half"
  using assms by (induction n) (auto split: prod.split)

lemma feistel_inverts:
  assumes "\<And>p s c. length (pbkdf2 p s c) = 32" and "half \<le> 32"
    and "length l = half" "length r = half"
  shows "feistel_rounds pbkdf2 pass prefix cost half n
      (prod.swap (encrypt_rounds pbkdf2 pass prefix cost half n (l, r))) = (r, l)"
proof (induction n)
  case (Suc n)
  obtain a b where ab: "encrypt_rounds pbkdf2 pass prefix cost half n (l, r) = (a, b)" by fastforce
  define f where "f = take half (pbkdf2 (of_nat n # pass) (prefix @ b) cost)"
  have "length a = half" using encrypt_rounds_length [where ?pbkdf2.0 = pbkdf2 and pass = pass and prefix = prefix and cost = cost and n = n, OF assms] ab by simp
  then have "map2 (XOR) f (map2 (XOR) a f) = a"
    using assms(1,2) by (intro map2_xor_cancel) (simp add: f_def)
  then show ?case using Suc by (simp add: ab f_def [symmetric] Let_def)
qed simp

lemma length_encrypt_ms:
  assumes "\<And>p s c. length (pbkdf2 p s c) = 32" and "length ms mod 2 = 0" and "length ms \<le> 32"
  shows "length (encrypt_ms pbkdf2 ms passphrase e i x) = length ms"
proof -
  have "length (fst (encrypt_rounds pbkdf2 pass prefix cost (length ms div 2) 4
        (take (length ms div 2) ms, drop (length ms div 2) ms))) = length ms div 2 \<and>
    length (snd (encrypt_rounds pbkdf2 pass prefix cost (length ms div 2) 4
        (take (length ms div 2) ms, drop (length ms div 2) ms))) = length ms div 2" for pass prefix cost
    by (rule encrypt_rounds_length) (use assms in auto)
  moreover have "length ms div 2 + length ms div 2 = length ms" using assms(2) by auto
  ultimately show ?thesis by (simp add: encrypt_ms_def Let_def case_prod_unfold)
qed

lemma decrypt_encrypt:
  assumes "\<And>p s c. length (pbkdf2 p s c) = 32" and "length ms mod 2 = 0" and "0 < length ms" and "length ms \<le> 32"
    and "length (case passphrase of None \<Rightarrow> [] | Some p \<Rightarrow> p) \<le> 100"
  shows "decrypt_ems pbkdf2 (encrypt_ms pbkdf2 ms passphrase e i x) passphrase e i x = Some ms"
proof -
  define half where "half = length ms div 2"
  define pass where "pass = (case passphrase of None \<Rightarrow> [] | Some p \<Rightarrow> p)"
  have half: "length (take half ms) = half" "length (drop half ms) = half" "half \<le> 32" "half + half = length ms"
    using assms(2-4) by (auto simp: half_def)
  obtain a b where ab: "encrypt_rounds pbkdf2 pass (salt_prefix i x) (round_cost e) half 4 (take half ms, drop half ms) = (a, b)"
    by fastforce
  have len: "length a = half" "length b = half"
    using encrypt_rounds_length [where ?pbkdf2.0 = pbkdf2 and pass = pass and prefix = "salt_prefix i x" and
        cost = "round_cost e" and n = 4, OF assms(1) half(3,1,2)] ab by simp_all
  have "encrypt_ms pbkdf2 ms passphrase e i x = b @ a"
    by (simp add: encrypt_ms_def half_def [symmetric] pass_def [symmetric] ab Let_def)
  moreover have "feistel_rounds pbkdf2 pass (salt_prefix i x) (round_cost e) half 4 (b, a) = (drop half ms, take half ms)"
    using feistel_inverts [where ?pbkdf2.0 = pbkdf2 and pass = pass and prefix = "salt_prefix i x" and
        cost = "round_cost e" and n = 4, OF assms(1) half(3,1,2)] ab by simp
  moreover have "length (b @ a) div 2 = half" "length (b @ a) = length ms" using len half(4) by auto
  ultimately show ?thesis
    using assms(2-5) len
    by (simp add: decrypt_ems_def jade_assert_def slip39_consts pass_def [symmetric] half_def [symmetric] Let_def)
qed

text \<open>Decryption of the encrypted master secret is the inverse of SLIP-39 encryption under the
  same passphrase, iteration exponent, identifier and extendable flag, whatever PBKDF2 computes,
  and its assertions hold.\<close>

lemma decrypt_ems_inverts:
  assumes "\<And>p s c. length (pbkdf2 p s c) = 32" and "length ms = 16 \<or> length ms = 32"
    and "length (case passphrase of None \<Rightarrow> [] | Some p \<Rightarrow> p) \<le> PASSPHRASE_MAX_LEN"
  shows "decrypt_ems pbkdf2 (encrypt_ms pbkdf2 ms passphrase e i x) passphrase e i x = Some ms"
  using assms by (intro decrypt_encrypt) (auto simp: slip39_consts)

section \<open>Combining the groups\<close>

lemma filter_subset_eq:
  assumes "\<And>x. P x \<Longrightarrow> Q x" and "length (filter Q xs) \<le> length (filter P xs)" and "x \<in> set xs" and "Q x"
  shows "P x"
proof (rule ccontr)
  assume "\<not> P x"
  have "filter P xs = filter P (filter Q xs)" using assms(1) by (induction xs) auto
  moreover have "length (filter P (filter Q xs)) < length (filter Q xs)"
    using assms(3,4) \<open>\<not> P x\<close> by (intro length_filter_less [of x]) auto
  ultimately show False using assms(2) by simp
qed

lemma complete_count:
  assumes "ctx_ok ctx" and "slip39_is_complete ctx"
  shows "length (filter gr_started (cx_groups ctx)) = unat (cx_group_threshold ctx)"
    and "length (filter gr_complete (cx_groups ctx)) = unat (cx_group_threshold ctx)"
proof -
  have "filter gr_complete gs = filter gr_complete (filter gr_started gs)" for gs
    by (induction gs) (auto simp: gr_complete_def gr_started_def)
  then have "length (filter gr_complete (cx_groups ctx)) \<le> length (filter gr_started (cx_groups ctx))"
    by (metis length_filter_le)
  then show "length (filter gr_started (cx_groups ctx)) = unat (cx_group_threshold ctx)"
    "length (filter gr_complete (cx_groups ctx)) = unat (cx_group_threshold ctx)"
    using assms by (simp_all add: ctx_ok_def slip39_is_complete_def)
qed

lemma complete_groups:
  assumes "ctx_ok ctx" and "slip39_is_complete ctx" and "g \<in> set (cx_groups ctx)" and "gr_count g \<noteq> 0"
  shows "gr_count g = gr_threshold g"
proof -
  have sub: "gr_complete g \<Longrightarrow> gr_started g" for g by (auto simp: gr_complete_def gr_started_def)
  have "length (filter gr_started (cx_groups ctx)) \<le> length (filter gr_complete (cx_groups ctx))"
    using complete_count [OF assms(1,2)] by simp
  moreover have "gr_started g" using assms(4) by (simp add: gr_started_def)
  ultimately have "gr_complete g"
    using filter_subset_eq [where P = gr_complete and Q = gr_started and xs = "cx_groups ctx"] sub assms(3) by blast
  then show ?thesis by (simp add: gr_complete_def)
qed

text \<open>The groups that hold shares, with their numbers.\<close>

fun started_groups :: "slip39_group list \<Rightarrow> byte \<Rightarrow> (byte \<times> slip39_group) list" where
  "started_groups [] g = []"
| "started_groups (x # xs) g = (if gr_count x = 0 then [] else [(g, x)]) @ started_groups xs (g + 1)"

lemma length_started_groups: "length (started_groups gs g) = length (filter gr_started gs)"
  by (induction gs arbitrary: g) (simp_all add: gr_started_def)

lemma started_groups_nth:
  "(k, x) \<in> set (started_groups gs g) \<Longrightarrow> \<exists>i<length gs. k = g + of_nat i \<and> gs ! i = x \<and> gr_count x \<noteq> 0"
proof (induction gs arbitrary: g)
  case (Cons y gs)
  show ?case
  proof (cases "(k, x) \<in> set (started_groups gs (g + 1))")
    case True
    then obtain i where "i < length gs" "k = g + 1 + of_nat i" "gs ! i = x" "gr_count x \<noteq> 0"
      using Cons.IH by blast
    then show ?thesis by (intro exI [of _ "Suc i"]) (simp add: add.assoc)
  next
    case False
    then show ?thesis using Cons.prems by (auto split: if_splits)
  qed
qed simp

lemma started_groups_distinct: "length gs + unat g \<le> 256 \<Longrightarrow> distinct (map fst (started_groups gs g))"
proof (induction gs arbitrary: g)
  case (Cons x gs)
  have "g \<notin> fst ` set (started_groups gs (g + 1))"
  proof
    assume "g \<in> fst ` set (started_groups gs (g + 1))"
    then obtain y where "(g, y) \<in> set (started_groups gs (g + 1))" by auto
    then obtain i where i: "i < length gs" "g = g + 1 + of_nat i" using started_groups_nth by blast
    then have "of_nat (Suc i) = (0 :: byte)" by (simp add: add.assoc)
    then have "256 dvd Suc i" by (simp add: word_of_nat_eq_0_iff del: of_nat_Suc)
    then show False using i Cons.prems by (auto dest: dvd_imp_le)
  qed
  moreover have "distinct (map fst (started_groups gs (g + 1)))"
  proof (cases "gs = []")
    case False
    then have "unat g < 255" using Cons.prems by (cases gs) auto
    then show ?thesis using Cons.IH [of "g + 1"] Cons.prems unat_plus_one [of g] by simp
  qed simp
  ultimately show ?case by simp
qed simp

lemma combine_groups_started:
  assumes "\<And>k x. (k, x) \<in> set (started_groups gs g) \<Longrightarrow> gr_count x = gr_threshold x \<and>
      recover_secret hmac (gr_threshold x) (gr_index x) (take (unat (gr_count x)) (gr_value x)) len = Some (Inr (secret k))"
  shows "combine_groups hmac len gs g acc = Some (Inr (acc @ map (\<lambda>(k, x). (k, secret k)) (started_groups gs g)))"
  using assms
proof (induction gs arbitrary: g acc)
  case (Cons x gs)
  have IH: "combine_groups hmac len gs (g + 1) acc' =
      Some (Inr (acc' @ map (\<lambda>(k, x). (k, secret k)) (started_groups gs (g + 1))))" for acc'
    by (rule Cons.IH) (rule Cons.prems, simp)
  show ?case
  proof (cases "gr_count x = 0")
    case False
    then have "(g, x) \<in> set (started_groups (x # gs) g)" by simp
    note x = Cons.prems [OF this]
    have c: "gr_count x = gr_threshold x" and r: "recover_secret hmac (gr_threshold x) (gr_index x)
        (take (unat (gr_count x)) (gr_value x)) len = Some (Inr (secret g))"
      using x by blast+
    show ?thesis using False IH r [unfolded c] by (simp add: jade_assert_def c)
  qed (simp add: IH)
qed simp

text \<open>A context whose shares come from a backup of \<open>ems\<close>: group secrets on the polynomials
  \<open>gpolys\<close>, the shares of group \<open>k\<close> on the polynomials \<open>mpolys k\<close> that split its secret.\<close>

definition holds_backup ::
  "(bytes \<Rightarrow> bytes \<Rightarrow> bytes) \<Rightarrow> slip39_ctx \<Rightarrow> bytes list \<Rightarrow> (nat \<Rightarrow> bytes list) \<Rightarrow> bytes \<Rightarrow> bool" where
  "holds_backup hmac ctx gpolys mpolys ems \<longleftrightarrow>
     splits hmac (cx_group_threshold ctx) gpolys ems \<and> length gpolys = unat (cx_value_len ctx) \<and>
     (\<forall>k<16. gr_started (cx_groups ctx ! k) \<longrightarrow>
        splits hmac (gr_threshold (cx_groups ctx ! k)) (mpolys k) (map (\<lambda>p. gf_poly p (of_nat k)) gpolys) \<and>
        (\<forall>(i, v)\<in>set (group_shares (unat (cx_value_len ctx)) (cx_groups ctx ! k)).
           v = map (\<lambda>p. gf_poly p i) (mpolys k)))"

lemma group_secret_recovered:
  assumes "group_ok x" and "gr_count x = gr_threshold x" and "splits hmac (gr_threshold x) polys secret"
    and "\<forall>(i, v)\<in>set (group_shares (length polys) x). v = map (\<lambda>p. gf_poly p i) polys"
  shows "recover_secret hmac (gr_threshold x) (gr_index x) (take (unat (gr_count x)) (gr_value x)) (length polys)
     = Some (Inr secret)"
proof (rule recover_secret_splits [OF assms(3)])
  let ?n = "unat (gr_threshold x)"
  have len: "length (gr_index x) = 16" "length (gr_value x) = 16" "?n \<le> 16"
    using assms(1) by (auto simp: group_ok_def)
  show "\<forall>m<?n. take (length polys) (take (unat (gr_count x)) (gr_value x) ! m) = map (\<lambda>p. gf_poly p (gr_index x ! m)) polys"
  proof (intro allI impI)
    fix m assume m: "m < ?n"
    then have "group_shares (length polys) x ! m = (gr_index x ! m, take (length polys) (gr_value x ! m))"
      and "m < length (group_shares (length polys) x)"
      using len assms(2) by (simp_all add: group_shares_def)
    then have "(gr_index x ! m, take (length polys) (gr_value x ! m)) \<in> set (group_shares (length polys) x)"
      by (metis nth_mem)
    then show "take (length polys) (take (unat (gr_count x)) (gr_value x) ! m) = map (\<lambda>p. gf_poly p (gr_index x ! m)) polys"
      using assms(2,4) m by auto
  qed
qed (use assms(1,2) in \<open>auto simp: group_ok_def\<close>)

lemma combine_recovers_ems:
  assumes "ctx_ok ctx" and "slip39_is_complete ctx" and "holds_backup hmac ctx gpolys mpolys ems"
  defines "len \<equiv> unat (cx_value_len ctx)"
  shows "\<exists>groups. combine_groups hmac len (cx_groups ctx) 0 [] = Some (Inr groups) \<and>
     length groups = unat (cx_group_threshold ctx) \<and>
     recover_secret hmac (cx_group_threshold ctx) (map fst groups) (map snd groups) len = Some (Inr ems)"
proof -
  define secret where "secret = (\<lambda>k :: byte. map (\<lambda>p. gf_poly p k) gpolys)"
  define sg where "sg = started_groups (cx_groups ctx) 0"
  define groups where "groups = map (\<lambda>(k, x). (k, secret k)) sg"
  note h = assms(3) [unfolded holds_backup_def, folded len_def]
  have each: "gr_count x = gr_threshold x \<and>
      recover_secret hmac (gr_threshold x) (gr_index x) (take (unat (gr_count x)) (gr_value x)) len = Some (Inr (secret k))"
    if kx: "(k, x) \<in> set sg" for k x
  proof -
    obtain i where i: "i < 16" "k = of_nat i" "cx_groups ctx ! i = x" "gr_count x \<noteq> 0"
      using started_groups_nth [of k x "cx_groups ctx" 0] kx assms(1) by (auto simp: sg_def ctx_ok_def)
    have x: "x \<in> set (cx_groups ctx)" using i assms(1) by (auto simp: ctx_ok_def)
    have c: "gr_count x = gr_threshold x" by (rule complete_groups [OF assms(1,2) x i(4)])
    have "splits hmac (gr_threshold x) (mpolys i) (secret k)"
      and v: "\<forall>(j, v)\<in>set (group_shares len x). v = map (\<lambda>p. gf_poly p j) (mpolys i)"
      using h i by (auto simp: gr_started_def secret_def)
    moreover from this(1) have "length (mpolys i) = len"
      using h by (metis length_map secret_def splits_def)
    ultimately show ?thesis
      using c group_secret_recovered [OF _ c, of hmac "mpolys i" "secret k"] assms(1) x by (auto simp: ctx_ok_def)
  qed
  have comb: "combine_groups hmac len (cx_groups ctx) 0 [] = Some (Inr groups)"
    using combine_groups_started [where acc = "[]", OF each [unfolded sg_def]] by (simp only: groups_def sg_def append_Nil)
  have num: "length groups = unat (cx_group_threshold ctx)"
    using complete_count(1) [OF assms(1,2)] by (simp add: groups_def sg_def length_started_groups)
  have fst: "map fst groups = map fst sg" and snd: "map snd groups = map secret (map fst groups)"
    by (auto simp: groups_def)
  have "distinct (map fst groups)"
    unfolding fst sg_def by (rule started_groups_distinct) (use assms(1) in \<open>simp add: ctx_ok_def\<close>)
  moreover have "take (length gpolys) (map snd groups ! m) = map (\<lambda>p. gf_poly p (map fst groups ! m)) gpolys"
    if "m < unat (cx_group_threshold ctx)" for m
    unfolding snd using that num by (simp add: secret_def)
  ultimately have "recover_secret hmac (cx_group_threshold ctx) (map fst groups) (map snd groups) len = Some (Inr ems)"
    using recover_secret_splits [of hmac "cx_group_threshold ctx" gpolys ems "map fst groups" "map snd groups"] h num
    by simp
  then show ?thesis using comb num by blast
qed

text \<open>C2. Recovery is correct end to end: in a context that is complete, whose shares lie on the
  polynomials of a backup of the encrypted master secret, with their digests, combining under the
  passphrase of the backup returns the master secret and no assertion fails.\<close>

theorem slip39_combine_correct:
  assumes "ctx_ok ctx" and "slip39_is_complete ctx"
    and "\<And>p s c. length (pbkdf2 p s c) = 32" and "length ms = unat (cx_value_len ctx)"
    and "length (case passphrase of None \<Rightarrow> [] | Some p \<Rightarrow> p) \<le> PASSPHRASE_MAX_LEN"
    and "holds_backup hmac ctx gpolys mpolys (encrypt_ms pbkdf2 ms passphrase (cx_iteration_exponent ctx)
           (cx_identifier ctx) (cx_extendable ctx))"
  shows "slip39_combine hmac pbkdf2 ctx passphrase (length ms) = Some (Inr ms)"
proof -
  have len: "length ms = 16 \<or> length ms = 32"
    using assms(1,2,4) by (auto simp: ctx_ok_def slip39_is_complete_def)
  have "decrypt_ems pbkdf2 (encrypt_ms pbkdf2 ms passphrase (cx_iteration_exponent ctx) (cx_identifier ctx)
      (cx_extendable ctx)) passphrase (cx_iteration_exponent ctx) (cx_identifier ctx) (cx_extendable ctx) = Some ms"
    using assms(3,5) len by (intro decrypt_encrypt) (auto simp: slip39_consts)
  then show ?thesis
    using combine_recovers_ems [OF assms(1,2,6)] assms(2,4)
    by (auto simp: slip39_combine_def jade_assert_def)
qed

text \<open>The context after the one share of a 1-of-1 backup.\<close>

definition sample_ctx :: slip39_ctx where
  "sample_ctx = ctx_take (ctx_adopt slip39_init sample_share) sample_share"

lemma sample_ctx_ok: "ctx_ok sample_ctx"
  using add_share_keeps [OF slip39_init_ok sample_share_ok]
    first_share_accepted [OF slip39_init_ok sample_share_ok] by (simp add: slip39_init_def sample_ctx_def)

lemma sample_ctx_fields:
  "slip39_is_complete sample_ctx" "cx_value_len sample_ctx = 16" "cx_group_threshold sample_ctx = 1"
  "cx_iteration_exponent sample_ctx = 0" "cx_identifier sample_ctx = 7945" "\<not> cx_extendable sample_ctx"
  "gr_threshold (cx_groups sample_ctx ! 0) = 1"
  "group_shares 16 (cx_groups sample_ctx ! 0) = [(0, take 16 (sh_value sample_share))]"
  by code_simp+

lemma sample_ctx_other: "0 < k \<Longrightarrow> k < 16 \<Longrightarrow> \<not> gr_started (cx_groups sample_ctx ! k)"
  by (simp add: sample_ctx_def slip39_init_def ctx_adopt_def sample_share_def gr_started_def group_zero_def)

lemma sample_holds:
  "holds_backup hmac sample_ctx (map (\<lambda>b. [b]) (take 16 (sh_value sample_share)))
     (\<lambda>k. map (\<lambda>b. [b]) (take 16 (sh_value sample_share))) (take 16 (sh_value sample_share))"
proof -
  have len: "length (take 16 (sh_value sample_share)) = 16" by (simp add: sample_share_def)
  have const: "map (\<lambda>p. gf_poly p a) (map (\<lambda>b. [b]) bs) = bs" for a bs by (simp add: comp_def)
  have splits: "splits hmac 1 (map (\<lambda>b. [b]) (take 16 (sh_value sample_share))) (take 16 (sh_value sample_share))"
    using len by (simp add: splits_def comp_def)
  have "k = 0" if "k < 16" "gr_started (cx_groups sample_ctx ! k)" for k
    using that sample_ctx_other by blast
  note k0 = this
  show ?thesis
    unfolding holds_backup_def sample_ctx_fields(2,3) const
  proof (intro conjI allI impI)
    show "length (map (\<lambda>b. [b]) (take 16 (sh_value sample_share))) = unat (16 :: byte)" using len by simp
    fix k :: nat assume "k < 16" "gr_started (cx_groups sample_ctx ! k)"
    then have k: "k = 0" by (rule k0)
    show "splits hmac (gr_threshold (cx_groups sample_ctx ! k)) (map (\<lambda>b. [b]) (take 16 (sh_value sample_share)))
        (take 16 (sh_value sample_share))" unfolding k sample_ctx_fields(7) by (rule splits)
    show "\<forall>(i, v)\<in>set (group_shares (unat (16 :: byte)) (cx_groups sample_ctx ! k)). v = take 16 (sh_value sample_share)"
      using sample_ctx_fields(8) by (simp add: k)
  qed (rule splits)
qed

lemma sample_encrypt:
  "encrypt_ms (\<lambda>p s c. replicate 32 0) (drop 8 (take 16 (sh_value sample_share)) @ take 8 (sh_value sample_share)) None 0 7945 False
     = take 16 (sh_value sample_share)"
  by code_simp

theorem slip39_combine_correct_witness:
  "slip39_combine (\<lambda>k m. k) (\<lambda>p s c. replicate 32 0) sample_ctx None 16
     = Some (Inr (drop 8 (take 16 (sh_value sample_share)) @ take 8 (sh_value sample_share)))"
proof -
  let ?ms = "drop 8 (take 16 (sh_value sample_share)) @ take 8 (sh_value sample_share)"
  have "length ?ms = 16" by (simp add: sample_share_def)
  then show ?thesis
    using slip39_combine_correct [OF sample_ctx_ok sample_ctx_fields(1), of "\<lambda>p s c. replicate 32 0" ?ms None "\<lambda>k m. k"
        "map (\<lambda>b. [b]) (take 16 (sh_value sample_share))" "\<lambda>k. map (\<lambda>b. [b]) (take 16 (sh_value sample_share))"]
      sample_holds [of "\<lambda>k m. k"] sample_encrypt sample_ctx_fields by (simp add: slip39_consts)
qed

lemma combine_groups_total:
  assumes "\<And>x. x \<in> set gs \<Longrightarrow> group_ok x \<and> (gr_count x \<noteq> 0 \<longrightarrow> gr_count x = gr_threshold x)" and "len \<le> 32"
    and "\<forall>(k, v)\<in>set acc. length v = len"
  shows "\<exists>r. combine_groups hmac len gs g acc = Some r \<and> (\<forall>groups. r = Inr groups \<longrightarrow>
     length groups = length acc + length (filter gr_started gs) \<and> (\<forall>(k, v)\<in>set groups. length v = len)) \<and>
     (\<forall>rc. r = Inl rc \<longrightarrow> rc = SLIP39_ERR_DIGEST)"
  using assms(1,3)
proof (induction gs arbitrary: g acc)
  case (Cons x gs)
  show ?case
  proof (cases "gr_count x = 0")
    case True
    then show ?thesis using Cons.IH [of acc "g + 1"] Cons.prems by (simp add: gr_started_def)
  next
    case False
    then have x: "group_ok x" "gr_count x = gr_threshold x" using Cons.prems(1) [of x] by auto
    have "unat (gr_count x) \<noteq> 0" using False by (simp add: unat_eq_zero)
    then have vs: "take (unat (gr_count x)) (gr_value x) \<noteq> []" "\<forall>v\<in>set (take (unat (gr_count x)) (gr_value x)). len \<le> length v"
      using x(1) assms(2) by (auto simp: group_ok_def dest!: in_set_takeD)
    have thr: "gr_threshold x \<noteq> 0" using False x(2) by simp
    obtain r where r: "recover_secret hmac (gr_threshold x) (gr_index x)
        (take (unat (gr_count x)) (gr_value x)) len = Some r" "\<forall>secret. r = Inr secret \<longrightarrow> length secret = len"
        "\<forall>rc. r = Inl rc \<longrightarrow> rc = SLIP39_ERR_DIGEST"
      using recover_secret_total [OF thr vs, of hmac "gr_index x"] by blast
    show ?thesis
    proof (cases r)
      case (Inl rc)
      then show ?thesis using False x(2) r(1,3) by (auto simp: jade_assert_def)
    next
      case (Inr secret)
      then have "\<forall>(k, v)\<in>set (acc @ [(g, secret)]). length v = len" using Cons.prems(2) r(2) by auto
      from Cons.IH [OF Cons.prems(1) this, of "g + 1"]
      show ?thesis using False Inr x(2) r(1) by (auto simp: jade_assert_def gr_started_def)
    qed
  qed
qed simp

text \<open>In every context that can be reached by adding parsed shares, combining returns: none of
  its assertions fails, for any HMAC and PBKDF2 and any passphrase of legal length, and it asks
  for more shares exactly while the context is incomplete.\<close>

lemma slip39_combine_total:
  assumes "collected ctx" and "length (case passphrase of None \<Rightarrow> [] | Some p \<Rightarrow> p) \<le> PASSPHRASE_MAX_LEN"
  shows "\<exists>r. slip39_combine hmac pbkdf2 ctx passphrase (unat (cx_value_len ctx)) = Some r \<and>
     (r = Inl SLIP39_ERR_INCOMPLETE \<longleftrightarrow> \<not> slip39_is_complete ctx)"
proof (cases "slip39_is_complete ctx")
  case True
  note ok = collected_ok [OF assms(1)]
  define len where "len = unat (cx_value_len ctx)"
  have len: "len = 16 \<or> len = 32" using ok True by (auto simp: ctx_ok_def slip39_is_complete_def len_def)
  have thr: "cx_group_threshold ctx \<noteq> 0" using ok True by (auto simp: ctx_ok_def slip39_is_complete_def)
  have "group_ok x \<and> (gr_count x \<noteq> 0 \<longrightarrow> gr_count x = gr_threshold x)" if "x \<in> set (cx_groups ctx)" for x
    using that ok complete_groups [OF ok True] by (auto simp: ctx_ok_def)
  then obtain r where r: "combine_groups hmac len (cx_groups ctx) 0 [] = Some r"
    "\<And>groups. r = Inr groups \<Longrightarrow> length groups = unat (cx_group_threshold ctx) \<and> (\<forall>(k, v)\<in>set groups. length v = len)"
    "\<And>rc. r = Inl rc \<Longrightarrow> rc = SLIP39_ERR_DIGEST"
    using combine_groups_total [of "cx_groups ctx" len "[]" hmac 0] len complete_count(1) [OF ok True] by auto
  show ?thesis
  proof (cases r)
    case (Inl rc)
    then show ?thesis using True r(1,3) by (auto simp: slip39_combine_def len_def jade_assert_def)
  next
    case (Inr groups)
    have g: "length groups = unat (cx_group_threshold ctx)" "\<forall>(k, v)\<in>set groups. length v = len"
      using r(2) [OF Inr] by auto
    have ne: "map snd groups \<noteq> []" using g(1) thr by (auto simp: unat_eq_zero)
    have le: "\<forall>v\<in>set (map snd groups). len \<le> length v" using g(2) by auto
    obtain r' where r': "recover_secret hmac (cx_group_threshold ctx) (map fst groups) (map snd groups) len = Some r'"
      "\<And>secret. r' = Inr secret \<Longrightarrow> length secret = len" "\<And>rc. r' = Inl rc \<Longrightarrow> rc = SLIP39_ERR_DIGEST"
      using recover_secret_total [OF thr ne le, of hmac "map fst groups"] by blast
    show ?thesis
    proof (cases r')
      case (Inl rc)
      then show ?thesis using True Inr g(1) r(1) r'(1,3) by (auto simp: slip39_combine_def len_def jade_assert_def)
    next
      case inr: (Inr ems)
      then have "length ems = len" by (rule r'(2))
      then obtain ms where "decrypt_ems pbkdf2 ems passphrase (cx_iteration_exponent ctx)
          (cx_identifier ctx) (cx_extendable ctx) = Some ms"
        using len assms(2) by (auto simp: decrypt_ems_def jade_assert_def slip39_consts Let_def case_prod_unfold)
      then show ?thesis
        using True Inr inr g(1) r(1) r'(1) by (auto simp: slip39_combine_def len_def jade_assert_def)
    qed
  qed
qed (simp add: slip39_combine_def)

end
