(* ===== verification/Bbqr.thy ===== *)
theory Bbqr
  imports Jade_Util
begin

text \<open>
  \<open>main/bbqr.c\<close>: the reader for BBQr, a payload split over many QR frames. The context holds one
  buffer into which every part is written at \<open>index * block_len\<close>, and a bitmap of the parts seen.

  \<open>malloc\<close> returns memory of unspecified content: the definitions take it as a parameter
  \<open>alloc\<close>. The hex decoder (libwally) and the inflater (miniz) are parameters too. The theorems:
  whatever frames arrive, no write leaves the buffer and the context stays consistent; the frames
  of one transfer, in any order and with any repetitions, complete it and give back exactly the
  payload that was split; a different part under a known index restarts the collection.
\<close>

section \<open>Data\<close>

definition BBQR_HEADER_LEN :: nat where "BBQR_HEADER_LEN = 8"
definition BBQR_MAX_PARTS :: nat where "BBQR_MAX_PARTS = 1295"
definition QR_MAX_PAYLOAD_LENGTH :: nat where "QR_MAX_PAYLOAD_LENGTH = 1024"
definition MAX_INPUT_MSG_SIZE :: nat where "MAX_INPUT_MSG_SIZE = 1024 * 401"
definition BBQR_MAX_FRAME_PAYLOAD :: nat where
  "BBQR_MAX_FRAME_PAYLOAD = QR_MAX_PAYLOAD_LENGTH - BBQR_HEADER_LEN"
definition BBQR_MAX_FRAME_DECODED :: nat where
  "BBQR_MAX_FRAME_DECODED = (BBQR_MAX_FRAME_PAYLOAD div 8) * 5"
definition BBQR_SEEN_LEN :: nat where "BBQR_SEEN_LEN = (BBQR_MAX_PARTS + 7) div 8"

lemmas bbqr_consts = BBQR_HEADER_LEN_def BBQR_MAX_PARTS_def QR_MAX_PAYLOAD_LENGTH_def
  MAX_INPUT_MSG_SIZE_def BBQR_MAX_FRAME_PAYLOAD_def BBQR_MAX_FRAME_DECODED_def BBQR_SEEN_LEN_def

datatype bbqr_collect_result = BBQR_REJECTED | BBQR_IN_PROGRESS | BBQR_COMPLETE

text \<open>\<open>data_len\<close> and \<open>inflated_len\<close> are the lengths of the buffers the pointers hold; a null
  pointer is \<open>None\<close>.\<close>

record bbqr_ctx =
  bq_data :: "bytes option"
  bq_inflated :: "bytes option"
  bq_scratch :: "bytes option"
  bq_block_len :: nat
  bq_final_len :: nat
  bq_num_parts :: nat
  bq_num_seen :: nat
  bq_encoding :: byte
  bq_file_type :: byte
  bq_seen :: bytes

definition bbqr_zero :: bbqr_ctx where
  "bbqr_zero = \<lparr> bq_data = None, bq_inflated = None, bq_scratch = None, bq_block_len = 0,
     bq_final_len = 0, bq_num_parts = 0, bq_num_seen = 0, bq_encoding = 0, bq_file_type = 0,
     bq_seen = replicate BBQR_SEEN_LEN 0 \<rparr>"

section \<open>Operations\<close>

definition part_seen :: "bbqr_ctx \<Rightarrow> nat \<Rightarrow> bool option" where
  "part_seen ctx index = do {
     b \<leftarrow> buf_get (bq_seen ctx) (index div 8);
     Some (b AND push_bit (index mod 8) 1 \<noteq> 0) }"

definition mark_part_seen :: "bbqr_ctx \<Rightarrow> nat \<Rightarrow> bbqr_ctx option" where
  "mark_part_seen ctx index = do {
     b \<leftarrow> buf_get (bq_seen ctx) (index div 8);
     seen \<leftarrow> buf_set (bq_seen ctx) (index div 8) (b OR push_bit (index mod 8) 1);
     Some (ctx \<lparr> bq_seen := seen \<rparr>) }"

definition collection_reset :: "bbqr_ctx \<Rightarrow> bbqr_ctx" where
  "collection_reset ctx = ctx \<lparr> bq_data := None, bq_inflated := None, bq_block_len := 0,
     bq_final_len := 0, bq_num_parts := 0, bq_num_seen := 0, bq_encoding := 0, bq_file_type := 0,
     bq_seen := replicate (length (bq_seen ctx)) 0 \<rparr>"

definition base36_digit :: "byte \<Rightarrow> nat option" where
  "base36_digit c =
     (if chr CHR ''0'' \<le> c \<and> c \<le> chr CHR ''9'' then Some (unat (c - chr CHR ''0''))
      else if chr CHR ''A'' \<le> c \<and> c \<le> chr CHR ''Z'' then Some (unat (c - chr CHR ''A'') + 10)
      else None)"

fun parse_base36_loop :: "bytes \<Rightarrow> nat \<Rightarrow> nat option" where
  "parse_base36_loop [] result = Some result"
| "parse_base36_loop (c # cs) result =
     (case base36_digit c of None \<Rightarrow> None | Some digit \<Rightarrow> parse_base36_loop cs (result * 36 + digit))"

definition parse_base36_pair :: "bytes \<Rightarrow> nat option" where
  "parse_base36_pair digits = parse_base36_loop (take 2 digits) 0"

definition is_known_file_type :: "byte \<Rightarrow> bool" where
  "is_known_file_type file_type \<longleftrightarrow>
     file_type = chr CHR ''P'' \<or> file_type = chr CHR ''T'' \<or> file_type = chr CHR ''J'' \<or>
     file_type = chr CHR ''C'' \<or> file_type = chr CHR ''U'' \<or> file_type = chr CHR ''X'' \<or>
     file_type = chr CHR ''B'' \<or> file_type = chr CHR ''R'' \<or> file_type = chr CHR ''S'' \<or>
     file_type = chr CHR ''E''"

definition is_bbqr_base32 :: "bytes \<Rightarrow> bool" where
  "is_bbqr_base32 payload \<longleftrightarrow>
     length payload mod 8 \<in> {0, 2, 4, 5, 7} \<and>
     list_all (\<lambda>c. chr CHR ''A'' \<le> c \<and> c \<le> chr CHR ''Z'' \<or> chr CHR ''2'' \<le> c \<and> c \<le> chr CHR ''7'') payload"

text \<open>The decoded bytes; the empty list is the return value 0.\<close>

definition decode_frame_payload ::
  "(bytes \<Rightarrow> nat \<Rightarrow> bytes option) \<Rightarrow> byte \<Rightarrow> bytes \<Rightarrow> bool \<Rightarrow> nat \<Rightarrow> bytes option" where
  "decode_frame_payload hex encoding payload is_final out_len = do {
     jade_assert (out_len \<noteq> 0);
     if payload = [] then Some []
     else if encoding = chr CHR ''H'' then
       (if length payload mod 2 \<noteq> 0 \<or> length payload div 2 > out_len then Some []
        else case hex payload out_len of
          None \<Rightarrow> Some []
        | Some bs \<Rightarrow> Some (if length bs \<noteq> length payload div 2 then [] else bs))
     else if \<not> is_final \<and> length payload mod 8 \<noteq> 0 then Some []
     else if \<not> is_bbqr_base32 payload then Some []
     else base32_to_bin payload out_len }"

text \<open>\<open>tinfl input capacity\<close>: whether the stream ended cleanly, the bytes consumed and the output,
  at most \<open>capacity\<close> bytes.\<close>

definition inflate_raw_deflate ::
  "(bytes \<Rightarrow> nat \<Rightarrow> bool \<times> nat \<times> bytes) \<Rightarrow> bbqr_ctx \<Rightarrow> nat \<Rightarrow> (bool \<times> bbqr_ctx) option" where
  "inflate_raw_deflate tinfl ctx compressed_len = do {
     data \<leftarrow> bq_data ctx;
     jade_assert (compressed_len \<noteq> 0);
     input \<leftarrow> buf_read data 0 compressed_len;
     let (done, consumed, out) = tinfl input MAX_INPUT_MSG_SIZE;
     if \<not> done \<or> consumed \<noteq> compressed_len \<or> out = [] then Some (False, ctx)
     else Some (True, ctx \<lparr> bq_inflated := Some out \<rparr>) }"

definition bbqr_is_header :: "bytes option \<Rightarrow> bool" where
  "bbqr_is_header data = (case data of None \<Rightarrow> False
     | Some d \<Rightarrow> length d \<ge> BBQR_HEADER_LEN \<and> d ! 0 = chr CHR ''B'' \<and> d ! 1 = chr CHR ''$'')"

text \<open>The second half of \<open>bbqr_collect\<close>: the frame is well formed and decoded to \<open>decoded\<close>.
  First the comparison with a part already held: \<open>None\<close> in the inner option means go on.\<close>

definition bbqr_check_repeat :: "bbqr_ctx \<Rightarrow> nat \<Rightarrow> bool \<Rightarrow> bytes \<Rightarrow> (bbqr_collect_result option \<times> bbqr_ctx) option" where
  "bbqr_check_repeat ctx index is_final decoded =
     (if bq_num_parts ctx = 0 then Some (None, ctx)
      else do {
        again \<leftarrow> part_seen ctx index;
        if \<not> again then Some (None, ctx)
        else do {
          let held_len = (if is_final then bq_final_len ctx else bq_block_len ctx);
          data \<leftarrow> bq_data ctx;
          same \<leftarrow> (if held_len = length decoded then do {
              held \<leftarrow> buf_read data (index * bq_block_len ctx) (length decoded);
              Some (held = decoded) }
            else Some False);
          if same
          then Some (Some (if bq_num_seen ctx = bq_num_parts ctx then BBQR_COMPLETE else BBQR_IN_PROGRESS), ctx)
          else Some (None, collection_reset ctx) } })"

definition bbqr_store ::
  "(nat \<Rightarrow> bytes) \<Rightarrow> bbqr_ctx \<Rightarrow> byte \<Rightarrow> byte \<Rightarrow> nat \<Rightarrow> nat \<Rightarrow> bool \<Rightarrow> bytes \<Rightarrow>
   (bbqr_collect_result \<times> bbqr_ctx) option" where
  "bbqr_store alloc ctx encoding file_type num_parts index is_final decoded =
     (let decoded_len = length decoded; total = decoded_len * num_parts in
      if bq_num_parts ctx = 0 \<and> is_final \<and> num_parts > 1 then Some (BBQR_REJECTED, ctx)
      else if bq_num_parts ctx = 0 \<and> total > MAX_INPUT_MSG_SIZE then Some (BBQR_REJECTED, ctx)
      else do {
        let ctx = (if bq_num_parts ctx = 0 then
          ctx \<lparr> bq_data := Some (alloc total), bq_block_len := decoded_len, bq_num_parts := num_parts,
            bq_encoding := encoding, bq_file_type := file_type \<rparr> else ctx);
        if (if is_final then decoded_len > bq_block_len ctx else decoded_len \<noteq> bq_block_len ctx)
        then Some (BBQR_REJECTED, ctx)
        else do {
          data \<leftarrow> bq_data ctx;
          data \<leftarrow> buf_write data (index * bq_block_len ctx) decoded;
          let ctx = ctx \<lparr> bq_data := Some data \<rparr>;
          let ctx = (if is_final then ctx \<lparr> bq_final_len := decoded_len \<rparr> else ctx);
          ctx \<leftarrow> mark_part_seen ctx index;
          let ctx = ctx \<lparr> bq_num_seen := bq_num_seen ctx + 1 \<rparr>;
          Some (if bq_num_seen ctx = bq_num_parts ctx then BBQR_COMPLETE else BBQR_IN_PROGRESS, ctx) } })"

definition bbqr_collect ::
  "(nat \<Rightarrow> bytes) \<Rightarrow> (bytes \<Rightarrow> nat \<Rightarrow> bytes option) \<Rightarrow> bbqr_ctx \<Rightarrow> bytes \<Rightarrow> (bbqr_collect_result \<times> bbqr_ctx) option" where
  "bbqr_collect alloc hex ctx data =
     (if \<not> bbqr_is_header (Some data) then Some (BBQR_REJECTED, ctx)
      else
        let encoding = data ! 2; file_type = data ! 3 in
        if (encoding \<noteq> chr CHR ''H'' \<and> encoding \<noteq> chr CHR ''2'' \<and> encoding \<noteq> chr CHR ''Z'')
           \<or> \<not> is_known_file_type file_type
        then Some (BBQR_REJECTED, ctx)
        else case (parse_base36_pair (drop 4 data), parse_base36_pair (drop 6 data)) of
          (Some num_parts, Some index) \<Rightarrow>
            if num_parts = 0 \<or> index \<ge> num_parts then Some (BBQR_REJECTED, ctx)
            else if bq_num_parts ctx \<noteq> 0 \<and>
               (bq_encoding ctx \<noteq> encoding \<or> bq_file_type ctx \<noteq> file_type \<or> bq_num_parts ctx \<noteq> num_parts)
            then Some (BBQR_REJECTED, ctx)
            else do {
              let scratch = (case bq_scratch ctx of None \<Rightarrow> alloc BBQR_MAX_FRAME_DECODED | Some s \<Rightarrow> s);
              let is_final = (index = num_parts - 1);
              decoded \<leftarrow> decode_frame_payload hex encoding (drop BBQR_HEADER_LEN data) is_final BBQR_MAX_FRAME_DECODED;
              scratch \<leftarrow> buf_write scratch 0 decoded;
              let ctx = ctx \<lparr> bq_scratch := Some scratch \<rparr>;
              if decoded = [] then Some (BBQR_REJECTED, ctx)
              else do {
                (repeat, ctx) \<leftarrow> bbqr_check_repeat ctx index is_final decoded;
                case repeat of
                  Some result \<Rightarrow> Some (result, ctx)
                | None \<Rightarrow> bbqr_store alloc ctx encoding file_type num_parts index is_final decoded } }
        | _ \<Rightarrow> Some (BBQR_REJECTED, ctx))"

text \<open>The payload and its file type, or \<open>None\<close> for the result false; the outer \<open>None\<close> is an abort.\<close>

definition bbqr_finalise ::
  "(bytes \<Rightarrow> nat \<Rightarrow> bool \<times> nat \<times> bytes) \<Rightarrow> bbqr_ctx \<Rightarrow> ((bytes \<times> byte) option \<times> bbqr_ctx) option" where
  "bbqr_finalise tinfl ctx =
     (case bq_data ctx of
        None \<Rightarrow> Some (None, ctx)
      | Some data \<Rightarrow>
        if bq_num_parts ctx = 0 \<or> bq_num_seen ctx \<noteq> bq_num_parts ctx then Some (None, ctx)
        else do {
          let total = bq_block_len ctx * (bq_num_parts ctx - 1) + bq_final_len ctx;
          jade_assert (total \<noteq> 0 \<and> total \<le> length data);
          if bq_encoding ctx = chr CHR ''Z'' then do {
            (ok, ctx) \<leftarrow> (case bq_inflated ctx of
               Some _ \<Rightarrow> Some (True, ctx)
             | None \<Rightarrow> inflate_raw_deflate tinfl ctx total);
            if \<not> ok then Some (None, ctx)
            else do {
              out \<leftarrow> bq_inflated ctx;
              Some (Some (out, bq_file_type ctx), ctx) } }
          else do {
            out \<leftarrow> buf_read data 0 total;
            Some (Some (out, bq_file_type ctx), ctx) } })"

definition bbqr_free :: "bbqr_ctx option \<Rightarrow> bbqr_ctx option" where
  "bbqr_free ctx = (case ctx of None \<Rightarrow> None
     | Some ctx \<Rightarrow> Some ((collection_reset ctx) \<lparr> bq_scratch := None \<rparr>))"

section \<open>The bitmap\<close>

definition seen_at :: "bbqr_ctx \<Rightarrow> nat \<Rightarrow> bool" where
  "seen_at ctx i \<longleftrightarrow> bit (bq_seen ctx ! (i div 8)) (i mod 8)"

lemma and_push_bit_one: "(b AND push_bit k 1 \<noteq> 0) = bit (b :: 'a::len word) k"
  by (simp add: push_bit_of_1 and_exp_eq_0_iff_not_bit)

lemma part_byte: "i < 1296 \<Longrightarrow> i div 8 < (162 :: nat)"
  by (rule less_mult_imp_div_less) simp

lemma part_seen_at: "length (bq_seen ctx) = 162 \<Longrightarrow> i < 1296 \<Longrightarrow> part_seen ctx i = Some (seen_at ctx i)"
  using part_byte [of i] unfolding part_seen_def seen_at_def and_push_bit_one by (simp add: buf_get_def)

lemma seen_at_zero: "bq_seen ctx = replicate 162 0 \<Longrightarrow> i < 1296 \<Longrightarrow> \<not> seen_at ctx i"
  using part_byte [of i] by (simp add: seen_at_def)

lemma mark_part_seen_at:
  assumes "length (bq_seen ctx) = 162" and "i < 1296"
  shows "\<exists>seen. mark_part_seen ctx i = Some (ctx \<lparr> bq_seen := seen \<rparr>) \<and> length seen = 162 \<and>
    (\<forall>j<1296. seen_at (ctx \<lparr> bq_seen := seen \<rparr>) j \<longleftrightarrow> j = i \<or> seen_at ctx j)"
proof -
  let ?s = "(bq_seen ctx)[i div 8 := bq_seen ctx ! (i div 8) OR push_bit (i mod 8) 1]"
  have d: "i div 8 < 162" using assms(2) by simp
  have "mark_part_seen ctx i = Some (ctx \<lparr> bq_seen := ?s \<rparr>)"
    using d assms(1) by (simp add: mark_part_seen_def buf_get_def buf_set_def)
  moreover have "bit (?s ! (j div 8)) (j mod 8) \<longleftrightarrow> j = i \<or> bit (bq_seen ctx ! (j div 8)) (j mod 8)"
    if "j < 1296" for j
  proof -
    have "j = i \<longleftrightarrow> j div 8 = i div 8 \<and> j mod 8 = i mod 8" by (metis div_mult_mod_eq)
    then show ?thesis
      using d assms(1) that by (auto simp: nth_list_update bit_or_iff push_bit_of_1 bit_exp_iff)
  qed
  ultimately show ?thesis using assms(1) by (intro exI [of _ ?s]) (simp add: seen_at_def)
qed

section \<open>Consistency of the context\<close>

definition bq_total :: "bbqr_ctx \<Rightarrow> nat" where
  "bq_total ctx = bq_block_len ctx * (bq_num_parts ctx - 1) + bq_final_len ctx"

text \<open>The part of the invariant on a collection in progress.\<close>

definition bbqr_running :: "(bytes \<Rightarrow> nat \<Rightarrow> bool \<times> nat \<times> bytes) \<Rightarrow> bbqr_ctx \<Rightarrow> bytes \<Rightarrow> bool" where
  "bbqr_running tinfl ctx d \<longleftrightarrow>
     0 < bq_num_parts ctx \<and> bq_num_parts ctx \<le> 1295 \<and> 0 < bq_block_len ctx \<and>
     length d = bq_block_len ctx * bq_num_parts ctx \<and> length d \<le> MAX_INPUT_MSG_SIZE \<and>
     (\<forall>i<1296. seen_at ctx i \<longrightarrow> i < bq_num_parts ctx) \<and>
     (seen_at ctx (bq_num_parts ctx - 1) \<longrightarrow> 0 < bq_final_len ctx \<and> bq_final_len ctx \<le> bq_block_len ctx) \<and>
     (\<forall>out. bq_inflated ctx = Some out \<longrightarrow> bq_num_seen ctx = bq_num_parts ctx \<and> out \<noteq> [] \<and>
        tinfl (take (bq_total ctx) d) MAX_INPUT_MSG_SIZE = (True, bq_total ctx, out))"

definition bbqr_ok :: "(bytes \<Rightarrow> nat \<Rightarrow> bool \<times> nat \<times> bytes) \<Rightarrow> bbqr_ctx \<Rightarrow> bool" where
  "bbqr_ok tinfl ctx \<longleftrightarrow>
     length (bq_seen ctx) = 162 \<and> (\<forall>s. bq_scratch ctx = Some s \<longrightarrow> length s = BBQR_MAX_FRAME_DECODED) \<and>
     bq_num_seen ctx = card {i. i < 1296 \<and> seen_at ctx i} \<and>
     (case bq_data ctx of
        None \<Rightarrow> bq_num_parts ctx = 0 \<and> bq_inflated ctx = None \<and> (\<forall>i<1296. \<not> seen_at ctx i)
      | Some d \<Rightarrow> bbqr_running tinfl ctx d)"

lemma seen_at_update [simp]:
  "seen_at (ctx \<lparr> bq_scratch := x \<rparr>) = seen_at ctx" "seen_at (ctx \<lparr> bq_data := y \<rparr>) = seen_at ctx"
  "seen_at (ctx \<lparr> bq_final_len := n \<rparr>) = seen_at ctx" "seen_at (ctx \<lparr> bq_num_seen := n \<rparr>) = seen_at ctx"
  "seen_at (ctx \<lparr> bq_block_len := n \<rparr>) = seen_at ctx" "seen_at (ctx \<lparr> bq_num_parts := n \<rparr>) = seen_at ctx"
  "seen_at (ctx \<lparr> bq_encoding := b \<rparr>) = seen_at ctx" "seen_at (ctx \<lparr> bq_file_type := b \<rparr>) = seen_at ctx"
  "seen_at (ctx \<lparr> bq_inflated := y \<rparr>) = seen_at ctx"
  by (simp_all add: fun_eq_iff seen_at_def)

lemma bbqr_running_scratch [simp]: "bbqr_running tinfl (ctx \<lparr> bq_scratch := x \<rparr>) d = bbqr_running tinfl ctx d"
  by (simp add: bbqr_running_def bq_total_def)

lemma bbqr_ok_num_parts: "bbqr_ok tinfl ctx \<Longrightarrow> bq_num_parts ctx = 0 \<longleftrightarrow> bq_data ctx = None"
  by (auto simp: bbqr_ok_def bbqr_running_def split: option.splits)

lemma bbqr_idle_ok:
  assumes seen: "bq_seen ctx = replicate 162 0" and "bq_data ctx = None" and "bq_num_parts ctx = 0"
    and "bq_inflated ctx = None" and "bq_num_seen ctx = 0"
    and "\<And>s. bq_scratch ctx = Some s \<Longrightarrow> length s = BBQR_MAX_FRAME_DECODED"
  shows "bbqr_ok tinfl ctx"
proof -
  have none: "\<not> seen_at ctx i" if "i < 1296" for i using seen that by (rule seen_at_zero)
  then have "{i. i < 1296 \<and> seen_at ctx i} = {}" by blast
  then have "bq_num_seen ctx = card {i. i < 1296 \<and> seen_at ctx i}" using assms(5) by (simp only: card.empty)
  moreover have "length (bq_seen ctx) = 162" unfolding seen by (rule length_replicate)
  ultimately show ?thesis unfolding bbqr_ok_def using none assms(2-4,6) by (simp only: option.case) blast
qed

lemma bbqr_zero_ok: "bbqr_ok tinfl bbqr_zero"
proof -
  have seen: "bq_seen bbqr_zero = replicate 162 0" by (simp add: bbqr_zero_def bbqr_consts)
  show ?thesis
    by (rule bbqr_idle_ok [OF seen]) (simp_all add: bbqr_zero_def)
qed

lemma collection_reset_ok: "bbqr_ok tinfl ctx \<Longrightarrow> bbqr_ok tinfl (collection_reset ctx)"
proof -
  assume ok: "bbqr_ok tinfl ctx"
  then have seen: "bq_seen (collection_reset ctx) = replicate 162 0" by (simp add: bbqr_ok_def collection_reset_def)
  show ?thesis
    by (rule bbqr_idle_ok [OF seen]) (use ok in \<open>auto simp: bbqr_ok_def collection_reset_def\<close>)
qed

lemma scratch_ok: "bbqr_ok tinfl ctx \<Longrightarrow> length s = BBQR_MAX_FRAME_DECODED \<Longrightarrow> bbqr_ok tinfl (ctx \<lparr> bq_scratch := Some s \<rparr>)"
  by (simp add: bbqr_ok_def split: option.splits)

lemma block_in_buffer: "i < n \<Longrightarrow> len \<le> L \<Longrightarrow> i * L + len \<le> L * (n :: nat)"
proof -
  assume "i < n" "len \<le> L"
  then have "i * L + len \<le> (i + 1) * L" by simp
  also have "\<dots> \<le> n * L" using \<open>i < n\<close> by (intro mult_le_mono1) simp
  finally show ?thesis by (simp add: mult.commute)
qed

lemma decode_frame_payload_length:
  assumes "0 < out_len"
  shows "\<exists>bs. decode_frame_payload hex encoding payload is_final out_len = Some bs \<and> length bs \<le> out_len"
  using assms base32_to_bin_loop_length [of "[]" out_len payload 0 0]
  by (auto simp: decode_frame_payload_def jade_assert_def base32_to_bin_def split: option.split)

lemma bbqr_check_repeat_ok:
  assumes "bbqr_ok tinfl ctx" and "i < bq_num_parts ctx \<or> bq_num_parts ctx = 0" and "bq_num_parts ctx \<noteq> 0 \<longrightarrow> is_final = (i = bq_num_parts ctx - 1)"
  shows "\<exists>r ctx'. bbqr_check_repeat ctx i is_final decoded = Some (r, ctx') \<and> bbqr_ok tinfl ctx' \<and>
    (r = None \<longrightarrow> bq_num_parts ctx' = 0 \<or> ctx' = ctx \<and> \<not> seen_at ctx i) \<and> (r \<noteq> None \<longrightarrow> ctx' = ctx)"
proof (cases "bq_num_parts ctx = 0")
  case False
  then obtain d where d: "bq_data ctx = Some d" using bbqr_ok_num_parts [OF assms(1)] by auto
  have run: "bbqr_running tinfl ctx d" and len: "length (bq_seen ctx) = 162" using assms(1) d by (auto simp: bbqr_ok_def)
  have i: "i < bq_num_parts ctx" "i < 1296" using False assms(2) run by (auto simp: bbqr_running_def)
  note seen = part_seen_at [OF len i(2)]
  define held where "held = (if is_final then bq_final_len ctx else bq_block_len ctx)"
  show ?thesis
  proof (cases "seen_at ctx i")
    case True
    then have "held \<le> bq_block_len ctx" using run assms(3) False by (auto simp: held_def bbqr_running_def)
    then have "i * bq_block_len ctx + held \<le> length d"
      using block_in_buffer [OF i(1)] run by (simp add: bbqr_running_def)
    then show ?thesis
      using False True seen d assms(1) collection_reset_ok [OF assms(1)]
      by (auto simp: bbqr_check_repeat_def held_def [symmetric] buf_read_def Let_def)
        (auto simp: collection_reset_def)
  next
    case unseen: False
    then show ?thesis using False seen assms(1) by (auto simp: bbqr_check_repeat_def)
  qed
qed (use assms in \<open>auto simp: bbqr_check_repeat_def\<close>)

text \<open>The context after the part is written.\<close>

definition ctx_open :: "(nat \<Rightarrow> bytes) \<Rightarrow> bbqr_ctx \<Rightarrow> byte \<Rightarrow> byte \<Rightarrow> nat \<Rightarrow> nat \<Rightarrow> bbqr_ctx" where
  "ctx_open alloc ctx encoding file_type n len = (if bq_num_parts ctx = 0 then
     ctx \<lparr> bq_data := Some (alloc (len * n)), bq_block_len := len, bq_num_parts := n,
       bq_encoding := encoding, bq_file_type := file_type \<rparr> else ctx)"

definition ctx_put :: "bbqr_ctx \<Rightarrow> bytes \<Rightarrow> nat \<Rightarrow> bytes \<Rightarrow> bytes \<Rightarrow> bbqr_ctx" where
  "ctx_put ctx d i decoded seen =
     (let ctx = ctx \<lparr> bq_data := Some (take (i * bq_block_len ctx) d @ decoded @
            drop (i * bq_block_len ctx + length decoded) d) \<rparr>;
          ctx = (if i = bq_num_parts ctx - 1 then ctx \<lparr> bq_final_len := length decoded \<rparr> else ctx);
          ctx = ctx \<lparr> bq_seen := seen \<rparr>
      in ctx \<lparr> bq_num_seen := bq_num_seen ctx + 1 \<rparr>)"

lemma ctx_put_simps [simp]:
  "bq_data (ctx_put ctx d i decoded seen) =
     Some (take (i * bq_block_len ctx) d @ decoded @ drop (i * bq_block_len ctx + length decoded) d)"
  "bq_final_len (ctx_put ctx d i decoded seen) =
     (if i = bq_num_parts ctx - 1 then length decoded else bq_final_len ctx)"
  "bq_seen (ctx_put ctx d i decoded seen) = seen"
  "bq_num_seen (ctx_put ctx d i decoded seen) = bq_num_seen ctx + 1"
  "bq_num_parts (ctx_put ctx d i decoded seen) = bq_num_parts ctx"
  "bq_block_len (ctx_put ctx d i decoded seen) = bq_block_len ctx"
  "bq_inflated (ctx_put ctx d i decoded seen) = bq_inflated ctx"
  "bq_scratch (ctx_put ctx d i decoded seen) = bq_scratch ctx"
  "bq_encoding (ctx_put ctx d i decoded seen) = bq_encoding ctx"
  "bq_file_type (ctx_put ctx d i decoded seen) = bq_file_type ctx"
  by (simp_all add: ctx_put_def Let_def)

lemma ctx_open_ok:
  assumes "bbqr_ok tinfl ctx" and "\<And>n. length (alloc n) = n" and "0 < n" "n \<le> 1295"
    and "bq_num_parts ctx = 0 \<longrightarrow> 0 < len \<and> len * n \<le> MAX_INPUT_MSG_SIZE"
  shows "bbqr_ok tinfl (ctx_open alloc ctx encoding file_type n len)"
proof (cases "bq_num_parts ctx = 0")
  case True
  then have d: "bq_data ctx = None" using bbqr_ok_num_parts [OF assms(1)] by simp
  with assms(1) have "bq_inflated ctx = None" "\<forall>i<1296. \<not> seen_at ctx i" by (auto simp: bbqr_ok_def)
  then show ?thesis
    using True assms d unfolding bbqr_ok_def ctx_open_def bbqr_running_def by simp
qed (use assms in \<open>simp add: ctx_open_def\<close>)

lemma ctx_put_ok:
  assumes ok: "bbqr_ok tinfl ctx" and d: "bq_data ctx = Some d" and i: "i < bq_num_parts ctx"
    and new: "\<not> seen_at ctx i" and ne: "decoded \<noteq> []" and fits: "length decoded \<le> bq_block_len ctx"
    and seen: "length seen = 162" "\<And>j. j < 1296 \<Longrightarrow> seen_at (ctx \<lparr> bq_seen := seen \<rparr>) j \<longleftrightarrow> j = i \<or> seen_at ctx j"
  shows "bbqr_ok tinfl (ctx_put ctx d i decoded seen)"
proof -
  let ?c = "ctx_put ctx d i decoded seen"
  have run: "bbqr_running tinfl ctx d" using ok d by (auto simp: bbqr_ok_def)
  have n: "bq_num_parts ctx \<le> 1295" using run by (simp add: bbqr_running_def)
  have at: "seen_at ?c j \<longleftrightarrow> j = i \<or> seen_at ctx j" if "j < 1296" for j
    using seen(2) [OF that] by (simp add: seen_at_def)
  have "{j. j < 1296 \<and> seen_at ?c j} = insert i {j. j < 1296 \<and> seen_at ctx j}"
    using at i n by auto
  moreover have "i \<notin> {j. j < 1296 \<and> seen_at ctx j}" using new by simp
  ultimately have card: "card {j. j < 1296 \<and> seen_at ?c j} = Suc (card {j. j < 1296 \<and> seen_at ctx j})" by simp
  have subset: "{j. j < 1296 \<and> seen_at ctx j} \<subset> {..<bq_num_parts ctx}"
    using run i new by (auto simp: bbqr_running_def)
  have "bq_num_seen ctx < bq_num_parts ctx"
    using psubset_card_mono [OF _ subset] ok by (simp add: bbqr_ok_def)
  then have fresh: "bq_inflated ctx = None" using run by (cases "bq_inflated ctx") (auto simp: bbqr_running_def)
  have len: "i * bq_block_len ctx + length decoded \<le> length d"
    using block_in_buffer [OF i fits] run by (simp add: bbqr_running_def)
  define d' where "d' = take (i * bq_block_len ctx) d @ decoded @ drop (i * bq_block_len ctx + length decoded) d"
  have "length d' = length d" using len by (simp add: d'_def)
  then have "bbqr_running tinfl ?c d'"
    unfolding bbqr_running_def
    using run i n ne fits fresh at by (auto simp: bbqr_running_def)
  then show ?thesis
    using ok seen(1) card unfolding bbqr_ok_def d'_def by simp
qed

section \<open>Safety\<close>

lemma mark_part_seen_cong:
  assumes "mark_part_seen c i = Some (c \<lparr> bq_seen := seen \<rparr>)" and "bq_seen c' = bq_seen c"
  shows "mark_part_seen c' i = Some (c' \<lparr> bq_seen := seen \<rparr>)"
proof -
  have "seen = (bq_seen c)[i div 8 := bq_seen c ! (i div 8) OR push_bit (i mod 8) 1]" "i div 8 < length (bq_seen c)"
    using arg_cong [of _ _ bq_seen] assms(1)
    by (auto simp: mark_part_seen_def buf_get_def buf_set_def split: if_splits dest!: arg_cong [where f = bq_seen])
  then show ?thesis by (simp add: mark_part_seen_def buf_get_def buf_set_def assms(2))
qed

lemma bbqr_store_open:
  assumes c: "c = ctx_open alloc ctx encoding file_type n (length decoded)"
    and "\<not> (bq_num_parts ctx = 0 \<and> (i = n - 1 \<and> n > 1 \<or> length decoded * n > MAX_INPUT_MSG_SIZE))"
    and "\<not> (if i = n - 1 then length decoded > bq_block_len c else length decoded \<noteq> bq_block_len c)"
    and np: "bq_num_parts c = n" and d: "bq_data c = Some d"
    and room: "i * bq_block_len c + length decoded \<le> length d"
    and seen: "mark_part_seen c i = Some (c \<lparr> bq_seen := seen \<rparr>)"
  shows "bbqr_store alloc ctx encoding file_type n i (i = n - 1) decoded =
        Some (if bq_num_seen (ctx_put c d i decoded seen) = n then BBQR_COMPLETE else BBQR_IN_PROGRESS,
              ctx_put c d i decoded seen)"
proof -
  obtain f where f: "(i = n - 1) = f" by blast
  have mark: "mark_part_seen (c \<lparr> bq_data := x, bq_final_len := y \<rparr>) i =
      Some (c \<lparr> bq_data := x, bq_final_len := y, bq_seen := seen \<rparr>)"
    "mark_part_seen (c \<lparr> bq_data := x \<rparr>) i = Some (c \<lparr> bq_data := x, bq_seen := seen \<rparr>)" for x y
    by (rule mark_part_seen_cong [OF seen]; simp)+
  have "bbqr_store alloc ctx encoding file_type n i f decoded =
    (if (if f then length decoded > bq_block_len c else length decoded \<noteq> bq_block_len c)
     then Some (BBQR_REJECTED, c)
     else do {
      data \<leftarrow> bq_data c;
      data \<leftarrow> buf_write data (i * bq_block_len c) decoded;
      let c = c \<lparr> bq_data := Some data \<rparr>;
      let c = (if f then c \<lparr> bq_final_len := length decoded \<rparr> else c);
      c \<leftarrow> mark_part_seen c i;
      let c = c \<lparr> bq_num_seen := bq_num_seen c + 1 \<rparr>;
      Some (if bq_num_seen c = bq_num_parts c then BBQR_COMPLETE else BBQR_IN_PROGRESS, c) })"
    using assms(2) unfolding f by (auto simp: bbqr_store_def Let_def c ctx_open_def)
  moreover have "ctx_put c d i decoded seen =
     (let c = c \<lparr> bq_data := Some (take (i * bq_block_len c) d @ decoded @
            drop (i * bq_block_len c + length decoded) d) \<rparr>;
          c = (if f then c \<lparr> bq_final_len := length decoded \<rparr> else c);
          c = c \<lparr> bq_seen := seen \<rparr>
      in c \<lparr> bq_num_seen := bq_num_seen c + 1 \<rparr>)"
    unfolding ctx_put_def Let_def using np f by simp
  ultimately show ?thesis
    using assms(3) d room np mark unfolding f by (cases f) (simp_all add: buf_write_def Let_def)
qed

lemma bbqr_store_ok:
  fixes encoding file_type :: byte
  assumes ok: "bbqr_ok tinfl ctx" and alloc: "\<And>n. length (alloc n) = n" and n: "0 < n" "n \<le> 1295" "i < n"
    and same: "bq_num_parts ctx \<noteq> 0 \<longrightarrow> bq_num_parts ctx = n \<and> \<not> seen_at ctx i" and ne: "decoded \<noteq> []"
  defines "c \<equiv> ctx_open alloc ctx encoding file_type n (length decoded)"
  shows "\<exists>res ctx'. bbqr_store alloc ctx encoding file_type n i (i = n - 1) decoded = Some (res, ctx') \<and>
     bbqr_ok tinfl ctx' \<and>
     (res = BBQR_REJECTED \<and> ctx' = ctx \<and>
        (bq_num_parts ctx = 0 \<and> (i = n - 1 \<and> n > 1 \<or> length decoded * n > MAX_INPUT_MSG_SIZE) \<or>
         bq_num_parts ctx \<noteq> 0 \<and> (if i = n - 1 then length decoded > bq_block_len ctx else length decoded \<noteq> bq_block_len ctx))
      \<or> (\<exists>d seen. bq_data c = Some d \<and> length d = bq_block_len c * n \<and> length decoded \<le> bq_block_len c \<and>
           (\<forall>j<1296. seen_at (c \<lparr> bq_seen := seen \<rparr>) j \<longleftrightarrow> j = i \<or> seen_at c j) \<and>
           ctx' = ctx_put c d i decoded seen \<and>
           res = (if bq_num_seen ctx' = n then BBQR_COMPLETE else BBQR_IN_PROGRESS)))"
proof -
  consider "bq_num_parts ctx = 0 \<and> (i = n - 1 \<and> n > 1 \<or> length decoded * n > MAX_INPUT_MSG_SIZE)"
    | "\<not> (bq_num_parts ctx = 0 \<and> (i = n - 1 \<and> n > 1 \<or> length decoded * n > MAX_INPUT_MSG_SIZE))"
      "if i = n - 1 then length decoded > bq_block_len c else length decoded \<noteq> bq_block_len c"
    | "\<not> (bq_num_parts ctx = 0 \<and> (i = n - 1 \<and> n > 1 \<or> length decoded * n > MAX_INPUT_MSG_SIZE))"
      "\<not> (if i = n - 1 then length decoded > bq_block_len c else length decoded \<noteq> bq_block_len c)" by blast
  then show ?thesis
  proof cases
    case 1
    then show ?thesis using ok by (auto simp: bbqr_store_def Let_def)
  next
    case 2
    then have np: "bq_num_parts ctx \<noteq> 0" and c: "c = ctx" by (auto simp: c_def ctx_open_def split: if_splits)
    then have "bbqr_store alloc ctx encoding file_type n i (i = n - 1) decoded = Some (BBQR_REJECTED, ctx)"
      using 2(2) c by (simp add: bbqr_store_def Let_def split: if_splits)
    then show ?thesis using ok np 2(2) c by auto
  next
    case 3
    have cok: "bbqr_ok tinfl c"
      unfolding c_def by (rule ctx_open_ok [OF ok alloc n(1,2)]) (use 3(1) ne in auto)
    have np: "bq_num_parts c = n" using same by (simp add: c_def ctx_open_def)
    then obtain d where d: "bq_data c = Some d" using bbqr_ok_num_parts [OF cok] n(1) by auto
    have run: "bbqr_running tinfl c d" and len: "length (bq_seen c) = 162" using cok d by (auto simp: bbqr_ok_def)
    have new: "\<not> seen_at c i"
    proof (cases "bq_num_parts ctx = 0")
      case True
      then have "\<forall>i<1296. \<not> seen_at ctx i" using ok bbqr_ok_num_parts [OF ok] by (simp add: bbqr_ok_def)
      then show ?thesis using True n by (simp add: c_def ctx_open_def)
    qed (use same in \<open>simp add: c_def ctx_open_def\<close>)
    have fits: "length decoded \<le> bq_block_len c" using 3(2) by (auto split: if_splits)
    have room: "i * bq_block_len c + length decoded \<le> length d"
      using block_in_buffer [OF n(3) fits] run np by (simp add: bbqr_running_def)
    have i: "i < 1296" using n by simp
    obtain seen where seen: "mark_part_seen c i = Some (c \<lparr> bq_seen := seen \<rparr>)" "length seen = 162"
      "\<And>j. j < 1296 \<Longrightarrow> seen_at (c \<lparr> bq_seen := seen \<rparr>) j \<longleftrightarrow> j = i \<or> seen_at c j"
      using mark_part_seen_at [OF len i] by blast
    have "bbqr_ok tinfl (ctx_put c d i decoded seen)"
      by (rule ctx_put_ok [OF cok d _ new ne fits seen(2,3)]) (use np n in simp_all)
    moreover have "bbqr_store alloc ctx encoding file_type n i (i = n - 1) decoded =
        Some (if bq_num_seen (ctx_put c d i decoded seen) = n then BBQR_COMPLETE else BBQR_IN_PROGRESS,
              ctx_put c d i decoded seen)"
      by (rule bbqr_store_open [OF c_def [THEN meta_eq_to_obj_eq] 3 np d room seen(1)])
    moreover have "length d = bq_block_len c * n" using run np by (simp add: bbqr_running_def)
    ultimately show ?thesis using d fits seen(3) by blast
  qed
qed

lemma base36_digit_bound: "base36_digit c = Some v \<Longrightarrow> v < 36"
proof -
  assume a: "base36_digit c = Some v"
  have sub: "unat (c - b) \<le> unat e - unat b" if "b \<le> c" "c \<le> e" for b e :: byte
    using that by (simp add: unat_sub word_le_nat_alt)
  have chars: "unat (chr CHR ''9'') - unat (chr CHR ''0'') = 9" "unat (chr CHR ''Z'') - unat (chr CHR ''A'') = 25"
    by (simp_all add: chr_def)
  show ?thesis
    using a sub [of "chr CHR ''0''" "chr CHR ''9''"] sub [of "chr CHR ''A''" "chr CHR ''Z''"]
    unfolding chars base36_digit_def by (auto split: if_splits)
qed

lemma parse_base36_pair_bound: "2 \<le> length ds \<Longrightarrow> parse_base36_pair ds = Some v \<Longrightarrow> v \<le> 1295"
proof -
  assume "2 \<le> length ds" and p: "parse_base36_pair ds = Some v"
  then obtain a b rest where ds: "ds = a # b # rest" by (cases ds; cases "tl ds") auto
  then obtain x y where "base36_digit a = Some x" "base36_digit b = Some y" "v = x * 36 + y"
    using p by (auto simp: parse_base36_pair_def split: option.splits)
  then show ?thesis using base36_digit_bound [of a x] base36_digit_bound [of b y] by simp
qed

text \<open>A frame that carries part \<open>i\<close> of \<open>n\<close> with the given bytes.\<close>

definition carries :: "(bytes \<Rightarrow> nat \<Rightarrow> bytes option) \<Rightarrow> bytes \<Rightarrow> byte \<Rightarrow> byte \<Rightarrow> nat \<Rightarrow> nat \<Rightarrow> bytes \<Rightarrow> bool" where
  "carries hex data encoding file_type n i part \<longleftrightarrow>
     bbqr_is_header (Some data) \<and> data ! 2 = encoding \<and> data ! 3 = file_type \<and>
     (encoding = chr CHR ''H'' \<or> encoding = chr CHR ''2'' \<or> encoding = chr CHR ''Z'') \<and>
     is_known_file_type file_type \<and> parse_base36_pair (drop 4 data) = Some n \<and>
     parse_base36_pair (drop 6 data) = Some i \<and> i < n \<and> part \<noteq> [] \<and>
     decode_frame_payload hex encoding (drop BBQR_HEADER_LEN data) (i = n - 1) BBQR_MAX_FRAME_DECODED = Some part"

lemma carries_bounds:
  assumes "carries hex data encoding file_type n i part"
  shows "0 < n" "n \<le> 1295" "i < n" "length part \<le> BBQR_MAX_FRAME_DECODED"
proof -
  have "8 \<le> length data" using assms by (simp add: carries_def bbqr_is_header_def bbqr_consts)
  then show "0 < n" "n \<le> 1295" "i < n"
    using assms parse_base36_pair_bound [of "drop 4 data" n] by (auto simp: carries_def)
  show "length part \<le> BBQR_MAX_FRAME_DECODED"
    using assms decode_frame_payload_length [of BBQR_MAX_FRAME_DECODED hex encoding "drop BBQR_HEADER_LEN data" "i = n - 1"]
    by (auto simp: carries_def bbqr_consts)
qed

lemma collect_carried:
  assumes "bbqr_ok tinfl ctx" and "\<And>n. length (alloc n) = n" and c: "carries hex data encoding file_type n i part"
    and "bq_num_parts ctx \<noteq> 0 \<longrightarrow> bq_encoding ctx = encoding \<and> bq_file_type ctx = file_type \<and> bq_num_parts ctx = n"
  shows "\<exists>s. bbqr_ok tinfl (ctx \<lparr> bq_scratch := Some s \<rparr>) \<and> bbqr_collect alloc hex ctx data = do {
     (repeat, c) \<leftarrow> bbqr_check_repeat (ctx \<lparr> bq_scratch := Some s \<rparr>) i (i = n - 1) part;
     case repeat of Some result \<Rightarrow> Some (result, c)
     | None \<Rightarrow> bbqr_store alloc c encoding file_type n i (i = n - 1) part }"
proof -
  define s0 where "s0 = (case bq_scratch ctx of None \<Rightarrow> alloc BBQR_MAX_FRAME_DECODED | Some s \<Rightarrow> s)"
  have "length s0 = BBQR_MAX_FRAME_DECODED"
    using assms(1,2) by (auto simp: s0_def bbqr_ok_def split: option.split)
  then obtain s where s: "buf_write s0 0 part = Some s" "length s = BBQR_MAX_FRAME_DECODED"
    using carries_bounds(4) [OF c] by (auto simp: buf_write_def)
  have "bbqr_ok tinfl (ctx \<lparr> bq_scratch := Some s \<rparr>)" by (rule scratch_ok [OF assms(1) s(2)])
  moreover have "bbqr_collect alloc hex ctx data = do {
     (repeat, c) \<leftarrow> bbqr_check_repeat (ctx \<lparr> bq_scratch := Some s \<rparr>) i (i = n - 1) part;
     case repeat of Some result \<Rightarrow> Some (result, c)
     | None \<Rightarrow> bbqr_store alloc c encoding file_type n i (i = n - 1) part }"
  proof -
    have hdr: "bbqr_is_header (Some data)" and et: "data ! 2 = encoding" "data ! 3 = file_type"
      and enc: "\<not> ((encoding \<noteq> chr CHR ''H'' \<and> encoding \<noteq> chr CHR ''2'' \<and> encoding \<noteq> chr CHR ''Z'')
        \<or> \<not> is_known_file_type file_type)"
      and ni: "parse_base36_pair (drop 4 data) = Some n" "parse_base36_pair (drop 6 data) = Some i"
      and part: "part \<noteq> []" "decode_frame_payload hex encoding (drop BBQR_HEADER_LEN data) (i = n - 1) BBQR_MAX_FRAME_DECODED = Some part"
      using c unfolding carries_def by blast+
    have in_range: "\<not> (n = 0 \<or> n \<le> i)" using carries_bounds [OF c] by simp
    have mine: "\<not> (bq_num_parts ctx \<noteq> 0 \<and>
        (bq_encoding ctx \<noteq> encoding \<or> bq_file_type ctx \<noteq> file_type \<or> bq_num_parts ctx \<noteq> n))" using assms(4) by blast
    show ?thesis
      unfolding bbqr_collect_def Let_def et ni prod.case option.case if_not_P [OF enc] if_not_P [OF in_range] if_not_P [OF mine]
        part(2) s0_def [symmetric]
      by (simp add: hdr s(1) part(1))
  qed
  ultimately show ?thesis by blast
qed

lemma collect_not_carried:
  assumes "bbqr_ok tinfl ctx" and "\<And>n. length (alloc n) = n"
    and "\<And>n i part. carries hex data (data ! 2) (data ! 3) n i part \<Longrightarrow>
       \<not> (bq_num_parts ctx \<noteq> 0 \<longrightarrow> bq_encoding ctx = data ! 2 \<and> bq_file_type ctx = data ! 3 \<and> bq_num_parts ctx = n)"
  shows "\<exists>ctx'. bbqr_collect alloc hex ctx data = Some (BBQR_REJECTED, ctx') \<and> bbqr_ok tinfl ctx' \<and>
    (ctx' = ctx \<or> (\<exists>s. ctx' = ctx \<lparr> bq_scratch := Some s \<rparr>))"
proof -
  define s0 where "s0 = (case bq_scratch ctx of None \<Rightarrow> alloc BBQR_MAX_FRAME_DECODED | Some s \<Rightarrow> s)"
  have s0: "length s0 = BBQR_MAX_FRAME_DECODED"
    using assms(1,2) by (auto simp: s0_def bbqr_ok_def split: option.split)
  have dec: "\<exists>bs. decode_frame_payload hex (data ! 2) (drop BBQR_HEADER_LEN data) f BBQR_MAX_FRAME_DECODED = Some bs" for f
    using decode_frame_payload_length [of BBQR_MAX_FRAME_DECODED hex "data ! 2"] by (auto simp: bbqr_consts)
  show ?thesis
  proof (cases "bbqr_is_header (Some data) \<and> (data ! 2 = chr CHR ''H'' \<or> data ! 2 = chr CHR ''2'' \<or> data ! 2 = chr CHR ''Z'')
      \<and> is_known_file_type (data ! 3)")
    case hdr: True
    show ?thesis
    proof (cases "\<exists>n i. parse_base36_pair (drop 4 data) = Some n \<and> parse_base36_pair (drop 6 data) = Some i \<and> i < n \<and>
        (bq_num_parts ctx \<noteq> 0 \<longrightarrow> bq_encoding ctx = data ! 2 \<and> bq_file_type ctx = data ! 3 \<and> bq_num_parts ctx = n)")
      case True
      then obtain n i where ni: "parse_base36_pair (drop 4 data) = Some n" "parse_base36_pair (drop 6 data) = Some i" "i < n"
        "bq_num_parts ctx \<noteq> 0 \<longrightarrow> bq_encoding ctx = data ! 2 \<and> bq_file_type ctx = data ! 3 \<and> bq_num_parts ctx = n" by blast
      obtain part where part: "decode_frame_payload hex (data ! 2) (drop BBQR_HEADER_LEN data) (i = n - 1) BBQR_MAX_FRAME_DECODED = Some part"
        using dec by blast
      have "part = []"
        using assms(3) [of n i part] hdr ni part by (auto simp: carries_def)
      then show ?thesis
        using hdr ni part s0 scratch_ok [OF assms(1), of s0]
        by (auto simp: bbqr_collect_def Let_def s0_def [symmetric] buf_write_def)
    next
      case False
      have bad: "n = 0 \<or> n \<le> i \<or> bq_num_parts ctx \<noteq> 0 \<and>
          (bq_encoding ctx \<noteq> data ! 2 \<or> bq_file_type ctx \<noteq> data ! 3 \<or> bq_num_parts ctx \<noteq> n)"
        if "parse_base36_pair (drop 4 data) = Some n" "parse_base36_pair (drop 6 data) = Some i" for n i
      proof (rule ccontr)
        assume "\<not> ?thesis"
        then have "i < n" "bq_num_parts ctx \<noteq> 0 \<longrightarrow>
          bq_encoding ctx = data ! 2 \<and> bq_file_type ctx = data ! 3 \<and> bq_num_parts ctx = n" by auto
        with that False show False by blast
      qed
      have "bbqr_collect alloc hex ctx data = Some (BBQR_REJECTED, ctx)"
      proof (cases "parse_base36_pair (drop 4 data)")
        case n: (Some n)
        show ?thesis
        proof (cases "parse_base36_pair (drop 6 data)")
          case (Some i)
          then show ?thesis using hdr n bad [OF n Some] by (auto simp: bbqr_collect_def Let_def)
        qed (use hdr n in \<open>auto simp: bbqr_collect_def Let_def\<close>)
      qed (use hdr in \<open>auto simp: bbqr_collect_def Let_def\<close>)
      then show ?thesis using assms(1) by blast
    qed
  next
    case False
    then show ?thesis using assms(1) by (auto simp: bbqr_collect_def Let_def)
  qed
qed

lemma all_seen_iff:
  assumes "bbqr_ok tinfl ctx" and "bq_num_parts ctx \<noteq> 0"
  shows "bq_num_seen ctx = bq_num_parts ctx \<longleftrightarrow> (\<forall>i<bq_num_parts ctx. seen_at ctx i)"
proof -
  obtain d where "bq_data ctx = Some d" using bbqr_ok_num_parts [OF assms(1)] assms(2) by auto
  then have run: "bbqr_running tinfl ctx d" using assms(1) by (simp add: bbqr_ok_def)
  let ?S = "{i. i < 1296 \<and> seen_at ctx i}"
  have sub: "?S \<subseteq> {..<bq_num_parts ctx}" using run by (auto simp: bbqr_running_def)
  have "card ?S = bq_num_parts ctx \<longleftrightarrow> ?S = {..<bq_num_parts ctx}"
  proof
    assume "card ?S = bq_num_parts ctx"
    then show "?S = {..<bq_num_parts ctx}" by (intro card_subset_eq [OF finite_lessThan sub]) (simp only: card_lessThan)
  qed (simp only: card_lessThan)
  also have "\<dots> \<longleftrightarrow> (\<forall>i<bq_num_parts ctx. seen_at ctx i)"
  proof
    assume "?S = {..<bq_num_parts ctx}"
    then show "\<forall>i<bq_num_parts ctx. seen_at ctx i" by blast
  next
    assume "\<forall>i<bq_num_parts ctx. seen_at ctx i"
    moreover have "bq_num_parts ctx \<le> 1295" using run by (simp add: bbqr_running_def)
    ultimately have "{..<bq_num_parts ctx} \<subseteq> ?S" by auto
    with sub show "?S = {..<bq_num_parts ctx}" by (rule subset_antisym)
  qed
  finally show ?thesis using assms(1) by (simp add: bbqr_ok_def)
qed

lemma collect_safe:
  assumes "bbqr_ok tinfl ctx" and alloc: "\<And>n. length (alloc n) = n"
  shows "\<exists>res ctx'. bbqr_collect alloc hex ctx data = Some (res, ctx') \<and> bbqr_ok tinfl ctx'"
proof (cases "\<exists>n i part. carries hex data (data ! 2) (data ! 3) n i part \<and>
    (bq_num_parts ctx \<noteq> 0 \<longrightarrow> bq_encoding ctx = data ! 2 \<and> bq_file_type ctx = data ! 3 \<and> bq_num_parts ctx = n)")
  case True
  then obtain n i part where c: "carries hex data (data ! 2) (data ! 3) n i part"
    and same: "bq_num_parts ctx \<noteq> 0 \<longrightarrow> bq_encoding ctx = data ! 2 \<and> bq_file_type ctx = data ! 3 \<and> bq_num_parts ctx = n"
    by blast
  obtain s where s: "bbqr_ok tinfl (ctx \<lparr> bq_scratch := Some s \<rparr>)" and eq: "bbqr_collect alloc hex ctx data = do {
     (repeat, c) \<leftarrow> bbqr_check_repeat (ctx \<lparr> bq_scratch := Some s \<rparr>) i (i = n - 1) part;
     case repeat of Some result \<Rightarrow> Some (result, c)
     | None \<Rightarrow> bbqr_store alloc c (data ! 2) (data ! 3) n i (i = n - 1) part }"
    using collect_carried [OF assms c same] by blast
  obtain r c' where rep: "bbqr_check_repeat (ctx \<lparr> bq_scratch := Some s \<rparr>) i (i = n - 1) part = Some (r, c')"
    "bbqr_ok tinfl c'" "r = None \<longrightarrow> bq_num_parts c' = 0 \<or> c' = ctx \<lparr> bq_scratch := Some s \<rparr> \<and> \<not> seen_at ctx i"
    using bbqr_check_repeat_ok [OF s, of i "i = n - 1" part] same carries_bounds(3) [OF c] by auto
  show ?thesis
  proof (cases r)
    case None
    then have c': "bq_num_parts c' \<noteq> 0 \<longrightarrow> bq_num_parts c' = n \<and> \<not> seen_at c' i" using rep(3) same by auto
    have "part \<noteq> []" using c by (simp add: carries_def)
    from bbqr_store_ok [OF rep(2) alloc carries_bounds(1-3) [OF c] c' this, of "data ! 2" "data ! 3"]
    show ?thesis using None eq rep(1) by auto
  next
    case (Some res)
    then show ?thesis using eq rep(1,2) by simp
  qed
next
  case False
  then show ?thesis using collect_not_carried [OF assms, of hex data] by blast
qed

lemma finalise_safe:
  assumes "bbqr_ok tinfl ctx"
  shows "\<exists>r ctx'. bbqr_finalise tinfl ctx = Some (r, ctx') \<and> bbqr_ok tinfl ctx' \<and>
    (r \<noteq> None \<longrightarrow> bq_num_parts ctx \<noteq> 0 \<and> bq_num_seen ctx = bq_num_parts ctx) \<and>
    (\<forall>out ft. r = Some (out, ft) \<longrightarrow> ft = bq_file_type ctx \<and> (\<exists>d. bq_data ctx = Some d \<and>
       (if bq_encoding ctx = chr CHR ''Z''
        then tinfl (take (bq_total ctx) d) MAX_INPUT_MSG_SIZE = (True, bq_total ctx, out)
        else out = take (bq_total ctx) d)))"
proof (cases "bq_data ctx")
  case None
  then show ?thesis using assms by (simp add: bbqr_finalise_def)
next
  case (Some d)
  then have run: "bbqr_running tinfl ctx d" using assms by (simp add: bbqr_ok_def)
  then have np: "bq_num_parts ctx \<noteq> 0" by (simp add: bbqr_running_def)
  show ?thesis
  proof (cases "bq_num_seen ctx = bq_num_parts ctx")
    case False
    then show ?thesis using assms Some by (simp add: bbqr_finalise_def)
  next
    case complete: True
    then have "seen_at ctx (bq_num_parts ctx - 1)" using all_seen_iff [OF assms np] np by simp
    then have fin: "0 < bq_final_len ctx" "bq_final_len ctx \<le> bq_block_len ctx" using run by (auto simp: bbqr_running_def)
    have total: "bq_total ctx \<noteq> 0" "bq_total ctx \<le> length d"
    proof -
      have "(bq_num_parts ctx - 1) * bq_block_len ctx + bq_final_len ctx \<le> bq_block_len ctx * bq_num_parts ctx"
        using block_in_buffer [of "bq_num_parts ctx - 1" "bq_num_parts ctx", OF _ fin(2)] np by simp
      then show "bq_total ctx \<le> length d" using run by (simp add: bbqr_running_def bq_total_def mult.commute)
      show "bq_total ctx \<noteq> 0" using fin(1) by (simp add: bq_total_def)
    qed
    show ?thesis
    proof (cases "bq_encoding ctx = chr CHR ''Z''")
      case False
      then show ?thesis
        using assms Some np complete total
        unfolding bbqr_finalise_def bq_total_def [symmetric] Let_def
        by (simp add: jade_assert_def buf_read_def Let_def)
    next
      case True
      show ?thesis
      proof (cases "bq_inflated ctx")
        case inf: (Some out)
        then have "tinfl (take (bq_total ctx) d) MAX_INPUT_MSG_SIZE = (True, bq_total ctx, out)"
          using run by (simp add: bbqr_running_def)
        then show ?thesis
          using assms Some np complete total True inf
          unfolding bbqr_finalise_def bq_total_def [symmetric] Let_def
        by (simp add: jade_assert_def Let_def)
      next
        case inf: None
        obtain ended consumed out where t: "tinfl (take (bq_total ctx) d) MAX_INPUT_MSG_SIZE = (ended, consumed, out)"
          by (metis prod_cases3)
        have ok: "bbqr_ok tinfl (ctx \<lparr> bq_inflated := Some out \<rparr>)"
          if "ended" "consumed = bq_total ctx" "out \<noteq> []"
          using assms Some run complete t that by (simp add: bbqr_ok_def bbqr_running_def bq_total_def)
        show ?thesis
          using assms Some np complete total True inf t ok
          unfolding bbqr_finalise_def bq_total_def [symmetric] Let_def
          by (auto simp: inflate_raw_deflate_def jade_assert_def buf_read_def Let_def)
      qed
    qed
  qed
qed

section \<open>Assembling a transfer\<close>

text \<open>The parts of a transfer: equally long but for the last, which may be shorter.\<close>

definition transfer_ok :: "bytes list \<Rightarrow> bool" where
  "transfer_ok parts \<longleftrightarrow> parts \<noteq> [] \<and> length parts \<le> 1295 \<and>
     (\<forall>i<length parts - 1. length (parts ! i) = length (parts ! 0)) \<and>
     (\<forall>p\<in>set parts. p \<noteq> [] \<and> length p \<le> length (parts ! 0)) \<and>
     length (parts ! 0) * length parts \<le> MAX_INPUT_MSG_SIZE"

text \<open>The parts the context has seen are those of the transfer.\<close>

definition tracks :: "bbqr_ctx \<Rightarrow> byte \<Rightarrow> byte \<Rightarrow> bytes list \<Rightarrow> bool" where
  "tracks ctx encoding file_type parts \<longleftrightarrow> (bq_num_parts ctx \<noteq> 0 \<longrightarrow>
     bq_num_parts ctx = length parts \<and> bq_encoding ctx = encoding \<and> bq_file_type ctx = file_type \<and>
     bq_block_len ctx = length (parts ! 0) \<and>
     (\<forall>i<length parts. seen_at ctx i \<longrightarrow>
        take (length (parts ! i)) (drop (i * bq_block_len ctx) (the (bq_data ctx))) = parts ! i) \<and>
     (seen_at ctx (length parts - 1) \<longrightarrow> bq_final_len ctx = length (last parts)))"

lemma tracksD:
  assumes "tracks ctx encoding file_type parts" and "bq_num_parts ctx \<noteq> 0"
  shows "bq_num_parts ctx = length parts" "bq_encoding ctx = encoding" "bq_file_type ctx = file_type"
    "bq_block_len ctx = length (parts ! 0)"
    "i < length parts \<Longrightarrow> seen_at ctx i \<Longrightarrow>
       take (length (parts ! i)) (drop (i * bq_block_len ctx) (the (bq_data ctx))) = parts ! i"
    "seen_at ctx (length parts - 1) \<Longrightarrow> bq_final_len ctx = length (last parts)"
  using assms unfolding tracks_def by blast+

lemma transfer_full_len: "transfer_ok parts \<Longrightarrow> i < length parts - 1 \<Longrightarrow> length (parts ! i) = length (parts ! 0)"
  unfolding transfer_ok_def by blast

lemma transfer_fits: "transfer_ok parts \<Longrightarrow> i < length parts \<Longrightarrow> length (parts ! i) \<le> length (parts ! 0)"
  unfolding transfer_ok_def by (meson nth_mem)

lemma transfer_total: "transfer_ok parts \<Longrightarrow> length (parts ! 0) * length parts \<le> MAX_INPUT_MSG_SIZE"
  unfolding transfer_ok_def by blast

lemma transfer_part_len:
  assumes "transfer_ok parts" and "i < length parts"
  shows "length (parts ! i) = (if i = length parts - 1 then length (last parts) else length (parts ! 0))"
proof (cases "i = length parts - 1")
  case True
  then show ?thesis using assms by (simp add: last_conv_nth transfer_ok_def)
next
  case False
  then have "i < length parts - 1" using assms(2) by simp
  from transfer_full_len [OF assms(1) this] show ?thesis using False by (simp only: if_False)
qed

lemma tracks_scratch [simp]: "tracks (ctx \<lparr> bq_scratch := s \<rparr>) = tracks ctx"
  by (simp add: fun_eq_iff tracks_def)

lemma block_write_other:
  fixes d :: "'a list"
  assumes "i \<noteq> j" and "length b \<le> L" and "len \<le> L" and "i * L + length b \<le> length d" and "j * L + len \<le> length d"
  shows "take len (drop (j * L) (take (i * L) d @ b @ drop (i * L + length b) d)) = take len (drop (j * L) d)"
proof (rule nth_equalityI)
  show "length (take len (drop (j * L) (take (i * L) d @ b @ drop (i * L + length b) d))) =
      length (take len (drop (j * L) d))"
  proof -
    have "length (take (i * L) d @ b @ drop (i * L + length b) d) = length d" using assms(4) by simp
    then show ?thesis by (simp only: length_take length_drop)
  qed
  fix k assume "k < length (take len (drop (j * L) (take (i * L) d @ b @ drop (i * L + length b) d)))"
  then have k: "k < len" by (simp only: length_take min_less_iff_conj)
  have apart: "j * L + k < i * L \<or> i * L + length b \<le> j * L + k"
  proof (cases "j < i")
    case True
    then have "(j + 1) * L \<le> i * L" by (intro mult_le_mono1) simp
    then show ?thesis using k assms(3) by simp
  next
    case False
    then have "(i + 1) * L \<le> j * L" using assms(1) by (intro mult_le_mono1) simp
    then show ?thesis using assms(2) by simp
  qed
  define d' where "d' = take (i * L) d @ b @ drop (i * L + length b) d"
  have "d' ! (j * L + k) = d ! (j * L + k)"
    using apart assms(4) k assms(5) by (auto simp: d'_def nth_append)
  moreover have "length d' = length d" using assms(4) by (simp add: d'_def)
  ultimately show "take len (drop (j * L) (take (i * L) d @ b @ drop (i * L + length b) d)) ! k = take len (drop (j * L) d) ! k"
    unfolding d'_def [symmetric] using k assms(5) by simp
qed

lemma block_write_same:
  "i * L + length b \<le> length d \<Longrightarrow>
   take (length b) (drop (i * L) (take (i * L) d @ b @ drop (i * L + length b) d)) = b"
  by simp

lemma tracks_put:
  assumes ok: "bbqr_ok tinfl c" and tr: "tracks c encoding file_type parts" and t: "transfer_ok parts"
    and np: "bq_num_parts c = length parts" and d: "bq_data c = Some d" and i: "i < length parts"
    and seen: "\<And>j. j < 1296 \<Longrightarrow> seen_at (c \<lparr> bq_seen := seen \<rparr>) j \<longleftrightarrow> j = i \<or> seen_at c j"
  shows "tracks (ctx_put c d i (parts ! i) seen) encoding file_type parts"
    and "j < 1296 \<Longrightarrow> seen_at (ctx_put c d i (parts ! i) seen) j \<longleftrightarrow> j = i \<or> seen_at c j"
proof -
  have n: "length parts \<le> 1295" "parts \<noteq> []" using t by (auto simp: transfer_ok_def)
  note tr' = tr [unfolded tracks_def np]
  have L: "bq_block_len c = length (parts ! 0)" using tr' n by simp
  have len: "length d = length (parts ! 0) * length parts"
    using ok d np L by (auto simp: bbqr_ok_def bbqr_running_def)
  have fits: "length (parts ! k) \<le> length (parts ! 0)" if "k < length parts" for k
    using t that by (auto simp: transfer_ok_def)
  have room: "k * length (parts ! 0) + length (parts ! k) \<le> length d" if "k < length parts" for k
    using block_in_buffer [OF that fits [OF that]] len by simp
  show at: "seen_at (ctx_put c d i (parts ! i) seen) j \<longleftrightarrow> j = i \<or> seen_at c j" if "j < 1296" for j
    using seen [OF that] by (simp add: seen_at_def)
  have "take (length (parts ! j)) (drop (j * length (parts ! 0)) (take (i * length (parts ! 0)) d @ parts ! i @
      drop (i * length (parts ! 0) + length (parts ! i)) d)) = parts ! j"
    if j: "j < length parts" "j = i \<or> seen_at c j" for j
  proof (cases "j = i")
    case True
    then show ?thesis using block_write_same [OF room [OF i]] by simp
  next
    case False
    then have "take (length (parts ! j)) (drop (j * length (parts ! 0)) d) = parts ! j" using j tr' n L d by auto
    then show ?thesis using block_write_other [OF _ fits [OF i] fits [OF j(1)] room [OF i] room [OF j(1)]] False by auto
  qed
  moreover have "i = length parts - 1 \<Longrightarrow> parts ! i = last parts" using n by (simp add: last_conv_nth)
  ultimately show "tracks (ctx_put c d i (parts ! i) seen) encoding file_type parts"
    unfolding tracks_def using tr' n np L at by auto
qed

text \<open>One frame of the transfer.\<close>

lemma collect_part:
  assumes ok: "bbqr_ok tinfl ctx" and alloc: "\<And>n. length (alloc n) = n" and tr: "tracks ctx encoding file_type parts"
    and t: "transfer_ok parts" and c: "carries hex data encoding file_type (length parts) i (parts ! i)"
  shows "\<exists>res ctx'. bbqr_collect alloc hex ctx data = Some (res, ctx') \<and> bbqr_ok tinfl ctx' \<and>
     tracks ctx' encoding file_type parts \<and>
     (if bq_num_parts ctx = 0 \<and> i = length parts - 1 \<and> length parts > 1
      then res = BBQR_REJECTED \<and> bq_num_parts ctx' = 0
      else bq_num_parts ctx' = length parts \<and>
        (\<forall>j<1296. seen_at ctx' j \<longleftrightarrow> j = i \<or> seen_at ctx j) \<and>
        res = (if \<forall>j<length parts. seen_at ctx' j then BBQR_COMPLETE else BBQR_IN_PROGRESS))"
proof -
  let ?n = "length parts"
  have n: "0 < ?n" "?n \<le> 1295" "i < ?n" by (rule carries_bounds [OF c])+
  have same: "bq_num_parts ctx \<noteq> 0 \<longrightarrow> bq_encoding ctx = encoding \<and> bq_file_type ctx = file_type \<and> bq_num_parts ctx = ?n"
    using tr by (auto simp: tracks_def)
  obtain s where s: "bbqr_ok tinfl (ctx \<lparr> bq_scratch := Some s \<rparr>)" and eq: "bbqr_collect alloc hex ctx data = do {
     (repeat, c) \<leftarrow> bbqr_check_repeat (ctx \<lparr> bq_scratch := Some s \<rparr>) i (i = ?n - 1) (parts ! i);
     case repeat of Some result \<Rightarrow> Some (result, c)
     | None \<Rightarrow> bbqr_store alloc c encoding file_type ?n i (i = ?n - 1) (parts ! i) }"
    using collect_carried [OF ok alloc c same] by blast
  define x where "x = ctx \<lparr> bq_scratch := Some s \<rparr>"
  have x: "bbqr_ok tinfl x" "tracks x encoding file_type parts" "bq_num_parts x = bq_num_parts ctx" "seen_at x = seen_at ctx"
    using s tr by (simp_all add: x_def)
  show ?thesis
  proof (cases "bq_num_parts ctx \<noteq> 0 \<and> seen_at ctx i")
    case True
    then obtain d where d: "bq_data x = Some d" using bbqr_ok_num_parts [OF x(1)] x(3) by auto
    have np: "bq_num_parts x = ?n" using True same x(3) by simp
    have held: "take (length (parts ! i)) (drop (i * bq_block_len x) d) = parts ! i"
      "(if i = ?n - 1 then bq_final_len x else bq_block_len x) = length (parts ! i)"
    proof -
      have x0: "bq_num_parts x \<noteq> 0" and sx: "seen_at x i" using True x(3,4) by auto
      show "take (length (parts ! i)) (drop (i * bq_block_len x) d) = parts ! i"
        using tracksD(5) [OF x(2) x0 n(3) sx] unfolding d by simp
      show "(if i = ?n - 1 then bq_final_len x else bq_block_len x) = length (parts ! i)"
        using tracksD(4,6) [OF x(2) x0] sx transfer_part_len [OF t n(3)] by auto
    qed
    have "length (take (length (parts ! i)) (drop (i * bq_block_len x) d)) = length (parts ! i)" using held(1) by simp
    moreover have "parts ! i \<noteq> []" using c by (simp add: carries_def)
    ultimately have "i * bq_block_len x + length (parts ! i) \<le> length d"
      unfolding length_take length_drop length_greater_0_conv [symmetric] by linarith
    then have "bbqr_check_repeat x i (i = ?n - 1) (parts ! i) =
        Some (Some (if bq_num_seen x = bq_num_parts x then BBQR_COMPLETE else BBQR_IN_PROGRESS), x)"
      using part_seen_at [of x i] x(1,4) True n np d held
      by (simp add: bbqr_check_repeat_def bbqr_ok_def buf_read_def Let_def)
    moreover have "seen_at x j \<longleftrightarrow> j = i \<or> seen_at ctx j" for j using x(4) True by auto
    ultimately show ?thesis
      using eq True x np all_seen_iff [OF x(1)] n by (auto simp: x_def [symmetric])
  next
    case False
    have "bbqr_check_repeat x i (i = ?n - 1) (parts ! i) = Some (None, x)"
      using False part_seen_at [of x i] x n same by (auto simp: bbqr_check_repeat_def bbqr_ok_def)
    then have store: "bbqr_collect alloc hex ctx data = bbqr_store alloc x encoding file_type ?n i (i = ?n - 1) (parts ! i)"
      using eq by (simp add: x_def)
    have new: "bq_num_parts x \<noteq> 0 \<longrightarrow> bq_num_parts x = ?n \<and> \<not> seen_at x i" using False same x by auto
    have ne: "parts ! i \<noteq> []" using c by (simp add: carries_def)
    define o' where "o' = ctx_open alloc x encoding file_type ?n (length (parts ! i))"
    show ?thesis
    proof (cases "bq_num_parts ctx = 0 \<and> i = ?n - 1 \<and> ?n > 1")
      case True
      then have "bbqr_store alloc x encoding file_type ?n i (i = ?n - 1) (parts ! i) = Some (BBQR_REJECTED, x)"
        using x(3) by (simp add: bbqr_store_def)
      then show ?thesis using store True x by simp
    next
      case go: False
      have idle: "\<forall>j<1296. \<not> seen_at ctx j" if "bq_num_parts ctx = 0"
        using ok bbqr_ok_num_parts [OF ok] that by (simp add: bbqr_ok_def)
      have first: "length (parts ! i) = length (parts ! 0)" if "bq_num_parts ctx = 0"
      proof (cases "i = ?n - 1")
        case True
        then have "i = 0" using go that by simp
        then show ?thesis by simp
      next
        case False
        then have "i < ?n - 1" using n(3) by simp
        then show ?thesis by (rule transfer_full_len [OF t])
      qed
      have "\<not> (bq_num_parts x = 0 \<and> (i = ?n - 1 \<and> ?n > 1 \<or> length (parts ! i) * ?n > MAX_INPUT_MSG_SIZE))"
        using go x(3) first transfer_total [OF t] by auto
      moreover have "\<not> (bq_num_parts x \<noteq> 0 \<and> (if i = ?n - 1 then length (parts ! i) > bq_block_len x
          else length (parts ! i) \<noteq> bq_block_len x))"
      proof (cases "bq_num_parts x = 0")
        case False
        show ?thesis
          using tracksD(4) [OF x(2) False] transfer_fits [OF t n(3)] transfer_part_len [OF t n(3)]
          by (simp split: if_splits)
      qed simp
      ultimately obtain res ctx' d seen where r: "bbqr_store alloc x encoding file_type ?n i (i = ?n - 1) (parts ! i) = Some (res, ctx')"
        "bbqr_ok tinfl ctx'" "bq_data o' = Some d"
        "\<And>j. j < 1296 \<Longrightarrow> seen_at (o' \<lparr> bq_seen := seen \<rparr>) j \<longleftrightarrow> j = i \<or> seen_at o' j"
        "ctx' = ctx_put o' d i (parts ! i) seen" "res = (if bq_num_seen ctx' = ?n then BBQR_COMPLETE else BBQR_IN_PROGRESS)"
        using bbqr_store_ok [OF x(1) alloc n new ne, of encoding file_type] unfolding o'_def by blast
      have o': "bbqr_ok tinfl o'" unfolding o'_def
        by (rule ctx_open_ok [OF x(1) alloc n(1,2)]) (use first transfer_total [OF t] ne x(3) in auto)
      have np: "bq_num_parts o' = ?n" "seen_at o' = seen_at ctx"
        using same x(3,4) by (auto simp: o'_def ctx_open_def)
      have "tracks o' encoding file_type parts"
      proof (cases "bq_num_parts ctx = 0")
        case True
        then show ?thesis
          using idle first x(3,4) n by (simp add: tracks_def o'_def ctx_open_def)
      qed (use x in \<open>simp add: o'_def ctx_open_def\<close>)
      note put = tracks_put [OF o' this t np(1) r(3) n(3) r(4)]
      have "bq_num_parts ctx' = ?n" using np r(5) by simp
      then show ?thesis
        using store r(1,2,6) put np go all_seen_iff [OF r(2)] n unfolding r(5) by auto
    qed
  qed
qed

lemma concat_prefix:
  assumes "\<And>i. i < m \<Longrightarrow> take L (drop (i * L) d) = parts ! i" and "m \<le> length parts"
  shows "take (m * L) d = concat (take m parts)"
  using assms
proof (induction m)
  case (Suc m)
  have "Suc m * L = m * L + L" by simp
  then have "take (Suc m * L) d = take (m * L) d @ take L (drop (m * L) d)" by (simp only: take_add)
  then show ?case using Suc by (simp add: take_Suc_conv_app_nth)
qed simp

lemma tracked_payload:
  assumes "tracks ctx encoding file_type parts" and "transfer_ok parts" and np: "bq_num_parts ctx = length parts"
    and all: "\<forall>j<length parts. seen_at ctx j" and d: "bq_data ctx = Some d"
  shows "take (bq_total ctx) d = concat parts" and "bq_total ctx = length (concat parts)"
proof -
  let ?n = "length parts" and ?L = "length (parts ! 0)"
  have n: "parts \<noteq> []" using assms(2) by (simp add: transfer_ok_def)
  then have n1: "?n - 1 < ?n" by simp
  have tr: "bq_block_len ctx = ?L" "bq_final_len ctx = length (last parts)"
    "\<And>i. i < ?n \<Longrightarrow> take (length (parts ! i)) (drop (i * ?L) d) = parts ! i"
  proof -
    have np0: "bq_num_parts ctx \<noteq> 0" using np n by simp
    show L: "bq_block_len ctx = ?L" by (rule tracksD(4) [OF assms(1) np0])
    show "bq_final_len ctx = length (last parts)" using tracksD(6) [OF assms(1) np0] all n1 by blast
    show "take (length (parts ! i)) (drop (i * ?L) d) = parts ! i" if "i < ?n" for i
      using tracksD(5) [OF assms(1) np0 that] all that unfolding d option.sel L by blast
  qed
  have blocks: "take ?L (drop (i * ?L) d) = parts ! i" if "i < ?n - 1" for i
    using tr(3) [of i] transfer_full_len [OF assms(2) that] that by auto
  have last: "take (length (last parts)) (drop ((?n - 1) * ?L) d) = last parts"
    using tr(3) [OF n1] n by (simp add: last_conv_nth)
  have split: "parts = take (?n - 1) parts @ [last parts]" using append_butlast_last_id [OF n] by (simp only: butlast_conv_take)
  have "bq_total ctx = (?n - 1) * ?L + length (last parts)" using np tr(1,2) by (simp add: bq_total_def mult.commute)
  then have "take (bq_total ctx) d = take ((?n - 1) * ?L) d @ take (length (last parts)) (drop ((?n - 1) * ?L) d)"
    by (simp add: take_add)
  also have "\<dots> = concat (take (?n - 1) parts) @ last parts"
    using concat_prefix [of "?n - 1" ?L d parts] blocks last by simp
  also have "\<dots> = concat parts" by (subst (3) split) simp
  finally show payload: "take (bq_total ctx) d = concat parts" .
  have "length (take (?n - 1) parts) * ?L = length (concat (take (?n - 1) parts))"
  proof -
    have "\<forall>p\<in>set (take (?n - 1) parts). length p = ?L"
    proof
      fix p assume "p \<in> set (take (?n - 1) parts)"
      then obtain i where "i < ?n - 1" "p = parts ! i" by (auto simp: in_set_conv_nth)
      then show "length p = ?L" using transfer_full_len [OF assms(2)] by blast
    qed
    then have "sum_list (map length (take (?n - 1) parts)) = sum_list (map (\<lambda>p. ?L) (take (?n - 1) parts))"
      by (intro arg_cong [of _ _ sum_list] map_cong) auto
    then show ?thesis by (simp add: length_concat sum_list_triv del: length_take)
  qed
  then have "(?n - 1) * ?L = length (concat (take (?n - 1) parts))" by simp
  then have "bq_total ctx = length (concat (take (?n - 1) parts)) + length (last parts)"
    using \<open>bq_total ctx = _\<close> by simp
  also have "\<dots> = length (concat parts)" by (subst (3) split) simp
  finally show "bq_total ctx = length (concat parts)" .
qed

text \<open>Feeding the frames one after the other; the result of the last one is returned.\<close>

fun bbqr_feed ::
  "(nat \<Rightarrow> bytes) \<Rightarrow> (bytes \<Rightarrow> nat \<Rightarrow> bytes option) \<Rightarrow> bbqr_ctx \<Rightarrow> bbqr_collect_result \<Rightarrow> bytes list \<Rightarrow>
   (bbqr_collect_result \<times> bbqr_ctx) option" where
  "bbqr_feed alloc hex ctx res [] = Some (res, ctx)"
| "bbqr_feed alloc hex ctx res (f # fs) = do {
     (res, ctx) \<leftarrow> bbqr_collect alloc hex ctx f;
     bbqr_feed alloc hex ctx res fs }"

lemma feed_running:
  assumes alloc: "\<And>n. length (alloc n) = n" and t: "transfer_ok parts"
    and "list_all2 (\<lambda>f i. carries hex f encoding file_type (length parts) i (parts ! i)) frames idx"
    and "bbqr_ok tinfl ctx" and "tracks ctx encoding file_type parts" and "bq_num_parts ctx = length parts"
    and "res = (if \<forall>j<length parts. seen_at ctx j then BBQR_COMPLETE else BBQR_IN_PROGRESS)"
    and "\<forall>j<length parts. seen_at ctx j \<or> j \<in> set idx"
  shows "\<exists>ctx'. bbqr_feed alloc hex ctx res frames = Some (BBQR_COMPLETE, ctx') \<and> bbqr_ok tinfl ctx' \<and>
    tracks ctx' encoding file_type parts \<and> bq_num_parts ctx' = length parts \<and> (\<forall>j<length parts. seen_at ctx' j)"
  using assms(3-8)
proof (induction frames idx arbitrary: ctx res rule: list_all2_induct)
  case Nil
  then show ?case by simp
next
  case (Cons f frames i idx)
  have n: "length parts \<noteq> 0" "length parts \<le> 1295" using t by (auto simp: transfer_ok_def)
  obtain res' ctx' where c: "bbqr_collect alloc hex ctx f = Some (res', ctx')" "bbqr_ok tinfl ctx'"
    "tracks ctx' encoding file_type parts" "bq_num_parts ctx' = length parts"
    "\<And>j. j < 1296 \<Longrightarrow> seen_at ctx' j \<longleftrightarrow> j = i \<or> seen_at ctx j"
    "res' = (if \<forall>j<length parts. seen_at ctx' j then BBQR_COMPLETE else BBQR_IN_PROGRESS)"
    using collect_part [OF Cons.prems(1) alloc Cons.prems(2) t Cons.hyps(1)] Cons.prems(3) n by auto
  have "\<forall>j<length parts. seen_at ctx' j \<or> j \<in> set idx" using Cons.prems(5) c(5) n by auto
  from Cons.IH [OF c(2,3,4,6) this] show ?case using c(1) by simp
qed


text \<open>From an empty context: the last part of a longer transfer cannot open the collection, the
  first other part does.\<close>

lemma feed_from_empty:
  assumes alloc: "\<And>n. length (alloc n) = n" and t: "transfer_ok parts"
    and "list_all2 (\<lambda>f i. carries hex f encoding file_type (length parts) i (parts ! i)) frames idx"
    and "bbqr_ok tinfl ctx" and "bq_num_parts ctx = 0"
    and "{..<length parts} \<subseteq> set (dropWhile (\<lambda>i. i = length parts - 1 \<and> 1 < length parts) idx)"
  shows "\<exists>ctx'. bbqr_feed alloc hex ctx res frames = Some (BBQR_COMPLETE, ctx') \<and> bbqr_ok tinfl ctx' \<and>
    tracks ctx' encoding file_type parts \<and> bq_num_parts ctx' = length parts \<and> (\<forall>j<length parts. seen_at ctx' j)"
  using assms(3-6)
proof (induction frames idx arbitrary: ctx res rule: list_all2_induct)
  case Nil
  then have "length parts = 0" by (simp add: lessThan_empty_iff)
  then show ?case using t by (simp add: transfer_ok_def)
next
  case (Cons f frames i idx)
  have n: "length parts \<noteq> 0" "length parts \<le> 1295" using t by (auto simp only: transfer_ok_def length_0_conv)
  have tr: "tracks ctx encoding file_type parts" using Cons.prems(2) by (simp add: tracks_def)
  note step = collect_part [OF Cons.prems(1) alloc tr t Cons.hyps(1)]
  show ?case
  proof (cases "i = length parts - 1 \<and> 1 < length parts")
    case True
    then obtain ctx' where c: "bbqr_collect alloc hex ctx f = Some (BBQR_REJECTED, ctx')" "bbqr_ok tinfl ctx'"
      "bq_num_parts ctx' = 0"
      using step Cons.prems(2) by auto
    have "{..<length parts} \<subseteq> set (dropWhile (\<lambda>i. i = length parts - 1 \<and> 1 < length parts) idx)"
      using Cons.prems(3) True by simp
    from Cons.IH [OF c(2,3) this] show ?thesis using c(1) by simp
  next
    case False
    then obtain res' ctx' where c: "bbqr_collect alloc hex ctx f = Some (res', ctx')" "bbqr_ok tinfl ctx'"
      "tracks ctx' encoding file_type parts" "bq_num_parts ctx' = length parts"
      "\<And>j. j < 1296 \<Longrightarrow> seen_at ctx' j \<longleftrightarrow> j = i \<or> seen_at ctx j"
      "res' = (if \<forall>j<length parts. seen_at ctx' j then BBQR_COMPLETE else BBQR_IN_PROGRESS)"
      using step by auto
    have "{..<length parts} \<subseteq> set (i # idx)"
      using Cons.prems(3) False by (simp only: dropWhile.simps if_False)
    then have "\<forall>j<length parts. seen_at ctx' j \<or> j \<in> set idx" using c(5) n by auto
    from feed_running [OF alloc t Cons.hyps(2) c(2,3,4,6) this] show ?thesis using c(1) by simp
  qed
qed

text \<open>The end of a transfer: what \<open>bbqr_finalise\<close> makes of a complete context.\<close>

lemma finalise_complete:
  assumes ok: "bbqr_ok tinfl ctx" and tr: "tracks ctx encoding file_type parts" and t: "transfer_ok parts"
    and np: "bq_num_parts ctx = length parts" and all: "\<forall>j<length parts. seen_at ctx j"
  shows "\<exists>r ctx'. bbqr_finalise tinfl ctx = Some (r, ctx') \<and> bbqr_ok tinfl ctx' \<and>
     r = (if encoding = chr CHR ''Z'' then
            (case tinfl (concat parts) MAX_INPUT_MSG_SIZE of (ended, consumed, out) \<Rightarrow>
               if ended \<and> consumed = length (concat parts) \<and> out \<noteq> [] then Some (out, file_type) else None)
          else Some (concat parts, file_type))"
proof -
  have np0: "bq_num_parts ctx \<noteq> 0" using np t by (simp add: transfer_ok_def)
  then obtain d where d: "bq_data ctx = Some d" using bbqr_ok_num_parts [OF ok] by auto
  note ef = tracksD(2,3) [OF tr np0]
  note pay = tracked_payload [OF tr t np all d]
  have seen: "bq_num_seen ctx = bq_num_parts ctx" using all_seen_iff [OF ok np0] all np by simp
  have run: "bbqr_running tinfl ctx d" using ok d by (simp add: bbqr_ok_def)
  have "0 < length (last parts)" using t unfolding transfer_ok_def by (simp add: last_in_set)
  then have total: "bq_total ctx \<noteq> 0" using tracksD(6) [OF tr np0] all np np0 by (simp add: bq_total_def)
  have "length (take (bq_total ctx) d) = bq_total ctx" by (subst pay(1)) (rule pay(2) [symmetric])
  then have fits: "bq_total ctx \<le> length d" by simp
  obtain r ctx' where fin: "bbqr_finalise tinfl ctx = Some (r, ctx')" "bbqr_ok tinfl ctx'" using finalise_safe [OF ok] by blast
  have inflated: "out \<noteq> [] \<and> tinfl (concat parts) MAX_INPUT_MSG_SIZE = (True, length (concat parts), out)"
    if "bq_inflated ctx = Some out" for out
    using run that unfolding bbqr_running_def pay(1) by (simp add: pay(2))
  obtain ended consumed out where i: "tinfl (concat parts) MAX_INPUT_MSG_SIZE = (ended, consumed, out)" by (metis prod_cases3)
  define P where "P = concat parts"
  have P: "bq_total ctx = length P" "take (length P) d = P" using pay by (simp_all add: P_def)
  have "r = (if encoding = chr CHR ''Z'' then
            (case tinfl (concat parts) MAX_INPUT_MSG_SIZE of (ended, consumed, out) \<Rightarrow>
               if ended \<and> consumed = length (concat parts) \<and> out \<noteq> [] then Some (out, file_type) else None)
          else Some (concat parts, file_type))"
    using fin(1) d np0 seen total fits ef inflated i
    unfolding bbqr_finalise_def bq_total_def [symmetric] Let_def P_def [symmetric]
    by (auto simp: inflate_raw_deflate_def jade_assert_def buf_read_def Let_def P split: option.splits if_splits)
  then show ?thesis using fin by blast
qed

section \<open>Frames as a sender writes them\<close>

definition base36_char :: "nat \<Rightarrow> byte" where
  "base36_char v = (if v < 10 then of_nat (48 + v) else of_nat (55 + v))"

definition base36_pair :: "nat \<Rightarrow> bytes" where
  "base36_pair v = [base36_char (v div 36), base36_char (v mod 36)]"

definition bbqr_frame :: "byte \<Rightarrow> byte \<Rightarrow> nat \<Rightarrow> nat \<Rightarrow> bytes \<Rightarrow> bytes" where
  "bbqr_frame encoding file_type n i part =
     [chr CHR ''B'', chr CHR ''$'', encoding, file_type] @ base36_pair n @ base36_pair i @ bin_to_base32_loop part 0 0"

lemma base36_digits: "list_all (\<lambda>v. base36_digit (base36_char v) = Some v) [0..<36]"
  by code_simp

lemma base36_digit_char: "v < 36 \<Longrightarrow> base36_digit (base36_char v) = Some v"
  using base36_digits by (simp add: list_all_iff)

lemma parse_base36_pair_print: "v \<le> 1295 \<Longrightarrow> parse_base36_pair (base36_pair v @ rest) = Some v"
  by (simp add: parse_base36_pair_def base36_pair_def base36_digit_char)

lemma base32_len_mod:
  shows "(n * 8 + 4) div 5 mod 8 \<in> {0, 2, 4, 5, (7::nat)}" and "5 dvd n \<Longrightarrow> (n * 8 + 4) div 5 mod 8 = 0"
proof -
  define q r where "q = n div 5" and "r = n mod 5"
  have n: "n = 5 * q + r" and r: "r < 5" by (simp_all add: q_def r_def)
  have "(n * 8 + 4) div 5 = (r * 8 + 4) div 5 + 8 * q"
    unfolding n using div_mult_self2 [of 5 "r * 8 + 4" "8 * q"] by (simp add: algebra_simps)
  then have m: "(n * 8 + 4) div 5 mod 8 = (r * 8 + 4) div 5 mod 8" by simp
  have "r = 0 \<or> r = 1 \<or> r = 2 \<or> r = 3 \<or> r = 4" using r by linarith
  then show "(n * 8 + 4) div 5 mod 8 \<in> {0, 2, 4, 5, 7}" unfolding m by auto
  show "(n * 8 + 4) div 5 mod 8 = 0" if "5 dvd n" using that unfolding m by (simp add: r_def)
qed

lemma frame_carries:
  assumes "encoding = chr CHR ''2'' \<or> encoding = chr CHR ''Z''" and "is_known_file_type file_type"
    and "i < n" and "n \<le> 1295" and ne: "part \<noteq> []" and fits: "length part \<le> BBQR_MAX_FRAME_DECODED"
    and full: "i \<noteq> n - 1 \<Longrightarrow> 5 dvd length part"
  shows "carries hex (bbqr_frame encoding file_type n i part) encoding file_type n i part"
proof -
  let ?p = "bin_to_base32_loop part 0 0"
  note len = bin_to_base32_loop_length [of part]
  have "?p \<noteq> []"
  proof
    assume "?p = []"
    then have "(length part * 8 + 4) div 5 = 0" using len by simp
    then have "length part * 8 + 4 < 5" by (simp only: div_eq_0_iff) simp
    then show False using ne by (cases part) simp_all
  qed
  moreover have "encoding \<noteq> chr CHR ''H''" using assms(1) by (auto simp: chr_def)
  moreover have "is_bbqr_base32 ?p"
    using bin_to_base32_loop_chars [of part] base32_len_mod(1) [of "length part"] by (simp add: is_bbqr_base32_def len)
  moreover have "i \<noteq> n - 1 \<longrightarrow> length ?p mod 8 = 0" using base32_len_mod(2) full by (simp add: len)
  moreover have "base32_to_bin ?p BBQR_MAX_FRAME_DECODED = Some part"
    using base32_decode_encode [OF ne fits, of 0] by simp
  moreover have "BBQR_MAX_FRAME_DECODED \<noteq> 0" by (simp add: bbqr_consts)
  ultimately have "decode_frame_payload hex encoding ?p (i = n - 1) BBQR_MAX_FRAME_DECODED = Some part"
    by (auto simp: decode_frame_payload_def)
  moreover have "drop 4 (bbqr_frame encoding file_type n i part) = base36_pair n @ base36_pair i @ ?p"
    "drop 6 (bbqr_frame encoding file_type n i part) = base36_pair i @ ?p"
    "drop BBQR_HEADER_LEN (bbqr_frame encoding file_type n i part) = ?p"
    by (simp_all add: bbqr_frame_def base36_pair_def bbqr_consts)
  moreover have "bbqr_is_header (Some (bbqr_frame encoding file_type n i part))"
    "bbqr_frame encoding file_type n i part ! 2 = encoding" "bbqr_frame encoding file_type n i part ! 3 = file_type"
    by (simp_all add: bbqr_is_header_def bbqr_frame_def base36_pair_def bbqr_consts)
  ultimately show ?thesis
    unfolding carries_def using assms(1-4) ne by (simp add: parse_base36_pair_print)
qed

text \<open>A part under a known index with other bytes: the context is emptied first.\<close>

lemma collection_reset_scratch:
  "(collection_reset ctx) \<lparr> bq_scratch := s \<rparr> = collection_reset (ctx \<lparr> bq_scratch := s \<rparr>)"
  by (simp add: collection_reset_def)

lemma check_repeat_scratch:
  "bbqr_check_repeat (ctx \<lparr> bq_scratch := s \<rparr>) i f part =
     map_option (map_prod id (\<lambda>c. c \<lparr> bq_scratch := s \<rparr>)) (bbqr_check_repeat ctx i f part)"
proof -
  have "part_seen (ctx \<lparr> bq_scratch := s \<rparr>) i = part_seen ctx i" by (simp add: part_seen_def)
  then show ?thesis
    by (auto simp: bbqr_check_repeat_def Let_def collection_reset_scratch buf_read_def split: option.splits Option.bind_splits)
qed

lemma conflict_reset:
  assumes ok: "bbqr_ok tinfl ctx" and d: "bq_data ctx = Some d" and i: "i < bq_num_parts ctx" and "seen_at ctx i"
    and "take (if i = bq_num_parts ctx - 1 then bq_final_len ctx else bq_block_len ctx) (drop (i * bq_block_len ctx) d) \<noteq> part"
  shows "bbqr_check_repeat ctx i (i = bq_num_parts ctx - 1) part = Some (None, collection_reset ctx)"
proof -
  obtain r ctx' where r: "bbqr_check_repeat ctx i (i = bq_num_parts ctx - 1) part = Some (r, ctx')"
    using bbqr_check_repeat_ok [OF ok, of i "i = bq_num_parts ctx - 1" part] i by blast
  have "length (bq_seen ctx) = 162" "i < 1296"
    using ok d i by (auto simp: bbqr_ok_def bbqr_running_def)
  then have "part_seen ctx i = Some True" using part_seen_at assms(4) by simp
  then show ?thesis using r assms(2-5)
    by (auto simp: bbqr_check_repeat_def Let_def buf_read_def split: if_splits)
qed

section \<open>Properties\<close>

text \<open>Whatever bytes a QR frame holds, \<open>bbqr_collect\<close> neither aborts nor writes outside its
  buffers, and the context stays consistent: the bitmap counts the parts stored, the buffer has
  room for every part, and every part stored has the right length.\<close>

lemma bbqr_collect_total:
  assumes "bbqr_ok tinfl ctx" and "\<And>n. length (alloc n) = n"
  shows "\<exists>res ctx'. bbqr_collect alloc hex ctx data = Some (res, ctx') \<and> bbqr_ok tinfl ctx'"
  using collect_safe [OF assms, of hex data] by blast

text \<open>Only a complete collection is ever handed out: \<open>bbqr_finalise\<close> does not abort, keeps the
  context consistent, and when it returns data every part has been seen and the data are the
  buffer's bytes, or for a compressed transfer what the inflater makes of all of them.\<close>

lemma bbqr_finalise_complete_only:
  assumes "bbqr_ok tinfl ctx"
  shows "\<exists>r ctx'. bbqr_finalise tinfl ctx = Some (r, ctx') \<and> bbqr_ok tinfl ctx' \<and>
    (r \<noteq> None \<longrightarrow> (\<forall>i<bq_num_parts ctx. seen_at ctx i) \<and> bq_num_parts ctx \<noteq> 0) \<and>
    (\<forall>out ft. r = Some (out, ft) \<longrightarrow> ft = bq_file_type ctx \<and> (\<exists>d. bq_data ctx = Some d \<and>
       (if bq_encoding ctx = chr CHR ''Z''
        then tinfl (take (bq_total ctx) d) MAX_INPUT_MSG_SIZE = (True, bq_total ctx, out)
        else out = take (bq_total ctx) d)))"
  using finalise_safe [OF assms] all_seen_iff [OF assms] by blast

text \<open>C10. A BBQr transfer arrives intact: the frames of a payload cut into parts, scanned in any
  order and any number of times, complete the collection, and \<open>bbqr_finalise\<close> returns exactly the
  parts joined together (inflated, when the encoding says so). The one thing the reader cannot
  use is the final frame of a longer transfer seen before any other: it is passed over, and the
  frames after it must hold every part.\<close>

theorem bbqr_transfer_correct:
  assumes "transfer_ok parts" and "length (parts ! 0) \<le> BBQR_MAX_FRAME_DECODED"
    and "1 < length parts \<Longrightarrow> 5 dvd length (parts ! 0)"
    and "encoding = chr CHR ''2'' \<or> encoding = chr CHR ''Z''" and "is_known_file_type file_type"
    and "set idx \<subseteq> {..<length parts}"
    and "{..<length parts} \<subseteq> set (dropWhile (\<lambda>i. i = length parts - 1 \<and> 1 < length parts) idx)"
    and "\<And>n. length (alloc n) = n"
  shows "\<exists>ctx ctx'. bbqr_feed alloc hex bbqr_zero BBQR_REJECTED
       (map (\<lambda>i. bbqr_frame encoding file_type (length parts) i (parts ! i)) idx) = Some (BBQR_COMPLETE, ctx) \<and>
     bbqr_finalise tinfl ctx = Some (if encoding = chr CHR ''Z'' then
            (case tinfl (concat parts) MAX_INPUT_MSG_SIZE of (ended, consumed, out) \<Rightarrow>
               if ended \<and> consumed = length (concat parts) \<and> out \<noteq> [] then Some (out, file_type) else None)
          else Some (concat parts, file_type), ctx')"
proof -
  let ?f = "\<lambda>i. bbqr_frame encoding file_type (length parts) i (parts ! i)"
  have n: "length parts \<le> 1295" using assms(1) by (simp only: transfer_ok_def)
  have frame: "carries hex (?f i) encoding file_type (length parts) i (parts ! i)" if i: "i < length parts" for i
  proof (rule frame_carries [OF assms(4,5) i n])
    show "parts ! i \<noteq> []" using assms(1) i unfolding transfer_ok_def by (meson nth_mem)
    show "length (parts ! i) \<le> BBQR_MAX_FRAME_DECODED" using transfer_fits [OF assms(1) i] assms(2) by simp
    show "5 dvd length (parts ! i)" if "i \<noteq> length parts - 1"
      using that i assms(3) transfer_full_len [OF assms(1), of i] by simp
  qed
  have "list_all2 (\<lambda>f i. carries hex f encoding file_type (length parts) i (parts ! i)) (map ?f idx) idx"
    using assms(6) frame by (auto simp: list_all2_conv_all_nth subset_iff)
  moreover have empty: "bq_num_parts bbqr_zero = 0" by (simp add: bbqr_zero_def)
  ultimately obtain ctx where ctx: "bbqr_feed alloc hex bbqr_zero BBQR_REJECTED (map ?f idx) = Some (BBQR_COMPLETE, ctx)"
    "bbqr_ok tinfl ctx" "tracks ctx encoding file_type parts" "bq_num_parts ctx = length parts"
    "\<forall>j<length parts. seen_at ctx j"
    using feed_from_empty [OF assms(8,1) _ bbqr_zero_ok empty assms(7)] by blast
  then show ?thesis using finalise_complete [OF ctx(2,3) assms(1) ctx(4,5)] by blast
qed

theorem bbqr_transfer_correct_witness:
  "\<exists>ctx ctx'. bbqr_feed (\<lambda>n. replicate n 0) (\<lambda>_ _. None) bbqr_zero BBQR_REJECTED
       (map (\<lambda>i. bbqr_frame (chr CHR ''2'') (chr CHR ''P'') 2 i ([[1,2,3,4,5], [6]] ! i)) [1, 0, 0, 1]) = Some (BBQR_COMPLETE, ctx) \<and>
     bbqr_finalise (\<lambda>_ _. (False, 0, [])) ctx = Some (Some ([1,2,3,4,5,6], chr CHR ''P''), ctx')"
proof -
  let ?p = "[[1,2,3,4,5], [6]] :: bytes list"
  have ok: "transfer_ok ?p" by (simp add: transfer_ok_def bbqr_consts)
  have t: "is_known_file_type (chr CHR ''P'')" by (simp add: is_known_file_type_def)
  have z: "chr CHR ''2'' \<noteq> chr CHR ''Z''" by (simp add: chr_def)
  have five: "5 dvd length (?p ! 0)" by (simp add: numeral_eq_Suc)
  have idx: "{..<length ?p} \<subseteq> set (dropWhile (\<lambda>i. i = length ?p - 1 \<and> 1 < length ?p) [1, 0, 0, 1])" by auto
  note transfer = bbqr_transfer_correct [OF ok _ five _ t _ idx, of "chr CHR ''2''" "\<lambda>n. replicate n 0" "\<lambda>_ _. None" "\<lambda>_ _. (False, 0, [])"]
  have two: "length ?p = 2" and cat: "concat ?p = [1,2,3,4,5,6]" by simp_all
  show ?thesis
    by (rule transfer [unfolded two cat if_not_P [OF z]]) (simp_all add: bbqr_consts)
qed

text \<open>A part that repeats a known index with other bytes starts the collection over: the result
  is the one the frame gives on an emptied context, so bytes of two payloads never mix.\<close>

lemma bbqr_conflict_restarts:
  assumes "bbqr_ok tinfl ctx" and "\<And>n. length (alloc n) = n" and c: "carries hex data encoding file_type n i part"
    and run: "bq_num_parts ctx = n" "bq_encoding ctx = encoding" "bq_file_type ctx = file_type" "bq_data ctx = Some d"
    and seen: "seen_at ctx i"
    and other: "take (if i = n - 1 then bq_final_len ctx else bq_block_len ctx) (drop (i * bq_block_len ctx) d) \<noteq> part"
  shows "bbqr_collect alloc hex ctx data = bbqr_collect alloc hex (collection_reset ctx) data"
proof -
  let ?x = "\<lambda>s. ctx \<lparr> bq_scratch := s \<rparr>"
  have "bbqr_check_repeat (?x s) i (i = n - 1) part = Some (None, collection_reset (?x s))" for s
    using conflict_reset [OF assms(1) run(4) carries_bounds(3) [OF c, folded run(1)] seen, of part] other run(1)
    by (simp add: check_repeat_scratch collection_reset_scratch)
  moreover have "bbqr_check_repeat (collection_reset c) i (i = n - 1) part = Some (None, collection_reset c)" for c
    by (simp add: bbqr_check_repeat_def collection_reset_def)
  moreover have "bq_num_parts (collection_reset ctx) = 0" "bq_scratch (collection_reset ctx) = bq_scratch ctx"
    by (simp_all add: collection_reset_def)
  ultimately show ?thesis
    using c run by (auto simp: bbqr_collect_def carries_def Let_def collection_reset_scratch split: option.splits)
qed

end
