(* ===== verification/Le_Bytes.thy ===== *)
theory Le_Bytes
  imports Jade_Prelude
begin

text \<open>
  Little-endian integers in byte buffers: \<open>read_le32\<close> and \<open>write_le32\<close> of
  \<open>pijade/host/settings_store.c\<close>, which the slot frames, the settings body and the NVS image all
  use in one form or another, with their round trip and the injectivity it gives.
\<close>

definition read_le32 :: "bytes \<Rightarrow> u32" where
  "read_le32 p = ucast (p ! 0) OR push_bit 8 (ucast (p ! 1)) OR push_bit 16 (ucast (p ! 2)) OR push_bit 24 (ucast (p ! 3))"

definition write_le32 :: "u32 \<Rightarrow> bytes" where
  "write_le32 v = [ucast v, ucast (drop_bit 8 v), ucast (drop_bit 16 v), ucast (drop_bit 24 v)]"

definition read_le16 :: "bytes \<Rightarrow> nat" where
  "read_le16 p = unat (p ! 0) OR push_bit 8 (unat (p ! 1))"

definition write_le16 :: "nat \<Rightarrow> bytes" where
  "write_le16 n = [of_nat n, of_nat (drop_bit 8 n)]"

lemma length_write_le32 [simp]: "length (write_le32 v) = 4"
  by (simp add: write_le32_def)

lemma length_write_le16 [simp]: "length (write_le16 n) = 2"
  by (simp add: write_le16_def)

lemma read_write_le32 [simp]: "read_le32 (write_le32 v @ rest) = v"
proof (rule bit_word_eqI)
  fix i assume "i < LENGTH(32)"
  then have i: "i < 32" by simp
  have "bit (read_le32 (write_le32 v @ rest)) i \<longleftrightarrow>
      i < 8 \<and> bit v i \<or> 8 \<le> i \<and> i < 16 \<and> bit v i \<or> 16 \<le> i \<and> i < 24 \<and> bit v i \<or> 24 \<le> i \<and> bit v i"
    using i unfolding read_le32_def write_le32_def
    by (auto simp: bit_or_iff bit_push_bit_iff bit_ucast_iff bit_drop_bit_eq)
  then show "bit (read_le32 (write_le32 v @ rest)) i \<longleftrightarrow> bit v i" using i by linarith
qed

lemma read_write_le32_Nil [simp]: "read_le32 (write_le32 v) = v"
  using read_write_le32 [of v "[]"] by simp

lemma read_le32_take: "4 \<le> n \<Longrightarrow> read_le32 (take n p) = read_le32 p"
  by (simp add: read_le32_def)

lemma read_write_le16 [simp]:
  assumes "n < 65536"
  shows "read_le16 (write_le16 n @ rest) = n"
proof -
  have "push_bit 8 (drop_bit 8 n) OR take_bit 8 n = n"
    by (rule bit_eqI) (auto simp: bit_or_iff bit_push_bit_iff bit_take_bit_iff bit_drop_bit_eq)
  moreover have "drop_bit 8 n < 256" using assms by (simp add: drop_bit_eq_div less_mult_imp_div_less)
  ultimately show ?thesis
    by (simp add: read_le16_def write_le16_def unat_of_nat take_bit_eq_mod or.commute)
qed

lemma read_le16_bound: "read_le16 p < 65536"
proof -
  have "take_bit 16 (read_le16 p) = read_le16 p"
    by (rule bit_eqI) (auto simp: read_le16_def bit_take_bit_iff bit_or_iff bit_push_bit_iff bit_unsigned_iff
        dest: bit_imp_le_length)
  then show ?thesis by (simp add: take_bit_nat_eq_self_iff)
qed

end
