(* ===== verification/Settings_Store.thy ===== *)
theory Settings_Store
  imports Le_Bytes
begin

text \<open>
  \<open>pijade/host/settings_store.c\<close>: the settings blob kept in two alternating files on a FAT
  partition, so that the last complete generation survives a power cut or a failed write.

  The operating system is explicit. The disk is a map from paths to nodes (a regular file with
  its content, or a directory). Every system call that can fail has its outcome in a record
  \<open>slot_io\<close> the operations take as an argument, and \<open>read\<close> and \<open>write\<close> take the list of what
  successive calls return, short counts and interruptions included. A power cut in the middle of
  a write leaves the disk that a failing \<open>write\<close> leaves there, so a theorem over all outcomes
  covers both. zlib's \<open>crc32\<close> is a parameter. Messages on stderr and the wiping of freed memory
  are not part of the model, nor is the best-effort flush of the parent directory.
\<close>

section \<open>Data\<close>

definition SETTINGS_MAX_LEN :: nat where "SETTINGS_MAX_LEN = 131072"
definition SLOT_HEADER_LEN :: nat where "SLOT_HEADER_LEN = 16"
definition SLOT_CRC_LEN :: nat where "SLOT_CRC_LEN = 4"
definition SLOT_OVERHEAD :: nat where "SLOT_OVERHEAD = SLOT_HEADER_LEN + SLOT_CRC_LEN"
definition SLOT_MAGIC :: bytes where "SLOT_MAGIC = str ''PJSLOT01''"

lemmas slot_consts = SETTINGS_MAX_LEN_def SLOT_HEADER_LEN_def SLOT_CRC_LEN_def SLOT_OVERHEAD_def

datatype slot_node = Regular bytes | Directory

type_synonym disk = "bytes \<Rightarrow> slot_node option"

text \<open>What one \<open>read\<close> or \<open>write\<close> returns: -1 with \<open>EINTR\<close>, -1 with another error, or a count (at
  most what was asked for). When the list of outcomes runs out every call succeeds in full.\<close>

datatype xfer = Interrupted | Failed | Moved nat

record slot_io =
  io_open_ok :: bool
  io_fstat_ok :: bool
  io_malloc_ok :: bool
  io_malloc2_ok :: bool
  io_xfer :: "xfer list"
  io_fsync_ok :: bool
  io_close_ok :: bool
  io_unlink_ok :: bool
  io_lstat_ok :: bool

text \<open>No slot known newest is the index -1 of the source.\<close>

record settings_store =
  st_slots :: "bytes list"
  st_newest_slot :: "nat option"
  st_newest_seq :: u32
  st_next_slot :: nat

record slot_contents =
  sc_data :: bytes
  sc_seq :: u32

datatype slot_header_state = SLOT_HEADER_ABSENT | SLOT_HEADER_INVALID | SLOT_HEADER_KNOWN u32 | SLOT_HEADER_UNKNOWN

section \<open>Operations\<close>

text \<open>The bytes that reached the file, whether all did, and the outcomes not used up.\<close>

fun write_all :: "xfer list \<Rightarrow> bytes \<Rightarrow> bytes \<times> bool \<times> xfer list" where
  "write_all ios [] = ([], True, ios)"
| "write_all [] data = (data, True, [])"
| "write_all (Interrupted # ios) data = write_all ios data"
| "write_all (Failed # ios) data = ([], False, ios)"
| "write_all (Moved n # ios) data =
     (if n = 0 then ([], False, ios)
      else let (written, ok, ios) = write_all ios (drop n data) in (take n data @ written, ok, ios))"

text \<open>\<open>file\<close> is what is left of the file. A \<open>read\<close> returns 0 only at its end.\<close>

fun read_all :: "xfer list \<Rightarrow> bytes \<Rightarrow> nat \<Rightarrow> bytes option" where
  "read_all ios file 0 = Some []"
| "read_all [] file len = (if length file < len then None else Some (take len file))"
| "read_all (Interrupted # ios) file len = read_all ios file len"
| "read_all (Failed # ios) file len = None"
| "read_all (Moved n # ios) file len =
     (if file = [] then None
      else let got = min (max 1 n) (min len (length file)) in
        map_option (\<lambda>rest. take got file @ rest) (read_all ios (drop got file) (len - got)))"

text \<open>The header loop of the probe stops at the end of the file without an error; \<open>None\<close> is an error.\<close>

fun read_upto :: "xfer list \<Rightarrow> bytes \<Rightarrow> nat \<Rightarrow> bytes option" where
  "read_upto ios file 0 = Some []"
| "read_upto [] file len = Some (take len file)"
| "read_upto (Interrupted # ios) file len = read_upto ios file len"
| "read_upto (Failed # ios) file len = None"
| "read_upto (Moved n # ios) file len =
     (if file = [] then Some []
      else let got = min (max 1 n) (min len (length file)) in
        map_option (\<lambda>rest. take got file @ rest) (read_upto ios (drop got file) (len - got)))"

text \<open>The reasons a slot is ignored; an absent slot is ignored silently (\<open>Inl None\<close>).\<close>

definition check_frame :: "(bytes \<Rightarrow> u32) \<Rightarrow> bytes \<Rightarrow> string option" where
  "check_frame crc32 frame =
     (let payload_len = unat (read_le32 (drop 12 frame)) in
      if take 8 frame \<noteq> SLOT_MAGIC then Some ''invalid magic''
      else if payload_len = 0 \<or> payload_len > SETTINGS_MAX_LEN then Some ''invalid length''
      else if length frame \<noteq> SLOT_OVERHEAD + payload_len then Some ''invalid size''
      else if read_le32 (drop (SLOT_HEADER_LEN + payload_len) frame) \<noteq> crc32 (take (SLOT_HEADER_LEN + payload_len) frame)
      then Some ''invalid crc''
      else None)"

definition read_slot :: "(bytes \<Rightarrow> u32) \<Rightarrow> slot_io \<Rightarrow> slot_node option \<Rightarrow> string option + slot_contents" where
  "read_slot crc32 io node =
     (if \<not> io_open_ok io then Inl (Some ''error'')
      else case node of
        None \<Rightarrow> Inl None
      | Some n \<Rightarrow>
        if \<not> io_fstat_ok io then Inl (Some ''error'')
        else case n of
          Directory \<Rightarrow> Inl (Some ''invalid size'')
        | Regular file \<Rightarrow>
          if length file < SLOT_OVERHEAD \<or> length file > SLOT_OVERHEAD + SETTINGS_MAX_LEN then Inl (Some ''invalid size'')
          else if \<not> io_malloc_ok io then Inl (Some ''out of memory'')
          else case read_all (io_xfer io) file (length file) of
            None \<Rightarrow> Inl (Some ''error'')
          | Some frame \<Rightarrow>
            case check_frame crc32 frame of
              Some reason \<Rightarrow> Inl (Some reason)
            | None \<Rightarrow>
              if \<not> io_malloc2_ok io then Inl (Some ''out of memory'')
              else Inr \<lparr> sc_data = take (unat (read_le32 (drop 12 frame))) (drop SLOT_HEADER_LEN frame),
                         sc_seq = read_le32 (drop 8 frame) \<rparr>)"

text \<open>Opening a directory for reading succeeds, reading from it fails.\<close>

definition probe_slot_header :: "slot_io \<Rightarrow> slot_node option \<Rightarrow> slot_header_state" where
  "probe_slot_header io node =
     (if \<not> io_open_ok io then SLOT_HEADER_UNKNOWN
      else case node of
        None \<Rightarrow> SLOT_HEADER_ABSENT
      | Some Directory \<Rightarrow> SLOT_HEADER_UNKNOWN
      | Some (Regular file) \<Rightarrow>
          (case read_upto (io_xfer io) file SLOT_HEADER_LEN of
             None \<Rightarrow> SLOT_HEADER_UNKNOWN
           | Some header \<Rightarrow>
             if length header = SLOT_HEADER_LEN \<and> take 8 header = SLOT_MAGIC
             then SLOT_HEADER_KNOWN (read_le32 (drop 8 header)) else SLOT_HEADER_INVALID))"

text \<open>\<open>None\<close> is the NULL handle; \<open>malloc_ok\<close> says whether the allocations succeed.\<close>

definition settings_store_open :: "nat \<Rightarrow> bool \<Rightarrow> bytes option \<Rightarrow> settings_store option" where
  "settings_store_open size_max malloc_ok base =
     (case base of None \<Rightarrow> None
      | Some b \<Rightarrow>
        if length b > size_max - 3 \<or> \<not> malloc_ok then None
        else Some \<lparr> st_slots = [b @ str ''.a'', b @ str ''.b''], st_newest_slot = None, st_newest_seq = 0,
                    st_next_slot = 0 \<rparr>)"

definition slot_path :: "settings_store \<Rightarrow> nat \<Rightarrow> bytes" where
  "slot_path store i = st_slots store ! i"

text \<open>One outcome record per slot. The result is the blob, \<open>None\<close> for false.\<close>

definition settings_store_read ::
  "(bytes \<Rightarrow> u32) \<Rightarrow> slot_io \<Rightarrow> slot_io \<Rightarrow> settings_store \<Rightarrow> disk \<Rightarrow> bytes option \<times> settings_store" where
  "settings_store_read crc32 io_a io_b store disk =
     (let a = read_slot crc32 io_a (disk (slot_path store 0));
          b = read_slot crc32 io_b (disk (slot_path store 1));
          lost = (None, store \<lparr> st_newest_slot := None, st_next_slot := 0 \<rparr>);
          won = (\<lambda>winner slot. (Some (sc_data slot), store \<lparr> st_newest_slot := Some winner,
             st_newest_seq := (if sc_seq slot > st_newest_seq store then sc_seq slot else st_newest_seq store),
             st_next_slot := 1 - winner \<rparr>)) in
      case (a, b) of
        (Inl _, Inl _) \<Rightarrow> lost
      | (Inr x, Inl _) \<Rightarrow> won 0 x
      | (Inl _, Inr y) \<Rightarrow> won 1 y
      | (Inr x, Inr y) \<Rightarrow> if sc_seq y > sc_seq x then won 1 y else won 0 x)"

definition slot_frame :: "(bytes \<Rightarrow> u32) \<Rightarrow> u32 \<Rightarrow> bytes \<Rightarrow> bytes" where
  "slot_frame crc32 seq data =
     (let head = SLOT_MAGIC @ write_le32 seq @ write_le32 (of_nat (length data)) @ data in
      head @ write_le32 (crc32 head))"

text \<open>Zeros over the whole file, in chunks of 4096 bytes; the bytes overwritten so far.\<close>

function zero_fill :: "xfer list \<Rightarrow> nat \<Rightarrow> bytes \<times> bool" where
  "zero_fill ios remaining =
     (if remaining = 0 then ([], True)
      else let chunk = min 4096 remaining; (written, ok, ios) = write_all ios (replicate chunk 0) in
        if \<not> ok then (written, False)
        else let (rest, ok) = zero_fill ios (remaining - chunk) in (written @ rest, ok))"
  by pat_completeness auto
termination by (relation "measure snd") auto

declare zero_fill.simps [simp del]

definition erase_slot :: "slot_io \<Rightarrow> bytes \<Rightarrow> disk \<Rightarrow> bool \<times> disk" where
  "erase_slot io path disk =
     (if \<not> io_lstat_ok io then (False, disk)
      else case disk path of
        None \<Rightarrow> (True, disk)
      | Some Directory \<Rightarrow> (False, disk)
      | Some (Regular file) \<Rightarrow>
          if \<not> io_open_ok io then (False, disk)
          else
            let (written, ok) = (if io_fstat_ok io then zero_fill (io_xfer io) (length file) else ([], False));
                disk = disk(path \<mapsto> Regular (written @ drop (length written) file));
                ok = (ok \<and> io_fsync_ok io \<and> io_close_ok io) in
            if ok \<and> io_unlink_ok io then (True, disk(path := None)) else (False, disk))"

definition slot_present :: "bool \<Rightarrow> bytes \<Rightarrow> disk \<Rightarrow> bool" where
  "slot_present lstat_ok path disk \<longleftrightarrow> \<not> lstat_ok \<or> disk path \<noteq> None"

text \<open>The outcomes of the probe, of the write and of the cleanup of an unreadable other slot.\<close>

definition settings_store_write ::
  "(bytes \<Rightarrow> u32) \<Rightarrow> slot_io \<Rightarrow> slot_io \<Rightarrow> slot_io \<Rightarrow> settings_store \<Rightarrow> disk \<Rightarrow> bytes \<Rightarrow> bool \<times> settings_store \<times> disk" where
  "settings_store_write crc32 io_probe io io_erase store disk data =
     (if data = [] \<or> length data > SETTINGS_MAX_LEN then (False, store, disk)
      else
        let target = st_next_slot store;
            other = 1 - target;
            header_state = probe_slot_header io_probe (disk (slot_path store other));
            store = (case header_state of
               SLOT_HEADER_KNOWN probed_seq \<Rightarrow>
                 (if probed_seq > st_newest_seq store then store \<lparr> st_newest_seq := probed_seq \<rparr> else store)
             | _ \<Rightarrow> store) in
        if st_newest_seq store = - 1 then (False, store, disk)
        else
          let seq = st_newest_seq store + 1;
              store = store \<lparr> st_newest_seq := seq \<rparr> in
          if \<not> io_malloc_ok io then (False, store, disk)
          else
            let frame = slot_frame crc32 seq data;
                opened = (io_open_ok io \<and> disk (slot_path store target) \<noteq> Some Directory);
                (written, ok, _) = write_all (io_xfer io) frame;
                disk = (if opened then disk(slot_path store target \<mapsto> Regular written) else disk);
                ok = (opened \<and> ok \<and> io_fsync_ok io \<and> io_close_ok io) in
            if \<not> ok then
              (False, if st_newest_slot store = None then store \<lparr> st_next_slot := 1 - target \<rparr> else store, disk)
            else
              let store = store \<lparr> st_newest_slot := Some target, st_next_slot := 1 - target \<rparr> in
              if header_state = SLOT_HEADER_UNKNOWN then
                let (erased, disk) = erase_slot io_erase (slot_path store other) disk in (erased, store, disk)
              else (True, store, disk))"

text \<open>The outcomes of the two erasures and of the two \<open>lstat\<close> calls that check them.\<close>

definition settings_store_erase ::
  "slot_io \<Rightarrow> slot_io \<Rightarrow> bool \<Rightarrow> bool \<Rightarrow> settings_store \<Rightarrow> disk \<Rightarrow> bool \<times> settings_store \<times> disk" where
  "settings_store_erase io_a io_b lstat_a lstat_b store disk =
     (let (_, disk) = erase_slot io_a (slot_path store 0) disk;
          (_, disk) = erase_slot io_b (slot_path store 1) disk;
          present_a = slot_present lstat_a (slot_path store 0) disk;
          present_b = slot_present lstat_b (slot_path store 1) disk;
          next_slot = (if present_a \<noteq> present_b then (if present_a then 0 else 1) else 0) in
      (\<not> present_a \<and> \<not> present_b, store \<lparr> st_newest_slot := None, st_next_slot := next_slot \<rparr>, disk))"

section \<open>Transfers\<close>

lemma take_length_take: "take (length (take k xs)) xs = take k xs"
  by (simp add: min_def)

lemma write_all_prefix:
  "write_all ios data = (w, ok, ios') \<Longrightarrow> w = take (length w) data \<and> (ok \<longrightarrow> w = data)"
proof (induction ios data arbitrary: w ok ios' rule: write_all.induct)
  case (5 n ios b data)
  show ?case
  proof (cases n)
    case (Suc m)
    obtain w1 ok1 r1 where r: "write_all ios (drop n (b # data)) = (w1, ok1, r1)" by (metis prod_cases3)
    then have w: "w = take n (b # data) @ w1" "ok = ok1" using "5.prems" Suc by auto
    have ih: "w1 = take (length w1) (drop n (b # data))" "ok1 \<longrightarrow> w1 = drop n (b # data)"
      using "5.IH" [of w1 ok1 r1] r Suc by auto
    have "take n (b # data) @ take (length w1) (drop n (b # data)) = take (n + length w1) (b # data)" by (simp only: take_add)
    then have "w = take (n + length w1) (b # data)" using w(1) ih(1) by simp
    then have "w = take (length w) (b # data)" using take_length_take [of "n + length w1" "b # data"] by simp
    moreover have "ok \<longrightarrow> w = b # data" using w ih(2) by (metis append_take_drop_id)
    ultimately show ?thesis by blast
  qed (use "5.prems" in simp)
qed auto

lemma write_all_full: "write_all [] data = (data, True, [])"
  by (cases data) simp_all

lemma read_all_take: "read_all ios file len = Some x \<Longrightarrow> len \<le> length file \<and> x = take len file"
proof (induction ios "file" len arbitrary: x rule: read_all.induct)
  case (5 n ios fl len)
  define got where "got = min (max 1 n) (min (Suc len) (length fl))"
  have f: "fl \<noteq> []" using "5.prems" by (auto split: if_splits)
  then have "read_all (Moved n # ios) fl (Suc len) = map_option (\<lambda>rest. take got fl @ rest) (read_all ios (drop got fl) (Suc len - got))"
    by (simp add: got_def Let_def)
  then obtain y where y: "read_all ios (drop got fl) (Suc len - got) = Some y" "x = take got fl @ y"
    using "5.prems" by auto
  from "5.IH" [OF f got_def y(1)] have ih: "Suc len - got \<le> length (drop got fl)" "y = take (Suc len - got) (drop got fl)" by auto
  have got: "got \<le> Suc len" "got \<le> length fl" by (simp_all add: got_def)
  have "take (got + (Suc len - got)) fl = take got fl @ y" unfolding take_add ih(2) ..
  then show ?case using y(2) ih(1) got by simp
qed (auto split: if_splits)

lemma read_all_ok: "Failed \<notin> set ios \<Longrightarrow> len \<le> length file \<Longrightarrow> read_all ios file len = Some (take len file)"
proof (induction ios "file" len rule: read_all.induct)
  case (5 n ios fl len)
  define got where "got = min (max 1 n) (min (Suc len) (length fl))"
  have f: "fl \<noteq> []" using "5.prems" by auto
  have got: "got \<le> Suc len" "got \<le> length fl" by (simp_all add: got_def)
  have "read_all ios (drop got fl) (Suc len - got) = Some (take (Suc len - got) (drop got fl))"
    using "5.IH" [OF f got_def] "5.prems" got by simp
  moreover have "take (got + (Suc len - got)) fl = take got fl @ take (Suc len - got) (drop got fl)" by (simp only: take_add)
  moreover have "read_all (Moved n # ios) fl (Suc len) = map_option (\<lambda>rest. take got fl @ rest) (read_all ios (drop got fl) (Suc len - got))"
    using f by (simp add: got_def Let_def)
  ultimately show ?case using got by simp
qed auto

lemma read_upto_take: "read_upto ios file len = Some x \<Longrightarrow> x = take len file"
proof (induction ios "file" len arbitrary: x rule: read_upto.induct)
  case (5 n ios fl len)
  define got where "got = min (max 1 n) (min (Suc len) (length fl))"
  show ?case
  proof (cases "fl = []")
    case False
    then have "read_upto (Moved n # ios) fl (Suc len) = map_option (\<lambda>rest. take got fl @ rest) (read_upto ios (drop got fl) (Suc len - got))"
      by (simp add: got_def Let_def)
    then obtain y where y: "read_upto ios (drop got fl) (Suc len - got) = Some y" "x = take got fl @ y"
      using "5.prems" by auto
    have ih: "y = take (Suc len - got) (drop got fl)" using "5.IH" [OF False got_def y(1)] .
    have "got \<le> Suc len" by (simp add: got_def)
    moreover have "take (got + (Suc len - got)) fl = take got fl @ y" unfolding take_add ih ..
    ultimately show ?thesis using y(2) by simp
  qed (use "5.prems" in simp)
qed auto

section \<open>Frames\<close>

text \<open>What a slot holds when every system call succeeds.\<close>

definition io_fine :: slot_io where
  "io_fine = \<lparr> io_open_ok = True, io_fstat_ok = True, io_malloc_ok = True, io_malloc2_ok = True, io_xfer = [],
     io_fsync_ok = True, io_close_ok = True, io_unlink_ok = True, io_lstat_ok = True \<rparr>"

definition io_reads :: "slot_io \<Rightarrow> bool" where
  "io_reads io \<longleftrightarrow> io_open_ok io \<and> io_fstat_ok io \<and> io_malloc_ok io \<and> io_malloc2_ok io \<and> Failed \<notin> set (io_xfer io)"

definition slot_view :: "(bytes \<Rightarrow> u32) \<Rightarrow> slot_node option \<Rightarrow> slot_contents option" where
  "slot_view crc32 node = (case read_slot crc32 io_fine node of Inl _ \<Rightarrow> None | Inr c \<Rightarrow> Some c)"

lemma slot_view_None [simp]: "slot_view crc32 None = None"
  by (simp add: slot_view_def read_slot_def io_fine_def)

lemma slot_view_Directory [simp]: "slot_view crc32 (Some Directory) = None"
  by (simp add: slot_view_def read_slot_def io_fine_def)

lemma slot_view_Regular:
  "slot_view crc32 (Some (Regular file)) =
     (if length file < SLOT_OVERHEAD \<or> length file > SLOT_OVERHEAD + SETTINGS_MAX_LEN \<or> check_frame crc32 file \<noteq> None then None
      else Some \<lparr> sc_data = take (unat (read_le32 (drop 12 file))) (drop SLOT_HEADER_LEN file), sc_seq = read_le32 (drop 8 file) \<rparr>)"
  by (auto simp: slot_view_def read_slot_def io_fine_def read_all_ok split: option.split)

lemma read_slot_view: "read_slot crc32 io node = Inr c \<Longrightarrow> slot_view crc32 node = Some c"
  by (auto simp: slot_view_Regular read_slot_def dest: read_all_take split: if_splits option.splits slot_node.splits)

lemma read_slot_ok: "io_reads io \<Longrightarrow> slot_view crc32 node = Some c \<Longrightarrow> read_slot crc32 io node = Inr c"
  by (auto simp: slot_view_def read_slot_def io_fine_def io_reads_def read_all_ok split: if_splits option.splits slot_node.splits)

lemma length_slot_magic [simp]: "length SLOT_MAGIC = 8"
  by (simp add: SLOT_MAGIC_def)

lemma length_slot_frame [simp]: "length (slot_frame crc32 seq data) = SLOT_OVERHEAD + length data"
  by (simp add: slot_frame_def slot_consts Let_def)

lemma slot_frame_header:
  "take 8 (slot_frame crc32 seq data) = SLOT_MAGIC" "read_le32 (drop 8 (slot_frame crc32 seq data)) = seq"
  "read_le32 (drop 12 (slot_frame crc32 seq data)) = of_nat (length data)"
  "drop 16 (slot_frame crc32 seq data) = data @ write_le32 (crc32 (take (16 + length data) (slot_frame crc32 seq data)))"
  by (simp_all add: slot_frame_def Let_def)

lemma slot_view_frame:
  assumes "data \<noteq> []" and "length data \<le> SETTINGS_MAX_LEN"
  shows "slot_view crc32 (Some (Regular (slot_frame crc32 seq data))) = Some \<lparr> sc_data = data, sc_seq = seq \<rparr>"
proof -
  have n: "unat (of_nat (length data) :: u32) = length data"
    using assms(2) by (simp add: unat_of_nat slot_consts)
  have "drop (16 + length data) (slot_frame crc32 seq data) = write_le32 (crc32 (take (16 + length data) (slot_frame crc32 seq data)))"
    using slot_frame_header(4) [of crc32 seq data] by (metis add.commute append_eq_conv_conj drop_drop)
  then have "check_frame crc32 (slot_frame crc32 seq data) = None"
    using assms n by (simp add: check_frame_def slot_frame_header slot_consts)
  then show ?thesis
    using assms n by (simp add: slot_view_Regular slot_frame_header slot_consts)
qed

text \<open>A frame cut short is never taken for a frame.\<close>

lemma slot_view_torn:
  assumes "length data \<le> SETTINGS_MAX_LEN" and "w = take (length w) (slot_frame crc32 seq data)" and "w \<noteq> slot_frame crc32 seq data"
  shows "slot_view crc32 (Some (Regular w)) = None"
proof (cases "length w < SLOT_OVERHEAD")
  case False
  let ?f = "slot_frame crc32 seq data"
  have n: "unat (of_nat (length data) :: u32) = length data"
    using assms(1) by (simp add: unat_of_nat slot_consts)
  have len: "16 \<le> length w" "4 \<le> length w - 12" using False by (simp_all add: slot_consts)
  have "length w < length ?f" using assms(2,3) by (metis linorder_not_le take_all)
  moreover have "read_le32 (drop 12 w) = of_nat (length data)"
    by (subst assms(2)) (simp add: drop_take read_le32_take [OF len(2)] slot_frame_header)
  ultimately have "check_frame crc32 w \<noteq> None" by (simp add: check_frame_def Let_def n)
  then show ?thesis by (simp add: slot_view_Regular)
qed (simp add: slot_view_Regular)

text \<open>The probe and the reader agree on the sequence number.\<close>

lemma probe_known:
  "probe_slot_header io node = SLOT_HEADER_KNOWN q \<Longrightarrow> slot_view crc32 node = Some c \<Longrightarrow> sc_seq c = q"
  by (auto simp: probe_slot_header_def slot_view_Regular slot_consts read_le32_take drop_take
      dest!: read_upto_take split: if_splits option.splits slot_node.splits)

lemma probe_not_valid:
  "probe_slot_header io node = SLOT_HEADER_ABSENT \<or> probe_slot_header io node = SLOT_HEADER_INVALID \<Longrightarrow> slot_view crc32 node = None"
  by (auto simp: probe_slot_header_def slot_view_Regular slot_consts check_frame_def
      dest!: read_upto_take split: if_splits option.splits slot_node.splits)

section \<open>Erasing\<close>

lemma zero_fill_zeros:
  "zero_fill ios n = (w, ok) \<Longrightarrow> w = replicate (length w) 0 \<and> length w \<le> n \<and> (ok \<longrightarrow> length w = n)"
proof (induction ios n arbitrary: w ok rule: zero_fill.induct)
  case (1 ios n)
  show ?case
  proof (cases "n = 0")
    case False
    obtain w1 ok1 r where w1: "write_all ios (replicate (min 4096 n) 0) = (w1, ok1, r)" by (metis prod_cases3)
    note pre = write_all_prefix [OF w1]
    then have z: "w1 = replicate (length w1) 0" "length w1 \<le> min 4096 n" by (metis length_replicate length_take min.cobounded2 take_replicate)+
    show ?thesis
    proof (cases ok1)
      case True
      obtain w2 ok2 where w2: "zero_fill r (n - min 4096 n) = (w2, ok2)" by (metis prod.exhaust)
      then have "w = w1 @ w2" "ok = ok2" using "1.prems" False w1 True by (auto simp: zero_fill.simps [of ios] Let_def)
      moreover have "w2 = replicate (length w2) 0 \<and> length w2 \<le> n - min 4096 n \<and> (ok2 \<longrightarrow> length w2 = n - min 4096 n)"
        using "1.IH" [OF False refl w1 [symmetric] refl refl] w2 True by blast
      moreover have "length w1 = min 4096 n" using pre True by simp
      ultimately show ?thesis using z by (metis add_diff_cancel_left' length_append min.cobounded2 nat_add_left_cancel_le ordered_cancel_comm_monoid_diff_class.add_diff_inverse replicate_add)
    next
      case bad: False
      then have "w = w1" "\<not> ok" using "1.prems" False w1 by (auto simp: zero_fill.simps [of ios] Let_def)
      then show ?thesis using z by simp
    qed
  qed (use "1.prems" in \<open>simp add: zero_fill.simps\<close>)
qed

text \<open>A slot whose first byte was overwritten is not a frame any more.\<close>

lemma slot_view_zeroed: "slot_view crc32 (Some (Regular (0 # rest))) = None"
proof -
  have "take 8 (0 # rest) \<noteq> SLOT_MAGIC" by (simp add: SLOT_MAGIC_def chr_def)
  then show ?thesis by (simp add: slot_view_Regular check_frame_def)
qed

lemma erase_slot_effect:
  assumes "erase_slot io path disk = (ok, disk')"
  shows "p \<noteq> path \<Longrightarrow> disk' p = disk p" and "ok \<Longrightarrow> disk' path = None"
    and "disk' path = disk path \<or> slot_view crc32 (disk' path) = None"
proof -
  show "p \<noteq> path \<Longrightarrow> disk' p = disk p" and "ok \<Longrightarrow> disk' path = None"
    using assms by (auto simp: erase_slot_def Let_def split: if_splits option.splits slot_node.splits prod.splits)
  show "disk' path = disk path \<or> slot_view crc32 (disk' path) = None"
  proof (cases "\<exists>fl. disk path = Some (Regular fl) \<and> io_lstat_ok io \<and> io_open_ok io")
    case True
    then obtain fl where f: "disk path = Some (Regular fl)" "io_lstat_ok io" "io_open_ok io" by blast
    obtain w b where w: "(if io_fstat_ok io then zero_fill (io_xfer io) (length fl) else ([], False)) = (w, b)"
      by (metis prod.exhaust)
    have z: "w = replicate (length w) 0" using w zero_fill_zeros by (auto split: if_splits)
    have "disk' path = None \<or> disk' path = Some (Regular (w @ drop (length w) fl))"
      using assms f w by (auto simp: erase_slot_def Let_def split: if_splits)
    moreover have "slot_view crc32 (Some (Regular (w @ drop (length w) fl))) = None" if "w \<noteq> []"
      using z that by (metis append_Cons length_greater_0_conv replicate_Suc Suc_pred slot_view_zeroed)
    ultimately show ?thesis using f(1) by (cases w) auto
  qed (use assms in \<open>auto simp: erase_slot_def Let_def split: if_splits option.splits slot_node.splits\<close>)
qed

section \<open>The two slots\<close>

definition store_ok :: "settings_store \<Rightarrow> bool" where
  "store_ok store \<longleftrightarrow> length (st_slots store) = 2 \<and> st_slots store ! 0 \<noteq> st_slots store ! 1 \<and> st_next_slot store < 2"

text \<open>What a reader of the disk gets when every system call succeeds.\<close>

definition stored :: "(bytes \<Rightarrow> u32) \<Rightarrow> settings_store \<Rightarrow> disk \<Rightarrow> bytes option" where
  "stored crc32 store disk = fst (settings_store_read crc32 io_fine io_fine store disk)"

lemma slot_path_other: "store_ok store \<Longrightarrow> i < 2 \<Longrightarrow> slot_path store (1 - i) \<noteq> slot_path store i"
  by (auto simp: store_ok_def slot_path_def less_2_cases_iff)

lemma slot_path_update [simp]:
  "slot_path (store \<lparr> st_newest_slot := a \<rparr>) = slot_path store" "slot_path (store \<lparr> st_newest_seq := b \<rparr>) = slot_path store"
  "slot_path (store \<lparr> st_next_slot := c \<rparr>) = slot_path store"
  by (simp_all add: fun_eq_iff slot_path_def)

text \<open>Slot \<open>i\<close> is valid and beats the other one: that is what a read returns.\<close>

lemma read_winner:
  assumes "i < 2" and "io_reads io_a" and "io_reads io_b" and "slot_view crc32 (disk (slot_path store i)) = Some c"
    and "\<And>c'. slot_view crc32 (disk (slot_path store (1 - i))) = Some c' \<Longrightarrow> sc_seq c' < sc_seq c"
  shows "fst (settings_store_read crc32 io_a io_b store disk) = Some (sc_data c)"
proof -
  have cases: "read_slot crc32 io node = Inr c' \<Longrightarrow> slot_view crc32 node = Some c'" for io node c' by (rule read_slot_view)
  from assms(1) have "i = 0 \<or> i = 1" by auto
  then show ?thesis
  proof
    assume i: "i = 0"
    then have "read_slot crc32 io_a (disk (slot_path store 0)) = Inr c" using assms(2,4) by (simp add: read_slot_ok)
    moreover have "sc_seq c' < sc_seq c" if "read_slot crc32 io_b (disk (slot_path store 1)) = Inr c'" for c'
      using assms(5) cases [OF that] i by simp
    ultimately show ?thesis by (force simp: settings_store_read_def Let_def split: sum.split)
  next
    assume i: "i = 1"
    then have "read_slot crc32 io_b (disk (slot_path store 1)) = Inr c" using assms(3,4) by (simp add: read_slot_ok)
    moreover have "sc_seq c' < sc_seq c" if "read_slot crc32 io_a (disk (slot_path store 0)) = Inr c'" for c'
      using assms(5) cases [OF that] i by simp
    ultimately show ?thesis by (force simp: settings_store_read_def Let_def split: sum.split)
  qed
qed

lemma io_fine_reads [simp]: "io_reads io_fine"
  by (simp add: io_reads_def io_fine_def)

text \<open>Reads that meet no failure return the newer of the two generations held.\<close>

definition newest_of :: "slot_contents option \<Rightarrow> slot_contents option \<Rightarrow> bytes option" where
  "newest_of a b = (case a of
     None \<Rightarrow> map_option sc_data b
   | Some x \<Rightarrow> (case b of None \<Rightarrow> Some (sc_data x) | Some y \<Rightarrow> Some (sc_data (if sc_seq y > sc_seq x then y else x))))"

lemma read_slot_view_cases:
  assumes "io_reads io"
  shows "(\<exists>c. slot_view crc32 node = Some c \<and> read_slot crc32 io node = Inr c) \<or>
    (slot_view crc32 node = None \<and> (\<exists>e. read_slot crc32 io node = Inl e))"
proof (cases "slot_view crc32 node")
  case None
  then show ?thesis using read_slot_view [of crc32 io node] by (cases "read_slot crc32 io node") auto
next
  case (Some c)
  then show ?thesis using read_slot_ok [OF assms] by blast
qed

lemma read_newest:
  assumes "io_reads io_a" and "io_reads io_b"
  shows "fst (settings_store_read crc32 io_a io_b store disk) =
    newest_of (slot_view crc32 (disk (slot_path store 0))) (slot_view crc32 (disk (slot_path store 1)))"
proof -
  define a b where "a = disk (slot_path store 0)" and "b = disk (slot_path store 1)"
  note cases = read_slot_view_cases [OF assms(1), of crc32 a] read_slot_view_cases [OF assms(2), of crc32 b]
  show ?thesis
    unfolding settings_store_read_def a_def [symmetric] b_def [symmetric] newest_of_def Let_def
    using cases by (elim disjE exE conjE) simp_all
qed

lemma read_independent:
  assumes "io_reads io_a" and "io_reads io_b"
  shows "fst (settings_store_read crc32 io_a io_b store disk) = fst (settings_store_read crc32 io_fine io_fine store disk)"
  using read_newest [OF assms] read_newest [OF io_fine_reads io_fine_reads] by simp

lemma u32_less_Suc: "(q :: u32) \<noteq> - 1 \<Longrightarrow> p \<le> q \<Longrightarrow> p < q + 1"
proof -
  assume q: "q \<noteq> - 1" and le: "p \<le> q"
  have "1 + q \<noteq> 0" using q by (metis add_eq_0_iff add.commute)
  then have "unat (1 + q) = Suc (unat q)" by (rule unatSuc)
  then show ?thesis using le by (simp add: word_less_nat_alt word_le_nat_alt add.commute)
qed

section \<open>The outcomes of a write\<close>

lemma write_outcome [consumes 1, case_names refused torn full]:
  assumes "settings_store_write crc32 io_p io io_e store disk data = (r, store', disk')"
  obtains "\<not> r" "disk' = disk" "st_slots store' = st_slots store" "st_newest_slot store' = st_newest_slot store"
      "st_newest_seq store \<le> st_newest_seq store'"
      "st_next_slot store' = st_next_slot store \<or> st_newest_slot store = None \<and> st_next_slot store' = 1 - st_next_slot store"
  | seq w where "\<not> r" "data \<noteq> []" "length data \<le> SETTINGS_MAX_LEN" "st_newest_seq store < seq"
      "w = take (length w) (slot_frame crc32 seq data)" "disk' = disk(slot_path store (st_next_slot store) \<mapsto> Regular w)"
      "store' = store \<lparr> st_newest_seq := seq, st_next_slot := st_next_slot store' \<rparr>"
      "st_next_slot store' = st_next_slot store \<or> st_newest_slot store = None \<and> st_next_slot store' = 1 - st_next_slot store"
  | seq where "data \<noteq> []" "length data \<le> SETTINGS_MAX_LEN" "st_newest_seq store < seq"
      "store' = store \<lparr> st_newest_seq := seq, st_newest_slot := Some (st_next_slot store), st_next_slot := 1 - st_next_slot store \<rparr>"
      "if probe_slot_header io_p (disk (slot_path store (1 - st_next_slot store))) = SLOT_HEADER_UNKNOWN
       then erase_slot io_e (slot_path store (1 - st_next_slot store))
           (disk(slot_path store (st_next_slot store) \<mapsto> Regular (slot_frame crc32 seq data))) = (r, disk')
       else r \<and> disk' = disk(slot_path store (st_next_slot store) \<mapsto> Regular (slot_frame crc32 seq data))"
      "\<And>q. probe_slot_header io_p (disk (slot_path store (1 - st_next_slot store))) = SLOT_HEADER_KNOWN q \<Longrightarrow> q < seq"
proof -
  let ?t = "st_next_slot store"
  define h where "h = probe_slot_header io_p (disk (slot_path store (1 - ?t)))"
  define q where "q = (case h of SLOT_HEADER_KNOWN p \<Rightarrow> (if p > st_newest_seq store then p else st_newest_seq store) | _ \<Rightarrow> st_newest_seq store)"
  define s1 where "s1 = store \<lparr> st_newest_seq := q \<rparr>"
  have s1: "(case h of SLOT_HEADER_KNOWN p \<Rightarrow> (if p > st_newest_seq store then store \<lparr> st_newest_seq := p \<rparr> else store) | _ \<Rightarrow> store) = s1"
    by (auto simp: s1_def q_def split: slot_header_state.split)
  have mono: "st_newest_seq store \<le> q" "h = SLOT_HEADER_KNOWN p \<Longrightarrow> p \<le> q" for p
    by (auto simp: q_def split: slot_header_state.split)
  note w = assms [unfolded settings_store_write_def Let_def h_def [symmetric] s1, unfolded s1_def, simplified]
  show thesis
  proof (cases "data = [] \<or> length data > SETTINGS_MAX_LEN \<or> q = - 1 \<or> \<not> io_malloc_ok io")
    case True
    then show ?thesis
      using w that(1) mono u32_less_Suc [of q "st_newest_seq store"] by (fastforce split: if_splits)
  next
    case go: False
    have up: "st_newest_seq store < q + 1" "\<And>p. h = SLOT_HEADER_KNOWN p \<Longrightarrow> p < q + 1" using u32_less_Suc mono go by blast+
    obtain written b left where wr: "write_all (io_xfer io) (slot_frame crc32 (q + 1) data) = (written, b, left)" by (metis prod_cases3)
    note pre = write_all_prefix [OF wr]
    show ?thesis
    proof (cases "io_open_ok io \<and> disk (slot_path store ?t) \<noteq> Some Directory")
      case False
      then show ?thesis using w go wr that(1) up(1) by (auto simp: less_imp_le split: if_splits)
    next
      case opened: True
      show ?thesis
      proof (cases "b \<and> io_fsync_ok io \<and> io_close_ok io")
        case False
        then show ?thesis using w go wr opened pre that(2) [of "q + 1" written] up(1) by (auto split: if_splits)
      next
        case True
        then have "written = slot_frame crc32 (q + 1) data" using pre by blast
        then show ?thesis
          using w go wr opened True that(3) [of "q + 1"] up by (auto simp: h_def split: if_splits prod.splits)
      qed
    qed
  qed
qed

text \<open>A full frame in the target slot wins, whatever became of the other slot.\<close>

lemma full_wins:
  assumes ok: "store_ok store" and data: "data \<noteq> []" "length data \<le> SETTINGS_MAX_LEN"
    and d: "if probe_slot_header io_p (disk (slot_path store (1 - st_next_slot store))) = SLOT_HEADER_UNKNOWN
       then erase_slot io_e (slot_path store (1 - st_next_slot store))
           (disk(slot_path store (st_next_slot store) \<mapsto> Regular (slot_frame crc32 seq data))) = (r, disk')
       else r \<and> disk' = disk(slot_path store (st_next_slot store) \<mapsto> Regular (slot_frame crc32 seq data))"
    and known: "\<And>q. probe_slot_header io_p (disk (slot_path store (1 - st_next_slot store))) = SLOT_HEADER_KNOWN q \<Longrightarrow> q < seq"
    and r: "r \<or> (\<forall>c. slot_view crc32 (disk (slot_path store (1 - st_next_slot store))) = Some c \<longrightarrow> sc_seq c < seq)"
  shows "slot_view crc32 (disk' (slot_path store (st_next_slot store))) = Some \<lparr> sc_data = data, sc_seq = seq \<rparr>"
    and "slot_view crc32 (disk' (slot_path store (1 - st_next_slot store))) = Some c \<Longrightarrow> sc_seq c < seq"
proof -
  let ?t = "slot_path store (st_next_slot store)" and ?o = "slot_path store (1 - st_next_slot store)"
  have ne: "?o \<noteq> ?t" using slot_path_other [OF ok] ok by (simp add: store_ok_def)
  let ?d = "disk(?t \<mapsto> Regular (slot_frame crc32 seq data))"
  show "slot_view crc32 (disk' ?t) = Some \<lparr> sc_data = data, sc_seq = seq \<rparr>"
    using d slot_view_frame [OF data] erase_slot_effect(1) [of io_e ?o ?d r disk' ?t] ne by (auto split: if_splits)
  show "sc_seq c < seq" if c: "slot_view crc32 (disk' ?o) = Some c"
  proof (cases "probe_slot_header io_p (disk ?o) = SLOT_HEADER_UNKNOWN")
    case True
    then have e: "erase_slot io_e ?o ?d = (r, disk')" using d by simp
    have "\<not> r" using erase_slot_effect(2) [OF e] c by auto
    moreover have "disk' ?o = disk ?o" using erase_slot_effect(3) [OF e, of crc32] c ne by auto
    ultimately show ?thesis using r c by simp
  next
    case False
    then have "slot_view crc32 (disk ?o) = Some c" using d c ne by auto
    then show ?thesis
      using False known probe_known probe_not_valid
      by (cases "probe_slot_header io_p (disk ?o)") fastforce+
  qed
qed

lemma stored_winner:
  assumes "i < 2" and "slot_view crc32 (disk (slot_path store i)) = Some c"
    and "\<And>c'. slot_view crc32 (disk (slot_path store (1 - i))) = Some c' \<Longrightarrow> sc_seq c' < sc_seq c"
  shows "stored crc32 store disk = Some (sc_data c)"
  unfolding stored_def using assms by (intro read_winner [where i = i]) auto

lemma stored_only:
  assumes "i < 2" and "slot_view crc32 (disk (slot_path store i)) = Some c" and "slot_view crc32 (disk (slot_path store (1 - i))) = None"
  shows "stored crc32 store disk = Some (sc_data c)"
  using assms by (intro stored_winner [where i = i]) auto

text \<open>The slot the handle remembers as newest holds a generation whose number is not above its
  counter, and the next write goes to the other slot.\<close>

definition store_inv :: "(bytes \<Rightarrow> u32) \<Rightarrow> settings_store \<Rightarrow> disk \<Rightarrow> bool" where
  "store_inv crc32 store disk \<longleftrightarrow> store_ok store \<and>
     (case st_newest_slot store of
        None \<Rightarrow> True
      | Some s \<Rightarrow> s < 2 \<and> st_next_slot store = 1 - s \<and>
          (case slot_view crc32 (disk (slot_path store s)) of None \<Rightarrow> False | Some c \<Rightarrow> sc_seq c \<le> st_newest_seq store))"

lemma store_invD:
  assumes "store_inv crc32 store disk" and "st_newest_slot store = Some s"
  obtains c where "s < 2" "st_next_slot store = 1 - s" "slot_view crc32 (disk (slot_path store s)) = Some c"
    "sc_seq c \<le> st_newest_seq store"
  using assms by (auto simp: store_inv_def split: option.splits)

lemma store_inv_read:
  assumes "store_inv crc32 store disk"
  shows "store_inv crc32 (snd (settings_store_read crc32 io_a io_b store disk)) disk"
    and "st_newest_seq store \<le> st_newest_seq (snd (settings_store_read crc32 io_a io_b store disk))"
  using assms read_slot_view [of crc32 io_a "disk (slot_path store 0)"] read_slot_view [of crc32 io_b "disk (slot_path store 1)"]
  by (auto simp: settings_store_read_def Let_def store_inv_def store_ok_def split: sum.split)

lemma store_inv_write:
  assumes inv: "store_inv crc32 store disk" and "settings_store_write crc32 io_p io io_e store disk data = (r, store', disk')"
  shows "store_inv crc32 store' disk'" and "st_newest_seq store \<le> st_newest_seq store'"
proof -
  have ok: "store_ok store" using inv by (simp add: store_inv_def)
  have t: "st_next_slot store < 2" using ok by (simp add: store_ok_def)
  from assms(2) have "store_inv crc32 store' disk' \<and> st_newest_seq store \<le> st_newest_seq store'"
  proof (cases rule: write_outcome)
    case refused
    then have "slot_path store' = slot_path store" by (simp add: fun_eq_iff slot_path_def)
    then show ?thesis
      using refused inv t by (fastforce simp: store_inv_def store_ok_def split: option.splits)
  next
    case (torn seq w)
    have keep: "disk' (slot_path store s) = disk (slot_path store s)" if "st_newest_slot store = Some s" for s
      using store_invD [OF inv that] torn(6) slot_path_other [OF ok] by (metis fun_upd_other)
    have path: "slot_path store' = slot_path store" by (subst torn(7)) simp
    have s': "st_slots store' = st_slots store" "st_newest_slot store' = st_newest_slot store" "st_newest_seq store' = seq"
      by (subst torn(7); simp)+
    show ?thesis
      using inv keep path s' torn(4,8) t
      by (fastforce simp: store_inv_def store_ok_def dest: order_le_less_trans intro: less_imp_le split: option.splits)
  next
    case (full seq)
    have "slot_view crc32 (disk' (slot_path store (st_next_slot store))) = Some \<lparr> sc_data = data, sc_seq = seq \<rparr>"
    proof -
      have ne: "slot_path store (1 - st_next_slot store) \<noteq> slot_path store (st_next_slot store)" by (rule slot_path_other [OF ok t])
      have "disk' (slot_path store (st_next_slot store)) = Some (Regular (slot_frame crc32 seq data))"
        using full(5) erase_slot_effect(1) ne by (fastforce split: if_splits)
      then show ?thesis using slot_view_frame [OF full(1,2)] by simp
    qed
    then show ?thesis using full(3,4) ok t by (auto simp: store_inv_def store_ok_def less_imp_le)
  qed
  then show "store_inv crc32 store' disk'" and "st_newest_seq store \<le> st_newest_seq store'" by auto
qed

lemma store_inv_erase:
  assumes "store_inv crc32 store disk" and "settings_store_erase io_a io_b la lb store disk = (r, store', disk')"
  shows "store_inv crc32 store' disk'" and "st_newest_seq store' = st_newest_seq store"
  using assms by (auto simp: settings_store_erase_def Let_def store_inv_def store_ok_def split: prod.splits)

section \<open>Runs\<close>

text \<open>A handle in use: any sequence of reads, writes and erasures, with any outcome of every system
  call. Between two operations the disk does not change.\<close>

inductive store_run :: "(bytes \<Rightarrow> u32) \<Rightarrow> bytes \<Rightarrow> settings_store \<Rightarrow> disk \<Rightarrow> bool" for crc32 base where
  opened: "settings_store_open size_max malloc_ok (Some base) = Some store \<Longrightarrow> store_run crc32 base store disk"
| read: "store_run crc32 base store disk \<Longrightarrow> settings_store_read crc32 io_a io_b store disk = (r, store') \<Longrightarrow>
    store_run crc32 base store' disk"
| written: "store_run crc32 base store disk \<Longrightarrow>
    settings_store_write crc32 io_p io io_e store disk data = (ok, store', disk') \<Longrightarrow> store_run crc32 base store' disk'"
| erased: "store_run crc32 base store disk \<Longrightarrow>
    settings_store_erase io_a io_b la lb store disk = (ok, store', disk') \<Longrightarrow> store_run crc32 base store' disk'"

lemma open_store_ok: "settings_store_open size_max malloc_ok base = Some store \<Longrightarrow> store_ok store \<and> st_newest_slot store = None"
  by (auto simp: settings_store_open_def store_ok_def chr_def split: option.splits if_splits)

lemma run_inv: "store_run crc32 base store disk \<Longrightarrow> store_inv crc32 store disk"
proof (induction rule: store_run.induct)
  case (opened size_max malloc_ok store disk)
  then show ?case using open_store_ok by (fastforce simp: store_inv_def)
next
  case (read store disk io_a io_b r store')
  then show ?case using store_inv_read(1) by (metis snd_conv)
qed (use store_inv_write(1) store_inv_erase(1) in blast)+

text \<open>A write that reported success is what every reader of the same slots gets.\<close>

lemma write_reads_back:
  assumes "store_ok store" and "settings_store_write crc32 io_p io io_e store disk data = (True, store', disk')"
    and "st_slots reader = st_slots store" and "io_reads io_a" and "io_reads io_b"
  shows "fst (settings_store_read crc32 io_a io_b reader disk') = Some data"
  using assms(2)
proof (cases rule: write_outcome)
  case (full seq)
  have path: "slot_path reader = slot_path store" using assms(3) by (simp add: fun_eq_iff slot_path_def)
  have t: "st_next_slot store < 2" using assms(1) by (simp add: store_ok_def)
  show ?thesis
    using read_winner [OF t assms(4,5), of crc32 disk' reader "\<lparr> sc_data = data, sc_seq = seq \<rparr>"]
      full_wins [OF assms(1) full(1,2,5,6)] path by simp
qed simp_all

text \<open>What an erasure leaves behind.\<close>

lemma erase_outcome:
  assumes "store_ok store" and "settings_store_erase io_a io_b la lb store disk = (ok, store', disk')"
  shows "(ok \<longleftrightarrow> la \<and> lb \<and> disk' (slot_path store 0) = None \<and> disk' (slot_path store 1) = None) \<and>
     (ok \<longrightarrow> stored crc32 store' disk' = None) \<and>
     (\<forall>p. p \<noteq> slot_path store 0 \<and> p \<noteq> slot_path store 1 \<longrightarrow> disk' p = disk p) \<and>
     (\<forall>i<2. disk' (slot_path store i) = disk (slot_path store i) \<or> slot_view crc32 (disk' (slot_path store i)) = None)"
proof -
  let ?a = "slot_path store 0" and ?b = "slot_path store 1"
  obtain ra d1 where a: "erase_slot io_a ?a disk = (ra, d1)" by (metis prod.exhaust)
  obtain rb d2 where b: "erase_slot io_b ?b d1 = (rb, d2)" by (metis prod.exhaust)
  have ne: "?a \<noteq> ?b" using assms(1) by (simp add: store_ok_def slot_path_def)
  have r: "disk' = d2" "slot_path store' = slot_path store"
    "ok \<longleftrightarrow> la \<and> lb \<and> disk' ?a = None \<and> disk' ?b = None"
    using assms(2) a b by (auto simp: settings_store_erase_def Let_def slot_present_def)
  have "stored crc32 store' disk' = None" if ok
    using that r(2,3) by (simp add: stored_def settings_store_read_def read_slot_def io_fine_def Let_def)
  moreover have "disk' p = disk p" if "p \<noteq> ?a" "p \<noteq> ?b" for p
    using erase_slot_effect(1) [OF a that(1)] erase_slot_effect(1) [OF b that(2)] r(1) by simp
  moreover have "disk' ?a = disk ?a \<or> slot_view crc32 (disk' ?a) = None"
    using erase_slot_effect(3) [OF a, of crc32] erase_slot_effect(1) [OF b ne] r(1) by simp
  moreover have "disk' ?b = disk ?b \<or> slot_view crc32 (disk' ?b) = None"
    using erase_slot_effect(3) [OF b, of crc32] erase_slot_effect(1) [OF a ne [symmetric]] r(1) by simp
  ultimately show ?thesis using r(3) by (auto simp: less_2_cases_iff)
qed

section \<open>Writes that succeed\<close>

definition io_writes :: "slot_io \<Rightarrow> bool" where
  "io_writes io \<longleftrightarrow> io_open_ok io \<and> io_malloc_ok io \<and> Failed \<notin> set (io_xfer io) \<and> Moved 0 \<notin> set (io_xfer io) \<and>
     io_fsync_ok io \<and> io_close_ok io"

lemma io_fine_writes [simp]: "io_writes io_fine"
  by (simp add: io_writes_def io_fine_def)

lemma write_all_ok: "Failed \<notin> set ios \<Longrightarrow> Moved 0 \<notin> set ios \<Longrightarrow> \<exists>left. write_all ios data = (data, True, left)"
proof (induction ios data rule: write_all.induct)
  case (5 n ios b data)
  then obtain left where "write_all ios (drop n (b # data)) = (drop n (b # data), True, left)" by fastforce
  then show ?case using "5.prems" append_take_drop_id [of n "b # data"] by auto
qed auto

lemma read_upto_ok: "Failed \<notin> set ios \<Longrightarrow> read_upto ios file len = Some (take len file)"
proof -
  assume "Failed \<notin> set ios"
  then have "read_upto ios file len \<noteq> None" by (induction ios "file" len rule: read_upto.induct) (auto simp: Let_def)
  then show ?thesis using read_upto_take by blast
qed

lemma probe_reads:
  assumes "io_reads io" and "node \<noteq> Some Directory"
  shows "probe_slot_header io node \<noteq> SLOT_HEADER_UNKNOWN"
  using assms by (auto simp: probe_slot_header_def io_reads_def read_upto_ok split: option.split slot_node.split)

lemma probe_frame:
  "io_reads io \<Longrightarrow> probe_slot_header io (Some (Regular (slot_frame crc32 seq data))) = SLOT_HEADER_KNOWN seq"
  by (simp add: probe_slot_header_def io_reads_def read_upto_ok slot_consts slot_frame_header read_le32_take drop_take)

definition highest_seq :: "slot_io \<Rightarrow> settings_store \<Rightarrow> disk \<Rightarrow> u32" where
  "highest_seq io store disk = (case probe_slot_header io (disk (slot_path store (1 - st_next_slot store))) of
     SLOT_HEADER_KNOWN q \<Rightarrow> max q (st_newest_seq store) | _ \<Rightarrow> st_newest_seq store)"

lemma write_succeeds:
  assumes data: "data \<noteq> []" "length data \<le> SETTINGS_MAX_LEN" and io: "io_reads io_p" "io_writes io"
    and files: "\<And>i. i < 2 \<Longrightarrow> disk (slot_path store i) \<noteq> Some Directory" and t: "st_next_slot store < 2"
    and seq: "highest_seq io_p store disk \<noteq> - 1"
  shows "settings_store_write crc32 io_p io io_e store disk data =
    (True, store \<lparr> st_newest_seq := highest_seq io_p store disk + 1, st_newest_slot := Some (st_next_slot store), st_next_slot := 1 - st_next_slot store \<rparr>,
     disk(slot_path store (st_next_slot store) \<mapsto> Regular (slot_frame crc32 (highest_seq io_p store disk + 1) data)))"
proof -
  define h where "h = probe_slot_header io_p (disk (slot_path store (1 - st_next_slot store)))"
  define q where "q = highest_seq io_p store disk"
  have s1: "(case h of SLOT_HEADER_KNOWN p \<Rightarrow> (if p > st_newest_seq store then store \<lparr> st_newest_seq := p \<rparr> else store) | _ \<Rightarrow> store)
      = store \<lparr> st_newest_seq := q \<rparr>"
    by (auto simp: q_def h_def highest_seq_def split: slot_header_state.split)
  have "1 - st_next_slot store < 2" by simp
  then have h: "h \<noteq> SLOT_HEADER_UNKNOWN" unfolding h_def using probe_reads [OF io(1)] files by blast
  obtain left where wr: "write_all (io_xfer io) (slot_frame crc32 (q + 1) data) = (slot_frame crc32 (q + 1) data, True, left)"
    using write_all_ok io(2) by (auto simp: io_writes_def)
  show ?thesis
    unfolding settings_store_write_def Let_def h_def [symmetric] s1 q_def [symmetric]
    using data io(2) files [OF t] h wr seq by (simp add: io_writes_def q_def [symmetric])
qed

section \<open>Properties\<close>

text \<open>C13. What was saved is what is read: after a write that reported success, whatever happened on
  the way (short writes, interruptions, an unreadable old slot), every later handle on the same
  base path reads exactly those bytes.\<close>

theorem settings_write_read:
  assumes "store_ok store" and "settings_store_write crc32 io_p io io_e store disk data = (True, store', disk')"
    and "st_slots reader = st_slots store" and "io_reads io_a" and "io_reads io_b"
  shows "fst (settings_store_read crc32 io_a io_b reader disk') = Some data"
  by (rule write_reads_back [OF assms])

theorem settings_write_read_witness:
  "\<exists>store store' disk'. settings_store_open 4294967295 True (Some (str ''/boot/jade'')) = Some store
     \<and> settings_store_write (\<lambda>_. 7) io_fine (io_fine \<lparr> io_xfer := [Moved 3, Interrupted, Moved 9] \<rparr>) io_fine store Map.empty [1, 2, 3] = (True, store', disk')
     \<and> fst (settings_store_read (\<lambda>_. 7) io_fine io_fine store disk') = Some [1, 2, 3]"
proof -
  define store where "store = \<lparr> st_slots = [str ''/boot/jade.a'', str ''/boot/jade.b''], st_newest_slot = None, st_newest_seq = 0, st_next_slot = 0 \<rparr>"
  have opn: "settings_store_open 4294967295 True (Some (str ''/boot/jade'')) = Some store"
    by (simp add: settings_store_open_def store_def)
  obtain r store' disk' where w: "settings_store_write (\<lambda>_. 7) io_fine (io_fine \<lparr> io_xfer := [Moved 3, Interrupted, Moved 9] \<rparr>) io_fine store Map.empty [1, 2, 3] = (r, store', disk')"
    by (metis prod_cases3)
  have r using w by (simp add: settings_store_write_def probe_slot_header_def io_fine_def store_def slot_consts Let_def
        slot_frame_def SLOT_MAGIC_def write_le32_def split: if_splits)
  then show ?thesis
    using opn w settings_write_read [of store "\<lambda>_. 7" io_fine _ io_fine Map.empty "[1, 2, 3]" store' disk' store io_fine io_fine]
      open_store_ok [OF opn] by auto
qed

text \<open>C5. Power-cut safety: as long as the handle is in step with the disk, a write that fails or is
  cut off at any byte leaves a disk that reads as the previous generation or, if every byte got
  there, as the new one. Nothing in between is ever read, and the previous generation is not lost.\<close>

theorem settings_write_atomic:
  assumes inv: "store_inv crc32 store disk" and "st_newest_slot store = Some s" and "stored crc32 store disk = Some old"
    and "slot_view crc32 (disk (slot_path store s)) = Some c" and "sc_data c = old"
    and "settings_store_write crc32 io_p io io_e store disk data = (r, store', disk')"
  shows "stored crc32 store disk' = Some old \<or> stored crc32 store disk' = Some data"
  using assms(6)
proof (cases rule: write_outcome)
  case refused
  then show ?thesis using assms(3) by simp
next
  case (torn seq w)
  have ok: "store_ok store" using inv by (simp add: store_inv_def)
  have s: "s < 2" "st_next_slot store = 1 - s" "sc_seq c \<le> st_newest_seq store"
    using store_invD [OF inv assms(2)] assms(4) by (metis option.inject)+
  have ne: "slot_path store (1 - s) \<noteq> slot_path store s" by (rule slot_path_other [OF ok s(1)])
  have old: "slot_view crc32 (disk' (slot_path store s)) = Some c" using assms(4) torn(6) s(2) ne by simp
  show ?thesis
  proof (cases "w = slot_frame crc32 seq data")
    case True
    have t: "1 - s < 2" and again: "1 - (1 - s) = s" using s(1) by auto
    have "slot_view crc32 (disk' (slot_path store (1 - s))) = Some \<lparr> sc_data = data, sc_seq = seq \<rparr>"
      using torn(6) s(2) True slot_view_frame [OF torn(2,3)] by simp
    moreover have "sc_seq c < seq" using s(3) torn(4) by (rule order_le_less_trans)
    ultimately show ?thesis
      using stored_winner [OF t, of crc32 disk' store "\<lparr> sc_data = data, sc_seq = seq \<rparr>"] old again by simp
  next
    case False
    then have "slot_view crc32 (disk' (slot_path store (1 - s))) = None"
      using slot_view_torn [OF torn(3,5)] torn(6) s(2) by simp
    then show ?thesis using stored_only [OF s(1), of crc32 disk' store c] old assms(5) by simp
  qed
next
  case (full seq)
  have ok: "store_ok store" using inv by (simp add: store_inv_def)
  have s: "s < 2" "st_next_slot store = 1 - s" "sc_seq c \<le> st_newest_seq store"
    using store_invD [OF inv assms(2)] assms(4) by (metis option.inject)+
  have t: "1 - s < 2" and again: "1 - (1 - s) = s" using s(1) by auto
  have "sc_seq c < seq" using s(3) full(3) by (rule order_le_less_trans)
  then have "\<forall>c'. slot_view crc32 (disk (slot_path store (1 - st_next_slot store))) = Some c' \<longrightarrow> sc_seq c' < seq"
    using assms(4) s(2) again by simp
  note won = full_wins [OF ok full(1,2,5,6) disjI2 [OF this]]
  show ?thesis
    using stored_winner [OF t, of crc32 disk' store "\<lparr> sc_data = data, sc_seq = seq \<rparr>"] won s(2) by simp
qed

text \<open>A disk with one generation in slot A, and the handle that wrote it.\<close>

definition demo_disk :: disk where
  "demo_disk = [str ''s.a'' \<mapsto> Regular (slot_frame (\<lambda>_. 7) 1 [1, 2, 3])]"

definition demo_store :: settings_store where
  "demo_store = \<lparr> st_slots = [str ''s.a'', str ''s.b''], st_newest_slot = Some 0, st_newest_seq = 1, st_next_slot = 1 \<rparr>"

lemma demo_slots:
  "slot_view (\<lambda>_. 7) (demo_disk (slot_path demo_store 0)) = Some \<lparr> sc_data = [1, 2, 3], sc_seq = 1 \<rparr>"
  "slot_view (\<lambda>_. 7) (demo_disk (slot_path demo_store 1)) = None"
  by (simp_all add: demo_disk_def demo_store_def slot_path_def slot_view_frame slot_consts chr_def)

lemma demo_inv: "store_inv (\<lambda>_. 7) demo_store demo_disk"
  using demo_slots by (simp add: store_inv_def store_ok_def demo_store_def slot_path_def chr_def)

theorem settings_write_atomic_witness:
  "\<exists>r store' disk'. settings_store_write (\<lambda>_. 7) io_fine (io_fine \<lparr> io_xfer := [Moved 5, Failed] \<rparr>) io_fine demo_store demo_disk [4, 5]
       = (r, store', disk')
     \<and> (stored (\<lambda>_. 7) demo_store disk' = Some [1, 2, 3] \<or> stored (\<lambda>_. 7) demo_store disk' = Some [4, 5])"
proof -
  obtain r store' disk' where w: "settings_store_write (\<lambda>_. 7) io_fine (io_fine \<lparr> io_xfer := [Moved 5, Failed] \<rparr>) io_fine demo_store demo_disk [4, 5]
       = (r, store', disk')" by (metis prod_cases3)
  have n: "st_newest_slot demo_store = Some 0" by (simp add: demo_store_def)
  have "stored (\<lambda>_. 7) demo_store demo_disk = Some [1, 2, 3]"
    using stored_only [of 0 "\<lambda>_. 7" demo_disk demo_store] demo_slots by simp
  from settings_write_atomic [OF demo_inv n this demo_slots(1) _ w] w show ?thesis by simp
qed

text \<open>C38. In every run of a handle, with any outcome of every system call, the slot it remembers as
  newest really holds a valid generation, numbered no higher than the handle's counter, and the
  next write goes to the other slot.\<close>

theorem settings_run_invariant:
  assumes "store_run crc32 base store disk" and "st_newest_slot store = Some s"
  shows "st_next_slot store = 1 - s \<and> slot_path store (st_next_slot store) \<noteq> slot_path store s \<and>
    (\<exists>c. slot_view crc32 (disk (slot_path store s)) = Some c \<and> sc_seq c \<le> st_newest_seq store)"
proof -
  have inv: "store_inv crc32 store disk" by (rule run_inv [OF assms(1)])
  obtain c where "s < 2" "st_next_slot store = 1 - s" "slot_view crc32 (disk (slot_path store s)) = Some c"
    "sc_seq c \<le> st_newest_seq store"
    using store_invD [OF inv assms(2)] .
  then show ?thesis using slot_path_other [of store s] inv by (auto simp: store_inv_def)
qed

theorem settings_run_invariant_witness:
  "\<exists>store. store_run (\<lambda>_. 7) (str ''s'') store demo_disk \<and> st_newest_slot store = Some 0 \<and> st_next_slot store = 1 \<and>
     (\<exists>c. slot_view (\<lambda>_. 7) (demo_disk (slot_path store 0)) = Some c \<and> sc_seq c \<le> st_newest_seq store)"
proof -
  define store where "store = \<lparr> st_slots = [str ''s.a'', str ''s.b''], st_newest_slot = None, st_newest_seq = 0, st_next_slot = 0 \<rparr>"
  have opn: "settings_store_open 4294967295 True (Some (str ''s'')) = Some store"
    by (simp add: settings_store_open_def store_def)
  obtain r store' where rd: "settings_store_read (\<lambda>_. 7) io_fine io_fine store demo_disk = (r, store')" by (metis prod.exhaust)
  have path: "slot_path store = slot_path demo_store" by (simp add: fun_eq_iff slot_path_def store_def demo_store_def)
  have "read_slot (\<lambda>_. 7) io_fine (demo_disk (slot_path store 0)) = Inr \<lparr> sc_data = [1, 2, 3], sc_seq = 1 \<rparr>"
    using demo_slots(1) path by (simp add: read_slot_ok)
  moreover have "\<exists>e. read_slot (\<lambda>_. 7) io_fine (demo_disk (slot_path store 1)) = Inl e"
    using demo_slots(2) path read_slot_view by (metis obj_sumE option.distinct(1))
  ultimately have "st_newest_slot store' = Some 0"
    using rd by (auto simp: settings_store_read_def Let_def)
  moreover have "store_run (\<lambda>_. 7) (str ''s'') store' demo_disk"
    by (rule store_run.read [OF store_run.opened [OF opn] rd])
  ultimately show ?thesis using settings_run_invariant [of "\<lambda>_. 7" "str ''s''" store' demo_disk 0] by auto
qed

text \<open>A factory reset is honest: \<open>settings_store_erase\<close> reports success only when neither file
  exists any more, then nothing can be read back, no other file is touched, and a file it could
  not remove is either untouched or no longer readable as settings.\<close>

lemma settings_erase_honest:
  assumes "store_ok store" and "settings_store_erase io_a io_b la lb store disk = (ok, store', disk')"
  shows "(ok \<longleftrightarrow> la \<and> lb \<and> disk' (slot_path store 0) = None \<and> disk' (slot_path store 1) = None) \<and>
     (ok \<longrightarrow> stored crc32 store' disk' = None) \<and>
     (\<forall>p. p \<noteq> slot_path store 0 \<and> p \<noteq> slot_path store 1 \<longrightarrow> disk' p = disk p) \<and>
     (\<forall>i<2. disk' (slot_path store i) = disk (slot_path store i) \<or> slot_view crc32 (disk' (slot_path store i)) = None)"
  by (rule erase_outcome [OF assms])

text \<open>A healthy card takes every save: when both slots are files or free, no system call fails, and
  the sequence numbers are not used up, a write of 1 to 131072 bytes succeeds, however the kernel
  cuts the transfer into pieces, and the number it carries is one above every number on the card.\<close>

lemma settings_write_succeeds:
  assumes "store_ok store" and "data \<noteq> []" and "length data \<le> SETTINGS_MAX_LEN" and "io_reads io_p" and "io_writes io"
    and "\<And>i. i < 2 \<Longrightarrow> disk (slot_path store i) \<noteq> Some Directory" and "highest_seq io_p store disk \<noteq> - 1"
  shows "\<exists>store' disk'. settings_store_write crc32 io_p io io_e store disk data = (True, store', disk') \<and>
    stored crc32 store' disk' = Some data \<and> st_newest_seq store' = highest_seq io_p store disk + 1"
proof -
  have t: "st_next_slot store < 2" using assms(1) by (simp add: store_ok_def)
  note w = write_succeeds [OF assms(2-6) t assms(7), of crc32 io_e]
  show ?thesis
    by (intro exI conjI, rule w) (simp_all add: stored_def write_reads_back [OF assms(1) w])
qed

end
