(* ===== verification/Pijade_Settings.thy ===== *)
theory Pijade_Settings
  imports Le_Bytes "HOL-Library.AList"
begin

text \<open>
  \<open>libjade/pijade_settings.c\<close>: the bounded image of the non-volatile store that is written to the
  card. An allowlist of fields of the default namespace and all records of the four registration
  namespaces become a sequence of entries behind a magic and a digest; loading checks everything
  before it stores anything.

  The maps are libwally's \<open>wally_map\<close>, whose items the source reads as an array of key and value;
  the three library calls on them are the fields of a record \<open>wally_api\<close>, and what the code relies
  on is \<open>wally_laws\<close>. SHA-256 is a parameter. \<open>prefs\<close>, which every caller passes as namespace 0 of
  the store, is \<open>storage ! 0\<close>.
\<close>

section \<open>Maps\<close>

type_synonym wmap = "(bytes \<times> bytes) list"

record wally_api =
  wm_get :: "wmap \<Rightarrow> bytes \<Rightarrow> bytes option"
  wm_replace :: "wmap \<Rightarrow> bytes \<Rightarrow> bytes \<Rightarrow> wmap option"
  wm_remove :: "wmap \<Rightarrow> bytes \<Rightarrow> wmap option"

text \<open>Documented behaviour: a lookup finds the item with the key, a replacement that succeeds binds
  the key and leaves the others alone, a removal that succeeds unbinds it, one that fails
  found nothing to remove, and keys stay unique. Allocation may fail.\<close>

definition wally_laws :: "wally_api \<Rightarrow> bool" where
  "wally_laws w \<longleftrightarrow>
     (\<forall>m k. wm_get w m k = map_of m k) \<and>
     (\<forall>m k v m'. wm_replace w m k v = Some m' \<longrightarrow> map_of m' = (map_of m)(k \<mapsto> v) \<and>
        (distinct (map fst m) \<longrightarrow> distinct (map fst m'))) \<and>
     (\<forall>m k m'. wm_remove w m k = Some m' \<longrightarrow> map_of m' = (map_of m)(k := None) \<and>
        (distinct (map fst m) \<longrightarrow> distinct (map fst m'))) \<and>
     (\<forall>m k. wm_remove w m k = None \<longrightarrow> map_of m k = None)"

text \<open>An implementation of the interface, for concrete runs.\<close>

definition wally_alist :: wally_api where
  "wally_alist = \<lparr> wm_get = map_of, wm_replace = (\<lambda>m k v. Some (AList.update k v m)),
     wm_remove = (\<lambda>m k. if map_of m k = None then None else Some (AList.delete k m)) \<rparr>"

section \<open>The format\<close>

record persisted_field =
  pf_key :: bytes
  pf_min_len :: nat
  pf_max_len :: nat
  pf_nul :: bool

definition PERSISTED_FIELDS :: "persisted_field list" where
  "PERSISTED_FIELDS =
    [\<lparr> pf_key = str ''guiflags'', pf_min_len = 1, pf_max_len = 1, pf_nul = False \<rparr>,
     \<lparr> pf_key = str ''idletimeout'', pf_min_len = 2, pf_max_len = 2, pf_nul = False \<rparr>,
     \<lparr> pf_key = str ''screentimeout'', pf_min_len = 2, pf_max_len = 2, pf_nul = False \<rparr>,
     \<lparr> pf_key = str ''brightness'', pf_min_len = 1, pf_max_len = 1, pf_nul = False \<rparr>,
     \<lparr> pf_key = str ''qrflags'', pf_min_len = 4, pf_max_len = 4, pf_nul = False \<rparr>,
     \<lparr> pf_key = str ''privatekey'', pf_min_len = 32, pf_max_len = 32, pf_nul = False \<rparr>,
     \<lparr> pf_key = str ''blob'', pf_min_len = 80, pf_max_len = 256, pf_nul = False \<rparr>,
     \<lparr> pf_key = str ''counter'', pf_min_len = 1, pf_max_len = 1, pf_nul = False \<rparr>,
     \<lparr> pf_key = str ''antireplay'', pf_min_len = 4, pf_max_len = 4, pf_nul = False \<rparr>,
     \<lparr> pf_key = str ''keyflags'', pf_min_len = 1, pf_max_len = 1, pf_nul = False \<rparr>,
     \<lparr> pf_key = str ''featflags'', pf_min_len = 1, pf_max_len = 1, pf_nul = False \<rparr>,
     \<lparr> pf_key = str ''walleterasepin'', pf_min_len = 48, pf_max_len = 48, pf_nul = False \<rparr>,
     \<lparr> pf_key = str ''networktype'', pf_min_len = 4, pf_max_len = 4, pf_nul = False \<rparr>,
     \<lparr> pf_key = str ''pinsvrurlA'', pf_min_len = 1, pf_max_len = 120, pf_nul = True \<rparr>,
     \<lparr> pf_key = str ''pinsvrurlB'', pf_min_len = 1, pf_max_len = 120, pf_nul = True \<rparr>,
     \<lparr> pf_key = str ''pinsvrpubkey'', pf_min_len = 33, pf_max_len = 33, pf_nul = False \<rparr>,
     \<lparr> pf_key = str ''pinsvrcert'', pf_min_len = 1, pf_max_len = 2048, pf_nul = True \<rparr>]"

definition SETTINGS_MAGIC :: bytes where "SETTINGS_MAGIC = str ''PIJADES4''"
definition SETTINGS_DIGEST_LEN :: nat where "SETTINGS_DIGEST_LEN = 4"
definition SETTINGS_HEADER_LEN :: nat where "SETTINGS_HEADER_LEN = length SETTINGS_MAGIC + SETTINGS_DIGEST_LEN"
definition NVS_KEY_NAME_MAX_SIZE :: nat where "NVS_KEY_NAME_MAX_SIZE = 16"
definition AES_BLOCK_LEN :: nat where "AES_BLOCK_LEN = 16"
definition PIJADE_SETTINGS_MAX_MULTISIG_LEN :: nat where "PIJADE_SETTINGS_MAX_MULTISIG_LEN = 3281"
definition PIJADE_SETTINGS_MAX_DESCRIPTOR_LEN :: nat where "PIJADE_SETTINGS_MAX_DESCRIPTOR_LEN = 3281"

record persisted_namespace =
  pn_min_len :: nat
  pn_max_len :: nat
  pn_modulo :: nat
  pn_max_entries :: nat

definition PERSISTED_NAMESPACES :: "persisted_namespace list" where
  "PERSISTED_NAMESPACES =
    [\<lparr> pn_min_len = 114, pn_max_len = PIJADE_SETTINGS_MAX_MULTISIG_LEN, pn_modulo = 0, pn_max_entries = 16 \<rparr>,
     \<lparr> pn_min_len = 41, pn_max_len = PIJADE_SETTINGS_MAX_DESCRIPTOR_LEN, pn_modulo = 0, pn_max_entries = 16 \<rparr>,
     \<lparr> pn_min_len = 32, pn_max_len = 288, pn_modulo = 16, pn_max_entries = 16 \<rparr>,
     \<lparr> pn_min_len = 8, pn_max_len = 8, pn_modulo = 0, pn_max_entries = 16 \<rparr>]"

definition SETTINGS_NAMESPACE_COUNT :: nat where
  "SETTINGS_NAMESPACE_COUNT = 1 + length PERSISTED_NAMESPACES"

lemmas settings_consts = SETTINGS_DIGEST_LEN_def SETTINGS_HEADER_LEN_def NVS_KEY_NAME_MAX_SIZE_def
  AES_BLOCK_LEN_def PIJADE_SETTINGS_MAX_MULTISIG_LEN_def PIJADE_SETTINGS_MAX_DESCRIPTOR_LEN_def

section \<open>Operations\<close>

text \<open>The field with the key, \<open>None\<close> for the result -1.\<close>

definition find_field :: "bytes \<Rightarrow> persisted_field option" where
  "find_field key = find (\<lambda>f. pf_key f = key) PERSISTED_FIELDS"

definition user_entry_valid :: "nat \<Rightarrow> bytes \<Rightarrow> nat \<Rightarrow> bool" where
  "user_entry_valid ns key value_len =
     (if ns = 0 \<or> ns \<ge> SETTINGS_NAMESPACE_COUNT \<or> ns - 1 \<ge> length PERSISTED_NAMESPACES then False
      else if key = [] \<or> length key \<ge> NVS_KEY_NAME_MAX_SIZE then False
      else if \<not> list_all (\<lambda>c. 33 \<le> c \<and> c \<le> 126) key then False
      else
        let n = PERSISTED_NAMESPACES ! (ns - 1) in
        if value_len < pn_min_len n \<or> value_len > pn_max_len n then False
        else pn_modulo n = 0 \<or> (value_len - AES_BLOCK_LEN) mod pn_modulo n = 0)"

text \<open>Both helpers of \<open>libjade\<close> take the store as the five maps.\<close>

definition pijade_settings_storage :: "wmap list \<Rightarrow> nat \<Rightarrow> wmap option" where
  "pijade_settings_storage storage ns = (if ns < length storage then Some (storage ! ns) else None)"

definition set_digest :: "(bytes \<Rightarrow> bytes option) \<Rightarrow> bytes \<Rightarrow> bytes option" where
  "set_digest sha256 body = map_option (take SETTINGS_DIGEST_LEN) (sha256 body)"

text \<open>One entry as it is written and the cursor movement of reading one: its namespace, key and
  value, and what follows.\<close>

type_synonym entry = "nat \<times> bytes \<times> bytes"

fun put_entry :: "entry \<Rightarrow> bytes" where
  "put_entry (ns, key, val) = [of_nat ns, of_nat (length key)] @ key @ write_le16 (length val) @ val"

fun entry_len :: "entry \<Rightarrow> nat" where
  "entry_len (ns, key, val) = 1 + 1 + length key + 2 + length val"

definition next_entry :: "bytes \<Rightarrow> (entry \<times> bytes) option" where
  "next_entry p = (case p of
     ns # key_len # q \<Rightarrow>
       if unat ns \<ge> SETTINGS_NAMESPACE_COUNT then None
       else if key_len = 0 \<or> length q < unat key_len + 2 then None
       else
         let key = take (unat key_len) q;
             q = drop (unat key_len) q;
             value_len = read_le16 q;
             q = drop 2 q in
         if length q < value_len then None
         else Some ((unat ns, key, take value_len q), drop value_len q)
   | _ \<Rightarrow> None)"

definition default_entry_valid :: "bytes \<Rightarrow> bytes \<Rightarrow> bool" where
  "default_entry_valid key val = (case find_field key of
     None \<Rightarrow> False
   | Some field \<Rightarrow>
       if length val < pf_min_len field \<or> length val > pf_max_len field then False
       else if pf_nul field \<and> val ! (length val - 1) \<noteq> 0 then False
       else if pf_key field = str ''antireplay'' \<and> read_le32 val = - 1 then False
       else if pf_key field = str ''networktype'' \<and> read_le32 val > 2 then False
       else True)"

lemma next_entry_shorter: "next_entry p = Some (e, rest) \<Longrightarrow> length rest < length p"
  by (auto simp: next_entry_def Let_def split: list.splits if_splits)

text \<open>The loop of \<open>walk_entries\<close>. \<open>storing\<close> is \<open>prefs != NULL\<close>; the result is the return value and
  the maps, which keep what was stored before a failure.\<close>

function walk_loop ::
  "wally_api \<Rightarrow> bool \<Rightarrow> wmap list \<Rightarrow> bytes \<Rightarrow> bool \<Rightarrow> bool \<Rightarrow> nat list \<Rightarrow> bool \<times> wmap list" where
  "walk_loop w storing storage p urlA_seen urlB_seen counts =
     (if p = [] then (storing \<or> urlA_seen = urlB_seen, storage)
      else case next_entry p of
        None \<Rightarrow> (False, storage)
      | Some ((ns, key, val), rest) \<Rightarrow>
        let counts = (if ns = 0 \<or> \<not> user_entry_valid ns key (length val) then counts else counts[ns := counts ! ns + 1]);
            valid = (if ns = 0 then default_entry_valid key val
              else user_entry_valid ns key (length val) \<and> counts ! ns \<le> pn_max_entries (PERSISTED_NAMESPACES ! (ns - 1)));
            urlA_seen = (urlA_seen \<or> \<not> storing \<and> ns = 0 \<and> key = str ''pinsvrurlA'');
            urlB_seen = (urlB_seen \<or> \<not> storing \<and> ns = 0 \<and> key = str ''pinsvrurlB'') in
        if \<not> valid then (False, storage)
        else if storing then
          (case pijade_settings_storage storage ns of
             None \<Rightarrow> (False, storage)
           | Some m \<Rightarrow> (case wm_replace w m key val of
               None \<Rightarrow> (False, storage)
             | Some m' \<Rightarrow> walk_loop w storing (storage[ns := m']) rest urlA_seen urlB_seen counts))
        else walk_loop w storing storage rest urlA_seen urlB_seen counts)"
  by pat_completeness auto

termination
  by (relation "measure (\<lambda>(w, s, st, p, a, b, c). length p)") (auto dest: next_entry_shorter)

declare walk_loop.simps [simp del]

definition walk_entries :: "wally_api \<Rightarrow> bool \<Rightarrow> wmap list \<Rightarrow> bytes \<Rightarrow> bool \<times> wmap list" where
  "walk_entries w storing storage body =
     walk_loop w storing storage body False False (replicate SETTINGS_NAMESPACE_COUNT 0)"

text \<open>The fields present in their width, in the order of the table, and the records in theirs.\<close>

definition field_entries :: "wally_api \<Rightarrow> wmap \<Rightarrow> entry list" where
  "field_entries w prefs = concat (map (\<lambda>f. case wm_get w prefs (pf_key f) of
       None \<Rightarrow> []
     | Some v \<Rightarrow> if length v \<ge> pf_min_len f \<and> length v \<le> pf_max_len f then [(0, pf_key f, v)] else []) PERSISTED_FIELDS)"

definition record_entries :: "wmap list \<Rightarrow> nat \<Rightarrow> entry list option" where
  "record_entries storage ns = (case pijade_settings_storage storage ns of
     None \<Rightarrow> None
   | Some records \<Rightarrow>
       if list_all (\<lambda>(k, v). user_entry_valid ns k (length v)) records
       then Some (map (Pair ns) records) else None)"

fun all_records :: "wmap list \<Rightarrow> nat list \<Rightarrow> entry list option" where
  "all_records storage [] = Some []"
| "all_records storage (ns # nss) = (case record_entries storage ns of None \<Rightarrow> None
     | Some es \<Rightarrow> map_option (\<lambda>rest. es @ rest) (all_records storage nss))"

text \<open>\<open>None\<close> is the result false.\<close>

definition pijade_settings_serialize ::
  "wally_api \<Rightarrow> (bytes \<Rightarrow> bytes option) \<Rightarrow> bool \<Rightarrow> wmap list \<Rightarrow> bytes option" where
  "pijade_settings_serialize w sha256 malloc_ok storage =
     (case all_records storage [1..<SETTINGS_NAMESPACE_COUNT] of
        None \<Rightarrow> None
      | Some records \<Rightarrow>
        let entries = field_entries w (storage ! 0) @ records;
            body_len = sum_list (map entry_len entries);
            body = concat (map put_entry entries) in
        if \<not> malloc_ok then None
        else if length body \<noteq> body_len then None
        else case set_digest sha256 body of
          None \<Rightarrow> None
        | Some digest \<Rightarrow>
          if fst (walk_entries w False storage body) then Some (SETTINGS_MAGIC @ digest @ body) else None)"

definition pijade_settings_deserialize ::
  "wally_api \<Rightarrow> (bytes \<Rightarrow> bytes option) \<Rightarrow> wmap list \<Rightarrow> bytes \<Rightarrow> bool \<times> wmap list" where
  "pijade_settings_deserialize w sha256 storage bytes =
     (if length bytes < SETTINGS_HEADER_LEN \<or> take (length SETTINGS_MAGIC) bytes \<noteq> SETTINGS_MAGIC then (False, storage)
      else
        let body = drop SETTINGS_HEADER_LEN bytes in
        case sha256 body of
          None \<Rightarrow> (False, storage)
        | Some digest \<Rightarrow>
          if take SETTINGS_DIGEST_LEN (drop (length SETTINGS_MAGIC) bytes) \<noteq> take SETTINGS_DIGEST_LEN digest then (False, storage)
          else if fst (walk_entries w False storage body) then walk_entries w True storage body
          else (False, storage))"

section \<open>Entries\<close>

lemma settings_namespace_count [simp]: "SETTINGS_NAMESPACE_COUNT = 5"
  by (simp add: SETTINGS_NAMESPACE_COUNT_def PERSISTED_NAMESPACES_def)

fun entry_ok :: "entry \<Rightarrow> bool" where
  "entry_ok (ns, key, val) \<longleftrightarrow> ns < 5 \<and> key \<noteq> [] \<and> length key < 256 \<and> length val < 65536"

lemma next_put_entry: "entry_ok e \<Longrightarrow> next_entry (put_entry e @ rest) = Some (e, rest)"
proof (cases e)
  case (fields ns key val)
  assume "entry_ok e"
  then have ok: "ns < 5" "key \<noteq> []" "length key < 256" "length val < 65536" using fields by auto
  have u: "unat (of_nat ns :: byte) = ns" "unat (of_nat (length key) :: byte) = length key"
    using ok by (simp_all add: unat_of_nat)
  then have "(of_nat (length key) :: byte) \<noteq> 0" using ok(2) by (metis length_0_conv unsigned_0)
  then show ?thesis
    using ok u unfolding fields by (simp add: next_entry_def Let_def)
qed

interpretation settings_entry: prefix_codec put_entry next_entry entry_ok
  by unfold_locales (rule next_put_entry)

lemma length_put_entry: "length (put_entry e) = entry_len e"
  by (cases e) simp

lemma length_put_entries: "length (concat (map put_entry es)) = sum_list (map entry_len es)"
  by (simp add: length_concat o_def length_put_entry)

lemma put_entry_nonempty [simp]: "put_entry e \<noteq> []"
  by (cases e) simp

section \<open>Walking\<close>

lemma walk_checks_only: "snd (walk_loop w False st p a b c) = st"
proof (induction p arbitrary: a b c rule: length_induct)
  case (1 p)
  show ?case
  proof (cases "p = [] \<or> next_entry p = None")
    case True
    then show ?thesis by (subst walk_loop.simps) auto
  next
    case False
    then obtain e rest where n: "next_entry p = Some (e, rest)" by auto
    show ?thesis
      using "1.IH" next_entry_shorter [OF n] n
      by (subst walk_loop.simps) (auto simp: Let_def split: prod.split)
  qed
qed

text \<open>When allocation does not fail the storing pass accepts whatever the checking pass accepted.\<close>

lemma walk_store_accepts:
  assumes "\<And>m k v. wm_replace w m k v \<noteq> None"
  shows "fst (walk_loop w False st p a b c) \<Longrightarrow> length st' = 5 \<Longrightarrow> fst (walk_loop w True st' p a' b' c)"
proof (induction p arbitrary: a b c a' b' st' rule: length_induct)
  case (1 p)
  show ?case
  proof (cases "p = [] \<or> next_entry p = None")
    case True
    then show ?thesis using "1.prems" by (auto simp: walk_loop.simps [of w _ _ p])
  next
    case False
    then obtain ns key val rest where n: "next_entry p = Some ((ns, key, val), rest)" by (metis not_None_eq prod_cases3 surj_pair)
    have ns: "ns < 5" using n by (auto simp: next_entry_def Let_def split: list.splits if_splits)
    define c' where "c' = (if ns = 0 \<or> \<not> user_entry_valid ns key (length val) then c else c[ns := c ! ns + 1])"
    have ok: "if ns = 0 then default_entry_valid key val
        else user_entry_valid ns key (length val) \<and> c' ! ns \<le> pn_max_entries (PERSISTED_NAMESPACES ! (ns - 1))"
      and go: "\<exists>a1 b1. fst (walk_loop w False st rest a1 b1 c')"
      using "1.prems"(1) False n by (auto simp: walk_loop.simps [of w _ _ p] Let_def c'_def split: if_splits)
    obtain m' where m': "wm_replace w (st' ! ns) key val = Some m'" using assms by blast
    have "fst (walk_loop w True (st'[ns := m']) rest a2 b2 c')" for a2 b2
    proof -
      have "length (st'[ns := m']) = 5" using "1.prems"(2) by simp
      then show ?thesis using "1.IH" next_entry_shorter [OF n] go by blast
    qed
    then show ?thesis
      using False n ok m' ns "1.prems"(2)
      by (cases "ns = 0") (auto simp: walk_loop.simps [of w _ _ p] Let_def c'_def pijade_settings_storage_def split: if_splits)
  qed
qed

text \<open>The entries of one namespace, and what storing them leaves in its map.\<close>

definition entries_for :: "nat \<Rightarrow> entry list \<Rightarrow> wmap" where
  "entries_for ns es = map snd (filter (\<lambda>e. fst e = ns) es)"

lemma entries_for_simps [simp]:
  "entries_for ns [] = []" "entries_for ns (es @ fs) = entries_for ns es @ entries_for ns fs"
  "entries_for ns ((n, kv) # es) = (if n = ns then kv # entries_for ns es else entries_for ns es)"
  by (simp_all add: entries_for_def)

lemma walk_stores:
  assumes laws: "wally_laws w"
  shows "list_all entry_ok es \<Longrightarrow> length st = 5 \<Longrightarrow> walk_loop w True st (concat (map put_entry es)) a b c = (True, st') \<Longrightarrow>
    length st' = 5 \<and> (\<forall>ns<5. map_of (st' ! ns) = map_of (st ! ns) ++ map_of (rev (entries_for ns es)))"
proof (induction es arbitrary: st a b c)
  case Nil
  then show ?case by (simp add: walk_loop.simps)
next
  case (Cons e es)
  obtain ns key val where e: "e = (ns, key, val)" by (metis prod_cases3)
  have ok: "entry_ok e" "list_all entry_ok es" and ns: "ns < 5" using Cons.prems(1) e by auto
  let ?p = "put_entry e @ concat (map put_entry es)"
  have n: "next_entry ?p = Some ((ns, key, val), concat (map put_entry es))" using next_put_entry [OF ok(1)] e by simp
  obtain m' where m': "wm_replace w (st ! ns) key val = Some m'"
    and go: "\<exists>a1 b1 c1. walk_loop w True (st[ns := m']) (concat (map put_entry es)) a1 b1 c1 = (True, st')"
    using Cons.prems(2,3) n ns
    by (auto simp: walk_loop.simps [of w _ _ ?p] Let_def pijade_settings_storage_def split: if_splits option.splits)
  have "map_of m' = (map_of (st ! ns))(key \<mapsto> val)" using laws m' by (auto simp: wally_laws_def)
  moreover have "length st' = 5 \<and> (\<forall>k<5. map_of (st' ! k) = map_of (st[ns := m'] ! k) ++ map_of (rev (entries_for k es)))"
  proof -
    have "length (st[ns := m']) = 5" using Cons.prems(2) by simp
    then show ?thesis using Cons.IH [OF ok(2)] go by blast
  qed
  ultimately show ?case
    using Cons.prems(2) ns by (auto simp: e nth_list_update map_add_assoc [symmetric] map_add_upd_left map_add_def fun_eq_iff split: option.split)
qed

section \<open>Serialising\<close>

lemma namespace_bound: "ns \<in> {1..<5} \<Longrightarrow> pn_max_len (PERSISTED_NAMESPACES ! (ns - 1)) \<le> 3281"
proof -
  assume "ns \<in> {1..<5}"
  then have "ns = 1 \<or> ns = 2 \<or> ns = 3 \<or> ns = 4" by auto
  then show ?thesis by (auto simp: PERSISTED_NAMESPACES_def settings_consts)
qed

lemma user_entry_ok: "user_entry_valid ns k (length v) \<Longrightarrow> entry_ok (ns, k, v)"
  using namespace_bound [of ns]
  by (auto simp: user_entry_valid_def settings_consts Let_def split: if_splits)

lemma record_entries_ok: "record_entries storage ns = Some es \<Longrightarrow>
    list_all entry_ok es \<and> es = map (Pair ns) (storage ! ns)"
  using user_entry_ok by (fastforce simp: record_entries_def pijade_settings_storage_def list_all_iff split: if_splits option.splits)

lemma entries_for_tagged [simp]: "entries_for n (map (Pair ns) kvs) = (if n = ns then kvs else [])"
  by (induction kvs) auto

lemma all_records_ok:
  "all_records storage nss = Some es \<Longrightarrow> distinct nss \<Longrightarrow>
     list_all entry_ok es \<and> (\<forall>n. entries_for n es = (if n \<in> set nss then storage ! n else []))"
proof (induction nss arbitrary: es)
  case (Cons ns nss)
  then obtain es1 es2 where es: "record_entries storage ns = Some es1" "all_records storage nss = Some es2" "es = es1 @ es2"
    by (auto split: option.splits)
  then show ?case using Cons record_entries_ok [OF es(1)] by auto
qed simp

lemma persisted_keys_distinct: "distinct (map pf_key PERSISTED_FIELDS)"
  by code_simp

lemma persisted_fields_bounds:
  "list_all (\<lambda>f. pf_key f \<noteq> [] \<and> length (pf_key f) < 256 \<and> pf_max_len f < 65536) PERSISTED_FIELDS"
  by (simp add: PERSISTED_FIELDS_def)

text \<open>The value of a key that is written out: present, named in the table, in its width.\<close>

definition persisted_value :: "wally_api \<Rightarrow> wmap \<Rightarrow> bytes \<Rightarrow> bytes option" where
  "persisted_value w prefs k = (case find_field k of None \<Rightarrow> None
     | Some f \<Rightarrow> (case wm_get w prefs k of None \<Rightarrow> None
         | Some v \<Rightarrow> if length v \<ge> pf_min_len f \<and> length v \<le> pf_max_len f then Some v else None))"

lemma field_list_lookup:
  fixes g
  assumes "distinct (map pf_key fs)"
  shows "map_of (rev (entries_for 0 (concat (map (\<lambda>f. case g (pf_key f) of None \<Rightarrow> []
       | Some v \<Rightarrow> if length v \<ge> pf_min_len f \<and> length v \<le> pf_max_len f then [(0, pf_key f, v)] else []) fs)))) k =
     (case find (\<lambda>f. pf_key f = k) fs of None \<Rightarrow> None
      | Some f \<Rightarrow> (case g k of None \<Rightarrow> None
         | Some v \<Rightarrow> if length v \<ge> pf_min_len f \<and> length v \<le> pf_max_len f then Some v else None))"
  using assms
proof (induction fs)
  case (Cons f fs)
  have "find (\<lambda>f. pf_key f = k) fs = None" if "pf_key f = k"
    using Cons.prems that by (fastforce simp: find_None_iff image_iff)
  then show ?case using Cons by (auto simp: map_add_def split: option.split)
qed simp

lemma field_entries_ok: "list_all entry_ok (field_entries w prefs)"
  using persisted_fields_bounds by (auto simp: field_entries_def list_all_iff split: option.splits if_splits)

lemma field_entries_lookup: "map_of (rev (entries_for 0 (field_entries w prefs))) k = persisted_value w prefs k"
  unfolding field_entries_def persisted_value_def find_field_def
  by (rule field_list_lookup [OF persisted_keys_distinct, of "wm_get w prefs"])

lemma field_entries_default: "ns \<noteq> 0 \<Longrightarrow> entries_for ns (field_entries w prefs) = []"
  by (auto simp: entries_for_def field_entries_def filter_empty_conv split: option.splits if_splits)

lemma map_of_rev_distinct: "distinct (map fst xs) \<Longrightarrow> map_of (rev xs) = map_of xs"
proof (rule ext)
  fix k
  assume d: "distinct (map fst xs)"
  then have "distinct (map fst (rev xs))" by (simp add: rev_map [symmetric])
  then have "map_of (rev xs) k = Some v \<longleftrightarrow> map_of xs k = Some v" for v
    using d by (simp only: map_of_eq_Some_iff set_rev)
  then show "map_of (rev xs) k = map_of xs k" by (metis not_None_eq)
qed

section \<open>What a loaded store satisfies\<close>

text \<open>The bounds of the format, written out: the width and the content of each value of the default
  namespace, and the names and widths of the records of the other four.\<close>

definition value_fits :: "bytes \<Rightarrow> bytes \<Rightarrow> bool" where
  "value_fits k v \<longleftrightarrow>
     k \<in> {str ''guiflags'', str ''brightness'', str ''counter'', str ''keyflags'', str ''featflags''} \<and> length v = 1 \<or>
     k \<in> {str ''idletimeout'', str ''screentimeout''} \<and> length v = 2 \<or>
     k = str ''qrflags'' \<and> length v = 4 \<or>
     k = str ''privatekey'' \<and> length v = 32 \<or>
     k = str ''blob'' \<and> 80 \<le> length v \<and> length v \<le> 256 \<or>
     k = str ''antireplay'' \<and> length v = 4 \<and> v \<noteq> [255, 255, 255, 255] \<or>
     k = str ''walleterasepin'' \<and> length v = 48 \<or>
     k = str ''networktype'' \<and> length v = 4 \<and> v \<in> {[0, 0, 0, 0], [1, 0, 0, 0], [2, 0, 0, 0]} \<or>
     k \<in> {str ''pinsvrurlA'', str ''pinsvrurlB''} \<and> v \<noteq> [] \<and> length v \<le> 120 \<and> last v = 0 \<or>
     k = str ''pinsvrpubkey'' \<and> length v = 33 \<or>
     k = str ''pinsvrcert'' \<and> v \<noteq> [] \<and> length v \<le> 2048 \<and> last v = 0"

definition record_fits :: "nat \<Rightarrow> bytes \<Rightarrow> bytes \<Rightarrow> bool" where
  "record_fits ns k v \<longleftrightarrow> 1 \<le> length k \<and> length k \<le> 15 \<and> (\<forall>c\<in>set k. 33 \<le> c \<and> c \<le> 126) \<and>
     (ns = 1 \<and> 114 \<le> length v \<and> length v \<le> 3281 \<or>
      ns = 2 \<and> 41 \<le> length v \<and> length v \<le> 3281 \<or>
      ns = 3 \<and> 32 \<le> length v \<and> length v \<le> 288 \<and> 16 dvd length v \<or>
      ns = 4 \<and> length v = 8)"

definition storage_valid :: "wmap list \<Rightarrow> bool" where
  "storage_valid st \<longleftrightarrow> length st = 5 \<and>
     (\<forall>k v. map_of (st ! 0) k = Some v \<longrightarrow> value_fits k v) \<and>
     (\<forall>ns\<in>{1, 2, 3, 4}. (\<forall>k v. map_of (st ! ns) k = Some v \<longrightarrow> record_fits ns k v) \<and>
        card (dom (map_of (st ! ns))) \<le> 16)"

lemma le32_bytes:
  assumes "length v = 4"
  shows "write_le32 (read_le32 v) = v"
proof -
  have "length v = Suc (Suc (Suc (Suc 0)))" using assms by simp
  then obtain a b c d where v: "v = [a, b, c, d]" by (auto simp: length_Suc_conv)
  have small: "bit x i \<Longrightarrow> i < 8" for x :: byte and i using bit_imp_le_length [of x i] by simp
  show ?thesis
    unfolding v write_le32_def read_le32_def
    by (auto simp: bit_eq_iff bit_or_iff bit_push_bit_iff bit_ucast_iff bit_drop_bit_eq dest: small)
qed

lemma le32_eq_iff: "length v = 4 \<Longrightarrow> read_le32 v = x \<longleftrightarrow> v = write_le32 x"
  using le32_bytes by auto

lemma u32_le_2: "(x :: u32) \<le> 2 \<longleftrightarrow> x \<in> {0, 1, 2}"
proof
  assume "x \<le> 2"
  then have "unat x \<le> 2" by (simp add: word_le_nat_alt)
  then have "unat x = 0 \<or> unat x = 1 \<or> unat x = 2" by linarith
  moreover have "x = of_nat (unat x)" by simp
  ultimately have "x = of_nat 0 \<or> x = of_nat 1 \<or> x = of_nat 2" by metis
  then show "x \<in> {0, 1, 2}" by auto
qed auto

lemma network_type_bytes:
  assumes "length v = 4"
  shows "read_le32 v \<le> 2 \<longleftrightarrow> v \<in> {[0, 0, 0, 0], [1, 0, 0, 0], [2, 0, 0, 0]}"
  unfolding u32_le_2 using assms by (simp add: le32_eq_iff write_le32_def)

lemma replay_bytes:
  assumes "length v = 4"
  shows "read_le32 v = - 1 \<longleftrightarrow> v = [255, 255, 255, 255]"
proof -
  have "write_le32 (- 1) = [255, 255, 255, 255]" by code_simp
  then show ?thesis using assms by (simp add: le32_eq_iff)
qed

lemma nul_ended: "Suc 0 \<le> length v \<and> P \<and> v ! (length v - Suc 0) = 0 \<longleftrightarrow> v \<noteq> [] \<and> P \<and> last v = 0"
  by (cases v rule: rev_cases) auto

text \<open>The checks of the source are these bounds, no more and no less.\<close>

lemma default_entry_valid_iff: "default_entry_valid k v \<longleftrightarrow> value_fits k v"
proof (cases "find_field k")
  case None
  then show ?thesis
    by (auto simp: default_entry_valid_def find_field_def PERSISTED_FIELDS_def value_fits_def simp del: str_Cons split: if_splits)
next
  case (Some f)
  then have f: "f \<in> set PERSISTED_FIELDS" "pf_key f = k" by (simp_all add: find_field_def find_Some_iff) auto
  have "default_entry_valid k v \<longleftrightarrow> (if pf_min_len f = pf_max_len f then length v = pf_min_len f else pf_min_len f \<le> length v \<and> length v \<le> pf_max_len f) \<and> (pf_nul f \<longrightarrow> v ! (length v - 1) = 0) \<and>
      (k = str ''antireplay'' \<longrightarrow> read_le32 v \<noteq> - 1) \<and> (k = str ''networktype'' \<longrightarrow> read_le32 v \<le> 2)"
    using Some f(2) by (auto simp: default_entry_valid_def not_less not_le simp del: str_Cons)
  then show ?thesis
    using f unfolding PERSISTED_FIELDS_def list.set
    by (elim insertE emptyE; clarsimp simp: value_fits_def chr_def nul_ended network_type_bytes replay_bytes cong: conj_cong)
qed

lemma user_entry_valid_iff: "user_entry_valid ns k (length v) \<longleftrightarrow> record_fits ns k v"
proof (cases "ns = 1 \<or> ns = 2 \<or> ns = 3 \<or> ns = 4")
  case True
  have "16 \<le> length v \<Longrightarrow> (length v - 16) mod 16 = 0 \<longleftrightarrow> 16 dvd length v"
    by (simp add: mod_eq_0_iff_dvd dvd_diff_nat dvd_minus_self)
  then show ?thesis using True
    by (elim disjE) (auto simp: user_entry_valid_def record_fits_def PERSISTED_NAMESPACES_def settings_consts list_all_iff Suc_le_eq)
next
  case False
  then show ?thesis by (auto simp: user_entry_valid_def record_fits_def)
qed

text \<open>The two keys that go together; the invariant of the storing pass run beside the checking pass.\<close>

definition url_a :: bytes where "url_a = str ''pinsvrurlA''"
definition url_b :: bytes where "url_b = str ''pinsvrurlB''"

lemmas walk_step = walk_loop.simps [folded url_a_def url_b_def]

definition load_inv :: "wmap list \<Rightarrow> bool \<Rightarrow> bool \<Rightarrow> nat list \<Rightarrow> bool" where
  "load_inv st a b c \<longleftrightarrow> length st = 5 \<and> length c = 5 \<and>
     (\<forall>k v. map_of (st ! 0) k = Some v \<longrightarrow> default_entry_valid k v) \<and>
     (\<forall>ns\<in>{1..<5}. (\<forall>k v. map_of (st ! ns) k = Some v \<longrightarrow> user_entry_valid ns k (length v)) \<and>
        card (dom (map_of (st ! ns))) \<le> c ! ns \<and> c ! ns \<le> 16) \<and>
     (a \<longleftrightarrow> url_a \<in> dom (map_of (st ! 0))) \<and> (b \<longleftrightarrow> url_b \<in> dom (map_of (st ! 0)))"

lemma load_inv_valid:
  assumes "load_inv st a b c"
  shows "storage_valid st" and "url_a \<in> dom (map_of (st ! 0)) \<longleftrightarrow> a" and "url_b \<in> dom (map_of (st ! 0)) \<longleftrightarrow> b"
proof -
  have len: "length st = 5" and zero: "\<And>k v. map_of (st ! 0) k = Some v \<Longrightarrow> value_fits k v"
    using assms by (simp_all add: load_inv_def default_entry_valid_iff)
  have recs: "(\<forall>k v. map_of (st ! ns) k = Some v \<longrightarrow> record_fits ns k v) \<and> card (dom (map_of (st ! ns))) \<le> 16"
    if "ns \<in> {1, 2, 3, 4}" for ns
  proof -
    have "ns \<in> {1..<5}" using that by auto
    then have "(\<forall>k v. map_of (st ! ns) k = Some v \<longrightarrow> record_fits ns k v) \<and> card (dom (map_of (st ! ns))) \<le> c ! ns \<and> c ! ns \<le> 16"
      using assms unfolding load_inv_def user_entry_valid_iff by blast
    then show ?thesis using le_trans by blast
  qed
  show "storage_valid st" unfolding storage_valid_def using len zero recs by blast
  show "url_a \<in> dom (map_of (st ! 0)) \<longleftrightarrow> a" and "url_b \<in> dom (map_of (st ! 0)) \<longleftrightarrow> b" using assms by (simp_all add: load_inv_def)
qed

lemma max_entries_16: "ns \<in> {1..<5} \<Longrightarrow> pn_max_entries (PERSISTED_NAMESPACES ! (ns - 1)) = 16"
proof -
  assume "ns \<in> {1..<5}"
  then have "ns = 1 \<or> ns = 2 \<or> ns = 3 \<or> ns = 4" by auto
  then show ?thesis by (auto simp: PERSISTED_NAMESPACES_def)
qed

lemma card_dom_upd: "card (dom ((map_of m)(k \<mapsto> v))) \<le> Suc (card (dom (map_of m)))"
proof -
  have "finite (dom (map_of m))" by (rule finite_dom_map_of)
  then show ?thesis by (simp add: card_insert_if)
qed

lemma load_inv_default:
  assumes "load_inv st a b c" and "default_entry_valid key val" and "map_of m' = (map_of (st ! 0))(key \<mapsto> val)"
  shows "load_inv (st[0 := m']) (a \<or> key = url_a) (b \<or> key = url_b) c"
  using assms unfolding load_inv_def by (auto simp: nth_list_update)

lemma load_inv_user:
  assumes inv: "load_inv st a b c" and ns: "ns \<in> {1..<5}" and v: "user_entry_valid ns key (length val)"
    and "c ! ns + 1 \<le> 16" and m': "map_of m' = (map_of (st ! ns))(key \<mapsto> val)"
  shows "load_inv (st[ns := m']) a b (c[ns := c ! ns + 1])"
proof -
  have "card (dom (map_of m')) \<le> c ! ns + 1"
    using card_dom_upd [of "st ! ns" key val] inv ns unfolding m' load_inv_def by fastforce
  then show ?thesis
    using inv ns v assms(4) m' unfolding load_inv_def by (auto simp: nth_list_update)
qed

lemma walk_both:
  assumes laws: "wally_laws w"
  shows "fst (walk_loop w False st0 p a b c) \<Longrightarrow> walk_loop w True st p a' b' c = (True, st'') \<Longrightarrow> load_inv st a b c \<Longrightarrow>
    storage_valid st'' \<and> (url_a \<in> dom (map_of (st'' ! 0)) \<longleftrightarrow> url_b \<in> dom (map_of (st'' ! 0)))"
proof (induction p arbitrary: a b c a' b' st rule: length_induct)
  case (1 p)
  show ?case
  proof (cases "p = []")
    case True
    then have "st'' = st" "a \<longleftrightarrow> b" using "1.prems"(1,2) by (simp_all add: walk_step [of w _ _ "[]"])
    then show ?thesis using load_inv_valid [OF "1.prems"(3)] by simp
  next
    case False
    then have "next_entry p \<noteq> None" using "1.prems"(1) by (auto simp: walk_step [of w _ _ p] split: option.splits)
    then obtain ns key val rest where n: "next_entry p = Some ((ns, key, val), rest)" by (metis not_None_eq prod_cases3 surj_pair)
    have ns: "ns < 5" using n by (auto simp: next_entry_def Let_def split: list.splits if_splits)
    have len: "length st = 5" "length c = 5" using "1.prems"(3) by (simp_all add: load_inv_def)
    obtain m' where m': "wm_replace w (st ! ns) key val = Some m'"
      using "1.prems"(2) False n ns len
      by (auto simp: walk_step [of w _ _ p] Let_def pijade_settings_storage_def split: if_splits option.splits)
    then have up: "map_of m' = (map_of (st ! ns))(key \<mapsto> val)" using laws by (auto simp: wally_laws_def)
    have short: "length rest < length p" by (rule next_entry_shorter [OF n])
    show ?thesis
    proof (cases "ns = 0")
      case True
      then have v: "default_entry_valid key val"
        and f: "fst (walk_loop w False st0 rest (a \<or> key = url_a) (b \<or> key = url_b) c)"
        using "1.prems"(1) False n by (auto simp: walk_step [of w _ _ p] Let_def split: if_splits)
      have "\<exists>a1 b1. walk_loop w True (st[0 := m']) rest a1 b1 c = (True, st'')"
        using "1.prems"(2) False n v True m' len
        by (auto simp: walk_step [of w _ _ p] Let_def pijade_settings_storage_def)
      moreover have "load_inv (st[0 := m']) (a \<or> key = url_a) (b \<or> key = url_b) c"
        using load_inv_default [OF "1.prems"(3) v] up True by simp
      ultimately show ?thesis using "1.IH" short f by blast
    next
      case user: False
      let ?c = "c[ns := c ! ns + 1]"
      have v: "user_entry_valid ns key (length val)" and cnt: "?c ! ns \<le> pn_max_entries (PERSISTED_NAMESPACES ! (ns - 1))"
        and f: "fst (walk_loop w False st0 rest a b ?c)"
        using "1.prems"(1) False n user by (auto simp: walk_step [of w _ _ p] Let_def split: if_splits)
      have "\<exists>a1 b1. walk_loop w True (st[ns := m']) rest a1 b1 ?c = (True, st'')"
        using "1.prems"(2) False n v cnt user m' len ns
        by (auto simp: walk_step [of w _ _ p] Let_def pijade_settings_storage_def)
      moreover have "load_inv (st[ns := m']) a b ?c"
        using load_inv_user [OF "1.prems"(3) _ v _ up] cnt max_entries_16 [of ns] user ns len by simp
      ultimately show ?thesis using "1.IH" short f by blast
    qed
  qed
qed

lemma load_inv_blank: "load_inv (replicate 5 []) False False (replicate 5 0)"
proof -
  have "x < 5 \<Longrightarrow> replicate 5 [] ! x = []" "x < 5 \<Longrightarrow> replicate 5 0 ! x = 0" for x :: nat by (simp_all only: nth_replicate)
  then show ?thesis by (simp add: load_inv_def)
qed

section \<open>Properties\<close>

text \<open>What the theorems take from libwally and SHA-256 besides \<open>wally_laws\<close>: allocation succeeds,
  and a digest has its 32 bytes.\<close>

definition no_alloc_failure :: "wally_api \<Rightarrow> bool" where
  "no_alloc_failure w \<longleftrightarrow> (\<forall>m k v. wm_replace w m k v \<noteq> None)"

definition sha256_len :: "(bytes \<Rightarrow> bytes option) \<Rightarrow> bool" where
  "sha256_len sha256 \<longleftrightarrow> (\<forall>b d. sha256 b = Some d \<longrightarrow> length d = 32)"

lemma wally_alist_laws: "wally_laws wally_alist" "no_alloc_failure wally_alist"
  by (simp_all add: wally_laws_def wally_alist_def no_alloc_failure_def update_conv' delete_conv' distinct_update distinct_delete)

lemma length_settings_magic [simp]: "length SETTINGS_MAGIC = 8"
  by (simp add: SETTINGS_MAGIC_def)

lemma walk_check_any: "fst (walk_loop w False st p a b c) = fst (walk_loop w False st' p a b c)"
proof (induction p arbitrary: a b c rule: length_induct)
  case (1 p)
  show ?case
  proof (cases "p = [] \<or> next_entry p = None")
    case True
    then show ?thesis by (auto simp: walk_loop.simps [of w _ _ p])
  next
    case False
    then obtain ns key val rest where n: "next_entry p = Some ((ns, key, val), rest)" by (metis not_None_eq prod_cases3 surj_pair)
    then show ?thesis
      using "1.IH" next_entry_shorter [OF n] False by (auto simp: walk_loop.simps [of w _ _ p] Let_def)
  qed
qed

text \<open>What the serialiser wrote, the loader restores.\<close>

lemma serialized_loads:
  assumes laws: "wally_laws w" and alloc: "no_alloc_failure w" and "sha256_len sha256"
    and "length storage = 5" and keys: "\<And>ns. ns < 5 \<Longrightarrow> distinct (map fst (storage ! ns))"
    and ser: "pijade_settings_serialize w sha256 malloc_ok storage = Some img"
  shows "\<exists>st. pijade_settings_deserialize w sha256 (replicate 5 []) img = (True, st) \<and> length st = 5 \<and>
     (\<forall>k. wm_get w (st ! 0) k = persisted_value w (storage ! 0) k) \<and>
     (\<forall>ns\<in>{1..<5}. \<forall>k. wm_get w (st ! ns) k = wm_get w (storage ! ns) k)"
proof -
  obtain records digest where rec: "all_records storage [1..<5] = Some records"
    and dig: "sha256 (concat (map put_entry (field_entries w (storage ! 0) @ records))) = Some digest"
    and check: "fst (walk_entries w False storage (concat (map put_entry (field_entries w (storage ! 0) @ records))))"
    and img: "img = SETTINGS_MAGIC @ take 4 digest @ concat (map put_entry (field_entries w (storage ! 0) @ records))"
    using ser by (auto simp: pijade_settings_serialize_def set_digest_def settings_consts Let_def split: option.splits if_splits)
  define es where "es = field_entries w (storage ! 0) @ records"
  let ?body = "concat (map put_entry es)"
  have r: "list_all entry_ok records" "\<And>n. entries_for n records = (if n \<in> {1..<5} then storage ! n else [])"
    using all_records_ok [OF rec distinct_upt] by (simp_all only: set_upt simp_thms)
  have ok: "list_all entry_ok es" using r(1) field_entries_ok by (simp add: es_def)
  have "length digest = 32" using dig assms(3) by (auto simp: sha256_len_def)
  then have parts: "take 8 img = SETTINGS_MAGIC" "take 4 (drop 8 img) = take 4 digest" "drop 12 img = ?body" "12 \<le> length img"
    using img by (simp_all add: es_def)
  have no: "\<And>m k v. wm_replace w m k v \<noteq> None" using alloc by (simp add: no_alloc_failure_def)
  have checked: "fst (walk_entries w False (replicate 5 []) ?body)"
    using check walk_check_any [of w storage] by (simp only: walk_entries_def es_def) blast
  have len: "length (replicate 5 []) = 5" by (rule length_replicate)
  have "fst (walk_entries w True (replicate 5 []) ?body)"
    using walk_store_accepts [OF no checked [unfolded walk_entries_def] len] by (simp only: walk_entries_def)
  then obtain st where st: "walk_entries w True (replicate 5 []) ?body = (True, st)" by (metis prod.collapse)
  have stored: "length st = 5" "\<And>ns. ns < 5 \<Longrightarrow> map_of (st ! ns) = map_of (rev (entries_for ns es))"
    using walk_stores [OF laws ok len st [unfolded walk_entries_def]] by (simp_all only: nth_replicate map_of.simps(1) empty_map_add simp_thms)
  have load: "pijade_settings_deserialize w sha256 (replicate 5 []) img = (True, st)"
    using parts dig checked st
    unfolding pijade_settings_deserialize_def Let_def settings_consts length_settings_magic es_def [symmetric]
    by simp
  have get: "wm_get w m k = map_of m k" for m k using laws by (simp add: wally_laws_def)
  have zero: "map_of (st ! 0) k = persisted_value w (storage ! 0) k" for k
    using stored(2) [of 0] field_entries_lookup [of w "storage ! 0" k] r(2) [of 0] by (simp add: es_def)
  have recs: "map_of (st ! ns) = map_of (storage ! ns)" if "ns \<in> {1..<5}" for ns
  proof -
    have n: "ns < 5" "ns \<noteq> 0" using that by auto
    then show ?thesis
      using stored(2) [OF n(1)] field_entries_default [OF n(2)] r(2) [of ns] that map_of_rev_distinct [OF keys [OF n(1)]]
      by (simp add: es_def)
  qed
  show ?thesis using load stored(1) zero recs get by auto
qed

text \<open>C34. Saving and loading the settings is lossless: an image the serialiser produced is accepted
  by the loader on a fresh store, which then holds every allowlisted field of the default
  namespace that is in its width, nothing else there, and every registration record.\<close>

theorem settings_roundtrip:
  assumes laws: "wally_laws w" and alloc: "no_alloc_failure w" and "sha256_len sha256"
    and "length storage = 5" and keys: "\<And>ns. ns < 5 \<Longrightarrow> distinct (map fst (storage ! ns))"
    and ser: "pijade_settings_serialize w sha256 malloc_ok storage = Some img"
  shows "\<exists>st. pijade_settings_deserialize w sha256 (replicate 5 []) img = (True, st) \<and> length st = 5 \<and>
     (\<forall>k. wm_get w (st ! 0) k = persisted_value w (storage ! 0) k) \<and>
     (\<forall>ns\<in>{1..<5}. \<forall>k. wm_get w (st ! ns) k = wm_get w (storage ! ns) k)"
  by (rule serialized_loads [OF assms])

text \<open>A store with one field, one key that is not persisted and one HOTP counter.\<close>

definition demo_storage :: "wmap list" where
  "demo_storage = [[(str ''brightness'', [5]), (str ''other'', [1])], [], [], [], [(str ''otp'', [1, 0, 0, 0, 0, 0, 0, 0])]]"

definition demo_image :: bytes where
  "demo_image = str ''PIJADES4'' @ replicate 4 0 @ put_entry (0, str ''brightness'', [5]) @ put_entry (4, str ''otp'', [1, 0, 0, 0, 0, 0, 0, 0])"

definition demo_sha256 :: "bytes \<Rightarrow> bytes option" where
  "demo_sha256 b = Some (replicate 32 0)"

lemma demo_serialize: "pijade_settings_serialize wally_alist demo_sha256 True demo_storage = Some demo_image"
  by code_simp

theorem settings_roundtrip_witness:
  "\<exists>st. pijade_settings_deserialize wally_alist demo_sha256 (replicate 5 []) demo_image = (True, st)
     \<and> wm_get wally_alist (st ! 0) (str ''brightness'') = persisted_value wally_alist (demo_storage ! 0) (str ''brightness'')"
proof -
  have len: "length demo_storage = 5" by (simp add: demo_storage_def)
  have "list_all (\<lambda>m. distinct (map fst m)) demo_storage" by code_simp
  then have keys: "distinct (map fst (demo_storage ! ns))" if "ns < 5" for ns using that len by (simp add: list_all_length)
  have sha: "sha256_len demo_sha256" by (simp add: sha256_len_def demo_sha256_def)
  from settings_roundtrip [OF wally_alist_laws sha len keys demo_serialize] show ?thesis by blast
qed

text \<open>A bad image changes nothing: when allocation does not fail, a load that returns false
  leaves all five namespaces exactly as they were.\<close>

lemma settings_all_or_nothing:
  assumes "no_alloc_failure w" and "length storage = 5"
    and "pijade_settings_deserialize w sha256 storage img = (False, st)"
  shows "st = storage"
proof (rule ccontr)
  assume ne: "st \<noteq> storage"
  let ?body = "drop SETTINGS_HEADER_LEN img"
  have c: "fst (walk_entries w False storage ?body)" "walk_entries w True storage ?body = (False, st)"
    using assms(3) ne by (auto simp: pijade_settings_deserialize_def Let_def split: if_splits option.splits)
  have "\<And>m k v. wm_replace w m k v \<noteq> None" using assms(1) by (simp add: no_alloc_failure_def)
  then have "fst (walk_entries w True storage ?body)"
    using walk_store_accepts c(1) assms(2) unfolding walk_entries_def by blast
  then show False using c(2) by simp
qed

text \<open>C39. A hostile image cannot trip the device: whatever bytes are loaded into a fresh store, if
  they are accepted then every stored value has the width and content its readers assert (the
  replay counter below its maximum, a known network type, terminated strings, both pinserver urls
  or neither), every record has a printable name and fits its namespace, and no namespace holds
  more than sixteen.\<close>

theorem settings_load_validates:
  assumes "wally_laws w" and "pijade_settings_deserialize w sha256 (replicate 5 []) img = (True, st)"
  shows "storage_valid st \<and> (wm_get w (st ! 0) (str ''pinsvrurlA'') = None \<longleftrightarrow> wm_get w (st ! 0) (str ''pinsvrurlB'') = None)"
proof -
  let ?body = "drop SETTINGS_HEADER_LEN img"
  have c: "fst (walk_entries w False (replicate 5 []) ?body)" "walk_entries w True (replicate 5 []) ?body = (True, st)"
    using assms(2) by (auto simp: pijade_settings_deserialize_def Let_def split: if_splits option.splits)
  have get: "wm_get w m k = map_of m k" for m k using assms(1) by (simp add: wally_laws_def)
  have "storage_valid st \<and> (url_a \<in> dom (map_of (st ! 0)) \<longleftrightarrow> url_b \<in> dom (map_of (st ! 0)))"
    by (rule walk_both [OF assms(1) c(1) [unfolded walk_entries_def] c(2) [unfolded walk_entries_def]])
      (use load_inv_blank in \<open>simp only: settings_namespace_count\<close>)
  then show ?thesis unfolding url_a_def url_b_def get domIff by blast
qed

theorem settings_load_validates_witness:
  "\<exists>st. pijade_settings_deserialize wally_alist demo_sha256 (replicate 5 []) demo_image = (True, st) \<and> storage_valid st"
proof -
  obtain ok st where d: "pijade_settings_deserialize wally_alist demo_sha256 (replicate 5 []) demo_image = (ok, st)" by (metis prod.exhaust)
  have "fst (pijade_settings_deserialize wally_alist demo_sha256 (replicate 5 []) demo_image)" by code_simp
  then have "ok" using d by simp
  then show ?thesis using d settings_load_validates [OF wally_alist_laws(1), of demo_sha256 demo_image st] by auto
qed

end
