(* ===== verification/Nvs.thy ===== *)
theory Nvs
  imports Pijade_Settings
begin

text \<open>
  \<open>libjade/nvs_flash.c\<close>: the non-volatile store of the ESP-IDF interface, kept as five maps in
  memory. A commit hands the store to the host, which may fail to persist it.

  The state is the five maps and the medium behind them. What the host does on a commit and on a
  factory reset are the parameters \<open>persist\<close> and \<open>forget\<close> (\<open>libjade_settings_changed\<close> and
  \<open>libjade_settings_erased\<close>), modelled with the slot store in the theory \<open>Persistence\<close>. A
  handle is the number of the namespace. \<open>None\<close> around a result is \<open>abort()\<close>.
\<close>

section \<open>Data\<close>

datatype esp_err = ESP_OK | ESP_FAIL | ESP_ERR_NVS_NOT_FOUND | ESP_ERR_INVALID_ARG

record 'm nvs_state =
  nv_maps :: "wmap list"
  nv_media :: 'm

record 'm nvs_env =
  ne_wally :: wally_api
  ne_persist :: "wmap list \<Rightarrow> 'm \<Rightarrow> bool \<times> 'm"
  ne_forget :: "'m \<Rightarrow> bool \<times> 'm"

definition DEFAULT_NAMESPACE :: bytes where "DEFAULT_NAMESPACE = str ''PIN''"
definition MULTISIG_NAMESPACE :: bytes where "MULTISIG_NAMESPACE = str ''MULTISIGS''"
definition DESCRIPTOR_NAMESPACE :: bytes where "DESCRIPTOR_NAMESPACE = str ''DESCRIPTORS''"
definition OTP_NAMESPACE :: bytes where "OTP_NAMESPACE = str ''OTP''"
definition HOTP_COUNTERS_NAMESPACE :: bytes where "HOTP_COUNTERS_NAMESPACE = str ''HOTPC''"

lemmas namespace_defs = DEFAULT_NAMESPACE_def MULTISIG_NAMESPACE_def DESCRIPTOR_NAMESPACE_def OTP_NAMESPACE_def
  HOTP_COUNTERS_NAMESPACE_def

definition NVS_FILE_MAGIC :: bytes where "NVS_FILE_MAGIC = str ''JADE_NVS''"
definition NVS_NS_NAME_MAX_SIZE :: nat where "NVS_NS_NAME_MAX_SIZE = 16"

section \<open>Operations\<close>

definition get_nvs_ns :: "bytes \<Rightarrow> nat option" where
  "get_nvs_ns ns =
     (if ns = DEFAULT_NAMESPACE then Some 0
      else if ns = MULTISIG_NAMESPACE then Some 1
      else if ns = DESCRIPTOR_NAMESPACE then Some 2
      else if ns = OTP_NAMESPACE then Some 3
      else if ns = HOTP_COUNTERS_NAMESPACE then Some 4
      else None)"

text \<open>One entry of the image: the namespace name as the zero-padded buffer reads as a string, the
  key, the value and what follows.\<close>

definition load_entry :: "bytes \<Rightarrow> ((bytes \<times> bytes \<times> bytes) \<times> bytes) option" where
  "load_entry p =
     (let ns_len = unat (p ! 0) in
      if length p < 1 + ns_len \<or> ns_len \<ge> NVS_NS_NAME_MAX_SIZE then None
      else
        let ns = takeWhile (\<lambda>c. c \<noteq> 0) (take ns_len (drop 1 p));
            p = drop (1 + ns_len) p in
        if p = [] then None
        else
          let key_len = unat (p ! 0) in
          if length p < 1 + key_len \<or> key_len \<ge> NVS_KEY_NAME_MAX_SIZE then None
          else
            let key = take key_len (drop 1 p);
                p = drop (1 + key_len) p in
            if length p < 4 then None
            else
              let value_len = unat (read_le32 p);
                  p = drop 4 p in
              if length p < value_len then None
              else Some ((ns, key, take value_len p), drop value_len p))"

lemma load_entry_shorter: "p \<noteq> [] \<Longrightarrow> load_entry p = Some (e, rest) \<Longrightarrow> length rest < length p"
  by (auto simp: load_entry_def Let_def split: if_splits)

function load_entries :: "wally_api \<Rightarrow> wmap list \<Rightarrow> bytes \<Rightarrow> esp_err \<times> wmap list" where
  "load_entries w maps p =
     (if p = [] then (ESP_OK, maps)
      else case load_entry p of
        None \<Rightarrow> (ESP_ERR_INVALID_ARG, maps)
      | Some ((ns, key, val), rest) \<Rightarrow>
        let maps = (case get_nvs_ns ns of None \<Rightarrow> maps
          | Some m \<Rightarrow> (case wm_replace w (maps ! m) key val of None \<Rightarrow> maps | Some m' \<Rightarrow> maps[m := m'])) in
        load_entries w maps rest)"
  by pat_completeness auto
termination
  by (relation "measure (\<lambda>(w, maps, p). length p)") (auto dest: load_entry_shorter)

declare load_entries.simps [simp del]

definition libjade_load_nvs :: "wally_api \<Rightarrow> wmap list \<Rightarrow> bytes \<Rightarrow> esp_err \<times> wmap list" where
  "libjade_load_nvs w maps bytes =
     (if length bytes < length NVS_FILE_MAGIC \<or> take (length NVS_FILE_MAGIC) bytes \<noteq> NVS_FILE_MAGIC
      then (ESP_ERR_INVALID_ARG, maps)
      else load_entries w maps (drop (length NVS_FILE_MAGIC) bytes))"

definition ns_names :: "bytes list" where
  "ns_names = [DEFAULT_NAMESPACE, MULTISIG_NAMESPACE, DESCRIPTOR_NAMESPACE, OTP_NAMESPACE, HOTP_COUNTERS_NAMESPACE]"

definition save_entry :: "bytes \<Rightarrow> bytes \<times> bytes \<Rightarrow> bytes" where
  "save_entry ns item = [of_nat (length ns)] @ ns @ [of_nat (length (fst item))] @ fst item
     @ write_le32 (of_nat (length (snd item))) @ snd item"

text \<open>The image, the result ESP_FAIL when the allocation fails, or an abort when the bytes written
  are not as many as were counted.\<close>

definition libjade_save_nvs :: "bool \<Rightarrow> wmap list \<Rightarrow> (esp_err + bytes) option" where
  "libjade_save_nvs malloc_ok maps =
     (let required_len = length NVS_FILE_MAGIC + sum_list (map (\<lambda>i. sum_list (map (\<lambda>item.
            1 + length (ns_names ! i) + 1 + length (fst item) + 4 + length (snd item)) (maps ! i))) [0..<5]);
          out = NVS_FILE_MAGIC @ concat (map (\<lambda>i. concat (map (save_entry (ns_names ! i)) (maps ! i))) [0..<5]) in
      if \<not> malloc_ok then Some (Inl ESP_FAIL)
      else do {
        jade_assert (length out = required_len);
        Some (Inr out) })"

definition nvs_open :: "bytes \<Rightarrow> esp_err + nat" where
  "nvs_open ns = (case get_nvs_ns ns of None \<Rightarrow> Inl ESP_ERR_NVS_NOT_FOUND | Some h \<Rightarrow> Inr h)"

definition nvs_set_blob ::
  "'m nvs_env \<Rightarrow> nat \<Rightarrow> bytes \<Rightarrow> bytes \<Rightarrow> 'm nvs_state \<Rightarrow> esp_err \<times> 'm nvs_state" where
  "nvs_set_blob env handle key val st = (case wm_replace (ne_wally env) (nv_maps st ! handle) key val of
     None \<Rightarrow> (ESP_FAIL, st)
   | Some m \<Rightarrow> (ESP_OK, st \<lparr> nv_maps := (nv_maps st)[handle := m] \<rparr>))"

text \<open>The bytes copied out, at most \<open>len\<close>.\<close>

definition nvs_get_blob :: "'m nvs_env \<Rightarrow> nat \<Rightarrow> bytes \<Rightarrow> nat \<Rightarrow> 'm nvs_state \<Rightarrow> esp_err + bytes" where
  "nvs_get_blob env handle key len st = (case wm_get (ne_wally env) (nv_maps st ! handle) key of
     None \<Rightarrow> Inl ESP_ERR_NVS_NOT_FOUND
   | Some v \<Rightarrow> if length v > len then Inl ESP_ERR_NVS_NOT_FOUND else Inr v)"

text \<open>A C string is its bytes before the terminator, which is stored with it.\<close>

definition nvs_set_str ::
  "'m nvs_env \<Rightarrow> nat \<Rightarrow> bytes \<Rightarrow> bytes \<Rightarrow> 'm nvs_state \<Rightarrow> esp_err \<times> 'm nvs_state" where
  "nvs_set_str env handle key s st = nvs_set_blob env handle key (s @ [0]) st"

definition nvs_get_str :: "'m nvs_env \<Rightarrow> nat \<Rightarrow> bytes \<Rightarrow> nat \<Rightarrow> 'm nvs_state \<Rightarrow> esp_err + bytes" where
  "nvs_get_str env handle key len st = nvs_get_blob env handle key len st"

definition nvs_set_u32 ::
  "'m nvs_env \<Rightarrow> nat \<Rightarrow> bytes \<Rightarrow> u32 \<Rightarrow> 'm nvs_state \<Rightarrow> esp_err \<times> 'm nvs_state" where
  "nvs_set_u32 env handle key v st = nvs_set_blob env handle key (write_le32 v) st"

text \<open>\<open>junk\<close> is what the local variable held: a shorter value overwrites only its first bytes.\<close>

definition nvs_get_u32 :: "'m nvs_env \<Rightarrow> bytes \<Rightarrow> nat \<Rightarrow> bytes \<Rightarrow> 'm nvs_state \<Rightarrow> esp_err + u32" where
  "nvs_get_u32 env junk handle key st = (case nvs_get_blob env handle key 4 st of
     Inl e \<Rightarrow> Inl e
   | Inr v \<Rightarrow> Inr (read_le32 (v @ drop (length v) junk)))"

definition nvs_erase_key :: "'m nvs_env \<Rightarrow> nat \<Rightarrow> bytes \<Rightarrow> 'm nvs_state \<Rightarrow> esp_err \<times> 'm nvs_state" where
  "nvs_erase_key env handle key st = (case wm_remove (ne_wally env) (nv_maps st ! handle) key of
     None \<Rightarrow> (ESP_ERR_NVS_NOT_FOUND, st)
   | Some m \<Rightarrow> (ESP_OK, st \<lparr> nv_maps := (nv_maps st)[handle := m] \<rparr>))"

text \<open>An iterator is a namespace and an index; the null iterator is \<open>None\<close>.\<close>

type_synonym nvs_iterator = "(nat \<times> nat) option"

definition nvs_entry_find :: "bool \<Rightarrow> bytes \<Rightarrow> 'm nvs_state \<Rightarrow> esp_err \<times> nvs_iterator" where
  "nvs_entry_find malloc_ok ns st =
     (if \<not> malloc_ok then (ESP_FAIL, None)
      else case get_nvs_ns ns of
        None \<Rightarrow> (ESP_ERR_NVS_NOT_FOUND, None)
      | Some m \<Rightarrow> if nv_maps st ! m = [] then (ESP_ERR_NVS_NOT_FOUND, None) else (ESP_OK, Some (m, 0)))"

definition nvs_entry_next :: "nat \<times> nat \<Rightarrow> 'm nvs_state \<Rightarrow> esp_err \<times> nvs_iterator" where
  "nvs_entry_next it st = (case it of (m, idx) \<Rightarrow>
     if idx + 1 \<ge> length (nv_maps st ! m) then (ESP_ERR_NVS_NOT_FOUND, None) else (ESP_OK, Some (m, idx + 1)))"

definition nvs_entry_info :: "nvs_iterator \<Rightarrow> 'm nvs_state \<Rightarrow> (esp_err + bytes) option" where
  "nvs_entry_info iterator st = (case iterator of
     None \<Rightarrow> Some (Inl ESP_ERR_INVALID_ARG)
   | Some (m, idx) \<Rightarrow>
     if idx \<ge> length (nv_maps st ! m) then Some (Inl ESP_ERR_INVALID_ARG)
     else do {
       let key = fst (nv_maps st ! m ! idx);
       jade_assert (length key < NVS_KEY_NAME_MAX_SIZE);
       Some (Inr key) })"

definition nvs_flash_erase :: "'m nvs_env \<Rightarrow> 'm nvs_state \<Rightarrow> esp_err \<times> 'm nvs_state" where
  "nvs_flash_erase env st =
     (let (ok, media) = ne_forget env (nv_media st) in
      (if ok then ESP_OK else ESP_FAIL, st \<lparr> nv_maps := map (\<lambda>_. []) (nv_maps st), nv_media := media \<rparr>))"

definition nvs_commit :: "'m nvs_env \<Rightarrow> nat \<Rightarrow> 'm nvs_state \<Rightarrow> esp_err \<times> 'm nvs_state" where
  "nvs_commit env handle st =
     (if handle < length (nv_maps st) then
        let (ok, media) = ne_persist env (nv_maps st) (nv_media st) in
        (if ok then ESP_OK else ESP_FAIL, st \<lparr> nv_media := media \<rparr>)
      else (ESP_FAIL, st))"

text \<open>Used and free entries; \<open>entries\<close> is \<open>ESP_NVS_TOTAL_ENTRIES\<close>, and the subtraction is of
  \<open>size_t\<close>, whose width is left open.\<close>

definition nvs_get_stats :: "'n::len word \<Rightarrow> 'm nvs_state \<Rightarrow> 'n word \<times> 'n word" where
  "nvs_get_stats entries st =
     (let used = of_nat (sum_list (map length (nv_maps st))) in (used, entries - used))"

section \<open>The image\<close>

definition nvs_entry_ok :: "bytes \<times> bytes \<times> bytes \<Rightarrow> bool" where
  "nvs_entry_ok e \<longleftrightarrow> (case e of (ns, key, val) \<Rightarrow>
     length ns < 16 \<and> 0 \<notin> set ns \<and> length key < 16 \<and> length val < 2 ^ 32)"

lemma load_entry_parts:
  assumes "unat a = length ns" "unat b = length key" "length l = 4" "unat (read_le32 (l @ val @ rest)) = length val"
    and "length ns < 16" "length key < 16"
  shows "load_entry (a # ns @ b # key @ l @ val @ rest) = Some ((takeWhile (\<lambda>c. c \<noteq> 0) ns, key, val), rest)"
proof -
  have "drop (1 + length ns) (a # ns @ b # key @ l @ val @ rest) = b # key @ l @ val @ rest"
    "drop (1 + length key) (b # key @ l @ val @ rest) = l @ val @ rest" "drop 4 (l @ val @ rest) = val @ rest"
    using assms(3) by simp_all
  then show ?thesis
    unfolding load_entry_def Let_def nth_Cons_0 assms(1,2)
    using assms(3-6) by (simp add: assms(2,4) NVS_NS_NAME_MAX_SIZE_def NVS_KEY_NAME_MAX_SIZE_def)
qed

lemma load_save_entry:
  assumes "nvs_entry_ok e"
  shows "load_entry ((case e of (ns, item) \<Rightarrow> save_entry ns item) @ rest) = Some (e, rest)"
proof (cases e)
  case (fields ns key val)
  have ok: "length ns < 16" "0 \<notin> set ns" "length key < 16" "length val < 2 ^ 32"
    using assms fields by (auto simp: nvs_entry_ok_def)
  have u: "unat (of_nat (length ns) :: byte) = length ns" using ok(1) by (simp add: unat_of_nat)
  have u2: "unat (of_nat (length key) :: byte) = length key" using ok(3) by (simp add: unat_of_nat)
  have u3: "unat (of_nat (length val) :: u32) = length val"
  proof -
    have "length val < 2 ^ LENGTH(32)" using ok(4) by simp
    then show ?thesis by (simp only: unsigned_of_nat take_bit_nat_eq_self of_nat_id)
  qed
  have "takeWhile (\<lambda>c. c \<noteq> 0) ns = ns" using ok(2) by (auto simp: takeWhile_eq_all_conv)
  then show ?thesis
    using load_entry_parts [OF u u2 length_write_le32, of "of_nat (length val)" val rest] u3 ok(1,3)
    unfolding fields by (simp add: save_entry_def)
qed

interpretation nvs_image: prefix_codec "\<lambda>(ns, item). save_entry ns item" load_entry nvs_entry_ok
  by unfold_locales (rule load_save_entry)

lemma length_save_entry: "length (save_entry ns item) = 1 + length ns + 1 + length (fst item) + 4 + length (snd item)"
  by (simp add: save_entry_def)

lemma libjade_save_nvs_total:
  "libjade_save_nvs True maps = Some (Inr (NVS_FILE_MAGIC @ concat (map (\<lambda>i. concat (map (save_entry (ns_names ! i)) (maps ! i))) [0..<5])))"
  by (simp add: libjade_save_nvs_def Let_def length_concat o_def length_save_entry jade_assert_def)

lemma get_nvs_ns_names: "i < 5 \<Longrightarrow> get_nvs_ns (ns_names ! i) = Some i"
proof -
  have "list_all (\<lambda>i. get_nvs_ns (ns_names ! i) = Some i) [0..<5]" by code_simp
  moreover assume "i < 5"
  ultimately show ?thesis by (simp add: list_all_iff)
qed

lemma ns_names_ok: "i < 5 \<Longrightarrow> length (ns_names ! i) < 16 \<and> 0 \<notin> set (ns_names ! i)"
proof -
  have "list_all (\<lambda>n. length n < 16 \<and> 0 \<notin> set n) ns_names" by code_simp
  moreover assume "i < 5"
  ultimately show ?thesis by (simp add: list_all_length ns_names_def)
qed

text \<open>Loading tagged items one after the other binds them in their maps.\<close>

lemma load_entries_stores:
  assumes laws: "wally_laws w" and "no_alloc_failure w"
  shows "list_all (\<lambda>(i, k, v). i < 5 \<and> length k < 16 \<and> length v < 2 ^ 32) es \<Longrightarrow> length maps = 5 \<Longrightarrow>
    \<exists>maps'. load_entries w maps (concat (map (\<lambda>(i, item). save_entry (ns_names ! i) item) es)) = (ESP_OK, maps') \<and>
      length maps' = 5 \<and> (\<forall>i<5. map_of (maps' ! i) = map_of (maps ! i) ++ map_of (rev (entries_for i es)))"
proof (induction es arbitrary: maps)
  case Nil
  then show ?case by (simp add: load_entries.simps)
next
  case (Cons e es)
  obtain i k v where e: "e = (i, k, v)" by (metis prod_cases3)
  have i: "i < 5" and es: "list_all (\<lambda>(i, k, v). i < 5 \<and> length k < 16 \<and> length v < 2 ^ 32) es" using Cons.prems(1) e by auto
  have ok: "nvs_entry_ok (ns_names ! i, k, v)" using Cons.prems(1) e ns_names_ok [OF i] by (auto simp: nvs_entry_ok_def)
  obtain m' where m': "wm_replace w (maps ! i) k v = Some m'" using assms(2) unfolding no_alloc_failure_def by blast
  have up: "map_of m' = (map_of (maps ! i))(k \<mapsto> v)" using laws m' by (auto simp: wally_laws_def)
  let ?rest = "concat (map (\<lambda>(i, item). save_entry (ns_names ! i) item) es)"
  have len: "length (maps[i := m']) = 5" using Cons.prems(2) by simp
  have "load_entries w maps (save_entry (ns_names ! i) (k, v) @ ?rest) = load_entries w (maps[i := m']) ?rest"
    using nvs_image.dec_enc [OF ok, of ?rest] get_nvs_ns_names [OF i] m' by (simp add: load_entries.simps [of w maps] save_entry_def)
  moreover obtain maps' where "load_entries w (maps[i := m']) ?rest = (ESP_OK, maps')" "length maps' = 5"
    "\<forall>j<5. map_of (maps' ! j) = map_of (maps[i := m'] ! j) ++ map_of (rev (entries_for j es))"
    using Cons.IH [OF es len] by blast
  ultimately show ?case
    using Cons.prems(2) i up by (auto simp: e nth_list_update map_add_def fun_eq_iff split: option.split)
qed

lemma concat_map_concat: "concat (map f (concat xss)) = concat (map (\<lambda>xs. concat (map f xs)) xss)"
  by (induction xss) simp_all

lemma entries_for_all:
  "i < n \<Longrightarrow> entries_for i (concat (map (\<lambda>i. map (Pair i) (maps ! i)) [0..<n])) = maps ! i"
  by (induction n) (auto simp: less_Suc_eq entries_for_def filter_empty_conv o_def)

section \<open>Properties\<close>

text \<open>The whole-store image is lossless: \<open>libjade_save_nvs\<close> writes exactly the bytes it counted,
  and \<open>libjade_load_nvs\<close> on an empty store restores every item of every namespace.\<close>

lemma nvs_image_roundtrip:
  assumes "wally_laws w" and "no_alloc_failure w" and "length maps = 5"
    and items: "\<And>i. i < 5 \<Longrightarrow> distinct (map fst (maps ! i)) \<and> list_all (\<lambda>(k, v). length k < 16 \<and> length v < 2 ^ 32) (maps ! i)"
  shows "\<exists>img maps'. libjade_save_nvs True maps = Some (Inr img) \<and>
     libjade_load_nvs w (replicate 5 []) img = (ESP_OK, maps') \<and> (\<forall>i<5. \<forall>k. wm_get w (maps' ! i) k = wm_get w (maps ! i) k)"
proof -
  define es where "es = concat (map (\<lambda>i. map (Pair i) (maps ! i)) [0..<5])"
  let ?img = "NVS_FILE_MAGIC @ concat (map (\<lambda>(i, item). save_entry (ns_names ! i) item) es)"
  have "concat (map (\<lambda>(i, item). save_entry (ns_names ! i) item) es) =
      concat (map (\<lambda>i. concat (map (save_entry (ns_names ! i)) (maps ! i))) [0..<5])"
    unfolding es_def concat_map_concat by (simp add: o_def del: upt_Suc)
  then have save: "libjade_save_nvs True maps = Some (Inr ?img)" by (simp add: libjade_save_nvs_total)
  have ok: "list_all (\<lambda>(i, k, v). i < 5 \<and> length k < 16 \<and> length v < 2 ^ 32) es"
    using items by (fastforce simp: es_def list_all_iff)
  have len: "length (replicate 5 []) = 5" by (rule length_replicate)
  obtain maps' where load: "load_entries w (replicate 5 []) (concat (map (\<lambda>(i, item). save_entry (ns_names ! i) item) es)) = (ESP_OK, maps')"
    and got: "\<forall>i<5. map_of (maps' ! i) = map_of (replicate 5 [] ! i) ++ map_of (rev (entries_for i es))"
    using load_entries_stores [OF assms(1,2) ok len] by blast
  have "map_of (maps' ! i) = map_of (maps ! i)" if "i < 5" for i
    using got that entries_for_all [OF that, of maps] map_of_rev_distinct [OF conjunct1 [OF items [OF that]]]
    unfolding es_def by (simp only: nth_replicate map_of.simps(1) empty_map_add)
  moreover have "wm_get w m k = map_of m k" for m k using assms(1) by (simp add: wally_laws_def)
  moreover have "libjade_load_nvs w (replicate 5 []) ?img = (ESP_OK, maps')"
    using load by (simp add: libjade_load_nvs_def)
  ultimately show ?thesis using save by metis
qed

end
