(* ===== verification/Storage.thy ===== *)
theory Storage
  imports Nvs
begin

text \<open>
  \<open>main/storage.c\<close>: the typed fields of the wallet in the non-volatile store. The pin counter, the
  replay counter, the encrypted seed, the duress pin, the preferences and the registration records
  are all keys of one of five namespaces; this theory has every operation of the file on them.

  An operation takes the environment and the state of the theory \<open>Nvs\<close> and returns the result and
  the new state; the outer \<open>None\<close> is a failed \<open>JADE_ASSERT\<close>. In a result, an inner \<open>None\<close> is the
  return value false of a reader. The key check of libwally, PBKDF2 and the random bytes are
  parameters. Multi-byte fields are stored as the little-endian hosts of this port store them. The
  flash encryption branch of \<open>init_nvs_flash\<close> is not compiled in this port.
\<close>

section \<open>Field names\<close>

definition PIN_PRIVATEKEY_FIELD :: bytes where "PIN_PRIVATEKEY_FIELD = str ''privatekey''"
definition PIN_COUNTER_FIELD :: bytes where "PIN_COUNTER_FIELD = str ''counter''"
definition REPLAY_COUNTER_FIELD :: bytes where "REPLAY_COUNTER_FIELD = str ''antireplay''"
definition BLOB_FIELD :: bytes where "BLOB_FIELD = str ''blob''"
definition KEY_FLAGS_FIELD :: bytes where "KEY_FLAGS_FIELD = str ''keyflags''"
definition WALLET_ERASE_PIN :: bytes where "WALLET_ERASE_PIN = str ''walleterasepin''"
definition USER_PINSERVER_URL_A :: bytes where "USER_PINSERVER_URL_A = str ''pinsvrurlA''"
definition USER_PINSERVER_URL_B :: bytes where "USER_PINSERVER_URL_B = str ''pinsvrurlB''"
definition USER_PINSERVER_PUBKEY :: bytes where "USER_PINSERVER_PUBKEY = str ''pinsvrpubkey''"
definition USER_PINSERVER_CERT :: bytes where "USER_PINSERVER_CERT = str ''pinsvrcert''"
definition NETWORK_TYPE_FIELD :: bytes where "NETWORK_TYPE_FIELD = str ''networktype''"
definition IDLE_TIMEOUT_FIELD :: bytes where "IDLE_TIMEOUT_FIELD = str ''idletimeout''"
definition SCREEN_TIMEOUT_FIELD :: bytes where "SCREEN_TIMEOUT_FIELD = str ''screentimeout''"
definition BRIGHTNESS_FIELD :: bytes where "BRIGHTNESS_FIELD = str ''brightness''"
definition GUI_FLAGS_FIELD :: bytes where "GUI_FLAGS_FIELD = str ''guiflags''"
definition BLE_FLAGS_FIELD :: bytes where "BLE_FLAGS_FIELD = str ''bleflags''"
definition QR_FLAGS_FIELD :: bytes where "QR_FLAGS_FIELD = str ''qrflags''"
definition FEATURE_FLAGS_FIELD :: bytes where "FEATURE_FLAGS_FIELD = str ''featflags''"
definition CLICK_EVENT_FIELD :: bytes where "CLICK_EVENT_FIELD = str ''clickevent''"

lemmas field_defs = PIN_PRIVATEKEY_FIELD_def PIN_COUNTER_FIELD_def REPLAY_COUNTER_FIELD_def BLOB_FIELD_def
  KEY_FLAGS_FIELD_def WALLET_ERASE_PIN_def USER_PINSERVER_URL_A_def USER_PINSERVER_URL_B_def
  USER_PINSERVER_PUBKEY_def USER_PINSERVER_CERT_def NETWORK_TYPE_FIELD_def IDLE_TIMEOUT_FIELD_def
  SCREEN_TIMEOUT_FIELD_def BRIGHTNESS_FIELD_def GUI_FLAGS_FIELD_def BLE_FLAGS_FIELD_def QR_FLAGS_FIELD_def
  FEATURE_FLAGS_FIELD_def CLICK_EVENT_FIELD_def

definition FEATURE_FLAGS_DEFAULT :: byte where
  "FEATURE_FLAGS_DEFAULT = 0x01 OR 0x02 OR 0x08 OR 0x10 OR 0x20 OR 0x40"

definition EC_PRIVATE_KEY_LEN :: nat where "EC_PRIVATE_KEY_LEN = 32"
definition WALLET_ERASE_PIN_SALT_LEN :: nat where "WALLET_ERASE_PIN_SALT_LEN = 16"
definition WALLET_ERASE_PIN_VERIFIER_LEN :: nat where "WALLET_ERASE_PIN_VERIFIER_LEN = 32"
definition WALLET_ERASE_PIN_RECORD_LEN :: nat where
  "WALLET_ERASE_PIN_RECORD_LEN = WALLET_ERASE_PIN_SALT_LEN + WALLET_ERASE_PIN_VERIFIER_LEN"
definition WALLET_ERASE_PIN_PBKDF2_COST :: nat where "WALLET_ERASE_PIN_PBKDF2_COST = 2048"

lemmas erase_pin_consts = WALLET_ERASE_PIN_SALT_LEN_def WALLET_ERASE_PIN_VERIFIER_LEN_def WALLET_ERASE_PIN_RECORD_LEN_def

section \<open>Building blocks\<close>

text \<open>The tail of the macros: commit and report.\<close>

definition storage_commit :: "'m nvs_env \<Rightarrow> nat \<Rightarrow> 'm nvs_state \<Rightarrow> bool \<times> 'm nvs_state" where
  "storage_commit env handle st = (let (err, st) = nvs_commit env handle st in (err = ESP_OK, st))"

definition store_blob ::
  "'m nvs_env \<Rightarrow> bytes \<Rightarrow> bytes \<Rightarrow> bytes \<Rightarrow> 'm nvs_state \<Rightarrow> (bool \<times> 'm nvs_state) option" where
  "store_blob env ns name data st = do {
     jade_assert (data \<noteq> []);
     case nvs_open ns of
       Inl _ \<Rightarrow> Some (False, st)
     | Inr handle \<Rightarrow>
       (let (err, st) = nvs_set_blob env handle name data st in
        if err \<noteq> ESP_OK then Some (False, st) else Some (storage_commit env handle st)) }"

definition read_blob ::
  "'m nvs_env \<Rightarrow> bytes \<Rightarrow> bytes \<Rightarrow> nat \<Rightarrow> 'm nvs_state \<Rightarrow> bytes option option" where
  "read_blob env ns name len st = do {
     jade_assert (len > 0);
     Some (case nvs_open ns of
       Inl _ \<Rightarrow> None
     | Inr handle \<Rightarrow> (case nvs_get_blob env handle name len st of Inl _ \<Rightarrow> None | Inr v \<Rightarrow> Some v)) }"

definition read_blob_fixed ::
  "'m nvs_env \<Rightarrow> bytes \<Rightarrow> bytes \<Rightarrow> nat \<Rightarrow> 'm nvs_state \<Rightarrow> bytes option option" where
  "read_blob_fixed env ns name len st = do {
     r \<leftarrow> read_blob env ns name len st;
     Some (case r of None \<Rightarrow> None | Some v \<Rightarrow> if length v \<noteq> len then None else Some v) }"

definition store_string ::
  "'m nvs_env \<Rightarrow> bytes \<Rightarrow> bytes \<Rightarrow> bytes \<Rightarrow> 'm nvs_state \<Rightarrow> (bool \<times> 'm nvs_state) option" where
  "store_string env ns name s st = (case nvs_open ns of
     Inl _ \<Rightarrow> Some (False, st)
   | Inr handle \<Rightarrow>
     (let (err, st) = nvs_set_str env handle name s st in
      if err \<noteq> ESP_OK then Some (False, st) else Some (storage_commit env handle st)))"

definition read_string ::
  "'m nvs_env \<Rightarrow> bytes \<Rightarrow> bytes \<Rightarrow> nat \<Rightarrow> 'm nvs_state \<Rightarrow> bytes option option" where
  "read_string env ns name len st = do {
     jade_assert (len > 0);
     Some (case nvs_open ns of
       Inl _ \<Rightarrow> None
     | Inr handle \<Rightarrow> (case nvs_get_str env handle name len st of Inl _ \<Rightarrow> None | Inr v \<Rightarrow> Some v)) }"

text \<open>The macro that erases a key: not finding it is no error.\<close>

definition storage_erase_field :: "'m nvs_env \<Rightarrow> nat \<Rightarrow> bytes \<Rightarrow> 'm nvs_state \<Rightarrow> bool \<times> 'm nvs_state" where
  "storage_erase_field env handle name st =
     (let (err, st) = nvs_erase_key env handle name st in (err = ESP_OK \<or> err = ESP_ERR_NVS_NOT_FOUND, st))"

definition erase_key :: "'m nvs_env \<Rightarrow> bytes \<Rightarrow> bytes \<Rightarrow> 'm nvs_state \<Rightarrow> bool \<times> 'm nvs_state" where
  "erase_key env ns name st = (case nvs_open ns of
     Inl _ \<Rightarrow> (False, st)
   | Inr handle \<Rightarrow>
     (let (ok, st) = storage_erase_field env handle name st in
      if \<not> ok then (False, st) else storage_commit env handle st))"

text \<open>The loops over the entries of a namespace.\<close>

function count_entries :: "nat \<times> nat \<Rightarrow> 'm nvs_state \<Rightarrow> nat" where
  "count_entries it st = (case nvs_entry_next it st of
     (ESP_OK, Some it') \<Rightarrow> Suc (count_entries it' st)
   | _ \<Rightarrow> 1)"
  by pat_completeness auto
termination
  by (relation "measure (\<lambda>((m, idx), st). length (nv_maps st ! m) - idx)") (auto simp: nvs_entry_next_def split: if_splits)

declare count_entries.simps [simp del]

definition get_entry_count :: "bool \<Rightarrow> bytes \<Rightarrow> 'm nvs_state \<Rightarrow> nat" where
  "get_entry_count malloc_ok ns st = (case nvs_entry_find malloc_ok ns st of
     (ESP_OK, Some it) \<Rightarrow> count_entries it st
   | _ \<Rightarrow> 0)"

function find_key_name :: "bytes \<Rightarrow> nat \<times> nat \<Rightarrow> 'm nvs_state \<Rightarrow> bool option" where
  "find_key_name name it st = (case nvs_entry_info (Some it) st of
     None \<Rightarrow> None
   | Some info \<Rightarrow>
     if info = Inr name then Some True
     else case nvs_entry_next it st of
       (ESP_OK, Some it') \<Rightarrow> find_key_name name it' st
     | _ \<Rightarrow> Some False)"
  by pat_completeness auto
termination
  by (relation "measure (\<lambda>(name, (m, idx), st). length (nv_maps st ! m) - idx)") (auto simp: nvs_entry_next_def split: if_splits)

declare find_key_name.simps [simp del]

definition key_name_exists :: "bool \<Rightarrow> bytes \<Rightarrow> bytes \<Rightarrow> 'm nvs_state \<Rightarrow> bool option" where
  "key_name_exists malloc_ok name ns st = (case nvs_entry_find malloc_ok ns st of
     (ESP_OK, Some it) \<Rightarrow> find_key_name name it st
   | _ \<Rightarrow> Some False)"

function collect_key_names :: "nat \<Rightarrow> nat \<times> nat \<Rightarrow> bytes list \<Rightarrow> 'm nvs_state \<Rightarrow> bytes list option" where
  "collect_key_names num_names it names st =
     (if length names \<ge> num_names then Some names
      else case nvs_entry_info (Some it) st of
        Some (Inr key) \<Rightarrow>
          (case nvs_entry_next it st of
             (ESP_OK, Some it') \<Rightarrow> collect_key_names num_names it' (names @ [key]) st
           | _ \<Rightarrow> Some (names @ [key]))
      | _ \<Rightarrow> None)"
  by pat_completeness auto
termination
  by (relation "measure (\<lambda>(n, (m, idx), ks, st). length (nv_maps st ! m) - idx)") (auto simp: nvs_entry_next_def split: if_splits)

declare collect_key_names.simps [simp del]

definition get_all_key_names :: "bool \<Rightarrow> bytes \<Rightarrow> nat \<Rightarrow> 'm nvs_state \<Rightarrow> (bool \<times> bytes list) option" where
  "get_all_key_names malloc_ok ns num_names st = do {
     jade_assert (num_names > 0);
     names \<leftarrow> (case nvs_entry_find malloc_ok ns st of
       (ESP_OK, Some it) \<Rightarrow> collect_key_names num_names it [] st
     | _ \<Rightarrow> Some []);
     Some (length names \<le> num_names, names) }"

section \<open>The store as a whole\<close>

text \<open>\<open>nvs_flash_init\<close> of this port always succeeds, so the branch that erases and initialises again
  is never taken.\<close>

definition storage_init :: "'m nvs_env \<Rightarrow> 'm nvs_state \<Rightarrow> bool \<times> 'm nvs_state" where
  "storage_init env st = (let err = ESP_OK; (_, st) = erase_key env DEFAULT_NAMESPACE CLICK_EVENT_FIELD st in (err = ESP_OK, st))"

definition storage_erase :: "'m nvs_env \<Rightarrow> 'm nvs_state \<Rightarrow> bool \<times> 'm nvs_state" where
  "storage_erase env st = (let (err, st) = nvs_flash_erase env st in (err = ESP_OK, st))"

definition ESP_NVS_ENTRIES_PER_PAGE :: nat where "ESP_NVS_ENTRIES_PER_PAGE = 126"
definition ESP_NVS_PAGE_SIZE :: nat where "ESP_NVS_PAGE_SIZE = ESP_NVS_ENTRIES_PER_PAGE * 32 + (32 + 32)"
definition ESP_NVS_RESERVED_ENTRIES :: nat where "ESP_NVS_RESERVED_ENTRIES = 1 * ESP_NVS_ENTRIES_PER_PAGE"

text \<open>\<open>part_size\<close> is the configured partition size, 16 or 64 kilobytes.\<close>

definition storage_get_stats :: "nat \<Rightarrow> 'm nvs_state \<Rightarrow> 'n::len word \<times> 'n word" where
  "storage_get_stats part_size st =
     (let entries = of_nat (part_size div ESP_NVS_PAGE_SIZE * ESP_NVS_ENTRIES_PER_PAGE);
          (used, free) = nvs_get_stats entries st in
      if free \<ge> of_nat ESP_NVS_RESERVED_ENTRIES \<and> used + free = entries
      then (used, free - of_nat ESP_NVS_RESERVED_ENTRIES) else (used, free))"

definition isgraph :: "byte \<Rightarrow> bool" where
  "isgraph c \<longleftrightarrow> 33 \<le> c \<and> c \<le> 126"

text \<open>The name is the string before its terminator.\<close>

fun key_name_valid_loop :: "nat \<Rightarrow> bytes \<Rightarrow> bool" where
  "key_name_valid_loop i [] \<longleftrightarrow> i > 0"
| "key_name_valid_loop i (c # cs) \<longleftrightarrow>
     (if i \<ge> NVS_KEY_NAME_MAX_SIZE then False else if \<not> isgraph c then False else key_name_valid_loop (i + 1) cs)"

definition storage_key_name_valid :: "bytes \<Rightarrow> bool" where
  "storage_key_name_valid name = key_name_valid_loop 0 name"

fun key_name_fix_loop :: "nat \<Rightarrow> bytes \<Rightarrow> bytes option" where
  "key_name_fix_loop i [] = do { jade_assert (i > 0); Some [] }"
| "key_name_fix_loop i (c # cs) =
     (if i \<ge> NVS_KEY_NAME_MAX_SIZE then Some []
      else do {
        rest \<leftarrow> key_name_fix_loop (i + 1) cs;
        Some ((if isgraph c then c else chr CHR ''_'') # rest) })"

definition storage_key_name_make_valid :: "bytes \<Rightarrow> bytes option" where
  "storage_key_name_make_valid name = key_name_fix_loop 0 name"

section \<open>Pin, counters and the encrypted seed\<close>

definition storage_get_pin_privatekey ::
  "(bytes \<Rightarrow> bool) \<Rightarrow> 'm nvs_env \<Rightarrow> nat \<Rightarrow> 'm nvs_state \<Rightarrow> bytes option option" where
  "storage_get_pin_privatekey ec_verify env key_len st = do {
     jade_assert (key_len = EC_PRIVATE_KEY_LEN);
     r \<leftarrow> read_blob_fixed env DEFAULT_NAMESPACE PIN_PRIVATEKEY_FIELD key_len st;
     Some (case r of None \<Rightarrow> None | Some privatekey \<Rightarrow> if ec_verify privatekey then Some privatekey else None) }"

definition storage_set_pin_privatekey ::
  "(bytes \<Rightarrow> bool) \<Rightarrow> 'm nvs_env \<Rightarrow> bytes \<Rightarrow> 'm nvs_state \<Rightarrow> (bool \<times> 'm nvs_state) option" where
  "storage_set_pin_privatekey ec_verify env privatekey st = do {
     jade_assert (length privatekey = EC_PRIVATE_KEY_LEN);
     if \<not> ec_verify privatekey then Some (False, st)
     else store_blob env DEFAULT_NAMESPACE PIN_PRIVATEKEY_FIELD privatekey st }"

definition storage_restore_counter :: "'m nvs_env \<Rightarrow> 'm nvs_state \<Rightarrow> (bool \<times> 'm nvs_state) option" where
  "storage_restore_counter env st = store_blob env DEFAULT_NAMESPACE PIN_COUNTER_FIELD [3] st"

definition storage_get_counter :: "'m nvs_env \<Rightarrow> 'm nvs_state \<Rightarrow> byte option" where
  "storage_get_counter env st = do {
     r \<leftarrow> read_blob_fixed env DEFAULT_NAMESPACE PIN_COUNTER_FIELD 1 st;
     Some (case r of None \<Rightarrow> 0 | Some v \<Rightarrow> v ! 0) }"

definition storage_set_encrypted_blob ::
  "'m nvs_env \<Rightarrow> bytes \<Rightarrow> 'm nvs_state \<Rightarrow> (bool \<times> 'm nvs_state) option" where
  "storage_set_encrypted_blob env encrypted st = do {
     (ok, st) \<leftarrow> storage_restore_counter env st;
     if \<not> ok then Some (False, st) else store_blob env DEFAULT_NAMESPACE BLOB_FIELD encrypted st }"

definition storage_get_encrypted_blob :: "'m nvs_env \<Rightarrow> nat \<Rightarrow> 'm nvs_state \<Rightarrow> bytes option option" where
  "storage_get_encrypted_blob env len st = read_blob env DEFAULT_NAMESPACE BLOB_FIELD len st"

definition storage_erase_encrypted_blob :: "'m nvs_env \<Rightarrow> 'm nvs_state \<Rightarrow> (bool \<times> 'm nvs_state) option" where
  "storage_erase_encrypted_blob env st =
     (let (ok, st) = erase_key env DEFAULT_NAMESPACE BLOB_FIELD st in
      if \<not> ok then do {
        (_, st) \<leftarrow> store_blob env DEFAULT_NAMESPACE PIN_COUNTER_FIELD [4] st;
        Some (False, st) }
      else
        let (_, st) = erase_key env DEFAULT_NAMESPACE PIN_COUNTER_FIELD st in Some (True, st))"

definition storage_decrement_counter :: "'m nvs_env \<Rightarrow> 'm nvs_state \<Rightarrow> (bool \<times> 'm nvs_state) option" where
  "storage_decrement_counter env st = do {
     counter \<leftarrow> storage_get_counter env st;
     if counter = 0 \<or> counter > 3 then do {
       (_, st) \<leftarrow> storage_erase_encrypted_blob env st;
       Some (False, st) }
     else do {
       (ok, st) \<leftarrow> store_blob env DEFAULT_NAMESPACE PIN_COUNTER_FIELD [counter - 1] st;
       if \<not> ok then do {
         (_, st) \<leftarrow> storage_erase_encrypted_blob env st;
         Some (False, st) }
       else Some (True, st) } }"

text \<open>The second half of \<open>storage_get_replay_counter\<close>: hand out \<open>j\<close>, keep \<open>j + 1\<close>.\<close>

definition replay_bump :: "'m nvs_env \<Rightarrow> nat \<Rightarrow> u32 \<Rightarrow> 'm nvs_state \<Rightarrow> (u32 option \<times> 'm nvs_state) option" where
  "replay_bump env handle j st = do {
     jade_assert (j < - 1);
     let (err, st) = nvs_set_u32 env handle REPLAY_COUNTER_FIELD (j + 1) st;
     if err \<noteq> ESP_OK then Some (None, st)
     else do {
       let (ok, st) = storage_commit env handle st;
       Some (if ok then Some j else None, st) } }"

text \<open>\<open>junk\<close> is the content of the local variable \<open>nvs_get_u32\<close> reads into.\<close>

definition storage_get_replay_counter ::
  "'m nvs_env \<Rightarrow> bytes \<Rightarrow> 'm nvs_state \<Rightarrow> (u32 option \<times> 'm nvs_state) option" where
  "storage_get_replay_counter env junk st = (case nvs_open DEFAULT_NAMESPACE of
     Inl _ \<Rightarrow> Some (None, st)
   | Inr handle \<Rightarrow>
     (case nvs_get_u32 env junk handle REPLAY_COUNTER_FIELD st of
        Inl err \<Rightarrow> if err \<noteq> ESP_ERR_NVS_NOT_FOUND then Some (None, st)
          else replay_bump env handle 0 st
      | Inr j \<Rightarrow> replay_bump env handle j st))"

section \<open>Pinserver\<close>

definition storage_set_pinserver_details ::
  "'m nvs_env \<Rightarrow> bytes \<Rightarrow> bytes \<Rightarrow> bytes option \<Rightarrow> 'm nvs_state \<Rightarrow> bool \<times> 'm nvs_state" where
  "storage_set_pinserver_details env urlA urlB pubkey st = (case nvs_open DEFAULT_NAMESPACE of
     Inl _ \<Rightarrow> (False, st)
   | Inr handle \<Rightarrow>
     let (err, st) = nvs_set_str env handle USER_PINSERVER_URL_A urlA st in
     if err \<noteq> ESP_OK then (False, st)
     else let (err, st) = nvs_set_str env handle USER_PINSERVER_URL_B urlB st in
     if err \<noteq> ESP_OK then (False, st)
     else let (ok, st) = storage_erase_field env handle PIN_PRIVATEKEY_FIELD st in
     if \<not> ok then (False, st)
     else case pubkey of
       Some (b # bs) \<Rightarrow>
         let (err, st) = nvs_set_blob env handle USER_PINSERVER_PUBKEY (b # bs) st in
         if err \<noteq> ESP_OK then (False, st) else storage_commit env handle st
     | _ \<Rightarrow> storage_commit env handle st)"

definition storage_get_pinserver_urlA :: "'m nvs_env \<Rightarrow> nat \<Rightarrow> 'm nvs_state \<Rightarrow> bytes option option" where
  "storage_get_pinserver_urlA env len st = read_string env DEFAULT_NAMESPACE USER_PINSERVER_URL_A len st"

definition storage_get_pinserver_urlB :: "'m nvs_env \<Rightarrow> nat \<Rightarrow> 'm nvs_state \<Rightarrow> bytes option option" where
  "storage_get_pinserver_urlB env len st = read_string env DEFAULT_NAMESPACE USER_PINSERVER_URL_B len st"

definition storage_get_pinserver_pubkey :: "'m nvs_env \<Rightarrow> nat \<Rightarrow> 'm nvs_state \<Rightarrow> bytes option option" where
  "storage_get_pinserver_pubkey env len st = read_blob_fixed env DEFAULT_NAMESPACE USER_PINSERVER_PUBKEY len st"

fun erase_fields :: "'m nvs_env \<Rightarrow> nat \<Rightarrow> bytes list \<Rightarrow> 'm nvs_state \<Rightarrow> bool \<times> 'm nvs_state" where
  "erase_fields env handle [] st = storage_commit env handle st"
| "erase_fields env handle (name # names) st =
     (let (ok, st) = storage_erase_field env handle name st in
      if \<not> ok then (False, st) else erase_fields env handle names st)"

definition storage_erase_pinserver_details :: "'m nvs_env \<Rightarrow> 'm nvs_state \<Rightarrow> bool \<times> 'm nvs_state" where
  "storage_erase_pinserver_details env st = (case nvs_open DEFAULT_NAMESPACE of
     Inl _ \<Rightarrow> (False, st)
   | Inr handle \<Rightarrow> erase_fields env handle
       [USER_PINSERVER_URL_A, USER_PINSERVER_URL_B, USER_PINSERVER_PUBKEY, PIN_PRIVATEKEY_FIELD] st)"

definition storage_set_pinserver_cert ::
  "'m nvs_env \<Rightarrow> bytes \<Rightarrow> 'm nvs_state \<Rightarrow> (bool \<times> 'm nvs_state) option" where
  "storage_set_pinserver_cert env cert st = store_string env DEFAULT_NAMESPACE USER_PINSERVER_CERT cert st"

definition storage_get_pinserver_cert :: "'m nvs_env \<Rightarrow> nat \<Rightarrow> 'm nvs_state \<Rightarrow> bytes option option" where
  "storage_get_pinserver_cert env len st = read_string env DEFAULT_NAMESPACE USER_PINSERVER_CERT len st"

definition storage_erase_pinserver_cert :: "'m nvs_env \<Rightarrow> 'm nvs_state \<Rightarrow> bool \<times> 'm nvs_state" where
  "storage_erase_pinserver_cert env st = erase_key env DEFAULT_NAMESPACE USER_PINSERVER_CERT st"

section \<open>Preferences\<close>

text \<open>\<open>network_type_t\<close> is an enumeration of four bytes; \<open>NETWORK_TYPE_NONE\<close> is 0.\<close>

definition storage_set_network_type_restriction ::
  "'m nvs_env \<Rightarrow> u32 \<Rightarrow> 'm nvs_state \<Rightarrow> (bool \<times> 'm nvs_state) option" where
  "storage_set_network_type_restriction env networktype st =
     store_blob env DEFAULT_NAMESPACE NETWORK_TYPE_FIELD (write_le32 networktype) st"

definition storage_get_network_type_restriction :: "'m nvs_env \<Rightarrow> 'm nvs_state \<Rightarrow> u32 option" where
  "storage_get_network_type_restriction env st = do {
     r \<leftarrow> read_blob_fixed env DEFAULT_NAMESPACE NETWORK_TYPE_FIELD 4 st;
     Some (case r of None \<Rightarrow> 0 | Some v \<Rightarrow> read_le32 v) }"

definition storage_set_idle_timeout :: "'m nvs_env \<Rightarrow> u16 \<Rightarrow> 'm nvs_state \<Rightarrow> (bool \<times> 'm nvs_state) option" where
  "storage_set_idle_timeout env timeout st = store_blob env DEFAULT_NAMESPACE IDLE_TIMEOUT_FIELD (write_le16 (unat timeout)) st"

definition storage_get_idle_timeout :: "'m nvs_env \<Rightarrow> 'm nvs_state \<Rightarrow> u16 option" where
  "storage_get_idle_timeout env st = do {
     r \<leftarrow> read_blob_fixed env DEFAULT_NAMESPACE IDLE_TIMEOUT_FIELD 2 st;
     Some (case r of None \<Rightarrow> 0 | Some v \<Rightarrow> of_nat (read_le16 v)) }"

definition storage_set_screen_timeout :: "'m nvs_env \<Rightarrow> u16 \<Rightarrow> 'm nvs_state \<Rightarrow> (bool \<times> 'm nvs_state) option" where
  "storage_set_screen_timeout env timeout st = store_blob env DEFAULT_NAMESPACE SCREEN_TIMEOUT_FIELD (write_le16 (unat timeout)) st"

definition storage_get_screen_timeout :: "'m nvs_env \<Rightarrow> 'm nvs_state \<Rightarrow> u16 option" where
  "storage_get_screen_timeout env st = do {
     r \<leftarrow> read_blob_fixed env DEFAULT_NAMESPACE SCREEN_TIMEOUT_FIELD 2 st;
     Some (case r of None \<Rightarrow> 0 | Some v \<Rightarrow> of_nat (read_le16 v)) }"

definition storage_set_brightness :: "'m nvs_env \<Rightarrow> byte \<Rightarrow> 'm nvs_state \<Rightarrow> (bool \<times> 'm nvs_state) option" where
  "storage_set_brightness env flags st = store_blob env DEFAULT_NAMESPACE BRIGHTNESS_FIELD [flags] st"

definition storage_get_brightness :: "'m nvs_env \<Rightarrow> 'm nvs_state \<Rightarrow> byte option" where
  "storage_get_brightness env st = do {
     r \<leftarrow> read_blob_fixed env DEFAULT_NAMESPACE BRIGHTNESS_FIELD 1 st;
     Some (case r of None \<Rightarrow> 0 | Some v \<Rightarrow> v ! 0) }"

definition storage_set_gui_flags :: "'m nvs_env \<Rightarrow> byte \<Rightarrow> 'm nvs_state \<Rightarrow> (bool \<times> 'm nvs_state) option" where
  "storage_set_gui_flags env flags st = store_blob env DEFAULT_NAMESPACE GUI_FLAGS_FIELD [flags] st"

definition storage_get_gui_flags :: "'m nvs_env \<Rightarrow> 'm nvs_state \<Rightarrow> byte option" where
  "storage_get_gui_flags env st = do {
     r \<leftarrow> read_blob_fixed env DEFAULT_NAMESPACE GUI_FLAGS_FIELD 1 st;
     Some (case r of None \<Rightarrow> 0 | Some v \<Rightarrow> v ! 0) }"

definition storage_set_feature_flags :: "'m nvs_env \<Rightarrow> byte \<Rightarrow> 'm nvs_state \<Rightarrow> (bool \<times> 'm nvs_state) option" where
  "storage_set_feature_flags env flags st = store_blob env DEFAULT_NAMESPACE FEATURE_FLAGS_FIELD [flags] st"

definition storage_get_feature_flags :: "'m nvs_env \<Rightarrow> 'm nvs_state \<Rightarrow> byte option" where
  "storage_get_feature_flags env st = do {
     r \<leftarrow> read_blob_fixed env DEFAULT_NAMESPACE FEATURE_FLAGS_FIELD 1 st;
     Some (case r of None \<Rightarrow> FEATURE_FLAGS_DEFAULT | Some v \<Rightarrow> v ! 0) }"

definition storage_set_ble_flags :: "'m nvs_env \<Rightarrow> byte \<Rightarrow> 'm nvs_state \<Rightarrow> (bool \<times> 'm nvs_state) option" where
  "storage_set_ble_flags env flags st = store_blob env DEFAULT_NAMESPACE BLE_FLAGS_FIELD [flags] st"

definition storage_get_ble_flags :: "'m nvs_env \<Rightarrow> 'm nvs_state \<Rightarrow> byte option" where
  "storage_get_ble_flags env st = do {
     r \<leftarrow> read_blob_fixed env DEFAULT_NAMESPACE BLE_FLAGS_FIELD 1 st;
     Some (case r of None \<Rightarrow> 0 | Some v \<Rightarrow> v ! 0) }"

definition storage_set_key_flags :: "'m nvs_env \<Rightarrow> byte \<Rightarrow> 'm nvs_state \<Rightarrow> (bool \<times> 'm nvs_state) option" where
  "storage_set_key_flags env flags st = store_blob env DEFAULT_NAMESPACE KEY_FLAGS_FIELD [flags] st"

definition storage_get_key_flags :: "'m nvs_env \<Rightarrow> 'm nvs_state \<Rightarrow> byte option" where
  "storage_get_key_flags env st = do {
     r \<leftarrow> read_blob_fixed env DEFAULT_NAMESPACE KEY_FLAGS_FIELD 1 st;
     Some (case r of None \<Rightarrow> 0 | Some v \<Rightarrow> v ! 0) }"

definition storage_set_qr_flags :: "'m nvs_env \<Rightarrow> u32 \<Rightarrow> 'm nvs_state \<Rightarrow> (bool \<times> 'm nvs_state) option" where
  "storage_set_qr_flags env flags st = store_blob env DEFAULT_NAMESPACE QR_FLAGS_FIELD (write_le32 flags) st"

definition storage_get_qr_flags :: "'m nvs_env \<Rightarrow> 'm nvs_state \<Rightarrow> u32 option" where
  "storage_get_qr_flags env st = do {
     r \<leftarrow> read_blob_fixed env DEFAULT_NAMESPACE QR_FLAGS_FIELD 4 st;
     case r of
       Some v \<Rightarrow> Some (read_le32 v)
     | None \<Rightarrow> do {
         r \<leftarrow> read_blob_fixed env DEFAULT_NAMESPACE QR_FLAGS_FIELD 2 st;
         Some (case r of None \<Rightarrow> 0 | Some v \<Rightarrow> of_nat (read_le16 v)) } }"

section \<open>Duress pin\<close>

text \<open>\<open>pbkdf2 pin salt cost len\<close> is libwally's PBKDF2-HMAC-SHA256.\<close>

definition wallet_erase_pin_derive ::
  "(bytes \<Rightarrow> bytes \<Rightarrow> nat \<Rightarrow> nat \<Rightarrow> bytes option) \<Rightarrow> bytes \<Rightarrow> bytes \<Rightarrow> bytes option option" where
  "wallet_erase_pin_derive pbkdf2 pin salt = do {
     jade_assert (pin \<noteq> []);
     Some (pbkdf2 pin salt WALLET_ERASE_PIN_PBKDF2_COST WALLET_ERASE_PIN_VERIFIER_LEN) }"

definition storage_set_wallet_erase_pin ::
  "(bytes \<Rightarrow> bytes \<Rightarrow> nat \<Rightarrow> nat \<Rightarrow> bytes option) \<Rightarrow> bytes \<Rightarrow> 'm nvs_env \<Rightarrow> bytes \<Rightarrow> 'm nvs_state \<Rightarrow>
   (bool \<times> 'm nvs_state) option" where
  "storage_set_wallet_erase_pin pbkdf2 random env pin st = do {
     jade_assert (pin \<noteq> []);
     verifier \<leftarrow> wallet_erase_pin_derive pbkdf2 pin random;
     case verifier of
       None \<Rightarrow> Some (False, st)
     | Some v \<Rightarrow> store_blob env DEFAULT_NAMESPACE WALLET_ERASE_PIN (random @ v) st }"

definition storage_verify_wallet_erase_pin ::
  "(bytes \<Rightarrow> bytes \<Rightarrow> nat \<Rightarrow> nat \<Rightarrow> bytes option) \<Rightarrow> 'm nvs_env \<Rightarrow> bytes \<Rightarrow> 'm nvs_state \<Rightarrow> bool option" where
  "storage_verify_wallet_erase_pin pbkdf2 env pin st = do {
     jade_assert (pin \<noteq> []);
     r \<leftarrow> read_blob_fixed env DEFAULT_NAMESPACE WALLET_ERASE_PIN WALLET_ERASE_PIN_RECORD_LEN st;
     case r of
       None \<Rightarrow> Some False
     | Some record \<Rightarrow> do {
         candidate \<leftarrow> wallet_erase_pin_derive pbkdf2 pin (take WALLET_ERASE_PIN_SALT_LEN record);
         Some (case candidate of None \<Rightarrow> False | Some c \<Rightarrow> c = drop WALLET_ERASE_PIN_SALT_LEN record) } }"

definition storage_wallet_erase_pin_exists :: "'m nvs_env \<Rightarrow> 'm nvs_state \<Rightarrow> bool option" where
  "storage_wallet_erase_pin_exists env st = do {
     r \<leftarrow> read_blob_fixed env DEFAULT_NAMESPACE WALLET_ERASE_PIN WALLET_ERASE_PIN_RECORD_LEN st;
     Some (r \<noteq> None) }"

definition storage_erase_wallet_erase_pin :: "'m nvs_env \<Rightarrow> 'm nvs_state \<Rightarrow> bool \<times> 'm nvs_state" where
  "storage_erase_wallet_erase_pin env st = erase_key env DEFAULT_NAMESPACE WALLET_ERASE_PIN st"

section \<open>Registrations\<close>

definition storage_set_multisig_registration ::
  "'m nvs_env \<Rightarrow> bytes \<Rightarrow> bytes \<Rightarrow> 'm nvs_state \<Rightarrow> (bool \<times> 'm nvs_state) option" where
  "storage_set_multisig_registration env name data st = store_blob env MULTISIG_NAMESPACE name data st"

definition storage_get_multisig_registration :: "'m nvs_env \<Rightarrow> bytes \<Rightarrow> nat \<Rightarrow> 'm nvs_state \<Rightarrow> bytes option option" where
  "storage_get_multisig_registration env name len st = read_blob env MULTISIG_NAMESPACE name len st"

definition storage_get_multisig_registration_count :: "bool \<Rightarrow> 'm nvs_state \<Rightarrow> nat" where
  "storage_get_multisig_registration_count malloc_ok st = get_entry_count malloc_ok MULTISIG_NAMESPACE st"

definition storage_multisig_name_exists :: "bool \<Rightarrow> bytes \<Rightarrow> 'm nvs_state \<Rightarrow> bool option" where
  "storage_multisig_name_exists malloc_ok name st = key_name_exists malloc_ok name MULTISIG_NAMESPACE st"

definition storage_get_all_multisig_registration_names ::
  "bool \<Rightarrow> nat \<Rightarrow> 'm nvs_state \<Rightarrow> (bool \<times> bytes list) option" where
  "storage_get_all_multisig_registration_names malloc_ok num_names st = get_all_key_names malloc_ok MULTISIG_NAMESPACE num_names st"

definition storage_erase_multisig_registration :: "'m nvs_env \<Rightarrow> bytes \<Rightarrow> 'm nvs_state \<Rightarrow> bool \<times> 'm nvs_state" where
  "storage_erase_multisig_registration env name st = erase_key env MULTISIG_NAMESPACE name st"

definition storage_set_descriptor_registration ::
  "'m nvs_env \<Rightarrow> bytes \<Rightarrow> bytes \<Rightarrow> 'm nvs_state \<Rightarrow> (bool \<times> 'm nvs_state) option" where
  "storage_set_descriptor_registration env name data st = store_blob env DESCRIPTOR_NAMESPACE name data st"

definition storage_get_descriptor_registration :: "'m nvs_env \<Rightarrow> bytes \<Rightarrow> nat \<Rightarrow> 'm nvs_state \<Rightarrow> bytes option option" where
  "storage_get_descriptor_registration env name len st = read_blob env DESCRIPTOR_NAMESPACE name len st"

definition storage_get_descriptor_registration_count :: "bool \<Rightarrow> 'm nvs_state \<Rightarrow> nat" where
  "storage_get_descriptor_registration_count malloc_ok st = get_entry_count malloc_ok DESCRIPTOR_NAMESPACE st"

definition storage_descriptor_name_exists :: "bool \<Rightarrow> bytes \<Rightarrow> 'm nvs_state \<Rightarrow> bool option" where
  "storage_descriptor_name_exists malloc_ok name st = key_name_exists malloc_ok name DESCRIPTOR_NAMESPACE st"

definition storage_get_all_descriptor_registration_names ::
  "bool \<Rightarrow> nat \<Rightarrow> 'm nvs_state \<Rightarrow> (bool \<times> bytes list) option" where
  "storage_get_all_descriptor_registration_names malloc_ok num_names st = get_all_key_names malloc_ok DESCRIPTOR_NAMESPACE num_names st"

definition storage_erase_descriptor_registration :: "'m nvs_env \<Rightarrow> bytes \<Rightarrow> 'm nvs_state \<Rightarrow> bool \<times> 'm nvs_state" where
  "storage_erase_descriptor_registration env name st = erase_key env DESCRIPTOR_NAMESPACE name st"

definition storage_set_otp_data ::
  "'m nvs_env \<Rightarrow> bytes \<Rightarrow> bytes \<Rightarrow> 'm nvs_state \<Rightarrow> (bool \<times> 'm nvs_state) option" where
  "storage_set_otp_data env name data st = store_blob env OTP_NAMESPACE name data st"

definition storage_get_otp_data :: "'m nvs_env \<Rightarrow> bytes \<Rightarrow> nat \<Rightarrow> 'm nvs_state \<Rightarrow> bytes option option" where
  "storage_get_otp_data env name len st = read_blob env OTP_NAMESPACE name len st"

definition storage_get_otp_count :: "bool \<Rightarrow> 'm nvs_state \<Rightarrow> nat" where
  "storage_get_otp_count malloc_ok st = get_entry_count malloc_ok OTP_NAMESPACE st"

definition storage_otp_exists :: "bool \<Rightarrow> bytes \<Rightarrow> 'm nvs_state \<Rightarrow> bool option" where
  "storage_otp_exists malloc_ok name st = key_name_exists malloc_ok name OTP_NAMESPACE st"

definition storage_get_all_otp_names ::
  "bool \<Rightarrow> nat \<Rightarrow> 'm nvs_state \<Rightarrow> (bool \<times> bytes list) option" where
  "storage_get_all_otp_names malloc_ok num_names st = get_all_key_names malloc_ok OTP_NAMESPACE num_names st"

definition write_le64 :: "u64 \<Rightarrow> bytes" where
  "write_le64 v = write_le32 (ucast v) @ write_le32 (ucast (drop_bit 32 v))"

definition read_le64 :: "bytes \<Rightarrow> u64" where
  "read_le64 p = ucast (read_le32 p) OR push_bit 32 (ucast (read_le32 (drop 4 p)))"

definition storage_set_otp_hotp_counter ::
  "'m nvs_env \<Rightarrow> bytes \<Rightarrow> u64 \<Rightarrow> 'm nvs_state \<Rightarrow> (bool \<times> 'm nvs_state) option" where
  "storage_set_otp_hotp_counter env name counter st = store_blob env HOTP_COUNTERS_NAMESPACE name (write_le64 counter) st"

definition storage_get_otp_hotp_counter :: "'m nvs_env \<Rightarrow> bytes \<Rightarrow> 'm nvs_state \<Rightarrow> u64 option" where
  "storage_get_otp_hotp_counter env name st = do {
     r \<leftarrow> read_blob_fixed env HOTP_COUNTERS_NAMESPACE name 8 st;
     Some (case r of None \<Rightarrow> 0 | Some v \<Rightarrow> read_le64 v) }"

definition storage_erase_otp :: "'m nvs_env \<Rightarrow> bytes \<Rightarrow> 'm nvs_state \<Rightarrow> bool \<times> 'm nvs_state" where
  "storage_erase_otp env name st =
     (let (_, st) = erase_key env HOTP_COUNTERS_NAMESPACE name st in erase_key env OTP_NAMESPACE name st)"

section \<open>Effects on the store\<close>

definition lookup :: "'m nvs_state \<Rightarrow> nat \<Rightarrow> bytes \<Rightarrow> bytes option" where
  "lookup st h k = map_of (nv_maps st ! h) k"

definition nvs_ok :: "'m nvs_env \<Rightarrow> 'm nvs_state \<Rightarrow> bool" where
  "nvs_ok env st \<longleftrightarrow> wally_laws (ne_wally env) \<and> length (nv_maps st) = 5"

text \<open>Only the field \<open>(h, name)\<close> may differ.\<close>

definition same_but :: "nat \<Rightarrow> bytes \<Rightarrow> 'm nvs_state \<Rightarrow> 'm nvs_state \<Rightarrow> bool" where
  "same_but h name st st' \<longleftrightarrow> length (nv_maps st') = length (nv_maps st) \<and>
     (\<forall>h' k. (h', k) \<noteq> (h, name) \<longrightarrow> lookup st' h' k = lookup st h' k)"

lemma same_but_other: "same_but h name st st' \<Longrightarrow> k \<noteq> name \<or> h' \<noteq> h \<Longrightarrow> lookup st' h' k = lookup st h' k"
  by (auto simp: same_but_def)

lemma same_but_ok: "nvs_ok env st \<Longrightarrow> same_but h name st st' \<Longrightarrow> nvs_ok env st'"
  by (simp add: same_but_def nvs_ok_def)

lemma nvs_open_names [simp]:
  "nvs_open DEFAULT_NAMESPACE = Inr 0" "nvs_open MULTISIG_NAMESPACE = Inr 1" "nvs_open DESCRIPTOR_NAMESPACE = Inr 2"
  "nvs_open OTP_NAMESPACE = Inr 3" "nvs_open HOTP_COUNTERS_NAMESPACE = Inr 4"
  by code_simp+

lemma wm_get_lookup: "nvs_ok env st \<Longrightarrow> wm_get (ne_wally env) (nv_maps st ! h) k = lookup st h k"
  by (simp add: nvs_ok_def wally_laws_def lookup_def)

lemma commit_lookup:
  "storage_commit env h st = (r, st') \<Longrightarrow> lookup st' = lookup st \<and> length (nv_maps st') = length (nv_maps st)"
  by (auto simp: storage_commit_def nvs_commit_def lookup_def Let_def fun_eq_iff split: prod.splits if_splits)

lemma same_but_commit:
  assumes "same_but h name st st1" and "storage_commit env h' st1 = (r, st2)"
  shows "same_but h name st st2" and "lookup st2 = lookup st1"
  using commit_lookup [OF assms(2)] assms(1) by (simp_all add: same_but_def)

lemma set_blob_effect:
  assumes "nvs_ok env st" and "h < 5" and "nvs_set_blob env h name data st = (e, st')"
  shows "same_but h name st st'" and "if e = ESP_OK then lookup st' h name = Some data else st' = st"
  using assms
  by (auto simp: nvs_set_blob_def nvs_ok_def wally_laws_def same_but_def lookup_def nth_list_update split: option.splits)

lemma store_blob_effect:
  assumes ok: "nvs_ok env st" and ns: "nvs_open ns = Inr h" "h < 5" and "data \<noteq> []"
  obtains r st' where "store_blob env ns name data st = Some (r, st')" "same_but h name st st'"
    "lookup st' h name = Some data \<or> \<not> r \<and> lookup st' h name = lookup st h name"
proof -
  obtain e st1 where s: "nvs_set_blob env h name data st = (e, st1)" by (metis prod.exhaust)
  obtain r st2 where c: "storage_commit env h st1 = (r, st2)" by (metis prod.exhaust)
  note eff = set_blob_effect [OF ok ns(2) s]
  show thesis
  proof (cases "e = ESP_OK")
    case True
    then have "store_blob env ns name data st = Some (r, st2)" using s c ns(1) assms(4) by (simp add: store_blob_def)
    then show thesis by (rule that) (use True eff same_but_commit [OF eff(1) c] in auto)
  next
    case False
    then have "store_blob env ns name data st = Some (False, st1)" using s ns(1) assms(4) by (simp add: store_blob_def)
    then show thesis by (rule that) (use False eff in auto)
  qed
qed

lemma store_string_effect:
  assumes "nvs_ok env st" and "nvs_open ns = Inr h" "h < 5"
  obtains r st' where "store_string env ns name s st = Some (r, st')" "same_but h name st st'"
    "lookup st' h name = Some (s @ [0]) \<or> \<not> r \<and> lookup st' h name = lookup st h name"
proof -
  have "store_string env ns name s st = store_blob env ns name (s @ [0]) st"
    by (simp add: store_string_def store_blob_def nvs_set_str_def split: sum.split)
  then show thesis using that store_blob_effect [OF assms, of "s @ [0]" name] by auto
qed

lemma read_blob_lookup:
  assumes "nvs_ok env st" and "nvs_open ns = Inr h" and "0 < len"
  shows "read_blob env ns name len st = Some (case lookup st h name of None \<Rightarrow> None
     | Some v \<Rightarrow> if length v \<le> len then Some v else None)"
  using assms wm_get_lookup [OF assms(1)] by (auto simp: read_blob_def nvs_get_blob_def split: option.split)

lemma read_blob_fixed_lookup:
  assumes "nvs_ok env st" and "nvs_open ns = Inr h" and "0 < len"
  shows "read_blob_fixed env ns name len st = Some (case lookup st h name of None \<Rightarrow> None
     | Some v \<Rightarrow> if length v = len then Some v else None)"
  by (auto simp: read_blob_fixed_def read_blob_lookup [OF assms] split: option.split)

lemma erase_field_effect:
  assumes "nvs_ok env st" and "h < 5" and "storage_erase_field env h name st = (r, st')"
  shows "r" and "same_but h name st st'" and "lookup st' h name = None"
  using assms
  by (auto simp: storage_erase_field_def nvs_erase_key_def nvs_ok_def wally_laws_def same_but_def lookup_def nth_list_update
      split: option.splits)

lemma erase_key_effect:
  assumes ok: "nvs_ok env st" and ns: "nvs_open ns = Inr h" "h < 5" and "erase_key env ns name st = (r, st')"
  shows "same_but h name st st'" and "lookup st' h name = None"
proof -
  obtain e st1 where s: "storage_erase_field env h name st = (e, st1)" by (metis prod.exhaust)
  note eff = erase_field_effect [OF ok ns(2) s]
  then have "storage_commit env h st1 = (r, st')" using assms(4) ns(1) s by (simp add: erase_key_def)
  from same_but_commit [OF eff(2) this] show "same_but h name st st'" and "lookup st' h name = None"
    using eff(3) by simp_all
qed

section \<open>The pin counter\<close>

definition pin_counter :: "'m nvs_state \<Rightarrow> byte" where
  "pin_counter st = (case lookup st 0 PIN_COUNTER_FIELD of None \<Rightarrow> 0 | Some v \<Rightarrow> if length v = 1 then v ! 0 else 0)"

definition blob_held :: "'m nvs_state \<Rightarrow> bool" where
  "blob_held st \<longleftrightarrow> lookup st 0 BLOB_FIELD \<noteq> None"

lemma pin_fields_differ: "BLOB_FIELD \<noteq> PIN_COUNTER_FIELD" "PIN_COUNTER_FIELD \<noteq> BLOB_FIELD"
  by (simp_all add: field_defs)

lemma storage_get_counter_eq: "nvs_ok env st \<Longrightarrow> storage_get_counter env st = Some (pin_counter st)"
  by (auto simp: storage_get_counter_def read_blob_fixed_lookup pin_counter_def split: option.split)

lemma erase_encrypted_blob_effect:
  assumes ok: "nvs_ok env st"
  obtains r st' where "storage_erase_encrypted_blob env st = Some (r, st')" "nvs_ok env st'" "\<not> blob_held st'"
    "pin_counter st' = 0 \<or> pin_counter st' = 4 \<or> pin_counter st' = pin_counter st"
proof -
  obtain b st1 where e: "erase_key env DEFAULT_NAMESPACE BLOB_FIELD st = (b, st1)" by (metis prod.exhaust)
  note eff = erase_key_effect [OF ok nvs_open_names(1) _ e, simplified]
  have ok1: "nvs_ok env st1" by (rule same_but_ok [OF ok eff(1)])
  have c1: "lookup st1 0 PIN_COUNTER_FIELD = lookup st 0 PIN_COUNTER_FIELD"
    by (rule same_but_other [OF eff(1)]) (simp add: pin_fields_differ)
  show thesis
  proof (cases b)
    case True
    obtain b2 st2 where e2: "erase_key env DEFAULT_NAMESPACE PIN_COUNTER_FIELD st1 = (b2, st2)" by (metis prod.exhaust)
    note eff2 = erase_key_effect [OF ok1 nvs_open_names(1) _ e2, simplified]
    have "lookup st2 0 BLOB_FIELD = None" using same_but_other [OF eff2(1)] eff(2) pin_fields_differ by simp
    then show thesis
      using that [of True st2] True e e2 same_but_ok [OF ok1 eff2(1)] eff2(2)
      by (simp add: storage_erase_encrypted_blob_def blob_held_def pin_counter_def)
  next
    case False
    obtain r st2 where s: "store_blob env DEFAULT_NAMESPACE PIN_COUNTER_FIELD [4] st1 = Some (r, st2)" "same_but 0 PIN_COUNTER_FIELD st1 st2"
      "lookup st2 0 PIN_COUNTER_FIELD = Some [4] \<or> \<not> r \<and> lookup st2 0 PIN_COUNTER_FIELD = lookup st1 0 PIN_COUNTER_FIELD"
      using store_blob_effect [OF ok1 nvs_open_names(1), of "[4]" PIN_COUNTER_FIELD] by auto
    have "lookup st2 0 BLOB_FIELD = None" using same_but_other [OF s(2)] eff(2) pin_fields_differ by simp
    then show thesis
      using that [of False st2] False e s(1,3) same_but_ok [OF ok1 s(2)] c1
      by (auto simp: storage_erase_encrypted_blob_def blob_held_def pin_counter_def)
  qed
qed

text \<open>Attempts left.\<close>

definition attempts_left :: "'m nvs_state \<Rightarrow> nat" where
  "attempts_left st = (if pin_counter st \<le> 3 then unat (pin_counter st) else 0)"

lemma decrement_effect:
  assumes ok: "nvs_ok env st"
  obtains r st' where "storage_decrement_counter env st = Some (r, st')" "nvs_ok env st'"
    "r \<Longrightarrow> attempts_left st' + 1 = attempts_left st" "r \<Longrightarrow> blob_held st' = blob_held st"
    "\<not> r \<Longrightarrow> attempts_left st' \<le> attempts_left st" "\<not> r \<Longrightarrow> \<not> blob_held st'"
proof (cases "pin_counter st = 0 \<or> pin_counter st > 3")
  case True
  obtain r st' where e: "storage_erase_encrypted_blob env st = Some (r, st')" "nvs_ok env st'" "\<not> blob_held st'"
    "pin_counter st' = 0 \<or> pin_counter st' = 4 \<or> pin_counter st' = pin_counter st"
    by (rule erase_encrypted_blob_effect [OF ok])
  have "attempts_left st' \<le> attempts_left st" using e(4) True by (auto simp: attempts_left_def)
  then show thesis
    using that [of False st'] e True storage_get_counter_eq [OF ok] by (simp add: storage_decrement_counter_def)
next
  case False
  let ?c = "pin_counter st"
  have c: "?c \<noteq> 0" "?c \<le> 3" using False by auto
  obtain r st1 where s: "store_blob env DEFAULT_NAMESPACE PIN_COUNTER_FIELD [?c - 1] st = Some (r, st1)" "same_but 0 PIN_COUNTER_FIELD st st1"
    "lookup st1 0 PIN_COUNTER_FIELD = Some [?c - 1] \<or> \<not> r \<and> lookup st1 0 PIN_COUNTER_FIELD = lookup st 0 PIN_COUNTER_FIELD"
    using store_blob_effect [OF ok nvs_open_names(1), of "[?c - 1]" PIN_COUNTER_FIELD] by auto
  have ok1: "nvs_ok env st1" by (rule same_but_ok [OF ok s(2)])
  have b1: "blob_held st1 = blob_held st" using same_but_other [OF s(2)] pin_fields_differ by (simp add: blob_held_def)
  have down: "unat (?c - 1) + 1 = unat ?c" and small: "?c - 1 \<le> 3"
  proof -
    have "1 \<le> ?c" using c(1) by (simp add: word_le_nat_alt unat_gt_0 Suc_le_eq)
    then show "unat (?c - 1) + 1 = unat ?c" using c(1) by (simp add: unat_sub unat_gt_0 word_le_nat_alt)
    then show "?c - 1 \<le> 3" using c(2) by (simp add: word_le_nat_alt)
  qed
  show thesis
  proof (cases r)
    case True
    then have "pin_counter st1 = ?c - 1" using s(3) by (auto simp: pin_counter_def)
    then have "attempts_left st1 + 1 = attempts_left st" using c small down by (simp add: attempts_left_def)
    then show thesis
      using that [of True st1] True s(1) ok1 b1 False storage_get_counter_eq [OF ok] by (simp add: storage_decrement_counter_def)
  next
    case bad: False
    obtain r2 st2 where e: "storage_erase_encrypted_blob env st1 = Some (r2, st2)" "nvs_ok env st2" "\<not> blob_held st2"
      "pin_counter st2 = 0 \<or> pin_counter st2 = 4 \<or> pin_counter st2 = pin_counter st1"
      by (rule erase_encrypted_blob_effect [OF ok1])
    have "pin_counter st1 = ?c - 1 \<or> pin_counter st1 = ?c" using s(3) by (auto simp: pin_counter_def)
    then have "attempts_left st2 \<le> attempts_left st" using e(4) c small down by (auto simp: attempts_left_def)
    then show thesis
      using that [of False st2] bad e s(1) False storage_get_counter_eq [OF ok] by (simp add: storage_decrement_counter_def)
  qed
qed

text \<open>A series of pin attempts: the results, in order.\<close>

fun pin_attempts :: "'m nvs_env \<Rightarrow> nat \<Rightarrow> 'm nvs_state \<Rightarrow> (bool list \<times> 'm nvs_state) option" where
  "pin_attempts env 0 st = Some ([], st)"
| "pin_attempts env (Suc n) st = do {
     (r, st) \<leftarrow> storage_decrement_counter env st;
     (rs, st) \<leftarrow> pin_attempts env n st;
     Some (r # rs, st) }"

lemma pin_attempts_effect:
  "nvs_ok env st \<Longrightarrow> \<exists>rs st'. pin_attempts env n st = Some (rs, st') \<and> nvs_ok env st' \<and> length rs = n \<and>
     count_list rs True + attempts_left st' \<le> attempts_left st \<and> (False \<in> set rs \<or> \<not> blob_held st \<longrightarrow> \<not> blob_held st')"
proof (induction n arbitrary: st)
  case (Suc n)
  obtain r st1 where d: "storage_decrement_counter env st = Some (r, st1)" "nvs_ok env st1"
    "r \<Longrightarrow> attempts_left st1 + 1 = attempts_left st" "r \<Longrightarrow> blob_held st1 = blob_held st"
    "\<not> r \<Longrightarrow> attempts_left st1 \<le> attempts_left st" "\<not> r \<Longrightarrow> \<not> blob_held st1"
    using decrement_effect [OF Suc.prems] by blast
  obtain rs st' where "pin_attempts env n st1 = Some (rs, st')" "nvs_ok env st'" "length rs = n"
    "count_list rs True + attempts_left st' \<le> attempts_left st1" "False \<in> set rs \<or> \<not> blob_held st1 \<longrightarrow> \<not> blob_held st'"
    using Suc.IH [OF d(2)] by blast
  then show ?case using d by (cases r) auto
qed simp

lemma all_true: "False \<notin> set rs \<Longrightarrow> count_list rs True = length rs"
  by (induction rs) auto

lemma attempts_left_le: "attempts_left st \<le> 3"
proof -
  have "unat (pin_counter st) \<le> 3" if "pin_counter st \<le> 3" using that by (simp add: word_le_nat_alt)
  then show ?thesis by (simp add: attempts_left_def)
qed

section \<open>The replay counter\<close>

definition replay_value :: "'m nvs_state \<Rightarrow> u32" where
  "replay_value st = (case lookup st 0 REPLAY_COUNTER_FIELD of None \<Rightarrow> 0 | Some v \<Rightarrow> read_le32 v)"

definition replay_ok :: "'m nvs_state \<Rightarrow> bool" where
  "replay_ok st \<longleftrightarrow> (case lookup st 0 REPLAY_COUNTER_FIELD of None \<Rightarrow> True | Some v \<Rightarrow> length v = 4)"

lemma read_le32_append: "4 \<le> length p \<Longrightarrow> read_le32 (p @ q) = read_le32 p"
  proof -
  assume "4 \<le> length p"
  then have "i < 4 \<Longrightarrow> (p @ q) ! i = p ! i" for i by (simp add: nth_append)
  then show ?thesis by (simp only: read_le32_def)
qed

lemma replay_counter_effect:
  assumes ok: "nvs_ok env st" and w: "replay_ok st"
  shows "storage_get_replay_counter env junk st = None \<longleftrightarrow> replay_value st = - 1"
    and "storage_get_replay_counter env junk st = Some (r, st') \<Longrightarrow> nvs_ok env st' \<and> replay_ok st' \<and> replay_value st \<noteq> - 1 \<and>
      (replay_value st' = replay_value st + 1 \<or> r = None \<and> replay_value st' = replay_value st) \<and>
      (\<forall>j. r = Some j \<longrightarrow> j = replay_value st)"
proof -
  let ?j = "replay_value st"
  have step: "storage_get_replay_counter env junk st = replay_bump env 0 ?j st"
    using w wm_get_lookup [OF ok, of 0 REPLAY_COUNTER_FIELD]
    by (auto simp: storage_get_replay_counter_def nvs_get_u32_def nvs_get_blob_def replay_value_def replay_ok_def read_le32_append split: option.splits)
  have top: "?j < - 1 \<longleftrightarrow> ?j \<noteq> - 1" by (metis word_not_simps(3) order_less_le word_order.extremum)
  obtain e st1 where s: "nvs_set_u32 env 0 REPLAY_COUNTER_FIELD (?j + 1) st = (e, st1)" by (metis prod.exhaust)
  obtain b st2 where c: "storage_commit env 0 st1 = (b, st2)" by (metis prod.exhaust)
  have eff: "same_but 0 REPLAY_COUNTER_FIELD st st1"
    "if e = ESP_OK then lookup st1 0 REPLAY_COUNTER_FIELD = Some (write_le32 (?j + 1)) else st1 = st"
    using set_blob_effect [OF ok _ s [unfolded nvs_set_u32_def]] by auto
  note com = same_but_commit [OF eff(1) c]
  show "storage_get_replay_counter env junk st = None \<longleftrightarrow> ?j = - 1"
    using top s c by (auto simp: step replay_bump_def jade_assert_def)
  show "nvs_ok env st' \<and> replay_ok st' \<and> replay_value st \<noteq> - 1 \<and>
      (replay_value st' = replay_value st + 1 \<or> r = None \<and> replay_value st' = replay_value st) \<and>
      (\<forall>j. r = Some j \<longrightarrow> j = replay_value st)"
    if r: "storage_get_replay_counter env junk st = Some (r, st')"
  proof (cases "e = ESP_OK")
    case True
    then have l2: "lookup st2 0 REPLAY_COUNTER_FIELD = Some (write_le32 (?j + 1))" using eff(2) com(2) by simp
    have "st' = st2" "r = Some ?j \<or> r = None" "?j \<noteq> - 1"
      using r True s c top by (auto simp: step replay_bump_def jade_assert_def split: if_splits)
    then show ?thesis using l2 same_but_ok [OF ok com(1)] by (auto simp: replay_ok_def replay_value_def)
  next
    case False
    then have "st' = st" "r = None" "?j \<noteq> - 1"
      using r s eff(2) top by (auto simp: step replay_bump_def jade_assert_def split: if_splits)
    then show ?thesis using ok w by simp
  qed
qed

text \<open>A series of requests; the values handed out, in order.\<close>

fun replay_calls :: "'m nvs_env \<Rightarrow> bytes list \<Rightarrow> 'm nvs_state \<Rightarrow> (u32 list \<times> 'm nvs_state) option" where
  "replay_calls env [] st = Some ([], st)"
| "replay_calls env (junk # junks) st = do {
     (r, st) \<leftarrow> storage_get_replay_counter env junk st;
     (js, st) \<leftarrow> replay_calls env junks st;
     Some ((case r of None \<Rightarrow> js | Some j \<Rightarrow> j # js), st) }"

lemma u32_lt_Suc: "(q :: u32) \<noteq> - 1 \<Longrightarrow> q < q + 1"
proof -
  assume q: "q \<noteq> - 1"
  have "1 + q \<noteq> 0" using q by (metis add_eq_0_iff add.commute)
  then have "unat (1 + q) = Suc (unat q)" by (rule unatSuc)
  then show ?thesis by (simp add: word_less_nat_alt add.commute)
qed

lemma replay_calls_increase:
  "nvs_ok env st \<Longrightarrow> replay_ok st \<Longrightarrow> replay_calls env junks st = Some (js, st') \<Longrightarrow>
     sorted_wrt (<) js \<and> (\<forall>j\<in>set js. replay_value st \<le> j)"
proof (induction junks arbitrary: st js)
  case (Cons junk junks)
  obtain r st1 js1 where c: "storage_get_replay_counter env junk st = Some (r, st1)" "replay_calls env junks st1 = Some (js1, st')"
    "js = (case r of None \<Rightarrow> js1 | Some j \<Rightarrow> j # js1)"
    using Cons.prems(3) by (auto split: Option.bind_splits)
  note eff = replay_counter_effect(2) [OF Cons.prems(1,2) c(1)]
  have ih: "sorted_wrt (<) js1" "\<forall>j\<in>set js1. replay_value st1 \<le> j" using Cons.IH [OF _ _ c(2)] eff by auto
  have "replay_value st < replay_value st + 1" by (rule u32_lt_Suc) (use eff in blast)
  then show ?case using ih c(3) eff by (auto split: option.splits)
qed simp

section \<open>Names\<close>

lemma key_name_valid_loop_iff: "key_name_valid_loop i name \<longleftrightarrow> i + length name > 0 \<and> (name = [] \<or> i + length name \<le> 16) \<and> list_all isgraph name"
  by (induction i name rule: key_name_valid_loop.induct) (auto simp: NVS_KEY_NAME_MAX_SIZE_def)

lemma key_name_fix_loop_eq:
  "key_name_fix_loop i name = (if i = 0 \<and> name = [] then None else Some (map (\<lambda>c. if isgraph c then c else chr CHR ''_'') (take (16 - i) name)))"
  by (induction i name rule: key_name_fix_loop.induct)
    (auto simp: NVS_KEY_NAME_MAX_SIZE_def jade_assert_def take_Cons' Suc_diff_le not_le)

section \<open>Listing\<close>

lemma count_entries_eq: "idx < length (nv_maps st ! m) \<Longrightarrow> count_entries (m, idx) st = length (nv_maps st ! m) - idx"
proof (induction "length (nv_maps st ! m) - idx" arbitrary: idx)
  case (Suc n)
  show ?case
  proof (cases "idx + 1 < length (nv_maps st ! m)")
    case True
    then show ?thesis using Suc by (subst count_entries.simps) (simp add: nvs_entry_next_def)
  qed (use Suc.prems in \<open>subst count_entries.simps, simp add: nvs_entry_next_def\<close>)
qed simp

lemma find_key_name_eq:
  assumes "list_all (\<lambda>(k, v). length k < 16) (nv_maps st ! m)"
  shows "idx < length (nv_maps st ! m) \<Longrightarrow> find_key_name name (m, idx) st = Some (name \<in> fst ` set (drop idx (nv_maps st ! m)))"
proof (induction "length (nv_maps st ! m) - idx" arbitrary: idx)
  case (Suc n)
  let ?items = "nv_maps st ! m"
  have k: "length (fst (?items ! idx)) < 16" using assms Suc.prems by (auto simp: list_all_length split_beta)
  have d: "drop idx ?items = ?items ! idx # drop (Suc idx) ?items" using Suc.prems by (simp add: Cons_nth_drop_Suc)
  have info: "nvs_entry_info (Some (m, idx)) st = Some (Inr (fst (?items ! idx)))"
    using Suc.prems k by (simp add: nvs_entry_info_def NVS_KEY_NAME_MAX_SIZE_def jade_assert_def)
  show ?case
  proof (cases "idx + 1 < length ?items")
    case True
    then show ?thesis
      using Suc.hyps(1) [of "Suc idx"] Suc.hyps(2) info unfolding d
      by (subst find_key_name.simps) (auto simp: nvs_entry_next_def)
  next
    case False
    then show ?thesis using info unfolding d by (subst find_key_name.simps) (auto simp: nvs_entry_next_def)
  qed
qed simp

lemma read_write_le64: "read_le64 (write_le64 c) = c"
proof (rule bit_word_eqI)
  fix i assume "i < LENGTH(64)"
  then show "bit (read_le64 (write_le64 c)) i = bit c i"
    by (auto simp: read_le64_def write_le64_def bit_or_iff bit_push_bit_iff bit_ucast_iff bit_drop_bit_eq)
qed

section \<open>Properties\<close>

text \<open>A store in memory whose commits succeed, for concrete runs.\<close>

definition demo_env :: "unit nvs_env" where
  "demo_env = \<lparr> ne_wally = wally_alist, ne_persist = (\<lambda>_ m. (True, m)), ne_forget = (\<lambda>m. (True, m)) \<rparr>"

definition demo_nvs :: "unit nvs_state" where
  "demo_nvs = \<lparr> nv_maps = [[(str ''counter'', [3]), (str ''blob'', [1, 2])], [(str ''w1'', [9])], [], [], []], nv_media = () \<rparr>"

lemma demo_nvs_ok: "nvs_ok demo_env demo_nvs"
  using wally_alist_laws by (simp add: nvs_ok_def demo_env_def demo_nvs_def)

text \<open>The store in memory alone: in any series of pin attempts, whatever the commits to the medium
  return, at most three are let through before the counter is restored, and once one has been
  refused the map no longer holds the encrypted seed. What the card holds then, and what a restart
  brings back, is the subject of the theory \<open>Pin_Guard\<close>.\<close>

lemma pin_attempts_in_memory:
  assumes "nvs_ok env st"
  shows "\<exists>rs st'. pin_attempts env n st = Some (rs, st') \<and> length rs = n \<and> count_list rs True \<le> 3 \<and>
     (False \<in> set rs \<longrightarrow> lookup st' 0 BLOB_FIELD = None) \<and> (n > 3 \<longrightarrow> lookup st' 0 BLOB_FIELD = None)"
proof -
  obtain rs st' where a: "pin_attempts env n st = Some (rs, st')" "length rs = n"
    "count_list rs True + attempts_left st' \<le> attempts_left st" "False \<in> set rs \<or> \<not> blob_held st \<longrightarrow> \<not> blob_held st'"
    using pin_attempts_effect [OF assms, of n] by blast
  have few: "count_list rs True \<le> 3" using a(3) attempts_left_le [of st] by simp
  have "False \<in> set rs" if "n > 3" using all_true [of rs] few a(2) that by auto
  then show ?thesis using a few by (auto simp: blob_held_def)
qed

text \<open>The replay counter never repeats: the values handed out by any series of requests are
  strictly increasing, also when a commit fails in between, and the one value that could wrap
  round is refused by an assertion rather than used.\<close>

lemma replay_counter_increases:
  assumes "nvs_ok env st" and "replay_ok st"
  shows "(replay_calls env junks st = Some (js, st') \<longrightarrow> sorted_wrt (<) js \<and> (\<forall>j\<in>set js. replay_value st \<le> j)) \<and>
     (storage_get_replay_counter env junk st = None \<longleftrightarrow> replay_value st = - 1)"
  using replay_calls_increase [OF assms, of junks js st'] replay_counter_effect(1) [OF assms, of junk] by blast

text \<open>Every typed preference reads back as it was set, through the width in which it is stored.\<close>

lemma storage_fields_roundtrip:
  assumes ok: "nvs_ok env st"
  shows "(storage_set_idle_timeout env t st = Some (True, st') \<longrightarrow> storage_get_idle_timeout env st' = Some t) \<and>
    (storage_set_screen_timeout env t st = Some (True, st') \<longrightarrow> storage_get_screen_timeout env st' = Some t) \<and>
    (storage_set_brightness env b st = Some (True, st') \<longrightarrow> storage_get_brightness env st' = Some b) \<and>
    (storage_set_gui_flags env b st = Some (True, st') \<longrightarrow> storage_get_gui_flags env st' = Some b) \<and>
    (storage_set_feature_flags env b st = Some (True, st') \<longrightarrow> storage_get_feature_flags env st' = Some b) \<and>
    (storage_set_ble_flags env b st = Some (True, st') \<longrightarrow> storage_get_ble_flags env st' = Some b) \<and>
    (storage_set_key_flags env b st = Some (True, st') \<longrightarrow> storage_get_key_flags env st' = Some b) \<and>
    (storage_set_qr_flags env q st = Some (True, st') \<longrightarrow> storage_get_qr_flags env st' = Some q) \<and>
    (storage_set_network_type_restriction env q st = Some (True, st') \<longrightarrow> storage_get_network_type_restriction env st' = Some q) \<and>
    (storage_set_otp_hotp_counter env name c st = Some (True, st') \<longrightarrow> storage_get_otp_hotp_counter env name st' = Some c)"
proof -
  have stored: "nvs_ok env st' \<and> lookup st' h f = Some data"
    if "store_blob env ns f data st = Some (True, st')" "nvs_open ns = Inr h" "h < 5" "data \<noteq> []" for ns h f data
    using store_blob_effect [OF ok that(2,3,4), of f] that(1) same_but_ok [OF ok] by (metis option.inject prod.inject)
  have get: "read_blob_fixed env ns f (length data) st' = Some (Some data)"
    if "store_blob env ns f data st = Some (True, st')" "nvs_open ns = Inr h" "h < 5" "data \<noteq> []" for ns h f data
    using stored [OF that] that read_blob_fixed_lookup [of env st' ns h "length data" f] by simp
  have dget: "read_blob_fixed env DEFAULT_NAMESPACE f n st' = Some (Some data)"
    if "store_blob env DEFAULT_NAMESPACE f data st = Some (True, st')" "length data = n" "data \<noteq> []" for f n data
    using get [OF that(1) nvs_open_names(1) _ that(3)] that(2) by simp
  have u16: "of_nat (read_le16 (write_le16 (unat t))) = t"
  proof -
    have "unat t < 2 ^ LENGTH(16)" by (rule unsigned_less)
    then have "unat t < 65536" by simp
    then show ?thesis using read_write_le16 [of "unat t" "[]"] by simp
  qed
  have ne: "write_le16 n \<noteq> []" "write_le32 v \<noteq> []" "write_le64 c \<noteq> []" for n v c
    by (simp_all add: write_le16_def write_le32_def write_le64_def)
  have c64: "length (write_le64 c) = 8" "read_le64 (write_le64 c) = c" by (simp add: write_le64_def, rule read_write_le64)
  note sets = storage_set_idle_timeout_def storage_set_screen_timeout_def storage_set_brightness_def storage_set_gui_flags_def
    storage_set_feature_flags_def storage_set_ble_flags_def storage_set_key_flags_def storage_set_qr_flags_def
    storage_set_network_type_restriction_def storage_set_otp_hotp_counter_def
  note gets = storage_get_idle_timeout_def storage_get_screen_timeout_def storage_get_brightness_def storage_get_gui_flags_def
    storage_get_feature_flags_def storage_get_ble_flags_def storage_get_key_flags_def storage_get_qr_flags_def
    storage_get_network_type_restriction_def storage_get_otp_hotp_counter_def
  show ?thesis
    unfolding sets gets
    using dget [where n = 2] dget [where n = 1] dget [where n = 4] get [of HOTP_COUNTERS_NAMESPACE name "write_le64 c" 4] u16 ne c64
    by auto
qed

text \<open>The duress pin is checked, never revealed: after it was set, the stored record is a salt and
  the PBKDF2 output only, a pin is accepted exactly when it derives the same output, and nothing is
  accepted once the record has been erased.\<close>

lemma wallet_erase_pin_correct:
  assumes ok: "nvs_ok env st" and "length random = 16" and out: "\<And>p s v. pbkdf2 p s 2048 32 = Some v \<Longrightarrow> length v = 32"
    and set: "storage_set_wallet_erase_pin pbkdf2 random env pin st = Some (True, st')" and "guess \<noteq> []"
  shows "\<exists>v. pbkdf2 pin random 2048 32 = Some v \<and> lookup st' 0 WALLET_ERASE_PIN = Some (random @ v) \<and>
     storage_verify_wallet_erase_pin pbkdf2 env guess st' = Some (pbkdf2 guess random 2048 32 = Some v) \<and>
     storage_wallet_erase_pin_exists env st' = Some True \<and>
     storage_verify_wallet_erase_pin pbkdf2 env guess (snd (storage_erase_wallet_erase_pin env st')) = Some False"
proof -
  note cost = WALLET_ERASE_PIN_PBKDF2_COST_def erase_pin_consts
  obtain v where v: "pbkdf2 pin random 2048 32 = Some v" "store_blob env DEFAULT_NAMESPACE WALLET_ERASE_PIN (random @ v) st = Some (True, st')"
    using set by (auto simp: storage_set_wallet_erase_pin_def wallet_erase_pin_derive_def cost jade_assert_def split: if_splits option.splits)
  have ne: "random @ v \<noteq> []" using assms(2) by auto
  have st': "nvs_ok env st'" "lookup st' 0 WALLET_ERASE_PIN = Some (random @ v)"
    using store_blob_effect [OF ok nvs_open_names(1) _ ne, of WALLET_ERASE_PIN] v(2) same_but_ok [OF ok] by auto
  obtain r st2 where e: "storage_erase_wallet_erase_pin env st' = (r, st2)" by (metis prod.exhaust)
  note eff = erase_key_effect [OF st'(1) nvs_open_names(1) _ e [unfolded storage_erase_wallet_erase_pin_def], simplified]
  have "read_blob_fixed env DEFAULT_NAMESPACE WALLET_ERASE_PIN 48 st' = Some (Some (random @ v))"
    using read_blob_fixed_lookup [OF st'(1) nvs_open_names(1), of 48] st'(2) out [OF v(1)] assms(2) by simp
  moreover have "read_blob_fixed env DEFAULT_NAMESPACE WALLET_ERASE_PIN 48 st2 = Some None"
    using read_blob_fixed_lookup [OF same_but_ok [OF st'(1) eff(1)] nvs_open_names(1), of 48] eff(2) by simp
  ultimately show ?thesis
    using v(1) st'(2) assms(2,5) e
    by (auto simp: storage_verify_wallet_erase_pin_def storage_wallet_erase_pin_exists_def wallet_erase_pin_derive_def cost
        jade_assert_def split: option.split)
qed

text \<open>Names of records: \<open>storage_key_name_valid\<close> accepts exactly the strings of one to sixteen
  printable characters, \<open>storage_key_name_make_valid\<close> turns every non-empty string into one of
  them, and the names the settings file accepts are those of at most fifteen: a name of sixteen
  characters passes the check but cannot be persisted.\<close>

lemma storage_key_name_exact:
  "(storage_key_name_valid name \<longleftrightarrow> name \<noteq> [] \<and> length name \<le> 16 \<and> list_all (\<lambda>c. 33 \<le> c \<and> c \<le> 126) name) \<and>
   (storage_key_name_make_valid name = None \<longleftrightarrow> name = []) \<and>
   (storage_key_name_make_valid name = Some fixed \<longrightarrow> storage_key_name_valid fixed) \<and>
   (user_entry_valid ns name value_len \<longrightarrow> storage_key_name_valid name \<and> length name < 16)"
proof -
  have "chr CHR ''_'' = 95" by (simp add: chr_def)
  then have u: "isgraph (chr CHR ''_'')" by (simp add: isgraph_def)
  have "list_all isgraph (map (\<lambda>c. if isgraph c then c else chr CHR ''_'') xs)" for xs using u by (induction xs) auto
  then show ?thesis
    unfolding storage_key_name_valid_def storage_key_name_make_valid_def key_name_valid_loop_iff key_name_fix_loop_eq
    by (auto simp: user_entry_valid_def NVS_KEY_NAME_MAX_SIZE_def isgraph_def [abs_def] split: if_splits)
qed

text \<open>Listing the multisig records agrees with the store: the count is the number of items, and a
  name is reported as taken exactly when a record has it.\<close>

lemma storage_listing_correct:
  assumes "list_all (\<lambda>(k, v). length k < 16) (nv_maps st ! 1)"
  shows "storage_get_multisig_registration_count True st = length (nv_maps st ! 1) \<and>
     storage_multisig_name_exists True name st = Some (lookup st 1 name \<noteq> None)"
proof -
  have ns: "get_nvs_ns MULTISIG_NAMESPACE = Some 1" by code_simp
  have "lookup st 1 name \<noteq> None \<longleftrightarrow> name \<in> fst ` set (nv_maps st ! 1)"
    by (simp add: lookup_def map_of_eq_None_iff)
  then show ?thesis
    using find_key_name_eq [OF assms, of 0 name] count_entries_eq [of 0 st 1]
    by (auto simp: storage_get_multisig_registration_count_def storage_multisig_name_exists_def get_entry_count_def
        key_name_exists_def nvs_entry_find_def ns)
qed

end
