(* ===== verification/Persistence.thy ===== *)
theory Persistence
  imports Settings_Store Storage
begin

text \<open>
  The path of a setting from the store in memory to the card and back: \<open>nvs_commit\<close> calls
  \<open>libjade_settings_changed\<close> (\<open>libjade/libjade.c\<close>), which serialises the store and calls the host's
  handler \<open>on_settings_changed\<close> (\<open>pijade/host/pijade_host.c\<close>), which writes a slot; after a restart
  \<open>load_settings\<close> reads the newest slot and applies it. Here the parameters \<open>persist\<close> and \<open>forget\<close>
  of the theory \<open>Nvs\<close> become these functions.

  The medium is the host's handle (\<open>None\<close> when no settings path was given), the disk, and the
  outcomes of the system calls still to come; when these run out every call succeeds. The locks
  around the handler do not change what a single caller sees and are not modelled.
\<close>

section \<open>Operations\<close>

record host_io =
  hi_malloc_ok :: bool
  hi_first :: slot_io
  hi_second :: slot_io
  hi_cleanup :: slot_io
  hi_lstat_a :: bool
  hi_lstat_b :: bool

record media =
  md_store :: "settings_store option"
  md_disk :: disk
  md_ios :: "host_io list"

definition host_io_fine :: host_io where
  "host_io_fine = \<lparr> hi_malloc_ok = True, hi_first = io_fine, hi_second = io_fine, hi_cleanup = io_fine,
     hi_lstat_a = True, hi_lstat_b = True \<rparr>"

definition next_io :: "media \<Rightarrow> host_io" where
  "next_io m = (case md_ios m of [] \<Rightarrow> host_io_fine | io # _ \<Rightarrow> io)"

text \<open>An empty blob asks for erasure. \<open>settings_store_write\<close> uses the outcomes of the probe, of the
  write and of the cleanup, \<open>settings_store_erase\<close> those of the two erasures and checks.\<close>

definition on_settings_changed :: "(bytes \<Rightarrow> u32) \<Rightarrow> settings_store \<Rightarrow> bytes \<Rightarrow> media \<Rightarrow> bool \<times> media" where
  "on_settings_changed crc32 ctx data m =
     (let io = next_io m;
          (ok, store, disk) =
            (if data = [] then settings_store_erase (hi_first io) (hi_second io) (hi_lstat_a io) (hi_lstat_b io) ctx (md_disk m)
             else settings_store_write crc32 (hi_first io) (hi_second io) (hi_cleanup io) ctx (md_disk m) data) in
      (ok, m \<lparr> md_store := Some store, md_disk := disk, md_ios := tl (md_ios m) \<rparr>))"

definition libjade_settings_changed ::
  "wally_api \<Rightarrow> (bytes \<Rightarrow> bytes option) \<Rightarrow> (bytes \<Rightarrow> u32) \<Rightarrow> wmap list \<Rightarrow> media \<Rightarrow> bool \<times> media" where
  "libjade_settings_changed w sha256 crc32 maps m = (case md_store m of
     None \<Rightarrow> (True, m)
   | Some ctx \<Rightarrow> (case pijade_settings_serialize w sha256 (hi_malloc_ok (next_io m)) maps of
       Some data \<Rightarrow> on_settings_changed crc32 ctx data m
     | None \<Rightarrow> (False, m)))"

definition libjade_settings_erased :: "(bytes \<Rightarrow> u32) \<Rightarrow> media \<Rightarrow> bool \<times> media" where
  "libjade_settings_erased crc32 m = (case md_store m of
     None \<Rightarrow> (True, m)
   | Some ctx \<Rightarrow> on_settings_changed crc32 ctx [] m)"

definition libjade_load_settings ::
  "wally_api \<Rightarrow> (bytes \<Rightarrow> bytes option) \<Rightarrow> wmap list \<Rightarrow> bytes option \<Rightarrow> bool \<times> wmap list" where
  "libjade_load_settings w sha256 maps data = (case data of
     None \<Rightarrow> (False, maps)
   | Some d \<Rightarrow> pijade_settings_deserialize w sha256 maps d)"

definition load_settings ::
  "wally_api \<Rightarrow> (bytes \<Rightarrow> bytes option) \<Rightarrow> (bytes \<Rightarrow> u32) \<Rightarrow> slot_io \<Rightarrow> slot_io \<Rightarrow> settings_store \<Rightarrow> disk \<Rightarrow>
   wmap list \<Rightarrow> settings_store \<times> wmap list" where
  "load_settings w sha256 crc32 io_a io_b store disk maps = (case settings_store_read crc32 io_a io_b store disk of
     (None, store) \<Rightarrow> (store, maps)
   | (Some data, store) \<Rightarrow> (store, snd (libjade_load_settings w sha256 maps (Some data))))"

text \<open>The environment of the device, and a restart: the maps start empty, the host opens its store
  and loads it.\<close>

definition host_env :: "wally_api \<Rightarrow> (bytes \<Rightarrow> bytes option) \<Rightarrow> (bytes \<Rightarrow> u32) \<Rightarrow> media nvs_env" where
  "host_env w sha256 crc32 = \<lparr> ne_wally = w, ne_persist = libjade_settings_changed w sha256 crc32,
     ne_forget = libjade_settings_erased crc32 \<rparr>"

definition reboot ::
  "wally_api \<Rightarrow> (bytes \<Rightarrow> bytes option) \<Rightarrow> (bytes \<Rightarrow> u32) \<Rightarrow> slot_io \<Rightarrow> slot_io \<Rightarrow> settings_store \<Rightarrow> disk \<Rightarrow> media nvs_state" where
  "reboot w sha256 crc32 io_a io_b store disk =
     (let (store, maps) = load_settings w sha256 crc32 io_a io_b store disk (replicate 5 []) in
      \<lparr> nv_maps = maps, nv_media = \<lparr> md_store = Some store, md_disk = disk, md_ios = [] \<rparr> \<rparr>)"

section \<open>The contract of the medium\<close>

text \<open>What the serialiser relies on: a save that reports success is what the next load returns, an
  erase that reports success leaves nothing to load, and neither breaks the medium.\<close>

locale settings_medium =
  fixes save :: "bytes \<Rightarrow> 'm \<Rightarrow> bool \<times> 'm"
    and load :: "'m \<Rightarrow> bytes option"
    and medium_ok :: "'m \<Rightarrow> bool"
  assumes save_keeps: "medium_ok m \<Longrightarrow> save d m = (r, m') \<Longrightarrow> medium_ok m'"
    and save_load: "medium_ok m \<Longrightarrow> d \<noteq> [] \<Longrightarrow> save d m = (True, m') \<Longrightarrow> load m' = Some d"
    and erase_load: "medium_ok m \<Longrightarrow> save [] m = (True, m') \<Longrightarrow> load m' = None"
begin

text \<open>After any history of saves and erasures, failed ones included, the outcome of the last one
  decides.\<close>

fun saves :: "bytes list \<Rightarrow> 'm \<Rightarrow> bool \<times> 'm" where
  "saves [] m = (True, m)"
| "saves [d] m = save d m"
| "saves (d # ds) m = saves ds (snd (save d m))"

lemma saves_keep: "medium_ok m \<Longrightarrow> saves ds m = (r, m') \<Longrightarrow> medium_ok m'"
proof (induction ds m rule: saves.induct)
  case (3 d e ds m)
  then show ?case using save_keeps by (metis prod.collapse saves.simps(3))
qed (auto intro: save_keeps)

lemma last_save_counts:
  "medium_ok m \<Longrightarrow> ds \<noteq> [] \<Longrightarrow> saves ds m = (True, m') \<Longrightarrow> load m' = (if last ds = [] then None else Some (last ds))"
proof (induction ds m rule: saves.induct)
  case (3 d e ds m)
  then show ?case using save_keeps by (metis last_ConsR list.distinct(1) prod.collapse saves.simps(3))
qed (auto intro: save_load erase_load)

end

text \<open>The two slots keep the contract.\<close>

definition media_ok :: "media \<Rightarrow> bool" where
  "media_ok m \<longleftrightarrow> (case md_store m of None \<Rightarrow> False | Some store \<Rightarrow> store_ok store)"

definition media_save :: "(bytes \<Rightarrow> u32) \<Rightarrow> bytes \<Rightarrow> media \<Rightarrow> bool \<times> media" where
  "media_save crc32 data m = (case md_store m of None \<Rightarrow> (False, m) | Some ctx \<Rightarrow> on_settings_changed crc32 ctx data m)"

definition media_load :: "(bytes \<Rightarrow> u32) \<Rightarrow> media \<Rightarrow> bytes option" where
  "media_load crc32 m = (case md_store m of None \<Rightarrow> None | Some store \<Rightarrow> stored crc32 store (md_disk m))"

lemma write_store_ok:
  assumes "store_ok store" and "settings_store_write crc32 io_p io io_e store disk data = (r, store', disk')"
  shows "store_ok store'" and "st_slots store' = st_slots store"
proof -
  have t: "st_next_slot store < 2" using assms(1) by (simp add: store_ok_def)
  from assms(2) have "st_slots store' = st_slots store \<and> st_next_slot store' < 2"
  proof (cases rule: write_outcome)
    case refused
    then show ?thesis using t by auto
  next
    case (torn seq w)
    have "st_slots store' = st_slots store" by (subst torn(7)) simp
    then show ?thesis using torn(8) t by auto
  next
    case (full seq)
    then show ?thesis using t by simp
  qed
  then show "store_ok store'" and "st_slots store' = st_slots store" using assms(1) by (auto simp: store_ok_def)
qed

lemma erase_store_ok:
  assumes "store_ok store" and "settings_store_erase io_a io_b la lb store disk = (r, store', disk')"
  shows "store_ok store'" and "st_slots store' = st_slots store"
  using assms by (auto simp: settings_store_erase_def Let_def store_ok_def split: prod.splits)

lemma stored_same_slots: "st_slots a = st_slots b \<Longrightarrow> stored crc32 a disk = stored crc32 b disk"
proof -
  assume "st_slots a = st_slots b"
  then have "slot_path a = slot_path b" by (simp add: fun_eq_iff slot_path_def)
  then show ?thesis by (auto simp: stored_def settings_store_read_def Let_def split: sum.split)
qed

lemma media_save_cases:
  assumes "md_store m = Some store" and "store_ok store" and "media_save crc32 d m = (r, m')"
  obtains store' where "md_store m' = Some store'" and "store_ok store'" and "st_slots store' = st_slots store"
proof (cases "d = []")
  case True
  obtain r' store' disk' where e: "settings_store_erase (hi_first (next_io m)) (hi_second (next_io m)) (hi_lstat_a (next_io m))
      (hi_lstat_b (next_io m)) store (md_disk m) = (r', store', disk')" by (metis prod_cases3)
  have "md_store m' = Some store'"
    using assms(1,3) True e by (auto simp: media_save_def on_settings_changed_def)
  then show thesis using that erase_store_ok [OF assms(2) e] by blast
next
  case False
  obtain r' store' disk' where e: "settings_store_write crc32 (hi_first (next_io m)) (hi_second (next_io m)) (hi_cleanup (next_io m))
      store (md_disk m) d = (r', store', disk')" by (metis prod_cases3)
  have "md_store m' = Some store'"
    using assms(1,3) False e by (auto simp: media_save_def on_settings_changed_def)
  then show thesis using that write_store_ok [OF assms(2) e] by blast
qed

interpretation slot_medium: settings_medium "media_save crc32" "media_load crc32" media_ok for crc32
proof
  fix m :: media and d r m'
  assume ok: "media_ok m" and save: "media_save crc32 d m = (r, m')"
  then obtain store where m: "md_store m = Some store" "store_ok store" by (auto simp: media_ok_def split: option.splits)
  obtain store' where "md_store m' = Some store'" "store_ok store'"
    using media_save_cases [OF m save] by metis
  then show "media_ok m'" by (simp add: media_ok_def)
next
  fix m :: media and d m'
  assume ok: "media_ok m" and d: "d \<noteq> []" and save: "media_save crc32 d m = (True, m')"
  then obtain store where m: "md_store m = Some store" "store_ok store" by (auto simp: media_ok_def split: option.splits)
  obtain store' disk' where w: "settings_store_write crc32 (hi_first (next_io m)) (hi_second (next_io m)) (hi_cleanup (next_io m))
      store (md_disk m) d = (True, store', disk')" "md_store m' = Some store'" "md_disk m' = disk'"
    using save m(1) d by (auto simp: media_save_def on_settings_changed_def Let_def split: prod.splits)
  show "media_load crc32 m' = Some d"
    using write_reads_back [OF m(2) w(1) write_store_ok(2) [OF m(2) w(1)] io_fine_reads io_fine_reads] w
    by (simp add: media_load_def stored_def)
next
  fix m :: media and m'
  assume ok: "media_ok m" and save: "media_save crc32 [] m = (True, m')"
  then obtain store where m: "md_store m = Some store" "store_ok store" by (auto simp: media_ok_def split: option.splits)
  let ?io = "next_io m"
  obtain store' disk' where e: "settings_store_erase (hi_first ?io) (hi_second ?io) (hi_lstat_a ?io) (hi_lstat_b ?io) store (md_disk m)
      = (True, store', disk')" "md_store m' = Some store'" "md_disk m' = disk'"
    using save m(1) by (auto simp: media_save_def on_settings_changed_def Let_def split: prod.splits)
  show "media_load crc32 m' = None"
    using erase_outcome [OF m(2) e(1), of crc32] e by (simp add: media_load_def)
qed

section \<open>Commits\<close>

definition keys_ok :: "'m nvs_state \<Rightarrow> bool" where
  "keys_ok st \<longleftrightarrow> (\<forall>ns<5. distinct (map fst (nv_maps st ! ns)))"

definition slots_of :: "media \<Rightarrow> bytes list" where
  "slots_of m = (case md_store m of None \<Rightarrow> [] | Some store \<Rightarrow> st_slots store)"

text \<open>The card holds an image of the store.\<close>

definition on_card :: "wally_api \<Rightarrow> (bytes \<Rightarrow> bytes option) \<Rightarrow> (bytes \<Rightarrow> u32) \<Rightarrow> media nvs_state \<Rightarrow> bool" where
  "on_card w sha256 crc32 st \<longleftrightarrow>
     (\<exists>b img. pijade_settings_serialize w sha256 b (nv_maps st) = Some img \<and> media_load crc32 (nv_media st) = Some img)"

lemma serialized_nonempty: "pijade_settings_serialize w sha256 b maps = Some img \<Longrightarrow> img \<noteq> []"
  by (auto simp: pijade_settings_serialize_def Let_def SETTINGS_MAGIC_def split: option.splits if_splits)

lemma media_save_slots:
  assumes "media_ok m" and "media_save crc32 d m = (r, m')"
  shows "slots_of m' = slots_of m"
proof -
  obtain store where m: "md_store m = Some store" "store_ok store" using assms(1) by (auto simp: media_ok_def split: option.splits)
  show ?thesis by (rule media_save_cases [OF m assms(2)]) (simp add: slots_of_def m(1))
qed

lemma commit_on_card:
  assumes "media_ok (nv_media st)" and "storage_commit (host_env w sha256 crc32) h st = (r, st')"
  shows "media_ok (nv_media st')" and "nv_maps st' = nv_maps st" and "slots_of (nv_media st') = slots_of (nv_media st)"
    and "r \<Longrightarrow> on_card w sha256 crc32 st'"
proof -
  obtain ctx where c: "md_store (nv_media st) = Some ctx" using assms(1) by (auto simp: media_ok_def split: option.splits)
  show maps: "nv_maps st' = nv_maps st"
    using assms(2) by (auto simp: storage_commit_def nvs_commit_def Let_def split: if_splits prod.splits)
  have step: "nv_media st' = nv_media st \<and> \<not> r \<or> (\<exists>img b. pijade_settings_serialize w sha256 b (nv_maps st) = Some img \<and>
      media_save crc32 img (nv_media st) = (r, nv_media st'))"
    using assms(2) c
    by (auto simp: storage_commit_def nvs_commit_def host_env_def libjade_settings_changed_def media_save_def Let_def
        split: if_splits prod.splits option.splits)
  show "media_ok (nv_media st')" using step slot_medium.save_keeps [OF assms(1), of crc32 _ r "nv_media st'"] assms(1) by auto
  show "slots_of (nv_media st') = slots_of (nv_media st)"
    using step media_save_slots [OF assms(1), of crc32 _ r "nv_media st'"] by auto
  show "on_card w sha256 crc32 st'" if good: r
  proof -
    obtain img b where i: "pijade_settings_serialize w sha256 b (nv_maps st) = Some img"
      "media_save crc32 img (nv_media st) = (True, nv_media st')" using step good by auto
    have "media_load crc32 (nv_media st') = Some img"
      by (rule slot_medium.save_load [OF assms(1) serialized_nonempty [OF i(1)] i(2)])
    then show ?thesis using i(1) unfolding on_card_def maps by blast
  qed
qed

lemma set_blob_keys:
  assumes "nvs_ok env st" and "keys_ok st" and "h < 5" and "nvs_set_blob env h name data st = (e, st')"
  shows "keys_ok st'" and "nv_media st' = nv_media st"
proof -
  have "distinct (map fst m')" if "wm_replace (ne_wally env) (nv_maps st ! h) name data = Some m'" for m'
    using assms(1-3) that unfolding nvs_ok_def wally_laws_def keys_ok_def by blast
  then show "keys_ok st'" and "nv_media st' = nv_media st"
    using assms by (auto simp: nvs_set_blob_def keys_ok_def nvs_ok_def nth_list_update split: option.splits)
qed

lemma store_blob_on_card:
  assumes ok: "nvs_ok (host_env w sha256 crc32) st" and k: "keys_ok st" and m: "media_ok (nv_media st)"
    and ns: "nvs_open ns = Inr h" "h < 5" and s: "store_blob (host_env w sha256 crc32) ns name data st = Some (True, st')"
  shows "keys_ok st'" and "media_ok (nv_media st')" and "slots_of (nv_media st') = slots_of (nv_media st)"
    and "on_card w sha256 crc32 st'"
proof -
  obtain st1 where b: "nvs_set_blob (host_env w sha256 crc32) h name data st = (ESP_OK, st1)"
    and c: "storage_commit (host_env w sha256 crc32) h st1 = (True, st')"
    using s ns by (auto simp: store_blob_def jade_assert_def split: if_splits prod.splits)
  note sk = set_blob_keys [OF ok k ns(2) b]
  have m1: "media_ok (nv_media st1)" using m sk(2) by simp
  note co = commit_on_card [OF m1 c]
  show "keys_ok st'" using sk(1) co(2) by (simp add: keys_ok_def)
  show "media_ok (nv_media st')" "slots_of (nv_media st') = slots_of (nv_media st)" "on_card w sha256 crc32 st'"
    using co sk(2) by simp_all
qed

section \<open>Restarts\<close>

lemma reboot_restores:
  assumes laws: "wally_laws w" "no_alloc_failure w" "sha256_len sha256" and ok: "length (nv_maps st) = 5" "keys_ok st"
    and card: "media_ok (nv_media st)" "on_card w sha256 crc32 st"
    and rd: "st_slots store = slots_of (nv_media st)" "io_reads io_a" "io_reads io_b"
  defines "st2 \<equiv> reboot w sha256 crc32 io_a io_b store (md_disk (nv_media st))"
  shows "length (nv_maps st2) = 5" and "lookup st2 0 k = persisted_value w (nv_maps st ! 0) k"
    and "ns \<in> {1..<5} \<Longrightarrow> lookup st2 ns k = lookup st ns k"
proof -
  obtain b img where img: "pijade_settings_serialize w sha256 b (nv_maps st) = Some img" "media_load crc32 (nv_media st) = Some img"
    using card(2) by (auto simp: on_card_def)
  obtain ctx where c: "md_store (nv_media st) = Some ctx" using card(1) by (auto simp: media_ok_def split: option.splits)
  have "stored crc32 store (md_disk (nv_media st)) = Some img"
    using img(2) c rd(1) stored_same_slots [of store ctx] by (simp add: media_load_def slots_of_def)
  then have "fst (settings_store_read crc32 io_a io_b store (md_disk (nv_media st))) = Some img"
    using read_independent [OF rd(2,3)] by (simp add: stored_def)
  then obtain store' where r: "settings_store_read crc32 io_a io_b store (md_disk (nv_media st)) = (Some img, store')"
    by (metis prod.collapse)
  have keys: "\<And>ns. ns < 5 \<Longrightarrow> distinct (map fst (nv_maps st ! ns))" using ok(2) by (simp add: keys_ok_def)
  obtain maps where maps: "pijade_settings_deserialize w sha256 (replicate 5 []) img = (True, maps)" "length maps = 5"
    "\<And>k. wm_get w (maps ! 0) k = persisted_value w (nv_maps st ! 0) k"
    "\<And>ns k. ns \<in> {1..<5} \<Longrightarrow> wm_get w (maps ! ns) k = wm_get w (nv_maps st ! ns) k"
    using serialized_loads [OF laws ok(1) keys img(1)] by blast
  have "nv_maps st2 = maps"
    unfolding st2_def reboot_def load_settings_def libjade_load_settings_def r using maps(1) by simp
  moreover have "wm_get w m k = map_of m k" for m k using laws(1) by (simp add: wally_laws_def)
  ultimately show "length (nv_maps st2) = 5" and "lookup st2 0 k = persisted_value w (nv_maps st ! 0) k"
    and "ns \<in> {1..<5} \<Longrightarrow> lookup st2 ns k = lookup st ns k"
    using maps(2-4) by (simp_all add: lookup_def)
qed

section \<open>A device on its card\<close>

definition device_ok :: "wally_api \<Rightarrow> media nvs_state \<Rightarrow> bool" where
  "device_ok w st \<longleftrightarrow> wally_laws w \<and> no_alloc_failure w \<and> length (nv_maps st) = 5 \<and> keys_ok st \<and> media_ok (nv_media st)"

text \<open>A handle opened again on the same two files.\<close>

definition same_card :: "settings_store \<Rightarrow> media nvs_state \<Rightarrow> bool" where
  "same_card store st \<longleftrightarrow> st_slots store = slots_of (nv_media st)"

lemma device_nvs_ok: "device_ok w st \<Longrightarrow> nvs_ok (host_env w sha256 crc32) st"
  by (simp add: device_ok_def nvs_ok_def host_env_def)

lemma device_store_blob:
  assumes dev: "device_ok w st" and ns: "nvs_open ns = Inr h" "h < 5"
    and s: "store_blob (host_env w sha256 crc32) ns name data st = Some (True, st')"
  shows "device_ok w st'" and "on_card w sha256 crc32 st'" and "same_card store st' = same_card store st"
    and "lookup st' h name = Some data" and "same_but h name st st'"
proof -
  have ok: "nvs_ok (host_env w sha256 crc32) st" and k: "keys_ok st" and m: "media_ok (nv_media st)"
    using dev by (simp_all add: device_nvs_ok) (simp_all add: device_ok_def)
  have d: "data \<noteq> []" using s by (auto simp: store_blob_def jade_assert_def split: if_splits)
  have eff: "same_but h name st st'" "lookup st' h name = Some data"
    using store_blob_effect [OF ok ns d, of name] s by auto
  note c = store_blob_on_card [OF ok k m ns s]
  show "device_ok w st'" using dev c(1,2) eff(1) by (simp add: device_ok_def same_but_def)
  show "on_card w sha256 crc32 st'" "same_card store st' = same_card store st" using c(3,4) by (simp_all add: same_card_def)
  show "lookup st' h name = Some data" "same_but h name st st'" by (rule eff)+
qed

lemma device_reboot:
  assumes dev: "device_ok w st" "on_card w sha256 crc32 st" and "sha256_len sha256"
    and "same_card store st" "io_reads io_a" "io_reads io_b"
  defines "st2 \<equiv> reboot w sha256 crc32 io_a io_b store (md_disk (nv_media st))"
  shows "nvs_ok (host_env w sha256 crc32) st2" and "lookup st2 0 k = persisted_value w (nv_maps st ! 0) k"
    and "ns \<in> {1..<5} \<Longrightarrow> lookup st2 ns k = lookup st ns k"
proof -
  have d: "wally_laws w" "no_alloc_failure w" "length (nv_maps st) = 5" "keys_ok st" "media_ok (nv_media st)"
    using dev(1) by (simp_all add: device_ok_def)
  note r = reboot_restores [OF d(1,2) assms(3) d(3-5) dev(2) assms(4) [unfolded same_card_def] assms(5,6), folded st2_def]
  show "nvs_ok (host_env w sha256 crc32) st2" using r(1) d(1) by (simp add: nvs_ok_def host_env_def)
  show "lookup st2 0 k = persisted_value w (nv_maps st ! 0) k" by (rule r(2))
  show "ns \<in> {1..<5} \<Longrightarrow> lookup st2 ns k = lookup st ns k" by (rule r(3))
qed

lemma persisted_lookup:
  assumes "device_ok w st" and "lookup st 0 k = Some v" and "find_field k = Some f" and "pf_min_len f \<le> length v" "length v \<le> pf_max_len f"
  shows "persisted_value w (nv_maps st ! 0) k = Some v"
  using assms by (simp add: persisted_value_def device_ok_def wally_laws_def lookup_def)

lemma find_pin_fields:
  "find_field PIN_COUNTER_FIELD = Some \<lparr> pf_key = str ''counter'', pf_min_len = 1, pf_max_len = 1, pf_nul = False \<rparr>"
  "find_field BLOB_FIELD = Some \<lparr> pf_key = str ''blob'', pf_min_len = 80, pf_max_len = 256, pf_nul = False \<rparr>"
  by code_simp+

text \<open>On a healthy card a commit succeeds.\<close>

definition healthy :: "media \<Rightarrow> settings_store \<Rightarrow> bool" where
  "healthy m ctx \<longleftrightarrow> md_store m = Some ctx \<and> st_next_slot ctx < 2 \<and> hi_malloc_ok (next_io m) \<and> io_reads (hi_first (next_io m)) \<and>
     io_writes (hi_second (next_io m)) \<and> (\<forall>i<2. md_disk m (slot_path ctx i) \<noteq> Some Directory) \<and>
     highest_seq (hi_first (next_io m)) ctx (md_disk m) \<noteq> - 1"

definition saved :: "(bytes \<Rightarrow> u32) \<Rightarrow> settings_store \<Rightarrow> bytes \<Rightarrow> media \<Rightarrow> media" where
  "saved crc32 ctx img m =
     (let seq = highest_seq (hi_first (next_io m)) ctx (md_disk m) + 1; t = st_next_slot ctx in
      m \<lparr> md_store := Some (ctx \<lparr> st_newest_seq := seq, st_newest_slot := Some t, st_next_slot := 1 - t \<rparr>),
          md_disk := (md_disk m)(slot_path ctx t \<mapsto> Regular (slot_frame crc32 seq img)), md_ios := tl (md_ios m) \<rparr>)"

lemma store_blob_succeeds:
  assumes h: "healthy (nv_media st) ctx" and ns: "nvs_open ns = Inr h" "h < length (nv_maps st)" and d: "data \<noteq> []"
    and m: "wm_replace w (nv_maps st ! h) name data = Some m'"
    and img: "pijade_settings_serialize w sha256 True ((nv_maps st)[h := m']) = Some img" "length img \<le> SETTINGS_MAX_LEN"
  shows "store_blob (host_env w sha256 crc32) ns name data st =
    Some (True, st \<lparr> nv_maps := (nv_maps st)[h := m'], nv_media := saved crc32 ctx img (nv_media st) \<rparr>)"
proof -
  let ?io = "next_io (nv_media st)"
  have ne: "img \<noteq> []" by (rule serialized_nonempty [OF img(1)])
  have hh: "md_store (nv_media st) = Some ctx" "hi_malloc_ok ?io" using h by (simp_all add: healthy_def)
  have files: "md_disk (nv_media st) (slot_path ctx i) \<noteq> Some Directory" if "i < 2" for i using h that by (simp add: healthy_def)
  have "settings_store_write crc32 (hi_first ?io) (hi_second ?io) (hi_cleanup ?io) ctx (md_disk (nv_media st)) img =
    (True, the (md_store (saved crc32 ctx img (nv_media st))), md_disk (saved crc32 ctx img (nv_media st)))"
    using write_succeeds [of img "hi_first ?io" "hi_second ?io" "md_disk (nv_media st)" ctx, OF ne img(2) _ _ files] h
    by (simp add: healthy_def saved_def Let_def)
  then have "on_settings_changed crc32 ctx img (nv_media st) = (True, saved crc32 ctx img (nv_media st))"
    using ne by (simp add: on_settings_changed_def saved_def Let_def)
  then show ?thesis
    using ns d m img(1) hh
    by (simp add: store_blob_def nvs_set_blob_def storage_commit_def nvs_commit_def host_env_def libjade_settings_changed_def)
qed

text \<open>A device with a formatted card whose writes are cut into pieces, for concrete runs.\<close>

definition boot_store :: settings_store where
  "boot_store = \<lparr> st_slots = [str ''/boot/jade.a'', str ''/boot/jade.b''], st_newest_slot = None, st_newest_seq = 0, st_next_slot = 0 \<rparr>"

definition demo_device :: "media nvs_state" where
  "demo_device = \<lparr> nv_maps = [[(str ''counter'', [3])], [], [], [], []], nv_media = \<lparr> md_store = Some boot_store, md_disk = Map.empty,
     md_ios = [host_io_fine \<lparr> hi_second := io_fine \<lparr> io_xfer := [Moved 3, Interrupted, Moved 9] \<rparr> \<rparr>] \<rparr> \<rparr>"

lemma demo_device_ok: "device_ok wally_alist demo_device" "same_card boot_store demo_device"
proof -
  have "list_all (\<lambda>m. distinct (map fst m)) (nv_maps demo_device)" by code_simp
  then have "keys_ok demo_device" by (simp add: keys_ok_def list_all_length demo_device_def)
  moreover have "store_ok boot_store" by (simp add: store_ok_def boot_store_def chr_def)
  ultimately show "device_ok wally_alist demo_device"
    using wally_alist_laws by (simp add: device_ok_def media_ok_def) (simp add: demo_device_def)
  show "same_card boot_store demo_device" by (simp add: same_card_def slots_of_def demo_device_def)
qed

lemma demo_sha256_len: "sha256_len demo_sha256" by (simp add: sha256_len_def demo_sha256_def)

text \<open>The two images a stored seed leaves behind.\<close>

definition demo_maps :: "bytes \<Rightarrow> bytes \<Rightarrow> wmap list" where
  "demo_maps counter blob = [[(str ''counter'', counter)] @ (if blob = [] then [] else [(str ''blob'', blob)]), [], [], [], []]"

definition demo_img :: "bytes \<Rightarrow> bytes \<Rightarrow> bytes" where
  "demo_img counter blob = the (pijade_settings_serialize wally_alist demo_sha256 True (demo_maps counter blob))"

lemma demo_imgs:
  "list_all (\<lambda>(c, b). pijade_settings_serialize wally_alist demo_sha256 True (demo_maps c b) \<noteq> None \<and> length (demo_img c b) < 200)
     [([2], []), ([3], []), ([3], replicate 80 5)]"
  by code_simp

lemma demo_img_ok:
  assumes "c = 2 \<or> c = 3 \<and> (b = [] \<or> b = replicate 80 5)" and "c = 2 \<longrightarrow> b = []"
  shows "pijade_settings_serialize wally_alist demo_sha256 True (demo_maps [c] b) = Some (demo_img [c] b)"
    and "length (demo_img [c] b) \<le> SETTINGS_MAX_LEN"
  using demo_imgs assms by (auto simp: demo_img_def SETTINGS_MAX_LEN_def)

lemma demo_healthy: "healthy (nv_media demo_device) boot_store"
  by (simp add: healthy_def demo_device_def boot_store_def next_io_def host_io_fine_def io_writes_def io_fine_def highest_seq_def
      probe_slot_header_def io_reads_def)

definition booted :: settings_store where
  "booted = boot_store \<lparr> st_newest_seq := 1, st_newest_slot := Some 0, st_next_slot := 1 \<rparr>"

lemma demo_saved:
  "md_disk (saved crc32 boot_store img (nv_media demo_device)) = [slot_path boot_store 0 \<mapsto> Regular (slot_frame crc32 1 img)]"
  "md_ios (saved crc32 boot_store img (nv_media demo_device)) = []"
  "md_store (saved crc32 boot_store img (nv_media demo_device)) = Some booted"
  by (simp_all add: saved_def demo_device_def boot_store_def booted_def highest_seq_def next_io_def host_io_fine_def probe_slot_header_def io_fine_def)

lemma demo_healthy2: "healthy (saved crc32 boot_store img (nv_media demo_device)) booted"
proof -
  have "highest_seq io_fine booted [slot_path boot_store 0 \<mapsto> Regular (slot_frame crc32 1 img)] = 1"
    by (simp add: highest_seq_def booted_def probe_frame)
  then show ?thesis
    unfolding healthy_def next_io_def demo_saved by (simp add: host_io_fine_def booted_def)
qed

lemma set_both: "st \<lparr> nv_maps := a, nv_media := b \<rparr> = \<lparr> nv_maps = a, nv_media = b \<rparr>"
  by (cases st) simp

lemma demo_counter_stored:
  assumes "c = 2 \<or> c = 3"
  shows "store_blob (host_env wally_alist demo_sha256 crc32) DEFAULT_NAMESPACE PIN_COUNTER_FIELD [c] demo_device =
    Some (True, \<lparr> nv_maps = demo_maps [c] [], nv_media = saved crc32 boot_store (demo_img [c] []) (nv_media demo_device) \<rparr>)"
proof -
  have maps: "(nv_maps demo_device)[0 := [(str ''counter'', [c])]] = demo_maps [c] []" by (simp add: demo_device_def demo_maps_def)
  have m: "wm_replace wally_alist (nv_maps demo_device ! 0) PIN_COUNTER_FIELD [c] = Some [(str ''counter'', [c])]"
    by (simp add: wally_alist_def demo_device_def PIN_COUNTER_FIELD_def)
  have len: "0 < length (nv_maps demo_device)" by (simp add: demo_device_def)
  have i: "pijade_settings_serialize wally_alist demo_sha256 True ((nv_maps demo_device)[0 := [(str ''counter'', [c])]]) = Some (demo_img [c] [])"
    unfolding maps by (rule demo_img_ok(1)) (use assms in auto)
  have l: "length (demo_img [c] []) \<le> SETTINGS_MAX_LEN" by (rule demo_img_ok(2)) (use assms in auto)
  have ne: "[c] \<noteq> []" by simp
  show ?thesis by (rule store_blob_succeeds [OF demo_healthy nvs_open_names(1) len ne m i l, of crc32, unfolded maps set_both])
qed

lemma demo_blob_stored:
  "\<exists>st'. storage_set_encrypted_blob (host_env wally_alist demo_sha256 crc32) (replicate 80 5) demo_device = Some (True, st')"
proof -
  define st where "st = \<lparr> nv_maps = demo_maps [3] [], nv_media = saved crc32 boot_store (demo_img [3] []) (nv_media demo_device) \<rparr>"
  have s1: "store_blob (host_env wally_alist demo_sha256 crc32) DEFAULT_NAMESPACE PIN_COUNTER_FIELD [3] demo_device = Some (True, st)"
    unfolding st_def by (rule demo_counter_stored) simp
  define m' where "m' = [(str ''counter'', [3]), (str ''blob'', replicate 80 (5 :: byte))]"
  have maps: "(nv_maps st)[0 := m'] = demo_maps [3] (replicate 80 5)" by (simp add: st_def m'_def demo_maps_def)
  have m: "wm_replace wally_alist (nv_maps st ! 0) BLOB_FIELD (replicate 80 5) = Some m'"
    by (simp add: wally_alist_def st_def m'_def demo_maps_def BLOB_FIELD_def chr_def)
  have h: "healthy (nv_media st) booted" unfolding st_def by (simp add: demo_healthy2)
  have i: "pijade_settings_serialize wally_alist demo_sha256 True ((nv_maps st)[0 := m']) = Some (demo_img [3] (replicate 80 5))"
    unfolding maps by (rule demo_img_ok(1)) auto
  have l: "length (demo_img [3] (replicate 80 5)) \<le> SETTINGS_MAX_LEN" by (rule demo_img_ok(2)) auto
  have len: "0 < length (nv_maps st)" by (simp add: st_def demo_maps_def)
  have ne: "replicate 80 (5 :: byte) \<noteq> []" by simp
  show ?thesis
    using s1 store_blob_succeeds [OF h nvs_open_names(1) len ne m i l, of crc32]
    by (simp add: storage_set_encrypted_blob_def storage_restore_counter_def del: replicate.simps)
qed

lemma demo_record_stored:
  "\<exists>st'. store_blob (host_env wally_alist demo_sha256 crc32) OTP_NAMESPACE (str ''bank'') (replicate 80 5) demo_device = Some (True, st')"
proof -
  define m' where "m' = [(str ''bank'', replicate 80 (5 :: byte))]"
  have m: "wm_replace wally_alist (nv_maps demo_device ! 3) (str ''bank'') (replicate 80 5) = Some m'"
    by (simp add: wally_alist_def demo_device_def m'_def)
  have "case pijade_settings_serialize wally_alist demo_sha256 True ((nv_maps demo_device)[3 := m']) of None \<Rightarrow> False | Some img \<Rightarrow> length img < 200"
    unfolding m'_def by code_simp
  then obtain img where i: "pijade_settings_serialize wally_alist demo_sha256 True ((nv_maps demo_device)[3 := m']) = Some img" "length img < 200"
    by (auto split: option.splits)
  have l: "length img \<le> SETTINGS_MAX_LEN" using i(2) by (simp add: SETTINGS_MAX_LEN_def)
  have len: "3 < length (nv_maps demo_device)" by (simp add: demo_device_def)
  have ne: "replicate 80 (5 :: byte) \<noteq> []" by simp
  show ?thesis using store_blob_succeeds [OF demo_healthy nvs_open_names(4) len ne m i(1) l, of crc32] by blast
qed

end
