(* ===== verification/Pin_Guard.thy ===== *)
theory Pin_Guard
  imports Persistence
begin

text \<open>
  The promise of the pin counter on the real medium. \<open>storage_decrement_counter\<close> and
  \<open>storage_erase_encrypted_blob\<close> (\<open>main/storage.c\<close>) run over the two-slot card of the theory
  \<open>Persistence\<close>, whose writes can fail or be cut off anywhere, with restarts in between.

  The argument is an invariant with two layers. \<open>guarded\<close> says of the two slots that whatever a
  restart can read has a property; every write of data with the property keeps it, and a write that
  reports success establishes it. \<open>card_holds\<close> lifts it to the images of the five maps, and
  \<open>pin_inv\<close> applies it to the number of attempts the counter grants.
\<close>

section \<open>What the slots can give back\<close>

text \<open>The slot the handle takes for newest holds an image with the property, and so does the other
  slot unless its number is lower: whatever a restart reads has the property.\<close>

definition guarded :: "(bytes \<Rightarrow> u32) \<Rightarrow> (bytes \<Rightarrow> bool) \<Rightarrow> settings_store \<Rightarrow> disk \<Rightarrow> bool" where
  "guarded crc32 Q store disk \<longleftrightarrow> store_inv crc32 store disk \<and>
     (\<exists>s c. st_newest_slot store = Some s \<and> slot_view crc32 (disk (slot_path store s)) = Some c \<and> Q (sc_data c) \<and>
        (\<forall>c'. slot_view crc32 (disk (slot_path store (1 - s))) = Some c' \<longrightarrow> sc_seq c' < sc_seq c \<or> Q (sc_data c')))"

lemma guarded_mono: "guarded crc32 P store disk \<Longrightarrow> (\<And>d. P d \<Longrightarrow> Q d) \<Longrightarrow> guarded crc32 Q store disk"
  unfolding guarded_def by blast

text \<open>A write that reports success puts its data on guard.\<close>

lemma write_guards:
  assumes ok: "store_ok store" and "settings_store_write crc32 io_p io io_e store disk data = (True, store', disk')" and "Q data"
  shows "guarded crc32 Q store' disk'"
  using assms(2)
proof (cases rule: write_outcome)
  case (full seq)
  have t: "st_next_slot store < 2" using ok by (simp add: store_ok_def)
  note won = full_wins [OF ok full(1,2,5,6), simplified]
  have path: "slot_path store' = slot_path store" and s': "st_newest_slot store' = Some (st_next_slot store)"
    "st_next_slot store' = 1 - st_next_slot store" "st_newest_seq store' = seq" "st_slots store' = st_slots store"
    by (simp_all add: full(4))
  have inv: "store_inv crc32 store' disk'" using won(1) ok t s' path by (simp add: store_inv_def store_ok_def)
  show ?thesis
    unfolding guarded_def using inv s'(1) won assms(3) unfolding path
    by (intro conjI exI [of _ "st_next_slot store"] exI [of _ "\<lparr> sc_data = data, sc_seq = seq \<rparr>"]) auto
qed simp_all

text \<open>Any write of data with the property, cut off or refused at any point, keeps the guard.\<close>

lemma write_keeps_guard:
  assumes g: "guarded crc32 Q store disk" and w: "settings_store_write crc32 io_p io io_e store disk data = (r, store', disk')" and "Q data"
  shows "guarded crc32 Q store' disk'"
proof -
  obtain s c where s: "st_newest_slot store = Some s" "slot_view crc32 (disk (slot_path store s)) = Some c" "Q (sc_data c)"
    "\<And>c'. slot_view crc32 (disk (slot_path store (1 - s))) = Some c' \<Longrightarrow> sc_seq c' < sc_seq c \<or> Q (sc_data c')"
    and inv: "store_inv crc32 store disk" using g unfolding guarded_def by blast
  have ok: "store_ok store" using inv by (simp add: store_inv_def)
  have n: "s < 2" "st_next_slot store = 1 - s" "sc_seq c \<le> st_newest_seq store"
    using store_invD [OF inv s(1)] s(2) by (metis option.inject)+
  have ne: "slot_path store (1 - s) \<noteq> slot_path store s" by (rule slot_path_other [OF ok n(1)])
  have inv': "store_inv crc32 store' disk'" by (rule store_inv_write(1) [OF inv w])
  from w show ?thesis
  proof (cases rule: write_outcome)
    case refused
    then have "slot_path store' = slot_path store" by (simp add: fun_eq_iff slot_path_def)
    then show ?thesis unfolding guarded_def using inv' s refused(2,4) by auto
  next
    case (torn seq wr)
    have path: "slot_path store' = slot_path store" and new: "st_newest_slot store' = Some s" by (subst torn(7); simp add: s(1))+
    have view: "slot_view crc32 (disk' (slot_path store (1 - s))) = Some c' \<Longrightarrow> c' = \<lparr> sc_data = data, sc_seq = seq \<rparr>" for c'
      using torn(6) n(2) slot_view_frame [OF torn(2,3)] slot_view_torn [OF torn(3,5)]
      by (cases "wr = slot_frame crc32 seq data") auto
    have old: "disk' (slot_path store s) = disk (slot_path store s)" using torn(6) n(2) ne by simp
    show ?thesis unfolding guarded_def path using inv' new s(2,3) old view assms(3) by auto
  next
    case (full seq)
    have again: "1 - (1 - s) = s" using n(1) by auto
    have "sc_seq c < seq" using n(3) full(3) by (rule order_le_less_trans)
    then have "\<forall>c'. slot_view crc32 (disk (slot_path store (1 - st_next_slot store))) = Some c' \<longrightarrow> sc_seq c' < seq"
      using s(2) n(2) again by simp
    note won = full_wins [OF ok full(1,2,5,6) disjI2 [OF this]]
    have path: "slot_path store' = slot_path store" and new: "st_newest_slot store' = Some (1 - s)" by (simp_all add: full(4) n(2))
    show ?thesis unfolding guarded_def path using inv' new won n(2) assms(3) by auto
  qed
qed

text \<open>What a restart reads, and the handle it reads with.\<close>

lemma read_guarded:
  assumes g: "guarded crc32 Q store disk" and st: "st_slots reader = st_slots store" "store_inv crc32 reader disk" and io: "io_reads io_a" "io_reads io_b"
  obtains d reader' where "settings_store_read crc32 io_a io_b reader disk = (Some d, reader')" "Q d" "guarded crc32 Q reader' disk"
    "st_slots reader' = st_slots reader"
proof -
  obtain s c where s: "st_newest_slot store = Some s" "slot_view crc32 (disk (slot_path store s)) = Some c" "Q (sc_data c)"
    "\<And>c'. slot_view crc32 (disk (slot_path store (1 - s))) = Some c' \<Longrightarrow> sc_seq c' < sc_seq c \<or> Q (sc_data c')"
    and inv: "store_inv crc32 store disk" using g unfolding guarded_def by blast
  have "s < 2" using store_invD [OF inv s(1)] by blast
  then have s01: "s = 0 \<or> s = 1" by auto
  have path: "slot_path reader = slot_path store" using st(1) by (simp add: fun_eq_iff slot_path_def)
  let ?a = "slot_view crc32 (disk (slot_path store 0))" and ?b = "slot_view crc32 (disk (slot_path store 1))"
  have Q: "Q (sc_data x) \<and> (\<forall>y. slot_view crc32 (disk (slot_path store (1 - i))) = Some y \<longrightarrow> sc_seq y < sc_seq x \<or> Q (sc_data y))"
    if "i < 2" "slot_view crc32 (disk (slot_path store i)) = Some x"
      "\<And>y. slot_view crc32 (disk (slot_path store (1 - i))) = Some y \<Longrightarrow> \<not> sc_seq x < sc_seq y" for i x
  proof (cases "i = s")
    case True
    then show ?thesis using that(2) s(2-4) by auto
  next
    case False
    then have i: "i = 1 - s" "1 - i = s" using \<open>s < 2\<close> that(1) by auto
    then show ?thesis using s(2-4) that(2,3) unfolding i by auto
  qed
  define pick where "pick = (\<lambda>i (x :: slot_contents). (Some (sc_data x), reader \<lparr> st_newest_slot := Some i,
     st_newest_seq := (if sc_seq x > st_newest_seq reader then sc_seq x else st_newest_seq reader), st_next_slot := 1 - i \<rparr>))"
  have "\<exists>i x. i < 2 \<and> settings_store_read crc32 io_a io_b reader disk = pick i x \<and> slot_view crc32 (disk (slot_path store i)) = Some x \<and>
      (\<forall>y. slot_view crc32 (disk (slot_path store (1 - i))) = Some y \<longrightarrow> \<not> sc_seq x < sc_seq y)"
  proof (cases "\<exists>y. ?b = Some y \<and> (\<forall>x. ?a = Some x \<longrightarrow> sc_seq x < sc_seq y)")
    case True
    then obtain y where y: "?b = Some y" "\<And>x. ?a = Some x \<Longrightarrow> sc_seq x < sc_seq y" by blast
    then have "settings_store_read crc32 io_a io_b reader disk = pick 1 y"
      using read_slot_view_cases [OF io(1), of crc32 "disk (slot_path store 0)"] read_slot_ok [OF io(2) y(1)]
      by (auto simp: settings_store_read_def path pick_def Let_def)
    then show ?thesis using y by (intro exI [of _ 1] exI [of _ y]) (auto dest: order.asym)
  next
    case False
    then have no: "\<And>y. ?b = Some y \<Longrightarrow> \<exists>x. ?a = Some x \<and> \<not> sc_seq x < sc_seq y" by blast
    then obtain x where x: "?a = Some x" using s(2) s01 by auto
    then have "settings_store_read crc32 io_a io_b reader disk = pick 0 x"
      using read_slot_view_cases [OF io(2), of crc32 "disk (slot_path store 1)"] read_slot_ok [OF io(1) x] no
      by (auto simp: settings_store_read_def path pick_def Let_def)
    then show ?thesis using x no by (intro exI [of _ 0] exI [of _ x]) auto
  qed
  then obtain i x where p: "i < 2" "settings_store_read crc32 io_a io_b reader disk = pick i x" "slot_view crc32 (disk (slot_path store i)) = Some x"
    "\<And>y. slot_view crc32 (disk (slot_path store (1 - i))) = Some y \<Longrightarrow> \<not> sc_seq x < sc_seq y" by blast
  have q: "Q (sc_data x)" "\<forall>y. slot_view crc32 (disk (slot_path store (1 - i))) = Some y \<longrightarrow> sc_seq y < sc_seq x \<or> Q (sc_data y)"
    using Q [OF p(1,3)] p(4) by blast+
  have h: "st_newest_slot (snd (pick i x)) = Some i" "slot_path (snd (pick i x)) = slot_path store" "st_slots (snd (pick i x)) = st_slots reader"
    by (simp_all add: pick_def path)
  have "guarded crc32 Q (snd (pick i x)) disk"
    unfolding guarded_def using store_inv_read(1) [OF st(2), of io_a io_b] p(3) q h(1,2) unfolding p(2) by auto
  moreover have "pick i x = (Some (sc_data x), snd (pick i x))" by (simp add: pick_def)
  ultimately show thesis using that p(2) q(1) h(3) by metis
qed

section \<open>What the card can give back\<close>

text \<open>Every image a restart can read is the image of five maps with the property.\<close>

definition image_of :: "wally_api \<Rightarrow> (bytes \<Rightarrow> bytes option) \<Rightarrow> (wmap list \<Rightarrow> bool) \<Rightarrow> bytes \<Rightarrow> bool" where
  "image_of w sha256 P img \<longleftrightarrow> (\<exists>maps b. length maps = 5 \<and> (\<forall>ns<5. distinct (map fst (maps ! ns))) \<and> P maps \<and>
     pijade_settings_serialize w sha256 b maps = Some img)"

definition card_holds ::
  "wally_api \<Rightarrow> (bytes \<Rightarrow> bytes option) \<Rightarrow> (bytes \<Rightarrow> u32) \<Rightarrow> (wmap list \<Rightarrow> bool) \<Rightarrow> media nvs_state \<Rightarrow> bool" where
  "card_holds w sha256 crc32 P st \<longleftrightarrow> (case md_store (nv_media st) of None \<Rightarrow> False
     | Some store \<Rightarrow> guarded crc32 (image_of w sha256 P) store (md_disk (nv_media st)))"

lemma card_holds_mono:
  assumes "card_holds w sha256 crc32 P st" and "\<And>maps. P maps \<Longrightarrow> Q maps"
  shows "card_holds w sha256 crc32 Q st"
proof -
  have "image_of w sha256 P d \<Longrightarrow> image_of w sha256 Q d" for d using assms(2) unfolding image_of_def by blast
  then show ?thesis using assms(1) by (auto simp: card_holds_def split: option.splits intro: guarded_mono)
qed

lemma card_holds_media: "nv_media st = nv_media st' \<Longrightarrow> card_holds w sha256 crc32 P st = card_holds w sha256 crc32 P st'"
  by (simp only: card_holds_def)

text \<open>A commit writes the image of the maps, or nothing.\<close>

lemma commit_step:
  assumes dev: "device_ok w st" and P: "P (nv_maps st)" and c: "storage_commit (host_env w sha256 crc32) h st = (r, st')"
  shows "device_ok w st'" and "nv_maps st' = nv_maps st" and "card_holds w sha256 crc32 P st \<or> r \<Longrightarrow> card_holds w sha256 crc32 P st'"
proof -
  have m: "media_ok (nv_media st)" and maps: "length (nv_maps st) = 5" "\<forall>ns<5. distinct (map fst (nv_maps st ! ns))"
    using dev by (simp_all add: device_ok_def keys_ok_def)
  note co = commit_on_card [OF m c]
  show "device_ok w st'" using dev co(1,2) by (simp add: device_ok_def keys_ok_def)
  show "nv_maps st' = nv_maps st" by (rule co(2))
  obtain ctx where ctx: "md_store (nv_media st) = Some ctx" "store_ok ctx" using m by (auto simp: media_ok_def split: option.splits)
  consider "nv_media st' = nv_media st" "\<not> r" | img b where "pijade_settings_serialize w sha256 b (nv_maps st) = Some img"
      "on_settings_changed crc32 ctx img (nv_media st) = (r, nv_media st')"
    using c ctx(1)
    by (auto simp: storage_commit_def nvs_commit_def host_env_def libjade_settings_changed_def Let_def
        split: if_splits prod.splits option.splits)
  then show "card_holds w sha256 crc32 P st'" if pre: "card_holds w sha256 crc32 P st \<or> r"
  proof cases
    case 1
    then show ?thesis using pre card_holds_media [OF 1(1)] by blast
  next
    case (2 img b)
    have q: "image_of w sha256 P img" using maps P 2(1) unfolding image_of_def by blast
    let ?io = "next_io (nv_media st)"
    obtain r' store disk where e: "settings_store_write crc32 (hi_first ?io) (hi_second ?io) (hi_cleanup ?io) ctx (md_disk (nv_media st)) img
        = (r', store, disk)" by (metis prod_cases3)
    have r': "r' = r" and media: "nv_media st' = nv_media st \<lparr> md_store := Some store, md_disk := disk, md_ios := tl (md_ios (nv_media st)) \<rparr>"
      using 2(2) e serialized_nonempty [OF 2(1)] by (simp_all add: on_settings_changed_def Let_def)
    note wr = e [unfolded r']
    have "guarded crc32 (image_of w sha256 P) store disk"
    proof (cases r)
      case True
      then show ?thesis using write_guards [OF ctx(2), of crc32 _ _ _ _ img store disk "image_of w sha256 P"] wr q by auto
    next
      case False
      then have "guarded crc32 (image_of w sha256 P) ctx (md_disk (nv_media st))" using pre ctx(1) by (simp add: card_holds_def)
      from write_keeps_guard [OF this wr q] show ?thesis .
    qed
    then show ?thesis by (simp add: card_holds_def media)
  qed
qed

text \<open>The maps that differ in one field.\<close>

definition differs_at :: "nat \<Rightarrow> bytes \<Rightarrow> bytes option \<Rightarrow> wmap list \<Rightarrow> wmap list \<Rightarrow> bool" where
  "differs_at h name v maps maps' \<longleftrightarrow> length maps' = length maps \<and> map_of (maps' ! h) name = v \<and>
     (\<forall>h' k. (h', k) \<noteq> (h, name) \<longrightarrow> map_of (maps' ! h') k = map_of (maps ! h') k)"

lemma differs_at_update:
  assumes "h < length maps" and "map_of m' = (map_of (maps ! h))(name := v)"
  shows "differs_at h name v maps (maps[h := m'])"
  using assms by (auto simp: differs_at_def nth_list_update)

lemma device_ok_update:
  assumes "device_ok w st" and "distinct (map fst m')"
  shows "device_ok w (st \<lparr> nv_maps := (nv_maps st)[h := m'] \<rparr>)"
  using assms by (cases "h < length (nv_maps st)") (auto simp: device_ok_def keys_ok_def nth_list_update list_update_beyond)

lemma store_blob_step:
  assumes dev: "device_ok w st" and ns: "nvs_open ns = Inr h" "h < 5" and P: "P (nv_maps st) \<or> r"
    and new: "\<And>maps'. differs_at h name (Some data) (nv_maps st) maps' \<Longrightarrow> P maps'"
    and s: "store_blob (host_env w sha256 crc32) ns name data st = Some (r, st')"
  shows "device_ok w st'" and "P (nv_maps st')" and "card_holds w sha256 crc32 P st \<or> r \<Longrightarrow> card_holds w sha256 crc32 P st'"
proof -
  have len: "h < length (nv_maps st)" and laws: "wally_laws w" and d: "distinct (map fst (nv_maps st ! h))"
    using dev ns(2) by (simp_all add: device_ok_def keys_ok_def)
  have E: "ne_wally (host_env w sha256 crc32) = w" by (simp add: host_env_def)
  consider "wm_replace w (nv_maps st ! h) name data = None" "st' = st" "\<not> r"
    | m' where "wm_replace w (nv_maps st ! h) name data = Some m'"
        "storage_commit (host_env w sha256 crc32) h (st \<lparr> nv_maps := (nv_maps st)[h := m'] \<rparr>) = (r, st')"
    using s ns(1) by (auto simp: store_blob_def nvs_set_blob_def E jade_assert_def split: if_splits option.splits prod.splits)
  then have "device_ok w st' \<and> P (nv_maps st') \<and> (card_holds w sha256 crc32 P st \<or> r \<longrightarrow> card_holds w sha256 crc32 P st')"
  proof cases
    case 1
    then show ?thesis using dev P by simp
  next
    case (2 m')
    let ?st = "st \<lparr> nv_maps := (nv_maps st)[h := m'] \<rparr>"
    have m': "map_of m' = (map_of (nv_maps st ! h))(name \<mapsto> data)" "distinct (map fst m')"
      using laws 2(1) d unfolding wally_laws_def by blast+
    have p: "P (nv_maps ?st)" using new [OF differs_at_update [OF len m'(1)]] by simp
    note c = commit_step [of w ?st P, OF device_ok_update [OF dev m'(2)] p 2(2)]
    have "card_holds w sha256 crc32 P ?st = card_holds w sha256 crc32 P st" by (rule card_holds_media) simp
    then show ?thesis using c p by simp
  qed
  then show "device_ok w st'" and "P (nv_maps st')" and "card_holds w sha256 crc32 P st \<or> r \<Longrightarrow> card_holds w sha256 crc32 P st'" by auto
qed

lemma erase_key_step:
  assumes dev: "device_ok w st" and ns: "nvs_open ns = Inr h" "h < 5"
    and new: "\<And>maps'. differs_at h name None (nv_maps st) maps' \<Longrightarrow> P maps'"
    and s: "erase_key (host_env w sha256 crc32) ns name st = (r, st')"
  shows "device_ok w st'" and "P (nv_maps st')" and "card_holds w sha256 crc32 P st \<or> r \<Longrightarrow> card_holds w sha256 crc32 P st'"
proof -
  have len: "h < length (nv_maps st)" and laws: "wally_laws w" and d: "distinct (map fst (nv_maps st ! h))"
    using dev ns(2) by (simp_all add: device_ok_def keys_ok_def)
  have E: "ne_wally (host_env w sha256 crc32) = w" by (simp add: host_env_def)
  define m' where "m' = (case wm_remove w (nv_maps st ! h) name of None \<Rightarrow> nv_maps st ! h | Some m \<Rightarrow> m)"
  let ?st = "st \<lparr> nv_maps := (nv_maps st)[h := m'] \<rparr>"
  have same: "st \<lparr> nv_maps := (nv_maps st)[h := nv_maps st ! h] \<rparr> = st" by simp
  have c: "storage_commit (host_env w sha256 crc32) h ?st = (r, st')"
    using s ns(1) by (auto simp: erase_key_def storage_erase_field_def nvs_erase_key_def E m'_def split: option.splits)
  have m': "map_of m' = (map_of (nv_maps st ! h))(name := None)" "distinct (map fst m')"
    using laws d unfolding wally_laws_def m'_def by (auto split: option.splits)
  have p: "P (nv_maps ?st)" using new [OF differs_at_update [OF len m'(1)]] by simp
  note cs = commit_step [of w ?st P, OF device_ok_update [OF dev m'(2)] p c]
  have "card_holds w sha256 crc32 P ?st = card_holds w sha256 crc32 P st" by (rule card_holds_media) simp
  then show "device_ok w st'" and "P (nv_maps st')" and "card_holds w sha256 crc32 P st \<or> r \<Longrightarrow> card_holds w sha256 crc32 P st'"
    using cs p by simp_all
qed

section \<open>Restarts\<close>

text \<open>The handle a restart opens on the same two files.\<close>

definition reopened :: "media \<Rightarrow> settings_store" where
  "reopened m = \<lparr> st_slots = slots_of m, st_newest_slot = None, st_newest_seq = 0, st_next_slot = 0 \<rparr>"

text \<open>Loading keeps the keys of every map apart.\<close>

lemma walk_keys:
  assumes laws: "wally_laws w"
  shows "walk_loop w True st p a b c = (r, st') \<Longrightarrow> (\<forall>ns<length st. distinct (map fst (st ! ns))) \<Longrightarrow>
    length st' = length st \<and> (\<forall>ns<length st. distinct (map fst (st' ! ns)))"
proof (induction p arbitrary: a b c st rule: length_induct)
  case (1 p)
  show ?case
  proof (cases "next_entry p")
    case None
    then show ?thesis using "1.prems" by (auto simp: walk_loop.simps [of w _ _ p] split: if_splits)
  next
    case (Some e)
    then obtain ns key val rest where n: "next_entry p = Some ((ns, key, val), rest)" by (metis prod_cases3 surj_pair)
    have short: "length rest < length p" by (rule next_entry_shorter [OF n])
    have ne: "p \<noteq> []" using n by (auto simp: next_entry_def)
    consider "st' = st" | m' a' b' c' where "ns < length st" "wm_replace w (st ! ns) key val = Some m'"
        "walk_loop w True (st[ns := m']) rest a' b' c' = (r, st')"
      using "1.prems"(1) n ne
      by (auto simp: walk_loop.simps [of w _ _ p] Let_def pijade_settings_storage_def split: if_splits option.splits)
    then show ?thesis
    proof cases
      case (2 m' a' b' c')
      have "distinct (map fst m')" using laws 2(1,2) "1.prems"(2) unfolding wally_laws_def by blast
      then have "\<forall>i<length (st[ns := m']). distinct (map fst (st[ns := m'] ! i))" using "1.prems"(2) 2(1) by (simp add: nth_list_update)
      then show ?thesis using "1.IH" [rule_format, OF short, of "st[ns := m']" a' b' c'] 2(3) by simp
    qed (use "1.prems"(2) in simp)
  qed
qed

lemma loaded_keys:
  assumes "wally_laws w" and "pijade_settings_deserialize w sha256 (replicate 5 []) img = (True, maps)"
  shows "\<forall>ns<5. distinct (map fst (maps ! ns))"
proof -
  have "walk_entries w True (replicate 5 []) (drop SETTINGS_HEADER_LEN img) = (True, maps)"
    using assms(2) by (auto simp: pijade_settings_deserialize_def Let_def split: if_splits option.splits)
  moreover have "\<forall>ns<length (replicate 5 []). distinct (map fst (replicate 5 [] ! ns))" by (simp only: length_replicate nth_replicate) simp
  ultimately show ?thesis using walk_keys [OF assms(1)] unfolding walk_entries_def by (metis length_replicate)
qed

text \<open>After a restart the store in memory is what the serialiser keeps of maps with the property,
  and the card still holds only such maps.\<close>

lemma reboot_step:
  assumes dev: "device_ok w st" and sha: "sha256_len sha256" and card: "card_holds w sha256 crc32 P st" and io: "io_reads io_a" "io_reads io_b"
  defines "st2 \<equiv> reboot w sha256 crc32 io_a io_b (reopened (nv_media st)) (md_disk (nv_media st))"
  obtains maps where "P maps" "device_ok w st2" "card_holds w sha256 crc32 P st2" "\<And>k. lookup st2 0 k = persisted_value w (maps ! 0) k"
proof -
  have laws: "wally_laws w" "no_alloc_failure w" using dev by (simp_all add: device_ok_def)
  obtain ctx where ctx: "md_store (nv_media st) = Some ctx" "guarded crc32 (image_of w sha256 P) ctx (md_disk (nv_media st))"
    using card by (auto simp: card_holds_def split: option.splits)
  have ok: "store_ok ctx" using ctx(2) by (simp add: guarded_def store_inv_def)
  have "store_ok (reopened (nv_media st))" using ok by (simp add: reopened_def slots_of_def ctx(1) store_ok_def)
  then have re: "st_slots (reopened (nv_media st)) = st_slots ctx" "store_inv crc32 (reopened (nv_media st)) (md_disk (nv_media st))"
    by (simp_all add: reopened_def slots_of_def ctx(1) store_inv_def)
  obtain img reader where rd: "settings_store_read crc32 io_a io_b (reopened (nv_media st)) (md_disk (nv_media st)) = (Some img, reader)"
    "image_of w sha256 P img" "guarded crc32 (image_of w sha256 P) reader (md_disk (nv_media st))"
    using read_guarded [OF ctx(2) re io] by metis
  obtain maps b where maps: "length maps = 5" "\<forall>ns<5. distinct (map fst (maps ! ns))" "P maps"
    "pijade_settings_serialize w sha256 b maps = Some img" using rd(2) unfolding image_of_def by blast
  obtain maps2 where l: "pijade_settings_deserialize w sha256 (replicate 5 []) img = (True, maps2)" "length maps2 = 5"
    "\<And>k. wm_get w (maps2 ! 0) k = persisted_value w (maps ! 0) k"
    using serialized_loads [OF laws sha maps(1) _ maps(4)] maps(2) by metis
  have st2: "st2 = \<lparr> nv_maps = maps2, nv_media = \<lparr> md_store = Some reader, md_disk = md_disk (nv_media st), md_ios = [] \<rparr> \<rparr>"
    unfolding st2_def reboot_def load_settings_def libjade_load_settings_def rd(1) using l(1) by simp
  have "store_ok reader" using rd(3) by (simp add: guarded_def store_inv_def)
  then have "device_ok w st2"
    using laws l(2) loaded_keys [OF laws(1) l(1)] by (simp add: st2 device_ok_def keys_ok_def media_ok_def)
  moreover have "card_holds w sha256 crc32 P st2" using rd(3) by (simp add: card_holds_def st2)
  moreover have "lookup st2 0 k = persisted_value w (maps ! 0) k" for k
    using l(3) laws(1) by (simp add: st2 lookup_def wally_laws_def)
  ultimately show thesis by (rule that [OF maps(3)])
qed

section \<open>Attempts and restarts\<close>

text \<open>The attempts that a store grants, read from its maps.\<close>

definition maps_left :: "wmap list \<Rightarrow> nat" where
  "maps_left maps = attempts_left \<lparr> nv_maps = maps, nv_media = () \<rparr>"

lemma attempts_left_maps: "attempts_left st = maps_left (nv_maps st)"
  by (simp add: maps_left_def attempts_left_def pin_counter_def lookup_def)

lemma maps_left_same: "map_of (maps' ! 0) PIN_COUNTER_FIELD = map_of (maps ! 0) PIN_COUNTER_FIELD \<Longrightarrow> maps_left maps' = maps_left maps"
  by (simp add: maps_left_def attempts_left_def pin_counter_def lookup_def)

lemma maps_left_other: "differs_at h name v maps maps' \<Longrightarrow> h \<noteq> 0 \<or> name \<noteq> PIN_COUNTER_FIELD \<Longrightarrow> maps_left maps' = maps_left maps"
  by (rule maps_left_same) (auto simp: differs_at_def)

lemma maps_left_counter:
  "differs_at 0 PIN_COUNTER_FIELD (Some [c]) maps maps' \<Longrightarrow> maps_left maps' = (if c \<le> 3 then unat c else 0)"
  "differs_at 0 PIN_COUNTER_FIELD None maps maps' \<Longrightarrow> maps_left maps' = 0"
  by (simp_all add: differs_at_def maps_left_def attempts_left_def pin_counter_def lookup_def)

text \<open>The serialiser keeps the counter.\<close>

lemma maps_left_persisted:
  assumes "wally_laws w" and "\<And>k. lookup st 0 k = persisted_value w (maps ! 0) k"
  shows "attempts_left st = maps_left maps"
proof -
  have "wm_get w (maps ! 0) PIN_COUNTER_FIELD = map_of (maps ! 0) PIN_COUNTER_FIELD" using assms(1) by (simp add: wally_laws_def)
  moreover have "lookup \<lparr> nv_maps = maps, nv_media = () \<rparr> 0 PIN_COUNTER_FIELD = map_of (maps ! 0) PIN_COUNTER_FIELD" by (simp add: lookup_def)
  ultimately have "pin_counter st = pin_counter \<lparr> nv_maps = maps, nv_media = () \<rparr>"
    by (auto simp: pin_counter_def assms(2) persisted_value_def find_pin_fields(1) split: option.splits)
  then show ?thesis by (simp add: attempts_left_def maps_left_def)
qed

text \<open>At most \<open>k\<close> attempts are left, in memory and after any restart.\<close>

definition pin_inv :: "wally_api \<Rightarrow> (bytes \<Rightarrow> bytes option) \<Rightarrow> (bytes \<Rightarrow> u32) \<Rightarrow> nat \<Rightarrow> media nvs_state \<Rightarrow> bool" where
  "pin_inv w sha256 crc32 k st \<longleftrightarrow> device_ok w st \<and> maps_left (nv_maps st) \<le> k \<and> card_holds w sha256 crc32 (\<lambda>maps. maps_left maps \<le> k) st"

lemma pin_inv_save:
  assumes inv: "pin_inv w sha256 crc32 k st" and s: "store_blob (host_env w sha256 crc32) ns name data st = Some (r, st')"
    and new: "ns \<noteq> DEFAULT_NAMESPACE \<or> name \<noteq> PIN_COUNTER_FIELD \<or> (\<exists>c. data = [c] \<and> (c \<le> 3 \<longrightarrow> unat c \<le> k))"
  shows "pin_inv w sha256 crc32 k st'"
proof (cases "nvs_open ns")
  case (Inl e)
  then show ?thesis using s inv by (auto simp: store_blob_def jade_assert_def split: if_splits)
next
  case (Inr h)
  then have h: "h < 5" "h = 0 \<Longrightarrow> ns = DEFAULT_NAMESPACE" by (auto simp: nvs_open_def get_nvs_ns_def split: option.splits if_splits)
  have i: "device_ok w st" "maps_left (nv_maps st) \<le> k" "card_holds w sha256 crc32 (\<lambda>maps. maps_left maps \<le> k) st"
    using inv by (simp_all add: pin_inv_def)
  have "maps_left maps' \<le> k" if d: "differs_at h name (Some data) (nv_maps st) maps'" for maps'
  proof (cases "h \<noteq> 0 \<or> name \<noteq> PIN_COUNTER_FIELD")
    case True
    then show ?thesis using maps_left_other [OF d] i(2) by simp
  next
    case False
    then obtain c where "data = [c]" "c \<le> 3 \<longrightarrow> unat c \<le> k" using new h(2) by blast
    then show ?thesis using maps_left_counter(1) [of c "nv_maps st" maps'] d False by auto
  qed
  from i store_blob_step [OF i(1) Inr h(1), of "\<lambda>maps. maps_left maps \<le> k", OF disjI1 [OF i(2)] this s]
  show ?thesis by (simp add: pin_inv_def)
qed

lemma pin_inv_erase_key:
  assumes inv: "pin_inv w sha256 crc32 k st" and s: "erase_key (host_env w sha256 crc32) DEFAULT_NAMESPACE name st = (r, st')"
  shows "pin_inv w sha256 crc32 k st'"
proof -
  have i: "device_ok w st" "maps_left (nv_maps st) \<le> k" "card_holds w sha256 crc32 (\<lambda>maps. maps_left maps \<le> k) st"
    using inv by (simp_all add: pin_inv_def)
  have "maps_left maps' \<le> k" if d: "differs_at 0 name None (nv_maps st) maps'" for maps'
  proof (cases "name = PIN_COUNTER_FIELD")
    case True
    then show ?thesis using maps_left_counter(2) d by simp
  next
    case False
    then show ?thesis using maps_left_other [OF d] i(2) by simp
  qed
  from erase_key_step [OF i(1) nvs_open_names(1), of name "\<lambda>maps. maps_left maps \<le> k", OF _ this s] i show ?thesis by (simp add: pin_inv_def)
qed

lemma pin_inv_erase_blob:
  assumes inv: "pin_inv w sha256 crc32 k st" and s: "storage_erase_encrypted_blob (host_env w sha256 crc32) st = Some (r, st')"
  shows "pin_inv w sha256 crc32 k st'"
proof -
  obtain b st1 where e: "erase_key (host_env w sha256 crc32) DEFAULT_NAMESPACE BLOB_FIELD st = (b, st1)" by (metis prod.exhaust)
  have i1: "pin_inv w sha256 crc32 k st1" by (rule pin_inv_erase_key [OF inv e])
  show ?thesis
  proof (cases b)
    case True
    then have "snd (erase_key (host_env w sha256 crc32) DEFAULT_NAMESPACE PIN_COUNTER_FIELD st1) = st'"
      using s e by (auto simp: storage_erase_encrypted_blob_def split: prod.splits)
    then show ?thesis using pin_inv_erase_key [OF i1] by (metis prod.collapse)
  next
    case False
    then obtain r2 where "store_blob (host_env w sha256 crc32) DEFAULT_NAMESPACE PIN_COUNTER_FIELD [4] st1 = Some (r2, st')"
      using s e by (auto simp: storage_erase_encrypted_blob_def split: prod.splits bind_splits)
    from pin_inv_save [OF i1 this] show ?thesis by auto
  qed
qed

lemma decrement_step:
  assumes inv: "pin_inv w sha256 crc32 k st"
  obtains r st' where "storage_decrement_counter (host_env w sha256 crc32) st = Some (r, st')" "r \<Longrightarrow> 0 < k \<and> pin_inv w sha256 crc32 (k - 1) st'"
    "\<not> r \<Longrightarrow> pin_inv w sha256 crc32 k st' \<and> lookup st' 0 BLOB_FIELD = None"
proof -
  let ?E = "host_env w sha256 crc32"
  have dev: "device_ok w st" and left: "maps_left (nv_maps st) \<le> k" using inv by (simp_all add: pin_inv_def)
  have ok: "nvs_ok ?E st" by (rule device_nvs_ok [OF dev])
  obtain r st' where d: "storage_decrement_counter ?E st = Some (r, st')" "r \<Longrightarrow> attempts_left st' + 1 = attempts_left st"
    "\<not> r \<Longrightarrow> \<not> blob_held st'" using decrement_effect [OF ok] by metis
  have c: "storage_get_counter ?E st = Some (pin_counter st)" by (rule storage_get_counter_eq [OF ok])
  define low where "low = pin_counter st - 1"
  consider s1 where "\<not> r" "storage_erase_encrypted_blob ?E st = Some (s1, st')"
    | s1 st1 where "pin_counter st \<noteq> 0" "pin_counter st \<le> 3" "store_blob ?E DEFAULT_NAMESPACE PIN_COUNTER_FIELD [low] st = Some (s1, st1)"
        "if s1 then r \<and> st' = st1 else \<not> r \<and> (\<exists>s2. storage_erase_encrypted_blob ?E st1 = Some (s2, st'))"
    using d(1) c by (auto simp: storage_decrement_counter_def low_def split: if_splits bind_splits)
  then show thesis
  proof cases
    case (1 s1)
    then show thesis using that [OF d(1)] pin_inv_erase_blob [OF inv] d(3) by (auto simp: blob_held_def)
  next
    case (2 s1 st1)
    have "attempts_left st = unat (pin_counter st)" using 2(2) by (simp add: attempts_left_def)
    moreover have "unat low < unat (pin_counter st)" using 2(1) by (simp add: low_def word_less_nat_alt [symmetric] word_gt_0) (simp add: word_less_nat_alt unat_gt_0 unat_minus_one)
    ultimately have u: "unat low \<le> k - 1" "unat low \<le> k" "0 < k" using left by (simp_all add: attempts_left_maps [symmetric])
    have i1: "pin_inv w sha256 crc32 k st1" by (rule pin_inv_save [OF inv 2(3)]) (use u in auto)
    show thesis
    proof (cases s1)
      case True
      then have r: r "st' = st1" using 2(4) by auto
      have new: "differs_at 0 PIN_COUNTER_FIELD (Some [low]) (nv_maps st) maps' \<Longrightarrow> maps_left maps' \<le> k - 1" for maps'
        using maps_left_counter(1) u(1) by auto
      have "maps_left (nv_maps st) \<le> k - 1 \<or> s1" using True by simp
      from store_blob_step [where P = "\<lambda>maps. maps_left maps \<le> k - 1", OF dev nvs_open_names(1) _ this new 2(3)] True
      have "pin_inv w sha256 crc32 (k - 1) st1" by (simp add: pin_inv_def)
      then show thesis using that [OF d(1)] r u(3) by auto
    next
      case False
      then show thesis using that [OF d(1)] 2(4) pin_inv_erase_blob [OF i1] d(3) by (auto simp: blob_held_def)
    qed
  qed
qed

text \<open>What happens between two restorations of the counter: an attempt, a restart (the files are read
  again, then \<open>storage_init\<close> runs), or another field being saved. Every event comes with the
  outcomes of the system calls it meets; the device uses up \<open>md_ios\<close>.\<close>

datatype pin_event = Attempt | Restart slot_io slot_io "host_io list" | Save bytes bytes bytes

definition restart ::
  "wally_api \<Rightarrow> (bytes \<Rightarrow> bytes option) \<Rightarrow> (bytes \<Rightarrow> u32) \<Rightarrow> slot_io \<Rightarrow> slot_io \<Rightarrow> host_io list \<Rightarrow> media nvs_state \<Rightarrow> media nvs_state" where
  "restart w sha256 crc32 io_a io_b ios st =
     (let st = reboot w sha256 crc32 io_a io_b (reopened (nv_media st)) (md_disk (nv_media st)) in
      snd (storage_init (host_env w sha256 crc32) (st \<lparr> nv_media := nv_media st \<lparr> md_ios := ios \<rparr> \<rparr>)))"

fun pin_run ::
  "wally_api \<Rightarrow> (bytes \<Rightarrow> bytes option) \<Rightarrow> (bytes \<Rightarrow> u32) \<Rightarrow> pin_event list \<Rightarrow> media nvs_state \<Rightarrow> (bool list \<times> media nvs_state) option" where
  "pin_run w sha256 crc32 [] st = Some ([], st)"
| "pin_run w sha256 crc32 (Attempt # es) st = do {
     (r, st) \<leftarrow> storage_decrement_counter (host_env w sha256 crc32) st;
     (rs, st) \<leftarrow> pin_run w sha256 crc32 es st;
     Some (r # rs, st) }"
| "pin_run w sha256 crc32 (Restart io_a io_b ios # es) st = pin_run w sha256 crc32 es (restart w sha256 crc32 io_a io_b ios st)"
| "pin_run w sha256 crc32 (Save ns name data # es) st = do {
     (_, st) \<leftarrow> store_blob (host_env w sha256 crc32) ns name data st;
     pin_run w sha256 crc32 es st }"

text \<open>A restart reads both files without an error; what is saved is neither the counter nor the seed,
  and is not empty (\<open>store_blob\<close> asserts that).\<close>

fun event_ok :: "pin_event \<Rightarrow> bool" where
  "event_ok Attempt \<longleftrightarrow> True"
| "event_ok (Restart io_a io_b ios) \<longleftrightarrow> io_reads io_a \<and> io_reads io_b"
| "event_ok (Save ns name data) \<longleftrightarrow> data \<noteq> [] \<and> (ns = DEFAULT_NAMESPACE \<longrightarrow> name \<noteq> PIN_COUNTER_FIELD \<and> name \<noteq> BLOB_FIELD)"

lemma card_holds_ios: "card_holds w sha256 crc32 P (st \<lparr> nv_media := nv_media st \<lparr> md_ios := ios \<rparr> \<rparr>) = card_holds w sha256 crc32 P st"
  by (cases "md_store (nv_media st)") (simp_all add: card_holds_def)

lemma pin_inv_restart:
  assumes inv: "pin_inv w sha256 crc32 k st" and sha: "sha256_len sha256" and io: "io_reads io_a" "io_reads io_b"
  shows "pin_inv w sha256 crc32 k (restart w sha256 crc32 io_a io_b ios st)"
proof -
  have i: "device_ok w st" "card_holds w sha256 crc32 (\<lambda>maps. maps_left maps \<le> k) st" using inv by (simp_all add: pin_inv_def)
  define st2 where "st2 = reboot w sha256 crc32 io_a io_b (reopened (nv_media st)) (md_disk (nv_media st))"
  obtain maps where m: "maps_left maps \<le> k" "device_ok w st2" "card_holds w sha256 crc32 (\<lambda>maps. maps_left maps \<le> k) st2"
    "\<And>k. lookup st2 0 k = persisted_value w (maps ! 0) k" using reboot_step [OF i(1) sha i(2) io, folded st2_def] by metis
  have "maps_left (nv_maps st2) = maps_left maps"
    using maps_left_persisted [OF _ m(4)] m(2) by (simp add: attempts_left_maps device_ok_def)
  then have "pin_inv w sha256 crc32 k (st2 \<lparr> nv_media := nv_media st2 \<lparr> md_ios := ios \<rparr> \<rparr>)"
    using m(1-3) by (simp add: pin_inv_def card_holds_ios) (simp add: device_ok_def keys_ok_def media_ok_def)
  from pin_inv_erase_key [OF this] show ?thesis
    unfolding restart_def Let_def st2_def [symmetric] storage_init_def by (auto split: prod.split)
qed

definition attempts :: "pin_event list \<Rightarrow> nat" where
  "attempts es = count_list es Attempt"

lemma pin_run_effect:
  assumes "sha256_len sha256"
  shows "pin_inv w sha256 crc32 k st \<Longrightarrow> list_all event_ok es \<Longrightarrow> \<exists>rs st' k'. pin_run w sha256 crc32 es st = Some (rs, st') \<and>
     length rs = attempts es \<and> count_list rs True + k' \<le> k \<and> pin_inv w sha256 crc32 k' st' \<and>
     (es \<noteq> [] \<and> last es = Attempt \<and> \<not> last rs \<longrightarrow> lookup st' 0 BLOB_FIELD = None)"
proof (induction es arbitrary: k st)
  case Nil
  then show ?case by (auto simp: attempts_def)
next
  case (Cons e es)
  have es: "list_all event_ok es" using Cons.prems(2) by simp
  show ?case
  proof (cases e)
    case Attempt
    obtain r st1 where d: "storage_decrement_counter (host_env w sha256 crc32) st = Some (r, st1)" "r \<Longrightarrow> 0 < k \<and> pin_inv w sha256 crc32 (k - 1) st1"
      "\<not> r \<Longrightarrow> pin_inv w sha256 crc32 k st1 \<and> lookup st1 0 BLOB_FIELD = None" using decrement_step [OF Cons.prems(1)] by metis
    define k1 where "k1 = (if r then k - 1 else k)"
    have k1: "pin_inv w sha256 crc32 k1 st1" "(if r then 1 else 0) + k1 \<le> k" using d(2,3) by (auto simp: k1_def)
    obtain rs st' k' where run: "pin_run w sha256 crc32 es st1 = Some (rs, st')" "length rs = attempts es" "count_list rs True + k' \<le> k1"
      "pin_inv w sha256 crc32 k' st'" "es \<noteq> [] \<and> last es = Attempt \<and> \<not> last rs \<longrightarrow> lookup st' 0 BLOB_FIELD = None"
      using Cons.IH [OF k1(1) es] by blast
    have "rs \<noteq> []" if "es \<noteq> []" "last es = Attempt"
    proof -
      have "Attempt \<in> set es" using that by (metis last_in_set)
      then show ?thesis using run(2) by (auto simp: attempts_def count_list_0_iff)
    qed
    moreover have "st' = st1" if "es = []" using run(1) that by simp
    moreover have "rs = []" if "es = []" using run(1) that by simp
    ultimately show ?thesis
      using d(1,3) run k1(2) by (intro exI [of _ "r # rs"] exI [of _ st'] exI [of _ k']) (auto simp: Attempt attempts_def)
  next
    case (Restart io_a io_b ios)
    have "pin_inv w sha256 crc32 k (restart w sha256 crc32 io_a io_b ios st)"
      by (rule pin_inv_restart [OF Cons.prems(1) assms]) (use Cons.prems(2) Restart in auto)
    from Cons.IH [OF this es] show ?thesis by (auto simp: Restart attempts_def split: if_splits)
  next
    case (Save ns name data)
    have ok: "data \<noteq> []" "ns = DEFAULT_NAMESPACE \<longrightarrow> name \<noteq> PIN_COUNTER_FIELD" using Cons.prems(2) Save by auto
    have "store_blob (host_env w sha256 crc32) ns name data st \<noteq> None" using ok(1) by (auto simp: store_blob_def split: sum.split prod.split)
    then obtain r st1 where s: "store_blob (host_env w sha256 crc32) ns name data st = Some (r, st1)" by auto
    have "pin_inv w sha256 crc32 k st1" by (rule pin_inv_save [OF Cons.prems(1) s]) (use ok in auto)
    from Cons.IH [OF this es] show ?thesis by (auto simp: Save s attempts_def split: if_splits)
  qed
qed

text \<open>An erasure of the seed that reports success is one after every restart as well.\<close>

lemma erase_blob_honest:
  assumes dev: "device_ok w st" and sha: "sha256_len sha256" and e: "storage_erase_encrypted_blob (host_env w sha256 crc32) st = Some (True, st')"
    and io: "io_reads io_a" "io_reads io_b"
  shows "lookup (restart w sha256 crc32 io_a io_b ios st') 0 BLOB_FIELD = None"
proof -
  let ?E = "host_env w sha256 crc32" and ?P = "\<lambda>maps :: wmap list. map_of (maps ! 0) BLOB_FIELD = None"
  obtain b st1 where e1: "erase_key ?E DEFAULT_NAMESPACE BLOB_FIELD st = (b, st1)" by (metis prod.exhaust)
  obtain b2 st2 where e2: "erase_key ?E DEFAULT_NAMESPACE PIN_COUNTER_FIELD st1 = (b2, st2)" by (metis prod.exhaust)
  have b: b "st' = st2" using e e1 e2 by (auto simp: storage_erase_encrypted_blob_def split: if_splits bind_splits)
  note s1 = erase_key_step [where P = ?P, OF dev nvs_open_names(1) _ _ e1]
  have p1: "device_ok w st1" "?P (nv_maps st1)" "card_holds w sha256 crc32 ?P st1"
    using s1 b(1) by (simp_all add: differs_at_def)
  have keep: "?P maps'" if "differs_at 0 PIN_COUNTER_FIELD None (nv_maps st1) maps'" for maps'
    using that p1(2) pin_fields_differ by (auto simp: differs_at_def)
  note s2 = erase_key_step [where P = ?P, OF p1(1) nvs_open_names(1) _ keep e2]
  have p2: "device_ok w st'" "card_holds w sha256 crc32 ?P st'" using s2 p1(3) b(2) by simp_all
  define st3 where "st3 = reboot w sha256 crc32 io_a io_b (reopened (nv_media st')) (md_disk (nv_media st'))"
  obtain maps where m: "?P maps" "device_ok w st3" "\<And>k. lookup st3 0 k = persisted_value w (maps ! 0) k"
    using reboot_step [OF p2(1) sha p2(2) io, folded st3_def] by metis
  have none: "lookup st3 0 BLOB_FIELD = None"
    using m(1,2) unfolding m(3) by (simp add: persisted_value_def device_ok_def wally_laws_def split: option.split)
  let ?st = "st3 \<lparr> nv_media := nv_media st3 \<lparr> md_ios := ios \<rparr> \<rparr>"
  obtain b4 st4 where e4: "erase_key ?E DEFAULT_NAMESPACE CLICK_EVENT_FIELD ?st = (b4, st4)" by (metis prod.exhaust)
  have "nvs_ok ?E ?st" using m(2) by (simp add: nvs_ok_def device_ok_def host_env_def)
  from erase_key_effect(1) [OF this nvs_open_names(1) _ e4] have "lookup st4 0 BLOB_FIELD = lookup ?st 0 BLOB_FIELD"
    by (simp add: same_but_other field_defs)
  then show ?thesis using none e4 unfolding restart_def Let_def st3_def [symmetric] storage_init_def by (simp add: lookup_def)
qed

lemma restored_inv:
  assumes "device_ok w st0" and "storage_restore_counter (host_env w sha256 crc32) st0 = Some (True, st)"
  shows "pin_inv w sha256 crc32 3 st"
proof -
  have new: "maps_left maps \<le> 3" for maps unfolding maps_left_def by (rule attempts_left_le)
  from store_blob_step [where P = "\<lambda>maps. maps_left maps \<le> 3", OF assms(1) nvs_open_names(1) _ _ _ assms(2) [unfolded storage_restore_counter_def]]
  show ?thesis using new by (simp add: pin_inv_def)
qed

section \<open>Properties\<close>

text \<open>C3. Three attempts, whatever happens to the card: after the pin counter was restored, in any
  series of attempts, restarts and other saves, with any outcome of every write (failed, cut off at
  any byte, reported failed but complete), at most three attempts are let through in all, and the
  series never aborts. An attempt that is refused leaves no encrypted seed in the store in memory.
  With failing writes the seed can still be on the card afterwards, and a restart can bring it
  back, but not a fourth attempt; and whenever \<open>storage_erase_encrypted_blob\<close> does report success,
  at any point of such a series, no restart finds the seed again, whatever became of its second
  write. Restarts are assumed to read both files without an error.\<close>

theorem pin_attempts_bounded:
  assumes "device_ok w st0" and "sha256_len sha256" and "storage_restore_counter (host_env w sha256 crc32) st0 = Some (True, st)"
    and "list_all event_ok es"
  shows "\<exists>rs st'. pin_run w sha256 crc32 es st = Some (rs, st') \<and> length rs = attempts es \<and> count_list rs True \<le> 3 \<and>
     (es \<noteq> [] \<and> last es = Attempt \<and> \<not> last rs \<longrightarrow> lookup st' 0 BLOB_FIELD = None) \<and>
     (\<forall>st'' io_a io_b ios. storage_erase_encrypted_blob (host_env w sha256 crc32) st' = Some (True, st'') \<and> io_reads io_a \<and> io_reads io_b \<longrightarrow>
        lookup (restart w sha256 crc32 io_a io_b ios st'') 0 BLOB_FIELD = None)"
proof -
  obtain rs st' k' where run: "pin_run w sha256 crc32 es st = Some (rs, st')" "length rs = attempts es" "count_list rs True + k' \<le> 3"
    "pin_inv w sha256 crc32 k' st'" "es \<noteq> [] \<and> last es = Attempt \<and> \<not> last rs \<longrightarrow> lookup st' 0 BLOB_FIELD = None"
    using pin_run_effect [OF assms(2) restored_inv [OF assms(1,3)] assms(4)] by blast
  have dev: "device_ok w st'" using run(4) by (simp add: pin_inv_def)
  show ?thesis using run(1-3,5) erase_blob_honest [OF dev assms(2)] by (intro exI [of _ rs] exI [of _ st']) auto
qed

theorem pin_attempts_bounded_witness:
  "\<exists>st rs st'. storage_restore_counter (host_env wally_alist demo_sha256 (\<lambda>_. 7)) demo_device = Some (True, st)
     \<and> pin_run wally_alist demo_sha256 (\<lambda>_. 7) [Attempt, Attempt, Restart io_fine io_fine [], Attempt, Attempt] st = Some (rs, st')
     \<and> length rs = 4 \<and> count_list rs True \<le> 3"
proof -
  obtain st where st: "storage_restore_counter (host_env wally_alist demo_sha256 (\<lambda>_. 7)) demo_device = Some (True, st)"
    using demo_counter_stored [of 3 "\<lambda>_. 7"] by (auto simp: storage_restore_counter_def)
  have "list_all event_ok [Attempt, Attempt, Restart io_fine io_fine [], Attempt, Attempt]" by simp
  from pin_attempts_bounded [OF demo_device_ok(1) demo_sha256_len st this] st show ?thesis by (auto simp: attempts_def)
qed

end
