(* ===== verification/Input_Gate.thy ===== *)
theory Input_Gate
  imports Jade_Prelude
begin

text \<open>
  \<open>pijade/host/input_gate.h\<close> and its callers in \<open>pijade/host/pijade_host.c\<close>: the rule that discards
  an acting button press when the panel was not yet showing what the press would act on.

  The first part is the gate itself, a record and its four operations at their machine widths. The
  second is the system around it as a step relation: Jade's tasks post jobs, the gui task drains
  them, replaces the screen and flushes frames, and the input thread hands over a press and later,
  when it gets the panel lock, publishes its mark. Any interleaving of these is a run. Job counts
  are unbounded there and reach the gate modulo \<open>2^32\<close>, as in the code; the clock is the host's
  \<open>uint64_t\<close>. The frames written and the marks published are recorded as ghost state for the
  theorems, which say what an allowed press knows about the panel and that the gate does not
  block.
\<close>

section \<open>The gate\<close>

definition INPUT_GATE_SETTLE_TIMEOUT_NS :: u64 where "INPUT_GATE_SETTLE_TIMEOUT_NS = 1000000000"

datatype input_gate_verdict = INPUT_GATE_ALLOW | INPUT_GATE_DROP_NO_FRAME | INPUT_GATE_DROP_OLDER
  | INPUT_GATE_DROP_PENDING | INPUT_GATE_DROP_SCREEN

record input_gate =
  pending_jobs :: u32
  pending_since_ns :: u64
  have_pending :: bool
  active_start_ns :: u64
  active_gen :: u32
  active_drained :: u32
  have_active :: bool
  completed_drained :: u32
  drain_advanced_ns :: u64
  drain_advanced_gen :: u32
  have_completed :: bool
  settled_ns :: u64
  settled_gen :: u32
  have_settled :: bool
  last_start_ns :: u64
  last_end_ns :: u64

definition gate_zero :: input_gate where
  "gate_zero = \<lparr> pending_jobs = 0, pending_since_ns = 0, have_pending = False, active_start_ns = 0, active_gen = 0,
     active_drained = 0, have_active = False, completed_drained = 0, drain_advanced_ns = 0, drain_advanced_gen = 0,
     have_completed = False, settled_ns = 0, settled_gen = 0, have_settled = False, last_start_ns = 0, last_end_ns = 0 \<rparr>"

text \<open>\<open>(int32_t)(a - b) >= 0\<close>: \<open>a\<close> has reached \<open>b\<close> on a counter that wraps.\<close>

definition reached :: "u32 \<Rightarrow> u32 \<Rightarrow> bool" where
  "reached a b \<longleftrightarrow> 0 \<le> sint (a - b)"

definition input_gate_input_dispatched :: "input_gate \<Rightarrow> u64 \<Rightarrow> u32 \<Rightarrow> input_gate" where
  "input_gate_input_dispatched gate dispatch_ns posted =
     (let gate = gate \<lparr> pending_jobs := posted, pending_since_ns := dispatch_ns, have_pending := True \<rparr> in
      if have_completed gate \<and> reached (completed_drained gate) posted then
        let gate = gate \<lparr> have_pending := False \<rparr> in
        if \<not> have_settled gate \<or> drain_advanced_ns gate > settled_ns gate then
          gate \<lparr> settled_ns := drain_advanced_ns gate, settled_gen := drain_advanced_gen gate, have_settled := True \<rparr>
        else gate
      else gate)"

definition input_gate_write_begin :: "input_gate \<Rightarrow> u64 \<Rightarrow> u32 \<Rightarrow> u32 \<Rightarrow> input_gate" where
  "input_gate_write_begin gate start_ns screen_gen drained =
     gate \<lparr> active_start_ns := start_ns, active_gen := screen_gen, active_drained := drained, have_active := True \<rparr>"

definition input_gate_write_end :: "input_gate \<Rightarrow> u64 \<Rightarrow> input_gate" where
  "input_gate_write_end gate end_ns =
     (let gate = gate \<lparr> last_start_ns := active_start_ns gate, last_end_ns := end_ns \<rparr>;
          gate = (if \<not> have_completed gate \<or> active_drained gate \<noteq> completed_drained gate then
              gate \<lparr> completed_drained := active_drained gate, drain_advanced_ns := end_ns,
                drain_advanced_gen := active_gen gate, have_completed := True \<rparr>
            else gate);
          meets_pending = (have_pending gate \<and> reached (active_drained gate) (pending_jobs gate));
          new_screen = (\<not> have_settled gate \<or> active_gen gate \<noteq> settled_gen gate);
          gate = (if meets_pending \<or> new_screen then
              gate \<lparr> settled_ns := end_ns, settled_gen := active_gen gate, have_settled := True \<rparr>
            else gate);
          gate = (if meets_pending then gate \<lparr> have_pending := False \<rparr> else gate) in
      gate \<lparr> have_active := False, active_start_ns := 0 \<rparr>)"

definition input_gate_judge :: "input_gate \<Rightarrow> u64 \<Rightarrow> u32 \<Rightarrow> input_gate_verdict" where
  "input_gate_judge gate press_ns current_gen =
     (if last_end_ns gate = - 1 \<or> \<not> have_settled gate then INPUT_GATE_DROP_NO_FRAME
      else if press_ns < settled_ns gate then INPUT_GATE_DROP_OLDER
      else if have_pending gate \<and> press_ns < pending_since_ns gate + INPUT_GATE_SETTLE_TIMEOUT_NS then INPUT_GATE_DROP_PENDING
      else if current_gen \<noteq> settled_gen gate then INPUT_GATE_DROP_SCREEN
      else INPUT_GATE_ALLOW)"

fun input_gate_verdict_name :: "input_gate_verdict \<Rightarrow> string" where
  "input_gate_verdict_name INPUT_GATE_ALLOW = ''allow''"
| "input_gate_verdict_name INPUT_GATE_DROP_NO_FRAME = ''no-frame''"
| "input_gate_verdict_name INPUT_GATE_DROP_OLDER = ''older''"
| "input_gate_verdict_name INPUT_GATE_DROP_PENDING = ''pending''"
| "input_gate_verdict_name INPUT_GATE_DROP_SCREEN = ''screen''"

definition input_gate_last_write_us :: "input_gate \<Rightarrow> u64" where
  "input_gate_last_write_us gate =
     (if last_end_ns gate = - 1 \<or> last_end_ns gate < last_start_ns gate then 0
      else (last_end_ns gate - last_start_ns gate) div 1000)"

section \<open>Its callers\<close>

text \<open>The part of the host that touches the gate: the gate and the latched failure flag, both under
  the panel lock. A clock reading is \<open>None\<close> when \<open>clock_gettime\<close> fails.\<close>

record panel_state =
  ps_gate :: input_gate
  ps_failed :: bool

definition on_display_flush_panel ::
  "u64 option \<Rightarrow> u64 option \<Rightarrow> bool \<Rightarrow> u32 \<Rightarrow> u32 \<Rightarrow> panel_state \<Rightarrow> panel_state" where
  "on_display_flush_panel start end_reading frame_written screen_gen drained ps =
     (case start of
        None \<Rightarrow> ps \<lparr> ps_failed := True \<rparr>
      | Some s \<Rightarrow>
          let gate = input_gate_write_begin (ps_gate ps) s screen_gen drained;
              gate = input_gate_write_end gate (case end_reading of Some e \<Rightarrow> e | None \<Rightarrow> - 1) in
          ps \<lparr> ps_gate := gate, ps_failed := (ps_failed ps \<or> \<not> frame_written \<or> end_reading = None) \<rparr>)"

datatype button_event = BUTTON_NONE | BUTTON_ERROR | BUTTON_PREV | BUTTON_NEXT | BUTTON_SELECT | BUTTON_UP | BUTTON_DOWN
  | BUTTON_KEY1 | BUTTON_KEY2 | BUTTON_KEY3

datatype libjade_input = LIBJADE_INPUT_PREV | LIBJADE_INPUT_NEXT | LIBJADE_INPUT_CLICK | LIBJADE_INPUT_UP
  | LIBJADE_INPUT_DOWN | LIBJADE_INPUT_FIRST | LIBJADE_INPUT_ALT

definition is_action :: "button_event \<Rightarrow> bool" where
  "is_action event \<longleftrightarrow> event = BUTTON_SELECT \<or> event = BUTTON_KEY2 \<or> event = BUTTON_KEY3"

fun dispatch_input :: "button_event \<Rightarrow> libjade_input option" where
  "dispatch_input BUTTON_PREV = Some LIBJADE_INPUT_PREV"
| "dispatch_input BUTTON_NEXT = Some LIBJADE_INPUT_NEXT"
| "dispatch_input BUTTON_SELECT = Some LIBJADE_INPUT_CLICK"
| "dispatch_input BUTTON_UP = Some LIBJADE_INPUT_UP"
| "dispatch_input BUTTON_DOWN = Some LIBJADE_INPUT_DOWN"
| "dispatch_input BUTTON_KEY1 = Some LIBJADE_INPUT_FIRST"
| "dispatch_input BUTTON_KEY2 = Some LIBJADE_INPUT_CLICK"
| "dispatch_input BUTTON_KEY3 = Some LIBJADE_INPUT_ALT"
| "dispatch_input BUTTON_NONE = None"
| "dispatch_input BUTTON_ERROR = None"

definition press_verdict :: "input_gate \<Rightarrow> button_event \<Rightarrow> u64 \<Rightarrow> u32 \<Rightarrow> input_gate_verdict" where
  "press_verdict gate event timestamp_ns current_gen =
     (if is_action event then input_gate_judge gate timestamp_ns current_gen else INPUT_GATE_ALLOW)"

text \<open>After \<open>libjade_input\<close> has returned: the mark is published unless the press posted nothing.\<close>

definition publish_mark :: "u32 \<Rightarrow> u32 \<Rightarrow> u64 option \<Rightarrow> u64 \<Rightarrow> panel_state \<Rightarrow> panel_state" where
  "publish_mark jobs_before jobs_after dispatch timestamp_ns ps =
     (if jobs_after \<noteq> jobs_before then
        ps \<lparr> ps_gate := input_gate_input_dispatched (ps_gate ps) (case dispatch of Some t \<Rightarrow> t | None \<Rightarrow> timestamp_ns) jobs_after \<rparr>
      else ps)"

section \<open>The system around it\<close>

record frame =
  f_gen :: u32
  f_drained :: nat
  f_end :: u64

text \<open>\<open>w_mark\<close> is a press handed to Jade whose mark is not published yet, with the two readings of the
  job count around the call. \<open>w_frames\<close>, newest first, and \<open>w_marks\<close> are the ghost state.\<close>

record world =
  w_posted :: nat
  w_drained :: nat
  w_screen :: u32
  w_panel :: panel_state
  w_mark :: "(nat \<times> nat) option"
  w_frames :: "frame list"
  w_marks :: "nat list"

definition world_init :: "u32 \<Rightarrow> world" where
  "world_init screen = \<lparr> w_posted = 0, w_drained = 0, w_screen = screen, w_panel = \<lparr> ps_gate = gate_zero, ps_failed = False \<rparr>,
     w_mark = None, w_frames = [], w_marks = [] \<rparr>"

definition last_drained :: "frame list \<Rightarrow> nat" where
  "last_drained fs = (case fs of [] \<Rightarrow> 0 | f # _ \<Rightarrow> f_drained f)"

definition last_end :: "frame list \<Rightarrow> u64" where
  "last_end fs = (case fs of [] \<Rightarrow> 0 | f # _ \<Rightarrow> f_end f)"

text \<open>What the 32-bit comparisons rely on: fewer than \<open>2^31\<close> jobs are outstanding at any time.\<close>

definition few_jobs :: "world \<Rightarrow> bool" where
  "few_jobs w \<longleftrightarrow> w_posted w < last_drained (w_frames w) + 2 ^ 31 \<and>
     (case w_mark w of None \<Rightarrow> True | Some (b, a) \<Rightarrow> w_drained w < a + 2 ^ 31 \<and> a < b + 2 ^ 31)"

inductive system_step :: "world \<Rightarrow> world \<Rightarrow> bool" where
  post: "few_jobs w' \<Longrightarrow> w' = w \<lparr> w_posted := Suc (w_posted w) \<rparr> \<Longrightarrow> system_step w w'"
| drain: "w_drained w < w_posted w \<Longrightarrow> few_jobs w' \<Longrightarrow> w' = w \<lparr> w_drained := Suc (w_drained w) \<rparr> \<Longrightarrow> system_step w w'"
| swap: "system_step w (w \<lparr> w_screen := screen \<rparr>)"
| flush: "last_end (w_frames w) < e \<Longrightarrow> e \<noteq> - 1 \<Longrightarrow>
    system_step w (w \<lparr> w_panel := on_display_flush_panel (Some s) (Some e) True (w_screen w) (of_nat (w_drained w)) (w_panel w),
      w_frames := \<lparr> f_gen = w_screen w, f_drained = w_drained w, f_end = e \<rparr> # w_frames w \<rparr>)"
| fail: "start = None \<or> end_reading = None \<or> \<not> frame_written \<Longrightarrow>
    system_step w (w \<lparr> w_panel := on_display_flush_panel start end_reading frame_written (w_screen w) (of_nat (w_drained w)) (w_panel w) \<rparr>)"
| press: "w_mark w = None \<Longrightarrow> b \<le> w_posted w \<Longrightarrow> few_jobs w' \<Longrightarrow> w' = w \<lparr> w_mark := Some (b, w_posted w) \<rparr> \<Longrightarrow> system_step w w'"
| publish: "w_mark w = Some (b, a) \<Longrightarrow>
    system_step w (w \<lparr> w_panel := publish_mark (of_nat b) (of_nat a) dispatch timestamp_ns (w_panel w), w_mark := None,
      w_marks := (if a = b then w_marks w else a # w_marks w) \<rparr>)"

inductive reachable :: "world \<Rightarrow> bool" where
  start: "reachable (world_init screen)"
| step: "reachable w \<Longrightarrow> system_step w w' \<Longrightarrow> reachable w'"

section \<open>The invariant\<close>

lemma reached_iff:
  assumes "a < b + 2 ^ 31" and "b < a + 2 ^ 31"
  shows "reached (of_nat a) (of_nat b) \<longleftrightarrow> b \<le> a"
proof -
  have e: "of_nat a - of_nat b = (of_int (int a - int b) :: u32)" by simp
  have "signed_take_bit 31 (int a - int b) = int a - int b"
    using assms by (intro signed_take_bit_int_eq_self) auto
  then have "sint (of_int (int a - int b) :: u32) = int a - int b" by (simp only: signed_of_int) simp
  then show ?thesis unfolding reached_def e by simp
qed

lemma of_nat_u32_eq:
  assumes "a \<le> b" and "b < a + 2 ^ 31"
  shows "(of_nat a :: u32) = of_nat b \<longleftrightarrow> a = b"
proof
  assume "(of_nat a :: u32) = of_nat b"
  then have "reached (of_nat a) (of_nat b)" by (simp add: reached_def)
  then show "a = b" using reached_iff [of a b] assms by simp
qed simp

definition history_ok :: "frame list \<Rightarrow> bool" where
  "history_ok fs \<longleftrightarrow> sorted_wrt (\<lambda>f g. f_end g < f_end f \<and> f_drained g \<le> f_drained f) fs \<and> (\<forall>f\<in>set fs. f_end f \<noteq> - 1)"

definition completed_at :: "input_gate \<Rightarrow> frame list \<Rightarrow> frame \<Rightarrow> frame list \<Rightarrow> bool" where
  "completed_at g new c old \<longleftrightarrow> (\<forall>f\<in>set new. f_drained f = f_drained c) \<and> completed_drained g = of_nat (f_drained c) \<and>
     drain_advanced_ns g = f_end c \<and> drain_advanced_gen g = f_gen c"

definition settled_at :: "input_gate \<Rightarrow> nat list \<Rightarrow> frame list \<Rightarrow> frame \<Rightarrow> frame list \<Rightarrow> bool" where
  "settled_at g marks new s old \<longleftrightarrow> settled_ns g = f_end s \<and> settled_gen g = f_gen s \<and> (\<forall>f\<in>set new. f_gen f = f_gen s) \<and>
     (have_pending g \<or> (\<forall>m\<in>set marks. m \<le> f_drained s))"

definition gate_ok :: "input_gate \<Rightarrow> frame list \<Rightarrow> nat list \<Rightarrow> bool" where
  "gate_ok g fs marks \<longleftrightarrow> last_end_ns g = last_end fs \<and>
     have_completed g = (fs \<noteq> []) \<and> (fs \<noteq> [] \<longrightarrow> (\<exists>new c old. fs = new @ c # old \<and> completed_at g new c old)) \<and>
     have_settled g = (fs \<noteq> []) \<and> (fs \<noteq> [] \<longrightarrow> (\<exists>new s old. fs = new @ s # old \<and> settled_at g marks new s old)) \<and>
     (fs = [] \<longrightarrow> have_pending g \<or> marks = []) \<and>
     (have_pending g \<longrightarrow> (\<exists>m\<in>set marks. pending_jobs g = of_nat m \<and> (\<forall>m'\<in>set marks. m' \<le> m) \<and> last_drained fs < m))"

definition counts_ok :: "world \<Rightarrow> bool" where
  "counts_ok w \<longleftrightarrow> few_jobs w \<and> last_drained (w_frames w) \<le> w_drained w \<and> w_drained w \<le> w_posted w \<and>
     (\<forall>m\<in>set (w_marks w). m \<le> w_posted w) \<and>
     (case w_mark w of None \<Rightarrow> True | Some (b, a) \<Rightarrow> b \<le> a \<and> a \<le> w_posted w \<and> (\<forall>m\<in>set (w_marks w). m \<le> a))"

definition world_ok :: "world \<Rightarrow> bool" where
  "world_ok w \<longleftrightarrow> counts_ok w \<and> history_ok (w_frames w) \<and>
     (\<not> ps_failed (w_panel w) \<longrightarrow> gate_ok (ps_gate (w_panel w)) (w_frames w) (w_marks w))"

lemma last_drained_max: "history_ok fs \<Longrightarrow> f \<in> set fs \<Longrightarrow> f_drained f \<le> last_drained fs"
  by (cases fs) (auto simp: history_ok_def last_drained_def)

lemma split_order:
  assumes "history_ok fs" and "fs = new @ s # old" and "fs = new' @ c # old'"
  shows "f_end s < f_end c \<Longrightarrow> c \<in> set new \<and> set new' \<subseteq> set new" and "\<not> f_end s < f_end c \<Longrightarrow> f_drained c \<le> f_drained s"
proof -
  have *: "f_end g < f_end f \<and> f_drained g \<le> f_drained f" if "fs = a @ f # b" "g \<in> set b" for f g a b
    using assms(1) that by (simp add: history_ok_def sorted_wrt_append)
  have "new @ s # old = new' @ c # old'" using assms(2,3) by simp
  then obtain us where "new = new' @ us \<and> us @ s # old = c # old' \<or> new @ us = new' \<and> s # old = us @ c # old'"
    unfolding append_eq_append_conv2 by blast
  then have "c \<in> set new \<and> set new' \<subseteq> set new \<and> s \<in> set old' \<or> s = c \<or> c \<in> set old" by (cases us) auto
  then show "f_end s < f_end c \<Longrightarrow> c \<in> set new \<and> set new' \<subseteq> set new" and "\<not> f_end s < f_end c \<Longrightarrow> f_drained c \<le> f_drained s"
    using * [OF assms(2)] * [OF assms(3)] by fastforce+
qed

lemma init_ok: "world_ok (world_init screen)"
  by (simp add: world_ok_def counts_ok_def few_jobs_def history_ok_def gate_ok_def world_init_def gate_zero_def last_drained_def last_end_def)

lemma flush_gate_ok:
  assumes ok: "gate_ok g fs marks" and h: "history_ok fs" and n: "last_drained fs \<le> n" "n < last_drained fs + 2 ^ 31"
    and m: "\<And>m. m \<in> set marks \<Longrightarrow> m < last_drained fs + 2 ^ 31"
  shows "gate_ok (input_gate_write_end (input_gate_write_begin g s screen (of_nat n)) e) (\<lparr> f_gen = screen, f_drained = n, f_end = e \<rparr> # fs) marks"
    (is "gate_ok ?g (?f # fs) marks")
proof -
  have meets: "have_pending g \<Longrightarrow> pending_jobs g = of_nat p \<Longrightarrow> p \<in> set marks \<Longrightarrow> last_drained fs < p \<Longrightarrow>
      reached (of_nat n) (pending_jobs g) \<longleftrightarrow> p \<le> n" for p
    using reached_iff [of n p] n m [of p] by auto
  define met where "met \<longleftrightarrow> have_pending g \<and> reached (of_nat n) (pending_jobs g)"
  have fields: "last_end_ns ?g = e" "have_completed ?g" "have_settled ?g" "have_pending ?g = (have_pending g \<and> \<not> met)"
    "pending_jobs ?g = pending_jobs g"
    by (simp_all add: input_gate_write_end_def input_gate_write_begin_def Let_def met_def)
  have comp: "\<exists>new c old. ?f # fs = new @ c # old \<and> completed_at ?g new c old"
  proof (cases "have_completed g \<and> of_nat n = completed_drained g")
    case True
    then obtain new c old where c: "fs = new @ c # old" "completed_at g new c old" using ok by (auto simp: gate_ok_def)
    have "f_drained c \<le> n" using last_drained_max [OF h, of c] c(1) n(1) by simp
    moreover have l: "last_drained fs = f_drained c" using c by (cases new) (auto simp: last_drained_def completed_at_def)
    ultimately have "n = f_drained c" using True c(2) n(2) of_nat_u32_eq [of "f_drained c" n] by (simp add: completed_at_def)
    then have "completed_at ?g (?f # new) c old"
      using c(2) True by (auto simp: completed_at_def input_gate_write_end_def input_gate_write_begin_def Let_def)
    then show ?thesis using c(1) by (metis append_Cons)
  next
    case False
    then have "completed_at ?g [] ?f fs" by (auto simp: completed_at_def input_gate_write_end_def input_gate_write_begin_def Let_def)
    then show ?thesis by blast
  qed
  have sett: "\<exists>new c old. ?f # fs = new @ c # old \<and> settled_at ?g marks new c old"
  proof (cases "met \<or> \<not> have_settled g \<or> screen \<noteq> settled_gen g")
    case True
    have "m \<le> n" if in_marks: "m \<in> set marks" and clear: "\<not> have_pending ?g" for m
    proof (cases "have_pending g")
      case True
      then obtain p where "p \<in> set marks" "pending_jobs g = of_nat p" "\<forall>m'\<in>set marks. m' \<le> p" "last_drained fs < p"
        using ok by (auto simp: gate_ok_def)
      then show ?thesis using in_marks clear fields(4) True meets [of p] by (auto simp: met_def)
    next
      case False
      have "fs \<noteq> []" using False ok in_marks by (auto simp: gate_ok_def)
      then obtain new s old where "fs = new @ s # old" "settled_at g marks new s old" using ok by (auto simp: gate_ok_def)
      then have "s \<in> set fs" "\<forall>m\<in>set marks. m \<le> f_drained s" using False by (auto simp: settled_at_def)
      then show ?thesis using in_marks last_drained_max [OF h] n(1) by (meson order_trans)
    qed
    then have "settled_at ?g marks [] ?f fs"
      using True by (auto simp: settled_at_def met_def input_gate_write_end_def input_gate_write_begin_def Let_def split: if_splits)
    then show ?thesis by blast
  next
    case False
    then obtain new s old where c: "fs = new @ s # old" "settled_at g marks new s old" using ok by (auto simp: gate_ok_def)
    then have "settled_at ?g marks (?f # new) s old"
      using False by (auto simp: settled_at_def met_def input_gate_write_end_def input_gate_write_begin_def Let_def)
    then show ?thesis using c(1) by (metis append_Cons)
  qed
  have "\<exists>m\<in>set marks. pending_jobs ?g = of_nat m \<and> (\<forall>m'\<in>set marks. m' \<le> m) \<and> n < m" if held: "have_pending ?g"
  proof -
    obtain p where "p \<in> set marks" "pending_jobs g = of_nat p" "\<forall>m'\<in>set marks. m' \<le> p" "last_drained fs < p"
      using ok held fields(4) by (auto simp: gate_ok_def)
    then show ?thesis using meets [of p] held fields(4,5) by (auto simp: met_def)
  qed
  then show ?thesis using fields comp sett by (simp add: gate_ok_def last_end_def last_drained_def)
qed

lemma publish_gate_ok:
  assumes ok: "gate_ok g fs marks" and h: "history_ok fs" and a: "\<And>m. m \<in> set marks \<Longrightarrow> m \<le> a" "0 < a"
    and near: "a < last_drained fs + 2 ^ 31" "last_drained fs < a + 2 ^ 31"
  shows "gate_ok (input_gate_input_dispatched g t (of_nat a)) fs (a # marks)" (is "gate_ok ?g fs _")
proof (cases "fs = []")
  case True
  then show ?thesis using ok a by (auto simp: gate_ok_def input_gate_input_dispatched_def Let_def last_drained_def)
next
  case False
  obtain new c old where c: "fs = new @ c # old" "completed_at g new c old" using ok False by (auto simp: gate_ok_def)
  obtain new' s old' where s: "fs = new' @ s # old'" "settled_at g marks new' s old'" using ok False by (auto simp: gate_ok_def)
  have l: "last_drained fs = f_drained c" using c by (cases new) (auto simp: last_drained_def completed_at_def)
  have met: "reached (completed_drained g) (of_nat a) \<longleftrightarrow> a \<le> f_drained c"
    using reached_iff [of "f_drained c" a] near l c(2) by (simp add: completed_at_def)
  have fields: "last_end_ns ?g = last_end_ns g" "have_completed ?g" "have_settled ?g" "have_pending ?g = (\<not> a \<le> f_drained c)"
    "pending_jobs ?g = of_nat a"
    using ok False met by (simp_all add: gate_ok_def input_gate_input_dispatched_def Let_def)
  have comp: "completed_at ?g new c old"
    using c(2) by (simp add: completed_at_def input_gate_input_dispatched_def Let_def)
  have sett: "\<exists>new s old. fs = new @ s # old \<and> settled_at ?g (a # marks) new s old"
  proof (cases "a \<le> f_drained c \<and> f_end s < f_end c")
    case True
    then have "c \<in> set new'" "set new \<subseteq> set new'" using split_order(1) [OF h s(1) c(1)] by auto
    then have "\<forall>f\<in>set new. f_gen f = f_gen c" using s(2) by (auto simp: settled_at_def)
    moreover have "\<forall>m\<in>set (a # marks). m \<le> f_drained c" using True a(1) by fastforce
    moreover have "settled_ns ?g = f_end c" "settled_gen ?g = f_gen c"
      using True c(2) s(2) met ok False
      by (auto simp: settled_at_def completed_at_def input_gate_input_dispatched_def Let_def gate_ok_def)
    ultimately have "settled_at ?g (a # marks) new c old" by (simp add: settled_at_def)
    then show ?thesis using c(1) by blast
  next
    case keep: False
    have "f_drained c \<le> f_drained s" if "a \<le> f_drained c" using keep that split_order(2) [OF h s(1) c(1)] by auto
    then have "have_pending ?g \<or> (\<forall>m\<in>set (a # marks). m \<le> f_drained s)" using a(1) fields(4) by fastforce
    moreover have "settled_ns ?g = f_end s" "settled_gen ?g = f_gen s"
      using keep c(2) s(2) met ok False
      by (auto simp: settled_at_def completed_at_def input_gate_input_dispatched_def Let_def gate_ok_def)
    ultimately have "settled_at ?g (a # marks) new' s old'" using s(2) by (simp add: settled_at_def)
    then show ?thesis using s(1) by blast
  qed
  show ?thesis
    using fields comp sett c(1) ok False a l by (auto simp: gate_ok_def)
qed

lemma history_Cons:
  assumes "history_ok fs" and "last_end fs < e" and "e \<noteq> - 1" and "last_drained fs \<le> n"
  shows "history_ok (\<lparr> f_gen = g, f_drained = n, f_end = e \<rparr> # fs)"
proof -
  have "f_end f < e \<and> f_drained f \<le> n" if "f \<in> set fs" for f
    using assms that by (cases fs) (auto simp: history_ok_def last_end_def last_drained_def intro: order_trans)
  then show ?thesis using assms(1,3) by (simp add: history_ok_def)
qed

lemma step_ok:
  assumes "system_step w w'" and ok: "world_ok w"
  shows "world_ok w'"
  using assms(1)
proof cases
  case (flush e s)
  have d: "last_drained (w_frames w) \<le> w_drained w" "w_drained w \<le> w_posted w" "w_posted w < last_drained (w_frames w) + 2 ^ 31"
    and m: "\<And>m. m \<in> set (w_marks w) \<Longrightarrow> m \<le> w_posted w" and h: "history_ok (w_frames w)"
    using ok by (auto simp: world_ok_def counts_ok_def few_jobs_def)
  have "gate_ok (input_gate_write_end (input_gate_write_begin g s (w_screen w) (of_nat (w_drained w))) e)
      (\<lparr> f_gen = w_screen w, f_drained = w_drained w, f_end = e \<rparr> # w_frames w) (w_marks w)" if "gate_ok g (w_frames w) (w_marks w)" for g
    using flush_gate_ok [OF that h d(1)] d m by fastforce
  moreover have "counts_ok w'" using flush ok by (auto simp: world_ok_def counts_ok_def few_jobs_def last_drained_def split: option.splits)
  ultimately show ?thesis
    using ok flush history_Cons [OF h flush(2,3) d(1)] by (simp add: world_ok_def on_display_flush_panel_def Let_def)
next
  case (fail start end_reading frame_written)
  then show ?thesis
    using ok by (auto simp: world_ok_def counts_ok_def few_jobs_def on_display_flush_panel_def Let_def split: option.splits)
next
  case (publish b a dispatch timestamp_ns)
  have c: "b \<le> a" "a \<le> w_posted w" "a < b + 2 ^ 31" "w_drained w < a + 2 ^ 31" "last_drained (w_frames w) \<le> w_drained w"
    "w_posted w < last_drained (w_frames w) + 2 ^ 31" and m: "\<And>m. m \<in> set (w_marks w) \<Longrightarrow> m \<le> a" and h: "history_ok (w_frames w)"
    using ok publish(2) by (auto simp: world_ok_def counts_ok_def few_jobs_def)
  have counts: "counts_ok w'" using ok publish c by (auto simp: world_ok_def counts_ok_def few_jobs_def)
  show ?thesis
  proof (cases "a = b")
    case True
    then show ?thesis using ok publish counts by (simp add: world_ok_def publish_mark_def)
  next
    case False
    then have ne: "(of_nat a :: u32) \<noteq> of_nat b" using of_nat_u32_eq [of b a] c by auto
    have "gate_ok (input_gate_input_dispatched g t (of_nat a)) (w_frames w) (a # w_marks w)" if "gate_ok g (w_frames w) (w_marks w)" for g t
      by (rule publish_gate_ok [OF that h]) (use c m False in auto)
    then show ?thesis using ok publish counts False ne by (simp add: world_ok_def publish_mark_def)
  qed
qed (use ok in \<open>auto simp: world_ok_def counts_ok_def few_jobs_def split: option.splits\<close>)

lemma reachable_ok: "reachable w \<Longrightarrow> world_ok w"
  by (induction rule: reachable.induct) (auto intro: init_ok step_ok)

lemma settled_allows:
  assumes "gate_ok g fs marks" and "history_ok fs" and "fs \<noteq> []" and "last_end fs \<le> t"
    and "\<not> have_pending g \<or> pending_since_ns g + INPUT_GATE_SETTLE_TIMEOUT_NS \<le> t"
  shows "input_gate_judge g t (f_gen (hd fs)) = INPUT_GATE_ALLOW"
proof -
  obtain new s old where s: "fs = new @ s # old" "settled_at g marks new s old" using assms(1,3) by (auto simp: gate_ok_def)
  have "f_end s \<le> last_end fs" using s(1) assms(2) by (cases new) (auto simp: last_end_def history_ok_def intro: less_imp_le)
  moreover have "f_gen (hd fs) = f_gen s" using s by (cases new) (auto simp: settled_at_def)
  moreover have "last_end fs \<noteq> - 1" using assms(2,3) by (cases fs) (auto simp: last_end_def history_ok_def)
  ultimately show ?thesis
    using assms s(2) by (auto simp: input_gate_judge_def gate_ok_def settled_at_def not_less dest: order_trans)
qed

section \<open>Properties\<close>

text \<open>A short run: a navigation press posts one job, a frame composed before it completes first, then
  its mark is published, the job is drained and its own frame completes.\<close>

definition demo_flush :: "u64 \<Rightarrow> world \<Rightarrow> world" where
  "demo_flush e w = w \<lparr> w_panel := on_display_flush_panel (Some (e - 5)) (Some e) True (w_screen w) (of_nat (w_drained w)) (w_panel w),
      w_frames := \<lparr> f_gen = w_screen w, f_drained = w_drained w, f_end = e \<rparr> # w_frames w \<rparr>"

definition demo_pressed :: world where
  "demo_pressed = (world_init 3) \<lparr> w_posted := 1, w_mark := Some (0, 1) \<rparr>"

definition demo_waiting :: world where
  "demo_waiting = (let w = demo_flush 10 demo_pressed in
     w \<lparr> w_panel := publish_mark (of_nat 0) (of_nat 1) (Some 12) 11 (w_panel w), w_mark := None, w_marks := [1] \<rparr>)"

definition demo_drained :: world where
  "demo_drained = demo_waiting \<lparr> w_drained := 1 \<rparr>"

lemma demo_run: "reachable demo_waiting" "reachable demo_drained" "reachable (demo_flush 20 demo_drained)"
proof -
  have "reachable ((world_init 3) \<lparr> w_posted := 1 \<rparr>)"
    by (rule reachable.step [OF reachable.start system_step.post]) (simp_all add: world_init_def few_jobs_def last_drained_def)
  then have "reachable demo_pressed"
    by (rule reachable.step, intro system_step.press [where b = 0])
      (simp_all add: demo_pressed_def world_init_def few_jobs_def last_drained_def)
  then have r: "reachable (demo_flush 10 demo_pressed)"
    unfolding demo_flush_def
    by (rule reachable.step, intro system_step.flush) (simp_all add: demo_pressed_def world_init_def last_end_def)
  have "w_mark (demo_flush 10 demo_pressed) = Some (0, 1)" "w_marks (demo_flush 10 demo_pressed) = []"
    by (simp_all add: demo_flush_def demo_pressed_def world_init_def)
  with system_step.publish [OF this(1), of "Some 12" 11] r show w: "reachable demo_waiting"
    unfolding demo_waiting_def Let_def by (auto intro: reachable.step)
  show d: "reachable demo_drained"
    by (rule reachable.step [OF w system_step.drain])
      (simp_all add: demo_drained_def demo_waiting_def demo_flush_def demo_pressed_def world_init_def few_jobs_def last_drained_def Let_def)
  show "reachable (demo_flush 20 demo_drained)"
    unfolding demo_flush_def
    by (rule reachable.step [OF d], intro system_step.flush)
      (simp_all add: demo_drained_def demo_waiting_def demo_flush_def demo_pressed_def world_init_def last_end_def Let_def)
qed

text \<open>C8. A press that acts applies to what the user was reading: in every run, when the gate allows a
  press, some frame completed no later than the press, it shows the screen that is current now, so
  does every frame completed after it, and it carries all the work of every earlier press whose
  mark is published, unless the gate has waited for that work for a full second.\<close>

theorem gate_allows_only_read:
  assumes "reachable w" and "\<not> ps_failed (w_panel w)" and "is_action event"
    and "press_verdict (ps_gate (w_panel w)) event press_ns current_gen = INPUT_GATE_ALLOW"
  shows "\<exists>new s old. w_frames w = new @ s # old \<and> f_end s \<le> press_ns \<and> f_gen s = current_gen \<and>
    (\<forall>f\<in>set new. f_gen f = current_gen) \<and>
    ((\<forall>m\<in>set (w_marks w). m \<le> f_drained s) \<or>
     have_pending (ps_gate (w_panel w)) \<and> pending_since_ns (ps_gate (w_panel w)) + INPUT_GATE_SETTLE_TIMEOUT_NS \<le> press_ns)"
proof -
  let ?g = "ps_gate (w_panel w)"
  have ok: "gate_ok ?g (w_frames w) (w_marks w)" using reachable_ok [OF assms(1)] assms(2) by (simp add: world_ok_def)
  have j: "have_settled ?g" "settled_ns ?g \<le> press_ns" "settled_gen ?g = current_gen"
    "\<not> have_pending ?g \<or> pending_since_ns ?g + INPUT_GATE_SETTLE_TIMEOUT_NS \<le> press_ns"
    using assms(3,4) by (auto simp: press_verdict_def input_gate_judge_def not_less split: if_splits)
  then obtain new s old where "w_frames w = new @ s # old" "settled_at ?g (w_marks w) new s old"
    using ok by (auto simp: gate_ok_def)
  then show ?thesis using j by (intro exI [of _ new] exI [of _ s] exI [of _ old]) (auto simp: settled_at_def)
qed

theorem gate_allows_only_read_witness:
  "press_verdict (ps_gate (w_panel demo_waiting)) BUTTON_SELECT 15 3 = INPUT_GATE_DROP_PENDING \<and>
   press_verdict (ps_gate (w_panel (demo_flush 20 demo_drained))) BUTTON_SELECT 25 3 = INPUT_GATE_ALLOW \<and>
   (\<exists>new s old. w_frames (demo_flush 20 demo_drained) = new @ s # old \<and> f_end s \<le> 25 \<and> f_gen s = 3)"
proof -
  have p: "press_verdict (ps_gate (w_panel demo_waiting)) BUTTON_SELECT 15 3 = INPUT_GATE_DROP_PENDING" by code_simp
  have a: "press_verdict (ps_gate (w_panel (demo_flush 20 demo_drained))) BUTTON_SELECT 25 3 = INPUT_GATE_ALLOW" by code_simp
  have f: "\<not> ps_failed (w_panel (demo_flush 20 demo_drained))" by code_simp
  have act: "is_action BUTTON_SELECT" by (simp add: is_action_def)
  show ?thesis using p a gate_allows_only_read [OF demo_run(3) f act a] by blast
qed

text \<open>C37. The gate does not block: in every run, as soon as a frame of the current screen is written that
  has drained all published work, an acting press made from then on is allowed; and when the gui
  task has stopped, a press on the screen last shown is allowed one second after the mark.\<close>

theorem gate_releases:
  assumes "reachable w" and "\<not> ps_failed (w_panel w)" and "last_end (w_frames w) < e" and "e \<noteq> - 1"
    and "\<forall>m\<in>set (w_marks w). m \<le> w_drained w" and "e \<le> press_ns"
  shows "press_verdict (ps_gate (on_display_flush_panel (Some s) (Some e) True (w_screen w) (of_nat (w_drained w)) (w_panel w)))
      event press_ns (w_screen w) = INPUT_GATE_ALLOW \<and>
    (w_frames w \<noteq> [] \<and> last_end (w_frames w) \<le> t \<and> pending_since_ns (ps_gate (w_panel w)) + INPUT_GATE_SETTLE_TIMEOUT_NS \<le> t \<longrightarrow>
     press_verdict (ps_gate (w_panel w)) event t (f_gen (hd (w_frames w))) = INPUT_GATE_ALLOW)"
proof -
  define w' where "w' = w \<lparr> w_panel := on_display_flush_panel (Some s) (Some e) True (w_screen w) (of_nat (w_drained w)) (w_panel w),
      w_frames := \<lparr> f_gen = w_screen w, f_drained = w_drained w, f_end = e \<rparr> # w_frames w \<rparr>"
  have "reachable w'" unfolding w'_def by (rule reachable.step [OF assms(1) system_step.flush [OF assms(3,4)]])
  moreover have "\<not> ps_failed (w_panel w')" using assms(2) by (simp add: w'_def on_display_flush_panel_def Let_def)
  ultimately have ok': "gate_ok (ps_gate (w_panel w')) (w_frames w') (w_marks w')" and h': "history_ok (w_frames w')"
    using reachable_ok by (auto simp: world_ok_def)
  have ok: "gate_ok (ps_gate (w_panel w)) (w_frames w) (w_marks w)" and h: "history_ok (w_frames w)"
    using reachable_ok [OF assms(1)] assms(2) by (simp_all add: world_ok_def)
  have fr: "w_frames w' \<noteq> []" "w_marks w' = w_marks w" "last_drained (w_frames w') = w_drained w" "last_end (w_frames w') = e"
    "f_gen (hd (w_frames w')) = w_screen w" by (simp_all add: w'_def last_drained_def last_end_def)
  have "\<not> have_pending (ps_gate (w_panel w'))" using ok' fr assms(5) by (force simp: gate_ok_def)
  then have "press_verdict (ps_gate (w_panel w')) event press_ns (w_screen w) = INPUT_GATE_ALLOW"
    using settled_allows [OF ok' h' fr(1), of press_ns] fr assms(6) by (simp add: press_verdict_def)
  moreover have "w_panel w' = on_display_flush_panel (Some s) (Some e) True (w_screen w) (of_nat (w_drained w)) (w_panel w)"
    by (simp add: w'_def)
  ultimately show ?thesis using settled_allows [OF ok h, of t] by (auto simp: press_verdict_def)
qed

theorem gate_releases_witness:
  "press_verdict (ps_gate (w_panel (demo_flush 20 demo_drained))) BUTTON_SELECT 20 3 = INPUT_GATE_ALLOW \<and>
   press_verdict (ps_gate (w_panel demo_drained)) BUTTON_SELECT 2000000000 3 = INPUT_GATE_ALLOW"
proof -
  have f: "\<not> ps_failed (w_panel demo_drained)" by code_simp
  have e: "last_end (w_frames demo_drained) < 20" by code_simp
  have m: "\<forall>m\<in>set (w_marks demo_drained). m \<le> w_drained demo_drained" by code_simp
  have t: "w_frames demo_drained \<noteq> []" "last_end (w_frames demo_drained) \<le> 2000000000"
    "pending_since_ns (ps_gate (w_panel demo_drained)) + INPUT_GATE_SETTLE_TIMEOUT_NS \<le> 2000000000"
    "f_gen (hd (w_frames demo_drained)) = 3" "w_screen demo_drained = 3" by code_simp+
  have n: "(20 :: u64) \<noteq> - 1" by simp
  show ?thesis
    using gate_releases [OF demo_run(2) f e n m, of 20 15 BUTTON_SELECT 2000000000] t by (simp add: demo_flush_def)
qed

end
