(* ===== verification/Seedxor.thy ===== *)
theory Seedxor
  imports Jade_Prelude "HOL-Library.Multiset"
begin

text \<open>
  \<open>main/seedxor.c\<close>: SeedXOR, splitting the entropy of a wallet into parts of the same length whose
  XOR is the entropy.

  The caller's buffer is a flat list; the parts are its blocks of \<open>entropy_len\<close> bytes. The bytes
  \<open>get_random\<close> delivers are a parameter, a function of the number of the call and the length asked
  for. \<open>None\<close> is a failed assertion or an access outside a buffer.
\<close>

section \<open>Operations\<close>

definition SEEDXOR_MAX_PART_LEN :: nat where "SEEDXOR_MAX_PART_LEN = 32"
definition SEEDXOR_MIN_SPLIT_PARTS :: nat where "SEEDXOR_MIN_SPLIT_PARTS = 2"
definition SEEDXOR_MAX_SPLIT_PARTS :: nat where "SEEDXOR_MAX_SPLIT_PARTS = 4"

lemmas seedxor_consts = SEEDXOR_MAX_PART_LEN_def SEEDXOR_MIN_SPLIT_PARTS_def SEEDXOR_MAX_SPLIT_PARTS_def

function accumulate_loop :: "nat \<Rightarrow> nat \<Rightarrow> bytes \<Rightarrow> bytes \<Rightarrow> bytes option" where
  "accumulate_loop i len tot part =
     (if i < len then do {
        t \<leftarrow> buf_get tot i;
        p \<leftarrow> buf_get part i;
        tot \<leftarrow> buf_set tot i (t XOR p);
        accumulate_loop (Suc i) len tot part }
      else Some tot)"
  by pat_completeness auto
termination by (relation "measure (\<lambda>(i, len, _, _). len - i)") auto

declare accumulate_loop.simps [simp del]

definition seedxor_accumulate :: "bytes \<Rightarrow> bytes \<Rightarrow> nat \<Rightarrow> bytes option" where
  "seedxor_accumulate tot part len = do {
     jade_assert (len > 0);
     accumulate_loop 0 len tot part }"

function is_zero_loop :: "nat \<Rightarrow> nat \<Rightarrow> bytes \<Rightarrow> byte \<Rightarrow> byte option" where
  "is_zero_loop i len entropy bits =
     (if i < len then do { b \<leftarrow> buf_get entropy i; is_zero_loop (Suc i) len entropy (bits OR b) } else Some bits)"
  by pat_completeness auto
termination by (relation "measure (\<lambda>(i, len, _, _). len - i)") auto

declare is_zero_loop.simps [simp del]

definition seedxor_is_zero :: "bytes \<Rightarrow> nat \<Rightarrow> bool option" where
  "seedxor_is_zero entropy len = do {
     jade_assert (len > 0);
     bits \<leftarrow> is_zero_loop 0 len entropy 0;
     Some (bits = 0) }"

text \<open>The two loops of \<open>seedxor_split\<close>: making the parts, and combining them again.\<close>

function split_loop :: "(nat \<Rightarrow> nat \<Rightarrow> bytes) \<Rightarrow> nat \<Rightarrow> nat \<Rightarrow> nat \<Rightarrow> bytes \<Rightarrow> bytes option" where
  "split_loop get_random i num_parts len parts =
     (if i < num_parts - 1 then do {
        parts \<leftarrow> buf_write parts (i * len) (get_random i len);
        part \<leftarrow> buf_read parts (i * len) len;
        last_part \<leftarrow> buf_read parts ((num_parts - 1) * len) len;
        last_part \<leftarrow> seedxor_accumulate last_part part len;
        parts \<leftarrow> buf_write parts ((num_parts - 1) * len) last_part;
        split_loop get_random (Suc i) num_parts len parts }
      else Some parts)"
  by pat_completeness auto
termination by (relation "measure (\<lambda>(_, i, n, _, _). n - i)") auto

declare split_loop.simps [simp del]

function check_loop :: "nat \<Rightarrow> nat \<Rightarrow> nat \<Rightarrow> bytes \<Rightarrow> bytes \<Rightarrow> bytes option" where
  "check_loop i num_parts len parts check =
     (if i < num_parts then do {
        part \<leftarrow> buf_read parts (i * len) len;
        check \<leftarrow> seedxor_accumulate check part len;
        check_loop (Suc i) num_parts len parts check }
      else Some check)"
  by pat_completeness auto
termination by (relation "measure (\<lambda>(i, n, _, _, _). n - i)") auto

declare check_loop.simps [simp del]

definition seedxor_split :: "(nat \<Rightarrow> nat \<Rightarrow> bytes) \<Rightarrow> bytes \<Rightarrow> nat \<Rightarrow> bytes \<Rightarrow> (bool \<times> bytes) option" where
  "seedxor_split get_random entropy num_parts parts_out = do {
     let len = length entropy;
     jade_assert (len > 0);
     jade_assert (len \<le> SEEDXOR_MAX_PART_LEN);
     jade_assert (num_parts \<ge> SEEDXOR_MIN_SPLIT_PARTS);
     jade_assert (num_parts \<le> SEEDXOR_MAX_SPLIT_PARTS);
     parts \<leftarrow> buf_write parts_out ((num_parts - 1) * len) entropy;
     parts \<leftarrow> split_loop get_random 0 num_parts len parts;
     check \<leftarrow> check_loop 0 num_parts len parts (replicate SEEDXOR_MAX_PART_LEN 0);
     let recombines = (take len check = entropy);
     if recombines then Some (True, parts)
     else do {
       parts \<leftarrow> buf_write parts 0 (replicate (num_parts * len) 0);
       Some (False, parts) } }"

section \<open>XOR of byte strings\<close>

definition xors :: "bytes \<Rightarrow> bytes \<Rightarrow> bytes" where
  "xors = map2 (XOR)"

definition part_at :: "nat \<Rightarrow> bytes \<Rightarrow> nat \<Rightarrow> bytes" where
  "part_at len parts i = take len (drop (i * len) parts)"

lemma length_xors [simp]: "length (xors a b) = min (length a) (length b)"
  by (simp add: xors_def)

lemma nth_xors [simp]: "i < length a \<Longrightarrow> i < length b \<Longrightarrow> xors a b ! i = a ! i XOR b ! i"
  by (simp add: xors_def)

lemma xors_eqI: "length a = length b \<Longrightarrow> (\<And>i. i < length b \<Longrightarrow> a ! i = b ! i) \<Longrightarrow> a = (b :: bytes)"
  by (rule nth_equalityI) auto

lemma xors_cancel: "length a = length b \<Longrightarrow> xors (xors a b) b = a"
  by (rule xors_eqI) simp_all

lemma xors_left_commute: "length a = length b \<Longrightarrow> length b = length c \<Longrightarrow> xors (xors a b) c = xors (xors a c) b"
  by (rule xors_eqI) (simp_all add: ac_simps)

text \<open>What one starts from when the parts are combined.\<close>

definition combine :: "nat \<Rightarrow> bytes list \<Rightarrow> bytes" where
  "combine len ps = fold (\<lambda>p t. xors t p) ps (replicate len 0)"

lemma fold_xors_length: "\<forall>p\<in>set ps. length p = len \<Longrightarrow> length t = len \<Longrightarrow> length (fold (\<lambda>p t. xors t p) ps t) = len"
  by (induction ps arbitrary: t) auto

lemma fold_xors_start:
  "\<forall>p\<in>set ps. length p = len \<Longrightarrow> length s = len \<Longrightarrow> length t = len \<Longrightarrow>
   fold (\<lambda>p t. xors t p) ps (xors s t) = xors s (fold (\<lambda>p t. xors t p) ps t)"
proof (induction ps arbitrary: t)
  case (Cons p ps)
  have "xors (xors s t) p = xors s (xors t p)" using Cons.prems by (intro xors_eqI) (simp_all add: ac_simps)
  then show ?case using Cons by simp
qed simp

lemma fold_xors_zero:
  "\<forall>p\<in>set ps. length p = len \<Longrightarrow> length t = len \<Longrightarrow> fold (\<lambda>p t. xors t p) ps t = xors t (combine len ps)"
proof -
  assume "\<forall>p\<in>set ps. length p = len" "length t = len"
  moreover from this have "xors t (replicate len 0) = t" by (intro xors_eqI) simp_all
  ultimately show ?thesis using fold_xors_start [of ps len t "replicate len 0"] by (simp add: combine_def)
qed

lemma combine_Cons: "length p = len \<Longrightarrow> \<forall>q\<in>set ps. length q = len \<Longrightarrow> combine len (p # ps) = xors p (combine len ps)"
proof -
  assume "length p = len" "\<forall>q\<in>set ps. length q = len"
  moreover have "xors (replicate len 0) p = p" if "length p = len" using that by (intro xors_eqI) simp_all
  ultimately show ?thesis using fold_xors_zero [of ps len p] by (simp add: combine_def)
qed

lemma length_combine: "\<forall>p\<in>set ps. length p = len \<Longrightarrow> length (combine len ps) = len"
  by (simp add: combine_def fold_xors_length)

lemma combine_snoc:
  "\<forall>q\<in>set ps. length q = len \<Longrightarrow> combine len (ps @ [p]) = xors (combine len ps) p"
  by (simp add: combine_def)

text \<open>The order of the parts does not matter.\<close>

lemma combine_perm:
  "mset ps = mset qs \<Longrightarrow> \<forall>p\<in>set ps. length p = len \<Longrightarrow> combine len ps = combine len qs"
proof (induction ps arbitrary: qs)
  case (Cons p ps)
  then have "p \<in> set qs" by (metis list.set_intros(1) mset_eq_setD)
  then obtain q1 q2 where q: "qs = q1 @ p # q2" by (meson split_list)
  have l: "\<forall>q\<in>set qs. length q = len" using Cons.prems by (metis mset_eq_setD)
  have "combine len (a @ p # b) = xors p (combine len (a @ b))" if "\<forall>q\<in>set (a @ p # b). length q = len" for a b
    using that
  proof (induction a)
    case (Cons x a)
    have "xors x (xors p (combine len (a @ b))) = xors p (xors x (combine len (a @ b)))"
      using Cons.prems length_combine [of "a @ b" len] by (intro xors_eqI) (simp_all add: ac_simps)
    then show ?case using Cons by (simp add: combine_Cons)
  qed (simp add: combine_Cons)
  then have "combine len qs = xors p (combine len (q1 @ q2))" using l q by simp
  moreover have "combine len ps = combine len (q1 @ q2)" using Cons q by simp
  ultimately show ?case using Cons.prems(2) by (simp add: combine_Cons)
qed simp

section \<open>The loops\<close>

lemma accumulate_loop_eq:
  "len \<le> length tot \<Longrightarrow> len \<le> length part \<Longrightarrow> i \<le> len \<Longrightarrow>
   accumulate_loop i len tot part = Some (take i tot @ xors (take (len - i) (drop i tot)) (drop i part) @ drop len tot)"
proof (induction i len tot part rule: accumulate_loop.induct)
  case (1 i len tot part)
  show ?case
  proof (cases "i < len")
    case True
    let ?t = "tot[i := tot ! i XOR part ! i]"
    have "accumulate_loop i len tot part = accumulate_loop (Suc i) len ?t part"
      using True "1.prems" by (subst accumulate_loop.simps) (simp add: buf_get_def buf_set_def)
    also have "\<dots> = Some (take (Suc i) ?t @ xors (take (len - Suc i) (drop (Suc i) ?t)) (drop (Suc i) part) @ drop len ?t)"
      using "1.IH" True "1.prems" by (simp add: buf_get_def buf_set_def)
    also have "\<dots> = Some (take i tot @ xors (take (len - i) (drop i tot)) (drop i part) @ drop len tot)"
    proof -
      have a: "take (len - i) (drop i tot) = tot ! i # take (len - Suc i) (drop (Suc i) tot)"
        using True "1.prems" by (metis Cons_nth_drop_Suc Suc_diff_Suc less_le_trans take_Suc_Cons)
      have b: "drop i part = part ! i # drop (Suc i) part" using True "1.prems" by (simp add: Cons_nth_drop_Suc)
      show ?thesis using True "1.prems" unfolding a b by (simp add: xors_def take_Suc_conv_app_nth)
    qed
    finally show ?thesis .
  qed (use "1.prems" in \<open>simp add: accumulate_loop.simps xors_def\<close>)
qed

lemma seedxor_accumulate_eq:
  "0 < len \<Longrightarrow> len \<le> length tot \<Longrightarrow> length part = len \<Longrightarrow>
   seedxor_accumulate tot part len = Some (xors (take len tot) part @ drop len tot)"
  using accumulate_loop_eq [of len tot part 0] by (simp add: seedxor_accumulate_def)

lemma is_zero_loop_eq:
  "len \<le> length e \<Longrightarrow> i \<le> len \<Longrightarrow> \<exists>b. is_zero_loop i len e bits = Some b \<and> (b = 0 \<longleftrightarrow> bits = 0 \<and> (\<forall>j\<in>{i..<len}. e ! j = 0))"
proof (induction i len e bits rule: is_zero_loop.induct)
  case (1 i len e bits)
  show ?case
  proof (cases "i < len")
    case True
    then obtain b where b: "is_zero_loop (Suc i) len e (bits OR e ! i) = Some b"
      "b = 0 \<longleftrightarrow> bits OR e ! i = 0 \<and> (\<forall>j\<in>{Suc i..<len}. e ! j = 0)"
      using "1.IH" [OF True, of "e ! i"] "1.prems" by (auto simp: buf_get_def)
    have "{i..<len} = insert i {Suc i..<len}" using True by auto
    then show ?thesis
      using b True "1.prems" by (subst is_zero_loop.simps) (auto simp: buf_get_def or_eq_0_iff)
  qed (simp add: is_zero_loop.simps)
qed

lemma seedxor_is_zero_iff: "e \<noteq> [] \<Longrightarrow> seedxor_is_zero e (length e) = Some (e = replicate (length e) 0)"
proof -
  assume "e \<noteq> []"
  moreover obtain b where "is_zero_loop 0 (length e) e 0 = Some b" "b = 0 \<longleftrightarrow> (\<forall>j\<in>{0..<length e}. e ! j = 0)"
    using is_zero_loop_eq [of "length e" e 0 0] by auto
  moreover have "e = replicate (length e) 0 \<longleftrightarrow> (\<forall>j\<in>{0..<length e}. e ! j = 0)"
    by (subst list_eq_iff_nth_eq) auto
  ultimately show ?thesis by (simp only: seedxor_is_zero_def) simp
qed

text \<open>Blocks of a buffer.\<close>

lemma part_write_same: "buf_write xs (i * len) ys = Some zs \<Longrightarrow> length ys = len \<Longrightarrow> part_at len zs i = ys"
  by (auto simp: buf_write_def part_at_def split: if_splits)

lemma part_write_other:
  assumes "buf_write xs (i * len) ys = Some zs" and "length ys = len" and "j \<noteq> i" and "(j + 1) * len \<le> length xs"
  shows "part_at len zs j = part_at len xs j"
proof (rule nth_equalityI)
  have l: "length zs = length xs" by (rule length_buf_write [OF assms(1)])
  show "length (part_at len zs j) = length (part_at len xs j)" using l by (simp add: part_at_def)
  fix k assume "k < length (part_at len zs j)"
  then have k: "k < len" "j * len + k < length xs" using l assms(4) by (auto simp: part_at_def)
  have "\<not> (i * len \<le> j * len + k \<and> j * len + k < i * len + len)"
  proof (cases "j < i")
    case True
    then have "(j + 1) * len \<le> i * len" by (intro mult_le_mono1) simp
    then show ?thesis using k by simp
  next
    case False
    then have "(i + 1) * len \<le> j * len" using assms(3) by (intro mult_le_mono1) simp
    then show ?thesis by simp
  qed
  then show "part_at len zs j ! k = part_at len xs j ! k"
    using buf_write_nth [OF assms(1) k(2)] assms(2) k l by (auto simp: part_at_def)
qed

lemma buf_read_part: "(i + 1) * len \<le> length xs \<Longrightarrow> buf_read xs (i * len) len = Some (part_at len xs i)"
  by (simp add: buf_read_def part_at_def)

lemma length_part: "(i + 1) * len \<le> length xs \<Longrightarrow> length (part_at len xs i) = len"
  by (simp add: part_at_def)

lemma split_loop_eq:
  assumes "0 < len" and "n * len \<le> length parts" and "i < n" and rnd: "\<And>j. length (rnd j len) = len"
  shows "\<exists>out. split_loop rnd i n len parts = Some out \<and> length out = length parts \<and>
    (\<forall>j. j < i \<longrightarrow> part_at len out j = part_at len parts j) \<and> (\<forall>j. i \<le> j \<and> j < n - 1 \<longrightarrow> part_at len out j = rnd j len) \<and>
    part_at len out (n - 1) = fold (\<lambda>p t. xors t p) (map (\<lambda>j. rnd j len) [i..<n - 1]) (part_at len parts (n - 1))"
  using assms
proof (induction rnd i n len parts rule: split_loop.induct)
  case (1 rnd i n len parts)
  show ?case
  proof (cases "i < n - 1")
    case True
    have fits: "(j + 1) * len \<le> length parts" if "j < n" for j
    proof -
      have "(j + 1) * len \<le> n * len" using that by (intro mult_le_mono1) simp
      then show ?thesis using "1.prems"(2) by simp
    qed
    have fi: "i * len + length (rnd i len) \<le> length parts" using fits [of i] True "1.prems"(4) by (simp add: add.commute)
    then obtain p1 where p1: "buf_write parts (i * len) (rnd i len) = Some p1" by (auto simp: buf_write_def)
    have l1: "length p1 = length parts" by (rule length_buf_write [OF p1])
    let ?last = "part_at len parts (n - 1)"
    have last1: "part_at len p1 (n - 1) = ?last" using True fits [of "n - 1"] by (intro part_write_other [OF p1]) (auto simp: "1.prems"(4))
    have ll: "length ?last = len" using True fits [of "n - 1"] by (intro length_part) simp
    let ?new = "xors ?last (rnd i len)"
    have acc: "seedxor_accumulate ?last (rnd i len) len = Some ?new"
      using seedxor_accumulate_eq [OF "1.prems"(1), of ?last "rnd i len"] ll "1.prems"(4) by simp
    have "(n - 1) * len + len = n * len" using True by (cases n) simp_all
    then have "(n - 1) * len + length ?new \<le> length p1" using "1.prems"(2) l1 ll "1.prems"(4) by simp
    then obtain p2 where p2: "buf_write p1 ((n - 1) * len) ?new = Some p2" by (auto simp: buf_write_def)
    have l2: "length p2 = length parts" using length_buf_write [OF p2] l1 by simp
    have ln: "length ?new = len" using ll "1.prems"(4) by simp
    have blocks: "part_at len p2 (n - 1) = ?new" "part_at len p2 i = rnd i len" "\<And>j. j < n - 1 \<Longrightarrow> j \<noteq> i \<Longrightarrow> part_at len p2 j = part_at len parts j"
    proof -
      show "part_at len p2 (n - 1) = ?new" by (rule part_write_same [OF p2 ln])
      have o: "part_at len p2 j = part_at len p1 j" if "j < n - 1" for j
        using that fits [of j] l1 by (intro part_write_other [OF p2 ln]) auto
      show "part_at len p2 i = rnd i len" using o [OF True] part_write_same [OF p1 "1.prems"(4)] by simp
      show "part_at len p2 j = part_at len parts j" if "j < n - 1" "j \<noteq> i" for j
        using o [OF that(1)] that fits [of j] by (simp add: part_write_other [OF p1 "1.prems"(4)])
    qed
    have rd: "buf_read p1 (i * len) len = Some (rnd i len)" "buf_read p1 ((n - 1) * len) len = Some ?last"
      using buf_read_part [of i len p1] buf_read_part [of "n - 1" len p1] fits [of i] fits [of "n - 1"] True l1 last1
        part_write_same [OF p1 "1.prems"(4)] by simp_all
    have run: "split_loop rnd i n len parts = split_loop rnd (Suc i) n len p2"
      using True p1 rd acc p2 by (subst split_loop.simps) simp
    have sn: "Suc i < n" and fit2: "n * len \<le> length p2" using True l2 "1.prems"(2) by simp_all
    obtain out where out: "split_loop rnd (Suc i) n len p2 = Some out" "length out = length p2"
      "\<forall>j. j < Suc i \<longrightarrow> part_at len out j = part_at len p2 j" "\<forall>j. Suc i \<le> j \<and> j < n - 1 \<longrightarrow> part_at len out j = rnd j len"
      "part_at len out (n - 1) = fold (\<lambda>p t. xors t p) (map (\<lambda>j. rnd j len) [Suc i..<n - 1]) (part_at len p2 (n - 1))"
      using "1.IH" [OF True p1 rd acc p2 "1.prems"(1) fit2 sn "1.prems"(4)] by blast
    have "[i..<n - 1] = i # [Suc i..<n - 1]" using True by (simp add: upt_conv_Cons)
    moreover have "part_at len out j = rnd j len" if "i \<le> j" "j < n - 1" for j
      using that out(3,4) blocks(2) by (cases "j = i") auto
    ultimately show ?thesis using run out l2 blocks True by auto
  next
    case False
    then have "i = n - 1" using "1.prems"(3) by simp
    then show ?thesis using False by (auto simp: split_loop.simps)
  qed
qed

lemma check_loop_eq:
  assumes "0 < len" and "n * len \<le> length parts" and "i \<le> n" and "len \<le> length chk"
  shows "\<exists>rest. check_loop i n len parts chk = Some (fold (\<lambda>p t. xors t p) (map (part_at len parts) [i..<n]) (take len chk) @ rest)"
  using assms
proof (induction i n len parts chk rule: check_loop.induct)
  case (1 i n len parts chk)
  show ?case
  proof (cases "i < n")
    case True
    have "(i + 1) * len \<le> n * len" using True by (intro mult_le_mono1) simp
    then have fit: "(i + 1) * len \<le> length parts" using "1.prems"(2) by simp
    note rd = buf_read_part [OF fit] and lb = length_part [OF fit]
    note acc = seedxor_accumulate_eq [OF "1.prems"(1,4) lb]
    have "check_loop i n len parts chk = check_loop (Suc i) n len parts (xors (take len chk) (part_at len parts i) @ drop len chk)"
      using True rd acc by (subst check_loop.simps) simp
    moreover have "take len (xors (take len chk) (part_at len parts i) @ drop len chk) = xors (take len chk) (part_at len parts i)"
      using "1.prems"(4) lb by simp
    moreover have "[i..<n] = i # [Suc i..<n]" using True by (simp add: upt_conv_Cons)
    ultimately show ?thesis using "1.IH" [OF True rd acc] "1.prems" True lb by simp
  next
    case False
    then show ?thesis using "1.prems" by (simp add: check_loop.simps) (metis append_take_drop_id)
  qed
qed

section \<open>The split\<close>

definition split_ok :: "(nat \<Rightarrow> nat \<Rightarrow> bytes) \<Rightarrow> bytes \<Rightarrow> nat \<Rightarrow> bytes \<Rightarrow> bool" where
  "split_ok rnd entropy n buf \<longleftrightarrow> entropy \<noteq> [] \<and> length entropy \<le> SEEDXOR_MAX_PART_LEN \<and> SEEDXOR_MIN_SPLIT_PARTS \<le> n \<and>
     n \<le> SEEDXOR_MAX_SPLIT_PARTS \<and> n * length entropy \<le> length buf \<and> (\<forall>j k. length (rnd j k) = k)"

lemma blocks_upt_snoc: "0 < n \<Longrightarrow> map f [0..<n] = map f [0..<n - 1] @ [f (n - 1)]"
  by (metis Suc_pred' list.simps(8,9) map_append upt_Suc_append zero_le)

lemma split_result:
  assumes "split_ok rnd entropy n buf"
  obtains out where "seedxor_split rnd entropy n buf = Some (True, out)" "length out = length buf"
    "\<And>j. j < n - 1 \<Longrightarrow> part_at (length entropy) out j = rnd j (length entropy)"
    "part_at (length entropy) out (n - 1) = xors entropy (combine (length entropy) (map (\<lambda>j. rnd j (length entropy)) [0..<n - 1]))"
    "combine (length entropy) (map (part_at (length entropy) out) [0..<n]) = entropy"
proof -
  let ?len = "length entropy"
  have p: "0 < ?len" "?len \<le> 32" "2 \<le> n" "n \<le> 4" "n * ?len \<le> length buf" and rnd: "\<And>j. length (rnd j ?len) = ?len"
    using assms by (auto simp: split_ok_def seedxor_consts)
  have "(n - 1 + 1) * ?len \<le> length buf" using p by simp
  then have "(n - 1) * ?len + ?len \<le> length buf" by simp
  then obtain b0 where b0: "buf_write buf ((n - 1) * ?len) entropy = Some b0" by (auto simp: buf_write_def)
  have l0: "length b0 = length buf" by (rule length_buf_write [OF b0])
  have e0: "part_at ?len b0 (n - 1) = entropy" by (rule part_write_same [OF b0]) simp
  have "n * ?len \<le> length b0" "0 < n" using p l0 by simp_all
  from split_loop_eq [of ?len n b0 0 rnd, OF p(1) this rnd] obtain out where out: "split_loop rnd 0 n ?len b0 = Some out" "length out = length buf"
    "\<And>j. j < n - 1 \<Longrightarrow> part_at ?len out j = rnd j ?len"
    "part_at ?len out (n - 1) = fold (\<lambda>p t. xors t p) (map (\<lambda>j. rnd j ?len) [0..<n - 1]) entropy"
    using l0 e0 by auto
  let ?rs = "map (\<lambda>j. rnd j ?len) [0..<n - 1]"
  have rs: "\<forall>r\<in>set ?rs. length r = ?len" using rnd by auto
  have lst: "part_at ?len out (n - 1) = xors entropy (combine ?len ?rs)" using out(4) fold_xors_zero [OF rs] by simp
  have "map (part_at ?len out) [0..<n] = ?rs @ [part_at ?len out (n - 1)]"
    using blocks_upt_snoc [of n "part_at ?len out"] p out(3) by simp
  then have "combine ?len (map (part_at ?len out) [0..<n]) = xors (combine ?len ?rs) (xors entropy (combine ?len ?rs))"
    using combine_snoc [OF rs] lst by simp
  also have "\<dots> = entropy"
    using length_combine [OF rs] by (intro xors_eqI) (simp_all add: xor.left_commute)
  finally have sum: "combine ?len (map (part_at ?len out) [0..<n]) = entropy" .
  obtain rest where "check_loop 0 n ?len out (replicate SEEDXOR_MAX_PART_LEN 0) = Some (entropy @ rest)"
    using check_loop_eq [OF p(1), of n out 0 "replicate SEEDXOR_MAX_PART_LEN 0"] p out(2) sum
    by (auto simp: combine_def SEEDXOR_MAX_PART_LEN_def min_def)
  then have "seedxor_split rnd entropy n buf = Some (True, out)"
    using p b0 out(1) by (simp add: seedxor_split_def seedxor_consts Let_def)
  then show thesis using that out(2,3) lst sum by blast
qed

section \<open>Properties\<close>

text \<open>C30. A SeedXOR split is right: for every entropy of up to 32 bytes, every number of parts the
  device offers and every output of the random source, the split reports success, its own check
  included, stays inside the caller's buffer, and the parts, combined in any order, give the
  entropy back.\<close>

theorem seedxor_split_correct:
  assumes "split_ok rnd entropy n buf"
  shows "\<exists>out. seedxor_split rnd entropy n buf = Some (True, out) \<and> length out = length buf \<and>
    (\<forall>parts. mset parts = mset (map (part_at (length entropy) out) [0..<n]) \<longrightarrow> combine (length entropy) parts = entropy)"
proof -
  obtain out where out: "seedxor_split rnd entropy n buf = Some (True, out)" "length out = length buf"
    "combine (length entropy) (map (part_at (length entropy) out) [0..<n]) = entropy"
    by (rule split_result [OF assms])
  have len: "\<forall>p\<in>set (map (part_at (length entropy) out) [0..<n]). length p = length entropy"
  proof -
    have "(i + 1) * length entropy \<le> length out" if "i < n" for i
    proof -
      have "(i + 1) * length entropy \<le> n * length entropy" using that by (intro mult_le_mono1) simp
      then show ?thesis using assms out(2) by (simp add: split_ok_def)
    qed
    then show ?thesis by (auto simp: length_part)
  qed
  have "combine (length entropy) parts = entropy" if "mset parts = mset (map (part_at (length entropy) out) [0..<n])" for parts
    using combine_perm [OF that [symmetric] len] out(3) by simp
  then show ?thesis using out(1,2) by blast
qed

theorem seedxor_split_correct_witness:
  "\<exists>out. seedxor_split (\<lambda>j k. replicate k (of_nat (j + 7))) [1, 2, 3, 4] 3 (replicate 12 0) = Some (True, out) \<and>
     combine 4 (rev (map (part_at 4 out) [0..<3])) = [1, 2, 3, 4]"
proof -
  have len4: "length [1, 2, 3, 4 :: byte] = 4" by simp
  have "split_ok (\<lambda>j k. replicate k (of_nat (j + 7))) [1, 2, 3, 4] 3 (replicate 12 0)" by (simp add: split_ok_def seedxor_consts)
  from seedxor_split_correct [OF this, unfolded len4] obtain out where o: "seedxor_split (\<lambda>j k. replicate k (of_nat (j + 7))) [1, 2, 3, 4] 3 (replicate 12 0) = Some (True, out)"
    "\<forall>parts. mset parts = mset (map (part_at 4 out) [0..<3]) \<longrightarrow> combine 4 parts = [1, 2, 3, 4]" by blast
  have "combine 4 (rev (map (part_at 4 out) [0..<3])) = [1, 2, 3, 4]" by (rule o(2) [rule_format]) simp
  then show ?thesis using o(1) by blast
qed

text \<open>All parts but one say nothing about the wallet: whichever part \<open>i\<close> is missing, every other
  entropy of the same length has an output of the random source under which the split gives
  exactly the same remaining parts.\<close>

lemma seedxor_parts_hide:
  assumes "split_ok rnd entropy n buf" and "seedxor_split rnd entropy n buf = Some (True, out)"
    and "i < n" and "length other = length entropy"
  shows "\<exists>rnd' out'. split_ok rnd' other n buf \<and> seedxor_split rnd' other n buf = Some (True, out') \<and>
    (\<forall>j<n. j \<noteq> i \<longrightarrow> part_at (length entropy) out' j = part_at (length entropy) out j)"
proof -
  let ?len = "length entropy" and ?n = "n - 1"
  have n: "2 \<le> n" and r: "\<And>j k. length (rnd j k) = k" using assms(1) by (auto simp: split_ok_def seedxor_consts)
  define d where "d = xors entropy other"
  define rnd' where "rnd' = (\<lambda>j k. if j = i \<and> k = ?len then xors (rnd j k) d else rnd j k)"
  have ld: "length d = ?len" using assms(4) by (simp add: d_def)
  have r': "length (rnd' j k) = k" for j k using r ld by (simp add: rnd'_def)
  have ok': "split_ok rnd' other n buf" using assms(1,4) r' by (auto simp: split_ok_def)
  obtain out' where out': "seedxor_split rnd' other n buf = Some (True, out')"
    "\<And>j. j < ?n \<Longrightarrow> part_at ?len out' j = rnd' j ?len"
    "part_at ?len out' ?n = xors other (combine ?len (map (\<lambda>j. rnd' j ?len) [0..<?n]))"
    using split_result [OF ok'] assms(4) by metis
  have o: "\<And>j. j < ?n \<Longrightarrow> part_at ?len out j = rnd j ?len"
    "part_at ?len out ?n = xors entropy (combine ?len (map (\<lambda>j. rnd j ?len) [0..<?n]))"
    using split_result [OF assms(1)] assms(2) by auto
  have "part_at ?len out' ?n = part_at ?len out ?n" if "i < ?n"
  proof -
    have split: "map f [0..<?n] = map f [0..<i] @ f i # map f [Suc i..<?n]" for f :: "nat \<Rightarrow> bytes"
    proof -
      have "[0..<?n] = [0..<i] @ i # [Suc i..<?n]"
        using upt_add_eq_append [of 0 i "?n - i"] upt_conv_Cons [of i ?n] that by simp
      then show ?thesis by simp
    qed
    have c: "combine ?len (map f [0..<?n]) = xors (f i) (combine ?len (map f [0..<i] @ map f [Suc i..<?n]))"
      if "\<And>j. length (f j) = ?len" for f :: "nat \<Rightarrow> bytes"
    proof -
      have "mset (map f [0..<?n]) = mset (f i # map f [0..<i] @ map f [Suc i..<?n])" unfolding split by simp
      then have "combine ?len (map f [0..<?n]) = combine ?len (f i # map f [0..<i] @ map f [Suc i..<?n])"
        by (rule combine_perm) (simp add: that)
      also have "\<dots> = xors (f i) (combine ?len (map f [0..<i] @ map f [Suc i..<?n]))"
        by (rule combine_Cons) (auto simp: that)
      finally show ?thesis .
    qed
    have same: "map (\<lambda>j. rnd' j ?len) [0..<i] @ map (\<lambda>j. rnd' j ?len) [Suc i..<?n] = map (\<lambda>j. rnd j ?len) [0..<i] @ map (\<lambda>j. rnd j ?len) [Suc i..<?n]"
      by (simp add: rnd'_def)
    have l: "length (combine ?len (map (\<lambda>j. rnd j ?len) [0..<i] @ map (\<lambda>j. rnd j ?len) [Suc i..<?n])) = ?len"
      by (rule length_combine) (auto simp: r)
    show ?thesis
      unfolding out'(3) o(2) c [of "\<lambda>j. rnd' j ?len", OF r'] c [of "\<lambda>j. rnd j ?len", OF r] same
      using l ld r assms(4) by (intro xors_eqI) (simp_all add: rnd'_def d_def ac_simps)
  qed
  moreover have "part_at ?len out' j = part_at ?len out j" if "j < ?n" "j \<noteq> i" for j
    using that out'(2) o(1) by (simp add: rnd'_def)
  moreover have "j < ?n \<or> j = ?n" if "j < n" for j using that by auto
  ultimately have "\<forall>j<n. j \<noteq> i \<longrightarrow> part_at ?len out' j = part_at ?len out j" using assms(3) by (metis linorder_neqE_nat less_Suc_eq)
  then show ?thesis using ok' out'(1) by blast
qed

end
