(* ===== verification/C_Text.thy ===== *)
theory C_Text
  imports Jade_Util
begin

text \<open>
  The pieces of the C library that the text formats of the device use: decimal numerals as
  \<open>%u\<close> prints them and as \<open>strtoul\<close> reads them, \<open>isspace\<close>, \<open>memchr\<close> and the comparison of strings
  without regard to case. A C string is the list of its bytes before the terminating NUL.
\<close>

section \<open>Decimal numerals\<close>

fun decimal :: "nat \<Rightarrow> bytes" where
  "decimal n = (if n < 10 then [of_nat (48 + n)] else decimal (n div 10) @ [of_nat (48 + n mod 10)])"

declare decimal.simps [simp del]

lemma decimal_not_Nil [simp]: "decimal n \<noteq> []"
  by (subst decimal.simps) simp

lemma decimal_digit: "n < 10 \<Longrightarrow> unat (48 + of_nat n :: byte) = 48 + n"
  using unat_of_nat [of "48 + n", where 'a = 8] by (simp add: take_bit_eq_mod)

lemma dec_value_append: "dec_value v (xs @ ys) = dec_value (dec_value v xs) ys"
  by (induction xs arbitrary: v) simp_all

lemma decimal_is_digit: "list_all is_digit (decimal n)"
proof (induction n rule: decimal.induct)
  case (1 n)
  show ?case
    using 1 decimal_digit [of n] decimal_digit [of "n mod 10"]
    by (subst decimal.simps) (simp add: is_digit_unat [of "48 + _"] less_Suc_eq_le [of _ 9, symmetric])
qed

lemma dec_value_decimal [simp]: "dec_value 0 (decimal n) = n"
proof (induction n rule: decimal.induct)
  case (1 n)
  show ?case
    using 1 decimal_digit [of n] decimal_digit [of "n mod 10"]
    by (subst decimal.simps) (auto simp: dec_value_append)
qed

lemma length_decimal: "n < 10 ^ k \<Longrightarrow> 0 < k \<Longrightarrow> length (decimal n) \<le> k"
proof (induction n arbitrary: k rule: decimal.induct)
  case (1 n)
  show ?case
  proof (cases "n < 10")
    case True
    then show ?thesis using 1 by (subst decimal.simps) simp
  next
    case False
    then obtain m where k: "k = Suc m" and "0 < m" using 1 by (cases k; cases "k - 1") auto
    then have "length (decimal (n div 10)) \<le> m" using 1 False by (intro 1(1)) auto
    then show ?thesis using k False by (subst decimal.simps) simp
  qed
qed

text \<open>\<open>strtoul (s, &end, 10)\<close>: white space, an optional sign, digits. The value saturates, and a
  minus sign negates it in the unsigned type; with no digits the value is zero and nothing is
  consumed. The second component is how many bytes \<open>end\<close> has advanced.\<close>

definition isspace :: "byte \<Rightarrow> bool" where
  "isspace c \<longleftrightarrow> c = 32 \<or> 9 \<le> c \<and> c \<le> 13"

definition strtoul :: "bytes \<Rightarrow> u64 \<times> nat" where
  "strtoul s =
     (let skipped = length (takeWhile isspace s);
          t = drop skipped s;
          signed = (if t \<noteq> [] \<and> (hd t = chr CHR ''+'' \<or> hd t = chr CHR ''-'') then 1 else 0);
          ds = takeWhile is_digit (drop signed t);
          v = dec_value 0 ds in
      if ds = [] then (0, 0)
      else (if v \<ge> 2 ^ 64 then - 1 else if t \<noteq> [] \<and> hd t = chr CHR ''-'' then - of_nat v else of_nat v,
            skipped + signed + length ds))"

lemma digit_not_space: "is_digit c \<Longrightarrow> \<not> isspace c"
  by (auto simp: is_digit_unat isspace_def word_le_nat_alt)

lemma digit_not_sign: "is_digit c \<Longrightarrow> c \<noteq> chr CHR ''+'' \<and> c \<noteq> chr CHR ''-''"
  by (auto simp: is_digit_unat chr_def)

lemma strtoul_decimal:
  assumes "n < 2 ^ 64" and "rest = [] \<or> \<not> is_digit (hd rest)"
  shows "strtoul (decimal n @ rest) = (of_nat n, length (decimal n))"
proof -
  obtain c cs where d: "decimal n = c # cs" by (cases "decimal n") simp_all
  then have c: "is_digit c" using decimal_is_digit [of n] by simp
  have "takeWhile is_digit (decimal n @ rest) = decimal n"
    using assms(2) decimal_is_digit [of n] by (cases rest) (simp_all add: takeWhile_append2 list_all_iff)
  moreover have "takeWhile isspace (decimal n @ rest) = []" using d digit_not_space [OF c] by simp
  moreover have "hd (decimal n @ rest) = c" using d by simp
  ultimately show ?thesis using assms(1) digit_not_sign [OF c] by (simp add: strtoul_def)
qed

section \<open>Searching and comparing\<close>

text \<open>\<open>memchr\<close>: the offset of the first occurrence.\<close>

fun memchr :: "byte \<Rightarrow> bytes \<Rightarrow> nat option" where
  "memchr c [] = None"
| "memchr c (x # xs) = (if x = c then Some 0 else map_option Suc (memchr c xs))"

lemma memchr_Some: "memchr c xs = Some i \<Longrightarrow> i < length xs \<and> xs ! i = c \<and> c \<notin> set (take i xs)"
  by (induction xs arbitrary: i) (auto split: if_splits)

lemma memchr_None: "memchr c xs = None \<longleftrightarrow> c \<notin> set xs"
  by (induction xs) auto

lemma memchr_append: "c \<notin> set xs \<Longrightarrow> memchr c (xs @ c # ys) = Some (length xs)"
  by (induction xs) auto

definition strcasecmp_eq :: "bytes \<Rightarrow> bytes \<Rightarrow> bool" where
  "strcasecmp_eq a b \<longleftrightarrow> map tolower_b a = map tolower_b b"

end
