(* ===== verification/Seedqr.thy ===== *)
theory Seedqr
  imports Bitstream C_Text
begin

text \<open>
  \<open>main/seedqr.c\<close>: the digits of a SeedQR code, four per BIP39 word index.

  BIP39 cuts the entropy followed by its checksum into indices of eleven bits; the code reads each
  index out of three bytes of a work buffer. It is proved equal to the definition of the standard
  on the bit string. SHA-256 is a parameter (\<open>None\<close> when libwally fails, which is an abort).
\<close>

section \<open>Operations\<close>

definition SEEDQR_INDEX_BITS :: nat where "SEEDQR_INDEX_BITS = 11"
definition SEEDQR_DIGITS_PER_WORD :: nat where "SEEDQR_DIGITS_PER_WORD = 4"

text \<open>\<open>snprintf(dst, 5, "%04u", index)\<close>: the decimal digits, padded to four.\<close>

definition format_04u :: "nat \<Rightarrow> bytes" where
  "format_04u n = replicate (4 - length (decimal n)) 48 @ decimal n"

text \<open>One word index, from the work buffer.\<close>

definition seedqr_index :: "bytes \<Rightarrow> nat \<Rightarrow> u32 option" where
  "seedqr_index work i = do {
     let bit_offset = SEEDQR_INDEX_BITS * i;
     let byte_offset = bit_offset div 8;
     let shift = 24 - SEEDQR_INDEX_BITS - bit_offset mod 8;
     jade_assert (byte_offset + 2 < length work);
     a \<leftarrow> buf_get work byte_offset;
     b \<leftarrow> buf_get work (byte_offset + 1);
     c \<leftarrow> buf_get work (byte_offset + 2);
     let triple = push_bit 16 (ucast a :: u32) OR push_bit 8 (ucast b) OR ucast c;
     Some (drop_bit shift triple AND 0x7FF) }"

text \<open>The output so far is the buffer; \<open>snprintf\<close> writes the digits and a terminator.\<close>

function seedqr_loop :: "nat \<Rightarrow> nat \<Rightarrow> bytes \<Rightarrow> bytes \<Rightarrow> bytes option" where
  "seedqr_loop i num_words work digits =
     (if i < num_words then do {
        index \<leftarrow> seedqr_index work i;
        let text = format_04u (unat index);
        jade_assert (length text = SEEDQR_DIGITS_PER_WORD);
        digits \<leftarrow> buf_write digits (i * SEEDQR_DIGITS_PER_WORD) (text @ [0]);
        seedqr_loop (Suc i) num_words work digits }
      else Some digits)"
  by pat_completeness auto
termination by (relation "measure (\<lambda>(i, n, _, _). n - i)") auto

declare seedqr_loop.simps [simp del]

definition seedqr_digits_from_entropy :: "(bytes \<Rightarrow> bytes option) \<Rightarrow> bytes \<Rightarrow> bytes \<Rightarrow> ((nat \<times> bytes) option) option" where
  "seedqr_digits_from_entropy sha256 entropy digits_out =
     (if length entropy \<noteq> 16 \<and> length entropy \<noteq> 32 then Some None
      else
        let num_words = length entropy * 3 div 4;
            num_digits = num_words * SEEDQR_DIGITS_PER_WORD in
        if length digits_out < num_digits + 1 then Some None
        else do {
          hash \<leftarrow> sha256 entropy;
          h \<leftarrow> buf_get hash 0;
          work \<leftarrow> buf_write (replicate 35 0) 0 entropy;
          work \<leftarrow> buf_set work (length entropy) h;
          digits \<leftarrow> seedqr_loop 0 num_words work digits_out;
          Some (Some (num_digits, digits)) })"

section \<open>The standard\<close>

text \<open>BIP39: the bits of the entropy and the first \<open>1/32\<close> as many of its hash, in groups of eleven,
  each a number written most significant bit first.\<close>

definition bits_value :: "bool list \<Rightarrow> nat" where
  "bits_value bs = foldl (\<lambda>v b. 2 * v + of_bool b) 0 bs"

definition bip39_bits :: "bytes \<Rightarrow> bytes \<Rightarrow> bool list" where
  "bip39_bits entropy hash = stream 8 entropy @ take (length entropy div 4) (stream 8 hash)"

definition bip39_indices :: "bytes \<Rightarrow> bytes \<Rightarrow> nat list" where
  "bip39_indices entropy hash =
     (let bits = bip39_bits entropy hash in map (\<lambda>i. bits_value (take 11 (drop (11 * i) bits))) [0..<length bits div 11])"

text \<open>The text a SeedQR reader expects.\<close>

definition seedqr_text :: "nat list \<Rightarrow> bytes" where
  "seedqr_text indices = concat (map (\<lambda>n. map (\<lambda>k. of_nat (48 + n div 10 ^ (3 - k) mod 10)) [0..<4]) indices)"

section \<open>Indices\<close>

lemma foldl_bits_value: "foldl (\<lambda>v b. 2 * v + of_bool b) s bs = s * 2 ^ length bs + bits_value bs"
  by (induction bs rule: rev_induct) (simp_all add: bits_value_def algebra_simps)

lemma bits_value_Cons: "bits_value (b # bs) = of_bool b * 2 ^ length bs + bits_value bs"
  using foldl_bits_value [of "of_bool b" bs] by (simp add: bits_value_def)

lemma bits_value_be_bits: "n \<le> LENGTH('a) \<Longrightarrow> bits_value (be_bits n (w :: 'a::len word)) = take_bit n (unat w)"
proof (induction n)
  case (Suc n)
  have "be_bits (Suc n) w = bit w n # be_bits n w" by (simp add: be_bits_def)
  moreover have "take_bit (Suc n) (unat w) = of_bool (bit w n) * 2 ^ n + take_bit n (unat w)"
    using Suc.prems by (simp add: take_bit_Suc_from_most bit_unsigned_iff)
  ultimately show ?case using Suc by (simp add: bits_value_Cons)
qed (simp add: bits_value_def)

lemma take_drop_stream:
  "k + 3 \<le> length ws \<Longrightarrow> take 24 (drop (8 * k) (stream 8 ws)) = stream 8 (take 3 (drop k ws))"
proof -
  assume k: "k + 3 \<le> length ws"
  have "ws = take k ws @ take 3 (drop k ws) @ drop (k + 3) ws"
    by (metis append_take_drop_id take_add append.assoc)
  then have "stream 8 ws = stream 8 (take k ws) @ stream 8 (take 3 (drop k ws)) @ stream 8 (drop (k + 3) ws)"
    by (metis stream_append)
  then show ?thesis using k by simp
qed

lemma seedqr_index_eq:
  assumes "11 * i div 8 + 2 < length work"
  shows "\<exists>w. seedqr_index work i = Some w \<and> unat w = bits_value (take 11 (drop (11 * i) (stream 8 work))) \<and> unat w < 2048"
proof -
  define o8 where "o8 = 11 * i div 8"
  define r where "r = 11 * i mod 8"
  have r: "r < 8" "11 * i = 8 * o8 + r" by (simp_all add: r_def o8_def)
  let ?a = "work ! o8" and ?b = "work ! (o8 + 1)" and ?c = "work ! (o8 + 2)"
  define triple :: u32 where "triple = push_bit 16 (ucast ?a) OR push_bit 8 (ucast ?b) OR ucast ?c"
  have small: "unat (x :: byte) < 2 ^ 8" for x by simp
  have t: "triple = push_bit 8 (push_bit 8 (ucast ?a) OR ucast ?b) OR ucast ?c"
    by (rule bit_word_eqI) (auto simp: triple_def bit_or_iff bit_push_bit_iff bit_ucast_iff)
  have "be_bits (16 + 8) triple = be_bits (8 + 8) (push_bit 8 (ucast ?a) OR ucast ?b :: u32) @ be_bits 8 ?c"
    unfolding t by (subst be_bits_shift_in) simp_all
  also have "be_bits (8 + 8) (push_bit 8 (ucast ?a) OR ucast ?b :: u32) = be_bits 8 (ucast ?a :: u32) @ be_bits 8 ?b"
    by (rule be_bits_shift_in) simp_all
  also have "be_bits 8 (ucast ?a :: u32) = be_bits 8 ?a" by (rule be_bits_ucast) simp_all
  finally have bits: "be_bits 24 triple = stream 8 [?a, ?b, ?c]" by simp
  have tk: "take 3 (drop o8 work) = [?a, ?b, ?c]"
    using assms unfolding o8_def [symmetric]
    by (simp add: numeral_3_eq_3 Cons_nth_drop_Suc [symmetric] take_Suc_Cons)
  define w where "w = drop_bit (13 - r) triple AND 0x7FF"
  have m: "(0x7FF :: u32) = mask 11" by (simp add: mask_eq_exp_minus_1)
  have "be_bits 11 w = take 11 (drop r (be_bits 24 triple))"
  proof -
    have "be_bits 11 w = be_bits 11 (drop_bit (13 - r) triple)" unfolding w_def m by (rule be_bits_mask) simp
    also have "\<dots> = take 11 (be_bits (11 + (13 - r)) triple)" by (rule be_bits_shift_out)
    also have "be_bits (11 + (13 - r)) triple = drop r (be_bits (r + (11 + (13 - r))) triple)" by (rule be_bits_drop)
    also have "r + (11 + (13 - r)) = 24" using r(1) by simp
    finally show ?thesis .
  qed
  also have "\<dots> = take 11 (drop r (take 24 (drop (8 * o8) (stream 8 work))))"
    using take_drop_stream [of o8 work] assms bits tk by (simp add: o8_def)
  also have "\<dots> = take 11 (drop (11 * i) (stream 8 work))"
    using r by (simp add: drop_take take_take min_def add.commute)
  finally have "bits_value (take 11 (drop (11 * i) (stream 8 work))) = take_bit 11 (unat w)"
    using bits_value_be_bits [of 11 w] by simp
  moreover have "unat w < 2 ^ 11"
    unfolding w_def m by (subst unat_less_iff_bits) (simp_all add: bit_and_iff bit_mask_iff)
  ultimately have "unat w = bits_value (take 11 (drop (11 * i) (stream 8 work)))" "unat w < 2048" by (simp_all add: take_bit_nat_eq_self)
  moreover have "seedqr_index work i = Some w"
    using assms r unfolding seedqr_index_def Let_def SEEDQR_INDEX_BITS_def o8_def [symmetric] r_def [symmetric]
    by (simp add: buf_get_def w_def triple_def)
  ultimately show ?thesis by blast
qed

section \<open>Digits\<close>

lemma format_04u_digits: "n < 10000 \<Longrightarrow> format_04u n = map (\<lambda>k. of_nat (48 + n div 10 ^ (3 - k) mod 10)) [0..<4]"
proof -
  assume n: "n < 10000"
  have d1: "n < 10 \<Longrightarrow> decimal n = [of_nat (48 + n)]" for n by (simp add: decimal.simps)
  have d: "\<not> n < 10 \<Longrightarrow> decimal n = decimal (n div 10) @ [of_nat (48 + n mod 10)]" for n by (subst decimal.simps) simp
  have e: "[0..<4] = [0, 1, 2, 3 :: nat]" by (simp add: upt_rec)
  have dd: "n div 10 div 10 = n div 100" "n div 100 div 10 = n div 1000" by (simp_all add: div_mult2_eq [symmetric])
  consider "n < 10" | "10 \<le> n" "n < 100" | "100 \<le> n" "n < 1000" | "1000 \<le> n" by linarith
  then show ?thesis
  proof cases
    case 1
    then show ?thesis unfolding e by (simp add: format_04u_def d1 numeral_3_eq_3)
  next
    case 2
    then have "n div 10 < 10" by linarith
    with 2 show ?thesis unfolding e by (simp add: format_04u_def d [of n] d1 numeral_2_eq_2)
  next
    case 3
    then have "n div 10 div 10 < 10" "\<not> n div 10 < 10" by linarith+
    with 3 show ?thesis unfolding e by (simp add: format_04u_def d [of n] d [of "n div 10"] d1 dd)
  next
    case 4
    then have "n div 1000 < 10" "\<not> n div 10 < 10" "\<not> n div 100 < 10" using n by linarith+
    with 4 show ?thesis unfolding e
      by (simp add: format_04u_def d [of n] d [of "n div 10"] d [of "n div 100"] d1 dd)
  qed
qed

lemma length_format_04u: "n < 10000 \<Longrightarrow> length (format_04u n) = 4"
  by (simp add: format_04u_digits)

lemma seedqr_loop_eq:
  assumes "n * 4 < length digits" and "\<And>j. j < n \<Longrightarrow> 11 * j div 8 + 2 < length work" and "i \<le> n" and "i = n \<longrightarrow> digits ! (4 * n) = 0"
  shows "\<exists>out. seedqr_loop i n work digits = Some out \<and> length out = length digits \<and> out ! (4 * n) = 0 \<and>
    take (4 * n) out = take (4 * i) digits @ concat (map (\<lambda>j. format_04u (bits_value (take 11 (drop (11 * j) (stream 8 work))))) [i..<n])"
  using assms
proof (induction i n work digits rule: seedqr_loop.induct)
  case (1 i n work digits)
  show ?case
  proof (cases "i < n")
    case True
    obtain w where w: "seedqr_index work i = Some w" "unat w = bits_value (take 11 (drop (11 * i) (stream 8 work)))" "unat w < 2048"
      using seedqr_index_eq [OF "1.prems"(2) [OF True]] by blast
    let ?t = "format_04u (unat w)"
    have lt: "length ?t = 4" using w(3) by (intro length_format_04u) simp
    have fit: "i * 4 + 5 \<le> length digits" using True "1.prems"(1) by linarith
    define d where "d = take (i * 4) digits @ (?t @ [0]) @ drop (i * 4 + 5) digits"
    have b: "buf_write digits (i * SEEDQR_DIGITS_PER_WORD) (?t @ [0]) = Some d"
      using fit lt by (simp add: buf_write_def d_def SEEDQR_DIGITS_PER_WORD_def)
    have dl: "length d = length digits" by (rule length_buf_write [OF b])
    have run: "seedqr_loop i n work digits = seedqr_loop (Suc i) n work d"
      using True w(1) lt b by (subst seedqr_loop.simps) (simp add: SEEDQR_DIGITS_PER_WORD_def)
    have td: "take (4 * Suc i) d = take (4 * i) digits @ ?t" using fit lt by (simp add: d_def mult.commute)
    have "d ! (4 * Suc i) = 0" using fit lt by (simp add: d_def nth_append mult.commute)
    then have z: "Suc i = n \<longrightarrow> d ! (4 * n) = 0" by blast
    have dn: "n * 4 < length d" "Suc i \<le> n" using dl "1.prems"(1) True by simp_all
    have a4: "jade_assert (length ?t = SEEDQR_DIGITS_PER_WORD) = Some ()" using lt by (simp add: SEEDQR_DIGITS_PER_WORD_def)
    obtain out where out: "seedqr_loop (Suc i) n work d = Some out" "length out = length d" "out ! (4 * n) = 0"
      "take (4 * n) out = take (4 * Suc i) d @ concat (map (\<lambda>j. format_04u (bits_value (take 11 (drop (11 * j) (stream 8 work))))) [Suc i..<n])"
      using "1.IH" [OF True w(1) refl a4 b dn(1) "1.prems"(2) dn(2) z] by blast
    have "[i..<n] = i # [Suc i..<n]" using True by (simp add: upt_conv_Cons)
    then show ?thesis using run out td dl w(2) by simp
  next
    case False
    then have "i = n" using "1.prems"(3) by simp
    then show ?thesis using "1.prems"(4) by (simp add: seedqr_loop.simps)
  qed
qed

section \<open>Properties\<close>

text \<open>The work buffer begins with the bits BIP39 cuts up.\<close>

lemma work_bits:
  assumes "length entropy = 16 \<or> length entropy = 32" and "hash \<noteq> []" and "11 * i + 11 \<le> 8 * length entropy + length entropy div 4"
  shows "take 11 (drop (11 * i) (stream 8 (entropy @ hash ! 0 # rest))) = take 11 (drop (11 * i) (bip39_bits entropy hash))"
proof -
  let ?n = "8 * length entropy + length entropy div 4"
  obtain h hs where h: "hash = h # hs" using assms(2) by (cases hash) auto
  have "length entropy div 4 \<le> 8" using assms(1) by auto
  then have "take ?n (stream 8 (entropy @ hash ! 0 # rest)) = bip39_bits entropy hash"
    by (simp add: bip39_bits_def h)
  moreover have "take 11 (drop (11 * i) xs) = take 11 (drop (11 * i) (take ?n xs))" for xs :: "bool list"
    using assms(3) by (simp add: drop_take take_take min_def)
  ultimately show ?thesis by metis
qed

text \<open>C32. The device shows the SeedQR code of the standard: for an entropy of 16 or 32 bytes the digits
  written are, four by four, the decimal indices that BIP39 assigns to the entropy and its
  checksum, 12 or 24 of them, all below 2048, followed by a terminator, inside the buffer; other
  lengths and short buffers are refused.\<close>

theorem seedqr_is_bip39:
  assumes "sha256 entropy = Some hash" and "length hash = 32"
  shows "if (length entropy = 16 \<or> length entropy = 32) \<and> length entropy * 3 < length digits_out
     then \<exists>digits. seedqr_digits_from_entropy sha256 entropy digits_out = Some (Some (length entropy * 3, digits)) \<and>
        length digits = length digits_out \<and> digits ! (length entropy * 3) = 0 \<and>
        take (length entropy * 3) digits = seedqr_text (bip39_indices entropy hash) \<and>
        length (bip39_indices entropy hash) = length entropy * 3 div 4 \<and> (\<forall>n\<in>set (bip39_indices entropy hash). n < 2048)
     else seedqr_digits_from_entropy sha256 entropy digits_out = Some None"
proof (cases "(length entropy = 16 \<or> length entropy = 32) \<and> length entropy * 3 < length digits_out")
  case True
  let ?n = "length entropy * 3 div 4"
  have n4: "?n * 4 = length entropy * 3" "11 * ?n = 8 * length entropy + length entropy div 4" using True by auto
  have hn: "hash \<noteq> []" using assms(2) by auto
  define work where "work = entropy @ hash ! 0 # replicate (34 - length entropy) 0"
  have lw: "length work = 35" using True by (auto simp: work_def)
  have w1: "buf_write (replicate 35 0) 0 entropy = Some (entropy @ replicate (35 - length entropy) 0)" using True by (auto simp: buf_write_def)
  have "replicate (35 - length entropy) 0 = (0 :: byte) # replicate (34 - length entropy) 0" using True by (auto simp: Suc_diff_le numeral_eq_Suc)
  then have w2: "buf_set (entropy @ replicate (35 - length entropy) 0) (length entropy) (hash ! 0) = Some work"
    by (simp add: buf_set_def work_def)
  have small: "11 * j div 8 + 2 < length work" if "j < ?n" for j using that True lw by auto
  have z: "0 = ?n \<longrightarrow> digits_out ! (4 * ?n) = 0" using True by auto
  have d: "?n * 4 < length digits_out" using True n4 by simp
  let ?v = "\<lambda>j. bits_value (take 11 (drop (11 * j) (stream 8 work)))"
  obtain out where out: "seedqr_loop 0 ?n work digits_out = Some out" "length out = length digits_out" "out ! (4 * ?n) = 0"
    "take (4 * ?n) out = concat (map (\<lambda>j. format_04u (?v j)) [0..<?n])"
    using seedqr_loop_eq [of ?n digits_out work 0, OF d small _ z] by auto
  have run: "seedqr_digits_from_entropy sha256 entropy digits_out = Some (Some (length entropy * 3, out))"
    using True assms hn n4 w1 w2 out(1)
    by (simp add: seedqr_digits_from_entropy_def SEEDQR_DIGITS_PER_WORD_def Let_def buf_get_def)
  have bits: "length (bip39_bits entropy hash) = 11 * ?n" using True assms(2) n4 by (auto simp: bip39_bits_def)
  have v: "?v j = bits_value (take 11 (drop (11 * j) (bip39_bits entropy hash)))" if "j < ?n" for j
  proof -
    have "11 * j + 11 \<le> 8 * length entropy + length entropy div 4" using that n4(2) by linarith
    then show ?thesis unfolding work_def using True hn by (subst work_bits) auto
  qed
  then have idx: "bip39_indices entropy hash = map ?v [0..<?n]" by (simp add: bip39_indices_def bits)
  have below: "?v j < 2048" if "j < ?n" for j using seedqr_index_eq [OF small [OF that]] by auto
  have "format_04u (?v j) = map (\<lambda>k. of_nat (48 + ?v j div 10 ^ (3 - k) mod 10)) [0..<4]" if "j < ?n" for j
    using below [OF that] by (intro format_04u_digits) simp
  then have "take (length entropy * 3) out = seedqr_text (bip39_indices entropy hash)"
    using out(4) n4(1) unfolding idx seedqr_text_def map_map o_def
    by (metis (no_types, lifting) atLeastLessThan_iff map_cong mult.commute set_upt)
  then show ?thesis using True run out(2,3) n4(1) idx below by (auto simp: mult.commute)
next
  case False
  then show ?thesis by (auto simp: seedqr_digits_from_entropy_def SEEDQR_DIGITS_PER_WORD_def Let_def)
qed

theorem seedqr_is_bip39_witness:
  "\<exists>digits. seedqr_digits_from_entropy (\<lambda>_. Some (replicate 32 0)) (replicate 16 0) (replicate 49 1) = Some (Some (48, digits)) \<and>
     take 48 digits = seedqr_text (bip39_indices (replicate 16 0) (replicate 32 0))"
  using seedqr_is_bip39 [of "\<lambda>_. Some (replicate 32 0)" "replicate 16 0" "replicate 32 0" "replicate 49 1"] by auto

end
