(* ===== verification/Wire.thy ===== *)
theory Wire
  imports C_Text
begin

text \<open>
  \<open>main/wire.c\<close>: the assembly of RPC messages from the chunks in which a transport delivers them, and
  \<open>libjade_send\<close> of \<open>libjade/libjade.c\<close>, the transport of the port.

  The CBOR library is a parameter: the extent of the first item of a byte string and whether it is a map, and
  what the RPC helpers read from that item. Replies and queued messages are recorded as a list of
  events; each event other than a rejection also restarts the idle timer. Times are ticks of one millisecond.
\<close>

section \<open>Parameters and state\<close>

text \<open>\<open>we_item\<close> is the result of \<open>cbor_parser_init\<close> and \<open>cbor_value_advance\<close>, \<open>None\<close> when either fails.
  \<open>we_max\<close> is \<open>MAX_INPUT_MSG_SIZE\<close>, which the build chooses, \<open>we_queue_max\<close> the largest item of the queue of
  the main task, and \<open>we_libjade\<close> whether \<open>CONFIG_DEBUG_MODE\<close> and \<open>CONFIG_LIBJADE\<close> are set.\<close>

record wire_env =
  we_max :: nat
  we_item :: "bytes \<Rightarrow> (nat \<times> bool) option"
  we_rpc_valid :: "bytes \<Rightarrow> bool"
  we_method :: "bytes \<Rightarrow> bytes option"
  we_nonblocking :: "bytes \<Rightarrow> bool option"
  we_libjade :: bool
  we_queue_max :: nat

datatype wire_event = Rejected bytes nat | Pong bytes | Version_Info bytes | Libjade_Request bytes | Queued bytes

record wire_state =
  ws_data :: bytes
  ws_read :: u64
  ws_last :: u64

definition TIMEOUT_TICKS :: u64 where "TIMEOUT_TICKS = 2000"

section \<open>Operations\<close>

definition get_msg_len :: "wire_env \<Rightarrow> bytes \<Rightarrow> nat" where
  "get_msg_len env data = (case we_item env data of Some (n, True) \<Rightarrow> n | _ \<Rightarrow> 0)"

definition reject_data :: "bytes \<Rightarrow> nat \<Rightarrow> wire_event option" where
  "reject_data msg rejected_len = do {
     jade_assert (length (decimal rejected_len) < 16);
     Some (Rejected msg rejected_len) }"

definition invalid_request :: bytes where "invalid_request = str ''Invalid RPC Request message''"
definition too_large :: bytes where "too_large = str ''Input message too large''"

definition PING :: bytes where "PING = str ''ping''"
definition VERINFO :: bytes where "VERINFO = str ''get_version_info''"
definition LIBJADE_REQUEST_METHOD :: bytes where "LIBJADE_REQUEST_METHOD = str ''libjade_request''"

text \<open>The reply that was made at once, if any.\<close>

definition handle_immediate_message :: "wire_env \<Rightarrow> bytes \<Rightarrow> wire_event option" where
  "handle_immediate_message env msg = (case we_method env msg of
     None \<Rightarrow> None
   | Some method \<Rightarrow>
     if method = PING then Some (Pong msg)
     else if method = VERINFO then (if we_nonblocking env msg = Some True then Some (Version_Info msg) else None)
     else if we_libjade env \<and> method = LIBJADE_REQUEST_METHOD then Some (Libjade_Request msg)
     else None)"

text \<open>\<open>jade_process_push_in_message\<close>: the queue takes every message that fits, after waiting for room.\<close>

definition jade_process_push_in_message :: "wire_env \<Rightarrow> bytes \<Rightarrow> wire_event option" where
  "jade_process_push_in_message env data = (if length data > we_queue_max env then None else Some (Queued data))"

text \<open>What becomes of a complete CBOR map at the front of the buffer.\<close>

definition dispatch_message :: "wire_env \<Rightarrow> byte \<Rightarrow> bytes \<Rightarrow> wire_event option" where
  "dispatch_message env source msg =
     (if \<not> we_rpc_valid env msg then reject_data invalid_request (length msg)
      else case handle_immediate_message env msg of
        Some ev \<Rightarrow> Some ev
      | None \<Rightarrow> (case jade_process_push_in_message env (source # msg) of
          Some ev \<Rightarrow> Some ev
        | None \<Rightarrow> reject_data too_large (length msg)))"

text \<open>The loop of \<open>handle_data\<close>. \<open>read_ptr\<close> is a \<open>size_t\<close> that the last line of the loop may take below
  zero; the sum with \<open>new_data_len\<close> comes out right because both wrap.\<close>

partial_function (option) handle_loop ::
  "wire_env \<Rightarrow> u64 \<Rightarrow> u64 \<Rightarrow> bytes \<Rightarrow> u64 \<Rightarrow> bool \<Rightarrow> wire_event list \<Rightarrow> (wire_state \<times> wire_event list) option" where
  "handle_loop env now new_data_len full_data_in read_ptr have_stale evs =
     Option.bind (buf_read full_data_in 1 (unat (read_ptr + new_data_len))) (\<lambda>data.
     let parse_len = read_ptr + new_data_len; msg_len = get_msg_len env data in
     if msg_len = 0 \<and> unat parse_len \<noteq> we_max env \<and> \<not> have_stale
     then Some (\<lparr> ws_data = full_data_in, ws_read = parse_len, ws_last = now \<rparr>, evs)
     else Option.bind
       (if msg_len = 0
        then let msg_len = (if unat parse_len = we_max env then unat parse_len else unat read_ptr) in
          map_option (Pair msg_len) (reject_data invalid_request msg_len)
        else map_option (Pair msg_len) (dispatch_message env (full_data_in ! 0) (take msg_len data))) (\<lambda>(msg_len, ev).
     if msg_len = unat parse_len then Some (\<lparr> ws_data = full_data_in, ws_read = 0, ws_last = now \<rparr>, evs @ [ev])
     else Option.bind (buf_write full_data_in 1 (drop msg_len data)) (\<lambda>full_data_in.
       handle_loop env now new_data_len full_data_in (read_ptr - of_nat msg_len) False (evs @ [ev]))))"

definition handle_data :: "wire_env \<Rightarrow> u64 \<Rightarrow> u64 \<Rightarrow> wire_state \<Rightarrow> (wire_state \<times> wire_event list) option" where
  "handle_data env now new_data_len st = do {
     jade_assert (unat (ws_read st) \<le> we_max env \<and> unat (ws_read st + new_data_len) \<le> we_max env);
     jade_assert (now \<ge> ws_last st);
     let have_stale = (ws_read st \<noteq> 0 \<and> now > ws_last st + TIMEOUT_TICKS);
     handle_loop env now new_data_len (ws_data st) (ws_read st) have_stale [] }"

text \<open>\<open>libjade_send\<close>: a chunk is copied behind the pending data as far as it fits. \<open>clock i\<close> is the time at
  the \<open>i\<close>th pass.\<close>

definition SOURCE_SERIAL :: byte where "SOURCE_SERIAL = 2"

partial_function (option) send_loop ::
  "wire_env \<Rightarrow> (nat \<Rightarrow> u64) \<Rightarrow> nat \<Rightarrow> bytes \<Rightarrow> wire_state \<Rightarrow> wire_event list \<Rightarrow> (wire_state \<times> wire_event list) option" where
  "send_loop env clock i data st evs =
     (if data = [] then Some (st, evs)
      else
        let remaining_bytes = unat (of_nat (we_max env) - ws_read st);
            copy_len = min (length data) remaining_bytes in
        Option.bind (jade_assert (unat (ws_read st + of_nat copy_len) \<le> we_max env)) (\<lambda>_.
        Option.bind (buf_write (ws_data st) (1 + unat (ws_read st)) (take copy_len data)) (\<lambda>buf.
        Option.bind (handle_data env (clock i) (of_nat copy_len) (st \<lparr> ws_data := buf \<rparr>)) (\<lambda>(st, evs').
        send_loop env clock (Suc i) (drop copy_len data) st (evs @ evs')))))"

definition libjade_send :: "wire_env \<Rightarrow> (nat \<Rightarrow> u64) \<Rightarrow> bytes \<Rightarrow> wire_state \<Rightarrow> (wire_state \<times> wire_event list) option" where
  "libjade_send env clock data st = do {
     buf \<leftarrow> buf_set (ws_data st) 0 SOURCE_SERIAL;
     send_loop env clock 0 data (st \<lparr> ws_data := buf \<rparr>) [] }"

section \<open>The stream\<close>

text \<open>The laws of the CBOR library: an item lies within the bytes it was read from, and more bytes
  behind a complete item do not change it.\<close>

definition cbor_ok :: "wire_env \<Rightarrow> bool" where
  "cbor_ok env \<longleftrightarrow> (\<forall>d n m. we_item env d = Some (n, m) \<longrightarrow> 0 < n \<and> n \<le> length d \<and> (\<forall>e. we_item env (d @ e) = Some (n, m)))"

definition sizes_ok :: "wire_env \<Rightarrow> bool" where
  "sizes_ok env \<longleftrightarrow> 0 < we_max env \<and> we_max env < 10 ^ 15"

lemma get_msg_len_le: "cbor_ok env \<Longrightarrow> get_msg_len env d \<le> length d"
  by (auto simp: cbor_ok_def get_msg_len_def split: option.split bool.split)

lemma get_msg_len_append: "cbor_ok env \<Longrightarrow> get_msg_len env d \<noteq> 0 \<Longrightarrow> get_msg_len env (d @ e) = get_msg_len env d"
  unfolding cbor_ok_def get_msg_len_def by (force split: option.splits bool.splits)

lemma decimal_fits: "n < 10 ^ 15 \<Longrightarrow> length (decimal n) < 16"
  using length_decimal [of n 15] by simp

definition deliver :: "wire_env \<Rightarrow> byte \<Rightarrow> bytes \<Rightarrow> wire_event" where
  "deliver env source msg = the (dispatch_message env source msg)"

lemma dispatch_deliver: "length msg < 10 ^ 15 \<Longrightarrow> dispatch_message env source msg = Some (deliver env source msg)"
  using decimal_fits [of "length msg"]
  by (auto simp: deliver_def dispatch_message_def reject_data_def split: option.split)

text \<open>The specification: complete maps at the front are delivered one by one, and what is left stays pending
  unless it fills the buffer.\<close>

function consume :: "wire_env \<Rightarrow> byte \<Rightarrow> bytes \<Rightarrow> wire_event list \<times> bytes" where
  "consume env source data =
     (let n = get_msg_len env data in
      if n = 0 \<or> data = [] then (if length data = we_max env then ([Rejected invalid_request (length data)], []) else ([], data))
      else let (evs, rest) = consume env source (drop n data) in (deliver env source (take n data) # evs, rest))"
  by pat_completeness auto
termination
  by (relation "measure (\<lambda>(env, source, data). length data)") auto

declare consume.simps [simp del]

lemma consume_pending: "sizes_ok env \<Longrightarrow> length data \<le> we_max env \<Longrightarrow> length (snd (consume env source data)) < we_max env"
proof (induction env source data rule: consume.induct)
  case (1 env source data)
  show ?case
  proof (cases "get_msg_len env data = 0 \<or> data = []")
    case True
    then show ?thesis using "1.prems" by (subst consume.simps) (auto simp: sizes_ok_def)
  next
    case False
    have "length (drop (get_msg_len env data) data) \<le> we_max env" using "1.prems" by simp
    then have "length (snd (consume env source (drop (get_msg_len env data) data))) < we_max env"
      using "1.IH" [OF refl False] "1.prems" by blast
    then show ?thesis using False by (subst consume.simps) (simp add: Let_def split_def)
  qed
qed

text \<open>The buffer holds the source, the bytes \<open>data\<close> and unused room.\<close>

definition buffer_of :: "wire_env \<Rightarrow> byte \<Rightarrow> bytes \<Rightarrow> bytes \<Rightarrow> bool" where
  "buffer_of env source data full \<longleftrightarrow> length full = Suc (we_max env) \<and> (\<exists>rest. full = source # data @ rest)"

definition pending :: "wire_env \<Rightarrow> byte \<Rightarrow> bytes \<Rightarrow> wire_state \<Rightarrow> bool" where
  "pending env source p st \<longleftrightarrow> buffer_of env source p (ws_data st) \<and> unat (ws_read st) = length p"

lemma unat_small: "sizes_ok env \<Longrightarrow> n \<le> we_max env \<Longrightarrow> unat (of_nat n :: u64) = n"
  by (simp add: sizes_ok_def unat_of_nat take_bit_nat_eq_self)

lemma handle_loop_consume:
  assumes "cbor_ok env" and "sizes_ok env" and "buffer_of env source data full" and "unat (read_ptr + new_len) = length data"
  shows "\<exists>st. handle_loop env now new_len full read_ptr False evs = Some (st, evs @ fst (consume env source data)) \<and>
    pending env source (snd (consume env source data)) st \<and> ws_last st = now"
  using assms(3,4)
proof (induction "length data" arbitrary: data full read_ptr evs rule: less_induct)
  case less
  obtain rest where full: "full = source # data @ rest" "length full = Suc (we_max env)" using less.prems(1) by (auto simp: buffer_of_def)
  let ?n = "get_msg_len env data"
  have rd: "buf_read full 1 (unat (read_ptr + new_len)) = Some data" using full less.prems(2) by (simp add: buf_read_def)
  have lm: "length data \<le> we_max env" "?n \<le> length data" using full get_msg_len_le [OF assms(1)] by auto
  have small: "length data < 10 ^ 15" using lm assms(2) by (simp add: sizes_ok_def)
  have w: "read_ptr + new_len = of_nat (length data)" using less.prems(2) by (metis of_nat_unat ucast_id)
  show ?case
  proof (cases "?n = 0")
    case True
    show ?thesis
    proof (cases "length data = we_max env")
      case t: True
      have "reject_data invalid_request (length data) = Some (Rejected invalid_request (length data))"
        using decimal_fits [OF small] by (simp add: reject_data_def)
      moreover have "consume env source data = ([Rejected invalid_request (length data)], [])" using True t by (subst consume.simps) simp
      ultimately show ?thesis
        using True t rd less.prems full by (subst handle_loop.simps) (simp add: pending_def buffer_of_def Let_def)
    next
      case f: False
      then have "consume env source data = ([], data)" using True by (subst consume.simps) simp
      then show ?thesis
        using True f rd less.prems full by (subst handle_loop.simps) (simp add: pending_def buffer_of_def Let_def)
    qed
  next
    case False
    then have ne: "data \<noteq> []" "0 < ?n" using lm by auto
    let ?ev = "deliver env source (take ?n data)" and ?d = "drop ?n data"
    have ev: "dispatch_message env (full ! 0) (take ?n data) = Some ?ev" using dispatch_deliver [of "take ?n data"] small full by simp
    have c: "consume env source data = (?ev # fst (consume env source ?d), snd (consume env source ?d))"
      using False ne by (subst consume.simps) (simp add: Let_def split_def)
    show ?thesis
    proof (cases "?n = length data")
      case t: True
      have "consume env source ?d = ([], [])" using t assms(2) by (subst consume.simps) (simp add: sizes_ok_def)
      then show ?thesis
        using False t rd ev c less.prems full by (subst handle_loop.simps) (simp add: pending_def buffer_of_def)
    next
      case f: False
      let ?full = "source # ?d @ drop (length ?d) (data @ rest)"
      have bw: "buf_write full 1 ?d = Some ?full" using full by (simp add: buf_write_def)
      have b: "buffer_of env source ?d ?full" using full by (simp add: buffer_of_def)
      have u: "unat (read_ptr - of_nat ?n + new_len) = length ?d"
      proof -
        have "read_ptr - of_nat ?n + new_len = (read_ptr + new_len) - of_nat ?n" by (simp add: algebra_simps)
        also have "\<dots> = of_nat (length data - ?n)" unfolding w using lm(2) by (simp add: of_nat_diff)
        finally show ?thesis using unat_small [OF assms(2), of "length data - ?n"] lm(1) by simp
      qed
      have "length ?d < length data" using ne by simp
      from less.hyps [OF this b u, of "evs @ [?ev]"] show ?thesis
        using False f rd ev c bw less.prems by (subst handle_loop.simps) (simp add: Let_def)
    qed
  qed
qed

text \<open>With stale bytes in front, the pending part is dropped when the buffer does not parse.\<close>

definition drops_stale :: "wire_env \<Rightarrow> bytes \<Rightarrow> bool" where
  "drops_stale env data \<longleftrightarrow> get_msg_len env data = 0 \<and> length data \<noteq> we_max env"

lemma handle_loop_stale:
  assumes "cbor_ok env" and "sizes_ok env" and "buffer_of env source (p @ d) full"
    and "unat read_ptr = length p" and "unat new_len = length d" and "p \<noteq> []"
  shows "\<exists>st evs p'. handle_loop env now new_len full read_ptr True [] = Some (st, evs) \<and> pending env source p' st \<and>
    length p' < we_max env \<and> ws_last st = now \<and>
    (if drops_stale env (p @ d) then (evs, p') = (Rejected invalid_request (length p) # fst (consume env source d), snd (consume env source d))
     else (evs, p') = consume env source (p @ d))"
proof -
  obtain rest where full: "full = source # p @ d @ rest" "length full = Suc (we_max env)" using assms(3) by (auto simp: buffer_of_def)
  have lm: "length (p @ d) \<le> we_max env" using full by simp
  have w: "read_ptr = of_nat (length p)" "new_len = of_nat (length d)" using assms(4,5) by (metis of_nat_unat ucast_id)+
  have u: "unat (read_ptr + new_len) = length (p @ d)" unfolding w of_nat_add [symmetric] using unat_small [OF assms(2) lm] by simp
  have rd: "buf_read full 1 (unat (read_ptr + new_len)) = Some (p @ d)" using full u by (simp add: buf_read_def)
  show ?thesis
  proof (cases "drops_stale env (p @ d)")
    case True
    have r: "reject_data invalid_request (length p) = Some (Rejected invalid_request (length p))"
      using decimal_fits [of "length p"] lm assms(2) by (simp add: reject_data_def sizes_ok_def)
    show ?thesis
    proof (cases "d = []")
      case d: True
      have "consume env source [] = ([], [])" using assms(2) by (subst consume.simps) (simp add: sizes_ok_def)
      then show ?thesis
        using True d rd r u full assms(2,4) by (subst handle_loop.simps) (simp add: Let_def drops_stale_def pending_def buffer_of_def sizes_ok_def)
    next
      case d: False
      let ?full = "source # d @ drop (length d) (p @ d @ rest)"
      have bw: "buf_write full 1 d = Some ?full" using full by (simp add: buf_write_def)
      have b: "buffer_of env source d ?full" using full by (simp add: buffer_of_def)
      have z: "read_ptr - of_nat (length p) = 0" using w(1) by simp
      have u0: "unat (0 + new_len) = length d" using assms(5) by simp
      obtain st where st: "handle_loop env now new_len ?full 0 False [Rejected invalid_request (length p)]
          = Some (st, [Rejected invalid_request (length p)] @ fst (consume env source d))"
          "pending env source (snd (consume env source d)) st" "ws_last st = now"
        using handle_loop_consume [OF assms(1,2) b u0] by blast
      moreover have "handle_loop env now new_len full read_ptr True [] = handle_loop env now new_len ?full 0 False [Rejected invalid_request (length p)]"
        using True d rd r u bw z assms(4) by (subst handle_loop.simps) (simp add: Let_def drops_stale_def)
      moreover have "length (snd (consume env source d)) < we_max env" using consume_pending [OF assms(2)] lm by simp
      ultimately show ?thesis using True by simp
    qed
  next
    case False
    then have "handle_loop env now new_len full read_ptr True [] = handle_loop env now new_len full read_ptr False []"
      unfolding handle_loop.simps [of env now new_len full read_ptr True] handle_loop.simps [of env now new_len full read_ptr False]
      using rd u by (auto simp: Let_def drops_stale_def)
    moreover obtain st where "handle_loop env now new_len full read_ptr False [] = Some (st, [] @ fst (consume env source (p @ d)))"
        "pending env source (snd (consume env source (p @ d))) st" "ws_last st = now"
      using handle_loop_consume [OF assms(1-3) u] by blast
    ultimately show ?thesis
      using False consume_pending [OF assms(2) lm] by (auto intro!: exI [of _ "snd (consume env source (p @ d))"])
  qed
qed

definition stale :: "u64 \<Rightarrow> wire_state \<Rightarrow> bool" where
  "stale now st \<longleftrightarrow> ws_read st \<noteq> 0 \<and> now > ws_last st + TIMEOUT_TICKS"

lemma handle_data_consume:
  assumes "cbor_ok env" and "sizes_ok env" and "buffer_of env source (p @ d) (ws_data st)"
    and "unat (ws_read st) = length p" and "unat new_len = length d" and "ws_last st \<le> now"
  shows "\<exists>st' evs p'. handle_data env now new_len st = Some (st', evs) \<and> pending env source p' st' \<and>
    length p' < we_max env \<and> ws_last st' = now \<and> (\<not> stale now st \<longrightarrow> (evs, p') = consume env source (p @ d))"
proof -
  have lm: "length (p @ d) \<le> we_max env" using assms(3) by (auto simp: buffer_of_def)
  have "ws_read st = of_nat (length p)" "new_len = of_nat (length d)" using assms(4,5) by (metis of_nat_unat ucast_id)+
  then have u: "unat (ws_read st + new_len) = length (p @ d)" using unat_small [OF assms(2) lm] by (simp flip: of_nat_add)
  have h: "handle_data env now new_len st = handle_loop env now new_len (ws_data st) (ws_read st) (stale now st) []"
    using assms(4,6) u lm by (simp add: handle_data_def stale_def)
  show ?thesis
  proof (cases "stale now st")
    case True
    then have "p \<noteq> []" using assms(4) by (auto simp: stale_def unat_eq_zero)
    then show ?thesis using handle_loop_stale [OF assms(1-5)] h True by metis
  next
    case False
    then show ?thesis
      using handle_loop_consume [OF assms(1-3) u, of now "[]"] consume_pending [OF assms(2) lm] h
      by (auto intro!: exI [of _ "snd (consume env source (p @ d))"])
  qed
qed

section \<open>Sending\<close>

definition rising :: "u64 \<Rightarrow> (nat \<Rightarrow> u64) \<Rightarrow> bool" where
  "rising t clock \<longleftrightarrow> t \<le> clock 0 \<and> (\<forall>i. clock i \<le> clock (Suc i))"

lemma send_step:
  assumes "cbor_ok env" and "sizes_ok env" and "pending env source p st" and "length p < we_max env" and "data \<noteq> []"
  defines "n \<equiv> min (length data) (we_max env - length p)"
  assumes "ws_last st \<le> clock i"
  shows "\<exists>st' evs' p'. send_loop env clock i data st evs = send_loop env clock (Suc i) (drop n data) st' (evs @ evs') \<and>
    pending env source p' st' \<and> length p' < we_max env \<and> ws_last st' = clock i \<and>
    (\<not> stale (clock i) st \<longrightarrow> (evs', p') = consume env source (p @ take n data))"
proof -
  obtain rest where full: "ws_data st = source # p @ rest" "length (ws_data st) = Suc (we_max env)" and rp: "unat (ws_read st) = length p"
    using assms(3) by (auto simp: pending_def buffer_of_def)
  have nl: "n \<le> length data" "length p + n \<le> we_max env" using assms(4) by (auto simp: n_def)
  have w: "ws_read st = of_nat (length p)" using rp by (metis of_nat_unat ucast_id)
  have rem: "unat (of_nat (we_max env) - ws_read st) = we_max env - length p"
    unfolding w using assms(4) unat_small [OF assms(2), of "we_max env - length p"] by (simp add: of_nat_diff)
  let ?d = "take n data"
  have un: "unat (of_nat n :: u64) = length ?d" using unat_small [OF assms(2), of n] nl by simp
  have us: "unat (ws_read st + of_nat n) \<le> we_max env"
    unfolding w of_nat_add [symmetric] using unat_small [OF assms(2), of "length p + n"] nl by simp
  let ?buf = "source # p @ ?d @ drop n rest"
  have lr: "length rest = we_max env - length p" using full by simp
  have bw: "buf_write (ws_data st) (1 + unat (ws_read st)) ?d = Some ?buf" using full rp nl lr by (simp add: buf_write_def)
  have b: "buffer_of env source (p @ ?d) (ws_data (st \<lparr> ws_data := ?buf \<rparr>))" using full nl lr by (simp add: buffer_of_def)
  obtain st' evs' p' where h: "handle_data env (clock i) (of_nat n) (st \<lparr> ws_data := ?buf \<rparr>) = Some (st', evs')" "pending env source p' st'"
      "length p' < we_max env" "ws_last st' = clock i" "\<not> stale (clock i) st \<longrightarrow> (evs', p') = consume env source (p @ ?d)"
    using handle_data_consume [OF assms(1,2) b _ un, of "clock i"] rp assms(7) by (auto simp: stale_def)
  have "send_loop env clock i data st evs = send_loop env clock (Suc i) (drop n data) st' (evs @ evs')"
    using assms(5) rem us bw h(1) by (subst send_loop.simps) (simp add: n_def [symmetric])
  then show "\<exists>st' evs' p'. send_loop env clock i data st evs = send_loop env clock (Suc i) (drop n data) st' (evs @ evs') \<and>
    pending env source p' st' \<and> length p' < we_max env \<and> ws_last st' = clock i \<and>
    (\<not> stale (clock i) st \<longrightarrow> (evs', p') = consume env source (p @ take n data))"
    using h by blast
qed

lemma send_loop_returns:
  assumes "cbor_ok env" and "sizes_ok env" and "\<forall>i. clock i \<le> clock (Suc i)"
  shows "pending env source p st \<Longrightarrow> length p < we_max env \<Longrightarrow> ws_last st \<le> clock i \<Longrightarrow>
    \<exists>st' evs' p'. send_loop env clock i data st evs = Some (st', evs') \<and> pending env source p' st' \<and> length p' < we_max env"
proof (induction "length data" arbitrary: data st evs i p rule: less_induct)
  case less
  show ?case
  proof (cases "data = []")
    case True
    then show ?thesis using less.prems by (subst send_loop.simps) auto
  next
    case False
    let ?n = "min (length data) (we_max env - length p)"
    have n0: "0 < ?n" using False less.prems(2) by simp
    obtain st' evs' p' where s: "send_loop env clock i data st evs = send_loop env clock (Suc i) (drop ?n data) st' (evs @ evs')"
      "pending env source p' st'" "length p' < we_max env" "ws_last st' = clock i"
      using send_step [OF assms(1,2) less.prems(1,2) False, of clock i evs, OF less.prems(3)] by blast
    have "ws_last st' \<le> clock (Suc i)" using s(4) assms(3) by simp
    moreover have "length (drop ?n data) < length data" using n0 False by simp
    ultimately show ?thesis using less.hyps [of "drop ?n data" p' st' "Suc i" "evs @ evs'"] s by simp
  qed
qed

text \<open>A complete message, and no gap longer than the timeout.\<close>

definition complete_message :: "wire_env \<Rightarrow> bytes \<Rightarrow> bool" where
  "complete_message env m \<longleftrightarrow> we_item env m = Some (length m, True) \<and> length m \<le> we_max env"

definition prompt :: "u64 \<Rightarrow> (nat \<Rightarrow> u64) \<Rightarrow> bool" where
  "prompt t clock \<longleftrightarrow> rising t clock \<and> clock 0 \<le> t + TIMEOUT_TICKS \<and> (\<forall>i. clock (Suc i) \<le> clock i + TIMEOUT_TICKS)"

lemma prefix_no_message:
  assumes "cbor_ok env" and "complete_message env (q @ e)" and "e \<noteq> []"
  shows "get_msg_len env q = 0"
proof (rule ccontr)
  assume n: "get_msg_len env q \<noteq> 0"
  then have "get_msg_len env (q @ e) = get_msg_len env q" by (rule get_msg_len_append [OF assms(1)])
  moreover have "get_msg_len env (q @ e) = length (q @ e)" using assms(2) by (simp add: complete_message_def get_msg_len_def)
  moreover have "get_msg_len env q \<le> length q" by (rule get_msg_len_le [OF assms(1)])
  ultimately show False using assms(3) by (cases e) auto
qed

lemma consume_messages:
  assumes "cbor_ok env" and "sizes_ok env" and "list_all (complete_message env) ms" and "data @ later = concat ms" and "length data \<le> we_max env"
  shows "\<exists>k p. consume env source data = (map (deliver env source) (take k ms), p) \<and> p @ later = concat (drop k ms) \<and> get_msg_len env p = 0"
  using assms(3-5)
proof (induction ms arbitrary: data)
  case Nil
  have "get_msg_len env [] = 0" using get_msg_len_le [OF assms(1), of "[]"] by simp
  then show ?case using Nil assms(2) by (subst consume.simps) (auto simp: sizes_ok_def)
next
  case (Cons m ms)
  have m: "complete_message env m" using Cons.prems(1) by simp
  then have m0: "get_msg_len env m = length m" "m \<noteq> []" using assms(1) by (auto simp: complete_message_def get_msg_len_def cbor_ok_def)
  show ?case
  proof (cases "length m \<le> length data")
    case True
    have "take (length m) data = m" "drop (length m) data @ later = concat ms"
      using arg_cong [OF Cons.prems(2), of "take (length m)"] arg_cong [OF Cons.prems(2), of "drop (length m)"] True by simp_all
    then obtain d where d: "data = m @ d" "d @ later = concat ms" by (metis append_take_drop_id)
    then obtain k p where k: "consume env source d = (map (deliver env source) (take k ms), p)" "p @ later = concat (drop k ms)" "get_msg_len env p = 0"
      using Cons.IH [of d] Cons.prems(1,3) by auto
    have "get_msg_len env data = length m" using get_msg_len_append [OF assms(1), of m d] m0 d by simp
    then have "consume env source data = (deliver env source m # map (deliver env source) (take k ms), p)"
      using d m0 k by (subst consume.simps) simp
    then show ?thesis using k(2,3) by (intro exI [of _ "Suc k"]) simp
  next
    case False
    have "take (length data) m = data" using arg_cong [OF Cons.prems(2), of "take (length data)"] False by simp
    moreover have "drop (length data) m \<noteq> []" using False by simp
    ultimately obtain e where e: "m = data @ e" "e \<noteq> []" by (metis append_take_drop_id)
    have z: "get_msg_len env data = 0" using prefix_no_message [OF assms(1) _ e(2)] m e(1) by simp
    moreover have "length data \<noteq> we_max env" using False m by (simp add: complete_message_def)
    ultimately have "consume env source data = ([], data)" by (subst consume.simps) simp
    then show ?thesis using Cons.prems(2) z by (intro exI [of _ 0]) simp
  qed
qed

lemma send_loop_messages:
  assumes "cbor_ok env" and "sizes_ok env" and "\<forall>i. clock i \<le> clock (Suc i) \<and> clock (Suc i) \<le> clock i + TIMEOUT_TICKS"
  shows "pending env source p st \<Longrightarrow> length p < we_max env \<Longrightarrow> ws_last st \<le> clock i \<Longrightarrow> clock i \<le> ws_last st + TIMEOUT_TICKS \<Longrightarrow>
    list_all (complete_message env) ms \<Longrightarrow> p @ data @ later = concat ms \<Longrightarrow> get_msg_len env p = 0 \<Longrightarrow>
    \<exists>st' k p'. send_loop env clock i data st evs = Some (st', evs @ map (deliver env source) (take k ms)) \<and> pending env source p' st' \<and>
      length p' < we_max env \<and> p' @ later = concat (drop k ms) \<and> get_msg_len env p' = 0 \<and> (ws_last st' = ws_last st \<or> ws_last st' \<in> range clock)"
proof (induction "length data" arbitrary: data st evs i p ms rule: less_induct)
  case less
  show ?case
  proof (cases "data = []")
    case True
    then show ?thesis using less.prems by (subst send_loop.simps) (auto intro!: exI [of _ 0])
  next
    case False
    let ?n = "min (length data) (we_max env - length p)"
    have n0: "0 < ?n" using False less.prems(2) by simp
    have ns: "\<not> stale (clock i) st" using less.prems(4) by (simp add: stale_def not_less)
    obtain st' evs' p' where s: "send_loop env clock i data st evs = send_loop env clock (Suc i) (drop ?n data) st' (evs @ evs')"
      "pending env source p' st'" "length p' < we_max env" "ws_last st' = clock i" "(evs', p') = consume env source (p @ take ?n data)"
      using send_step [OF assms(1,2) less.prems(1,2) False, of clock i evs, OF less.prems(3)] ns by blast
    have "(p @ take ?n data) @ drop ?n data @ later = concat ms" using less.prems(6) by (metis append_assoc append_take_drop_id)
    moreover have "length (p @ take ?n data) \<le> we_max env" using less.prems(2) by simp
    ultimately obtain k where k: "evs' = map (deliver env source) (take k ms)" "p' @ drop ?n data @ later = concat (drop k ms)" "get_msg_len env p' = 0"
      using consume_messages [OF assms(1,2) less.prems(5), of "p @ take ?n data" "drop ?n data @ later" source] s(5) by auto
    have ms: "list_all (complete_message env) (drop k ms)" using less.prems(5) by (auto simp: list_all_iff dest: in_set_dropD)
    have t: "ws_last st' \<le> clock (Suc i)" "clock (Suc i) \<le> ws_last st' + TIMEOUT_TICKS" using s(4) assms(3) by simp_all
    have "length (drop ?n data) < length data" using n0 False by simp
    from less.hyps [OF this s(2,3) t ms k(2,3), of "evs @ evs'"]
    obtain st2 j p2 where r: "send_loop env clock (Suc i) (drop ?n data) st' (evs @ evs') = Some (st2, (evs @ evs') @ map (deliver env source) (take j (drop k ms)))"
      "pending env source p2 st2" "length p2 < we_max env" "p2 @ later = concat (drop j (drop k ms))" "get_msg_len env p2 = 0"
      "ws_last st2 = ws_last st' \<or> ws_last st2 \<in> range clock" by blast
    then have "ws_last st2 \<in> range clock" using s(4) by auto
    moreover have "take k ms @ take j (drop k ms) = take (k + j) ms" by (rule take_add [symmetric])
    moreover have "drop j (drop k ms) = drop (k + j) ms" by (simp add: add.commute)
    ultimately show ?thesis
      using s(1) r k(1) by (intro exI [of _ st2] exI [of _ "k + j"] exI [of _ p2]) (simp flip: map_append)
  qed
qed

lemma libjade_send_eq:
  assumes "pending env source p st"
  shows "\<exists>st0. libjade_send env clock data st = send_loop env clock 0 data st0 [] \<and> pending env SOURCE_SERIAL p st0 \<and> ws_last st0 = ws_last st"
proof -
  let ?st0 = "st \<lparr> ws_data := (ws_data st)[0 := SOURCE_SERIAL] \<rparr>"
  have "libjade_send env clock data st = send_loop env clock 0 data ?st0 []"
    using assms by (auto simp: libjade_send_def buf_set_def pending_def buffer_of_def)
  moreover have "pending env SOURCE_SERIAL p ?st0" using assms by (auto simp: pending_def buffer_of_def)
  ultimately show ?thesis by auto
qed

text \<open>A series of chunks sent one after the other, each promptly after the one before.\<close>

inductive exchange :: "wire_env \<Rightarrow> wire_state \<Rightarrow> bytes list \<Rightarrow> wire_event list \<Rightarrow> wire_state \<Rightarrow> bool" for env where
  quiet: "exchange env st [] [] st"
| send: "prompt (ws_last st) clock \<Longrightarrow> libjade_send env clock c st = Some (st1, ev) \<Longrightarrow> exchange env st1 cs evs st2 \<Longrightarrow>
    exchange env st (c # cs) (ev @ evs) st2"

lemma exchange_messages:
  assumes "exchange env st chunks evs st'" and "cbor_ok env" and "sizes_ok env" and "list_all (complete_message env) ms"
    and "pending env source p st" and "length p < we_max env" and "p @ concat chunks = concat ms" and "get_msg_len env p = 0"
  shows "evs = map (deliver env SOURCE_SERIAL) ms \<and> ws_read st' = 0"
  using assms(1,4-8)
proof (induction arbitrary: p ms source rule: exchange.induct)
  case (quiet st)
  have "ms = []"
  proof (rule ccontr)
    assume "ms \<noteq> []"
    then obtain m ns where ms: "ms = m # ns" by (cases ms) simp_all
    then have m: "complete_message env m" "p = m @ concat ns" using quiet.prems by simp_all
    then have "get_msg_len env m \<noteq> 0" using assms(2) by (force simp: complete_message_def get_msg_len_def cbor_ok_def)
    then show False using get_msg_len_append [OF assms(2), of m "concat ns"] m quiet.prems by simp
  qed
  then show ?case using quiet by (simp add: pending_def unat_eq_zero)
next
  case (send st clock c st1 ev cs evs st2)
  obtain st0 where st0: "libjade_send env clock c st = send_loop env clock 0 c st0 []" "pending env SOURCE_SERIAL p st0" "ws_last st0 = ws_last st"
    using libjade_send_eq [OF send.prems(2)] by blast
  have cl: "\<forall>i. clock i \<le> clock (Suc i) \<and> clock (Suc i) \<le> clock i + TIMEOUT_TICKS" "ws_last st0 \<le> clock 0" "clock 0 \<le> ws_last st0 + TIMEOUT_TICKS"
    using send.hyps(1) st0(3) by (simp_all add: prompt_def rising_def)
  have cc: "p @ c @ concat cs = concat ms" using send.prems(4) by simp
  obtain k p' where k: "ev = map (deliver env SOURCE_SERIAL) (take k ms)" "pending env SOURCE_SERIAL p' st1" "length p' < we_max env"
      "p' @ concat cs = concat (drop k ms)" "get_msg_len env p' = 0"
    using send_loop_messages [OF assms(2,3) cl(1) st0(2) send.prems(3) cl(2,3) send.prems(1) cc send.prems(5), of "[]"] send.hyps(2) st0(1) by auto
  have "list_all (complete_message env) (drop k ms)" using send.prems(1) by (auto simp: list_all_iff dest: in_set_dropD)
  from send.IH [OF this k(2,3,4,5)] show ?case using k(1) by (metis append_take_drop_id map_append)
qed

section \<open>Properties\<close>

text \<open>The transport never wedges: for every chunk of bytes, valid or not, any pending bytes and any clock that
  does not run backwards, \<open>libjade_send\<close> comes back without an abort and without leaving its buffer, and the
  buffer is not full afterwards, so that the next chunk can be taken.\<close>

lemma libjade_send_returns:
  assumes "cbor_ok env" and "sizes_ok env" and "pending env source p st" and "length p < we_max env" and "rising (ws_last st) clock"
  shows "\<exists>st' evs p'. libjade_send env clock data st = Some (st', evs) \<and> pending env SOURCE_SERIAL p' st' \<and> length p' < we_max env"
proof -
  obtain st0 where st0: "libjade_send env clock data st = send_loop env clock 0 data st0 []" "pending env SOURCE_SERIAL p st0" "ws_last st0 = ws_last st"
    using libjade_send_eq [OF assms(3)] by blast
  then show ?thesis
    using send_loop_returns [OF assms(1,2) _ st0(2) assms(4), of clock 0 data "[]"] assms(5) by (auto simp: rising_def)
qed

definition demo_item :: "bytes \<Rightarrow> (nat \<times> bool) option" where
  "demo_item d = (case d of [] \<Rightarrow> None | c # ds \<Rightarrow> if c \<ge> 0xA0 \<and> unat (c - 0xA0) \<le> length ds then Some (Suc (unat (c - 0xA0)), True) else None)"

text \<open>A small library: an item is a byte \<open>0xA0 + n\<close> and \<open>n\<close> bytes, which are the method.\<close>

definition demo_wire :: wire_env where
  "demo_wire = \<lparr> we_max = 8, we_item = demo_item, we_rpc_valid = (\<lambda>_. True), we_method = (\<lambda>m. Some (drop 1 m)), we_nonblocking = (\<lambda>_. None),
     we_libjade = False, we_queue_max = 9 \<rparr>"

definition demo_idle :: wire_state where
  "demo_idle = \<lparr> ws_data = replicate 9 0, ws_read = 0, ws_last = 100 \<rparr>"

lemma demo_wire_ok: "cbor_ok demo_wire" "sizes_ok demo_wire" "pending demo_wire 0 [] demo_idle"
proof -
  show "cbor_ok demo_wire" by (auto simp: cbor_ok_def demo_wire_def demo_item_def split: list.splits if_splits)
  show "sizes_ok demo_wire" by (simp add: sizes_ok_def demo_wire_def)
  have "replicate 9 (0 :: byte) = 0 # replicate 8 0" by code_simp
  then show "pending demo_wire 0 [] demo_idle" by (auto simp: pending_def buffer_of_def demo_idle_def demo_wire_def)
qed

text \<open>C9. However a stream of messages is cut into chunks, each message is handled exactly once, in order, and
  nothing is left pending, as long as no pause is longer than the timeout: the result depends on the stream only, not
  on where the transport split it.\<close>

theorem messages_delivered_in_order:
  assumes "cbor_ok env" and "sizes_ok env" and "list_all (complete_message env) ms" and "pending env source [] st"
    and "exchange env st chunks evs st'" and "concat chunks = concat ms"
  shows "evs = map (deliver env SOURCE_SERIAL) ms \<and> ws_read st' = 0"
proof (rule exchange_messages [OF assms(5,1,2,3,4)])
  show "get_msg_len env [] = 0" using get_msg_len_le [OF assms(1), of "[]"] by simp
qed (use assms(2,6) in \<open>simp_all add: sizes_ok_def\<close>)

lemma exchange_exists:
  assumes "cbor_ok env" and "sizes_ok env" and "list_all (complete_message env) ms" and "pending env source p st" and "length p < we_max env"
    and "p @ concat chunks = concat ms" and "get_msg_len env p = 0" and "ws_last st \<le> ws_last st + TIMEOUT_TICKS"
  shows "\<exists>evs st'. exchange env st chunks evs st'"
  using assms(3-8)
proof (induction chunks arbitrary: st p ms source)
  case Nil
  show ?case by (auto intro: exchange.quiet)
next
  case (Cons c cs)
  let ?clock = "\<lambda>_ :: nat. ws_last st"
  obtain st0 where st0: "libjade_send env ?clock c st = send_loop env ?clock 0 c st0 []" "pending env SOURCE_SERIAL p st0" "ws_last st0 = ws_last st"
    using libjade_send_eq [OF Cons.prems(2)] by blast
  have cl: "\<forall>i :: nat. ?clock i \<le> ?clock (Suc i) \<and> ?clock (Suc i) \<le> ?clock i + TIMEOUT_TICKS" "ws_last st0 \<le> ?clock 0" "?clock 0 \<le> ws_last st0 + TIMEOUT_TICKS"
    using Cons.prems(6) st0(3) by simp_all
  have cc: "p @ c @ concat cs = concat ms" using Cons.prems(4) by simp
  obtain st1 k p' where k: "send_loop env ?clock 0 c st0 [] = Some (st1, map (deliver env SOURCE_SERIAL) (take k ms))" "pending env SOURCE_SERIAL p' st1"
      "length p' < we_max env" "p' @ concat cs = concat (drop k ms)" "get_msg_len env p' = 0" "ws_last st1 = ws_last st"
    using send_loop_messages [OF assms(1,2) cl(1) st0(2) Cons.prems(3) cl(2,3) Cons.prems(1) cc Cons.prems(5), where i = 0 and evs = "[]"] st0(3) by auto
  have "list_all (complete_message env) (drop k ms)" using Cons.prems(1) by (auto simp: list_all_iff dest: in_set_dropD)
  then obtain evs st2 where "exchange env st1 cs evs st2" using Cons.IH [OF _ k(2,3,4,5)] Cons.prems(6) k(6) by auto
  moreover have "prompt (ws_last st) ?clock" using Cons.prems(6) by (simp add: prompt_def rising_def)
  moreover have "libjade_send env ?clock c st = Some (st1, map (deliver env SOURCE_SERIAL) (take k ms))" using k(1) st0(1) by simp
  ultimately show ?case using exchange.send by blast
qed

theorem messages_delivered_in_order_witness:
  "\<exists>evs st'. exchange demo_wire demo_idle [[0xA4, 112], [105, 110, 103, 0xA2, 1], [2]] evs st' \<and>
     evs = [Pong (0xA4 # PING), Queued [2, 0xA2, 1, 2]] \<and> ws_read st' = 0"
proof -
  let ?chunks = "[[0xA4, 112], [105, 110, 103, 0xA2, 1], [2]] :: bytes list" and ?ms = "[[0xA4, 112, 105, 110, 103], [0xA2, 1, 2]] :: bytes list"
  have ms: "list_all (complete_message demo_wire) ?ms" by (simp add: complete_message_def demo_wire_def demo_item_def)
  have c: "concat ?chunks = concat ?ms" by simp
  have "get_msg_len demo_wire [] = 0" by (simp add: get_msg_len_def demo_wire_def demo_item_def)
  then obtain evs st' where x: "exchange demo_wire demo_idle ?chunks evs st'"
    using exchange_exists [OF demo_wire_ok(1,2) ms demo_wire_ok(3), of ?chunks] by (auto simp: demo_wire_def demo_idle_def TIMEOUT_TICKS_def)
  have "map (deliver demo_wire SOURCE_SERIAL) ?ms = [Pong (0xA4 # PING), Queued [2, 0xA2, 1, 2]]" by code_simp
  then show ?thesis using messages_delivered_in_order [OF demo_wire_ok(1,2) ms demo_wire_ok(3) x c] x by auto
qed

end
