(* ===== verification/Network.thy ===== *)
theory Network
  imports Jade_Prelude
begin

text \<open>
  \<open>main/utils/network.c\<close> and \<open>network.h\<close>: the networks, their names and types, the time locks that
  Green uses on each. The address prefixes are constants of libwally and are not repeated here.
\<close>

datatype network_t = NETWORK_NONE | NETWORK_BITCOIN | NETWORK_BITCOIN_REGTEST | NETWORK_BITCOIN_TESTNET
  | NETWORK_LIQUID | NETWORK_LIQUID_REGTEST | NETWORK_LIQUID_TESTNET

datatype network_type_t = NETWORK_TYPE_NONE | NETWORK_TYPE_MAIN | NETWORK_TYPE_TEST

definition TAG_MAINNET :: bytes where "TAG_MAINNET = str ''mainnet''"
definition TAG_LIQUID :: bytes where "TAG_LIQUID = str ''liquid''"
definition TAG_TESTNET :: bytes where "TAG_TESTNET = str ''testnet''"
definition TAG_TESTNETLIQUID :: bytes where "TAG_TESTNETLIQUID = str ''testnet-liquid''"
definition TAG_LOCALTEST :: bytes where "TAG_LOCALTEST = str ''localtest''"
definition TAG_LOCALTESTLIQUID :: bytes where "TAG_LOCALTESTLIQUID = str ''localtest-liquid''"

lemmas tag_defs = TAG_MAINNET_def TAG_LIQUID_def TAG_TESTNET_def TAG_TESTNETLIQUID_def TAG_LOCALTEST_def
  TAG_LOCALTESTLIQUID_def

definition network_is_liquid :: "network_t \<Rightarrow> bool option" where
  "network_is_liquid n = do {
     jade_assert (n \<noteq> NETWORK_NONE);
     Some (n = NETWORK_LIQUID \<or> n = NETWORK_LIQUID_TESTNET \<or> n = NETWORK_LIQUID_REGTEST) }"

fun network_to_csv_blocks :: "network_t \<Rightarrow> nat list option" where
  "network_to_csv_blocks NETWORK_BITCOIN = Some [25920, 51840, 65535]"
| "network_to_csv_blocks NETWORK_LIQUID = Some [65535]"
| "network_to_csv_blocks NETWORK_BITCOIN_TESTNET = Some [144, 4320, 51840]"
| "network_to_csv_blocks NETWORK_BITCOIN_REGTEST = Some [144, 4320, 51840]"
| "network_to_csv_blocks NETWORK_LIQUID_TESTNET = Some [1440, 65535]"
| "network_to_csv_blocks NETWORK_LIQUID_REGTEST = Some [1440, 65535]"
| "network_to_csv_blocks NETWORK_NONE = None"

fun csv_blocks_loop :: "nat \<Rightarrow> nat list \<Rightarrow> bool" where
  "csv_blocks_loop csv_blocks [] = False"
| "csv_blocks_loop csv_blocks (a # as) = (if csv_blocks = a then True else csv_blocks_loop csv_blocks as)"

definition network_is_known_csv_blocks :: "network_t \<Rightarrow> u32 \<Rightarrow> bool option" where
  "network_is_known_csv_blocks n csv_blocks = do {
     allowed \<leftarrow> network_to_csv_blocks n;
     jade_assert (length allowed > 0);
     Some (csv_blocks_loop (unat csv_blocks) allowed) }"

definition network_is_allowable_csv_blocks :: "network_t \<Rightarrow> u32 \<Rightarrow> bool option" where
  "network_is_allowable_csv_blocks n csv_blocks = do {
     allowed \<leftarrow> network_to_csv_blocks n;
     jade_assert (length allowed > 0);
     lowest \<leftarrow> buf_get allowed 0;
     Some (unat csv_blocks \<ge> lowest) }"

definition network_from_name :: "bytes option \<Rightarrow> network_t" where
  "network_from_name name = (case name of None \<Rightarrow> NETWORK_NONE | Some name \<Rightarrow>
     if name = TAG_MAINNET then NETWORK_BITCOIN
     else if name = TAG_LIQUID then NETWORK_LIQUID
     else if name = TAG_TESTNET then NETWORK_BITCOIN_TESTNET
     else if name = TAG_TESTNETLIQUID then NETWORK_LIQUID_TESTNET
     else if name = TAG_LOCALTEST then NETWORK_BITCOIN_REGTEST
     else if name = TAG_LOCALTESTLIQUID then NETWORK_LIQUID_REGTEST
     else NETWORK_NONE)"

fun network_to_name :: "network_t \<Rightarrow> bytes option" where
  "network_to_name NETWORK_BITCOIN = Some TAG_MAINNET"
| "network_to_name NETWORK_LIQUID = Some TAG_LIQUID"
| "network_to_name NETWORK_BITCOIN_TESTNET = Some TAG_TESTNET"
| "network_to_name NETWORK_LIQUID_TESTNET = Some TAG_TESTNETLIQUID"
| "network_to_name NETWORK_BITCOIN_REGTEST = Some TAG_LOCALTEST"
| "network_to_name NETWORK_LIQUID_REGTEST = Some TAG_LOCALTESTLIQUID"
| "network_to_name NETWORK_NONE = None"

fun network_to_type :: "network_t \<Rightarrow> network_type_t" where
  "network_to_type NETWORK_BITCOIN = NETWORK_TYPE_MAIN"
| "network_to_type NETWORK_LIQUID = NETWORK_TYPE_MAIN"
| "network_to_type NETWORK_BITCOIN_TESTNET = NETWORK_TYPE_TEST"
| "network_to_type NETWORK_LIQUID_TESTNET = NETWORK_TYPE_TEST"
| "network_to_type NETWORK_BITCOIN_REGTEST = NETWORK_TYPE_TEST"
| "network_to_type NETWORK_LIQUID_REGTEST = NETWORK_TYPE_TEST"
| "network_to_type NETWORK_NONE = NETWORK_TYPE_NONE"

definition BIP32_VER_MAIN_PRIVATE :: u32 where "BIP32_VER_MAIN_PRIVATE = 0x0488ADE4"
definition BIP32_VER_TEST_PRIVATE :: u32 where "BIP32_VER_TEST_PRIVATE = 0x04358394"

definition network_to_bip32_version :: "network_t \<Rightarrow> u32 option" where
  "network_to_bip32_version n = do {
     let network_type = network_to_type n;
     jade_assert (network_type \<noteq> NETWORK_TYPE_NONE);
     Some (if network_type = NETWORK_TYPE_MAIN then BIP32_VER_MAIN_PRIVATE else BIP32_VER_TEST_PRIVATE) }"

section \<open>The tables agree\<close>

lemma csv_blocks_loop_iff: "csv_blocks_loop b as \<longleftrightarrow> b \<in> set as"
  by (induction as) auto

text \<open>Names round trip, and what is known of a network's time locks is also allowed.\<close>

lemma network_name_roundtrip:
  "network_to_name n = Some s \<Longrightarrow> network_from_name (Some s) = n"
  by (cases n) (auto simp: network_from_name_def tag_defs chr_def)

lemma network_known_csv_allowable:
  assumes "network_is_known_csv_blocks n b = Some True"
  shows "network_is_allowable_csv_blocks n b = Some True"
  using assms
  by (cases n)
    (auto simp: network_is_known_csv_blocks_def network_is_allowable_csv_blocks_def buf_get_def csv_blocks_loop_iff)

lemma network_asserts_only_none:
  "n \<noteq> NETWORK_NONE \<Longrightarrow>
     network_is_liquid n \<noteq> None \<and> network_to_name n \<noteq> None \<and> network_to_bip32_version n \<noteq> None \<and>
     network_is_known_csv_blocks n b \<noteq> None \<and> network_is_allowable_csv_blocks n b \<noteq> None"
  by (cases n)
    (simp_all add: network_is_liquid_def network_to_bip32_version_def network_is_known_csv_blocks_def
      network_is_allowable_csv_blocks_def buf_get_def)

end
