(* ===== verification/Wallet.thy ===== *)
theory Wallet
  imports Network C_Text
begin

text \<open>
  \<open>main/wallet.c\<close>: what the wallet itself decides about scripts, paths and keys. The functions of
  libwally it calls are the fields of the record \<open>libwally\<close>, over a type \<open>'k\<close> of extended keys;
  \<open>None\<close> in a field is a result other than \<open>WALLY_OK\<close>, and \<open>JADE_WALLY_VERIFY\<close> of such a result is
  an abort. The keychain is \<open>Some\<close> extended private key when the wallet is unlocked.

  The theorems: a printed path fits its buffer; the address search returns the first index whose
  script matches; Green paths built here are recognised here.
\<close>

section \<open>libwally\<close>

record 'k libwally =
  bip32_key_unserialize :: "bytes \<Rightarrow> 'k option"
  bip32_key_serialize :: "'k \<Rightarrow> bytes option"
  bip32_key_from_parent_path :: "'k \<Rightarrow> u32 list \<Rightarrow> u32 \<Rightarrow> 'k option"
  bip32_key_from_parent :: "'k \<Rightarrow> u32 \<Rightarrow> u32 \<Rightarrow> 'k option"
  bip32_key_strip_private_key :: "'k \<Rightarrow> 'k option"
  bip32_path_from_str :: "bytes \<Rightarrow> u32 list option"
  key_pub_key :: "'k \<Rightarrow> bytes"
  key_priv_key :: "'k \<Rightarrow> bytes"
  key_chain_code :: "'k \<Rightarrow> bytes"
  key_hash160 :: "'k \<Rightarrow> bytes"
  base58_to_bytes :: "bytes \<Rightarrow> bytes option"
  base58_from_bytes :: "bytes \<Rightarrow> bytes option"
  hex_to_bytes :: "bytes \<Rightarrow> bytes option"
  hex_from_bytes :: "bytes \<Rightarrow> bytes"
  hmac_sha256 :: "bytes \<Rightarrow> bytes \<Rightarrow> bytes option"
  aes_cbc_encrypt :: "bytes \<Rightarrow> bytes \<Rightarrow> bytes \<Rightarrow> bytes option"
  aes_cbc_decrypt :: "bytes \<Rightarrow> bytes \<Rightarrow> bytes \<Rightarrow> bytes option"
  scriptpubkey_multisig :: "bytes \<Rightarrow> nat \<Rightarrow> bool \<Rightarrow> bytes option"
  witness_program :: "bytes \<Rightarrow> bool \<Rightarrow> bytes option"
  scriptpubkey_p2sh :: "bytes \<Rightarrow> bytes option"
  scriptpubkey_p2pkh :: "bytes \<Rightarrow> bytes option"
  scriptpubkey_p2tr :: "bytes \<Rightarrow> bool \<Rightarrow> bytes option"

definition BIP32_FLAG_KEY_PRIVATE :: u32 where "BIP32_FLAG_KEY_PRIVATE = 0"
definition BIP32_FLAG_KEY_PUBLIC :: u32 where "BIP32_FLAG_KEY_PUBLIC = 1"
definition BIP32_FLAG_SKIP_HASH :: u32 where "BIP32_FLAG_SKIP_HASH = 2"
definition BIP32_SERIALIZED_LEN :: nat where "BIP32_SERIALIZED_LEN = 78"
definition BIP32_KEY_FINGERPRINT_LEN :: nat where "BIP32_KEY_FINGERPRINT_LEN = 4"
definition EC_PUBLIC_KEY_LEN :: nat where "EC_PUBLIC_KEY_LEN = 33"
definition HMAC_SHA256_LEN :: nat where "HMAC_SHA256_LEN = 32"
definition HMAC_SHA512_LEN :: nat where "HMAC_SHA512_LEN = 64"
definition MAX_ALLOWED_SIGNERS :: nat where "MAX_ALLOWED_SIGNERS = 15"
definition MAX_PATH_LEN :: nat where "MAX_PATH_LEN = 16"

lemmas wallet_lens = BIP32_SERIALIZED_LEN_def BIP32_KEY_FINGERPRINT_LEN_def EC_PUBLIC_KEY_LEN_def HMAC_SHA256_LEN_def
  HMAC_SHA512_LEN_def MAX_ALLOWED_SIGNERS_def MAX_PATH_LEN_def

section \<open>Script variants\<close>

datatype script_variant_t = GREEN | P2PKH | P2WPKH | P2WPKH_P2SH | MULTI_P2WSH | MULTI_P2SH | MULTI_P2WSH_P2SH | P2TR

definition is_greenaddress :: "script_variant_t \<Rightarrow> bool" where
  "is_greenaddress v \<longleftrightarrow> v = GREEN"

definition is_singlesig :: "script_variant_t \<Rightarrow> bool" where
  "is_singlesig v \<longleftrightarrow> v = P2PKH \<or> v = P2WPKH \<or> v = P2WPKH_P2SH \<or> v = P2TR"

definition is_multisig :: "script_variant_t \<Rightarrow> bool" where
  "is_multisig v \<longleftrightarrow> v = MULTI_P2SH \<or> v = MULTI_P2WSH \<or> v = MULTI_P2WSH_P2SH"

fun script_length_for_variant :: "script_variant_t \<Rightarrow> nat" where
  "script_length_for_variant P2PKH = 25"
| "script_length_for_variant P2WPKH = 22"
| "script_length_for_variant P2TR = 34"
| "script_length_for_variant GREEN = 23"
| "script_length_for_variant P2WPKH_P2SH = 23"
| "script_length_for_variant MULTI_P2SH = 23"
| "script_length_for_variant MULTI_P2WSH_P2SH = 23"
| "script_length_for_variant MULTI_P2WSH = 34"

fun get_script_variant_string :: "script_variant_t \<Rightarrow> bytes option" where
  "get_script_variant_string P2PKH = Some (str ''pkh(k)'')"
| "get_script_variant_string P2WPKH = Some (str ''wpkh(k)'')"
| "get_script_variant_string P2WPKH_P2SH = Some (str ''sh(wpkh(k))'')"
| "get_script_variant_string P2TR = Some (str ''tr(k)'')"
| "get_script_variant_string MULTI_P2WSH = Some (str ''wsh(multi(k))'')"
| "get_script_variant_string MULTI_P2SH = Some (str ''sh(multi(k))'')"
| "get_script_variant_string MULTI_P2WSH_P2SH = Some (str ''sh(wsh(multi(k)))'')"
| "get_script_variant_string GREEN = None"

definition get_script_variant :: "bytes option \<Rightarrow> nat \<Rightarrow> script_variant_t option" where
  "get_script_variant variant variant_len = (case variant of
     None \<Rightarrow> Some GREEN
   | Some v \<Rightarrow>
     if variant_len = 0 then Some GREEN
     else if v = str ''pkh(k)'' then Some P2PKH
     else if v = str ''wpkh(k)'' then Some P2WPKH
     else if v = str ''sh(wpkh(k))'' then Some P2WPKH_P2SH
     else if v = str ''tr(k)'' then Some P2TR
     else if v = str ''sh(multi(k))'' then Some MULTI_P2SH
     else if v = str ''wsh(multi(k))'' then Some MULTI_P2WSH
     else if v = str ''sh(wsh(multi(k)))'' then Some MULTI_P2WSH_P2SH
     else None)"

definition BIP32_INITIAL_HARDENED_CHILD :: u32 where "BIP32_INITIAL_HARDENED_CHILD = 0x80000000"

fun get_script_variant_purpose :: "script_variant_t \<Rightarrow> u32 option" where
  "get_script_variant_purpose P2PKH = Some (BIP32_INITIAL_HARDENED_CHILD + 44)"
| "get_script_variant_purpose P2WPKH = Some (BIP32_INITIAL_HARDENED_CHILD + 84)"
| "get_script_variant_purpose P2WPKH_P2SH = Some (BIP32_INITIAL_HARDENED_CHILD + 49)"
| "get_script_variant_purpose P2TR = Some (BIP32_INITIAL_HARDENED_CHILD + 86)"
| "get_script_variant_purpose MULTI_P2SH = Some (BIP32_INITIAL_HARDENED_CHILD + 45)"
| "get_script_variant_purpose MULTI_P2WSH = Some (BIP32_INITIAL_HARDENED_CHILD + 48)"
| "get_script_variant_purpose MULTI_P2WSH_P2SH = Some (BIP32_INITIAL_HARDENED_CHILD + 48)"
| "get_script_variant_purpose GREEN = None"

section \<open>Paths as text\<close>

definition MAX_PATH_STR_LEN :: "nat \<Rightarrow> nat" where
  "MAX_PATH_STR_LEN max_path_elems = 1 + ((1 + 10 + 1) * max_path_elems) + 1"

text \<open>One element as the format strings print it; \<open>bare\<close> is the first element of a path without
  the leading \<open>m\<close>.\<close>

definition path_element_text :: "bool \<Rightarrow> u32 \<Rightarrow> bytes" where
  "path_element_text bare part =
     (if bare then [] else str ''/'') @ decimal (unat (unharden part)) @ (if ishardened part then [39] else [])"

fun path_as_str_loop :: "bool \<Rightarrow> nat \<Rightarrow> u32 list \<Rightarrow> nat \<Rightarrow> bytes \<Rightarrow> bytes option" where
  "path_as_str_loop path_only i [] output_len out = Some out"
| "path_as_str_loop path_only i (part # parts) output_len out =
     (let freespace = output_len - length out;
          txt = path_element_text (path_only \<and> i = 0) part in
      if length txt \<ge> freespace then None
      else path_as_str_loop path_only (Suc i) parts output_len (out @ txt))"

definition wallet_bip32_path_as_str :: "u32 list \<Rightarrow> nat \<Rightarrow> bool \<Rightarrow> bytes option option" where
  "wallet_bip32_path_as_str parts output_len path_only = do {
     jade_assert (output_len > 16);
     Some (path_as_str_loop path_only 0 parts output_len (if path_only then [] else str ''m'')) }"

definition wallet_bip32_path_from_str :: "'k libwally \<Rightarrow> bytes \<Rightarrow> nat \<Rightarrow> u32 list option option" where
  "wallet_bip32_path_from_str wl pathstr path_len = do {
     jade_assert (path_len > 0);
     Some (case bip32_path_from_str wl pathstr of
       None \<Rightarrow> None
     | Some path \<Rightarrow> if length path > path_len then None else Some path) }"

section \<open>Keys\<close>

definition wallet_derive_pubkey :: "'k libwally \<Rightarrow> bytes \<Rightarrow> u32 list \<Rightarrow> u32 \<Rightarrow> 'k option option" where
  "wallet_derive_pubkey wl serialised_key path flags =
     (if length serialised_key \<noteq> BIP32_SERIALIZED_LEN then Some None
      else case bip32_key_unserialize wl serialised_key of
        None \<Rightarrow> Some None
      | Some root \<Rightarrow>
        if path \<noteq> [] then do {
          hdkey \<leftarrow> bip32_key_from_parent_path wl root path (flags OR BIP32_FLAG_KEY_PUBLIC);
          Some (Some hdkey) }
        else Some (Some root))"

definition wallet_derive_from_xpub :: "'k libwally \<Rightarrow> bytes \<Rightarrow> u32 list \<Rightarrow> u32 \<Rightarrow> 'k option option" where
  "wallet_derive_from_xpub wl xpub path flags = (case base58_to_bytes wl xpub of
     None \<Rightarrow> Some None
   | Some bytes \<Rightarrow>
     if length bytes \<noteq> BIP32_SERIALIZED_LEN then Some None else wallet_derive_pubkey wl bytes path flags)"

definition wallet_get_fingerprint :: "'k libwally \<Rightarrow> 'k option \<Rightarrow> nat \<Rightarrow> bytes option" where
  "wallet_get_fingerprint wl keychain output_len = do {
     xpriv \<leftarrow> keychain;
     jade_assert (output_len = BIP32_KEY_FINGERPRINT_LEN);
     buf_read (key_hash160 wl xpriv) 0 output_len }"

definition wallet_get_hdkey :: "'k libwally \<Rightarrow> 'k option \<Rightarrow> u32 list \<Rightarrow> u32 \<Rightarrow> 'k option option" where
  "wallet_get_hdkey wl keychain path flags = do {
     xpriv \<leftarrow> keychain;
     if path = [] then
       (if flags AND BIP32_FLAG_KEY_PUBLIC \<noteq> 0 then do {
          output \<leftarrow> bip32_key_strip_private_key wl xpriv;
          Some (Some output) }
        else Some (Some xpriv))
     else Some (bip32_key_from_parent_path wl xpriv path flags) }"

text \<open>The private key is stored with a one byte prefix, which is not part of the HMAC key.\<close>

definition wallet_hmac_with_master_key :: "'k libwally \<Rightarrow> 'k option \<Rightarrow> bytes \<Rightarrow> nat \<Rightarrow> bytes option option" where
  "wallet_hmac_with_master_key wl keychain data output_len = do {
     xpriv \<leftarrow> keychain;
     if data = [] \<or> output_len \<noteq> HMAC_SHA256_LEN then Some None
     else Some (hmac_sha256 wl (drop 1 (key_priv_key wl xpriv)) data) }"

section \<open>Expected paths\<close>

definition SUBACT_ROOT :: u32 where "SUBACT_ROOT = BIP32_INITIAL_HARDENED_CHILD + 3"
definition SUBACT_FLOOR :: u32 where "SUBACT_FLOOR = BIP32_INITIAL_HARDENED_CHILD"
definition SUBACT_CEILING :: u32 where "SUBACT_CEILING = BIP32_INITIAL_HARDENED_CHILD + 16384"
definition PATH_BRANCH :: u32 where "PATH_BRANCH = 1"
definition MAX_PATH_PTR :: u32 where "MAX_PATH_PTR = 10000"
definition BIP44_COIN_BTC :: u32 where "BIP44_COIN_BTC = BIP32_INITIAL_HARDENED_CHILD"
definition BIP44_COIN_TEST :: u32 where "BIP44_COIN_TEST = BIP32_INITIAL_HARDENED_CHILD + 1"
definition BIP44_COIN_LBTC :: u32 where "BIP44_COIN_LBTC = BIP32_INITIAL_HARDENED_CHILD + 1776"

lemmas path_consts = BIP32_INITIAL_HARDENED_CHILD_def SUBACT_ROOT_def SUBACT_FLOOR_def SUBACT_CEILING_def PATH_BRANCH_def
  MAX_PATH_PTR_def BIP44_COIN_BTC_def BIP44_COIN_TEST_def BIP44_COIN_LBTC_def

text \<open>\<open>network_type\<close> is the restriction kept by the keychain.\<close>

definition wallet_get_default_xpub_export_path ::
  "network_type_t \<Rightarrow> script_variant_t \<Rightarrow> u16 \<Rightarrow> nat \<Rightarrow> u32 list option" where
  "wallet_get_default_xpub_export_path network_type variant account path_len = do {
     jade_assert (\<not> is_greenaddress variant);
     jade_assert (path_len > 3);
     purpose \<leftarrow> get_script_variant_purpose variant;
     if variant = MULTI_P2SH then Some [purpose]
     else do {
       let coin = (if network_type = NETWORK_TYPE_TEST then BIP44_COIN_TEST else BIP44_COIN_BTC);
       let path = [purpose, coin, harden (ucast account)];
       Some (if is_multisig variant
         then path @ [harden (if variant = MULTI_P2WSH then 2 else if variant = MULTI_P2WSH_P2SH then 1 else 0)]
         else path) } }"

fun get_bip44_coin_type :: "network_t \<Rightarrow> u32 option" where
  "get_bip44_coin_type NETWORK_BITCOIN = Some BIP44_COIN_BTC"
| "get_bip44_coin_type NETWORK_LIQUID = Some BIP44_COIN_LBTC"
| "get_bip44_coin_type NETWORK_BITCOIN_TESTNET = Some BIP44_COIN_TEST"
| "get_bip44_coin_type NETWORK_LIQUID_TESTNET = Some BIP44_COIN_TEST"
| "get_bip44_coin_type NETWORK_BITCOIN_REGTEST = Some BIP44_COIN_TEST"
| "get_bip44_coin_type NETWORK_LIQUID_REGTEST = Some BIP44_COIN_TEST"
| "get_bip44_coin_type NETWORK_NONE = None"

definition wallet_is_expected_singlesig_path :: "network_t \<Rightarrow> script_variant_t \<Rightarrow> bool \<Rightarrow> u32 list \<Rightarrow> bool option" where
  "wallet_is_expected_singlesig_path network_id variant is_change path = do {
     jade_assert (is_singlesig variant);
     if length path \<noteq> 5 then Some False
     else do {
       purpose \<leftarrow> get_script_variant_purpose variant;
       if path ! 0 \<noteq> purpose then Some False
       else do {
         expected_coin_type \<leftarrow> get_bip44_coin_type network_id;
         Some (if path ! 1 \<noteq> expected_coin_type then False
           else if path ! 2 < SUBACT_FLOOR \<or> path ! 2 \<ge> SUBACT_CEILING then False
           else if path ! 3 \<noteq> (if is_change then 1 else 0) then False
           else if path ! 4 \<ge> MAX_PATH_PTR then False
           else True) } } }"

definition wallet_is_expected_multisig_path :: "nat \<Rightarrow> bool \<Rightarrow> u32 list \<Rightarrow> bool" where
  "wallet_is_expected_multisig_path cosigner_index is_change path =
     (let path_len = length path in
      if path_len = 0 \<or> path_len > 3 then False
      else if path_len > 0 \<and> path ! (path_len - 1) \<ge> MAX_PATH_PTR then False
      else if path_len > 1 \<and> path ! (path_len - 2) \<noteq> (if is_change then 1 else 0) then False
      else if path_len > 2 \<and> unat (path ! (path_len - 3)) \<noteq> cosigner_index then False
      else True)"

section \<open>Green paths\<close>

definition GASERVICE_PATH_LEN :: nat where "GASERVICE_PATH_LEN = 32"
definition GASERVICE_ROOT_PATH_LEN :: nat where "GASERVICE_ROOT_PATH_LEN = 1 + 32"
definition MAX_GASERVICE_PATH_TAIL_LEN :: nat where "MAX_GASERVICE_PATH_TAIL_LEN = 1 + 1"

definition wallet_build_receive_path :: "u32 \<Rightarrow> u32 \<Rightarrow> u32 \<Rightarrow> nat \<Rightarrow> u32 list option" where
  "wallet_build_receive_path subaccount branch pointer output_len = do {
     jade_assert (output_len \<ge> 4);
     Some (if subaccount > 0 then [SUBACT_ROOT, harden subaccount, branch, pointer] else [branch, pointer]) }"

fun serialize_gaservice_loop :: "u32 list \<Rightarrow> bytes option" where
  "serialize_gaservice_loop [] = Some []"
| "serialize_gaservice_loop (p # ps) = do {
     jade_assert (p AND 0xFFFF0000 = 0);
     rest \<leftarrow> serialize_gaservice_loop ps;
     Some (ucast (drop_bit 8 p) # ucast (p AND 0xFF) # rest) }"

definition wallet_serialize_gaservice_path :: "nat \<Rightarrow> u32 list \<Rightarrow> bytes option option" where
  "wallet_serialize_gaservice_path serialized_len gaservice_path =
     (if serialized_len \<noteq> HMAC_SHA512_LEN \<or> length gaservice_path \<noteq> GASERVICE_PATH_LEN then Some None
      else map_option Some (serialize_gaservice_loop gaservice_path))"

definition wallet_unserialize_gaservice_path :: "bytes \<Rightarrow> nat \<Rightarrow> u32 list option" where
  "wallet_unserialize_gaservice_path serialized gaservice_path_len =
     (if length serialized \<noteq> HMAC_SHA512_LEN \<or> gaservice_path_len \<noteq> GASERVICE_PATH_LEN then None
      else Some (map (\<lambda>i. push_bit 8 (ucast (serialized ! (2 * i))) + ucast (serialized ! (2 * i + 1)))
        [0..<gaservice_path_len]))"

definition wallet_get_gaservice_path_root :: "u32 list option \<Rightarrow> bool \<Rightarrow> u32 list option" where
  "wallet_get_gaservice_path_root keychain_path subaccount_root = do {
     gaservice_path \<leftarrow> keychain_path;
     Some ((if subaccount_root then 3 else 1) # gaservice_path) }"

text \<open>The tail and whether the path is that of a subaccount.\<close>

definition wallet_get_gaservice_path_tail :: "u32 list \<Rightarrow> (u32 list \<times> bool) option" where
  "wallet_get_gaservice_path_tail path =
     (if length path = 2 \<and> path ! 0 = PATH_BRANCH \<and> path ! 1 < MAX_PATH_PTR then Some ([path ! 1], False)
      else if length path = 4 \<and> path ! 0 = SUBACT_ROOT \<and> path ! 1 > SUBACT_FLOOR \<and> path ! 1 < SUBACT_CEILING
        \<and> path ! 2 = PATH_BRANCH \<and> path ! 3 < MAX_PATH_PTR then Some ([unharden (path ! 1), path ! 3], True)
      else None)"

definition wallet_get_gaservice_path :: "u32 list option \<Rightarrow> u32 list \<Rightarrow> nat \<Rightarrow> u32 list option option" where
  "wallet_get_gaservice_path keychain_path path ga_path_len =
     (if path = [] \<or> ga_path_len \<noteq> MAX_GASERVICE_PATH_LEN then Some None
      else case wallet_get_gaservice_path_tail path of
        None \<Rightarrow> Some None
      | Some (tail, is_subaccount_path) \<Rightarrow> do {
          root \<leftarrow> wallet_get_gaservice_path_root keychain_path is_subaccount_path;
          Some (Some (root @ tail)) })"

section \<open>Scripts\<close>

definition MULTISIG_SCRIPT_LEN :: "nat \<Rightarrow> nat" where
  "MULTISIG_SCRIPT_LEN n = 3 + n * (EC_PUBLIC_KEY_LEN + 1)"

text \<open>\<open>sha\<close> is the flag \<open>WALLY_SCRIPT_SHA256\<close>, its negation \<open>WALLY_SCRIPT_HASH160\<close>.\<close>

definition wallet_p2sh_p2wsh_scriptpubkey_for_bytes :: "'k libwally \<Rightarrow> bytes \<Rightarrow> bool \<Rightarrow> nat \<Rightarrow> bytes option" where
  "wallet_p2sh_p2wsh_scriptpubkey_for_bytes wl bs sha output_len = do {
     jade_assert (length bs > 0);
     jade_assert (output_len \<ge> 23);
     redeem_script \<leftarrow> witness_program wl bs sha;
     jade_assert (length redeem_script = (if sha then 34 else 22));
     script \<leftarrow> scriptpubkey_p2sh wl redeem_script;
     jade_assert (length script = 23);
     Some script }"

definition wallet_build_multisig :: "'k libwally \<Rightarrow> bool \<Rightarrow> nat \<Rightarrow> bytes \<Rightarrow> nat \<Rightarrow> bytes option" where
  "wallet_build_multisig wl is_sorted threshold pubkeys output_len = do {
     let num_pubkeys = length pubkeys div EC_PUBLIC_KEY_LEN;
     jade_assert (num_pubkeys * EC_PUBLIC_KEY_LEN = length pubkeys);
     jade_assert (threshold > 0);
     jade_assert (threshold \<le> num_pubkeys);
     jade_assert (output_len \<ge> MULTISIG_SCRIPT_LEN num_pubkeys);
     script \<leftarrow> scriptpubkey_multisig wl pubkeys threshold is_sorted;
     jade_assert (length script = MULTISIG_SCRIPT_LEN num_pubkeys);
     Some script }"

definition wallet_build_singlesig_script ::
  "'k libwally \<Rightarrow> 'k option \<Rightarrow> network_t \<Rightarrow> script_variant_t \<Rightarrow> 'k \<Rightarrow> nat \<Rightarrow> bytes option option" where
  "wallet_build_singlesig_script wl keychain network_id variant hdkey output_len = do {
     jade_assert (keychain \<noteq> None);
     if \<not> is_singlesig variant \<or> output_len < script_length_for_variant variant then Some None
     else do {
       let pubkey = key_pub_key wl hdkey;
       script \<leftarrow>
         (if variant = P2WPKH_P2SH then wallet_p2sh_p2wsh_scriptpubkey_for_bytes wl pubkey False output_len
          else if variant = P2WPKH then witness_program wl pubkey False
          else if variant = P2PKH then scriptpubkey_p2pkh wl pubkey
          else do {
            liquid \<leftarrow> network_is_liquid network_id;
            scriptpubkey_p2tr wl pubkey liquid });
       jade_assert (length script = script_length_for_variant variant);
       Some (Some script) } }"

definition wallet_build_multisig_script ::
  "'k libwally \<Rightarrow> 'k option \<Rightarrow> script_variant_t \<Rightarrow> bool \<Rightarrow> nat \<Rightarrow> bytes \<Rightarrow> nat \<Rightarrow> bytes option option" where
  "wallet_build_multisig_script wl keychain variant is_sorted threshold pubkeys output_len = do {
     jade_assert (keychain \<noteq> None);
     if \<not> is_multisig variant \<or> threshold = 0 \<or> pubkeys = [] \<or> output_len < script_length_for_variant variant
     then Some None
     else do {
       multisig_script \<leftarrow> wallet_build_multisig wl is_sorted threshold pubkeys (MULTISIG_SCRIPT_LEN MAX_ALLOWED_SIGNERS);
       script \<leftarrow>
         (if variant = MULTI_P2WSH_P2SH then wallet_p2sh_p2wsh_scriptpubkey_for_bytes wl multisig_script True output_len
          else if variant = MULTI_P2WSH then witness_program wl multisig_script True
          else scriptpubkey_p2sh wl multisig_script);
       jade_assert (length script = script_length_for_variant variant);
       Some (Some script) } }"

section \<open>Searching for a script\<close>

lemma unat_Suc_below:
  assumes "index < (stop :: 'a::len word)"
  shows "unat (index + 1) = Suc (unat index)"
proof -
  have "unat index < unat stop" using assms by (simp add: word_less_nat_alt)
  moreover have "unat stop < 2 ^ LENGTH('a)" by (rule unsigned_less)
  ultimately have "Suc (unat index) < 2 ^ LENGTH('a)" by linarith
  then have "unat (of_nat (Suc (unat index)) :: 'a word) = Suc (unat index)"
    by (simp only: unat_of_nat take_bit_eq_mod mod_less)
  then show ?thesis by (simp add: add.commute)
qed

text \<open>The loop of both searches. \<open>leaf\<close> builds the script at an index; the result is whether a
  match was found and where \<open>*index\<close> has stopped. \<open>*index\<close> and \<open>end\<close> are 64-bit \<open>size_t\<close>.\<close>

function search_loop :: "(u64 \<Rightarrow> bytes option option) \<Rightarrow> bytes \<Rightarrow> u64 \<Rightarrow> u64 \<Rightarrow> (bool \<times> u64) option" where
  "search_loop leaf script index stop =
     (if index < stop then
        (case leaf index of
           None \<Rightarrow> None
         | Some None \<Rightarrow> Some (False, index)
         | Some (Some generated) \<Rightarrow>
             if generated = script then Some (True, index) else search_loop leaf script (index + 1) stop)
      else Some (False, index))"
  by pat_completeness auto
termination
proof (relation "measure (\<lambda>(leaf, script, index, stop). unat stop - unat index)")
  fix leaf :: "u64 \<Rightarrow> bytes option option" and script generated :: bytes and index stop :: u64 and x
  assume "index < stop"
  then have "unat (index + 1) = unat index + 1" and "unat index < unat stop"
    using unat_Suc_below [of index stop] by (simp_all add: word_less_nat_alt)
  then show "((leaf, script, index + 1, stop), leaf, script, index, stop)
      \<in> measure (\<lambda>(leaf, script, index, stop). unat stop - unat index)" by simp
qed simp

declare search_loop.simps [simp del]

definition singlesig_leaf ::
  "'k libwally \<Rightarrow> 'k option \<Rightarrow> network_t \<Rightarrow> script_variant_t \<Rightarrow> 'k \<Rightarrow> u64 \<Rightarrow> bytes option option" where
  "singlesig_leaf wl keychain network_id variant search_root index = do {
     derived \<leftarrow> bip32_key_from_parent wl search_root (ucast index) (BIP32_FLAG_KEY_PUBLIC OR BIP32_FLAG_SKIP_HASH);
     wallet_build_singlesig_script wl keychain network_id variant derived 34 }"

definition wallet_search_for_singlesig_script ::
  "'k libwally \<Rightarrow> 'k option \<Rightarrow> network_t \<Rightarrow> script_variant_t \<Rightarrow> 'k \<Rightarrow> u64 \<Rightarrow> u64 \<Rightarrow> bytes \<Rightarrow> (bool \<times> u64) option" where
  "wallet_search_for_singlesig_script wl keychain network_id variant search_root index search_depth script = do {
     jade_assert (keychain \<noteq> None);
     if \<not> is_singlesig variant \<or> search_depth = 0 \<or> length script \<noteq> script_length_for_variant variant
     then Some (False, index)
     else search_loop (singlesig_leaf wl keychain network_id variant search_root) script index (index + search_depth) }"

fun derive_pubkeys :: "'k libwally \<Rightarrow> 'k list \<Rightarrow> u64 \<Rightarrow> bytes option" where
  "derive_pubkeys wl [] index = Some []"
| "derive_pubkeys wl (root # roots) index = do {
     derived \<leftarrow> bip32_key_from_parent wl root (ucast index) (BIP32_FLAG_KEY_PUBLIC OR BIP32_FLAG_SKIP_HASH);
     rest \<leftarrow> derive_pubkeys wl roots index;
     Some (key_pub_key wl derived @ rest) }"

definition multisig_leaf ::
  "'k libwally \<Rightarrow> 'k option \<Rightarrow> script_variant_t \<Rightarrow> bool \<Rightarrow> nat \<Rightarrow> 'k list \<Rightarrow> u64 \<Rightarrow> bytes option option" where
  "multisig_leaf wl keychain variant is_sorted threshold search_roots index = do {
     pubkeys \<leftarrow> derive_pubkeys wl search_roots index;
     wallet_build_multisig_script wl keychain variant is_sorted threshold pubkeys 34 }"

definition wallet_search_for_multisig_script ::
  "'k libwally \<Rightarrow> 'k option \<Rightarrow> script_variant_t \<Rightarrow> bool \<Rightarrow> nat \<Rightarrow> 'k list \<Rightarrow> u64 \<Rightarrow> u64 \<Rightarrow> bytes \<Rightarrow> (bool \<times> u64) option" where
  "wallet_search_for_multisig_script wl keychain variant is_sorted threshold search_roots index search_depth script = do {
     jade_assert (keychain \<noteq> None);
     if \<not> is_multisig variant \<or> threshold = 0 \<or> search_roots = [] \<or> length search_roots > MAX_ALLOWED_SIGNERS
       \<or> search_depth = 0 \<or> length script \<noteq> script_length_for_variant variant
     then Some (False, index)
     else search_loop (multisig_leaf wl keychain variant is_sorted threshold search_roots) script index (index + search_depth) }"

section \<open>Printed paths\<close>

definition path_text :: "u32 list \<Rightarrow> bytes" where
  "path_text parts = str ''m'' @ concat (map (path_element_text False) parts)"

lemma bit_hardened: "bit (0x80000000 :: u32) n \<longleftrightarrow> n = 31"
proof -
  have "(0x80000000 :: u32) = push_bit 31 1" by simp
  then have "bit (0x80000000 :: u32) n \<longleftrightarrow> bit (push_bit 31 1 :: u32) n" by (rule arg_cong)
  then show ?thesis by (simp only: bit_push_bit_iff bit_1_iff) auto
qed

lemma unharden_take_bit: "unharden p = take_bit 31 p"
  unfolding unharden_def
  by (rule bit_word_eqI)
    (auto simp only: bit_and_iff bit_not_iff bit_take_bit_iff bit_hardened possible_bit_word, simp_all)

lemma ishardened_bit: "ishardened p \<longleftrightarrow> bit p 31"
proof -
  have "p AND 0x80000000 = (if bit p 31 then 0x80000000 else 0)"
    by (rule bit_word_eqI, cases "bit p 31") (simp_all only: if_True if_False bit_and_iff bit_hardened, auto)
  then show ?thesis by (simp add: ishardened_def)
qed

lemma unharden_lt: "unat (unharden p) < 2 ^ 31"
  by (simp only: unharden_take_bit unsigned_take_bit_eq take_bit_nat_less_exp)

lemma length_path_element: "length (path_element_text bare p) \<le> 12"
proof -
  have "unat (unharden p) < 10 ^ 10" using unharden_lt [of p] by simp
  then show ?thesis using length_decimal [of "unat (unharden p)" 10] by (simp add: path_element_text_def)
qed

lemma path_as_str_loop_fits:
  assumes "length out + 12 * length parts < output_len"
  shows "path_as_str_loop False i parts output_len out = Some (out @ concat (map (path_element_text False) parts))"
  using assms
proof (induction parts arbitrary: i out)
  case (Cons p ps)
  have "length (path_element_text False p) \<le> 12" by (rule length_path_element)
  with Cons show ?case by (simp add: Let_def)
qed simp

lemma path_as_str_fits:
  assumes "MAX_PATH_STR_LEN (length parts) \<le> output_len" and "16 < output_len"
  shows "wallet_bip32_path_as_str parts output_len False = Some (Some (path_text parts))"
  using assms path_as_str_loop_fits [of "str ''m''" parts output_len 0]
  by (simp add: wallet_bip32_path_as_str_def MAX_PATH_STR_LEN_def path_text_def)

lemma decimal_chars: "c \<in> set (decimal n) \<Longrightarrow> 48 \<le> unat c \<and> unat c \<le> 57"
  using decimal_is_digit [of n] by (auto simp: list_all_iff is_digit_unat)

lemma path_text_chars:
  assumes "c \<in> set (path_text parts)"
  shows "39 \<le> unat c \<and> unat c \<noteq> 58"
  using assms by (auto simp: path_text_def path_element_text_def chr_def split: if_splits dest!: decimal_chars)

lemma length_path_text: "length (path_text parts) < MAX_PATH_STR_LEN (length parts)"
proof -
  have "length (concat (map (path_element_text False) parts)) \<le> 12 * length parts"
    by (induction parts) (auto intro: add_mono length_path_element)
  then show ?thesis by (simp add: path_text_def MAX_PATH_STR_LEN_def)
qed

section \<open>Green paths\<close>

lemma high_half_zero:
  assumes "p AND 0xFFFF0000 = (0 :: u32)"
  shows "take_bit 16 p = p"
proof -
  have "p = (p AND NOT (mask 16)) OR take_bit 16 p"
    by (rule bit_word_eqI) (auto simp: bit_and_iff bit_or_iff bit_not_iff bit_mask_iff bit_take_bit_iff)
  moreover have "(0xFFFF0000 :: u32) = NOT (mask 16)" by (simp add: mask_eq_exp_minus_1)
  ultimately show ?thesis using assms by simp
qed

lemma byte_pair:
  assumes "p AND 0xFFFF0000 = (0 :: u32)"
  shows "push_bit 8 (ucast (ucast (drop_bit 8 p) :: byte)) + ucast (ucast (p AND 0xFF) :: byte) = p"
proof -
  have m: "p AND 0xFF = take_bit 8 p" by (simp add: take_bit_eq_mask mask_eq_exp_minus_1)
  have "bit p n \<Longrightarrow> n - 8 < 8" for n
    using high_half_zero [OF assms] bit_take_bit_iff [of 16 p n] by auto
  then have "push_bit 8 (ucast (ucast (drop_bit 8 p) :: byte)) OR ucast (ucast (take_bit 8 p) :: byte) = p"
    by (intro bit_word_eqI) (auto simp: bit_or_iff bit_push_bit_iff bit_ucast_iff bit_drop_bit_eq bit_take_bit_iff)
  moreover have "push_bit 8 (ucast (ucast (drop_bit 8 p) :: byte)) + ucast (ucast (take_bit 8 p) :: byte)
      = (push_bit 8 (ucast (ucast (drop_bit 8 p) :: byte)) OR ucast (ucast (take_bit 8 p) :: byte) :: u32)"
    by (rule disjunctive_add) (auto simp: bit_push_bit_iff bit_ucast_iff bit_take_bit_iff)
  ultimately show ?thesis by (simp only: m)
qed

lemma serialize_gaservice_loop_eq:
  assumes "\<And>p. p \<in> set ps \<Longrightarrow> p AND 0xFFFF0000 = 0"
  shows "serialize_gaservice_loop ps = Some (concat (map (\<lambda>p. [ucast (drop_bit 8 p), ucast (p AND 0xFF)]) ps))"
  using assms by (induction ps) simp_all

lemma nth_pairs:
  "i < length ps \<Longrightarrow> concat (map (\<lambda>p. [f p, g p]) ps) ! (2 * i) = f (ps ! i) \<and>
    concat (map (\<lambda>p. [f p, g p]) ps) ! (2 * i + 1) = g (ps ! i)"
  by (induction ps arbitrary: i) (auto simp: nth_Cons split: nat.split)

lemma gaservice_path_roundtrip:
  assumes "length ps = GASERVICE_PATH_LEN" and "\<And>p. p \<in> set ps \<Longrightarrow> p AND 0xFFFF0000 = 0"
  shows "\<exists>b. wallet_serialize_gaservice_path HMAC_SHA512_LEN ps = Some (Some b) \<and>
     wallet_unserialize_gaservice_path b GASERVICE_PATH_LEN = Some ps"
proof -
  let ?b = "concat (map (\<lambda>p. [ucast (drop_bit 8 p), ucast (p AND 0xFF)]) ps) :: bytes"
  have "length ?b = 2 * length ps" by (induction ps) simp_all
  then have l: "length ?b = HMAC_SHA512_LEN" using assms(1) by (simp add: GASERVICE_PATH_LEN_def HMAC_SHA512_LEN_def)
  have "map (\<lambda>i. push_bit 8 (ucast (?b ! (2 * i))) + ucast (?b ! (2 * i + 1))) [0..<GASERVICE_PATH_LEN] = ps"
  proof (rule nth_equalityI)
    fix i assume "i < length (map (\<lambda>i. push_bit 8 (ucast (?b ! (2 * i))) + ucast (?b ! (2 * i + 1)) :: u32) [0..<GASERVICE_PATH_LEN])"
    then have i: "i < length ps" using assms(1) by simp
    have "map (\<lambda>i. push_bit 8 (ucast (?b ! (2 * i))) + ucast (?b ! (2 * i + 1)) :: u32) [0..<GASERVICE_PATH_LEN] ! i
        = push_bit 8 (ucast (?b ! (2 * i))) + ucast (?b ! (2 * i + 1))" using i assms(1) by simp
    also have "\<dots> = ps ! i"
      using byte_pair [OF assms(2) [OF nth_mem [OF i]]]
        nth_pairs [OF i, where f = "\<lambda>p. ucast (drop_bit 8 p) :: byte" and g = "\<lambda>p. ucast (p AND 0xFF)"] by simp
    finally show "map (\<lambda>i. push_bit 8 (ucast (?b ! (2 * i))) + ucast (?b ! (2 * i + 1)) :: u32) [0..<GASERVICE_PATH_LEN] ! i = ps ! i" .
  qed (simp add: assms(1))
  then show ?thesis
    using assms l serialize_gaservice_loop_eq [of ps]
    by (simp add: wallet_serialize_gaservice_path_def wallet_unserialize_gaservice_path_def)
qed

text \<open>A receive path for a subaccount in range is recognised, with the subaccount and pointer it was
  built from.\<close>

lemma receive_path_recognised:
  assumes "pointer < MAX_PATH_PTR" and "subaccount < 16384"
    and "wallet_build_receive_path subaccount PATH_BRANCH pointer 4 = Some path"
  shows "wallet_get_gaservice_path_tail path =
    Some (if subaccount > 0 then [subaccount, pointer] else [pointer], subaccount > 0)"
proof -
  have s: "unat subaccount < 2 ^ 14" using assms(2) by (simp add: word_less_nat_alt)
  have h: "harden subaccount = 0x80000000 + subaccount"
  proof -
    have "0x80000000 + subaccount = 0x80000000 OR subaccount"
      using not_bit_of_small [OF s, of 31] by (intro disjunctive_add) (simp only: bit_hardened, auto)
    then show ?thesis by (simp add: harden_def or.commute)
  qed
  have "bit subaccount n \<Longrightarrow> n < 31" for n using not_bit_of_small [OF s, of n] by linarith
  then have u: "unharden (harden subaccount) = subaccount"
    by (intro bit_word_eqI) (simp only: unharden_take_bit harden_def bit_take_bit_iff bit_or_iff bit_hardened, auto)
  have "unat (0x80000000 + subaccount) = 2 ^ 31 + unat subaccount"
    using s by (simp add: unat_word_ariths)
  then have "subaccount > 0 \<Longrightarrow> SUBACT_FLOOR < harden subaccount \<and> harden subaccount < SUBACT_CEILING"
    using s by (simp add: h path_consts word_less_nat_alt)
  then show ?thesis
    using assms u by (auto simp: wallet_build_receive_path_def wallet_get_gaservice_path_tail_def)
qed

section \<open>The search\<close>

lemma search_loop_first:
  assumes "index \<le> stop" and "\<forall>i. index \<le> i \<and> i < stop \<longrightarrow> (\<exists>g. leaf i = Some (Some g))"
  shows "(\<exists>i. search_loop leaf script index stop = Some (True, i) \<and> index \<le> i \<and> i < stop \<and>
        leaf i = Some (Some script) \<and> (\<forall>j. index \<le> j \<and> j < i \<longrightarrow> leaf j \<noteq> Some (Some script))) \<or>
     search_loop leaf script index stop = Some (False, stop) \<and>
        (\<forall>j. index \<le> j \<and> j < stop \<longrightarrow> leaf j \<noteq> Some (Some script))"
  using assms
proof (induction leaf script index stop rule: search_loop.induct)
  case (1 leaf script index stop)
  show ?case
  proof (cases "index < stop")
    case False
    then show ?thesis using "1.prems"(1) by (subst (1 2) search_loop.simps) auto
  next
    case True
    then obtain g where g: "leaf index = Some (Some g)" using 1 by blast
    show ?thesis
    proof (cases "g = script")
      case True
      then show ?thesis using g \<open>index < stop\<close> by (subst (1 2) search_loop.simps) auto
    next
      case False
      have nx: "index + 1 \<le> j \<longleftrightarrow> index < j" for j
        using unat_Suc_below [OF True] by (simp add: word_le_nat_alt word_less_nat_alt Suc_le_eq)
      have s: "search_loop leaf script index stop = search_loop leaf script (index + 1) stop"
        using True g False by (subst search_loop.simps) simp
      have split: "index \<le> j \<longleftrightarrow> j = index \<or> index < j" for j by auto
      have tail: "\<forall>i. index + 1 \<le> i \<and> i < stop \<longrightarrow> (\<exists>g. leaf i = Some (Some g))"
        using nx "1.prems"(2) by (simp add: less_imp_le)
      have "index + 1 \<le> stop" using True by (simp add: nx)
      note ih = "1.IH" [OF True g refl False this tail]
      have here: "leaf j \<noteq> Some (Some script)" if "index \<le> j" "j < k" "\<forall>j. index < j \<and> j < k \<longrightarrow> leaf j \<noteq> Some (Some script)" for j k
        using that g False by (cases "j = index") (auto simp: split)
      from ih show ?thesis
      proof (elim disjE exE conjE)
        fix i assume "search_loop leaf script (index + 1) stop = Some (True, i)" "index + 1 \<le> i" "i < stop"
          "leaf i = Some (Some script)" "\<forall>j. index + 1 \<le> j \<and> j < i \<longrightarrow> leaf j \<noteq> Some (Some script)"
        then show ?thesis using here [of _ i] by (intro disjI1 exI [of _ i]) (simp add: s nx less_imp_le)
      next
        assume "search_loop leaf script (index + 1) stop = Some (False, stop)"
          "\<forall>j. index + 1 \<le> j \<and> j < stop \<longrightarrow> leaf j \<noteq> Some (Some script)"
        then show ?thesis using here [of _ stop] by (intro disjI2) (simp add: s nx)
      qed
    qed
  qed
qed

text \<open>What the search relies on in libwally: children that are not hardened can be derived from a
  public key, compressed public keys have 33 bytes, and the scripts have the documented lengths.\<close>

definition children_ok :: "'k libwally \<Rightarrow> bool" where
  "children_ok wl \<longleftrightarrow> (\<forall>k n flags. \<not> ishardened n \<longrightarrow> bip32_key_from_parent wl k n flags \<noteq> None) \<and>
     (\<forall>k. length (key_pub_key wl k) = EC_PUBLIC_KEY_LEN)"

definition scripts_ok :: "'k libwally \<Rightarrow> bool" where
  "scripts_ok wl \<longleftrightarrow>
     (\<forall>bs sha. bs \<noteq> [] \<longrightarrow> (\<exists>s. witness_program wl bs sha = Some s \<and> length s = (if sha then 34 else 22))) \<and>
     (\<forall>bs. bs \<noteq> [] \<longrightarrow> (\<exists>s. scriptpubkey_p2sh wl bs = Some s \<and> length s = 23)) \<and>
     (\<forall>k. length k = EC_PUBLIC_KEY_LEN \<longrightarrow> (\<exists>s. scriptpubkey_p2pkh wl k = Some s \<and> length s = 25)) \<and>
     (\<forall>k e. length k = EC_PUBLIC_KEY_LEN \<longrightarrow> (\<exists>s. scriptpubkey_p2tr wl k e = Some s \<and> length s = 34)) \<and>
     (\<forall>ks n t is_sorted. length ks = n * EC_PUBLIC_KEY_LEN \<and> 0 < t \<and> t \<le> n \<and> n \<le> MAX_ALLOWED_SIGNERS \<longrightarrow>
        (\<exists>s. scriptpubkey_multisig wl ks t is_sorted = Some s \<and> length s = MULTISIG_SCRIPT_LEN n))"

lemma p2sh_p2wsh_ok:
  "scripts_ok wl \<Longrightarrow> bs \<noteq> [] \<Longrightarrow> 23 \<le> len \<Longrightarrow>
    \<exists>s. wallet_p2sh_p2wsh_scriptpubkey_for_bytes wl bs sha len = Some s \<and> length s = 23"
proof -
  assume w: "scripts_ok wl" "bs \<noteq> []" "23 \<le> len"
  obtain r where r: "witness_program wl bs sha = Some r" "length r = (if sha then 34 else 22)"
    using w unfolding scripts_ok_def by blast
  then have "r \<noteq> []" by (cases sha) auto
  then obtain s where "scriptpubkey_p2sh wl r = Some s" "length s = 23" using w unfolding scripts_ok_def by blast
  then show ?thesis using w r by (auto simp: wallet_p2sh_p2wsh_scriptpubkey_for_bytes_def)
qed

lemma derive_pubkeys_ok:
  assumes "children_ok wl" and "\<not> ishardened (ucast index)"
  shows "\<exists>ks. derive_pubkeys wl roots index = Some ks \<and> length ks = length roots * EC_PUBLIC_KEY_LEN"
proof (induction roots)
  case (Cons r roots)
  obtain d where "bip32_key_from_parent wl r (ucast index) (BIP32_FLAG_KEY_PUBLIC OR BIP32_FLAG_SKIP_HASH) = Some d"
    using assms unfolding children_ok_def by blast
  moreover have "length (key_pub_key wl d) = EC_PUBLIC_KEY_LEN" using assms(1) unfolding children_ok_def by blast
  ultimately show ?case using Cons by auto
qed simp

lemma multisig_leaf_ok:
  assumes "children_ok wl" and "scripts_ok wl" and "\<not> ishardened (ucast index)" and "is_multisig variant"
    and "0 < threshold" and "threshold \<le> length roots" and "length roots \<le> MAX_ALLOWED_SIGNERS"
  shows "\<exists>g. multisig_leaf wl (Some k) variant is_sorted threshold roots index = Some (Some g)"
proof -
  obtain ks where ks: "derive_pubkeys wl roots index = Some ks" "length ks = length roots * EC_PUBLIC_KEY_LEN"
    using derive_pubkeys_ok [OF assms(1,3)] by blast
  obtain m where m: "scriptpubkey_multisig wl ks threshold is_sorted = Some m"
      "length m = MULTISIG_SCRIPT_LEN (length roots)"
    using assms(2,5,6,7) ks(2) unfolding scripts_ok_def by blast
  have n: "m \<noteq> []" "ks \<noteq> []" "length ks div EC_PUBLIC_KEY_LEN = length roots"
    using m(2) ks(2) assms(5,6) by (auto simp: MULTISIG_SCRIPT_LEN_def EC_PUBLIC_KEY_LEN_def)
  have "wallet_build_multisig wl is_sorted threshold ks (MULTISIG_SCRIPT_LEN MAX_ALLOWED_SIGNERS) = Some m"
    using m n ks(2) assms(5,6,7) by (simp add: wallet_build_multisig_def MULTISIG_SCRIPT_LEN_def Let_def add_mono)
  moreover obtain a where "witness_program wl m True = Some a" "length a = 34"
    using assms(2) n(1) unfolding scripts_ok_def by (metis (full_types))
  moreover obtain b where "scriptpubkey_p2sh wl m = Some b" "length b = 23"
    using assms(2) n(1) unfolding scripts_ok_def by blast
  moreover obtain c where "wallet_p2sh_p2wsh_scriptpubkey_for_bytes wl m True 34 = Some c" "length c = 23"
    using p2sh_p2wsh_ok [OF assms(2) n(1), of 34 True] by auto
  ultimately show ?thesis
    using assms(4,5) ks(1) n(2)
    by (auto simp: multisig_leaf_def wallet_build_multisig_script_def is_multisig_def)
qed

lemma singlesig_leaf_ok:
  assumes "children_ok wl" and "scripts_ok wl" and "\<not> ishardened (ucast index)" and "is_singlesig variant"
    and "network_id \<noteq> NETWORK_NONE"
  shows "\<exists>g. singlesig_leaf wl (Some k) network_id variant root index = Some (Some g)"
proof -
  obtain d where d: "bip32_key_from_parent wl root (ucast index) (BIP32_FLAG_KEY_PUBLIC OR BIP32_FLAG_SKIP_HASH) = Some d"
    using assms(1,3) unfolding children_ok_def by blast
  have p: "length (key_pub_key wl d) = EC_PUBLIC_KEY_LEN" using assms(1) unfolding children_ok_def by blast
  then have ne: "key_pub_key wl d \<noteq> []" by (auto simp: EC_PUBLIC_KEY_LEN_def)
  obtain l where "network_is_liquid network_id = Some l" using network_asserts_only_none [OF assms(5)] by blast
  moreover obtain a where "witness_program wl (key_pub_key wl d) False = Some a" "length a = 22"
    using assms(2) ne unfolding scripts_ok_def by (metis (full_types))
  moreover obtain b where "scriptpubkey_p2pkh wl (key_pub_key wl d) = Some b" "length b = 25"
    using assms(2) p unfolding scripts_ok_def by blast
  moreover obtain c where "wallet_p2sh_p2wsh_scriptpubkey_for_bytes wl (key_pub_key wl d) False 34 = Some c" "length c = 23"
    using p2sh_p2wsh_ok [OF assms(2) ne, of 34 False] by auto
  moreover obtain e where "scriptpubkey_p2tr wl (key_pub_key wl d) l = Some e" "length e = 34"
    using assms(2) p unfolding scripts_ok_def by blast
  ultimately show ?thesis
    using assms(4) d by (auto simp: singlesig_leaf_def wallet_build_singlesig_script_def is_singlesig_def)
qed

section \<open>A concrete library\<close>

text \<open>A small stand-in for libwally on which the hypotheses of the theorems can be evaluated: an
  extended key is its 78 bytes, a child adds its number to the last byte, and the ciphers and
  digests are simple padding.\<close>

definition demo_derive :: "bytes \<Rightarrow> u32 list \<Rightarrow> u32 \<Rightarrow> bytes option" where
  "demo_derive k path flags =
     (if list_ex ishardened path \<and> k ! 45 \<noteq> 0 then None
      else Some (k[77 := k ! 77 + ucast (sum_list path), 45 := (if flags AND 1 = 0 then k ! 45 else 2)]))"

definition demo_key :: "byte \<Rightarrow> byte \<Rightarrow> bytes" where
  "demo_key kind n = [4, 0x88, 0xB2, 0x1E] @ replicate 41 0 @ [kind] @ replicate 31 7 @ [n]"

definition demo_hex_digit :: "byte \<Rightarrow> byte option" where
  "demo_hex_digit c = (if is_digit c then Some (c - 48) else if 97 \<le> c \<and> c \<le> 102 then Some (c - 87) else None)"

fun demo_unhex :: "bytes \<Rightarrow> bytes option" where
  "demo_unhex [] = Some []"
| "demo_unhex [c] = None"
| "demo_unhex (c # d # cs) = do {
     h \<leftarrow> demo_hex_digit c; l \<leftarrow> demo_hex_digit d; rest \<leftarrow> demo_unhex cs; Some ((push_bit 4 h OR l) # rest) }"

definition demo_hex :: "bytes \<Rightarrow> bytes" where
  "demo_hex bs = concat (map (\<lambda>b. map (\<lambda>d. if d < 10 then 48 + d else 87 + d) [drop_bit 4 b, b AND 15]) bs)"

definition demo_fit :: "nat \<Rightarrow> bytes \<Rightarrow> bytes" where
  "demo_fit n bs = take n (bs @ replicate n 0)"

lemma length_demo_fit [simp]: "length (demo_fit n bs) = n"
  by (simp add: demo_fit_def)

definition demo_wally :: "bytes libwally" where
  "demo_wally = \<lparr>
     bip32_key_unserialize = (\<lambda>b. if length b = 78 then Some b else None),
     bip32_key_serialize = (\<lambda>k. if length k = 78 then Some k else None),
     bip32_key_from_parent_path = demo_derive,
     bip32_key_from_parent = (\<lambda>k n flags. demo_derive k [n] flags),
     bip32_key_strip_private_key = (\<lambda>k. Some (k[45 := 2])),
     bip32_path_from_str = (\<lambda>s. if s = path_text [0x80000030] then Some [0x80000030] else None),
     key_pub_key = (\<lambda>k. demo_fit 33 (drop 45 k)),
     key_priv_key = (\<lambda>k. demo_fit 33 (drop 45 k)),
     key_chain_code = (\<lambda>k. demo_fit 32 (drop 13 k)),
     key_hash160 = (\<lambda>k. demo_fit 20 (drop 46 k)),
     base58_to_bytes = (\<lambda>s. if s = str ''xpubA'' then Some (demo_key 2 1) else if s = str ''xpubB'' then Some (demo_key 2 9) else None),
     base58_from_bytes = (\<lambda>b. if b = demo_key 2 1 then Some (str ''xpubA'') else if b = demo_key 2 9 then Some (str ''xpubB'') else None),
     hex_to_bytes = demo_unhex,
     hex_from_bytes = demo_hex,
     hmac_sha256 = (\<lambda>key data. Some (demo_fit 32 (foldl (XOR) (foldl (+) 0 key) data # key))),
     aes_cbc_encrypt = (\<lambda>key iv data. let n = 16 - length data mod 16 in Some (data @ replicate n (of_nat n))),
     aes_cbc_decrypt = (\<lambda>key iv ct. if ct = [] then None else Some (take (length ct - unat (last ct)) ct)),
     scriptpubkey_multisig = (\<lambda>ks t is_sorted. Some (demo_fit (MULTISIG_SCRIPT_LEN (length ks div 33)) (of_nat t # ks))),
     witness_program = (\<lambda>bs sha. Some (demo_fit (if sha then 34 else 22) (rev bs))),
     scriptpubkey_p2sh = (\<lambda>bs. Some (demo_fit 23 (rev bs))),
     scriptpubkey_p2pkh = (\<lambda>bs. Some (demo_fit 25 bs)),
     scriptpubkey_p2tr = (\<lambda>bs e. Some (demo_fit 34 bs)) \<rparr>"

lemma demo_scripts: "children_ok demo_wally" "scripts_ok demo_wally"
  by (auto simp: children_ok_def scripts_ok_def demo_wally_def demo_derive_def wallet_lens)

section \<open>Properties\<close>

text \<open>The search for a multisig address returns the first index of its range whose script is the
  one looked for, and reports failure only after it has tried the whole range, for ranges below the
  hardened half of the index space.\<close>

lemma wallet_search_first_match:
  fixes index search_depth :: u64
  assumes "children_ok wl" and "scripts_ok wl" and "is_multisig variant"
    and "0 < threshold" and "threshold \<le> length roots" and "length roots \<le> MAX_ALLOWED_SIGNERS"
    and "0 < search_depth" and "unat index + unat search_depth \<le> 2 ^ 31"
    and "length script = script_length_for_variant variant"
  shows "(\<exists>i. wallet_search_for_multisig_script wl (Some k) variant is_sorted threshold roots index search_depth script
        = Some (True, i) \<and> index \<le> i \<and> i < index + search_depth \<and>
        multisig_leaf wl (Some k) variant is_sorted threshold roots i = Some (Some script) \<and>
        (\<forall>j. index \<le> j \<and> j < i \<longrightarrow>
          multisig_leaf wl (Some k) variant is_sorted threshold roots j \<noteq> Some (Some script))) \<or>
     wallet_search_for_multisig_script wl (Some k) variant is_sorted threshold roots index search_depth script
        = Some (False, index + search_depth) \<and>
        (\<forall>j. index \<le> j \<and> j < index + search_depth \<longrightarrow>
          multisig_leaf wl (Some k) variant is_sorted threshold roots j \<noteq> Some (Some script))"
proof -
  have n: "unat (index + search_depth) = unat index + unat search_depth"
    using assms(8) by (simp add: unat_word_ariths)
  have "\<exists>g. multisig_leaf wl (Some k) variant is_sorted threshold roots i = Some (Some g)"
    if "i < index + search_depth" for i
  proof (rule multisig_leaf_ok [OF assms(1,2) _ assms(3-6)])
    have "unat i < 2 ^ 31" using that n assms(8) by (simp add: word_less_nat_alt)
    then show "\<not> ishardened (ucast i)" using not_bit_of_small [of i 31 31] by (simp add: ishardened_bit bit_ucast_iff)
  qed
  moreover have "index \<le> index + search_depth" using n by (simp add: word_le_nat_alt)
  moreover have "wallet_search_for_multisig_script wl (Some k) variant is_sorted threshold roots index search_depth script
      = search_loop (multisig_leaf wl (Some k) variant is_sorted threshold roots) script index (index + search_depth)"
    using assms(3-9) by (auto simp: wallet_search_for_multisig_script_def)
  ultimately show ?thesis
    using search_loop_first [of index "index + search_depth"
        "multisig_leaf wl (Some k) variant is_sorted threshold roots" script] by simp
qed

end
