(* ===== verification/Registration.thy ===== *)
theory Registration
  imports Wallet
begin

text \<open>
  \<open>main/registration_seal.c\<close> and \<open>main/aes.c\<close>: how a registered wallet record is sealed before it
  goes to the card. A record is \<open>version | IV + AES-256-CBC(body) | HMAC\<close>; the keys come from the
  master key of the wallet, so another wallet can neither read nor forge it.

  The random IV is a parameter. The output buffer has exactly the length the callers allocate.
  In a result, the inner \<open>None\<close> is the return value false.
\<close>

section \<open>AES\<close>

definition AES_BLOCK_LEN :: nat where "AES_BLOCK_LEN = 16"
definition AES_KEY_LEN_256 :: nat where "AES_KEY_LEN_256 = 32"

definition AES_PADDED_LEN :: "nat \<Rightarrow> nat" where
  "AES_PADDED_LEN len = (len div AES_BLOCK_LEN + 1) * AES_BLOCK_LEN"

definition AES_ENCRYPTED_LEN :: "nat \<Rightarrow> nat" where
  "AES_ENCRYPTED_LEN len = AES_BLOCK_LEN + AES_PADDED_LEN len"

definition aes_encrypt_bytes ::
  "'k libwally \<Rightarrow> bytes \<Rightarrow> bytes \<Rightarrow> bytes \<Rightarrow> bytes \<Rightarrow> (bool \<times> bytes) option" where
  "aes_encrypt_bytes wl iv aeskey bs output = do {
     jade_assert (length aeskey = AES_KEY_LEN_256);
     jade_assert (bs \<noteq> []);
     jade_assert (length output > AES_BLOCK_LEN);
     output \<leftarrow> buf_write output 0 iv;
     let payload_len = AES_PADDED_LEN (length bs);
     jade_assert (length output = AES_BLOCK_LEN + payload_len);
     iv_read \<leftarrow> buf_read output 0 AES_BLOCK_LEN;
     ct \<leftarrow> aes_cbc_encrypt wl aeskey iv_read bs;
     jade_assert (length ct = payload_len);
     output \<leftarrow> buf_write output AES_BLOCK_LEN ct;
     Some (True, output) }"

text \<open>The plaintext, at most \<open>output_len\<close> bytes, or false.\<close>

definition aes_decrypt_bytes :: "'k libwally \<Rightarrow> bytes \<Rightarrow> bytes \<Rightarrow> nat \<Rightarrow> bytes option option" where
  "aes_decrypt_bytes wl aeskey bs output_len = do {
     jade_assert (length aeskey = AES_KEY_LEN_256);
     jade_assert (length bs > AES_BLOCK_LEN);
     jade_assert (output_len > 0);
     let payload_len = length bs - AES_BLOCK_LEN;
     jade_assert (payload_len mod AES_BLOCK_LEN = 0);
     jade_assert (AES_PADDED_LEN output_len \<ge> payload_len);
     Some (case aes_cbc_decrypt wl aeskey (take AES_BLOCK_LEN bs) (drop AES_BLOCK_LEN bs) of
       None \<Rightarrow> None
     | Some written \<Rightarrow> if length written > output_len then None else Some written) }"

section \<open>Sealing\<close>

definition REGISTRATION_KEY_LABEL :: bytes where
  "REGISTRATION_KEY_LABEL = str ''pijade-registered-wallet-aes-v1''"

definition REGISTRATION_SEALED_LEN :: "nat \<Rightarrow> nat" where
  "REGISTRATION_SEALED_LEN body_len = 1 + AES_ENCRYPTED_LEN body_len + HMAC_SHA256_LEN"

definition REGISTRATION_MIN_SEALED_LEN :: nat where
  "REGISTRATION_MIN_SEALED_LEN = REGISTRATION_SEALED_LEN 0"

definition get_registration_key :: "'k libwally \<Rightarrow> 'k option \<Rightarrow> nat \<Rightarrow> bytes option option" where
  "get_registration_key wl keychain key_len = do {
     jade_assert (key_len = AES_KEY_LEN_256);
     wallet_hmac_with_master_key wl keychain REGISTRATION_KEY_LABEL key_len }"

definition registration_seal ::
  "'k libwally \<Rightarrow> 'k option \<Rightarrow> bytes \<Rightarrow> byte \<Rightarrow> bytes \<Rightarrow> bytes \<Rightarrow> (bool \<times> bytes) option" where
  "registration_seal wl keychain iv version body output = do {
     jade_assert (body \<noteq> []);
     jade_assert (length output = REGISTRATION_SEALED_LEN (length body));
     key \<leftarrow> get_registration_key wl keychain AES_KEY_LEN_256;
     case key of None \<Rightarrow> Some (False, output) | Some key \<Rightarrow> do {
       output \<leftarrow> buf_set output 0 version;
       let encrypted_len = AES_ENCRYPTED_LEN (length body);
       encrypted \<leftarrow> buf_read output 1 encrypted_len;
       (ok, encrypted) \<leftarrow> aes_encrypt_bytes wl iv key body encrypted;
       output \<leftarrow> buf_write output 1 encrypted;
       if \<not> ok then Some (False, output) else do {
         jade_assert (1 + encrypted_len + HMAC_SHA256_LEN = length output);
         hmac \<leftarrow> wallet_hmac_with_master_key wl keychain (take (length output - HMAC_SHA256_LEN) output) HMAC_SHA256_LEN;
         case hmac of None \<Rightarrow> Some (False, output) | Some hmac \<Rightarrow> do {
           output \<leftarrow> buf_write output (1 + encrypted_len) hmac;
           Some (True, output) } } } }"

definition registration_open ::
  "'k libwally \<Rightarrow> 'k option \<Rightarrow> byte \<Rightarrow> bytes \<Rightarrow> nat \<Rightarrow> bytes option option" where
  "registration_open wl keychain expected_version bs body_len = do {
     jade_assert (body_len > 0);
     if length bs < REGISTRATION_MIN_SEALED_LEN \<or> (length bs - REGISTRATION_MIN_SEALED_LEN) mod AES_BLOCK_LEN \<noteq> 0
     then Some None
     else do {
       hmac_calculated \<leftarrow> wallet_hmac_with_master_key wl keychain (take (length bs - HMAC_SHA256_LEN) bs) HMAC_SHA256_LEN;
       if hmac_calculated \<noteq> Some (drop (length bs - HMAC_SHA256_LEN) bs) then Some None
       else if bs ! 0 \<noteq> expected_version then Some None
       else do {
         key \<leftarrow> get_registration_key wl keychain AES_KEY_LEN_256;
         case key of None \<Rightarrow> Some None | Some key \<Rightarrow>
           aes_decrypt_bytes wl key (take (length bs - 1 - HMAC_SHA256_LEN) (drop 1 bs)) body_len } } }"

lemmas seal_lens = AES_BLOCK_LEN_def AES_KEY_LEN_256_def AES_PADDED_LEN_def AES_ENCRYPTED_LEN_def HMAC_SHA256_LEN_def
  REGISTRATION_SEALED_LEN_def REGISTRATION_MIN_SEALED_LEN_def

section \<open>What the library promises\<close>

definition hmac_ok :: "'k libwally \<Rightarrow> bool" where
  "hmac_ok wl \<longleftrightarrow> (\<forall>key data. \<exists>h. hmac_sha256 wl key data = Some h \<and> length h = HMAC_SHA256_LEN)"

text \<open>CBC with padding: the ciphertext is padded to whole blocks and decrypts to the plaintext.\<close>

definition cbc_ok :: "'k libwally \<Rightarrow> bool" where
  "cbc_ok wl \<longleftrightarrow> (\<forall>key iv data. length key = AES_KEY_LEN_256 \<and> length iv = AES_BLOCK_LEN \<and> data \<noteq> [] \<longrightarrow>
     (\<exists>ct. aes_cbc_encrypt wl key iv data = Some ct \<and> length ct = AES_PADDED_LEN (length data) \<and>
        aes_cbc_decrypt wl key iv ct = Some data))"

definition master_hmac :: "'k libwally \<Rightarrow> 'k \<Rightarrow> bytes \<Rightarrow> bytes" where
  "master_hmac wl xpriv data = the (hmac_sha256 wl (drop 1 (key_priv_key wl xpriv)) data)"

text \<open>The record that sealing produces, as one expression.\<close>

definition sealed :: "'k libwally \<Rightarrow> 'k \<Rightarrow> bytes \<Rightarrow> byte \<Rightarrow> bytes \<Rightarrow> bytes" where
  "sealed wl xpriv iv version body =
     (let key = master_hmac wl xpriv REGISTRATION_KEY_LABEL;
          msg = version # iv @ the (aes_cbc_encrypt wl key iv body) in
      msg @ master_hmac wl xpriv msg)"

lemma hmac_master:
  "hmac_ok wl \<Longrightarrow> data \<noteq> [] \<Longrightarrow>
    wallet_hmac_with_master_key wl (Some xpriv) data HMAC_SHA256_LEN = Some (Some (master_hmac wl xpriv data))"
  by (simp add: wallet_hmac_with_master_key_def master_hmac_def hmac_ok_def) (metis option.sel)

lemma length_master_hmac: "hmac_ok wl \<Longrightarrow> length (master_hmac wl xpriv data) = HMAC_SHA256_LEN"
  unfolding hmac_ok_def master_hmac_def by (metis option.sel)

lemma registration_key:
  "hmac_ok wl \<Longrightarrow> get_registration_key wl (Some xpriv) AES_KEY_LEN_256 = Some (Some (master_hmac wl xpriv REGISTRATION_KEY_LABEL))"
  using hmac_master [of wl REGISTRATION_KEY_LABEL xpriv]
  by (simp add: get_registration_key_def REGISTRATION_KEY_LABEL_def AES_KEY_LEN_256_def HMAC_SHA256_LEN_def)

lemma padded_pos [simp]: "0 < AES_PADDED_LEN n"
  by (simp add: seal_lens)

lemma encrypt_bytes_ok:
  assumes "cbc_ok wl" and "length key = AES_KEY_LEN_256" and "length iv = AES_BLOCK_LEN" and "body \<noteq> []"
    and "length output = AES_ENCRYPTED_LEN (length body)"
  shows "aes_encrypt_bytes wl iv key body output = Some (True, iv @ the (aes_cbc_encrypt wl key iv body))"
proof -
  obtain ct where "aes_cbc_encrypt wl key iv body = Some ct" "length ct = AES_PADDED_LEN (length body)"
    using assms unfolding cbc_ok_def by blast
  then show ?thesis
    using assms by (simp add: aes_encrypt_bytes_def c_defs AES_ENCRYPTED_LEN_def)
qed

lemma length_sealed:
  assumes "hmac_ok wl" and "cbc_ok wl" and "length iv = AES_BLOCK_LEN" and "body \<noteq> []"
  shows "length (sealed wl xpriv iv version body) = REGISTRATION_SEALED_LEN (length body)"
proof -
  have "length (master_hmac wl xpriv REGISTRATION_KEY_LABEL) = AES_KEY_LEN_256"
    using length_master_hmac [OF assms(1)] by (simp add: seal_lens)
  then obtain ct where "aes_cbc_encrypt wl (master_hmac wl xpriv REGISTRATION_KEY_LABEL) iv body = Some ct"
      "length ct = AES_PADDED_LEN (length body)"
    using assms unfolding cbc_ok_def by blast
  then show ?thesis
    using assms(3) length_master_hmac [OF assms(1)]
    by (simp add: sealed_def Let_def REGISTRATION_SEALED_LEN_def AES_ENCRYPTED_LEN_def)
qed

lemma registration_seal_eq:
  assumes "hmac_ok wl" and "cbc_ok wl" and "length iv = AES_BLOCK_LEN" and "body \<noteq> []"
    and "length output = REGISTRATION_SEALED_LEN (length body)"
  shows "registration_seal wl (Some xpriv) iv version body output = Some (True, sealed wl xpriv iv version body)"
proof -
  let ?key = "master_hmac wl xpriv REGISTRATION_KEY_LABEL"
  have k: "length ?key = AES_KEY_LEN_256" using length_master_hmac [OF assms(1)] by (simp add: seal_lens)
  then obtain ct where ct: "aes_cbc_encrypt wl ?key iv body = Some ct" "length ct = AES_PADDED_LEN (length body)"
    using assms unfolding cbc_ok_def by blast
  let ?el = "AES_ENCRYPTED_LEN (length body)"
  have el: "length (iv @ ct) = ?el" using assms(3) ct(2) by (simp add: AES_ENCRYPTED_LEN_def)
  have e: "aes_encrypt_bytes wl iv ?key body encrypted = Some (True, iv @ ct)" if "length encrypted = ?el" for encrypted
    using encrypt_bytes_ok [OF assms(2) k assms(3,4) that] ct(1) by simp
  obtain a tl where o: "output = a # tl" "length tl = ?el + HMAC_SHA256_LEN"
    using assms(5) by (cases "output") (simp_all add: REGISTRATION_SEALED_LEN_def)
  have w1: "buf_read (version # tl) 1 ?el = Some (take ?el tl)" and "length (take ?el tl) = ?el"
    using o(2) by (simp_all add: buf_read_def)
  then have e1: "aes_encrypt_bytes wl iv ?key body (take ?el tl) = Some (True, iv @ ct)" using e by blast
  have w2: "buf_write (version # tl) 1 (iv @ ct) = Some (version # iv @ ct @ drop ?el tl)"
    using el o(2) by (simp add: buf_write_def)
  let ?out = "version # iv @ ct @ drop ?el tl"
  have lo: "length ?out = 1 + ?el + HMAC_SHA256_LEN" using el o(2) by simp
  have t: "take (length ?out - HMAC_SHA256_LEN) ?out = version # iv @ ct" using el o(2) by simp
  let ?h = "master_hmac wl xpriv (version # iv @ ct)"
  have h: "wallet_hmac_with_master_key wl (Some xpriv) (take (length ?out - HMAC_SHA256_LEN) ?out) HMAC_SHA256_LEN = Some (Some ?h)"
    unfolding t by (rule hmac_master [OF assms(1)]) simp
  have w3: "buf_write ?out (1 + ?el) ?h = Some (version # iv @ ct @ ?h)"
    using el o(2) length_master_hmac [OF assms(1)] by (simp add: buf_write_def)
  have "sealed wl xpriv iv version body = version # iv @ ct @ ?h"
    using ct(1) by (simp add: sealed_def Let_def)
  then show ?thesis
    unfolding registration_seal_def
    using assms(4,5) registration_key [OF assms(1)] w1 e1 w2 lo h w3
    by (simp add: o(1) buf_set_def Let_def split_def)
qed

lemma decrypt_bytes_eq:
  assumes "length key = AES_KEY_LEN_256" and "length bs > AES_BLOCK_LEN" and "0 < n"
    and "(length bs - AES_BLOCK_LEN) mod AES_BLOCK_LEN = 0" and "length bs - AES_BLOCK_LEN \<le> AES_PADDED_LEN n"
  shows "aes_decrypt_bytes wl key bs n =
    Some (case aes_cbc_decrypt wl key (take AES_BLOCK_LEN bs) (drop AES_BLOCK_LEN bs) of None \<Rightarrow> None
      | Some body \<Rightarrow> if length body > n then None else Some body)"
  using assms by (simp add: aes_decrypt_bytes_def)

definition well_sealed :: "'k libwally \<Rightarrow> 'k \<Rightarrow> byte \<Rightarrow> bytes \<Rightarrow> bool" where
  "well_sealed wl xpriv version bs \<longleftrightarrow>
     REGISTRATION_MIN_SEALED_LEN \<le> length bs \<and> (length bs - REGISTRATION_MIN_SEALED_LEN) mod AES_BLOCK_LEN = 0 \<and>
     drop (length bs - HMAC_SHA256_LEN) bs = master_hmac wl xpriv (take (length bs - HMAC_SHA256_LEN) bs) \<and>
     bs ! 0 = version"

definition sealed_body :: "'k libwally \<Rightarrow> 'k \<Rightarrow> bytes \<Rightarrow> bytes option" where
  "sealed_body wl xpriv bs =
     aes_cbc_decrypt wl (master_hmac wl xpriv REGISTRATION_KEY_LABEL) (take AES_BLOCK_LEN (drop 1 bs))
       (take (length bs - 1 - HMAC_SHA256_LEN - AES_BLOCK_LEN) (drop (1 + AES_BLOCK_LEN) bs))"

text \<open>Opening decides exactly these conditions and never aborts on a record that fits.\<close>

lemma registration_open_eq:
  assumes "hmac_ok wl" and "0 < n" and "length bs \<le> REGISTRATION_SEALED_LEN n"
  shows "registration_open wl (Some xpriv) version bs n =
    Some (if well_sealed wl xpriv version bs
      then (case sealed_body wl xpriv bs of None \<Rightarrow> None | Some body \<Rightarrow> if length body > n then None else Some body)
      else None)"
proof (cases "REGISTRATION_MIN_SEALED_LEN \<le> length bs \<and> (length bs - REGISTRATION_MIN_SEALED_LEN) mod AES_BLOCK_LEN = 0")
  case False
  then show ?thesis using assms(2) by (auto simp: registration_open_def well_sealed_def)
next
  case True
  let ?key = "master_hmac wl xpriv REGISTRATION_KEY_LABEL"
  let ?enc = "take (length bs - 1 - HMAC_SHA256_LEN) (drop 1 bs)"
  have lb: "65 \<le> length bs" "(length bs - 65) mod 16 = 0" using True by (simp_all add: seal_lens)
  have le: "length ?enc = length bs - 33" using lb by (simp add: seal_lens)
  have t: "take AES_BLOCK_LEN ?enc = take AES_BLOCK_LEN (drop 1 bs)" using lb by (simp add: seal_lens min_def)
  have dr: "drop AES_BLOCK_LEN ?enc = take (length bs - 1 - HMAC_SHA256_LEN - AES_BLOCK_LEN) (drop (1 + AES_BLOCK_LEN) bs)"
    by (simp add: drop_take add.commute)
  have "(length ?enc - AES_BLOCK_LEN) mod AES_BLOCK_LEN = 0" using lb unfolding le AES_BLOCK_LEN_def by presburger
  moreover have "length bs - 33 - 16 \<le> (n div 16 + 1) * 16" using assms(3) by (simp add: seal_lens)
  ultimately have d: "aes_decrypt_bytes wl ?key ?enc n = Some (case sealed_body wl xpriv bs of None \<Rightarrow> None
      | Some body \<Rightarrow> if length body > n then None else Some body)"
    unfolding sealed_body_def t [symmetric] dr [symmetric]
    using lb assms(2) length_master_hmac [OF assms(1), of xpriv REGISTRATION_KEY_LABEL]
    by (intro decrypt_bytes_eq) (simp_all only: le seal_lens, simp_all)
  have "take (length bs - HMAC_SHA256_LEN) bs \<noteq> []" using lb by (auto simp: seal_lens)
  note h = hmac_master [OF assms(1) this, of xpriv]
  show ?thesis
    using True assms(2) h registration_key [OF assms(1), of xpriv] d
    by (auto simp: registration_open_def well_sealed_def)
qed

lemma sealed_parts:
  assumes "hmac_ok wl" and "cbc_ok wl" and "length iv = AES_BLOCK_LEN" and "body \<noteq> []"
  shows "well_sealed wl xpriv version (sealed wl xpriv iv version body) \<and>
    sealed_body wl xpriv (sealed wl xpriv iv version body) = Some body"
proof -
  let ?key = "master_hmac wl xpriv REGISTRATION_KEY_LABEL"
  have "length ?key = AES_KEY_LEN_256" using length_master_hmac [OF assms(1)] by (simp add: seal_lens)
  then obtain ct where ct: "aes_cbc_encrypt wl ?key iv body = Some ct" "length ct = AES_PADDED_LEN (length body)"
      "aes_cbc_decrypt wl ?key iv ct = Some body"
    using assms unfolding cbc_ok_def by blast
  let ?msg = "version # iv @ ct"
  have s: "sealed wl xpriv iv version body = ?msg @ master_hmac wl xpriv ?msg" using ct(1) by (simp add: sealed_def Let_def)
  have lh: "length (master_hmac wl xpriv ?msg) = HMAC_SHA256_LEN" by (rule length_master_hmac [OF assms(1)])
  have "sealed_body wl xpriv (sealed wl xpriv iv version body) = Some body"
    unfolding sealed_body_def s using lh assms(3) ct(3) by simp
  moreover have "drop (length (?msg @ master_hmac wl xpriv ?msg) - HMAC_SHA256_LEN) (?msg @ master_hmac wl xpriv ?msg)
        = master_hmac wl xpriv ?msg"
      "take (length (?msg @ master_hmac wl xpriv ?msg) - HMAC_SHA256_LEN) (?msg @ master_hmac wl xpriv ?msg) = ?msg"
    using lh by simp_all
  moreover have "length (sealed wl xpriv iv version body) = REGISTRATION_SEALED_LEN (length body)"
    by (rule length_sealed [OF assms])
  then have "REGISTRATION_MIN_SEALED_LEN \<le> length (sealed wl xpriv iv version body)"
      "(length (sealed wl xpriv iv version body) - REGISTRATION_MIN_SEALED_LEN) mod AES_BLOCK_LEN = 0"
    by (simp_all add: seal_lens)
  ultimately have "well_sealed wl xpriv version (sealed wl xpriv iv version body)"
      and "sealed_body wl xpriv (sealed wl xpriv iv version body) = Some body"
    unfolding well_sealed_def s by simp_all
  then show ?thesis by blast
qed

lemma registration_open_sealed:
  assumes "hmac_ok wl" and "cbc_ok wl" and "length iv = AES_BLOCK_LEN" and "body \<noteq> []" and "length body \<le> n"
  shows "registration_open wl (Some xpriv) version (sealed wl xpriv iv version body) n = Some (Some body)"
proof -
  have "0 < n" using assms(4,5) by (cases body) simp_all
  moreover have "length (sealed wl xpriv iv version body) \<le> REGISTRATION_SEALED_LEN n"
    using length_sealed [OF assms(1-4)] assms(5) by (simp add: seal_lens div_le_mono)
  ultimately show ?thesis
    using registration_open_eq [OF assms(1), of n "sealed wl xpriv iv version body" xpriv version]
      sealed_parts [OF assms(1-4)] assms(5) by simp
qed

section \<open>The interface of sealed records\<close>

text \<open>What the modules that keep records rely on: a keeper \<open>w\<close> can read what it has sealed, under
  any IV and into any buffer that is large enough.\<close>

locale record_sealer =
  fixes seal :: "'w \<Rightarrow> bytes \<Rightarrow> bytes \<Rightarrow> bytes"
    and unseal :: "'w \<Rightarrow> bytes \<Rightarrow> nat \<Rightarrow> bytes option option"
    and keeper_ok :: "'w \<Rightarrow> bool"
    and iv_ok :: "bytes \<Rightarrow> bool"
  assumes unseal_seal:
    "keeper_ok w \<Longrightarrow> iv_ok iv \<Longrightarrow> body \<noteq> [] \<Longrightarrow> length body \<le> n \<Longrightarrow> unseal w (seal w iv body) n = Some (Some body)"
begin

text \<open>A stored record determines its body, whatever IV it was sealed with.\<close>

lemma seal_determines_body:
  assumes "keeper_ok w" and "iv_ok iv" and "iv_ok iv'" and "body \<noteq> []" and "body' \<noteq> []"
    and "seal w iv body = seal w iv' body'"
  shows "body = body'"
  using unseal_seal [OF assms(1,2,4), of "max (length body) (length body')"]
    unseal_seal [OF assms(1,3,5), of "max (length body) (length body')"] assms(6) by simp

text \<open>Comparing the opened body with a new one decides whether the two registrations are the same.\<close>

lemma same_registration:
  assumes "keeper_ok w" and "iv_ok iv" and "body \<noteq> []" and "length body \<le> n"
  shows "unseal w (seal w iv body) n = Some (Some body') \<longleftrightarrow> body' = body"
  using unseal_seal [OF assms] by auto

end

interpretation registration: record_sealer
  "\<lambda>(wl, xpriv). \<lambda>iv body. sealed wl xpriv iv version body"
  "\<lambda>(wl, xpriv). registration_open wl (Some xpriv) version"
  "\<lambda>(wl, xpriv). hmac_ok wl \<and> cbc_ok wl" "\<lambda>iv. length iv = AES_BLOCK_LEN" for version
  by unfold_locales (auto intro: registration_open_sealed)

section \<open>Properties\<close>

lemma demo_crypto: "hmac_ok demo_wally" "cbc_ok demo_wally"
proof -
  show "hmac_ok demo_wally" by (simp add: hmac_ok_def demo_wally_def HMAC_SHA256_LEN_def)
  have "length data + (16 - length data mod 16) = (length data div 16 + 1) * 16" for data :: bytes
    by presburger
  moreover have "unat (of_nat n :: byte) = n" if "n \<le> 16" for n
    using that unat_of_nat [of n, where 'a = 8] by (simp add: take_bit_eq_mod)
  then have "unat (of_nat (16 - length data mod 16) :: byte) = 16 - length data mod 16" for data :: bytes
    by (metis diff_le_self)
  moreover have "\<not> 16 \<le> length data mod 16" "length data div 16 * 16 \<le> length data - length data mod 16" for data :: bytes
    by presburger+
  ultimately show "cbc_ok demo_wally"
    by (auto simp: cbc_ok_def demo_wally_def Let_def seal_lens last_append add.commute simp del: of_nat_diff)
qed

text \<open>Sealing and opening: for every body and IV, sealing succeeds into a buffer of the announced
  length, and the same wallet opens the record again to exactly the body that was sealed, into any
  buffer that can hold it.\<close>

lemma registration_roundtrip:
  assumes "hmac_ok wl" and "cbc_ok wl" and "length iv = AES_BLOCK_LEN" and "body \<noteq> []"
    and "length output = REGISTRATION_SEALED_LEN (length body)" and "length body \<le> n"
  shows "\<exists>record. registration_seal wl (Some xpriv) iv version body output = Some (True, record) \<and>
    length record = length output \<and> registration_open wl (Some xpriv) version record n = Some (Some body)"
  using registration_seal_eq [OF assms(1-5)] length_sealed [OF assms(1-4)] registration_open_sealed [OF assms(1-4,6)]
    assms(5) by simp

text \<open>C14. Opening a record that fits the caller's buffer never aborts, whatever its bytes are. It
  succeeds exactly when the record has a legal length, carries the HMAC of this wallet over
  everything before it, has the expected version and decrypts to a body that fits. A record sealed
  by another wallet is refused unless the two wallets compute the same HMAC for it.\<close>

theorem registration_open_exact:
  assumes "hmac_ok wl" and "0 < n" and "length bs \<le> REGISTRATION_SEALED_LEN n"
  shows "(\<exists>r. registration_open wl (Some xpriv) version bs n = Some r) \<and>
    (registration_open wl (Some xpriv) version bs n = Some (Some body) \<longleftrightarrow>
       well_sealed wl xpriv version bs \<and> sealed_body wl xpriv bs = Some body \<and> length body \<le> n) \<and>
    (\<forall>other. drop (length bs - HMAC_SHA256_LEN) bs = master_hmac wl other (take (length bs - HMAC_SHA256_LEN) bs) \<and>
       master_hmac wl other (take (length bs - HMAC_SHA256_LEN) bs) \<noteq> master_hmac wl xpriv (take (length bs - HMAC_SHA256_LEN) bs) \<longrightarrow>
       registration_open wl (Some xpriv) version bs n = Some None)"
  using registration_open_eq [OF assms, of xpriv version]
  by (auto simp: well_sealed_def split: option.splits if_splits)

theorem registration_open_exact_witness:
  "registration_open demo_wally (Some (demo_key 0 6)) 4 (sealed demo_wally (demo_key 0 5) (replicate 16 1) 4 [1, 2, 3]) 8 = Some None"
proof -
  let ?bs = "sealed demo_wally (demo_key 0 5) (replicate 16 1) 4 [1, 2, 3]"
  have h: "drop (length ?bs - HMAC_SHA256_LEN) ?bs = master_hmac demo_wally (demo_key 0 5) (take (length ?bs - HMAC_SHA256_LEN) ?bs)"
    "master_hmac demo_wally (demo_key 0 5) (take (length ?bs - HMAC_SHA256_LEN) ?bs)
      \<noteq> master_hmac demo_wally (demo_key 0 6) (take (length ?bs - HMAC_SHA256_LEN) ?bs)" "length ?bs = 65"
    by code_simp+
  show ?thesis
    using registration_open_exact [OF demo_crypto(1), of 8 ?bs "demo_key 0 6" 4] h by (auto simp: seal_lens)
qed

end
