(* ===== verification/Multisig.thy ===== *)
theory Multisig
  imports Registration Storage
begin

text \<open>
  \<open>main/multisig.c\<close> and \<open>main/signer.c\<close>: the record of a registered multisig wallet, from the
  parameters of a registration to the bytes of its body and back, and the use of a stored record.

  An array with its length is a list. The name of an error message is its text. In a result, \<open>Inl\<close>
  is the message of a false result, and an inner \<open>None\<close> a false result without a message; what the
  code leaves in the output structures on failure is not read by any caller and is not returned.
\<close>

section \<open>Signers\<close>

datatype signer_path = Path_Elems "u32 list" | Path_Str bytes

record signer_t =
  sg_fingerprint :: bytes
  sg_derivation :: "u32 list"
  sg_xpub :: bytes
  sg_path :: signer_path

fun signer_path_len :: "signer_path \<Rightarrow> nat" where
  "signer_path_len (Path_Elems p) = length p"
| "signer_path_len (Path_Str s) = length s"

text \<open>\<open>path_features\<close> is \<open>bip32_path_str_get_features\<close> of libwally, whether the path is hardened.\<close>

definition signer_path_ok :: "(bytes \<Rightarrow> bool option) \<Rightarrow> bool \<Rightarrow> signer_path \<Rightarrow> bool" where
  "signer_path_ok path_features accept_string_path p = (case p of
     Path_Str s \<Rightarrow> if \<not> accept_string_path then False else path_features s = Some False
   | Path_Elems ps \<Rightarrow> list_all (\<lambda>n. \<not> ishardened n) ps)"

text \<open>The loop of \<open>validate_signers\<close>: whether this wallet was found and the number of path
  elements, or false.\<close>

fun validate_signers_loop ::
  "'k libwally \<Rightarrow> 'k option \<Rightarrow> (bytes \<Rightarrow> bool option) \<Rightarrow> bool \<Rightarrow> bytes \<Rightarrow> signer_t list \<Rightarrow> bool \<Rightarrow> nat \<Rightarrow> (bool \<times> nat) option option" where
  "validate_signers_loop wl keychain path_features accept_string_path fingerprint [] bFound total_num_path_elements = Some (Some (bFound, total_num_path_elements))"
| "validate_signers_loop wl keychain path_features accept_string_path fingerprint (signer # signers) bFound total_num_path_elements =
     (if \<not> signer_path_ok path_features accept_string_path (sg_path signer) then Some None
      else do {
        let flags = BIP32_FLAG_KEY_PUBLIC OR BIP32_FLAG_SKIP_HASH;
        hdkey_provided \<leftarrow> wallet_derive_from_xpub wl (sg_xpub signer) [] flags;
        case hdkey_provided of None \<Rightarrow> Some None | Some hdkey_provided \<Rightarrow> do {
          let elements = total_num_path_elements + length (sg_derivation signer) + signer_path_len (sg_path signer);
          if fingerprint = sg_fingerprint signer then do {
            hdkey_calculated \<leftarrow> wallet_get_hdkey wl keychain (sg_derivation signer) flags;
            case hdkey_calculated of None \<Rightarrow> Some None | Some hdkey_calculated \<Rightarrow>
              validate_signers_loop wl keychain path_features accept_string_path fingerprint signers
                (bFound \<or> key_pub_key wl hdkey_provided = key_pub_key wl hdkey_calculated \<and>
                   key_chain_code wl hdkey_provided = key_chain_code wl hdkey_calculated) elements }
          else validate_signers_loop wl keychain path_features accept_string_path fingerprint signers bFound elements } })"

text \<open>The number of path elements when the signers are valid and this wallet is one of them.\<close>

definition validate_signers ::
  "'k libwally \<Rightarrow> 'k option \<Rightarrow> (bytes \<Rightarrow> bool option) \<Rightarrow> signer_t list \<Rightarrow> bool \<Rightarrow> bytes \<Rightarrow> nat option option" where
  "validate_signers wl keychain path_features signers accept_string_path wallet_fingerprint =
     (if signers = [] \<or> length signers > MAX_ALLOWED_SIGNERS \<or> length wallet_fingerprint \<noteq> BIP32_KEY_FINGERPRINT_LEN then Some None
      else do {
        r \<leftarrow> validate_signers_loop wl keychain path_features accept_string_path wallet_fingerprint signers False 0;
        Some (case r of Some (True, total_num_path_elements) \<Rightarrow> Some total_num_path_elements | _ \<Rightarrow> None) })"

section \<open>The body of a record\<close>

definition CURRENT_MULTISIG_RECORD_VERSION :: byte where "CURRENT_MULTISIG_RECORD_VERSION = 4"
definition MULTISIG_MASTER_BLINDING_KEY_SIZE :: nat where "MULTISIG_MASTER_BLINDING_KEY_SIZE = HMAC_SHA512_LEN div 2"
definition MAX_MULTISIG_NAME_SIZE :: nat where "MAX_MULTISIG_NAME_SIZE = 16"
definition MAX_MULTISIG_REGISTRATIONS :: nat where "MAX_MULTISIG_REGISTRATIONS = 16"

definition MULTISIG_BODY_LEN :: "nat \<Rightarrow> nat \<Rightarrow> nat \<Rightarrow> nat" where
  "MULTISIG_BODY_LEN master_blinding_key_len num_signers total_num_path_elements =
     5 + master_blinding_key_len + num_signers * (6 + BIP32_SERIALIZED_LEN) + total_num_path_elements * 4"

definition MAX_MULTISIG_BODY_LEN :: nat where
  "MAX_MULTISIG_BODY_LEN =
     MULTISIG_BODY_LEN MULTISIG_MASTER_BLINDING_KEY_SIZE MAX_ALLOWED_SIGNERS (MAX_ALLOWED_SIGNERS * 2 * MAX_PATH_LEN)"

definition MAX_MULTISIG_BYTES_LEN :: nat where
  "MAX_MULTISIG_BYTES_LEN = REGISTRATION_SEALED_LEN MAX_MULTISIG_BODY_LEN"

definition MIN_MULTISIG_BODY_LEN :: nat where
  "MIN_MULTISIG_BODY_LEN = 5 + BIP32_KEY_FINGERPRINT_LEN + 1 + BIP32_SERIALIZED_LEN + 1"

lemmas multisig_lens = MULTISIG_MASTER_BLINDING_KEY_SIZE_def MULTISIG_BODY_LEN_def MAX_MULTISIG_BODY_LEN_def
  MAX_MULTISIG_BYTES_LEN_def MIN_MULTISIG_BODY_LEN_def wallet_lens

text \<open>The two static assertions of the source.\<close>

lemma multisig_static_asserts: "MAX_MULTISIG_BODY_LEN = 3217" "MAX_MULTISIG_BYTES_LEN = 3281"
  by (simp_all add: multisig_lens seal_lens)

fun variant_byte :: "script_variant_t \<Rightarrow> byte" where
  "variant_byte GREEN = 0" | "variant_byte P2PKH = 1" | "variant_byte P2WPKH = 2" | "variant_byte P2WPKH_P2SH = 3"
| "variant_byte MULTI_P2WSH = 4" | "variant_byte MULTI_P2SH = 5" | "variant_byte MULTI_P2WSH_P2SH = 6" | "variant_byte P2TR = 7"

text \<open>The cast of a stored byte to the enumeration; \<open>None\<close> is a value that is no enumerator.\<close>

definition variant_of_byte :: "byte \<Rightarrow> script_variant_t option" where
  "variant_of_byte b = find (\<lambda>v. variant_byte v = b)
     [GREEN, P2PKH, P2WPKH, P2WPKH_P2SH, MULTI_P2WSH, MULTI_P2SH, MULTI_P2WSH_P2SH, P2TR]"

definition is_valid_blinding_key :: "bytes option \<Rightarrow> bool" where
  "is_valid_blinding_key master_blinding_key = (case master_blinding_key of
     None \<Rightarrow> True | Some k \<Rightarrow> length k = MULTISIG_MASTER_BLINDING_KEY_SIZE)"

definition blinding_key_len :: "bytes option \<Rightarrow> nat" where
  "blinding_key_len master_blinding_key = (case master_blinding_key of None \<Rightarrow> 0 | Some k \<Rightarrow> length k)"

text \<open>\<open>memcpy\<close> at the write pointer, which advances.\<close>

definition put :: "bytes \<Rightarrow> bytes \<times> nat \<Rightarrow> (bytes \<times> nat) option" where
  "put bs w = (case w of (body, write_ptr) \<Rightarrow> do {
     body \<leftarrow> buf_write body write_ptr bs;
     Some (body, write_ptr + length bs) })"

definition path_bytes :: "u32 list \<Rightarrow> bytes" where
  "path_bytes path = concat (map write_le32 path)"

definition write_signer ::
  "'k libwally \<Rightarrow> nat \<Rightarrow> signer_t \<Rightarrow> nat \<Rightarrow> bytes \<times> nat \<Rightarrow> (nat \<times> bytes \<times> nat) option option" where
  "write_signer wl total_num_path_elements signer counted w = do {
     let counted = counted + length (sg_derivation signer) + signer_path_len (sg_path signer);
     jade_assert (counted \<le> total_num_path_elements);
     w \<leftarrow> put (sg_fingerprint signer) w;
     jade_assert (length (sg_derivation signer) \<le> MAX_PATH_LEN);
     w \<leftarrow> put [of_nat (length (sg_derivation signer))] w;
     w \<leftarrow> put (path_bytes (sg_derivation signer)) w;
     (case base58_to_bytes wl (sg_xpub signer) of None \<Rightarrow> Some None | Some xpub_bytes \<Rightarrow>
       if length xpub_bytes \<noteq> BIP32_SERIALIZED_LEN then Some None
       else do {
         w \<leftarrow> put xpub_bytes w;
         case sg_path signer of Path_Str s \<Rightarrow> Some None | Path_Elems path \<Rightarrow> do {
           jade_assert (length path \<le> MAX_PATH_LEN);
           w \<leftarrow> put [of_nat (length path)] w;
           w \<leftarrow> put (path_bytes path) w;
           Some (Some (counted, w)) } }) }"

fun write_signers ::
  "'k libwally \<Rightarrow> nat \<Rightarrow> signer_t list \<Rightarrow> nat \<Rightarrow> bytes \<times> nat \<Rightarrow> (nat \<times> bytes \<times> nat) option option" where
  "write_signers wl total_num_path_elements [] counted w = Some (Some (counted, w))"
| "write_signers wl total_num_path_elements (signer # signers) counted w = do {
     r \<leftarrow> write_signer wl total_num_path_elements signer counted w;
     case r of None \<Rightarrow> Some None | Some (counted, w) \<Rightarrow> write_signers wl total_num_path_elements signers counted w }"

text \<open>The filled body, or false. \<open>body\<close> is the buffer as it is passed in.\<close>

definition multisig_body_to_bytes ::
  "'k libwally \<Rightarrow> script_variant_t \<Rightarrow> bool \<Rightarrow> nat \<Rightarrow> bytes option \<Rightarrow> signer_t list \<Rightarrow> nat \<Rightarrow> bytes \<Rightarrow> bytes option option" where
  "multisig_body_to_bytes wl variant is_sorted threshold master_blinding_key signers total_num_path_elements body = do {
     jade_assert (threshold > 0);
     jade_assert (is_valid_blinding_key master_blinding_key);
     jade_assert (length signers \<ge> threshold);
     jade_assert (length signers \<le> MAX_ALLOWED_SIGNERS);
     jade_assert (total_num_path_elements \<le> length signers * 2 * MAX_PATH_LEN);
     jade_assert (length body = MULTISIG_BODY_LEN (blinding_key_len master_blinding_key) (length signers) total_num_path_elements);
     w \<leftarrow> put [variant_byte variant] (body, 0);
     w \<leftarrow> put [if is_sorted then 1 else 0] w;
     w \<leftarrow> put [of_nat threshold] w;
     w \<leftarrow> put [of_nat (blinding_key_len master_blinding_key)] w;
     w \<leftarrow> (case master_blinding_key of None \<Rightarrow> Some w | Some k \<Rightarrow> put k w);
     w \<leftarrow> put [of_nat (length signers)] w;
     r \<leftarrow> write_signers wl total_num_path_elements signers 0 w;
     (case r of None \<Rightarrow> Some None | Some (counted, body, write_ptr) \<Rightarrow> do {
       jade_assert (counted = total_num_path_elements);
       jade_assert (write_ptr = length body);
       Some (Some body) }) }"

section \<open>Reading a body\<close>

record multisig_data_t =
  md_variant :: "script_variant_t option"
  md_sorted :: bool
  md_threshold :: byte
  md_num_xpubs :: byte
  md_master_blinding_key :: bytes
  md_xpubs :: bytes

definition read_path :: "bytes \<Rightarrow> u32 list" where
  "read_path bs = map (\<lambda>i. read_le32 (take 4 (drop (4 * i) bs))) [0..<length bs div 4]"

text \<open>The string form of an xpub for the signer details, or false.\<close>

definition xpub_string :: "'k libwally \<Rightarrow> bytes \<Rightarrow> bytes option" where
  "xpub_string wl xpub = (case base58_from_bytes wl xpub of
     None \<Rightarrow> None | Some s \<Rightarrow> if length s \<ge> 120 then None else Some s)"

text \<open>One signer: \<open>buf\<close> is the memory that holds the body, \<open>read_ptr\<close> an offset in it. The result is
  the details (kept when \<open>want_details\<close>), the table of xpubs and the advanced pointer, or false.\<close>

definition read_signer ::
  "'k libwally \<Rightarrow> bytes \<Rightarrow> nat \<Rightarrow> bool \<Rightarrow> nat \<Rightarrow> bytes \<Rightarrow> (signer_t option \<times> bytes \<times> nat) option option" where
  "read_signer wl buf i want_details read_ptr xpubs = do {
     fingerprint \<leftarrow> buf_read buf read_ptr BIP32_KEY_FINGERPRINT_LEN;
     let read_ptr = read_ptr + BIP32_KEY_FINGERPRINT_LEN;
     derivation_len \<leftarrow> buf_get buf read_ptr;
     if unat derivation_len > MAX_PATH_LEN then Some None
     else do {
       let read_ptr = read_ptr + 1;
       derivation \<leftarrow> buf_read buf read_ptr (unat derivation_len * 4);
       let read_ptr = read_ptr + unat derivation_len * 4;
       xpub \<leftarrow> buf_read buf read_ptr BIP32_SERIALIZED_LEN;
       xpubs \<leftarrow> buf_write xpubs (i * BIP32_SERIALIZED_LEN) xpub;
       let read_ptr = read_ptr + BIP32_SERIALIZED_LEN;
       if want_details \<and> xpub_string wl xpub = None then Some None
       else do {
         path_len \<leftarrow> buf_get buf read_ptr;
         if unat path_len > MAX_PATH_LEN then Some None
         else do {
           let read_ptr = read_ptr + 1;
           path \<leftarrow> buf_read buf read_ptr (unat path_len * 4);
           parent \<leftarrow> (if path_len = 0 then Some (Some xpubs)
             else do {
               hdkey \<leftarrow> wallet_derive_pubkey wl xpub (read_path path) (BIP32_FLAG_KEY_PUBLIC OR BIP32_FLAG_SKIP_HASH);
               case hdkey of None \<Rightarrow> Some None | Some hdkey \<Rightarrow>
                 (case bip32_key_serialize wl hdkey of None \<Rightarrow> Some None | Some serialised \<Rightarrow>
                   map_option Some (buf_write xpubs (i * BIP32_SERIALIZED_LEN) serialised)) });
           case parent of None \<Rightarrow> Some None | Some xpubs \<Rightarrow>
             Some (Some (if want_details then Some \<lparr> sg_fingerprint = fingerprint, sg_derivation = read_path derivation,
                 sg_xpub = the (xpub_string wl xpub), sg_path = Path_Elems (read_path path) \<rparr> else None,
               xpubs, read_ptr + unat path_len * 4)) } } } }"

text \<open>The loop over the signers \<open>i\<close> to \<open>num_signers - 1\<close>.\<close>

fun read_signers ::
  "'k libwally \<Rightarrow> bytes \<Rightarrow> nat \<Rightarrow> nat \<Rightarrow> nat \<Rightarrow> nat \<Rightarrow> bytes \<Rightarrow> signer_t list \<Rightarrow> (signer_t list \<times> bytes \<times> nat) option option" where
  "read_signers wl buf signer_details_len 0 i read_ptr xpubs details = Some (Some (details, xpubs, read_ptr))"
| "read_signers wl buf signer_details_len (Suc n) i read_ptr xpubs details = do {
     r \<leftarrow> read_signer wl buf i (i < signer_details_len) read_ptr xpubs;
     case r of None \<Rightarrow> Some None | Some (signer, xpubs, read_ptr) \<Rightarrow>
       read_signers wl buf signer_details_len n (Suc i) read_ptr xpubs
         (details @ (case signer of None \<Rightarrow> [] | Some s \<Rightarrow> [s])) }"

text \<open>\<open>signer_bytes\<close> is an offset in \<open>buf\<close>. The result is the number of signers, the table of xpubs
  and the details.\<close>

definition read_complete_signers ::
  "'k libwally \<Rightarrow> bytes \<Rightarrow> nat \<Rightarrow> nat \<Rightarrow> bytes \<Rightarrow> nat \<Rightarrow> (byte \<times> bytes \<times> signer_t list) option option" where
  "read_complete_signers wl buf signer_bytes signer_bytes_len xpubs signer_details_len = do {
     jade_assert (signer_bytes_len > 0);
     num_signers \<leftarrow> buf_get buf signer_bytes;
     if num_signers = 0 \<or> unat num_signers > MAX_ALLOWED_SIGNERS then Some None
     else do {
       r \<leftarrow> read_signers wl buf signer_details_len (unat num_signers) 0 (signer_bytes + 1) xpubs [];
       Some (case r of None \<Rightarrow> None | Some (details, xpubs, read_ptr) \<Rightarrow>
         if read_ptr \<noteq> signer_bytes + signer_bytes_len then None else Some (num_signers, xpubs, details)) } }"

definition multisig_body_from_bytes ::
  "'k libwally \<Rightarrow> bytes \<Rightarrow> nat \<Rightarrow> bytes \<Rightarrow> nat \<Rightarrow> (multisig_data_t \<times> signer_t list) option option" where
  "multisig_body_from_bytes wl body body_len xpubs signer_details_len =
     (if body_len < MIN_MULTISIG_BODY_LEN then Some None
      else do {
        variant \<leftarrow> buf_get body 0;
        sorted_flag \<leftarrow> buf_get body 1;
        threshold \<leftarrow> buf_get body 2;
        keylen \<leftarrow> buf_get body 3;
        if keylen \<noteq> 0 \<and> (unat keylen \<noteq> MULTISIG_MASTER_BLINDING_KEY_SIZE \<or> 4 + unat keylen > body_len) then Some None
        else do {
          master_blinding_key \<leftarrow> buf_read body 4 (unat keylen);
          let read_ptr = 4 + unat keylen;
          r \<leftarrow> read_complete_signers wl body read_ptr (body_len - read_ptr) xpubs signer_details_len;
          Some (case r of None \<Rightarrow> None | Some (num_xpubs, xpubs, details) \<Rightarrow>
            Some (\<lparr> md_variant = variant_of_byte variant, md_sorted = (sorted_flag \<noteq> 0), md_threshold = threshold,
              md_num_xpubs = num_xpubs, md_master_blinding_key = master_blinding_key, md_xpubs = xpubs \<rparr>, details)) } })"

definition multisig_seal_body ::
  "'k libwally \<Rightarrow> 'k option \<Rightarrow> bytes \<Rightarrow> bytes \<Rightarrow> bytes \<Rightarrow> (bool \<times> bytes) option" where
  "multisig_seal_body wl keychain iv body output =
     registration_seal wl keychain iv CURRENT_MULTISIG_RECORD_VERSION body output"

definition multisig_open_registration :: "'k libwally \<Rightarrow> 'k option \<Rightarrow> bytes \<Rightarrow> nat \<Rightarrow> bytes option option" where
  "multisig_open_registration wl keychain bs body_len =
     registration_open wl keychain CURRENT_MULTISIG_RECORD_VERSION bs body_len"

text \<open>\<open>heap\<close> is the fresh allocation that the body is opened into, \<open>xpubs\<close> the uninitialised table of
  the output structure.\<close>

definition multisig_data_from_bytes ::
  "'k libwally \<Rightarrow> 'k option \<Rightarrow> bytes \<Rightarrow> bytes \<Rightarrow> bytes \<Rightarrow> nat \<Rightarrow> (multisig_data_t \<times> signer_t list) option option" where
  "multisig_data_from_bytes wl keychain heap bs xpubs signer_details_len = do {
     opened \<leftarrow> multisig_open_registration wl keychain bs MAX_MULTISIG_BODY_LEN;
     case opened of None \<Rightarrow> Some None | Some body \<Rightarrow> do {
       buf \<leftarrow> buf_write heap 0 body;
       multisig_body_from_bytes wl buf (length body) xpubs signer_details_len } }"

definition multisig_sane :: "multisig_data_t \<Rightarrow> bool" where
  "multisig_sane d \<longleftrightarrow> \<not> (\<not> (case md_variant d of None \<Rightarrow> False | Some v \<Rightarrow> is_multisig v) \<or> md_threshold d = 0 \<or> md_threshold d > md_num_xpubs d
     \<or> md_num_xpubs d = 0 \<or> unat (md_num_xpubs d) > MAX_ALLOWED_SIGNERS
     \<or> md_master_blinding_key d \<noteq> [] \<and> length (md_master_blinding_key d) \<noteq> MULTISIG_MASTER_BLINDING_KEY_SIZE)"

definition multisig_load_from_storage ::
  "'k libwally \<Rightarrow> 'k option \<Rightarrow> bytes \<Rightarrow> bytes \<Rightarrow> 'm nvs_env \<Rightarrow> 'm nvs_state \<Rightarrow> bytes \<Rightarrow> nat
     \<Rightarrow> (bytes + multisig_data_t \<times> signer_t list) option" where
  "multisig_load_from_storage wl keychain heap xpubs env st multisig_name signer_details_len = do {
     registration \<leftarrow> storage_get_multisig_registration env multisig_name MAX_MULTISIG_BYTES_LEN st;
     case registration of None \<Rightarrow> Some (Inl (str ''Cannot find named multisig wallet'')) | Some registration \<Rightarrow> do {
       r \<leftarrow> multisig_data_from_bytes wl keychain heap registration xpubs signer_details_len;
       case r of None \<Rightarrow> Some (Inl (str ''Cannot de-serialise multisig wallet data'')) | Some (d, details) \<Rightarrow>
         if \<not> multisig_sane d then Some (Inl (str ''Multisig wallet data invalid'')) else Some (Inr (d, details)) } }"

section \<open>Using a record\<close>

text \<open>The paths of the signers as \<open>rpc_get_bip32_path_from_value\<close> reads them from the items of the
  CBOR array: \<open>None\<close> for a value that is no array, and for an item that is no path.\<close>

type_synonym cbor_paths = "u32 list option list option"

fun validate_paths_loop :: "bool \<Rightarrow> nat \<Rightarrow> u32 option \<Rightarrow> u32 list option list \<Rightarrow> bool \<times> bool \<Rightarrow> (bool \<times> bool) option" where
  "validate_paths_loop is_change i expected [] (seen_unusual_path, seen_final_element_mismatch) =
     Some (\<not> seen_unusual_path, \<not> seen_final_element_mismatch)"
| "validate_paths_loop is_change i expected (item # items) (seen_unusual_path, seen_final_element_mismatch) = (case item of
     None \<Rightarrow> None
   | Some path \<Rightarrow>
     if path = [] then None
     else
       let seen_unusual_path = seen_unusual_path \<or> \<not> wallet_is_expected_multisig_path i is_change path;
           final = path ! (length path - 1) in
       (case expected of
          None \<Rightarrow> validate_paths_loop is_change (Suc i) (Some final) items (seen_unusual_path, seen_final_element_mismatch)
        | Some e \<Rightarrow> validate_paths_loop is_change (Suc i) expected items (seen_unusual_path, seen_final_element_mismatch \<or> final \<noteq> e)))"

definition multisig_validate_paths :: "bool \<Rightarrow> cbor_paths \<Rightarrow> (bool \<times> bool) option" where
  "multisig_validate_paths is_change all_signer_paths = (case all_signer_paths of
     None \<Rightarrow> None
   | Some items \<Rightarrow> if items = [] then None else validate_paths_loop is_change 0 None items (False, False))"

fun get_pubkeys_loop :: "'k libwally \<Rightarrow> bytes \<Rightarrow> nat \<Rightarrow> u32 list option list \<Rightarrow> bytes \<Rightarrow> bytes option option" where
  "get_pubkeys_loop wl xpubs i [] pubkeys = Some (Some pubkeys)"
| "get_pubkeys_loop wl xpubs i (item # items) pubkeys = (case item of
     None \<Rightarrow> Some None
   | Some path \<Rightarrow>
     if path = [] then Some None
     else if list_ex ishardened path then Some None
     else do {
       xpub \<leftarrow> buf_read xpubs (i * BIP32_SERIALIZED_LEN) BIP32_SERIALIZED_LEN;
       hdkey \<leftarrow> wallet_derive_pubkey wl xpub path BIP32_FLAG_SKIP_HASH;
       case hdkey of None \<Rightarrow> Some None | Some hdkey \<Rightarrow>
         get_pubkeys_loop wl xpubs (Suc i) items (pubkeys @ key_pub_key wl hdkey) })"

definition multisig_get_pubkeys :: "'k libwally \<Rightarrow> bytes \<Rightarrow> nat \<Rightarrow> cbor_paths \<Rightarrow> nat \<Rightarrow> bytes option option" where
  "multisig_get_pubkeys wl xpubs num_xpubs all_signer_paths pubkeys_len = do {
     jade_assert (num_xpubs \<ge> 1);
     jade_assert (pubkeys_len \<ge> num_xpubs * EC_PUBLIC_KEY_LEN);
     case all_signer_paths of None \<Rightarrow> Some None | Some items \<Rightarrow>
       if length items \<noteq> num_xpubs then Some None else get_pubkeys_loop wl xpubs 0 items [] }"

definition multisig_get_master_blinding_key :: "multisig_data_t \<Rightarrow> nat \<Rightarrow> (bytes + bytes) option" where
  "multisig_get_master_blinding_key d master_blinding_key_len = do {
     jade_assert (master_blinding_key_len = HMAC_SHA512_LEN);
     let k = md_master_blinding_key d;
     Some (if length k \<noteq> MULTISIG_MASTER_BLINDING_KEY_SIZE then Inl (str ''No blinding key for multisig record'')
       else Inr (replicate (master_blinding_key_len - length k) 0 @ k)) }"

text \<open>\<open>script_type\<close> is \<open>Some True\<close> for P2WSH, \<open>Some False\<close> for P2SH; other types match no record.\<close>

definition variant_matches_script_type :: "script_variant_t option \<Rightarrow> bool option \<Rightarrow> bool" where
  "variant_matches_script_type variant script_type \<longleftrightarrow> script_type = None
     \<or> script_type = Some True \<and> variant = Some MULTI_P2WSH
     \<or> script_type = Some False \<and> (variant = Some MULTI_P2SH \<or> variant = Some MULTI_P2WSH_P2SH)"

text \<open>The loop that moves the names of valid records down.\<close>

fun valid_names_loop ::
  "(bytes \<Rightarrow> (bytes + multisig_data_t \<times> signer_t list) option) \<Rightarrow> bool option \<Rightarrow> bytes list \<Rightarrow> bytes list \<Rightarrow> bytes list option" where
  "valid_names_loop load script_type [] written = Some written"
| "valid_names_loop load script_type (name # names) written = do {
     r \<leftarrow> load name;
     case r of
       Inl _ \<Rightarrow> valid_names_loop load script_type names written
     | Inr (d, _) \<Rightarrow>
         if variant_matches_script_type (md_variant d) script_type
         then valid_names_loop load script_type names (written @ [name])
         else valid_names_loop load script_type names written }"

definition multisig_get_valid_record_names ::
  "'k libwally \<Rightarrow> 'k option \<Rightarrow> bytes \<Rightarrow> bytes \<Rightarrow> bool \<Rightarrow> 'm nvs_env \<Rightarrow> 'm nvs_state \<Rightarrow> bool option \<Rightarrow> nat \<Rightarrow> bytes list option" where
  "multisig_get_valid_record_names wl keychain heap xpubs malloc_ok env st script_type num_names = do {
     jade_assert (num_names > 0);
     (ok, names) \<leftarrow> storage_get_all_multisig_registration_names malloc_ok num_names st;
     if \<not> ok \<or> names = [] then Some []
     else valid_names_loop (\<lambda>name. multisig_load_from_storage wl keychain heap xpubs env st name 0) script_type names [] }"

section \<open>The bytes of a body\<close>

definition signer_bytes :: "'k libwally \<Rightarrow> signer_t \<Rightarrow> bytes" where
  "signer_bytes wl s = sg_fingerprint s @ [of_nat (length (sg_derivation s))] @ path_bytes (sg_derivation s)
     @ the (base58_to_bytes wl (sg_xpub s))
     @ (case sg_path s of Path_Elems p \<Rightarrow> [of_nat (length p)] @ path_bytes p | Path_Str _ \<Rightarrow> [])"

definition body_bytes :: "'k libwally \<Rightarrow> script_variant_t \<Rightarrow> bool \<Rightarrow> nat \<Rightarrow> bytes option \<Rightarrow> signer_t list \<Rightarrow> bytes" where
  "body_bytes wl variant is_sorted threshold key signers =
     [variant_byte variant, if is_sorted then 1 else 0, of_nat threshold, of_nat (blinding_key_len key)]
     @ (case key of None \<Rightarrow> [] | Some k \<Rightarrow> k) @ [of_nat (length signers)] @ concat (map (signer_bytes wl) signers)"

text \<open>A signer that can be persisted.\<close>

definition signer_ok :: "'k libwally \<Rightarrow> signer_t \<Rightarrow> bool" where
  "signer_ok wl s \<longleftrightarrow> length (sg_fingerprint s) = BIP32_KEY_FINGERPRINT_LEN \<and> length (sg_derivation s) \<le> MAX_PATH_LEN \<and>
     (\<exists>b. base58_to_bytes wl (sg_xpub s) = Some b \<and> length b = BIP32_SERIALIZED_LEN) \<and>
     (\<exists>p. sg_path s = Path_Elems p \<and> length p \<le> MAX_PATH_LEN)"

definition signer_elements :: "signer_t \<Rightarrow> nat" where
  "signer_elements s = length (sg_derivation s) + signer_path_len (sg_path s)"

lemma length_path_bytes [simp]: "length (path_bytes p) = 4 * length p"
  by (induction p) (simp_all add: path_bytes_def)

lemma read_path_bytes [simp]: "read_path (path_bytes p) = p"
proof (rule nth_equalityI)
  fix i assume "i < length (read_path (path_bytes p))"
  then have i: "i < length p" by (simp add: read_path_def)
  have "take 4 (drop (4 * i) (path_bytes p)) = write_le32 (p ! i)"
    using i
  proof (induction p arbitrary: i)
    case (Cons x p)
    then show ?case by (cases i) (simp_all add: path_bytes_def)
  qed simp
  then show "read_path (path_bytes p) ! i = p ! i" using i by (simp add: read_path_def)
qed (simp add: read_path_def)

lemma length_signer_bytes:
  "signer_ok wl s \<Longrightarrow> length (signer_bytes wl s) = 6 + BIP32_SERIALIZED_LEN + 4 * signer_elements s"
  by (auto simp: signer_ok_def signer_bytes_def signer_elements_def BIP32_KEY_FINGERPRINT_LEN_def)

text \<open>A writer that has filled \<open>pre\<close> and has \<open>rest\<close> of the buffer before it.\<close>

definition writer :: "bytes \<Rightarrow> bytes \<Rightarrow> bytes \<times> nat" where
  "writer pre rest = (pre @ rest, length pre)"

lemma put_writer:
  "length bs \<le> length rest \<Longrightarrow> put bs (writer pre rest) = Some (writer (pre @ bs) (drop (length bs) rest))"
  by (simp add: writer_def put_def buf_write_def)

lemma write_signer_ok:
  assumes s: "signer_ok wl s" and c: "counted + signer_elements s \<le> tot" and r: "length (signer_bytes wl s) \<le> length rest"
  shows "write_signer wl tot s counted (writer pre rest) = Some (Some (counted + signer_elements s,
    writer (pre @ signer_bytes wl s) (drop (length (signer_bytes wl s)) rest)))"
proof -
  obtain b p where b: "base58_to_bytes wl (sg_xpub s) = Some b" "length b = BIP32_SERIALIZED_LEN"
    and p: "sg_path s = Path_Elems p" "length p \<le> MAX_PATH_LEN"
    using s unfolding signer_ok_def by blast
  have d: "length (sg_derivation s) \<le> MAX_PATH_LEN" using s unfolding signer_ok_def by simp
  show ?thesis
    using c d p b r by (simp add: write_signer_def signer_elements_def signer_bytes_def put_writer add.assoc)
      (simp add: ac_simps)
qed

lemma write_signers_ok:
  assumes "list_all (signer_ok wl) signers" and "counted + sum_list (map signer_elements signers) \<le> tot"
    and "length (concat (map (signer_bytes wl) signers)) \<le> length rest"
  shows "write_signers wl tot signers counted (writer pre rest) = Some (Some (counted + sum_list (map signer_elements signers),
    writer (pre @ concat (map (signer_bytes wl) signers)) (drop (length (concat (map (signer_bytes wl) signers))) rest)))"
  using assms
proof (induction signers arbitrary: counted pre rest)
  case (Cons s signers)
  then have "write_signer wl tot s counted (writer pre rest) = Some (Some (counted + signer_elements s,
      writer (pre @ signer_bytes wl s) (drop (length (signer_bytes wl s)) rest)))"
    by (intro write_signer_ok) simp_all
  with Cons show ?case by (simp add: ac_simps)
qed simp

lemma length_signers_bytes:
  "list_all (signer_ok wl) signers \<Longrightarrow> length (concat (map (signer_bytes wl) signers))
    = length signers * (6 + BIP32_SERIALIZED_LEN) + 4 * sum_list (map signer_elements signers)"
  by (induction signers) (simp_all add: length_signer_bytes)

lemma length_body_bytes:
  assumes "list_all (signer_ok wl) signers"
  shows "length (body_bytes wl variant is_sorted threshold key signers)
    = MULTISIG_BODY_LEN (blinding_key_len key) (length signers) (sum_list (map signer_elements signers))"
  using length_signers_bytes [OF assms]
  by (simp add: body_bytes_def MULTISIG_BODY_LEN_def blinding_key_len_def split: option.split)

text \<open>What can be registered, after \<open>register_multisig\<close> has checked it.\<close>

definition quorum_ok :: "'k libwally \<Rightarrow> nat \<Rightarrow> bytes option \<Rightarrow> signer_t list \<Rightarrow> bool" where
  "quorum_ok wl threshold key signers \<longleftrightarrow> 0 < threshold \<and> threshold \<le> length signers \<and> length signers \<le> MAX_ALLOWED_SIGNERS \<and>
     is_valid_blinding_key key \<and> list_all (signer_ok wl) signers"

lemma signer_elements_le: "signer_ok wl s \<Longrightarrow> signer_elements s \<le> 2 * MAX_PATH_LEN"
  by (auto simp: signer_ok_def signer_elements_def)

lemma signers_elements_le:
  "list_all (signer_ok wl) signers \<Longrightarrow> sum_list (map signer_elements signers) \<le> length signers * 2 * MAX_PATH_LEN"
  by (induction signers) (auto dest: signer_elements_le)

lemma body_to_bytes_eq:
  assumes q: "quorum_ok wl threshold key signers"
    and l: "length body = MULTISIG_BODY_LEN (blinding_key_len key) (length signers) (sum_list (map signer_elements signers))"
  shows "multisig_body_to_bytes wl variant is_sorted threshold key signers (sum_list (map signer_elements signers)) body
    = Some (Some (body_bytes wl variant is_sorted threshold key signers))"
proof -
  let ?tot = "sum_list (map signer_elements signers)" and ?k = "case key of None \<Rightarrow> [] | Some k \<Rightarrow> k"
  have sg: "list_all (signer_ok wl) signers" using q by (simp add: quorum_ok_def)
  let ?h = "[variant_byte variant, if is_sorted then 1 else 0, of_nat threshold, of_nat (blinding_key_len key)]"
  have lk: "length ?k = blinding_key_len key" by (simp add: blinding_key_len_def split: option.split)
  have bl: "length body = 5 + length ?k + length (concat (map (signer_bytes wl) signers))"
    using l length_signers_bytes [OF sg] lk by (simp add: MULTISIG_BODY_LEN_def)
  have b0: "(body, 0) = writer [] body" by (simp add: writer_def)
  have k: "(case key of None \<Rightarrow> Some (writer pre rest) | Some k \<Rightarrow> put k (writer pre rest)) = put ?k (writer pre rest)" for pre rest
    by (simp add: put_writer split: option.split)
  have w: "write_signers wl ?tot signers 0 (writer (?h @ ?k @ [of_nat (length signers)]) (drop (Suc (Suc (Suc (Suc (Suc (length ?k)))))) body))
      = Some (Some (?tot, writer (body_bytes wl variant is_sorted threshold key signers) []))"
    using write_signers_ok [OF sg, of 0 ?tot "drop (Suc (Suc (Suc (Suc (Suc (length ?k)))))) body" "?h @ ?k @ [of_nat (length signers)]"] bl
    by (cases is_sorted) (simp_all add: body_bytes_def)
  have wl0: "writer x [] = (x, length x)" for x by (simp add: writer_def)
  show ?thesis
    using q l bl w signers_elements_le [OF sg]
    by (cases is_sorted) (simp_all add: multisig_body_to_bytes_def quorum_ok_def b0 k put_writer wl0)
qed

section \<open>Reading back\<close>

text \<open>The library turns an xpub string into its 78 bytes and back, xpub strings are short, keys
  serialise to 78 bytes, and the additional path of the signer can be applied.\<close>

definition base58_ok :: "'k libwally \<Rightarrow> bool" where
  "base58_ok wl \<longleftrightarrow> (\<forall>s b. base58_to_bytes wl s = Some b \<and> length b = BIP32_SERIALIZED_LEN \<longrightarrow>
     base58_from_bytes wl b = Some s \<and> length s \<le> 112)"

definition serialize_ok :: "'k libwally \<Rightarrow> bool" where
  "serialize_ok wl \<longleftrightarrow> (\<forall>k b. bip32_key_serialize wl k = Some b \<longrightarrow> length b = BIP32_SERIALIZED_LEN)"

text \<open>The key that addresses are derived from: the xpub itself, or its child along the path.\<close>

definition signer_parent :: "'k libwally \<Rightarrow> signer_t \<Rightarrow> bytes option" where
  "signer_parent wl s = (case base58_to_bytes wl (sg_xpub s) of
     None \<Rightarrow> None
   | Some xpub \<Rightarrow> (case sg_path s of
       Path_Str _ \<Rightarrow> None
     | Path_Elems p \<Rightarrow>
       if p = [] then Some xpub
       else case bip32_key_unserialize wl xpub of
         None \<Rightarrow> None
       | Some root \<Rightarrow> (case bip32_key_from_parent_path wl root p (BIP32_FLAG_KEY_PUBLIC OR BIP32_FLAG_SKIP_HASH) of
           None \<Rightarrow> None
         | Some child \<Rightarrow> bip32_key_serialize wl child)))"

lemma signer_parent_len:
  "signer_ok wl s \<Longrightarrow> serialize_ok wl \<Longrightarrow> signer_parent wl s = Some k \<Longrightarrow> length k = BIP32_SERIALIZED_LEN"
  by (auto simp: signer_parent_def signer_ok_def serialize_ok_def split: if_splits option.splits)

lemma buf_read_at: "p = length pre \<Longrightarrow> n = length bs \<Longrightarrow> buf_read (pre @ bs @ rest) p n = Some bs"
  by (simp add: buf_read_def)

lemma buf_get_at: "p = length pre \<Longrightarrow> buf_get (pre @ b # rest) p = Some b"
  by (simp add: buf_get_def)

lemma buf_write_twice:
  assumes "buf_write xs off ys = Some zs" and "length ys = length ys'"
  shows "buf_write zs off ys' = buf_write xs off ys'"
  using assms by (auto simp: buf_write_def split: if_splits)

lemma unat_of_nat_small: "n \<le> 16 \<Longrightarrow> unat (of_nat n :: byte) = n"
  using unat_of_nat [of n, where 'a = 8] by (simp add: take_bit_eq_mod)

lemma of_nat_byte_eq_0: "n \<le> 16 \<Longrightarrow> (of_nat n :: byte) = 0 \<longleftrightarrow> n = 0"
  using unat_of_nat_small [of n] by auto

lemma read_signer_ok:
  assumes s: "signer_ok wl s" and b58: "base58_ok wl" and ser: "serialize_ok wl" and par: "signer_parent wl s = Some parent"
    and x: "i * BIP32_SERIALIZED_LEN + BIP32_SERIALIZED_LEN \<le> length xpubs"
  shows "\<exists>xpubs'. buf_write xpubs (i * BIP32_SERIALIZED_LEN) parent = Some xpubs' \<and>
    read_signer wl (pre @ signer_bytes wl s @ rest) i want (length pre) xpubs
      = Some (Some (if want then Some s else None, xpubs', length pre + length (signer_bytes wl s)))"
proof -
  obtain b p where b: "base58_to_bytes wl (sg_xpub s) = Some b" "length b = BIP32_SERIALIZED_LEN"
    and p: "sg_path s = Path_Elems p" "length p \<le> 16"
    using s unfolding signer_ok_def MAX_PATH_LEN_def by blast
  have f: "length (sg_fingerprint s) = BIP32_KEY_FINGERPRINT_LEN" "length (sg_derivation s) \<le> 16"
    using s unfolding signer_ok_def MAX_PATH_LEN_def by simp_all
  let ?f = "sg_fingerprint s" and ?d = "sg_derivation s"
  let ?nd = "of_nat (length ?d) :: byte" and ?np = "of_nat (length p) :: byte"
  let ?buf = "pre @ signer_bytes wl s @ rest"
  have sb: "signer_bytes wl s = ?f @ [?nd] @ path_bytes ?d @ b @ [?np] @ path_bytes p"
    using b p by (simp add: signer_bytes_def)
  have nd: "unat ?nd = length ?d" "unat ?np = length p" using f p by (simp_all add: unat_of_nat_small)
  let ?p1 = "length pre + BIP32_KEY_FINGERPRINT_LEN" let ?p2 = "?p1 + 1" let ?p3 = "?p2 + length ?d * 4"
  let ?p4 = "?p3 + BIP32_SERIALIZED_LEN" let ?p5 = "?p4 + 1"
  have r1: "buf_read ?buf (length pre) BIP32_KEY_FINGERPRINT_LEN = Some ?f"
    using buf_read_at [of "length pre" pre BIP32_KEY_FINGERPRINT_LEN ?f "[?nd] @ path_bytes ?d @ b @ [?np] @ path_bytes p @ rest"] f
    by (simp add: sb)
  have r2: "buf_get ?buf ?p1 = Some ?nd"
    using buf_get_at [of ?p1 "pre @ ?f" ?nd "path_bytes ?d @ b @ [?np] @ path_bytes p @ rest"] f by (simp add: sb)
  have r3: "buf_read ?buf ?p2 (unat ?nd * 4) = Some (path_bytes ?d)"
    using buf_read_at [of ?p2 "pre @ ?f @ [?nd]" "unat ?nd * 4" "path_bytes ?d" "b @ [?np] @ path_bytes p @ rest"] f nd
    by (simp add: sb)
  then have r3': "buf_read ?buf (Suc ?p1) (length ?d * 4) = Some (path_bytes ?d)" using nd by simp
  have r4: "buf_read ?buf ?p3 BIP32_SERIALIZED_LEN = Some b"
    using buf_read_at [of ?p3 "pre @ ?f @ [?nd] @ path_bytes ?d" BIP32_SERIALIZED_LEN b "[?np] @ path_bytes p @ rest"] f b
    by (simp add: sb)
  have r5: "buf_get ?buf ?p4 = Some ?np"
    using buf_get_at [of ?p4 "pre @ ?f @ [?nd] @ path_bytes ?d @ b" ?np "path_bytes p @ rest"] f b by (simp add: sb)
  have r6: "buf_read ?buf ?p5 (unat ?np * 4) = Some (path_bytes p)"
    using buf_read_at [of ?p5 "pre @ ?f @ [?nd] @ path_bytes ?d @ b @ [?np]" "unat ?np * 4" "path_bytes p" rest] f b nd
    by (simp add: sb)
  obtain x1 where x1: "buf_write xpubs (i * BIP32_SERIALIZED_LEN) b = Some x1" using x b(2) by (simp add: buf_write_def)
  have lp: "length parent = BIP32_SERIALIZED_LEN" by (rule signer_parent_len [OF s ser par])
  obtain x2 where x2: "buf_write xpubs (i * BIP32_SERIALIZED_LEN) parent = Some x2" using x lp by (simp add: buf_write_def)
  have x12: "buf_write x1 (i * BIP32_SERIALIZED_LEN) parent = Some x2" using buf_write_twice [OF x1, of parent] lp b(2) x2 by simp
  have str: "xpub_string wl b = Some (sg_xpub s)"
    using b58 b unfolding base58_ok_def xpub_string_def by fastforce
  let ?der = "if ?np = 0 then Some (Some x1) else do {
               hdkey \<leftarrow> wallet_derive_pubkey wl b (read_path (path_bytes p)) (BIP32_FLAG_KEY_PUBLIC OR BIP32_FLAG_SKIP_HASH);
               case hdkey of None \<Rightarrow> Some None | Some hdkey \<Rightarrow>
                 (case bip32_key_serialize wl hdkey of None \<Rightarrow> Some None | Some serialised \<Rightarrow>
                   map_option Some (buf_write x1 (i * BIP32_SERIALIZED_LEN) serialised)) }"
  have flags: "(BIP32_FLAG_KEY_PUBLIC OR BIP32_FLAG_SKIP_HASH) OR BIP32_FLAG_KEY_PUBLIC = BIP32_FLAG_KEY_PUBLIC OR BIP32_FLAG_SKIP_HASH"
    by (simp add: or.assoc or.commute)
  have der: "?der = Some (Some x2)"
  proof (cases "p = []")
    case True
    then show ?thesis using par b p x1 x2 by (simp add: signer_parent_def)
  next
    case False
    then have "?np \<noteq> 0" using of_nat_byte_eq_0 [OF p(2)] by simp
    then show ?thesis
      using par b p x12 False flags
      by (auto simp: signer_parent_def wallet_derive_pubkey_def split: option.splits)
  qed
  have m: "\<not> unat ?nd > MAX_PATH_LEN" "\<not> unat ?np > MAX_PATH_LEN" using f p nd by (simp_all add: MAX_PATH_LEN_def)
  have e: "?p5 + unat ?np * 4 = length pre + length (signer_bytes wl s)" using f b nd by (simp add: sb)
  have "\<lparr> sg_fingerprint = ?f, sg_derivation = ?d, sg_xpub = sg_xpub s, sg_path = Path_Elems p \<rparr> = s" using p by simp
  then have "read_signer wl ?buf i want (length pre) xpubs
      = Some (Some (if want then Some s else None, x2, length pre + length (signer_bytes wl s)))"
    unfolding read_signer_def Let_def r1 bind.bind_lunit r2 if_not_P [OF m(1)] r3 nd(1) r4 x1 r5 if_not_P [OF m(2)] r6
    using str der e nd m r3' by simp
  then show ?thesis using x2 by blast
qed

definition parents :: "'k libwally \<Rightarrow> signer_t list \<Rightarrow> bytes" where
  "parents wl signers = concat (map (\<lambda>s. the (signer_parent wl s)) signers)"

lemma read_signers_ok:
  assumes "list_all (signer_ok wl) signers" and b58: "base58_ok wl" and ser: "serialize_ok wl"
    and "list_all (\<lambda>s. signer_parent wl s \<noteq> None) signers"
    and "(i + length signers) * BIP32_SERIALIZED_LEN \<le> length xpubs"
  shows "read_signers wl (pre @ concat (map (signer_bytes wl) signers) @ rest) dl (length signers) i (length pre) xpubs details
    = Some (Some (details @ take (dl - i) signers,
        take (i * BIP32_SERIALIZED_LEN) xpubs @ parents wl signers @ drop ((i + length signers) * BIP32_SERIALIZED_LEN) xpubs,
        length pre + length (concat (map (signer_bytes wl) signers))))"
  using assms(1,4,5)
proof (induction signers arbitrary: i pre xpubs details)
  case Nil
  then show ?case by (simp add: parents_def)
next
  case (Cons s ss)
  let ?L = BIP32_SERIALIZED_LEN
  obtain par where par: "signer_parent wl s = Some par" using Cons.prems(2) by auto
  have lp: "length par = ?L" using signer_parent_len [OF _ ser par] Cons.prems(1) by simp
  have so: "signer_ok wl s" using Cons.prems(1) by simp
  have room: "i * ?L + ?L \<le> length xpubs" using Cons.prems(3) by (simp add: algebra_simps)
  obtain x' where x': "buf_write xpubs (i * ?L) par = Some x'"
    and r: "read_signer wl (pre @ signer_bytes wl s @ concat (map (signer_bytes wl) ss) @ rest) i (i < dl) (length pre) xpubs
      = Some (Some (if i < dl then Some s else None, x', length pre + length (signer_bytes wl s)))"
    using read_signer_ok [OF so b58 ser par room, of pre "concat (map (signer_bytes wl) ss) @ rest" "i < dl"] by blast
  have x'eq: "x' = take (i * ?L) xpubs @ par @ drop (i * ?L + ?L) xpubs" using x' lp by (simp add: buf_write_def split: if_splits)
  have "length x' = length xpubs" by (rule length_buf_write [OF x'])
  moreover have "take (Suc i * ?L) x' = take (i * ?L) xpubs @ par"
    "drop ((Suc i + length ss) * ?L) x' = drop ((Suc i + length ss) * ?L) xpubs"
    using room lp by (simp_all add: x'eq min_def algebra_simps)
  ultimately have t: "take (Suc i * ?L) x' = take (i * ?L) xpubs @ par" "length x' = length xpubs"
    "drop ((Suc i + length ss) * ?L) x' = drop ((Suc i + length ss) * ?L) xpubs" by simp_all
  have "(Suc i + length ss) * ?L \<le> length x'" using Cons.prems(3) t(2) by simp
  note ih = Cons.IH [of "Suc i" x' "pre @ signer_bytes wl s" "details @ (if i < dl then [s] else [])"] 
  have "read_signers wl ((pre @ signer_bytes wl s) @ concat (map (signer_bytes wl) ss) @ rest) dl (length ss) (Suc i)
      (length (pre @ signer_bytes wl s)) x' (details @ (if i < dl then [s] else []))
    = Some (Some ((details @ (if i < dl then [s] else [])) @ take (dl - Suc i) ss,
        take (Suc i * ?L) x' @ parents wl ss @ drop ((Suc i + length ss) * ?L) x',
        length (pre @ signer_bytes wl s) + length (concat (map (signer_bytes wl) ss))))"
    by (rule ih) (use Cons.prems t(2) in simp_all)
  moreover have "details @ (if i < dl then [s] else []) @ take (dl - Suc i) ss = details @ take (dl - i) (s # ss)"
    by (cases "i < dl") (simp_all add: take_Cons')
  moreover have "parents wl (s # ss) = par @ parents wl ss" using par by (simp add: parents_def)
  ultimately show ?case using r t by (cases "i < dl") (simp_all add: add.assoc)
qed

lemma variant_of_variant_byte [simp]: "variant_of_byte (variant_byte v) = Some v"
  by (cases v) (simp_all add: variant_of_byte_def)

definition XPUBS_LEN :: nat where "XPUBS_LEN = MAX_ALLOWED_SIGNERS * BIP32_SERIALIZED_LEN"

lemma body_from_bytes_ok:
  assumes q: "quorum_ok wl threshold key signers" and b58: "base58_ok wl" and ser: "serialize_ok wl"
    and par: "list_all (\<lambda>s. signer_parent wl s \<noteq> None) signers" and x: "length xpubs = XPUBS_LEN"
  shows "multisig_body_from_bytes wl (body_bytes wl variant is_sorted threshold key signers @ rest)
      (length (body_bytes wl variant is_sorted threshold key signers)) xpubs dl
    = Some (Some (\<lparr> md_variant = Some variant, md_sorted = is_sorted, md_threshold = of_nat threshold,
        md_num_xpubs = of_nat (length signers), md_master_blinding_key = (case key of None \<Rightarrow> [] | Some k \<Rightarrow> k),
        md_xpubs = parents wl signers @ drop (length signers * BIP32_SERIALIZED_LEN) xpubs \<rparr>, take dl signers))"
proof -
  let ?k = "case key of None \<Rightarrow> [] | Some k \<Rightarrow> k" and ?n = "length signers" and ?cs = "concat (map (signer_bytes wl) signers)"
  let ?h = "[variant_byte variant, if is_sorted then 1 else 0, of_nat threshold, of_nat (blinding_key_len key)]"
  have sg: "list_all (signer_ok wl) signers" and n: "0 < ?n" "?n \<le> 15" and key: "is_valid_blinding_key key"
    using q by (auto simp: quorum_ok_def MAX_ALLOWED_SIGNERS_def)
  have lk: "length ?k = blinding_key_len key" by (simp add: blinding_key_len_def split: option.split)
  have k32: "blinding_key_len key = 0 \<or> blinding_key_len key = 32"
    using key by (simp add: is_valid_blinding_key_def blinding_key_len_def multisig_lens split: option.splits)
  then have uk: "unat (of_nat (blinding_key_len key) :: byte) = blinding_key_len key" by auto
  have un: "unat (of_nat ?n :: byte) = ?n" using n unat_of_nat_small by simp
  have nz: "(of_nat ?n :: byte) \<noteq> 0" using n of_nat_byte_eq_0 by simp
  let ?buf = "body_bytes wl variant is_sorted threshold key signers @ rest"
  let ?len = "length (body_bytes wl variant is_sorted threshold key signers)"
  have b: "?buf = ?h @ ?k @ of_nat ?n # ?cs @ rest" by (simp add: body_bytes_def)
  have len: "?len = 4 + length ?k + Suc (length ?cs)" by (simp add: body_bytes_def)
  have g: "buf_get ?buf 0 = Some (variant_byte variant)" "buf_get ?buf 1 = Some (if is_sorted then 1 else 0)"
    "buf_get ?buf 2 = Some (of_nat threshold)" "buf_get ?buf 3 = Some (of_nat (blinding_key_len key))"
    by (simp_all add: b buf_get_def)
  have gk: "buf_read ?buf 4 (blinding_key_len key) = Some ?k"
    unfolding b using lk by (intro buf_read_at) simp_all
  have gn: "buf_get ?buf (4 + blinding_key_len key) = Some (of_nat ?n)"
    using buf_get_at [of "4 + blinding_key_len key" "?h @ ?k" "of_nat ?n" "?cs @ rest"] lk by (simp add: b)
  have rs: "read_signers wl ?buf dl ?n 0 (4 + blinding_key_len key + 1) xpubs []
      = Some (Some (take dl signers, parents wl signers @ drop (?n * BIP32_SERIALIZED_LEN) xpubs,
          4 + blinding_key_len key + 1 + length ?cs))"
  proof -
    have lpre: "length (?h @ ?k @ [of_nat ?n]) = 4 + blinding_key_len key + 1" using lk by simp
    have buf: "?buf = (?h @ ?k @ [of_nat ?n]) @ ?cs @ rest" by (simp add: b)
    have "(0 + ?n) * BIP32_SERIALIZED_LEN \<le> length xpubs" using x n by (simp add: XPUBS_LEN_def MAX_ALLOWED_SIGNERS_def)
    from read_signers_ok [OF sg b58 ser par this, of "?h @ ?k @ [of_nat ?n]" rest dl "[]"]
    show ?thesis unfolding lpre buf by simp
  qed
  have rc: "read_complete_signers wl ?buf (4 + blinding_key_len key) (?len - (4 + blinding_key_len key)) xpubs dl
      = Some (Some (of_nat ?n, parents wl signers @ drop (?n * BIP32_SERIALIZED_LEN) xpubs, take dl signers))"
    using gn nz un n rs len lk by (simp add: read_complete_signers_def MAX_ALLOWED_SIGNERS_def)
  have min: "\<not> ?len < MIN_MULTISIG_BODY_LEN"
    using len length_signers_bytes [OF sg] n lk by (cases ?n) (simp_all add: MIN_MULTISIG_BODY_LEN_def wallet_lens)
  have kl: "\<not> (of_nat (blinding_key_len key) \<noteq> (0 :: byte) \<and> (blinding_key_len key \<noteq> MULTISIG_MASTER_BLINDING_KEY_SIZE \<or>
      4 + blinding_key_len key > ?len))"
    using k32 len lk by (auto simp: multisig_lens)
  show ?thesis
    unfolding multisig_body_from_bytes_def if_not_P [OF min]
    using g gk rc kl uk by (cases is_sorted) (simp_all add: numeral_2_eq_2 [symmetric] del: One_nat_def)
qed

section \<open>Reading any bytes\<close>

text \<open>The largest signer: fingerprint, two lengths, two paths of sixteen elements and the xpub.\<close>

definition MAX_SIGNER_LEN :: nat where
  "MAX_SIGNER_LEN = BIP32_KEY_FINGERPRINT_LEN + 1 + 4 * MAX_PATH_LEN + BIP32_SERIALIZED_LEN + 1 + 4 * MAX_PATH_LEN"

text \<open>The format of a record, for any bytes: where the parent key and the path of the signer at offset
  \<open>p\<close> stand and where it ends, and the parent keys and paths of all its signers.\<close>

definition signer_xpub_at :: "bytes \<Rightarrow> nat \<Rightarrow> nat" where
  "signer_xpub_at buf p = p + BIP32_KEY_FINGERPRINT_LEN + 1 + unat (buf ! (p + BIP32_KEY_FINGERPRINT_LEN)) * 4"

definition signer_path_at :: "bytes \<Rightarrow> nat \<Rightarrow> nat" where
  "signer_path_at buf p = signer_xpub_at buf p + BIP32_SERIALIZED_LEN"

definition held_xpub :: "bytes \<Rightarrow> nat \<Rightarrow> bytes" where
  "held_xpub buf p = take BIP32_SERIALIZED_LEN (drop (signer_xpub_at buf p) buf)"

definition held_path :: "bytes \<Rightarrow> nat \<Rightarrow> u32 list" where
  "held_path buf p = read_path (take (unat (buf ! signer_path_at buf p) * 4) (drop (signer_path_at buf p + 1) buf))"

fun held_signers :: "bytes \<Rightarrow> nat \<Rightarrow> nat \<Rightarrow> (bytes \<times> u32 list) list" where
  "held_signers buf 0 p = []"
| "held_signers buf (Suc n) p =
     (held_xpub buf p, held_path buf p) # held_signers buf n (signer_path_at buf p + 1 + unat (buf ! signer_path_at buf p) * 4)"

definition record_signers :: "bytes \<Rightarrow> (bytes \<times> u32 list) list" where
  "record_signers buf = (let at = 4 + unat (buf ! 3) in held_signers buf (unat (buf ! at)) (at + 1))"

text \<open>The call of this record that libwally refuses: \<open>wallet_derive_pubkey\<close> asserts that
  \<open>bip32_key_from_parent_path\<close> succeeds.\<close>

definition derivation_refused :: "'k libwally \<Rightarrow> bytes \<Rightarrow> u32 list \<Rightarrow> bool" where
  "derivation_refused wl xpub path \<longleftrightarrow> path \<noteq> [] \<and> length path \<le> MAX_PATH_LEN \<and>
     (case bip32_key_unserialize wl xpub of None \<Rightarrow> False
      | Some parent \<Rightarrow> bip32_key_from_parent_path wl parent path (BIP32_FLAG_KEY_PUBLIC OR BIP32_FLAG_SKIP_HASH) = None)"

lemma derive_pubkey_returns:
  assumes "\<not> derivation_refused wl b path" and "length path \<le> MAX_PATH_LEN"
  shows "wallet_derive_pubkey wl b path (BIP32_FLAG_KEY_PUBLIC OR BIP32_FLAG_SKIP_HASH) \<noteq> None"
proof -
  have f: "(BIP32_FLAG_KEY_PUBLIC OR BIP32_FLAG_SKIP_HASH) OR BIP32_FLAG_KEY_PUBLIC = BIP32_FLAG_KEY_PUBLIC OR BIP32_FLAG_SKIP_HASH"
    by (simp add: ac_simps)
  show ?thesis unfolding wallet_derive_pubkey_def f using assms by (auto simp: derivation_refused_def split: option.splits bind_splits)
qed

lemma length_read_path: "length (read_path bs) = length bs div 4"
  by (simp add: read_path_def)

lemma read_signer_safe:
  assumes ser: "serialize_ok wl" and room: "p + MAX_SIGNER_LEN \<le> length buf" "i * BIP32_SERIALIZED_LEN + BIP32_SERIALIZED_LEN \<le> length xpubs"
    and na: "\<not> derivation_refused wl (held_xpub buf p) (held_path buf p)"
  shows "\<exists>r. read_signer wl buf i want p xpubs = Some r \<and>
    (\<forall>s x' p'. r = Some (s, x', p') \<longrightarrow> length x' = length xpubs \<and> p' \<le> p + MAX_SIGNER_LEN \<and>
       p' = signer_path_at buf p + 1 + unat (buf ! signer_path_at buf p) * 4)"
proof -
  let ?F = BIP32_KEY_FINGERPRINT_LEN and ?L = BIP32_SERIALIZED_LEN and ?M = MAX_PATH_LEN
  have room': "p + ?F + 1 + 4 * ?M + ?L + 1 + 4 * ?M \<le> length buf" using room(1) by (simp add: MAX_SIGNER_LEN_def add.assoc)
  have r1: "buf_read buf p ?F = Some (take ?F (drop p buf))" using room' by (simp add: buf_read_def)
  obtain dl where r2: "buf_get buf (p + ?F) = Some dl" using room' by (simp add: buf_get_def)
  show ?thesis
  proof (cases "unat dl > ?M")
    case True
    then show ?thesis using r1 r2 by (simp add: read_signer_def)
  next
    case False
    let ?p2 = "p + ?F + 1 + unat dl * 4"
    obtain d where r3: "buf_read buf (p + ?F + 1) (unat dl * 4) = Some d" using room' False by (simp add: buf_read_def)
    obtain b where r4: "buf_read buf ?p2 ?L = Some b" using room' False by (simp add: buf_read_def)
    have lb: "length b = ?L" using r4 by (rule length_buf_read)
    have at: "?p2 = signer_xpub_at buf p" "b = held_xpub buf p"
      using r2 r4 by (auto simp: signer_xpub_at_def held_xpub_def buf_get_def buf_read_def split: if_splits)
    obtain x1 where x1: "buf_write xpubs (i * ?L) b = Some x1" using room(2) lb by (simp add: buf_write_def)
    have lx: "length x1 = length xpubs" using x1 by (rule length_buf_write)
    obtain pl where r5: "buf_get buf (?p2 + ?L) = Some pl" using room' False by (simp add: buf_get_def)
    show ?thesis
    proof (cases "want \<and> xpub_string wl b = None \<or> unat pl > ?M")
      case True
      then show ?thesis
        using r1 r2 r3 r4 r5 x1 False by (auto simp: read_signer_def Let_def)
    next
      case F2: False
      obtain q where r6: "buf_read buf (?p2 + ?L + 1) (unat pl * 4) = Some q" using room' False F2 by (simp add: buf_read_def)
      have lq: "length (read_path q) = unat pl" using length_buf_read [OF r6] by (simp add: length_read_path)
      have pl: "pl = buf ! signer_path_at buf p" "?p2 + ?L = signer_path_at buf p"
        using r5 by (auto simp: signer_path_at_def at(1) [symmetric] buf_get_def split: if_splits)
      have q: "read_path q = held_path buf p"
        using r6 pl by (auto simp: held_path_def buf_read_def split: if_splits)
      let ?der = "if pl = 0 then Some (Some x1) else do {
               hdkey \<leftarrow> wallet_derive_pubkey wl b (read_path q) (BIP32_FLAG_KEY_PUBLIC OR BIP32_FLAG_SKIP_HASH);
               case hdkey of None \<Rightarrow> Some None | Some hdkey \<Rightarrow>
                 (case bip32_key_serialize wl hdkey of None \<Rightarrow> Some None | Some serialised \<Rightarrow>
                   map_option Some (buf_write x1 (i * ?L) serialised)) }"
      have "\<exists>r. ?der = Some r \<and> (\<forall>x'. r = Some x' \<longrightarrow> length x' = length xpubs)"
      proof (cases "pl = 0")
        case True
        then show ?thesis using lx by simp
      next
        case F3: False
        obtain h where h: "wallet_derive_pubkey wl b (read_path q) (BIP32_FLAG_KEY_PUBLIC OR BIP32_FLAG_SKIP_HASH) = Some h"
          using derive_pubkey_returns [OF na] lq F2 at(2) q by auto
        show ?thesis
        proof (cases h)
          case (Some hd)
          show ?thesis
          proof (cases "bip32_key_serialize wl hd")
            case s: (Some ser)
            then have "length ser = ?L" using assms(1) unfolding serialize_ok_def by blast
            then obtain x2 where x2: "buf_write x1 (i * ?L) ser = Some x2" using room(2) lx by (simp add: buf_write_def)
            then show ?thesis using F3 h Some s length_buf_write [OF x2] lx by simp
          qed (use F3 h Some in simp)
        qed (use F3 h in simp)
      qed
      then obtain r where der: "?der = Some r" and r: "\<forall>x'. r = Some x' \<longrightarrow> length x' = length xpubs" by blast
      have e: "read_signer wl buf i want p xpubs = Some (case r of None \<Rightarrow> None | Some x' \<Rightarrow>
          Some (if want then Some \<lparr> sg_fingerprint = take ?F (drop p buf), sg_derivation = read_path d,
                 sg_xpub = the (xpub_string wl b), sg_path = Path_Elems (read_path q) \<rparr> else None, x', ?p2 + ?L + 1 + unat pl * 4))"
        unfolding read_signer_def Let_def r1 bind.bind_lunit r2 if_not_P [OF False] r3 r4 x1 r5
        using F2 r6 der by (cases r) simp_all
      have "?p2 + ?L + 1 + unat pl * 4 \<le> p + MAX_SIGNER_LEN" using False F2 by (simp add: MAX_SIGNER_LEN_def)
      then show ?thesis using e r pl by (cases r) simp_all
    qed
  qed
qed

lemma read_signers_safe:
  assumes ser: "serialize_ok wl" and na: "\<not> list_ex (\<lambda>(b, q). derivation_refused wl b q) (held_signers buf n p)"
    and "p + n * MAX_SIGNER_LEN \<le> length buf" and "(i + n) * BIP32_SERIALIZED_LEN \<le> length xpubs"
  shows "read_signers wl buf dl n i p xpubs details \<noteq> None"
  using assms(2-4)
proof (induction n arbitrary: i p xpubs details)
  case (Suc n)
  have room: "p + MAX_SIGNER_LEN \<le> length buf" "i * BIP32_SERIALIZED_LEN + BIP32_SERIALIZED_LEN \<le> length xpubs"
    using Suc.prems by (simp_all add: algebra_simps)
  obtain r where r: "read_signer wl buf i (i < dl) p xpubs = Some r"
    "\<forall>s x' p'. r = Some (s, x', p') \<longrightarrow> length x' = length xpubs \<and> p' \<le> p + MAX_SIGNER_LEN \<and>
       p' = signer_path_at buf p + 1 + unat (buf ! signer_path_at buf p) * 4"
    using read_signer_safe [OF ser room] Suc.prems(1) by fastforce
  show ?case
  proof (cases r)
    case None
    then show ?thesis using r(1) by simp
  next
    case (Some t)
    obtain s x' p' where t: "t = (s, x', p')" by (metis prod.exhaust)
    then have x': "length x' = length xpubs" "p' \<le> p + MAX_SIGNER_LEN" "p' = signer_path_at buf p + 1 + unat (buf ! signer_path_at buf p) * 4"
      using r(2) Some by auto
    have "\<not> list_ex (\<lambda>(b, q). derivation_refused wl b q) (held_signers buf n p')" using Suc.prems(1) x'(3) by simp
    then have "read_signers wl buf dl n (Suc i) p' x' (details @ (case s of None \<Rightarrow> [] | Some s \<Rightarrow> [s])) \<noteq> None"
      using Suc.prems x'(1,2) by (intro Suc.IH) simp_all
    then show ?thesis using r(1) Some t by simp
  qed
qed simp

lemma body_from_bytes_safe:
  assumes ser: "serialize_ok wl" and na: "\<not> list_ex (\<lambda>(b, q). derivation_refused wl b q) (record_signers buf)"
    and b: "length buf = MAX_MULTISIG_BODY_LEN" and x: "length xpubs = XPUBS_LEN"
  shows "multisig_body_from_bytes wl buf body_len xpubs dl \<noteq> None"
proof (cases "body_len < MIN_MULTISIG_BODY_LEN")
  case True
  then show ?thesis by (simp add: multisig_body_from_bytes_def)
next
  case False
  have b': "length buf = 3217" using b multisig_static_asserts by simp
  obtain v0 v1 v2 kl where g: "buf_get buf 0 = Some v0" "buf_get buf 1 = Some v1" "buf_get buf 2 = Some v2" "buf_get buf 3 = Some kl"
    using b' by (simp add: buf_get_def)
  show ?thesis
  proof (cases "kl \<noteq> 0 \<and> (unat kl \<noteq> MULTISIG_MASTER_BLINDING_KEY_SIZE \<or> 4 + unat kl > body_len)")
    case True
    then show ?thesis using False g by (simp add: multisig_body_from_bytes_def)
  next
    case F2: False
    then have kl: "unat kl \<le> 32" "4 + unat kl < body_len" using False by (auto simp: multisig_lens)
    obtain k where k: "buf_read buf 4 (unat kl) = Some k" using kl b' by (simp add: buf_read_def)
    obtain n where n: "buf_get buf (4 + unat kl) = Some n" using kl b' by (simp add: buf_get_def)
    have "\<not> list_ex (\<lambda>(b, q). derivation_refused wl b q) (held_signers buf (unat n) (4 + unat kl + 1))"
      using na g(4) n by (auto simp: record_signers_def Let_def buf_get_def split: if_splits)
    then have "read_signers wl buf dl (unat n) 0 (4 + unat kl + 1) xpubs [] \<noteq> None" if "unat n \<le> 15"
      using that kl b' x
      by (intro read_signers_safe [OF ser]) (simp_all add: MAX_SIGNER_LEN_def XPUBS_LEN_def wallet_lens)
    then have "read_complete_signers wl buf (4 + unat kl) (body_len - (4 + unat kl)) xpubs dl \<noteq> None"
      using n kl by (auto simp: read_complete_signers_def MAX_ALLOWED_SIGNERS_def)
    then show ?thesis using False F2 g k by (auto simp: multisig_body_from_bytes_def Let_def)
  qed
qed

section \<open>Using the loaded record\<close>

lemma valid_names_loop_eq:
  "\<forall>n \<in> set names. load n \<noteq> None \<Longrightarrow> valid_names_loop load script_type names written = Some (written @
     filter (\<lambda>n. case load n of Some (Inr (d, _)) \<Rightarrow> variant_matches_script_type (md_variant d) script_type | _ \<Rightarrow> False) names)"
  by (induction names arbitrary: written) (auto split: sum.splits)

text \<open>The public key a signer contributes for a path.\<close>

definition signer_pubkey :: "'k libwally \<Rightarrow> signer_t \<Rightarrow> u32 list \<Rightarrow> bytes" where
  "signer_pubkey wl s path = key_pub_key wl (the (bip32_key_from_parent_path wl
     (the (bip32_key_unserialize wl (the (signer_parent wl s)))) path (BIP32_FLAG_SKIP_HASH OR BIP32_FLAG_KEY_PUBLIC)))"

text \<open>libwally can derive the key of a signer for a path.\<close>

definition derivable :: "'k libwally \<Rightarrow> signer_t \<Rightarrow> u32 list \<Rightarrow> bool" where
  "derivable wl s path \<longleftrightarrow> (case signer_parent wl s of None \<Rightarrow> False
     | Some b \<Rightarrow> (case bip32_key_unserialize wl b of None \<Rightarrow> False
         | Some parent \<Rightarrow> bip32_key_from_parent_path wl parent path (BIP32_FLAG_SKIP_HASH OR BIP32_FLAG_KEY_PUBLIC) \<noteq> None))"

lemma get_pubkeys_loop_eq:
  assumes "list_all (\<lambda>s. \<exists>b. signer_parent wl s = Some b \<and> length b = BIP32_SERIALIZED_LEN) signers"
    and "list_all2 (derivable wl) signers paths"
    and "list_all (\<lambda>p. p \<noteq> [] \<and> length p \<le> MAX_PATH_LEN \<and> list_all (\<lambda>n. \<not> ishardened n) p) paths"
    and "length pre = i * BIP32_SERIALIZED_LEN"
  shows "get_pubkeys_loop wl (pre @ parents wl signers @ rest) i (map Some paths) pubkeys
    = Some (Some (pubkeys @ concat (map2 (signer_pubkey wl) signers paths)))"
  using assms
proof (induction signers arbitrary: paths pre i pubkeys)
  case Nil
  then show ?case by simp
next
  case (Cons s ss)
  obtain p ps where ps: "paths = p # ps" "list_all2 (derivable wl) ss ps" "derivable wl s p" using Cons.prems(2) by (auto simp: list_all2_Cons1)
  obtain b where b: "signer_parent wl s = Some b" "length b = BIP32_SERIALIZED_LEN" using Cons.prems(1) by auto
  obtain root k where root: "bip32_key_unserialize wl b = Some root"
    and k: "bip32_key_from_parent_path wl root p (BIP32_FLAG_SKIP_HASH OR BIP32_FLAG_KEY_PUBLIC) = Some k"
    using ps(3) b(1) by (auto simp: derivable_def split: option.splits)
  have pp: "p \<noteq> []" "length p \<le> MAX_PATH_LEN" "list_all (\<lambda>n. \<not> ishardened n) p" using Cons.prems(3) ps by simp_all
  have nh: "\<not> list_ex ishardened p" using pp(3) by (simp add: list_ex_iff list_all_iff)
  have par: "parents wl (s # ss) = b @ parents wl ss" using b by (simp add: parents_def)
  have rd: "buf_read (pre @ parents wl (s # ss) @ rest) (i * BIP32_SERIALIZED_LEN) BIP32_SERIALIZED_LEN = Some b"
    unfolding par using buf_read_at [of "i * BIP32_SERIALIZED_LEN" pre BIP32_SERIALIZED_LEN b "parents wl ss @ rest"] Cons.prems(4) b
    by simp
  have ih: "get_pubkeys_loop wl ((pre @ b) @ parents wl ss @ rest) (Suc i) (map Some ps) (pubkeys @ key_pub_key wl k)
      = Some (Some ((pubkeys @ key_pub_key wl k) @ concat (map2 (signer_pubkey wl) ss ps)))"
    by (rule Cons.IH) (use Cons.prems ps b in simp_all)
  have "signer_pubkey wl s p = key_pub_key wl k" using b root k by (simp add: signer_pubkey_def)
  then show ?case
    using ih rd root k pp nh b(2) ps par by (simp add: wallet_derive_pubkey_def)
qed

section \<open>Properties\<close>

definition demo_signer :: signer_t where
  "demo_signer = \<lparr> sg_fingerprint = [7, 7, 7, 7], sg_derivation = [0x80000030], sg_xpub = str ''xpubA'', sg_path = Path_Elems [] \<rparr>"

definition demo_cosigner :: signer_t where
  "demo_cosigner = \<lparr> sg_fingerprint = [1, 2, 3, 4], sg_derivation = [0x80000030], sg_xpub = str ''xpubB'', sg_path = Path_Elems [3] \<rparr>"

lemma demo_quorum: "quorum_ok demo_wally 2 None [demo_signer, demo_cosigner]"
  by (simp add: quorum_ok_def signer_ok_def is_valid_blinding_key_def demo_signer_def demo_cosigner_def demo_wally_def wallet_lens demo_key_def chr_def)

lemma demo_keys: "base58_ok demo_wally" "list_all (\<lambda>s. signer_parent demo_wally s \<noteq> None) [demo_signer, demo_cosigner]"
  "serialize_ok demo_wally"
proof -
  show "serialize_ok demo_wally" by (simp add: serialize_ok_def demo_wally_def BIP32_SERIALIZED_LEN_def)
  show "base58_ok demo_wally" by (auto simp: base58_ok_def demo_wally_def demo_key_def)
  show "list_all (\<lambda>s. signer_parent demo_wally s \<noteq> None) [demo_signer, demo_cosigner]" by code_simp
qed

text \<open>A multisig registration survives its encoding: for every legal quorum the body is written
  without leaving its buffer, has the announced length, and reads back as the same variant,
  threshold, blinding key, signers and parent keys, whatever follows it in memory.\<close>

lemma multisig_body_roundtrip:
  assumes "quorum_ok wl threshold key signers" and "base58_ok wl" and "serialize_ok wl"
    and "list_all (\<lambda>s. signer_parent wl s \<noteq> None) signers" and "length xpubs = XPUBS_LEN"
    and "length body = MULTISIG_BODY_LEN (blinding_key_len key) (length signers) (sum_list (map signer_elements signers))"
  shows "\<exists>b. multisig_body_to_bytes wl variant is_sorted threshold key signers (sum_list (map signer_elements signers)) body = Some (Some b)
    \<and> length b = length body
    \<and> multisig_body_from_bytes wl (b @ rest) (length b) xpubs dl
      = Some (Some (\<lparr> md_variant = Some variant, md_sorted = is_sorted, md_threshold = of_nat threshold,
        md_num_xpubs = of_nat (length signers), md_master_blinding_key = (case key of None \<Rightarrow> [] | Some k \<Rightarrow> k),
        md_xpubs = parents wl signers @ drop (length signers * BIP32_SERIALIZED_LEN) xpubs \<rparr>, take dl signers))"
proof -
  have "list_all (signer_ok wl) signers" using assms(1) by (simp add: quorum_ok_def)
  then show ?thesis
    using body_to_bytes_eq [OF assms(1,6)] length_body_bytes body_from_bytes_ok [OF assms(1-5)] assms(6) by simp
qed

text \<open>C16. Loading a record from storage never leaves its buffers. For every sequence of bytes that
  fits the largest record, and whatever the fresh memory contained, opening and parsing it gives a
  record or an error. The only abort possible is that of the assertion on libwally's derivation, and
  then the record was opened and one of the signers it holds has a parent key and a path, of one to
  sixteen elements, along which libwally refuses to derive.\<close>

theorem multisig_reader_safe:
  assumes "hmac_ok wl" and "serialize_ok wl" and "length bs \<le> MAX_MULTISIG_BYTES_LEN"
    and "length heap = MAX_MULTISIG_BODY_LEN" and "length xpubs = XPUBS_LEN"
  shows "multisig_data_from_bytes wl (Some xpriv) heap bs xpubs dl \<noteq> None \<or>
    (\<exists>body. multisig_open_registration wl (Some xpriv) bs MAX_MULTISIG_BODY_LEN = Some (Some body) \<and>
       list_ex (\<lambda>(xpub, path). derivation_refused wl xpub path) (record_signers (body @ drop (length body) heap)))"
proof -
  have n: "0 < MAX_MULTISIG_BODY_LEN" by (simp add: multisig_static_asserts)
  obtain r where r: "registration_open wl (Some xpriv) CURRENT_MULTISIG_RECORD_VERSION bs MAX_MULTISIG_BODY_LEN = Some r"
    "\<forall>body. r = Some body \<longrightarrow> length body \<le> MAX_MULTISIG_BODY_LEN"
    using registration_open_eq [OF assms(1) n, of bs xpriv CURRENT_MULTISIG_RECORD_VERSION] assms(3)
    by (simp add: MAX_MULTISIG_BYTES_LEN_def split: option.split)
  show ?thesis
  proof (cases r)
    case None
    then show ?thesis using r by (simp add: multisig_data_from_bytes_def multisig_open_registration_def)
  next
    case (Some body)
    then have buf: "buf_write heap 0 body = Some (body @ drop (length body) heap)" using r(2) assms(4) by (simp add: buf_write_def)
    then have len: "length (body @ drop (length body) heap) = MAX_MULTISIG_BODY_LEN" using length_buf_write assms(4) by metis
    show ?thesis
    proof (cases "list_ex (\<lambda>(xpub, path). derivation_refused wl xpub path) (record_signers (body @ drop (length body) heap))")
      case True
      then show ?thesis using r(1) Some by (auto simp: multisig_open_registration_def)
    next
      case False
      then show ?thesis
        using r(1) Some buf body_from_bytes_safe [OF assms(2) False len assms(5)]
        by (simp add: multisig_data_from_bytes_def multisig_open_registration_def)
    qed
  qed
qed

text \<open>A record of two signers, one of them with a path, sealed by its wallet.\<close>

definition demo_record_body :: bytes where
  "demo_record_body = body_bytes demo_wally MULTI_P2WSH True 2 None [demo_signer, demo_cosigner]"

lemma demo_record_derivable:
  "list_ex (\<lambda>(xpub, path). derivation_refused demo_wally xpub path) (record_signers (demo_record_body @ replicate 3032 1)) = False"
  "length demo_record_body = 185"
  by code_simp+

theorem multisig_reader_safe_witness:
  "multisig_data_from_bytes demo_wally (Some (demo_key 0 5)) (replicate 3217 1)
     (sealed demo_wally (demo_key 0 5) (replicate 16 1) CURRENT_MULTISIG_RECORD_VERSION demo_record_body) (replicate 1170 0) 15 \<noteq> None"
proof -
  let ?bs = "sealed demo_wally (demo_key 0 5) (replicate 16 1) CURRENT_MULTISIG_RECORD_VERSION demo_record_body"
  have iv: "length (replicate 16 1) = Registration.AES_BLOCK_LEN" by (simp add: seal_lens)
  have ne: "demo_record_body \<noteq> []" and fits: "length demo_record_body \<le> MAX_MULTISIG_BODY_LEN"
    using demo_record_derivable(2) by (auto simp: multisig_static_asserts)
  note opened = registration_open_sealed [OF demo_crypto iv ne fits, of "demo_key 0 5" CURRENT_MULTISIG_RECORD_VERSION]
  have "length ?bs \<le> MAX_MULTISIG_BYTES_LEN" using length_sealed [OF demo_crypto iv ne] demo_record_derivable(2) by (simp add: seal_lens multisig_static_asserts)
  then show ?thesis
    using multisig_reader_safe [OF demo_crypto(1) demo_keys(3), of ?bs "replicate 3217 1" "replicate 1170 0" "demo_key 0 5" 15]
      opened demo_record_derivable
    by (simp add: multisig_open_registration_def multisig_static_asserts XPUBS_LEN_def wallet_lens)
qed

text \<open>C15. The public keys of an address come from the registered signers and nothing else: for a
  table of parent keys as the reader fills it, and paths without hardened elements along which
  libwally derives a key from each signer's own parent, the result is one key per signer, in order,
  each derived from that signer's parent key along its path.\<close>

theorem multisig_pubkeys_correct:
  assumes "list_all (\<lambda>s. \<exists>b. signer_parent wl s = Some b \<and> length b = BIP32_SERIALIZED_LEN) signers"
    and "list_all2 (derivable wl) signers paths" and "signers \<noteq> []"
    and "list_all (\<lambda>p. p \<noteq> [] \<and> length p \<le> MAX_PATH_LEN \<and> list_all (\<lambda>n. \<not> ishardened n) p) paths"
    and "length signers * EC_PUBLIC_KEY_LEN \<le> pubkeys_len"
  shows "multisig_get_pubkeys wl (parents wl signers @ rest) (length signers) (Some (map Some paths)) pubkeys_len
    = Some (Some (concat (map2 (signer_pubkey wl) signers paths)))"
  using get_pubkeys_loop_eq [OF assms(1,2,4), of "[]" 0 rest "[]"] assms(3,5) list_all2_lengthD [OF assms(2)]
  by (cases paths) (simp_all add: multisig_get_pubkeys_def Suc_le_eq)

theorem multisig_pubkeys_correct_witness:
  "multisig_get_pubkeys demo_wally (parents demo_wally [demo_signer, demo_cosigner] @ [0, 0]) 2 (Some [Some [0, 5], Some [1, 7, 9]]) 99
     = Some (Some (concat (map2 (signer_pubkey demo_wally) [demo_signer, demo_cosigner] [[0, 5], [1, 7, 9]])))"
proof -
  have "list_all (\<lambda>s. \<exists>b. signer_parent demo_wally s = Some b \<and> length b = BIP32_SERIALIZED_LEN) [demo_signer, demo_cosigner]"
  proof -
    have "length (the (signer_parent demo_wally demo_signer)) = 78" "length (the (signer_parent demo_wally demo_cosigner)) = 78"
      by code_simp+
    then show ?thesis using demo_keys(2) by (auto simp: BIP32_SERIALIZED_LEN_def)
  qed
  moreover have "list_all2 (derivable demo_wally) [demo_signer, demo_cosigner] [[0, 5], [1, 7, 9]]" by code_simp
  ultimately show ?thesis
    using multisig_pubkeys_correct [of demo_wally "[demo_signer, demo_cosigner]" "[[0, 5], [1, 7, 9]]" 99 "[0, 0]"]
    by (simp add: wallet_lens ishardened_def numeral_2_eq_2)
qed

end
