(* ===== verification/Descriptor.thy ===== *)
theory Descriptor
  imports Multisig
begin

text \<open>
  \<open>main/descriptor.c\<close>: wallets registered as an output descriptor. The record holds a policy template, a
  script in which \<open>@0\<close>, \<open>@1\<close> and so on stand for keys, and the values of these placeholders.

  The descriptor functions of libwally are a parameter, the record \<open>wally_descriptor\<close>; so are the flags of
  its header. A call under \<open>JADE_WALLY_VERIFY\<close> that fails is an abort. An array with its length is a list,
  which in the structures below leaves out the unused end of the array and the terminating NUL.
\<close>

section \<open>Data\<close>

record string_value_t =
  sv_key :: bytes
  sv_value :: bytes

text \<open>\<open>dd_type\<close> is a byte as it is stored: reading a record does not check it.\<close>

record descriptor_data_t =
  dd_values :: "string_value_t list"
  dd_script :: bytes
  dd_type :: byte

definition DESCRIPTOR_TYPE_UNKNOWN :: byte where "DESCRIPTOR_TYPE_UNKNOWN = 0"
definition DESCRIPTOR_TYPE_MINISCRIPT_ONLY :: byte where "DESCRIPTOR_TYPE_MINISCRIPT_ONLY = 1"
definition DESCRIPTOR_TYPE_MIXED :: byte where "DESCRIPTOR_TYPE_MIXED = 2"

lemmas descriptor_types = DESCRIPTOR_TYPE_UNKNOWN_def DESCRIPTOR_TYPE_MINISCRIPT_ONLY_def DESCRIPTOR_TYPE_MIXED_def

definition MAX_DESCRIPTOR_NAME_SIZE :: nat where "MAX_DESCRIPTOR_NAME_SIZE = 16"
definition MAX_DESCRIPTOR_REGISTRATIONS :: nat where "MAX_DESCRIPTOR_REGISTRATIONS = 16"
definition MAX_DESCRIPTOR_SCRIPT_LEN :: nat where "MAX_DESCRIPTOR_SCRIPT_LEN = 512"

text \<open>The sizes of the two arrays of \<open>string_value_t\<close> and of the string path of a signer.\<close>

definition VALUE_SIZE :: nat where "VALUE_SIZE = 160"
definition KEY_SIZE :: nat where "KEY_SIZE = 16"
definition PATH_STR_SIZE :: nat where "PATH_STR_SIZE = MAX_PATH_LEN * 4"

definition string_values_len :: "string_value_t list \<Rightarrow> nat" where
  "string_values_len datavalues = foldl (\<lambda>len map_entry. len + length (sv_key map_entry) + length (sv_value map_entry)) 0 datavalues"

definition DESCRIPTOR_BODY_LEN :: "descriptor_data_t \<Rightarrow> nat" where
  "DESCRIPTOR_BODY_LEN descriptor = 1 + 2 + length (dd_script descriptor) + 1 + length (dd_values descriptor) * 2 * 2
     + string_values_len (dd_values descriptor)"

definition MAX_DESCRIPTOR_BODY_LEN :: nat where
  "MAX_DESCRIPTOR_BODY_LEN = 1 + 2 + MAX_DESCRIPTOR_SCRIPT_LEN + 1 + MAX_ALLOWED_SIGNERS * 2 * 2 + MAX_ALLOWED_SIGNERS * (160 + 16)"

definition MAX_DESCRIPTOR_BYTES_LEN :: nat where
  "MAX_DESCRIPTOR_BYTES_LEN = REGISTRATION_SEALED_LEN MAX_DESCRIPTOR_BODY_LEN"

definition MIN_DESCRIPTOR_BODY_LEN :: nat where "MIN_DESCRIPTOR_BODY_LEN = 1 + 2 + 1 + 1"

definition CURRENT_DESCRIPTOR_RECORD_VERSION :: byte where "CURRENT_DESCRIPTOR_RECORD_VERSION = 1"
definition MAX_DESCRIPTOR_ALLOWED_DEPTH :: u32 where "MAX_DESCRIPTOR_ALLOWED_DEPTH = 12"
definition MAX_DESCRIPTOR_PARSING_DEPTH :: u32 where "MAX_DESCRIPTOR_PARSING_DEPTH = 25"

lemmas descriptor_lens = MAX_DESCRIPTOR_SCRIPT_LEN_def VALUE_SIZE_def KEY_SIZE_def DESCRIPTOR_BODY_LEN_def
  MAX_DESCRIPTOR_BODY_LEN_def MAX_DESCRIPTOR_BYTES_LEN_def MIN_DESCRIPTOR_BODY_LEN_def MAX_ALLOWED_SIGNERS_def

text \<open>The two static assertions of the source.\<close>

lemma descriptor_static_asserts: "MAX_DESCRIPTOR_BODY_LEN = 3216" "MAX_DESCRIPTOR_BYTES_LEN = 3281"
  by (simp_all add: descriptor_lens seal_lens)

section \<open>The descriptor library\<close>

text \<open>\<open>'m\<close> is a map of libwally, \<open>'d\<close> a parsed descriptor. \<open>None\<close> is a result other than \<open>WALLY_OK\<close>, or a
  missing string. The arguments of \<open>wd_address\<close>, \<open>wd_script_max\<close> and \<open>wd_script\<close> are the multi-index and the child
  number; \<open>wd_script\<close> also gets the length of the buffer.\<close>

record ('m, 'd) wally_descriptor =
  wd_map_init :: "nat \<Rightarrow> 'm option"
  wd_map_add :: "'m \<Rightarrow> bytes \<Rightarrow> bytes \<Rightarrow> 'm option"
  wd_parse :: "bytes \<Rightarrow> 'm \<Rightarrow> network_t \<Rightarrow> u32 \<Rightarrow> 'd option"
  wd_depth :: "'d \<Rightarrow> u32 option"
  wd_num_variants :: "'d \<Rightarrow> u32 option"
  wd_features :: "'d \<Rightarrow> u32 option"
  wd_num_paths :: "'d \<Rightarrow> u32 option"
  wd_num_keys :: "'d \<Rightarrow> u32 option"
  wd_key_features :: "'d \<Rightarrow> nat \<Rightarrow> u32 option"
  wd_key_origin_fingerprint :: "'d \<Rightarrow> nat \<Rightarrow> bytes option"
  wd_key_origin_path_str :: "'d \<Rightarrow> nat \<Rightarrow> bytes option"
  wd_key :: "'d \<Rightarrow> nat \<Rightarrow> bytes option"
  wd_key_child_path_str :: "'d \<Rightarrow> nat \<Rightarrow> bytes option"
  wd_blinding_key :: "'d \<Rightarrow> bytes option"
  wd_address :: "'d \<Rightarrow> u32 \<Rightarrow> u32 \<Rightarrow> bytes option"
  wd_script_max :: "'d \<Rightarrow> u32 \<Rightarrow> u32 \<Rightarrow> nat option"
  wd_script :: "'d \<Rightarrow> u32 \<Rightarrow> u32 \<Rightarrow> nat \<Rightarrow> bytes option"
  ms_only :: u32
  ms_policy_template :: u32
  ms_unique_keypaths :: u32
  ms_depth_shift :: nat
  ms_is_private :: u32
  ms_is_ranged :: u32
  ms_is_slip77 :: u32
  ms_any_blinding_key :: u32
  ms_is_uncompressed :: u32
  ms_is_raw :: u32
  ms_is_parented :: u32

fun string_values_to_map :: "('m, 'd) wally_descriptor \<Rightarrow> string_value_t list \<Rightarrow> 'm \<Rightarrow> 'm option" where
  "string_values_to_map wd [] out = Some out"
| "string_values_to_map wd (map_entry # datavalues) out = do {
     out \<leftarrow> wd_map_add wd out (sv_key map_entry) (sv_value map_entry);
     string_values_to_map wd datavalues out }"

text \<open>The script as the library reads it, up to the first NUL.\<close>

definition script_text :: "bytes \<Rightarrow> bytes" where
  "script_text script = takeWhile (\<lambda>c. c \<noteq> 0) script"

text \<open>The loop over the types: the first that parses, with its type.\<close>

fun parse_types :: "('m, 'd) wally_descriptor \<Rightarrow> descriptor_data_t \<Rightarrow> 'm \<Rightarrow> network_t \<Rightarrow> u32 \<Rightarrow> byte list \<Rightarrow> (byte \<times> 'd) option" where
  "parse_types wd descriptor values network_id base_flags [] = None"
| "parse_types wd descriptor values network_id base_flags (type # types) =
     (let miniscript_flags = (if type = DESCRIPTOR_TYPE_MINISCRIPT_ONLY then ms_only wd else 0) in
      case wd_parse wd (script_text (dd_script descriptor)) values network_id (base_flags OR miniscript_flags) of
        Some d \<Rightarrow> Some (type, d)
      | None \<Rightarrow> parse_types wd descriptor values network_id base_flags types)"

text \<open>The checks after parsing, in their order; the first message that applies, if any. \<open>allow_liquid\<close> is
  \<open>descriptor_allow_liquid ()\<close>, which the build decides.\<close>

definition descriptor_objection :: "('m, 'd) wally_descriptor \<Rightarrow> bool \<Rightarrow> network_t \<Rightarrow> 'd \<Rightarrow> bytes option option" where
  "descriptor_objection wd allow_liquid network_id d = do {
     depth \<leftarrow> wd_depth wd d;
     if depth > MAX_DESCRIPTOR_ALLOWED_DEPTH then Some (Some (str ''Descriptor/script too deep''))
     else do {
       num_variants \<leftarrow> wd_num_variants wd d;
       if num_variants \<noteq> 1 then Some (Some (str ''Descriptors with multiple variants not supported''))
       else do {
         features \<leftarrow> wd_features wd d;
         if features AND ms_is_private wd \<noteq> 0 then Some (Some (str ''Descriptors with private keys are not supported''))
         else if features AND ms_is_ranged wd = 0 then Some (Some (str ''Descriptors without any wildcards are not supported''))
         else do {
           num_paths \<leftarrow> wd_num_paths wd d;
           if num_paths > 2 then Some (Some (str ''Descriptors with more than two paths are not supported''))
           else do {
             is_liquid \<leftarrow> (if network_id \<noteq> NETWORK_NONE then network_is_liquid network_id else Some False);
             Some (if is_liquid \<or> features AND ms_any_blinding_key wd \<noteq> 0
               then (if \<not> allow_liquid then Some (str ''Descriptor wallets not supported on liquid network'')
                 else if is_liquid then (if features AND ms_is_slip77 wd = 0 then Some (str ''Descriptor must use slip77 blinding for liquid network'') else None)
                 else if network_id \<noteq> NETWORK_NONE then
                   (if features AND ms_any_blinding_key wd \<noteq> 0 then Some (str ''Descriptor must not be confidential for bitcoin network'') else None)
                 else None)
               else None) } } } } }"

text \<open>The parsed descriptor with the type that was deduced, or the message of the failure.\<close>

definition parse_descriptor ::
  "('m, 'd) wally_descriptor \<Rightarrow> bool \<Rightarrow> descriptor_data_t \<Rightarrow> network_t \<Rightarrow> (bytes + byte \<times> 'd) option" where
  "parse_descriptor wd allow_liquid descriptor network_id = do {
     let types = (if dd_type descriptor = DESCRIPTOR_TYPE_UNKNOWN
       then [DESCRIPTOR_TYPE_MIXED, DESCRIPTOR_TYPE_MINISCRIPT_ONLY] else [dd_type descriptor]);
     values \<leftarrow> wd_map_init wd (length (dd_values descriptor));
     values \<leftarrow> string_values_to_map wd (dd_values descriptor) values;
     let wallet_policy_flags = (if dd_values descriptor \<noteq> [] then ms_policy_template wd OR ms_unique_keypaths wd else 0);
     let max_depth_flags = push_bit (ms_depth_shift wd) MAX_DESCRIPTOR_PARSING_DEPTH;
     case parse_types wd descriptor values network_id (wallet_policy_flags OR max_depth_flags) types of
       None \<Rightarrow> Some (Inl (str ''Failed to parse descriptor''))
     | Some (type, d) \<Rightarrow> do {
         objection \<leftarrow> descriptor_objection wd allow_liquid network_id d;
         Some (case objection of Some errmsg \<Rightarrow> Inl errmsg | None \<Rightarrow> Inr (type, d)) } }"

section \<open>Signers and scripts\<close>

text \<open>One signer; the inner \<open>Inl\<close> is the message of a failure. A child path that does not fit is an abort.\<close>

definition get_signer :: "'k libwally \<Rightarrow> ('m, 'd) wally_descriptor \<Rightarrow> 'd \<Rightarrow> nat \<Rightarrow> (bytes + signer_t) option" where
  "get_signer wl wd d i = (case wd_key_features wd d i of
     None \<Rightarrow> Some (Inl (str ''Failed to get key features''))
   | Some key_features \<Rightarrow>
     if key_features AND (ms_is_private wd OR ms_is_uncompressed wd OR ms_is_raw wd OR ms_is_parented wd) \<noteq> ms_is_parented wd
     then Some (Inl (str ''Invalid key features''))
     else case wd_key_origin_fingerprint wd d i of
       None \<Rightarrow> Some (Inl (str ''Failed to get signer fingerprint''))
     | Some fingerprint \<Rightarrow> (case wd_key_origin_path_str wd d i of
       None \<Rightarrow> Some (Inl (str ''Failed to get derivation path string''))
     | Some path_str \<Rightarrow> do {
       derivation \<leftarrow> wallet_bip32_path_from_str wl path_str MAX_PATH_LEN;
       case derivation of None \<Rightarrow> Some (Inl (str ''Failed to parse derivation path string'')) | Some derivation \<Rightarrow>
         (case wd_key wd d i of
            None \<Rightarrow> Some (Inl (str ''Failed to get key/xpub string''))
          | Some xpub \<Rightarrow>
            if length xpub \<ge> 120 then Some (Inl (str ''Failed to get key xpub string''))
            else case wd_key_child_path_str wd d i of
              None \<Rightarrow> Some (Inl (str ''Failed to get child path string''))
            | Some child_path \<Rightarrow> do {
                jade_assert (length child_path < PATH_STR_SIZE);
                Some (Inr \<lparr> sg_fingerprint = fingerprint, sg_derivation = derivation, sg_xpub = xpub, sg_path = Path_Str child_path \<rparr>) }) }))"

fun get_signers_loop :: "'k libwally \<Rightarrow> ('m, 'd) wally_descriptor \<Rightarrow> 'd \<Rightarrow> nat list \<Rightarrow> signer_t list \<Rightarrow> (bytes + signer_t list) option" where
  "get_signers_loop wl wd d [] signers = Some (Inr signers)"
| "get_signers_loop wl wd d (i # is) signers = do {
     r \<leftarrow> get_signer wl wd d i;
     case r of Inl errmsg \<Rightarrow> Some (Inl errmsg) | Inr signer \<Rightarrow> get_signers_loop wl wd d is (signers @ [signer]) }"

text \<open>The blinding key, if the caller asks for it and the descriptor has one.\<close>

definition get_blinding_key :: "('m, 'd) wally_descriptor \<Rightarrow> 'd \<Rightarrow> bool \<Rightarrow> bytes + bytes option" where
  "get_blinding_key wd d wanted =
     (if \<not> wanted then Inr None
      else case wd_features wd d of
        None \<Rightarrow> Inl (str ''Failed to inspect descriptor features'')
      | Some features \<Rightarrow>
        if features AND ms_is_slip77 wd \<noteq> 0 then
          (case wd_blinding_key wd d of None \<Rightarrow> Inl (str ''Failed to get blinding key from descriptor'') | Some k \<Rightarrow> Inr (Some k))
        else Inr None)"

text \<open>\<open>signers_len\<close> is zero when the caller only asks for their number. The result is the deduced type, the
  number, the signers and the blinding key.\<close>

definition descriptor_get_signers ::
  "'k libwally \<Rightarrow> ('m, 'd) wally_descriptor \<Rightarrow> bool \<Rightarrow> descriptor_data_t \<Rightarrow> network_t \<Rightarrow> nat \<Rightarrow> bool
     \<Rightarrow> (bytes + byte \<times> u32 \<times> signer_t list \<times> bytes option) option" where
  "descriptor_get_signers wl wd allow_liquid descriptor network_id signers_len want_blinding_key = do {
     parsed \<leftarrow> parse_descriptor wd allow_liquid descriptor network_id;
     case parsed of Inl errmsg \<Rightarrow> Some (Inl errmsg) | Inr (type, d) \<Rightarrow>
       (case wd_num_keys wd d of
          None \<Rightarrow> Some (Inl (str ''Failed to get signer pubkeys from descriptor''))
        | Some num_keys \<Rightarrow>
          if num_keys = 0 then Some (Inl (str ''Failed to get signer pubkeys from descriptor''))
          else if signers_len = 0 then Some (Inr (type, num_keys, [], None))
          else if signers_len < unat num_keys then Some (Inl (str ''Insufficient output to fetch signer details from descriptor''))
          else do {
            r \<leftarrow> get_signers_loop wl wd d [0..<unat num_keys] [];
            Some (case r of Inl errmsg \<Rightarrow> Inl errmsg | Inr signers \<Rightarrow>
              (case get_blinding_key wd d want_blinding_key of
                 Inl errmsg \<Rightarrow> Inl errmsg
               | Inr blinding_key \<Rightarrow> Inr (type, num_keys, signers, blinding_key))) }) }"

text \<open>The functions that run on a temporary stack.\<close>

definition descriptor_to_address_impl :: "('m, 'd) wally_descriptor \<Rightarrow> 'd \<Rightarrow> u32 \<Rightarrow> u32 \<Rightarrow> bytes option" where
  "descriptor_to_address_impl wd d multi_index child_num = wd_address wd d multi_index child_num"

definition generate_script :: "('m, 'd) wally_descriptor \<Rightarrow> 'd \<Rightarrow> u32 \<Rightarrow> u32 \<Rightarrow> nat \<Rightarrow> bytes option" where
  "generate_script wd d multi_index child_num maxlen = (case wd_script wd d multi_index child_num maxlen of
     None \<Rightarrow> None
   | Some script \<Rightarrow> if script = [] \<or> length script > maxlen then None else Some script)"

definition descriptor_to_script_impl :: "('m, 'd) wally_descriptor \<Rightarrow> 'd \<Rightarrow> u32 \<Rightarrow> u32 \<Rightarrow> bytes option" where
  "descriptor_to_script_impl wd d multi_index child_num = (case wd_script_max wd d multi_index child_num of
     None \<Rightarrow> None
   | Some maxlen \<Rightarrow> if maxlen = 0 then None else generate_script wd d multi_index child_num maxlen)"

text \<open>The loop over the child numbers: whether the script was found and where it stopped. \<open>stop\<close> is 64 bits wide,
  \<open>child_num\<close> 32.\<close>

partial_function (option) search_script_loop ::
  "('m, 'd) wally_descriptor \<Rightarrow> 'd \<Rightarrow> u32 \<Rightarrow> nat \<Rightarrow> bytes \<Rightarrow> u64 \<Rightarrow> u32 \<Rightarrow> (bool \<times> u32) option" where
  "search_script_loop wd d multi_index maxlen script stop child_num =
     (if ucast child_num < stop then
        (case generate_script wd d multi_index child_num maxlen of
           None \<Rightarrow> Some (False, child_num)
         | Some generated \<Rightarrow>
             if generated = script then Some (True, child_num)
             else search_script_loop wd d multi_index maxlen script stop (child_num + 1))
      else Some (False, child_num))"

definition descriptor_search_for_script_impl ::
  "('m, 'd) wally_descriptor \<Rightarrow> 'd \<Rightarrow> u32 \<Rightarrow> u32 \<Rightarrow> u64 \<Rightarrow> bytes \<Rightarrow> (bool \<times> u32) option" where
  "descriptor_search_for_script_impl wd d multi_index child_num search_depth script = do {
     jade_assert (search_depth \<noteq> 0);
     jade_assert (script \<noteq> []);
     case wd_script_max wd d multi_index child_num of
       None \<Rightarrow> Some (False, child_num)
     | Some maxlen \<Rightarrow>
       if maxlen = 0 then Some (False, child_num)
       else if maxlen < length script then Some (False, child_num)
       else search_script_loop wd d multi_index maxlen script (ucast child_num + search_depth) child_num }"

definition descriptor_to_address ::
  "('m, 'd) wally_descriptor \<Rightarrow> bool \<Rightarrow> descriptor_data_t \<Rightarrow> network_t \<Rightarrow> u32 \<Rightarrow> u32 \<Rightarrow> (bytes + byte \<times> bytes) option" where
  "descriptor_to_address wd allow_liquid descriptor network_id multi_index child_num = do {
     jade_assert (network_id \<noteq> NETWORK_NONE);
     parsed \<leftarrow> parse_descriptor wd allow_liquid descriptor network_id;
     Some (case parsed of Inl errmsg \<Rightarrow> Inl errmsg | Inr (type, d) \<Rightarrow>
       (case descriptor_to_address_impl wd d multi_index child_num of
          None \<Rightarrow> Inl (str ''Failed to obtain address from descriptor'')
        | Some address \<Rightarrow> Inr (type, address))) }"

definition descriptor_to_script ::
  "('m, 'd) wally_descriptor \<Rightarrow> bool \<Rightarrow> descriptor_data_t \<Rightarrow> network_t \<Rightarrow> u32 \<Rightarrow> u32 \<Rightarrow> (bytes + byte \<times> bytes) option" where
  "descriptor_to_script wd allow_liquid descriptor network_id multi_index child_num = do {
     jade_assert (network_id \<noteq> NETWORK_NONE);
     parsed \<leftarrow> parse_descriptor wd allow_liquid descriptor network_id;
     Some (case parsed of Inl errmsg \<Rightarrow> Inl errmsg | Inr (type, d) \<Rightarrow>
       (case descriptor_to_script_impl wd d multi_index child_num of
          None \<Rightarrow> Inl (str ''Failed to obtain script from descriptor'')
        | Some script \<Rightarrow> Inr (type, script))) }"

definition descriptor_search_for_script ::
  "('m, 'd) wally_descriptor \<Rightarrow> bool \<Rightarrow> descriptor_data_t \<Rightarrow> network_t \<Rightarrow> u32 \<Rightarrow> u32 \<Rightarrow> u64 \<Rightarrow> bytes \<Rightarrow> (bool \<times> u32) option" where
  "descriptor_search_for_script wd allow_liquid descriptor network_id multi_index child_num search_depth script = do {
     jade_assert (network_id \<noteq> NETWORK_NONE);
     jade_assert (search_depth \<noteq> 0);
     jade_assert (script \<noteq> []);
     parsed \<leftarrow> parse_descriptor wd allow_liquid descriptor network_id;
     case parsed of Inl errmsg \<Rightarrow> Some (False, child_num) | Inr (type, d) \<Rightarrow>
       descriptor_search_for_script_impl wd d multi_index child_num search_depth script }"

section \<open>The stored record\<close>

fun write_values :: "string_value_t list \<Rightarrow> bytes \<times> nat \<Rightarrow> (bytes \<times> nat) option" where
  "write_values [] w = Some w"
| "write_values (map_entry # datavalues) w = do {
     w \<leftarrow> put (write_le16 (length (sv_key map_entry))) w;
     w \<leftarrow> put (sv_key map_entry) w;
     w \<leftarrow> put (write_le16 (length (sv_value map_entry))) w;
     w \<leftarrow> put (sv_value map_entry) w;
     write_values datavalues w }"

definition descriptor_body_to_bytes :: "descriptor_data_t \<Rightarrow> bytes \<Rightarrow> bytes option" where
  "descriptor_body_to_bytes descriptor body = do {
     jade_assert (length body = DESCRIPTOR_BODY_LEN descriptor);
     jade_assert (dd_script descriptor \<noteq> []);
     jade_assert (length (dd_values descriptor) \<le> MAX_ALLOWED_SIGNERS);
     w \<leftarrow> put [dd_type descriptor] (body, 0);
     w \<leftarrow> put (write_le16 (length (dd_script descriptor))) w;
     w \<leftarrow> put (dd_script descriptor) w;
     w \<leftarrow> put [of_nat (length (dd_values descriptor))] w;
     (body, write_ptr) \<leftarrow> write_values (dd_values descriptor) w;
     jade_assert (write_ptr = length body);
     Some body }"

definition descriptor_seal_body :: "'k libwally \<Rightarrow> 'k option \<Rightarrow> bytes \<Rightarrow> bytes \<Rightarrow> bytes \<Rightarrow> (bool \<times> bytes) option" where
  "descriptor_seal_body wl keychain iv body output = registration_seal wl keychain iv CURRENT_DESCRIPTOR_RECORD_VERSION body output"

definition descriptor_open_registration :: "'k libwally \<Rightarrow> 'k option \<Rightarrow> bytes \<Rightarrow> nat \<Rightarrow> bytes option option" where
  "descriptor_open_registration wl keychain bs body_len = registration_open wl keychain CURRENT_DESCRIPTOR_RECORD_VERSION bs body_len"

text \<open>A string with its length at \<open>read_ptr\<close>, for an array of \<open>array_size\<close> bytes. \<open>buf\<close> is the memory that holds the
  body, \<open>body_len\<close> its end.\<close>

definition read_string :: "bytes \<Rightarrow> nat \<Rightarrow> nat \<Rightarrow> nat \<Rightarrow> (bytes \<times> nat) option option" where
  "read_string buf body_len array_size read_ptr =
     (if read_ptr + 2 > body_len then Some None
      else do {
        len_bytes \<leftarrow> buf_read buf read_ptr 2;
        let len = read_le16 len_bytes;
        let read_ptr = read_ptr + 2;
        if len \<ge> array_size \<or> read_ptr + len > body_len then Some None
        else do {
          s \<leftarrow> buf_read buf read_ptr len;
          Some (Some (s, read_ptr + len)) } })"

fun read_values :: "bytes \<Rightarrow> nat \<Rightarrow> nat \<Rightarrow> nat \<Rightarrow> string_value_t list \<Rightarrow> (string_value_t list \<times> nat) option option" where
  "read_values buf body_len 0 read_ptr datavalues = Some (Some (datavalues, read_ptr))"
| "read_values buf body_len (Suc n) read_ptr datavalues = do {
     key \<leftarrow> read_string buf body_len KEY_SIZE read_ptr;
     case key of None \<Rightarrow> Some None | Some (key, read_ptr) \<Rightarrow> do {
       val \<leftarrow> read_string buf body_len VALUE_SIZE read_ptr;
       case val of None \<Rightarrow> Some None | Some (val, read_ptr) \<Rightarrow>
         read_values buf body_len n read_ptr (datavalues @ [\<lparr> sv_key = key, sv_value = val \<rparr>]) } }"

definition descriptor_body_from_bytes :: "bytes \<Rightarrow> nat \<Rightarrow> descriptor_data_t option option" where
  "descriptor_body_from_bytes body body_len =
     (if body_len < MIN_DESCRIPTOR_BODY_LEN then Some None
      else do {
        type_byte \<leftarrow> buf_get body 0;
        len_bytes \<leftarrow> buf_read body 1 2;
        let script_len = read_le16 len_bytes;
        if script_len \<ge> MAX_DESCRIPTOR_SCRIPT_LEN \<or> 3 + script_len > body_len then Some None
        else do {
          script \<leftarrow> buf_read body 3 script_len;
          let read_ptr = 3 + script_len;
          if read_ptr + 1 > body_len then Some None
          else do {
            num_values \<leftarrow> buf_get body read_ptr;
            if unat num_values > MAX_ALLOWED_SIGNERS then Some None
            else do {
              r \<leftarrow> read_values body body_len (unat num_values) (read_ptr + 1) [];
              Some (case r of None \<Rightarrow> None | Some (datavalues, read_ptr) \<Rightarrow>
                if read_ptr \<noteq> body_len then None
                else Some \<lparr> dd_values = datavalues, dd_script = script, dd_type = type_byte \<rparr>) } } } })"

text \<open>\<open>heap\<close> is the fresh allocation that the body is opened into.\<close>

definition descriptor_from_bytes :: "'k libwally \<Rightarrow> 'k option \<Rightarrow> bytes \<Rightarrow> bytes \<Rightarrow> descriptor_data_t option option" where
  "descriptor_from_bytes wl keychain heap bs = do {
     opened \<leftarrow> descriptor_open_registration wl keychain bs MAX_DESCRIPTOR_BODY_LEN;
     case opened of None \<Rightarrow> Some None | Some body \<Rightarrow> do {
       buf \<leftarrow> buf_write heap 0 body;
       descriptor_body_from_bytes buf (length body) } }"

definition descriptor_load_from_storage ::
  "'k libwally \<Rightarrow> 'k option \<Rightarrow> bytes \<Rightarrow> 'n nvs_env \<Rightarrow> 'n nvs_state \<Rightarrow> bytes \<Rightarrow> (bytes + descriptor_data_t) option" where
  "descriptor_load_from_storage wl keychain heap env st descriptor_name = do {
     registration \<leftarrow> storage_get_descriptor_registration env descriptor_name MAX_DESCRIPTOR_BYTES_LEN st;
     case registration of None \<Rightarrow> Some (Inl (str ''Cannot find named descriptor wallet'')) | Some registration \<Rightarrow> do {
       r \<leftarrow> descriptor_from_bytes wl keychain heap registration;
       Some (case r of None \<Rightarrow> Inl (str ''Cannot de-serialise descriptor wallet data'') | Some d \<Rightarrow>
         if length (dd_script d) > MAX_DESCRIPTOR_SCRIPT_LEN \<or> length (dd_values d) > MAX_ALLOWED_SIGNERS
         then Inl (str ''Descriptor wallet data invalid'') else Inr d) } }"

fun valid_descriptor_names_loop :: "(bytes \<Rightarrow> (bytes + descriptor_data_t) option) \<Rightarrow> bytes list \<Rightarrow> bytes list \<Rightarrow> bytes list option" where
  "valid_descriptor_names_loop load [] written = Some written"
| "valid_descriptor_names_loop load (name # names) written = do {
     r \<leftarrow> load name;
     case r of Inl _ \<Rightarrow> valid_descriptor_names_loop load names written
     | Inr _ \<Rightarrow> valid_descriptor_names_loop load names (written @ [name]) }"

definition descriptor_get_valid_record_names ::
  "'k libwally \<Rightarrow> 'k option \<Rightarrow> bytes \<Rightarrow> bool \<Rightarrow> 'n nvs_env \<Rightarrow> 'n nvs_state \<Rightarrow> nat \<Rightarrow> bytes list option" where
  "descriptor_get_valid_record_names wl keychain heap malloc_ok env st num_names = do {
     jade_assert (num_names > 0);
     (ok, names) \<leftarrow> storage_get_all_descriptor_registration_names malloc_ok num_names st;
     if \<not> ok \<or> names = [] then Some []
     else valid_descriptor_names_loop (\<lambda>name. descriptor_load_from_storage wl keychain heap env st name) names [] }"

section \<open>The bytes of a body\<close>

definition string_bytes :: "bytes \<Rightarrow> bytes" where
  "string_bytes s = write_le16 (length s) @ s"

definition value_bytes :: "string_value_t \<Rightarrow> bytes" where
  "value_bytes v = string_bytes (sv_key v) @ string_bytes (sv_value v)"

definition descriptor_bytes :: "descriptor_data_t \<Rightarrow> bytes" where
  "descriptor_bytes d = [dd_type d] @ string_bytes (dd_script d) @ [of_nat (length (dd_values d))] @ concat (map value_bytes (dd_values d))"

text \<open>What fits the arrays of the structures, with a terminating NUL.\<close>

definition value_ok :: "string_value_t \<Rightarrow> bool" where
  "value_ok v \<longleftrightarrow> length (sv_key v) < KEY_SIZE \<and> length (sv_value v) < VALUE_SIZE"

definition descriptor_ok :: "descriptor_data_t \<Rightarrow> bool" where
  "descriptor_ok d \<longleftrightarrow> length (dd_script d) < MAX_DESCRIPTOR_SCRIPT_LEN \<and> length (dd_values d) \<le> MAX_ALLOWED_SIGNERS \<and>
     list_all value_ok (dd_values d)"

text \<open>The same formats read from the front of a list.\<close>

definition take_string :: "nat \<Rightarrow> bytes \<Rightarrow> (bytes \<times> bytes) option" where
  "take_string array_size bs =
     (let len = read_le16 (take 2 bs) in
      if length bs < 2 \<or> len \<ge> array_size \<or> 2 + len > length bs then None else Some (take len (drop 2 bs), drop (2 + len) bs))"

definition take_value :: "bytes \<Rightarrow> (string_value_t \<times> bytes) option" where
  "take_value bs = do {
     (key, bs) \<leftarrow> take_string KEY_SIZE bs;
     (val, bs) \<leftarrow> take_string VALUE_SIZE bs;
     Some (\<lparr> sv_key = key, sv_value = val \<rparr>, bs) }"

fun take_values :: "nat \<Rightarrow> bytes \<Rightarrow> (string_value_t list \<times> bytes) option" where
  "take_values 0 bs = Some ([], bs)"
| "take_values (Suc n) bs = do {
     (v, bs) \<leftarrow> take_value bs;
     (vs, bs) \<leftarrow> take_values n bs;
     Some (v # vs, bs) }"

lemma write_read_le16: "write_le16 (read_le16 [a, b]) = [a, b]"
proof -
  have d: "drop_bit 8 (unat a) = 0" using unat_byte_lt [of a] by (simp add: drop_bit_eq_div)
  have "take_bit 8 (unat a) = unat a" using unat_byte_lt [of a] by (simp add: take_bit_nat_eq_self_iff)
  moreover have "take_bit 8 (push_bit 8 (unat b)) = 0" by (simp add: take_bit_push_bit)
  ultimately have "take_bit 8 (read_le16 [a, b]) = unat a" by (simp add: read_le16_def take_bit_or)
  moreover have "drop_bit 8 (push_bit 8 (unat b)) = unat b" by (simp add: drop_bit_eq_div push_bit_eq_mult)
  then have "drop_bit 8 (read_le16 [a, b]) = unat b" using d by (simp add: read_le16_def drop_bit_or)
  moreover have "(of_nat n :: byte) = of_nat (take_bit 8 n)" for n
    by (rule word_unat_eq_iff [THEN iffD2]) (simp add: unat_of_nat take_bit_eq_mod)
  ultimately show ?thesis unfolding write_le16_def by (metis of_nat_unat ucast_id)
qed

lemma take_string_Some: "take_string n bs = Some (s, rest) \<longleftrightarrow> bs = string_bytes s @ rest \<and> length s < n \<and> length s < 65536"
proof
  assume t: "take_string n bs = Some (s, rest)"
  then obtain a b cs where bs: "bs = a # b # cs"
    by (cases bs; cases "tl bs") (auto simp: take_string_def Let_def split: if_splits)
  then show "bs = string_bytes s @ rest \<and> length s < n \<and> length s < 65536"
    using t read_le16_bound [of "[a, b]"] write_read_le16 [of a b] by (auto simp: take_string_def string_bytes_def Let_def min_def split: if_splits)
next
  assume "bs = string_bytes s @ rest \<and> length s < n \<and> length s < 65536"
  moreover from this have "read_le16 (write_le16 (length s)) = length s" using read_write_le16 [of "length s" "[]"] by simp
  ultimately show "take_string n bs = Some (s, rest)" by (simp add: take_string_def string_bytes_def)
qed

lemma take_value_Some: "take_value bs = Some (v, rest) \<longleftrightarrow> bs = value_bytes v @ rest \<and> value_ok v"
proof (cases v)
  case (fields key val)
  show ?thesis unfolding fields take_value_def
    by (auto simp: bind_eq_Some_conv take_string_Some value_bytes_def value_ok_def KEY_SIZE_def VALUE_SIZE_def)
qed

interpretation descriptor_value: prefix_codec value_bytes take_value value_ok
  by unfold_locales (simp add: take_value_Some)

lemma take_values_Some:
  "take_values n bs = Some (vs, rest) \<longleftrightarrow> length vs = n \<and> list_all value_ok vs \<and> bs = concat (map value_bytes vs) @ rest"
proof (induction n arbitrary: bs vs)
  case (Suc n)
  show ?case by (cases vs) (auto simp: bind_eq_Some_conv take_value_Some Suc.IH)
qed auto

text \<open>The reader on memory that starts with the body is the reader on lists.\<close>

definition at_ptr :: "nat \<Rightarrow> ('a \<times> bytes) option \<Rightarrow> ('a \<times> nat) option" where
  "at_ptr body_len r = map_option (\<lambda>(x, rest). (x, body_len - length rest)) r"

lemma read_string_eq:
  assumes "p \<le> length body"
  shows "read_string (body @ tail) (length body) n p = Some (at_ptr (length body) (take_string n (drop p body)))"
proof -
  have "take 2 (drop p body) = take 2 (drop p (body @ tail))" if "p + 2 \<le> length body" using that by simp
  then show ?thesis
    using assms by (auto simp: read_string_def take_string_def at_ptr_def Let_def buf_read_def)
qed

lemma take_string_len: "take_string n bs = Some (s, rest) \<Longrightarrow> length rest \<le> length bs \<and> rest = drop (length bs - length rest) bs"
  by (auto simp: take_string_Some)

lemma read_values_eq:
  assumes "p \<le> length body"
  shows "read_values (body @ tail) (length body) n p vs0
    = Some (at_ptr (length body) (map_option (\<lambda>(vs, rest). (vs0 @ vs, rest)) (take_values n (drop p body))))"
  using assms
proof (induction n arbitrary: p vs0)
  case 0
  then show ?case by (simp add: at_ptr_def)
next
  case (Suc n)
  show ?case
  proof (cases "take_string KEY_SIZE (drop p body)")
    case None
    then show ?thesis using Suc.prems by (simp add: read_string_eq at_ptr_def take_value_def)
  next
    case (Some kr)
    then obtain key r1 where k: "take_string KEY_SIZE (drop p body) = Some (key, r1)" by (cases kr) simp
    let ?p1 = "length body - length r1"
    have r1: "?p1 \<le> length body" "drop ?p1 body = r1"
      using take_string_len [OF k] Suc.prems by (auto simp: add.commute)
    show ?thesis
    proof (cases "take_string VALUE_SIZE r1")
      case None
      then show ?thesis using Suc.prems k r1 by (simp add: read_string_eq at_ptr_def take_value_def)
    next
      case (Some vr)
      then obtain val r2 where v: "take_string VALUE_SIZE r1 = Some (val, r2)" by (cases vr) simp
      let ?p2 = "length body - length r2"
      have l2: "length r2 \<le> length r1" "length r1 \<le> length body" using take_string_len [OF v] take_string_len [OF k] by auto
      have "r2 = drop (length r1 - length r2) (drop ?p1 body)" using take_string_len [OF v] r1(2) by simp
      then have r2: "?p2 \<le> length body" "drop ?p2 body = r2" using l2 by auto
      show ?thesis
        using Suc.prems k v r1 Suc.IH [OF r2(1)] r2(2)
        by (cases "take_values n r2") (auto simp: read_string_eq at_ptr_def take_value_def)
    qed
  qed
qed

definition take_body :: "bytes \<Rightarrow> descriptor_data_t option" where
  "take_body body = do {
     (script, bs) \<leftarrow> take_string MAX_DESCRIPTOR_SCRIPT_LEN (drop 1 body);
     if bs = [] \<or> unat (hd bs) > MAX_ALLOWED_SIGNERS then None
     else do {
       (vs, rest) \<leftarrow> take_values (unat (hd bs)) (tl bs);
       if rest \<noteq> [] then None else Some \<lparr> dd_values = vs, dd_script = script, dd_type = hd body \<rparr> } }"

lemma take_body_Some:
  assumes "body \<noteq> []"
  shows "take_body body = Some d \<longleftrightarrow> body = descriptor_bytes d \<and> descriptor_ok d"
proof -
  obtain t bs where b: "body = t # bs" using assms by (cases body) simp_all
  have u: "(of_nat (length vs) :: byte) = c \<and> length vs \<le> MAX_ALLOWED_SIGNERS \<longleftrightarrow> unat c \<le> MAX_ALLOWED_SIGNERS \<and> length vs = unat c"
    for vs :: "string_value_t list" and c :: byte
    using unat_of_nat_small [of "length vs"] by (auto simp: MAX_ALLOWED_SIGNERS_def)
  obtain vs script ty where d: "d = \<lparr> dd_values = vs, dd_script = script, dd_type = ty \<rparr>" by (cases d)
  have "take_body body = Some d \<longleftrightarrow> ty = t \<and> (\<exists>c cs. bs = string_bytes script @ c # cs \<and> length script < MAX_DESCRIPTOR_SCRIPT_LEN \<and>
      unat c \<le> MAX_ALLOWED_SIGNERS \<and> length vs = unat c \<and> list_all value_ok vs \<and> cs = concat (map value_bytes vs))"
    (is "_ \<longleftrightarrow> ?R")
  proof
    assume "take_body body = Some d"
    then show ?R
      unfolding take_body_def b d
      by (auto simp: bind_eq_Some_conv take_string_Some take_values_Some split: if_splits) (metis list.collapse not_less)
  next
    assume ?R
    then obtain c where c: "ty = t" "bs = string_bytes script @ c # concat (map value_bytes vs)" "length script < MAX_DESCRIPTOR_SCRIPT_LEN"
        "unat c \<le> MAX_ALLOWED_SIGNERS" "length vs = unat c" "list_all value_ok vs" by blast
    have "take_string MAX_DESCRIPTOR_SCRIPT_LEN bs = Some (script, c # concat (map value_bytes vs))"
      using c by (simp add: take_string_Some MAX_DESCRIPTOR_SCRIPT_LEN_def)
    moreover have "take_values (unat c) (concat (map value_bytes vs)) = Some (vs, [])" using c by (simp add: take_values_Some)
    ultimately show "take_body body = Some d" using c by (simp add: take_body_def b d)
  qed
  also have "\<dots> \<longleftrightarrow> body = descriptor_bytes d \<and> descriptor_ok d"
    unfolding descriptor_bytes_def descriptor_ok_def b d using u by fastforce
  finally show ?thesis .
qed

lemma diff_eq_self: "(m :: nat) \<le> n \<Longrightarrow> 0 < n \<Longrightarrow> n - m = n \<longleftrightarrow> m = 0"
  by auto

lemma descriptor_from_bytes_eq:
  "descriptor_body_from_bytes (body @ tail) (length body) = Some (if length body < MIN_DESCRIPTOR_BODY_LEN then None else take_body body)"
proof (cases "length body < MIN_DESCRIPTOR_BODY_LEN")
  case True
  then show ?thesis by (simp add: descriptor_body_from_bytes_def)
next
  case False
  then obtain t a b bs where b: "body = t # a # b # bs" and l: "2 \<le> length bs"
    by (cases body; cases "tl body"; cases "tl (tl body)") (auto simp: MIN_DESCRIPTOR_BODY_LEN_def)
  let ?n = "read_le16 [a, b]"
  have g: "buf_get (body @ tail) 0 = Some t" "buf_read (body @ tail) 1 2 = Some [a, b]"
    using b by (simp_all add: buf_get_def buf_read_def)
  show ?thesis
  proof (cases "?n \<ge> MAX_DESCRIPTOR_SCRIPT_LEN \<or> 3 + ?n > length body")
    case True
    then have "take_string MAX_DESCRIPTOR_SCRIPT_LEN (drop 1 body) = None" using b by (auto simp: take_string_def)
    then show ?thesis using True False g by (simp add: descriptor_body_from_bytes_def take_body_def)
  next
    case inside: False
    then have s: "take_string MAX_DESCRIPTOR_SCRIPT_LEN (drop 1 body) = Some (take ?n bs, drop ?n bs)"
      "buf_read (body @ tail) 3 ?n = Some (take ?n bs)" and d: "drop (3 + ?n) body = drop ?n bs"
      using b by (auto simp: take_string_def buf_read_def Let_def numeral_3_eq_3)
    show ?thesis
    proof (cases "drop ?n bs")
      case Nil
      then show ?thesis using inside False g s b by (simp add: descriptor_body_from_bytes_def take_body_def)
    next
      case (Cons c cs)
      then have l: "3 + ?n < length body" using d by (metis drop_eq_Nil list.distinct(1) not_le)
      then have c: "buf_get (body @ tail) (3 + ?n) = Some c" using Cons d by (simp add: buf_get_def nth_append) (metis hd_drop_conv_nth list.sel(1))
      have "drop (Suc (3 + ?n)) body = cs" using Cons d by (metis drop_Suc list.sel(3) tl_drop)
      then have "read_values (body @ tail) (length body) (unat c) (Suc (3 + ?n)) [] = Some (at_ptr (length body) (take_values (unat c) cs))"
        using read_values_eq [of "Suc (3 + ?n)" body tail "unat c" "[]"] l by (cases "take_values (unat c) cs") (auto simp: at_ptr_def)
      moreover have "length rest \<le> length body" if "take_values (unat c) cs = Some (vs, rest)" for vs rest
      proof -
        have "length cs \<le> length body" using \<open>drop (Suc (3 + ?n)) body = cs\<close> by auto
        then show ?thesis using that by (auto simp: take_values_Some)
      qed
      moreover have "body \<noteq> []" using b by simp
      ultimately show ?thesis
        using inside False g s Cons l c
        by (cases "take_values (unat c) cs") (auto simp: descriptor_body_from_bytes_def take_body_def at_ptr_def b diff_eq_self)
    qed
  qed
qed

text \<open>The writer produces these bytes.\<close>

lemma write_values_ok:
  assumes "length (concat (map value_bytes vs)) \<le> length rest"
  shows "write_values vs (writer pre rest) = Some (writer (pre @ concat (map value_bytes vs)) (drop (length (concat (map value_bytes vs))) rest))"
  using assms
proof (induction vs arbitrary: pre rest)
  case (Cons v vs)
  have "length (value_bytes v) \<le> length rest" "length (concat (map value_bytes vs)) \<le> length (drop (length (value_bytes v)) rest)"
    using Cons.prems by simp_all
  moreover have "write_values (v # vs) (writer pre rest) = write_values vs (writer (pre @ value_bytes v) (drop (length (value_bytes v)) rest))"
    using Cons.prems by (simp add: put_writer value_bytes_def string_bytes_def add.commute add.left_commute)
  ultimately show ?case using Cons.IH by (simp add: add.commute)
qed simp

lemma string_values_len_eq: "string_values_len vs + 2 * (2 * length vs) = length (concat (map value_bytes vs))"
proof -
  have "foldl (\<lambda>len v. len + length (sv_key v) + length (sv_value v)) n vs + 4 * length vs = n + length (concat (map value_bytes vs))" for n
    by (induction vs arbitrary: n) (simp_all add: value_bytes_def string_bytes_def)
  from this [of 0] show ?thesis by (simp add: string_values_len_def)
qed

lemma length_descriptor_bytes: "length (descriptor_bytes d) = DESCRIPTOR_BODY_LEN d"
  using string_values_len_eq [of "dd_values d"] by (simp add: descriptor_bytes_def DESCRIPTOR_BODY_LEN_def string_bytes_def)

lemma descriptor_to_bytes_eq:
  assumes "length body = DESCRIPTOR_BODY_LEN d" and "dd_script d \<noteq> []" and "length (dd_values d) \<le> MAX_ALLOWED_SIGNERS"
  shows "descriptor_body_to_bytes d body = Some (descriptor_bytes d)"
proof -
  have b0: "(body, 0) = writer [] body" by (simp add: writer_def)
  let ?h = "[dd_type d] @ string_bytes (dd_script d) @ [of_nat (length (dd_values d))]"
  have l: "length body = length ?h + length (concat (map value_bytes (dd_values d)))"
    using assms(1) length_descriptor_bytes [of d] by (simp add: descriptor_bytes_def)
  then have "write_values (dd_values d) (writer ?h (drop (length ?h) body)) = Some (writer (descriptor_bytes d) [])"
    using write_values_ok [of "dd_values d" "drop (length ?h) body" ?h] by (simp add: descriptor_bytes_def)
  moreover have "writer (descriptor_bytes d) [] = (descriptor_bytes d, length (descriptor_bytes d))" by (simp add: writer_def)
  moreover have "descriptor_body_to_bytes d body = do {
      (body, write_ptr) \<leftarrow> write_values (dd_values d) (writer ?h (drop (length ?h) body));
      jade_assert (write_ptr = length body);
      Some body }"
    using assms l by (simp add: descriptor_body_to_bytes_def b0 put_writer string_bytes_def eval_nat_numeral)
  ultimately show ?thesis by simp
qed

lemma descriptor_bytes_le: "descriptor_ok d \<Longrightarrow> length (descriptor_bytes d) \<le> MAX_DESCRIPTOR_BODY_LEN"
proof -
  have "list_all value_ok vs \<Longrightarrow> length (concat (map value_bytes vs)) \<le> length vs * (4 + 15 + 159)" for vs
    by (induction vs) (auto simp: value_ok_def value_bytes_def string_bytes_def KEY_SIZE_def VALUE_SIZE_def)
  then show "descriptor_ok d \<Longrightarrow> length (descriptor_bytes d) \<le> MAX_DESCRIPTOR_BODY_LEN"
    by (fastforce simp: descriptor_ok_def descriptor_bytes_def string_bytes_def descriptor_static_asserts MAX_DESCRIPTOR_SCRIPT_LEN_def MAX_ALLOWED_SIGNERS_def)
qed

section \<open>Opening, sealing and searching\<close>

lemma ucast_u64: "(ucast (c :: u32) :: u64) = of_nat (unat c)"
  by (rule word_unat_eq_iff [THEN iffD2]) (simp add: unat_ucast_widen)

lemma descriptor_open_eq:
  assumes "hmac_ok wl" and "length bs \<le> MAX_DESCRIPTOR_BYTES_LEN" and "length heap = MAX_DESCRIPTOR_BODY_LEN"
  shows "descriptor_from_bytes wl (Some xpriv) heap bs = Some (
    if well_sealed wl xpriv CURRENT_DESCRIPTOR_RECORD_VERSION bs then (case sealed_body wl xpriv bs of None \<Rightarrow> None
      | Some body \<Rightarrow> if length body > MAX_DESCRIPTOR_BODY_LEN \<or> length body < MIN_DESCRIPTOR_BODY_LEN then None else take_body body)
    else None)"
proof -
  have n: "0 < MAX_DESCRIPTOR_BODY_LEN" by (simp add: descriptor_static_asserts)
  have l: "length bs \<le> REGISTRATION_SEALED_LEN MAX_DESCRIPTOR_BODY_LEN" using assms(2) by (simp add: MAX_DESCRIPTOR_BYTES_LEN_def)
  have w: "buf_write heap 0 body = Some (body @ drop (length body) heap)" if "length body \<le> MAX_DESCRIPTOR_BODY_LEN" for body
    using that assms(3) by (simp add: buf_write_def)
  show ?thesis
    using w by (auto simp: descriptor_from_bytes_def descriptor_open_registration_def registration_open_eq [OF assms(1) n l] descriptor_from_bytes_eq
        split: option.split)
qed

lemma descriptor_sealed_reads_back:
  assumes "hmac_ok wl" and "cbc_ok wl" and "length iv = Registration.AES_BLOCK_LEN" and "descriptor_ok d" and "dd_script d \<noteq> []"
    and "length heap = MAX_DESCRIPTOR_BODY_LEN"
  shows "descriptor_from_bytes wl (Some xpriv) heap (sealed wl xpriv iv CURRENT_DESCRIPTOR_RECORD_VERSION (descriptor_bytes d)) = Some (Some d)"
proof -
  let ?b = "descriptor_bytes d"
  have ne: "?b \<noteq> []" by (simp add: descriptor_bytes_def)
  have l: "length ?b \<le> MAX_DESCRIPTOR_BODY_LEN" "MIN_DESCRIPTOR_BODY_LEN \<le> length ?b"
    using descriptor_bytes_le [OF assms(4)] assms(5) by (auto simp: descriptor_bytes_def string_bytes_def MIN_DESCRIPTOR_BODY_LEN_def Suc_le_eq)
  have "buf_write heap 0 ?b = Some (?b @ drop (length ?b) heap)" using l(1) assms(6) by (simp add: buf_write_def)
  moreover have "take_body ?b = Some d" using take_body_Some [OF ne] assms(4) by simp
  ultimately show ?thesis
    using registration_open_sealed [OF assms(1-3) ne l(1)] l
    by (simp add: descriptor_from_bytes_def descriptor_open_registration_def descriptor_from_bytes_eq)
qed

text \<open>The search returns the first child number whose script matches, and ends at the end of the range
  otherwise, as long as the range stays within 32 bits.\<close>

lemma search_script_first:
  assumes "unat c + n < 2 ^ 32" and "\<forall>i < n. generate_script wd d m (c + of_nat i) maxlen \<noteq> None"
  shows "(\<exists>i < n. search_script_loop wd d m maxlen script (of_nat (unat c + n)) c = Some (True, c + of_nat i) \<and>
        generate_script wd d m (c + of_nat i) maxlen = Some script \<and>
        (\<forall>j < i. generate_script wd d m (c + of_nat j) maxlen \<noteq> Some script)) \<or>
    search_script_loop wd d m maxlen script (of_nat (unat c + n)) c = Some (False, c + of_nat n) \<and>
    (\<forall>i < n. generate_script wd d m (c + of_nat i) maxlen \<noteq> Some script)"
  using assms
proof (induction n arbitrary: c)
  case 0
  have "\<not> (ucast c :: u64) < of_nat (unat c + 0)" by (simp only: ucast_u64) simp
  then show ?case by (subst search_script_loop.simps) simp
next
  case (Suc n)
  have u: "unat (ucast c :: u64) = unat c" "unat (of_nat (unat c + Suc n) :: u64) = unat c + Suc n"
    using Suc.prems(1) by (simp_all add: unat_ucast_widen unat_of_nat take_bit_eq_mod del: of_nat_add of_nat_Suc)
  then have lt: "(ucast c :: u64) < of_nat (unat c + Suc n)" by (simp add: word_less_nat_alt del: of_nat_add of_nat_Suc)
  have "unat (of_nat (unat c + 1) :: u32) = unat c + 1"
    using Suc.prems(1) by (simp add: unat_of_nat take_bit_eq_mod del: of_nat_add of_nat_Suc)
  moreover have "(of_nat (unat c + 1) :: u32) = c + 1" by simp
  ultimately have c1: "unat (c + 1) = unat c + 1" by metis
  have sh: "c + 1 + of_nat i = c + of_nat (Suc i)" for i by (simp add: add.assoc)
  obtain g where g: "generate_script wd d m c maxlen = Some g" using Suc.prems(2) by fastforce
  show ?case
  proof (cases "g = script")
    case True
    then have "search_script_loop wd d m maxlen script (of_nat (unat c + Suc n)) c = Some (True, c + of_nat 0)"
      using lt g by (subst search_script_loop.simps) simp
    then show ?thesis using True g by (intro disjI1 exI [of _ 0]) simp
  next
    case False
    have step: "search_script_loop wd d m maxlen script (of_nat (unat c + Suc n)) c
        = search_script_loop wd d m maxlen script (of_nat (unat (c + 1) + n)) (c + 1)"
      using lt g False c1 by (subst search_script_loop.simps) simp
    note IH = Suc.IH [of "c + 1", unfolded sh c1]
    have "unat c + 1 + n < 2 ^ 32" "\<forall>i < n. generate_script wd d m (c + of_nat (Suc i)) maxlen \<noteq> None"
      using Suc.prems by (simp_all del: of_nat_Suc)
    note IH = IH [OF this]
    have z: "(\<forall>j < Suc k. generate_script wd d m (c + of_nat j) maxlen \<noteq> Some script) \<longleftrightarrow>
        (\<forall>j < k. generate_script wd d m (c + of_nat (Suc j)) maxlen \<noteq> Some script)" for k
      unfolding All_less_Suc2 using g False by simp
    show ?thesis
      using IH
    proof (elim disjE exE conjE)
      fix i assume i: "i < n" "search_script_loop wd d m maxlen script (of_nat (unat c + 1 + n)) (c + 1) = Some (True, c + of_nat (Suc i))"
        "generate_script wd d m (c + of_nat (Suc i)) maxlen = Some script" "\<forall>j < i. generate_script wd d m (c + of_nat (Suc j)) maxlen \<noteq> Some script"
      show ?thesis by (rule disjI1, rule exI [of _ "Suc i"], intro conjI) (use i z [of i] step c1 in \<open>simp_all only: Suc_less_eq\<close>)
    next
      assume "search_script_loop wd d m maxlen script (of_nat (unat c + 1 + n)) (c + 1) = Some (False, c + of_nat (Suc n))"
        "\<forall>i < n. generate_script wd d m (c + of_nat (Suc i)) maxlen \<noteq> Some script"
      then show ?thesis using z [of n] step c1 by (intro disjI2 conjI) simp_all
    qed
  qed
qed

lemma descriptor_search_first:
  assumes "parse_descriptor wd allow_liquid descriptor network_id = Some (Inr (type, d))" and "network_id \<noteq> NETWORK_NONE"
    and "wd_script_max wd d m c = Some maxlen" and "script \<noteq> []" and "length script \<le> maxlen" and "0 < n" and "unat c + n < 2 ^ 32"
    and "\<forall>i < n. generate_script wd d m (c + of_nat i) maxlen \<noteq> None"
  shows "(\<exists>i < n. descriptor_search_for_script wd allow_liquid descriptor network_id m c (of_nat n) script = Some (True, c + of_nat i) \<and>
        generate_script wd d m (c + of_nat i) maxlen = Some script \<and>
        (\<forall>j < i. generate_script wd d m (c + of_nat j) maxlen \<noteq> Some script)) \<or>
    descriptor_search_for_script wd allow_liquid descriptor network_id m c (of_nat n) script = Some (False, c + of_nat n) \<and>
    (\<forall>i < n. generate_script wd d m (c + of_nat i) maxlen \<noteq> Some script)"
proof -
  have "(of_nat n :: u64) \<noteq> 0" using assms(6,7) unat_of_nat [of n, where 'a = 64] by (auto simp: take_bit_eq_mod)
  moreover have "0 < maxlen" "\<not> maxlen < length script" using assms(4,5) by (cases script; simp)+
  moreover have "(ucast c :: u64) + of_nat n = of_nat (unat c + n)" by (simp only: ucast_u64 of_nat_add)
  ultimately have "descriptor_search_for_script wd allow_liquid descriptor network_id m c (of_nat n) script
      = search_script_loop wd d m maxlen script (of_nat (unat c + n)) c"
    using assms(1-4) by (simp add: descriptor_search_for_script_def descriptor_search_for_script_impl_def)
  then show ?thesis using search_script_first [OF assms(7,8), of script] by metis
qed

section \<open>Properties\<close>

text \<open>C25. Reading a stored descriptor never aborts and never leaves a buffer, whatever the bytes are. It gives a
  descriptor exactly for a record that this wallet has sealed and whose body is the one encoding of that descriptor,
  and then every string fits its array with the terminating NUL.\<close>

theorem descriptor_reader_exact:
  assumes "hmac_ok wl" and "length bs \<le> MAX_DESCRIPTOR_BYTES_LEN" and "length heap = MAX_DESCRIPTOR_BODY_LEN"
  shows "\<exists>r. descriptor_from_bytes wl (Some xpriv) heap bs = Some r \<and> (r = Some d \<longleftrightarrow>
    well_sealed wl xpriv CURRENT_DESCRIPTOR_RECORD_VERSION bs \<and> sealed_body wl xpriv bs = Some (descriptor_bytes d) \<and>
    descriptor_ok d \<and> MIN_DESCRIPTOR_BODY_LEN \<le> DESCRIPTOR_BODY_LEN d)"
proof -
  have m: "MIN_DESCRIPTOR_BODY_LEN \<le> length body \<Longrightarrow> body \<noteq> []" for body :: bytes by (auto simp: MIN_DESCRIPTOR_BODY_LEN_def)
  have iff: "length body \<le> MAX_DESCRIPTOR_BODY_LEN \<and> MIN_DESCRIPTOR_BODY_LEN \<le> length body \<and> take_body body = Some d \<longleftrightarrow>
      body = descriptor_bytes d \<and> descriptor_ok d \<and> MIN_DESCRIPTOR_BODY_LEN \<le> DESCRIPTOR_BODY_LEN d" for body
    using m [of body] take_body_Some [of body d] descriptor_bytes_le [of d] length_descriptor_bytes [of d] by auto
  show ?thesis
  proof (cases "sealed_body wl xpriv bs")
    case None
    then show ?thesis by (simp add: descriptor_open_eq [OF assms])
  next
    case (Some body)
    then show ?thesis using iff [of body] unfolding descriptor_open_eq [OF assms, of xpriv] by (simp add: not_less not_le) fastforce
  qed
qed

definition demo_value :: string_value_t where
  "demo_value = \<lparr> sv_key = str ''@0'', sv_value = str ''[00000005/84h]xpub1'' \<rparr>"

definition demo_descriptor :: descriptor_data_t where
  "demo_descriptor = \<lparr> dd_values = [demo_value], dd_script = str ''wpkh(@0/<0;1>/*)'', dd_type = DESCRIPTOR_TYPE_MIXED \<rparr>"

lemma demo_descriptor_ok: "descriptor_ok demo_descriptor" "dd_script demo_descriptor \<noteq> []"
  by (simp_all add: descriptor_ok_def demo_descriptor_def demo_value_def value_ok_def descriptor_lens)

theorem descriptor_reader_exact_witness:
  "descriptor_from_bytes demo_wally (Some (demo_key 0 5)) (replicate 3216 7)
     (sealed demo_wally (demo_key 0 5) (replicate 16 1) CURRENT_DESCRIPTOR_RECORD_VERSION (descriptor_bytes demo_descriptor)) = Some (Some demo_descriptor)"
proof -
  let ?bs = "sealed demo_wally (demo_key 0 5) (replicate 16 1) CURRENT_DESCRIPTOR_RECORD_VERSION (descriptor_bytes demo_descriptor)"
  have iv: "length (replicate 16 (1 :: byte)) = Registration.AES_BLOCK_LEN" by (simp add: Registration.AES_BLOCK_LEN_def)
  have ne: "descriptor_bytes demo_descriptor \<noteq> []" by (simp add: descriptor_bytes_def)
  have p: "well_sealed demo_wally (demo_key 0 5) CURRENT_DESCRIPTOR_RECORD_VERSION ?bs"
      "sealed_body demo_wally (demo_key 0 5) ?bs = Some (descriptor_bytes demo_descriptor)"
    using sealed_parts [OF demo_crypto iv ne] by simp_all
  have "length (descriptor_bytes demo_descriptor) = DESCRIPTOR_BODY_LEN demo_descriptor" by (rule length_descriptor_bytes)
  moreover have dl: "DESCRIPTOR_BODY_LEN demo_descriptor = 45" by code_simp
  ultimately have l: "length ?bs \<le> MAX_DESCRIPTOR_BYTES_LEN"
    using length_sealed [OF demo_crypto iv ne] by (simp add: seal_lens descriptor_static_asserts)
  show ?thesis
    using descriptor_reader_exact [OF demo_crypto(1) l, of "replicate 3216 7" "demo_key 0 5" demo_descriptor] p demo_descriptor_ok(1) dl
    by (simp add: descriptor_static_asserts MIN_DESCRIPTOR_BODY_LEN_def)
qed

end
