(* ===== verification/Multisig_File.thy ===== *)
theory Multisig_File
  imports Multisig
begin

text \<open>
  \<open>main/process/register_multisig.c\<close>: the text file that other wallets use to describe a multisig
  wallet, read line by line and registered.

  The file is a prefix of the memory \<open>mem\<close> that holds it. The answers of the user are parameters.
  Fresh memory of a given length is the function \<open>fresh\<close>. The CBOR handler of the same source file
  only extracts the parameters of \<open>register_multisig\<close> and is not modelled.
\<close>

section \<open>Registering\<close>

datatype rpc_error = CBOR_RPC_BAD_PARAMETERS | CBOR_RPC_INTERNAL_ERROR | CBOR_RPC_USER_CANCELLED

type_synonym rpc_result = "(rpc_error \<times> bytes) option"

text \<open>What the user answers: replace an unreadable record, register, and truncate the name.\<close>

record user_answers =
  ua_replace :: bool
  ua_confirm :: bool
  ua_truncate :: bool

definition supported_network :: "network_type_t \<Rightarrow> network_t" where
  "supported_network restriction = (if restriction = NETWORK_TYPE_TEST then NETWORK_BITCOIN_TESTNET else NETWORK_BITCOIN)"

text \<open>Whether the stored record is this wallet's and has the same body.\<close>

definition identical_registration ::
  "'k libwally \<Rightarrow> 'k option \<Rightarrow> 'm nvs_env \<Rightarrow> 'm nvs_state \<Rightarrow> bytes \<Rightarrow> bytes \<Rightarrow> bool option" where
  "identical_registration wl keychain env st multisig_name body = do {
     existing \<leftarrow> storage_get_multisig_registration env multisig_name MAX_MULTISIG_BYTES_LEN st;
     case existing of None \<Rightarrow> Some False | Some existing \<Rightarrow> do {
       existing_body \<leftarrow> multisig_open_registration wl keychain existing MAX_MULTISIG_BODY_LEN;
       Some (existing_body = Some body) } }"

text \<open>From the confirmation to the storage.\<close>

definition persist_multisig ::
  "user_answers \<Rightarrow> 'm nvs_env \<Rightarrow> 'm nvs_state \<Rightarrow> bytes \<Rightarrow> bytes \<Rightarrow> (rpc_result \<times> 'm nvs_state) option" where
  "persist_multisig ui env st multisig_name registration =
     (if \<not> ua_confirm ui then Some (Some (CBOR_RPC_USER_CANCELLED, str ''User declined to register multisig''), st)
      else do {
        (ok, st) \<leftarrow> storage_set_multisig_registration env multisig_name registration st;
        Some (if ok then None else Some (CBOR_RPC_INTERNAL_ERROR, str ''Failed to persist multisig data''), st) })"

definition register_multisig ::
  "'k libwally \<Rightarrow> 'k option \<Rightarrow> (bytes \<Rightarrow> bool option) \<Rightarrow> (nat \<Rightarrow> bytes) \<Rightarrow> bytes \<Rightarrow> bool \<Rightarrow> user_answers \<Rightarrow> 'm nvs_env \<Rightarrow> network_type_t
   \<Rightarrow> bytes \<Rightarrow> network_t \<Rightarrow> script_variant_t \<Rightarrow> bool \<Rightarrow> nat \<Rightarrow> signer_t list \<Rightarrow> bytes option \<Rightarrow> 'm nvs_state
   \<Rightarrow> (rpc_result \<times> 'm nvs_state) option" where
  "register_multisig wl keychain path_features fresh iv malloc_ok ui env restriction
     multisig_name network_id script_variant is_sorted threshold signers master_blinding_key st = do {
     jade_assert (is_multisig script_variant);
     jade_assert (threshold > 0);
     jade_assert (length signers > 0);
     let bad = (\<lambda>msg. Some (Some (CBOR_RPC_BAD_PARAMETERS, msg), st));
     if network_id \<noteq> supported_network restriction then bad (str ''Multisig network does not match device setting'')
     else if blinding_key_len master_blinding_key \<noteq> 0 then bad (str ''Master blinding key not supported on bitcoin network'')
     else if \<not> storage_key_name_valid multisig_name then bad (str ''Invalid multisig name'')
     else if length signers > MAX_ALLOWED_SIGNERS then bad (str ''Invalid multisig co-signers'')
     else if threshold > length signers then bad (str ''Invalid multisig threshold'')
     else do {
       wallet_fingerprint \<leftarrow> wallet_get_fingerprint wl keychain BIP32_KEY_FINGERPRINT_LEN;
       valid \<leftarrow> validate_signers wl keychain path_features signers False wallet_fingerprint;
       case valid of None \<Rightarrow> bad (str ''Failed to validate co-signers'') | Some total_num_path_elements \<Rightarrow> do {
         let body_len = MULTISIG_BODY_LEN (blinding_key_len master_blinding_key) (length signers) total_num_path_elements;
         body \<leftarrow> multisig_body_to_bytes wl script_variant is_sorted threshold master_blinding_key signers total_num_path_elements (fresh body_len);
         sealed \<leftarrow> (case body of None \<Rightarrow> Some None | Some body \<Rightarrow> do {
           (ok, registration) \<leftarrow> multisig_seal_body wl keychain iv body (fresh (REGISTRATION_SEALED_LEN body_len));
           Some (if ok then Some (body, registration) else None) });
         case sealed of None \<Rightarrow> Some (Some (CBOR_RPC_INTERNAL_ERROR, str ''Failed to serialise multisig''), st)
         | Some (body, registration) \<Rightarrow> do {
           overwriting \<leftarrow> storage_multisig_name_exists malloc_ok multisig_name st;
           if overwriting then do {
             identical \<leftarrow> identical_registration wl keychain env st multisig_name body;
             if identical then Some (None, st)
             else do {
               existing \<leftarrow> multisig_load_from_storage wl keychain (fresh MAX_MULTISIG_BODY_LEN) (fresh XPUBS_LEN) env st multisig_name 0;
               if \<not> (case existing of Inl _ \<Rightarrow> False | Inr _ \<Rightarrow> True) \<and> \<not> ua_replace ui
               then Some (Some (CBOR_RPC_USER_CANCELLED, str ''User declined to overwrite multisig''), st)
               else persist_multisig ui env st multisig_name registration } }
           else if storage_get_multisig_registration_count malloc_ok st \<ge> MAX_MULTISIG_REGISTRATIONS
           then bad (str ''Already have maximum number of multisig wallets'')
           else persist_multisig ui env st multisig_name registration } } } }"

section \<open>Lines\<close>

text \<open>\<open>get_next_line\<close> on the first \<open>eof\<close> bytes of \<open>mem\<close>: the limits of the next line that is neither
  empty nor a comment, or \<open>Some None\<close> at the end of the file. \<open>eol\<close> is \<open>None\<close> before the first line.\<close>

definition line_end :: "bytes \<Rightarrow> nat \<Rightarrow> nat \<Rightarrow> nat" where
  "line_end mem eof ptr = (case memchr 10 (take (eof - ptr) (drop ptr mem)) of None \<Rightarrow> eof | Some i \<Rightarrow> ptr + i)"

lemma line_end_ge: "ptr \<le> eof \<Longrightarrow> ptr \<le> line_end mem eof ptr \<and> line_end mem eof ptr \<le> eof"
  by (auto simp: line_end_def split: option.split dest!: memchr_Some)

lemma line_end_progress: "\<not> eof \<le> e \<Longrightarrow> Suc eof - line_end mem eof (Suc e) < Suc eof - e"
  using line_end_ge [of "Suc e" eof mem] by linarith

function get_next_line :: "bytes \<Rightarrow> nat \<Rightarrow> nat \<Rightarrow> nat option \<Rightarrow> (nat \<times> nat) option option" where
  "get_next_line mem eof ptr eol =
     (if (case eol of None \<Rightarrow> False | Some e \<Rightarrow> e \<ge> eof) then Some None
      else
        let ptr = (case eol of None \<Rightarrow> ptr | Some e \<Rightarrow> e + 1);
            e = line_end mem eof ptr in
        if \<not> e \<le> eof then None
        else if ptr \<ge> e \<or> mem ! ptr = chr CHR ''#'' then get_next_line mem eof ptr (Some e)
        else do {
          jade_assert (ptr < e);
          jade_assert (ptr < eof);
          Some (Some (ptr, e)) })"
  by pat_completeness auto
termination
  by (relation "measure (\<lambda>(mem, eof, ptr, eol). case eol of None \<Rightarrow> eof + 2 | Some e \<Rightarrow> eof + 1 - e)")
    (auto simp: line_end_progress split: option.splits)

declare get_next_line.simps [simp del]

text \<open>The skip over the delimiter and white space. It looks at the byte at \<open>eol\<close>, which is the line
  break or, on the last line, the byte after the file.\<close>

function skip_space :: "bytes \<Rightarrow> nat \<Rightarrow> nat \<Rightarrow> nat option" where
  "skip_space mem p eol =
     (if p < eol then do {
        c \<leftarrow> buf_get mem (p + 1);
        if isspace c then skip_space mem (p + 1) eol else Some (p + 1) }
      else Some p)"
  by pat_completeness auto
termination
  by (relation "measure (\<lambda>(mem, p, eol). eol - p)") auto

declare skip_space.simps [simp del]

text \<open>The name length and the value, or false.\<close>

definition split_line :: "bytes \<Rightarrow> nat \<Rightarrow> nat \<Rightarrow> nat \<Rightarrow> (nat \<times> bytes) option option" where
  "split_line mem ptr eol output_len = do {
     jade_assert (output_len > 0);
     jade_assert (ptr < eol);
     case memchr (chr CHR '':'') (take (eol - ptr) (drop ptr mem)) of
       None \<Rightarrow> Some None
     | Some name_len \<Rightarrow>
       if name_len = 0 then Some None
       else do {
         p \<leftarrow> skip_space mem (ptr + name_len) eol;
         let written = eol - p;
         if written = 0 \<or> written \<ge> output_len then Some None
         else Some (Some (name_len, take written (drop p mem))) } }"

section \<open>Fields\<close>

definition MSIG_FILE_NAME :: bytes where "MSIG_FILE_NAME = str ''Name''"
definition MSIG_FILE_FORMAT :: bytes where "MSIG_FILE_FORMAT = str ''Format''"
definition MSIG_FILE_SORTED :: bytes where "MSIG_FILE_SORTED = str ''Sorted''"
definition MSIG_FILE_POLICY :: bytes where "MSIG_FILE_POLICY = str ''Policy''"
definition MSIG_FILE_BLINDING_KEY :: bytes where "MSIG_FILE_BLINDING_KEY = str ''BlindingKey''"
definition MSIG_FILE_DERIVATION :: bytes where "MSIG_FILE_DERIVATION = str ''Derivation''"

lemmas msig_fields = MSIG_FILE_NAME_def MSIG_FILE_FORMAT_def MSIG_FILE_SORTED_def MSIG_FILE_POLICY_def
  MSIG_FILE_BLINDING_KEY_def MSIG_FILE_DERIVATION_def

definition FIELD_NAME :: byte where "FIELD_NAME = 0x1"
definition FIELD_POLICY :: byte where "FIELD_POLICY = 0x2"
definition FIELD_FORMAT :: byte where "FIELD_FORMAT = 0x4"
definition FIELD_SORTED :: byte where "FIELD_SORTED = 0x8"
definition FIELD_DERIVATION :: byte where "FIELD_DERIVATION = 0x20"

lemmas field_flags = FIELD_NAME_def FIELD_POLICY_def FIELD_FORMAT_def FIELD_SORTED_def FIELD_DERIVATION_def

definition have_fields :: "byte \<Rightarrow> byte \<Rightarrow> bool" where
  "have_fields fields_read wanted \<longleftrightarrow> fields_read AND wanted = wanted"

text \<open>The variables of the reader. \<open>isigner\<close> is the number of signers read so far, and
  \<open>mf_allocated\<close> whether the block for them has been allocated.\<close>

record msig_file =
  mf_name :: bytes
  mf_truncated :: bool
  mf_variant :: script_variant_t
  mf_threshold :: nat
  mf_nsigners :: nat
  mf_allocated :: bool
  mf_signers :: "signer_t list"
  mf_sorted :: bool
  mf_path :: "u32 list"
  mf_fields :: byte

definition msig_file_init :: msig_file where
  "msig_file_init = \<lparr> mf_name = [], mf_truncated = False, mf_variant = GREEN, mf_threshold = 0, mf_nsigners = 0,
     mf_allocated = False, mf_signers = [], mf_sorted = True, mf_path = [], mf_fields = 0 \<rparr>"

text \<open>A buffer read as a C string.\<close>

definition cstr :: "bytes \<Rightarrow> bytes" where
  "cstr bs = takeWhile (\<lambda>c. c \<noteq> 0) bs"

definition is_field :: "bytes \<Rightarrow> bytes \<Rightarrow> bool" where
  "is_field field name \<longleftrightarrow> length name = length field \<and> strncasecmp_eq field name (length name)"

text \<open>The handlers of the lines: the new state, or the message of the error.\<close>

definition handle_name :: "bytes \<Rightarrow> msig_file \<Rightarrow> bytes + msig_file" where
  "handle_name val s =
     (if mf_fields s AND FIELD_NAME \<noteq> 0 then Inl (str ''Invalid multisig file'')
      else
        let name = map (\<lambda>c. if isspace c then chr CHR ''_'' else c) (cstr (take (MAX_MULTISIG_NAME_SIZE - 1) val));
            truncated = (mf_truncated s \<or> length val > MAX_MULTISIG_NAME_SIZE - 1) in
        if \<not> storage_key_name_valid name then Inl (str ''Invalid multisig name'')
        else Inr (s \<lparr> mf_name := name, mf_truncated := truncated, mf_fields := mf_fields s OR FIELD_NAME \<rparr>))"

definition handle_policy :: "bytes \<Rightarrow> msig_file \<Rightarrow> (bytes + msig_file) option" where
  "handle_policy val s =
     (if mf_fields s AND FIELD_POLICY \<noteq> 0 then Some (Inl (str ''Invalid multisig file''))
      else case memchr 32 val of
        None \<Rightarrow> Some (Inl (str ''Invalid multisig policy''))
      | Some space1 \<Rightarrow> (case memchr 32 (drop (space1 + 1) val) of
          None \<Rightarrow> Some (Inl (str ''Invalid multisig policy''))
        | Some off \<Rightarrow>
          let space2 = space1 + 1 + off;
              (threshold, end1) = strtoul (take space1 val);
              (nsigners, end2) = strtoul (drop (space2 + 1) val);
              middle = cstr (take off (drop (space1 + 1) val)) in
          if threshold = 0 \<or> nsigners = 0 \<or> threshold > nsigners \<or> unat nsigners > MAX_ALLOWED_SIGNERS \<or> end1 \<noteq> space1
            \<or> space2 + 1 + end2 \<noteq> length val \<or> \<not> strcasecmp_eq middle (str ''of'')
          then Some (Inl (str ''Invalid multisig policy''))
          else do {
            jade_assert (\<not> mf_allocated s);
            Some (Inr (s \<lparr> mf_threshold := unat threshold, mf_nsigners := unat nsigners, mf_allocated := True,
              mf_fields := mf_fields s OR FIELD_POLICY \<rparr>)) }))"

definition handle_format :: "bytes \<Rightarrow> msig_file \<Rightarrow> bytes + msig_file" where
  "handle_format val s =
     (if mf_fields s AND FIELD_FORMAT \<noteq> 0 then Inl (str ''Invalid multisig file'')
      else
        let variant =
          (if strcasecmp_eq (cstr val) (str ''P2WSH'') then Some MULTI_P2WSH
           else if strcasecmp_eq (cstr val) (str ''P2WSH-P2SH'') \<or> strcasecmp_eq (cstr val) (str ''P2SH-P2WSH'') then Some MULTI_P2WSH_P2SH
           else if strcasecmp_eq (cstr val) (str ''P2SH'') then Some MULTI_P2SH
           else None) in
        case variant of None \<Rightarrow> Inl (str ''Invalid multisig format'')
        | Some v \<Rightarrow> Inr (s \<lparr> mf_variant := v, mf_fields := mf_fields s OR FIELD_FORMAT \<rparr>))"

definition handle_sorted :: "bytes \<Rightarrow> msig_file \<Rightarrow> bytes + msig_file" where
  "handle_sorted val s =
     (if mf_fields s AND FIELD_SORTED \<noteq> 0 then Inl (str ''Invalid multisig file'')
      else if strcasecmp_eq (cstr val) (str ''TRUE'') then Inr (s \<lparr> mf_sorted := True, mf_fields := mf_fields s OR FIELD_SORTED \<rparr>)
      else if strcasecmp_eq (cstr val) (str ''FALSE'') then Inr (s \<lparr> mf_sorted := False, mf_fields := mf_fields s OR FIELD_SORTED \<rparr>)
      else Inl (str ''Invalid sorted flag''))"

definition handle_derivation :: "'k libwally \<Rightarrow> bytes \<Rightarrow> msig_file \<Rightarrow> (bytes + msig_file) option" where
  "handle_derivation wl val s = do {
     path \<leftarrow> wallet_bip32_path_from_str wl val MAX_PATH_LEN;
     Some (case path of
       None \<Rightarrow> Inl (str ''Invalid derivation path'')
     | Some path \<Rightarrow> if path = [] then Inl (str ''Invalid derivation path'')
       else Inr (s \<lparr> mf_path := path, mf_fields := mf_fields s OR FIELD_DERIVATION \<rparr>)) }"

definition mandatory_fields :: byte where
  "mandatory_fields = FIELD_NAME OR FIELD_POLICY OR FIELD_FORMAT OR FIELD_DERIVATION"

text \<open>The xpub string of a signer, with the version bytes of the device's network.\<close>

definition signer_xpub :: "'k libwally \<Rightarrow> bytes \<Rightarrow> bytes \<Rightarrow> (bytes + bytes) option" where
  "signer_xpub wl xpub_version val =
     (if length val < 4 \<or> length val \<ge> 120 then Some (Inl (str ''Invalid signer xpub''))
      else case base58_to_bytes wl (cstr val) of
        None \<Rightarrow> Some (Inl (str ''Invalid signer xpub''))
      | Some serialised \<Rightarrow>
        if length serialised \<noteq> BIP32_SERIALIZED_LEN then Some (Inl (str ''Invalid signer xpub''))
        else do {
          prefix_byte \<leftarrow> buf_get serialised (BIP32_SERIALIZED_LEN - EC_PUBLIC_KEY_LEN);
          if prefix_byte \<noteq> 2 \<and> prefix_byte \<noteq> 3 then Some (Inl (str ''Invalid signer xpub''))
          else if take 4 serialised = xpub_version then Some (Inr (cstr val))
          else case base58_from_bytes wl (xpub_version @ drop 4 serialised) of
            None \<Rightarrow> Some (Inl (str ''Invalid signer xpub''))
          | Some xpub \<Rightarrow> do {
              jade_assert (length xpub < 120);
              Some (Inr xpub) } })"

definition handle_signer :: "'k libwally \<Rightarrow> bytes \<Rightarrow> bytes \<Rightarrow> bytes \<Rightarrow> msig_file \<Rightarrow> (bytes + msig_file) option" where
  "handle_signer wl xpub_version name val s =
     (if \<not> have_fields (mf_fields s) mandatory_fields then Some (Inl (str ''Insufficient information records''))
      else if length (mf_signers s) \<ge> mf_nsigners s \<or> mf_nsigners s = 0 then Some (Inl (str ''Invalid number of signers''))
      else do {
        jade_assert (mf_allocated s);
        case hex_to_bytes wl name of
          None \<Rightarrow> Some (Inl (str ''Invalid signer fingerprint''))
        | Some fingerprint \<Rightarrow>
          if length fingerprint \<noteq> BIP32_KEY_FINGERPRINT_LEN then Some (Inl (str ''Invalid signer fingerprint''))
          else if mf_path s = [] \<or> length (mf_path s) > MAX_PATH_LEN then Some (Inl (str ''Derivation path too long''))
          else do {
            xpub \<leftarrow> signer_xpub wl xpub_version val;
            Some (case xpub of
              Inl e \<Rightarrow> Inl e
            | Inr xpub \<Rightarrow> Inr (s \<lparr> mf_signers := mf_signers s @ [\<lparr> sg_fingerprint = fingerprint, sg_derivation = mf_path s,
                sg_xpub = xpub, sg_path = Path_Elems [] \<rparr>] \<rparr>)) } })"

definition handle_line :: "'k libwally \<Rightarrow> bytes \<Rightarrow> bytes \<Rightarrow> bytes \<Rightarrow> msig_file \<Rightarrow> (bytes + msig_file) option" where
  "handle_line wl xpub_version name val s =
     (if is_field MSIG_FILE_NAME name then Some (handle_name val s)
      else if is_field MSIG_FILE_POLICY name then handle_policy val s
      else if is_field MSIG_FILE_FORMAT name then Some (handle_format val s)
      else if is_field MSIG_FILE_SORTED name then Some (handle_sorted val s)
      else if is_field MSIG_FILE_DERIVATION name then handle_derivation wl val s
      else if length name = BIP32_KEY_FINGERPRINT_LEN * 2 then handle_signer wl xpub_version name val s
      else Some (Inl (str ''Invalid multisig file'')))"

text \<open>One line: the blinding key is refused before its value is copied.\<close>

definition process_line :: "'k libwally \<Rightarrow> bytes \<Rightarrow> bytes \<Rightarrow> nat \<Rightarrow> nat \<Rightarrow> msig_file \<Rightarrow> (bytes + msig_file) option" where
  "process_line wl xpub_version mem ptr eol s =
     (if (case memchr (chr CHR '':'') (take (eol - ptr) (drop ptr mem)) of
            None \<Rightarrow> False | Some n \<Rightarrow> is_field MSIG_FILE_BLINDING_KEY (take n (drop ptr mem)))
      then Some (Inl (str ''Master blinding key not supported on bitcoin network''))
      else do {
        r \<leftarrow> split_line mem ptr eol 128;
        case r of None \<Rightarrow> Some (Inl (str ''Invalid multisig file''))
        | Some (name_len, val) \<Rightarrow> handle_line wl xpub_version (take name_len (drop ptr mem)) val s })"

section \<open>The file\<close>

definition lines_left :: "nat \<Rightarrow> nat option \<Rightarrow> nat" where
  "lines_left eof eol = (case eol of None \<Rightarrow> eof + 2 | Some e \<Rightarrow> eof + 1 - e)"

lemma get_next_line_progress:
  "get_next_line mem eof ptr eol = Some (Some (p, e)) \<Longrightarrow> p < e \<and> e \<le> eof \<and> lines_left eof (Some e) < lines_left eof eol"
proof (induction mem eof ptr eol rule: get_next_line.induct)
  case (1 mem eof ptr eol)
  let ?stop = "case eol of None \<Rightarrow> False | Some e \<Rightarrow> e \<ge> eof"
  let ?ptr = "case eol of None \<Rightarrow> ptr | Some e \<Rightarrow> e + 1"
  let ?e = "line_end mem eof ?ptr"
  have ns: "\<not> ?stop" and le: "?e \<le> eof" using "1.prems" by (subst (asm) get_next_line.simps, auto simp: Let_def split: if_splits)+
  have pr: "lines_left eof (Some ?e) < lines_left eof eol"
    using ns line_end_progress [of eof _ mem] by (cases eol) (simp_all add: lines_left_def)
  show ?case
  proof (cases "?ptr \<ge> ?e \<or> mem ! ?ptr = chr CHR ''#''")
    case True
    then have "get_next_line mem eof ?ptr (Some ?e) = Some (Some (p, e))"
      using "1.prems" ns le by (subst (asm) get_next_line.simps) (simp add: Let_def)
    then show ?thesis using "1.IH" [OF ns refl refl _ True] le pr by force
  next
    case False
    then have "p = ?ptr \<and> e = ?e" "?ptr < ?e" using "1.prems" ns le by (subst (asm) get_next_line.simps, auto simp: Let_def)+
    then show ?thesis using le pr by simp
  qed
qed

function parse_lines ::
  "'k libwally \<Rightarrow> bytes \<Rightarrow> bytes \<Rightarrow> nat \<Rightarrow> nat \<Rightarrow> nat option \<Rightarrow> msig_file \<Rightarrow> (bytes + msig_file) option" where
  "parse_lines wl xpub_version mem eof read_ptr eol s = (case get_next_line mem eof read_ptr eol of
     None \<Rightarrow> None
   | Some None \<Rightarrow> Some (Inr s)
   | Some (Some (ptr, e)) \<Rightarrow> (case process_line wl xpub_version mem ptr e s of
       None \<Rightarrow> None
     | Some (Inl errmsg) \<Rightarrow> Some (Inl errmsg)
     | Some (Inr s) \<Rightarrow> parse_lines wl xpub_version mem eof ptr (Some e) s))"
  by pat_completeness auto
termination
  by (relation "measure (\<lambda>(wl, xpub_version, mem, eof, read_ptr, eol, s). lines_left eof eol)")
    (auto dest: get_next_line_progress)

declare parse_lines.simps [simp del]

definition BIP32_VER_MAIN_PUBLIC :: u32 where "BIP32_VER_MAIN_PUBLIC = 0x0488B21E"
definition BIP32_VER_TEST_PUBLIC :: u32 where "BIP32_VER_TEST_PUBLIC = 0x043587CF"

definition network_xpub_version :: "network_type_t \<Rightarrow> bytes" where
  "network_xpub_version restriction =
     uint32_to_be (if restriction = NETWORK_TYPE_TEST then BIP32_VER_TEST_PUBLIC else BIP32_VER_MAIN_PUBLIC)"

definition register_multisig_file ::
  "'k libwally \<Rightarrow> 'k option \<Rightarrow> (bytes \<Rightarrow> bool option) \<Rightarrow> (nat \<Rightarrow> bytes) \<Rightarrow> bytes \<Rightarrow> bool \<Rightarrow> user_answers \<Rightarrow> 'm nvs_env \<Rightarrow> network_type_t
   \<Rightarrow> bytes \<Rightarrow> nat \<Rightarrow> 'm nvs_state \<Rightarrow> (rpc_result \<times> 'm nvs_state) option" where
  "register_multisig_file wl keychain path_features fresh iv malloc_ok ui env restriction mem multisig_file_len st = do {
     jade_assert (multisig_file_len > 0);
     let bad = (\<lambda>msg. Some (Some (CBOR_RPC_BAD_PARAMETERS, msg), st));
     r \<leftarrow> parse_lines wl (network_xpub_version restriction) mem multisig_file_len 0 None msig_file_init;
     case r of Inl errmsg \<Rightarrow> bad errmsg
     | Inr s \<Rightarrow>
       if \<not> have_fields (mf_fields s) mandatory_fields then bad (str ''Insufficient information records'')
       else if length (mf_signers s) \<noteq> mf_nsigners s \<or> mf_nsigners s = 0 then bad (str ''Invalid number of signers'')
       else do {
         (if mf_truncated s then jade_assert (length (mf_name s) = MAX_MULTISIG_NAME_SIZE - 1) else Some ());
         if mf_truncated s \<and> \<not> ua_truncate ui then bad (str ''Invalid multisig name'')
         else register_multisig wl keychain path_features fresh iv malloc_ok ui env restriction (mf_name s)
           (supported_network restriction) (mf_variant s) (mf_sorted s) (mf_threshold s) (mf_signers s) None st } }"

section \<open>The reader ends\<close>

lemma get_next_line_total: "(\<forall>e. eol = Some e \<longrightarrow> e \<le> eof) \<Longrightarrow> ptr \<le> eof \<Longrightarrow> get_next_line mem eof ptr eol \<noteq> None"
proof (induction mem eof ptr eol rule: get_next_line.induct)
  case (1 mem eof ptr eol)
  let ?stop = "case eol of None \<Rightarrow> False | Some e \<Rightarrow> e \<ge> eof"
  let ?ptr = "case eol of None \<Rightarrow> ptr | Some e \<Rightarrow> e + 1"
  let ?e = "line_end mem eof ?ptr"
  show ?case
  proof (cases ?stop)
    case True
    then show ?thesis by (subst get_next_line.simps) simp
  next
    case False
    then have p: "?ptr \<le> eof" using "1.prems" by (cases eol) auto
    have e: "?ptr \<le> ?e" "?e \<le> eof" using line_end_ge [OF p, of mem] by auto
    show ?thesis
    proof (cases "?ptr \<ge> ?e \<or> mem ! ?ptr = chr CHR ''#''")
      case True
      then show ?thesis using "1.IH" [OF False refl refl _ True] False e p by (subst get_next_line.simps) (simp add: Let_def)
    next
      case F: False
      then show ?thesis using False e by (subst get_next_line.simps) (simp add: Let_def)
    qed
  qed
qed

lemma skip_space_total: "eol < length mem \<Longrightarrow> \<exists>p'. skip_space mem p eol = Some p' \<and> p' \<le> max p eol"
proof (induction mem p eol rule: skip_space.induct)
  case (1 mem p eol)
  show ?case
  proof (cases "p < eol")
    case True
    then obtain c where c: "buf_get mem (p + 1) = Some c" using 1(2) by (simp add: buf_get_def)
    show ?thesis
    proof (cases "isspace c")
      case t: True
      have "\<exists>p'. skip_space mem (p + 1) eol = Some p' \<and> p' \<le> max (p + 1) eol" by (rule "1.IH" [OF True c t "1.prems"])
      then show ?thesis using True t c by (subst skip_space.simps) auto
    qed (use True c in \<open>subst skip_space.simps, simp\<close>)
  qed (subst skip_space.simps, simp)
qed

lemma split_line_total: "ptr < eol \<Longrightarrow> eol < length mem \<Longrightarrow> split_line mem ptr eol 128 \<noteq> None"
proof -
  assume l: "ptr < eol" "eol < length mem"
  show ?thesis
  proof (cases "memchr (chr CHR '':'') (take (eol - ptr) (drop ptr mem))")
    case (Some n)
    obtain p where "skip_space mem (ptr + n) eol = Some p" using skip_space_total [OF l(2)] by blast
    then show ?thesis using l Some by (simp add: split_line_def Let_def)
  qed (use l in \<open>simp add: split_line_def\<close>)
qed

text \<open>What holds of the variables of the reader: the block of signers is allocated exactly when the policy
  has been read, the policy is within its limits, the name can be a key of the storage, the format is a
  multisig one, and every signer has a fingerprint and a derivation path.\<close>

definition file_signer_ok :: "signer_t \<Rightarrow> bool" where
  "file_signer_ok g \<longleftrightarrow> length (sg_fingerprint g) = BIP32_KEY_FINGERPRINT_LEN \<and> sg_derivation g \<noteq> [] \<and>
     length (sg_derivation g) \<le> MAX_PATH_LEN \<and> sg_path g = Path_Elems []"

definition msig_inv :: "msig_file \<Rightarrow> bool" where
  "msig_inv s \<longleftrightarrow> (mf_allocated s \<longleftrightarrow> mf_fields s AND FIELD_POLICY \<noteq> 0) \<and>
     (if mf_fields s AND FIELD_POLICY \<noteq> 0
      then 0 < mf_threshold s \<and> mf_threshold s \<le> mf_nsigners s \<and> mf_nsigners s \<le> MAX_ALLOWED_SIGNERS
      else mf_nsigners s = 0) \<and>
     (mf_fields s AND FIELD_NAME \<noteq> 0 \<longrightarrow> storage_key_name_valid (mf_name s)) \<and>
     (mf_fields s AND FIELD_FORMAT \<noteq> 0 \<longrightarrow> is_multisig (mf_variant s)) \<and>
     length (mf_signers s) \<le> mf_nsigners s \<and> list_all file_signer_ok (mf_signers s)"

definition short_strings :: "'k libwally \<Rightarrow> bool" where
  "short_strings wl \<longleftrightarrow> (\<forall>b s. length b = BIP32_SERIALIZED_LEN \<and> base58_from_bytes wl b = Some s \<longrightarrow> length s \<le> 112)"

lemma fields_policy:
  "(f OR FIELD_NAME) AND FIELD_POLICY = f AND FIELD_POLICY" "(f OR FIELD_FORMAT) AND FIELD_POLICY = f AND FIELD_POLICY"
  "(f OR FIELD_SORTED) AND FIELD_POLICY = f AND FIELD_POLICY" "(f OR FIELD_DERIVATION) AND FIELD_POLICY = f AND FIELD_POLICY"
  "(f OR FIELD_POLICY) AND FIELD_POLICY = FIELD_POLICY" "FIELD_POLICY \<noteq> 0"
  by (simp_all add: field_flags bit.conj_disj_distrib2)

lemma fields_name:
  "(f OR FIELD_POLICY) AND FIELD_NAME = f AND FIELD_NAME" "(f OR FIELD_FORMAT) AND FIELD_NAME = f AND FIELD_NAME"
  "(f OR FIELD_SORTED) AND FIELD_NAME = f AND FIELD_NAME" "(f OR FIELD_DERIVATION) AND FIELD_NAME = f AND FIELD_NAME"
  by (simp_all add: field_flags bit.conj_disj_distrib2)

lemma fields_format:
  "(f OR FIELD_POLICY) AND FIELD_FORMAT = f AND FIELD_FORMAT" "(f OR FIELD_NAME) AND FIELD_FORMAT = f AND FIELD_FORMAT"
  "(f OR FIELD_SORTED) AND FIELD_FORMAT = f AND FIELD_FORMAT" "(f OR FIELD_DERIVATION) AND FIELD_FORMAT = f AND FIELD_FORMAT"
  by (simp_all add: field_flags bit.conj_disj_distrib2)

lemmas fields_kept = fields_policy fields_name fields_format

lemma mandatory_policy: "have_fields f mandatory_fields \<Longrightarrow> f AND FIELD_POLICY = FIELD_POLICY"
proof -
  assume "have_fields f mandatory_fields"
  then have "f AND 39 = 39" by (simp add: have_fields_def mandatory_fields_def field_flags)
  moreover have "f AND 2 = (f AND 39) AND 2" by (simp add: and.assoc)
  ultimately show ?thesis by (simp add: FIELD_POLICY_def)
qed

lemma signer_xpub_total:
  assumes "short_strings wl" and "length xpub_version = 4"
  shows "\<exists>r. signer_xpub wl xpub_version val = Some r"
proof (cases "base58_to_bytes wl (cstr val)")
  case (Some b)
  show ?thesis
  proof (cases "length b = BIP32_SERIALIZED_LEN")
    case True
    then obtain c where c: "buf_get b (BIP32_SERIALIZED_LEN - EC_PUBLIC_KEY_LEN) = Some c" by (simp add: buf_get_def wallet_lens)
    have "length x < 120" if "base58_from_bytes wl (xpub_version @ drop 4 b) = Some x" for x
    proof -
      have "length (xpub_version @ drop 4 b) = BIP32_SERIALIZED_LEN" using assms(2) True by (simp add: BIP32_SERIALIZED_LEN_def)
      then have "length x \<le> 112" using that assms(1) unfolding short_strings_def by blast
      then show ?thesis by simp
    qed
    then show ?thesis using Some True c by (simp add: signer_xpub_def split: option.split)
  qed (use Some in \<open>simp add: signer_xpub_def\<close>)
qed (simp add: signer_xpub_def)

lemma handle_policy_total:
  assumes "msig_inv s"
  shows "\<exists>r. handle_policy val s = Some r \<and> (\<forall>s'. r = Inr s' \<longrightarrow> msig_inv s')"
proof (cases "mf_fields s AND FIELD_POLICY \<noteq> 0 \<or> memchr 32 val = None")
  case False
  then obtain i where i: "memchr 32 val = Some i" and f: "mf_fields s AND FIELD_POLICY = 0" by auto
  then have inv: "\<not> mf_allocated s" "mf_nsigners s = 0" "mf_signers s = []" using assms by (auto simp: msig_inv_def)
  show ?thesis
  proof (cases "memchr 32 (drop (i + 1) val)")
    case (Some j)
    show ?thesis
      using assms inv i f Some
      by (auto simp: handle_policy_def Let_def split_def msig_inv_def fields_kept word_less_nat_alt word_le_nat_alt unat_gt_0)
  qed (use i f in \<open>simp add: handle_policy_def\<close>)
qed (auto simp: handle_policy_def)

lemma handle_format_Inr:
  assumes "handle_format val s = Inr s'"
  shows "\<exists>v. is_multisig v \<and> s' = s \<lparr> mf_variant := v, mf_fields := mf_fields s OR FIELD_FORMAT \<rparr>"
  using assms by (auto simp: handle_format_def Let_def is_multisig_def split: if_splits)

lemma handle_signer_Inr:
  assumes "handle_signer wl xpub_version name val s = Some (Inr s')"
  shows "length (mf_signers s) < mf_nsigners s \<and> (\<exists>g. file_signer_ok g \<and> s' = s \<lparr> mf_signers := mf_signers s @ [g] \<rparr>)"
proof -
  obtain f x where s: "length (mf_signers s) < mf_nsigners s" "length f = BIP32_KEY_FINGERPRINT_LEN" "mf_path s \<noteq> []"
      "length (mf_path s) \<le> MAX_PATH_LEN"
      "s' = s \<lparr> mf_signers := mf_signers s @ [\<lparr> sg_fingerprint = f, sg_derivation = mf_path s, sg_xpub = x, sg_path = Path_Elems [] \<rparr>] \<rparr>"
    using assms by (auto simp: handle_signer_def split: if_splits option.splits sum.splits Option.bind_splits)
  then have "file_signer_ok \<lparr> sg_fingerprint = f, sg_derivation = mf_path s, sg_xpub = x, sg_path = Path_Elems [] \<rparr>"
    by (simp add: file_signer_ok_def)
  then show ?thesis using s(1,5) by blast
qed

lemma handle_signer_total:
  assumes "msig_inv s" and "short_strings wl" and "length xpub_version = 4"
  shows "\<exists>r. handle_signer wl xpub_version name val s = Some r \<and> (\<forall>s'. r = Inr s' \<longrightarrow> msig_inv s')"
proof -
  have "have_fields (mf_fields s) mandatory_fields \<Longrightarrow> mf_allocated s"
    using assms(1) mandatory_policy [of "mf_fields s"] by (simp add: msig_inv_def fields_policy)
  then have "handle_signer wl xpub_version name val s \<noteq> None"
    using signer_xpub_total [OF assms(2,3), of val] by (auto simp: handle_signer_def split: option.split)
  moreover have "msig_inv s'" if "handle_signer wl xpub_version name val s = Some (Inr s')" for s'
    using handle_signer_Inr [OF that] assms(1) by (auto simp: msig_inv_def)
  ultimately show ?thesis by blast
qed

lemma handle_line_total:
  assumes "msig_inv s" and "short_strings wl" and "length xpub_version = 4"
  shows "\<exists>r. handle_line wl xpub_version name val s = Some r \<and> (\<forall>s'. r = Inr s' \<longrightarrow> msig_inv s')"
proof -
  note inv = assms(1) [unfolded msig_inv_def]
  have n: "\<forall>s'. handle_name val s = Inr s' \<longrightarrow> msig_inv s'"
    using inv by (simp add: handle_name_def msig_inv_def Let_def fields_kept)
  have f: "\<forall>s'. handle_format val s = Inr s' \<longrightarrow> msig_inv s'"
    using inv by (auto simp: msig_inv_def fields_kept dest!: handle_format_Inr)
  have o: "\<forall>s'. handle_sorted val s = Inr s' \<longrightarrow> msig_inv s'"
    using inv by (auto simp: handle_sorted_def msig_inv_def fields_kept split: if_splits)
  have d: "\<exists>r. handle_derivation wl val s = Some r \<and> (\<forall>s'. r = Inr s' \<longrightarrow> msig_inv s')"
    using inv
    by (auto simp: handle_derivation_def wallet_bip32_path_from_str_def MAX_PATH_LEN_def msig_inv_def fields_kept split: option.split)
  have p: "\<exists>r. handle_policy val s = Some r \<and> (\<forall>s'. r = Inr s' \<longrightarrow> msig_inv s')"
    by (rule handle_policy_total [OF assms(1)])
  have g: "\<exists>r. handle_signer wl xpub_version name val s = Some r \<and> (\<forall>s'. r = Inr s' \<longrightarrow> msig_inv s')"
    by (rule handle_signer_total [OF assms])
  show ?thesis using n f o d p g by (auto simp: handle_line_def)
qed

lemma process_line_total:
  assumes "msig_inv s" and "short_strings wl" and "length xpub_version = 4" and "ptr < eol" and "eol < length mem"
  shows "\<exists>r. process_line wl xpub_version mem ptr eol s = Some r \<and> (\<forall>s'. r = Inr s' \<longrightarrow> msig_inv s')"
proof -
  obtain r where "split_line mem ptr eol 128 = Some r" using split_line_total [OF assms(4,5)] by blast
  then show ?thesis
    using handle_line_total [OF assms(1-3)] by (auto simp: process_line_def split: option.split)
qed

lemma parse_lines_total:
  assumes "short_strings wl" and "length xpub_version = 4" and "eof < length mem"
  shows "msig_inv s \<Longrightarrow> ptr \<le> eof \<Longrightarrow> (\<forall>e. eol = Some e \<longrightarrow> e \<le> eof) \<Longrightarrow> \<exists>r. parse_lines wl xpub_version mem eof ptr eol s = Some r \<and> (\<forall>s'. r = Inr s' \<longrightarrow> msig_inv s')"
  using assms
proof (induction wl xpub_version mem eof ptr eol s rule: parse_lines.induct)
  case (1 wl xpub_version mem eof ptr eol s)
  obtain g where g: "get_next_line mem eof ptr eol = Some g" using get_next_line_total [OF 1(4,3)] by blast
  show ?case
  proof (cases g)
    case None
    then show ?thesis using g "1.prems"(1) by (subst parse_lines.simps) simp
  next
    case (Some pe)
    then obtain p e where pe: "g = Some (p, e)" by (cases pe) simp
    then have l: "p < e" "e \<le> eof" using get_next_line_progress [of mem eof ptr eol p e] g by simp_all
    obtain r where r: "process_line wl xpub_version mem p e s = Some r" "\<forall>s'. r = Inr s' \<longrightarrow> msig_inv s'"
      using process_line_total [OF "1.prems"(1,4,5) l(1)] l(2) "1.prems"(6) by force
    show ?thesis
    proof (cases r)
      case (Inl e')
      then show ?thesis using g pe r by (subst parse_lines.simps) simp
    next
      case (Inr s')
      then have "\<exists>r. parse_lines wl xpub_version mem eof p (Some e) s' = Some r \<and> (\<forall>s'. r = Inr s' \<longrightarrow> msig_inv s')"
        using "1.IH" [of "Some (p, e)" "(p, e)" p e "Inr s'" s'] g pe r l "1.prems" by simp
      then show ?thesis using g pe r Inr by (subst parse_lines.simps) simp
    qed
  qed
qed

section \<open>A file as a list of lines\<close>

text \<open>The abstract view of a file: its lines as pairs of name and value, handled in order.\<close>

fun run_lines :: "'k libwally \<Rightarrow> bytes \<Rightarrow> msig_file \<Rightarrow> (bytes \<times> bytes) list \<Rightarrow> (bytes + msig_file) option" where
  "run_lines wl xpub_version s [] = Some (Inr s)"
| "run_lines wl xpub_version s ((name, val) # ls) = (case handle_line wl xpub_version name val s of
     None \<Rightarrow> None | Some (Inl e) \<Rightarrow> Some (Inl e) | Some (Inr s') \<Rightarrow> run_lines wl xpub_version s' ls)"

definition line_text :: "bytes \<times> bytes \<Rightarrow> bytes" where
  "line_text l = fst l @ [58, 32] @ snd l @ [10]"

definition line_ok :: "bytes \<times> bytes \<Rightarrow> bool" where
  "line_ok l \<longleftrightarrow> fst l \<noteq> [] \<and> hd (fst l) \<noteq> chr CHR ''#'' \<and> 58 \<notin> set (fst l) \<and> 10 \<notin> set (fst l) \<and>
     \<not> is_field MSIG_FILE_BLINDING_KEY (fst l) \<and>
     snd l \<noteq> [] \<and> \<not> isspace (hd (snd l)) \<and> 10 \<notin> set (snd l) \<and> length (snd l) < 128"

text \<open>The cursor of the reader in front of the byte at \<open>p\<close>.\<close>

definition cursor_at :: "nat \<Rightarrow> nat \<Rightarrow> nat option \<Rightarrow> bool" where
  "cursor_at p ptr eol \<longleftrightarrow> (eol = None \<and> ptr = p \<or> (\<exists>e. eol = Some e \<and> Suc e = p))"

lemma line_end_at:
  assumes "10 \<notin> set l" and "length pre + length l < eof"
  shows "line_end (pre @ l @ 10 # rest) eof (length pre) = length pre + length l"
proof -
  have "take (eof - length pre) (l @ 10 # rest) = l @ 10 # take (eof - length pre - length l - 1) rest"
    using assms(2) by (cases "eof - length pre - length l") (simp_all add: take_Cons')
  then show ?thesis using memchr_append [OF assms(1)] by (simp add: line_end_def)
qed

lemma get_next_line_at:
  assumes "cursor_at (length pre) ptr eol" and "10 \<notin> set l" and "l \<noteq> []" and "length pre + length l < eof"
  shows "get_next_line (pre @ l @ 10 # rest) eof ptr eol =
    (if hd l = chr CHR ''#'' then get_next_line (pre @ l @ 10 # rest) eof (length pre) (Some (length pre + length l))
     else Some (Some (length pre, length pre + length l)))"
proof -
  let ?mem = "pre @ l @ 10 # rest"
  have stop: "\<not> (case eol of None \<Rightarrow> False | Some e \<Rightarrow> e \<ge> eof)" using assms(1,4) by (auto simp: cursor_at_def)
  have p: "(case eol of None \<Rightarrow> ptr | Some e \<Rightarrow> e + 1) = length pre" using assms(1) by (auto simp: cursor_at_def)
  have e: "line_end ?mem eof (length pre) = length pre + length l" by (rule line_end_at [OF assms(2,4)])
  have h: "?mem ! length pre = hd l" using assms(3) by (simp add: nth_append hd_conv_nth)
  have l0: "length l \<noteq> 0" using assms(3) by simp
  show ?thesis
    by (subst get_next_line.simps) (use assms(4) stop l0 in \<open>simp add: Let_def p [simplified] e h\<close>)
qed

lemma get_next_line_end:
  assumes "cursor_at eof ptr eol" and "length pre = eof"
  shows "get_next_line (pre @ rest) eof ptr eol = Some None"
proof -
  have e: "line_end (pre @ rest) eof eof = eof" by (simp add: line_end_def)
  have 2: "get_next_line (pre @ rest) eof eof (Some eof) = Some None" by (subst get_next_line.simps) simp
  show ?thesis
  proof (cases eol)
    case None
    then show ?thesis using assms e 2 by (subst get_next_line.simps) (auto simp: cursor_at_def Let_def)
  next
    case (Some x)
    then show ?thesis using assms e 2 by (subst get_next_line.simps) (auto simp: cursor_at_def Let_def)
  qed
qed

lemma split_line_at:
  assumes "58 \<notin> set name" and "name \<noteq> []" and "val \<noteq> []" and "\<not> isspace (hd val)" and "length val < 128"
  shows "split_line (pre @ name @ [58, 32] @ val @ 10 # rest) (length pre) (length pre + length (name @ [58, 32] @ val)) 128
    = Some (Some (length name, val))"
proof -
  let ?mem = "pre @ name @ [58, 32] @ val @ 10 # rest" and ?eol = "length pre + length (name @ [58, 32] @ val)"
  have m: "memchr (chr CHR '':'') (take (?eol - length pre) (drop (length pre) ?mem)) = Some (length name)"
    using memchr_append [OF assms(1), of "32 # val"] by (simp add: chr_def)
  let ?p = "length pre + length name"
  have c1: "buf_get ?mem (?p + 1) = Some 32"
    using buf_get_at [of "?p + 1" "pre @ name @ [58]" 32 "val @ 10 # rest"] by simp
  obtain v vs where v: "val = v # vs" using assms(3) by (cases val) simp_all
  have c2: "buf_get ?mem (?p + 2) = Some v"
    using buf_get_at [of "?p + 2" "pre @ name @ [58, 32]" v "vs @ 10 # rest"] v by simp
  have "skip_space ?mem (Suc ?p) ?eol = Some (?p + 2)"
    using c2 assms(4) v by (subst skip_space.simps) simp
  then have sk: "skip_space ?mem ?p ?eol = Some (?p + 2)"
    using c1 v by (subst skip_space.simps) (simp add: isspace_def)
  have "drop (?p + 2) ?mem = val @ 10 # rest" by simp
  then show ?thesis
    unfolding split_line_def m using assms(2,3,5) sk by (simp add: Let_def)
qed

lemma process_line_at:
  assumes "line_ok (name, val)"
  shows "process_line wl xpub_version (pre @ line_text (name, val) @ rest) (length pre) (length pre + length (name @ [58, 32] @ val)) s
    = handle_line wl xpub_version name val s"
proof -
  let ?mem = "pre @ line_text (name, val) @ rest" and ?eol = "length pre + length (name @ [58, 32] @ val)"
  have mem: "?mem = pre @ name @ [58, 32] @ val @ 10 # rest" by (simp add: line_text_def)
  have ok: "58 \<notin> set name" "name \<noteq> []" "val \<noteq> []" "\<not> isspace (hd val)" "length val < 128" "\<not> is_field MSIG_FILE_BLINDING_KEY name"
    using assms by (simp_all add: line_ok_def)
  have m: "memchr (chr CHR '':'') (take (?eol - length pre) (drop (length pre) ?mem)) = Some (length name)"
    unfolding mem using memchr_append [OF ok(1), of "32 # val"] by (simp add: chr_def)
  have n: "take (length name) (drop (length pre) ?mem) = name" by (simp add: mem)
  have s: "split_line ?mem (length pre) ?eol 128 = Some (Some (length name, val))"
    unfolding mem by (rule split_line_at [OF ok(1-5)])
  show ?thesis unfolding process_line_def m option.case n s using ok(6) n by simp
qed

lemma parse_lines_run:
  assumes "list_all line_ok ls" and "cursor_at (length pre) ptr eol"
    and "eof = length pre + length (concat (map line_text ls))"
  shows "parse_lines wl xpub_version (pre @ concat (map line_text ls) @ rest) eof ptr eol s = run_lines wl xpub_version s ls"
  using assms
proof (induction ls arbitrary: pre ptr eol s)
  case Nil
  then have "cursor_at eof ptr eol" "length pre = eof" by simp_all
  from get_next_line_end [OF this, of rest] have "get_next_line (pre @ rest) eof ptr eol = Some None" .
  then show ?case unfolding parse_lines.simps [of _ _ _ eof ptr] by simp
next
  case (Cons l ls)
  obtain name val where l: "l = (name, val)" by (metis prod.exhaust)
  have ok: "line_ok (name, val)" using Cons.prems(1) l by simp
  let ?body = "name @ [58, 32] @ val"
  let ?rest = "concat (map line_text ls) @ rest"
  let ?mem = "pre @ line_text l @ ?rest"
  have mem: "?mem = pre @ ?body @ 10 # ?rest" by (simp add: l line_text_def)
  have nl: "10 \<notin> set ?body" "?body \<noteq> []" "hd ?body \<noteq> chr CHR ''#''" using ok by (auto simp: line_ok_def)
  have len: "length pre + length ?body < eof" using Cons.prems(3) by (simp add: l line_text_def)
  have g: "get_next_line ?mem eof ptr eol = Some (Some (length pre, length pre + length ?body))"
    unfolding mem using get_next_line_at [OF Cons.prems(2) nl(1,2) len, of ?rest] nl(3) by simp
  have p: "process_line wl xpub_version ?mem (length pre) (length pre + length ?body) s = handle_line wl xpub_version name val s"
    unfolding l by (rule process_line_at [OF ok])
  have ih: "parse_lines wl xpub_version ?mem eof (length pre) (Some (length pre + length ?body)) s' = run_lines wl xpub_version s' ls" for s'
  proof -
    have "cursor_at (length (pre @ line_text l)) (length pre) (Some (length pre + length ?body))"
      by (simp add: cursor_at_def l line_text_def)
    from Cons.IH [OF _ this, of s'] show ?thesis using Cons.prems by simp
  qed
  show ?case
    using g p ih by (subst parse_lines.simps) (simp add: l split: option.split sum.split)
qed

section \<open>Properties\<close>

lemma msig_inv_init: "msig_inv msig_file_init"
  by (simp add: msig_inv_def msig_file_init_def)

lemma length_xpub_version [simp]: "length (network_xpub_version restriction) = 4"
  by (simp add: network_xpub_version_def)

lemma demo_short: "short_strings demo_wally"
  by (simp add: short_strings_def demo_wally_def)

text \<open>C36. The reader of multisig files comes to an end on every file, however hostile: when at least
  one byte is readable behind the file, it never aborts and never reads out of bounds, and it
  returns either an error message or variables in which the policy is within its limits, the name can
  be stored, the format is a multisig one and no more signers were read than the policy announced.\<close>

theorem multisig_file_reader_returns:
  assumes "short_strings wl" and "multisig_file_len < length mem"
  shows "\<exists>r. parse_lines wl (network_xpub_version restriction) mem multisig_file_len 0 None msig_file_init = Some r \<and>
    (\<forall>s. r = Inr s \<longrightarrow> msig_inv s)"
  by (rule parse_lines_total [OF assms(1) _ assms(2) msig_inv_init]) simp_all

theorem multisig_file_reader_returns_witness:
  "\<exists>r. parse_lines demo_wally (network_xpub_version NETWORK_TYPE_MAIN) (str ''Policy: 9 of 1'' @ [0]) 14 0 None msig_file_init = Some r \<and>
    (\<forall>s. r = Inr s \<longrightarrow> msig_inv s)"
  by (rule multisig_file_reader_returns [OF demo_short]) simp

text \<open>The byte behind the file is needed: the skip over white space reads it when the last line ends
  in a colon.\<close>

lemma split_line_reads_behind_file: "split_line (str ''Name:'') 0 5 128 = None"
  by code_simp

section \<open>Lines that are read as they were meant\<close>

lemma space_not_decimal: "32 \<notin> set (decimal n)"
  using decimal_is_digit [of n] by (auto simp: list_all_iff is_digit_def chr_def)

lemma handle_policy_ok:
  assumes "mf_fields s AND FIELD_POLICY = 0" and "\<not> mf_allocated s"
    and "0 < threshold" and "threshold \<le> nsigners" and "nsigners \<le> MAX_ALLOWED_SIGNERS"
  shows "handle_policy (decimal threshold @ str '' of '' @ decimal nsigners) s =
    Some (Inr (s \<lparr> mf_threshold := threshold, mf_nsigners := nsigners, mf_allocated := True, mf_fields := mf_fields s OR FIELD_POLICY \<rparr>))"
proof -
  let ?d = "decimal threshold" and ?n = "decimal nsigners"
  let ?val = "?d @ 32 # str ''of'' @ 32 # ?n"
  have l: "threshold < 2 ^ 64" "nsigners < 2 ^ 64" using assms(4,5) by (simp_all add: MAX_ALLOWED_SIGNERS_def)
  have val: "?d @ str '' of '' @ ?n = ?val" by (simp add: chr_def)
  have m1: "memchr 32 ?val = Some (length ?d)" by (rule memchr_append [OF space_not_decimal])
  have dr: "drop (length ?d + 1) ?val = str ''of'' @ 32 # ?n" by simp
  have of: "32 \<notin> set (str ''of'')" "length (str ''of'') = 2" by (simp_all add: chr_def)
  have m2: "memchr 32 (drop (length ?d + 1) ?val) = Some 2"
    unfolding dr using memchr_append [OF of(1), of ?n] of(2) by simp
  have t1: "strtoul (take (length ?d) ?val) = (of_nat threshold, length ?d)"
    using strtoul_decimal [of threshold "[]"] l by simp
  have t2: "strtoul (drop (length ?d + 1 + 2 + 1) ?val) = (of_nat nsigners, length ?n)"
    using strtoul_decimal [of nsigners "[]"] l by (simp add: chr_def)
  have o: "strcasecmp_eq (cstr (take 2 (drop (length ?d + 1) ?val))) (str ''of'')"
    unfolding dr by (simp add: cstr_def strcasecmp_eq_def chr_def)
  have u: "unat (of_nat threshold :: u64) = threshold" "unat (of_nat nsigners :: u64) = nsigners"
    using l by (simp_all add: unat_of_nat take_bit_nat_eq_self)
  have w: "(of_nat threshold :: u64) \<noteq> 0" "(of_nat nsigners :: u64) \<noteq> 0" "\<not> (of_nat threshold :: u64) > of_nat nsigners"
    using assms(3,4) u by (metis unat_0 less_irrefl, metis unat_0 le_zero_eq less_irrefl, simp add: word_less_nat_alt)
  have e: "length ?d + 1 + 2 + 1 + length ?n = length ?val" by simp
  show ?thesis
    unfolding val handle_policy_def m1 option.case m2 Let_def t1 t2 prod.case u
    using assms w o e by simp
qed

lemma cstr_id: "0 \<notin> set bs \<Longrightarrow> cstr bs = bs"
  by (auto simp: cstr_def takeWhile_eq_all_conv)

lemma name_chars: "storage_key_name_valid name \<Longrightarrow> name \<noteq> [] \<and> (\<forall>c\<in>set name. 33 \<le> unat c)"
  unfolding storage_key_name_valid_def key_name_valid_loop_iff
  by (auto simp: list_all_iff isgraph_def word_le_nat_alt)

lemma printable_not_space: "33 \<le> unat c \<Longrightarrow> \<not> isspace c"
  by (auto simp: isspace_def word_le_nat_alt)

lemma handle_name_ok:
  assumes "mf_fields s AND FIELD_NAME = 0" and "storage_key_name_valid name" and "length name < MAX_MULTISIG_NAME_SIZE"
  shows "handle_name name s = Inr (s \<lparr> mf_name := name, mf_fields := mf_fields s OR FIELD_NAME \<rparr>)"
proof -
  have c: "0 \<notin> set name" using name_chars [OF assms(2)] by force
  have t: "take (MAX_MULTISIG_NAME_SIZE - 1) name = name" "\<not> length name > MAX_MULTISIG_NAME_SIZE - 1" using assms(3) by simp_all
  have m: "map (\<lambda>c. if isspace c then chr CHR ''_'' else c) name = name"
    using name_chars [OF assms(2)] by (intro map_idI) (simp add: printable_not_space)
  show ?thesis
    unfolding handle_name_def t cstr_id [OF c] m Let_def using assms(1,2) t(2) by simp
qed

lemma handle_derivation_ok:
  assumes "bip32_path_from_str wl val = Some path" and "path \<noteq> []" and "length path \<le> MAX_PATH_LEN"
  shows "handle_derivation wl val s = Some (Inr (s \<lparr> mf_path := path, mf_fields := mf_fields s OR FIELD_DERIVATION \<rparr>))"
  using assms by (simp add: handle_derivation_def wallet_bip32_path_from_str_def MAX_PATH_LEN_def)

text \<open>An xpub of the device's own network, as a string that the reader takes as it is.\<close>

definition native_xpub :: "'k libwally \<Rightarrow> bytes \<Rightarrow> bytes \<Rightarrow> bool" where
  "native_xpub wl xpub_version xpub \<longleftrightarrow> (\<exists>b. base58_to_bytes wl xpub = Some b \<and> length b = BIP32_SERIALIZED_LEN \<and>
     (b ! 45 = 2 \<or> b ! 45 = 3) \<and> take 4 b = xpub_version) \<and> 4 \<le> length xpub \<and> length xpub \<le> 112 \<and> (\<forall>c\<in>set xpub. 48 \<le> unat c)"

lemma signer_xpub_ok: "native_xpub wl xpub_version xpub \<Longrightarrow> signer_xpub wl xpub_version xpub = Some (Inr xpub)"
proof -
  assume n: "native_xpub wl xpub_version xpub"
  then have "0 \<notin> set xpub" by (force simp: native_xpub_def)
  then show ?thesis using n by (auto simp: signer_xpub_def native_xpub_def cstr_id buf_get_def wallet_lens)
qed

lemma handle_signer_ok:
  assumes "msig_inv s" and "have_fields (mf_fields s) mandatory_fields" and "length (mf_signers s) < mf_nsigners s"
    and "hex_to_bytes wl name = Some fingerprint" and "length fingerprint = BIP32_KEY_FINGERPRINT_LEN"
    and "mf_path s \<noteq> []" and "length (mf_path s) \<le> MAX_PATH_LEN" and "native_xpub wl xpub_version xpub"
  shows "handle_signer wl xpub_version name xpub s = Some (Inr (s \<lparr> mf_signers := mf_signers s @
    [\<lparr> sg_fingerprint = fingerprint, sg_derivation = mf_path s, sg_xpub = xpub, sg_path = Path_Elems [] \<rparr>] \<rparr>))"
  using assms signer_xpub_ok [OF assms(8)] mandatory_policy [OF assms(2)]
  by (simp add: handle_signer_def msig_inv_def fields_policy)

lemma parse_comment:
  assumes "10 \<notin> set l" and "l \<noteq> []" and "hd l = chr CHR ''#''" and "length l < eof"
  shows "parse_lines wl xpub_version (l @ 10 # rest) eof 0 None s = parse_lines wl xpub_version (l @ 10 # rest) eof 0 (Some (length l)) s"
proof -
  have "get_next_line (l @ 10 # rest) eof 0 None = get_next_line (l @ 10 # rest) eof 0 (Some (length l))"
    using get_next_line_at [of "[]" 0 None l eof rest] assms by (simp add: cursor_at_def)
  then show ?thesis
    unfolding parse_lines.simps [of wl xpub_version _ eof 0 None] parse_lines.simps [of wl xpub_version _ eof 0 "Some (length l)"] by simp
qed

lemma is_field_length: "is_field field name \<Longrightarrow> length name = length field"
  by (simp add: is_field_def)

lemma is_field_self [simp]: "is_field field field"
proof -
  have "strncasecmp_eq xs xs n" for xs n
  proof (induction xs arbitrary: n)
    case Nil
    then show ?case by (cases n) simp_all
  next
    case (Cons x xs)
    then show ?case by (cases n) simp_all
  qed
  then show ?thesis by (simp add: is_field_def)
qed

lemma length_msig_fields:
  "length MSIG_FILE_NAME = 4" "length MSIG_FILE_POLICY = 6" "length MSIG_FILE_FORMAT = 6" "length MSIG_FILE_SORTED = 6"
  "length MSIG_FILE_DERIVATION = 10" "length MSIG_FILE_BLINDING_KEY = 11"
  by (simp_all add: msig_fields)

lemma other_fields:
  "\<not> is_field MSIG_FILE_POLICY MSIG_FILE_FORMAT" "\<not> is_field MSIG_FILE_POLICY MSIG_FILE_SORTED" "\<not> is_field MSIG_FILE_FORMAT MSIG_FILE_SORTED"
  by code_simp+

lemma handle_lines:
  "handle_line wl xpub_version MSIG_FILE_NAME val s = Some (handle_name val s)"
  "handle_line wl xpub_version MSIG_FILE_POLICY val s = handle_policy val s"
  "handle_line wl xpub_version MSIG_FILE_FORMAT val s = Some (handle_format val s)"
  "handle_line wl xpub_version MSIG_FILE_SORTED val s = Some (handle_sorted val s)"
  "handle_line wl xpub_version MSIG_FILE_DERIVATION val s = handle_derivation wl val s"
  "length name = 8 \<Longrightarrow> handle_line wl xpub_version name val s = handle_signer wl xpub_version name val s"
  by (auto simp: handle_line_def other_fields length_msig_fields BIP32_KEY_FINGERPRINT_LEN_def dest!: is_field_length)

lemma line_ok_field:
  assumes "name \<in> {MSIG_FILE_NAME, MSIG_FILE_POLICY, MSIG_FILE_FORMAT, MSIG_FILE_SORTED, MSIG_FILE_DERIVATION}"
    and "val \<noteq> []" and "\<not> isspace (hd val)" and "10 \<notin> set val" and "length val < 128"
  shows "line_ok (name, val)"
proof -
  have "name \<noteq> []" "hd name \<noteq> chr CHR ''#''" "58 \<notin> set name" "10 \<notin> set name"
    using assms(1) by (auto simp: msig_fields chr_def)
  moreover have "\<not> is_field MSIG_FILE_BLINDING_KEY name"
    using assms(1) by (auto simp: length_msig_fields dest!: is_field_length)
  ultimately show ?thesis using assms by (simp add: line_ok_def)
qed

text \<open>A name line of more than fifteen bytes with a NUL in it: the name ends at the NUL while the flag
  for a truncated name is set, and the assertion on its length stops the device.\<close>

definition nul_name_file :: bytes where
  "nul_name_file = concat (map line_text [(MSIG_FILE_NAME, str ''ab'' @ [0] @ str ''cdefghijklmnop''), (MSIG_FILE_POLICY, str ''1 of 1''),
     (MSIG_FILE_FORMAT, str ''P2WSH''), (MSIG_FILE_DERIVATION, path_text [0x80000030]), (str ''07070707'', str ''xpubA'')])"

lemma multisig_name_nul_aborts:
  "register_multisig_file demo_wally keychain path_features fresh iv malloc_ok ui env NETWORK_TYPE_MAIN
     (nul_name_file @ [0]) (length nul_name_file) st = None"
proof -
  let ?ls = "[(MSIG_FILE_NAME, str ''ab'' @ [0] @ str ''cdefghijklmnop''), (MSIG_FILE_POLICY, str ''1 of 1''),
     (MSIG_FILE_FORMAT, str ''P2WSH''), (MSIG_FILE_DERIVATION, path_text [0x80000030]), (str ''07070707'', str ''xpubA'')]"
  let ?r = "run_lines demo_wally (network_xpub_version NETWORK_TYPE_MAIN) msig_file_init ?ls"
  have ok: "list_all line_ok ?ls" by code_simp
  let ?v = "network_xpub_version NETWORK_TYPE_MAIN"
  let ?s1 = "msig_file_init \<lparr> mf_name := str ''ab'', mf_truncated := True, mf_fields := FIELD_NAME \<rparr>"
  let ?s2 = "?s1 \<lparr> mf_threshold := 1, mf_nsigners := 1, mf_allocated := True, mf_fields := FIELD_NAME OR FIELD_POLICY \<rparr>"
  let ?s3 = "?s2 \<lparr> mf_variant := MULTI_P2WSH, mf_fields := FIELD_NAME OR FIELD_POLICY OR FIELD_FORMAT \<rparr>"
  let ?s4 = "?s3 \<lparr> mf_path := [0x80000030], mf_fields := mandatory_fields \<rparr>"
  have n1: "handle_name (str ''ab'' @ [0] @ str ''cdefghijklmnop'') msig_file_init = Inr ?s1" by code_simp
  have n2: "handle_policy (str ''1 of 1'') ?s1 = Some (Inr ?s2)"
    using handle_policy_ok [of ?s1 1 1] by (simp add: MAX_ALLOWED_SIGNERS_def field_flags decimal.simps [of "Suc 0"] chr_def msig_file_init_def)
  have n3: "handle_format (str ''P2WSH'') ?s2 = Inr ?s3" by code_simp
  have n4: "handle_derivation demo_wally (path_text [0x80000030]) ?s3 = Some (Inr ?s4)"
    using handle_derivation_ok [of demo_wally "path_text [0x80000030]" "[0x80000030]" ?s3]
    by (simp add: demo_wally_def MAX_PATH_LEN_def mandatory_fields_def field_flags)
  have n5: "handle_signer demo_wally ?v (str ''07070707'') (str ''xpubA'') ?s4 = Some (Inr (?s4 \<lparr> mf_signers := [demo_signer] \<rparr>))"
    by code_simp
  have n6: "handle_line demo_wally ?v (str ''07070707'') (str ''xpubA'') ?s4 = handle_signer demo_wally ?v (str ''07070707'') (str ''xpubA'') ?s4"
    by (rule handle_lines(6)) simp
  have r: "?r = Some (Inr (?s4 \<lparr> mf_signers := [demo_signer] \<rparr>))"
    by (simp only: run_lines.simps handle_lines(1-5) n1 n2 n3 n4 n6 n5 option.case sum.case)
  have "parse_lines demo_wally (network_xpub_version NETWORK_TYPE_MAIN) (nul_name_file @ [0]) (length nul_name_file) 0 None msig_file_init = ?r"
    using parse_lines_run [OF ok, of "[]" 0 None "length nul_name_file" demo_wally _ "[0]" msig_file_init]
    by (simp add: nul_name_file_def cursor_at_def)
  then have p: "parse_lines demo_wally ?v (nul_name_file @ [0]) (length nul_name_file) 0 None msig_file_init
      = Some (Inr (?s4 \<lparr> mf_signers := [demo_signer] \<rparr>))" unfolding r .
  have h: "have_fields mandatory_fields mandatory_fields" by code_simp
  show ?thesis
    unfolding register_multisig_file_def p using h
    by (cases "length nul_name_file > 0") (simp_all add: Let_def MAX_MULTISIG_NAME_SIZE_def msig_file_init_def jade_assert_def)
qed

end
