(* ===== verification/Shift_Register.thy ===== *)
theory Shift_Register
  imports Checksum
begin

text \<open>
  The step function that the checksums of the device have in common: a register of \<open>n\<close> bits is shifted by as
  many bits as there are generators, and for each bit that falls out the generator of its position is added. Such a
  step is a \<open>linear_checksum\<close> as soon as the low ends of the generators are independent.
\<close>

definition taps :: "'a::len word list \<Rightarrow> 'a word \<Rightarrow> 'a word" where
  "taps gens hi = foldl (\<lambda>chk j. if bit hi j then chk XOR gens ! j else chk) 0 [0..<length gens]"

definition register_step :: "'a::len word list \<Rightarrow> nat \<Rightarrow> 'a word \<Rightarrow> 'a word" where
  "register_step gens n chk = push_bit (length gens) (chk AND mask (n - length gens)) XOR taps gens (drop_bit (n - length gens) chk)"

text \<open>The loops of the code start from the shifted register.\<close>

lemma foldl_taps: "foldl (\<lambda>chk j. if P j then chk XOR f j else chk) (c :: 'a::len word) js = c XOR foldl (\<lambda>chk j. if P j then chk XOR f j else chk) 0 js"
proof (induction js arbitrary: c)
  case (Cons j js)
  show ?case unfolding foldl_Cons by (subst Cons.IH, subst (2) Cons.IH) (simp add: xor.assoc)
qed simp

lemma taps_xor: "taps gens (a XOR b) = taps gens a XOR taps gens b"
proof -
  have "foldl (\<lambda>chk j. if bit (a XOR b) j then chk XOR gens ! j else chk) 0 js =
      foldl (\<lambda>chk j. if bit a j then chk XOR gens ! j else chk) 0 js XOR foldl (\<lambda>chk j. if bit b j then chk XOR gens ! j else chk) 0 js" for js
  proof (induction js)
    case (Cons j js)
    have s: "foldl (\<lambda>chk j. if bit c j then chk XOR gens ! j else chk) 0 (j # js)
        = (if bit c j then gens ! j else 0) XOR foldl (\<lambda>chk j. if bit c j then chk XOR gens ! j else chk) 0 js" for c :: "'a word"
      unfolding foldl_Cons by (subst foldl_taps) simp
    show ?case unfolding s Cons.IH by (auto simp: bit_xor_iff ac_simps)
  qed simp
  then show ?thesis by (simp add: taps_def)
qed

lemma taps_zero: "\<forall>j < length gens. \<not> bit hi j \<Longrightarrow> taps gens hi = 0"
proof -
  assume z: "\<forall>j < length gens. \<not> bit hi j"
  have "\<forall>j\<in>set js. \<not> bit hi j \<Longrightarrow> foldl (\<lambda>chk j. if bit hi j then chk XOR gens ! j else chk) c js = c" for c js
    by (induction js) simp_all
  then show ?thesis using z by (simp add: taps_def)
qed

lemma taps_bits: "bit (taps gens hi) i \<Longrightarrow> \<exists>g\<in>set gens. bit g i"
proof -
  have "bit (foldl (\<lambda>chk j. if bit hi j then chk XOR gens ! j else chk) c js) i \<Longrightarrow> set js \<subseteq> {..<length gens} \<Longrightarrow>
      bit c i \<or> (\<exists>g\<in>set gens. bit g i)" for c js
    by (induction js arbitrary: c) (fastforce simp: bit_xor_iff split: if_splits)+
  then show "bit (taps gens hi) i \<Longrightarrow> \<exists>g\<in>set gens. bit g i" unfolding taps_def by fastforce
qed

locale shift_register =
  fixes gens :: "'a::len word list"
    and n :: nat
  assumes gens_small: "\<forall>g\<in>set gens. unat g < 2 ^ n"
    and fits: "length gens \<le> n" "n \<le> LENGTH('a)"
    and independent: "\<forall>i < length gens. \<not> bit (taps gens hi) i \<Longrightarrow> j < length gens \<Longrightarrow> \<not> bit hi j"
begin

lemma step_no_top:
  assumes "\<forall>j < length gens. \<not> bit c (n - length gens + j)"
  shows "register_step gens n c = push_bit (length gens) (c AND mask (n - length gens))"
  using taps_zero [of gens "drop_bit (n - length gens) c"] assms by (simp add: register_step_def bit_drop_bit_eq)

lemma high_bits: "unat c < 2 ^ m \<Longrightarrow> m \<le> i \<Longrightarrow> \<not> bit (c :: 'a word) i"
  by (rule not_bit_of_small)

lemma register_step_faithful:
  assumes c: "unat c < 2 ^ n" and z: "register_step gens n c = 0"
  shows "c = 0"
proof -
  let ?k = "length gens"
  have "\<not> bit (taps gens (drop_bit (n - ?k) c)) i" if "i < ?k" for i
  proof -
    have "bit (register_step gens n c) i = bit (taps gens (drop_bit (n - ?k) c)) i"
      using that by (simp add: register_step_def bit_xor_iff bit_push_bit_iff bit_and_iff)
    then show ?thesis using z by simp
  qed
  then have top_bits: "\<not> bit c (n - ?k + j)" if "j < ?k" for j
    using independent [of "drop_bit (n - ?k) c" j] that by (simp add: bit_drop_bit_eq)
  then have p: "push_bit ?k (c AND mask (n - ?k)) = 0" using step_no_top z by simp
  have "\<not> bit c i" for i
  proof -
    consider "i < n - ?k" | j where "i = n - ?k + j" "j < ?k" | "n \<le> i"
      using fits(1) by (metis add_diff_cancel_left' le_add_diff_inverse2 less_diff_conv2 linorder_not_less nat_le_iff_add)
    then show ?thesis
    proof cases
      case 1
      then have "i + ?k < LENGTH('a)" using fits by linarith
      then have "bit (push_bit ?k (c AND mask (n - ?k))) (i + ?k) = bit c i"
        using 1 by (simp add: bit_push_bit_iff bit_and_iff bit_mask_iff)
      then show ?thesis using p by simp
    next
      case 2
      then show ?thesis using top_bits by simp
    next
      case 3
      then show ?thesis using high_bits [OF c] by blast
    qed
  qed
  then show ?thesis by (auto intro: bit_word_eqI)
qed

lemma register_step_bound: "unat (register_step gens n c) < 2 ^ n"
proof -
  have "\<not> bit (push_bit (length gens) (c AND mask (n - length gens))) i" if "n \<le> i" for i
    using that by (auto simp: bit_push_bit_iff bit_and_iff bit_mask_iff)
  moreover have "\<not> bit (taps gens hi) i" if "n \<le> i" for i hi
    using taps_bits [of gens hi i] gens_small high_bits [OF _ that] by blast
  ultimately have "\<forall>i. n \<le> i \<longrightarrow> \<not> bit (register_step gens n c) i"
    by (simp add: register_step_def bit_xor_iff)
  then show ?thesis using fits(2) by (subst unat_less_iff_bits) simp_all
qed

lemma register_step_shift:
  assumes "unat c < 2 ^ (n - length gens)"
  shows "register_step gens n c = push_bit (length gens) c"
proof -
  have "\<forall>i. n - length gens \<le> i \<longrightarrow> \<not> bit c i" using high_bits [OF assms] by blast
  moreover from this have "c AND mask (n - length gens) = c"
    by (intro bit_word_eqI) (use not_less in \<open>auto simp: bit_and_iff bit_mask_iff\<close>)
  ultimately show ?thesis using step_no_top [of c] by simp
qed

lemma register_step_xor: "register_step gens n (a XOR b) = register_step gens n a XOR register_step gens n b"
proof -
  have "push_bit (length gens) ((a XOR b) AND mask (n - length gens)) =
      push_bit (length gens) (a AND mask (n - length gens)) XOR push_bit (length gens) (b AND mask (n - length gens) :: 'a word)"
    by (rule bit_word_eqI) (auto simp: bit_push_bit_iff bit_and_iff bit_xor_iff)
  moreover have "drop_bit (n - length gens) (a XOR b) = drop_bit (n - length gens) a XOR drop_bit (n - length gens) b"
    by (rule drop_bit_xor)
  ultimately show ?thesis by (simp add: register_step_def taps_xor ac_simps)
qed

end

sublocale shift_register \<subseteq> linear_checksum "register_step gens n" n "length gens"
  by unfold_locales (rule register_step_xor register_step_bound fits | erule register_step_shift | erule register_step_faithful, assumption)+

end
