(* ===== verification/Descriptor_Text.thy ===== *)
theory Descriptor_Text
  imports Descriptor Multisig_File Shift_Register
begin

text \<open>
  \<open>main/descriptor_text.c\<close>: a descriptor as another wallet prints it, in a QR code or in the JSON export of
  Specter, is checked against its BIP380 checksum and rewritten into the policy template that is registered: each
  key expression becomes \<open>@\<close> with the index of its value, followed by a canonical child path.

  A pointer into a text that ends at \<open>end\<close> is the rest of the text. A buffer that is filled from its start is
  the list written so far; its size is passed where the code compares with it. SHA-256 is a parameter.
  \<open>Inl\<close> is the message of a false result.
\<close>

section \<open>Messages\<close>

definition ERR_INVALID :: bytes where "ERR_INVALID = str ''Invalid descriptor''"
definition ERR_UNSUPPORTED :: bytes where "ERR_UNSUPPORTED = str ''Unsupported descriptor''"
definition ERR_TOO_LARGE :: bytes where "ERR_TOO_LARGE = str ''Descriptor too large''"
definition ERR_KEY_TOO_LONG :: bytes where "ERR_KEY_TOO_LONG = str ''Descriptor key too long''"
definition ERR_TOO_MANY :: bytes where "ERR_TOO_MANY = str ''Too many signers''"

section \<open>The checksum\<close>

definition generators :: "u64 list" where
  "generators = [0xf5dee51989, 0xa9fdca3312, 0x1bab10e32d, 0x3706b1677a, 0x644d626ffd]"

definition descriptor_checksum_polymod :: "u64 \<Rightarrow> byte \<Rightarrow> u64" where
  "descriptor_checksum_polymod chk val =
     (let top = drop_bit 35 chk;
          chk = push_bit 5 (chk AND 0x7ffffffff) XOR ucast val in
      foldl (\<lambda>chk i. if drop_bit i top AND 1 \<noteq> 0 then chk XOR generators ! i else chk) chk [0..<5])"

text \<open>The 95 characters; after the letters come the backquote, the hash, the quote, the backslash and the space.\<close>

definition input_charset :: bytes where
  "input_charset = str ''0123456789()[],'/*abcdefgh@:$%{}IJKLMNOPQRSTUVWXYZ&+-.;<=>?!^_|~'' @ str ''ijklmnopqrstuvwxyzABCDEFGH'' @ [0x60, 0x23, 0x22, 0x5C, 0x20]"

definition checksum_charset :: bytes where
  "checksum_charset = str ''qpzry9x8gf2tvdw0s3jn54khce6mua7l''"

text \<open>The loop over the text: the register, the open group and its length; \<open>None\<close> for a foreign character.\<close>

fun checksum_loop :: "bytes \<Rightarrow> u64 \<Rightarrow> byte \<Rightarrow> nat \<Rightarrow> (u64 \<times> byte \<times> nat) option" where
  "checksum_loop [] chk grp group_len = Some (chk, grp, group_len)"
| "checksum_loop (c # cs) chk grp group_len = (case memchr c input_charset of
     None \<Rightarrow> None
   | Some pos \<Rightarrow>
     let chk = descriptor_checksum_polymod chk (of_nat pos AND 31);
         grp = grp * 3 + of_nat (drop_bit 5 pos) in
     if group_len + 1 = 3 then checksum_loop cs (descriptor_checksum_polymod chk grp) 0 0
     else checksum_loop cs chk grp (group_len + 1))"

fun checksum_compare :: "u64 \<Rightarrow> bytes \<Rightarrow> nat list \<Rightarrow> bool option" where
  "checksum_compare chk checksum [] = Some True"
| "checksum_compare chk checksum (i # is) = do {
     c \<leftarrow> buf_get checksum i;
     d \<leftarrow> buf_get checksum_charset (unat (drop_bit (5 * (7 - i)) chk AND 31));
     if c \<noteq> d then Some False else checksum_compare chk checksum is }"

definition descriptor_checksum_valid :: "bytes \<Rightarrow> bytes \<Rightarrow> bool option" where
  "descriptor_checksum_valid text checksum = (case checksum_loop text 1 0 0 of
     None \<Rightarrow> Some False
   | Some (chk, grp, group_len) \<Rightarrow>
     let chk = (if group_len > 0 then descriptor_checksum_polymod chk grp else chk);
         chk = foldl (\<lambda>chk i. descriptor_checksum_polymod chk 0) chk [0..<8] in
     checksum_compare (chk XOR 1) checksum [0..<8])"

section \<open>Recognising a descriptor\<close>

definition DESCRIPTOR_PREFIXES :: "bytes list" where
  "DESCRIPTOR_PREFIXES = [str ''wsh('', str ''sh('', str ''wpkh('', str ''pkh('']"

definition skip_ws :: "bytes \<Rightarrow> bytes" where
  "skip_ws p = dropWhile isspace p"

definition QUOTE :: byte where "QUOTE = 0x22"
definition BACKSLASH :: byte where "BACKSLASH = 0x5C"

definition descriptor_text_is_descriptor :: "bytes \<Rightarrow> bool" where
  "descriptor_text_is_descriptor text =
     (let p = skip_ws text in
      if p \<noteq> [] \<and> hd p = chr CHR ''{'' then strncasestr p (QUOTE # str ''descriptor'' @ [QUOTE]) (length p) \<noteq> None
      else list_ex (\<lambda>prefix. length p \<ge> length prefix \<and> take (length prefix) p = prefix) DESCRIPTOR_PREFIXES)"

section \<open>JSON\<close>

text \<open>The rest behind the closing quote; the argument starts behind the opening one.\<close>

fun json_string_loop :: "bytes \<Rightarrow> bytes option" where
  "json_string_loop [] = None"
| "json_string_loop (c # p) =
     (if c = QUOTE then Some p
      else if c = BACKSLASH then (case p of [] \<Rightarrow> None | _ # p \<Rightarrow> json_string_loop p)
      else json_string_loop p)"

definition json_skip_string :: "bytes \<Rightarrow> bytes option" where
  "json_skip_string p = json_string_loop (drop 1 p)"

lemma json_string_loop_shorter: "json_string_loop p = Some r \<Longrightarrow> length r < length p"
proof (induction p rule: json_string_loop.induct)
  case (2 c p)
  then show ?case by (cases p) (auto split: if_splits intro: less_SucI)
qed simp

text \<open>The loop of \<open>json_skip_value\<close>, with the depth of the open brackets.\<close>

function json_value_loop :: "nat \<Rightarrow> bytes \<Rightarrow> bytes option" where
  "json_value_loop depth [] = None"
| "json_value_loop depth (c # p) =
     (if c = QUOTE then
        (case json_skip_string (c # p) of
           None \<Rightarrow> None
         | Some p \<Rightarrow> if depth = 0 then Some p else json_value_loop depth p)
      else if c = chr CHR ''{'' \<or> c = chr CHR ''['' then json_value_loop (depth + 1) p
      else if c = chr CHR ''}'' \<or> c = chr CHR '']'' then
        (if depth = 0 then Some (c # p) else if depth - 1 = 0 then Some p else json_value_loop (depth - 1) p)
      else if c = chr CHR '','' \<and> depth = 0 then Some (c # p)
      else json_value_loop depth p)"
  by pat_completeness auto
termination
  by (relation "measure (\<lambda>(depth, p). length p)") (auto simp: json_skip_string_def dest!: json_string_loop_shorter)

definition json_skip_value :: "bytes \<Rightarrow> bytes option" where
  "json_skip_value p = json_value_loop 0 p"

lemma skip_ws_le: "length (skip_ws p) \<le> length p"
  by (simp add: skip_ws_def length_dropWhile_le)

lemma json_value_loop_le: "json_value_loop depth p = Some r \<Longrightarrow> length r \<le> length p"
proof (induction depth p rule: json_value_loop.induct)
  case (2 depth c p)
  then show ?case
    by (auto simp: json_skip_string_def split: if_splits option.splits dest!: json_string_loop_shorter)
qed simp

text \<open>The search for a member: the text at its value. \<open>p\<close> is at the opening brace or at a comma.\<close>

function json_find_member :: "bytes \<Rightarrow> bytes \<Rightarrow> bytes option" where
  "json_find_member key p = (case skip_ws (drop 1 p) of
     [] \<Rightarrow> None
   | q # name \<Rightarrow>
     if q \<noteq> QUOTE then None
     else case json_skip_string (q # name) of
       None \<Rightarrow> None
     | Some p1 \<Rightarrow>
       (case skip_ws p1 of
          [] \<Rightarrow> None
        | c # p2 \<Rightarrow>
          if c \<noteq> chr CHR '':'' then None
          else if length name - length p1 - 1 = length key \<and> strncasecmp_eq name key (length key) then Some (skip_ws p2)
          else case json_skip_value (skip_ws p2) of
            None \<Rightarrow> None
          | Some p3 \<Rightarrow>
            (case skip_ws p3 of
               [] \<Rightarrow> None
             | d # p4 \<Rightarrow> if d \<noteq> chr CHR '','' then None else json_find_member key (d # p4))))"
  by pat_completeness auto
termination
proof (relation "measure (\<lambda>(key, p). length p)", goal_cases)
  case (2 key p q name p1 c p2 p3 d p4)
  have "length (d # p4) \<le> length p3" using 2 skip_ws_le [of p3] by simp
  also have "\<dots> \<le> length (skip_ws p2)" using 2 json_value_loop_le by (simp add: json_skip_value_def)
  also have "\<dots> \<le> length p2" by (rule skip_ws_le)
  also have "\<dots> < length (skip_ws p1)" using 2 by simp
  also have "\<dots> \<le> length p1" by (rule skip_ws_le)
  also have "\<dots> < length name" using 2 json_string_loop_shorter by (simp add: json_skip_string_def)
  also have "\<dots> < length p" using 2 skip_ws_le [of "drop 1 p"] by simp
  finally show ?case by simp
qed simp

declare json_find_member.simps [simp del]

text \<open>The copy of the string value, for a buffer of \<open>out_len\<close> bytes.\<close>

fun json_copy_loop :: "nat \<Rightarrow> bytes \<Rightarrow> bytes \<Rightarrow> bytes option option" where
  "json_copy_loop out_len [] out = Some None"
| "json_copy_loop out_len (c # p) out =
     (if c = QUOTE then do {
        jade_assert (length out < out_len);
        Some (Some out) }
      else if c = BACKSLASH then
        (case p of
           [] \<Rightarrow> Some None
         | c # p \<Rightarrow>
           if c \<noteq> QUOTE \<and> c \<noteq> BACKSLASH \<and> c \<noteq> chr CHR ''/'' then Some None
           else if length out + 1 \<ge> out_len then Some None
           else json_copy_loop out_len p (out @ [c]))
      else if length out + 1 \<ge> out_len then Some None
      else json_copy_loop out_len p (out @ [c]))"

definition json_get_string :: "bytes \<Rightarrow> bytes \<Rightarrow> nat \<Rightarrow> bytes option option" where
  "json_get_string json key out_len =
     (let p = skip_ws json in
      if p = [] \<or> hd p \<noteq> chr CHR ''{'' then Some None
      else case json_find_member key p of
        None \<Rightarrow> Some None
      | Some p \<Rightarrow> if p = [] \<or> hd p \<noteq> QUOTE then Some None else json_copy_loop out_len (drop 1 p) [])"

section \<open>Keys\<close>

definition BIP32_MAX_CHILD_INDEX :: u64 where "BIP32_MAX_CHILD_INDEX = 0x7fffffff"

text \<open>At most ten digits: the number, how many digits it has, and the rest.\<close>

fun child_digits :: "u64 \<Rightarrow> nat \<Rightarrow> bytes \<Rightarrow> u64 \<times> nat \<times> bytes" where
  "child_digits a digits [] = (a, digits, [])"
| "child_digits a digits (c # p) =
     (if is_digit c \<and> digits < 10 then child_digits (a * 10 + ucast (c - chr CHR ''0'')) (digits + 1) p
      else (a, digits, c # p))"

definition child_pair :: "u64 \<Rightarrow> u64 \<Rightarrow> bytes" where
  "child_pair a b = str ''/<'' @ decimal (unat a) @ str '';'' @ decimal (unat b) @ str ''>/*''"

text \<open>The canonical child path, or false.\<close>

definition canonical_child :: "bytes \<Rightarrow> nat \<Rightarrow> bytes option option" where
  "canonical_child rest child_len = do {
     jade_assert (child_len \<ge> 27);
     if rest = str ''/**'' then Some (Some (str ''/<0;1>/*''))
     else if length rest < 8 \<or> rest ! 0 \<noteq> chr CHR ''/'' \<or> rest ! 1 \<noteq> chr CHR ''<'' \<and> rest ! 1 \<noteq> chr CHR ''{'' then Some None
     else
       let open_c = rest ! 1;
           sep = (if open_c = chr CHR ''<'' then chr CHR '';'' else chr CHR '','');
           close_c = (if open_c = chr CHR ''<'' then chr CHR ''>'' else chr CHR ''}'');
           (a, digits, p) = child_digits 0 0 (drop 2 rest) in
       if digits = 0 \<or> a > BIP32_MAX_CHILD_INDEX \<or> p = [] \<or> hd p \<noteq> sep then Some None
       else let (b, digits, p) = child_digits 0 0 (drop 1 p) in
         if digits = 0 \<or> b > BIP32_MAX_CHILD_INDEX \<or> p = [] \<or> hd p \<noteq> close_c then Some None
         else if drop 1 p \<noteq> str ''/*'' then Some None
         else Some (if length (child_pair a b) < child_len then Some (child_pair a b) else None) }"

definition isxdigit :: "byte \<Rightarrow> bool" where
  "isxdigit c \<longleftrightarrow> is_digit c \<or> chr CHR ''A'' \<le> c \<and> c \<le> chr CHR ''F'' \<or> chr CHR ''a'' \<le> c \<and> c \<le> chr CHR ''f''"

text \<open>The bracket and the fingerprint: positions \<open>i\<close> to 8.\<close>

fun fingerprint_loop :: "bytes \<Rightarrow> nat \<Rightarrow> nat list \<Rightarrow> bytes \<Rightarrow> (bytes + bytes) option" where
  "fingerprint_loop tok value_len [] val = Some (Inr val)"
| "fingerprint_loop tok value_len (i # is) val = do {
     c \<leftarrow> buf_get tok i;
     if i \<noteq> 0 \<and> \<not> isxdigit c then Some (Inl ERR_INVALID)
     else if length val + 1 \<ge> value_len then Some (Inl ERR_KEY_TOO_LONG)
     else fingerprint_loop tok value_len is (val @ [tolower_b c]) }"

text \<open>The path of the origin, up to and with the closing bracket.\<close>

fun origin_loop :: "nat \<Rightarrow> bytes \<Rightarrow> bytes \<Rightarrow> bytes + bytes" where
  "origin_loop value_len [] val = Inr val"
| "origin_loop value_len (c # p) val =
     (let hardened = (c = chr CHR 0x27); c' = (if hardened then chr CHR ''h'' else c) in
      if \<not> hardened \<and> \<not> (is_digit c \<or> c = chr CHR ''/'' \<or> c = chr CHR ''h'' \<or> c = chr CHR '']'') then Inl ERR_INVALID
      else if length val + 1 \<ge> value_len then Inl ERR_KEY_TOO_LONG
      else origin_loop value_len p (val @ [c']))"

text \<open>The key behind the origin and its child path; \<open>val\<close> is the origin as it was written.\<close>

definition key_body :: "bytes \<Rightarrow> bytes \<Rightarrow> nat \<Rightarrow> nat \<Rightarrow> (bytes + bytes \<times> bytes) option" where
  "key_body p val value_len child_len = do {
     let body = takeWhile (\<lambda>c. c \<noteq> chr CHR ''/'') p;
     if body = [] then Some (Inl ERR_INVALID)
     else if length val + length body + 1 > value_len then Some (Inl ERR_KEY_TOO_LONG)
     else do {
       child \<leftarrow> canonical_child (drop (length body) p) child_len;
       Some (case child of None \<Rightarrow> Inl ERR_UNSUPPORTED | Some child \<Rightarrow> Inr (val @ body, child)) } }"

text \<open>The value and the child path of a key expression.\<close>

definition canonical_key :: "bytes \<Rightarrow> nat \<Rightarrow> nat \<Rightarrow> (bytes + bytes \<times> bytes) option" where
  "canonical_key tok value_len child_len = do {
     c0 \<leftarrow> buf_get tok 0;
     if c0 \<noteq> chr CHR ''['' then Some (Inl ERR_UNSUPPORTED)
     else case memchr (chr CHR '']'') tok of
       None \<Rightarrow> Some (Inl ERR_INVALID)
     | Some close_i \<Rightarrow>
       if close_i < 9 then Some (Inl ERR_INVALID)
       else do {
         c9 \<leftarrow> buf_get tok 9;
         if c9 \<noteq> chr CHR ''/'' \<and> c9 \<noteq> chr CHR '']'' then Some (Inl ERR_INVALID)
         else do {
           fp \<leftarrow> fingerprint_loop tok value_len [0..<9] [];
           case fp of Inl errmsg \<Rightarrow> Some (Inl errmsg) | Inr val \<Rightarrow>
             (case origin_loop value_len (take (close_i + 1 - 9) (drop 9 tok)) val of
                Inl errmsg \<Rightarrow> Some (Inl errmsg)
              | Inr val \<Rightarrow> key_body (drop (close_i + 1) tok) val value_len child_len) } } }"

text \<open>The text behind a key token.\<close>

fun token_end :: "int \<Rightarrow> bytes \<Rightarrow> bytes" where
  "token_end nesting [] = []"
| "token_end nesting (c # p) =
     (if c = chr CHR ''['' \<or> c = chr CHR ''<'' \<or> c = chr CHR ''{'' then token_end (nesting + 1) p
      else if c = chr CHR '']'' \<or> c = chr CHR ''>'' \<or> c = chr CHR ''}'' then token_end (nesting - 1) p
      else if nesting = 0 \<and> (c = chr CHR '','' \<or> c = chr CHR '')'') then c # p
      else token_end nesting p)"

definition is_key_start :: "bytes \<Rightarrow> bool" where
  "is_key_start p \<longleftrightarrow> p \<noteq> [] \<and> (hd p = chr CHR ''['' \<or> length p \<ge> 4 \<and> (take 4 p = str ''xpub'' \<or> take 4 p = str ''tpub''))"

lemma token_end_le: "length (token_end n p) \<le> length p"
  by (induction n p rule: token_end.induct) auto

lemma token_end_shorter: "is_key_start p \<Longrightarrow> length (token_end 0 p) < length p"
proof -
  assume k: "is_key_start p"
  then obtain c cs where p: "p = c # cs" by (cases p) (auto simp: is_key_start_def)
  then have "c = chr CHR ''['' \<or> c = chr CHR ''x'' \<or> c = chr CHR ''t''" using k by (auto simp: is_key_start_def)
  then show ?thesis using p token_end_le [of _ cs] by (auto simp: chr_def less_Suc_eq_le)
qed

section \<open>The template\<close>

definition hex_digit :: "byte \<Rightarrow> byte" where
  "hex_digit n = (if n < 10 then 48 + n else 87 + n)"

definition hex_byte :: "byte \<Rightarrow> bytes" where
  "hex_byte b = [hex_digit (drop_bit 4 b), hex_digit (b AND 15)]"

text \<open>The bytes that are hashed for a name.\<close>

fun hash_input :: "string_value_t list \<Rightarrow> bytes \<times> nat \<Rightarrow> (bytes \<times> nat) option" where
  "hash_input [] w = Some w"
| "hash_input (v # vs) w = do {
     w \<leftarrow> put (sv_key v) w;
     w \<leftarrow> put (sv_value v) w;
     hash_input vs w }"

text \<open>The name, or false; \<open>buf\<close> is the fresh memory of the announced length.\<close>

definition make_hash_name :: "(bytes \<Rightarrow> bytes) \<Rightarrow> (nat \<Rightarrow> bytes) \<Rightarrow> descriptor_data_t \<Rightarrow> nat \<Rightarrow> bytes option option" where
  "make_hash_name sha256 fresh descriptor name_len = do {
     let total_len = length (dd_script descriptor) + string_values_len (dd_values descriptor);
     w \<leftarrow> put (dd_script descriptor) (fresh total_len, 0);
     (buf, n) \<leftarrow> hash_input (dd_values descriptor) w;
     jade_assert (n = total_len);
     let hash = sha256 buf;
     h0 \<leftarrow> buf_get hash 0; h1 \<leftarrow> buf_get hash 1; h2 \<leftarrow> buf_get hash 2; h3 \<leftarrow> buf_get hash 3;
     let name = str ''desc-'' @ hex_byte h0 @ hex_byte h1 @ hex_byte h2 @ hex_byte h3;
     Some (if length name < name_len then Some name else None) }"

text \<open>The index of an equal value, or the number of values.\<close>

fun value_index :: "bytes \<Rightarrow> string_value_t list \<Rightarrow> nat" where
  "value_index val [] = 0"
| "value_index val (v # vs) = (if sv_value v = val then 0 else value_index val vs + 1)"

definition placeholder :: "nat \<Rightarrow> bytes" where
  "placeholder index = str ''@'' @ decimal index"

text \<open>The value of a key is kept under its index; \<open>val\<close> is the string in the local array.\<close>

definition intern_value :: "bytes \<Rightarrow> string_value_t list \<Rightarrow> (bytes + nat \<times> string_value_t list) option" where
  "intern_value val vs =
     (let index = value_index val vs in
      if index = length vs then
        (if index \<ge> MAX_ALLOWED_SIGNERS then Some (Inl ERR_TOO_MANY)
         else do {
           jade_assert (length (placeholder index) < KEY_SIZE);
           jade_assert (length val < VALUE_SIZE);
           Some (Inr (index, vs @ [\<lparr> sv_key = placeholder index, sv_value = val \<rparr>])) })
      else Some (Inr (index, vs)))"

text \<open>The walk over the text. \<open>prev\<close> is the last character that was copied, \<open>script\<close> what was written.\<close>

function template_loop :: "bytes \<Rightarrow> byte \<Rightarrow> string_value_t list \<Rightarrow> bytes \<Rightarrow> (bytes + string_value_t list \<times> bytes) option" where
  "template_loop p prev vs script =
     (if p = [] then Some (Inr (vs, script))
      else if (prev = chr CHR ''('' \<or> prev = chr CHR '','') \<and> is_key_start p then
        (case canonical_key (take (length p - length (token_end 0 p)) p) VALUE_SIZE 32 of
           None \<Rightarrow> None
         | Some (Inl errmsg) \<Rightarrow> Some (Inl errmsg)
         | Some (Inr (val, child)) \<Rightarrow>
           (case intern_value (cstr val) vs of
              None \<Rightarrow> None
            | Some (Inl errmsg) \<Rightarrow> Some (Inl errmsg)
            | Some (Inr (index, vs)) \<Rightarrow>
              if length (placeholder index @ child) \<ge> MAX_DESCRIPTOR_SCRIPT_LEN - length script then Some (Inl ERR_TOO_LARGE)
              else template_loop (token_end 0 p) prev vs (script @ placeholder index @ child)))
      else if length script + 1 \<ge> MAX_DESCRIPTOR_SCRIPT_LEN then Some (Inl ERR_TOO_LARGE)
      else template_loop (tl p) (hd p) vs (script @ [hd p]))"
  by pat_completeness auto
termination
  by (relation "measure (\<lambda>(p, prev, vs, script). length p)") (auto simp: token_end_shorter)

declare template_loop.simps [simp del]

text \<open>The name from a label: blanks become underscores, other characters that do not print are dropped.\<close>

fun label_name :: "nat \<Rightarrow> bytes \<Rightarrow> bytes" where
  "label_name nlen [] = []"
| "label_name nlen (c # cs) =
     (if c = 0 \<or> nlen + 1 \<ge> MAX_DESCRIPTOR_NAME_SIZE then []
      else if c = chr CHR '' '' then chr CHR ''_'' # label_name (nlen + 1) cs
      else if isgraph c then c # label_name (nlen + 1) cs
      else label_name nlen cs)"

definition trim_end :: "bytes \<Rightarrow> bytes" where
  "trim_end s = rev (dropWhile isspace (rev s))"

text \<open>The text of the descriptor and the label.\<close>

definition unwrap_text :: "bytes \<Rightarrow> (bytes + bytes \<times> bytes) option" where
  "unwrap_text text =
     (let p = skip_ws text in
      if p \<noteq> [] \<and> hd p = chr CHR ''{'' then do {
        work \<leftarrow> json_get_string p (str ''descriptor'') (length text + 1);
        case work of None \<Rightarrow> Some (Inl ERR_INVALID) | Some work \<Rightarrow> do {
          label \<leftarrow> json_get_string p (str ''label'') (MAX_DESCRIPTOR_NAME_SIZE * 4);
          Some (Inr (work, case label of None \<Rightarrow> [] | Some label \<Rightarrow> label)) } }
      else Some (Inr (p, [])))"

text \<open>The text without its checksum and its white space, or false.\<close>

definition checked_text :: "bytes \<Rightarrow> bytes option option" where
  "checked_text work =
     (let work = trim_end work in
      case memchr (chr CHR ''#'') work of
        None \<Rightarrow> Some (Some (filter (\<lambda>c. \<not> isspace c) work))
      | Some hash \<Rightarrow>
        if length work - hash \<noteq> 9 then Some None
        else do {
          ok \<leftarrow> descriptor_checksum_valid (take hash work) (drop (hash + 1) work);
          Some (if ok then Some (filter (\<lambda>c. \<not> isspace c) (take hash work)) else None) })"

definition descriptor_text_parse ::
  "(bytes \<Rightarrow> bytes) \<Rightarrow> (nat \<Rightarrow> bytes) \<Rightarrow> bytes \<Rightarrow> nat \<Rightarrow> (bytes + descriptor_data_t \<times> bytes) option" where
  "descriptor_text_parse sha256 fresh text name_len = do {
     jade_assert (text \<noteq> []);
     jade_assert (name_len \<ge> MAX_DESCRIPTOR_NAME_SIZE);
     unwrapped \<leftarrow> unwrap_text text;
     case unwrapped of Inl errmsg \<Rightarrow> Some (Inl errmsg) | Inr (work, label) \<Rightarrow> do {
       checked \<leftarrow> checked_text work;
       case checked of None \<Rightarrow> Some (Inl ERR_INVALID) | Some work \<Rightarrow>
         if work = [] then Some (Inl ERR_INVALID)
         else do {
           r \<leftarrow> template_loop work (chr CHR ''('') [] [];
           case r of Inl errmsg \<Rightarrow> Some (Inl errmsg) | Inr (vs, script) \<Rightarrow> do {
             let descriptor = \<lparr> dd_values = vs, dd_script = script, dd_type = DESCRIPTOR_TYPE_UNKNOWN \<rparr>;
             if vs = [] then Some (Inl ERR_UNSUPPORTED)
             else
               let name = label_name 0 label in
               if name \<noteq> [] then Some (Inr (descriptor, name))
               else do {
                 hash_name \<leftarrow> make_hash_name sha256 fresh descriptor name_len;
                 Some (case hash_name of None \<Rightarrow> Inl ERR_INVALID | Some name \<Rightarrow> Inr (descriptor, name)) } } } } }"

section \<open>The checksum sees short bursts\<close>

lemma upt_5: "[0..<5] = [0, 1, 2, 3, 4 :: nat]"
  by (simp add: upt_rec)

lemma length_generators [simp]: "length generators = 5"
  by (simp add: generators_def)

lemma polymod_step: "descriptor_checksum_polymod chk v = register_step generators 40 chk XOR ucast v"
proof -
  have test: "drop_bit j (drop_bit 35 chk) AND 1 \<noteq> 0 \<longleftrightarrow> bit (drop_bit 35 chk) j" for j
    by (simp add: and_one_eq bit_iff_odd_drop_bit odd_iff_mod_2_eq_one)
  have m: "(0x7ffffffff :: u64) = mask 35" by (simp add: mask_eq_exp_minus_1)
  show ?thesis
    unfolding descriptor_checksum_polymod_def Let_def test m register_step_def taps_def
    by (subst foldl_taps) (simp add: ac_simps)
qed

lemma bit_generators:
  "bit (generators ! 0) i = bit (0xf5dee51989 :: u64) i" "bit (generators ! 1) i = bit (0xa9fdca3312 :: u64) i"
  "bit (generators ! 2) i = bit (0x1bab10e32d :: u64) i" "bit (generators ! 3) i = bit (0x3706b1677a :: u64) i"
  "bit (generators ! 4) i = bit (0x644d626ffd :: u64) i"
  by (simp_all add: generators_def)

lemma bit_taps:
  "bit (taps generators h) 0 = (bit h 0 \<noteq> (bit h 2 \<noteq> bit h 4))"
  "bit (taps generators h) 1 = (bit h 1 \<noteq> bit h 3)"
  "bit (taps generators h) 2 = (bit h 2 \<noteq> bit h 4)"
  "bit (taps generators h) 3 = (bit h 0 \<noteq> (bit h 2 \<noteq> (bit h 3 \<noteq> bit h 4)))"
  "bit (taps generators h) 4 = (bit h 1 \<noteq> (bit h 3 \<noteq> bit h 4))"
  by (auto simp: taps_def upt_5 bit_xor_iff bit_generators bit_generators(2) [unfolded One_nat_def] split: if_splits)

interpretation bch: shift_register generators 40
proof
  fix h :: u64 and j :: nat
  assume z: "\<forall>i < length generators. \<not> bit (taps generators h) i" and j: "j < length generators"
  have "\<not> bit (taps generators h) 0" "\<not> bit (taps generators h) 1" "\<not> bit (taps generators h) 2"
    "\<not> bit (taps generators h) 3" "\<not> bit (taps generators h) 4" using z by simp_all
  then have "\<not> bit h 0 \<and> \<not> bit h 1 \<and> \<not> bit h 2 \<and> \<not> bit h 3 \<and> \<not> bit h 4" unfolding bit_taps by blast
  moreover have "j = 0 \<or> j = 1 \<or> j = 2 \<or> j = 3 \<or> j = 4" using j by (simp add: eval_nat_numeral less_Suc_eq)
  ultimately show "\<not> bit h j" by auto
next
  show "\<forall>g\<in>set generators. unat g < 2 ^ 40" by (simp add: generators_def)
qed simp_all


text \<open>The symbols that the loop feeds into the register: five bits per character and one symbol for the rest of each
  group of three.\<close>

fun symbols :: "nat list \<Rightarrow> byte \<Rightarrow> nat \<Rightarrow> byte list" where
  "symbols [] grp n = (if n > 0 then [grp] else [])"
| "symbols (v # vs) grp n =
     (let grp = grp * 3 + of_nat (drop_bit 5 v) in
      (of_nat v AND 31) # (if n + 1 = 3 then grp # symbols vs 0 0 else symbols vs grp (n + 1)))"

definition positions :: "bytes \<Rightarrow> nat list option" where
  "positions t = those (map (\<lambda>c. memchr c input_charset) t)"

lemma positions_simps [simp]:
  "positions [] = Some []"
  "positions (c # cs) = (case memchr c input_charset of None \<Rightarrow> None | Some v \<Rightarrow> map_option ((#) v) (positions cs))"
  by (simp_all add: positions_def split: option.split)

lemma checksum_loop_symbols:
  "map_option (\<lambda>(chk, grp, n). if n > 0 then descriptor_checksum_polymod chk grp else chk) (checksum_loop t chk grp n)
    = map_option (\<lambda>vs. foldl descriptor_checksum_polymod chk (symbols vs grp n)) (positions t)"
proof (induction t arbitrary: chk grp n)
  case (Cons c cs)
  show ?case
    by (cases "memchr c input_charset") (auto simp: Let_def Cons.IH option.map_comp comp_def)
qed simp

lemma foldl_polymod: "foldl descriptor_checksum_polymod chk vs = bch.feed chk (map ucast vs)"
  by (induction vs arbitrary: chk) (simp_all add: polymod_step)

definition checksum_of :: "bytes \<Rightarrow> u64 option" where
  "checksum_of t = map_option (\<lambda>vs. bch.feed 1 (map ucast (symbols vs 0 0) @ replicate 8 0) XOR 1) (positions t)"

definition checksum_chars :: "u64 \<Rightarrow> bytes" where
  "checksum_chars chk = map (\<lambda>i. checksum_charset ! unat (drop_bit (5 * (7 - i)) chk AND 31)) [0..<8]"

lemma and_31: "unat (w AND 31 :: 'a::len word) < 32"
proof -
  have "w AND 31 = take_bit 5 w" by (simp add: take_bit_eq_mask mask_eq_exp_minus_1)
  then have "unat (w AND 31) = take_bit 5 (unat w)" by (simp only: unsigned_take_bit_eq)
  then show ?thesis by (simp add: take_bit_eq_mod)
qed

lemma length_checksum_charset: "length checksum_charset = 32"
  by (simp add: checksum_charset_def)

lemma checksum_compare_eq:
  assumes "\<forall>i\<in>set is. i < length checksum"
  shows "checksum_compare chk checksum is = Some (\<forall>i\<in>set is. checksum ! i = checksum_charset ! unat (drop_bit (5 * (7 - i)) chk AND 31))"
  using assms
proof (induction "is")
  case (Cons i "is")
  have "buf_get checksum_charset (unat (drop_bit (5 * (7 - i)) chk AND 31)) = Some (checksum_charset ! unat (drop_bit (5 * (7 - i)) chk AND 31))"
    using and_31 by (simp add: buf_get_def length_checksum_charset)
  moreover have "buf_get checksum i = Some (checksum ! i)" using Cons.prems by (simp add: buf_get_def)
  ultimately show ?case using Cons by auto
qed simp

lemma checksum_valid_eq:
  assumes "length checksum = 8"
  shows "descriptor_checksum_valid t checksum = Some (case checksum_of t of None \<Rightarrow> False | Some chk \<Rightarrow> checksum = checksum_chars chk)"
proof (cases "positions t")
  case None
  then have "checksum_loop t 1 0 0 = None"
    using checksum_loop_symbols [of t 1 0 0] by simp
  then show ?thesis using None by (simp add: descriptor_checksum_valid_def checksum_of_def)
next
  case (Some vs)
  then obtain chk grp n where l: "checksum_loop t 1 0 0 = Some (chk, grp, n)"
      "(if n > 0 then descriptor_checksum_polymod chk grp else chk) = bch.feed 1 (map ucast (symbols vs 0 0))"
    using checksum_loop_symbols [of t 1 0 0] by (auto simp: foldl_polymod)
  have z: "foldl (\<lambda>chk i. descriptor_checksum_polymod chk 0) chk [0..<8] = bch.feed chk (replicate 8 0)" for chk
    using foldl_polymod [of chk "replicate 8 0"] by (simp add: upt_rec eval_nat_numeral)
  have eq: "(\<forall>i\<in>set [0..<8]. checksum ! i = f i) \<longleftrightarrow> checksum = map f [0..<8]" for f
    using assms by (auto simp: list_eq_iff_nth_eq)
  have "descriptor_checksum_valid t checksum = checksum_compare (bch.feed 1 (map ucast (symbols vs 0 0) @ replicate 8 0) XOR 1) checksum [0..<8]"
    using l z by (simp add: descriptor_checksum_valid_def Let_def bch.feed_append)
  also have "\<dots> = Some (checksum = checksum_chars (bch.feed 1 (map ucast (symbols vs 0 0) @ replicate 8 0) XOR 1))"
    unfolding checksum_chars_def eq [symmetric] by (rule checksum_compare_eq) (simp add: assms)
  finally show ?thesis using Some by (simp add: checksum_of_def)
qed

text \<open>The eight characters determine the forty bits.\<close>

lemma distinct_checksum_charset: "distinct checksum_charset"
  by code_simp

lemma checksum_chars_inj:
  assumes "unat a < 2 ^ 40" and "unat b < 2 ^ 40" and eq: "checksum_chars a = checksum_chars b"
  shows "a = b"
proof (rule bit_word_eqI)
  fix m assume "m < LENGTH(64)"
  show "bit a m = bit b m"
  proof (cases "m < 40")
    case True
    define i where "i = 7 - m div 5"
    have i: "i < 8" "7 - i = m div 5" using True by (auto simp: i_def)
    have "checksum_chars a ! i = checksum_chars b ! i" using eq by simp
    then have "checksum_charset ! unat (drop_bit (5 * (m div 5)) a AND 31) = checksum_charset ! unat (drop_bit (5 * (m div 5)) b AND 31)"
      using i by (simp add: checksum_chars_def)
    then have "unat (drop_bit (5 * (m div 5)) a AND 31) = unat (drop_bit (5 * (m div 5)) b AND 31)"
      by (subst (asm) nth_eq_iff_index_eq [OF distinct_checksum_charset]) (simp_all only: length_checksum_charset and_31)
    then have "drop_bit (5 * (m div 5)) a AND 31 = drop_bit (5 * (m div 5)) b AND 31" by (simp only: word_unat_eq_iff)
    then have "take_bit 5 (drop_bit (5 * (m div 5)) a) = take_bit 5 (drop_bit (5 * (m div 5)) b)"
      by (simp add: take_bit_eq_mask mask_eq_exp_minus_1)
    then have "bit (take_bit 5 (drop_bit (5 * (m div 5)) a)) (m mod 5) = bit (take_bit 5 (drop_bit (5 * (m div 5)) b)) (m mod 5)" by simp
    then show ?thesis by (simp add: bit_take_bit_iff bit_drop_bit_eq)
  next
    case False
    then show ?thesis using not_bit_of_small [OF assms(1)] not_bit_of_small [OF assms(2)] by simp
  qed
qed

lemma low_symbol: "unat (of_nat v AND 31 :: byte) = v mod 32"
proof -
  have "(of_nat v AND 31 :: byte) = take_bit 5 (of_nat v)" by (simp add: take_bit_eq_mask mask_eq_exp_minus_1)
  then have "unat (of_nat v AND 31 :: byte) = take_bit 5 (v mod 2 ^ LENGTH(8))" by (simp only: unsigned_take_bit_eq unat_of_nat)
  then show ?thesis by (simp add: take_bit_eq_mod mod_mod_cancel)
qed

text \<open>The group symbol of up to three characters.\<close>

lemma symbols_short:
  "symbols [a] 0 0 = [of_nat a AND 31, of_nat (a div 32)]"
  "symbols [a, b] 0 0 = [of_nat a AND 31, of_nat b AND 31, of_nat (a div 32 * 3 + b div 32)]"
  "symbols (a # b # c # vs) 0 0 = [of_nat a AND 31, of_nat b AND 31, of_nat c AND 31, of_nat ((a div 32 * 3 + b div 32) * 3 + c div 32)] @ symbols vs 0 0"
  by (simp_all add: Let_def drop_bit_eq_div)

lemma group_symbol: "n < 96 \<Longrightarrow> unat (of_nat n :: byte) = n"
  by (simp add: unat_of_nat take_bit_eq_mod)

lemma digits_3:
  assumes "(a * 3 + b) * 3 + c = (a' * 3 + b') * 3 + (c' :: nat)" and "a < 3" "b < 3" "c < 3" "a' < 3" "b' < 3" "c' < 3"
  shows "a = a' \<and> b = b' \<and> c = c'"
proof -
  have two: "x = x' \<and> y = y'" if "x * 3 + y = x' * 3 + y'" "y < 3" "y' < 3" for x y x' y' :: nat
    using that by presburger
  show ?thesis using two [OF assms(1,4,7)] two [of a b a' b'] assms(3,6) by simp
qed

lemma symbol_split: "(a :: nat) mod 32 = b mod 32 \<Longrightarrow> a div 32 = b div 32 \<Longrightarrow> a = b"
  by (metis div_mult_mod_eq)

lemma triple_cases:
  obtains "vs = []" | a where "vs = [a]" | a b where "vs = [a, b]" | a b c ws where "vs = a # b # c # ws"
  by (cases vs; cases "tl vs"; cases "tl (tl vs)") auto

definition pos_ok :: "nat \<Rightarrow> bool" where
  "pos_ok v \<longleftrightarrow> v < 96"

lemma pos_digit: "pos_ok v \<Longrightarrow> v div 32 < 3"
  by (auto simp: pos_ok_def)

lemma low_symbol_eq: "(of_nat a AND 31 :: byte) = of_nat b AND 31 \<longleftrightarrow> a mod 32 = b mod 32"
  by (metis low_symbol word_unat_eq_iff)

lemma group_symbol_eq: "m < 96 \<Longrightarrow> n < 96 \<Longrightarrow> (of_nat m :: byte) = of_nat n \<longleftrightarrow> m = n"
  by (metis group_symbol)

lemma symbols_inj:
  assumes "list_all pos_ok vs" and "list_all pos_ok ws" and "length vs = length ws" and "symbols vs 0 0 = symbols ws 0 0"
  shows "vs = ws"
  using assms
proof (induction "length vs" arbitrary: vs ws rule: less_induct)
  case less
  show ?case
  proof (cases vs rule: triple_cases)
    case 1
    then show ?thesis using less.prems by simp
  next
    case (2 a)
    then obtain a' where ws: "ws = [a']" using less.prems(3) by (cases ws) auto
    have d: "a div 32 < 3" "a' div 32 < 3" using less.prems(1,2) 2 ws by (simp_all add: pos_digit)
    then have "a mod 32 = a' mod 32" "a div 32 = a' div 32"
      using less.prems(4) 2 ws by (simp_all add: symbols_short low_symbol_eq group_symbol_eq del: symbols.simps)
    then have "a = a'" using symbol_split by blast
    then show ?thesis using 2 ws by simp
  next
    case (3 a b)
    then obtain a' b' where ws: "ws = [a', b']" using less.prems(3) by (cases ws; cases "tl ws") auto
    have d: "a div 32 < 3" "a' div 32 < 3" "b div 32 < 3" "b' div 32 < 3" using less.prems(1,2) 3 ws by (simp_all add: pos_digit)
    have s: "a mod 32 = a' mod 32" "b mod 32 = b' mod 32" "(of_nat (a div 32 * 3 + b div 32) :: byte) = of_nat (a' div 32 * 3 + b' div 32)"
      using less.prems(4) unfolding 3 ws symbols_short list.inject low_symbol_eq by blast+
    have "a div 32 * 3 + b div 32 = a' div 32 * 3 + b' div 32" using s(3) d by (subst (asm) group_symbol_eq) simp_all
    then have "a div 32 = a' div 32" "b div 32 = b' div 32" using digits_3 [of 0 "a div 32" "b div 32" 0] d by simp_all
    then have "a = a'" "b = b'" using s symbol_split by blast+
    then show ?thesis using 3 ws by simp
  next
    case (4 a b c vs')
    then obtain a' b' c' ws' where ws: "ws = a' # b' # c' # ws'"
      using less.prems(3) by (cases ws; cases "tl ws"; cases "tl (tl ws)") auto
    have d: "a div 32 < 3" "a' div 32 < 3" "b div 32 < 3" "b' div 32 < 3" "c div 32 < 3" "c' div 32 < 3"
      using less.prems(1,2) 4 ws by (simp_all add: pos_digit)
    have s: "a mod 32 = a' mod 32" "b mod 32 = b' mod 32" "c mod 32 = c' mod 32"
        "(of_nat ((a div 32 * 3 + b div 32) * 3 + c div 32) :: byte) = of_nat ((a' div 32 * 3 + b' div 32) * 3 + c' div 32)"
        "symbols vs' 0 0 = symbols ws' 0 0"
      using less.prems(4) unfolding 4 ws symbols_short append_Cons append_Nil list.inject low_symbol_eq by blast+
    have "(a div 32 * 3 + b div 32) * 3 + c div 32 = (a' div 32 * 3 + b' div 32) * 3 + c' div 32"
      using s(4) d by (subst (asm) group_symbol_eq) simp_all
    then have "a div 32 = a' div 32" "b div 32 = b' div 32" "c div 32 = c' div 32"  using digits_3 d by blast+
    then have "a = a'" "b = b'" "c = c'" using s symbol_split by blast+
    moreover have "vs' = ws'" using less.hyps [of vs' ws'] less.prems(1-3) s(5) 4 ws by simp
    ultimately show ?thesis using 4 ws by simp
  qed
qed

lemma symbols_append: "length us mod 3 = 0 \<Longrightarrow> symbols (us @ vs) 0 0 = symbols us 0 0 @ symbols vs 0 0"
proof (induction "length us" arbitrary: us rule: less_induct)
  case less
  show ?case
  proof (cases us rule: triple_cases)
    case (4 a b c ws)
    have "symbols (ws @ vs) 0 0 = symbols ws 0 0 @ symbols vs 0 0" using less.hyps [of ws] less.prems 4 by (simp add: mod_Suc split: if_splits)
    then show ?thesis unfolding 4 append_Cons symbols_short by simp
  qed (use less.prems in simp_all)
qed

lemma symbols_small: "list_all pos_ok vs \<Longrightarrow> \<forall>s\<in>set (symbols vs 0 0). unat s < 32"
proof (induction "length vs" arbitrary: vs rule: less_induct)
  case less
  have lo: "unat (of_nat v AND 31 :: byte) < 32" for v by (rule and_31)
  show ?case
  proof (cases vs rule: triple_cases)
    case (2 a)
    have "a div 32 < 3" using less.prems 2 by (simp add: pos_digit)
    then show ?thesis unfolding 2 symbols_short using lo by (simp add: group_symbol)
  next
    case (3 a b)
    have "a div 32 < 3" "b div 32 < 3" using less.prems 3 by (simp_all add: pos_digit)
    then have "a div 32 * 3 + b div 32 < 9" by simp
    then show ?thesis unfolding 3 symbols_short using lo group_symbol [of "a div 32 * 3 + b div 32"] by (simp del: of_nat_add of_nat_mult)
  next
    case (4 a b c ws)
    have "a div 32 < 3" "b div 32 < 3" "c div 32 < 3" using less.prems 4 by (simp_all add: pos_digit)
    then have "(a div 32 * 3 + b div 32) * 3 + c div 32 < 27" by simp
    moreover have "\<forall>s\<in>set (symbols ws 0 0). unat s < 32" using less.hyps [of ws] less.prems 4 by simp
    ultimately show ?thesis
      unfolding 4 symbols_short using lo group_symbol [of "(a div 32 * 3 + b div 32) * 3 + c div 32"] by (simp del: of_nat_add of_nat_mult symbols.simps)
  qed simp
qed

lemma length_symbols: "length vs = length ws \<Longrightarrow> length (symbols vs grp n) = length (symbols ws grp' n)"
  by (induction vs ws arbitrary: grp grp' n rule: list_induct2) (simp_all add: Let_def)

lemma length_symbols_6: "length vs \<le> 6 \<Longrightarrow> length (symbols vs 0 0) \<le> 8"
proof -
  assume l: "length vs \<le> 6"
  have "length (symbols vs 0 0) = length (symbols (replicate (length vs) 0) 0 0)" by (rule length_symbols) simp
  moreover have "length vs = 0 \<or> length vs = 1 \<or> length vs = 2 \<or> length vs = 3 \<or> length vs = 4 \<or> length vs = 5 \<or> length vs = 6" using l by arith
  ultimately show ?thesis by (auto simp: Let_def eval_nat_numeral)
qed

lemma positions_append:
  "positions (a @ b) = (case positions a of None \<Rightarrow> None | Some va \<Rightarrow> map_option ((@) va) (positions b))"
proof (induction a)
  case Nil
  show ?case by (cases "positions b") simp_all
next
  case (Cons c cs)
  then show ?case by (cases "positions cs"; cases "positions b") (auto split: option.split)
qed

lemma positions_ok: "positions t = Some vs \<Longrightarrow> list_all pos_ok vs \<and> length vs = length t"
proof (induction t arbitrary: vs)
  case (Cons c cs)
  have "length input_charset = 95" by code_simp
  moreover obtain v ws where v: "memchr c input_charset = Some v" "positions cs = Some ws" "vs = v # ws"
    using Cons.prems by (auto split: option.splits)
  ultimately show ?case using Cons.IH [OF v(2)] memchr_Some [OF v(1)] by (simp add: pos_ok_def)
qed simp

lemma positions_inj: "positions s = Some vs \<Longrightarrow> positions t = Some vs \<Longrightarrow> s = t"
proof (induction s arbitrary: t vs)
  case Nil
  then show ?case using positions_ok [of t "[]"] by simp
next
  case (Cons c cs)
  then obtain v vs' where v: "memchr c input_charset = Some v" "positions cs = Some vs'" "vs = v # vs'" by (auto split: option.splits)
  then obtain d ds where t: "t = d # ds" using Cons.prems positions_ok [of t vs] by (cases t) auto
  then have "memchr d input_charset = Some v" "positions ds = Some vs'" using Cons.prems v by (auto split: option.splits)
  then show ?case using v Cons.IH t memchr_Some [of c] memchr_Some [of d] by metis
qed

text \<open>A change within four adjacent characters stays within two groups.\<close>

lemma split_groups:
  fixes ps us us' ss :: bytes
  assumes "length us = length us'" and "length us \<le> 4"
  obtains A M M' B where "ps @ us @ ss = A @ M @ B" "ps @ us' @ ss = A @ M' @ B" "length A mod 3 = 0" "length M = length M'"
    "length M \<le> 6" "length M mod 3 = 0 \<or> B = []"
proof -
  define k where "k = length ps - length ps mod 3"
  have k: "k mod 3 = 0" "k \<le> length ps" "length ps - k \<le> 2" unfolding k_def by presburger+
  let ?x = "drop k ps @ us @ ss" and ?y = "drop k ps @ us' @ ss"
  have l: "length (drop k ps @ us) \<le> 6" "length (drop k ps @ us') \<le> 6" using k(3) assms by simp_all
  have sp: "ps @ us @ ss = take k ps @ take 6 ?x @ drop 6 ?x" "ps @ us' @ ss = take k ps @ take 6 ?y @ drop 6 ?y"
    by (metis append_take_drop_id append.assoc)+
  have B: "drop 6 ?y = drop 6 ?x" using l assms(1) by simp
  have "length (take 6 z) mod 3 = 0 \<or> drop 6 z = []" for z :: bytes by (cases "6 \<le> length z") simp_all
  then have m: "length (take 6 ?x) mod 3 = 0 \<or> drop 6 ?x = []" .
  show ?thesis
    by (rule that [OF sp(1) sp(2) [unfolded B] _ _ _ m]) (use k assms in auto)
qed

lemma feed_symbols_bound: "list_all pos_ok vs \<Longrightarrow> unat (bch.feed 1 (map ucast (symbols vs 0 0) @ replicate 8 0)) < 2 ^ 40"
proof (rule bch.feed_bound)
  assume "list_all pos_ok vs"
  then show "\<forall>v\<in>set (map ucast (symbols vs 0 0) @ replicate 8 0). unat (v :: u64) < 2 ^ 40"
    using symbols_small [of vs] by (auto simp: unat_ucast_widen intro: less_trans)
qed simp

lemma checksum_differs:
  assumes "length us = length us'" and "length us \<le> 4" and "us \<noteq> us'" and "checksum_of (ps @ us @ ss) = Some chk" and "checksum_of (ps @ us' @ ss) = Some chk'"
  shows "checksum_chars chk \<noteq> checksum_chars chk'"
proof -
  obtain A M M' B where sp: "ps @ us @ ss = A @ M @ B" "ps @ us' @ ss = A @ M' @ B" "length A mod 3 = 0" "length M = length M'"
    "length M \<le> 6" "length M mod 3 = 0 \<or> B = []" using split_groups [OF assms(1,2)] by metis
  have ne: "M \<noteq> M'" using sp(1,2) assms(3) by (metis append_same_eq same_append_eq)
  obtain va vm vb where v: "positions A = Some va" "positions M = Some vm" "positions B = Some vb" "positions (ps @ us @ ss) = Some (va @ vm @ vb)"
    using assms(4) unfolding sp(1) checksum_of_def positions_append by (auto split: option.splits)
  obtain vm' where v': "positions M' = Some vm'" "positions (ps @ us' @ ss) = Some (va @ vm' @ vb)"
    using assms(5) v(1,3) unfolding sp(2) checksum_of_def positions_append by (auto split: option.splits)
  note ok = positions_ok [OF v(1)] positions_ok [OF v(2)] positions_ok [OF v(3)] positions_ok [OF v'(1)]
  have sym: "symbols (va @ w @ vb) 0 0 = symbols va 0 0 @ symbols w 0 0 @ symbols vb 0 0" if "length w = length M" for w
    using sp(3,6) ok that by (auto simp: symbols_append)
  have "vm \<noteq> vm'" using ne positions_inj v(2) v'(1) by metis
  then have d: "symbols vm 0 0 \<noteq> symbols vm' 0 0" using symbols_inj ok sp(4) by metis
  have w: "length vm = length M" "length vm' = length M" using ok sp(4) by auto
  let ?f = "\<lambda>w. bch.feed 1 (map ucast (symbols (va @ w @ vb) 0 0) @ replicate 8 0)"
  have inj: "inj (ucast :: byte \<Rightarrow> u64)" by (rule inj_ucast_widen) simp
  have "bch.feed 1 (map ucast (symbols va 0 0) @ map ucast (symbols vm 0 0) @ map ucast (symbols vb 0 0) @ replicate 8 0) \<noteq>
      bch.feed 1 (map ucast (symbols va 0 0) @ map ucast (symbols vm' 0 0) @ map ucast (symbols vb 0 0) @ replicate 8 0)"
  proof (rule bch.burst_detected)
    show "length (map ucast (symbols vm 0 0) :: u64 list) = length (map ucast (symbols vm' 0 0) :: u64 list)"
      using length_symbols [of vm vm'] w by simp
    show "map ucast (symbols vm 0 0) \<noteq> (map ucast (symbols vm' 0 0) :: u64 list)" using d inj by (simp add: inj_map_eq_map)
    show "length (map ucast (symbols vm 0 0) :: u64 list) * length generators \<le> 40"
      using length_symbols_6 [of vm] w(1) sp(5) by simp
    show "\<forall>v\<in>set (map ucast (symbols vm 0 0)) \<union> set (map ucast (symbols vm' 0 0)). unat (v :: u64) < 2 ^ length generators"
      using symbols_small ok by (auto simp: unat_ucast_widen)
  qed
  then have df: "?f vm \<noteq> ?f vm'" using sym w by simp
  have c: "chk = ?f vm XOR 1" "chk' = ?f vm' XOR 1" using assms(4,5) v(4) v'(2) by (auto simp: checksum_of_def)
  have b: "unat (?f vm) < 2 ^ 40" "unat (?f vm') < 2 ^ 40" using feed_symbols_bound ok by simp_all
  have "unat chk < 2 ^ 40" "unat chk' < 2 ^ 40" unfolding c by (rule bch.small_xor, rule b, simp)+
  moreover have "chk \<noteq> chk'" using df unfolding c by (metis word_xor_cancel)
  ultimately show ?thesis using checksum_chars_inj by metis
qed

text \<open>C26. A mistyped or misread descriptor is refused: for a text that carries a valid checksum, every change of up to
  four adjacent characters makes the same checksum invalid, wherever it is and whatever characters it puts there.\<close>

theorem descriptor_checksum_detects:
  assumes "descriptor_checksum_valid (ps @ us @ ss) checksum = Some True" and "length checksum = 8"
    and "length us' = length us" and "length us \<le> 4" and "us' \<noteq> us"
  shows "descriptor_checksum_valid (ps @ us' @ ss) checksum = Some False"
  using assms(1) checksum_differs [of us us' ps ss] assms(3-5) by (auto simp: checksum_valid_eq [OF assms(2)] split: option.splits)

theorem descriptor_checksum_detects_witness:
  "\<exists>checksum. descriptor_checksum_valid (str ''raw('' @ str ''dead'' @ str ''beef)'') checksum = Some True \<and>
     descriptor_checksum_valid (str ''raw('' @ str ''beef'' @ str ''beef)'') checksum = Some False"
proof -
  have "\<exists>vs. positions (str ''raw('' @ str ''dead'' @ str ''beef)'') = Some vs"
    by (simp add: input_charset_def chr_def)
  then obtain chk where c: "checksum_of (str ''raw('' @ str ''dead'' @ str ''beef)'') = Some chk" by (auto simp: checksum_of_def)
  have l: "length (checksum_chars chk) = 8" by (simp add: checksum_chars_def)
  have "descriptor_checksum_valid (str ''raw('' @ str ''dead'' @ str ''beef)'') (checksum_chars chk) = Some True"
    unfolding checksum_valid_eq [OF l] c by simp
  moreover from this have "descriptor_checksum_valid (str ''raw('' @ str ''beef'' @ str ''beef)'') (checksum_chars chk) = Some False"
    by (rule descriptor_checksum_detects [OF _ l]) (simp_all add: chr_def)
  ultimately show ?thesis by blast
qed

section \<open>Child paths\<close>

lemma child_digits_eq:
  assumes "unat a < 10 ^ digits" and "digits \<le> 10"
  shows "\<exists>ds. child_digits a digits p = (of_nat (dec_value (unat a) ds), digits + length ds, drop (length ds) p) \<and>
    ds = take (length ds) p \<and> list_all is_digit ds \<and> digits + length ds \<le> 10 \<and> dec_value (unat a) ds < 10 ^ (digits + length ds) \<and>
    (digits + length ds < 10 \<longrightarrow> drop (length ds) p = [] \<or> \<not> is_digit (hd (drop (length ds) p)))"
  using assms
proof (induction p arbitrary: a digits)
  case Nil
  then show ?case by (intro exI [of _ "[]"]) simp
next
  case (Cons c p)
  show ?case
  proof (cases "is_digit c \<and> digits < 10")
    case False
    then show ?thesis using Cons.prems by (intro exI [of _ "[]"]) auto
  next
    case True
    let ?a = "a * 10 + ucast (c - chr CHR ''0'') :: u64"
    have c: "unat c - 48 < 10" "48 \<le> unat c" using True by (auto simp: is_digit_unat)
    have "unat (c - chr CHR ''0'') = unat c - 48" using c(2) unat_sub [of 48 c] by (simp add: chr_def word_le_nat_alt)
    then have u: "unat (ucast (c - chr CHR ''0'') :: u64) = unat c - 48" by (simp add: unat_ucast_widen)
    have lt: "unat a * 10 + (unat c - 48) < 10 ^ (digits + 1)" using Cons.prems(1) c(1) by simp
    also have "\<dots> \<le> 10 ^ 10" using True by (intro power_increasing) simp_all
    finally have "unat a * 10 + (unat c - 48) < 2 ^ 64" by simp
    moreover have "?a = of_nat (unat a * 10 + (unat c - 48))" unfolding u [symmetric] by simp
    ultimately have a: "unat ?a = unat a * 10 + (unat c - 48)" by (simp only: unat_of_nat) (simp add: take_bit_eq_mod)
    obtain ds where ds: "child_digits ?a (digits + 1) p = (of_nat (dec_value (unat ?a) ds), digits + 1 + length ds, drop (length ds) p)"
        "ds = take (length ds) p" "list_all is_digit ds" "digits + 1 + length ds \<le> 10" "dec_value (unat ?a) ds < 10 ^ (digits + 1 + length ds)"
        "digits + 1 + length ds < 10 \<longrightarrow> drop (length ds) p = [] \<or> \<not> is_digit (hd (drop (length ds) p))"
      using Cons.IH [of ?a "digits + 1"] lt True unfolding a by auto
    show ?thesis using ds True unfolding a by (intro exI [of _ "c # ds"]) auto
  qed
qed

text \<open>The pair of a child path in either notation.\<close>

definition child_text :: "bool \<Rightarrow> bytes \<Rightarrow> bytes \<Rightarrow> bytes" where
  "child_text angle da db = (if angle then str ''/<'' @ da @ str '';'' @ db @ str ''>/*'' else str ''/{'' @ da @ str '','' @ db @ str ''}/*'')"

definition index_digits :: "bytes \<Rightarrow> bool" where
  "index_digits ds \<longleftrightarrow> ds \<noteq> [] \<and> length ds \<le> 10 \<and> list_all is_digit ds \<and> dec_value 0 ds \<le> 0x7fffffff"

lemma child_pair_len: "a \<le> BIP32_MAX_CHILD_INDEX \<Longrightarrow> b \<le> BIP32_MAX_CHILD_INDEX \<Longrightarrow> length (child_pair a b) < 27"
proof -
  assume "a \<le> BIP32_MAX_CHILD_INDEX" "b \<le> BIP32_MAX_CHILD_INDEX"
  then have "unat a < 10 ^ 10" "unat b < 10 ^ 10" by (auto simp: BIP32_MAX_CHILD_INDEX_def word_le_nat_alt)
  then show ?thesis using length_decimal [of "unat a" 10] length_decimal [of "unat b" 10] by (simp add: child_pair_def)
qed

lemma canonical_child_total: "27 \<le> child_len \<Longrightarrow> \<exists>r. canonical_child rest child_len = Some r"
  by (simp add: canonical_child_def Let_def split: prod.split)

lemma canonical_child_Some:
  assumes "27 \<le> child_len"
  shows "\<exists>r. canonical_child rest child_len = Some r \<and> (\<forall>child. r = Some child \<longrightarrow>
    rest = str ''/**'' \<and> child = str ''/<0;1>/*'' \<or>
    (\<exists>angle da db. rest = child_text angle da db \<and> index_digits da \<and> index_digits db \<and>
       child = child_pair (of_nat (dec_value 0 da)) (of_nat (dec_value 0 db))))"
proof -
  let ?open = "rest ! 1"
  obtain da where da: "child_digits 0 0 (drop 2 rest) = (of_nat (dec_value 0 da), length da, drop (length da) (drop 2 rest))"
      "da = take (length da) (drop 2 rest)" "list_all is_digit da" "length da \<le> 10" "dec_value 0 da < 10 ^ length da"
    using child_digits_eq [of 0 0 "drop 2 rest"] by auto
  define p where "p = drop (length da) (drop 2 rest)"
  obtain db where db: "child_digits 0 0 (drop 1 p) = (of_nat (dec_value 0 db), length db, drop (length db) (drop 1 p))"
      "db = take (length db) (drop 1 p)" "list_all is_digit db" "length db \<le> 10" "dec_value 0 db < 10 ^ length db"
    using child_digits_eq [of 0 0 "drop 1 p"] by auto
  define q where "q = drop (length db) (drop 1 p)"
  have small: "unat (of_nat (dec_value 0 ds) :: u64) = dec_value 0 ds" if "dec_value 0 ds < 10 ^ length ds" "length ds \<le> 10" for ds
  proof -
    have "dec_value 0 ds < 10 ^ 10" using that by (meson less_le_trans one_le_numeral power_increasing)
    then show ?thesis by (simp add: unat_of_nat take_bit_eq_mod)
  qed
  have idx: "index_digits ds" if "length ds \<noteq> 0" "\<not> of_nat (dec_value 0 ds) > BIP32_MAX_CHILD_INDEX" "list_all is_digit ds" "length ds \<le> 10" "dec_value 0 ds < 10 ^ length ds" for ds
    using that small [of ds] by (auto simp: index_digits_def BIP32_MAX_CHILD_INDEX_def word_less_nat_alt)
  show ?thesis
  proof (cases "\<exists>child. canonical_child rest child_len = Some (Some child) \<and> rest \<noteq> str ''/**''")
    case False
    obtain r where r: "canonical_child rest child_len = Some r" using canonical_child_total [OF assms] by blast
    moreover have "child = str ''/<0;1>/*'' \<and> rest = str ''/**''" if "r = Some child" for child
      using False r that assms by (auto simp: canonical_child_def)
    ultimately show ?thesis by blast
  next
    case True
    then obtain child where c: "canonical_child rest child_len = Some (Some child)" "rest \<noteq> str ''/**''" by blast
    from c have g: "8 \<le> length rest" "rest ! 0 = chr CHR ''/''" "?open = chr CHR ''<'' \<or> ?open = chr CHR ''{''"
        "length da \<noteq> 0" "\<not> of_nat (dec_value 0 da) > BIP32_MAX_CHILD_INDEX" "p \<noteq> []" "hd p = (if ?open = chr CHR ''<'' then chr CHR '';'' else chr CHR '','')"
        "length db \<noteq> 0" "\<not> of_nat (dec_value 0 db) > BIP32_MAX_CHILD_INDEX" "q \<noteq> []" "hd q = (if ?open = chr CHR ''<'' then chr CHR ''>'' else chr CHR ''}'')"
        "drop 1 q = str ''/*''" "child = child_pair (of_nat (dec_value 0 da)) (of_nat (dec_value 0 db))"
      unfolding canonical_child_def da(1) p_def [symmetric] db(1) q_def [symmetric] Let_def
      by (simp_all add: db(1) [unfolded One_nat_def] q_def split: if_splits)
    have r: "rest = [rest ! 0, ?open] @ drop 2 rest" using g(1) by (cases rest; cases "tl rest") auto
    have "drop 2 rest = da @ p" using da(2) unfolding p_def by (metis append_take_drop_id)
    moreover have "p = hd p # drop 1 p" using g(6) by (cases p) simp_all
    moreover have "drop 1 p = db @ q" using db(2) unfolding q_def by (metis append_take_drop_id)
    moreover have "q = hd q # drop 1 q" using g(10) by (cases q) simp_all
    ultimately have "rest = [rest ! 0, ?open] @ da @ [hd p] @ db @ [hd q] @ str ''/*''" using r g(12) by (metis append.assoc append_Cons append_Nil)
    then have "rest = child_text (?open = chr CHR ''<'') da db" using g(2,3,7,11) by (auto simp: child_text_def)
    then show ?thesis
      using c(1) g(13) idx [OF g(4,5) da(3-5)] idx [OF g(8,9) db(3-5)] by (intro exI [of _ "Some child"]) blast
  qed
qed

lemma child_digits_append:
  assumes "list_all is_digit ds" and "length ds \<le> 10" and "\<not> is_digit c"
  shows "child_digits 0 0 (ds @ c # p) = (of_nat (dec_value 0 ds), length ds, c # p)"
proof -
  obtain es where es: "child_digits 0 0 (ds @ c # p) = (of_nat (dec_value 0 es), length es, drop (length es) (ds @ c # p))"
      "es = take (length es) (ds @ c # p)" "list_all is_digit es" "length es \<le> 10"
      "length es < 10 \<longrightarrow> drop (length es) (ds @ c # p) = [] \<or> \<not> is_digit (hd (drop (length es) (ds @ c # p)))"
    using child_digits_eq [of 0 0 "ds @ c # p"] by auto
  have "\<not> length ds < length es"
  proof
    assume l: "length ds < length es"
    then have "es ! length ds = c" using es(2) by (metis nth_append_length nth_take)
    then show False using l es(3) assms(3) by (auto simp: list_all_length)
  qed
  moreover have "\<not> length es < length ds"
  proof
    assume l: "length es < length ds"
    then have "\<not> is_digit (ds ! length es)" using es(5) assms(2) by (simp add: hd_append hd_drop_conv_nth)
    then show False using l assms(1) by (auto simp: list_all_length)
  qed
  ultimately have "length es = length ds" by simp
  then show ?thesis using es(1,2) by simp
qed

lemma canonical_child_text:
  assumes "27 \<le> child_len" and "index_digits da" and "index_digits db"
  shows "canonical_child (child_text angle da db) child_len = Some (Some (child_pair (of_nat (dec_value 0 da)) (of_nat (dec_value 0 db))))"
proof -
  let ?sep = "if angle then chr CHR '';'' else chr CHR '',''" and ?open = "if angle then chr CHR ''<'' else chr CHR ''{''"
    and ?close = "if angle then chr CHR ''>'' else chr CHR ''}''"
  have t: "child_text angle da db = chr CHR ''/'' # ?open # da @ ?sep # db @ ?close # str ''/*''" by (simp add: child_text_def)
  have nd: "\<not> is_digit ?sep" "\<not> is_digit ?close" by (auto simp: is_digit_def chr_def)
  have d: "child_digits 0 0 (da @ ?sep # db @ ?close # str ''/*'') = (of_nat (dec_value 0 da), length da, ?sep # db @ ?close # str ''/*'')"
      "child_digits 0 0 (db @ ?close # str ''/*'') = (of_nat (dec_value 0 db), length db, ?close # str ''/*'')"
    by (rule child_digits_append; use assms nd in \<open>simp add: index_digits_def\<close>)+
  have i: "\<not> of_nat (dec_value 0 ds) > BIP32_MAX_CHILD_INDEX" if "index_digits ds" for ds
    using that by (simp add: index_digits_def BIP32_MAX_CHILD_INDEX_def word_less_nat_alt unat_of_nat take_bit_eq_mod)
  then have "length (child_pair (of_nat (dec_value 0 da)) (of_nat (dec_value 0 db))) < child_len"
    using child_pair_len [of "of_nat (dec_value 0 da)" "of_nat (dec_value 0 db)"] assms by (simp add: not_less)
  moreover have "da \<noteq> []" "db \<noteq> []" using assms(2,3) by (auto simp: index_digits_def)
  moreover have "2 \<le> length da + length db" using calculation(2,3) by (cases da; cases db) auto
  moreover have "child_text angle da db \<noteq> str ''/**''" unfolding t by (auto simp: chr_def)
  moreover have "?open = chr CHR ''<'' \<longleftrightarrow> angle" "?open = chr CHR ''<'' \<or> ?open = chr CHR ''{''" by (auto simp: chr_def)
  ultimately show ?thesis
    using assms(1) i [OF assms(2)] i [OF assms(3)]
    unfolding canonical_child_def t Let_def by (simp add: d del: str_Cons)
qed

text \<open>C27. The child path is canonicalised without changing which keys it names: exactly \<open>/**\<close> and the pairs
  \<open>/<a;b>/*\<close> and \<open>/{a,b}/*\<close> with unhardened indices of at most ten digits are accepted, and the canonical text carries
  the same two numbers. A number that does not fit, however written, is refused and never wraps.\<close>

theorem canonical_child_exact:
  assumes "27 \<le> child_len"
  shows "canonical_child rest child_len = Some (Some child) \<longleftrightarrow>
    rest = str ''/**'' \<and> child = str ''/<0;1>/*'' \<or>
    (\<exists>angle da db. rest = child_text angle da db \<and> index_digits da \<and> index_digits db \<and>
       child = child_pair (of_nat (dec_value 0 da)) (of_nat (dec_value 0 db)))"
    (is "_ \<longleftrightarrow> ?R")
proof
  assume "canonical_child rest child_len = Some (Some child)"
  then show ?R using canonical_child_Some [OF assms, of rest] by (metis option.inject)
next
  assume ?R
  then show "canonical_child rest child_len = Some (Some child)"
  proof (elim disjE conjE exE)
    assume "rest = str ''/**''" "child = str ''/<0;1>/*''"
    then show ?thesis using assms by (simp add: canonical_child_def)
  qed (use canonical_child_text [OF assms] in blast)
qed

theorem canonical_child_exact_witness:
  "canonical_child (str ''/{07,2147483647}/*'') 32 = Some (Some (str ''/<7;2147483647>/*'')) \<and>
   canonical_child (str ''/<0;4294967296>/*'') 32 \<noteq> Some (Some (str ''/<0;0>/*''))"
proof
  have t: "str ''/{07,2147483647}/*'' = child_text False (str ''07'') (str ''2147483647'')" by (simp add: child_text_def)
  have i: "index_digits (str ''07'')" "index_digits (str ''2147483647'')" by (simp_all add: index_digits_def is_digit_def chr_def)
  have "dec_value 0 (str ''07'') = 7" "dec_value 0 (str ''2147483647'') = 2147483647" by (simp_all add: chr_def)
  moreover have "decimal 7 = str ''7''" "decimal 2147483647 = str ''2147483647''" by (simp_all add: decimal.simps chr_def)
  ultimately have c: "str ''/<7;2147483647>/*'' = child_pair (of_nat (dec_value 0 (str ''07''))) (of_nat (dec_value 0 (str ''2147483647'')))"
    by (simp add: child_pair_def del: dec_value.simps)
  show "canonical_child (str ''/{07,2147483647}/*'') 32 = Some (Some (str ''/<7;2147483647>/*''))"
    by (rule canonical_child_exact [THEN iffD2, rotated], use c t i in blast, simp)
  show "canonical_child (str ''/<0;4294967296>/*'') 32 \<noteq> Some (Some (str ''/<0;0>/*''))" by code_simp
qed

section \<open>Key expressions\<close>

lemma fingerprint_loop_eq:
  assumes "\<forall>i\<in>set is. i < length tok"
  shows "\<exists>r. fingerprint_loop tok value_len is val = Some r \<and> (\<forall>v. r = Inr v \<longrightarrow>
    v = val @ map (\<lambda>i. tolower_b (tok ! i)) is \<and> (\<forall>i\<in>set is. i \<noteq> 0 \<longrightarrow> isxdigit (tok ! i)) \<and> (is \<noteq> [] \<longrightarrow> length v < value_len))"
  using assms
proof (induction "is" arbitrary: val)
  case (Cons i "is")
  have g: "buf_get tok i = Some (tok ! i)" using Cons.prems by (simp add: buf_get_def)
  obtain r where r: "fingerprint_loop tok value_len is (val @ [tolower_b (tok ! i)]) = Some r" "\<forall>v. r = Inr v \<longrightarrow>
      v = (val @ [tolower_b (tok ! i)]) @ map (\<lambda>i. tolower_b (tok ! i)) is \<and> (\<forall>i\<in>set is. i \<noteq> 0 \<longrightarrow> isxdigit (tok ! i)) \<and> (is \<noteq> [] \<longrightarrow> length v < value_len)"
    using Cons.IH [of "val @ [tolower_b (tok ! i)]"] Cons.prems by auto
  then show ?case using g by (cases "is") auto
qed simp

definition harden_char :: "byte \<Rightarrow> byte" where
  "harden_char c = (if c = chr CHR 0x27 then chr CHR ''h'' else c)"

lemma origin_loop_Inr:
  "origin_loop value_len p val = Inr v \<Longrightarrow> v = val @ map harden_char p \<and> (p \<noteq> [] \<longrightarrow> length v < value_len)"
proof (induction p arbitrary: val)
  case (Cons c p)
  then have o: "origin_loop value_len p (val @ [harden_char c]) = Inr v" "length val + 1 < value_len"
    by (auto simp: Let_def harden_char_def split: if_splits)
  then show ?case using Cons.IH [OF o(1)] by (cases p) auto
qed simp

text \<open>What is kept of a key expression: the fingerprint in lower case, the path with \<open>h\<close>, and the key itself.\<close>

lemma key_body_total: "27 \<le> child_len \<Longrightarrow> \<exists>r. key_body p val value_len child_len = Some r"
  using canonical_child_total [of child_len "drop (length (takeWhile (\<lambda>c. c \<noteq> chr CHR ''/'') p)) p"] by (auto simp: key_body_def Let_def)

lemma key_body_Inr:
  assumes "key_body p val value_len child_len = Some (Inr (v, child))"
  shows "\<exists>body rest. p = body @ rest \<and> body \<noteq> [] \<and> chr CHR ''/'' \<notin> set body \<and> v = val @ body \<and> length v < value_len \<and>
    canonical_child rest child_len = Some (Some child)"
proof -
  let ?body = "takeWhile (\<lambda>c. c \<noteq> chr CHR ''/'') p"
  have "p = ?body @ drop (length ?body) p" by (metis dropWhile_eq_drop takeWhile_dropWhile_id)
  moreover have "chr CHR ''/'' \<notin> set ?body" by (auto dest: set_takeWhileD)
  moreover have "?body \<noteq> []" "v = val @ ?body" "length v < value_len" "canonical_child (drop (length ?body) p) child_len = Some (Some child)"
    using assms by (auto simp: key_body_def Let_def split: if_splits Option.bind_splits option.splits)
  ultimately show ?thesis by blast
qed

lemma canonical_key_total:
  assumes "tok \<noteq> []" and "27 \<le> child_len"
  shows "\<exists>r. canonical_key tok value_len child_len = Some r"
proof -
  have g: "buf_get tok 0 = Some (tok ! 0)" using assms(1) by (simp add: buf_get_def)
  show ?thesis
  proof (cases "memchr (chr CHR '']'') tok")
    case None
    then show ?thesis using g by (simp add: canonical_key_def)
  next
    case (Some close_i)
    have l: "close_i < length tok" using memchr_Some [OF Some] by simp
    show ?thesis
    proof (cases "close_i < 9")
      case True
      then show ?thesis using g Some by (simp add: canonical_key_def)
    next
      case False
      then have g9: "buf_get tok 9 = Some (tok ! 9)" using l by (simp add: buf_get_def)
      obtain r where "fingerprint_loop tok value_len [0..<9] [] = Some r" using fingerprint_loop_eq [of "[0..<9]" tok] False l by fastforce
      then show ?thesis
        using g g9 Some False key_body_total [OF assms(2)]
        by (simp add: canonical_key_def split: sum.split)
    qed
  qed
qed

lemma canonical_key_Inr:
  assumes "canonical_key tok value_len child_len = Some (Inr (val, child))" and "27 \<le> child_len"
  shows "\<exists>fp path body rest. tok = chr CHR ''['' # fp @ path @ chr CHR '']'' # body @ rest \<and> length fp = 8 \<and> list_all isxdigit fp \<and>
    (path = [] \<or> hd path = chr CHR ''/'') \<and> body \<noteq> [] \<and> chr CHR ''/'' \<notin> set body \<and>
    val = chr CHR ''['' # map tolower_b fp @ map harden_char path @ chr CHR '']'' # body \<and> length val < value_len \<and>
    canonical_child rest child_len = Some (Some child)"
proof -
  have ne: "tok \<noteq> []" using assms(1) by (auto simp: canonical_key_def buf_get_def)
  obtain i where i: "memchr (chr CHR '']'') tok = Some i" "\<not> i < 9"
    using assms(1) ne by (auto simp: canonical_key_def split: Option.bind_splits if_splits option.splits)
  have mi: "i < length tok" "tok ! i = chr CHR '']''" "chr CHR '']'' \<notin> set (take i tok)" using memchr_Some [OF i(1)] by simp_all
  have g: "buf_get tok 0 = Some (tok ! 0)" "buf_get tok 9 = Some (tok ! 9)" using ne mi(1) i(2) by (auto simp: buf_get_def)
  obtain r where r: "fingerprint_loop tok value_len [0..<9] [] = Some r" "\<forall>v. r = Inr v \<longrightarrow>
      v = map (\<lambda>i. tolower_b (tok ! i)) [0..<9] \<and> (\<forall>i\<in>set [0..<9]. i \<noteq> 0 \<longrightarrow> isxdigit (tok ! i))"
    using fingerprint_loop_eq [of "[0..<9]" tok value_len "[]"] mi(1) i(2) by force
  let ?path = "take (i - 9) (drop 9 tok)" and ?fp = "take 8 (drop 1 tok)"
  obtain v1 v2 where o: "r = Inr v1" "origin_loop value_len (take (i + 1 - 9) (drop 9 tok)) v1 = Inr v2" "tok ! 0 = chr CHR ''[''"
      "tok ! 9 = chr CHR ''/'' \<or> tok ! 9 = chr CHR '']''" "key_body (drop (i + 1) tok) v2 value_len child_len = Some (Inr (val, child))"
    using assms(1) g i r(1) by (simp add: canonical_key_def split: if_splits sum.splits)
  obtain body rest where kb: "drop (i + 1) tok = body @ rest" "body \<noteq> []" "chr CHR ''/'' \<notin> set body" "val = v2 @ body" "length val < value_len"
      "canonical_child rest child_len = Some (Some child)" using key_body_Inr [OF o(5)] by blast
  have nine: "take 9 tok = chr CHR ''['' # ?fp" using o(3) ne by (cases tok) simp_all
  have "map (\<lambda>i. tolower_b (tok ! i)) [0..<9] = map tolower_b (take 9 tok)"
    by (rule nth_equalityI) (use mi(1) i(2) in simp_all)
  then have v1: "v1 = map tolower_b (take 9 tok)" "\<forall>i\<in>{1..<9}. isxdigit (tok ! i)"
    using r(2) o(1) by (metis, metis atLeastLessThan_iff less_numeral_extra(3) not_one_le_zero set_upt zero_le)
  have fp: "length ?fp = 8" "list_all isxdigit ?fp"
    using v1(2) mi(1) i(2) by (auto simp: list_all_length)
  have origin: "take (i + 1 - 9) (drop 9 tok) = ?path @ [chr CHR '']'']"
  proof -
    have "i + 1 - 9 = Suc (i - 9)" using i(2) by simp
    moreover have "drop 9 tok ! (i - 9) = chr CHR '']''" using mi(1,2) i(2) by simp
    moreover have "i - 9 < length (drop 9 tok)" using mi(1) i(2) by simp
    ultimately show ?thesis by (simp only: take_Suc_conv_app_nth)
  qed
  have "tok = take 9 tok @ take (i + 1 - 9) (drop 9 tok) @ body @ rest"
    unfolding kb(1) [symmetric] using i(2) by (metis append_take_drop_id drop_drop le_add_diff_inverse2 not_less trans_le_add1)
  then have tok: "tok = chr CHR ''['' # ?fp @ ?path @ chr CHR '']'' # body @ rest" unfolding origin nine by simp
  have v2: "v2 = chr CHR ''['' # map tolower_b ?fp @ map harden_char ?path @ [chr CHR '']'']"
    using origin_loop_Inr [OF o(2)] unfolding v1(1) origin nine by (simp add: harden_char_def tolower_b_def chr_def)
  have path: "?path = [] \<or> hd ?path = chr CHR ''/''"
  proof (cases "i = 9")
    case False
    then have "tok ! 9 \<noteq> chr CHR '']''" using mi(3) i(2) by (metis in_set_conv_nth length_take min.absorb2 mi(1) less_imp_le_nat linorder_neqE_nat nth_take)
    then show ?thesis using o(4) False i(2) mi(1) by (simp add: hd_drop_conv_nth)
  qed simp
  show ?thesis using tok fp path kb(2-6) v2 by (intro exI [of _ ?fp] exI [of _ ?path] exI [of _ body] exI [of _ rest]) simp
qed

section \<open>The table of values\<close>

definition values_ok :: "string_value_t list \<Rightarrow> bool" where
  "values_ok vs \<longleftrightarrow> length vs \<le> MAX_ALLOWED_SIGNERS \<and> distinct (map sv_value vs) \<and>
     (\<forall>i < length vs. sv_key (vs ! i) = placeholder i \<and> length (sv_value (vs ! i)) < VALUE_SIZE \<and> 0 \<notin> set (sv_value (vs ! i)))"

lemma value_index_le: "value_index val vs \<le> length vs"
  by (induction vs) auto

lemma value_index_eq: "value_index val vs = length vs \<longleftrightarrow> val \<notin> set (map sv_value vs)"
proof (induction vs)
  case (Cons v vs)
  then show ?case using value_index_le [of val vs] by auto
qed simp

lemma value_index_nth: "val \<in> set (map sv_value vs) \<Longrightarrow> value_index val vs < length vs \<and> sv_value (vs ! value_index val vs) = val"
  by (induction vs) auto

lemma value_index_append: "val \<in> set (map sv_value vs) \<Longrightarrow> value_index val (vs @ ws) = value_index val vs"
  by (induction vs) auto

lemma length_placeholder: "i < 100 \<Longrightarrow> length (placeholder i) \<le> 3"
  using length_decimal [of i 2] by (simp add: placeholder_def)

lemma values_ok_snoc:
  assumes "values_ok vs" and "length vs < MAX_ALLOWED_SIGNERS" and "val \<notin> set (map sv_value vs)" and "length val < VALUE_SIZE" and "0 \<notin> set val"
  shows "values_ok (vs @ [\<lparr> sv_key = placeholder (length vs), sv_value = val \<rparr>])"
  using assms by (auto simp: values_ok_def nth_append less_Suc_eq)

lemma intern_value_ok:
  assumes "values_ok vs" and "length val < VALUE_SIZE" and "0 \<notin> set val"
  shows "\<exists>r. intern_value val vs = Some r \<and> (\<forall>index vs'. r = Inr (index, vs') \<longrightarrow>
    index = value_index val vs' \<and> val \<in> set (map sv_value vs') \<and> values_ok vs' \<and> (\<exists>ext. vs' = vs @ ext))"
proof (cases "value_index val vs = length vs")
  case False
  then have "val \<in> set (map sv_value vs)" using value_index_eq by metis
  then show ?thesis using False assms(1) by (auto simp: intern_value_def)
next
  case True
  then have new: "val \<notin> set (map sv_value vs)" using value_index_eq by metis
  let ?vs = "vs @ [\<lparr> sv_key = placeholder (length vs), sv_value = val \<rparr>]"
  show ?thesis
  proof (cases "length vs < MAX_ALLOWED_SIGNERS")
    case False
    then show ?thesis using True by (simp add: intern_value_def)
  next
    case room: True
    then have "length (placeholder (length vs)) < KEY_SIZE"
      using length_placeholder [of "length vs"] by (simp add: KEY_SIZE_def MAX_ALLOWED_SIGNERS_def)
    moreover have "value_index val (vs @ [\<lparr> sv_key = k, sv_value = val \<rparr>]) = length vs" for k using new by (induction vs) auto
    ultimately show ?thesis
      using True room assms(2) values_ok_snoc [OF assms(1) room new assms(2,3)] by (simp add: intern_value_def Let_def)
  qed
qed

section \<open>The template\<close>

text \<open>The text as a sequence of copied characters and key expressions, and what each becomes.\<close>

datatype token = Copied byte | Key bytes

fun token_text :: "token \<Rightarrow> bytes" where
  "token_text (Copied c) = [c]"
| "token_text (Key raw) = raw"

fun token_template :: "string_value_t list \<Rightarrow> token \<Rightarrow> bytes" where
  "token_template vs (Copied c) = [c]"
| "token_template vs (Key raw) = (case canonical_key raw VALUE_SIZE 32 of
     Some (Inr (val, child)) \<Rightarrow> placeholder (value_index (cstr val) vs) @ child
   | _ \<Rightarrow> [])"

text \<open>A key expression whose value is in the table.\<close>

fun token_ok :: "string_value_t list \<Rightarrow> token \<Rightarrow> bool" where
  "token_ok vs (Copied c) \<longleftrightarrow> True"
| "token_ok vs (Key raw) \<longleftrightarrow> (\<exists>val child. canonical_key raw VALUE_SIZE 32 = Some (Inr (val, child)) \<and> cstr val \<in> set (map sv_value vs))"

lemma token_extend: "token_ok vs tok \<Longrightarrow> token_ok (vs @ ext) tok \<and> token_template (vs @ ext) tok = token_template vs tok"
proof (cases tok)
  case (Key raw)
  assume "token_ok vs tok"
  then show ?thesis using Key by (auto simp: value_index_append)
qed simp

lemma cstr_ok: "0 \<notin> set (cstr s)" "length (cstr s) \<le> length s"
  unfolding cstr_def by (auto dest: set_takeWhileD simp: length_takeWhile_le)

lemma token_end_take: "take (length p - length (token_end n p)) p @ token_end n p = p"
proof -
  have "\<exists>q. p = q @ token_end n p"
  proof (induction p arbitrary: n)
    case (Cons c p)
    obtain q1 q2 q3 where "p = q1 @ token_end (n + 1) p" "p = q2 @ token_end (n - 1) p" "p = q3 @ token_end n p" using Cons by metis
    then have "c # p = (c # q1) @ token_end (n + 1) p" "c # p = (c # q2) @ token_end (n - 1) p" "c # p = (c # q3) @ token_end n p" by simp_all
    moreover have "c # p = [] @ (c # p)" by simp
    moreover have "token_end n (c # p) \<in> {token_end (n + 1) p, token_end (n - 1) p, c # p, token_end n p}" by simp
    ultimately show ?case by (metis insertE singletonD)
  qed simp
  then obtain q where "p = q @ token_end n p" by blast
  then have "take (length p - length (token_end n p)) p = q" by (metis add_diff_cancel_right' append_eq_conv_conj length_append)
  then show ?thesis using \<open>p = q @ token_end n p\<close> by simp
qed

lemma canonical_key_small: "canonical_key tok VALUE_SIZE 32 = Some (Inr (val, child)) \<Longrightarrow> length val < VALUE_SIZE"
  using canonical_key_Inr [of tok VALUE_SIZE 32 val child] by auto

text \<open>What the walk from \<open>p\<close> on has done to the table and the script.\<close>

definition template_post :: "bytes \<Rightarrow> string_value_t list \<Rightarrow> bytes \<Rightarrow> bytes + string_value_t list \<times> bytes \<Rightarrow> bool" where
  "template_post p vs script r \<longleftrightarrow> (\<forall>vs' script'. r = Inr (vs', script') \<longrightarrow>
     values_ok vs' \<and> (\<exists>ext. vs' = vs @ ext) \<and> length script' < MAX_DESCRIPTOR_SCRIPT_LEN \<and>
     (\<exists>toks. p = concat (map token_text toks) \<and> list_all (token_ok vs') toks \<and> script' = script @ concat (map (token_template vs') toks)))"

lemma template_post_token:
  assumes "template_post q vs1 (script @ token_template vs1 tok) r" and "p = token_text tok @ q" and "token_ok vs1 tok" and "vs1 = vs @ ext"
  shows "template_post p vs script r"
  unfolding template_post_def
proof (intro allI impI)
  fix vs' script' assume r: "r = Inr (vs', script')"
  obtain ext' toks where t: "values_ok vs'" "vs' = vs1 @ ext'" "length script' < MAX_DESCRIPTOR_SCRIPT_LEN" "q = concat (map token_text toks)"
      "list_all (token_ok vs') toks" "script' = (script @ token_template vs1 tok) @ concat (map (token_template vs') toks)"
    using assms(1) r by (auto simp: template_post_def)
  have e: "token_ok vs' tok" "token_template vs' tok = token_template vs1 tok" using token_extend [OF assms(3), of ext'] t(2) by simp_all
  have "p = concat (map token_text (tok # toks))" using t(4) assms(2) by simp
  moreover have "list_all (token_ok vs') (tok # toks)" using t(5) e(1) by simp
  moreover have "script' = script @ concat (map (token_template vs') (tok # toks))" using t(6) e(2) by simp
  moreover have "vs' = vs @ (ext @ ext')" using t(2) assms(4) by simp
  ultimately show "values_ok vs' \<and> (\<exists>ext. vs' = vs @ ext) \<and> length script' < MAX_DESCRIPTOR_SCRIPT_LEN \<and>
      (\<exists>toks. p = concat (map token_text toks) \<and> list_all (token_ok vs') toks \<and> script' = script @ concat (map (token_template vs') toks))"
    using t(1-3) assms(4) by blast
qed

lemma template_post_Inl: "template_post p vs script (Inl e)"
  by (simp add: template_post_def)

lemma template_loop_ok:
  assumes "values_ok vs" and "length script < MAX_DESCRIPTOR_SCRIPT_LEN"
  shows "\<exists>r. template_loop p prev vs script = Some r \<and> template_post p vs script r"
  using assms
proof (induction "length p" arbitrary: p prev vs script rule: less_induct)
  case less
  note eq = template_loop.simps [of p prev vs script]
  consider "p = []" | "p \<noteq> []" "(prev = chr CHR ''('' \<or> prev = chr CHR '','') \<and> is_key_start p"
    | "p \<noteq> []" "\<not> ((prev = chr CHR ''('' \<or> prev = chr CHR '','') \<and> is_key_start p)" by blast
  then show ?case
  proof cases
    case 1
    then show ?thesis using less.prems eq by (auto simp: template_post_def intro!: exI [of _ "[]"])
  next
    case 3
    show ?thesis
    proof (cases "length script + 1 \<ge> MAX_DESCRIPTOR_SCRIPT_LEN")
      case True
      then show ?thesis using 3 eq template_post_Inl by auto
    next
      case False
      obtain r where r: "template_loop (tl p) (hd p) vs (script @ [hd p]) = Some r" "template_post (tl p) vs (script @ [hd p]) r"
        using less.hyps [of "tl p" vs "script @ [hd p]" "hd p"] less.prems(1) False 3(1) by auto
      have "template_post p vs script r"
        by (rule template_post_token [of "tl p" vs script "Copied (hd p)"]) (use r(2) 3(1) in auto)
      then show ?thesis using r(1) 3 eq False by auto
    qed
  next
    case 2
    define tok where "tok = take (length p - length (token_end 0 p)) p"
    have tk: "p = tok @ token_end 0 p" "tok \<noteq> []" "length (token_end 0 p) < length p"
      using token_end_take [of p 0] token_end_shorter [of p] 2 by (auto simp: tok_def)
    note eq = eq [folded tok_def]
    obtain k where k: "canonical_key tok VALUE_SIZE 32 = Some k" using canonical_key_total [OF tk(2), of 32 VALUE_SIZE] by auto
    show ?thesis
    proof (cases k)
      case (Inl e)
      then show ?thesis using eq 2 k template_post_Inl by simp
    next
      case (Inr vc)
      then obtain val child where kc: "canonical_key tok VALUE_SIZE 32 = Some (Inr (val, child))" using k by (cases vc) simp
      have "length (cstr val) < VALUE_SIZE" using canonical_key_small [OF kc] cstr_ok(2) [of val] by simp
      then obtain i where i: "intern_value (cstr val) vs = Some i" "\<forall>index vs'. i = Inr (index, vs') \<longrightarrow>
          index = value_index (cstr val) vs' \<and> cstr val \<in> set (map sv_value vs') \<and> values_ok vs' \<and> (\<exists>ext. vs' = vs @ ext)"
        using intern_value_ok [OF less.prems(1) _ cstr_ok(1) [of val]] by blast
      show ?thesis
      proof (cases i)
        case (Inl e)
        then show ?thesis using eq 2 kc i(1) template_post_Inl by simp
      next
        case (Inr iv)
        then obtain index vs1 where iv: "i = Inr (index, vs1)" by (cases iv) simp
        then obtain ext where v1: "index = value_index (cstr val) vs1" "cstr val \<in> set (map sv_value vs1)" "values_ok vs1" "vs1 = vs @ ext"
          using i(2) by blast
        let ?t = "placeholder index @ child"
        have t: "token_template vs1 (Key tok) = ?t" "token_ok vs1 (Key tok)" using kc v1(1,2) by simp_all
        show ?thesis
        proof (cases "length ?t \<ge> MAX_DESCRIPTOR_SCRIPT_LEN - length script")
          case True
          then show ?thesis using eq 2 kc i(1) iv template_post_Inl by simp
        next
          case False
          obtain r where r: "template_loop (token_end 0 p) prev vs1 (script @ ?t) = Some r" "template_post (token_end 0 p) vs1 (script @ ?t) r"
            using less.hyps [OF tk(3) v1(3), of "script @ ?t" prev] less_diff_conv2 [of "length script" MAX_DESCRIPTOR_SCRIPT_LEN "length ?t"] False less.prems(2)
            by (auto simp: not_le less_diff_conv add.commute)
          have "template_post p vs script r"
            by (rule template_post_token [of "token_end 0 p" vs1 script "Key tok" r p vs ext]) (use r(2) t tk(1) v1(4) in auto)
          then show ?thesis using r(1) eq 2 kc i(1) iv False by simp
        qed
      qed
    qed
  qed
qed

section \<open>Parsing\<close>

lemma json_copy_total: "length out < out_len \<Longrightarrow> \<exists>r. json_copy_loop out_len p out = Some r"
  by (induction out_len p out rule: json_copy_loop.induct) (auto simp: jade_assert_def split: list.split)

lemma json_get_string_total: "0 < out_len \<Longrightarrow> \<exists>r. json_get_string json key out_len = Some r"
  using json_copy_total [of "[]" out_len] by (simp add: json_get_string_def Let_def split: option.split)

lemma unwrap_text_total: "\<exists>r. unwrap_text t = Some r"
proof -
  obtain r where "json_get_string (skip_ws t) (str ''descriptor'') (length t + 1) = Some r" using json_get_string_total [of "length t + 1"] by auto
  moreover obtain l where "json_get_string (skip_ws t) (str ''label'') (MAX_DESCRIPTOR_NAME_SIZE * 4) = Some l"
    using json_get_string_total [of "MAX_DESCRIPTOR_NAME_SIZE * 4"] by (auto simp: MAX_DESCRIPTOR_NAME_SIZE_def)
  ultimately show ?thesis by (cases r) (simp_all add: unwrap_text_def Let_def del: str_Cons)
qed

lemma checked_text_total: "\<exists>r. checked_text work = Some r"
proof (cases "memchr (chr CHR ''#'') (trim_end work)")
  case None
  then show ?thesis by (simp add: checked_text_def)
next
  case (Some hash)
  have "length (drop (hash + 1) (trim_end work)) = 8" if "length (trim_end work) - hash = 9" using that by simp
  then show ?thesis using Some checksum_valid_eq [of "drop (hash + 1) (trim_end work)"] by (simp add: checked_text_def Let_def)
qed

lemma hash_input_ok:
  assumes "string_values_len vs \<le> length rest"
  shows "\<exists>out. hash_input vs (writer pre rest) = Some (writer (pre @ out) (drop (string_values_len vs) rest)) \<and> length out = string_values_len vs"
proof -
  have "foldl (\<lambda>len v. len + length (sv_key v) + length (sv_value v)) n ws = n + sum_list (map (\<lambda>v. length (sv_key v) + length (sv_value v)) ws)" for n and ws :: "string_value_t list"
    by (induction ws arbitrary: n) simp_all
  then have len: "string_values_len ws = sum_list (map (\<lambda>v. length (sv_key v) + length (sv_value v)) ws)" for ws
    by (simp add: string_values_len_def)
  show ?thesis using assms
  proof (induction vs arbitrary: pre rest)
    case (Cons v vs)
    have "string_values_len vs \<le> length (drop (length (sv_key v) + length (sv_value v)) rest)" using Cons.prems by (simp add: len)
    from Cons.IH [OF this, of "pre @ sv_key v @ sv_value v"] obtain out where
      "hash_input vs (writer (pre @ sv_key v @ sv_value v) (drop (length (sv_key v) + length (sv_value v)) rest))
        = Some (writer ((pre @ sv_key v @ sv_value v) @ out) (drop (string_values_len vs) (drop (length (sv_key v) + length (sv_value v)) rest)))"
      "length out = string_values_len vs" by blast
    then show ?case using Cons.prems
      by (intro exI [of _ "sv_key v @ sv_value v @ out"]) (simp add: len put_writer add.commute add.left_commute)
  qed (simp add: string_values_len_def)
qed

definition fresh_ok :: "(nat \<Rightarrow> bytes) \<Rightarrow> bool" where
  "fresh_ok fresh \<longleftrightarrow> (\<forall>n. length (fresh n) = n)"

definition hash_ok :: "(bytes \<Rightarrow> bytes) \<Rightarrow> bool" where
  "hash_ok sha256 \<longleftrightarrow> (\<forall>x. length (sha256 x) = 32)"

lemma hex_byte_graph: "list_all isgraph (hex_byte b)"
proof -
  have d: "isgraph (hex_digit n)" if "unat n < 16" for n
  proof -
    have "unat (48 + n) = 48 + unat n" "unat (87 + n) = 87 + unat n" using that by (simp_all add: unat_plus_if' [where 'a = 8])
    then show ?thesis using that by (auto simp: hex_digit_def isgraph_def word_le_nat_alt word_less_nat_alt)
  qed
  have "unat (drop_bit 4 b) = unat b div 16" by (simp only: unat_drop_bit_eq) (simp add: drop_bit_eq_div)
  then have "unat (drop_bit 4 b) < 16" using unat_byte_lt [of b] less_mult_imp_div_less [of "unat b" 16 16] by simp
  moreover have "b AND 15 = take_bit 4 b" by (simp add: take_bit_eq_mask mask_eq_exp_minus_1)
  then have "unat (b AND 15) = take_bit 4 (unat b)" by (simp only: unsigned_take_bit_eq)
  then have "unat (b AND 15) < 16" by (simp only: take_bit_eq_mod) simp
  ultimately show ?thesis using d by (simp add: hex_byte_def)
qed

lemma make_hash_name_ok:
  assumes "fresh_ok fresh" and "hash_ok sha256" and "MAX_DESCRIPTOR_NAME_SIZE \<le> name_len"
  shows "\<exists>name. make_hash_name sha256 fresh d name_len = Some (Some name) \<and> length name = 13 \<and> list_all isgraph name"
proof -
  let ?n = "length (dd_script d) + string_values_len (dd_values d)"
  have l: "length (fresh ?n) = ?n" using assms(1) by (simp add: fresh_ok_def)
  have w0: "put (dd_script d) (fresh ?n, 0) = Some (writer (dd_script d) (drop (length (dd_script d)) (fresh ?n)))"
    using put_writer [of "dd_script d" "fresh ?n" "[]"] l by (simp add: writer_def)
  obtain out where out: "hash_input (dd_values d) (writer (dd_script d) (drop (length (dd_script d)) (fresh ?n)))
      = Some (writer (dd_script d @ out) (drop (string_values_len (dd_values d)) (drop (length (dd_script d)) (fresh ?n))))" "length out = string_values_len (dd_values d)"
    using hash_input_ok [of "dd_values d" "drop (length (dd_script d)) (fresh ?n)" "dd_script d"] l by auto
  then have w1: "hash_input (dd_values d) (writer (dd_script d) (drop (length (dd_script d)) (fresh ?n))) = Some (dd_script d @ out, ?n)"
    using l by (simp add: writer_def)
  let ?h = "sha256 (dd_script d @ out)"
  have h: "length ?h = 32" using assms(2) by (simp add: hash_ok_def)
  then have "?h \<noteq> []" by auto
  let ?name = "str ''desc-'' @ hex_byte (?h ! 0) @ hex_byte (?h ! 1) @ hex_byte (?h ! 2) @ hex_byte (?h ! 3)"
  have "length ?name = 13" by (simp add: hex_byte_def)
  moreover have "make_hash_name sha256 fresh d name_len = Some (Some ?name)"
    using h \<open>?h \<noteq> []\<close> assms(3) unfolding make_hash_name_def Let_def by (simp add: w0 w1 buf_get_def MAX_DESCRIPTOR_NAME_SIZE_def hex_byte_def)
  moreover have "list_all isgraph ?name" using hex_byte_graph by (simp add: isgraph_def chr_def)
  ultimately show ?thesis by blast
qed

lemma label_name_ok: "nlen < MAX_DESCRIPTOR_NAME_SIZE \<Longrightarrow> list_all isgraph (label_name nlen label) \<and> nlen + length (label_name nlen label) < MAX_DESCRIPTOR_NAME_SIZE"
proof (induction nlen label rule: label_name.induct)
  case (2 nlen c cs)
  then show ?case by (auto simp: isgraph_def chr_def)
qed simp

lemma name_valid: "name \<noteq> [] \<Longrightarrow> length name < 16 \<Longrightarrow> list_all isgraph name \<Longrightarrow> storage_key_name_valid name"
  by (simp add: storage_key_name_valid_def key_name_valid_loop_iff)

text \<open>What a successful parse has produced, in terms of the text it checked.\<close>

definition parse_post :: "bytes \<Rightarrow> descriptor_data_t \<Rightarrow> bytes \<Rightarrow> bool" where
  "parse_post t d name \<longleftrightarrow> descriptor_ok d \<and> dd_script d \<noteq> [] \<and> dd_values d \<noteq> [] \<and> values_ok (dd_values d) \<and>
     storage_key_name_valid name \<and> length name < MAX_DESCRIPTOR_NAME_SIZE \<and>
     (\<exists>work label toks. unwrap_text t = Some (Inr (work, label)) \<and> checked_text work = Some (Some (concat (map token_text toks))) \<and>
        list_all (token_ok (dd_values d)) toks \<and> dd_script d = concat (map (token_template (dd_values d)) toks))"

lemma token_template_ne: "token_ok vs tok \<Longrightarrow> token_template vs tok \<noteq> []"
  by (cases tok) (auto simp: placeholder_def)

lemma values_ok_descriptor:
  assumes "values_ok vs" and "length script < MAX_DESCRIPTOR_SCRIPT_LEN"
  shows "descriptor_ok \<lparr> dd_values = vs, dd_script = script, dd_type = t \<rparr>"
proof -
  have "value_ok v" if v: "v \<in> set vs" for v
  proof -
    obtain i where "i < length vs" "vs ! i = v" using v by (auto simp: in_set_conv_nth)
    moreover have "length vs < 100" using assms(1) by (simp add: values_ok_def MAX_ALLOWED_SIGNERS_def)
    ultimately have "length (sv_key v) \<le> 3" "length (sv_value v) < VALUE_SIZE"
      using assms(1) length_placeholder [of i] by (auto simp: values_ok_def)
    then show ?thesis by (simp add: value_ok_def KEY_SIZE_def)
  qed
  then show ?thesis using assms by (simp add: descriptor_ok_def values_ok_def list_all_iff)
qed

lemma parse_ok:
  assumes "t \<noteq> []" and "MAX_DESCRIPTOR_NAME_SIZE \<le> name_len" and "fresh_ok fresh" and "hash_ok sha256"
  shows "\<exists>r. descriptor_text_parse sha256 fresh t name_len = Some r \<and> (\<forall>d name. r = Inr (d, name) \<longrightarrow> parse_post t d name)"
proof -
  note eq = descriptor_text_parse_def [of sha256 fresh t name_len]
  obtain u where u: "unwrap_text t = Some u" using unwrap_text_total by blast
  show ?thesis
  proof (cases u)
    case (Inl e)
    then show ?thesis using eq assms(1,2) u by simp
  next
    case (Inr wl)
    then obtain work label where wl: "unwrap_text t = Some (Inr (work, label))" using u by (cases wl) simp
    obtain c where c: "checked_text work = Some c" using checked_text_total by blast
    show ?thesis
    proof (cases "c = None \<or> c = Some []")
      case True
      then show ?thesis using eq assms(1,2) wl c by auto
    next
      case False
      then obtain w where w: "c = Some w" "w \<noteq> []" by auto
      obtain r where r: "template_loop w (chr CHR ''('') [] [] = Some r" "template_post w [] [] r"
        using template_loop_ok [of "[]" "[]" w] by (auto simp: values_ok_def MAX_DESCRIPTOR_SCRIPT_LEN_def)
      show ?thesis
      proof (cases r)
        case (Inl e)
        then show ?thesis using eq assms(1,2) wl c w r by simp
      next
        case (Inr vss)
        then obtain vs script where r': "r = Inr (vs, script)" by (cases vss) simp
        obtain toks where p: "values_ok vs" "length script < MAX_DESCRIPTOR_SCRIPT_LEN" "w = concat (map token_text toks)" "list_all (token_ok vs) toks"
            "script = concat (map (token_template vs) toks)" using r(2) r' by (auto simp: template_post_def)
        let ?d = "\<lparr> dd_values = vs, dd_script = script, dd_type = DESCRIPTOR_TYPE_UNKNOWN \<rparr>"
        have "script \<noteq> []" using w(2) p(3-5) token_template_ne by (cases toks) auto
        then have post: "parse_post t ?d name" if "vs \<noteq> []" "name \<noteq> []" "list_all isgraph name" "length name < MAX_DESCRIPTOR_NAME_SIZE" for name
          using that wl c w(1) p values_ok_descriptor [OF p(1,2)] name_valid [of name] by (auto simp: parse_post_def MAX_DESCRIPTOR_NAME_SIZE_def)
        show ?thesis
        proof (cases "vs = [] \<or> label_name 0 label \<noteq> []")
          case True
          have "parse_post t ?d (label_name 0 label)" if "vs \<noteq> []"
            using post [OF that, of "label_name 0 label"] label_name_ok [of 0 label] True that by (simp add: MAX_DESCRIPTOR_NAME_SIZE_def)
          then show ?thesis using eq assms(1,2) wl c w r r' True by (auto simp: Let_def)
        next
          case False
          obtain name where n: "make_hash_name sha256 fresh ?d name_len = Some (Some name)" "length name = 13" "list_all isgraph name"
            using make_hash_name_ok [OF assms(3,4,2)] by blast
          then have "name \<noteq> []" by auto
          then have "parse_post t ?d name" using post [of name] False n(2,3) by (simp add: MAX_DESCRIPTOR_NAME_SIZE_def)
          then show ?thesis using eq assms(1,2) wl c w r r' False n(1) by (auto simp: Let_def)
        qed
      qed
    qed
  qed
qed

definition demo_text :: bytes where
  "demo_text = str ''wsh(multi(1,[AABBCCDD/0]xpubA/**,[aabbccdd]xpubB/{2,3}/*))''"

lemma demo_parse:
  "descriptor_text_parse (\<lambda>x. replicate 32 0) (\<lambda>n. replicate n 0) demo_text 16 =
     Some (Inr (\<lparr> dd_values = [\<lparr> sv_key = str ''@0'', sv_value = str ''[aabbccdd/0]xpubA'' \<rparr>, \<lparr> sv_key = str ''@1'', sv_value = str ''[aabbccdd]xpubB'' \<rparr>],
       dd_script = str ''wsh(multi(1,@0/<0;1>/*,@1/<2;3>/*))'', dd_type = DESCRIPTOR_TYPE_UNKNOWN \<rparr>, str ''desc-00000000''))"
  by code_simp

text \<open>C24. Parsing a descriptor text never reads or writes outside its buffers: for every text and label it returns, and a
  descriptor that it returns fits its arrays, has a script and at least one key, holds each key once under the keys
  \<open>@0\<close>, \<open>@1\<close>, \dots in order, and comes with a name that the storage accepts.\<close>

theorem descriptor_text_parse_safe:
  assumes "t \<noteq> []" and "MAX_DESCRIPTOR_NAME_SIZE \<le> name_len" and "fresh_ok fresh" and "hash_ok sha256"
  shows "\<exists>r. descriptor_text_parse sha256 fresh t name_len = Some r \<and>
    (\<forall>d name. r = Inr (d, name) \<longrightarrow> descriptor_ok d \<and> dd_script d \<noteq> [] \<and> dd_values d \<noteq> [] \<and> values_ok (dd_values d) \<and>
       storage_key_name_valid name \<and> length name < MAX_DESCRIPTOR_NAME_SIZE)"
  using parse_ok [OF assms] unfolding parse_post_def by blast

theorem descriptor_text_parse_safe_witness:
  "values_ok [\<lparr> sv_key = str ''@0'', sv_value = str ''[aabbccdd/0]xpubA'' \<rparr>, \<lparr> sv_key = str ''@1'', sv_value = str ''[aabbccdd]xpubB'' \<rparr>] \<and>
   storage_key_name_valid (str ''desc-00000000'')"
proof -
  have "demo_text \<noteq> []" by (simp add: demo_text_def)
  moreover have "fresh_ok (\<lambda>n. replicate n 0)" "hash_ok (\<lambda>x. replicate 32 0)" by (simp_all add: fresh_ok_def hash_ok_def)
  ultimately show ?thesis
    using descriptor_text_parse_safe [of demo_text 16 "\<lambda>n. replicate n 0" "\<lambda>x. replicate 32 0"] demo_parse
    by (simp add: MAX_DESCRIPTOR_NAME_SIZE_def del: str_Cons)
qed

text \<open>What a piece of the text has become in the script: a character is copied, and a key expression is replaced by the
  place of its value and its canonical child path.\<close>

definition key_piece :: "string_value_t list \<Rightarrow> bytes \<Rightarrow> bytes \<Rightarrow> bool" where
  "key_piece vs raw out \<longleftrightarrow> (\<exists>fp path body rest child i.
     raw = chr CHR ''['' # fp @ path @ chr CHR '']'' # body @ rest \<and> length fp = 8 \<and> list_all isxdigit fp \<and>
     (path = [] \<or> hd path = chr CHR ''/'') \<and> body \<noteq> [] \<and> chr CHR ''/'' \<notin> set body \<and>
     i < length vs \<and> sv_value (vs ! i) = cstr (chr CHR ''['' # map tolower_b fp @ map harden_char path @ chr CHR '']'' # body) \<and>
     canonical_child rest 32 = Some (Some child) \<and> out = placeholder i @ child)"

definition piece_ok :: "string_value_t list \<Rightarrow> bytes \<times> bytes \<Rightarrow> bool" where
  "piece_ok vs pc \<longleftrightarrow> (\<exists>c. pc = ([c], [c])) \<or> key_piece vs (fst pc) (snd pc)"

lemma token_piece:
  assumes "token_ok vs tok"
  shows "piece_ok vs (token_text tok, token_template vs tok)"
proof (cases tok)
  case (Key raw)
  then obtain val child where k: "canonical_key raw VALUE_SIZE 32 = Some (Inr (val, child))" "cstr val \<in> set (map sv_value vs)" using assms by auto
  let ?i = "value_index (cstr val) vs"
  have "?i < length vs" "sv_value (vs ! ?i) = cstr val" using value_index_nth [OF k(2)] by simp_all
  moreover have "token_template vs tok = placeholder ?i @ child" using k(1) Key by simp
  moreover have "27 \<le> (32 :: nat)" by simp
  ultimately have "key_piece vs raw (token_template vs tok)"
    using canonical_key_Inr [OF k(1)] unfolding key_piece_def by metis
  then show ?thesis using Key by (simp add: piece_ok_def)
qed (simp add: piece_ok_def)

text \<open>C23. A descriptor that is accepted says what the text says: the text, unwrapped, checked and without white space, falls
  into characters that are copied to the script and key expressions that the script replaces by the place of their own value,
  with the fingerprint in lower case and \<open>h\<close> for the quote, followed by the canonical form of their own child path. Different
  keys have different places.\<close>

theorem descriptor_text_faithful:
  assumes "descriptor_text_parse sha256 fresh t name_len = Some (Inr (d, name))" and "fresh_ok fresh" and "hash_ok sha256"
  shows "distinct (map sv_value (dd_values d)) \<and> (\<exists>work label pieces. unwrap_text t = Some (Inr (work, label)) \<and>
    checked_text work = Some (Some (concat (map fst pieces))) \<and> list_all (piece_ok (dd_values d)) pieces \<and> dd_script d = concat (map snd pieces))"
proof -
  have "t \<noteq> []" "MAX_DESCRIPTOR_NAME_SIZE \<le> name_len"
    using assms(1) by (auto simp: descriptor_text_parse_def jade_assert_def split: if_splits)
  from parse_ok [OF this assms(2,3)] have post: "parse_post t d name" using assms(1) by auto
  then obtain work label toks where w: "unwrap_text t = Some (Inr (work, label))" "checked_text work = Some (Some (concat (map token_text toks)))"
      "list_all (token_ok (dd_values d)) toks" "dd_script d = concat (map (token_template (dd_values d)) toks)" by (auto simp: parse_post_def)
  define pieces where "pieces = map (\<lambda>tok. (token_text tok, token_template (dd_values d) tok)) toks"
  have m: "map fst pieces = map token_text toks" "map snd pieces = map (token_template (dd_values d)) toks" by (simp_all add: pieces_def)
  have "list_all (piece_ok (dd_values d)) pieces" using w(3) token_piece by (auto simp: pieces_def list_all_iff)
  moreover have "distinct (map sv_value (dd_values d))" using post by (simp add: parse_post_def values_ok_def)
  ultimately show ?thesis using w(1,2,4) unfolding m [symmetric] by blast
qed

theorem descriptor_text_faithful_witness:
  "\<exists>work label pieces. unwrap_text demo_text = Some (Inr (work, label)) \<and> checked_text work = Some (Some (concat (map fst pieces))) \<and>
     list_all (piece_ok [\<lparr> sv_key = str ''@0'', sv_value = str ''[aabbccdd/0]xpubA'' \<rparr>, \<lparr> sv_key = str ''@1'', sv_value = str ''[aabbccdd]xpubB'' \<rparr>]) pieces \<and>
     str ''wsh(multi(1,@0/<0;1>/*,@1/<2;3>/*))'' = concat (map snd pieces)"
proof -
  have "fresh_ok (\<lambda>n. replicate n 0)" "hash_ok (\<lambda>x. replicate 32 0)" by (simp_all add: fresh_ok_def hash_ok_def)
  from descriptor_text_faithful [OF demo_parse this] show ?thesis unfolding descriptor_data_t.simps by (rule conjunct2)
qed

end
