(* ===== verification/Multisig_Export.thy ===== *)
theory Multisig_Export
  imports Multisig_File
begin

text \<open>
  The export of \<open>main/multisig.c\<close>: the text file that describes a registered multisig wallet, written
  line by line into a buffer that the caller has sized from the number of signers. The properties are
  that the buffer is never too small and that the reader of \<open>Multisig_File\<close> gets back the wallet.
\<close>

section \<open>Operations\<close>

text \<open>The text written so far and the space: the write pointer is the length of the text, and one
  byte behind it holds the terminating NUL. \<open>None\<close> around the result is a write past the end of the
  buffer, an inner \<open>None\<close> the error that the text does not fit.\<close>

definition write_text :: "bytes \<Rightarrow> bool \<Rightarrow> nat \<Rightarrow> bytes \<Rightarrow> bytes option option" where
  "write_text txt add_eol output_len out =
     (let space = output_len - length out in
      if length txt \<ge> space then Some None
      else if add_eol then (if length txt + 1 < space then Some (Some (out @ txt @ [10])) else None)
      else Some (Some (out @ txt)))"

fun write_texts :: "(bytes \<times> bool) list \<Rightarrow> nat \<Rightarrow> bytes \<Rightarrow> bytes option option" where
  "write_texts [] output_len out = Some (Some out)"
| "write_texts ((txt, add_eol) # ts) output_len out = do {
     r \<leftarrow> write_text txt add_eol output_len out;
     case r of None \<Rightarrow> Some None | Some out \<Rightarrow> write_texts ts output_len out }"

definition key_value_line :: "bytes \<Rightarrow> bytes \<Rightarrow> (bytes \<times> bool) list" where
  "key_value_line key val = [(key, False), (str '': '', False), (val, True)]"

definition MULTISIG_FILE_MAX_LEN :: "nat \<Rightarrow> nat" where
  "MULTISIG_FILE_MAX_LEN num_signers = 32 + 22 + 17 + 19 + 14 + 78 + num_signers * (13 + MAX_PATH_STR_LEN MAX_PATH_LEN + 122)"

fun export_format :: "script_variant_t option \<Rightarrow> bytes option" where
  "export_format (Some MULTI_P2WSH) = Some (str ''P2WSH'')"
| "export_format (Some MULTI_P2WSH_P2SH) = Some (str ''P2SH-P2WSH'')"
| "export_format (Some MULTI_P2SH) = Some (str ''P2SH'')"
| "export_format _ = None"

fun export_signers :: "'k libwally \<Rightarrow> signer_t list \<Rightarrow> nat \<Rightarrow> bytes \<Rightarrow> bytes option option" where
  "export_signers wl [] output_len out = Some (Some out)"
| "export_signers wl (signer # signers) output_len out =
     (if sg_path signer \<noteq> Path_Elems [] then Some None
      else do {
        path \<leftarrow> wallet_bip32_path_as_str (sg_derivation signer) (MAX_PATH_STR_LEN MAX_PATH_LEN) False;
        case path of None \<Rightarrow> Some None | Some buf \<Rightarrow> do {
          r \<leftarrow> write_texts (key_value_line MSIG_FILE_DERIVATION buf
            @ key_value_line (hex_from_bytes wl (sg_fingerprint signer)) (sg_xpub signer)) output_len out;
          case r of None \<Rightarrow> Some None | Some out \<Rightarrow> export_signers wl signers output_len out } })"

definition multisig_create_export_file ::
  "'k libwally \<Rightarrow> bytes \<Rightarrow> multisig_data_t \<Rightarrow> signer_t list \<Rightarrow> nat \<Rightarrow> bytes option option" where
  "multisig_create_export_file wl multisig_name d signer_details output_len = do {
     jade_assert (length signer_details = unat (md_num_xpubs d));
     jade_assert (output_len \<ge> MULTISIG_FILE_MAX_LEN (length signer_details));
     let policy = decimal (unat (md_threshold d)) @ str '' of '' @ decimal (unat (md_num_xpubs d));
     jade_assert (length policy < MAX_PATH_STR_LEN MAX_PATH_LEN);
     r \<leftarrow> write_texts ((str ''# Exported by Blockstream Jade'', True) # key_value_line MSIG_FILE_NAME multisig_name
       @ key_value_line MSIG_FILE_POLICY policy) output_len [];
     case r of None \<Rightarrow> Some None | Some out \<Rightarrow>
       (case export_format (md_variant d) of None \<Rightarrow> Some None | Some format \<Rightarrow> do {
         r \<leftarrow> write_texts (key_value_line MSIG_FILE_FORMAT format
           @ (if md_sorted d then [] else key_value_line MSIG_FILE_SORTED (str ''False''))
           @ (if md_master_blinding_key d = [] then []
              else key_value_line MSIG_FILE_BLINDING_KEY (hex_from_bytes wl (md_master_blinding_key d)))) output_len out;
         case r of None \<Rightarrow> Some None | Some out \<Rightarrow> do {
           r \<leftarrow> export_signers wl signer_details output_len out;
           case r of None \<Rightarrow> Some None | Some out \<Rightarrow> do {
             jade_assert (length out < output_len);
             Some (Some out) } } }) }"

section \<open>The text\<close>

definition text_of :: "(bytes \<times> bool) list \<Rightarrow> bytes" where
  "text_of ts = concat (map (\<lambda>(txt, add_eol). txt @ (if add_eol then [10] else [])) ts)"

lemma text_of_simps [simp]:
  "text_of [] = []" "text_of ((txt, add_eol) # ts) = txt @ (if add_eol then [10] else []) @ text_of ts"
  "text_of (ts @ us) = text_of ts @ text_of us"
  by (simp_all add: text_of_def)

lemma write_texts_fits:
  "length out + length (text_of ts) < output_len \<Longrightarrow> write_texts ts output_len out = Some (Some (out @ text_of ts))"
proof (induction ts arbitrary: out)
  case (Cons t ts)
  obtain x e where t: "t = (x, e)" by (metis prod.exhaust)
  have "write_text x e output_len out = Some (Some (out @ x @ (if e then [10] else [])))"
    using Cons.prems by (cases e) (simp_all add: t write_text_def Let_def)
  then show ?case using Cons.IH [of "out @ x @ (if e then [10] else [])"] Cons.prems by (simp add: t split del: if_split)
qed simp

lemma text_key_value_line [simp]: "text_of (key_value_line key val) = line_text (key, val)"
  by (simp add: key_value_line_def line_text_def chr_def)

text \<open>The lines of a signer and of the whole file.\<close>

definition signer_lines :: "'k libwally \<Rightarrow> signer_t \<Rightarrow> (bytes \<times> bytes) list" where
  "signer_lines wl g = [(MSIG_FILE_DERIVATION, path_text (sg_derivation g)), (hex_from_bytes wl (sg_fingerprint g), sg_xpub g)]"

definition policy_text :: "nat \<Rightarrow> nat \<Rightarrow> bytes" where
  "policy_text threshold nsigners = decimal threshold @ str '' of '' @ decimal nsigners"

fun format_text :: "script_variant_t \<Rightarrow> bytes" where
  "format_text MULTI_P2WSH = str ''P2WSH''"
| "format_text MULTI_P2WSH_P2SH = str ''P2SH-P2WSH''"
| "format_text v = str ''P2SH''"

definition head_lines :: "bytes \<Rightarrow> nat \<Rightarrow> nat \<Rightarrow> script_variant_t \<Rightarrow> bool \<Rightarrow> (bytes \<times> bytes) list" where
  "head_lines name threshold nsigners variant is_sorted =
     [(MSIG_FILE_NAME, name), (MSIG_FILE_POLICY, policy_text threshold nsigners), (MSIG_FILE_FORMAT, format_text variant)]
     @ (if is_sorted then [] else [(MSIG_FILE_SORTED, str ''False'')])"

definition export_comment :: bytes where
  "export_comment = str ''# Exported by Blockstream Jade''"

definition lines_text :: "(bytes \<times> bytes) list \<Rightarrow> bytes" where
  "lines_text ls = concat (map line_text ls)"

lemma lines_text_simps [simp]:
  "lines_text [] = []" "lines_text (l # ls) = line_text l @ lines_text ls" "lines_text (ls @ ms) = lines_text ls @ lines_text ms"
  by (simp_all add: lines_text_def)

definition blinding_lines :: "'k libwally \<Rightarrow> bytes \<Rightarrow> (bytes \<times> bytes) list" where
  "blinding_lines wl key = (if key = [] then [] else [(MSIG_FILE_BLINDING_KEY, hex_from_bytes wl key)])"

text \<open>The laws of the library: hexadecimal digits, two for each byte, and back.\<close>

definition hex_ok :: "'k libwally \<Rightarrow> bool" where
  "hex_ok wl \<longleftrightarrow> (\<forall>bs. hex_to_bytes wl (hex_from_bytes wl bs) = Some bs \<and> length (hex_from_bytes wl bs) = 2 * length bs \<and>
     (\<forall>c\<in>set (hex_from_bytes wl bs). 48 \<le> unat c \<and> unat c \<noteq> 58))"

text \<open>A signer that can be written: it has no path behind its xpub.\<close>

definition writable_signer :: "signer_t \<Rightarrow> bool" where
  "writable_signer g \<longleftrightarrow> length (sg_fingerprint g) = BIP32_KEY_FINGERPRINT_LEN \<and> length (sg_derivation g) \<le> MAX_PATH_LEN \<and>
     sg_path g = Path_Elems [] \<and> length (sg_xpub g) \<le> 112"

lemma length_line_text [simp]: "length (line_text (key, val)) = length key + length val + 3"
  by (simp add: line_text_def)

lemma length_signer_lines:
  assumes "hex_ok wl" and "writable_signer g"
  shows "length (lines_text (signer_lines wl g)) \<le> 329"
proof -
  have "length (path_text (sg_derivation g)) < MAX_PATH_STR_LEN (length (sg_derivation g))" by (rule length_path_text)
  also have "\<dots> \<le> 194" using assms(2) by (simp add: MAX_PATH_STR_LEN_def writable_signer_def MAX_PATH_LEN_def)
  finally have "length (path_text (sg_derivation g)) \<le> 193" by simp
  moreover have "length (hex_from_bytes wl (sg_fingerprint g)) = 8" "length (sg_xpub g) \<le> 112"
    using assms by (simp_all add: hex_ok_def writable_signer_def BIP32_KEY_FINGERPRINT_LEN_def)
  ultimately show ?thesis by (simp add: signer_lines_def length_msig_fields)
qed

lemma length_signers_lines:
  assumes "hex_ok wl" and "list_all writable_signer gs"
  shows "length (lines_text (concat (map (signer_lines wl) gs))) \<le> length gs * 329"
  using assms(2) by (induction gs) (use length_signer_lines [OF assms(1)] in force)+

lemma export_signers_fits:
  assumes "list_all writable_signer gs" and "length out + length (lines_text (concat (map (signer_lines wl) gs))) < output_len"
  shows "export_signers wl gs output_len out = Some (Some (out @ lines_text (concat (map (signer_lines wl) gs))))"
  using assms
proof (induction gs arbitrary: out)
  case (Cons g gs)
  have g: "sg_path g = Path_Elems []" "length (sg_derivation g) \<le> MAX_PATH_LEN" using Cons.prems(1) by (simp_all add: writable_signer_def)
  have p: "wallet_bip32_path_as_str (sg_derivation g) (MAX_PATH_STR_LEN MAX_PATH_LEN) False = Some (Some (path_text (sg_derivation g)))"
    using g(2) by (intro path_as_str_fits) (simp_all add: MAX_PATH_STR_LEN_def MAX_PATH_LEN_def)
  let ?ts = "key_value_line MSIG_FILE_DERIVATION (path_text (sg_derivation g)) @ key_value_line (hex_from_bytes wl (sg_fingerprint g)) (sg_xpub g)"
  have t: "text_of ?ts = lines_text (signer_lines wl g)" by (simp add: signer_lines_def)
  have w: "write_texts ?ts output_len out = Some (Some (out @ lines_text (signer_lines wl g)))"
    using write_texts_fits [of out ?ts output_len, unfolded t] Cons.prems(2) by simp
  show ?case using Cons.IH [of "out @ lines_text (signer_lines wl g)"] Cons.prems g(1) p w by simp
qed simp

text \<open>The whole file.\<close>

definition export_text :: "'k libwally \<Rightarrow> bytes \<Rightarrow> nat \<Rightarrow> script_variant_t \<Rightarrow> bool \<Rightarrow> bytes \<Rightarrow> signer_t list \<Rightarrow> bytes" where
  "export_text wl name threshold variant is_sorted blinding_key gs = export_comment @ [10] @
     lines_text (head_lines name threshold (length gs) variant is_sorted @ blinding_lines wl blinding_key @ concat (map (signer_lines wl) gs))"

lemma length_policy_text: "threshold \<le> 15 \<Longrightarrow> nsigners \<le> 15 \<Longrightarrow> length (policy_text threshold nsigners) \<le> 8"
  using length_decimal [of threshold 2] length_decimal [of nsigners 2] by (simp add: policy_text_def)

lemma length_format_text: "length (format_text v) \<le> 10"
  by (cases v) simp_all

lemma length_export_text:
  assumes "hex_ok wl" and "list_all writable_signer gs" and "length gs \<le> 15" and "threshold \<le> 15"
    and "length name \<le> 15" and "length blinding_key \<le> 32"
  shows "length (export_text wl name threshold variant is_sorted blinding_key gs) < MULTISIG_FILE_MAX_LEN (length gs)"
proof -
  have "length (lines_text (blinding_lines wl blinding_key)) \<le> 78"
    using assms(1,6) by (simp add: blinding_lines_def hex_ok_def length_msig_fields)
  moreover have "length (lines_text (head_lines name threshold (length gs) variant is_sorted)) \<le> 22 + 17 + 19 + 14"
    using assms length_policy_text [of threshold "length gs"] length_format_text [of variant]
    by (simp add: head_lines_def length_msig_fields)
  moreover have "length export_comment = 30" by (simp add: export_comment_def)
  ultimately show ?thesis
    using length_signers_lines [OF assms(1,2)] by (simp add: export_text_def MULTISIG_FILE_MAX_LEN_def MAX_PATH_STR_LEN_def MAX_PATH_LEN_def)
qed

lemma export_format_text: "is_multisig v \<Longrightarrow> export_format (Some v) = Some (format_text v)"
  by (cases v) (simp_all add: is_multisig_def)

lemma export_file_eq:
  assumes "list_all writable_signer gs" and "length gs = unat (md_num_xpubs d)" and "unat (md_num_xpubs d) \<le> 15" and "unat (md_threshold d) \<le> 15"
    and "md_variant d = Some variant" and "is_multisig variant"
    and "length (export_text wl name (unat (md_threshold d)) variant (md_sorted d) (md_master_blinding_key d) gs) < output_len"
    and "MULTISIG_FILE_MAX_LEN (length gs) \<le> output_len"
  shows "multisig_create_export_file wl name d gs output_len =
    Some (Some (export_text wl name (unat (md_threshold d)) variant (md_sorted d) (md_master_blinding_key d) gs))"
proof -
  let ?policy = "policy_text (unat (md_threshold d)) (unat (md_num_xpubs d))"
  let ?ts1 = "(export_comment, True) # key_value_line MSIG_FILE_NAME name @ key_value_line MSIG_FILE_POLICY ?policy"
  let ?ts2 = "key_value_line MSIG_FILE_FORMAT (format_text variant)
    @ (if md_sorted d then [] else key_value_line MSIG_FILE_SORTED (str ''False''))
    @ (if md_master_blinding_key d = [] then [] else key_value_line MSIG_FILE_BLINDING_KEY (hex_from_bytes wl (md_master_blinding_key d)))"
  let ?sl = "lines_text (concat (map (signer_lines wl) gs))"
  have tx: "export_text wl name (unat (md_threshold d)) variant (md_sorted d) (md_master_blinding_key d) gs = text_of ?ts1 @ text_of ?ts2 @ ?sl"
    using assms(2) by (simp add: export_text_def head_lines_def blinding_lines_def)
  have len: "length (text_of ?ts1) + length (text_of ?ts2) + length ?sl < output_len"
    using assms(7) unfolding tx length_append by linarith
  have w1: "write_texts ?ts1 output_len [] = Some (Some (text_of ?ts1))"
    using write_texts_fits [of "[]" ?ts1 output_len] len by simp
  have w2: "write_texts ?ts2 output_len (text_of ?ts1) = Some (Some (text_of ?ts1 @ text_of ?ts2))"
    by (rule write_texts_fits) (use len in linarith)
  have w3: "export_signers wl gs output_len (text_of ?ts1 @ text_of ?ts2) = Some (Some ((text_of ?ts1 @ text_of ?ts2) @ ?sl))"
    by (rule export_signers_fits [OF assms(1)]) (use len in \<open>simp only: length_append\<close>)
  have pl: "length ?policy < MAX_PATH_STR_LEN MAX_PATH_LEN"
    using length_policy_text [OF assms(4,3)] by (simp add: MAX_PATH_STR_LEN_def MAX_PATH_LEN_def)
  have a3: "length ((text_of ?ts1 @ text_of ?ts2) @ ?sl) < output_len" using len by (simp only: length_append)
  show ?thesis
    unfolding multisig_create_export_file_def policy_text_def [symmetric] export_comment_def [symmetric] Let_def assms(5)
      export_format_text [OF assms(6)]
    using assms(2,8) pl a3 by (simp only: w1 w2 w3 tx jade_assert_True bind.bind_lunit option.case append_assoc simp_thms)
qed

section \<open>Reading the text back\<close>

text \<open>A signer that the reader takes back: a path the library reads as it was written and that fits the
  reader's buffer, and an xpub of the network.\<close>

definition readable_signer :: "'k libwally \<Rightarrow> bytes \<Rightarrow> signer_t \<Rightarrow> bool" where
  "readable_signer wl xpub_version g \<longleftrightarrow> writable_signer g \<and> sg_derivation g \<noteq> [] \<and> length (path_text (sg_derivation g)) < 128 \<and>
     bip32_path_from_str wl (path_text (sg_derivation g)) = Some (sg_derivation g) \<and> native_xpub wl xpub_version (sg_xpub g)"

lemma line_ok_signer:
  assumes "hex_ok wl" and "length (sg_fingerprint g) = 4" and "native_xpub wl xpub_version xpub"
  shows "line_ok (hex_from_bytes wl (sg_fingerprint g), xpub)"
proof -
  let ?h = "hex_from_bytes wl (sg_fingerprint g)"
  have h: "length ?h = 8" "\<forall>c\<in>set ?h. 48 \<le> unat c \<and> unat c \<noteq> 58" using assms(1,2) by (simp_all add: hex_ok_def)
  have x: "\<forall>c\<in>set xpub. 48 \<le> unat c" "xpub \<noteq> []" "length xpub < 128" using assms(3) by (auto simp: native_xpub_def)
  have "?h \<noteq> []" using h(1) by auto
  then have "hd ?h \<in> set ?h" by simp
  then have "hd ?h \<noteq> chr CHR ''#''" using h(2) by (force simp: chr_def)
  moreover have "58 \<notin> set ?h" "10 \<notin> set ?h" "10 \<notin> set xpub" using h(2) x(1) by force+
  moreover have "\<not> isspace (hd xpub)" using x by (intro printable_not_space) (force dest: bspec [of _ _ "hd xpub"])
  moreover have "\<not> is_field MSIG_FILE_BLINDING_KEY ?h" using h(1) by (auto simp: length_msig_fields dest!: is_field_length)
  ultimately show ?thesis using \<open>?h \<noteq> []\<close> x by (simp add: line_ok_def)
qed

lemma line_ok_derivation:
  assumes "length (path_text p) < 128"
  shows "line_ok (MSIG_FILE_DERIVATION, path_text p)"
proof (rule line_ok_field)
  show "10 \<notin> set (path_text p)" using path_text_chars [of 10 p] by force
  have "path_text p = chr CHR ''m'' # concat (map (path_element_text False) p)" by (simp add: path_text_def)
  then show "path_text p \<noteq> []" "\<not> isspace (hd (path_text p))" by (simp_all add: chr_def isspace_def)
qed (use assms in simp_all)

lemma signer_lines_ok:
  assumes "hex_ok wl" and "readable_signer wl xpub_version g"
  shows "list_all line_ok (signer_lines wl g)"
  using line_ok_signer [OF assms(1), of g xpub_version "sg_xpub g"] line_ok_derivation [of "sg_derivation g"] assms(2)
  by (simp add: signer_lines_def readable_signer_def writable_signer_def BIP32_KEY_FINGERPRINT_LEN_def)

lemma head_lines_ok:
  assumes "storage_key_name_valid name" and "length name < 128" and "threshold \<le> 15" and "nsigners \<le> 15"
  shows "list_all line_ok (head_lines name threshold nsigners variant is_sorted)"
proof -
  have n: "10 \<notin> set name" "name \<noteq> []" "\<not> isspace (hd name)"
    using name_chars [OF assms(1)] printable_not_space [of "hd name"] by force+
  have d: "10 \<notin> set (decimal k)" for k using decimal_chars [of 10 k] by force
  have "is_digit (hd (decimal threshold))" using decimal_is_digit [of threshold] by (cases "decimal threshold") simp_all
  then have p: "policy_text threshold nsigners \<noteq> []" "\<not> isspace (hd (policy_text threshold nsigners))" "10 \<notin> set (policy_text threshold nsigners)"
      "length (policy_text threshold nsigners) < 128"
    using d length_policy_text [OF assms(3,4)] by (simp_all add: policy_text_def digit_not_space chr_def)
  have f: "format_text variant \<noteq> []" "\<not> isspace (hd (format_text variant))" "10 \<notin> set (format_text variant)"
      "length (format_text variant) < 128"
    by (cases variant; simp add: chr_def isspace_def)+
  show ?thesis
    using n p f assms(2) by (simp add: head_lines_def line_ok_field chr_def isspace_def)
qed

lemma run_lines_append:
  "run_lines wl xpub_version s ls = Some (Inr s') \<Longrightarrow> run_lines wl xpub_version s (ls @ ms) = run_lines wl xpub_version s' ms"
  by (induction ls arbitrary: s) (auto split: option.splits sum.splits)

definition with_signer :: "signer_t \<Rightarrow> msig_file \<Rightarrow> msig_file" where
  "with_signer g s = s \<lparr> mf_path := sg_derivation g, mf_fields := mf_fields s OR FIELD_DERIVATION, mf_signers := mf_signers s @ [g] \<rparr>"

lemma run_signer_lines:
  assumes "hex_ok wl" and "msig_inv s" and "have_fields (mf_fields s OR FIELD_DERIVATION) mandatory_fields"
    and "readable_signer wl xpub_version g" and "length (mf_signers s) < mf_nsigners s"
  shows "run_lines wl xpub_version s (signer_lines wl g) = Some (Inr (with_signer g s))" and "msig_inv (with_signer g s)"
proof -
  let ?s1 = "s \<lparr> mf_path := sg_derivation g, mf_fields := mf_fields s OR FIELD_DERIVATION \<rparr>"
  have g: "writable_signer g" "sg_derivation g \<noteq> []" "bip32_path_from_str wl (path_text (sg_derivation g)) = Some (sg_derivation g)"
      "native_xpub wl xpub_version (sg_xpub g)"
    using assms(4) by (simp_all add: readable_signer_def)
  have w: "length (sg_fingerprint g) = BIP32_KEY_FINGERPRINT_LEN" "length (sg_derivation g) \<le> MAX_PATH_LEN" "sg_path g = Path_Elems []"
    using g(1) by (simp_all add: writable_signer_def)
  have i: "msig_inv ?s1" using assms(2) by (simp add: msig_inv_def fields_kept)
  have e: "\<lparr> sg_fingerprint = sg_fingerprint g, sg_derivation = sg_derivation g, sg_xpub = sg_xpub g, sg_path = Path_Elems [] \<rparr> = g"
    using w(3) by simp
  have h: "hex_to_bytes wl (hex_from_bytes wl (sg_fingerprint g)) = Some (sg_fingerprint g)" "length (hex_from_bytes wl (sg_fingerprint g)) = 8"
    using assms(1) w(1) by (simp_all add: hex_ok_def BIP32_KEY_FINGERPRINT_LEN_def)
  have "handle_signer wl xpub_version (hex_from_bytes wl (sg_fingerprint g)) (sg_xpub g) ?s1 = Some (Inr (with_signer g s))"
    using handle_signer_ok [OF i _ _ h(1) w(1) _ _ g(4)] assms(3,5) g(2) w(2) e by (simp add: with_signer_def)
  then show "run_lines wl xpub_version s (signer_lines wl g) = Some (Inr (with_signer g s))"
    using handle_derivation_ok [OF g(3,2) w(2), of s] h(2) by (simp add: signer_lines_def handle_lines)
  show "msig_inv (with_signer g s)" using assms(2,5) w g(2) by (auto simp: msig_inv_def file_signer_ok_def with_signer_def fields_kept split: if_splits)
qed

lemma fields_derivation: "(f OR FIELD_DERIVATION) OR FIELD_DERIVATION = f OR FIELD_DERIVATION"
  by (simp add: or.assoc)

lemma run_signers_lines:
  assumes "hex_ok wl" and "msig_inv s" and "have_fields (mf_fields s OR FIELD_DERIVATION) mandatory_fields"
    and "list_all (readable_signer wl xpub_version) gs" and "length (mf_signers s) + length gs \<le> mf_nsigners s"
  shows "\<exists>path. run_lines wl xpub_version s (concat (map (signer_lines wl) gs)) = Some (Inr (s \<lparr> mf_path := path,
    mf_fields := (if gs = [] then mf_fields s else mf_fields s OR FIELD_DERIVATION), mf_signers := mf_signers s @ gs \<rparr>))"
  using assms(2-5)
proof (induction gs arbitrary: s)
  case Nil
  have "s \<lparr> mf_path := mf_path s, mf_fields := mf_fields s, mf_signers := mf_signers s \<rparr> = s" by simp
  then show ?case by (intro exI [of _ "mf_path s"]) simp
next
  case (Cons g gs)
  let ?s = "with_signer g s"
  have g: "readable_signer wl xpub_version g" and l: "length (mf_signers s) < mf_nsigners s" using Cons.prems(3,4) by simp_all
  note one = run_signer_lines [OF assms(1) Cons.prems(1,2) g l]
  obtain path where "run_lines wl xpub_version ?s (concat (map (signer_lines wl) gs)) = Some (Inr (?s \<lparr> mf_path := path,
      mf_fields := (if gs = [] then mf_fields ?s else mf_fields ?s OR FIELD_DERIVATION), mf_signers := mf_signers ?s @ gs \<rparr>))"
    using Cons.IH [OF one(2)] Cons.prems(2-4) by (auto simp: with_signer_def fields_derivation)
  then show ?case using run_lines_append [OF one(1)] by (auto simp: with_signer_def fields_derivation)
qed

definition head_state :: "bytes \<Rightarrow> nat \<Rightarrow> nat \<Rightarrow> script_variant_t \<Rightarrow> bool \<Rightarrow> msig_file" where
  "head_state name threshold nsigners variant is_sorted = \<lparr> mf_name = name, mf_truncated = False, mf_variant = variant,
     mf_threshold = threshold, mf_nsigners = nsigners, mf_allocated = True, mf_signers = [], mf_sorted = is_sorted, mf_path = [],
     mf_fields = (if is_sorted then 7 else 15) \<rparr>"

lemma handle_format_ok:
  "is_multisig variant \<Longrightarrow> mf_fields s AND FIELD_FORMAT = 0 \<Longrightarrow>
   handle_format (format_text variant) s = Inr (s \<lparr> mf_variant := variant, mf_fields := mf_fields s OR FIELD_FORMAT \<rparr>)"
  by (cases variant) (auto simp: is_multisig_def handle_format_def cstr_def strcasecmp_eq_def tolower_b_def chr_def)

lemma run_head_lines:
  assumes "storage_key_name_valid name" and "length name < MAX_MULTISIG_NAME_SIZE" and "is_multisig variant"
    and "0 < threshold" and "threshold \<le> nsigners" and "nsigners \<le> MAX_ALLOWED_SIGNERS"
  shows "run_lines wl xpub_version msig_file_init (head_lines name threshold nsigners variant is_sorted)
    = Some (Inr (head_state name threshold nsigners variant is_sorted))"
    and "msig_inv (head_state name threshold nsigners variant is_sorted)"
proof -
  let ?s0 = msig_file_init
  let ?s1 = "?s0 \<lparr> mf_name := name, mf_fields := mf_fields ?s0 OR FIELD_NAME \<rparr>"
  let ?s2 = "?s1 \<lparr> mf_threshold := threshold, mf_nsigners := nsigners, mf_allocated := True, mf_fields := mf_fields ?s1 OR FIELD_POLICY \<rparr>"
  let ?s3 = "?s2 \<lparr> mf_variant := variant, mf_fields := mf_fields ?s2 OR FIELD_FORMAT \<rparr>"
  have h1: "handle_name name ?s0 = Inr ?s1" by (rule handle_name_ok [OF _ assms(1,2)]) (simp add: msig_file_init_def)
  have h2: "handle_policy (policy_text threshold nsigners) ?s1 = Some (Inr ?s2)"
    unfolding policy_text_def by (rule handle_policy_ok [OF _ _ assms(4-6)]) (simp_all add: msig_file_init_def field_flags)
  have h3: "handle_format (format_text variant) ?s2 = Inr ?s3"
    by (rule handle_format_ok [OF assms(3)]) (simp add: msig_file_init_def field_flags)
  have h4: "handle_sorted (str ''False'') ?s3 = Inr (?s3 \<lparr> mf_sorted := False, mf_fields := mf_fields ?s3 OR FIELD_SORTED \<rparr>)"
    by (simp add: handle_sorted_def msig_file_init_def field_flags cstr_def strcasecmp_eq_def tolower_b_def chr_def)
  show "run_lines wl xpub_version ?s0 (head_lines name threshold nsigners variant is_sorted)
    = Some (Inr (head_state name threshold nsigners variant is_sorted))"
    unfolding head_lines_def
    by (cases is_sorted) (simp_all only: if_True if_False append.simps run_lines.simps handle_lines h1 h2 h3 h4 option.case sum.case,
      simp_all add: head_state_def msig_file_init_def field_flags)
  show "msig_inv (head_state name threshold nsigners variant is_sorted)"
    using assms by (simp add: msig_inv_def head_state_def FIELD_POLICY_def)
qed

lemma parse_export_text:
  assumes "list_all line_ok ls"
  shows "parse_lines wl xpub_version ((export_comment @ [10] @ lines_text ls) @ rest) (length (export_comment @ [10] @ lines_text ls)) 0 None s
    = run_lines wl xpub_version s ls"
proof -
  let ?c = "export_comment"
  have c: "10 \<notin> set ?c" "?c \<noteq> []" "hd ?c = chr CHR ''#''" by (simp_all add: export_comment_def chr_def)
  have "parse_lines wl xpub_version (?c @ 10 # lines_text ls @ rest) (length (?c @ [10] @ lines_text ls)) 0 None s
    = parse_lines wl xpub_version (?c @ 10 # lines_text ls @ rest) (length (?c @ [10] @ lines_text ls)) 0 (Some (length ?c)) s"
    by (rule parse_comment [OF c]) simp
  also have "\<dots> = run_lines wl xpub_version s ls"
    using parse_lines_run [OF assms, of "?c @ [10]" 0 "Some (length ?c)" "length (?c @ [10] @ lines_text ls)"]
    by (simp add: cursor_at_def lines_text_def)
  finally show ?thesis by simp
qed

section \<open>Properties\<close>

text \<open>The export never overflows its buffer and never fails for a registered quorum: for every name of at most
  fifteen bytes, every threshold, up to fifteen signers with paths of up to sixteen elements and a blinding
  key of 32 bytes, the space that is computed from the number of signers holds the text and its
  terminating NUL.\<close>

lemma multisig_export_fits:
  assumes "hex_ok wl" and "length name < MAX_MULTISIG_NAME_SIZE" and "length gs = unat (md_num_xpubs d)" and "multisig_sane d"
    and "list_all writable_signer gs"
  shows "\<exists>file. multisig_create_export_file wl name d gs (MULTISIG_FILE_MAX_LEN (length gs)) = Some (Some file) \<and>
    length file < MULTISIG_FILE_MAX_LEN (length gs)"
proof -
  obtain variant where v: "md_variant d = Some variant" "is_multisig variant"
    using assms(4) by (auto simp: multisig_sane_def split: option.splits)
  have l: "length gs \<le> 15" "unat (md_threshold d) \<le> 15" "length name \<le> 15"
    using assms(2-4) by (auto simp: multisig_sane_def MAX_ALLOWED_SIGNERS_def MAX_MULTISIG_NAME_SIZE_def word_less_nat_alt)
  have k: "length (md_master_blinding_key d) \<le> 32" using assms(4) by (auto simp: multisig_sane_def multisig_lens wallet_lens)
  show ?thesis
    using export_file_eq [OF assms(5,3) _ l(2) v _ order_refl, of wl name] length_export_text [OF assms(1,5) l k, of variant "md_sorted d"] l(1) assms(3)
    by simp
qed

lemma demo_hex_digits:
  assumes "b < (16 :: byte)"
  shows "demo_hex_digit (if b < 10 then 48 + b else 87 + b) = Some b"
    and "48 \<le> unat (if b < 10 then 48 + b else 87 + b) \<and> unat (if b < 10 then 48 + b else 87 + b) \<noteq> 58"
proof -
  have "unat b < 16" using assms by (simp add: word_less_nat_alt)
  then have "unat b \<in> {0,1,2,3,4,5,6,7,8,9,10,11,12,13,14,15}" by (simp only: insert_iff empty_iff) arith
  moreover have "b = of_nat (unat b)" by simp
  ultimately have "b \<in> of_nat ` {0,1,2,3,4,5,6,7,8,9,10,11,12,13,14,15}" by (metis imageI)
  then have "b \<in> {0,1,2,3,4,5,6,7,8,9,10,11,12,13,14,15}" by simp
  then show "demo_hex_digit (if b < 10 then 48 + b else 87 + b) = Some b"
    and "48 \<le> unat (if b < 10 then 48 + b else 87 + b) \<and> unat (if b < 10 then 48 + b else 87 + b) \<noteq> 58"
    by (auto simp: demo_hex_digit_def is_digit_def chr_def)
qed

lemma nibbles: "drop_bit 4 b < (16 :: byte)" "b AND 15 < 16" "push_bit 4 (drop_bit 4 b) OR (b AND 15) = b"
proof -
  have "unat b < 2 ^ LENGTH(8)" by (rule unsigned_less)
  then show "drop_bit 4 b < 16" by (simp add: word_less_nat_alt drop_bit_eq_div unat_div_distrib less_mult_imp_div_less)
  show "b AND 15 < 16" using word_and_le1 [of b 15] by (simp add: order_le_less_trans)
  have "b AND 15 = take_bit 4 b" by (simp add: take_bit_eq_mask mask_eq_exp_minus_1)
  then show "push_bit 4 (drop_bit 4 b) OR (b AND 15) = b"
    by (auto intro!: bit_eqI simp: bit_or_iff bit_push_bit_iff bit_drop_bit_eq bit_take_bit_iff not_less dest: bit_imp_le_length)
qed

lemma demo_hex_ok: "hex_ok demo_wally"
proof -
  have "demo_unhex (demo_hex bs) = Some bs" for bs
    by (induction bs) (simp_all add: demo_hex_def demo_hex_digits(1) nibbles)
  moreover have "length (demo_hex bs) = 2 * length bs" for bs by (induction bs) (simp_all add: demo_hex_def)
  moreover have "\<forall>c\<in>set (demo_hex bs). 48 \<le> unat c \<and> unat c \<noteq> 58" for bs
    using demo_hex_digits(2) nibbles(1,2) by (auto simp: demo_hex_def simp del: One_nat_def split del: if_split)
  ultimately show ?thesis by (simp add: hex_ok_def demo_wally_def)
qed

definition demo_export :: multisig_data_t where
  "demo_export = \<lparr> md_variant = Some MULTI_P2WSH, md_sorted = False, md_threshold = 1, md_num_xpubs = 1, md_master_blinding_key = [], md_xpubs = [] \<rparr>"

lemma demo_export_ok: "multisig_sane demo_export" "list_all writable_signer [demo_signer]" "length [demo_signer] = unat (md_num_xpubs demo_export)"
  by (simp_all add: multisig_sane_def demo_export_def is_multisig_def wallet_lens writable_signer_def demo_signer_def)

text \<open>C31. Export and import agree: the file that is written for a quorum whose signers are of the network, have a
  derivation path of at most 127 characters and no path behind the xpub, is read back, whatever lies behind it in
  memory, to the same registration request: the same name, script variant, sorting, threshold and signers in
  the same order.\<close>

theorem multisig_export_reads_back:
  assumes "hex_ok wl" and "storage_key_name_valid name" and "length name < MAX_MULTISIG_NAME_SIZE"
    and "length gs = unat (md_num_xpubs d)" and "multisig_sane d" and "md_variant d = Some variant" and "md_master_blinding_key d = []"
    and "list_all (readable_signer wl (network_xpub_version restriction)) gs"
  shows "\<exists>file. multisig_create_export_file wl name d gs (MULTISIG_FILE_MAX_LEN (length gs)) = Some (Some file) \<and>
    register_multisig_file wl keychain path_features fresh iv malloc_ok ui env restriction (file @ rest) (length file) st =
    register_multisig wl keychain path_features fresh iv malloc_ok ui env restriction name (supported_network restriction) variant
      (md_sorted d) (unat (md_threshold d)) gs None st"
proof -
  let ?t = "unat (md_threshold d)" and ?v = "network_xpub_version restriction"
  let ?ls = "head_lines name ?t (length gs) variant (md_sorted d) @ concat (map (signer_lines wl) gs)"
  let ?hs = "head_state name ?t (length gs) variant (md_sorted d)"
  have v: "is_multisig variant" using assms(5,6) by (simp add: multisig_sane_def)
  have t: "0 < ?t" "?t \<le> length gs" "length gs \<le> MAX_ALLOWED_SIGNERS"
    using assms(4,5) by (auto simp: multisig_sane_def word_less_nat_alt unat_gt_0)
  then have l: "length gs \<le> 15" "?t \<le> 15" "length name \<le> 15" using assms(3) by (simp_all add: wallet_lens MAX_MULTISIG_NAME_SIZE_def)
  have w: "list_all writable_signer gs" using assms(8) by (simp add: list_all_iff readable_signer_def)
  have tx: "export_text wl name ?t variant (md_sorted d) [] gs = export_comment @ [10] @ lines_text ?ls"
    by (simp add: export_text_def blinding_lines_def)
  have created: "multisig_create_export_file wl name d gs (MULTISIG_FILE_MAX_LEN (length gs)) = Some (Some (export_comment @ [10] @ lines_text ?ls))"
    using export_file_eq [OF w assms(4) _ l(2) assms(6) v _ order_refl, of wl name] assms(4,7) l(1)
      length_export_text [OF assms(1) w l, of "[]" variant "md_sorted d"] by (simp add: tx)
  have ok: "list_all line_ok ?ls"
    using head_lines_ok [OF assms(2) _ l(2,1)] signer_lines_ok [OF assms(1)] l(3) assms(8) by (auto simp: list_all_iff)
  note hd = run_head_lines [OF assms(2,3) v t]
  have f: "have_fields (mf_fields ?hs OR FIELD_DERIVATION) mandatory_fields"
    by (simp add: head_state_def have_fields_def mandatory_fields_def field_flags)
  have hs: "mf_signers ?hs = []" "mf_nsigners ?hs = length gs" by (simp_all add: head_state_def)
  obtain path where run: "run_lines wl ?v msig_file_init ?ls = Some (Inr (?hs \<lparr> mf_path := path,
      mf_fields := (if gs = [] then mf_fields ?hs else mf_fields ?hs OR FIELD_DERIVATION), mf_signers := mf_signers ?hs @ gs \<rparr>))"
    using run_signers_lines [OF assms(1) hd(2) f assms(8)] unfolding run_lines_append [OF hd(1)] by (auto simp: hs)
  have gs: "gs \<noteq> []" using t by auto
  have p: "parse_lines wl ?v ((export_comment @ [10] @ lines_text ?ls) @ rest) (length (export_comment @ [10] @ lines_text ?ls)) 0 None msig_file_init =
      Some (Inr (?hs \<lparr> mf_path := path, mf_fields := mf_fields ?hs OR FIELD_DERIVATION, mf_signers := gs \<rparr>))"
    unfolding parse_export_text [OF ok] run using gs by (simp add: head_state_def)
  show ?thesis
    by (rule exI, rule conjI, rule created)
      (unfold register_multisig_file_def p, use f gs in \<open>simp add: Let_def head_state_def\<close>)
qed

lemma demo_readable: "list_all (readable_signer demo_wally (network_xpub_version NETWORK_TYPE_MAIN)) [demo_signer]"
proof -
  have "native_xpub demo_wally (network_xpub_version NETWORK_TYPE_MAIN) (str ''xpubA'')"
    by (simp add: native_xpub_def demo_wally_def demo_key_def wallet_lens nth_append network_xpub_version_def uint32_to_be_def BIP32_VER_MAIN_PUBLIC_def chr_def)
  moreover have "length (path_text [0x80000030]) < 128" using length_path_text [of "[0x80000030]"] by (simp add: MAX_PATH_STR_LEN_def)
  ultimately show ?thesis using demo_export_ok(2) by (simp add: readable_signer_def demo_signer_def demo_wally_def)
qed

definition demo_answers :: user_answers where
  "demo_answers = \<lparr> ua_replace = True, ua_confirm = True, ua_truncate = True \<rparr>"

theorem multisig_export_reads_back_witness:
  "\<exists>file. multisig_create_export_file demo_wally (str ''savings'') demo_export [demo_signer] (MULTISIG_FILE_MAX_LEN (length [demo_signer])) = Some (Some file) \<and>
    register_multisig_file demo_wally None (\<lambda>_. None) (\<lambda>n. replicate n 0) [] True demo_answers demo_env NETWORK_TYPE_MAIN (file @ [0]) (length file) demo_nvs =
    register_multisig demo_wally None (\<lambda>_. None) (\<lambda>n. replicate n 0) [] True demo_answers demo_env NETWORK_TYPE_MAIN
      (str ''savings'') (supported_network NETWORK_TYPE_MAIN) MULTI_P2WSH
      (md_sorted demo_export) (unat (md_threshold demo_export)) [demo_signer] None demo_nvs"
  by (rule multisig_export_reads_back [OF demo_hex_ok _ _ demo_export_ok(3,1) _ _ demo_readable])
    (simp add: storage_key_name_valid_def key_name_valid_loop_iff isgraph_def chr_def NVS_KEY_NAME_MAX_SIZE_def,
     simp_all add: demo_export_def MAX_MULTISIG_NAME_SIZE_def)

end
