(* ===== verification/Multisig_Lifecycle.thy ===== *)
theory Multisig_Lifecycle
  imports Multisig_Export
begin

text \<open>
  From the registration of a multisig wallet to its use: \<open>register_multisig\<close>, which validates, encodes,
  seals and stores a quorum, followed by \<open>multisig_load_from_storage\<close>, which reads, opens and
  decodes it. The lemmas follow a successful registration through its checks; the property joins the
  components \<open>Multisig\<close>, \<open>Registration\<close> and \<open>Storage\<close>.
\<close>

section \<open>From the registration to the record\<close>

text \<open>The limits of the arrays in \<open>signer_t\<close>.\<close>

definition signer_struct :: "signer_t \<Rightarrow> bool" where
  "signer_struct g \<longleftrightarrow> length (sg_fingerprint g) = BIP32_KEY_FINGERPRINT_LEN \<and> length (sg_derivation g) \<le> MAX_PATH_LEN \<and>
     signer_path_len (sg_path g) \<le> MAX_PATH_LEN"

lemma validate_loop_ok:
  assumes "validate_signers_loop wl keychain path_features False fingerprint signers found n = Some (Some (b, m))"
    and "list_all signer_struct signers"
  shows "list_all (signer_ok wl) signers \<and> m = n + sum_list (map signer_elements signers)"
  using assms
proof (induction signers arbitrary: found n)
  case (Cons g gs)
  have p: "signer_path_ok path_features False (sg_path g)" using Cons.prems(1) by (auto split: if_splits)
  then obtain ps where ps: "sg_path g = Path_Elems ps" by (cases "sg_path g") (simp_all add: signer_path_ok_def)
  obtain k where k: "wallet_derive_from_xpub wl (sg_xpub g) [] (BIP32_FLAG_KEY_PUBLIC OR BIP32_FLAG_SKIP_HASH) = Some (Some k)"
    using Cons.prems(1) p by (auto simp: Let_def split: Option.bind_splits option.splits)
  then have x: "\<exists>b. base58_to_bytes wl (sg_xpub g) = Some b \<and> length b = BIP32_SERIALIZED_LEN"
    by (auto simp: wallet_derive_from_xpub_def split: option.splits if_splits)
  obtain found' where "validate_signers_loop wl keychain path_features False fingerprint gs found'
      (n + length (sg_derivation g) + signer_path_len (sg_path g)) = Some (Some (b, m))"
    using Cons.prems(1) p k by (auto simp: Let_def split: Option.bind_splits option.splits if_splits)
  from Cons.IH [OF this] have "list_all (signer_ok wl) gs \<and> m = n + signer_elements g + sum_list (map signer_elements gs)"
    using Cons.prems(2) by (simp add: signer_elements_def [of g])
  moreover have "signer_ok wl g" using Cons.prems(2) x ps by (simp add: signer_ok_def signer_struct_def)
  ultimately show ?case by simp
qed simp

text \<open>What loading must give for a quorum.\<close>

definition quorum_data :: "'k libwally \<Rightarrow> script_variant_t \<Rightarrow> bool \<Rightarrow> nat \<Rightarrow> signer_t list \<Rightarrow> bytes \<Rightarrow> multisig_data_t" where
  "quorum_data wl variant is_sorted threshold signers xpubs = \<lparr> md_variant = Some variant, md_sorted = is_sorted,
     md_threshold = of_nat threshold, md_num_xpubs = of_nat (length signers), md_master_blinding_key = [],
     md_xpubs = parents wl signers @ drop (length signers * BIP32_SERIALIZED_LEN) xpubs \<rparr>"

lemma quorum_data_sane:
  assumes "is_multisig variant" and "quorum_ok wl threshold None signers"
  shows "multisig_sane (quorum_data wl variant is_sorted threshold signers xpubs)"
proof -
  have l: "0 < threshold" "threshold \<le> length signers" "length signers \<le> 15" using assms(2) by (simp_all add: quorum_ok_def MAX_ALLOWED_SIGNERS_def)
  then have "unat (of_nat threshold :: byte) = threshold" "unat (of_nat (length signers) :: byte) = length signers"
    by (simp_all add: unat_of_nat_small)
  then show ?thesis
    using assms(1) l of_nat_byte_eq_0 [of threshold] of_nat_byte_eq_0 [of "length signers"]
    by (auto simp: multisig_sane_def quorum_data_def word_less_nat_alt MAX_ALLOWED_SIGNERS_def)
qed

lemma body_bytes_bounds:
  assumes "quorum_ok wl threshold None signers"
  shows "body_bytes wl variant is_sorted threshold None signers \<noteq> []"
    and "length (body_bytes wl variant is_sorted threshold None signers) \<le> MAX_MULTISIG_BODY_LEN"
proof -
  have sg: "list_all (signer_ok wl) signers" "length signers \<le> 15" using assms by (simp_all add: quorum_ok_def MAX_ALLOWED_SIGNERS_def)
  have "sum_list (map signer_elements signers) \<le> 15 * 2 * 16"
    using signers_elements_le [OF sg(1)] sg(2) by (simp add: MAX_PATH_LEN_def)
  then show "length (body_bytes wl variant is_sorted threshold None signers) \<le> MAX_MULTISIG_BODY_LEN"
    using sg(2) by (simp add: length_body_bytes [OF sg(1)] multisig_static_asserts MULTISIG_BODY_LEN_def blinding_key_len_def wallet_lens)
  show "body_bytes wl variant is_sorted threshold None signers \<noteq> []" by (simp add: body_bytes_def)
qed

lemma load_stored:
  assumes nv: "nvs_ok env st" and r: "lookup st 1 name = Some record" and l: "length record \<le> MAX_MULTISIG_BYTES_LEN"
    and o: "multisig_open_registration wl keychain record MAX_MULTISIG_BODY_LEN = Some (Some (body_bytes wl variant is_sorted threshold None signers))"
    and v: "is_multisig variant" and q: "quorum_ok wl threshold None signers" and laws: "base58_ok wl" "serialize_ok wl"
    and par: "list_all (\<lambda>s. signer_parent wl s \<noteq> None) signers"
    and mem: "length heap = MAX_MULTISIG_BODY_LEN" "length xpubs = XPUBS_LEN"
  shows "multisig_load_from_storage wl keychain heap xpubs env st name dl
    = Some (Inr (quorum_data wl variant is_sorted threshold signers xpubs, take dl signers))"
proof -
  let ?b = "body_bytes wl variant is_sorted threshold None signers"
  have g: "storage_get_multisig_registration env name MAX_MULTISIG_BYTES_LEN st = Some (Some record)"
    using read_blob_lookup [OF nv nvs_open_names(2), of MAX_MULTISIG_BYTES_LEN name] r l
    by (simp add: storage_get_multisig_registration_def multisig_static_asserts)
  have w: "buf_write heap 0 ?b = Some (?b @ drop (length ?b) heap)"
    using body_bytes_bounds(2) [OF q] mem(1) by (simp add: buf_write_def)
  have "multisig_data_from_bytes wl keychain heap record xpubs dl = Some (Some (quorum_data wl variant is_sorted threshold signers xpubs, take dl signers))"
    unfolding multisig_data_from_bytes_def o quorum_data_def
    using w body_from_bytes_ok [OF q laws par mem(2), of variant is_sorted "drop (length ?b) heap" dl] by simp
  then show ?thesis using g quorum_data_sane [OF v q] by (simp add: multisig_load_from_storage_def)
qed

lemma persist_ok:
  assumes "nvs_ok env st" and "record \<noteq> []" and "persist_multisig ui env st name record = Some (None, st')"
  shows "nvs_ok env st' \<and> lookup st' 1 name = Some record"
proof -
  obtain r st1 where s: "store_blob env MULTISIG_NAMESPACE name record st = Some (r, st1)" "same_but 1 name st st1"
      "lookup st1 1 name = Some record \<or> \<not> r \<and> lookup st1 1 name = lookup st 1 name"
    by (rule store_blob_effect [OF assms(1) nvs_open_names(2) _ assms(2)]) simp
  then show ?thesis
    using assms(3) same_but_ok [OF assms(1) s(2)]
    by (auto simp: persist_multisig_def storage_set_multisig_registration_def split: if_splits)
qed

lemma identical_ok:
  assumes "nvs_ok env st" and "identical_registration wl keychain env st name body = Some True"
  shows "\<exists>record. lookup st 1 name = Some record \<and> length record \<le> MAX_MULTISIG_BYTES_LEN \<and>
    multisig_open_registration wl keychain record MAX_MULTISIG_BODY_LEN = Some (Some body)"
  using assms(2) read_blob_lookup [OF assms(1) nvs_open_names(2), of MAX_MULTISIG_BYTES_LEN name]
  by (auto simp: identical_registration_def storage_get_multisig_registration_def multisig_static_asserts
      split: option.splits if_splits Option.bind_splits)

lemma validate_signers_Some:
  assumes "validate_signers wl keychain path_features signers False fp = Some (Some n)" and "list_all signer_struct signers"
  shows "list_all (signer_ok wl) signers" and "n = sum_list (map signer_elements signers)"
proof -
  obtain b m where "validate_signers_loop wl keychain path_features False fp signers False 0 = Some (Some (b, m))" "n = m"
    using assms(1) by (auto simp: validate_signers_def split: if_splits Option.bind_splits option.splits prod.splits bool.splits)
  then show "list_all (signer_ok wl) signers" and "n = sum_list (map signer_elements signers)"
    using validate_loop_ok [OF _ assms(2)] by force+
qed

text \<open>What a successful registration has gone through.\<close>

lemma register_success:
  assumes r: "register_multisig wl (Some xpriv) path_features fresh iv malloc_ok ui env restriction name network_id variant is_sorted threshold signers None st
      = Some (None, st')"
    and m: "\<And>n. length (fresh n) = n" and sg: "list_all signer_struct signers"
    and laws: "hmac_ok wl" "cbc_ok wl" "length iv = Registration.AES_BLOCK_LEN"
  shows "is_multisig variant \<and> quorum_ok wl threshold None signers \<and>
    (let body = body_bytes wl variant is_sorted threshold None signers in
     identical_registration wl (Some xpriv) env st name body = Some True \<and> st' = st \<or>
     persist_multisig ui env st name (sealed wl xpriv iv CURRENT_MULTISIG_RECORD_VERSION body) = Some (None, st'))"
proof -
  let ?body = "body_bytes wl variant is_sorted threshold None signers"
  have g: "is_multisig variant" "0 < threshold" "threshold \<le> length signers" "length signers \<le> MAX_ALLOWED_SIGNERS"
    using r unfolding register_multisig_def Let_def by (simp_all split: if_splits)
  have k: "blinding_key_len None = 0" by (simp add: blinding_key_len_def)
  note r1 = r [unfolded register_multisig_def Let_def k, simplified]
  obtain fp n where v: "validate_signers wl (Some xpriv) path_features signers False fp = Some (Some n)"
    and fp: "wallet_get_fingerprint wl (Some xpriv) BIP32_KEY_FINGERPRINT_LEN = Some fp"
    using r1 by (auto split: if_splits Option.bind_splits option.splits)
  have q: "quorum_ok wl threshold None signers"
    using g validate_signers_Some(1) [OF v sg] by (simp add: quorum_ok_def is_valid_blinding_key_def)
  let ?n = "sum_list (map signer_elements signers)"
  have n: "n = ?n" by (rule validate_signers_Some(2) [OF v sg])
  have b: "multisig_body_to_bytes wl variant is_sorted threshold None signers ?n (fresh (MULTISIG_BODY_LEN 0 (length signers) ?n)) = Some (Some ?body)"
    by (rule body_to_bytes_eq [OF q]) (simp add: m k)
  have lb: "length ?body = MULTISIG_BODY_LEN 0 (length signers) ?n"
    using length_body_bytes [of wl signers variant is_sorted threshold None] q k by (simp add: quorum_ok_def)
  have se: "multisig_seal_body wl (Some xpriv) iv ?body (fresh (REGISTRATION_SEALED_LEN (MULTISIG_BODY_LEN 0 (length signers) ?n)))
      = Some (True, sealed wl xpriv iv CURRENT_MULTISIG_RECORD_VERSION ?body)"
    unfolding multisig_seal_body_def by (rule registration_seal_eq [OF laws body_bytes_bounds(1) [OF q]]) (simp add: m lb)
  have "identical_registration wl (Some xpriv) env st name ?body = Some True \<and> st' = st \<or>
     persist_multisig ui env st name (sealed wl xpriv iv CURRENT_MULTISIG_RECORD_VERSION ?body) = Some (None, st')"
    using r1 v fp b se n by (auto split: if_splits Option.bind_splits option.splits)
  then show ?thesis using g q by (simp add: Let_def)
qed

text \<open>C6. A registered multisig wallet can be used: when \<open>register_multisig\<close> reports success, either because
  the same record was already stored or because the new one was written, loading the record by its name gives
  the registered script variant, sorting, threshold, parent keys and signers, whatever was in memory before.\<close>

theorem multisig_registered_is_loadable:
  assumes "hmac_ok wl" and "cbc_ok wl" and "base58_ok wl" and "serialize_ok wl" and "nvs_ok env st"
    and "length iv = Registration.AES_BLOCK_LEN" and "\<And>n. length (fresh n) = n" and "list_all signer_struct signers"
    and "list_all (\<lambda>s. signer_parent wl s \<noteq> None) signers"
    and "length heap = MAX_MULTISIG_BODY_LEN" and "length xpubs = XPUBS_LEN"
    and "register_multisig wl (Some xpriv) path_features fresh iv malloc_ok ui env restriction name network_id variant is_sorted threshold signers None st
      = Some (None, st')"
  shows "multisig_load_from_storage wl (Some xpriv) heap xpubs env st' name dl
    = Some (Inr (quorum_data wl variant is_sorted threshold signers xpubs, take dl signers))"
proof -
  let ?body = "body_bytes wl variant is_sorted threshold None signers"
  let ?rec = "sealed wl xpriv iv CURRENT_MULTISIG_RECORD_VERSION ?body"
  have s: "is_multisig variant" "quorum_ok wl threshold None signers"
    and r: "identical_registration wl (Some xpriv) env st name ?body = Some True \<and> st' = st \<or> persist_multisig ui env st name ?rec = Some (None, st')"
    using register_success [OF assms(12,7,8,1,2,6)] by (simp_all add: Let_def)
  note bb = body_bytes_bounds [OF s(2), of variant is_sorted]
  have lr: "length ?rec = REGISTRATION_SEALED_LEN (length ?body)" by (rule length_sealed [OF assms(1,2,6) bb(1)])
  have o: "multisig_open_registration wl (Some xpriv) ?rec MAX_MULTISIG_BODY_LEN = Some (Some ?body)"
    unfolding multisig_open_registration_def by (rule registration_open_sealed [OF assms(1,2,6) bb])
  have l: "length ?rec \<le> MAX_MULTISIG_BYTES_LEN"
    unfolding lr using bb(2) by (simp add: MAX_MULTISIG_BYTES_LEN_def seal_lens div_le_mono)
  have ne: "?rec \<noteq> []" using lr by (auto simp: seal_lens)
  show ?thesis using r
  proof
    assume "identical_registration wl (Some xpriv) env st name ?body = Some True \<and> st' = st"
    then show ?thesis using identical_ok [OF assms(5)] load_stored [OF assms(5) _ _ _ s assms(3,4,9-11)] by blast
  next
    assume "persist_multisig ui env st name ?rec = Some (None, st')"
    then have "nvs_ok env st'" "lookup st' 1 name = Some ?rec" using persist_ok [OF assms(5) ne] by blast+
    then show ?thesis using load_stored [OF _ _ l o s assms(3,4,9-11)] by blast
  qed
qed

definition demo_registration :: "(rpc_result \<times> unit nvs_state) option" where
  "demo_registration = register_multisig demo_wally (Some (demo_key 0 209)) (\<lambda>_. None) (\<lambda>n. replicate n 0) (replicate 16 1) True demo_answers demo_env
     NETWORK_TYPE_MAIN (str ''savings'') NETWORK_BITCOIN MULTI_P2WSH True 1 [demo_signer] None demo_nvs"

theorem multisig_registered_is_loadable_witness:
  "\<exists>st'. demo_registration = Some (None, st') \<and>
    multisig_load_from_storage demo_wally (Some (demo_key 0 209)) (replicate MAX_MULTISIG_BODY_LEN 0) (replicate XPUBS_LEN 0) demo_env st' (str ''savings'') 15
    = Some (Inr (quorum_data demo_wally MULTI_P2WSH True 1 [demo_signer] (replicate XPUBS_LEN 0), [demo_signer]))"
proof -
  have "map_option fst demo_registration = Some None" by code_simp
  then obtain st' where r: "demo_registration = Some (None, st')" by auto
  have sg: "list_all signer_struct [demo_signer]" by (simp add: signer_struct_def demo_signer_def wallet_lens)
  have p: "list_all (\<lambda>s. signer_parent demo_wally s \<noteq> None) [demo_signer]" using demo_keys(2) by simp
  have "multisig_load_from_storage demo_wally (Some (demo_key 0 209)) (replicate MAX_MULTISIG_BODY_LEN 0) (replicate XPUBS_LEN 0) demo_env st' (str ''savings'') 15
    = Some (Inr (quorum_data demo_wally MULTI_P2WSH True 1 [demo_signer] (replicate XPUBS_LEN 0), take 15 [demo_signer]))"
    by (rule multisig_registered_is_loadable [OF demo_crypto demo_keys(1,3) demo_nvs_ok _ _ sg p _ _ r [unfolded demo_registration_def]])
      (simp_all add: Registration.AES_BLOCK_LEN_def)
  then show ?thesis using r by auto
qed

end
