(* ===== verification/Descriptor_Lifecycle.thy ===== *)
theory Descriptor_Lifecycle
  imports Descriptor_Text Multisig_Lifecycle
begin

text \<open>
  \<open>main/process/register_descriptor.c\<close>: a descriptor wallet from its text to its use. \<open>register_descriptor\<close>
  validates, encodes, seals and stores a descriptor, \<open>register_descriptor_text\<close> does so for a scanned text, and
  \<open>descriptor_load_from_storage\<close> of \<open>Descriptor\<close> reads the record back. The answers of the user, fresh memory and
  the libraries are parameters, as in \<open>Multisig_File\<close>. The CBOR handler of the same source file only extracts the
  parameters and is not modelled.
\<close>

section \<open>Registering\<close>

text \<open>Whether the stored record is this wallet's and has the same body.\<close>

definition identical_descriptor ::
  "'k libwally \<Rightarrow> 'k option \<Rightarrow> 'n nvs_env \<Rightarrow> 'n nvs_state \<Rightarrow> bytes \<Rightarrow> bytes \<Rightarrow> bool option" where
  "identical_descriptor wl keychain env st descriptor_name body = do {
     existing \<leftarrow> storage_get_descriptor_registration env descriptor_name MAX_DESCRIPTOR_BYTES_LEN st;
     case existing of None \<Rightarrow> Some False | Some existing \<Rightarrow> do {
       existing_body \<leftarrow> descriptor_open_registration wl keychain existing MAX_DESCRIPTOR_BODY_LEN;
       Some (existing_body = Some body) } }"

text \<open>From the confirmation to the storage.\<close>

definition persist_descriptor ::
  "user_answers \<Rightarrow> 'n nvs_env \<Rightarrow> 'n nvs_state \<Rightarrow> bytes \<Rightarrow> bytes \<Rightarrow> (rpc_result \<times> 'n nvs_state) option" where
  "persist_descriptor ui env st descriptor_name registration =
     (if \<not> ua_confirm ui then Some (Some (CBOR_RPC_USER_CANCELLED, str ''User declined to register descriptor''), st)
      else do {
        (ok, st) \<leftarrow> storage_set_descriptor_registration env descriptor_name registration st;
        Some (if ok then None else Some (CBOR_RPC_INTERNAL_ERROR, str ''Failed to persist descriptor data''), st) })"

text \<open>From the question whether the name is in use.\<close>

definition store_descriptor ::
  "'k libwally \<Rightarrow> 'k option \<Rightarrow> (nat \<Rightarrow> bytes) \<Rightarrow> bool \<Rightarrow> user_answers \<Rightarrow> 'n nvs_env \<Rightarrow> bytes \<Rightarrow> bytes \<Rightarrow> bytes \<Rightarrow> 'n nvs_state
   \<Rightarrow> (rpc_result \<times> 'n nvs_state) option" where
  "store_descriptor wl keychain fresh malloc_ok ui env descriptor_name body registration st = do {
     overwriting \<leftarrow> storage_descriptor_name_exists malloc_ok descriptor_name st;
     if overwriting then do {
       identical \<leftarrow> identical_descriptor wl keychain env st descriptor_name body;
       if identical then Some (None, st)
       else do {
         existing \<leftarrow> descriptor_load_from_storage wl keychain (fresh MAX_DESCRIPTOR_BODY_LEN) env st descriptor_name;
         if \<not> (case existing of Inl _ \<Rightarrow> False | Inr _ \<Rightarrow> True) \<and> \<not> ua_replace ui
         then Some (Some (CBOR_RPC_USER_CANCELLED, str ''User declined to overwrite descriptor''), st)
         else persist_descriptor ui env st descriptor_name registration } }
     else if storage_get_descriptor_registration_count malloc_ok st \<ge> MAX_DESCRIPTOR_REGISTRATIONS
     then Some (Some (CBOR_RPC_BAD_PARAMETERS, str ''Already have maximum number of descriptor wallets''), st)
     else persist_descriptor ui env st descriptor_name registration }"

text \<open>The first external and change address; the message of the first that cannot be made, if any.\<close>

definition address_objection :: "('m, 'd) wally_descriptor \<Rightarrow> bool \<Rightarrow> descriptor_data_t \<Rightarrow> network_t \<Rightarrow> bytes option option" where
  "address_objection wd allow_liquid descriptor network_id = do {
     addr0 \<leftarrow> descriptor_to_address wd allow_liquid descriptor network_id 0 0;
     case addr0 of Inl errmsg \<Rightarrow> Some (Some errmsg) | Inr _ \<Rightarrow> do {
       addr1 \<leftarrow> descriptor_to_address wd allow_liquid descriptor network_id 1 0;
       Some (case addr1 of Inl errmsg \<Rightarrow> Some errmsg | Inr _ \<Rightarrow> None) } }"

definition register_descriptor ::
  "'k libwally \<Rightarrow> ('m, 'd) wally_descriptor \<Rightarrow> bool \<Rightarrow> 'k option \<Rightarrow> (bytes \<Rightarrow> bool option) \<Rightarrow> (nat \<Rightarrow> bytes) \<Rightarrow> bytes \<Rightarrow> bool
   \<Rightarrow> user_answers \<Rightarrow> 'n nvs_env \<Rightarrow> network_type_t \<Rightarrow> bytes \<Rightarrow> network_t \<Rightarrow> descriptor_data_t \<Rightarrow> 'n nvs_state
   \<Rightarrow> (rpc_result \<times> 'n nvs_state) option" where
  "register_descriptor wl wd allow_liquid keychain path_features fresh iv malloc_ok ui env restriction descriptor_name network_id descriptor st = do {
     jade_assert (network_id \<noteq> NETWORK_NONE);
     jade_assert (length (dd_script descriptor) < MAX_DESCRIPTOR_SCRIPT_LEN);
     jade_assert (length (dd_values descriptor) \<le> MAX_ALLOWED_SIGNERS);
     let bad = (\<lambda>msg. Some (Some (CBOR_RPC_BAD_PARAMETERS, msg), st));
     if network_id \<noteq> supported_network restriction then bad (str ''Descriptor network does not match device setting'')
     else if \<not> storage_key_name_valid descriptor_name then bad (str ''Invalid descriptor name'')
     else do {
       let body_len = DESCRIPTOR_BODY_LEN descriptor;
       got \<leftarrow> descriptor_get_signers wl wd allow_liquid descriptor network_id MAX_ALLOWED_SIGNERS True;
       case got of Inl errmsg \<Rightarrow> bad errmsg | Inr (deduced_type, num_signers, signers, blinding_key) \<Rightarrow>
         if deduced_type \<noteq> DESCRIPTOR_TYPE_MIXED then bad (str ''Pure miniscript expressions not supported'')
         else do {
           let descriptor = descriptor\<lparr>dd_type := deduced_type\<rparr>;
           fingerprint \<leftarrow> wallet_get_fingerprint wl keychain BIP32_KEY_FINGERPRINT_LEN;
           valid \<leftarrow> validate_signers wl keychain path_features signers True fingerprint;
           if valid = None then bad (str ''Failed to validate signers'')
           else do {
             objection \<leftarrow> address_objection wd allow_liquid descriptor network_id;
             case objection of Some errmsg \<Rightarrow> bad errmsg | None \<Rightarrow> do {
               body \<leftarrow> descriptor_body_to_bytes descriptor (fresh body_len);
               (ok, registration) \<leftarrow> descriptor_seal_body wl keychain iv body (fresh (REGISTRATION_SEALED_LEN body_len));
               if \<not> ok then Some (Some (CBOR_RPC_INTERNAL_ERROR, str ''Failed to serialise descriptor''), st)
               else store_descriptor wl keychain fresh malloc_ok ui env descriptor_name body registration st } } } } }"

text \<open>\<open>sha256\<close> is the hash that names a descriptor without a label.\<close>

definition register_descriptor_text ::
  "'k libwally \<Rightarrow> ('m, 'd) wally_descriptor \<Rightarrow> bool \<Rightarrow> 'k option \<Rightarrow> (bytes \<Rightarrow> bool option) \<Rightarrow> (bytes \<Rightarrow> bytes) \<Rightarrow> (nat \<Rightarrow> bytes) \<Rightarrow> bytes \<Rightarrow> bool
   \<Rightarrow> user_answers \<Rightarrow> 'n nvs_env \<Rightarrow> network_type_t \<Rightarrow> bytes \<Rightarrow> 'n nvs_state \<Rightarrow> (rpc_result \<times> 'n nvs_state) option" where
  "register_descriptor_text wl wd allow_liquid keychain path_features sha256 fresh iv malloc_ok ui env restriction text st = do {
     jade_assert (text \<noteq> []);
     let network_id = supported_network restriction;
     parsed \<leftarrow> descriptor_text_parse sha256 fresh text MAX_DESCRIPTOR_NAME_SIZE;
     case parsed of Inl errmsg \<Rightarrow> Some (Some (CBOR_RPC_BAD_PARAMETERS, errmsg), st) | Inr (descriptor, descriptor_name) \<Rightarrow>
       register_descriptor wl wd allow_liquid keychain path_features fresh iv malloc_ok ui env restriction descriptor_name network_id descriptor st }"

section \<open>From the registration to the record\<close>

lemma identical_descriptor_ok:
  assumes "nvs_ok env st" and "identical_descriptor wl keychain env st name body = Some True"
  shows "\<exists>record. lookup st 2 name = Some record \<and> length record \<le> MAX_DESCRIPTOR_BYTES_LEN \<and>
    descriptor_open_registration wl keychain record MAX_DESCRIPTOR_BODY_LEN = Some (Some body)"
  using assms(2) read_blob_lookup [OF assms(1) nvs_open_names(3), of MAX_DESCRIPTOR_BYTES_LEN name]
  by (auto simp: identical_descriptor_def storage_get_descriptor_registration_def descriptor_static_asserts
      split: option.splits if_splits Option.bind_splits)

text \<open>What storing can do to the records: only the one of this name changes, and only a failure to write may leave it
  half-way.\<close>

definition descriptor_stored :: "bytes \<Rightarrow> bytes \<Rightarrow> 'n nvs_state \<Rightarrow> rpc_result \<Rightarrow> 'n nvs_state \<Rightarrow> bool" where
  "descriptor_stored name registration st r st' \<longleftrightarrow> same_but 2 name st st' \<and>
     (case r of None \<Rightarrow> lookup st' 2 name = Some registration
      | Some (e, _) \<Rightarrow> if e = CBOR_RPC_INTERNAL_ERROR then lookup st' 2 name \<in> {Some registration, lookup st 2 name} else st' = st)"

lemma same_but_refl: "same_but h name st st"
  by (simp add: same_but_def)

lemma persist_descriptor_ok:
  assumes "nvs_ok env st" and "registration \<noteq> []"
  shows "\<exists>r st'. persist_descriptor ui env st name registration = Some (r, st') \<and> descriptor_stored name registration st r st'"
proof (cases "ua_confirm ui")
  case True
  obtain r st1 where s: "store_blob env DESCRIPTOR_NAMESPACE name registration st = Some (r, st1)" "same_but 2 name st st1"
      "lookup st1 2 name = Some registration \<or> \<not> r \<and> lookup st1 2 name = lookup st 2 name"
    by (rule store_blob_effect [OF assms(1) nvs_open_names(3) _ assms(2)]) simp
  then show ?thesis
    using True by (auto simp: persist_descriptor_def storage_set_descriptor_registration_def descriptor_stored_def)
qed (simp add: persist_descriptor_def descriptor_stored_def same_but_refl)

lemma store_descriptor_ok:
  assumes "nvs_ok env st" and "registration \<noteq> []"
    and s: "store_descriptor wl keychain fresh malloc_ok ui env name body registration st = Some (r, st')"
  shows "identical_descriptor wl keychain env st name body = Some True \<and> r = None \<and> st' = st \<or> descriptor_stored name registration st r st'"
proof -
  have "descriptor_stored name registration st r st'" if "persist_descriptor ui env st name registration = Some (r, st')"
    using persist_descriptor_ok [OF assms(1,2), of ui name] that by auto
  moreover have "descriptor_stored name registration st (Some (CBOR_RPC_BAD_PARAMETERS, m)) st" "descriptor_stored name registration st (Some (CBOR_RPC_USER_CANCELLED, m)) st" for m
    by (simp_all add: descriptor_stored_def same_but_refl)
  ultimately show ?thesis
    using s unfolding store_descriptor_def by (auto split: Option.bind_splits if_splits)
qed

text \<open>Every way out of \<open>register_descriptor\<close>: an error before anything is stored, or the attempt to store the sealed
  bytes of the descriptor.\<close>

lemma register_descriptor_cases:
  assumes r: "register_descriptor wl wd allow_liquid (Some xpriv) path_features fresh iv malloc_ok ui env restriction name network_id d st = Some (r, st')"
    and laws: "hmac_ok wl" "cbc_ok wl" "length iv = Registration.AES_BLOCK_LEN" "fresh_ok fresh"
  shows "(\<exists>msg. r = Some (CBOR_RPC_BAD_PARAMETERS, msg)) \<and> st' = st \<or>
    dd_script d \<noteq> [] \<and> length (dd_script d) < MAX_DESCRIPTOR_SCRIPT_LEN \<and> length (dd_values d) \<le> MAX_ALLOWED_SIGNERS \<and> storage_key_name_valid name \<and>
    (let body = descriptor_bytes (d\<lparr>dd_type := DESCRIPTOR_TYPE_MIXED\<rparr>) in
     store_descriptor wl (Some xpriv) fresh malloc_ok ui env name body (sealed wl xpriv iv CURRENT_DESCRIPTOR_RECORD_VERSION body) st = Some (r, st'))"
proof -
  let ?d = "d\<lparr>dd_type := DESCRIPTOR_TYPE_MIXED\<rparr>"
  let ?body = "descriptor_bytes ?d"
  have l: "length (fresh n) = n" for n using laws(4) by (simp add: fresh_ok_def)
  have b: "descriptor_body_to_bytes ?d (fresh (DESCRIPTOR_BODY_LEN d)) = (if dd_script d = [] then None else Some ?body)"
    if "length (dd_values d) \<le> MAX_ALLOWED_SIGNERS"
  proof (cases "dd_script d = []")
    case False
    have "length (fresh (DESCRIPTOR_BODY_LEN d)) = DESCRIPTOR_BODY_LEN ?d" unfolding l by (simp add: DESCRIPTOR_BODY_LEN_def)
    then show ?thesis using that False descriptor_to_bytes_eq [of "fresh (DESCRIPTOR_BODY_LEN d)" ?d] by simp
  qed (simp add: descriptor_body_to_bytes_def jade_assert_def)
  have "?body \<noteq> []" by (simp add: descriptor_bytes_def)
  moreover have "length ?body = DESCRIPTOR_BODY_LEN d" using length_descriptor_bytes [of ?d] by (simp add: DESCRIPTOR_BODY_LEN_def)
  ultimately have s: "descriptor_seal_body wl (Some xpriv) iv ?body (fresh (REGISTRATION_SEALED_LEN (DESCRIPTOR_BODY_LEN d)))
      = Some (True, sealed wl xpriv iv CURRENT_DESCRIPTOR_RECORD_VERSION ?body)"
    unfolding descriptor_seal_body_def by (intro registration_seal_eq laws) (simp_all add: l)
  note r1 = r [unfolded register_descriptor_def Let_def jade_assert_def]
  show ?thesis
    using r1 by (auto simp: b s split: if_splits Option.bind_splits option.splits sum.splits prod.splits)
qed

lemma descriptor_load_stored:
  assumes "nvs_ok env st" and "lookup st 2 name = Some record" and "length record \<le> MAX_DESCRIPTOR_BYTES_LEN" and "descriptor_ok d" and "dd_script d \<noteq> []"
    and o: "descriptor_open_registration wl keychain record MAX_DESCRIPTOR_BODY_LEN = Some (Some (descriptor_bytes d))" and "length heap = MAX_DESCRIPTOR_BODY_LEN"
  shows "descriptor_load_from_storage wl keychain heap env st name = Some (Inr d)"
proof -
  let ?b = "descriptor_bytes d"
  have ne: "?b \<noteq> []" by (simp add: descriptor_bytes_def)
  have l: "length ?b \<le> MAX_DESCRIPTOR_BODY_LEN" "MIN_DESCRIPTOR_BODY_LEN \<le> length ?b"
    using descriptor_bytes_le [OF assms(4)] assms(5) by (auto simp: descriptor_bytes_def string_bytes_def MIN_DESCRIPTOR_BODY_LEN_def Suc_le_eq)
  have "buf_write heap 0 ?b = Some (?b @ drop (length ?b) heap)" using l(1) assms(7) by (simp add: buf_write_def)
  moreover have "take_body ?b = Some d" using take_body_Some [OF ne] assms(4) by simp
  ultimately have "descriptor_from_bytes wl keychain heap record = Some (Some d)"
    using o l by (simp add: descriptor_from_bytes_def descriptor_from_bytes_eq)
  moreover have "storage_get_descriptor_registration env name MAX_DESCRIPTOR_BYTES_LEN st = Some (Some record)"
    using read_blob_lookup [OF assms(1) nvs_open_names(3), of MAX_DESCRIPTOR_BYTES_LEN name] assms(2,3)
    by (simp add: storage_get_descriptor_registration_def descriptor_static_asserts)
  ultimately show ?thesis using assms(4) by (simp add: descriptor_load_from_storage_def descriptor_ok_def)
qed

lemma sealed_descriptor:
  assumes "hmac_ok wl" and "cbc_ok wl" and "length iv = Registration.AES_BLOCK_LEN" and "descriptor_ok d"
  shows "length (sealed wl xpriv iv CURRENT_DESCRIPTOR_RECORD_VERSION (descriptor_bytes d)) \<le> MAX_DESCRIPTOR_BYTES_LEN"
    and "descriptor_open_registration wl (Some xpriv) (sealed wl xpriv iv CURRENT_DESCRIPTOR_RECORD_VERSION (descriptor_bytes d)) MAX_DESCRIPTOR_BODY_LEN
      = Some (Some (descriptor_bytes d))"
proof -
  have ne: "descriptor_bytes d \<noteq> []" by (simp add: descriptor_bytes_def)
  note l = descriptor_bytes_le [OF assms(4)]
  show "length (sealed wl xpriv iv CURRENT_DESCRIPTOR_RECORD_VERSION (descriptor_bytes d)) \<le> MAX_DESCRIPTOR_BYTES_LEN"
    using length_sealed [OF assms(1-3) ne] l by (simp add: MAX_DESCRIPTOR_BYTES_LEN_def seal_lens div_le_mono)
  show "descriptor_open_registration wl (Some xpriv) (sealed wl xpriv iv CURRENT_DESCRIPTOR_RECORD_VERSION (descriptor_bytes d)) MAX_DESCRIPTOR_BODY_LEN
      = Some (Some (descriptor_bytes d))"
    unfolding descriptor_open_registration_def by (rule registration_open_sealed [OF assms(1-3) ne l])
qed

lemma sealed_ne:
  assumes "hmac_ok wl" and "cbc_ok wl" and "length iv = Registration.AES_BLOCK_LEN"
  shows "sealed wl xpriv iv version (descriptor_bytes d) \<noteq> []"
  using length_sealed [OF assms, of "descriptor_bytes d" xpriv version] by (auto simp: seal_lens descriptor_bytes_def)

lemma registered_loads:
  assumes laws: "hmac_ok wl" "cbc_ok wl" "length iv = Registration.AES_BLOCK_LEN" "fresh_ok fresh" and "nvs_ok env st" and "list_all value_ok (dd_values d)"
    and "length heap = MAX_DESCRIPTOR_BODY_LEN"
    and r: "register_descriptor wl wd allow_liquid (Some xpriv) path_features fresh iv malloc_ok ui env restriction name network_id d st = Some (None, st')"
  shows "descriptor_load_from_storage wl (Some xpriv) heap env st' name = Some (Inr (d\<lparr>dd_type := DESCRIPTOR_TYPE_MIXED\<rparr>))"
proof -
  let ?d = "d\<lparr>dd_type := DESCRIPTOR_TYPE_MIXED\<rparr>"
  let ?rec = "sealed wl xpriv iv CURRENT_DESCRIPTOR_RECORD_VERSION (descriptor_bytes ?d)"
  have d: "descriptor_ok ?d" "dd_script ?d \<noteq> []"
    and s: "store_descriptor wl (Some xpriv) fresh malloc_ok ui env name (descriptor_bytes ?d) ?rec st = Some (None, st')"
    using register_descriptor_cases [OF r laws] assms(6) by (auto simp: Let_def descriptor_ok_def)
  consider "identical_descriptor wl (Some xpriv) env st name (descriptor_bytes ?d) = Some True" "st' = st" | "descriptor_stored name ?rec st None st'"
    using store_descriptor_ok [OF assms(5) sealed_ne [OF laws(1-3)] s] by blast
  then show ?thesis
  proof cases
    case 1
    then show ?thesis
      using identical_descriptor_ok [OF assms(5) 1(1)] descriptor_load_stored [OF assms(5) _ _ d _ assms(7)] by blast
  next
    case 2
    then have "nvs_ok env st'" "lookup st' 2 name = Some ?rec" using same_but_ok [OF assms(5)] by (auto simp: descriptor_stored_def)
    then show ?thesis using descriptor_load_stored [OF _ _ _ d _ assms(7)] sealed_descriptor [OF laws(1-3) d(1)] by blast
  qed
qed

section \<open>Properties\<close>

text \<open>A library of descriptors with one key, for the concrete cases.\<close>

definition demo_descriptors :: "((bytes \<times> bytes) list, bytes) wally_descriptor" where
  "demo_descriptors = \<lparr>
     wd_map_init = (\<lambda>n. Some []), wd_map_add = (\<lambda>m k v. Some (m @ [(k, v)])),
     wd_parse = (\<lambda>script values network flags. if take 4 script = str ''wpkh'' \<and> length values = 1 then Some script else None),
     wd_depth = (\<lambda>d. Some 2), wd_num_variants = (\<lambda>d. Some 1), wd_features = (\<lambda>d. Some 2), wd_num_paths = (\<lambda>d. Some 2), wd_num_keys = (\<lambda>d. Some 1),
     wd_key_features = (\<lambda>d i. Some 64), wd_key_origin_fingerprint = (\<lambda>d i. Some [7, 7, 7, 7]),
     wd_key_origin_path_str = (\<lambda>d i. Some (path_text [0x80000030])), wd_key = (\<lambda>d i. Some (str ''xpubA'')),
     wd_key_child_path_str = (\<lambda>d i. Some (str ''<0;1>/*'')), wd_blinding_key = (\<lambda>d. None),
     wd_address = (\<lambda>d m i. Some (str ''bc1q'')), wd_script_max = (\<lambda>d m i. Some 22), wd_script = (\<lambda>d m i n. Some (replicate 22 0)),
     ms_only = 2, ms_policy_template = 4, ms_unique_keypaths = 8, ms_depth_shift = 16, ms_is_private = 1, ms_is_ranged = 2, ms_is_slip77 = 32,
     ms_any_blinding_key = 32, ms_is_uncompressed = 4, ms_is_raw = 8, ms_is_parented = 64 \<rparr>"

definition demo_text_registration :: "(rpc_result \<times> unit nvs_state) option" where
  "demo_text_registration = register_descriptor_text demo_wally demo_descriptors False (Some (demo_key 0 209)) (\<lambda>_. Some False) (\<lambda>_. replicate 32 0) (\<lambda>n. replicate n 0)
     (replicate 16 1) True demo_answers demo_env NETWORK_TYPE_MAIN (str ''wpkh([07070707/48h]xpubA/**)'') demo_nvs"

lemma demo_text_registered: "map_option fst demo_text_registration = Some None"
  by code_simp

text \<open>C7. A scanned descriptor that is registered can be used: when \<open>register_descriptor_text\<close> reports success, either
  because the same record was already stored or because the new one was written, the text parses to a descriptor and a name,
  and loading the record of that name gives this descriptor, whatever was in memory before.\<close>

theorem descriptor_text_registered_is_loadable:
  assumes "hmac_ok wl" and "cbc_ok wl" and "length iv = Registration.AES_BLOCK_LEN" and "fresh_ok fresh" and "hash_ok sha256" and "nvs_ok env st"
    and "length heap = MAX_DESCRIPTOR_BODY_LEN"
    and r: "register_descriptor_text wl wd allow_liquid (Some xpriv) path_features sha256 fresh iv malloc_ok ui env restriction t st = Some (None, st')"
  shows "\<exists>d name. descriptor_text_parse sha256 fresh t MAX_DESCRIPTOR_NAME_SIZE = Some (Inr (d, name)) \<and>
    descriptor_load_from_storage wl (Some xpriv) heap env st' name = Some (Inr (d\<lparr>dd_type := DESCRIPTOR_TYPE_MIXED\<rparr>))"
proof -
  have "t \<noteq> []" using r by (auto simp: register_descriptor_text_def jade_assert_def split: if_splits)
  then obtain p where p: "descriptor_text_parse sha256 fresh t MAX_DESCRIPTOR_NAME_SIZE = Some p" "\<forall>d name. p = Inr (d, name) \<longrightarrow> parse_post t d name"
    using parse_ok [OF _ _ assms(4,5)] by blast
  obtain d name where dn: "p = Inr (d, name)"
    and reg: "register_descriptor wl wd allow_liquid (Some xpriv) path_features fresh iv malloc_ok ui env restriction name (supported_network restriction) d st = Some (None, st')"
    using r p(1) \<open>t \<noteq> []\<close> by (auto simp: register_descriptor_text_def split: sum.splits)
  have "list_all value_ok (dd_values d)" using p(2) dn by (simp add: parse_post_def descriptor_ok_def)
  then show ?thesis using p(1) dn registered_loads [OF assms(1-4,6) _ assms(7) reg] by blast
qed

theorem descriptor_text_registered_is_loadable_witness:
  "\<exists>st' d name. demo_text_registration = Some (None, st') \<and>
    descriptor_load_from_storage demo_wally (Some (demo_key 0 209)) (replicate MAX_DESCRIPTOR_BODY_LEN 5) demo_env st' name = Some (Inr d)"
proof -
  obtain st' where r: "demo_text_registration = Some (None, st')" using demo_text_registered by auto
  have iv: "length (replicate 16 (1 :: byte)) = Registration.AES_BLOCK_LEN" by (simp add: Registration.AES_BLOCK_LEN_def)
  have p: "fresh_ok (\<lambda>n. replicate n 0)" "hash_ok (\<lambda>_. replicate 32 0)" by (simp_all add: fresh_ok_def hash_ok_def)
  have "length (replicate MAX_DESCRIPTOR_BODY_LEN (5 :: byte)) = MAX_DESCRIPTOR_BODY_LEN" by simp
  from descriptor_text_registered_is_loadable [OF demo_crypto iv p demo_nvs_ok this r [unfolded demo_text_registration_def]] r
  show ?thesis by blast
qed

text \<open>Registering a descriptor touches no other record: of everything in the storage, only the descriptor record of this
  name can change. When the user declines or a check fails nothing changes, and when writing fails the record of this name
  is the old one or the new one.\<close>

lemma register_descriptor_frame:
  assumes "hmac_ok wl" and "cbc_ok wl" and "length iv = Registration.AES_BLOCK_LEN" and "fresh_ok fresh" and "nvs_ok env st"
    and r: "register_descriptor wl wd allow_liquid (Some xpriv) path_features fresh iv malloc_ok ui env restriction name network_id d st = Some (r, st')"
  shows "nvs_ok env st' \<and> same_but 2 name st st' \<and>
    (case r of Some (CBOR_RPC_BAD_PARAMETERS, _) \<Rightarrow> st' = st | Some (CBOR_RPC_USER_CANCELLED, _) \<Rightarrow> st' = st
     | _ \<Rightarrow> lookup st' 2 name \<in> {lookup st 2 name,
         Some (sealed wl xpriv iv CURRENT_DESCRIPTOR_RECORD_VERSION (descriptor_bytes (d\<lparr>dd_type := DESCRIPTOR_TYPE_MIXED\<rparr>)))})"
proof -
  let ?b = "descriptor_bytes (d\<lparr>dd_type := DESCRIPTOR_TYPE_MIXED\<rparr>)"
  let ?rec = "sealed wl xpriv iv CURRENT_DESCRIPTOR_RECORD_VERSION ?b"
  consider "\<exists>msg. r = Some (CBOR_RPC_BAD_PARAMETERS, msg)" "st' = st"
    | "store_descriptor wl (Some xpriv) fresh malloc_ok ui env name ?b ?rec st = Some (r, st')"
    using register_descriptor_cases [OF r assms(1-4)] by (auto simp: Let_def)
  then have "(\<exists>msg. r = Some (CBOR_RPC_BAD_PARAMETERS, msg)) \<and> st' = st \<or> r = None \<and> st' = st \<or> descriptor_stored name ?rec st r st'"
    using store_descriptor_ok [OF assms(5) sealed_ne [OF assms(1-3)]] by cases blast+
  moreover have "nvs_ok env st'" if "same_but 2 name st st'" using same_but_ok [OF assms(5) that] .
  ultimately show ?thesis
    using assms(5) same_but_refl [of 2 name st] by (auto simp: descriptor_stored_def split: option.splits rpc_error.splits if_splits)
qed

end
