(* ===== verification/Urlcodec.thy ===== *)
theory Urlcodec
  imports Jade_Prelude
begin

text \<open>
  \<open>main/utils/urldecode.c\<close>: percent encoding and its decoder, which is also used without a
  destination to validate a text.

  The source is the list of its \<open>src_len\<close> bytes, the destination a buffer of which \<open>dest_len\<close> bytes
  may be written (\<open>None\<close> for a NULL destination). The result carries the destination as it is left,
  also on failure. The outer \<open>None\<close> is a failed assertion or a write outside the buffer.
\<close>

section \<open>Operations\<close>

definition isxdigit :: "byte \<Rightarrow> bool" where
  "isxdigit c \<longleftrightarrow> 48 \<le> c \<and> c \<le> 57 \<or> 65 \<le> c \<and> c \<le> 70 \<or> 97 \<le> c \<and> c \<le> 102"

definition isalnum :: "byte \<Rightarrow> bool" where
  "isalnum c \<longleftrightarrow> 48 \<le> c \<and> c \<le> 57 \<or> 65 \<le> c \<and> c \<le> 90 \<or> 97 \<le> c \<and> c \<le> 122"

definition map_char :: "byte \<Rightarrow> byte option" where
  "map_char c = do {
     jade_assert (isxdigit c);
     let c = (if c \<ge> 97 then c - (97 - 65) else c);
     Some (if c \<ge> 65 then c - (65 - 10) else c - 48) }"

text \<open>One step of the decoder: the decoded character and what follows, \<open>Some None\<close> when a \<open>%\<close> is not
  followed by two hexadecimal digits.\<close>

definition decode_char :: "bytes \<Rightarrow> (byte \<times> bytes) option option" where
  "decode_char src = (case src of
     [] \<Rightarrow> None
   | c # cs \<Rightarrow>
       if c = 37 then
         (case cs of h # l # rest \<Rightarrow>
            if \<not> isxdigit h \<or> \<not> isxdigit l then Some None
            else do {
              a \<leftarrow> map_char h;
              b \<leftarrow> map_char l;
              Some (Some (16 * a + b, rest)) }
          | _ \<Rightarrow> Some None)
       else if c = 43 then Some (Some (32, cs))
       else Some (Some (c, cs)))"

definition put_char :: "bytes option \<Rightarrow> nat \<Rightarrow> byte \<Rightarrow> bytes option option" where
  "put_char dest i c = (case dest of None \<Rightarrow> Some None | Some d \<Rightarrow> map_option Some (buf_set d i c))"

lemma decode_char_shorter: "decode_char src = Some (Some (c, rest)) \<Longrightarrow> length rest < length src"
  by (auto simp: decode_char_def bind_eq_Some_conv split: list.splits if_splits)

function urldecode_loop ::
  "(byte \<Rightarrow> bool) \<Rightarrow> nat \<Rightarrow> bytes \<Rightarrow> bytes option \<Rightarrow> nat \<Rightarrow> (bool \<times> bytes option) option" where
  "urldecode_loop check_fn dest_len src dest decoded_len =
     (if src = [] \<or> hd src = 0 then
        if list_all (\<lambda>c. c = 0) src then do {
          jade_assert (decoded_len < dest_len);
          dest \<leftarrow> put_char dest decoded_len 0;
          Some (True, dest) }
        else Some (False, dest)
      else if decoded_len + 1 = dest_len then Some (False, dest)
      else case decode_char src of
        None \<Rightarrow> None
      | Some None \<Rightarrow> Some (False, dest)
      | Some (Some (decoded, rest)) \<Rightarrow>
          if decoded < 0x20 \<or> decoded > 0x7e then Some (False, dest)
          else if \<not> check_fn decoded then Some (False, dest)
          else (case put_char dest decoded_len decoded of
              None \<Rightarrow> None
            | Some dest \<Rightarrow> urldecode_loop check_fn dest_len rest dest (decoded_len + 1)))"
  by pat_completeness auto
termination by (relation "measure (\<lambda>(_, _, src, _, _). length src)") (auto dest: decode_char_shorter)

declare urldecode_loop.simps [simp del]

text \<open>\<open>check_fn\<close> is the predicate a given callback computes; no callback accepts every character.\<close>

definition try_urldecode ::
  "bytes option \<Rightarrow> bytes option \<Rightarrow> nat \<Rightarrow> (byte \<Rightarrow> bool) \<Rightarrow> (bool \<times> bytes option) option" where
  "try_urldecode src dest dest_len check_fn = (case src of
     None \<Rightarrow> Some (False, dest)
   | Some s \<Rightarrow> if s = [] \<or> dest_len = 0 then Some (False, dest) else urldecode_loop check_fn dest_len s dest 0)"

definition urldecode :: "bytes \<Rightarrow> bytes \<Rightarrow> nat \<Rightarrow> (bool \<times> bytes option) option" where
  "urldecode src dest dest_len = do {
     jade_assert (src \<noteq> []);
     jade_assert (dest_len \<noteq> 0);
     try_urldecode (Some src) (Some dest) dest_len (\<lambda>_. True) }"

definition is_valid_urlencoding :: "bytes option \<Rightarrow> nat \<Rightarrow> (byte \<Rightarrow> bool) \<Rightarrow> bool option" where
  "is_valid_urlencoding src max_len check_fn = do {
     jade_assert (max_len \<noteq> 0);
     (ok, _) \<leftarrow> try_urldecode src None max_len check_fn;
     Some ok }"

definition hex_digit :: "byte \<Rightarrow> byte" where
  "hex_digit n = (if n < 10 then 48 + n else 55 + n)"

definition unreserved :: "byte \<Rightarrow> bool" where
  "unreserved c \<longleftrightarrow> isalnum c \<or> c = 45 \<or> c = 95 \<or> c = 46 \<or> c = 126"

fun urlencode_loop :: "nat \<Rightarrow> bytes \<Rightarrow> bytes \<Rightarrow> nat \<Rightarrow> (bool \<times> bytes) option" where
  "urlencode_loop dest_len [] dest pos = do {
     jade_assert (pos < dest_len);
     dest \<leftarrow> buf_set dest pos 0;
     Some (True, dest) }"
| "urlencode_loop dest_len (c # src) dest pos =
     (if dest_len - pos < 2 then do {
        dest \<leftarrow> buf_set dest pos 0;
        Some (False, dest) }
      else if unreserved c then do {
        dest \<leftarrow> buf_set dest pos c;
        urlencode_loop dest_len src dest (pos + 1) }
      else if c = 32 then do {
        dest \<leftarrow> buf_set dest pos 43;
        urlencode_loop dest_len src dest (pos + 1) }
      else if dest_len - pos < 4 then do {
        dest \<leftarrow> buf_set dest pos 0;
        Some (False, dest) }
      else do {
        dest \<leftarrow> buf_write dest pos [37, hex_digit (c div 16), hex_digit (c mod 16), 0];
        urlencode_loop dest_len src dest (pos + 3) })"

definition urlencode :: "bytes \<Rightarrow> bytes \<Rightarrow> nat \<Rightarrow> (bool \<times> bytes) option" where
  "urlencode src dest dest_len = do {
     jade_assert (src \<noteq> []);
     jade_assert (dest_len \<noteq> 0);
     urlencode_loop dest_len src dest 0 }"

section \<open>Characters\<close>

definition enc_char :: "byte \<Rightarrow> bytes" where
  "enc_char c = (if unreserved c then [c] else if c = 32 then [43] else [37, hex_digit (c div 16), hex_digit (c mod 16)])"

definition enc_text :: "bytes \<Rightarrow> bytes" where
  "enc_text src = concat (map enc_char src)"

lemma hex_digit_back:
  "list_all (\<lambda>n. isxdigit (hex_digit n) \<and> map_char (hex_digit n) = Some n \<and> hex_digit n \<noteq> 0) (map of_nat [0..<16])"
  by code_simp

lemma hex_digit_facts:
  assumes "n < 16"
  shows "isxdigit (hex_digit n)" and "map_char (hex_digit n) = Some n" and "hex_digit n \<noteq> 0"
proof -
  have "unat n < 16" using assms by (simp add: word_less_nat_alt)
  then have "n \<in> set (map of_nat [0..<16])" by (auto intro!: image_eqI [of _ _ "unat n"])
  then show "isxdigit (hex_digit n)" and "map_char (hex_digit n) = Some n" and "hex_digit n \<noteq> 0"
    using hex_digit_back unfolding list_all_iff by blast+
qed

lemma byte_nibbles: "c div 16 < (16 :: byte)" "c mod 16 < (16 :: byte)" "16 * (c div 16) + c mod 16 = (c :: byte)"
proof -
  show "c div 16 < 16" by (simp add: word_less_nat_alt unat_div less_mult_imp_div_less)
  show "c mod 16 < 16" by (simp add: word_less_nat_alt unat_mod)
  show "16 * (c div 16) + c mod 16 = c" by (rule mult_div_mod_eq)
qed

lemma decode_enc_char:
  "decode_char (enc_char c @ rest) = Some (Some (c, rest))"
proof (cases "unreserved c \<or> c = 32")
  case True
  then show ?thesis by (auto simp: enc_char_def decode_char_def unreserved_def isalnum_def)
next
  case False
  then show ?thesis
    using hex_digit_facts [OF byte_nibbles(1)] hex_digit_facts [OF byte_nibbles(2)] byte_nibbles(3)
    by (simp add: enc_char_def decode_char_def)
qed

lemma enc_char_not_nul: "c \<noteq> 0 \<Longrightarrow> enc_char c \<noteq> [] \<and> 0 \<notin> set (enc_char c)"
  using hex_digit_facts(3) [OF byte_nibbles(1)] hex_digit_facts(3) [OF byte_nibbles(2)] by (force simp: enc_char_def)

interpretation url_char: prefix_codec enc_char "\<lambda>src. case decode_char src of Some (Some r) \<Rightarrow> Some r | _ \<Rightarrow> None" "\<lambda>_. True"
  by unfold_locales (simp add: decode_enc_char)

section \<open>Loops\<close>

declare urlencode_loop.simps(2) [simp del]

text \<open>One round of the encoder either writes the code of the character or ends with a terminator.\<close>

lemma urlencode_step:
  assumes "dest_len \<le> length dest" and "pos < dest_len"
  obtains d where "length d = length dest" "take pos d = take pos dest" "take (length (enc_char c)) (drop pos d) = enc_char c"
    "pos + length (enc_char c) < dest_len" "urlencode_loop dest_len (c # src) dest pos = urlencode_loop dest_len src d (pos + length (enc_char c))"
  | "\<not> pos + length (enc_char c) < dest_len" "urlencode_loop dest_len (c # src) dest pos = Some (False, dest[pos := 0])"
proof (cases "pos + length (enc_char c) < dest_len")
  case True
  show thesis
  proof (cases "unreserved c \<or> c = 32")
    case short: True
    then have k: "length (enc_char c) = 1" by (auto simp: enc_char_def)
    let ?d = "dest[pos := enc_char c ! 0]"
    have w: "take (length (enc_char c)) (drop pos ?d) = enc_char c"
      using k assms by (cases "enc_char c") (simp_all add: take_Suc_conv_app_nth)
    have len: "2 \<le> dest_len - pos" "pos < length dest" using True k assms by simp_all
    have "urlencode_loop dest_len (c # src) dest pos = urlencode_loop dest_len src ?d (pos + length (enc_char c))"
      using short len k by (auto simp: enc_char_def buf_set_def urlencode_loop.simps)
    then show thesis by (intro that(1) [of ?d] w True) simp_all
  next
    case False
    let ?d = "take pos dest @ (enc_char c @ [0]) @ drop (pos + 4) dest"
    have k: "length (enc_char c) = 3" using False by (simp add: enc_char_def)
    have e: "enc_char c = [37, hex_digit (c div 16), hex_digit (c mod 16)]" using False by (simp add: enc_char_def)
    have len: "\<not> dest_len - pos < 2" "\<not> dest_len - pos < 4" "pos + 4 \<le> length dest" using True k assms by simp_all
    have "buf_write dest pos [37, hex_digit (c div 16), hex_digit (c mod 16), 0] = Some ?d"
      using len(3) by (simp add: buf_write_def e eval_nat_numeral)
    then have "urlencode_loop dest_len (c # src) dest pos = urlencode_loop dest_len src ?d (pos + length (enc_char c))"
      using False len by (simp only: urlencode_loop.simps k) simp
    then show thesis using True k assms by (intro that(1) [of ?d]) simp_all
  qed
next
  case False
  then have "dest_len - pos < 2 \<or> \<not> unreserved c \<and> c \<noteq> 32 \<and> dest_len - pos < 4" by (auto simp: enc_char_def split: if_splits)
  then have "urlencode_loop dest_len (c # src) dest pos = Some (False, dest[pos := 0])"
    using assms by (auto simp: buf_set_def urlencode_loop.simps)
  then show thesis using that(2) False by blast
qed

lemma urlencode_loop_eq:
  assumes "dest_len \<le> length dest" and "pos < dest_len"
  shows "\<exists>ok out. urlencode_loop dest_len src dest pos = Some (ok, out) \<and> length out = length dest \<and> take pos out = take pos dest \<and>
    (ok \<longleftrightarrow> pos + length (enc_text src) < dest_len) \<and>
    (ok \<longrightarrow> take (length (enc_text src) + 1) (drop pos out) = enc_text src @ [0]) \<and> (\<exists>j<dest_len. out ! j = 0)"
  using assms
proof (induction src arbitrary: dest pos)
  case Nil
  then have "take 1 (drop pos (dest[pos := 0])) = [0]" by (simp add: take_Suc_conv_app_nth)
  then show ?case using Nil by (auto simp: enc_text_def buf_set_def intro!: exI [of _ pos])
next
  case (Cons c src)
  let ?k = "length (enc_char c)"
  have et: "enc_text (c # src) = enc_char c @ enc_text src" by (simp add: enc_text_def)
  from Cons.prems show ?case
  proof (cases rule: urlencode_step [where c = c and src = src])
    case (1 d)
    obtain ok out where o: "urlencode_loop dest_len src d (pos + ?k) = Some (ok, out)" "length out = length d"
        "take (pos + ?k) out = take (pos + ?k) d" "ok \<longleftrightarrow> pos + ?k + length (enc_text src) < dest_len"
        "ok \<longrightarrow> take (length (enc_text src) + 1) (drop (pos + ?k) out) = enc_text src @ [0]" "\<exists>j<dest_len. out ! j = 0"
        using Cons.IH [of d "pos + ?k"] 1(4) Cons.prems 1(1) by auto
    have tk: "take pos out = take pos dest" using o(3) 1(2) by (metis le_add1 min.absorb1 take_take)
    have e: "take ?k (drop pos out) = enc_char c" using o(3) 1(3) by (metis add.commute take_drop)
    have "take (?k + m) (drop pos out) = enc_char c @ take m (drop (pos + ?k) out)" for m
      by (simp only: take_add e) (simp add: add.commute)
    from this [of "length (enc_text src) + 1"]
    have coded: "ok \<longrightarrow> take (length (enc_text (c # src)) + 1) (drop pos out) = enc_text (c # src) @ [0]"
      using o(5) by (simp add: et add.assoc)
    have fin: "ok \<longleftrightarrow> pos + length (enc_text (c # src)) < dest_len" using o(4) by (simp add: et add.assoc)
    have run: "urlencode_loop dest_len (c # src) dest pos = Some (ok, out)" using 1(5) o(1) by simp
    have "length out = length dest" using o(2) 1(1) by simp
    then show ?thesis using run tk fin coded o(6) by blast
  next
    case 2
    moreover have "dest[pos := 0] ! pos = 0" using Cons.prems by simp
    moreover have "take pos (dest[pos := 0]) = take pos dest" "length (dest[pos := 0]) = length dest" by simp_all
    moreover have "\<not> pos + length (enc_text (c # src)) < dest_len" using 2(1) by (simp add: et)
    ultimately show ?thesis using Cons.prems(2) by blast
  qed
qed

definition printable :: "byte \<Rightarrow> bool" where
  "printable c \<longleftrightarrow> 0x20 \<le> c \<and> c \<le> 0x7e"

lemma printable_not_nul: "printable c \<Longrightarrow> c \<noteq> 0"
  by (auto simp: printable_def)

lemma decode_char_total: "src \<noteq> [] \<Longrightarrow> decode_char src \<noteq> None"
  by (auto simp: decode_char_def map_char_def Let_def split: list.split)

lemma put_char_Some: "i < length d \<Longrightarrow> put_char (Some d) i c = Some (Some (d[i := c]))"
  by (simp add: put_char_def buf_set_def)

lemma put_prefix:
  assumes "i < length d" and "take (Suc i) d' = take (Suc i) (d[i := c])"
  shows "take i d' = take i d" and "drop i d' = c # drop (Suc i) d'"
proof -
  have "take i d' = take i (take (Suc i) d')" by (simp add: min_def)
  then show "take i d' = take i d" using assms(2) by (simp add: min_def)
  have l: "i < length d'" using assms(1) arg_cong [OF assms(2), of length] by (simp add: min_def split: if_splits)
  have "d' ! i = take (Suc i) d' ! i" by simp
  also have "\<dots> = c" using assms by simp
  finally show "drop i d' = c # drop (Suc i) d'" using Cons_nth_drop_Suc [OF l] by simp
qed

text \<open>With a destination the decoder stays inside it and ends with a terminator; its verdict does not
  depend on the destination.\<close>

lemma urldecode_loop_safe:
  assumes "dest_len \<le> length d" and "n < dest_len"
  shows "\<exists>ok d'. urldecode_loop f dest_len src (Some d) n = Some (ok, Some d') \<and> urldecode_loop f dest_len src None n = Some (ok, None) \<and>
    length d' = length d \<and> take n d' = take n d \<and>
    (ok \<longrightarrow> (\<exists>out. n + length out < dest_len \<and> take (length out + 1) (drop n d') = out @ [0] \<and> list_all (\<lambda>c. printable c \<and> f c) out))"
  using assms
proof (induction src arbitrary: d n rule: length_induct)
  case (1 src)
  have nd: "n < length d" using "1.prems" by simp
  show ?case
  proof (cases "src = [] \<or> hd src = 0")
    case True
    have "take 1 (drop n (d[n := 0])) = [0]" using nd by (simp add: take_Suc_conv_app_nth)
    then have z: "\<exists>out. n + length out < dest_len \<and> take (length out + 1) (drop n (d[n := 0])) = out @ [0] \<and> list_all (\<lambda>c. printable c \<and> f c) out"
      using "1.prems"(2) by (intro exI [of _ "[]"]) simp
    show ?thesis
    proof (cases "list_all (\<lambda>c. c = 0) src")
      case nul: True
      then have "urldecode_loop f dest_len src (Some d) n = Some (True, Some (d[n := 0]))" "urldecode_loop f dest_len src None n = Some (True, None)"
        using True "1.prems"(2) nd by (simp_all add: urldecode_loop.simps [of _ _ src] put_char_def buf_set_def)
      then show ?thesis using z by auto
    next
      case False
      then show ?thesis using True by (intro exI [of _ False] exI [of _ d]) (simp add: urldecode_loop.simps [of _ _ src])
    qed
  next
    case False
    then obtain r where r: "decode_char src = Some r" using decode_char_total by blast
    show ?thesis
    proof (cases "n + 1 = dest_len \<or> (case r of None \<Rightarrow> True | Some (c, rest) \<Rightarrow> \<not> printable c \<or> \<not> f c)")
      case True
      then show ?thesis using False r by (auto simp: urldecode_loop.simps [of _ _ src] printable_def not_le split: option.split)
    next
      case go: False
      then obtain c rest where c: "r = Some (c, rest)" "printable c" "f c" "n + 1 \<noteq> dest_len" by (auto split: option.splits)
      have step: "urldecode_loop f dest_len src (Some d) n = urldecode_loop f dest_len rest (Some (d[n := c])) (n + 1)"
        "urldecode_loop f dest_len src None n = urldecode_loop f dest_len rest None (n + 1)"
        using False r c nd by (auto simp: urldecode_loop.simps [of _ _ src] buf_set_def printable_def put_char_def)
      have "length rest < length src" using r c(1) decode_char_shorter by blast
      then obtain ok d' where ih: "urldecode_loop f dest_len rest (Some (d[n := c])) (n + 1) = Some (ok, Some d')"
        "urldecode_loop f dest_len rest None (n + 1) = Some (ok, None)" "length d' = length d" "take (n + 1) d' = take (n + 1) (d[n := c])"
        "ok \<longrightarrow> (\<exists>out. n + 1 + length out < dest_len \<and> take (length out + 1) (drop (n + 1) d') = out @ [0] \<and> list_all (\<lambda>c. printable c \<and> f c) out)"
        using "1.IH" [rule_format, of rest "d[n := c]" "n + 1"] "1.prems" c(4) by auto
      have tk: "take n d' = take n d" and dr: "drop n d' = c # drop (Suc n) d'" using put_prefix [OF nd] ih(4) by simp_all
      have "\<exists>out. n + length out < dest_len \<and> take (length out + 1) (drop n d') = out @ [0] \<and> list_all (\<lambda>c. printable c \<and> f c) out" if ok
      proof -
        obtain out where "n + 1 + length out < dest_len" "take (length out + 1) (drop (n + 1) d') = out @ [0]" "list_all (\<lambda>c. printable c \<and> f c) out"
          using ih(5) \<open>ok\<close> by blast
        then show ?thesis using dr c by (intro exI [of _ "c # out"]) simp
      qed
      then show ?thesis using step ih tk by auto
    qed
  qed
qed

text \<open>Decoding inverts encoding.\<close>

lemma urldecode_loop_encoded:
  assumes "list_all (\<lambda>c. printable c \<and> f c) src" and "dest_len \<le> length d" and "n + length src < dest_len" and "list_all (\<lambda>c. c = 0) zs"
  shows "\<exists>d'. urldecode_loop f dest_len (enc_text src @ zs) (Some d) n = Some (True, Some d') \<and> take n d' = take n d \<and>
    take (length src + 1) (drop n d') = src @ [0]"
  using assms
proof (induction src arbitrary: d n)
  case Nil
  then have "zs = [] \<or> hd zs = 0" by (cases zs) auto
  moreover have "take 1 (drop n (d[n := 0])) = [0]" using Nil by (simp add: take_Suc_conv_app_nth)
  ultimately show ?case using Nil by (simp add: enc_text_def urldecode_loop.simps [of _ _ zs] put_char_Some)
next
  case (Cons c src)
  let ?t = "enc_text (c # src) @ zs"
  have c: "printable c" "f c" "c \<noteq> 0" using Cons.prems(1) printable_not_nul by auto
  have et: "?t = enc_char c @ enc_text src @ zs" by (simp add: enc_text_def)
  have ne: "\<not> (?t = [] \<or> hd ?t = 0)" using enc_char_not_nul [OF c(3)] unfolding et by (cases "enc_char c") auto
  have dc: "decode_char ?t = Some (Some (c, enc_text src @ zs))" unfolding et by (rule decode_enc_char)
  have nd: "n < length d" "n + 1 \<noteq> dest_len" using Cons.prems by auto
  have step: "urldecode_loop f dest_len ?t (Some d) n = urldecode_loop f dest_len (enc_text src @ zs) (Some (d[n := c])) (n + 1)"
    using ne dc c nd by (subst urldecode_loop.simps) (auto simp: put_char_Some printable_def)
  obtain d' where ih: "urldecode_loop f dest_len (enc_text src @ zs) (Some (d[n := c])) (n + 1) = Some (True, Some d')"
    "take (n + 1) d' = take (n + 1) (d[n := c])" "take (length src + 1) (drop (n + 1) d') = src @ [0]"
    using Cons.IH [of "d[n := c]" "n + 1"] Cons.prems by auto
  have tk: "take n d' = take n d" "drop n d' = c # drop (Suc n) d'" using put_prefix [OF nd(1)] ih(2) by simp_all
  then show ?case using step ih(1,3) by simp
qed

section \<open>The text that is meant\<close>

text \<open>What an encoded text stands for, by the rules of the format: a plus sign is a space, a percent sign and two hexadecimal digits
  are one character, padding with NUL is dropped, and every character must be printable.\<close>

definition hex_value :: "byte \<Rightarrow> byte" where
  "hex_value c = (if c \<le> 57 then c - 48 else if c \<le> 70 then c - 55 else c - 87)"

definition shown :: "byte \<Rightarrow> bytes option \<Rightarrow> bytes option" where
  "shown c t = (if printable c then map_option ((#) c) t else None)"

fun url_text :: "bytes \<Rightarrow> bytes option" where
  "url_text [] = Some []"
| "url_text (c # cs) =
     (if c = 0 then if list_all (\<lambda>c. c = 0) cs then Some [] else None
      else if c = 37 then
        (case cs of h # l # rest \<Rightarrow> if isxdigit h \<and> isxdigit l then shown (16 * hex_value h + hex_value l) (url_text rest) else None
         | _ \<Rightarrow> None)
      else shown (if c = 43 then 32 else c) (url_text cs))"

lemma map_char_value:
  assumes "isxdigit c"
  shows "map_char c = Some (hex_value c)"
proof -
  have "list_all (\<lambda>c. isxdigit c \<longrightarrow> map_char c = Some (hex_value c)) (map of_nat [0..<256])" by code_simp
  moreover have "c = of_nat (unat c)" "unat c < 256" using unsigned_less [of c, where ?'a = nat] by simp_all
  then have "c \<in> set (map of_nat [0..<256])" by (metis atLeastLessThan_iff image_eqI le0 list.set_map set_upt)
  ultimately show ?thesis using assms by (auto simp: list_all_iff)
qed

lemma url_text_step:
  assumes "src \<noteq> []" and "hd src \<noteq> 0"
  shows "url_text src = (case decode_char src of Some (Some (c, rest)) \<Rightarrow> shown c (url_text rest) | _ \<Rightarrow> None)"
  using assms by (cases src) (auto simp: decode_char_def map_char_value split: list.split)

lemma urldecode_loop_text:
  assumes "dest_len \<le> length d" and "n < dest_len"
  shows "\<exists>d'. urldecode_loop f dest_len src (Some d) n =
      Some (case url_text src of None \<Rightarrow> False | Some t \<Rightarrow> list_all f t \<and> n + length t < dest_len, Some d') \<and>
    (\<forall>t. url_text src = Some t \<and> list_all f t \<and> n + length t < dest_len \<longrightarrow> take n d' = take n d \<and> take (length t + 1) (drop n d') = t @ [0])"
  using assms
proof (induction src arbitrary: d n rule: length_induct)
  case (1 src)
  have nd: "n < length d" using "1.prems" by simp
  show ?case
  proof (cases "src = [] \<or> hd src = 0")
    case True
    have z: "take 1 (drop n (d[n := 0])) = [0]" using nd by (simp add: take_Suc_conv_app_nth)
    have t: "url_text src = (if list_all (\<lambda>c. c = 0) src then Some [] else None)" using True by (cases src) simp_all
    show ?thesis
    proof (cases "list_all (\<lambda>c. c = 0) src")
      case nul: True
      then have "urldecode_loop f dest_len src (Some d) n = Some (True, Some (d[n := 0]))"
        using True "1.prems"(2) nd by (simp add: urldecode_loop.simps [of _ _ src] put_char_def buf_set_def)
      then show ?thesis using t nul z "1.prems"(2) by simp
    next
      case False
      then show ?thesis using True t by (simp add: urldecode_loop.simps [of _ _ src])
    qed
  next
    case False
    then obtain r where r: "decode_char src = Some r" using decode_char_total by blast
    have step: "url_text src = (case r of None \<Rightarrow> None | Some (c, rest) \<Rightarrow> shown c (url_text rest))"
      using url_text_step [of src] False r by (auto split: option.split)
    show ?thesis
    proof (cases "n + 1 = dest_len \<or> (case r of None \<Rightarrow> True | Some (c, rest) \<Rightarrow> \<not> printable c \<or> \<not> f c)")
      case True
      then have "urldecode_loop f dest_len src (Some d) n = Some (False, Some d)"
        using False r by (auto simp: urldecode_loop.simps [of _ _ src] printable_def not_le split: option.split)
      moreover have "\<not> (\<exists>t. url_text src = Some t \<and> list_all f t \<and> n + length t < dest_len)"
        using True step by (auto simp: shown_def split: option.splits if_splits)
      ultimately show ?thesis by (auto split: option.split)
    next
      case go: False
      then obtain c rest where c: "r = Some (c, rest)" "printable c" "f c" "n + 1 \<noteq> dest_len" by (auto split: option.splits)
      have run: "urldecode_loop f dest_len src (Some d) n = urldecode_loop f dest_len rest (Some (d[n := c])) (n + 1)"
        using False r c nd by (auto simp: urldecode_loop.simps [of _ _ src] buf_set_def printable_def put_char_def)
      have "length rest < length src" using r c(1) decode_char_shorter by blast
      then obtain d' where ih: "urldecode_loop f dest_len rest (Some (d[n := c])) (n + 1) =
          Some (case url_text rest of None \<Rightarrow> False | Some t \<Rightarrow> list_all f t \<and> n + 1 + length t < dest_len, Some d')"
        "\<forall>t. url_text rest = Some t \<and> list_all f t \<and> n + 1 + length t < dest_len \<longrightarrow>
          take (n + 1) d' = take (n + 1) (d[n := c]) \<and> take (length t + 1) (drop (n + 1) d') = t @ [0]"
        using "1.IH" [rule_format, of rest "d[n := c]" "n + 1"] "1.prems" c(4) by auto
      have tx: "url_text src = map_option ((#) c) (url_text rest)" using step c by (simp add: shown_def)
      show ?thesis
      proof (cases "url_text rest")
        case None
        then show ?thesis using run ih(1) tx by simp
      next
        case (Some t)
        have "take n d' = take n d \<and> take (length (c # t) + 1) (drop n d') = (c # t) @ [0]" if "list_all f t" "n + 1 + length t < dest_len"
          using ih(2) Some that put_prefix [OF nd, of d' c] by simp
        then show ?thesis using run ih(1) tx Some c(3) by auto
      qed
    qed
  qed
qed

text \<open>Encoding writes a text that stands for the original.\<close>

lemma url_text_pieces:
  assumes "\<forall>(t, c)\<in>set ts. t \<noteq> [] \<and> hd t \<noteq> 0 \<and> printable c \<and> (\<forall>rest. decode_char (t @ rest) = Some (Some (c, rest)))"
  shows "url_text (concat (map fst ts)) = Some (map snd ts)"
  using assms
proof (induction ts)
  case (Cons tc ts)
  obtain t c where tc: "tc = (t, c)" by (cases tc)
  have t: "t \<noteq> []" "hd t \<noteq> 0" "printable c" "decode_char (t @ concat (map fst ts)) = Some (Some (c, concat (map fst ts)))"
    using Cons.prems tc by auto
  then have "url_text (t @ concat (map fst ts)) = shown c (url_text (concat (map fst ts)))"
    by (subst url_text_step) auto
  then show ?case using Cons t(3) tc by (simp add: shown_def)
qed simp

section \<open>Properties\<close>

text \<open>Percent encoding is undone by the decoder: encoding a text of printable characters succeeds
  exactly when its code and a terminator fit, and decoding what was written, terminator and any
  padding included, gives the text back, in every destination with room for it.\<close>

lemma url_roundtrip:
  assumes "src \<noteq> []" and "list_all printable src" and "0 < dest_len" and "dest_len \<le> length dest"
    and "length src < dest_len2" and "dest_len2 \<le> length dest2" and "list_all (\<lambda>c. c = 0) padding"
  shows "\<exists>ok out. urlencode src dest dest_len = Some (ok, out) \<and> (ok \<longleftrightarrow> length (enc_text src) < dest_len) \<and>
    (ok \<longrightarrow> (\<exists>back. urldecode (take (length (enc_text src) + 1) out @ padding) dest2 dest_len2 = Some (True, Some back) \<and>
       take (length src + 1) back = src @ [0]))"
proof -
  obtain ok out where e: "urlencode_loop dest_len src dest 0 = Some (ok, out)" "ok \<longleftrightarrow> length (enc_text src) < dest_len"
    "ok \<longrightarrow> take (length (enc_text src) + 1) out = enc_text src @ [0]"
    using urlencode_loop_eq [OF assms(4,3), of src] by auto
  have "\<exists>back. urldecode (take (length (enc_text src) + 1) out @ padding) dest2 dest_len2 = Some (True, Some back) \<and> take (length src + 1) back = src @ [0]"
    if ok
  proof -
    have t: "take (length (enc_text src) + 1) out @ padding = enc_text src @ 0 # padding" using e(3) that by simp
    have "list_all (\<lambda>c. c = 0) (0 # padding)" using assms(7) by simp
    moreover have "list_all (\<lambda>c. printable c \<and> (\<lambda>_. True) c) src" using assms(2) by simp
    ultimately show ?thesis
      using urldecode_loop_encoded [of "\<lambda>_. True" src dest_len2 dest2 0 "0 # padding"] assms(5,6) unfolding t
      by (auto simp: urldecode_def try_urldecode_def)
  qed
  then show ?thesis using e assms(1,3) by (auto simp: urlencode_def)
qed

text \<open>The decoder is safe on arbitrary bytes: it never trips an assertion and never writes outside
  its destination; what it accepts it leaves terminated, of printable characters only; and
  validation without a destination gives exactly its verdict.\<close>

lemma urldecode_safe:
  assumes "src \<noteq> []" and "0 < dest_len" and "dest_len \<le> length dest"
  shows "\<exists>ok out. urldecode src dest dest_len = Some (ok, Some out) \<and> is_valid_urlencoding (Some src) dest_len (\<lambda>_. True) = Some ok \<and>
    length out = length dest \<and> (ok \<longrightarrow> (\<exists>t. length t < dest_len \<and> take (length t + 1) out = t @ [0] \<and> list_all printable t))"
  using urldecode_loop_safe [OF assms(3,2), of "\<lambda>_. True" src] assms(1,2)
  by (auto simp: urldecode_def is_valid_urlencoding_def try_urldecode_def)

end
