(* ===== verification/Otpauth.thy ===== *)
theory Otpauth
  imports Registration Storage Urlcodec "HOL-Library.Signed_Division"
begin

text \<open>
  \<open>main/otpauth.c\<close>: one-time passwords. A record is an \<open>otpauth://\<close> URI; it is parsed into a context, kept
  encrypted in the storage, and gives codes from the time (TOTP) or from a stored counter (HOTP).

  The URL parser, the HMACs of mbedtls and the key derivation of libwally are parameters (the record \<open>otp_lib\<close>).
  A pointer into the URI is the text it points at; the label keeps its length apart, because the code computes
  it without looking whether there is a path. In the results of functions that can fail, the outer \<open>None\<close> is an
  assertion failure, the inner \<open>None\<close> is the return value false.
\<close>

section \<open>Data\<close>

definition OTP_MAX_NAME_LEN :: nat where "OTP_MAX_NAME_LEN = 16"
definition OTP_MAX_URI_LEN :: nat where "OTP_MAX_URI_LEN = 256"
definition OTP_MAX_TOKEN_LEN :: nat where "OTP_MAX_TOKEN_LEN = 12"
definition OTP_MAX_LABEL_LEN :: nat where "OTP_MAX_LABEL_LEN = 128"
definition OTP_MAX_RECORDS :: nat where "OTP_MAX_RECORDS = 16"
definition MBEDTLS_SHA512_HMAC_LEN :: nat where "MBEDTLS_SHA512_HMAC_LEN = 64"
definition SECRET_BUFSIZE :: nat where "SECRET_BUFSIZE = 256"
definition MIN_ALLOWED_CURRENT_TIMESTAMP :: u64 where "MIN_ALLOWED_CURRENT_TIMESTAMP = 1577836800"
definition OTP_HMAC_KEY :: bytes where "OTP_HMAC_KEY = str ''OTPseed''"

datatype md_type_t = MDTYPE_NONE | MDTYPE_SHA1 | MDTYPE_SHA256 | MDTYPE_SHA512
datatype otp_type_t = OTPTYPE_NONE | OTPTYPE_HOTP | OTPTYPE_TOTP
datatype otp_err_t = OTP_ERR_OK | OTP_ERR_TOTP_TIME | OTP_ERR_HOTP_COUNTER

text \<open>\<open>oc_digits\<close> and \<open>oc_period\<close> are of type \<open>int8_t\<close>. \<open>oc_label\<close> is the text from the pointer to the end of the URI.\<close>

record otpauth_ctx_t =
  oc_counter :: u64
  oc_md_type :: md_type_t
  oc_otp_type :: otp_type_t
  oc_name :: bytes
  oc_type :: bytes
  oc_label :: bytes
  oc_secret :: bytes
  oc_issuer :: bytes
  oc_label_len :: u64
  oc_digits :: byte
  oc_period :: byte

text \<open>What the URL parser returns: offset and length of each field that is set.\<close>

record http_url =
  uf_schema :: "(nat \<times> nat) option"
  uf_host :: "(nat \<times> nat) option"
  uf_port :: "(nat \<times> nat) option"
  uf_path :: "(nat \<times> nat) option"
  uf_query :: "(nat \<times> nat) option"
  uf_fragment :: "(nat \<times> nat) option"

record otp_lib =
  ol_parse_url :: "bytes \<Rightarrow> http_url option"
  ol_md_setup :: "md_type_t \<Rightarrow> bool"
  ol_md_size :: "md_type_t \<Rightarrow> nat"
  ol_md_hmac :: "md_type_t \<Rightarrow> bytes \<Rightarrow> bytes \<Rightarrow> bytes option"
  ol_key_from_seed :: "bytes \<Rightarrow> bytes \<Rightarrow> bytes option"

text \<open>The field of an URL that is not set has offset and length zero.\<close>

definition field_data :: "(nat \<times> nat) option \<Rightarrow> nat \<times> nat" where
  "field_data f = (case f of None \<Rightarrow> (0, 0) | Some ol \<Rightarrow> ol)"

definition field_text :: "bytes \<Rightarrow> (nat \<times> nat) option \<Rightarrow> bytes" where
  "field_text uri f = (case field_data f of (off, len) \<Rightarrow> take len (drop off uri))"

definition isprint :: "byte \<Rightarrow> bool" where
  "isprint c \<longleftrightarrow> 0x20 \<le> c \<and> c \<le> 0x7e"

section \<open>Parsing\<close>

text \<open>A string with an explicit length. The only length beyond the text that occurs is \<open>SIZE_MAX\<close>, when there is no path: then
  \<open>src + src_len\<close> of \<open>try_urldecode\<close> (\<open>main/utils/urldecode.c\<close>) wraps round to the byte before \<open>src\<close>, its loop is not entered and
  \<open>JADE_ASSERT(src == src_end)\<close> fails, which is the result \<open>None\<close>.\<close>

definition sized :: "bytes \<Rightarrow> u64 \<Rightarrow> bytes option" where
  "sized s len = (if unat len \<le> length s then Some (take (unat len) s) else None)"

definition otp_is_valid :: "otpauth_ctx_t \<Rightarrow> bool option" where
  "otp_is_valid ctx =
     (if oc_type ctx = [] then Some False
      else if oc_secret ctx = [] then Some False
      else if \<not> (oc_otp_type ctx = OTPTYPE_HOTP \<or> oc_otp_type ctx = OTPTYPE_TOTP) then Some False
      else if \<not> (oc_otp_type ctx \<noteq> OTPTYPE_TOTP \<or> oc_period ctx \<noteq> 0) then Some False
      else if \<not> (oc_digits ctx = 6 \<or> oc_digits ctx = 8) then Some False
      else if oc_md_type ctx = MDTYPE_NONE then Some False
      else do {
        label_ok \<leftarrow> (if oc_label_len ctx = 0 then Some True
          else do {
            label \<leftarrow> sized (oc_label ctx) (oc_label_len ctx);
            is_valid_urlencoding (Some label) OTP_MAX_LABEL_LEN isprint });
        if \<not> label_ok then Some False
        else if oc_issuer ctx = [] then Some True
        else is_valid_urlencoding (Some (oc_issuer ctx)) OTP_MAX_LABEL_LEN isprint })"

text \<open>The value of a key in a query string, \<open>None\<close> when it is missing or the string is malformed.\<close>

function get_query_argument :: "bytes \<Rightarrow> bytes \<Rightarrow> bytes option" where
  "get_query_argument qry key =
     (if qry = [] then None
      else case memchr (chr CHR ''='') qry of
        None \<Rightarrow> None
      | Some len \<Rightarrow>
        let p_equals = drop len qry;
            val_end = (case memchr (chr CHR ''&'') p_equals of None \<Rightarrow> length p_equals | Some i \<Rightarrow> i) in
        if len = length key \<and> strncasecmp_eq qry key len then Some (take (val_end - 1) (drop 1 p_equals))
        else get_query_argument (drop (val_end + 1) p_equals) key)"
  by pat_completeness auto
termination
  by (relation "measure (\<lambda>(qry, key). length qry)") auto

declare get_query_argument.simps [simp del]

definition otp_digits :: "bytes option \<Rightarrow> byte option" where
  "otp_digits tmp = (case tmp of
     None \<Rightarrow> Some 6
   | Some t \<Rightarrow> if length t \<noteq> 1 then None
       else let digits = hd t - chr CHR ''0'' in if digits = 6 \<or> digits = 8 then Some digits else None)"

definition otp_algorithm :: "bytes option \<Rightarrow> md_type_t option" where
  "otp_algorithm tmp = (case tmp of
     None \<Rightarrow> Some MDTYPE_SHA1
   | Some t \<Rightarrow>
       if t = str ''SHA1'' then Some MDTYPE_SHA1
       else if t = str ''SHA256'' then Some MDTYPE_SHA256
       else if t = str ''SHA512'' then Some MDTYPE_SHA512
       else None)"

text \<open>The counter of HOTP or the period of TOTP: type, counter and period.\<close>

definition otp_moving_factor :: "bytes \<Rightarrow> bytes \<Rightarrow> (otp_type_t \<times> u64 \<times> byte) option" where
  "otp_moving_factor type query =
     (if type = str ''hotp'' then
        (case get_query_argument query (str ''counter'') of
           None \<Rightarrow> None
         | Some tmp \<Rightarrow> if tmp = [] then None
             else (case parse_uint64 tmp of None \<Rightarrow> None | Some counter \<Rightarrow> Some (OTPTYPE_HOTP, counter, 0)))
      else if type = str ''totp'' then
        (case get_query_argument query (str ''period'') of
           None \<Rightarrow> Some (OTPTYPE_TOTP, 0, 30)
         | Some tmp \<Rightarrow> (case parse_uint64 tmp of
             None \<Rightarrow> None
           | Some value64 \<Rightarrow> if value64 \<le> 0xff then Some (OTPTYPE_TOTP, 0, ucast (value64 AND 0xff)) else None))
      else None)"

definition otp_uri_to_ctx :: "otp_lib \<Rightarrow> bytes \<Rightarrow> bytes \<Rightarrow> otpauth_ctx_t option option" where
  "otp_uri_to_ctx ol name uri = (case ol_parse_url ol uri of None \<Rightarrow> Some None | Some u \<Rightarrow>
     if field_text uri (uf_schema u) \<noteq> str ''otpauth'' then Some None
     else if uf_schema u = None \<or> uf_host u = None \<or> uf_query u = None then Some None
     else if uf_port u \<noteq> None \<or> uf_fragment u \<noteq> None then Some None
     else
       let type = field_text uri (uf_host u);
           (path_off, path_len) = field_data (uf_path u);
           label = drop (path_off + 1) uri;
           label_len = of_nat path_len - 1;
           query = field_text uri (uf_query u) in
       case get_query_argument query (str ''secret'') of None \<Rightarrow> Some None | Some secret \<Rightarrow>
         if secret = [] then Some None
         else
           let issuer = (case get_query_argument query (str ''issuer'') of None \<Rightarrow> [] | Some issuer \<Rightarrow> issuer) in
           case otp_digits (get_query_argument query (str ''digits'')) of None \<Rightarrow> Some None | Some digits \<Rightarrow>
             case otp_algorithm (get_query_argument query (str ''algorithm'')) of None \<Rightarrow> Some None | Some md_type \<Rightarrow>
               case otp_moving_factor type query of None \<Rightarrow> Some None | Some (otp_type, counter, period) \<Rightarrow> do {
                 let ctx = \<lparr> oc_counter = counter, oc_md_type = md_type, oc_otp_type = otp_type, oc_name = name, oc_type = type,
                   oc_label = label, oc_secret = secret, oc_issuer = issuer, oc_label_len = label_len, oc_digits = digits, oc_period = period \<rparr>;
                 valid \<leftarrow> otp_is_valid ctx;
                 Some (if valid then Some ctx else None) })"

section \<open>Codes\<close>

text \<open>\<open>value\<close> is of type \<open>int64_t\<close>, the quotient is computed with its sign.\<close>

definition otp_set_explicit_value :: "otpauth_ctx_t \<Rightarrow> u64 \<Rightarrow> otpauth_ctx_t option" where
  "otp_set_explicit_value ctx value = do {
     valid \<leftarrow> otp_is_valid ctx;
     jade_assert valid;
     if oc_otp_type ctx = OTPTYPE_TOTP then do {
       jade_assert (oc_period ctx \<noteq> 0);
       jade_assert (\<not> (sint value = - (2 ^ 63) \<and> sint (oc_period ctx) = - 1));
       Some (ctx\<lparr>oc_counter := word_of_int (sint value sdiv sint (oc_period ctx))\<rparr>) }
     else Some (ctx\<lparr>oc_counter := value\<rparr>) }"

text \<open>\<open>clock_set\<close> and \<open>now\<close> are \<open>clock_has_been_set ()\<close> and \<open>time (NULL)\<close>. The value is \<open>None\<close> when it is not returned.\<close>

definition otp_set_default_value ::
  "'n nvs_env \<Rightarrow> bool \<Rightarrow> u64 \<Rightarrow> otpauth_ctx_t \<Rightarrow> 'n nvs_state \<Rightarrow> (otp_err_t \<times> otpauth_ctx_t \<times> u64 option \<times> 'n nvs_state) option" where
  "otp_set_default_value env clock_set now ctx st = do {
     valid \<leftarrow> otp_is_valid ctx;
     jade_assert valid;
     if oc_otp_type ctx = OTPTYPE_TOTP then
       (if \<not> clock_set \<or> now < MIN_ALLOWED_CURRENT_TIMESTAMP then Some (OTP_ERR_TOTP_TIME, ctx, None, st)
        else do {
          ctx \<leftarrow> otp_set_explicit_value ctx now;
          Some (OTP_ERR_OK, ctx, Some now, st) })
     else do {
       value \<leftarrow> storage_get_otp_hotp_counter env (oc_name ctx) st;
       (ok, st) \<leftarrow> storage_set_otp_hotp_counter env (oc_name ctx) (value + 1) st;
       if \<not> ok then Some (OTP_ERR_HOTP_COUNTER, ctx, None, st)
       else do {
         ctx \<leftarrow> otp_set_explicit_value ctx value;
         Some (OTP_ERR_OK, ctx, Some value, st) } } }"

text \<open>\<open>secret\<close> is the part of the buffer in use; the buffer has \<open>buf_len\<close> bytes.\<close>

function pad_secret :: "nat \<Rightarrow> nat \<Rightarrow> bytes \<Rightarrow> nat \<Rightarrow> bytes option" where
  "pad_secret buf_len actual_len secret min_size =
     (if length secret < min_size then
        let n = min (min_size - length secret) actual_len in
        if n = 0 \<or> n > length secret \<or> length secret + n > buf_len then None
        else pad_secret buf_len actual_len (secret @ take n secret) min_size
      else Some secret)"
  by pat_completeness auto
termination
  by (relation "measure (\<lambda>(buf_len, actual_len, secret, min_size). min_size - length secret)") (auto simp: Let_def)

declare pad_secret.simps [simp del]

text \<open>The key of the HMAC, or false.\<close>

definition prepare_md_ctx :: "otp_lib \<Rightarrow> otpauth_ctx_t \<Rightarrow> bytes option option" where
  "prepare_md_ctx ol ctx = do {
     valid \<leftarrow> otp_is_valid ctx;
     jade_assert valid;
     if \<not> ol_md_setup ol (oc_md_type ctx) then Some None
     else do {
       secret_bin \<leftarrow> base32_to_bin (oc_secret ctx) SECRET_BUFSIZE;
       if secret_bin = [] then Some None
       else if oc_md_type ctx \<noteq> MDTYPE_SHA1 then do {
         jade_assert (ol_md_size ol (oc_md_type ctx) \<noteq> 0);
         key \<leftarrow> pad_secret SECRET_BUFSIZE (length secret_bin) secret_bin (ol_md_size ol (oc_md_type ctx));
         Some (Some key) }
       else Some (Some secret_bin) } }"

text \<open>The 31 bits that the last byte of the HMAC selects.\<close>

definition hmac_code :: "bytes \<Rightarrow> nat \<Rightarrow> u32 option" where
  "hmac_code hmac hmac_last_index = do {
     last_byte \<leftarrow> buf_get hmac hmac_last_index;
     let offset = unat (last_byte AND 0xf);
     b0 \<leftarrow> buf_get hmac offset;
     b1 \<leftarrow> buf_get hmac (offset + 1);
     b2 \<leftarrow> buf_get hmac (offset + 2);
     b3 \<leftarrow> buf_get hmac (offset + 3);
     Some (push_bit 24 (ucast (b0 AND 0x7f)) OR push_bit 16 (ucast b1) OR push_bit 8 (ucast b2) OR ucast b3) }"

text \<open>\<open>%0*ld\<close> of a number that is not negative.\<close>

definition decimal_padded :: "nat \<Rightarrow> nat \<Rightarrow> bytes" where
  "decimal_padded width n = replicate (width - length (decimal n)) (chr CHR ''0'') @ decimal n"

definition otp_get_auth_code :: "otp_lib \<Rightarrow> (nat \<Rightarrow> bytes) \<Rightarrow> otpauth_ctx_t \<Rightarrow> nat \<Rightarrow> bytes option option" where
  "otp_get_auth_code ol fresh ctx token_len = do {
     valid \<leftarrow> otp_is_valid ctx;
     jade_assert valid;
     jade_assert (token_len > unat (oc_digits ctx));
     prepared \<leftarrow> prepare_md_ctx ol ctx;
     case prepared of None \<Rightarrow> Some None | Some key \<Rightarrow> do {
       jade_assert (ol_md_size ol (oc_md_type ctx) \<noteq> 0);
       let hmac_last_index = ol_md_size ol (oc_md_type ctx) - 1;
       jade_assert (hmac_last_index < MBEDTLS_SHA512_HMAC_LEN);
       let rcnt_buf = uint32_to_be (ucast (drop_bit 32 (oc_counter ctx))) @ uint32_to_be (ucast (oc_counter ctx));
       case ol_md_hmac ol (oc_md_type ctx) key rcnt_buf of None \<Rightarrow> Some None | Some mac \<Rightarrow> do {
         hmac \<leftarrow> buf_write (fresh MBEDTLS_SHA512_HMAC_LEN) 0 mac;
         full_code \<leftarrow> hmac_code hmac hmac_last_index;
         let modulus = (if oc_digits ctx = 6 then 1000000 else 100000000);
         let token = decimal_padded (unat (oc_digits ctx)) (unat full_code mod modulus);
         jade_assert (length token < token_len);
         Some (Some token) } } }"

section \<open>Records\<close>

text \<open>\<open>seed\<close> is the seed of the keychain, empty when there is none.\<close>

definition get_otp_encryption_key :: "otp_lib \<Rightarrow> bytes \<Rightarrow> bytes option option" where
  "get_otp_encryption_key ol seed =
     (if seed = [] then Some None
      else do {
        priv_key \<leftarrow> ol_key_from_seed ol seed OTP_HMAC_KEY;
        Some (Some (drop 1 priv_key)) })"

definition otp_save_uri ::
  "otp_lib \<Rightarrow> 'k libwally \<Rightarrow> (nat \<Rightarrow> bytes) \<Rightarrow> bytes \<Rightarrow> bytes \<Rightarrow> 'n nvs_env \<Rightarrow> bytes \<Rightarrow> bytes \<Rightarrow> 'n nvs_state \<Rightarrow> (bool \<times> 'n nvs_state) option" where
  "otp_save_uri ol wl fresh iv seed env otp_name uri st = do {
     jade_assert (uri \<noteq> []);
     if length uri \<ge> OTP_MAX_URI_LEN then Some (False, st)
     else do {
       let encrypted_len = AES_ENCRYPTED_LEN (length uri);
       jade_assert (encrypted_len \<le> AES_ENCRYPTED_LEN OTP_MAX_URI_LEN);
       aeskey \<leftarrow> get_otp_encryption_key ol seed;
       case aeskey of None \<Rightarrow> Some (False, st) | Some aeskey \<Rightarrow> do {
         (ok, encrypted) \<leftarrow> aes_encrypt_bytes wl iv aeskey uri (take encrypted_len (fresh (AES_ENCRYPTED_LEN OTP_MAX_URI_LEN)));
         if \<not> ok then Some (False, st) else storage_set_otp_data env otp_name encrypted st } } }"

definition otp_load_uri ::
  "otp_lib \<Rightarrow> 'k libwally \<Rightarrow> bytes \<Rightarrow> 'n nvs_env \<Rightarrow> bytes \<Rightarrow> 'n nvs_state \<Rightarrow> bytes option option" where
  "otp_load_uri ol wl seed env otp_name st = do {
     encrypted \<leftarrow> storage_get_otp_data env otp_name (AES_ENCRYPTED_LEN OTP_MAX_URI_LEN) st;
     case encrypted of None \<Rightarrow> Some None | Some encrypted \<Rightarrow>
       if encrypted = [] then Some None
       else do {
         aeskey \<leftarrow> get_otp_encryption_key ol seed;
         case aeskey of None \<Rightarrow> Some None | Some aeskey \<Rightarrow> aes_decrypt_bytes wl aeskey encrypted OTP_MAX_URI_LEN } }"

section \<open>The parameters\<close>

text \<open>The URL parser reports fields that lie in the URL, and a path begins with its slash.\<close>

definition url_ok :: "(bytes \<Rightarrow> http_url option) \<Rightarrow> bool" where
  "url_ok parse_url \<longleftrightarrow> (\<forall>uri u. parse_url uri = Some u \<longrightarrow>
     (\<forall>f\<in>{uf_schema u, uf_host u, uf_port u, uf_path u, uf_query u, uf_fragment u}. \<forall>off len. f = Some (off, len) \<longrightarrow> off + len \<le> length uri) \<and>
     (\<forall>off len. uf_path u = Some (off, len) \<longrightarrow> 0 < len))"

text \<open>The digests of mbedtls.\<close>

definition md_ok :: "otp_lib \<Rightarrow> bool" where
  "md_ok ol \<longleftrightarrow> ol_md_size ol MDTYPE_SHA1 = 20 \<and> ol_md_size ol MDTYPE_SHA256 = 32 \<and> ol_md_size ol MDTYPE_SHA512 = 64 \<and>
     (\<forall>md key msg mac. ol_md_hmac ol md key msg = Some mac \<longrightarrow> length mac = ol_md_size ol md)"

section \<open>Query strings\<close>

text \<open>A query made of keys and values.\<close>

fun query_text :: "(bytes \<times> bytes) list \<Rightarrow> bytes" where
  "query_text [] = []"
| "query_text [(k, v)] = k @ chr CHR ''='' # v"
| "query_text ((k, v) # kv # kvs) = k @ chr CHR ''='' # v @ chr CHR ''&'' # query_text (kv # kvs)"

definition query_ok :: "(bytes \<times> bytes) list \<Rightarrow> bool" where
  "query_ok kvs \<longleftrightarrow> list_all (\<lambda>(k, v). chr CHR ''='' \<notin> set k \<and> 0 \<notin> set k \<and> chr CHR ''&'' \<notin> set v) kvs"

definition same_key :: "bytes \<Rightarrow> bytes \<Rightarrow> bool" where
  "same_key a b \<longleftrightarrow> map tolower_b a = map tolower_b b"

lemma strncasecmp_same_key: "0 \<notin> set k \<Longrightarrow> length k = length key \<Longrightarrow> strncasecmp_eq (k @ rest) key (length k) \<longleftrightarrow> same_key k key"
proof (induction k arbitrary: key)
  case (Cons a k)
  then obtain b ks where "key = b # ks" by (cases key) auto
  then show ?case using Cons by (auto simp: same_key_def)
qed (simp add: same_key_def)

lemma same_key_length: "same_key a b \<Longrightarrow> length a = length b"
  unfolding same_key_def by (metis length_map)

text \<open>The value of the first key that matches, without regard to case.\<close>

lemma get_query_argument_eq:
  assumes "query_ok kvs"
  shows "get_query_argument (query_text kvs) key = map_option snd (find (\<lambda>(k, v). same_key k key) kvs)"
  using assms
proof (induction kvs rule: query_text.induct)
  case 1
  then show ?case by (simp add: get_query_argument.simps)
next
  case (2 k v)
  have k: "chr CHR ''='' \<notin> set k" "0 \<notin> set k" "chr CHR ''&'' \<notin> set v" using 2 by (simp_all add: query_ok_def)
  have "memchr (chr CHR ''='') (k @ chr CHR ''='' # v) = Some (length k)" by (rule memchr_append [OF k(1)])
  moreover have "memchr (chr CHR ''&'') (chr CHR ''='' # v) = None" using k(3) by (auto simp: memchr_None chr_def)
  moreover have "length k = length key \<and> strncasecmp_eq (k @ chr CHR ''='' # v) key (length k) \<longleftrightarrow> same_key k key"
    using strncasecmp_same_key [OF k(2)] same_key_length by blast
  ultimately show ?case by (subst get_query_argument.simps) (simp add: get_query_argument.simps [of "[]"])
next
  case (3 k v kv kvs)
  have k: "chr CHR ''='' \<notin> set k" "0 \<notin> set k" "chr CHR ''&'' \<notin> set v" and rest: "query_ok (kv # kvs)" using 3 by (simp_all add: query_ok_def)
  let ?q = "k @ chr CHR ''='' # v @ chr CHR ''&'' # query_text (kv # kvs)"
  have "memchr (chr CHR ''='') ?q = Some (length k)" by (rule memchr_append [OF k(1)])
  moreover have "chr CHR ''&'' \<notin> set (chr CHR ''='' # v)" using k(3) by (simp add: chr_def)
  then have "memchr (chr CHR ''&'') ((chr CHR ''='' # v) @ chr CHR ''&'' # query_text (kv # kvs)) = Some (length (chr CHR ''='' # v))" by (rule memchr_append)
  moreover have "length k = length key \<and> strncasecmp_eq ?q key (length k) \<longleftrightarrow> same_key k key"
    using strncasecmp_same_key [OF k(2)] same_key_length by blast
  ultimately show ?case
    using "3.IH" [OF rest] by (subst get_query_argument.simps) (simp del: memchr.simps)
qed

section \<open>Parsing\<close>

lemma is_valid_urlencoding_total: "0 < max_len \<Longrightarrow> \<exists>ok. is_valid_urlencoding (Some s) max_len f = Some ok"
proof -
  assume m: "0 < max_len"
  obtain ok where "urldecode_loop f max_len s None 0 = Some (ok, None)"
    using urldecode_loop_safe [of max_len "replicate max_len 0" 0 f s] m by auto
  then show ?thesis using m by (auto simp: is_valid_urlencoding_def try_urldecode_def)
qed

lemma sized_total: "unat len \<le> length s \<Longrightarrow> \<exists>t. sized s len = Some t"
  by (simp add: sized_def)

text \<open>What the checks before the label amount to.\<close>

definition fields_ok :: "otpauth_ctx_t \<Rightarrow> bool" where
  "fields_ok ctx \<longleftrightarrow> oc_type ctx \<noteq> [] \<and> oc_secret ctx \<noteq> [] \<and> (oc_otp_type ctx = OTPTYPE_HOTP \<or> oc_otp_type ctx = OTPTYPE_TOTP) \<and>
     (oc_otp_type ctx \<noteq> OTPTYPE_TOTP \<or> oc_period ctx \<noteq> 0) \<and> (oc_digits ctx = 6 \<or> oc_digits ctx = 8) \<and> oc_md_type ctx \<noteq> MDTYPE_NONE"

definition texts_ok :: "otpauth_ctx_t \<Rightarrow> bool option" where
  "texts_ok ctx = do {
     label_ok \<leftarrow> (if oc_label_len ctx = 0 then Some True
       else do {
         label \<leftarrow> sized (oc_label ctx) (oc_label_len ctx);
         is_valid_urlencoding (Some label) OTP_MAX_LABEL_LEN isprint });
     if \<not> label_ok then Some False
     else if oc_issuer ctx = [] then Some True
     else is_valid_urlencoding (Some (oc_issuer ctx)) OTP_MAX_LABEL_LEN isprint }"

lemma otp_is_valid_eq: "otp_is_valid ctx = (if fields_ok ctx then texts_ok ctx else Some False)"
  by (auto simp: otp_is_valid_def fields_ok_def texts_ok_def)

lemma otp_is_valid_total:
  assumes "unat (oc_label_len ctx) \<le> length (oc_label ctx)"
  shows "\<exists>b. otp_is_valid ctx = Some b"
proof -
  have m: "0 < OTP_MAX_LABEL_LEN" by (simp add: OTP_MAX_LABEL_LEN_def)
  obtain t where t: "sized (oc_label ctx) (oc_label_len ctx) = Some t" using sized_total [OF assms] by blast
  obtain l i where "is_valid_urlencoding (Some t) OTP_MAX_LABEL_LEN isprint = Some l" "is_valid_urlencoding (Some (oc_issuer ctx)) OTP_MAX_LABEL_LEN isprint = Some i"
    using is_valid_urlencoding_total [OF m] by metis
  then have "\<exists>b. texts_ok ctx = Some b" using t by (cases l) (auto simp: texts_ok_def)
  then show ?thesis by (auto simp: otp_is_valid_eq)
qed

lemma otp_is_valid_None: "length (oc_label ctx) < unat (oc_label_len ctx) \<Longrightarrow> otp_is_valid ctx = (if fields_ok ctx then None else Some False)"
  by (auto simp: otp_is_valid_eq texts_ok_def sized_def)

lemma otp_is_valid_True: "otp_is_valid ctx = Some True \<Longrightarrow> fields_ok ctx"
  by (auto simp: otp_is_valid_eq split: if_splits)

text \<open>Validity does not depend on the counter.\<close>

lemma otp_is_valid_counter [simp]: "otp_is_valid (ctx\<lparr>oc_counter := c\<rparr>) = otp_is_valid ctx"
  by (cases ctx) (simp only: otp_is_valid_def otpauth_ctx_t.simps)

text \<open>An otpauth URI that is right in everything but perhaps its path: the parts and what they must be.\<close>

definition otp_uri_parts :: "bytes \<Rightarrow> http_url \<Rightarrow> bool" where
  "otp_uri_parts uri u \<longleftrightarrow> (let query = field_text uri (uf_query u) in
     uf_schema u \<noteq> None \<and> field_text uri (uf_schema u) = str ''otpauth'' \<and> uf_host u \<noteq> None \<and> uf_query u \<noteq> None \<and> uf_port u = None \<and> uf_fragment u = None \<and>
     (\<exists>secret. get_query_argument query (str ''secret'') = Some secret \<and> secret \<noteq> []) \<and>
     otp_digits (get_query_argument query (str ''digits'')) \<noteq> None \<and> otp_algorithm (get_query_argument query (str ''algorithm'')) \<noteq> None \<and>
     (\<exists>type counter period. otp_moving_factor (field_text uri (uf_host u)) query = Some (type, counter, period) \<and> (type = OTPTYPE_TOTP \<longrightarrow> period \<noteq> 0)))"

lemma otp_moving_factor_type: "otp_moving_factor type query = Some (t, c, p) \<Longrightarrow> type \<noteq> [] \<and> (t = OTPTYPE_HOTP \<or> t = OTPTYPE_TOTP)"
  by (auto simp: otp_moving_factor_def split: if_splits option.splits)

lemma otp_digits_Some: "otp_digits tmp = Some d \<Longrightarrow> d = 6 \<or> d = 8"
  by (auto simp: otp_digits_def Let_def split: option.splits if_splits)

lemma otp_algorithm_Some: "otp_algorithm tmp = Some m \<Longrightarrow> m \<noteq> MDTYPE_NONE"
  by (auto simp: otp_algorithm_def split: option.splits if_splits)

text \<open>The context that the parts give.\<close>

definition otp_ctx_of :: "bytes \<Rightarrow> bytes \<Rightarrow> http_url \<Rightarrow> otpauth_ctx_t" where
  "otp_ctx_of name uri u = (let query = field_text uri (uf_query u); (t, c, p) = the (otp_moving_factor (field_text uri (uf_host u)) query) in
     \<lparr> oc_counter = c, oc_md_type = the (otp_algorithm (get_query_argument query (str ''algorithm''))), oc_otp_type = t, oc_name = name,
       oc_type = field_text uri (uf_host u), oc_label = drop (fst (field_data (uf_path u)) + 1) uri, oc_secret = the (get_query_argument query (str ''secret'')),
       oc_issuer = (case get_query_argument query (str ''issuer'') of None \<Rightarrow> [] | Some issuer \<Rightarrow> issuer),
       oc_label_len = of_nat (snd (field_data (uf_path u))) - 1, oc_digits = the (otp_digits (get_query_argument query (str ''digits''))), oc_period = p \<rparr>)"

lemma otp_uri_to_ctx_eq:
  assumes u: "ol_parse_url ol uri = Some u"
  shows "otp_uri_to_ctx ol name uri = (if otp_uri_parts uri u then
      (case otp_is_valid (otp_ctx_of name uri u) of None \<Rightarrow> None | Some b \<Rightarrow> Some (if b then Some (otp_ctx_of name uri u) else None))
    else Some None)"
proof -
  let ?q = "field_text uri (uf_query u)" and ?h = "field_text uri (uf_host u)"
  note eq = otp_uri_to_ctx_def [of ol name uri, unfolded u option.case]
  show ?thesis
  proof (cases "field_text uri (uf_schema u) = str ''otpauth'' \<and> uf_schema u \<noteq> None \<and> uf_host u \<noteq> None \<and> uf_query u \<noteq> None \<and> uf_port u = None \<and>
      uf_fragment u = None \<and> (\<exists>s. get_query_argument ?q (str ''secret'') = Some s \<and> s \<noteq> []) \<and> (\<exists>d. otp_digits (get_query_argument ?q (str ''digits'')) = Some d) \<and>
      (\<exists>m. otp_algorithm (get_query_argument ?q (str ''algorithm'')) = Some m) \<and> (\<exists>t c p. otp_moving_factor ?h ?q = Some (t, c, p))")
    case False
    then have "\<not> otp_uri_parts uri u" unfolding otp_uri_parts_def Let_def by auto
    moreover have "otp_uri_to_ctx ol name uri = Some None"
      using False unfolding eq by (auto simp: Let_def split: option.split prod.split simp del: str_Cons)
    ultimately show ?thesis by simp
  next
    case True
    then obtain s d m t c p where p: "get_query_argument ?q (str ''secret'') = Some s" "s \<noteq> []" "otp_digits (get_query_argument ?q (str ''digits'')) = Some d"
        "otp_algorithm (get_query_argument ?q (str ''algorithm'')) = Some m" "otp_moving_factor ?h ?q = Some (t, c, p)" by blast
    have e: "otp_uri_to_ctx ol name uri = (case otp_is_valid (otp_ctx_of name uri u) of None \<Rightarrow> None | Some b \<Rightarrow> Some (if b then Some (otp_ctx_of name uri u) else None))"
      using True p unfolding eq otp_ctx_of_def by (simp add: Let_def split: prod.split option.split del: str_Cons)
    have "otp_is_valid (otp_ctx_of name uri u) = Some False" if "\<not> otp_uri_parts uri u"
    proof -
      have "t = OTPTYPE_TOTP" "p = 0" using that True p unfolding otp_uri_parts_def Let_def by auto
      then have "\<not> fields_ok (otp_ctx_of name uri u)" using p unfolding otp_ctx_of_def Let_def by (simp add: fields_ok_def del: str_Cons)
      then show ?thesis by (simp add: otp_is_valid_eq)
    qed
    then show ?thesis using e by auto
  qed
qed

lemma otp_ctx_fields_ok: "otp_uri_parts uri u \<Longrightarrow> fields_ok (otp_ctx_of name uri u)"
  unfolding otp_uri_parts_def otp_ctx_of_def Let_def
  using otp_moving_factor_type otp_digits_Some otp_algorithm_Some by (fastforce simp: fields_ok_def simp del: str_Cons)

text \<open>C22. Reading an otpauth URI returns on every text, with one exception: an URI that is right in everything else but has no
  path. There the length of the label becomes the largest number of its type, the end of the label wraps round to the byte before it,
  and the assertion of the decoder that all of its input was read fails.\<close>

theorem otp_uri_to_ctx_aborts_iff:
  assumes "url_ok (ol_parse_url ol)" and "length uri < 2 ^ 64"
  shows "otp_uri_to_ctx ol name uri = None \<longleftrightarrow> (\<exists>u. ol_parse_url ol uri = Some u \<and> uf_path u = None \<and> otp_uri_parts uri u)"
proof (cases "ol_parse_url ol uri")
  case None
  then show ?thesis by (simp add: otp_uri_to_ctx_def)
next
  case (Some u)
  let ?ctx = "otp_ctx_of name uri u"
  have lab: "oc_label ?ctx = drop (fst (field_data (uf_path u)) + 1) uri" "oc_label_len ?ctx = of_nat (snd (field_data (uf_path u))) - 1"
    unfolding otp_ctx_of_def Let_def by (simp_all split: prod.split)
  show ?thesis
  proof (cases "uf_path u")
    case None
    have "unat (- 1 :: u64) = 2 ^ 64 - 1" by (simp add: unsigned_minus_1_eq_mask mask_eq_exp_minus_1)
    then have "length (oc_label ?ctx) < unat (oc_label_len ?ctx)" using None assms(2) lab by (simp add: field_data_def)
    then have "otp_is_valid ?ctx = None" if "otp_uri_parts uri u" using that otp_is_valid_None otp_ctx_fields_ok by simp
    then show ?thesis using Some None otp_uri_to_ctx_eq [OF Some, of name] by auto
  next
    case (Some ol')
    then obtain off len where ol: "uf_path u = Some (off, len)" by (cases ol') simp
    have b: "off + len \<le> length uri" "0 < len" using assms(1) \<open>ol_parse_url ol uri = Some u\<close> ol unfolding url_ok_def by blast+
    obtain n where n: "len = Suc n" using b(2) by (cases len) simp_all
    have "of_nat len - 1 = (of_nat n :: u64)" using n by simp
    moreover have "unat (of_nat n :: u64) = n" using n b assms(2) by (simp add: unat_of_nat take_bit_eq_mod)
    ultimately have "unat (oc_label_len ?ctx) \<le> length (oc_label ?ctx)" using lab ol b n by (simp add: field_data_def)
    then obtain v where "otp_is_valid ?ctx = Some v" using otp_is_valid_total by blast
    then show ?thesis using ol \<open>ol_parse_url ol uri = Some u\<close> otp_uri_to_ctx_eq [OF \<open>ol_parse_url ol uri = Some u\<close>, of name] by auto
  qed
qed

section \<open>Codes\<close>

text \<open>The number that bytes spell with the most significant first.\<close>

definition be_value :: "bytes \<Rightarrow> nat" where
  "be_value bs = foldl (\<lambda>v b. v * 256 + unat b) 0 bs"

text \<open>RFC 4226: the last four bits of the HMAC choose four bytes; their lower 31 bits, reduced to the digits.\<close>

definition rfc4226_value :: "bytes \<Rightarrow> nat \<Rightarrow> nat" where
  "rfc4226_value mac digits = be_value (take 4 (drop (unat (last mac) mod 16) mac)) mod 2 ^ 31 mod 10 ^ digits"

lemma push_bit_or_nat:
  assumes "m < 2 ^ n" and "k * 2 ^ n + m < 2 ^ 32"
  shows "push_bit n (of_nat k) OR of_nat m = (of_nat (k * 2 ^ n + m) :: u32)"
proof -
  have "unat (of_nat m :: u32) < 2 ^ n" using assms by (simp add: unat_of_nat take_bit_eq_mod)
  from not_bit_of_small [OF this] have "push_bit n (of_nat k) AND of_nat m = (0 :: u32)"
    by (intro bit_word_eqI) (auto simp: bit_and_iff bit_push_bit_iff)
  moreover have "push_bit n (of_nat k :: u32) = of_nat (k * 2 ^ n)" by (simp add: push_bit_eq_mult)
  ultimately show ?thesis using word_plus_and_or [of "push_bit n (of_nat k :: u32)" "of_nat m"] by simp
qed

lemma and_7f: "unat (b AND 0x7f) = unat (b :: byte) mod 128"
proof -
  have "b AND 0x7f = take_bit 7 b" by (simp add: take_bit_eq_mask mask_eq_exp_minus_1)
  then have "unat (b AND 0x7f) = take_bit 7 (unat b)" by (simp only: unsigned_take_bit_eq)
  then show ?thesis by (simp only: take_bit_eq_mod) simp
qed

lemma byte_sums:
  assumes "x < 256" "y < 256" "z < 256"
  shows "y * 2 ^ 8 + z < 2 ^ 16" "x * 2 ^ 16 + (y * 2 ^ 8 + z) < 2 ^ 24" "a < 128 \<Longrightarrow> a * 2 ^ 24 + (x * 2 ^ 16 + (y * 2 ^ 8 + z)) < (2 :: nat) ^ 32"
  using assms by simp_all

lemma code_value:
  "unat (push_bit 24 (ucast ((b0 :: byte) AND 0x7f)) OR push_bit 16 (ucast b1) OR push_bit 8 (ucast b2) OR (ucast (b3 :: byte) :: u32))
    = unat b0 mod 128 * 2 ^ 24 + (unat (b1 :: byte) * 2 ^ 16 + (unat (b2 :: byte) * 2 ^ 8 + unat b3))"
proof -
  have lt: "unat b < 256" for b :: byte using unat_byte_lt by simp
  have u: "(ucast b :: u32) = of_nat (unat b)" for b :: byte by simp
  obtain a where a: "a = unat b0 mod 128" "a < 128" by simp
  let ?low = "unat b2 * 2 ^ 8 + unat b3" and ?a = a
  let ?mid = "unat b1 * 2 ^ 16 + ?low"
  have b: "?low < 2 ^ 16" "?mid < 2 ^ 24" "?a * 2 ^ 24 + ?mid < 2 ^ 32"
    using byte_sums [OF lt [of b1] lt [of b2] lt [of b3]] a(2) by blast+
  have "push_bit 8 (of_nat (unat b2)) OR of_nat (unat b3) = (of_nat ?low :: u32)" by (rule push_bit_or_nat) (use lt [of b3] b in simp_all)
  moreover have "push_bit 16 (of_nat (unat b1)) OR of_nat ?low = (of_nat ?mid :: u32)" by (rule push_bit_or_nat) (use b in simp_all)
  moreover have "push_bit 24 (of_nat ?a) OR of_nat ?mid = (of_nat (?a * 2 ^ 24 + ?mid) :: u32)" by (rule push_bit_or_nat) (use b in simp_all)
  moreover have "unat (of_nat (?a * 2 ^ 24 + ?mid) :: u32) = ?a * 2 ^ 24 + ?mid"
    using b(3) by (simp only: unat_of_nat) (simp add: take_bit_eq_mod)
  ultimately show ?thesis unfolding a(1) by (simp only: u and_7f)
qed

lemma be_value_4:
  assumes "length bs = 4"
  shows "be_value bs = unat (bs ! 0) * 2 ^ 24 + (unat (bs ! 1) * 2 ^ 16 + (unat (bs ! 2) * 2 ^ 8 + unat (bs ! 3)))"
proof -
  obtain a b c d where "bs = [a, b, c, d]" using assms by (auto simp: length_Suc_conv eval_nat_numeral)
  then show ?thesis by (simp add: be_value_def)
qed

lemma be_value_mod: "(a * 2 ^ 24 + m) mod 2 ^ 31 = a mod 128 * 2 ^ 24 + m" if "m < 2 ^ 24" for a m :: nat
proof -
  have "(q * 128 + r) * 2 ^ 24 + m = q * 2 ^ 31 + (r * 2 ^ 24 + m)" for q r by simp
  from this [of "a div 128" "a mod 128"] have "a * 2 ^ 24 + m = a div 128 * 2 ^ 31 + (a mod 128 * 2 ^ 24 + m)" by (simp only: div_mult_mod_eq)
  moreover have "a mod 128 * 2 ^ 24 + m < 2 ^ 31" using that mod_less_divisor [of 128 a] by simp
  ultimately show ?thesis by (metis mod_less mod_mult_self3)
qed

lemma hmac_code_eq:
  assumes "20 \<le> length mac" and "length mac \<le> 64"
  shows "\<exists>code. hmac_code (mac @ rest) (length mac - 1) = Some code \<and> unat code = be_value (take 4 (drop (unat (last mac) mod 16) mac)) mod 2 ^ 31"
proof -
  let ?off = "unat (last mac) mod 16"
  have "last mac AND 0xf = take_bit 4 (last mac)" by (simp add: take_bit_eq_mask mask_eq_exp_minus_1)
  then have "unat (last mac AND 0xf) = take_bit 4 (unat (last mac))" by (simp only: unsigned_take_bit_eq)
  then have off: "unat (last mac AND 0xf) = ?off" by (simp only: take_bit_eq_mod) simp
  have l: "?off < 16" by simp
  then have g: "buf_get (mac @ rest) (?off + i) = Some (mac ! (?off + i))" if "i < 4" for i
  proof -
    have "?off + i < length mac" using that l assms(1) by linarith
    then show ?thesis by (simp add: buf_get_def nth_append)
  qed
  have "mac \<noteq> []" using assms by auto
  then have gl: "buf_get (mac @ rest) (length mac - 1) = Some (last mac)" using assms by (simp add: buf_get_def nth_append last_conv_nth)
  let ?t = "take 4 (drop ?off mac)"
  have t: "length ?t = 4" "\<And>i. i < 4 \<Longrightarrow> ?t ! i = mac ! (?off + i)" using l assms(1) by simp_all
  have b: "unat (?t ! 1) * 2 ^ 16 + (unat (?t ! 2) * 2 ^ 8 + unat (?t ! 3)) < 2 ^ 24"
    by (rule byte_sums(2)) (use unat_byte_lt in simp_all)
  have "be_value ?t mod 2 ^ 31 = unat (?t ! 0) mod 128 * 2 ^ 24 + (unat (?t ! 1) * 2 ^ 16 + (unat (?t ! 2) * 2 ^ 8 + unat (?t ! 3)))"
    unfolding be_value_4 [OF t(1)] by (rule be_value_mod [OF b])
  then have "be_value ?t mod 2 ^ 31 = unat (push_bit 24 (ucast (?t ! 0 AND 0x7f)) OR push_bit 16 (ucast (?t ! 1)) OR push_bit 8 (ucast (?t ! 2)) OR (ucast (?t ! 3) :: u32))"
    by (simp only: code_value)
  then show ?thesis
    using g [of 0] g [of 1] g [of 2] g [of 3] t(2) [of 0] t(2) [of 1] t(2) [of 2] t(2) [of 3]
    unfolding hmac_code_def Let_def gl bind.bind_lunit off by (simp only: add_0_right bind.bind_lunit) auto
qed

lemma unat_be_byte: "unat (ucast (drop_bit n v AND 0xFF) :: byte) = unat (v :: u32) div 2 ^ n mod 256"
proof -
  have "drop_bit n v AND 0xFF = take_bit 8 (drop_bit n v)" by (simp add: take_bit_eq_mask mask_eq_exp_minus_1)
  then have "unat (ucast (drop_bit n v AND 0xFF) :: byte) = take_bit 8 (take_bit 8 (drop_bit n (unat v)))"
    by (simp only: unsigned_ucast_eq unsigned_take_bit_eq unat_drop_bit_eq) simp
  then show ?thesis by (simp only: take_bit_eq_mod drop_bit_eq_div) simp
qed

lemma be_value_uint32: "be_value (uint32_to_be v) = unat v"
proof -
  define x where "x = unat v"
  have "x < 2 ^ 32" using unsigned_less [of v] by (simp add: x_def)
  then have hi: "x div 2 ^ 24 mod 256 = x div 2 ^ 24" by simp
  have "x div 2 ^ 24 = x div 2 ^ 8 div 2 ^ 8 div 2 ^ 8" "x div 2 ^ 16 = x div 2 ^ 8 div 2 ^ 8" by (simp_all add: div_mult2_eq [symmetric])
  then have "((x div 2 ^ 24 mod 256 * 256 + x div 2 ^ 16 mod 256) * 256 + x div 2 ^ 8 mod 256) * 256 + x mod 256 = x"
    using hi div_mult_mod_eq [of x 256] div_mult_mod_eq [of "x div 2 ^ 8" 256] div_mult_mod_eq [of "x div 2 ^ 8 div 2 ^ 8" 256] by simp
  moreover have "unat (ucast (v AND 0xFF) :: byte) = x mod 256" using unat_be_byte [of 0 v] by (simp add: x_def)
  ultimately show ?thesis
    by (simp only: be_value_def uint32_to_be_def foldl_Cons foldl_Nil unat_be_byte x_def [symmetric] mult_0 add_0)
qed

text \<open>The counter as the HMAC sees it.\<close>

definition counter_bytes :: "u64 \<Rightarrow> bytes" where
  "counter_bytes c = uint32_to_be (ucast (drop_bit 32 c)) @ uint32_to_be (ucast c)"

lemma be_value_append: "be_value (xs @ ys) = be_value xs * 256 ^ length ys + be_value ys"
proof -
  have "foldl (\<lambda>v b. v * 256 + unat b) n ys = n * 256 ^ length ys + be_value ys" for n
    unfolding be_value_def by (induction ys rule: rev_induct) (simp_all add: algebra_simps)
  then show ?thesis by (simp add: be_value_def [of "xs @ ys"] be_value_def [of xs, symmetric])
qed

lemma counter_bytes_value: "length (counter_bytes c) = 8" "be_value (counter_bytes c) = unat c"
proof -
  have "unat (ucast (drop_bit 32 c) :: u32) = unat c div 2 ^ 32"
  proof -
    have "unat c < 2 ^ 32 * 2 ^ 32" using unsigned_less [of c, where ?'a = nat] by simp
    then have "unat c div 2 ^ 32 < 2 ^ 32" by (rule less_mult_imp_div_less)
    then show ?thesis by (simp only: unsigned_ucast_eq unat_drop_bit_eq) (simp add: take_bit_eq_mod drop_bit_eq_div)
  qed
  moreover have "unat (ucast c :: u32) = unat c mod 2 ^ 32" by (simp only: unsigned_ucast_eq) (simp add: take_bit_eq_mod)
  ultimately show "be_value (counter_bytes c) = unat c"
    using div_mult_mod_eq [of "unat c" "2 ^ 32"] by (simp add: counter_bytes_def be_value_append be_value_uint32)
qed (simp add: counter_bytes_def)

lemma pad_secret_ok:
  assumes "0 < actual_len" and "actual_len \<le> length secret" and "min_size \<le> buf_len"
  shows "\<exists>key. pad_secret buf_len actual_len secret min_size = Some key \<and> max min_size (length secret) = length key \<and> take (length secret) key = secret"
  using assms
proof (induction "min_size - length secret" arbitrary: secret rule: less_induct)
  case less
  show ?case
  proof (cases "length secret < min_size")
    case False
    then show ?thesis by (subst pad_secret.simps) simp
  next
    case True
    let ?n = "min (min_size - length secret) actual_len"
    have n: "?n \<noteq> 0" "\<not> ?n > length secret" "\<not> length secret + ?n > buf_len" using True less.prems by auto
    let ?s = "secret @ take ?n secret"
    have l: "length ?s = length secret + ?n" using n(2) by (simp only: length_append length_take)
    obtain key where k: "pad_secret buf_len actual_len ?s min_size = Some key" "max min_size (length ?s) = length key" "take (length ?s) key = ?s"
      using less.hyps [of ?s] less.prems n l True by fastforce
    have "take (length secret) key = take (length secret) (take (length ?s) key)" using l by simp
    also have "\<dots> = secret" unfolding k(3) by simp
    finally have "take (length secret) key = secret" .
    moreover have "max min_size (length secret) = length key" using k(2) l True by simp
    ultimately show ?thesis using True n k(1) by (subst pad_secret.simps) (auto simp: Let_def)
  qed
qed

lemma decimal_padded_ok:
  assumes "n < 10 ^ width" and "0 < width"
  shows "length (decimal_padded width n) = width" "list_all is_digit (decimal_padded width n)" "dec_value 0 (decimal_padded width n) = n"
proof -
  have "dec_value 0 (replicate k (chr CHR ''0'')) = 0" for k by (induction k) (simp_all add: chr_def)
  then show "dec_value 0 (decimal_padded width n) = n" by (simp add: decimal_padded_def dec_value_append)
  show "length (decimal_padded width n) = width" using length_decimal [OF assms] by (simp add: decimal_padded_def)
  show "list_all is_digit (decimal_padded width n)" using decimal_is_digit by (auto simp: decimal_padded_def list_all_iff is_digit_def chr_def)
qed

lemma md_sizes: "md_ok ol \<Longrightarrow> md \<noteq> MDTYPE_NONE \<Longrightarrow> 20 \<le> ol_md_size ol md \<and> ol_md_size ol md \<le> 64"
  by (cases md) (simp_all add: md_ok_def)

lemma base32_to_bin_total: "s \<noteq> [] \<Longrightarrow> \<exists>b. base32_to_bin s SECRET_BUFSIZE = Some b"
  by (simp add: base32_to_bin_def SECRET_BUFSIZE_def)

lemma prepare_md_ctx_total:
  assumes "otp_is_valid ctx = Some True" and "md_ok ol"
  shows "\<exists>r. prepare_md_ctx ol ctx = Some r"
proof -
  have f: "oc_secret ctx \<noteq> []" "oc_md_type ctx \<noteq> MDTYPE_NONE" using otp_is_valid_True [OF assms(1)] by (simp_all add: fields_ok_def)
  obtain b where b: "base32_to_bin (oc_secret ctx) SECRET_BUFSIZE = Some b" using base32_to_bin_total [OF f(1)] by blast
  have sz: "20 \<le> ol_md_size ol (oc_md_type ctx)" "ol_md_size ol (oc_md_type ctx) \<le> SECRET_BUFSIZE"
    using md_sizes [OF assms(2) f(2)] by (simp_all add: SECRET_BUFSIZE_def)
  have "\<exists>key. pad_secret SECRET_BUFSIZE (length b) b (ol_md_size ol (oc_md_type ctx)) = Some key" if "b \<noteq> []"
    using pad_secret_ok [of "length b" b "ol_md_size ol (oc_md_type ctx)" SECRET_BUFSIZE] that sz by auto
  then show ?thesis using assms(1) b sz(1) by (auto simp: prepare_md_ctx_def)
qed

definition fresh_mem :: "(nat \<Rightarrow> bytes) \<Rightarrow> bool" where
  "fresh_mem fresh \<longleftrightarrow> (\<forall>n. length (fresh n) = n)"

text \<open>The code in closed form.\<close>

lemma otp_get_auth_code_eq:
  assumes "otp_is_valid ctx = Some True" and "md_ok ol" and "fresh_mem fresh" and "unat (oc_digits ctx) < token_len"
  shows "\<exists>p. prepare_md_ctx ol ctx = Some p \<and> otp_get_auth_code ol fresh ctx token_len =
    Some (do { key \<leftarrow> p; mac \<leftarrow> ol_md_hmac ol (oc_md_type ctx) key (counter_bytes (oc_counter ctx));
      Some (decimal_padded (unat (oc_digits ctx)) (rfc4226_value mac (unat (oc_digits ctx)))) })"
proof -
  let ?msg = "counter_bytes (oc_counter ctx)"
  have f: "oc_md_type ctx \<noteq> MDTYPE_NONE" "oc_digits ctx = 6 \<or> oc_digits ctx = 8" using otp_is_valid_True [OF assms(1)] by (auto simp: fields_ok_def)
  note sz = md_sizes [OF assms(2) f(1)]
  have m: "(if oc_digits ctx = 6 then 1000000 else 100000000) = (10 :: nat) ^ unat (oc_digits ctx)" "0 < unat (oc_digits ctx)" using f(2) by auto
  obtain p where p: "prepare_md_ctx ol ctx = Some p" using prepare_md_ctx_total [OF assms(1,2)] by blast
  note eq = otp_get_auth_code_def [of ol fresh ctx token_len, unfolded Let_def counter_bytes_def [symmetric] m(1)]
  show ?thesis
  proof (cases "p = None \<or> (\<exists>key. p = Some key \<and> ol_md_hmac ol (oc_md_type ctx) key ?msg = None)")
    case True
    have idx: "ol_md_size ol (oc_md_type ctx) \<noteq> 0" "ol_md_size ol (oc_md_type ctx) - 1 < MBEDTLS_SHA512_HMAC_LEN"
      using sz by (auto simp: MBEDTLS_SHA512_HMAC_LEN_def)
    have "otp_get_auth_code ol fresh ctx token_len = Some None"
      using True assms(1,4) p idx unfolding eq by auto
    then show ?thesis using True p by auto
  next
    case False
    then obtain key mac where k: "p = Some key" "ol_md_hmac ol (oc_md_type ctx) key ?msg = Some mac" by (cases p) auto
    have lm: "length mac = ol_md_size ol (oc_md_type ctx)" using assms(2) k(2) by (auto simp: md_ok_def)
    have w: "buf_write (fresh MBEDTLS_SHA512_HMAC_LEN) 0 mac = Some (mac @ drop (length mac) (fresh MBEDTLS_SHA512_HMAC_LEN))"
      using assms(3) lm sz by (simp add: buf_write_def fresh_mem_def MBEDTLS_SHA512_HMAC_LEN_def)
    obtain code where c: "hmac_code (mac @ drop (length mac) (fresh MBEDTLS_SHA512_HMAC_LEN)) (length mac - 1) = Some code"
        "unat code = be_value (take 4 (drop (unat (last mac) mod 16) mac)) mod 2 ^ 31"
      using hmac_code_eq [of mac "drop (length mac) (fresh MBEDTLS_SHA512_HMAC_LEN)"] lm sz by auto
    let ?v = "unat code mod 10 ^ unat (oc_digits ctx)"
    have "?v < 10 ^ unat (oc_digits ctx)" by simp
    note t = decimal_padded_ok [OF this m(2)]
    have idx: "ol_md_size ol (oc_md_type ctx) \<noteq> 0" "ol_md_size ol (oc_md_type ctx) - 1 < MBEDTLS_SHA512_HMAC_LEN"
      using sz by (auto simp: MBEDTLS_SHA512_HMAC_LEN_def)
    have "otp_get_auth_code ol fresh ctx token_len = Some (Some (decimal_padded (unat (oc_digits ctx)) ?v))"
      using assms(1,4) p k idx w c(1) t(1) unfolding eq lm by simp
    moreover have "?v = rfc4226_value mac (unat (oc_digits ctx))" by (simp only: rfc4226_value_def c(2))
    ultimately show ?thesis using p k by auto
  qed
qed

text \<open>C20. The codes are those of RFC 4226: for a valid context the function returns; there is no code exactly when the secret is not
  base32 or the HMAC fails, and otherwise it has as many decimal digits as the context asks for and is the truncation
  of the HMAC of the counter, written in eight bytes, most significant first. What was in memory before plays no part.\<close>

theorem otp_code_is_rfc4226:
  assumes "otp_is_valid ctx = Some True" and "md_ok ol" and "fresh_mem fresh" and "unat (oc_digits ctx) < token_len"
  shows "\<exists>p msg. prepare_md_ctx ol ctx = Some p \<and> length msg = 8 \<and> be_value msg = unat (oc_counter ctx) \<and>
    (case p \<bind> (\<lambda>key. ol_md_hmac ol (oc_md_type ctx) key msg) of
       None \<Rightarrow> otp_get_auth_code ol fresh ctx token_len = Some None
     | Some mac \<Rightarrow> \<exists>token. otp_get_auth_code ol fresh ctx token_len = Some (Some token) \<and> length token = unat (oc_digits ctx) \<and> list_all is_digit token \<and>
         dec_value 0 token = rfc4226_value mac (unat (oc_digits ctx)))"
proof -
  obtain p where p: "prepare_md_ctx ol ctx = Some p" "otp_get_auth_code ol fresh ctx token_len =
      Some (do { key \<leftarrow> p; mac \<leftarrow> ol_md_hmac ol (oc_md_type ctx) key (counter_bytes (oc_counter ctx));
        Some (decimal_padded (unat (oc_digits ctx)) (rfc4226_value mac (unat (oc_digits ctx)))) })"
    using otp_get_auth_code_eq [OF assms] by blast
  have "0 < unat (oc_digits ctx)" using otp_is_valid_True [OF assms(1)] by (auto simp: fields_ok_def)
  then have t: "length (decimal_padded (unat (oc_digits ctx)) (rfc4226_value mac (unat (oc_digits ctx)))) = unat (oc_digits ctx)"
      "list_all is_digit (decimal_padded (unat (oc_digits ctx)) (rfc4226_value mac (unat (oc_digits ctx))))"
      "dec_value 0 (decimal_padded (unat (oc_digits ctx)) (rfc4226_value mac (unat (oc_digits ctx)))) = rfc4226_value mac (unat (oc_digits ctx))" for mac
    using decimal_padded_ok [of "rfc4226_value mac (unat (oc_digits ctx))" "unat (oc_digits ctx)"] by (simp_all add: rfc4226_value_def)
  show ?thesis
    using p t counter_bytes_value [of "oc_counter ctx"]
    by (intro exI [of _ p] exI [of _ "counter_bytes (oc_counter ctx)"]) (auto split: option.split Option.bind_splits)
qed

section \<open>Moving factors\<close>

lemma sint_byte:
  assumes "n = unat (p :: byte)"
  shows "sint p = (if n < 128 then int n else int n - 256)"
proof -
  have "sint p = take_bit 8 (int (unat p) + 128) - 128" by (simp add: sint_uint signed_take_bit_eq_take_bit_shift)
  then have "sint p = take_bit 8 (int n + 128) - 128" by (simp only: assms)
  then have "sint p = (int n + 128) mod 256 - 128" by (simp add: take_bit_eq_mod)
  moreover have "n < 256" unfolding assms by (rule unat_byte_lt)
  ultimately show ?thesis by (simp add: mod_pos_geq [of 256 "int n + 128"])
qed

lemma sint_value:
  assumes "n = unat (v :: u64)" and "n < 2 ^ 63"
  shows "sint v = int n"
proof -
  have "sint v = take_bit 64 (int (unat v) + 2 ^ 63) - 2 ^ 63" by (simp add: sint_uint signed_take_bit_eq_take_bit_shift)
  then have "sint v = take_bit 64 (int n + 2 ^ 63) - 2 ^ 63" by (simp only: assms(1))
  then show ?thesis using assms(2) by (simp add: take_bit_eq_mod)
qed

lemma sdiv_period:
  assumes "0 < n" and "n < 256"
  shows "int v sdiv (if n < 128 then int n else int n - 256) = (if n < 128 then int (v div n) else - int (v div (256 - n)))"
proof -
  have "int n - 256 = - int (256 - n)" using assms(2) by simp
  then show ?thesis using assms by (auto simp: signed_divide_int_def sgn_if zdiv_int)
qed

text \<open>What the quotient of the code is: the number of periods when the period is below 128, and a negative number otherwise.\<close>

lemma totp_quotient:
  assumes "unat (v :: u64) < 2 ^ 63" and "p \<noteq> 0"
  shows "sint v sdiv sint (p :: byte) = (if unat p < 128 then int (unat v div unat p) else - int (unat v div (256 - unat p)))"
proof -
  have "0 < unat p" using assms(2) by (simp add: unat_gt_0)
  then show ?thesis unfolding sint_value [OF refl assms(1)] sint_byte [OF refl] using sdiv_period [OF _ unat_byte_lt] by blast
qed

lemma otp_set_explicit_totp:
  assumes "otp_is_valid ctx = Some True" and "oc_otp_type ctx = OTPTYPE_TOTP" and "unat v < 2 ^ 63"
  shows "otp_set_explicit_value ctx v = Some (ctx\<lparr>oc_counter := word_of_int (sint v sdiv sint (oc_period ctx))\<rparr>)"
proof -
  have "oc_period ctx \<noteq> 0" using otp_is_valid_True [OF assms(1)] assms(2) by (auto simp: fields_ok_def)
  moreover have "0 \<le> sint v" unfolding sint_value [OF refl assms(3)] by (rule of_nat_0_le_iff)
  then have "sint v \<noteq> - (2 ^ 63)" by simp
  ultimately show ?thesis using assms(1,2) by (simp add: otp_set_explicit_value_def)
qed

text \<open>C28. The counter of TOTP is the number of whole periods since the epoch, as RFC 6238 has it, exactly when the period is at
  most 127 seconds. For a longer period, which the parser accepts up to 255, the period is read as a negative number and
  the counter is another one.\<close>

theorem totp_counter_right_iff:
  assumes "otp_is_valid ctx = Some True" and "oc_otp_type ctx = OTPTYPE_TOTP" and "MIN_ALLOWED_CURRENT_TIMESTAMP \<le> now" and "unat now < 2 ^ 63"
  shows "\<exists>ctx'. otp_set_default_value env True now ctx st = Some (OTP_ERR_OK, ctx', Some now, st) \<and>
    (unat (oc_counter ctx') = unat now div unat (oc_period ctx) \<longleftrightarrow> unat (oc_period ctx) < 128)"
proof -
  let ?c = "word_of_int (sint now sdiv sint (oc_period ctx)) :: u64"
  have p: "oc_period ctx \<noteq> 0" using otp_is_valid_True [OF assms(1)] assms(2) by (auto simp: fields_ok_def)
  note q = totp_quotient [OF assms(4) p]
  have s: "unat (of_nat k :: u64) = k" if "k < 2 ^ 63" for k using that by (simp add: unat_of_nat take_bit_eq_mod)
  have le: "unat now div k < 2 ^ 63" for k using assms(4) div_le_dividend le_less_trans by blast
  have "unat ?c = unat now div unat (oc_period ctx) \<longleftrightarrow> unat (oc_period ctx) < 128"
  proof (cases "unat (oc_period ctx) < 128")
    case True
    then have "?c = of_nat (unat now div unat (oc_period ctx))" unfolding q using True by (simp only: if_True of_int_of_nat_eq)
    then show ?thesis using s [OF le] True by simp
  next
    case False
    let ?k = "unat now div (256 - unat (oc_period ctx))"
    have "1577836800 \<le> unat now" using assms(3) by (simp add: MIN_ALLOWED_CURRENT_TIMESTAMP_def word_le_nat_alt)
    then have "0 < ?k" using False unat_byte_lt [of "oc_period ctx"] by (simp add: div_greater_zero_iff)
    have "?c = - of_nat ?k" unfolding q using False by (simp only: if_False of_int_minus of_int_of_nat_eq)
    moreover have "- of_nat ?k = (of_nat (2 ^ 64 - ?k) :: u64)"
      using le [of "256 - unat (oc_period ctx)"] by (subst of_nat_diff) simp_all
    moreover have "unat (of_nat (2 ^ 64 - ?k) :: u64) = 2 ^ 64 - ?k" using \<open>0 < ?k\<close> by (simp only: unat_of_nat) (simp add: take_bit_eq_mod)
    ultimately have "2 ^ 63 < unat ?c" using le [of "256 - unat (oc_period ctx)"] by simp
    then show ?thesis using le [of "unat (oc_period ctx)"] False by simp
  qed
  then show ?thesis
    using assms(1-3) otp_set_explicit_totp [OF assms(1,2,4)] by (auto simp: otp_set_default_value_def not_less)
qed

section \<open>Stored counters\<close>

definition hotp_value :: "bytes \<Rightarrow> 'n nvs_state \<Rightarrow> u64" where
  "hotp_value name st = (case lookup st 4 name of None \<Rightarrow> 0 | Some v \<Rightarrow> if length v = 8 then read_le64 v else 0)"

lemma storage_get_otp_hotp_counter_eq:
  "nvs_ok env st \<Longrightarrow> storage_get_otp_hotp_counter env name st = Some (hotp_value name st)"
  using read_blob_fixed_lookup [OF _ nvs_open_names(5), of env st 8 name]
  by (auto simp: storage_get_otp_hotp_counter_def hotp_value_def split: option.split)

lemma length_write_le64: "length (write_le64 c) = 8"
  by (simp add: write_le64_def)

lemma hotp_value_write: "lookup st 4 name = Some (write_le64 c) \<Longrightarrow> hotp_value name st = c"
  by (simp add: hotp_value_def length_write_le64 read_write_le64)

lemma set_hotp_counter_effect:
  assumes "nvs_ok env st"
  obtains ok st' where "storage_set_otp_hotp_counter env name c st = Some (ok, st')" "nvs_ok env st'" "same_but 4 name st st'"
    "ok \<Longrightarrow> lookup st' 4 name = Some (write_le64 c)" "hotp_value name st' = c \<or> \<not> ok \<and> hotp_value name st' = hotp_value name st"
proof -
  have "write_le64 c \<noteq> []" using length_write_le64 [of c] by auto
  then obtain r st' where s: "store_blob env HOTP_COUNTERS_NAMESPACE name (write_le64 c) st = Some (r, st')" "same_but 4 name st st'"
      "lookup st' 4 name = Some (write_le64 c) \<or> \<not> r \<and> lookup st' 4 name = lookup st 4 name"
    using store_blob_effect [OF assms nvs_open_names(5), of "write_le64 c" name] by auto
  then show thesis
    using that [of r st'] same_but_ok [OF assms s(2)] hotp_value_write [of st' name c]
    by (auto simp: storage_set_otp_hotp_counter_def hotp_value_def)
qed

text \<open>One request for a code of a HOTP record.\<close>

lemma hotp_step:
  assumes "nvs_ok env st" and "otp_is_valid ctx = Some True" and "oc_otp_type ctx = OTPTYPE_HOTP"
  obtains err ctx' vo st' where "otp_set_default_value env clock_set now ctx st = Some (err, ctx', vo, st')" "nvs_ok env st'" "same_but 4 (oc_name ctx) st st'"
    "err = OTP_ERR_OK \<and> vo = Some (hotp_value (oc_name ctx) st) \<and> oc_counter ctx' = hotp_value (oc_name ctx) st \<and> hotp_value (oc_name ctx) st' = hotp_value (oc_name ctx) st + 1 \<or>
     err \<noteq> OTP_ERR_OK \<and> vo = None \<and> hotp_value (oc_name ctx) st' \<in> {hotp_value (oc_name ctx) st, hotp_value (oc_name ctx) st + 1}"
proof -
  let ?v = "hotp_value (oc_name ctx) st"
  obtain ok st' where s: "storage_set_otp_hotp_counter env (oc_name ctx) (?v + 1) st = Some (ok, st')" "nvs_ok env st'" "same_but 4 (oc_name ctx) st st'"
      "hotp_value (oc_name ctx) st' = ?v + 1 \<or> \<not> ok \<and> hotp_value (oc_name ctx) st' = ?v"
    by (rule set_hotp_counter_effect [OF assms(1)]) blast
  have x: "otp_set_explicit_value ctx ?v = Some (ctx\<lparr>oc_counter := ?v\<rparr>)" using assms(2,3) by (simp add: otp_set_explicit_value_def)
  note eq = otp_set_default_value_def [of env clock_set now ctx st] storage_get_otp_hotp_counter_eq [OF assms(1)]
  show thesis
  proof (cases ok)
    case True
    then have "otp_set_default_value env clock_set now ctx st = Some (OTP_ERR_OK, ctx\<lparr>oc_counter := ?v\<rparr>, Some ?v, st')"
      using assms(2,3) s(1) x by (simp add: eq)
    then show thesis using that s True by fastforce
  next
    case False
    then have "otp_set_default_value env clock_set now ctx st = Some (OTP_ERR_HOTP_COUNTER, ctx, None, st')"
      using assms(2,3) s(1) by (simp add: eq)
    then show thesis using that s False by fastforce
  qed
qed

text \<open>A series of requests: the counters of the codes that were shown, in order.\<close>

fun hotp_requests :: "'n nvs_env \<Rightarrow> otpauth_ctx_t \<Rightarrow> nat \<Rightarrow> 'n nvs_state \<Rightarrow> (u64 list \<times> 'n nvs_state) option" where
  "hotp_requests env ctx 0 st = Some ([], st)"
| "hotp_requests env ctx (Suc n) st = do {
     (err, ctx', vo, st) \<leftarrow> otp_set_default_value env False 0 ctx st;
     (cs, st) \<leftarrow> hotp_requests env ctx n st;
     Some (if err = OTP_ERR_OK then oc_counter ctx' # cs else cs, st) }"


lemma hotp_requests_increase:
  assumes "nvs_ok env st" and "otp_is_valid ctx = Some True" and "oc_otp_type ctx = OTPTYPE_HOTP" and "unat (hotp_value (oc_name ctx) st) + n < 2 ^ 64"
  shows "\<exists>cs st'. hotp_requests env ctx n st = Some (cs, st') \<and> sorted_wrt (<) cs \<and> (\<forall>c\<in>set cs. hotp_value (oc_name ctx) st \<le> c \<and> c < hotp_value (oc_name ctx) st') \<and>
    hotp_value (oc_name ctx) st \<le> hotp_value (oc_name ctx) st'"
  using assms
proof (induction n arbitrary: st)
  case (Suc n)
  let ?v = "hotp_value (oc_name ctx)"
  obtain err ctx' vo st1 where s: "otp_set_default_value env False 0 ctx st = Some (err, ctx', vo, st1)" "nvs_ok env st1"
      "err = OTP_ERR_OK \<and> vo = Some (?v st) \<and> oc_counter ctx' = ?v st \<and> ?v st1 = ?v st + 1 \<or> err \<noteq> OTP_ERR_OK \<and> vo = None \<and> ?v st1 \<in> {?v st, ?v st + 1}"
    by (rule hotp_step [OF Suc.prems(1-3)]) blast
  have "1 + ?v st \<noteq> 0"
  proof
    assume "1 + ?v st = 0"
    then have "?v st = - 1" by (metis add_eq_0_iff)
    then show False using Suc.prems(4) by (simp add: unsigned_minus_1_eq_mask mask_eq_exp_minus_1)
  qed
  then have u: "unat (?v st + 1) = Suc (unat (?v st))" by (metis unatSuc add.commute)
  then have lt: "?v st < ?v st + 1" by (simp add: word_less_nat_alt)
  have "unat (?v st1) + n < 2 ^ 64" using s(3) u Suc.prems(4) by auto
  then obtain cs st' where ih: "hotp_requests env ctx n st1 = Some (cs, st')" "sorted_wrt (<) cs" "\<forall>c\<in>set cs. ?v st1 \<le> c \<and> c < ?v st'" "?v st1 \<le> ?v st'"
    using Suc.IH [OF s(2) Suc.prems(2,3)] by blast
  show ?case using s(3)
  proof (elim disjE conjE)
    assume e: "err = OTP_ERR_OK" "oc_counter ctx' = ?v st" "?v st1 = ?v st + 1"
    have "hotp_requests env ctx (Suc n) st = Some (?v st # cs, st')" using s(1) ih(1) e by simp
    moreover have "\<forall>c\<in>set cs. ?v st < c" "?v st < ?v st'" using lt ih(3,4) e(3) by (auto intro: less_le_trans)
    ultimately show ?thesis using ih(2,3) by (intro exI [of _ "?v st # cs"] exI [of _ st']) auto
  next
    assume e: "err \<noteq> OTP_ERR_OK" "?v st1 \<in> {?v st, ?v st + 1}"
    have "hotp_requests env ctx (Suc n) st = Some (cs, st')" using s(1) ih(1) e by simp
    moreover have "?v st \<le> ?v st1" using lt e(2) by auto
    ultimately show ?thesis using ih(2-4) by (intro exI [of _ cs] exI [of _ st']) (auto intro: order_trans)
  qed
qed simp

text \<open>C19. A HOTP counter is used for one code only: in any series of requests the counters of the codes that are shown increase
  strictly and are all below the counter that is then stored, whatever the commits to the medium return. A failed write
  never leads to a code that was shown before.\<close>

theorem hotp_counters_never_repeat:
  assumes "nvs_ok env st" and "otp_is_valid ctx = Some True" and "oc_otp_type ctx = OTPTYPE_HOTP" and "unat (hotp_value (oc_name ctx) st) + n < 2 ^ 64"
  shows "\<exists>cs st'. hotp_requests env ctx n st = Some (cs, st') \<and> sorted_wrt (<) cs \<and>
    (\<forall>c\<in>set cs. hotp_value (oc_name ctx) st \<le> c \<and> c < hotp_value (oc_name ctx) st')"
  using hotp_requests_increase [OF assms] by blast

section \<open>Encrypted records\<close>

definition otp_keys_ok :: "otp_lib \<Rightarrow> bool" where
  "otp_keys_ok ol \<longleftrightarrow> (\<forall>seed label. seed \<noteq> [] \<longrightarrow> (\<exists>k. ol_key_from_seed ol seed label = Some k \<and> length k = 33))"

definition otp_key :: "otp_lib \<Rightarrow> bytes \<Rightarrow> bytes" where
  "otp_key ol seed = drop 1 (the (ol_key_from_seed ol seed OTP_HMAC_KEY))"

definition otp_cipher :: "otp_lib \<Rightarrow> 'k libwally \<Rightarrow> bytes \<Rightarrow> bytes \<Rightarrow> bytes \<Rightarrow> bytes" where
  "otp_cipher ol wl seed iv uri = iv @ the (aes_cbc_encrypt wl (otp_key ol seed) iv uri)"

lemma otp_key_ok:
  assumes "otp_keys_ok ol" and "seed \<noteq> []"
  shows "get_otp_encryption_key ol seed = Some (Some (otp_key ol seed))" "length (otp_key ol seed) = AES_KEY_LEN_256"
proof -
  obtain k where "ol_key_from_seed ol seed OTP_HMAC_KEY = Some k" "length k = 33" using assms unfolding otp_keys_ok_def by blast
  then show "get_otp_encryption_key ol seed = Some (Some (otp_key ol seed))" "length (otp_key ol seed) = AES_KEY_LEN_256"
    using assms(2) by (simp_all add: get_otp_encryption_key_def otp_key_def AES_KEY_LEN_256_def)
qed

lemma otp_cipher_ok:
  assumes "otp_keys_ok ol" and "cbc_ok wl" and "length iv = Registration.AES_BLOCK_LEN" and "seed \<noteq> []" and "uri \<noteq> []"
  shows "length (otp_cipher ol wl seed iv uri) = AES_ENCRYPTED_LEN (length uri)"
    and "aes_cbc_decrypt wl (otp_key ol seed) (take Registration.AES_BLOCK_LEN (otp_cipher ol wl seed iv uri)) (drop Registration.AES_BLOCK_LEN (otp_cipher ol wl seed iv uri)) = Some uri"
proof -
  obtain ct where ct: "aes_cbc_encrypt wl (otp_key ol seed) iv uri = Some ct" "length ct = AES_PADDED_LEN (length uri)" "aes_cbc_decrypt wl (otp_key ol seed) iv ct = Some uri"
    using assms otp_key_ok(2) [OF assms(1,4)] unfolding cbc_ok_def by blast
  then show "length (otp_cipher ol wl seed iv uri) = AES_ENCRYPTED_LEN (length uri)"
    and "aes_cbc_decrypt wl (otp_key ol seed) (take Registration.AES_BLOCK_LEN (otp_cipher ol wl seed iv uri)) (drop Registration.AES_BLOCK_LEN (otp_cipher ol wl seed iv uri)) = Some uri"
    using assms(3) by (simp_all add: otp_cipher_def AES_ENCRYPTED_LEN_def)
qed

lemma encrypted_len_mono: "m \<le> n \<Longrightarrow> AES_ENCRYPTED_LEN m \<le> AES_ENCRYPTED_LEN n"
  by (simp add: AES_ENCRYPTED_LEN_def AES_PADDED_LEN_def div_le_mono)

lemma otp_save_uri_eq:
  assumes "otp_keys_ok ol" and "cbc_ok wl" and "length iv = Registration.AES_BLOCK_LEN" and "fresh_mem fresh" and "seed \<noteq> []" and "uri \<noteq> []" and "length uri < OTP_MAX_URI_LEN"
  shows "otp_save_uri ol wl fresh iv seed env name uri st = storage_set_otp_data env name (otp_cipher ol wl seed iv uri) st"
proof -
  have le: "AES_ENCRYPTED_LEN (length uri) \<le> AES_ENCRYPTED_LEN OTP_MAX_URI_LEN" using assms(7) by (intro encrypted_len_mono) simp
  then have "length (take (AES_ENCRYPTED_LEN (length uri)) (fresh (AES_ENCRYPTED_LEN OTP_MAX_URI_LEN))) = AES_ENCRYPTED_LEN (length uri)"
    using assms(4) by (simp add: fresh_mem_def)
  note e = encrypt_bytes_ok [OF assms(2) otp_key_ok(2) [OF assms(1,5)] assms(3,6) this]
  show ?thesis using assms(6,7) le otp_key_ok(1) [OF assms(1,5)] e by (simp add: otp_save_uri_def otp_cipher_def Let_def not_le)
qed

lemma otp_load_stored:
  assumes "otp_keys_ok ol" and "cbc_ok wl" and "length iv = Registration.AES_BLOCK_LEN" and "seed \<noteq> []" and "uri \<noteq> []" and "length uri < OTP_MAX_URI_LEN"
    and "nvs_ok env st" and "lookup st 3 name = Some (otp_cipher ol wl seed iv uri)"
  shows "otp_load_uri ol wl seed env name st = Some (Some uri)"
proof -
  note c = otp_cipher_ok [OF assms(1-5)]
  have le: "AES_ENCRYPTED_LEN (length uri) \<le> AES_ENCRYPTED_LEN OTP_MAX_URI_LEN" using assms(6) by (intro encrypted_len_mono) simp
  have pos: "0 < AES_ENCRYPTED_LEN OTP_MAX_URI_LEN" by (simp add: AES_ENCRYPTED_LEN_def)
  have g: "storage_get_otp_data env name (AES_ENCRYPTED_LEN OTP_MAX_URI_LEN) st = Some (Some (otp_cipher ol wl seed iv uri))"
    using read_blob_lookup [OF assms(7) nvs_open_names(4) pos, of name] assms(8) c(1) le by (simp add: storage_get_otp_data_def)
  have "otp_cipher ol wl seed iv uri \<noteq> []" using c(1) by (auto simp: AES_ENCRYPTED_LEN_def Registration.AES_BLOCK_LEN_def)
  moreover have "aes_decrypt_bytes wl (otp_key ol seed) (otp_cipher ol wl seed iv uri) OTP_MAX_URI_LEN = Some (Some uri)"
  proof (subst decrypt_bytes_eq [OF otp_key_ok(2) [OF assms(1,4)]])
    show "Registration.AES_BLOCK_LEN < length (otp_cipher ol wl seed iv uri)" unfolding c(1) by (simp add: AES_ENCRYPTED_LEN_def)
    show "(length (otp_cipher ol wl seed iv uri) - Registration.AES_BLOCK_LEN) mod Registration.AES_BLOCK_LEN = 0" unfolding c(1) by (simp add: AES_ENCRYPTED_LEN_def AES_PADDED_LEN_def)
    show "length (otp_cipher ol wl seed iv uri) - Registration.AES_BLOCK_LEN \<le> AES_PADDED_LEN OTP_MAX_URI_LEN" unfolding c(1) using le by (simp add: AES_ENCRYPTED_LEN_def)
  qed (use assms(6) c(2) in \<open>simp_all add: OTP_MAX_URI_LEN_def\<close>)
  ultimately show ?thesis using g otp_key_ok(1) [OF assms(1,4)] by (simp add: otp_load_uri_def)
qed

section \<open>Concrete cases\<close>

definition demo_uri :: bytes where
  "demo_uri = str ''otpauth://totp/a?secret=AAAA''"

definition demo_uri_no_path :: bytes where
  "demo_uri_no_path = str ''otpauth://totp?secret=AAAA''"

definition demo_hotp_uri :: bytes where
  "demo_hotp_uri = str ''otpauth://hotp/a?secret=AAAA&counter=5''"

definition demo_parse_url :: "bytes \<Rightarrow> http_url option" where
  "demo_parse_url uri =
     (let u = \<lparr> uf_schema = Some (0, 7), uf_host = Some (10, 4), uf_port = None, uf_path = Some (14, 2), uf_query = Some (17, 11), uf_fragment = None \<rparr> in
      if uri = demo_uri then Some u
      else if uri = demo_uri_no_path then Some (u\<lparr>uf_path := None, uf_query := Some (15, 11)\<rparr>)
      else if uri = demo_hotp_uri then Some (u\<lparr>uf_query := Some (17, 21)\<rparr>)
      else None)"

fun demo_md_size :: "md_type_t \<Rightarrow> nat" where
  "demo_md_size MDTYPE_NONE = 0"
| "demo_md_size MDTYPE_SHA1 = 20"
| "demo_md_size MDTYPE_SHA256 = 32"
| "demo_md_size MDTYPE_SHA512 = 64"

definition demo_otp :: otp_lib where
  "demo_otp = \<lparr> ol_parse_url = demo_parse_url, ol_md_setup = (\<lambda>md. True), ol_md_size = demo_md_size,
     ol_md_hmac = (\<lambda>md key msg. Some (take (demo_md_size md) (msg @ replicate 64 7))), ol_key_from_seed = (\<lambda>seed label. Some (replicate 33 9)) \<rparr>"

lemma demo_otp_ok: "url_ok (ol_parse_url demo_otp)" "md_ok demo_otp" "otp_keys_ok demo_otp" "fresh_mem (\<lambda>n. replicate n 0)"
proof -
  have "length demo_uri = 28" "length demo_uri_no_path = 26" "length demo_hotp_uri = 38" by (simp_all add: demo_uri_def demo_uri_no_path_def demo_hotp_uri_def)
  then show "url_ok (ol_parse_url demo_otp)" by (auto simp: url_ok_def demo_otp_def demo_parse_url_def Let_def split: if_splits)
  have le: "demo_md_size md \<le> 64" for md by (cases md) simp_all
  have "min (length msg) (demo_md_size md) + min (demo_md_size md - length msg) 64 = demo_md_size md" for msg :: bytes and md
    using le [of md] by (auto simp: min_def)
  then show "md_ok demo_otp" by (auto simp: md_ok_def demo_otp_def)
qed (simp_all add: otp_keys_ok_def demo_otp_def fresh_mem_def)

text \<open>Contexts for the two kinds of code, as parsed from their URIs.\<close>

definition demo_totp_ctx :: otpauth_ctx_t where
  "demo_totp_ctx = the (the (otp_uri_to_ctx demo_otp (str ''a'') demo_uri))"

definition demo_hotp_ctx :: otpauth_ctx_t where
  "demo_hotp_ctx = the (the (otp_uri_to_ctx demo_otp (str ''a'') demo_hotp_uri))"

lemma demo_ctx:
  "otp_is_valid demo_totp_ctx = Some True" "oc_otp_type demo_totp_ctx = OTPTYPE_TOTP" "oc_digits demo_totp_ctx = 6" "oc_period demo_totp_ctx = 30"
  "otp_is_valid demo_hotp_ctx = Some True" "oc_otp_type demo_hotp_ctx = OTPTYPE_HOTP" "oc_name demo_hotp_ctx = str ''a''"
  by code_simp+

theorem otp_uri_to_ctx_aborts_iff_witness:
  "otp_uri_to_ctx demo_otp (str ''a'') demo_uri_no_path = None \<and> otp_uri_to_ctx demo_otp (str ''a'') demo_uri \<noteq> None"
proof
  have l: "length demo_uri_no_path < 2 ^ 64" by (simp add: demo_uri_no_path_def)
  let ?u = "\<lparr> uf_schema = Some (0, 7), uf_host = Some (10, 4), uf_port = None, uf_path = None, uf_query = Some (15, 11), uf_fragment = None \<rparr>"
  have "ol_parse_url demo_otp demo_uri_no_path = Some ?u" by code_simp
  moreover have f: "field_text demo_uri_no_path (Some (0, 7)) = str ''otpauth''" "field_text demo_uri_no_path (Some (10, 4)) = str ''totp''"
      "field_text demo_uri_no_path (Some (15, 11)) = str ''secret=AAAA''" by code_simp+
  have "get_query_argument (str ''secret=AAAA'') (str ''secret'') = Some (str ''AAAA'')" "otp_moving_factor (str ''totp'') (str ''secret=AAAA'') = Some (OTPTYPE_TOTP, 0, 30)"
      "otp_digits (get_query_argument (str ''secret=AAAA'') (str ''digits'')) = Some 6"
      "otp_algorithm (get_query_argument (str ''secret=AAAA'') (str ''algorithm'')) = Some MDTYPE_SHA1" by code_simp+
  then have "otp_uri_parts demo_uri_no_path ?u" using f by (simp add: otp_uri_parts_def Let_def del: str_Cons) simp
  ultimately have "\<exists>u. ol_parse_url demo_otp demo_uri_no_path = Some u \<and> uf_path u = None \<and> otp_uri_parts demo_uri_no_path u" by (intro exI [of _ ?u]) simp
  then show "otp_uri_to_ctx demo_otp (str ''a'') demo_uri_no_path = None" using otp_uri_to_ctx_aborts_iff [OF demo_otp_ok(1) l] by blast
  show "otp_uri_to_ctx demo_otp (str ''a'') demo_uri \<noteq> None" by code_simp
qed

lemma demo_prepared:
  obtains key where "prepare_md_ctx demo_otp demo_totp_ctx = Some (Some key)"
proof -
  have "map_option (\<lambda>p. p \<noteq> None) (prepare_md_ctx demo_otp demo_totp_ctx) = Some True" by code_simp
  then show thesis using that by auto
qed

theorem otp_code_is_rfc4226_witness:
  "\<exists>token. otp_get_auth_code demo_otp (\<lambda>n. replicate n 0) demo_totp_ctx 12 = Some (Some token) \<and> length token = 6"
proof -
  obtain key where k: "prepare_md_ctx demo_otp demo_totp_ctx = Some (Some key)" by (rule demo_prepared)
  have h: "ol_md_hmac demo_otp md key' msg = Some (take (demo_md_size md) (msg @ replicate 64 7))" for md key' msg by (simp add: demo_otp_def)
  have "unat (oc_digits demo_totp_ctx) < 12" using demo_ctx(3) by simp
  from otp_code_is_rfc4226 [OF demo_ctx(1) demo_otp_ok(2,4) this] k h demo_ctx(3) show ?thesis by (auto split: option.splits)
qed

theorem totp_counter_right_iff_witness:
  "\<exists>ctx'. otp_set_default_value demo_env True 1700000000 demo_totp_ctx demo_nvs = Some (OTP_ERR_OK, ctx', Some 1700000000, demo_nvs) \<and>
     unat (oc_counter ctx') = 1700000000 div 30"
  using totp_counter_right_iff [OF demo_ctx(1,2), of 1700000000 demo_env demo_nvs] demo_ctx(4) by (auto simp: MIN_ALLOWED_CURRENT_TIMESTAMP_def)

theorem hotp_counters_never_repeat_witness:
  "\<exists>cs st'. hotp_requests demo_env demo_hotp_ctx 3 demo_nvs = Some (cs, st') \<and> sorted_wrt (<) cs"
proof -
  have "hotp_value (oc_name demo_hotp_ctx) demo_nvs = 0" by code_simp
  then show ?thesis using hotp_counters_never_repeat [OF demo_nvs_ok demo_ctx(5,6), of 3] by auto
qed

end
