(* ===== verification/Otp_Migrate.thy ===== *)
theory Otp_Migrate
  imports Otpauth "HOL-Library.Multiset"
begin

text \<open>
  The import of one-time password records from another authenticator, \<open>otp_migrate_uri_to_ctx\<close> in
  \<open>main/otpauth.c\<close>: an \<open>otpauth-migration://\<close> URI carries a protocol buffer with several records, and each becomes an
  \<open>otpauth://\<close> URI.

  The base64 decoder of libwally and the protocol buffer decoder are parameters: \<open>pb_decode\<close> gives the messages
  in their order, each with the fields that are handed to a callback, in the order in which they come, and the
  scalar fields. A URI under construction is its text without the NUL; its buffer has \<open>OTP_MAX_URI_LEN\<close> bytes.
\<close>

section \<open>Data\<close>

datatype pb_callback = Secret_Field bytes | Name_Field bytes | Issuer_Field bytes

record otp_parameters =
  pm_fields :: "pb_callback list"
  pm_algorithm :: nat
  pm_digits :: nat
  pm_type :: nat
  pm_counter :: int
  pm_well_formed :: bool

definition OTP_TYPE_HOTP :: nat where "OTP_TYPE_HOTP = 1"
definition OTP_TYPE_TOTP :: nat where "OTP_TYPE_TOTP = 2"
definition ALGORITHM_SHA1 :: nat where "ALGORITHM_SHA1 = 1"
definition ALGORITHM_SHA256 :: nat where "ALGORITHM_SHA256 = 2"
definition ALGORITHM_SHA512 :: nat where "ALGORITHM_SHA512 = 3"
definition ALGORITHM_MD5 :: nat where "ALGORITHM_MD5 = 4"
definition DIGIT_COUNT_SIX :: nat where "DIGIT_COUNT_SIX = 1"
definition DIGIT_COUNT_EIGHT :: nat where "DIGIT_COUNT_EIGHT = 2"

lemmas pb_consts = OTP_TYPE_HOTP_def OTP_TYPE_TOTP_def ALGORITHM_SHA1_def ALGORITHM_SHA256_def ALGORITHM_SHA512_def ALGORITHM_MD5_def
  DIGIT_COUNT_SIX_def DIGIT_COUNT_EIGHT_def

definition OTP_SCHEMA_FULL :: bytes where "OTP_SCHEMA_FULL = str ''otpauth://''"
definition OTP_MIGRATE_SCHEMA :: bytes where "OTP_MIGRATE_SCHEMA = str ''otpauth-migration''"
definition OTP_MIGRATE_HOST :: bytes where "OTP_MIGRATE_HOST = str ''offline''"
definition OTP_MIGRATE_SCHEMA_OFFSET :: nat where "OTP_MIGRATE_SCHEMA_OFFSET = 8"
definition OTP_MIGRATE_PB_FIELD_LEN :: nat where "OTP_MIGRATE_PB_FIELD_LEN = 64"

record otp_migrate_decode_str_ctx_t =
  sc_uri_out :: bytes
  sc_name_encoded :: bytes
  sc_has_name :: bool
  sc_name_has_colon :: bool
  sc_issuer_encoded :: bytes
  sc_has_issuer :: bool

section \<open>From the URI to the message\<close>

text \<open>A result other than \<open>WALLY_OK\<close> of the base64 decoder is an abort.\<close>

definition otp_migrate_url_to_data ::
  "otp_lib \<Rightarrow> (bytes \<Rightarrow> bytes option) \<Rightarrow> (nat \<Rightarrow> bytes) \<Rightarrow> bytes \<Rightarrow> bytes option option" where
  "otp_migrate_url_to_data ol base64 fresh uri =
     (let uri = (if take (length OTP_MIGRATE_SCHEMA) uri = OTP_MIGRATE_SCHEMA then drop OTP_MIGRATE_SCHEMA_OFFSET uri else uri) in
      case ol_parse_url ol uri of None \<Rightarrow> Some None | Some u \<Rightarrow>
        if field_text uri (uf_schema u) \<noteq> drop OTP_MIGRATE_SCHEMA_OFFSET OTP_MIGRATE_SCHEMA then Some None
        else if uf_schema u = None \<or> uf_host u = None \<or> uf_query u = None then Some None
        else if uf_port u \<noteq> None \<or> uf_fragment u \<noteq> None then Some None
        else if field_text uri (uf_host u) \<noteq> OTP_MIGRATE_HOST then Some None
        else case get_query_argument (field_text uri (uf_query u)) (str ''data'') of None \<Rightarrow> Some None | Some data_param \<Rightarrow>
          if data_param = [] then Some None
          else do {
            (ok, data_b64) \<leftarrow> urldecode data_param (fresh (length data_param + 1)) (length data_param + 1);
            if \<not> ok then Some None
            else do {
              data_b64 \<leftarrow> data_b64;
              data \<leftarrow> base64 (takeWhile (\<lambda>c. c \<noteq> 0) data_b64);
              Some (Some data) } })"

section \<open>From the message to URIs\<close>

text \<open>The text after the first \<open>prefix_len\<close> characters makes room for \<open>value\<close>.\<close>

definition otp_uri_insert :: "bytes \<Rightarrow> bytes \<Rightarrow> bytes \<Rightarrow> bytes option option" where
  "otp_uri_insert uri prefix value =
     (if length uri + length value \<ge> OTP_MAX_URI_LEN then Some None
      else if length prefix > length uri then None
      else Some (Some (take (length prefix) uri @ value @ drop (length prefix) uri)))"

definition pb_read_stream :: "bytes \<Rightarrow> nat \<Rightarrow> bytes" where
  "pb_read_stream content buf_len = (if length content > buf_len then [] else content)"

definition append_uri_param :: "bytes \<Rightarrow> bytes \<Rightarrow> bytes \<Rightarrow> bool \<Rightarrow> bytes option" where
  "append_uri_param uri key value first_param =
     (let param = (if first_param then chr CHR ''?'' else chr CHR ''&'') # key @ chr CHR ''='' # value in
      if length param \<ge> OTP_MAX_URI_LEN - length uri then None else Some (uri @ param))"

definition decode_secret_fn :: "bytes \<Rightarrow> otp_migrate_decode_str_ctx_t \<Rightarrow> otp_migrate_decode_str_ctx_t option option" where
  "decode_secret_fn content ctx =
     (let buf = pb_read_stream content 32 in
      if buf = [] then Some None
      else do {
        base32 \<leftarrow> bin_to_base32 buf 64 False;
        Some (case base32 of None \<Rightarrow> None | Some base32 \<Rightarrow>
          (case append_uri_param (sc_uri_out ctx) (str ''secret'') base32 True of
             None \<Rightarrow> None | Some uri \<Rightarrow> Some (ctx\<lparr>sc_uri_out := uri\<rparr>))) })"

text \<open>\<open>encode_field\<close> is the call of \<open>urlencode\<close> into one of the two arrays.\<close>

definition encode_field :: "bytes \<Rightarrow> bytes option option" where
  "encode_field buf = do {
     (ok, dest) \<leftarrow> urlencode buf (replicate (OTP_MIGRATE_PB_FIELD_LEN * 3 + 1) 0) (OTP_MIGRATE_PB_FIELD_LEN * 3 + 1);
     Some (if ok then Some (takeWhile (\<lambda>c. c \<noteq> 0) dest) else None) }"

definition decode_name_fn :: "bytes \<Rightarrow> otp_migrate_decode_str_ctx_t \<Rightarrow> otp_migrate_decode_str_ctx_t option option" where
  "decode_name_fn content ctx =
     (let buf = pb_read_stream content (OTP_MIGRATE_PB_FIELD_LEN - 1) in
      if buf = [] then Some None
      else do {
        encoded \<leftarrow> encode_field buf;
        Some (case encoded of None \<Rightarrow> None | Some encoded \<Rightarrow>
          Some (ctx\<lparr>sc_name_has_colon := memchr (chr CHR '':'') buf \<noteq> None, sc_name_encoded := encoded, sc_has_name := True\<rparr>)) })"

definition decode_issuer_fn :: "bytes \<Rightarrow> otp_migrate_decode_str_ctx_t \<Rightarrow> otp_migrate_decode_str_ctx_t option option" where
  "decode_issuer_fn content ctx =
     (let buf = pb_read_stream content (OTP_MIGRATE_PB_FIELD_LEN - 1) in
      if buf = [] then Some None
      else do {
        encoded \<leftarrow> encode_field buf;
        Some (case encoded of None \<Rightarrow> None | Some encoded \<Rightarrow> Some (ctx\<lparr>sc_issuer_encoded := encoded, sc_has_issuer := True\<rparr>)) })"

fun decode_field :: "pb_callback \<Rightarrow> otp_migrate_decode_str_ctx_t \<Rightarrow> otp_migrate_decode_str_ctx_t option option" where
  "decode_field (Secret_Field content) ctx = decode_secret_fn content ctx"
| "decode_field (Name_Field content) ctx = decode_name_fn content ctx"
| "decode_field (Issuer_Field content) ctx = decode_issuer_fn content ctx"

text \<open>\<open>pb_decode\<close> calls back for each field and stops at the first callback that fails.\<close>

fun decode_fields :: "pb_callback list \<Rightarrow> otp_migrate_decode_str_ctx_t \<Rightarrow> otp_migrate_decode_str_ctx_t option option" where
  "decode_fields [] ctx = Some (Some ctx)"
| "decode_fields (f # fs) ctx = do {
     r \<leftarrow> decode_field f ctx;
     case r of None \<Rightarrow> Some None | Some ctx \<Rightarrow> decode_fields fs ctx }"

definition insert_names :: "otp_migrate_decode_str_ctx_t \<Rightarrow> bytes option option" where
  "insert_names ctx = do {
     named \<leftarrow> (if sc_has_name ctx then otp_uri_insert (sc_uri_out ctx) OTP_SCHEMA_FULL (sc_name_encoded ctx) else Some (Some (sc_uri_out ctx)));
     case named of None \<Rightarrow> Some None | Some uri \<Rightarrow>
       if \<not> sc_has_issuer ctx then Some (Some uri)
       else do {
         prefixed \<leftarrow> (if sc_name_has_colon ctx then Some (Some uri)
           else do {
             colon \<leftarrow> otp_uri_insert uri OTP_SCHEMA_FULL (str '':'');
             case colon of None \<Rightarrow> Some None | Some uri \<Rightarrow> otp_uri_insert uri OTP_SCHEMA_FULL (sc_issuer_encoded ctx) });
         Some (case prefixed of None \<Rightarrow> None | Some uri \<Rightarrow> append_uri_param uri (str ''issuer'') (sc_issuer_encoded ctx) False) } }"

definition insert_type :: "nat \<Rightarrow> bytes \<Rightarrow> bytes option option" where
  "insert_type type uri =
     (if type = OTP_TYPE_HOTP then otp_uri_insert uri OTP_SCHEMA_FULL (str ''hotp/'')
      else if type = OTP_TYPE_TOTP then otp_uri_insert uri OTP_SCHEMA_FULL (str ''totp/'')
      else Some None)"

definition add_algorithm :: "nat \<Rightarrow> bytes \<Rightarrow> bytes option" where
  "add_algorithm algorithm uri =
     (if algorithm = ALGORITHM_SHA1 then Some uri
      else if algorithm = ALGORITHM_SHA256 then append_uri_param uri (str ''algorithm'') (str ''SHA256'') False
      else if algorithm = ALGORITHM_SHA512 then append_uri_param uri (str ''algorithm'') (str ''SHA512'') False
      else if algorithm = ALGORITHM_MD5 then append_uri_param uri (str ''algorithm'') (str ''MD5'') False
      else None)"

definition add_digits :: "nat \<Rightarrow> bytes \<Rightarrow> bytes option" where
  "add_digits digits uri =
     (if digits = DIGIT_COUNT_SIX then Some uri
      else if digits = DIGIT_COUNT_EIGHT then append_uri_param uri (str ''digits'') (str ''8'') False
      else None)"

definition add_counter :: "nat \<Rightarrow> int \<Rightarrow> bytes \<Rightarrow> bytes option option" where
  "add_counter type counter uri =
     (if type = OTP_TYPE_HOTP \<and> counter > 0 then do {
        let counter_str = decimal (nat counter);
        jade_assert (length counter_str < 21);
        Some (append_uri_param uri (str ''counter'') counter_str False) }
      else Some (Some uri))"

text \<open>One record; \<open>uris\<close> are the URIs of the records before.\<close>

definition decode_otp_parameters_fn :: "nat \<Rightarrow> otp_parameters \<Rightarrow> bytes list \<Rightarrow> bytes list option option" where
  "decode_otp_parameters_fn uris_out_len message uris =
     (if length uris = uris_out_len then Some None
      else do {
        decoded \<leftarrow> decode_fields (pm_fields message) \<lparr> sc_uri_out = OTP_SCHEMA_FULL, sc_name_encoded = [], sc_has_name = False,
          sc_name_has_colon = False, sc_issuer_encoded = [], sc_has_issuer = False \<rparr>;
        case decoded of None \<Rightarrow> Some None | Some ctx \<Rightarrow>
          if \<not> pm_well_formed message then Some None
          else do {
            named \<leftarrow> insert_names ctx;
            case named of None \<Rightarrow> Some None | Some uri \<Rightarrow> do {
              typed \<leftarrow> insert_type (pm_type message) uri;
              case typed of None \<Rightarrow> Some None | Some uri \<Rightarrow>
                (case add_algorithm (pm_algorithm message) uri of None \<Rightarrow> Some None | Some uri \<Rightarrow>
                  (case add_digits (pm_digits message) uri of None \<Rightarrow> Some None | Some uri \<Rightarrow> do {
                    counted \<leftarrow> add_counter (pm_type message) (pm_counter message) uri;
                    Some (case counted of None \<Rightarrow> None | Some uri \<Rightarrow> Some (uris @ [uri])) })) } } })"

fun decode_messages :: "nat \<Rightarrow> otp_parameters list \<Rightarrow> bytes list \<Rightarrow> bytes list option option" where
  "decode_messages uris_out_len [] uris = Some (Some uris)"
| "decode_messages uris_out_len (m # ms) uris = do {
     r \<leftarrow> decode_otp_parameters_fn uris_out_len m uris;
     case r of None \<Rightarrow> Some None | Some uris \<Rightarrow> decode_messages uris_out_len ms uris }"

definition otp_migrate_uri_to_ctx ::
  "otp_lib \<Rightarrow> (bytes \<Rightarrow> bytes option) \<Rightarrow> (bytes \<Rightarrow> otp_parameters list \<times> bool) \<Rightarrow> (nat \<Rightarrow> bytes) \<Rightarrow> bytes \<Rightarrow> nat \<Rightarrow> bytes list option option" where
  "otp_migrate_uri_to_ctx ol base64 pb_decode fresh uri max_uris = do {
     jade_assert (uri \<noteq> []);
     jade_assert (max_uris \<noteq> 0);
     data \<leftarrow> otp_migrate_url_to_data ol base64 fresh uri;
     case data of None \<Rightarrow> Some None | Some data \<Rightarrow>
       (case pb_decode data of (messages, well_formed) \<Rightarrow> do {
          r \<leftarrow> decode_messages max_uris messages [];
          Some (case r of None \<Rightarrow> None | Some uris \<Rightarrow> if well_formed then Some uris else None) }) }"

section \<open>The URI of a record\<close>

definition fit :: "bytes \<Rightarrow> bytes option" where
  "fit uri = (if length uri < OTP_MAX_URI_LEN then Some uri else None)"

lemma fit_bind: "length a \<le> length b \<Longrightarrow> (case fit a of None \<Rightarrow> None | Some _ \<Rightarrow> fit b) = fit b"
  by (simp add: fit_def)

lemma otp_uri_insert_eq: "otp_uri_insert (prefix @ rest) prefix v = Some (fit (prefix @ v @ rest))"
  by (auto simp: otp_uri_insert_def fit_def)

definition uri_param :: "bool \<Rightarrow> bytes \<Rightarrow> bytes \<Rightarrow> bytes" where
  "uri_param first_param key v = (if first_param then chr CHR ''?'' else chr CHR ''&'') # key @ chr CHR ''='' # v"

lemma append_uri_param_eq: "length uri < OTP_MAX_URI_LEN \<Longrightarrow> append_uri_param uri key v first_param = fit (uri @ uri_param first_param key v)"
  by (auto simp: append_uri_param_def fit_def uri_param_def Let_def)

text \<open>The fields as the code encodes them.\<close>

definition base32_text :: "bytes \<Rightarrow> bytes" where
  "base32_text s = bin_to_base32_loop s 0 0"

definition field_ok :: "pb_callback \<Rightarrow> bool" where
  "field_ok f = (case f of Secret_Field s \<Rightarrow> s \<noteq> [] \<and> length s \<le> 32 | Name_Field s \<Rightarrow> s \<noteq> [] \<and> length s < OTP_MIGRATE_PB_FIELD_LEN
     | Issuer_Field s \<Rightarrow> s \<noteq> [] \<and> length s < OTP_MIGRATE_PB_FIELD_LEN)"

fun apply_field :: "pb_callback \<Rightarrow> otp_migrate_decode_str_ctx_t \<Rightarrow> otp_migrate_decode_str_ctx_t" where
  "apply_field (Secret_Field s) ctx = ctx\<lparr>sc_uri_out := sc_uri_out ctx @ uri_param True (str ''secret'') (base32_text s)\<rparr>"
| "apply_field (Name_Field s) ctx = ctx\<lparr>sc_name_has_colon := chr CHR '':'' \<in> set s, sc_name_encoded := enc_text s, sc_has_name := True\<rparr>"
| "apply_field (Issuer_Field s) ctx = ctx\<lparr>sc_issuer_encoded := enc_text s, sc_has_issuer := True\<rparr>"

lemma enc_char_len: "length (enc_char c) \<le> 3"
  by (simp add: enc_char_def)

lemma enc_char_nul_free: "0 \<notin> set (enc_char c)"
proof (cases "c = 0")
  case True
  then show ?thesis by (simp add: enc_char_def unreserved_def isalnum_def hex_digit_def)
qed (use enc_char_not_nul in blast)

lemma enc_text_facts: "length (enc_text s) \<le> 3 * length s" "0 \<notin> set (enc_text s)"
proof (induction s)
  case (Cons c s)
  { case 1 then show ?case using Cons(1) enc_char_len [of c] by (simp add: enc_text_def) }
  { case 2 then show ?case using Cons(2) enc_char_nul_free [of c] by (simp add: enc_text_def) }
qed (simp_all add: enc_text_def)

lemma terminated_text:
  assumes "0 \<notin> set s" and "take (length s + 1) d = s @ [0]"
  shows "takeWhile (\<lambda>c. c \<noteq> 0) d = s"
proof -
  have "d = (s @ [0]) @ drop (length s + 1) d" using assms(2) append_take_drop_id [of "length s + 1" d] by simp
  then obtain r where "d = s @ 0 # r" by simp
  moreover have "\<And>c. c \<in> set s \<Longrightarrow> c \<noteq> 0" using assms(1) by auto
  ultimately show ?thesis by simp
qed

lemma encode_field_eq:
  assumes "s \<noteq> []" and "length s < OTP_MIGRATE_PB_FIELD_LEN"
  shows "encode_field s = Some (Some (enc_text s))"
proof -
  let ?n = "OTP_MIGRATE_PB_FIELD_LEN * 3 + 1"
  obtain ok out where u: "urlencode_loop ?n s (replicate ?n 0) 0 = Some (ok, out)" "ok \<longleftrightarrow> length (enc_text s) < ?n"
      "ok \<longrightarrow> take (length (enc_text s) + 1) out = enc_text s @ [0]"
    using urlencode_loop_eq [of ?n "replicate ?n 0" 0 s] by auto
  have ok using u(2) enc_text_facts(1) [of s] assms(2) by simp
  then have "takeWhile (\<lambda>c. c \<noteq> 0) out = enc_text s" using u(3) by (intro terminated_text [OF enc_text_facts(2)]) simp
  then show ?thesis using u(1) \<open>ok\<close> assms(1) by (simp add: encode_field_def urlencode_def)
qed

lemma length_base32_text: "length (base32_text s) = (length s * 8 + 4) div 5"
  by (simp add: base32_text_def bin_to_base32_loop_length)

lemma decode_field_eq:
  assumes "field_ok f" and "length (sc_uri_out ctx) + 60 < OTP_MAX_URI_LEN"
  shows "decode_field f ctx = Some (Some (apply_field f ctx))"
proof (cases f)
  case (Secret_Field s)
  have s: "s \<noteq> []" "length s \<le> 32" using assms(1) Secret_Field by (simp_all add: field_ok_def)
  have l: "length (base32_text s) \<le> 52" using s(2) by (simp add: length_base32_text)
  have "bin_to_base32 s 64 False = Some (Some (base32_text s))" using s l by (simp add: bin_to_base32_def base32_text_def length_base32_text [unfolded base32_text_def])
  moreover have "append_uri_param (sc_uri_out ctx) (str ''secret'') (base32_text s) True = Some (sc_uri_out ctx @ uri_param True (str ''secret'') (base32_text s))"
    using assms(2) l by (subst append_uri_param_eq) (simp_all add: fit_def uri_param_def)
  ultimately show ?thesis using Secret_Field s by (simp add: decode_secret_fn_def pb_read_stream_def del: str_Cons)
next
  case (Name_Field s)
  then show ?thesis
    using assms(1) encode_field_eq [of s] by (auto simp: field_ok_def decode_name_fn_def pb_read_stream_def memchr_None)
next
  case (Issuer_Field s)
  then show ?thesis
    using assms(1) encode_field_eq [of s] by (auto simp: field_ok_def decode_issuer_fn_def pb_read_stream_def)
qed

definition secret_count :: "pb_callback list \<Rightarrow> nat" where
  "secret_count fs = length (filter (\<lambda>f. \<exists>s. f = Secret_Field s) fs)"

lemma length_secret_param: "length s \<le> 32 \<Longrightarrow> length (uri_param True (str ''secret'') (base32_text s)) \<le> 60"
  by (simp add: uri_param_def length_base32_text)

lemma decode_fields_eq:
  assumes "list_all field_ok fs" and "length (sc_uri_out ctx) + 60 * secret_count fs < 136"
  shows "decode_fields fs ctx = Some (Some (fold apply_field fs ctx))"
  using assms
proof (induction fs arbitrary: ctx)
  case (Cons f fs)
  have l: "length (sc_uri_out ctx) + 60 < OTP_MAX_URI_LEN" using Cons.prems(2) by (simp add: OTP_MAX_URI_LEN_def)
  have "length (sc_uri_out (apply_field f ctx)) + 60 * secret_count fs \<le> length (sc_uri_out ctx) + 60 * secret_count (f # fs)"
  proof (cases f)
    case (Secret_Field s)
    then have "length s \<le> 32" using Cons.prems(1) by (simp add: field_ok_def)
    from length_secret_param [OF this] show ?thesis using Secret_Field by (simp add: secret_count_def)
  qed (simp_all add: secret_count_def)
  then have "decode_fields fs (apply_field f ctx) = Some (Some (fold apply_field fs (apply_field f ctx)))"
    using Cons.prems by (intro Cons.IH) simp_all
  then show ?case using decode_field_eq [of f ctx] Cons.prems(1) l by simp
qed simp

text \<open>Fields of different kinds may come in any order.\<close>

fun field_kind :: "pb_callback \<Rightarrow> nat" where
  "field_kind (Secret_Field s) = 0"
| "field_kind (Name_Field s) = 1"
| "field_kind (Issuer_Field s) = 2"

lemma apply_field_commute: "field_kind f \<noteq> field_kind g \<Longrightarrow> apply_field f \<circ> apply_field g = apply_field g \<circ> apply_field f"
  by (cases f; cases g) (simp_all add: fun_eq_iff)

lemma fold_any_order:
  assumes "mset fs = mset gs" and "distinct (map field_kind gs)"
  shows "fold apply_field fs = fold apply_field gs"
proof (rule fold_multiset_equiv)
  have "distinct (map field_kind fs)" using assms by (metis mset_eq_imp_distinct_iff mset_map)
  then have "inj_on field_kind (set fs)" by (simp add: distinct_map)
  then show "apply_field x \<circ> apply_field y = apply_field y \<circ> apply_field x" if "x \<in> set fs" "y \<in> set fs" for x y
    using apply_field_commute [of x y] that by (cases "field_kind x = field_kind y") (auto dest: inj_onD)
qed (rule assms(1))

text \<open>The URI that a record stands for.\<close>

definition more_params :: "(bytes \<times> bytes) list \<Rightarrow> bytes" where
  "more_params kvs = concat (map (\<lambda>(k, v). uri_param False k v) kvs)"

lemma more_params_simps [simp]: "more_params [] = []" "more_params (kv # kvs) = uri_param False (fst kv) (snd kv) @ more_params kvs"
  "more_params (kvs @ lvs) = more_params kvs @ more_params lvs"
  by (simp_all add: more_params_def split_beta)

lemma query_text_Cons: "query_text ((k, v) # kvs) = k @ chr CHR ''='' # v @ more_params kvs"
  by (induction kvs arbitrary: k v) (auto simp: uri_param_def)

definition label_text :: "bytes option \<Rightarrow> bytes option \<Rightarrow> bytes" where
  "label_text name issuer =
     (case issuer of None \<Rightarrow> [] | Some i \<Rightarrow> if (\<exists>n. name = Some n \<and> chr CHR '':'' \<in> set n) then [] else enc_text i @ [chr CHR '':'']) @
     (case name of None \<Rightarrow> [] | Some n \<Rightarrow> enc_text n)"

definition type_text :: "nat \<Rightarrow> bytes" where
  "type_text type = (if type = OTP_TYPE_HOTP then str ''hotp'' else str ''totp'')"

definition issuer_params :: "bytes option \<Rightarrow> (bytes \<times> bytes) list" where
  "issuer_params issuer = (case issuer of None \<Rightarrow> [] | Some i \<Rightarrow> [(str ''issuer'', enc_text i)])"

definition algorithm_params :: "nat \<Rightarrow> (bytes \<times> bytes) list" where
  "algorithm_params a = (if a = ALGORITHM_SHA1 then [] else
     [(str ''algorithm'', if a = ALGORITHM_SHA256 then str ''SHA256'' else if a = ALGORITHM_SHA512 then str ''SHA512'' else str ''MD5'')])"

definition digits_params :: "nat \<Rightarrow> (bytes \<times> bytes) list" where
  "digits_params d = (if d = DIGIT_COUNT_SIX then [] else [(str ''digits'', str ''8'')])"

definition counter_params :: "nat \<Rightarrow> int \<Rightarrow> (bytes \<times> bytes) list" where
  "counter_params type counter = (if type = OTP_TYPE_HOTP \<and> 0 < counter then [(str ''counter'', decimal (nat counter))] else [])"

definition record_params :: "otp_parameters \<Rightarrow> bytes \<Rightarrow> bytes option \<Rightarrow> (bytes \<times> bytes) list" where
  "record_params m secret issuer = (str ''secret'', base32_text secret) # issuer_params issuer @ algorithm_params (pm_algorithm m) @
     digits_params (pm_digits m) @ counter_params (pm_type m) (pm_counter m)"

definition record_uri :: "otp_parameters \<Rightarrow> bytes \<Rightarrow> bytes option \<Rightarrow> bytes option \<Rightarrow> bytes" where
  "record_uri m secret name issuer =
     OTP_SCHEMA_FULL @ type_text (pm_type m) @ chr CHR ''/'' # label_text name issuer @ chr CHR ''?'' # query_text (record_params m secret issuer)"

lemma fit_step:
  assumes "length a \<le> length b" and "length a < OTP_MAX_URI_LEN \<Longrightarrow> f a = Some (fit b)"
  shows "(case fit a of None \<Rightarrow> Some None | Some uri \<Rightarrow> f uri) = Some (fit b)"
  using assms by (simp add: fit_def)

lemma insert_names_eq:
  assumes uri: "sc_uri_out ctx = OTP_SCHEMA_FULL @ rest" and short: "length (sc_uri_out ctx) < OTP_MAX_URI_LEN"
    and name: "sc_has_name ctx = (name \<noteq> None)" "sc_name_encoded ctx = (case name of None \<Rightarrow> [] | Some n \<Rightarrow> enc_text n)"
      "sc_name_has_colon ctx = (\<exists>n. name = Some n \<and> chr CHR '':'' \<in> set n)"
    and issuer: "sc_has_issuer ctx = (issuer \<noteq> None)" "sc_issuer_encoded ctx = (case issuer of None \<Rightarrow> [] | Some i \<Rightarrow> enc_text i)"
  shows "insert_names ctx = Some (fit (OTP_SCHEMA_FULL @ label_text name issuer @ rest @ more_params (issuer_params issuer)))"
proof -
  let ?n = "case name of None \<Rightarrow> [] | Some n \<Rightarrow> enc_text n" and ?S = OTP_SCHEMA_FULL
  have named: "(if sc_has_name ctx then otp_uri_insert (sc_uri_out ctx) ?S (sc_name_encoded ctx) else Some (Some (sc_uri_out ctx))) = Some (fit (?S @ ?n @ rest))"
    using short uri name(1,2) by (auto simp: otp_uri_insert_eq fit_def)
  show ?thesis
  proof (cases issuer)
    case None
    then show ?thesis unfolding insert_names_def named
      using issuer(1) by (simp add: label_text_def issuer_params_def split: option.split)
  next
    case (Some i)
    let ?l = "label_text name issuer"
    let ?u = "?S @ ?l @ rest"
    have p: "append_uri_param u (str ''issuer'') (enc_text i) False = fit (u @ more_params (issuer_params issuer))" if "length u < OTP_MAX_URI_LEN" for u
      using append_uri_param_eq [OF that] Some by (simp add: issuer_params_def)
    have l: "length (?S @ ?n @ rest) \<le> length ?u" by (simp add: label_text_def)
    have pre: "(if sc_name_has_colon ctx then Some (Some u)
        else do { colon \<leftarrow> otp_uri_insert u ?S (str '':''); case colon of None \<Rightarrow> Some None | Some uri \<Rightarrow> otp_uri_insert uri ?S (enc_text i) }) = Some (fit ?u)"
      if u: "u = ?S @ ?n @ rest" "length u < OTP_MAX_URI_LEN" for u
    proof (cases "sc_name_has_colon ctx")
      case True
      then show ?thesis using u name(3) Some by (auto simp: label_text_def fit_def)
    next
      case False
      have "?l = enc_text i @ chr CHR '':'' # ?n" using False name(3) Some by (auto simp: label_text_def)
      then have "(case fit (?S @ chr CHR '':'' # ?n @ rest) of None \<Rightarrow> Some None | Some uri \<Rightarrow> otp_uri_insert uri ?S (enc_text i)) = Some (fit ?u)"
        by (intro fit_step) (simp_all add: otp_uri_insert_eq)
      then show ?thesis using False u(1) by (simp add: otp_uri_insert_eq)
    qed
    have ie: "sc_issuer_encoded ctx = enc_text i" and ih: "sc_has_issuer ctx = True" using issuer Some by simp_all
    have "insert_names ctx = (case fit (?S @ ?n @ rest) of None \<Rightarrow> Some None | Some uri \<Rightarrow> do {
        prefixed \<leftarrow> (if sc_name_has_colon ctx then Some (Some uri)
          else do { colon \<leftarrow> otp_uri_insert uri ?S (str '':''); case colon of None \<Rightarrow> Some None | Some uri \<Rightarrow> otp_uri_insert uri ?S (enc_text i) });
        Some (case prefixed of None \<Rightarrow> None | Some uri \<Rightarrow> append_uri_param uri (str ''issuer'') (enc_text i) False) })"
      unfolding insert_names_def named ie by (simp only: bind.bind_lunit ih not_True_eq_False if_False)
    also have "\<dots> = Some (fit (?u @ more_params (issuer_params issuer)))"
    proof (rule fit_step)
      assume "length (?S @ ?n @ rest) < OTP_MAX_URI_LEN"
      from pre [OF refl this] show "(do { prefixed \<leftarrow> (if sc_name_has_colon ctx then Some (Some (?S @ ?n @ rest))
          else do { colon \<leftarrow> otp_uri_insert (?S @ ?n @ rest) ?S (str '':''); case colon of None \<Rightarrow> Some None | Some uri \<Rightarrow> otp_uri_insert uri ?S (enc_text i) });
        Some (case prefixed of None \<Rightarrow> None | Some uri \<Rightarrow> append_uri_param uri (str ''issuer'') (enc_text i) False) }) = Some (fit (?u @ more_params (issuer_params issuer)))"
        using p [of ?u] by (simp only: bind.bind_lunit) (simp add: fit_def)
    qed (use l in simp)
    finally show ?thesis by simp
  qed
qed

lemma fit_map_step:
  assumes "length a \<le> length b" and "length a < OTP_MAX_URI_LEN \<Longrightarrow> f a = Some (map_option g (fit b))"
  shows "(case fit a of None \<Rightarrow> Some None | Some uri \<Rightarrow> f uri) = Some (map_option g (fit b))"
  using assms by (simp add: fit_def)

lemma insert_type_eq:
  "t = OTP_TYPE_HOTP \<or> t = OTP_TYPE_TOTP \<Longrightarrow> insert_type t (OTP_SCHEMA_FULL @ r) = Some (fit (OTP_SCHEMA_FULL @ type_text t @ chr CHR ''/'' # r))"
  by (auto simp: insert_type_def type_text_def otp_uri_insert_eq pb_consts)

lemma add_params_eq:
  assumes "length u < OTP_MAX_URI_LEN"
  shows "a \<in> {ALGORITHM_SHA1, ALGORITHM_SHA256, ALGORITHM_SHA512, ALGORITHM_MD5} \<Longrightarrow> add_algorithm a u = fit (u @ more_params (algorithm_params a))"
    and "d \<in> {DIGIT_COUNT_SIX, DIGIT_COUNT_EIGHT} \<Longrightarrow> add_digits d u = fit (u @ more_params (digits_params d))"
    and "c < 2 ^ 63 \<Longrightarrow> add_counter t c u = Some (fit (u @ more_params (counter_params t c)))"
proof -
  note a = append_uri_param_eq [OF assms]
  have f: "fit u = Some u" using assms by (simp add: fit_def)
  show "a \<in> {ALGORITHM_SHA1, ALGORITHM_SHA256, ALGORITHM_SHA512, ALGORITHM_MD5} \<Longrightarrow> add_algorithm a u = fit (u @ more_params (algorithm_params a))"
    by (auto simp: add_algorithm_def algorithm_params_def a f pb_consts)
  show "d \<in> {DIGIT_COUNT_SIX, DIGIT_COUNT_EIGHT} \<Longrightarrow> add_digits d u = fit (u @ more_params (digits_params d))"
    by (auto simp: add_digits_def digits_params_def a f pb_consts)
  assume "c < 2 ^ 63"
  then have "nat c < 10 ^ 20" by (simp add: nat_less_iff)
  then have "length (decimal (nat c)) < 21" using length_decimal [of "nat c" 20] by simp
  then show "add_counter t c u = Some (fit (u @ more_params (counter_params t c)))"
    by (auto simp: add_counter_def counter_params_def a f Let_def)
qed

text \<open>What a record must contain: a secret, and perhaps a name and an issuer, in any order, of lengths that the buffers hold,
  and scalars that the code supports.\<close>

definition record_of :: "otp_parameters \<Rightarrow> bytes \<Rightarrow> bytes option \<Rightarrow> bytes option \<Rightarrow> bool" where
  "record_of m secret name issuer \<longleftrightarrow>
     mset (pm_fields m) = mset (Secret_Field secret # map Name_Field (case name of None \<Rightarrow> [] | Some n \<Rightarrow> [n]) @ map Issuer_Field (case issuer of None \<Rightarrow> [] | Some i \<Rightarrow> [i])) \<and>
     list_all field_ok (pm_fields m) \<and> pm_well_formed m \<and> (pm_type m = OTP_TYPE_HOTP \<or> pm_type m = OTP_TYPE_TOTP) \<and>
     pm_algorithm m \<in> {ALGORITHM_SHA1, ALGORITHM_SHA256, ALGORITHM_SHA512, ALGORITHM_MD5} \<and> pm_digits m \<in> {DIGIT_COUNT_SIX, DIGIT_COUNT_EIGHT} \<and>
     pm_counter m < 2 ^ 63"

lemma record_fields:
  assumes "record_of m secret name issuer" and "sc_uri_out ctx = OTP_SCHEMA_FULL"
  shows "decode_fields (pm_fields m) ctx = Some (Some (fold apply_field (Secret_Field secret # map Name_Field (case name of None \<Rightarrow> [] | Some n \<Rightarrow> [n]) @
    map Issuer_Field (case issuer of None \<Rightarrow> [] | Some i \<Rightarrow> [i])) ctx))"
proof -
  let ?fs = "Secret_Field secret # map Name_Field (case name of None \<Rightarrow> [] | Some n \<Rightarrow> [n]) @ map Issuer_Field (case issuer of None \<Rightarrow> [] | Some i \<Rightarrow> [i])"
  have m: "mset (pm_fields m) = mset ?fs" "list_all field_ok (pm_fields m)" using assms(1) by (simp_all add: record_of_def)
  have "secret_count (pm_fields m) = secret_count ?fs"
    unfolding secret_count_def by (simp only: size_mset [symmetric] mset_filter m(1))
  then have "secret_count (pm_fields m) = 1" by (simp add: secret_count_def split: option.split)
  then have "decode_fields (pm_fields m) ctx = Some (Some (fold apply_field (pm_fields m) ctx))"
    using assms(2) m(2) by (intro decode_fields_eq) (simp_all add: OTP_SCHEMA_FULL_def)
  moreover have "distinct (map field_kind ?fs)" by (simp split: option.split)
  ultimately show ?thesis using fold_any_order [OF m(1)] by simp
qed

lemma record_uri_more:
  "record_uri m secret name issuer = OTP_SCHEMA_FULL @ type_text (pm_type m) @ chr CHR ''/'' # label_text name issuer @ uri_param True (str ''secret'') (base32_text secret) @
     more_params (issuer_params issuer) @ more_params (algorithm_params (pm_algorithm m)) @ more_params (digits_params (pm_digits m)) @
     more_params (counter_params (pm_type m) (pm_counter m))"
  by (simp add: record_uri_def record_params_def query_text_Cons uri_param_def)

lemma decode_otp_parameters_eq:
  assumes r: "record_of m secret name issuer" and free: "length uris < uris_out_len"
  shows "decode_otp_parameters_fn uris_out_len m uris = Some (map_option (\<lambda>uri. uris @ [uri]) (fit (record_uri m secret name issuer)))"
proof -
  let ?S = OTP_SCHEMA_FULL and ?t = "pm_type m" and ?sec = "uri_param True (str ''secret'') (base32_text secret)"
  let ?c0 = "\<lparr> sc_uri_out = ?S, sc_name_encoded = [], sc_has_name = False, sc_name_has_colon = False, sc_issuer_encoded = [], sc_has_issuer = False \<rparr>"
  let ?fs = "Secret_Field secret # map Name_Field (case name of None \<Rightarrow> [] | Some n \<Rightarrow> [n]) @ map Issuer_Field (case issuer of None \<Rightarrow> [] | Some i \<Rightarrow> [i])"
  define ctx where "ctx = fold apply_field ?fs ?c0"
  have dec: "decode_fields (pm_fields m) ?c0 = Some (Some ctx)" unfolding ctx_def using record_fields [OF r, of ?c0] by simp
  have "field_ok (Secret_Field secret)" using r unfolding record_of_def list_all_iff by (metis list.set_intros(1) set_mset_mset)
  then have "length ?sec \<le> 60" by (intro length_secret_param) (simp add: field_ok_def)
  then have short: "length (?S @ ?sec) < OTP_MAX_URI_LEN" by (simp add: OTP_SCHEMA_FULL_def OTP_MAX_URI_LEN_def)
  have names: "insert_names ctx = Some (fit (?S @ label_text name issuer @ ?sec @ more_params (issuer_params issuer)))"
    using short unfolding ctx_def by (intro insert_names_eq) (simp_all split: option.split)
  let ?u1 = "?S @ label_text name issuer @ ?sec @ more_params (issuer_params issuer)"
  let ?u2 = "?S @ type_text ?t @ chr CHR ''/'' # label_text name issuer @ ?sec @ more_params (issuer_params issuer)"
  let ?u3 = "?u2 @ more_params (algorithm_params (pm_algorithm m))"
  let ?u4 = "?u3 @ more_params (digits_params (pm_digits m))"
  let ?u5 = "?u4 @ more_params (counter_params ?t (pm_counter m))"
  have u5: "record_uri m secret name issuer = ?u5" by (simp add: record_uri_more)
  have s: "?t = OTP_TYPE_HOTP \<or> ?t = OTP_TYPE_TOTP" "pm_algorithm m \<in> {ALGORITHM_SHA1, ALGORITHM_SHA256, ALGORITHM_SHA512, ALGORITHM_MD5}"
    "pm_digits m \<in> {DIGIT_COUNT_SIX, DIGIT_COUNT_EIGHT}" "pm_counter m < 2 ^ 63" "pm_well_formed m" using r unfolding record_of_def by blast+
  have le: "length ?u1 \<le> length ?u2" "length ?u2 \<le> length ?u3" "length ?u3 \<le> length ?u4" "length ?u4 \<le> length ?u5" by simp_all
  have t: "insert_type ?t ?u1 = Some (fit ?u2)" using insert_type_eq [OF s(1)] by blast
  let ?g = "\<lambda>uri. uris @ [uri]"
  have "decode_otp_parameters_fn uris_out_len m uris = (case fit ?u1 of None \<Rightarrow> Some None | Some uri \<Rightarrow> do {
      typed \<leftarrow> insert_type ?t uri;
      case typed of None \<Rightarrow> Some None | Some uri \<Rightarrow>
        (case add_algorithm (pm_algorithm m) uri of None \<Rightarrow> Some None | Some uri \<Rightarrow>
          (case add_digits (pm_digits m) uri of None \<Rightarrow> Some None | Some uri \<Rightarrow> do {
            counted \<leftarrow> add_counter ?t (pm_counter m) uri;
            Some (case counted of None \<Rightarrow> None | Some uri \<Rightarrow> Some (uris @ [uri])) })) })"
    using free s(5) unfolding decode_otp_parameters_fn_def dec by (simp only: bind.bind_lunit option.case names if_False not_True_eq_False) simp
  also have "\<dots> = Some (map_option ?g (fit ?u5))"
  proof (rule fit_map_step, goal_cases)
    case 2
    show ?case unfolding t bind.bind_lunit
    proof (rule fit_map_step, goal_cases)
      case l2: 2
      show ?case unfolding add_params_eq(1) [OF l2 s(2)]
      proof (rule fit_map_step, goal_cases)
        case l3: 2
        show ?case unfolding add_params_eq(2) [OF l3 s(3)]
        proof (rule fit_map_step, goal_cases)
          case l4: 2
          show ?case unfolding add_params_eq(3) [OF l4 s(4)] bind.bind_lunit by (simp add: map_option_case)
        qed (use le in simp)
      qed (use le in simp)
    qed (use le in simp)
  qed (use le in simp)
  finally show ?thesis unfolding u5 .
qed

section \<open>Reading the URI back\<close>

lemma find_append: "find P (xs @ ys) = (case find P xs of None \<Rightarrow> find P ys | Some x \<Rightarrow> Some x)"
  by (induction xs) auto

lemma other_keys: "\<not> same_key (str ''secret'') (str ''issuer'')" "\<not> same_key (str ''secret'') (str ''digits'')" "\<not> same_key (str ''secret'') (str ''algorithm'')"
  "\<not> same_key (str ''secret'') (str ''counter'')" "\<not> same_key (str ''secret'') (str ''period'')"
  "\<not> same_key (str ''issuer'') (str ''digits'')" "\<not> same_key (str ''issuer'') (str ''algorithm'')" "\<not> same_key (str ''issuer'') (str ''counter'')"
  "\<not> same_key (str ''issuer'') (str ''period'')" "\<not> same_key (str ''algorithm'') (str ''issuer'')" "\<not> same_key (str ''algorithm'') (str ''digits'')"
  "\<not> same_key (str ''algorithm'') (str ''counter'')" "\<not> same_key (str ''algorithm'') (str ''period'')" "\<not> same_key (str ''digits'') (str ''issuer'')"
  "\<not> same_key (str ''digits'') (str ''algorithm'')" "\<not> same_key (str ''digits'') (str ''counter'')" "\<not> same_key (str ''digits'') (str ''period'')"
  "\<not> same_key (str ''counter'') (str ''issuer'')" "\<not> same_key (str ''counter'') (str ''digits'')" "\<not> same_key (str ''counter'') (str ''algorithm'')"
  "\<not> same_key (str ''counter'') (str ''period'')"
  by code_simp+

lemma same_key_refl: "same_key k k"
  by (simp add: same_key_def)

lemma find_params:
  "find (\<lambda>(k, v). same_key k (str ''issuer'')) (issuer_params i) = map_option (\<lambda>i. (str ''issuer'', enc_text i)) i"
  "key \<in> {str ''digits'', str ''algorithm'', str ''counter'', str ''period''} \<Longrightarrow> find (\<lambda>(k, v). same_key k key) (issuer_params i) = None"
  "find (\<lambda>(k, v). same_key k (str ''algorithm'')) (algorithm_params a) = (case algorithm_params a of [] \<Rightarrow> None | kv # _ \<Rightarrow> Some kv)"
  "key \<in> {str ''issuer'', str ''digits'', str ''counter'', str ''period''} \<Longrightarrow> find (\<lambda>(k, v). same_key k key) (algorithm_params a) = None"
  "find (\<lambda>(k, v). same_key k (str ''digits'')) (digits_params d) = (case digits_params d of [] \<Rightarrow> None | kv # _ \<Rightarrow> Some kv)"
  "key \<in> {str ''issuer'', str ''algorithm'', str ''counter'', str ''period''} \<Longrightarrow> find (\<lambda>(k, v). same_key k key) (digits_params d) = None"
  "find (\<lambda>(k, v). same_key k (str ''counter'')) (counter_params t c) = (case counter_params t c of [] \<Rightarrow> None | kv # _ \<Rightarrow> Some kv)"
  "key \<in> {str ''issuer'', str ''algorithm'', str ''digits'', str ''period''} \<Longrightarrow> find (\<lambda>(k, v). same_key k key) (counter_params t c) = None"
  using other_keys by (auto simp: issuer_params_def algorithm_params_def digits_params_def counter_params_def same_key_refl simp del: str_Cons split: option.split)

text \<open>Characters that the exporter writes.\<close>

definition url_char :: "byte \<Rightarrow> bool" where
  "url_char c \<longleftrightarrow> unreserved c \<or> c = 37 \<or> c = 43 \<or> c = 58"

lemma hex_digit_alnum: "n < 16 \<Longrightarrow> isalnum (hex_digit n)"
  using hex_digit_facts(1) [of n] by (auto simp: isxdigit_def isalnum_def intro: order_trans)

lemma enc_text_chars: "list_all url_char (enc_text s)"
proof -
  have "list_all url_char (enc_char c)" for c
    using hex_digit_alnum [OF byte_nibbles(1)] hex_digit_alnum [OF byte_nibbles(2)] by (simp add: enc_char_def url_char_def unreserved_def)
  then show ?thesis by (induction s) (simp_all add: enc_text_def)
qed

lemma base32_text_chars: "list_all url_char (base32_text s)"
proof -
  have a: "list_all url_char b32_alphabet" by code_simp
  obtain ds where "base32_text s = map b32_char ds" "\<forall>d\<in>set ds. d < 32"
    unfolding base32_text_def using bin_to_base32_loop_stream [of 0 s 0] by auto
  moreover have "url_char (b32_char d)" if "d < 32" for d
    using a that by (simp add: list_all_length word_less_nat_alt)
  ultimately show ?thesis by (auto simp: list_all_iff)
qed

lemma decimal_url_chars: "list_all url_char (decimal n)"
  using decimal_is_digit [of n] by (auto simp: list_all_iff url_char_def unreserved_def isalnum_def is_digit_def chr_def)

lemma url_char_special: "\<not> url_char 0" "\<not> url_char (chr CHR ''&'')" "\<not> url_char (chr CHR ''='')" "\<not> url_char (chr CHR ''?'')" "\<not> url_char (chr CHR ''#'')"
  by code_simp+

lemma record_params_ok: "query_ok (record_params m secret issuer)"
proof -
  have amp: "chr CHR ''&'' \<notin> set v" if "list_all url_char v" for v
    using that url_char_special(2) by (auto simp: list_all_iff)
  have t: "list_all url_char (str ''SHA256'')" "list_all url_char (str ''SHA512'')" "list_all url_char (str ''MD5'')" "list_all url_char (str ''8'')" by code_simp+
  have k: "list_all (\<lambda>k. chr CHR ''='' \<notin> set k \<and> 0 \<notin> set k) [str ''secret'', str ''issuer'', str ''algorithm'', str ''digits'', str ''counter'']" by code_simp
  show ?thesis
    using k amp [OF enc_text_chars] amp [OF base32_text_chars] amp [OF decimal_url_chars] amp [OF t(1)] amp [OF t(2)] amp [OF t(3)] amp [OF t(4)]
    by (simp add: query_ok_def record_params_def issuer_params_def algorithm_params_def digits_params_def counter_params_def split: option.split del: str_Cons)
qed

lemma record_query:
  fixes m secret issuer
  defines "q \<equiv> query_text (record_params m secret issuer)"
  shows "get_query_argument q (str ''secret'') = Some (base32_text secret)"
    and "get_query_argument q (str ''issuer'') = map_option enc_text issuer"
    and "get_query_argument q (str ''digits'') = (case digits_params (pm_digits m) of [] \<Rightarrow> None | kv # _ \<Rightarrow> Some (snd kv))"
    and "get_query_argument q (str ''algorithm'') = (case algorithm_params (pm_algorithm m) of [] \<Rightarrow> None | kv # _ \<Rightarrow> Some (snd kv))"
    and "get_query_argument q (str ''counter'') = (case counter_params (pm_type m) (pm_counter m) of [] \<Rightarrow> None | kv # _ \<Rightarrow> Some (snd kv))"
    and "get_query_argument q (str ''period'') = None"
  unfolding q_def get_query_argument_eq [OF record_params_ok] unfolding record_params_def
  by (simp_all add: find_append find_params other_keys same_key_refl option.map_comp comp_def split: option.split list.split del: str_Cons)

lemma query_chars: "list_all (\<lambda>c. url_char c \<or> c = chr CHR ''='' \<or> c = chr CHR ''&'') (query_text (record_params m secret issuer))"
proof -
  have p: "list_all (\<lambda>c. url_char c \<or> c = chr CHR ''='' \<or> c = chr CHR ''&'') (uri_param False k v)" if "list_all url_char k" "list_all url_char v" for k v
    using that by (auto simp: uri_param_def list_all_iff)
  have t: "list_all url_char (str ''SHA256'')" "list_all url_char (str ''SHA512'')" "list_all url_char (str ''MD5'')" "list_all url_char (str ''8'')" "list_all url_char (str ''secret'')"
     "list_all url_char (str ''issuer'')" "list_all url_char (str ''algorithm'')" "list_all url_char (str ''digits'')" "list_all url_char (str ''counter'')" by code_simp+
  have "list_all (\<lambda>c. url_char c \<or> c = chr CHR ''='' \<or> c = chr CHR ''&'') (str ''secret'' @ chr CHR ''='' # base32_text secret)"
    using t(5) base32_text_chars [of secret] by (auto simp: list_all_iff simp del: str_Cons)
  then show ?thesis
    unfolding record_params_def query_text_Cons
    by (simp add: issuer_params_def algorithm_params_def digits_params_def counter_params_def p t enc_text_chars decimal_url_chars split: option.split del: str_Cons)
qed

lemma label_chars: "list_all url_char (label_text name issuer)"
proof -
  have "url_char (chr CHR '':'')" by code_simp
  then show ?thesis by (simp add: label_text_def enc_text_chars split: option.split)
qed

text \<open>A text made of pieces that decode to one character each is valid when these are.\<close>

lemma urldecode_loop_pieces:
  assumes "\<forall>(t, c)\<in>set ts. t \<noteq> [] \<and> hd t \<noteq> 0 \<and> (\<forall>rest. decode_char (t @ rest) = Some (Some (c, rest)))" and "n + length ts < dest_len"
  shows "urldecode_loop f dest_len (concat (map fst ts)) None n = Some (list_all (\<lambda>(t, c). printable c \<and> f c) ts, None)"
  using assms
proof (induction ts arbitrary: n)
  case Nil
  then show ?case by (simp add: urldecode_loop.simps put_char_def)
next
  case (Cons tc ts)
  obtain t c where tc: "tc = (t, c)" by (cases tc)
  have t: "t \<noteq> []" "hd t \<noteq> 0" "decode_char (t @ concat (map fst ts)) = Some (Some (c, concat (map fst ts)))" using Cons.prems(1) tc by auto
  have ih: "urldecode_loop f dest_len (concat (map fst ts)) None (n + 1) = Some (list_all (\<lambda>(t, c). printable c \<and> f c) ts, None)"
    using Cons by (intro Cons.IH) auto
  show ?case using t ih Cons.prems(2) tc
    by (subst urldecode_loop.simps) (auto simp: put_char_def printable_def not_less not_le)
qed

lemma enc_text_pieces: "enc_text s = concat (map fst (map (\<lambda>c. (enc_char c, c)) s))"
  by (simp add: enc_text_def comp_def)

lemma enc_char_piece: "enc_char c \<noteq> []" "hd (enc_char c) \<noteq> 0"
proof -
  show n: "enc_char c \<noteq> []" by (simp add: enc_char_def)
  show "hd (enc_char c) \<noteq> 0" using enc_char_nul_free [of c] n by (metis hd_in_set)
qed

lemma isprint_printable: "isprint = printable"
  by (simp add: fun_eq_iff isprint_def printable_def)

lemma encoded_valid:
  assumes "s \<noteq> []" and "length s < OTP_MAX_LABEL_LEN"
  shows "is_valid_urlencoding (Some (enc_text s)) OTP_MAX_LABEL_LEN isprint = Some (list_all printable s)"
proof -
  have "enc_text s \<noteq> []" using assms(1) enc_char_piece by (cases s) (simp_all add: enc_text_def)
  moreover have "urldecode_loop isprint OTP_MAX_LABEL_LEN (enc_text s) None 0 = Some (list_all (\<lambda>(t, c). printable c \<and> isprint c) (map (\<lambda>c. (enc_char c, c)) s), None)"
    unfolding enc_text_pieces by (rule urldecode_loop_pieces) (use assms(2) enc_char_piece decode_enc_char in auto)
  ultimately show ?thesis by (simp add: is_valid_urlencoding_def try_urldecode_def OTP_MAX_LABEL_LEN_def isprint_printable list_all_iff)
qed

definition all_printable :: "bytes option \<Rightarrow> bool" where
  "all_printable s = (case s of None \<Rightarrow> True | Some t \<Rightarrow> list_all printable t)"

definition label_pieces :: "bytes option \<Rightarrow> bytes option \<Rightarrow> (bytes \<times> byte) list" where
  "label_pieces name issuer =
     (case issuer of None \<Rightarrow> [] | Some i \<Rightarrow> if (\<exists>n. name = Some n \<and> chr CHR '':'' \<in> set n) then [] else map (\<lambda>c. (enc_char c, c)) i @ [([chr CHR '':''], chr CHR '':'')]) @
     (case name of None \<Rightarrow> [] | Some n \<Rightarrow> map (\<lambda>c. (enc_char c, c)) n)"

lemma label_text_pieces: "label_text name issuer = concat (map fst (label_pieces name issuer))"
  by (auto simp: label_text_def label_pieces_def enc_text_def comp_def split: option.split)

lemma label_valid:
  assumes "label_text name issuer \<noteq> []" and "\<forall>s. name = Some s \<or> issuer = Some s \<longrightarrow> length s < OTP_MIGRATE_PB_FIELD_LEN"
  shows "is_valid_urlencoding (Some (label_text name issuer)) OTP_MAX_LABEL_LEN isprint =
    Some (all_printable name \<and> (all_printable issuer \<or> (\<exists>n. name = Some n \<and> chr CHR '':'' \<in> set n)))"
proof -
  let ?ts = "label_pieces name issuer"
  have "length ?ts < OTP_MAX_LABEL_LEN"
    using assms(2) [rule_format, of "the name"] assms(2) [rule_format, of "the issuer"]
    by (cases name; cases issuer) (auto simp: label_pieces_def OTP_MAX_LABEL_LEN_def OTP_MIGRATE_PB_FIELD_LEN_def)
  moreover have "decode_char ([chr CHR '':''] @ rest) = Some (Some (chr CHR '':'', rest))" for rest by (simp add: decode_char_def chr_def)
  then have "\<forall>(t, c)\<in>set ?ts. t \<noteq> [] \<and> hd t \<noteq> 0 \<and> (\<forall>rest. decode_char (t @ rest) = Some (Some (c, rest)))"
    using enc_char_piece decode_enc_char by (auto simp: label_pieces_def chr_def split: option.splits if_splits)
  ultimately have "urldecode_loop isprint OTP_MAX_LABEL_LEN (label_text name issuer) None 0 = Some (list_all (\<lambda>(t, c). printable c \<and> isprint c) ?ts, None)"
    unfolding label_text_pieces by (intro urldecode_loop_pieces) simp_all
  moreover have "printable (chr CHR '':'')" by code_simp
  then have "list_all (\<lambda>(t, c). printable c \<and> isprint c) ?ts \<longleftrightarrow> all_printable name \<and> (all_printable issuer \<or> (\<exists>n. name = Some n \<and> chr CHR '':'' \<in> set n))"
    by (auto simp: label_pieces_def isprint_printable all_printable_def list_all_iff split: option.splits)
  ultimately show ?thesis using assms(1) by (simp add: is_valid_urlencoding_def try_urldecode_def OTP_MAX_LABEL_LEN_def)
qed

text \<open>The URL parser on an URI of this shape: scheme, host, path and query are where they stand.\<close>

definition url_syntax :: "(bytes \<Rightarrow> http_url option) \<Rightarrow> bool" where
  "url_syntax parse_url \<longleftrightarrow> (\<forall>host path query. host \<noteq> [] \<and> list_all isalnum host \<and> list_all url_char path \<and> query \<noteq> [] \<and>
     list_all (\<lambda>c. url_char c \<or> c = chr CHR ''='' \<or> c = chr CHR ''&'') query \<and> length host + length path + length query < OTP_MAX_URI_LEN \<longrightarrow>
     parse_url (OTP_SCHEMA_FULL @ host @ chr CHR ''/'' # path @ chr CHR ''?'' # query) =
       Some \<lparr> uf_schema = Some (0, 7), uf_host = Some (10, length host), uf_port = None, uf_path = Some (10 + length host, length path + 1),
         uf_query = Some (length host + length path + 12, length query), uf_fragment = None \<rparr>)"

definition type_of :: "otp_parameters \<Rightarrow> otp_type_t" where
  "type_of m = (if pm_type m = OTP_TYPE_HOTP then OTPTYPE_HOTP else OTPTYPE_TOTP)"

definition md_of :: "otp_parameters \<Rightarrow> md_type_t" where
  "md_of m = (if pm_algorithm m = ALGORITHM_SHA1 then MDTYPE_SHA1 else if pm_algorithm m = ALGORITHM_SHA256 then MDTYPE_SHA256 else MDTYPE_SHA512)"

definition record_ctx :: "bytes \<Rightarrow> otp_parameters \<Rightarrow> bytes \<Rightarrow> bytes option \<Rightarrow> bytes option \<Rightarrow> otpauth_ctx_t" where
  "record_ctx n m secret name issuer =
     \<lparr> oc_counter = (if pm_type m = OTP_TYPE_HOTP then of_nat (nat (pm_counter m)) else 0), oc_md_type = md_of m, oc_otp_type = type_of m, oc_name = n,
       oc_type = type_text (pm_type m), oc_label = label_text name issuer @ chr CHR ''?'' # query_text (record_params m secret issuer),
       oc_secret = base32_text secret, oc_issuer = (case issuer of None \<Rightarrow> [] | Some i \<Rightarrow> enc_text i), oc_label_len = of_nat (length (label_text name issuer)),
       oc_digits = (if pm_digits m = DIGIT_COUNT_SIX then 6 else 8), oc_period = (if pm_type m = OTP_TYPE_HOTP then 0 else 30) \<rparr>"

lemma record_fields_short:
  assumes "record_of m secret name issuer"
  shows "name = Some s \<or> issuer = Some s \<Longrightarrow> s \<noteq> [] \<and> length s < OTP_MIGRATE_PB_FIELD_LEN" and "secret \<noteq> []" and "length secret \<le> 32"
proof -
  have "set (pm_fields m) = set (Secret_Field secret # map Name_Field (case name of None \<Rightarrow> [] | Some n \<Rightarrow> [n]) @ map Issuer_Field (case issuer of None \<Rightarrow> [] | Some i \<Rightarrow> [i]))"
    using assms unfolding record_of_def by (intro mset_eq_setD) blast
  moreover have "\<forall>f\<in>set (pm_fields m). field_ok f" using assms by (simp add: record_of_def list_all_iff)
  ultimately have f: "\<forall>f\<in>set (Secret_Field secret # map Name_Field (case name of None \<Rightarrow> [] | Some n \<Rightarrow> [n]) @ map Issuer_Field (case issuer of None \<Rightarrow> [] | Some i \<Rightarrow> [i])). field_ok f"
    by simp
  then show "name = Some s \<or> issuer = Some s \<Longrightarrow> s \<noteq> [] \<and> length s < OTP_MIGRATE_PB_FIELD_LEN" and "secret \<noteq> []" and "length secret \<le> 32"
    by (auto simp: field_ok_def)
qed

lemma record_ctx_valid:
  assumes r: "record_of m secret name issuer" and short: "length (label_text name issuer) < 256"
  shows "otp_is_valid (record_ctx n m secret name issuer) = Some (all_printable name \<and> all_printable issuer)"
proof -
  let ?c = "record_ctx n m secret name issuer" and ?l = "label_text name issuer"
  have b32: "base32_text secret \<noteq> []" using length_base32_text [of secret] record_fields_short(2) [OF r] by (cases secret) auto
  have "type_text (pm_type m) \<noteq> []" by (simp add: type_text_def)
  then have f: "fields_ok ?c" using b32 by (simp add: fields_ok_def record_ctx_def type_of_def md_of_def)
  have ll: "unat (of_nat (length ?l) :: u64) = length ?l" using short by (simp add: unat_of_nat take_bit_eq_mod)
  have z: "?l = []" if "(of_nat (length ?l) :: u64) = 0"
  proof -
    have "length ?l = 0" using ll unfolding that by (simp only: unat_0)
    then show ?thesis by simp
  qed
  have s: "sized (oc_label ?c) (oc_label_len ?c) = Some ?l" using ll by (simp add: sized_def record_ctx_def)
  have lab: "(if oc_label_len ?c = 0 then Some True else do { label \<leftarrow> sized (oc_label ?c) (oc_label_len ?c); is_valid_urlencoding (Some label) OTP_MAX_LABEL_LEN isprint }) =
      Some (all_printable name \<and> (all_printable issuer \<or> (\<exists>n. name = Some n \<and> chr CHR '':'' \<in> set n)))"
  proof (cases "?l = []")
    case True
    have "enc_text t \<noteq> []" if "t \<noteq> []" for t using that enc_char_piece by (cases t) (simp_all add: enc_text_def)
    then have "name = None \<and> issuer = None"
      using True record_fields_short(1) [OF r] by (auto simp: label_text_def split: option.splits if_splits)
    then show ?thesis using True by (simp add: record_ctx_def all_printable_def)
  next
    case False
    then have "oc_label_len ?c \<noteq> 0" using z by (auto simp: record_ctx_def)
    then show ?thesis using s label_valid [OF False] record_fields_short(1) [OF r] by simp
  qed
  show ?thesis
  proof (cases issuer)
    case None
    then show ?thesis unfolding otp_is_valid_eq texts_ok_def lab using f by (simp add: record_ctx_def all_printable_def)
  next
    case (Some i)
    have i: "i \<noteq> []" "length i < OTP_MAX_LABEL_LEN" using record_fields_short(1) [OF r, of i] Some by (auto simp: OTP_MIGRATE_PB_FIELD_LEN_def OTP_MAX_LABEL_LEN_def)
    have "enc_text i \<noteq> []" using i(1) enc_char_piece by (cases i) (simp_all add: enc_text_def)
    then show ?thesis unfolding otp_is_valid_eq texts_ok_def lab using f Some encoded_valid [OF i] by (auto simp: record_ctx_def all_printable_def)
  qed
qed

text \<open>What the reader accepts of what the exporter writes.\<close>

definition readable :: "otp_parameters \<Rightarrow> bool" where
  "readable m \<longleftrightarrow> pm_algorithm m \<noteq> ALGORITHM_MD5 \<and> (pm_type m = OTP_TYPE_HOTP \<longrightarrow> 0 < pm_counter m)"

definition record_url :: "otp_parameters \<Rightarrow> bytes \<Rightarrow> bytes option \<Rightarrow> bytes option \<Rightarrow> http_url" where
  "record_url m secret name issuer = \<lparr> uf_schema = Some (0, 7), uf_host = Some (10, 4), uf_port = None, uf_path = Some (14, length (label_text name issuer) + 1),
     uf_query = Some (length (label_text name issuer) + 16, length (query_text (record_params m secret issuer))), uf_fragment = None \<rparr>"

lemma length_type_text [simp]: "length (type_text t) = 4"
  by (simp add: type_text_def)

lemma record_url_parsed:
  assumes "url_syntax parse_url" and "length (record_uri m secret name issuer) < OTP_MAX_URI_LEN"
  shows "parse_url (record_uri m secret name issuer) = Some (record_url m secret name issuer)"
proof -
  have "list_all isalnum (str ''hotp'')" "list_all isalnum (str ''totp'')" by code_simp+
  then have h: "list_all isalnum (type_text (pm_type m))" "type_text (pm_type m) \<noteq> []" by (simp_all add: type_text_def del: str_Cons) simp_all
  have "query_text (record_params m secret issuer) \<noteq> []" by (simp add: record_params_def query_text_Cons)
  then show ?thesis
    using assms h label_chars [of name issuer] query_chars [of m secret issuer] unfolding url_syntax_def record_uri_def record_url_def
    by (auto simp: add.commute)
qed

lemma record_url_texts:
  "field_text (record_uri m secret name issuer) (uf_schema (record_url m secret name issuer)) = str ''otpauth''"
  "field_text (record_uri m secret name issuer) (uf_host (record_url m secret name issuer)) = type_text (pm_type m)"
  "field_text (record_uri m secret name issuer) (uf_query (record_url m secret name issuer)) = query_text (record_params m secret issuer)"
proof -
  define pre where "pre = OTP_SCHEMA_FULL @ type_text (pm_type m) @ chr CHR ''/'' # label_text name issuer @ [chr CHR ''?'']"
  have "record_uri m secret name issuer = pre @ query_text (record_params m secret issuer)" "length pre = length (label_text name issuer) + 16"
    by (simp_all add: record_uri_def OTP_SCHEMA_FULL_def pre_def)
  then have "drop (length (label_text name issuer) + 16) (record_uri m secret name issuer) = query_text (record_params m secret issuer)"
    by simp
  then show "field_text (record_uri m secret name issuer) (uf_query (record_url m secret name issuer)) = query_text (record_params m secret issuer)"
    by (simp add: field_text_def field_data_def record_url_def)
qed (simp_all add: field_text_def field_data_def record_uri_def record_url_def OTP_SCHEMA_FULL_def)

lemma record_parts:
  assumes "record_of m secret name issuer"
  shows "otp_digits (get_query_argument (query_text (record_params m secret issuer)) (str ''digits'')) = Some (if pm_digits m = DIGIT_COUNT_SIX then 6 else 8)"
    and "otp_algorithm (get_query_argument (query_text (record_params m secret issuer)) (str ''algorithm'')) = (if pm_algorithm m = ALGORITHM_MD5 then None else Some (md_of m))"
    and "otp_moving_factor (type_text (pm_type m)) (query_text (record_params m secret issuer)) =
      (if pm_type m = OTP_TYPE_HOTP then if 0 < pm_counter m then Some (OTPTYPE_HOTP, of_nat (nat (pm_counter m)), 0) else None else Some (OTPTYPE_TOTP, 0, 30))"
proof -
  have s: "pm_algorithm m \<in> {ALGORITHM_SHA1, ALGORITHM_SHA256, ALGORITHM_SHA512, ALGORITHM_MD5}" "pm_digits m \<in> {DIGIT_COUNT_SIX, DIGIT_COUNT_EIGHT}" "pm_counter m < 2 ^ 63"
    using assms unfolding record_of_def by blast+
  show "otp_digits (get_query_argument (query_text (record_params m secret issuer)) (str ''digits'')) = Some (if pm_digits m = DIGIT_COUNT_SIX then 6 else 8)"
    unfolding record_query using s(2) by (auto simp: digits_params_def otp_digits_def pb_consts chr_def)
  show "otp_algorithm (get_query_argument (query_text (record_params m secret issuer)) (str ''algorithm'')) = (if pm_algorithm m = ALGORITHM_MD5 then None else Some (md_of m))"
    unfolding record_query using s(1) by (auto simp: algorithm_params_def otp_algorithm_def md_of_def pb_consts chr_def)
  have "parse_uint64 (decimal (nat (pm_counter m))) = Some (of_nat (nat (pm_counter m)))"
  proof -
    have "nat (pm_counter m) < 10 ^ 20" "nat (pm_counter m) < 2 ^ 64" using s(3) by (simp_all add: nat_less_iff)
    then show ?thesis using length_decimal [of "nat (pm_counter m)" 20] decimal_is_digit by (simp add: parse_uint64_exact)
  qed
  moreover have "type_text (pm_type m) = str ''hotp'' \<longleftrightarrow> pm_type m = OTP_TYPE_HOTP" "pm_type m \<noteq> OTP_TYPE_HOTP \<Longrightarrow> type_text (pm_type m) = str ''totp''"
    by (auto simp: type_text_def chr_def)
  ultimately show "otp_moving_factor (type_text (pm_type m)) (query_text (record_params m secret issuer)) =
      (if pm_type m = OTP_TYPE_HOTP then if 0 < pm_counter m then Some (OTPTYPE_HOTP, of_nat (nat (pm_counter m)), 0) else None else Some (OTPTYPE_TOTP, 0, 30))"
    unfolding otp_moving_factor_def record_query by (auto simp: counter_params_def simp del: str_Cons)
qed

lemma record_uri_read:
  assumes p: "url_syntax (ol_parse_url ol)" and r: "record_of m secret name issuer" and short: "length (record_uri m secret name issuer) < OTP_MAX_URI_LEN"
  shows "otp_uri_to_ctx ol n (record_uri m secret name issuer) =
    Some (if readable m \<and> all_printable name \<and> all_printable issuer then Some (record_ctx n m secret name issuer) else None)"
proof -
  let ?uri = "record_uri m secret name issuer" and ?u = "record_url m secret name issuer"
  have b32: "base32_text secret \<noteq> []" using length_base32_text [of secret] record_fields_short(2) [OF r] by (cases secret) auto
  note q = record_url_texts record_parts [OF r]
  have u: "uf_schema ?u = Some (0, 7)" "uf_host ?u = Some (10, 4)" "uf_query ?u \<noteq> None" "uf_port ?u = None" "uf_fragment ?u = None"
      "uf_path ?u = Some (14, length (label_text name issuer) + 1)" by (simp_all add: record_url_def)
  have parts: "otp_uri_parts ?uri ?u \<longleftrightarrow> readable m"
    unfolding otp_uri_parts_def Let_def q record_query(1) using u b32 by (auto simp: readable_def)
  have ctx: "otp_ctx_of n ?uri ?u = record_ctx n m secret name issuer" if "readable m"
  proof -
    have "drop 15 ?uri = label_text name issuer @ chr CHR ''?'' # query_text (record_params m secret issuer)"
      by (simp add: record_uri_def OTP_SCHEMA_FULL_def)
    then show ?thesis using that unfolding otp_ctx_of_def Let_def q record_query(1,2) u(6)
      by (auto simp: record_ctx_def readable_def type_of_def field_data_def record_url_def split: option.split)
  qed
  have "length (label_text name issuer) < 256" using short by (simp add: record_uri_def OTP_MAX_URI_LEN_def)
  then show ?thesis using otp_uri_to_ctx_eq [OF record_url_parsed [OF p short], of n] parts ctx record_ctx_valid [OF r] by simp
qed

text \<open>Several records.\<close>

lemma decode_messages_eq:
  assumes "\<forall>(m, secret, name, issuer)\<in>set rs. record_of m secret name issuer \<and> length (record_uri m secret name issuer) < OTP_MAX_URI_LEN"
    and "length uris + length rs \<le> uris_out_len"
  shows "decode_messages uris_out_len (map fst rs) uris = Some (Some (uris @ map (\<lambda>(m, secret, name, issuer). record_uri m secret name issuer) rs))"
  using assms
proof (induction rs arbitrary: uris)
  case (Cons r rs)
  obtain m secret name issuer where r: "r = (m, secret, name, issuer)" by (cases r)
  have "decode_otp_parameters_fn uris_out_len m uris = Some (Some (uris @ [record_uri m secret name issuer]))"
    using Cons.prems decode_otp_parameters_eq [of m secret name issuer uris uris_out_len] by (simp add: r fit_def)
  moreover have "decode_messages uris_out_len (map fst rs) (uris @ [record_uri m secret name issuer]) =
      Some (Some ((uris @ [record_uri m secret name issuer]) @ map (\<lambda>(m, secret, name, issuer). record_uri m secret name issuer) rs))"
    using Cons.prems by (intro Cons.IH) simp_all
  ultimately show ?case by (simp add: r)
qed simp

text \<open>The label of a record: issuer and name with a colon between them; a name with a colon is taken to have an issuer already.\<close>

definition record_label :: "bytes option \<Rightarrow> bytes option \<Rightarrow> bytes" where
  "record_label name issuer = (case issuer of
     None \<Rightarrow> (case name of None \<Rightarrow> [] | Some n \<Rightarrow> n)
   | Some i \<Rightarrow> (case name of None \<Rightarrow> i @ str '':'' | Some n \<Rightarrow> if chr CHR '':'' \<in> set n then n else i @ str '':'' @ n))"

lemma record_label_pieces: "map snd (label_pieces name issuer) = record_label name issuer"
  by (cases name; cases issuer) (auto simp: label_pieces_def record_label_def comp_def)

text \<open>What it means for an URI to stand for a record: it is read back with the same secret, kind, digest, number of digits and
  counter, its issuer and its label decode to those of the record, or it is refused if the reader does not support the record.\<close>

definition stands_for :: "otp_lib \<Rightarrow> bytes \<Rightarrow> otp_parameters \<times> bytes \<times> bytes option \<times> bytes option \<Rightarrow> bytes \<Rightarrow> bool" where
  "stands_for ol n r uri = (case r of (m, secret, name, issuer) \<Rightarrow>
     if readable m \<and> all_printable name \<and> all_printable issuer then
       (\<exists>ctx. otp_uri_to_ctx ol n uri = Some (Some ctx) \<and> base32_to_bin (oc_secret ctx) SECRET_BUFSIZE = Some secret \<and> oc_otp_type ctx = type_of m \<and>
          oc_md_type ctx = md_of m \<and> oc_digits ctx = (if pm_digits m = DIGIT_COUNT_SIX then 6 else 8) \<and>
          (if pm_type m = OTP_TYPE_HOTP then int (unat (oc_counter ctx)) = pm_counter m else oc_period ctx = 30) \<and>
          (case issuer of None \<Rightarrow> oc_issuer ctx = [] | Some i \<Rightarrow> url_text (oc_issuer ctx) = Some i) \<and>
          url_text (take (unat (oc_label_len ctx)) (oc_label ctx)) = Some (record_label name issuer))
     else otp_uri_to_ctx ol n uri = Some None)"

lemma url_text_encoded:
  assumes "list_all printable s"
  shows "url_text (enc_text s) = Some s"
proof -
  have "url_text (concat (map fst (map (\<lambda>c. (enc_char c, c)) s))) = Some (map snd (map (\<lambda>c. (enc_char c, c)) s))"
    by (rule url_text_pieces) (use assms enc_char_piece decode_enc_char in \<open>auto simp: list_all_iff\<close>)
  then show ?thesis unfolding enc_text_pieces by (simp add: comp_def)
qed

lemma url_text_label:
  assumes "all_printable name" and "all_printable issuer"
  shows "url_text (label_text name issuer) = Some (record_label name issuer)"
proof -
  have "decode_char ([chr CHR '':''] @ rest) = Some (Some (chr CHR '':'', rest))" for rest by (simp add: decode_char_def chr_def)
  moreover have "printable (chr CHR '':'')" by code_simp
  ultimately have "\<forall>(t, c)\<in>set (label_pieces name issuer). t \<noteq> [] \<and> hd t \<noteq> 0 \<and> printable c \<and> (\<forall>rest. decode_char (t @ rest) = Some (Some (c, rest)))"
    using assms enc_char_piece decode_enc_char by (auto simp: label_pieces_def chr_def all_printable_def list_all_iff split: option.splits if_splits)
  from url_text_pieces [OF this] show ?thesis by (simp only: label_text_pieces record_label_pieces)
qed

lemma record_uri_stands_for:
  assumes "url_syntax (ol_parse_url ol)" and r: "record_of m secret name issuer" and "length (record_uri m secret name issuer) < OTP_MAX_URI_LEN"
  shows "stands_for ol n (m, secret, name, issuer) (record_uri m secret name issuer)"
proof -
  have "base32_to_bin (base32_text secret) SECRET_BUFSIZE = Some secret"
    using base32_decode_encode [of secret SECRET_BUFSIZE 0] record_fields_short(2,3) [OF r] by (simp add: base32_text_def SECRET_BUFSIZE_def)
  moreover have "int (unat (of_nat (nat (pm_counter m)) :: u64)) = pm_counter m" if "0 < pm_counter m"
  proof -
    have "pm_counter m < 2 ^ 63" using r by (simp add: record_of_def)
    then have "nat (pm_counter m) < 2 ^ 64" by (simp add: nat_less_iff)
    then show ?thesis using that by (simp only: unat_of_nat) (simp add: take_bit_eq_mod)
  qed
  moreover have "unat (of_nat (length (label_text name issuer)) :: u64) = length (label_text name issuer)"
    using assms(3) by (simp add: record_uri_def OTP_MAX_URI_LEN_def unat_of_nat take_bit_eq_mod)
  then have "take (unat (oc_label_len (record_ctx n m secret name issuer))) (oc_label (record_ctx n m secret name issuer)) = label_text name issuer"
    by (simp add: record_ctx_def)
  moreover have "url_text (label_text name issuer) = Some (record_label name issuer)" if "all_printable name" "all_printable issuer"
    using url_text_label that .
  moreover have "url_text (enc_text i) = Some i" if "issuer = Some i" "all_printable issuer" for i
    using url_text_encoded that by (simp add: all_printable_def)
  ultimately show ?thesis using record_uri_read [OF assms] by (cases issuer) (auto simp: stands_for_def record_ctx_def readable_def)
qed

text \<open>C21. Importing an export from another authenticator: for every list of records, with their fields in any order, whose URIs fit
  the buffers, the import returns one URI for each record in the same order, and each is read back as that record: the same
  secret, kind, digest, digits and counter, its issuer decodes to the issuer of the record, and its label to issuer and name with a colon
  between them (to the name alone when there is no issuer or the name has a colon of its own). The reader refuses exactly the records with MD5, with characters that are not
  printable, and the counter based ones whose counter is zero, because the counter is then not written.\<close>

theorem otp_migrate_roundtrip:
  assumes "url_syntax (ol_parse_url ol)"
    and "\<forall>(m, secret, name, issuer)\<in>set rs. record_of m secret name issuer \<and> length (record_uri m secret name issuer) < OTP_MAX_URI_LEN"
    and "uri \<noteq> []" and "0 < max_uris" and "length rs \<le> max_uris"
    and "otp_migrate_url_to_data ol base64 fresh uri = Some (Some data)" and "pb_decode data = (map fst rs, True)"
  shows "\<exists>uris. otp_migrate_uri_to_ctx ol base64 pb_decode fresh uri max_uris = Some (Some uris) \<and> list_all2 (stands_for ol n) rs uris"
proof -
  let ?us = "map (\<lambda>(m, secret, name, issuer). record_uri m secret name issuer) rs"
  have "decode_messages max_uris (map fst rs) [] = Some (Some ?us)" using decode_messages_eq [OF assms(2), of "[]" max_uris] assms(5) by simp
  then have "otp_migrate_uri_to_ctx ol base64 pb_decode fresh uri max_uris = Some (Some ?us)"
    using assms(3,4,6,7) by (simp add: otp_migrate_uri_to_ctx_def)
  moreover have "list_all2 (stands_for ol n) rs ?us"
    using assms(2) by (induction rs) (auto intro: record_uri_stands_for [OF assms(1)])
  ultimately show ?thesis by blast
qed

section \<open>Concrete case\<close>

definition demo_migration_uri :: bytes where
  "demo_migration_uri = str ''otpauth-migration://offline?data=AAAA''"

definition demo_url_parser :: "bytes \<Rightarrow> http_url option" where
  "demo_url_parser uri =
     (if take 10 uri = OTP_SCHEMA_FULL then
        let h = takeWhile (\<lambda>c. c \<noteq> chr CHR ''/'') (drop 10 uri);
            p = takeWhile (\<lambda>c. c \<noteq> chr CHR ''?'') (drop (11 + length h) uri) in
        Some \<lparr> uf_schema = Some (0, 7), uf_host = Some (10, length h), uf_port = None, uf_path = Some (10 + length h, length p + 1),
          uf_query = Some (length h + length p + 12, length uri - (length h + length p + 12)), uf_fragment = None \<rparr>
      else if uri = drop 8 demo_migration_uri then
        Some \<lparr> uf_schema = Some (0, 9), uf_host = Some (12, 7), uf_port = None, uf_path = None, uf_query = Some (20, 9), uf_fragment = None \<rparr>
      else None)"

lemma demo_url_parser_ok: "url_syntax demo_url_parser"
proof -
  have "demo_url_parser (OTP_SCHEMA_FULL @ host @ chr CHR ''/'' # path @ chr CHR ''?'' # query) =
      Some \<lparr> uf_schema = Some (0, 7), uf_host = Some (10, length host), uf_port = None, uf_path = Some (10 + length host, length path + 1),
         uf_query = Some (length host + length path + 12, length query), uf_fragment = None \<rparr>"
    if "list_all isalnum host" "list_all url_char path" for host path query
  proof -
    let ?uri = "OTP_SCHEMA_FULL @ host @ chr CHR ''/'' # path @ chr CHR ''?'' # query"
    have l: "length OTP_SCHEMA_FULL = 10" by (simp add: OTP_SCHEMA_FULL_def)
    have "\<not> isalnum (chr CHR ''/'')" by code_simp
    then have "\<forall>c\<in>set host. c \<noteq> chr CHR ''/''" using that(1) by (auto simp: list_all_iff)
    then have h: "takeWhile (\<lambda>c. c \<noteq> chr CHR ''/'') (drop 10 ?uri) = host" using l by simp
    have "\<forall>c\<in>set path. c \<noteq> chr CHR ''?''" using that(2) url_char_special(4) by (auto simp: list_all_iff)
    then have p: "takeWhile (\<lambda>c. c \<noteq> chr CHR ''?'') (drop (11 + length host) ?uri) = path" using l by simp
    show ?thesis using l unfolding demo_url_parser_def Let_def h p by simp
  qed
  then show ?thesis unfolding url_syntax_def by blast
qed

lemma label_text_code [code]:
  "label_text name issuer =
     (case issuer of None \<Rightarrow> [] | Some i \<Rightarrow> if (case name of None \<Rightarrow> False | Some n \<Rightarrow> chr CHR '':'' \<in> set n) then [] else enc_text i @ [chr CHR '':'']) @
     (case name of None \<Rightarrow> [] | Some n \<Rightarrow> enc_text n)"
  by (cases name; cases issuer) (simp_all add: label_text_def)

definition demo_migrate :: otp_lib where
  "demo_migrate = demo_otp\<lparr>ol_parse_url := demo_url_parser\<rparr>"

definition demo_record :: "int \<Rightarrow> otp_parameters" where
  "demo_record counter = \<lparr> pm_fields = [Issuer_Field (str ''x y''), Secret_Field [1, 2, 3], Name_Field (str ''bob'')], pm_algorithm = ALGORITHM_SHA256,
     pm_digits = DIGIT_COUNT_EIGHT, pm_type = OTP_TYPE_HOTP, pm_counter = counter, pm_well_formed = True \<rparr>"

theorem otp_migrate_roundtrip_witness:
  "\<exists>uris. otp_migrate_uri_to_ctx demo_migrate Some (\<lambda>_. ([demo_record 5, demo_record 0], True)) (\<lambda>n. replicate n 0) demo_migration_uri 8 = Some (Some uris) \<and>
     list_all2 (stands_for demo_migrate (str ''a'')) [(demo_record 5, [1, 2, 3], Some (str ''bob''), Some (str ''x y'')), (demo_record 0, [1, 2, 3], Some (str ''bob''), Some (str ''x y''))] uris"
proof -
  have r: "record_of (demo_record c) [1, 2, 3] (Some (str ''bob'')) (Some (str ''x y''))" if "c < 2 ^ 63" for c
    using that by (simp add: record_of_def demo_record_def pb_consts field_ok_def OTP_MIGRATE_PB_FIELD_LEN_def)
  have l: "length (record_uri (demo_record 5) [1, 2, 3] (Some (str ''bob'')) (Some (str ''x y''))) < OTP_MAX_URI_LEN"
    "length (record_uri (demo_record 0) [1, 2, 3] (Some (str ''bob'')) (Some (str ''x y''))) < OTP_MAX_URI_LEN" by code_simp+
  have d: "otp_migrate_url_to_data demo_migrate Some (\<lambda>n. replicate n 0) demo_migration_uri = Some (Some (str ''AAAA''))" by code_simp
  have n: "demo_migration_uri \<noteq> []" by (simp add: demo_migration_uri_def)
  show ?thesis
    by (rule otp_migrate_roundtrip [where data = "str ''AAAA''"])
      (use r l d n in \<open>simp_all add: demo_migrate_def demo_url_parser_ok del: str_Cons\<close>)
qed

end
