(* ===== verification/Otp_Register.thy ===== *)
theory Otp_Register
  imports Otp_Migrate Multisig_File
begin

text \<open>
  \<open>main/process/register_otp.c\<close>: one-time password records from the message, the keyboard or the camera to the
  storage. What the user does is given as lists of rounds at the keyboard, scanned texts and answers, so that a
  theorem for all of them is a theorem for every user; when the rounds are over before the loop has ended, the
  screen is still open. Extracting the strings of the message and drawing the screens are left out. The types of
  errors are those of \<open>Multisig_File\<close>.
\<close>

section \<open>Parameters\<close>

text \<open>The libraries and the wallet: \<open>oe_seed\<close> is the seed of the keychain, empty when there is none; \<open>oe_malloc\<close> tells whether
  the iterator of the storage can be allocated.\<close>

record ('k, 'n) otp_device =
  oe_lib :: otp_lib
  oe_wally :: "'k libwally"
  oe_env :: "'n nvs_env"
  oe_fresh :: "nat \<Rightarrow> bytes"
  oe_base64 :: "bytes \<Rightarrow> bytes option"
  oe_pb_decode :: "bytes \<Rightarrow> otp_parameters list \<times> bool"
  oe_seed :: bytes
  oe_malloc :: bool

text \<open>One round at the keyboard: whether the escape key is pending, what the typing makes of the text on the screen, and the answer
  to the question that follows.\<close>

record kb_round =
  kr_escape :: bool
  kr_entry :: "bytes \<Rightarrow> bytes"
  kr_answer :: bool

text \<open>What the user does with one record, and the initialisation vector that encrypts it.\<close>

record otp_answers =
  oa_escape :: bool
  oa_keep :: bool
  oa_rounds :: "kb_round list"
  oa_confirm :: "otpauth_ctx_t \<Rightarrow> bool"
  oa_iv :: bytes

text \<open>The keyboard may still be open when the rounds are over.\<close>

datatype kb_result = Kb_Open | Kb_Left | Kb_Done bytes
datatype 'n otp_outcome = Still_Open "'n nvs_state" | Returned rpc_result "'n nvs_state"

section \<open>Checks and storage\<close>

definition otp_readable :: "('k, 'n) otp_device \<Rightarrow> bytes \<Rightarrow> 'n nvs_state \<Rightarrow> bool option" where
  "otp_readable dev otp_name st = do {
     loaded \<leftarrow> otp_load_uri (oe_lib dev) (oe_wally dev) (oe_seed dev) (oe_env dev) otp_name st;
     case loaded of None \<Rightarrow> Some False | Some existing_uri \<Rightarrow>
       if existing_uri = [] then Some False
       else do {
         parsed \<leftarrow> otp_uri_to_ctx (oe_lib dev) otp_name existing_uri;
         case parsed of None \<Rightarrow> Some False | Some ctx \<Rightarrow> otp_is_valid ctx } }"

text \<open>The objection to a name, if any.\<close>

definition validate_otp_name :: "('k, 'n) otp_device \<Rightarrow> bytes \<Rightarrow> 'n nvs_state \<Rightarrow> bytes option option" where
  "validate_otp_name dev otp_name st =
     (if \<not> storage_key_name_valid otp_name then Some (Some (str ''OTP name invalid''))
      else do {
        exists \<leftarrow> storage_otp_exists (oe_malloc dev) otp_name st;
        if \<not> exists then
          Some (if storage_get_otp_count (oe_malloc dev) st \<ge> OTP_MAX_RECORDS then Some (str ''Already have maximum number of otp records'') else None)
        else do {
          readable \<leftarrow> otp_readable dev otp_name st;
          Some (if \<not> readable then Some (str ''Cannot read existing record'') else None) } })"

definition handle_new_otp_uri ::
  "('k, 'n) otp_device \<Rightarrow> (otpauth_ctx_t \<Rightarrow> bool) \<Rightarrow> bytes \<Rightarrow> bytes \<Rightarrow> bytes \<Rightarrow> 'n nvs_state \<Rightarrow> (rpc_result \<times> 'n nvs_state) option" where
  "handle_new_otp_uri dev confirm iv otp_name otp_uri st = do {
     jade_assert (otp_uri \<noteq> []);
     if length otp_uri \<ge> OTP_MAX_URI_LEN then Some (Some (CBOR_RPC_BAD_PARAMETERS, str ''OTP uri too long''), st)
     else do {
       objection \<leftarrow> validate_otp_name dev otp_name st;
       case objection of Some errmsg \<Rightarrow> Some (Some (CBOR_RPC_BAD_PARAMETERS, errmsg), st) | None \<Rightarrow> do {
         parsed \<leftarrow> otp_uri_to_ctx (oe_lib dev) otp_name otp_uri;
         case parsed of None \<Rightarrow> Some (Some (CBOR_RPC_BAD_PARAMETERS, str ''Failed to parse otp record''), st) | Some ctx \<Rightarrow> do {
           token \<leftarrow> otp_get_auth_code (oe_lib dev) (oe_fresh dev) ctx OTP_MAX_TOKEN_LEN;
           if token = None then Some (Some (CBOR_RPC_BAD_PARAMETERS, str ''Failed to calculate otp token''), st)
           else if \<not> confirm ctx then Some (Some (CBOR_RPC_USER_CANCELLED, str ''User declined OTP record''), st)
           else do {
             (saved, st) \<leftarrow> otp_save_uri (oe_lib dev) (oe_wally dev) (oe_fresh dev) iv (oe_seed dev) (oe_env dev) otp_name otp_uri st;
             if \<not> saved then Some (Some (CBOR_RPC_INTERNAL_ERROR, str ''Failed to persist otp details''), st)
             else if oc_otp_type ctx = OTPTYPE_HOTP then do {
               (counted, st) \<leftarrow> storage_set_otp_hotp_counter (oe_env dev) otp_name (oc_counter ctx) st;
               Some (if \<not> counted then (Some (CBOR_RPC_INTERNAL_ERROR, str ''Failed to persist otp counter''), snd (storage_erase_otp (oe_env dev) otp_name st))
                 else (None, st)) }
             else Some (None, st) } } } } }"

text \<open>\<open>otp_name\<close> and \<open>otp_uri\<close> are the strings of the message, empty when one is missing or does not fit.\<close>

definition register_otp_process ::
  "('k, 'n) otp_device \<Rightarrow> (otpauth_ctx_t \<Rightarrow> bool) \<Rightarrow> bytes \<Rightarrow> bytes \<Rightarrow> bytes \<Rightarrow> 'n nvs_state \<Rightarrow> (rpc_result \<times> 'n nvs_state) option" where
  "register_otp_process dev confirm iv otp_name otp_uri st =
     (if otp_name = [] \<or> \<not> storage_key_name_valid otp_name then Some (Some (CBOR_RPC_BAD_PARAMETERS, str ''Failed to fetch valid otp name from parameters''), st)
      else if otp_uri = [] then Some (Some (CBOR_RPC_BAD_PARAMETERS, str ''Failed to fetch otp uri from parameters''), st)
      else if oe_seed dev = [] then Some (Some (CBOR_RPC_INTERNAL_ERROR, str ''Feature requires resetting Jade''), st)
      else handle_new_otp_uri dev confirm iv otp_name otp_uri st)"

section \<open>Entry on the device\<close>

text \<open>The loop for the name: the answer discards the record when nothing was entered, and confirms a name that is valid. The text
  on the screen, \<open>strdata\<close>, is what the next round starts from.\<close>

fun kb_name_loop :: "('k, 'n) otp_device \<Rightarrow> 'n nvs_state \<Rightarrow> bytes \<Rightarrow> kb_round list \<Rightarrow> kb_result option" where
  "kb_name_loop dev st strdata [] = Some Kb_Open"
| "kb_name_loop dev st strdata (r # rs) =
     (if kr_escape r then Some Kb_Left
      else let strdata = kr_entry r strdata in
        if strdata = [] then if kr_answer r then Some Kb_Left else kb_name_loop dev st strdata rs
        else do {
          objection \<leftarrow> validate_otp_name dev strdata st;
          if objection \<noteq> None then kb_name_loop dev st strdata rs
          else if kr_answer r then Some (Kb_Done strdata)
          else kb_name_loop dev st strdata rs })"

text \<open>The loop for the URI: the answer continues after an URI that is not valid.\<close>

fun kb_uri_loop :: "('k, 'n) otp_device \<Rightarrow> bytes \<Rightarrow> bytes \<Rightarrow> kb_round list \<Rightarrow> kb_result option" where
  "kb_uri_loop dev otp_name strdata [] = Some Kb_Open"
| "kb_uri_loop dev otp_name strdata (r # rs) =
     (if kr_escape r then Some Kb_Left
      else let strdata = kr_entry r strdata in
        if strdata = [] then Some Kb_Left
        else do {
          parsed \<leftarrow> otp_uri_to_ctx (oe_lib dev) otp_name strdata;
          if parsed \<noteq> None then Some (Kb_Done strdata)
          else if \<not> kr_answer r then Some Kb_Left
          else kb_uri_loop dev otp_name strdata rs })"

text \<open>The name that the caller has filled in, if any, is on the screen at the start; an URI starts with its schema.\<close>

definition get_otp_name_from_kb :: "('k, 'n) otp_device \<Rightarrow> bytes \<Rightarrow> kb_round list \<Rightarrow> 'n nvs_state \<Rightarrow> kb_result option" where
  "get_otp_name_from_kb dev prefilled rounds st = do {
     r \<leftarrow> kb_name_loop dev st prefilled rounds;
     case r of Kb_Done otp_name \<Rightarrow> do { jade_assert (length otp_name < OTP_MAX_NAME_LEN); Some (Kb_Done otp_name) } | _ \<Rightarrow> Some r }"

definition get_otp_uri_from_kb :: "('k, 'n) otp_device \<Rightarrow> bytes \<Rightarrow> kb_round list \<Rightarrow> kb_result option" where
  "get_otp_uri_from_kb dev otp_name rounds = do {
     r \<leftarrow> kb_uri_loop dev otp_name OTP_SCHEMA_FULL rounds;
     case r of Kb_Done otp_uri \<Rightarrow> do { jade_assert (length otp_uri < OTP_MAX_URI_LEN); Some (Kb_Done otp_uri) } | _ \<Rightarrow> Some r }"

definition register_otp_kb_entry ::
  "('k, 'n) otp_device \<Rightarrow> otp_answers \<Rightarrow> kb_round list \<Rightarrow> 'n nvs_state \<Rightarrow> (bool option \<times> 'n nvs_state) option" where
  "register_otp_kb_entry dev ans uri_rounds st =
     (if oe_seed dev = [] then Some (Some False, st)
      else do {
        name \<leftarrow> get_otp_name_from_kb dev [] (oa_rounds ans) st;
        case name of Kb_Open \<Rightarrow> Some (None, st) | Kb_Left \<Rightarrow> Some (Some False, st) | Kb_Done otp_name \<Rightarrow> do {
          uri \<leftarrow> get_otp_uri_from_kb dev otp_name uri_rounds;
          case uri of Kb_Open \<Rightarrow> Some (None, st) | Kb_Left \<Rightarrow> Some (Some False, st) | Kb_Done otp_uri \<Rightarrow> do {
            (r, st) \<leftarrow> handle_new_otp_uri dev (oa_confirm ans) (oa_iv ans) otp_name otp_uri st;
            Some (Some (case r of None \<Rightarrow> True | Some (errcode, _) \<Rightarrow> errcode = CBOR_RPC_USER_CANCELLED), st) } } })"

section \<open>Scanned records\<close>

text \<open>The name that an issuer suggests; \<open>None\<close> when it cannot be decoded.\<close>

definition suggested_name :: "bytes \<Rightarrow> bytes option option" where
  "suggested_name issuer =
     (if issuer = [] then Some (Some [])
      else do {
        (ok, otp_name) \<leftarrow> urldecode issuer (replicate OTP_MAX_NAME_LEN 0) OTP_MAX_NAME_LEN;
        if \<not> ok then Some None
        else do {
          otp_name \<leftarrow> otp_name;
          otp_name \<leftarrow> storage_key_name_make_valid (takeWhile (\<lambda>c. c \<noteq> 0) otp_name);
          Some (Some otp_name) } })"

definition register_otp_string :: "('k, 'n) otp_device \<Rightarrow> otp_answers \<Rightarrow> bytes \<Rightarrow> 'n nvs_state \<Rightarrow> 'n otp_outcome option" where
  "register_otp_string dev ans otp_uri st = do {
     jade_assert (otp_uri \<noteq> []);
     if length otp_uri \<ge> OTP_MAX_URI_LEN then Some (Returned (Some (CBOR_RPC_BAD_PARAMETERS, str ''OTP uri too long'')) st)
     else do {
       parsed \<leftarrow> otp_uri_to_ctx (oe_lib dev) (str ''otp_string'') otp_uri;
       case parsed of None \<Rightarrow> Some (Returned (Some (CBOR_RPC_INTERNAL_ERROR, str ''Failed to parse otp record'')) st) | Some ctx \<Rightarrow>
         if oe_seed dev = [] then Some (Returned (Some (CBOR_RPC_INTERNAL_ERROR, str ''No wallet seed available'')) st)
         else do {
           prefill \<leftarrow> suggested_name (oc_issuer ctx);
           case prefill of None \<Rightarrow> Some (Returned (Some (CBOR_RPC_BAD_PARAMETERS, str ''Failed to decode otp issuer'')) st) | Some otp_name \<Rightarrow>
             if oa_escape ans then Some (Returned (Some (CBOR_RPC_USER_CANCELLED, str ''User declined OTP record'')) st)
             else if \<not> oa_keep ans then Some (Returned (Some (CBOR_RPC_USER_CANCELLED, str ''User declined OTP record'')) st)
             else do {
               name \<leftarrow> get_otp_name_from_kb dev otp_name (oa_rounds ans) st;
               case name of
                 Kb_Open \<Rightarrow> Some (Still_Open st)
               | Kb_Left \<Rightarrow> Some (Returned (Some (CBOR_RPC_USER_CANCELLED, str ''User abandoned entering otp name'')) st)
               | Kb_Done otp_name \<Rightarrow> do {
                   (r, st) \<leftarrow> handle_new_otp_uri dev (oa_confirm ans) (oa_iv ans) otp_name otp_uri st;
                   Some (Returned r st) } } } } }"

text \<open>One record after the other; \<open>answers i\<close> is what the user does with record \<open>i\<close>.\<close>

fun register_migrated :: "('k, 'n) otp_device \<Rightarrow> (nat \<Rightarrow> otp_answers) \<Rightarrow> nat \<Rightarrow> bytes list \<Rightarrow> 'n nvs_state \<Rightarrow> 'n otp_outcome option" where
  "register_migrated dev answers i [] st = Some (Returned None st)"
| "register_migrated dev answers i (uri # uris) st = do {
     r \<leftarrow> register_otp_string dev (answers i) uri st;
     case r of
       Still_Open st \<Rightarrow> Some (Still_Open st)
     | Returned err st \<Rightarrow>
         (case err of
            None \<Rightarrow> register_migrated dev answers (i + 1) uris st
          | Some (errcode, errmsg) \<Rightarrow>
              if errcode \<noteq> CBOR_RPC_USER_CANCELLED then Some (Returned (Some (CBOR_RPC_INTERNAL_ERROR, errmsg)) st)
              else register_migrated dev answers (i + 1) uris st) }"

definition OTP_MIGRATE_MAX_RECORDS :: nat where "OTP_MIGRATE_MAX_RECORDS = 8"

definition register_otp_migrate_string ::
  "('k, 'n) otp_device \<Rightarrow> (nat \<Rightarrow> otp_answers) \<Rightarrow> bytes \<Rightarrow> 'n nvs_state \<Rightarrow> 'n otp_outcome option" where
  "register_otp_migrate_string dev answers uri st = do {
     jade_assert (uri \<noteq> []);
     migrated \<leftarrow> otp_migrate_uri_to_ctx (oe_lib dev) (oe_base64 dev) (oe_pb_decode dev) (oe_fresh dev) uri OTP_MIGRATE_MAX_RECORDS;
     case migrated of
       None \<Rightarrow> Some (Returned (Some (CBOR_RPC_INTERNAL_ERROR, str ''Failed to parse otp migrate record'')) st)
     | Some uris \<Rightarrow> register_migrated dev answers 0 uris st }"

text \<open>Whether scanning is over, and the data; \<open>again\<close> is the answer to the question whether to go on.\<close>

definition validate_scanned_otp_uri :: "('k, 'n) otp_device \<Rightarrow> bool \<Rightarrow> bytes \<Rightarrow> (bool \<times> bytes) option" where
  "validate_scanned_otp_uri dev again qr_data = do {
     parsed \<leftarrow> (if length qr_data < OTP_MAX_URI_LEN then otp_uri_to_ctx (oe_lib dev) (str ''otp_scanning'') qr_data else Some None);
     if parsed \<noteq> None then Some (True, qr_data)
     else do {
       migrated \<leftarrow> otp_migrate_uri_to_ctx (oe_lib dev) (oe_base64 dev) (oe_pb_decode dev) (oe_fresh dev) qr_data OTP_MIGRATE_MAX_RECORDS;
       Some (if migrated \<noteq> None then (True, qr_data) else if \<not> again then (True, []) else (False, qr_data)) } }"

text \<open>The camera delivers one text after the other until one ends the scan; \<open>None\<close> when the user leaves without one.\<close>

fun scan_otp :: "('k, 'n) otp_device \<Rightarrow> (bytes \<times> bool) list \<Rightarrow> bytes option option" where
  "scan_otp dev [] = Some None"
| "scan_otp dev ((qr_data, again) # scans) = do {
     (finished, qr_data) \<leftarrow> validate_scanned_otp_uri dev again qr_data;
     if finished then Some (if qr_data = [] then None else Some qr_data) else scan_otp dev scans }"

definition OTP_MIGRATE_SCHEMA_FULL :: bytes where "OTP_MIGRATE_SCHEMA_FULL = str ''otpauth-migration://''"

definition qr_matches :: "bytes \<Rightarrow> bytes \<Rightarrow> bool" where
  "qr_matches schema qr_data \<longleftrightarrow> length qr_data > length schema + 1 \<and> strncasecmp_eq qr_data schema (length schema)"

definition register_otp_qr ::
  "('k, 'n) otp_device \<Rightarrow> (bytes \<times> bool) list \<Rightarrow> otp_answers \<Rightarrow> (nat \<Rightarrow> otp_answers) \<Rightarrow> 'n nvs_state \<Rightarrow> (bool option \<times> 'n nvs_state) option" where
  "register_otp_qr dev scans ans answers st =
     (if oe_seed dev = [] then Some (Some False, st)
      else do {
        scanned \<leftarrow> scan_otp dev scans;
        case scanned of None \<Rightarrow> Some (Some False, st) | Some qr_data \<Rightarrow> do {
          first \<leftarrow> (if qr_matches OTP_SCHEMA_FULL qr_data then register_otp_string dev ans qr_data st else Some (Returned None st));
          case first of
            Still_Open st \<Rightarrow> Some (None, st)
          | Returned err st \<Rightarrow>
              if (\<exists>e\<in>set_option err. fst e \<noteq> CBOR_RPC_USER_CANCELLED) then Some (Some False, st)
              else do {
                second \<leftarrow> (if qr_matches OTP_MIGRATE_SCHEMA_FULL qr_data then register_otp_migrate_string dev answers qr_data st else Some (Returned None st));
                Some (case second of
                  Still_Open st \<Rightarrow> (None, st)
                | Returned err st \<Rightarrow> (Some (\<not> (\<exists>e\<in>set_option err. fst e \<noteq> CBOR_RPC_USER_CANCELLED)), st)) } } })"

section \<open>Storing a record\<close>

text \<open>What the libraries promise.\<close>

definition otp_device_ok :: "('k, 'n) otp_device \<Rightarrow> bool" where
  "otp_device_ok dev \<longleftrightarrow> otp_keys_ok (oe_lib dev) \<and> cbc_ok (oe_wally dev) \<and> fresh_mem (oe_fresh dev)"

text \<open>Only the record of this name and its counter may differ.\<close>

definition only_record :: "bytes \<Rightarrow> 'n nvs_state \<Rightarrow> 'n nvs_state \<Rightarrow> bool" where
  "only_record name st st' \<longleftrightarrow> length (nv_maps st') = length (nv_maps st) \<and>
     (\<forall>h k. k \<noteq> name \<or> h \<noteq> 3 \<and> h \<noteq> 4 \<longrightarrow> lookup st' h k = lookup st h k)"

lemma only_record_trans: "only_record name st st1 \<Longrightarrow> only_record name st1 st2 \<Longrightarrow> only_record name st st2"
  by (simp add: only_record_def)

lemma same_but_only_record: "same_but h name st st' \<Longrightarrow> h = 3 \<or> h = 4 \<Longrightarrow> only_record name st st'"
  by (auto simp: same_but_def only_record_def)

lemma only_record_ok: "nvs_ok env st \<Longrightarrow> only_record name st st' \<Longrightarrow> nvs_ok env st'"
  by (simp add: nvs_ok_def only_record_def)

lemma otp_save_effect:
  assumes "otp_device_ok dev" and "length iv = Registration.AES_BLOCK_LEN" and "nvs_ok (oe_env dev) st" and "uri \<noteq> []" and "length uri < OTP_MAX_URI_LEN"
    and "otp_save_uri (oe_lib dev) (oe_wally dev) (oe_fresh dev) iv (oe_seed dev) (oe_env dev) name uri st = Some (ok, st')"
  shows "same_but 3 name st st'" and "ok \<Longrightarrow> oe_seed dev \<noteq> [] \<and> lookup st' 3 name = Some (otp_cipher (oe_lib dev) (oe_wally dev) (oe_seed dev) iv uri)"
proof -
  note d = assms(1) [unfolded otp_device_ok_def]
  have "same_but 3 name st st' \<and> (ok \<longrightarrow> oe_seed dev \<noteq> [] \<and> lookup st' 3 name = Some (otp_cipher (oe_lib dev) (oe_wally dev) (oe_seed dev) iv uri))"
  proof (cases "oe_seed dev = []")
    case True
    have "AES_ENCRYPTED_LEN (length uri) \<le> AES_ENCRYPTED_LEN OTP_MAX_URI_LEN" using assms(5) by (intro encrypted_len_mono) simp
    then have "ok = False \<and> st' = st" using assms(4-6) True by (simp add: otp_save_uri_def get_otp_encryption_key_def Let_def)
    then show ?thesis by (simp add: same_but_def)
  next
    case False
    let ?c = "otp_cipher (oe_lib dev) (oe_wally dev) (oe_seed dev) iv uri"
    have "length ?c = AES_ENCRYPTED_LEN (length uri)" using d assms(2,4) False by (intro otp_cipher_ok(1)) simp_all
    then have "?c \<noteq> []" by (auto simp: AES_ENCRYPTED_LEN_def Registration.AES_BLOCK_LEN_def)
    then obtain r st1 where s: "store_blob (oe_env dev) OTP_NAMESPACE name ?c st = Some (r, st1)" "same_but 3 name st st1"
        "lookup st1 3 name = Some ?c \<or> \<not> r \<and> lookup st1 3 name = lookup st 3 name"
      using store_blob_effect [OF assms(3) nvs_open_names(4), of ?c name] by auto
    moreover have "store_blob (oe_env dev) OTP_NAMESPACE name ?c st = Some (ok, st')"
      using assms(6) otp_save_uri_eq [of "oe_lib dev" "oe_wally dev" iv "oe_fresh dev" "oe_seed dev" uri "oe_env dev" name st] d assms(2,4,5) False
      by (simp add: storage_set_otp_data_def)
    ultimately show ?thesis using False by auto
  qed
  then show "same_but 3 name st st'" and "ok \<Longrightarrow> oe_seed dev \<noteq> [] \<and> lookup st' 3 name = Some (otp_cipher (oe_lib dev) (oe_wally dev) (oe_seed dev) iv uri)"
    by simp_all
qed

lemma erase_otp_effect:
  assumes "nvs_ok env st"
  shows "only_record name st (snd (storage_erase_otp env name st))"
proof -
  obtain b1 st1 where e1: "erase_key env HOTP_COUNTERS_NAMESPACE name st = (b1, st1)" by fastforce
  obtain b2 st2 where e2: "erase_key env OTP_NAMESPACE name st1 = (b2, st2)" by fastforce
  have s1: "same_but 4 name st st1" by (rule erase_key_effect(1) [OF assms nvs_open_names(5) _ e1]) simp
  have "same_but 3 name st1 st2" by (rule erase_key_effect(1) [OF same_but_ok [OF assms s1] nvs_open_names(4) _ e2]) simp
  then show ?thesis using s1 e1 e2 only_record_trans same_but_only_record by (fastforce simp: storage_erase_otp_def)
qed

text \<open>What registering does to the storage: nothing, or the name was accepted and only its record changed.\<close>

lemma handle_new_otp_effect:
  assumes dev: "otp_device_ok dev" and iv: "length iv = Registration.AES_BLOCK_LEN" and ok: "nvs_ok (oe_env dev) st"
    and h: "handle_new_otp_uri dev confirm iv name uri st = Some (r, st')"
  shows "st' = st \<and> r \<noteq> None \<or> validate_otp_name dev name st = Some None \<and> only_record name st st' \<and>
    (r = None \<longrightarrow> (\<exists>ctx token. otp_uri_to_ctx (oe_lib dev) name uri = Some (Some ctx) \<and>
       otp_get_auth_code (oe_lib dev) (oe_fresh dev) ctx OTP_MAX_TOKEN_LEN = Some (Some token) \<and> confirm ctx \<and>
       uri \<noteq> [] \<and> length uri < OTP_MAX_URI_LEN \<and> oe_seed dev \<noteq> [] \<and>
       lookup st' 3 name = Some (otp_cipher (oe_lib dev) (oe_wally dev) (oe_seed dev) iv uri) \<and>
       (oc_otp_type ctx = OTPTYPE_HOTP \<longrightarrow> hotp_value name st' = oc_counter ctx)))"
proof (cases "r \<noteq> None \<and> st' = st")
  case False
  then have f: "\<not> (r \<noteq> None \<and> st' = st)" .
  have u: "uri \<noteq> []" "length uri < OTP_MAX_URI_LEN" using h f by (auto simp: handle_new_otp_uri_def split: if_splits)
  have v: "validate_otp_name dev name st = Some None"
    using h u f by (auto simp: handle_new_otp_uri_def split: option.splits Option.bind_splits)
  obtain ctx where c: "otp_uri_to_ctx (oe_lib dev) name uri = Some (Some ctx)"
    using h u v f by (auto simp: handle_new_otp_uri_def split: option.splits Option.bind_splits)
  obtain token where t: "otp_get_auth_code (oe_lib dev) (oe_fresh dev) ctx OTP_MAX_TOKEN_LEN = Some (Some token)" and cf: "confirm ctx"
    using h u v c f by (auto simp: handle_new_otp_uri_def split: Option.bind_splits if_splits)
  obtain saved st1 where s: "otp_save_uri (oe_lib dev) (oe_wally dev) (oe_fresh dev) iv (oe_seed dev) (oe_env dev) name uri st = Some (saved, st1)"
    using h u v c t cf by (auto simp: handle_new_otp_uri_def bind_eq_Some_conv)
  note eff = otp_save_effect [OF dev iv ok u s]
  have ok1: "nvs_ok (oe_env dev) st1" by (rule same_but_ok [OF ok eff(1)])
  have rest: "(if \<not> saved then Some (Some (CBOR_RPC_INTERNAL_ERROR, str ''Failed to persist otp details''), st1)
      else if oc_otp_type ctx = OTPTYPE_HOTP then do {
        (counted, st) \<leftarrow> storage_set_otp_hotp_counter (oe_env dev) name (oc_counter ctx) st1;
        Some (if \<not> counted then (Some (CBOR_RPC_INTERNAL_ERROR, str ''Failed to persist otp counter''), snd (storage_erase_otp (oe_env dev) name st)) else (None, st)) }
      else Some (None, st1)) = Some (r, st')"
    using h u v c t cf s by (simp add: handle_new_otp_uri_def)
  have o1: "only_record name st st1" using same_but_only_record [OF eff(1)] by simp
  obtain counted st2 where k: "storage_set_otp_hotp_counter (oe_env dev) name (oc_counter ctx) st1 = Some (counted, st2)" "nvs_ok (oe_env dev) st2" "same_but 4 name st1 st2"
      "hotp_value name st2 = oc_counter ctx \<or> \<not> counted \<and> hotp_value name st2 = hotp_value name st1"
    by (rule set_hotp_counter_effect [OF ok1]) blast
  have o2: "only_record name st st2" by (rule only_record_trans [OF o1 same_but_only_record [OF k(3)]]) simp
  have o3: "only_record name st (snd (storage_erase_otp (oe_env dev) name st2))" by (rule only_record_trans [OF o2 erase_otp_effect [OF k(2)]])
  have l2: "lookup st2 3 name = lookup st1 3 name" using k(3) by (simp add: same_but_def)
  show ?thesis using rest u v c t cf o1 o2 o3 k(1,4) l2 eff(2) by (auto split: if_splits)
qed simp

section \<open>Records of other wallets\<close>

text \<open>The names fit the type of a key.\<close>

definition otp_keys_short :: "'n nvs_state \<Rightarrow> bool" where
  "otp_keys_short st \<longleftrightarrow> (\<forall>k. lookup st 3 k \<noteq> None \<longrightarrow> length k < 16)"

lemma storage_otp_exists_eq:
  assumes "otp_keys_short st"
  shows "storage_otp_exists True name st = Some (lookup st 3 name \<noteq> None)"
proof -
  have ns: "get_nvs_ns OTP_NAMESPACE = Some 3" by code_simp
  have dom: "lookup st 3 k \<noteq> None \<longleftrightarrow> k \<in> fst ` set (nv_maps st ! 3)" for k
    by (simp add: lookup_def map_of_eq_None_iff)
  then have "list_all (\<lambda>(k, v). length k < 16) (nv_maps st ! 3)" using assms by (force simp: otp_keys_short_def list_all_iff)
  then show ?thesis
    using find_key_name_eq [of st 3 0 name] dom [of name] by (auto simp: storage_otp_exists_def key_name_exists_def nvs_entry_find_def ns)
qed

lemma otp_readable_lookup:
  assumes "nvs_ok (oe_env dev) st" and "nvs_ok (oe_env dev) st'" and "lookup st' 3 name = lookup st 3 name"
  shows "otp_readable dev name st' = otp_readable dev name st"
proof -
  have "storage_get_otp_data (oe_env dev) name (AES_ENCRYPTED_LEN OTP_MAX_URI_LEN) st' = storage_get_otp_data (oe_env dev) name (AES_ENCRYPTED_LEN OTP_MAX_URI_LEN) st"
    using assms by (simp add: storage_get_otp_data_def read_blob_lookup AES_ENCRYPTED_LEN_def)
  then have "otp_load_uri (oe_lib dev) (oe_wally dev) (oe_seed dev) (oe_env dev) name st' = otp_load_uri (oe_lib dev) (oe_wally dev) (oe_seed dev) (oe_env dev) name st"
    by (simp only: otp_load_uri_def)
  then show ?thesis by (simp only: otp_readable_def)
qed

text \<open>A record that the loaded wallet cannot read.\<close>

definition foreign_record :: "('k, 'n) otp_device \<Rightarrow> 'n nvs_state \<Rightarrow> bytes \<Rightarrow> bool" where
  "foreign_record dev st name \<longleftrightarrow> lookup st 3 name \<noteq> None \<and> otp_readable dev name st \<noteq> Some True"

definition otp_sane :: "('k, 'n) otp_device \<Rightarrow> 'n nvs_state \<Rightarrow> bool" where
  "otp_sane dev st \<longleftrightarrow> nvs_ok (oe_env dev) st \<and> otp_keys_short st"

text \<open>Foreign records and the other namespaces keep their values.\<close>

definition otp_keeps :: "('k, 'n) otp_device \<Rightarrow> 'n nvs_state \<Rightarrow> 'n nvs_state \<Rightarrow> bool" where
  "otp_keeps dev st st' \<longleftrightarrow> otp_sane dev st' \<and>
     (\<forall>h k. h \<noteq> 3 \<and> h \<noteq> 4 \<or> foreign_record dev st k \<longrightarrow> lookup st' h k = lookup st h k)"

lemma otp_keeps_refl: "otp_sane dev st \<Longrightarrow> otp_keeps dev st st"
  by (simp add: otp_keeps_def)

lemma otp_keeps_trans:
  assumes "otp_sane dev st" and k: "otp_keeps dev st st1" "otp_keeps dev st1 st2"
  shows "otp_keeps dev st st2"
proof -
  have "foreign_record dev st1 n" if "foreign_record dev st n" for n
  proof -
    have "lookup st1 3 n = lookup st 3 n" using k(1) that by (simp add: otp_keeps_def)
    then show ?thesis using that otp_readable_lookup [of dev st st1 n] assms(1) k(1) by (simp add: foreign_record_def otp_keeps_def otp_sane_def)
  qed
  then show ?thesis using k by (simp add: otp_keeps_def)
qed

lemma handle_new_otp_keeps:
  assumes "otp_device_ok dev" and "oe_malloc dev" and "length iv = Registration.AES_BLOCK_LEN" and "otp_sane dev st" and "length name < OTP_MAX_NAME_LEN"
    and "handle_new_otp_uri dev confirm iv name uri st = Some (r, st')"
  shows "otp_keeps dev st st'"
proof (cases "st' = st")
  case False
  have s: "nvs_ok (oe_env dev) st" "otp_keys_short st" using assms(4) by (simp_all add: otp_sane_def)
  have e: "validate_otp_name dev name st = Some None" "only_record name st st'"
    using handle_new_otp_effect [OF assms(1,3) s(1) assms(6)] False by blast+
  have "\<not> foreign_record dev st name"
    using e(1) storage_otp_exists_eq [OF s(2), of name] assms(2)
    by (auto simp: validate_otp_name_def foreign_record_def split: if_splits Option.bind_splits)
  moreover have "otp_keys_short st'"
    using s(2) e(2) assms(5) by (auto simp: otp_keys_short_def only_record_def OTP_MAX_NAME_LEN_def) metis
  ultimately show ?thesis using e(2) only_record_ok [OF s(1) e(2)] by (auto simp: otp_keeps_def otp_sane_def only_record_def)
qed (use assms(4) in \<open>simp add: otp_keeps_refl\<close>)

fun outcome_state :: "'n otp_outcome \<Rightarrow> 'n nvs_state" where
  "outcome_state (Still_Open st) = st"
| "outcome_state (Returned r st) = st"

lemma kb_name_short: "get_otp_name_from_kb dev prefilled rounds st = Some (Kb_Done name) \<Longrightarrow> length name < OTP_MAX_NAME_LEN"
  by (auto simp: get_otp_name_from_kb_def split: kb_result.splits Option.bind_splits)

lemma register_string_keeps:
  assumes "otp_device_ok dev" and "oe_malloc dev" and "length (oa_iv ans) = Registration.AES_BLOCK_LEN" and "otp_sane dev st"
    and r: "register_otp_string dev ans uri st = Some out"
  shows "otp_keeps dev st (outcome_state out)"
proof -
  have "outcome_state out = st \<or> (\<exists>prefilled name r st'. get_otp_name_from_kb dev prefilled (oa_rounds ans) st = Some (Kb_Done name) \<and>
      handle_new_otp_uri dev (oa_confirm ans) (oa_iv ans) name uri st = Some (r, st') \<and> outcome_state out = st')"
    using r by (auto simp: register_otp_string_def split: if_splits option.splits kb_result.splits Option.bind_splits)
  then show ?thesis using handle_new_otp_keeps [OF assms(1-4) kb_name_short] otp_keeps_refl [OF assms(4)] by fastforce
qed

lemma register_migrated_keeps:
  assumes "otp_device_ok dev" and "oe_malloc dev" and "\<forall>i. length (oa_iv (answers i)) = Registration.AES_BLOCK_LEN"
  shows "otp_sane dev st \<Longrightarrow> register_migrated dev answers i uris st = Some out \<Longrightarrow> otp_keeps dev st (outcome_state out)"
proof (induction uris arbitrary: i st)
  case Nil
  then show ?case using otp_keeps_refl by auto
next
  case (Cons uri uris)
  obtain out1 where o: "register_otp_string dev (answers i) uri st = Some out1" using Cons.prems(2) by (auto split: Option.bind_splits)
  have k: "otp_keeps dev st (outcome_state out1)" using register_string_keeps [OF assms(1,2) _ Cons.prems(1) o] assms(3) by blast
  then have sane: "otp_sane dev (outcome_state out1)" by (simp add: otp_keeps_def)
  have "outcome_state out = outcome_state out1 \<or> register_migrated dev answers (i + 1) uris (outcome_state out1) = Some out"
    using Cons.prems(2) o by (auto split: otp_outcome.splits option.splits prod.splits if_splits)
  then show ?case using k otp_keeps_trans [OF Cons.prems(1) k] Cons.IH [OF sane] by auto
qed

section \<open>The flows as steps\<close>

text \<open>Steps that keep something, whatever their order.\<close>

locale keeping_steps =
  fixes step :: "'a \<Rightarrow> 'a \<Rightarrow> bool" and good :: "'a \<Rightarrow> bool" and keeps :: "'a \<Rightarrow> 'a \<Rightarrow> bool"
  assumes keeps_refl: "good s \<Longrightarrow> keeps s s"
    and keeps_trans: "good s \<Longrightarrow> keeps s t \<Longrightarrow> keeps t u \<Longrightarrow> keeps s u"
    and keeps_good: "good s \<Longrightarrow> keeps s t \<Longrightarrow> good t"
    and step_keeps: "good s \<Longrightarrow> step s t \<Longrightarrow> keeps s t"
begin

lemma run_keeps: "step\<^sup>*\<^sup>* s t \<Longrightarrow> good s \<Longrightarrow> keeps s t"
proof (induction rule: rtranclp_induct)
  case base
  then show ?case by (rule keeps_refl)
next
  case (step t u)
  then have "keeps s t" by blast
  then show ?case using step_keeps [OF keeps_good step.hyps(2)] keeps_trans step.prems by blast
qed

end

text \<open>One use of an entry point, by any host and any user, up to the point where it returns or waits.\<close>

inductive otp_entry :: "('k, 'n) otp_device \<Rightarrow> 'n nvs_state \<Rightarrow> 'n nvs_state \<Rightarrow> bool" for dev where
  by_message: "length otp_name < OTP_MAX_NAME_LEN \<Longrightarrow> length iv = Registration.AES_BLOCK_LEN \<Longrightarrow>
    register_otp_process dev confirm iv otp_name otp_uri st = Some (r, st') \<Longrightarrow> otp_entry dev st st'"
| by_keyboard: "length (oa_iv ans) = Registration.AES_BLOCK_LEN \<Longrightarrow> register_otp_kb_entry dev ans uri_rounds st = Some (b, st') \<Longrightarrow> otp_entry dev st st'"
| by_string: "length (oa_iv ans) = Registration.AES_BLOCK_LEN \<Longrightarrow> register_otp_string dev ans otp_uri st = Some out \<Longrightarrow> otp_entry dev st (outcome_state out)"
| by_migration: "\<forall>i. length (oa_iv (answers i)) = Registration.AES_BLOCK_LEN \<Longrightarrow> register_otp_migrate_string dev answers otp_uri st = Some out \<Longrightarrow>
    otp_entry dev st (outcome_state out)"
| by_camera: "length (oa_iv ans) = Registration.AES_BLOCK_LEN \<Longrightarrow> \<forall>i. length (oa_iv (answers i)) = Registration.AES_BLOCK_LEN \<Longrightarrow>
    register_otp_qr dev scans ans answers st = Some (b, st') \<Longrightarrow> otp_entry dev st st'"

definition otp_good :: "('k, 'n) otp_device \<Rightarrow> 'n nvs_state \<Rightarrow> bool" where
  "otp_good dev st \<longleftrightarrow> otp_device_ok dev \<and> oe_malloc dev \<and> otp_sane dev st"

lemma register_migrate_keeps:
  assumes "otp_good dev st" and "\<forall>i. length (oa_iv (answers i)) = Registration.AES_BLOCK_LEN" and "register_otp_migrate_string dev answers uri st = Some out"
  shows "otp_keeps dev st (outcome_state out)"
proof -
  have "outcome_state out = st \<or> (\<exists>uris. register_migrated dev answers 0 uris st = Some out)"
    using assms(3) by (auto simp: register_otp_migrate_string_def split: option.splits Option.bind_splits)
  then show ?thesis using assms(1,2) register_migrated_keeps otp_keeps_refl unfolding otp_good_def by metis
qed

lemma register_qr_keeps:
  assumes g: "otp_good dev st" and iv: "length (oa_iv ans) = Registration.AES_BLOCK_LEN" "\<forall>i. length (oa_iv (answers i)) = Registration.AES_BLOCK_LEN"
    and r: "register_otp_qr dev scans ans answers st = Some (b, st')"
  shows "otp_keeps dev st st'"
proof -
  have d: "otp_device_ok dev" "oe_malloc dev" "otp_sane dev st" using g by (simp_all add: otp_good_def)
  note refl = otp_keeps_refl [OF d(3)]
  consider "st' = st" | qr out where "register_otp_string dev ans qr st = Some out" "st' = outcome_state out"
    | qr out1 out2 where "out1 = Returned None st \<or> register_otp_string dev ans qr st = Some out1"
        "out2 = Returned None (outcome_state out1) \<or> register_otp_migrate_string dev answers qr (outcome_state out1) = Some out2" "st' = outcome_state out2"
    using r unfolding register_otp_qr_def
    by (auto split: if_splits option.splits otp_outcome.splits Option.bind_splits) (metis outcome_state.simps)+
  then show ?thesis
  proof cases
    case 1
    then show ?thesis using refl by simp
  next
    case 2
    then show ?thesis using register_string_keeps [OF d(1,2) iv(1) d(3)] by blast
  next
    case 3
    have k: "otp_keeps dev st (outcome_state out1)" using 3(1) register_string_keeps [OF d(1,2) iv(1) d(3)] refl by auto
    then have g1: "otp_good dev (outcome_state out1)" using d by (simp add: otp_good_def otp_keeps_def)
    have "otp_keeps dev (outcome_state out1) st'"
      using 3(2,3) register_migrate_keeps [OF g1 iv(2)] otp_keeps_refl g1 by (auto simp: otp_good_def)
    then show ?thesis by (rule otp_keeps_trans [OF d(3) k])
  qed
qed

lemma register_kb_keeps:
  assumes g: "otp_good dev st" and iv: "length (oa_iv ans) = Registration.AES_BLOCK_LEN" and r: "register_otp_kb_entry dev ans uri_rounds st = Some (b, st')"
  shows "otp_keeps dev st st'"
proof -
  have d: "otp_device_ok dev" "oe_malloc dev" "otp_sane dev st" using g by (simp_all add: otp_good_def)
  have "st' = st \<or> (\<exists>name uri r. get_otp_name_from_kb dev [] (oa_rounds ans) st = Some (Kb_Done name) \<and>
      handle_new_otp_uri dev (oa_confirm ans) (oa_iv ans) name uri st = Some (r, st'))"
    using r unfolding register_otp_kb_entry_def by (auto split: if_splits kb_result.splits Option.bind_splits)
  then show ?thesis using handle_new_otp_keeps [OF d(1,2) iv d(3) kb_name_short] otp_keeps_refl [OF d(3)] by blast
qed

lemma register_process_keeps:
  assumes g: "otp_good dev st" and "length name < OTP_MAX_NAME_LEN" and "length iv = Registration.AES_BLOCK_LEN"
    and r: "register_otp_process dev confirm iv name uri st = Some (r, st')"
  shows "otp_keeps dev st st'"
proof -
  have d: "otp_device_ok dev" "oe_malloc dev" "otp_sane dev st" using g by (simp_all add: otp_good_def)
  have "st' = st \<or> handle_new_otp_uri dev confirm iv name uri st = Some (r, st')"
    using r by (auto simp: register_otp_process_def split: if_splits)
  then show ?thesis using handle_new_otp_keeps [OF d(1,2) assms(3) d(3) assms(2)] otp_keeps_refl [OF d(3)] by blast
qed

lemma otp_entry_keeps:
  assumes g: "otp_good dev st" and "otp_entry dev st st'"
  shows "otp_keeps dev st st'"
  using assms(2)
proof (cases rule: otp_entry.cases)
  case (by_string ans otp_uri out)
  then show ?thesis using register_string_keeps g unfolding otp_good_def by blast
qed (use register_process_keeps [OF g] register_kb_keeps [OF g] register_migrate_keeps [OF g] register_qr_keeps [OF g] in blast)+

interpretation otp_flow: keeping_steps "otp_entry dev" "otp_good dev" "otp_keeps dev" for dev
proof
  show "otp_keeps dev s s" if "otp_good dev s" for s using that by (simp add: otp_good_def otp_keeps_refl)
  show "otp_keeps dev s u" if "otp_good dev s" "otp_keeps dev s t" "otp_keeps dev t u" for s t u using that by (auto simp: otp_good_def intro: otp_keeps_trans)
  show "otp_good dev t" if "otp_good dev s" "otp_keeps dev s t" for s t using that by (simp add: otp_good_def otp_keeps_def)
  show "otp_keeps dev s t" if "otp_good dev s" "otp_entry dev s t" for s t using that by (rule otp_entry_keeps)
qed

section \<open>Issuers and names\<close>





text \<open>The loaded wallet decrypts the record to an URI that is a valid one-time password.\<close>

definition opens_as_record :: "('k, 'n) otp_device \<Rightarrow> bytes \<Rightarrow> 'n nvs_state \<Rightarrow> bool" where
  "opens_as_record dev name st \<longleftrightarrow> (\<exists>uri ctx. otp_load_uri (oe_lib dev) (oe_wally dev) (oe_seed dev) (oe_env dev) name st = Some (Some uri) \<and>
     otp_uri_to_ctx (oe_lib dev) name uri = Some (Some ctx))"

lemma readable_opens: "otp_readable dev name st = Some True \<Longrightarrow> opens_as_record dev name st"
  by (auto simp: otp_readable_def opens_as_record_def split: Option.bind_splits option.splits if_splits)

section \<open>Properties\<close>

text \<open>C18. A record that was registered works: after the request has succeeded, the wallet reads the URI back, it parses as a
  valid record for which a code can be computed, a counter based record starts at its counter, and no other record of
  any kind has changed.\<close>

theorem otp_registered_is_usable:
  assumes "otp_device_ok dev" and "length iv = Registration.AES_BLOCK_LEN" and "nvs_ok (oe_env dev) st"
    and "register_otp_process dev confirm iv name uri st = Some (None, st')"
  shows "\<exists>ctx token. otp_load_uri (oe_lib dev) (oe_wally dev) (oe_seed dev) (oe_env dev) name st' = Some (Some uri) \<and>
    otp_uri_to_ctx (oe_lib dev) name uri = Some (Some ctx) \<and> confirm ctx \<and>
    otp_get_auth_code (oe_lib dev) (oe_fresh dev) ctx OTP_MAX_TOKEN_LEN = Some (Some token) \<and>
    (oc_otp_type ctx = OTPTYPE_HOTP \<longrightarrow> storage_get_otp_hotp_counter (oe_env dev) name st' = Some (oc_counter ctx)) \<and> only_record name st st'"
proof -
  have "handle_new_otp_uri dev confirm iv name uri st = Some (None, st')"
    using assms(4) by (auto simp: register_otp_process_def split: if_splits)
  from handle_new_otp_effect [OF assms(1-3) this] obtain ctx token where
    c: "otp_uri_to_ctx (oe_lib dev) name uri = Some (Some ctx)" "otp_get_auth_code (oe_lib dev) (oe_fresh dev) ctx OTP_MAX_TOKEN_LEN = Some (Some token)" "confirm ctx"
      "uri \<noteq> []" "length uri < OTP_MAX_URI_LEN" "oe_seed dev \<noteq> []" "lookup st' 3 name = Some (otp_cipher (oe_lib dev) (oe_wally dev) (oe_seed dev) iv uri)"
      "oc_otp_type ctx = OTPTYPE_HOTP \<longrightarrow> hotp_value name st' = oc_counter ctx" and o: "only_record name st st'" by blast
  have ok: "nvs_ok (oe_env dev) st'" by (rule only_record_ok [OF assms(3) o])
  have "otp_load_uri (oe_lib dev) (oe_wally dev) (oe_seed dev) (oe_env dev) name st' = Some (Some uri)"
    using assms(1,2) c ok by (intro otp_load_stored) (simp_all add: otp_device_ok_def)
  moreover have "storage_get_otp_hotp_counter (oe_env dev) name st' = Some (hotp_value name st')" by (rule storage_get_otp_hotp_counter_eq [OF ok])
  ultimately show ?thesis using c o by auto
qed

text \<open>C17. A record that the loaded wallet cannot read is immutable: in every sequence of registrations, by message, keyboard, scanned
  record or import, with whatever names, texts and answers, such a record and its counter keep their values, and
  nothing outside the records of one-time passwords changes.\<close>

theorem otp_foreign_records_kept:
  assumes "otp_device_ok dev" and "oe_malloc dev" and "nvs_ok (oe_env dev) st" and "otp_keys_short st" and "(otp_entry dev)\<^sup>*\<^sup>* st st'"
    and "h \<noteq> 3 \<and> h \<noteq> 4 \<or> lookup st 3 k \<noteq> None \<and> \<not> opens_as_record dev k st"
  shows "lookup st' h k = lookup st h k"
  using readable_opens [of dev k st] otp_flow.run_keeps [OF assms(5)] assms(1-4,6) unfolding otp_good_def otp_sane_def otp_keeps_def foreign_record_def by blast


section \<open>Concrete cases\<close>

definition demo_otp_device :: "(bytes, unit) otp_device" where
  "demo_otp_device = \<lparr> oe_lib = demo_otp, oe_wally = demo_wally, oe_env = demo_env, oe_fresh = (\<lambda>n. replicate n 0), oe_base64 = Some,
     oe_pb_decode = (\<lambda>_. ([], True)), oe_seed = [1], oe_malloc = True \<rparr>"

definition demo_otp_nvs :: "unit nvs_state" where
  "demo_otp_nvs = demo_nvs\<lparr>nv_maps := (nv_maps demo_nvs)[3 := [(str ''x'', replicate 32 7)]]\<rparr>"

lemma demo_otp_device_ok: "otp_device_ok demo_otp_device" "oe_malloc demo_otp_device" "nvs_ok (oe_env demo_otp_device) demo_otp_nvs" "otp_keys_short demo_otp_nvs"
  using demo_otp_ok demo_crypto(2) wally_alist_laws
  by (simp_all add: otp_device_ok_def demo_otp_device_def nvs_ok_def demo_env_def demo_otp_nvs_def demo_nvs_def otp_keys_short_def lookup_def)

lemma demo_otp_code:
  obtains token where "otp_get_auth_code demo_otp (\<lambda>n. replicate n 0) demo_hotp_ctx OTP_MAX_TOKEN_LEN = Some (Some token)"
proof -
  have d: "oc_digits demo_hotp_ctx = 6" by code_simp
  then have "unat (oc_digits demo_hotp_ctx) < OTP_MAX_TOKEN_LEN" by (simp add: OTP_MAX_TOKEN_LEN_def)
  note eq = otp_get_auth_code_eq [OF demo_ctx(5) demo_otp_ok(2,4) this]
  have "map_option (\<lambda>p. p \<noteq> None) (prepare_md_ctx demo_otp demo_hotp_ctx) = Some True" by code_simp
  then obtain key where "prepare_md_ctx demo_otp demo_hotp_ctx = Some (Some key)" by auto
  then show thesis using eq that by (auto simp: demo_otp_def)
qed

lemma demo_otp_registered:
  obtains st' where "register_otp_process demo_otp_device (\<lambda>_. True) (replicate 16 3) (str ''a'') demo_hotp_uri demo_otp_nvs = Some (None, st')"
proof -
  have n: "storage_key_name_valid (str ''a'')" "demo_hotp_uri \<noteq> []" "length demo_hotp_uri < OTP_MAX_URI_LEN" by code_simp+
  have v: "validate_otp_name demo_otp_device (str ''a'') demo_otp_nvs = Some None" by code_simp
  have "map_option (\<lambda>p. p \<noteq> None) (otp_uri_to_ctx demo_otp (str ''a'') demo_hotp_uri) = Some True" by code_simp
  then have c: "otp_uri_to_ctx demo_otp (str ''a'') demo_hotp_uri = Some (Some demo_hotp_ctx)" by (auto simp: demo_hotp_ctx_def simp del: str_Cons)
  obtain token where t: "otp_get_auth_code demo_otp (\<lambda>n. replicate n 0) demo_hotp_ctx OTP_MAX_TOKEN_LEN = Some (Some token)" by (rule demo_otp_code)
  have "map_option fst (otp_save_uri demo_otp demo_wally (\<lambda>n. replicate n 0) (replicate 16 3) [1] demo_env (str ''a'') demo_hotp_uri demo_otp_nvs) = Some True" by code_simp
  then obtain st1 where s: "otp_save_uri demo_otp demo_wally (\<lambda>n. replicate n 0) (replicate 16 3) [1] demo_env (str ''a'') demo_hotp_uri demo_otp_nvs = Some (True, st1)"
    by (auto simp del: str_Cons)
  have "map_option fst (otp_save_uri demo_otp demo_wally (\<lambda>n. replicate n 0) (replicate 16 3) [1] demo_env (str ''a'') demo_hotp_uri demo_otp_nvs \<bind>
      (\<lambda>(_, st). storage_set_otp_hotp_counter demo_env (str ''a'') (oc_counter demo_hotp_ctx) st)) = Some True" by code_simp
  then obtain st2 where k: "storage_set_otp_hotp_counter demo_env (str ''a'') (oc_counter demo_hotp_ctx) st1 = Some (True, st2)"
    using s by (auto simp del: str_Cons)
  have d: "oe_lib demo_otp_device = demo_otp" "oe_wally demo_otp_device = demo_wally" "oe_env demo_otp_device = demo_env" "oe_fresh demo_otp_device = (\<lambda>n. replicate n 0)"
    "oe_seed demo_otp_device = [1]" by (simp_all add: demo_otp_device_def)
  have "handle_new_otp_uri demo_otp_device (\<lambda>_. True) (replicate 16 3) (str ''a'') demo_hotp_uri demo_otp_nvs = Some (None, st2)"
    using n v c t s k demo_ctx(6) by (simp add: handle_new_otp_uri_def d del: str_Cons)
  moreover have "str ''a'' \<noteq> []" by simp
  ultimately show thesis using that [of st2] n d(5) by (simp add: register_otp_process_def del: str_Cons)
qed

theorem otp_registered_is_usable_witness:
  "\<exists>st'. register_otp_process demo_otp_device (\<lambda>_. True) (replicate 16 3) (str ''a'') demo_hotp_uri demo_otp_nvs = Some (None, st') \<and>
     otp_load_uri demo_otp demo_wally [1] demo_env (str ''a'') st' = Some (Some demo_hotp_uri)"
proof -
  obtain st' where r: "register_otp_process demo_otp_device (\<lambda>_. True) (replicate 16 3) (str ''a'') demo_hotp_uri demo_otp_nvs = Some (None, st')"
    by (rule demo_otp_registered)
  have "length (replicate 16 (3 :: byte)) = Registration.AES_BLOCK_LEN" by (simp add: Registration.AES_BLOCK_LEN_def)
  from otp_registered_is_usable [OF demo_otp_device_ok(1) this demo_otp_device_ok(3) r] r show ?thesis
    by (auto simp: demo_otp_device_def simp del: str_Cons)
qed

theorem otp_foreign_records_kept_witness:
  "\<exists>st'. otp_entry demo_otp_device demo_otp_nvs st' \<and> lookup st' 3 (str ''x'') = Some (replicate 32 7)"
proof -
  obtain st' where r: "register_otp_process demo_otp_device (\<lambda>_. True) (replicate 16 3) (str ''a'') demo_hotp_uri demo_otp_nvs = Some (None, st')"
    by (rule demo_otp_registered)
  have e: "otp_entry demo_otp_device demo_otp_nvs st'"
    by (rule otp_entry.by_message [OF _ _ r]) (simp_all add: Registration.AES_BLOCK_LEN_def OTP_MAX_NAME_LEN_def)
  have run: "(otp_entry demo_otp_device)\<^sup>*\<^sup>* demo_otp_nvs st'" using e by blast
  have l: "lookup demo_otp_nvs 3 (str ''x'') = Some (replicate 32 7)" by code_simp
  have "otp_load_uri (oe_lib demo_otp_device) (oe_wally demo_otp_device) (oe_seed demo_otp_device) (oe_env demo_otp_device) (str ''x'') demo_otp_nvs = Some (Some (replicate 9 7))"
    "otp_uri_to_ctx (oe_lib demo_otp_device) (str ''x'') (replicate 9 7) = Some None" by code_simp+
  then have "\<not> opens_as_record demo_otp_device (str ''x'') demo_otp_nvs" by (auto simp: opens_as_record_def simp del: str_Cons)
  then have "lookup st' 3 (str ''x'') = lookup demo_otp_nvs 3 (str ''x'')"
    using otp_foreign_records_kept [OF demo_otp_device_ok run, of 3 "str ''x''"] l by (simp del: str_Cons)
  then show ?thesis using e l by auto
qed






end
