(* ===== verification/Spec2Isabelle.thy ===== *)
theory Spec2Isabelle
  imports Jade_Util Slip39_Recovery Bbqr Pin_Guard Input_Gate Seedxor Seedqr Wire Descriptor_Lifecycle Otp_Register
begin

text \<open>
  Verification of piJade, the air-gapped port of the Blockstream Jade hardware wallet.

  The program. Secrets enter the device as words, digits or QR codes, live in memory while the
  device is unlocked, and survive a restart only in the settings image on the SD card. The
  parts that decide whether a user's coins stay safe, and that are written in the repository
  itself rather than called from a library, are modelled here:

  \<^descr>[Seeds in and out.] \<open>main/slip39.c\<close> reads SLIP-39 shares (theory \<open>Slip39\<close>: words, RS1024
    checksum, fields) and recombines them (\<open>Slip39_Recovery\<close>: share context, groups, digest,
    Feistel decryption), on top of \<open>main/shamir.c\<close> (\<open>Shamir\<close>) and the word list
    (\<open>Slip39_Words\<close>). \<open>main/seedxor.c\<close> splits entropy (\<open>Seedxor\<close>), \<open>main/seedqr.c\<close> prints it as
    digits (\<open>Seedqr\<close>).
  \<^descr>[Data through the camera.] \<open>main/bbqr.c\<close> collects the frames of a BBQr (\<open>Bbqr\<close>);
    \<open>main/utils/urldecode.c\<close> is the percent codec (\<open>Urlcodec\<close>).
  \<^descr>[State on the card.] \<open>main/storage.c\<close> (\<open>Storage\<close>) keeps typed fields in the namespaces of
    \<open>libjade/nvs_flash.c\<close> (\<open>Nvs\<close>). A commit serialises them (\<open>libjade/pijade_settings.c\<close>,
    theory \<open>Pijade_Settings\<close>) into one of two slot files (\<open>pijade/host/settings_store.c\<close>, theory
    \<open>Settings_Store\<close>). \<open>Persistence\<close> models the hooks of \<open>libjade/libjade.c\<close> and
    \<open>pijade/host/pijade_host.c\<close> that connect them, and this theory the restart. \<open>Pin_Guard\<close> proves
    what the pin counter promises on such a card, over attempts, failing writes and restarts.
  \<^descr>[Buttons.] \<open>pijade/host/input_gate.h\<close> and its callers decide which presses count
    (\<open>Input_Gate\<close>), as a step relation over all interleavings of frames, jobs and presses.
  \<^descr>[Wallets and registrations.] \<open>main/wallet.c\<close> and \<open>main/utils/network.c\<close> (\<open>Wallet\<close>, \<open>Network\<close>):
    script variants, paths and their text, key derivation, scripts and the search for an address.
    \<open>main/registration_seal.c\<close> and \<open>main/aes.c\<close> (\<open>Registration\<close>) seal a record to the wallet that
    registers it, through the interface \<open>record_sealer\<close>. \<open>main/signer.c\<close> and \<open>main/multisig.c\<close>
    (\<open>Multisig\<close>, \<open>Multisig_Export\<close>) hold the multisig records and their export, and
    \<open>main/process/register_multisig.c\<close> (\<open>Multisig_File\<close>) reads the text files of other wallets
    and registers them. \<open>Multisig_Lifecycle\<close> joins registration, storage and loading.
    \<open>main/descriptor.c\<close> (\<open>Descriptor\<close>) holds wallets given as an output descriptor: parsing and its
    checks, signers, addresses, the search for a script and the stored record. \<open>main/descriptor_text.c\<close>
    (\<open>Descriptor_Text\<close>) turns a scanned text into such a descriptor: checksum, JSON wrapper, key expressions
    and child paths, template and name. \<open>main/process/register_descriptor.c\<close> (\<open>Descriptor_Lifecycle\<close>) registers it;
    the theory joins scanning, registration, storage and loading.
  \<^descr>[One-time passwords.] \<open>main/otpauth.c\<close> (\<open>Otpauth\<close>) reads \<open>otpauth://\<close> URIs, keeps them encrypted in the
    storage and computes codes from the clock or a stored counter; \<open>Otp_Migrate\<close> has the import of the records of
    another authenticator, which becomes a list of such URIs. \<open>main/process/register_otp.c\<close> (\<open>Otp_Register\<close>) registers
    records from a message, the keyboard or the camera, as a step relation over everything a host and a user can do.
  \<^descr>[Messages.] \<open>main/wire.c\<close> and \<open>libjade_send\<close> assemble requests from the chunks of a transport (\<open>Wire\<close>).
  \<^descr>[Helpers.] \<open>main/utils/util.c\<close> (\<open>Jade_Util\<close>); \<open>C_Text\<close> has the functions of the C library on text.

  Library theories. \<open>Jade_Prelude\<close> has the machine types, the reading of an assertion failure or an
  access outside a buffer as \<open>None\<close>, and the interfaces \<open>xor_linear\<close> and \<open>prefix_codec\<close>;
  \<open>Bitstream\<close>, \<open>Le_Bytes\<close> the bit and byte orders; \<open>Checksum\<close> linear checksums and
  \<open>Shift_Register\<close> the shift registers that compute them;
  \<open>Gf256\<close> and \<open>Interpolation\<close> the field and Lagrange interpolation.

  How to read the model. A C function is a HOL function of the same name; integers keep their
  width where the code can reach its limits; buffers are lists of fixed length; an out
  parameter is part of the result; \<open>bool\<close> results stay \<open>bool\<close> and the \<open>option\<close> around them is
  \<open>None\<close> exactly when an assertion fails or memory is left. Theorems of the form
  "\<open>f x \<noteq> None\<close>" therefore say that the code neither aborts nor reads or writes out of bounds.

  Parameters. Code outside the repository is an argument of the definitions that use it, with
  its documented behaviour as a named hypothesis: SHA-256, HMAC, PBKDF2, AES-CBC, base58 and
  BIP32 of libwally, the maps of libwally (\<open>wally_map\<close> laws), \<open>crc32\<close> of zlib, the inflater of
  miniz, the CBOR parser, the random source, the scripts and keys of libwally (the record \<open>libwally\<close>), its descriptors (the record \<open>wally_descriptor\<close>),
  the URL parser, the HMACs of mbedtls and the decoders of base64 and protocol buffers for one-time passwords (the record \<open>otp_lib\<close>), and the outcomes of system calls, which are lists of results
  supplied from outside, so that a theorem for all lists is a theorem for every failure.

  Termination and bounds. Every loop is a total function: by recursion on its counter or on
  its list, or with a measure given in a \<open>termination\<close> proof; the two loops of \<open>Wire\<close> are partial functions, and
  that they return for every chunk is a theorem there; so is the search of \<open>Descriptor\<close>, which returns when the range
  stays within 32 bits. The loops of \<open>Otp_Register\<close> that wait for the keyboard or the camera recurse over the list of what the
  user does; when it ends before they do, the result says that the screen is still open. There is no fuel. The only bound
  assumed of a run is \<open>few_jobs\<close> in \<open>Input_Gate\<close>: fewer than \<open>2 ^ 31\<close> jobs outstanding at any time,
  which the 32-bit ids of the code need.

  Not modelled: the graphical interface and the menu flows, which only produce pictures and wait
  for buttons; signing, blinding and transactions, which pass their arguments on to libwally; CBOR
  dispatch over tinycbor; camera, transport and panel drivers; the boot loader; vendored code. Logging and
  wiping of memory have no effect on the values the model computes.
\<close>

section \<open>The device across restarts\<close>

text \<open>C1. A pin attempt that was let through stays counted when the power is cut: after it, a restart
  from the card finds the counter one lower, so pulling the plug gives no further attempts.\<close>

theorem pin_attempt_survives_reboot:
  assumes "device_ok w st" and "sha256_len sha256" and "same_card store st" and "io_reads io_a" and "io_reads io_b"
    and "storage_decrement_counter (host_env w sha256 crc32) st = Some (True, st')"
  shows "storage_get_counter (host_env w sha256 crc32) (reboot w sha256 crc32 io_a io_b store (md_disk (nv_media st')))
    = Some (pin_counter st - 1)"
proof -
  let ?env = "host_env w sha256 crc32"
  have s: "store_blob ?env DEFAULT_NAMESPACE PIN_COUNTER_FIELD [pin_counter st - 1] st = Some (True, st')"
    using assms(6) storage_get_counter_eq [OF device_nvs_ok [OF assms(1)], of sha256 crc32]
    by (auto simp: storage_decrement_counter_def bind_eq_Some_conv split: if_splits prod.splits)
  note d = device_store_blob [OF assms(1) nvs_open_names(1) _ s, simplified]
  note r = device_reboot [OF d(1,2) assms(2) _ assms(4,5), of store]
  have "persisted_value w (nv_maps st' ! 0) PIN_COUNTER_FIELD = Some [pin_counter st - 1]"
    by (rule persisted_lookup [OF d(1) d(4) find_pin_fields(1)]) simp_all
  then show ?thesis using r assms(3) d(3) storage_get_counter_eq [OF r(1)] by (simp add: pin_counter_def)
qed

theorem pin_attempt_survives_reboot_witness:
  "\<exists>st'. storage_decrement_counter (host_env wally_alist demo_sha256 (\<lambda>_. 7)) demo_device = Some (True, st') \<and>
     storage_get_counter (host_env wally_alist demo_sha256 (\<lambda>_. 7))
       (reboot wally_alist demo_sha256 (\<lambda>_. 7) io_fine io_fine boot_store (md_disk (nv_media st'))) = Some 2"
proof -
  have c: "pin_counter demo_device = 3" by code_simp
  obtain st' where s: "storage_decrement_counter (host_env wally_alist demo_sha256 (\<lambda>_. 7)) demo_device = Some (True, st')"
    using demo_counter_stored [of 2 "\<lambda>_. 7"] c storage_get_counter_eq [OF device_nvs_ok [OF demo_device_ok(1)], of demo_sha256 "\<lambda>_. 7"]
    by (simp add: storage_decrement_counter_def)
  show ?thesis
    using s pin_attempt_survives_reboot [OF demo_device_ok(1) demo_sha256_len demo_device_ok(2) io_fine_reads io_fine_reads s] c by auto
qed

text \<open>C4. A seed that was reported stored is there after a restart: every encrypted blob of a size the
  device produces comes back byte for byte, with a full allowance of three pin attempts.\<close>

theorem seed_survives_reboot:
  assumes "device_ok w st" and "sha256_len sha256" and "same_card store st" and "io_reads io_a" and "io_reads io_b"
    and "80 \<le> length blob" and "length blob \<le> 256"
    and "storage_set_encrypted_blob (host_env w sha256 crc32) blob st = Some (True, st')"
  shows "storage_get_encrypted_blob (host_env w sha256 crc32) 256
      (reboot w sha256 crc32 io_a io_b store (md_disk (nv_media st'))) = Some (Some blob) \<and>
    storage_get_counter (host_env w sha256 crc32) (reboot w sha256 crc32 io_a io_b store (md_disk (nv_media st'))) = Some 3"
proof -
  let ?env = "host_env w sha256 crc32"
  obtain st1 where s1: "store_blob ?env DEFAULT_NAMESPACE PIN_COUNTER_FIELD [3] st = Some (True, st1)"
    and s2: "store_blob ?env DEFAULT_NAMESPACE BLOB_FIELD blob st1 = Some (True, st')"
    using assms(8) by (auto simp: storage_set_encrypted_blob_def storage_restore_counter_def bind_eq_Some_conv split: if_splits)
  note d1 = device_store_blob [OF assms(1) nvs_open_names(1) _ s1, simplified]
  note d2 = device_store_blob [OF d1(1) nvs_open_names(1) _ s2, simplified]
  have "lookup st' 0 PIN_COUNTER_FIELD = Some [3]" using same_but_other [OF d2(5)] d1(4) pin_fields_differ by simp
  note c = persisted_lookup [OF d2(1) this find_pin_fields(1), simplified]
  have b: "persisted_value w (nv_maps st' ! 0) BLOB_FIELD = Some blob"
    by (rule persisted_lookup [OF d2(1) d2(4) find_pin_fields(2)]) (use assms(6,7) in simp_all)
  note r = device_reboot [OF d2(1,2) assms(2) _ assms(4,5), of store]
  have card: "same_card store st'" using assms(3) d1(3) d2(3) by simp
  show ?thesis
    using b c assms(7) r(2) [OF card]
    by (simp add: storage_get_counter_eq [OF r(1) [OF card]] pin_counter_def storage_get_encrypted_blob_def
        read_blob_lookup [OF r(1) [OF card] nvs_open_names(1)])
qed

theorem seed_survives_reboot_witness:
  "\<exists>st'. storage_set_encrypted_blob (host_env wally_alist demo_sha256 (\<lambda>_. 7)) (replicate 80 5) demo_device = Some (True, st') \<and>
     storage_get_encrypted_blob (host_env wally_alist demo_sha256 (\<lambda>_. 7)) 256
       (reboot wally_alist demo_sha256 (\<lambda>_. 7) io_fine io_fine boot_store (md_disk (nv_media st'))) = Some (Some (replicate 80 5))"
proof -
  obtain st' where s: "storage_set_encrypted_blob (host_env wally_alist demo_sha256 (\<lambda>_. 7)) (replicate 80 5) demo_device = Some (True, st')"
    using demo_blob_stored by blast
  show ?thesis
    using s seed_survives_reboot [OF demo_device_ok(1) demo_sha256_len demo_device_ok(2) io_fine_reads io_fine_reads _ _ s] by auto
qed

text \<open>C12. A commit that reported success is durable for everything the user registered: after a
  restart the four namespaces of wallet registrations, descriptors and one-time-password records
  hold exactly the entries they held when a field was stored, the stored one included.\<close>

theorem commit_survives_reboot:
  assumes "device_ok w st" and "sha256_len sha256" and "same_card store st" and "io_reads io_a" and "io_reads io_b"
    and "nvs_open namespace = Inr h" and "h \<in> {1..<5}"
    and "store_blob (host_env w sha256 crc32) namespace name data st = Some (True, st')"
  shows "lookup (reboot w sha256 crc32 io_a io_b store (md_disk (nv_media st'))) h name = Some data \<and>
    (\<forall>ns\<in>{1..<5}. \<forall>k. (ns, k) \<noteq> (h, name) \<longrightarrow>
      lookup (reboot w sha256 crc32 io_a io_b store (md_disk (nv_media st'))) ns k = lookup st ns k)"
proof -
  have "h < 5" using assms(7) by simp
  note d = device_store_blob [OF assms(1,6) this assms(8)]
  have "same_card store st'" using assms(3) d(3) by simp
  note r = device_reboot [OF d(1,2) assms(2) this assms(4,5)]
  show ?thesis using r(3) assms(7) d(4,5) by (simp add: same_but_def)
qed

theorem commit_survives_reboot_witness:
  "\<exists>st'. store_blob (host_env wally_alist demo_sha256 (\<lambda>_. 7)) OTP_NAMESPACE (str ''bank'') (replicate 80 5) demo_device = Some (True, st') \<and>
     lookup (reboot wally_alist demo_sha256 (\<lambda>_. 7) io_fine io_fine boot_store (md_disk (nv_media st'))) 3 (str ''bank'') = Some (replicate 80 5)"
proof -
  obtain st' where s: "store_blob (host_env wally_alist demo_sha256 (\<lambda>_. 7)) OTP_NAMESPACE (str ''bank'') (replicate 80 5) demo_device
      = Some (True, st')" using demo_record_stored by blast
  show ?thesis
    using s commit_survives_reboot [OF demo_device_ok(1) demo_sha256_len demo_device_ok(2) io_fine_reads io_fine_reads nvs_open_names(4) _ s] by auto
qed

end
